(* ===== verification/Prelude.thy ===== *)
theory Prelude
  imports Main "HOL-Library.Word"
begin

text \<open>
  Shared material of the development: names for the machine integers of the Rust code, the
  pieces of the Rust standard library the modelled code calls (slices, \<open>binary_search\<close>,
  saturating addition), and the lemmas on lists that several components share.

  Array indexes (\<open>usize\<close>, and the \<open>u32\<close> values the code only uses as indexes after an
  \<open>as usize\<close> cast) are \<open>nat\<close>; quantities whose wrap-around or saturation the code relies on
  (arc weights, times, varint bytes) are \<open>32 word\<close>, \<open>64 word\<close> and \<open>8 word\<close>.
\<close>

type_synonym u8 = "8 word"
type_synonym u16 = "16 word"
type_synonym u32 = "32 word"
type_synonym u64 = "64 word"

named_theorems list_upd \<open>lengths and elements of lists updated in place\<close>
named_theorems inv_intro \<open>introduction rules for component invariants\<close>

type_synonym i64 = "64 word"

section \<open>Saturating sums\<close>

text \<open>\<open>u32::saturating_add\<close>.\<close>

definition saturating_add :: "u32 \<Rightarrow> u32 \<Rightarrow> u32" where
  "saturating_add a b = (if unat a + unat b < 2 ^ 32 then a + b else 0xFFFFFFFF)"

lemma unat_saturating_add: "unat (saturating_add a b) = min (unat a + unat b) (2 ^ 32 - 1)"
  by (auto simp: saturating_add_def unat_word_ariths)

text \<open>Evaluation compares the integer sum.\<close>

lemma saturating_add_code [code]: "saturating_add a b = (if uint a + uint b < 2 ^ 32 then a + b else 0xFFFFFFFF)"
proof -
  have "uint a + uint b < 2 ^ 32 \<longleftrightarrow> int (unat a + unat b) < int (2 ^ 32)"
    by (simp only: uint_nat of_nat_add of_nat_power of_nat_numeral)
  then show ?thesis by (simp only: saturating_add_def of_nat_less_iff)
qed

lemma saturating_add_zero [simp]: "saturating_add a 0 = a"
  using unsigned_less[of a, where ?'a = nat] by (simp add: saturating_add_def)

lemma saturating_add_mono: "a \<le> b \<Longrightarrow> saturating_add a c \<le> saturating_add b c"
  by (simp add: word_le_nat_alt unat_saturating_add)

lemma saturating_add_upper: "a \<le> saturating_add a c"
  using unsigned_less[of a, where ?'a = nat] by (simp add: word_le_nat_alt unat_saturating_add)

section \<open>Fallible code\<close>

text \<open>\<open>Result\<close> values are sums, the error on the left; \<open>result_bind\<close> is the \<open>?\<close> operator.\<close>

fun result_bind :: "'e + 'a \<Rightarrow> ('a \<Rightarrow> 'e + 'b) \<Rightarrow> 'e + 'b" where
  "result_bind (Inl e) f = Inl e"
| "result_bind (Inr x) f = f x"

definition ensure :: "bool \<Rightarrow> 'e \<Rightarrow> 'e + unit" where
  "ensure b e = (if b then Inr () else Inl e)"

lemma result_bind_Inr_iff: "result_bind r f = Inr y \<longleftrightarrow> (\<exists>x. r = Inr x \<and> f x = Inr y)"
  by (cases r) simp_all

lemma result_bind_Inl_iff: "result_bind r f = Inl e \<longleftrightarrow> r = Inl e \<or> (\<exists>x. r = Inr x \<and> f x = Inl e)"
  by (cases r) auto

lemma ensure_simps [simp]: "b \<Longrightarrow> ensure b e = Inr ()" "\<not> b \<Longrightarrow> ensure b e = Inl e"
  by (simp_all add: ensure_def)

section \<open>Slices and in-place updates\<close>

text \<open>\<open>&xs[a..b]\<close>, for \<open>a \<le> b \<le> xs.len()\<close> (the code panics otherwise).\<close>

definition subslice :: "'a list \<Rightarrow> nat \<Rightarrow> nat \<Rightarrow> 'a list" where
  "subslice xs a b = take (b - a) (drop a xs)"

text \<open>\<open>xs.insert(pos, x)\<close>, for \<open>pos \<le> xs.len()\<close>.\<close>

definition insert_at :: "nat \<Rightarrow> 'a \<Rightarrow> 'a list \<Rightarrow> 'a list" where
  "insert_at p x xs = take p xs @ x # drop p xs"

text \<open>\<open>xs[i] += k\<close>.\<close>

definition incr_at :: "nat \<Rightarrow> nat \<Rightarrow> nat list \<Rightarrow> nat list" where
  "incr_at i k xs = xs[i := xs ! i + k]"

lemma length_incr_at [simp, list_upd]: "length (incr_at i k xs) = length xs"
  by (simp add: incr_at_def)

lemma nth_incr_at [list_upd]:
  "j < length xs \<Longrightarrow> incr_at i k xs ! j = (if i = j then xs ! j + k else xs ! j)"
  by (simp add: incr_at_def nth_list_update)

lemma length_insert_at [simp]: "p \<le> length xs \<Longrightarrow> length (insert_at p x xs) = Suc (length xs)"
  by (simp add: insert_at_def)

lemma set_insert_at [simp]: "set (insert_at p x xs) = insert x (set xs)"
proof -
  have "set (take p xs) \<union> set (drop p xs) = set xs"
    by (metis append_take_drop_id set_append)
  then show ?thesis by (auto simp: insert_at_def)
qed

lemma length_subslice: "a \<le> b \<Longrightarrow> b \<le> length xs \<Longrightarrow> length (subslice xs a b) = b - a"
  by (simp add: subslice_def)

lemma nth_subslice: "a + i < b \<Longrightarrow> b \<le> length xs \<Longrightarrow> subslice xs a b ! i = xs ! (a + i)"
  by (simp add: subslice_def)

lemma subslice_map_nth: "b \<le> length xs \<Longrightarrow> map ((!) xs) [a..<b] = subslice xs a b"
  by (intro nth_equalityI) (auto simp: subslice_def)

lemma subslice_append_right:
  "subslice (xs @ ys) (length xs) (length xs + length ys) = ys"
  by (simp add: subslice_def)

text \<open>\<open>sort\<close> followed by \<open>dedup\<close>.\<close>

abbreviation sort_dedup :: "'a::linorder list \<Rightarrow> 'a list" where
  "sort_dedup xs \<equiv> remdups_adj (sort xs)"

lemma remdups_adj_strict: "sorted xs \<Longrightarrow> sorted_wrt (<) (remdups_adj xs)"
proof (induction xs rule: remdups_adj.induct)
  case (3 x y xs)
  have s: "x \<le> y" "\<forall>z\<in>set xs. y \<le> z" "sorted xs" using "3.prems" by auto
  show ?case
  proof (cases "x = y")
    case True
    then show ?thesis using "3.IH"(1) s by simp
  next
    case False
    then have "\<forall>z\<in>set (y # xs). x < z" using s(1,2) by force
    then show ?thesis using "3.IH"(2) False s by simp
  qed
qed simp_all

lemma sort_dedup_strict: "sorted_wrt (<) (sort_dedup xs)"
  by (rule remdups_adj_strict) simp

section \<open>Binary search\<close>

text \<open>
  \<open>slice::binary_search\<close> of the Rust standard library: it halves the size of the window, keeps
  the base when the probed element is greater than the key, and compares once at the end.
\<close>

datatype search_result = Found nat | Insert nat

fun is_found :: "search_result \<Rightarrow> bool" where
  "is_found (Found _) \<longleftrightarrow> True"
| "is_found (Insert _) \<longleftrightarrow> False"

lemma is_found_iff: "is_found r \<longleftrightarrow> (\<exists>i. r = Found i)"
  by (cases r) simp_all

function bs_loop :: "'a::linorder list \<Rightarrow> 'a \<Rightarrow> nat \<Rightarrow> nat \<Rightarrow> nat" where
  "bs_loop xs k base sz =
     (if sz \<le> 1 then base
      else bs_loop xs k (if k < xs ! (base + sz div 2) then base else base + sz div 2)
             (sz - sz div 2))"
  by pat_completeness auto
termination
  by (relation "measure (\<lambda>(xs, k, base, sz). sz)") auto

declare bs_loop.simps [simp del]

definition binary_search :: "'a::linorder list \<Rightarrow> 'a \<Rightarrow> search_result" where
  "binary_search xs k =
     (if xs = [] then Insert 0
      else let base = bs_loop xs k 0 (length xs)
           in if xs ! base = k then Found base
              else Insert (if xs ! base < k then base + 1 else base))"

text \<open>
  The loop keeps two facts: the base is the first index or holds an element not above the key,
  and everything from the end of the window on is above the key.
\<close>

lemma bs_loop_spec:
  assumes "sorted xs" "0 < sz" "base + sz \<le> length xs"
    and "base = 0 \<or> xs ! base \<le> k" "\<forall>i<length xs. base + sz \<le> i \<longrightarrow> k < xs ! i"
  shows "bs_loop xs k base sz < length xs
    \<and> (bs_loop xs k base sz = 0 \<or> xs ! bs_loop xs k base sz \<le> k)
    \<and> (\<forall>i<length xs. bs_loop xs k base sz < i \<longrightarrow> k < xs ! i)"
  using assms
proof (induction xs k base sz rule: bs_loop.induct)
  case (1 xs k base sz)
  show ?case
  proof (cases "sz \<le> 1")
    case True
    have "bs_loop xs k base sz = base"
      using True by (subst bs_loop.simps) simp
    with True "1.prems" show ?thesis by (auto simp: Suc_le_eq)
  next
    case False
    let ?h = "sz div 2" and ?m = "base + sz div 2"
    have m: "?m < length xs" "0 < ?h" "?h < sz"
      using False "1.prems"(3) by linarith+
    let ?b = "if k < xs ! ?m then base else ?m"
    have step: "bs_loop xs k base sz = bs_loop xs k ?b (sz - ?h)"
      using False by (subst bs_loop.simps) simp
    have "\<forall>i<length xs. ?b + (sz - ?h) \<le> i \<longrightarrow> k < xs ! i"
    proof (intro allI impI)
      fix i assume i: "i < length xs" "?b + (sz - ?h) \<le> i"
      show "k < xs ! i"
      proof (cases "k < xs ! ?m")
        case True
        with i have "xs ! ?m \<le> xs ! i"
          using "1.prems"(1) m by (intro sorted_nth_mono) auto
        with True show ?thesis by simp
      next
        case False
        with i m show ?thesis using "1.prems"(5) by simp
      qed
    qed
    moreover have "?b = 0 \<or> xs ! ?b \<le> k" using "1.prems"(4) by auto
    moreover have "?b + (sz - ?h) \<le> length xs" "0 < sz - ?h"
      using "1.prems"(3) m by auto
    ultimately show ?thesis
      unfolding step using "1.IH"[OF False "1.prems"(1)] by blast
  qed
qed

lemma binary_search_window:
  fixes k :: "'a::linorder"
  assumes "sorted_wrt (<) xs" "xs \<noteq> []"
  defines "b \<equiv> bs_loop xs k 0 (length xs)"
  shows "b < length xs" "i < b \<Longrightarrow> xs ! i < k" "i < length xs \<Longrightarrow> b < i \<Longrightarrow> k < xs ! i"
proof -
  have s: "sorted xs" using assms(1) by (simp add: strict_sorted_iff)
  have sp: "b < length xs \<and> (b = 0 \<or> xs ! b \<le> k) \<and> (\<forall>i<length xs. b < i \<longrightarrow> k < xs ! i)"
    unfolding b_def using assms(2) s by (intro bs_loop_spec) auto
  then show "b < length xs" "i < length xs \<Longrightarrow> b < i \<Longrightarrow> k < xs ! i" by auto
  show "xs ! i < k" if "i < b"
  proof -
    have "xs ! i < xs ! b" using assms(1) that sp by (simp add: sorted_wrt_nth_less)
    then show ?thesis using that sp by auto
  qed
qed

text \<open>
  What the code relies on: on a strictly increasing slice the search finds exactly the position
  of the key, and otherwise returns the position at which inserting keeps the slice sorted.
\<close>

locale ordered_search =
  fixes search :: "'a::linorder list \<Rightarrow> 'a \<Rightarrow> search_result"
  assumes found: "sorted_wrt (<) xs \<Longrightarrow> search xs k = Found i \<longleftrightarrow> i < length xs \<and> xs ! i = k"
    and insert_pos: "sorted_wrt (<) xs \<Longrightarrow> search xs k = Insert p \<Longrightarrow>
      p \<le> length xs \<and> (\<forall>i<p. xs ! i < k) \<and> (\<forall>i<length xs. p \<le> i \<longrightarrow> k < xs ! i)"
begin

lemma found_mem: "sorted_wrt (<) xs \<Longrightarrow> (\<exists>i. search xs k = Found i) \<longleftrightarrow> k \<in> set xs"
  by (auto simp: found in_set_conv_nth)

lemma is_found_mem: "sorted_wrt (<) xs \<Longrightarrow> is_found (search xs k) \<longleftrightarrow> k \<in> set xs"
  by (simp add: is_found_iff found_mem)

lemma insert_notin: "sorted_wrt (<) xs \<Longrightarrow> search xs k = Insert p \<Longrightarrow> k \<notin> set xs"
  using found_mem[of xs k] by auto

lemma insert_sorted:
  assumes "sorted_wrt (<) xs" "search xs k = Insert p"
  shows "sorted_wrt (<) (insert_at p k xs)"
proof -
  have p: "p \<le> length xs" "\<And>i. i < p \<Longrightarrow> xs ! i < k"
    "\<And>i. i < length xs \<Longrightarrow> p \<le> i \<Longrightarrow> k < xs ! i"
    using insert_pos[OF assms] by auto
  have l: "\<forall>x\<in>set (take p xs). x < k"
    using p by (auto simp: in_set_conv_nth)
  have r: "\<forall>x\<in>set (drop p xs). k < x"
    using p by (auto simp: in_set_conv_nth)
  have "sorted_wrt (<) (take p xs @ drop p xs)"
    using assms(1) by simp
  then show ?thesis
    using l r unfolding insert_at_def sorted_wrt_append by auto
qed

end

interpretation bs: ordered_search binary_search
proof
  fix xs :: "'a list" and k i p
  assume s: "sorted_wrt (<) xs"
  let ?b = "bs_loop xs k 0 (length xs)"
  note w = binary_search_window[OF s]
  show "binary_search xs k = Found i \<longleftrightarrow> i < length xs \<and> xs ! i = k"
  proof (cases "xs = []")
    case False
    have u: "i = ?b" if "i < length xs" "xs ! i = k" for i
    proof (cases i ?b rule: linorder_cases)
      case less
      then show ?thesis using w(2)[OF False less] that(2) by simp
    next
      case greater
      then show ?thesis using w(3)[OF False that(1) greater] that(2) by simp
    qed
    have b: "?b < length xs" using w(1)[OF False] .
    have r: "binary_search xs k = Found i \<longleftrightarrow> i = ?b \<and> xs ! ?b = k"
      using False by (simp add: binary_search_def Let_def eq_commute[of i])
    show ?thesis unfolding r using u[of i] b by metis
  qed (simp add: binary_search_def)
  assume "binary_search xs k = Insert p"
  then show "p \<le> length xs \<and> (\<forall>i<p. xs ! i < k) \<and> (\<forall>i<length xs. p \<le> i \<longrightarrow> k < xs ! i)"
  proof (cases "xs = []")
    case False
    then have p: "xs ! ?b \<noteq> k" "p = (if xs ! ?b < k then ?b + 1 else ?b)"
      using \<open>binary_search xs k = Insert p\<close>
      by (auto simp: binary_search_def Let_def split: if_splits)
    have b: "?b < length xs" using w(1)[OF False] .
    have "xs ! i < k" if "i < p" for i
    proof (cases "i < ?b")
      case False
      then have "i = ?b" "xs ! ?b < k" using p(2) that by (auto split: if_splits)
      then show ?thesis by simp
    qed (rule w(2)[OF \<open>xs \<noteq> []\<close>])
    moreover have "k < xs ! i" if "i < length xs" "p \<le> i" for i
    proof (cases "?b < i")
      case False
      then have "i = ?b" "\<not> xs ! ?b < k" using p(2) that by (auto split: if_splits)
      then show ?thesis using p(1) by simp
    qed (rule w(3)[OF \<open>xs \<noteq> []\<close> that(1)])
    moreover have "p \<le> length xs" using p(2) b by simp
    ultimately show ?thesis by blast
  qed (simp add: binary_search_def)
qed

text \<open>Writing one value into many slots.\<close>

lemma foldl_reset: "i < length ls \<Longrightarrow> foldl (\<lambda>ls r. ls[r := v]) ls rs ! i = (if i \<in> set rs then v else ls ! i)"
  by (induction rs arbitrary: ls) (auto simp: nth_list_update)

lemma length_foldl_reset: "length (foldl (\<lambda>ls r. ls[r := v]) ls rs) = length ls"
  by (induction rs arbitrary: ls) simp_all

end
