(* ===== verification/Csr.thy ===== *)
theory Csr
  imports Prelude "HOL-Library.Product_Lexorder"
begin

text \<open>
  Compressed sparse rows, the array layout of every adjacency in the engine: \<open>arcs_to_csr\<close> of
  \<open>crates/ingest/src/acceleration.rs\<close> builds the row starts by counting and prefix sums, and
  \<open>find_arc\<close> of \<open>crates/profile/src/compile.rs\<close> (the same code as
  \<open>AccelerationGraph::upward_arc_slot\<close> and \<open>downward_arc_slot\<close> of the query crate) finds the slot
  of an arc by binary search in its row. The lemmas show that on strictly sorted arcs the slot
  found is the position of the arc in the sorted list, which the locale \<open>arc_lookup\<close> states as
  the contract its clients (customization and unpacking) use.
\<close>

section \<open>Counting and prefix sums\<close>

definition count_rows :: "nat list \<Rightarrow> (nat \<times> 'a) list \<Rightarrow> nat list" where
  "count_rows f arcs = foldl (\<lambda>f a. incr_at (Suc (fst a)) 1 f) f arcs"

definition prefix_sums :: "nat \<Rightarrow> nat list \<Rightarrow> nat list" where
  "prefix_sums n f = foldl (\<lambda>f i. incr_at (Suc i) (f ! i) f) f [0..<n]"

definition arcs_to_csr :: "(nat \<times> nat) list \<Rightarrow> nat \<Rightarrow> nat list \<times> nat list" where
  "arcs_to_csr sorted_arcs edge_count =
     (prefix_sums edge_count (count_rows (replicate (edge_count + 1) 0) sorted_arcs),
      map snd sorted_arcs)"

definition csr_row :: "nat list \<Rightarrow> nat list \<Rightarrow> nat \<Rightarrow> nat list" where
  "csr_row first_out heads tail = subslice heads (first_out ! tail) (first_out ! Suc tail)"

definition find_arc :: "nat list \<Rightarrow> nat list \<Rightarrow> nat \<Rightarrow> nat \<Rightarrow> nat option" where
  "find_arc first_out heads tail head =
     (case binary_search (csr_row first_out heads tail) head of
        Found off \<Rightarrow> Some (first_out ! tail + off)
      | Insert _ \<Rightarrow> None)"

lemma length_count_rows [simp]: "length (count_rows f arcs) = length f"
  by (induction arcs arbitrary: f) (auto simp: count_rows_def)

lemma nth_count_rows:
  "j < length f \<Longrightarrow>
    count_rows f arcs ! j = f ! j + length (filter (\<lambda>a. Suc (fst a) = j) arcs)"
proof (induction arcs arbitrary: f)
  case (Cons a arcs)
  have "count_rows f (a # arcs) = count_rows (incr_at (Suc (fst a)) 1 f) arcs"
    by (simp add: count_rows_def)
  then show ?case using Cons by (simp add: nth_incr_at)
qed (simp add: count_rows_def)

lemma prefix_sums_Suc:
  "prefix_sums (Suc n) f = incr_at (Suc n) (prefix_sums n f ! n) (prefix_sums n f)"
  by (simp add: prefix_sums_def)

lemma length_prefix_sums [simp]: "length (prefix_sums n f) = length f"
  by (induction n) (simp add: prefix_sums_def, simp add: prefix_sums_Suc)

lemma nth_prefix_sums:
  "n < length f \<Longrightarrow> j < length f \<Longrightarrow>
    prefix_sums n f ! j = (if j \<le> n then (\<Sum>i\<le>j. f ! i) else f ! j)"
proof (induction n arbitrary: j)
  case 0
  then show ?case by (simp add: prefix_sums_def)
next
  case (Suc n)
  then show ?case
    by (cases "j = Suc n") (auto simp: prefix_sums_Suc nth_incr_at le_Suc_eq)
qed

lemma length_filter_split_eq:
  "length (filter (\<lambda>a. f a < Suc j) xs)
    = length (filter (\<lambda>a. f a < j) xs) + length (filter (\<lambda>a. f a = (j::nat)) xs)"
  by (induction xs) auto

definition row_starts :: "nat \<Rightarrow> (nat \<times> 'a) list \<Rightarrow> nat list" where
  "row_starts n arcs = prefix_sums n (count_rows (replicate (n + 1) 0) arcs)"

lemma length_row_starts [simp]: "length (row_starts n arcs) = Suc n"
  by (simp add: row_starts_def)

lemma row_starts_nth:
  assumes "j \<le> n"
  shows "row_starts n arcs ! j = length (filter (\<lambda>a. fst a < j) arcs)"
proof -
  let ?c = "count_rows (replicate (n + 1) 0) arcs"
  have "row_starts n arcs ! j = (\<Sum>i\<le>j. ?c ! i)"
    using assms by (simp add: row_starts_def nth_prefix_sums)
  also have "\<dots> = (\<Sum>i\<le>j. length (filter (\<lambda>a. Suc (fst a) = i) arcs))"
    using assms by (intro sum.cong) (auto simp: nth_count_rows simp del: replicate_Suc)
  also have "\<dots> = length (filter (\<lambda>a. fst a < j) arcs)"
    by (induction j) (auto simp: length_filter_split_eq)
  finally show ?thesis .
qed

lemma first_out_nth:
  "j \<le> n \<Longrightarrow> fst (arcs_to_csr arcs n) ! j = length (filter (\<lambda>a. fst a < j) arcs)"
  using row_starts_nth[of j n arcs] by (simp add: arcs_to_csr_def row_starts_def)

lemma length_first_out [simp]: "length (fst (arcs_to_csr arcs n)) = Suc n"
  by (simp add: arcs_to_csr_def)

lemma heads_arcs_to_csr [simp]: "snd (arcs_to_csr arcs n) = map snd arcs"
  by (simp add: arcs_to_csr_def)

section \<open>Rows of sorted arcs\<close>

lemma sorted_filter_less_prefix:
  "sorted (map fst arcs) \<Longrightarrow>
    filter (\<lambda>a. fst a < (j::nat)) arcs = take (length (filter (\<lambda>a. fst a < j) arcs)) arcs"
proof (induction arcs)
  case (Cons a arcs)
  show ?case
  proof (cases "fst a < j")
    case False
    then have "filter (\<lambda>a. fst a < j) arcs = []"
      using Cons.prems by (auto simp: filter_empty_conv)
    with False show ?thesis by simp
  qed (use Cons in simp)
qed simp

lemma row_start_less_iff:
  "sorted (map fst arcs) \<Longrightarrow> i < length arcs \<Longrightarrow>
    i < length (filter (\<lambda>a. fst a < (j::nat)) arcs) \<longleftrightarrow> fst (arcs ! i) < j"
proof (induction arcs arbitrary: i)
  case (Cons a arcs)
  show ?case
  proof (cases "fst a < j")
    case False
    then have "filter (\<lambda>a. fst a < j) arcs = []" "\<forall>a\<in>set arcs. j \<le> fst a"
      using Cons.prems by (auto simp: filter_empty_conv)
    with False Cons.prems show ?thesis by (cases i) (auto simp: not_less)
  qed (use Cons in \<open>cases i; simp\<close>)
qed simp

lemma csr_range:
  assumes "sorted (map fst arcs)" "v < n"
  shows "{fst (arcs_to_csr arcs n) ! v ..< fst (arcs_to_csr arcs n) ! (v + 1)}
    = {i. i < length arcs \<and> fst (arcs ! i) = v}"
proof -
  have "i < length arcs" if "i < length (filter (\<lambda>a. fst a < v + 1) arcs)" for i
    by (rule less_le_trans[OF that length_filter_le])
  note lt = this
  have "length (filter (\<lambda>a. fst a < v) arcs) \<le> i \<and> i < length (filter (\<lambda>a. fst a < v + 1) arcs)
      \<longleftrightarrow> i < length arcs \<and> fst (arcs ! i) = v" for i
    using lt[of i] row_start_less_iff[OF assms(1), of i v] row_start_less_iff[OF assms(1), of i "v + 1"]
    by (cases "i < length arcs") linarith+
  moreover have "fst (arcs_to_csr arcs n) ! v = length (filter (\<lambda>a. fst a < v) arcs)"
    "fst (arcs_to_csr arcs n) ! (v + 1) = length (filter (\<lambda>a. fst a < v + 1) arcs)"
    using assms(2) by (simp_all add: first_out_nth)
  ultimately show ?thesis by (simp only: set_eq_iff atLeastLessThan_iff mem_Collect_eq) simp
qed

lemma csr_row_eq:
  assumes "sorted (map fst arcs)" "t < n"
  shows "csr_row (fst (arcs_to_csr arcs n)) (map snd arcs) t
    = map snd (filter (\<lambda>a. fst a = t) arcs)"
proof -
  let ?l = "\<lambda>j. length (filter (\<lambda>a. fst a < j) arcs)"
  have "take (?l (Suc t)) arcs = filter (\<lambda>a. fst a < Suc t) arcs"
    using sorted_filter_less_prefix[OF assms(1)] by simp
  also have "\<dots> = filter (\<lambda>a. fst a < t) arcs @ filter (\<lambda>a. fst a = t) arcs"
    using assms(1)
  proof (induction arcs)
    case (Cons a arcs)
    have "fst a = t \<Longrightarrow> filter (\<lambda>a. fst a < t) arcs = []"
      using Cons.prems by (auto simp: filter_empty_conv)
    then show ?case using Cons by auto
  qed simp
  finally have "drop (?l t) (take (?l (Suc t)) arcs) = filter (\<lambda>a. fst a = t) arcs"
    by simp
  moreover have "?l t \<le> ?l (Suc t)" by (simp add: length_filter_split_eq)
  ultimately show ?thesis
    using assms(2)
    by (simp add: csr_row_def subslice_def first_out_nth drop_take drop_map take_map)
qed

definition sorted_arcs :: "nat \<Rightarrow> (nat \<times> nat) list \<Rightarrow> bool" where
  "sorted_arcs n arcs \<longleftrightarrow> sorted_wrt (<) arcs \<and> (\<forall>a\<in>set arcs. fst a < n)"

lemma sorted_arcs_fst: "sorted_arcs n arcs \<Longrightarrow> sorted (map fst arcs)"
  unfolding sorted_arcs_def sorted_wrt_map
  by (elim conjE sorted_wrt_mono_rel[rotated]) (auto simp: less_prod_def)

lemma sorted_arcs_distinct: "sorted_arcs n arcs \<Longrightarrow> distinct arcs"
  by (simp add: sorted_arcs_def strict_sorted_iff)

lemma sorted_arcs_row:
  assumes "sorted_arcs n arcs"
  shows "sorted_wrt (<) (map snd (filter (\<lambda>a. fst a = t) arcs))"
proof -
  have "sorted_wrt (<) (filter (\<lambda>a. fst a = t) arcs)"
    using assms by (simp add: sorted_arcs_def sorted_wrt_filter)
  then show ?thesis
    unfolding sorted_wrt_map by (rule sorted_wrt_mono_rel[rotated]) (auto simp: less_prod_def)
qed

lemma nth_filter_fst:
  "sorted (map fst arcs) \<Longrightarrow> i < length (filter (\<lambda>a. fst a = t) arcs) \<Longrightarrow>
    filter (\<lambda>a. fst a = (t::nat)) arcs ! i = arcs ! (length (filter (\<lambda>a. fst a < t) arcs) + i)"
proof (induction arcs arbitrary: i)
  case (Cons a arcs)
  show ?case
  proof (cases "fst a < t")
    case True
    with Cons show ?thesis by simp
  next
    case False
    then have e: "filter (\<lambda>a. fst a < t) arcs = []"
      using Cons.prems by (auto simp: filter_empty_conv)
    show ?thesis
    proof (cases "fst a = t")
      case True
      with Cons e show ?thesis by (cases i) auto
    next
      case False
      with \<open>\<not> fst a < t\<close> have "filter (\<lambda>a. fst a = t) arcs = []"
        using Cons.prems by (auto simp: filter_empty_conv)
      with False Cons.prems show ?thesis by simp
    qed
  qed
qed simp

lemma find_arc_Some:
  assumes s: "sorted_arcs n arcs" and t: "t < n"
  shows "find_arc (fst (arcs_to_csr arcs n)) (map snd arcs) t h = Some slot
    \<longleftrightarrow> slot < length arcs \<and> arcs ! slot = (t, h)"
proof -
  let ?row = "filter (\<lambda>a. fst a = t) arcs"
  let ?k = "length (filter (\<lambda>a. fst a < t) arcs)"
  note fs = sorted_arcs_fst[OF s]
  have row: "csr_row (fst (arcs_to_csr arcs n)) (map snd arcs) t = map snd ?row"
    by (rule csr_row_eq[OF fs t])
  have eq: "find_arc (fst (arcs_to_csr arcs n)) (map snd arcs) t h = Some slot
      \<longleftrightarrow> (\<exists>i. binary_search (map snd ?row) h = Found i \<and> slot = ?k + i)"
    using t by (auto simp: find_arc_def row first_out_nth split: search_result.splits)
  have bound: "?k + length ?row \<le> length arcs"
    using length_filter_split_eq[of fst t arcs] length_filter_le[of "\<lambda>a. fst a < Suc t" arcs]
    by linarith
  have at: "arcs ! (?k + i) = ?row ! i" "fst (?row ! i) = t" if "i < length ?row" for i
    using nth_filter_fst[OF fs that] nth_mem[OF that] by auto
  have pos: "\<exists>i<length ?row. slot = ?k + i" if "slot < length arcs" "arcs ! slot = (t, h)"
  proof -
    have "arcs ! slot \<in> set ?row" using that nth_mem[OF that(1)] by auto
    then obtain i where i: "i < length ?row" "?row ! i = arcs ! slot"
      unfolding in_set_conv_nth by blast
    with at(1)[OF i(1)] bound have "arcs ! (?k + i) = arcs ! slot" "?k + i < length arcs" by auto
    with sorted_arcs_distinct[OF s] that(1) have "?k + i = slot"
      by (simp add: nth_eq_iff_index_eq)
    with i show ?thesis by auto
  qed
  have row_at: "map snd ?row ! i = h \<longleftrightarrow> arcs ! (?k + i) = (t, h)" if "i < length ?row" for i
    using at[OF that] that by (cases "?row ! i") auto
  show ?thesis
    unfolding eq bs.found[OF sorted_arcs_row[OF s]]
  proof
    assume "\<exists>i. (i < length (map snd ?row) \<and> map snd ?row ! i = h) \<and> slot = ?k + i"
    then obtain i where "i < length ?row" "map snd ?row ! i = h" "slot = ?k + i" by auto
    with row_at bound show "slot < length arcs \<and> arcs ! slot = (t, h)" by simp
  next
    assume "slot < length arcs \<and> arcs ! slot = (t, h)"
    with pos obtain i where "i < length ?row" "slot = ?k + i" "arcs ! slot = (t, h)" by auto
    with row_at show "\<exists>i. (i < length (map snd ?row) \<and> map snd ?row ! i = h) \<and> slot = ?k + i"
      by auto
  qed
qed

section \<open>The lookup contract and weight arrays over it\<close>

text \<open>
  A client of a CSR index keeps one array entry per slot. The contract is that the lookup finds
  exactly the slots of the arc list; the locale then shows how reading and updating the entry of
  an arc behave, whatever the array holds.
\<close>

locale arc_lookup =
  fixes valid :: "'c \<Rightarrow> bool"
    and rows :: "'c \<Rightarrow> nat"
    and arcs :: "'c \<Rightarrow> (nat \<times> nat) list"
    and find :: "'c \<Rightarrow> nat \<Rightarrow> nat \<Rightarrow> nat option"
  assumes find_some: "valid c \<Longrightarrow> x < rows c \<Longrightarrow>
      find c x y = Some s \<longleftrightarrow> s < length (arcs c) \<and> arcs c ! s = (x, y)"
    and arcs_distinct: "valid c \<Longrightarrow> distinct (arcs c)"
begin

lemma find_None: "valid c \<Longrightarrow> x < rows c \<Longrightarrow> find c x y = None \<longleftrightarrow> (x, y) \<notin> set (arcs c)"
  using find_some[of c x y] by (cases "find c x y") (auto simp: in_set_conv_nth)

lemma find_inj:
  "valid c \<Longrightarrow> x < rows c \<Longrightarrow> x' < rows c \<Longrightarrow>
    find c x y = Some s \<Longrightarrow> find c x' y' = Some s \<Longrightarrow> x = x' \<and> y = y'"
  by (simp add: find_some)

lemma find_slot: "valid c \<Longrightarrow> s < length (arcs c) \<Longrightarrow> arcs c ! s = (x, y) \<Longrightarrow> x < rows c \<Longrightarrow>
    find c x y = Some s"
  by (simp add: find_some)

lemma read_after_update:
  assumes "valid c" "x < rows c" "x' < rows c" "find c x y = Some s" "find c x' y' = Some s'"
    and "length ws = length (arcs c)"
  shows "ws[s := w] ! s' = (if x' = x \<and> y' = y then w else ws ! s')"
proof -
  have "s < length ws" "s' < length ws" using assms by (auto simp: find_some)
  moreover have "s = s' \<longleftrightarrow> x' = x \<and> y' = y"
    using assms find_inj[of c x x' y s y'] by auto
  ultimately show ?thesis by (auto simp: nth_list_update)
qed

end

text \<open>The index \<open>arcs_to_csr\<close> builds, as its row count and the sorted arcs it was built from.\<close>

definition csr_find :: "nat \<times> (nat \<times> nat) list \<Rightarrow> nat \<Rightarrow> nat \<Rightarrow> nat option" where
  "csr_find c x y = find_arc (fst (arcs_to_csr (snd c) (fst c))) (snd (arcs_to_csr (snd c) (fst c))) x y"

interpretation csr: arc_lookup "\<lambda>c. sorted_arcs (fst c) (snd c)" fst snd csr_find
proof
  fix c :: "nat \<times> (nat \<times> nat) list" and x y s
  assume v: "sorted_arcs (fst c) (snd c)"
  show "distinct (snd c)" using v by (rule sorted_arcs_distinct)
  assume "x < fst c"
  with v show "csr_find c x y = Some s \<longleftrightarrow> s < length (snd c) \<and> snd c ! s = (x, y)"
    unfolding csr_find_def heads_arcs_to_csr by (rule find_arc_Some)
qed

text \<open>C: building a CSR index and looking an arc up returns the slot the arc has in the sorted list,
  and nothing for an arc that is not there.\<close>

section \<open>Rows of an offset array\<close>

text \<open>A well-formed offset array: \<open>n\<close> adjacent rows that cover \<open>0..<len\<close>.\<close>

definition valid_offsets :: "nat list \<Rightarrow> nat \<Rightarrow> nat \<Rightarrow> bool" where
  "valid_offsets first_out n len \<longleftrightarrow> length first_out = n + 1 \<and> sorted first_out
     \<and> first_out ! 0 = 0 \<and> first_out ! n = len"

definition fill_range :: "'a list \<Rightarrow> nat \<Rightarrow> nat \<Rightarrow> 'a \<Rightarrow> 'a list" where
  "fill_range xs a b v = take a xs @ replicate (b - a) v @ drop b xs"

text \<open>For every entry of a row-indexed array, the row it belongs to.\<close>

definition row_owners :: "nat list \<Rightarrow> nat \<Rightarrow> nat \<Rightarrow> nat list" where
  "row_owners first_out n len =
     foldl (\<lambda>ow row. fill_range ow (first_out ! row) (first_out ! (row + 1)) row)
       (replicate len 0) [0..<n]"

lemma valid_offsetsD:
  assumes "valid_offsets fo n len"
  shows "length fo = n + 1" "i \<le> j \<Longrightarrow> j \<le> n \<Longrightarrow> fo ! i \<le> fo ! j" "i \<le> n \<Longrightarrow> fo ! i \<le> len"
  using assms sorted_nth_mono[of fo] by (fastforce simp: valid_offsets_def)+

lemma nth_fill_range:
  "a \<le> b \<Longrightarrow> b \<le> length xs \<Longrightarrow> i < length xs \<Longrightarrow>
    fill_range xs a b v ! i = (if a \<le> i \<and> i < b then v else xs ! i)"
  by (auto simp: fill_range_def nth_append)

lemma length_fill_range: "a \<le> b \<Longrightarrow> b \<le> length xs \<Longrightarrow> length (fill_range xs a b v) = length xs"
  by (simp add: fill_range_def)

lemma row_owners_upto:
  assumes "valid_offsets fo n len" "m \<le> n"
  shows "length (row_owners fo m len) = len
    \<and> (\<forall>r<m. \<forall>i. fo ! r \<le> i \<and> i < fo ! (r + 1) \<longrightarrow> row_owners fo m len ! i = r)"
  using assms(2)
proof (induction m)
  case (Suc m)
  let ?p = "row_owners fo m len"
  have e: "row_owners fo (Suc m) len = fill_range ?p (fo ! m) (fo ! (m + 1)) m"
    by (simp add: row_owners_def)
  have b: "fo ! m \<le> fo ! (m + 1)" "fo ! (m + 1) \<le> len"
    using valid_offsetsD(2,3)[OF assms(1)] Suc.prems by auto
  have l: "length ?p = len" using Suc by simp
  have "row_owners fo (Suc m) len ! i = r" if "r < Suc m" "fo ! r \<le> i" "i < fo ! (r + 1)" for r i
  proof -
    have "fo ! (r + 1) \<le> len" using valid_offsetsD(3)[OF assms(1)] that(1) Suc.prems by simp
    then have i: "i < length ?p" using that l by simp
    show ?thesis
    proof (cases "r = m")
      case False
      then have "fo ! (r + 1) \<le> fo ! m" "r < m"
        using valid_offsetsD(2)[OF assms(1), of "r + 1" m] that(1) Suc.prems by auto
      then show ?thesis using Suc that i b l by (simp add: e nth_fill_range)
    qed (use that i b l in \<open>simp add: e nth_fill_range\<close>)
  qed
  then show ?case using b l by (simp add: e length_fill_range)
qed (simp add: row_owners_def)

lemma row_owners_nth:
  "valid_offsets fo n len \<Longrightarrow> r < n \<Longrightarrow> fo ! r \<le> i \<Longrightarrow> i < fo ! (r + 1) \<Longrightarrow> row_owners fo n len ! i = r"
  using row_owners_upto[of fo n len n] by simp

lemma length_row_owners: "valid_offsets fo n len \<Longrightarrow> length (row_owners fo n len) = len"
  using row_owners_upto[of fo n len n] by simp

lemma csr_valid_offsets:
  assumes "\<forall>a\<in>set arcs. fst a < n"
  shows "valid_offsets (fst (arcs_to_csr arcs n)) n (length arcs)"
proof -
  have "length (filter (\<lambda>a. fst a < i) arcs) \<le> length (filter (\<lambda>a. fst a < j) arcs)" if "i \<le> j" for i j
    using that by (induction arcs) auto
  then have "sorted (fst (arcs_to_csr arcs n))"
    by (auto simp: sorted_iff_nth_mono first_out_nth)
  moreover have "filter (\<lambda>a. fst a < n) arcs = arcs" using assms by (simp add: filter_id_conv)
  ultimately show ?thesis by (simp add: valid_offsets_def first_out_nth)
qed

lemma csr_row_owners:
  assumes "sorted (map fst arcs)" "\<forall>a\<in>set arcs. fst a < n" "i < length arcs"
  shows "row_owners (fst (arcs_to_csr arcs n)) n (length arcs) ! i = fst (arcs ! i)"
proof -
  have v: "fst (arcs ! i) < n" using assms(2,3) by simp
  have "i \<in> {fst (arcs_to_csr arcs n) ! fst (arcs ! i) ..< fst (arcs_to_csr arcs n) ! (fst (arcs ! i) + 1)}"
    using csr_range[OF assms(1) v] assms(3) by simp
  then show ?thesis by (intro row_owners_nth[OF csr_valid_offsets[OF assms(2)] v]) auto
qed

section \<open>Counting sort\<close>

text \<open>
  The second array pattern of the engine: items are scattered into the rows of their keys with a
  vector of write positions that starts as a copy of the row starts
  (\<open>reverse_downward_index\<close>, \<open>group_downward_by_head\<close>, the incoming and reverse adjacencies of
  the routing graph, \<open>order_by_run\<close> of the timetable pack). The result is the stable grouping:
  row \<open>k\<close> holds exactly the items of key \<open>k\<close>, in input order.
\<close>

definition scatter_step :: "nat list \<times> 'a list \<Rightarrow> nat \<times> 'a \<Rightarrow> nat list \<times> 'a list" where
  "scatter_step s a = (incr_at (fst a) 1 (fst s), (snd s)[fst s ! fst a := snd a])"

definition group_by_key :: "nat \<Rightarrow> 'a \<Rightarrow> (nat \<times> 'a) list \<Rightarrow> nat list \<times> 'a list" where
  "group_by_key n dflt items =
     (let first_out = row_starts n items
      in (first_out,
          snd (foldl scatter_step (take n first_out, replicate (length items) dflt) items)))"

definition scattered :: "nat \<Rightarrow> (nat \<times> 'a) list \<Rightarrow> (nat \<times> 'a) list \<Rightarrow> nat list \<times> 'a list \<Rightarrow> bool" where
  "scattered n items done_items s \<longleftrightarrow>
     length (fst s) = n \<and> length (snd s) = length items
     \<and> (\<forall>k<n. fst s ! k = row_starts n items ! k + length (filter (\<lambda>a. fst a = k) done_items))
     \<and> (\<forall>k<n. \<forall>i<length (filter (\<lambda>a. fst a = k) done_items).
          snd s ! (row_starts n items ! k + i) = snd (filter (\<lambda>a. fst a = k) done_items ! i))"

lemma row_starts_Suc:
  "k < n \<Longrightarrow> row_starts n items ! Suc k
    = row_starts n items ! k + length (filter (\<lambda>a. fst a = k) items)"
  by (simp add: row_starts_nth length_filter_split_eq)

lemma row_starts_mono: "j \<le> k \<Longrightarrow> k \<le> n \<Longrightarrow> row_starts n items ! j \<le> row_starts n items ! k"
proof (induction k)
  case (Suc k)
  then show ?case using row_starts_Suc[of k n items] by (cases "j = Suc k") auto
qed simp

lemma row_starts_bound: "k \<le> n \<Longrightarrow> row_starts n items ! k \<le> length items"
  by (simp add: row_starts_nth)

lemma row_position:
  assumes "k < n" "i < length (filter (\<lambda>a. fst a = k) items)"
  shows "row_starts n items ! k + i < row_starts n items ! Suc k"
    "row_starts n items ! k + i < length items"
  using assms row_starts_Suc[of k n items] row_starts_bound[of "Suc k" n items] by auto

lemma row_positions_differ:
  assumes "k < n" "k' < n" "k \<noteq> k'"
    and "i < length (filter (\<lambda>a. fst a = k) items)" "i' < length (filter (\<lambda>a. fst a = k') items)"
  shows "row_starts n items ! k + i \<noteq> row_starts n items ! k' + i'"
proof (cases "k < k'")
  case True
  then show ?thesis
    using row_position(1)[OF assms(1,4)] row_starts_mono[of "Suc k" k' n items] assms(2) by simp
next
  case False
  then show ?thesis
    using row_position(1)[OF assms(2,5)] row_starts_mono[of "Suc k'" k n items] assms(1,3) by simp
qed

lemma scattered_step:
  assumes inv: "scattered n items ps s" and split: "items = ps @ a # qs" and k: "fst a < n"
  shows "scattered n items (ps @ [a]) (scatter_step s a)"
proof -
  let ?c = "\<lambda>k xs. length (filter (\<lambda>a. fst a = k) xs)"
  let ?p = "row_starts n items ! fst a + ?c (fst a) ps"
  have le: "?c k ps \<le> ?c k items" for k by (simp add: split)
  have lt: "?c (fst a) ps < ?c (fst a) items" by (simp add: split)
  have p: "fst s ! fst a = ?p" "?p < length (snd s)"
    using inv k row_position(2)[OF k lt] by (auto simp: scattered_def)
  have "snd (scatter_step s a) ! (row_starts n items ! k' + i)
      = snd (filter (\<lambda>a. fst a = k') (ps @ [a]) ! i)"
    if k': "k' < n" and i: "i < ?c k' (ps @ [a])" for k' i
  proof (cases "k' = fst a \<and> i = ?c (fst a) ps")
    case True
    then show ?thesis using p by (simp add: scatter_step_def nth_append)
  next
    case False
    then have i': "i < ?c k' ps" using i by (auto split: if_splits)
    have "row_starts n items ! k' + i \<noteq> ?p"
    proof (cases "k' = fst a")
      case True
      then show ?thesis using i' by simp
    next
      case False
      have "i < ?c k' items" using i' le[of k'] by simp
      then show ?thesis using row_positions_differ[OF k' k False _ lt] by simp
    qed
    then show ?thesis
      using inv k' i' p by (auto simp: scatter_step_def scattered_def nth_append)
  qed
  then show ?thesis
    using inv k by (auto simp: scattered_def scatter_step_def nth_incr_at)
qed

lemma scattered_all:
  "scattered n items ps s \<Longrightarrow> items = ps @ qs \<Longrightarrow> \<forall>a\<in>set qs. fst a < n \<Longrightarrow>
    scattered n items items (foldl scatter_step s qs)"
proof (induction qs arbitrary: ps s)
  case (Cons a qs)
  then show ?case using scattered_step[of n items ps s a qs] Cons.IH[of "ps @ [a]"] by simp
qed simp

lemma length_group_by_key [simp]: "length (snd (group_by_key n dflt items)) = length items"
proof -
  have "length (snd (foldl scatter_step s xs)) = length (snd s)" for s :: "nat list \<times> 'a list" and xs
    by (induction xs arbitrary: s) (simp_all add: scatter_step_def)
  then show ?thesis by (simp add: group_by_key_def Let_def)
qed

lemma group_by_key_offsets:
  assumes "\<forall>a\<in>set items. fst a < n"
  shows "valid_offsets (fst (group_by_key n dflt items)) n (length items)"
proof -
  have "filter (\<lambda>a. fst a < n) items = items" using assms by (simp add: filter_id_conv)
  then show ?thesis
    using row_starts_mono[of _ _ n items]
    by (auto simp: valid_offsets_def group_by_key_def Let_def row_starts_nth sorted_iff_nth_mono)
qed

theorem group_by_key_row:
  assumes "\<forall>a\<in>set items. fst a < n" "k < n"
  shows "subslice (snd (group_by_key n dflt items))
      (fst (group_by_key n dflt items) ! k) (fst (group_by_key n dflt items) ! Suc k)
    = map snd (filter (\<lambda>a. fst a = k) items)"
proof -
  have "scattered n items [] (take n (row_starts n items), replicate (length items) dflt)"
    by (auto simp: scattered_def)
  then have s: "scattered n items items
      (foldl scatter_step (take n (row_starts n items), replicate (length items) dflt) items)"
    by (rule scattered_all) (use assms in auto)
  let ?row = "filter (\<lambda>a. fst a = k) items" and ?out = "snd (group_by_key n dflt items)"
  have ob: "length ?out = length items"
    "i < length ?row \<Longrightarrow> ?out ! (row_starts n items ! k + i) = snd (?row ! i)" for i
    using s assms(2) by (auto simp: scattered_def group_by_key_def Let_def)
  have e: "fst (group_by_key n dflt items) = row_starts n items"
    by (simp add: group_by_key_def Let_def)
  have b: "row_starts n items ! Suc k \<le> length ?out"
    using row_starts_bound[of "Suc k" n items] assms(2) ob(1) by simp
  have m: "row_starts n items ! k \<le> row_starts n items ! Suc k"
    using assms(2) by (intro row_starts_mono) auto
  show ?thesis
  proof (rule nth_equalityI)
    show l: "length (subslice ?out (fst (group_by_key n dflt items) ! k)
        (fst (group_by_key n dflt items) ! Suc k)) = length (map snd ?row)"
      using b m row_starts_Suc[OF assms(2), of items] by (simp add: e length_subslice)
    fix i assume "i < length (subslice ?out (fst (group_by_key n dflt items) ! k)
        (fst (group_by_key n dflt items) ! Suc k))"
    then have i: "i < length ?row" using l by simp
    then have "row_starts n items ! k + i < row_starts n items ! Suc k"
      using row_position(1)[OF assms(2)] by blast
    then show "subslice ?out (fst (group_by_key n dflt items) ! k)
        (fst (group_by_key n dflt items) ! Suc k) ! i = map snd ?row ! i"
      using i ob(2) b by (simp add: e nth_subslice)
  qed
qed

end
