(* ===== verification/Cch_Build.thy ===== *)
theory Cch_Build
  imports Csr
begin

text \<open>
  The metric-independent hierarchy (\<open>build_with_order\<close> of
  \<open>crates/ingest/src/acceleration.rs\<close>): edge states are contracted in the given order, and
  contracting \<open>v\<close> inserts an arc \<open>x \<rightarrow> y\<close> for every pair of arcs \<open>x \<rightarrow> v\<close>, \<open>v \<rightarrow> y\<close> whose other
  endpoints outrank \<open>v\<close>. The model keeps the pending adjacency of the code (one sorted list of
  \<open>(other << 1) | outgoing\<close> keys per owner) and its emission into the upward and downward
  stores. The lemmas relate it to the elimination closure, an inductive relation: the arcs
  emitted are exactly that closure, without duplicates, and the counters count them.
\<close>

section \<open>Data\<close>

text \<open>The transition half of \<open>EdgeBasedTopology\<close> (core \<open>graph.rs\<close>), with the edge count.\<close>

record transitions =
  edge_count :: nat
  edge_transition_first_out :: "nat list"
  edge_transition_edges :: "nat list"

record acceleration_stats =
  base_arc_count :: nat
  shortcut_arc_count :: nat
  total_arc_count :: nat

record acceleration_bundle =
  stats :: acceleration_stats
  edge_order :: "nat list"
  edge_rank :: "nat list"
  upward_first_out :: "nat list"
  upward_head :: "nat list"
  downward_first_out :: "nat list"
  downward_head :: "nat list"

record build_state =
  pending :: "nat list list"
  upward :: "(nat \<times> nat) list"
  downward :: "(nat \<times> nat) list"
  base_count :: nat
  shortcut_count :: nat

definition has_transitions :: "transitions \<Rightarrow> bool" where
  "has_transitions t \<longleftrightarrow> length (edge_transition_first_out t) = edge_count t + 1"

definition transition_row :: "transitions \<Rightarrow> nat \<Rightarrow> nat list" where
  "transition_row t e =
     subslice (edge_transition_edges t)
       (edge_transition_first_out t ! e) (edge_transition_first_out t ! (e + 1))"

section \<open>Operations\<close>

definition ranks_of_order :: "nat \<Rightarrow> nat list \<Rightarrow> nat list" where
  "ranks_of_order n order = foldl (\<lambda>r (rank, e). r[e := rank]) (replicate n 0) (enumerate 0 order)"

definition pending_key :: "nat \<Rightarrow> bool \<Rightarrow> nat" where
  "pending_key other outgoing = other * 2 + (if outgoing then 1 else 0)"

definition insert_pending :: "nat list list \<Rightarrow> nat \<Rightarrow> nat \<Rightarrow> bool \<Rightarrow> nat list list \<times> bool" where
  "insert_pending pend owner other outgoing =
     (let key = pending_key other outgoing; row = pend ! owner
      in case binary_search row key of
           Found _ \<Rightarrow> (pend, False)
         | Insert position \<Rightarrow> (pend[owner := insert_at position key row], True))"

text \<open>The arc \<open>tail \<rightarrow> head\<close> belongs to its lower-ranked endpoint.\<close>

definition insert_arc :: "nat list \<Rightarrow> nat list list \<Rightarrow> nat \<Rightarrow> nat \<Rightarrow> nat list list \<times> bool" where
  "insert_arc rank pend tail head =
     (if rank ! tail < rank ! head then insert_pending pend tail head True
      else insert_pending pend head tail False)"

definition add_base_arc :: "nat list \<Rightarrow> nat \<Rightarrow> build_state \<Rightarrow> nat \<times> nat \<Rightarrow> build_state" where
  "add_base_arc rank n s = (\<lambda>(edge, next_edge).
     if next_edge = edge \<or> n \<le> next_edge then s
     else let (pend, new) = insert_arc rank (pending s) edge next_edge
          in s\<lparr>pending := pend, base_count := base_count s + (if new then 1 else 0)\<rparr>)"

definition add_shortcut :: "nat list \<Rightarrow> build_state \<Rightarrow> nat \<times> nat \<Rightarrow> build_state" where
  "add_shortcut rank s = (\<lambda>(tail, head).
     if tail = head then s
     else let (pend, new) = insert_arc rank (pending s) tail head
          in s\<lparr>pending := pend, shortcut_count := shortcut_count s + (if new then 1 else 0)\<rparr>)"

definition contract :: "nat list \<Rightarrow> build_state \<Rightarrow> nat \<Rightarrow> build_state" where
  "contract rank s v =
     (let owned = pending s ! v;
          outgoing = map (\<lambda>k. k div 2) (filter odd owned);
          incoming = map (\<lambda>k. k div 2) (filter even owned);
          s = s\<lparr>pending := (pending s)[v := []],
                upward := upward s @ map (\<lambda>head. (v, head)) outgoing,
                downward := downward s @ map (\<lambda>tail. (tail, v)) incoming\<rparr>
      in foldl (add_shortcut rank) s (List.product incoming outgoing))"

definition base_pairs :: "transitions \<Rightarrow> (nat \<times> nat) list" where
  "base_pairs t = (if has_transitions t
     then concat (map (\<lambda>e. map (Pair e) (transition_row t e)) [0..<edge_count t]) else [])"

definition init_state :: "nat \<Rightarrow> build_state" where
  "init_state n = \<lparr>pending = replicate n [], upward = [], downward = [],
     base_count = 0, shortcut_count = 0\<rparr>"

definition eliminate :: "transitions \<Rightarrow> nat list \<Rightarrow> build_state" where
  "eliminate t order =
     (let n = edge_count t; rank = ranks_of_order n order;
          s = foldl (add_base_arc rank n) (init_state n) (base_pairs t)
      in foldl (contract rank) s order)"

definition build_with_order :: "transitions \<Rightarrow> nat list \<Rightarrow> acceleration_bundle" where
  "build_with_order t order =
     (let n = edge_count t; s = eliminate t order;
          up = arcs_to_csr (sort (upward s)) n; down = arcs_to_csr (sort (downward s)) n
      in \<lparr>stats = \<lparr>base_arc_count = base_count s, shortcut_arc_count = shortcut_count s,
                   total_arc_count = base_count s + shortcut_count s\<rparr>,
          edge_order = order, edge_rank = ranks_of_order n order,
          upward_first_out = fst up, upward_head = snd up,
          downward_first_out = fst down, downward_head = snd down\<rparr>)"

section \<open>Specification: the elimination closure\<close>

inductive elim_arc :: "(nat \<times> nat) set \<Rightarrow> (nat \<Rightarrow> nat) \<Rightarrow> nat \<Rightarrow> nat \<Rightarrow> bool" for B r where
  base: "(x, y) \<in> B \<Longrightarrow> elim_arc B r x y"
| shortcut: "elim_arc B r x v \<Longrightarrow> elim_arc B r v y \<Longrightarrow> r v < r x \<Longrightarrow> r v < r y \<Longrightarrow> x \<noteq> y
    \<Longrightarrow> elim_arc B r x y"

definition base_arcs :: "transitions \<Rightarrow> (nat \<times> nat) set" where
  "base_arcs t = {(x, y) \<in> set (base_pairs t). x \<noteq> y \<and> y < edge_count t}"

definition is_order :: "nat \<Rightarrow> nat list \<Rightarrow> bool" where
  "is_order n order \<longleftrightarrow> distinct order \<and> set order = {0..<n}"

section \<open>Ranks\<close>

lemma length_ranks_of_order [simp]: "length (ranks_of_order n order) = n"
proof -
  have "length (foldl (\<lambda>r (rank, e). r[e := rank]) r0 xs) = length r0" for r0 :: "nat list" and xs
    by (induction xs arbitrary: r0) auto
  then show ?thesis by (simp add: ranks_of_order_def)
qed

lemma foldl_assign_nth:
  "distinct (map snd ps) \<Longrightarrow> e < length r \<Longrightarrow>
    foldl (\<lambda>r (rank, e). r[e := rank]) r ps ! e
      = (case map_of (map prod.swap ps) e of None \<Rightarrow> r ! e | Some k \<Rightarrow> k)"
proof (induction ps arbitrary: r)
  case (Cons p ps)
  obtain k x where p: "p = (k, x)" by (cases p)
  have "x = e \<Longrightarrow> map_of (map prod.swap ps) e = None"
    using Cons.prems p by (auto simp: map_of_eq_None_iff image_image)
  then show ?case using Cons p by (auto simp: nth_list_update split: option.splits)
qed simp

lemma ranks_of_order_nth:
  assumes "is_order n order" "i < n"
  shows "ranks_of_order n order ! (order ! i) = i" "order ! i < n" "length order = n"
proof -
  have d: "distinct order" "set order = {0..<n}" using assms by (auto simp: is_order_def)
  show l: "length order = n" using d distinct_card[of order] by simp
  then show lt: "order ! i < n" using assms(2) nth_mem[of i order] d by auto
  have "map_of (map prod.swap (enumerate 0 order)) (order ! i) = Some i"
    using d(1) assms(2) l
    by (intro map_of_is_SomeI) (auto simp: o_def in_set_enumerate_eq image_iff Bex_def)
  then show "ranks_of_order n order ! (order ! i) = i"
    using lt d(1) by (simp add: ranks_of_order_def foldl_assign_nth)
qed

lemma ranks_inj:
  assumes "is_order n order" "x < n" "y < n" "ranks_of_order n order ! x = ranks_of_order n order ! y"
  shows "x = y"
proof -
  have "\<exists>i<n. order ! i = z" if "z < n" for z
    using assms(1) that ranks_of_order_nth(3)[OF assms(1), of 0]
    by (metis atLeast0LessThan in_set_conv_nth is_order_def lessThan_iff not_less_zero
        gr_zeroI ranks_of_order_nth(3))
  then show ?thesis using assms ranks_of_order_nth(1)[OF assms(1)] by metis
qed

section \<open>The pending lists as a set of arcs\<close>

definition key_arc :: "nat \<Rightarrow> nat \<Rightarrow> nat \<times> nat" where
  "key_arc owner k = (if odd k then (owner, k div 2) else (k div 2, owner))"

definition pending_arcs :: "nat list list \<Rightarrow> (nat \<times> nat) set" where
  "pending_arcs pend = (\<Union>ow < length pend. key_arc ow ` set (pend ! ow))"

definition valid_pending :: "nat list \<Rightarrow> nat list list \<Rightarrow> bool" where
  "valid_pending rank pend \<longleftrightarrow> length pend = length rank
     \<and> (\<forall>ow<length pend. sorted_wrt (<) (pend ! ow)
          \<and> (\<forall>k\<in>set (pend ! ow). k div 2 < length rank \<and> rank ! ow < rank ! (k div 2)))"

definition lower_end :: "nat list \<Rightarrow> nat \<Rightarrow> nat \<Rightarrow> nat" where
  "lower_end rank x y = (if rank ! x < rank ! y then x else y)"

lemma key_arc_pending_key:
  "key_arc ow (pending_key other True) = (ow, other)" "key_arc ow (pending_key other False) = (other, ow)"
  by (simp_all add: key_arc_def pending_key_def)

lemma pending_key_inj: "pending_key a b = pending_key c d \<longleftrightarrow> a = c \<and> b = d"
  by (auto simp: pending_key_def split: if_splits) presburger+

lemma pending_key_div [simp]: "pending_key other b div 2 = other"
  by (simp add: pending_key_def)

lemma key_of_pending_key: "k = pending_key (k div 2) (odd k)"
  unfolding pending_key_def by presburger

lemma pending_arcs_iff:
  "a \<in> pending_arcs pend \<longleftrightarrow> (\<exists>ow<length pend. \<exists>k\<in>set (pend ! ow). key_arc ow k = a)"
  unfolding pending_arcs_def UN_iff image_iff lessThan_iff by (auto simp: eq_commute)

lemma valid_pendingD:
  "valid_pending rank pend \<Longrightarrow> ow < length rank \<Longrightarrow> k \<in> set (pend ! ow) \<Longrightarrow>
    k div 2 < length rank \<and> rank ! ow < rank ! (k div 2)"
  by (simp add: valid_pending_def)

lemma mem_pending_arcs:
  assumes "valid_pending rank pend" "x < length rank" "y < length rank" "rank ! x \<noteq> rank ! y"
  shows "(x, y) \<in> pending_arcs pend \<longleftrightarrow>
    (if rank ! x < rank ! y then pending_key y True \<in> set (pend ! x)
     else pending_key x False \<in> set (pend ! y))"
proof -
  have "(x, y) \<in> pending_arcs pend \<longleftrightarrow>
      (\<exists>ow<length pend. \<exists>k\<in>set (pend ! ow). key_arc ow k = (x, y))"
    by (rule pending_arcs_iff)
  also have "\<dots> \<longleftrightarrow> pending_key y True \<in> set (pend ! x) \<and> rank ! x < rank ! y
      \<or> pending_key x False \<in> set (pend ! y) \<and> rank ! y < rank ! x" (is "?l \<longleftrightarrow> ?r")
  proof
    assume ?l
    then obtain ow k where ok: "ow < length pend" "k \<in> set (pend ! ow)" "key_arc ow k = (x, y)" by blast
    have "rank ! ow < rank ! (k div 2)" using assms(1) ok by (auto simp: valid_pending_def)
    with ok show ?r
      using key_of_pending_key[of k] by (auto simp: key_arc_def split: if_splits)
  next
    have len: "length pend = length rank" using assms(1) by (simp add: valid_pending_def)
    assume ?r
    then show ?l
      using assms(2,3) len key_arc_pending_key by (metis (full_types))
  qed
  finally show ?thesis using assms(4) by auto
qed

lemma pending_arcs_bounds:
  assumes "valid_pending rank pend" "(x, y) \<in> pending_arcs pend"
  shows "x < length rank" "y < length rank" "rank ! x \<noteq> rank ! y"
proof -
  obtain ow k where k: "ow < length rank" "k \<in> set (pend ! ow)" "key_arc ow k = (x, y)"
    using assms by (auto simp: pending_arcs_iff valid_pending_def)
  with valid_pendingD[OF assms(1) k(1,2)]
  show "x < length rank" "y < length rank" "rank ! x \<noteq> rank ! y"
    by (auto simp: key_arc_def split: if_splits)
qed

lemma pending_arcs_update:
  "ow < length pend \<Longrightarrow> pending_arcs (pend[ow := insert_at p k (pend ! ow)])
     = insert (key_arc ow k) (pending_arcs pend)" if "p \<le> length (pend ! ow)"
proof -
  assume ow: "ow < length pend"
  have "a \<in> pending_arcs (pend[ow := insert_at p k (pend ! ow)])
      \<longleftrightarrow> a = key_arc ow k \<or> a \<in> pending_arcs pend" for a
    unfolding pending_arcs_iff using ow that
    by (auto simp: nth_list_update split: if_splits)
  then show ?thesis by blast
qed

lemma insert_pending_correct:
  assumes v: "valid_pending rank pend" and ow: "ow < length rank" "other < length rank"
    and r: "rank ! ow < rank ! other"
  shows "case insert_pending pend ow other b of (pend', new) \<Rightarrow>
      valid_pending rank pend' \<and> pending_arcs pend' = insert (key_arc ow (pending_key other b)) (pending_arcs pend)
      \<and> (new \<longleftrightarrow> key_arc ow (pending_key other b) \<notin> pending_arcs pend)
      \<and> sum_list (map length pend') = sum_list (map length pend) + (if new then 1 else 0)
      \<and> (\<forall>i. i \<noteq> ow \<longrightarrow> pend' ! i = pend ! i)"
proof -
  let ?k = "pending_key other b" and ?row = "pend ! ow"
  have len: "length pend = length rank" and srt: "sorted_wrt (<) ?row"
    using v ow by (auto simp: valid_pending_def)
  have mem: "key_arc ow ?k \<in> pending_arcs pend \<longleftrightarrow> ?k \<in> set ?row"
    using mem_pending_arcs[OF v ow] mem_pending_arcs[OF v ow(2,1)] r
    by (cases b) (auto simp: key_arc_pending_key)
  show ?thesis
  proof (cases "binary_search ?row ?k")
    case (Found i)
    then have "?k \<in> set ?row" using bs.found_mem[OF srt] by blast
    with Found mem v show ?thesis
      by (auto simp: insert_pending_def Let_def insert_absorb)
  next
    case (Insert p)
    have notin: "?k \<notin> set ?row" using bs.insert_notin[OF srt Insert] .
    have p: "p \<le> length ?row" using bs.insert_pos[OF srt Insert] by simp
    let ?pend = "pend[ow := insert_at p ?k ?row]"
    have "valid_pending rank ?pend"
      using v bs.insert_sorted[OF srt Insert] ow r
      by (auto simp: valid_pending_def nth_list_update)
    moreover have "pending_arcs ?pend = insert (key_arc ow ?k) (pending_arcs pend)"
      using pending_arcs_update[OF p] ow len by simp
    moreover have "sum_list (map length ?pend) = sum_list (map length pend) + 1"
      using ow len p by (simp add: map_update sum_list_update)
    ultimately show ?thesis
      using Insert notin mem by (auto simp: insert_pending_def Let_def)
  qed
qed

lemma insert_arc_correct:
  assumes v: "valid_pending rank pend" and b: "x < length rank" "y < length rank"
    and r: "rank ! x \<noteq> rank ! y"
  shows "case insert_arc rank pend x y of (pend', new) \<Rightarrow>
      valid_pending rank pend' \<and> pending_arcs pend' = insert (x, y) (pending_arcs pend)
      \<and> (new \<longleftrightarrow> (x, y) \<notin> pending_arcs pend)
      \<and> sum_list (map length pend') = sum_list (map length pend) + (if new then 1 else 0)
      \<and> (\<forall>i. i \<noteq> lower_end rank x y \<longrightarrow> pend' ! i = pend ! i)"
proof (cases "rank ! x < rank ! y")
  case True
  then show ?thesis
    using insert_pending_correct[OF v b True, of True]
    by (simp add: insert_arc_def lower_end_def key_arc_pending_key)
next
  case False
  then have "rank ! y < rank ! x" using r by simp
  then show ?thesis
    using insert_pending_correct[OF v b(2,1), of False] False
    by (simp add: insert_arc_def lower_end_def key_arc_pending_key)
qed

section \<open>One contraction\<close>

definition rank_inj :: "nat list \<Rightarrow> bool" where
  "rank_inj rank \<longleftrightarrow> (\<forall>x<length rank. \<forall>y<length rank. rank ! x = rank ! y \<longrightarrow> x = y)"

definition pending_size :: "build_state \<Rightarrow> nat" where
  "pending_size s = sum_list (map length (pending s))"

lemma add_base_arcs:
  assumes "rank_inj rank" "length rank = n" "valid_pending rank (pending s)" "\<forall>(x, y)\<in>set ps. x < n"
  shows "let s' = foldl (add_base_arc rank n) s ps in
      valid_pending rank (pending s')
      \<and> pending_arcs (pending s') = pending_arcs (pending s) \<union> {(x, y) \<in> set ps. x \<noteq> y \<and> y < n}
      \<and> upward s' = upward s \<and> downward s' = downward s \<and> shortcut_count s' = shortcut_count s
      \<and> pending_size s' + base_count s = pending_size s + base_count s'"
  using assms(3,4)
proof (induction ps arbitrary: s)
  case (Cons p ps)
  obtain x y where p: "p = (x, y)" by (cases p)
  show ?case
  proof (cases "y = x \<or> n \<le> y")
    case True
    then show ?thesis using Cons p by (auto simp: add_base_arc_def Let_def)
  next
    case False
    with Cons.prems p assms(1,2) have b: "x < length rank" "y < length rank" "rank ! x \<noteq> rank ! y"
      by (auto simp: rank_inj_def)
    obtain pend new where i: "insert_arc rank (pending s) x y = (pend, new)" by fastforce
    let ?s = "s\<lparr>pending := pend, base_count := base_count s + (if new then 1 else 0)\<rparr>"
    have e: "add_base_arc rank n s p = ?s" using False i p by (simp add: add_base_arc_def)
    note c = insert_arc_correct[OF Cons.prems(1) b, unfolded i prod.case]
    have "valid_pending rank (pending ?s)" using c by simp
    note ih = Cons.IH[OF this, unfolded Let_def]
    show ?thesis
      using ih c Cons.prems(2) False p e by (auto simp: Let_def pending_size_def)
  qed
qed simp

lemma add_shortcuts:
  assumes "rank_inj rank" "length rank = n" "valid_pending rank (pending s)"
    "\<forall>(x, y)\<in>set ps. x < n \<and> y < n \<and> rank ! v < rank ! x \<and> rank ! v < rank ! y"
  shows "let s' = foldl (add_shortcut rank) s ps in
      valid_pending rank (pending s')
      \<and> pending_arcs (pending s') = pending_arcs (pending s) \<union> {(x, y) \<in> set ps. x \<noteq> y}
      \<and> upward s' = upward s \<and> downward s' = downward s \<and> base_count s' = base_count s
      \<and> pending_size s' + shortcut_count s = pending_size s + shortcut_count s'
      \<and> (\<forall>u. rank ! u \<le> rank ! v \<longrightarrow> pending s' ! u = pending s ! u)"
  using assms(3,4)
proof (induction ps arbitrary: s)
  case (Cons p ps)
  obtain x y where p: "p = (x, y)" by (cases p)
  show ?case
  proof (cases "x = y")
    case True
    then show ?thesis using Cons p by (auto simp: add_shortcut_def Let_def)
  next
    case False
    with Cons.prems p assms(1,2) have b: "x < length rank" "y < length rank" "rank ! x \<noteq> rank ! y"
      by (auto simp: rank_inj_def)
    obtain pend new where i: "insert_arc rank (pending s) x y = (pend, new)" by fastforce
    let ?s = "s\<lparr>pending := pend, shortcut_count := shortcut_count s + (if new then 1 else 0)\<rparr>"
    have e: "add_shortcut rank s p = ?s" using False i p by (simp add: add_shortcut_def)
    note c = insert_arc_correct[OF Cons.prems(1) b, unfolded i prod.case]
    have "valid_pending rank (pending ?s)" using c by simp
    note ih = Cons.IH[OF this, unfolded Let_def]
    have keep: "pend ! u = pending s ! u" if "rank ! u \<le> rank ! v" for u
    proof -
      have "u \<noteq> lower_end rank x y" using that Cons.prems(2) p by (auto simp: lower_end_def)
      then show ?thesis using c by blast
    qed
    show ?thesis
      using ih c keep Cons.prems(2) False p e by (auto simp: Let_def pending_size_def)
  qed
qed simp

definition all_arcs :: "build_state \<Rightarrow> (nat \<times> nat) set" where
  "all_arcs s = pending_arcs (pending s) \<union> set (upward s) \<union> set (downward s)"

definition owned_out :: "nat list \<Rightarrow> nat list" where
  "owned_out owned = map (\<lambda>k. k div 2) (filter odd owned)"

definition owned_in :: "nat list \<Rightarrow> nat list" where
  "owned_in owned = map (\<lambda>k. k div 2) (filter even owned)"

lemma owned_mem:
  assumes "valid_pending rank pend" "v < length rank" "u < length rank"
  shows "u \<in> set (owned_out (pend ! v)) \<longleftrightarrow> (v, u) \<in> pending_arcs pend \<and> rank ! v < rank ! u"
    and "u \<in> set (owned_in (pend ! v)) \<longleftrightarrow> (u, v) \<in> pending_arcs pend \<and> rank ! v < rank ! u"
proof -
  have "odd k \<and> u = k div 2 \<longleftrightarrow> k = pending_key u True"
    "even k \<and> u = k div 2 \<longleftrightarrow> k = pending_key u False" for k
    by (simp_all add: pending_key_def) presburger+
  then have ow: "u \<in> set (owned_out (pend ! v)) \<longleftrightarrow> pending_key u True \<in> set (pend ! v)"
    and i: "u \<in> set (owned_in (pend ! v)) \<longleftrightarrow> pending_key u False \<in> set (pend ! v)"
    by (simp_all add: owned_out_def owned_in_def image_iff Bex_def conj_assoc)
  have b: "rank ! v < rank ! u" if "pending_key u b \<in> set (pend ! v)" for b
    using valid_pendingD[OF assms(1,2) that] by simp
  have "(v, u) \<in> pending_arcs pend \<longleftrightarrow> pending_key u True \<in> set (pend ! v)"
    "(u, v) \<in> pending_arcs pend \<longleftrightarrow> pending_key u False \<in> set (pend ! v)" if "rank ! v < rank ! u"
    using mem_pending_arcs[OF assms] mem_pending_arcs[OF assms(1,3,2)] that by simp_all
  then show
    "u \<in> set (owned_out (pend ! v)) \<longleftrightarrow> (v, u) \<in> pending_arcs pend \<and> rank ! v < rank ! u"
    "u \<in> set (owned_in (pend ! v)) \<longleftrightarrow> (u, v) \<in> pending_arcs pend \<and> rank ! v < rank ! u"
    unfolding ow i using b by blast+
qed

lemma owned_bound:
  assumes "valid_pending rank pend" "v < length rank"
  shows "u \<in> set (owned_out (pend ! v)) \<union> set (owned_in (pend ! v)) \<Longrightarrow>
    u < length rank \<and> rank ! v < rank ! u"
  using valid_pendingD[OF assms] by (auto simp: owned_out_def owned_in_def)

lemma owned_distinct:
  assumes "sorted_wrt (<) owned"
  shows "distinct (owned_out owned)" "distinct (owned_in owned)"
    and "length (owned_out owned) + length (owned_in owned) = length owned"
proof -
  have d: "distinct owned" using assms by (simp add: strict_sorted_iff)
  have "inj_on (\<lambda>k. k div 2) (set (filter odd owned))" "inj_on (\<lambda>k. k div 2) (set (filter even owned))"
    by (auto simp: inj_on_def elim!: oddE evenE)
  then show "distinct (owned_out owned)" "distinct (owned_in owned)"
    using d by (simp_all add: owned_out_def owned_in_def distinct_map)
  show "length (owned_out owned) + length (owned_in owned) = length owned"
    using sum_length_filter_compl[of odd owned] by (simp add: owned_out_def owned_in_def)
qed

lemma pending_arcs_clear:
  assumes "valid_pending rank pend" "v < length rank"
  shows "pending_arcs (pend[v := []])
      \<union> Pair v ` set (owned_out (pend ! v)) \<union> (\<lambda>t. (t, v)) ` set (owned_in (pend ! v))
    = pending_arcs pend"
proof -
  have len: "length pend = length rank" using assms(1) by (simp add: valid_pending_def)
  have row: "key_arc v ` set (pend ! v)
      = Pair v ` set (owned_out (pend ! v)) \<union> (\<lambda>t. (t, v)) ` set (owned_in (pend ! v))"
    by (auto simp: owned_out_def owned_in_def key_arc_def image_iff)
  have split: "pending_arcs p
      = key_arc v ` set (p ! v) \<union> (\<Union>ow\<in>{..<length p} - {v}. key_arc ow ` set (p ! ow))"
    if "v < length p" for p
    using that unfolding pending_arcs_def
    by (subst insert_Diff[of v "{..<length p}", symmetric]) (simp_all only: lessThan_iff UN_insert)
  have others: "(\<Union>ow\<in>{..<length pend} - {v}. key_arc ow ` set (pend[v := []] ! ow))
      = (\<Union>ow\<in>{..<length pend} - {v}. key_arc ow ` set (pend ! ow))"
    by (intro SUP_cong) auto
  have "pending_arcs (pend[v := []]) \<union> key_arc v ` set (pend ! v) = pending_arcs pend"
    using assms(2) len split[of pend] split[of "pend[v := []]"] others by (simp add: Un_commute)
  with row show ?thesis by (simp add: Un_assoc)
qed

section \<open>The build invariant\<close>

text \<open>\<open>closed_at rank A v\<close>: every pair of arcs through \<open>v\<close> with higher endpoints has its shortcut.\<close>

definition closed_at :: "nat list \<Rightarrow> (nat \<times> nat) set \<Rightarrow> nat \<Rightarrow> bool" where
  "closed_at rank A v \<longleftrightarrow> (\<forall>x y. (x, v) \<in> A \<longrightarrow> (v, y) \<in> A \<longrightarrow> x \<noteq> y
     \<longrightarrow> rank ! v < rank ! x \<longrightarrow> rank ! v < rank ! y \<longrightarrow> (x, y) \<in> A)"

definition build_inv :: "(nat \<times> nat) set \<Rightarrow> nat list \<Rightarrow> nat set \<Rightarrow> build_state \<Rightarrow> bool" where
  "build_inv B rank dn s \<longleftrightarrow>
     valid_pending rank (pending s) \<and> (\<forall>v\<in>dn. pending s ! v = [])
     \<and> distinct (upward s) \<and> distinct (downward s)
     \<and> (\<forall>(x, y)\<in>set (upward s). x \<in> dn \<and> x < length rank \<and> y < length rank \<and> rank ! x < rank ! y)
     \<and> (\<forall>(x, y)\<in>set (downward s). y \<in> dn \<and> x < length rank \<and> y < length rank \<and> rank ! y < rank ! x)
     \<and> base_count s + shortcut_count s = pending_size s + length (upward s) + length (downward s)
     \<and> B \<subseteq> all_arcs s \<and> (\<forall>(x, y)\<in>all_arcs s. elim_arc B ((!) rank) x y)
     \<and> (\<forall>v\<in>dn. closed_at rank (all_arcs s) v)"

text \<open>What one contraction does to the arc set: nothing is lost, and the shortcuts over \<open>v\<close> are added.\<close>

lemma contract_unfold:
  "contract rank s v =
     foldl (add_shortcut rank)
       (s\<lparr>pending := (pending s)[v := []],
          upward := upward s @ map (Pair v) (owned_out (pending s ! v)),
          downward := downward s @ map (\<lambda>t. (t, v)) (owned_in (pending s ! v))\<rparr>)
       (List.product (owned_in (pending s ! v)) (owned_out (pending s ! v)))"
  by (simp add: contract_def Let_def owned_out_def owned_in_def)

lemma valid_pending_clear: "valid_pending rank pend \<Longrightarrow> valid_pending rank (pend[v := []])"
  by (cases "v < length pend") (simp_all add: valid_pending_def nth_list_update)

lemma contract_facts:
  assumes inj: "rank_inj rank" and vp: "valid_pending rank (pending s)" and v: "v < length rank"
  defines "Out \<equiv> owned_out (pending s ! v)" and "In \<equiv> owned_in (pending s ! v)"
  shows "valid_pending rank (pending (contract rank s v))"
    and "all_arcs (contract rank s v)
      = all_arcs s \<union> {(x, y). x \<in> set In \<and> y \<in> set Out \<and> x \<noteq> y}"
    and "upward (contract rank s v) = upward s @ map (Pair v) Out"
    and "downward (contract rank s v) = downward s @ map (\<lambda>t. (t, v)) In"
    and "base_count (contract rank s v) = base_count s"
    and "pending_size (contract rank s v) + shortcut_count s + length Out + length In
      = pending_size s + shortcut_count (contract rank s v)"
    and "rank ! u \<le> rank ! v \<Longrightarrow> u \<noteq> v \<Longrightarrow> pending (contract rank s v) ! u = pending s ! u"
    and "pending (contract rank s v) ! v = []"
proof -
  let ?s = "s\<lparr>pending := (pending s)[v := []], upward := upward s @ map (Pair v) Out,
              downward := downward s @ map (\<lambda>t. (t, v)) In\<rparr>"
  let ?ps = "List.product In Out"
  have len: "length (pending s) = length rank" using vp by (simp add: valid_pending_def)
  have "sorted_wrt (<) (pending s ! v)" using vp v len by (simp add: valid_pending_def)
  then have lenOI: "length Out + length In = length (pending s ! v)"
    by (simp add: Out_def In_def owned_distinct(3))
  have "valid_pending rank (pending ?s)" using valid_pending_clear[OF vp] by simp
  moreover have "\<forall>(x, y)\<in>set ?ps. x < length rank \<and> y < length rank
      \<and> rank ! v < rank ! x \<and> rank ! v < rank ! y"
    using owned_bound[OF vp v] by (auto simp: Out_def In_def)
  ultimately have f: "let s' = foldl (add_shortcut rank) ?s ?ps in
      valid_pending rank (pending s')
      \<and> pending_arcs (pending s') = pending_arcs (pending ?s) \<union> {(x, y) \<in> set ?ps. x \<noteq> y}
      \<and> upward s' = upward ?s \<and> downward s' = downward ?s \<and> base_count s' = base_count ?s
      \<and> pending_size s' + shortcut_count ?s = pending_size ?s + shortcut_count s'
      \<and> (\<forall>u. rank ! u \<le> rank ! v \<longrightarrow> pending s' ! u = pending ?s ! u)"
    by (rule add_shortcuts[OF inj refl])
  have c: "contract rank s v = foldl (add_shortcut rank) ?s ?ps"
    by (simp add: contract_unfold Out_def In_def)
  have clear: "pending_arcs (pending ?s) \<union> Pair v ` set Out \<union> (\<lambda>t. (t, v)) ` set In
      = pending_arcs (pending s)"
    using pending_arcs_clear[OF vp v] by (simp add: Out_def In_def)
  have sz: "pending_size ?s + length (pending s ! v) = pending_size s"
    using v len member_le_sum_list[of "length (pending s ! v)" "map length (pending s)"]
    by (simp add: pending_size_def map_update sum_list_update)
  note f = f[unfolded Let_def, folded c]
  show "valid_pending rank (pending (contract rank s v))"
    "upward (contract rank s v) = upward s @ map (Pair v) Out"
    "downward (contract rank s v) = downward s @ map (\<lambda>t. (t, v)) In"
    "base_count (contract rank s v) = base_count s"
    using f by simp_all
  show "pending_size (contract rank s v) + shortcut_count s + length Out + length In
      = pending_size s + shortcut_count (contract rank s v)"
    using f sz lenOI by simp
  show "pending (contract rank s v) ! u = pending s ! u" if "rank ! u \<le> rank ! v" "u \<noteq> v"
    using f that by simp
  show "pending (contract rank s v) ! v = []" using f v len by simp
  show "all_arcs (contract rank s v) = all_arcs s \<union> {(x, y). x \<in> set In \<and> y \<in> set Out \<and> x \<noteq> y}"
    using f clear unfolding all_arcs_def by auto
qed

lemma contract_inv:
  assumes inj: "rank_inj rank" and inv: "build_inv B rank dn s" and v: "v < length rank" "v \<notin> dn"
    and low: "\<forall>u\<in>dn. u < length rank \<and> rank ! u < rank ! v"
  shows "build_inv B rank (insert v dn) (contract rank s v)"
proof -
  have vp: "valid_pending rank (pending s)" using inv by (simp add: build_inv_def)
  have len: "length (pending s) = length rank" using vp by (simp add: valid_pending_def)
  note cf = contract_facts[OF inj vp v(1)]
  let ?O = "owned_out (pending s ! v)" and ?I = "owned_in (pending s ! v)"
  let ?A = "all_arcs s" and ?A' = "all_arcs (contract rank s v)"
  have d: "distinct ?O" "distinct ?I"
    using owned_distinct vp v len by (auto simp: valid_pending_def)
  have fresh: "(v, u) \<notin> set (upward s)" "(u, v) \<notin> set (downward s)" for u
    using inv v(2) by (auto simp: build_inv_def)
  have OI: "u \<in> set ?O \<longleftrightarrow> (v, u) \<in> ?A \<and> rank ! v < rank ! u"
    "u \<in> set ?I \<longleftrightarrow> (u, v) \<in> ?A \<and> rank ! v < rank ! u" if "u < length rank" for u
  proof -
    have "(v, u) \<notin> set (downward s)" "(u, v) \<notin> set (upward s)" if "rank ! v < rank ! u"
      using inv that by (auto simp: build_inv_def)
    then show "u \<in> set ?O \<longleftrightarrow> (v, u) \<in> ?A \<and> rank ! v < rank ! u"
      "u \<in> set ?I \<longleftrightarrow> (u, v) \<in> ?A \<and> rank ! v < rank ! u"
      using owned_mem[OF vp v(1) that] fresh by (auto simp: all_arcs_def)
  qed
  have bound: "x < length rank \<and> y < length rank" if "(x, y) \<in> ?A" for x y
    using that inv pending_arcs_bounds[OF vp] by (auto simp: all_arcs_def build_inv_def)
  have OIb: "u < length rank \<and> rank ! v < rank ! u" if "u \<in> set ?O \<union> set ?I" for u
    using owned_bound[OF vp v(1)] that by simp
  have new: "elim_arc B ((!) rank) x y" if "x \<in> set ?I" "y \<in> set ?O" "x \<noteq> y" for x y
  proof -
    have b: "x < length rank" "rank ! v < rank ! x" "y < length rank" "rank ! v < rank ! y"
      using OIb that by auto
    then have "(x, v) \<in> ?A" "(v, y) \<in> ?A" using OI that by auto
    then have "elim_arc B ((!) rank) x v" "elim_arc B ((!) rank) v y"
      using inv by (auto simp: build_inv_def)
    then show ?thesis using b(2,4) that(3) by (rule elim_arc.shortcut)
  qed
  have "closed_at rank ?A' u" if u: "u \<in> insert v dn" for u
    unfolding closed_at_def
  proof (intro allI impI)
    fix x y
    assume a: "(x, u) \<in> ?A'" "(u, y) \<in> ?A'" "x \<noteq> y" "rank ! u < rank ! x" "rank ! u < rank ! y"
    have ru: "rank ! u \<le> rank ! v" using u low by auto
    have old: "(x, u) \<in> ?A" "(u, y) \<in> ?A"
      using a(1,2) OIb ru unfolding cf(2) by auto (metis OIb UnI1 UnI2 not_le)+
    show "(x, y) \<in> ?A'"
    proof (cases "u = v")
      case True
      then show ?thesis using old OI bound a unfolding cf(2) by auto
    next
      case False
      then have "closed_at rank ?A u" using u inv by (simp add: build_inv_def)
      then show ?thesis using old a unfolding closed_at_def cf(2) by blast
    qed
  qed
  moreover have "\<forall>u\<in>insert v dn. pending (contract rank s v) ! u = []"
  proof
    fix u assume "u \<in> insert v dn"
    then consider "u = v" | "u \<noteq> v" "rank ! u \<le> rank ! v" "pending s ! u = []"
      using inv low by (auto simp: build_inv_def intro: less_imp_le)
    then show "pending (contract rank s v) ! u = []" using cf(7)[of u] cf(8) by cases simp_all
  qed
  moreover have "distinct (upward (contract rank s v))" "distinct (downward (contract rank s v))"
    using inv d fresh by (auto simp: cf(3,4) build_inv_def distinct_map inj_on_def)
  moreover have "\<forall>(x, y)\<in>set (upward (contract rank s v)).
      x \<in> insert v dn \<and> x < length rank \<and> y < length rank \<and> rank ! x < rank ! y"
    using inv OIb v by (auto simp: cf(3) build_inv_def)
  moreover have "\<forall>(x, y)\<in>set (downward (contract rank s v)).
      y \<in> insert v dn \<and> x < length rank \<and> y < length rank \<and> rank ! y < rank ! x"
    using inv OIb v by (auto simp: cf(4) build_inv_def)
  moreover have "B \<subseteq> ?A'" "\<forall>(x, y)\<in>?A'. elim_arc B ((!) rank) x y"
    using inv new by (auto simp: cf(2) build_inv_def)
  ultimately show ?thesis
    using cf(1,5,6) inv by (simp add: build_inv_def cf(3,4))
qed

section \<open>The whole elimination\<close>

lemma eliminate_fold:
  assumes "rank_inj rank" "build_inv B rank dn s"
    and "\<forall>v\<in>set vs. v < length rank \<and> v \<notin> dn" "sorted_wrt (<) (map ((!) rank) vs)"
    and "\<forall>u\<in>dn. u < length rank \<and> (\<forall>v\<in>set vs. rank ! u < rank ! v)"
  shows "build_inv B rank (dn \<union> set vs) (foldl (contract rank) s vs)"
  using assms(2-)
proof (induction vs arbitrary: dn s)
  case (Cons v vs)
  have "build_inv B rank (insert v dn) (contract rank s v)"
    using Cons.prems by (intro contract_inv[OF assms(1)]) auto
  moreover have "v \<notin> set vs" using Cons.prems(3) by fastforce
  ultimately have "build_inv B rank (insert v dn \<union> set vs)
      (foldl (contract rank) (contract rank s v) vs)"
    using Cons.prems by (intro Cons.IH) auto
  then show ?case by simp
qed simp

lemma base_pairs_fst: "(x, y) \<in> set (base_pairs t) \<Longrightarrow> x < edge_count t"
  by (auto simp: base_pairs_def split: if_splits)

lemma rank_inj_order: "is_order n order \<Longrightarrow> rank_inj (ranks_of_order n order)"
  by (auto simp: rank_inj_def intro: ranks_inj)

lemma pending_arcs_init [simp]: "pending_arcs (replicate n []) = {}"
  by (simp add: pending_arcs_def)

lemma base_phase_inv:
  assumes "is_order (edge_count t) order"
  defines "rank \<equiv> ranks_of_order (edge_count t) order"
    and "s \<equiv> foldl (add_base_arc (ranks_of_order (edge_count t) order) (edge_count t))
      (init_state (edge_count t)) (base_pairs t)"
  shows "build_inv (base_arcs t) rank {} s" "all_arcs s = base_arcs t"
    "base_count s = pending_size s" "shortcut_count s = 0" "upward s = []" "downward s = []"
proof -
  let ?s0 = "init_state (edge_count t)"
  have "valid_pending rank (pending ?s0)"
    by (simp add: valid_pending_def init_state_def rank_def)
  moreover have "\<forall>(x, y)\<in>set (base_pairs t). x < edge_count t" by (auto dest: base_pairs_fst)
  ultimately have f: "let s' = s in valid_pending rank (pending s')
      \<and> pending_arcs (pending s')
          = pending_arcs (pending ?s0) \<union> {(x, y) \<in> set (base_pairs t). x \<noteq> y \<and> y < edge_count t}
      \<and> upward s' = upward ?s0 \<and> downward s' = downward ?s0
      \<and> shortcut_count s' = shortcut_count ?s0
      \<and> pending_size s' + base_count ?s0 = pending_size ?s0 + base_count s'"
    unfolding s_def rank_def[symmetric]
    by (intro add_base_arcs) (auto simp: rank_def intro: rank_inj_order[OF assms(1)])
  then show a: "all_arcs s = base_arcs t"
    by (auto simp: Let_def all_arcs_def base_arcs_def init_state_def)
  show "upward s = []" "downward s = []" using f by (simp_all add: Let_def init_state_def)
  show c: "base_count s = pending_size s" "shortcut_count s = 0"
    using f by (simp_all add: Let_def init_state_def pending_size_def)
  show "build_inv (base_arcs t) rank {} s"
    using f a c by (auto simp: Let_def build_inv_def init_state_def intro: elim_arc.base)
qed

lemma sorted_ranks:
  assumes "is_order n order"
  shows "map ((!) (ranks_of_order n order)) order = [0..<n]"
proof -
  have "length order = n" using assms distinct_card[of order] by (simp add: is_order_def)
  then show ?thesis using ranks_of_order_nth(1)[OF assms] by (intro nth_equalityI) auto
qed

lemma eliminate_inv:
  assumes "is_order (edge_count t) order"
  shows "build_inv (base_arcs t) (ranks_of_order (edge_count t) order) {0..<edge_count t}
    (eliminate t order)"
proof -
  have "build_inv (base_arcs t) (ranks_of_order (edge_count t) order) ({} \<union> set order)
      (foldl (contract (ranks_of_order (edge_count t) order))
        (foldl (add_base_arc (ranks_of_order (edge_count t) order) (edge_count t))
          (init_state (edge_count t)) (base_pairs t)) order)"
    using assms
    by (intro eliminate_fold rank_inj_order base_phase_inv(1))
      (auto simp: sorted_ranks is_order_def)
  then show ?thesis using assms by (simp add: eliminate_def Let_def is_order_def)
qed

lemma drained_pending_arcs:
  assumes "valid_pending rank pend" "\<forall>v<length rank. pend ! v = []"
  shows "pending_arcs pend = {}" "sum_list (map length pend) = 0"
proof -
  have "length pend = length rank" using assms(1) by (simp add: valid_pending_def)
  then show "pending_arcs pend = {}" "sum_list (map length pend) = 0"
    using assms(2) by (auto simp: pending_arcs_def in_set_conv_nth)
qed

lemma eliminate_arcs:
  assumes "is_order (edge_count t) order"
  defines "rank \<equiv> ranks_of_order (edge_count t) order" and "s \<equiv> eliminate t order"
  shows "(x, y) \<in> set (upward s) \<longleftrightarrow> elim_arc (base_arcs t) ((!) rank) x y \<and> rank ! x < rank ! y"
    and "(x, y) \<in> set (downward s) \<longleftrightarrow> elim_arc (base_arcs t) ((!) rank) x y \<and> rank ! y < rank ! x"
    and "elim_arc (base_arcs t) ((!) rank) x y \<Longrightarrow> x < edge_count t \<and> y < edge_count t \<and> x \<noteq> y"
    and "distinct (upward s)" "distinct (downward s)"
    and "base_count s + shortcut_count s = length (upward s) + length (downward s)"
proof -
  let ?n = "edge_count t" and ?B = "base_arcs t"
  have inv: "build_inv ?B rank {0..<?n} s"
    unfolding rank_def s_def by (rule eliminate_inv[OF assms(1)])
  have len: "length rank = ?n" by (simp add: rank_def)
  have pe: "pending_arcs (pending s) = {}" "pending_size s = 0"
    using inv drained_pending_arcs[of rank "pending s"] len
    by (auto simp: build_inv_def pending_size_def)
  have bnd: "x < ?n \<and> y < ?n \<and> x \<noteq> y" if "elim_arc ?B ((!) rank) x y" for x y
    using that by induction (auto simp: base_arcs_def dest: base_pairs_fst)
  have A: "all_arcs s = set (upward s) \<union> set (downward s)" using pe by (simp add: all_arcs_def)
  have complete: "(x, y) \<in> all_arcs s" if "elim_arc ?B ((!) rank) x y" for x y
    using that
  proof induction
    case (base x y)
    then show ?case using inv by (auto simp: build_inv_def)
  next
    case (shortcut x v y)
    then have "v < ?n" using bnd by blast
    then have "closed_at rank (all_arcs s) v" using inv by (simp add: build_inv_def)
    then show ?case using shortcut by (auto simp: closed_at_def)
  qed
  have sound: "elim_arc ?B ((!) rank) x y" if "(x, y) \<in> all_arcs s" for x y
    using that inv by (auto simp: build_inv_def)
  have dir: "(x, y) \<in> set (upward s) \<Longrightarrow> rank ! x < rank ! y"
    "(x, y) \<in> set (downward s) \<Longrightarrow> rank ! y < rank ! x" for x y
    using inv by (auto simp: build_inv_def)
  show "(x, y) \<in> set (upward s) \<longleftrightarrow> elim_arc ?B ((!) rank) x y \<and> rank ! x < rank ! y"
    "(x, y) \<in> set (downward s) \<longleftrightarrow> elim_arc ?B ((!) rank) x y \<and> rank ! y < rank ! x"
    using complete[of x y] sound[of x y] dir[of x y] A by auto
  show "elim_arc ?B ((!) rank) x y \<Longrightarrow> x < ?n \<and> y < ?n \<and> x \<noteq> y" by (rule bnd)
  show "distinct (upward s)" "distinct (downward s)" using inv by (auto simp: build_inv_def)
  show "base_count s + shortcut_count s = length (upward s) + length (downward s)"
    using inv pe by (simp add: build_inv_def)
qed

section \<open>The bundle: arc lookup and counters\<close>

definition upward_arc_slot :: "acceleration_bundle \<Rightarrow> nat \<Rightarrow> nat \<Rightarrow> nat option" where
  "upward_arc_slot b tail head = find_arc (upward_first_out b) (upward_head b) tail head"

definition downward_arc_slot :: "acceleration_bundle \<Rightarrow> nat \<Rightarrow> nat \<Rightarrow> nat option" where
  "downward_arc_slot b tail head = find_arc (downward_first_out b) (downward_head b) tail head"

abbreviation up_arcs :: "transitions \<Rightarrow> nat list \<Rightarrow> (nat \<times> nat) list" where
  "up_arcs t order \<equiv> sort (upward (eliminate t order))"

abbreviation down_arcs :: "transitions \<Rightarrow> nat list \<Rightarrow> (nat \<times> nat) list" where
  "down_arcs t order \<equiv> sort (downward (eliminate t order))"

lemma bundle_simps [simp]:
  "edge_order (build_with_order t order) = order"
  "edge_rank (build_with_order t order) = ranks_of_order (edge_count t) order"
  "upward_first_out (build_with_order t order) = fst (arcs_to_csr (up_arcs t order) (edge_count t))"
  "upward_head (build_with_order t order) = map snd (up_arcs t order)"
  "downward_first_out (build_with_order t order) = fst (arcs_to_csr (down_arcs t order) (edge_count t))"
  "downward_head (build_with_order t order) = map snd (down_arcs t order)"
  by (simp_all add: build_with_order_def Let_def)

lemma sorted_arcs_sort:
  "distinct xs \<Longrightarrow> \<forall>a\<in>set xs. fst a < n \<Longrightarrow> sorted_arcs n (sort xs)"
  by (simp add: sorted_arcs_def strict_sorted_iff)

lemma sorted_up_down:
  assumes "is_order (edge_count t) order"
  shows "sorted_arcs (edge_count t) (up_arcs t order)" "sorted_arcs (edge_count t) (down_arcs t order)"
  using eliminate_arcs[OF assms] by (auto intro!: sorted_arcs_sort)

lemma slot_is_csr_find:
  "upward_arc_slot (build_with_order t order) = csr_find (edge_count t, up_arcs t order)"
  "downward_arc_slot (build_with_order t order) = csr_find (edge_count t, down_arcs t order)"
  by (simp_all add: fun_eq_iff upward_arc_slot_def downward_arc_slot_def csr_find_def)

lemma slot_Some:
  assumes "is_order (edge_count t) order" "x < edge_count t"
  shows "upward_arc_slot (build_with_order t order) x y = Some s
      \<longleftrightarrow> s < length (up_arcs t order) \<and> up_arcs t order ! s = (x, y)"
    and "downward_arc_slot (build_with_order t order) x y = Some s
      \<longleftrightarrow> s < length (down_arcs t order) \<and> down_arcs t order ! s = (x, y)"
  using csr.find_some[of "(edge_count t, up_arcs t order)" x y s]
    csr.find_some[of "(edge_count t, down_arcs t order)" x y s] sorted_up_down[OF assms(1)] assms(2)
  by (simp_all add: slot_is_csr_find)

lemma slot_None:
  assumes "is_order (edge_count t) order" "x < edge_count t"
  shows "upward_arc_slot (build_with_order t order) x y = None \<longleftrightarrow> (x, y) \<notin> set (up_arcs t order)"
    and "downward_arc_slot (build_with_order t order) x y = None \<longleftrightarrow> (x, y) \<notin> set (down_arcs t order)"
  using csr.find_None[of "(edge_count t, up_arcs t order)" x y]
    csr.find_None[of "(edge_count t, down_arcs t order)" x y] sorted_up_down[OF assms(1)] assms(2)
  by (simp_all add: slot_is_csr_find)

text \<open>C1: the hierarchy is complete and minimal. For every elimination order (any permutation of
  the edge states), the bundle's head-sorted rows hold an upward arc from \<open>x\<close> to \<open>y\<close> exactly when
  the elimination closure of the legal transitions relates them and \<open>y\<close> outranks \<open>x\<close>, and a
  downward arc exactly when it relates them and \<open>x\<close> outranks \<open>y\<close>.\<close>

theorem hierarchy_is_elimination_closure:
  assumes "is_order (edge_count t) order" "x < edge_count t"
  shows "(upward_arc_slot (build_with_order t order) x y \<noteq> None
      \<longleftrightarrow> elim_arc (base_arcs t) ((!) (edge_rank (build_with_order t order))) x y
          \<and> edge_rank (build_with_order t order) ! x < edge_rank (build_with_order t order) ! y)
    \<and> (downward_arc_slot (build_with_order t order) x y \<noteq> None
      \<longleftrightarrow> elim_arc (base_arcs t) ((!) (edge_rank (build_with_order t order))) x y
          \<and> edge_rank (build_with_order t order) ! y < edge_rank (build_with_order t order) ! x)"
  using slot_None[OF assms, of y] eliminate_arcs(1,2)[OF assms(1), of x y] by simp

definition witness_transitions :: transitions where
  "witness_transitions = \<lparr>edge_count = 4, edge_transition_first_out = [0, 2, 4, 6, 7],
     edge_transition_edges = [1, 0, 2, 3, 0, 3, 1]\<rparr>"

theorem hierarchy_is_elimination_closure_witness:
  "upward_arc_slot (build_with_order witness_transitions [1, 0, 3, 2]) 3 2 \<noteq> None
    \<and> elim_arc (base_arcs witness_transitions)
        ((!) (edge_rank (build_with_order witness_transitions [1, 0, 3, 2]))) 3 2"
proof -
  have ord: "is_order (edge_count witness_transitions) [1, 0, 3, 2]"
    by (auto simp: is_order_def witness_transitions_def)
  have lt: "3 < edge_count witness_transitions" by (simp add: witness_transitions_def)
  have "upward_arc_slot (build_with_order witness_transitions [1, 0, 3, 2]) 3 2 \<noteq> None"
    by code_simp
  with hierarchy_is_elimination_closure[OF ord lt, of 2] show ?thesis by blast
qed

section \<open>The counters\<close>

lemma finite_pending_arcs [simp]: "finite (pending_arcs pend)"
  by (simp add: pending_arcs_def)

lemma add_base_arcs_card:
  assumes "rank_inj rank" "length rank = n" "valid_pending rank (pending s)" "\<forall>(x, y)\<in>set ps. x < n"
  shows "card (pending_arcs (pending (foldl (add_base_arc rank n) s ps))) + base_count s
    = card (pending_arcs (pending s)) + base_count (foldl (add_base_arc rank n) s ps)"
  using assms(3,4)
proof (induction ps arbitrary: s)
  case (Cons p ps)
  obtain x y where p: "p = (x, y)" by (cases p)
  show ?case
  proof (cases "y = x \<or> n \<le> y")
    case True
    then show ?thesis using Cons p by (auto simp: add_base_arc_def)
  next
    case False
    with Cons.prems p assms(1,2) have b: "x < length rank" "y < length rank" "rank ! x \<noteq> rank ! y"
      by (auto simp: rank_inj_def)
    obtain pend new where i: "insert_arc rank (pending s) x y = (pend, new)" by fastforce
    let ?s = "s\<lparr>pending := pend, base_count := base_count s + (if new then 1 else 0)\<rparr>"
    have e: "add_base_arc rank n s p = ?s" using False i p by (simp add: add_base_arc_def)
    note c = insert_arc_correct[OF Cons.prems(1) b, unfolded i prod.case]
    have "valid_pending rank (pending ?s)" using c by simp
    note ih = Cons.IH[OF this]
    show ?thesis using ih c Cons.prems(2) e by (auto simp: card_insert_if)
  qed
qed simp

lemma contract_fold_base_count:
  assumes "rank_inj rank" "valid_pending rank (pending s)" "\<forall>v\<in>set vs. v < length rank"
  shows "base_count (foldl (contract rank) s vs) = base_count s"
  using assms(2,3)
proof (induction vs arbitrary: s)
  case (Cons v vs)
  then show ?case using contract_facts(1,5)[OF assms(1) Cons.prems(1), of v] by simp
qed simp

text \<open>The counters of the bundle count arcs, not attempts: duplicates (multi-edges, shortcut
  pairs proposed by several middles) are counted once. The base counter is the number of distinct
  legal transitions, and the total is the number of arcs of the elimination closure.\<close>

theorem stats_count_arcs:
  assumes "is_order (edge_count t) order"
  shows "base_arc_count (stats (build_with_order t order)) = card (base_arcs t)
    \<and> total_arc_count (stats (build_with_order t order))
      = card {(x, y). elim_arc (base_arcs t) ((!) (edge_rank (build_with_order t order))) x y}
    \<and> total_arc_count (stats (build_with_order t order))
      = length (upward_head (build_with_order t order)) + length (downward_head (build_with_order t order))"
proof -
  let ?n = "edge_count t" and ?rank = "ranks_of_order (edge_count t) order"
  let ?init = "foldl (add_base_arc ?rank ?n) (init_state ?n) (base_pairs t)" and ?s = "eliminate t order"
  note ph = base_phase_inv[OF assms] and ea = eliminate_arcs[OF assms] and inj = rank_inj_order[OF assms]
  have vp: "valid_pending ?rank (pending ?init)" using ph(1) unfolding build_inv_def by blast
  have vp0: "valid_pending ?rank (pending (init_state ?n))"
    by (simp add: valid_pending_def init_state_def)
  have "card (pending_arcs (pending ?init)) + base_count (init_state ?n)
      = card (pending_arcs (pending (init_state ?n))) + base_count ?init"
    using inj vp0 by (intro add_base_arcs_card) (auto dest: base_pairs_fst)
  moreover have "pending_arcs (pending ?init) = base_arcs t"
    using ph(2,5,6) by (simp add: all_arcs_def)
  ultimately have b0: "base_count ?init = card (base_arcs t)" by (simp add: init_state_def)
  have "base_count ?s = base_count ?init"
    using contract_fold_base_count[OF inj vp, of order] assms
    by (simp add: eliminate_def Let_def is_order_def)
  with b0 have b: "base_count ?s = card (base_arcs t)" by simp
  have "{(x, y). elim_arc (base_arcs t) ((!) ?rank) x y} = set (upward ?s) \<union> set (downward ?s)"
    using ea(1,2,3) ranks_inj[OF assms] by (auto intro!: prod_eqI) (metis linorder_neqE_nat)
  moreover have "set (upward ?s) \<inter> set (downward ?s) = {}"
    using ea(1,2) by fastforce
  ultimately have "card {(x, y). elim_arc (base_arcs t) ((!) ?rank) x y}
      = length (upward ?s) + length (downward ?s)"
    using ea(4,5) by (simp add: card_Un_disjoint distinct_card)
  then show ?thesis
    using b ea(6) by (simp add: build_with_order_def Let_def)
qed

theorem stats_count_arcs_witness:
  "base_arc_count (stats (build_with_order witness_transitions [1, 0, 3, 2]))
    = card (base_arcs witness_transitions)"
proof -
  have "is_order (edge_count witness_transitions) [1, 0, 3, 2]"
    by (auto simp: is_order_def witness_transitions_def)
  from stats_count_arcs[OF this] show ?thesis by blast
qed

end
