(* ===== verification/Cch_Weights.thy ===== *)
theory Cch_Weights
  imports Complex_Main Prelude
begin

text \<open>
  The fixed-point arc weights of the hierarchy (\<open>crates/core/src/metrics.rs\<close>): \<open>u32\<close> ticks with
  two sentinels, \<open>MAX\<close> for inaccessible and \<open>MAX - 1\<close> for finite overflow, and the saturating sum
  \<open>add_cch_weights\<close>. The lemmas show that the sum is a commutative ordered monoid in which the
  inaccessible weight absorbs and overflow never becomes inaccessible, which is what shortest
  paths need. The locale \<open>path_costs\<close> is the interface of any such weight algebra; it defines the
  cost of a path and is interpreted on the weights of the code.
\<close>

section \<open>Weights\<close>

definition CCH_WEIGHT_INFINITY :: u32 where
  "CCH_WEIGHT_INFINITY = 0xFFFFFFFF"

definition CCH_WEIGHT_OVERFLOW :: u32 where
  "CCH_WEIGHT_OVERFLOW = 0xFFFFFFFE"

definition add_cch_weights :: "u32 \<Rightarrow> u32 \<Rightarrow> u32" where
  "add_cch_weights left right =
     (if left = CCH_WEIGHT_INFINITY \<or> right = CCH_WEIGHT_INFINITY then CCH_WEIGHT_INFINITY
      else min (saturating_add left right) CCH_WEIGHT_OVERFLOW)"

lemma unat_sentinels [simp]:
  "unat CCH_WEIGHT_INFINITY = 2 ^ 32 - 1" "unat CCH_WEIGHT_OVERFLOW = 2 ^ 32 - 2"
  by (simp_all add: CCH_WEIGHT_INFINITY_def CCH_WEIGHT_OVERFLOW_def)

lemma infinity_iff: "w = CCH_WEIGHT_INFINITY \<longleftrightarrow> unat w = 2 ^ 32 - 1"
  by (simp add: word_unat_eq_iff)

lemma unat_u32_less: "unat (w :: u32) < 2 ^ 32"
  using unsigned_less[of w] by (simp flip: of_nat_less_iff)

lemma unat_min: "unat (min a b) = min (unat a) (unat (b :: u32))"
  by (simp add: min_def word_le_nat_alt)

lemma unat_add_cch_weights:
  "unat (add_cch_weights l r) =
    (if unat l = 2 ^ 32 - 1 \<or> unat r = 2 ^ 32 - 1 then 2 ^ 32 - 1
     else min (unat l + unat r) (2 ^ 32 - 2))"
  by (auto simp: add_cch_weights_def infinity_iff unat_min unat_saturating_add)

lemmas weight_arith = word_unat_eq_iff word_le_nat_alt word_less_nat_alt unat_add_cch_weights

lemma add_cch_commute: "add_cch_weights a b = add_cch_weights b a"
  by (simp add: weight_arith add.commute)

lemma add_cch_assoc: "add_cch_weights (add_cch_weights a b) c = add_cch_weights a (add_cch_weights b c)"
  using unat_u32_less[of a] unat_u32_less[of b] unat_u32_less[of c]
  by (simp add: weight_arith) linarith

lemma add_cch_zero: "add_cch_weights 0 b = b"
  using unat_u32_less[of b] by (simp add: weight_arith)

lemma add_cch_mono: "a \<le> b \<Longrightarrow> c \<le> d \<Longrightarrow> add_cch_weights a c \<le> add_cch_weights b d"
  using unat_u32_less[of b] unat_u32_less[of d] unat_u32_less[of a] unat_u32_less[of c]
  by (simp add: weight_arith min_def)

lemma add_cch_infinity [simp]:
  "add_cch_weights CCH_WEIGHT_INFINITY b = CCH_WEIGHT_INFINITY"
  "add_cch_weights a CCH_WEIGHT_INFINITY = CCH_WEIGHT_INFINITY"
  by (simp_all add: add_cch_weights_def)

lemma weight_le_infinity [simp]: "w \<le> CCH_WEIGHT_INFINITY"
  using unat_u32_less[of w] by (simp add: word_le_nat_alt)

lemma add_cch_infinity_iff:
  "add_cch_weights a b = CCH_WEIGHT_INFINITY \<longleftrightarrow> a = CCH_WEIGHT_INFINITY \<or> b = CCH_WEIGHT_INFINITY"
  by (simp add: infinity_iff unat_add_cch_weights min_def)

text \<open>C15: overflow can never make a reachable arc inaccessible, and below the overflow sentinel
  the sum is the exact sum of ticks.\<close>

theorem add_cch_weights_exact:
  "(add_cch_weights a b = CCH_WEIGHT_INFINITY
      \<longleftrightarrow> a = CCH_WEIGHT_INFINITY \<or> b = CCH_WEIGHT_INFINITY)
   \<and> (add_cch_weights a b < CCH_WEIGHT_OVERFLOW \<longleftrightarrow> unat a + unat b < 2 ^ 32 - 2)
   \<and> (add_cch_weights a b < CCH_WEIGHT_OVERFLOW
      \<longrightarrow> unat (add_cch_weights a b) = unat a + unat b)"
  using unat_u32_less[of a] unat_u32_less[of b]
  by (auto simp: add_cch_infinity_iff word_less_nat_alt unat_add_cch_weights)

theorem add_cch_weights_exact_witness:
  "unat (add_cch_weights 5 7) = unat (5 :: u32) + unat (7 :: u32)"
proof -
  have "add_cch_weights 5 7 < CCH_WEIGHT_OVERFLOW"
    by (simp add: word_less_nat_alt unat_add_cch_weights)
  then show ?thesis using add_cch_weights_exact[of 5 7] by blast
qed

section \<open>Encoding\<close>

text \<open>
  A finite \<open>f64\<close> is the rational it denotes and \<open>None\<close> stands for the values that are not
  finite. This is exact here: multiplying by the power of two 1024 rounds nothing (a product that
  leaves the range of \<open>f64\<close> is above the overflow bound either way), and \<open>f64::round\<close> of a
  non-negative value is \<open>\<lfloor>x + 1/2\<rfloor>\<close>.
\<close>

definition encode_cch_weight :: "rat option \<Rightarrow> u32" where
  "encode_cch_weight weight = (case weight of
      None \<Rightarrow> CCH_WEIGHT_INFINITY
    | Some w \<Rightarrow>
        let scaled = \<lfloor>max w 0 * 1024 + 1 / 2\<rfloor>
        in if uint CCH_WEIGHT_OVERFLOW \<le> scaled then CCH_WEIGHT_OVERFLOW
           else max (word_of_int scaled) (if 0 < w then 1 else 0))"

definition decode_cch_weight :: "u32 \<Rightarrow> rat option" where
  "decode_cch_weight weight =
     (if CCH_WEIGHT_OVERFLOW \<le> weight then None else Some (of_int (uint weight) / 1024))"

lemma uint_overflow [simp]: "uint CCH_WEIGHT_OVERFLOW = 2 ^ 32 - 2"
  by (simp add: CCH_WEIGHT_OVERFLOW_def)

lemma uint_max: "uint (max a b) = max (uint a) (uint (b :: u32))"
  by (simp add: max_def word_le_def)

lemma uint_encode_cch_weight:
  "uint (encode_cch_weight (Some w)) = (let scaled = \<lfloor>max w 0 * 1024 + 1 / 2\<rfloor> in
     if 2 ^ 32 - 2 \<le> scaled then 2 ^ 32 - 2 else max scaled (if 0 < w then 1 else 0))"
proof -
  have "0 \<le> \<lfloor>max w 0 * 1024 + 1 / 2\<rfloor>" by simp
  then have "uint (word_of_int \<lfloor>max w 0 * 1024 + 1 / 2\<rfloor> :: u32) = \<lfloor>max w 0 * 1024 + 1 / 2\<rfloor>"
    if "\<lfloor>max w 0 * 1024 + 1 / 2\<rfloor> < 2 ^ 32 - 2"
    using that by (simp add: word_of_int_inverse)
  then show ?thesis
    by (simp add: encode_cch_weight_def Let_def uint_max)
qed

lemma tick_floor: "0 \<le> k \<Longrightarrow> \<lfloor>max (of_int k / 1024 :: rat) 0 * 1024 + 1 / 2\<rfloor> = k"
  by (rule floor_unique) (auto simp: max_def)

text \<open>C14: what the header comment of the encoding promises. Decoding is exact, encoding a decoded
  weight is the identity, and a finite non-negative weight below the overflow bound is off by at
  most one tick, is never encoded as inaccessible, and occupies at least one tick when positive.\<close>

theorem encode_decode_weight:
  "(w < CCH_WEIGHT_OVERFLOW \<longrightarrow> encode_cch_weight (decode_cch_weight w) = w)
   \<and> encode_cch_weight (Some q) \<noteq> CCH_WEIGHT_INFINITY
   \<and> (0 < q \<longrightarrow> 1 \<le> encode_cch_weight (Some q))
   \<and> (0 \<le> q \<longrightarrow> q \<le> 4194303 \<longrightarrow>
       (\<exists>d. decode_cch_weight (encode_cch_weight (Some q)) = Some d \<and> \<bar>d - q\<bar> \<le> 1 / 1024))"
proof (intro conjI impI)
  let ?s = "\<lfloor>max q 0 * 1024 + 1 / 2\<rfloor>"
  note u = uint_encode_cch_weight[of q, unfolded Let_def]
  show "encode_cch_weight (Some q) \<noteq> CCH_WEIGHT_INFINITY"
  proof
    assume "encode_cch_weight (Some q) = CCH_WEIGHT_INFINITY"
    then have "uint (encode_cch_weight (Some q)) = 2 ^ 32 - 1" by (simp add: CCH_WEIGHT_INFINITY_def)
    moreover have "uint (encode_cch_weight (Some q)) \<le> 2 ^ 32 - 2"
      unfolding u by (simp only: split: if_splits) linarith
    ultimately show False by simp
  qed
  show "1 \<le> encode_cch_weight (Some q)" if "0 < q"
    using u that by (auto simp: word_le_def split: if_splits)
  show "encode_cch_weight (decode_cch_weight w) = w" if w: "w < CCH_WEIGHT_OVERFLOW"
  proof -
    define k where "k = uint w"
    have k: "0 \<le> k" "k < 2 ^ 32 - 2" using w by (simp_all add: k_def word_less_def)
    have "decode_cch_weight w = Some (of_int k / 1024)"
      using w by (simp add: decode_cch_weight_def not_le k_def)
    then have "uint (encode_cch_weight (decode_cch_weight w)) = k"
      using k by (simp only: uint_encode_cch_weight Let_def tick_floor) (auto simp: max_def)
    then show ?thesis by (simp only: word_uint_eq_iff k_def)
  qed
  assume q: "0 \<le> q" "q \<le> 4194303"
  have "q * 1024 + 1 / 2 < 4294967294" using q(2) by linarith
  then have s: "?s < 2 ^ 32 - 2" using q(1) by (simp add: floor_less_iff)
  then have e: "uint (encode_cch_weight (Some q)) = max ?s (if 0 < q then 1 else 0)" using u by simp
  then have "encode_cch_weight (Some q) < CCH_WEIGHT_OVERFLOW"
    using s by (simp add: word_less_def)
  then have "decode_cch_weight (encode_cch_weight (Some q))
      = Some (of_int (max ?s (if 0 < q then 1 else 0)) / 1024)"
    using e by (simp add: decode_cch_weight_def not_le)
  moreover have "\<bar>of_int (max ?s (if 0 < q then 1 else 0)) / 1024 - q\<bar> \<le> 1 / 1024"
    using q(1) of_int_floor_le[of "q * 1024 + 1 / 2"] floor_correct[of "q * 1024 + 1 / 2"]
    by (auto simp: max_def field_simps abs_le_iff split: if_splits)
  ultimately show "\<exists>d. decode_cch_weight (encode_cch_weight (Some q)) = Some d \<and> \<bar>d - q\<bar> \<le> 1 / 1024"
    by blast
qed

theorem encode_decode_weight_witness:
  "encode_cch_weight (decode_cch_weight 7) = 7 \<and> 1 \<le> encode_cch_weight (Some (1 / 5000))"
proof -
  have "(7 :: u32) < CCH_WEIGHT_OVERFLOW" by (simp add: CCH_WEIGHT_OVERFLOW_def)
  then show ?thesis using encode_decode_weight[of 7 "1 / 5000"] by simp
qed

section \<open>Costs of paths\<close>

locale path_costs =
  fixes zero :: "'w::linorder" and add :: "'w \<Rightarrow> 'w \<Rightarrow> 'w" and top :: 'w
  assumes add_assoc: "add (add a b) c = add a (add b c)"
    and add_commute: "add a b = add b a"
    and add_zero: "add zero a = a"
    and add_mono: "a \<le> b \<Longrightarrow> c \<le> d \<Longrightarrow> add a c \<le> add b d"
    and zero_least: "zero \<le> a"
    and top_greatest: "a \<le> top"
    and add_top: "add a b = top \<longleftrightarrow> a = top \<or> b = top"
begin

fun cost :: "('v \<Rightarrow> 'v \<Rightarrow> 'w) \<Rightarrow> 'v list \<Rightarrow> 'w" where
  "cost w (x # y # p) = add (w x y) (cost w (y # p))"
| "cost w p = zero"

lemma cost_split: "cost w (p @ x # q) = add (cost w (p @ [x])) (cost w (x # q))"
proof (induction p)
  case (Cons a p)
  then show ?case by (cases p) (simp_all add: add_assoc add_zero add_commute[of _ zero])
qed (simp add: add_zero)

lemma le_add: "b \<le> add a b" "b \<le> add b a"
  using add_mono[OF zero_least[of a] order_refl[of b]] by (simp_all add: add_zero add_commute[of b a])

lemma cost_mono:
  "(\<And>i. Suc i < length p \<Longrightarrow> w (p ! i) (p ! Suc i) \<le> w' (p ! i) (p ! Suc i)) \<Longrightarrow> cost w p \<le> cost w' p"
proof (induction w p rule: cost.induct)
  case (1 w x y p)
  have "cost w (y # p) \<le> cost w' (y # p)"
    using 1(2)[of "Suc i" for i] by (intro 1(1)) simp
  moreover have "w x y \<le> w' x y" using 1(2)[of 0] by simp
  ultimately show ?case by (simp add: add_mono)
qed simp_all

text \<open>Removing a detour never costs more: the two rewrites that straighten a path.\<close>

lemma cost_shortcut:
  assumes "w x y \<le> add (w x v) (w v y)"
  shows "cost w (p @ x # y # q) \<le> cost w (p @ x # v # y # q)"
proof -
  have "add (w x y) (cost w (y # q)) \<le> add (add (w x v) (w v y)) (cost w (y # q))"
    by (rule add_mono[OF assms order_refl])
  then show ?thesis
    by (subst (1 2) cost_split) (simp add: add_mono add_assoc)
qed

lemma cost_drop_loop: "cost w (p @ x # q) \<le> cost w (p @ x # v # x # q)"
proof -
  have "cost w (x # q) \<le> add (add (w x v) (w v x)) (cost w (x # q))" by (rule le_add)
  then show ?thesis
    by (subst (1 2) cost_split) (simp add: add_mono add_assoc)
qed

end

interpretation cch: path_costs "0 :: u32" add_cch_weights CCH_WEIGHT_INFINITY
  by unfold_locales
    (auto simp: add_cch_assoc add_cch_zero add_cch_mono add_cch_infinity_iff intro: add_cch_commute)

end
