(* ===== verification/Cch_Paths.thy ===== *)
theory Cch_Paths
  imports Cch_Weights
begin

text \<open>
  What customization has to achieve, on weight functions instead of arrays. \<open>relaxed r v w\<close> is
  one middle's relaxation: every pair outranking \<open>v\<close> may be short-cut over \<open>v\<close>. The lemmas, in
  the weight-algebra locale, show that relaxing all middles in any order that respects the lower
  neighbours establishes the triangle inequality, never loses or invents a path, and that the
  triangle inequality lets every path be straightened into one that first ascends and then
  descends in rank, which is what a bidirectional hierarchy search explores.
\<close>

section \<open>Paths that ascend and then descend\<close>

definition path_from_to :: "nat \<Rightarrow> nat list \<Rightarrow> nat \<Rightarrow> bool" where
  "path_from_to x p y \<longleftrightarrow> p \<noteq> [] \<and> hd p = x \<and> last p = y"

fun descending :: "('v \<Rightarrow> nat) \<Rightarrow> 'v list \<Rightarrow> bool" where
  "descending r (x # y # p) \<longleftrightarrow> r y < r x \<and> descending r (y # p)"
| "descending r p \<longleftrightarrow> True"

fun up_down :: "('v \<Rightarrow> nat) \<Rightarrow> 'v list \<Rightarrow> bool" where
  "up_down r (x # y # p) \<longleftrightarrow> r x < r y \<and> up_down r (y # p) \<or> descending r (x # y # p)"
| "up_down r p \<longleftrightarrow> True"

lemma descending_up_down: "descending r p \<Longrightarrow> up_down r p"
  by (induction r p rule: descending.induct) simp_all

context path_costs
begin

definition triangle_at :: "('v \<Rightarrow> nat) \<Rightarrow> 'v \<Rightarrow> ('v \<Rightarrow> 'v \<Rightarrow> 'w) \<Rightarrow> bool" where
  "triangle_at r v w \<longleftrightarrow>
     (\<forall>x y. x \<noteq> y \<longrightarrow> r v < r x \<longrightarrow> r v < r y \<longrightarrow> w x y \<le> add (w x v) (w v y))"

definition relaxed :: "('v \<Rightarrow> nat) \<Rightarrow> 'v \<Rightarrow> ('v \<Rightarrow> 'v \<Rightarrow> 'w) \<Rightarrow> 'v \<Rightarrow> 'v \<Rightarrow> 'w" where
  "relaxed r v w = (\<lambda>x y. if x \<noteq> y \<and> r v < r x \<and> r v < r y
     then min (w x y) (add (w x v) (w v y)) else w x y)"

lemma relaxed_le: "relaxed r v w x y \<le> w x y"
  by (simp add: relaxed_def)

lemma relaxed_incident [simp]: "relaxed r v w x v = w x v" "relaxed r v w v y = w v y"
  by (simp_all add: relaxed_def)

lemma triangle_after: "triangle_at r v (relaxed r v w)"
  by (simp add: triangle_at_def) (simp add: relaxed_def)

text \<open>\<open>u\<close> reads or writes arcs of \<open>v\<close> only if it is a lower neighbour of \<open>v\<close>.\<close>

definition lower_neighbour :: "('v \<Rightarrow> nat) \<Rightarrow> ('v \<times> 'v) set \<Rightarrow> 'v \<Rightarrow> 'v \<Rightarrow> bool" where
  "lower_neighbour r S u v \<longleftrightarrow> r u < r v \<and> ((u, v) \<in> S \<or> (v, u) \<in> S)"

definition supported :: "('v \<times> 'v) set \<Rightarrow> ('v \<Rightarrow> 'v \<Rightarrow> 'w) \<Rightarrow> bool" where
  "supported S w \<longleftrightarrow> (\<forall>x y. (x, y) \<notin> S \<longrightarrow> w x y = top)"

definition closed_arcs :: "('v \<Rightarrow> nat) \<Rightarrow> ('v \<times> 'v) set \<Rightarrow> bool" where
  "closed_arcs r S \<longleftrightarrow> (\<forall>x v y. (x, v) \<in> S \<longrightarrow> (v, y) \<in> S \<longrightarrow> x \<noteq> y \<longrightarrow> r v < r x \<longrightarrow> r v < r y
     \<longrightarrow> (x, y) \<in> S)"

lemma top_min [simp]: "min a top = a" "min top a = a"
  using top_greatest by (simp_all add: min_def order_antisym)

lemma add_top_simps [simp]: "add top a = top" "add a top = top"
  using add_top by auto

lemma relaxed_supported:
  assumes "closed_arcs r S" "supported S w"
  shows "supported S (relaxed r v w)"
  unfolding supported_def
proof (intro allI impI)
  fix x y
  assume n: "(x, y) \<notin> S"
  show "relaxed r v w x y = top"
  proof (cases "x \<noteq> y \<and> r v < r x \<and> r v < r y")
    case True
    then have "(x, v) \<notin> S \<or> (v, y) \<notin> S" using n assms(1) by (auto simp: closed_arcs_def)
    then have "add (w x v) (w v y) = top" using assms(2) by (auto simp: supported_def)
    then show ?thesis using n assms(2) by (simp add: relaxed_def supported_def)
  qed (use n assms(2) in \<open>auto simp: relaxed_def supported_def\<close>)
qed

lemma relaxed_keeps_incident:
  assumes "supported S w" "\<not> lower_neighbour r S u v"
  shows "relaxed r u w x v = w x v" "relaxed r u w v y = w v y"
proof -
  have "w u v = top \<and> w v u = top" if "r u < r v"
    using assms that by (auto simp: lower_neighbour_def supported_def)
  then show "relaxed r u w x v = w x v" "relaxed r u w v y = w v y"
    by (auto simp: relaxed_def)
qed

lemma triangle_kept:
  assumes "supported S w" "\<not> lower_neighbour r S u v" "triangle_at r v w"
  shows "triangle_at r v (relaxed r u w)"
  using assms(3) relaxed_keeps_incident[OF assms(1,2)] order_trans[OF relaxed_le]
  unfolding triangle_at_def by (metis (no_types, lifting))

definition lower_first :: "('v \<Rightarrow> nat) \<Rightarrow> ('v \<times> 'v) set \<Rightarrow> 'v list \<Rightarrow> bool" where
  "lower_first r S vs \<longleftrightarrow> sorted_wrt (\<lambda>v u. \<not> lower_neighbour r S u v) vs"

abbreviation relax_all :: "('v \<Rightarrow> nat) \<Rightarrow> 'v list \<Rightarrow> ('v \<Rightarrow> 'v \<Rightarrow> 'w) \<Rightarrow> 'v \<Rightarrow> 'v \<Rightarrow> 'w" where
  "relax_all r vs w \<equiv> foldl (\<lambda>w v. relaxed r v w) w vs"

lemma relax_all_le: "relax_all r vs w x y \<le> w x y"
proof (induction vs arbitrary: w)
  case (Cons v vs)
  have "relax_all r vs (relaxed r v w) x y \<le> relaxed r v w x y" by (rule Cons.IH)
  then show ?case using relaxed_le[of r v w x y] by simp
qed simp

lemma relax_all_supported: "closed_arcs r S \<Longrightarrow> supported S w \<Longrightarrow> supported S (relax_all r vs w)"
  by (induction vs arbitrary: w) (simp_all add: relaxed_supported)

lemma triangle_kept_all:
  assumes "closed_arcs r S" "supported S w" "triangle_at r v w" "\<forall>u\<in>set vs. \<not> lower_neighbour r S u v"
  shows "triangle_at r v (relax_all r vs w)"
  using assms(2-) 
proof (induction vs arbitrary: w)
  case (Cons u vs)
  then show ?case
    using triangle_kept[of S w r u v] relaxed_supported[OF assms(1), of w u] by simp
qed simp

theorem triangle_final:
  assumes "closed_arcs r S" "supported S w" "lower_first r S vs" "v \<in> set vs"
  shows "triangle_at r v (relax_all r vs w)"
  using assms(2-)
proof (induction vs arbitrary: w)
  case (Cons u vs)
  note s = relaxed_supported[OF assms(1) Cons.prems(1), of u]
  show ?case
  proof (cases "u = v")
    case True
    then have "triangle_at r v (relaxed r u w)" using triangle_after by simp
    then have "triangle_at r v (relax_all r vs (relaxed r u w))"
      using Cons.prems(2) True by (intro triangle_kept_all[OF assms(1) s]) (auto simp: lower_first_def)
    then show ?thesis by simp
  next
    case False
    then show ?thesis using Cons.IH[OF s] Cons.prems by (simp add: lower_first_def)
  qed
qed simp

section \<open>The weights do not depend on the order\<close>

definition attained :: "('v \<Rightarrow> nat) \<Rightarrow> 'v set \<Rightarrow> ('v \<Rightarrow> 'v \<Rightarrow> 'w) \<Rightarrow> ('v \<Rightarrow> 'v \<Rightarrow> 'w) \<Rightarrow> bool" where
  "attained r N b w \<longleftrightarrow> (\<forall>x y. w x y = b x y
     \<or> (\<exists>v\<in>N. x \<noteq> y \<and> r v < r x \<and> r v < r y \<and> w x y = add (w x v) (w v y)))"

lemma relax_all_attained:
  assumes "closed_arcs r S" "supported S b"
  shows "lower_first r S vs \<Longrightarrow> attained r (set vs) b (relax_all r vs b)"
proof (induction vs rule: rev_induct)
  case (snoc u vs)
  let ?w = "relax_all r vs b"
  have s: "supported S ?w" by (rule relax_all_supported[OF assms])
  have ih: "attained r (set vs) b ?w"
    using snoc by (simp add: lower_first_def sorted_wrt_append)
  have keep: "relaxed r u ?w x v = ?w x v" "relaxed r u ?w v y = ?w v y" if "v \<in> set vs" for x v y
    using relaxed_keeps_incident[OF s] snoc.prems that
    by (auto simp: lower_first_def sorted_wrt_append)
  have "attained r (insert u (set vs)) b (relaxed r u ?w)"
    unfolding attained_def
  proof (intro allI)
    fix x y
    show "relaxed r u ?w x y = b x y \<or> (\<exists>v\<in>insert u (set vs). x \<noteq> y \<and> r v < r x \<and> r v < r y
        \<and> relaxed r u ?w x y = add (relaxed r u ?w x v) (relaxed r u ?w v y))"
    proof (cases "relaxed r u ?w x y = ?w x y")
      case True
      then show ?thesis using ih keep unfolding attained_def by (metis insertCI)
    next
      case False
      then have "x \<noteq> y \<and> r u < r x \<and> r u < r y \<and> relaxed r u ?w x y = add (?w x u) (?w u y)"
        by (auto simp: relaxed_def min_def split: if_splits)
      then show ?thesis by auto
    qed
  qed
  then show ?case by simp
qed (simp add: attained_def)

lemma attained_least:
  assumes "attained r N b w" "\<And>x y. w' x y \<le> b x y" "\<And>v. v \<in> N \<Longrightarrow> triangle_at r v w'"
  shows "w' x y \<le> w x y"
proof (induction "min (r x) (r y)" arbitrary: x y rule: less_induct)
  case less
  show ?case
  proof (cases "w x y = b x y")
    case False
    then obtain v where v: "v \<in> N" "x \<noteq> y" "r v < r x" "r v < r y" "w x y = add (w x v) (w v y)"
      using assms(1) unfolding attained_def by blast
    have "w' x y \<le> add (w' x v) (w' v y)" using assms(3)[OF v(1)] v by (simp add: triangle_at_def)
    also have "\<dots> \<le> add (w x v) (w v y)" using less v by (intro add_mono) auto
    finally show ?thesis using v(5) by simp
  qed (simp add: assms(2))
qed

theorem relax_all_unique:
  assumes "closed_arcs r S" "supported S b" "lower_first r S vs" "lower_first r S us" "set vs = set us"
  shows "relax_all r vs b = relax_all r us b"
proof -
  have "relax_all r ps b x y \<le> relax_all r qs b x y"
    if "lower_first r S ps" "lower_first r S qs" "set ps = set qs" for ps qs x y
    by (rule attained_least[OF relax_all_attained[OF assms(1,2) that(2)] relax_all_le
          triangle_final[OF assms(1,2) that(1)]]) (use that(3) in simp)
  then show ?thesis using assms(3-5) by (intro ext order_antisym) auto
qed

section \<open>No path is invented\<close>

definition realised :: "(nat \<Rightarrow> nat \<Rightarrow> 'w) \<Rightarrow> (nat \<Rightarrow> nat \<Rightarrow> 'w) \<Rightarrow> bool" where
  "realised b w \<longleftrightarrow> (\<forall>x y. w x y \<noteq> top \<longrightarrow> (\<exists>p. path_from_to x p y \<and> cost b p = w x y))"

lemma realised_base: "realised b b"
  unfolding realised_def
proof (intro allI impI)
  fix x y
  have "path_from_to x [x, y] y \<and> cost b [x, y] = b x y"
    using add_zero[of "b x y"] add_commute[of zero] by (simp add: path_from_to_def)
  then show "\<exists>p. path_from_to x p y \<and> cost b p = b x y" by blast
qed

lemma realised_relaxed:
  assumes "realised b w"
  shows "realised b (relaxed r v w)"
  unfolding realised_def
proof (intro allI impI)
  fix x y
  assume f: "relaxed r v w x y \<noteq> top"
  show "\<exists>p. path_from_to x p y \<and> cost b p = relaxed r v w x y"
  proof (cases "relaxed r v w x y = w x y")
    case True
    then show ?thesis using assms f by (auto simp: realised_def)
  next
    case False
    then have e: "relaxed r v w x y = add (w x v) (w v y)"
      by (auto simp: relaxed_def min_def split: if_splits)
    then have "w x v \<noteq> top" "w v y \<noteq> top" using f add_top by auto
    then obtain p q where p: "path_from_to x p v" "cost b p = w x v"
      and q: "path_from_to v q y" "cost b q = w v y"
      using assms unfolding realised_def by blast
    obtain q' where q': "q = v # q'" using q(1) by (cases q) (auto simp: path_from_to_def)
    have pb: "p = butlast p @ [v]" using p(1) by (auto simp: path_from_to_def)
    have "cost b (butlast p @ v # q') = add (cost b p) (cost b q)"
      using pb q' by (subst cost_split) simp
    moreover have "path_from_to x (butlast p @ v # q') y"
    proof (cases "butlast p")
      case Nil
      then show ?thesis using p(1) q(1) q' pb by (auto simp: path_from_to_def)
    next
      case (Cons a as)
      then have "p = a # as @ [v]" using pb by simp
      then show ?thesis using p(1) q(1) q' Cons by (simp add: path_from_to_def)
    qed
    ultimately show ?thesis using e p(2) q(2) by auto
  qed
qed

lemma realised_relax_all: "realised b w \<Longrightarrow> realised b (relax_all r vs w)"
  by (induction vs arbitrary: w) (simp_all add: realised_relaxed)

section \<open>Straightening\<close>

text \<open>Prepending a vertex to an ascending-descending path: a descent into an ascent is a local
  minimum, which the triangle inequality removes.\<close>

lemma straighten_cons:
  assumes tri: "\<And>v. v \<in> N \<Longrightarrow> triangle_at r v w" and inj: "inj_on r N"
  shows "up_down r q \<Longrightarrow> path_from_to y q z \<Longrightarrow> set q \<subseteq> N \<Longrightarrow> x \<in> N \<Longrightarrow>
    \<exists>q'. up_down r q' \<and> path_from_to x q' z \<and> set q' \<subseteq> N \<and> cost w q' \<le> cost w (x # q)"
proof (induction q arbitrary: y)
  case Nil
  then show ?case by (simp add: path_from_to_def)
next
  case (Cons y' q)
  then have y: "y' = y" "y \<in> N" by (auto simp: path_from_to_def)
  have keep: ?case if "up_down r (x # y # q)"
    using that Cons.prems y
    by (intro exI[of _ "x # y # q"]) (auto simp: path_from_to_def)
  show ?case
  proof (cases "r x < r y")
    case True
    then show ?thesis using keep Cons.prems y by simp
  next
    case False
    show ?thesis
    proof (cases "x = y")
      case True
      have "cost w (y # q) \<le> cost w (x # y # q)" using le_add by simp
      then show ?thesis using True Cons.prems y by blast
    next
      case xy: False
      then have "r x \<noteq> r y" using inj y(2) Cons.prems(4) by (simp add: inj_on_eq_iff)
      then have ryx: "r y < r x" using False by simp
      show ?thesis
      proof (cases "\<exists>v q''. q = v # q'' \<and> r y < r v")
        case False
        then have "descending r (y # q)" using Cons.prems(1) y by (cases q) auto
        then show ?thesis using keep ryx by simp
      next
        case True
        then obtain v q'' where q: "q = v # q''" "r y < r v" by blast
        have ud: "up_down r q" using Cons.prems(1) y q by (auto simp: descending_up_down)
        have pq: "path_from_to v q z" "set q \<subseteq> N" using Cons.prems q by (auto simp: path_from_to_def)
        from Cons.IH[OF ud pq Cons.prems(4)] obtain q' where
          q': "up_down r q'" "path_from_to x q' z" "set q' \<subseteq> N" "cost w q' \<le> cost w (x # q)" by blast
        show ?thesis
        proof (cases "x = v")
          case True
          have "cost w q \<le> cost w (x # y # q)"
            using cost_drop_loop[of w "[]" x q'' y] q True by simp
          then show ?thesis using ud pq True y(1) by blast
        next
          case False
          have "w x v \<le> add (w x y) (w y v)"
            using tri[OF y(2)] False ryx q(2) by (simp add: triangle_at_def)
          then have "cost w ([] @ x # v # q'') \<le> cost w ([] @ x # y # v # q'')" by (rule cost_shortcut)
          then have "cost w (x # q) \<le> cost w (x # y # q)" by (simp add: q(1))
          then show ?thesis using q' y(1) order_trans by blast
        qed
      qed
    qed
  qed
qed

lemma straighten:
  assumes tri: "\<And>v. v \<in> N \<Longrightarrow> triangle_at r v w" and inj: "inj_on r N"
  shows "path_from_to x p z \<Longrightarrow> set p \<subseteq> N \<Longrightarrow>
    \<exists>q. up_down r q \<and> path_from_to x q z \<and> set q \<subseteq> N \<and> cost w q \<le> cost w p"
proof (induction p arbitrary: x)
  case Nil
  then show ?case by (simp add: path_from_to_def)
next
  case (Cons a p)
  show ?case
  proof (cases p)
    case Nil
    then show ?thesis using Cons.prems by (intro exI[of _ "[a]"]) (simp add: path_from_to_def)
  next
    case (Cons b p')
    have a: "a = x" "x \<in> N" using Cons.prems by (auto simp: path_from_to_def)
    have "path_from_to b p z" "set p \<subseteq> N" using Cons.prems \<open>p = b # p'\<close> by (auto simp: path_from_to_def)
    from Cons.IH[OF this] obtain q where
      q: "up_down r q" "path_from_to b q z" "set q \<subseteq> N" "cost w q \<le> cost w p" by blast
    have "cost w (x # q) \<le> cost w (x # p)"
      using q(2,4) \<open>p = b # p'\<close> add_mono[OF order_refl q(4)]
      by (cases q) (auto simp: path_from_to_def)
    then show ?thesis
      using straighten_cons[OF tri inj q(1,2,3) a(2)] a(1) order_trans by blast
  qed
qed

theorem relax_all_exact:
  assumes "closed_arcs r S" "supported S b" "lower_first r S vs" "N = set vs" "inj_on r N"
  shows "realised b (relax_all r vs b)"
    and "path_from_to x p z \<Longrightarrow> set p \<subseteq> N \<Longrightarrow>
      \<exists>q. up_down r q \<and> path_from_to x q z \<and> set q \<subseteq> N \<and> cost (relax_all r vs b) q \<le> cost b p"
proof -
  show "realised b (relax_all r vs b)" by (rule realised_relax_all[OF realised_base])
  assume p: "path_from_to x p z" "set p \<subseteq> N"
  have "\<exists>q. up_down r q \<and> path_from_to x q z \<and> set q \<subseteq> N
      \<and> cost (relax_all r vs b) q \<le> cost (relax_all r vs b) p"
    using triangle_final[OF assms(1-3)] assms(4)
    by (intro straighten[OF _ assms(5) p]) simp
  moreover have "cost (relax_all r vs b) p \<le> cost b p"
    by (intro cost_mono relax_all_le)
  ultimately show "\<exists>q. up_down r q \<and> path_from_to x q z \<and> set q \<subseteq> N
      \<and> cost (relax_all r vs b) q \<le> cost b p"
    using order_trans by blast
qed

end

end
