(* ===== verification/Cch_Exact.thy ===== *)
theory Cch_Exact
  imports Cch_Customize
begin

unbundle bit_operations_syntax

text \<open>
  Correctness of customization: the array code of \<open>Cch_Customize\<close> refines the relaxation of
  weight functions, phase 1 agrees with the code's own single-arc reference \<open>CostBaseArcs\<close>, and
  the finished weights are exact in the sense of \<open>Cch_Paths\<close>.
\<close>

section \<open>The arrays as a weight function\<close>

text \<open>What customization needs to know about a bundle; \<open>ups\<close> and \<open>downs\<close> are its sorted arcs.\<close>

definition hierarchy :: "nat \<Rightarrow> acceleration_bundle \<Rightarrow> (nat \<times> nat) list \<Rightarrow> (nat \<times> nat) list \<Rightarrow> bool" where
  "hierarchy n b ups downs \<longleftrightarrow>
     is_order n (edge_order b) \<and> edge_rank b = ranks_of_order n (edge_order b)
     \<and> sorted_arcs n ups \<and> sorted_arcs n downs
     \<and> upward_first_out b = fst (arcs_to_csr ups n) \<and> upward_head b = map snd ups
     \<and> downward_first_out b = fst (arcs_to_csr downs n) \<and> downward_head b = map snd downs
     \<and> (\<forall>(x, y)\<in>set ups. y < n \<and> edge_rank b ! x < edge_rank b ! y)
     \<and> (\<forall>(x, y)\<in>set downs. y < n \<and> edge_rank b ! y < edge_rank b ! x)
     \<and> (\<forall>x v y. (x, v) \<in> set downs \<longrightarrow> (v, y) \<in> set ups \<longrightarrow> x \<noteq> y
          \<longrightarrow> (x, y) \<in> set ups \<or> (x, y) \<in> set downs)"

lemma hierarchyD:
  assumes "hierarchy n b ups downs"
  shows "length (edge_rank b) = n" "sorted_arcs n ups" "sorted_arcs n downs"
    "(x, y) \<in> set ups \<Longrightarrow> x < n \<and> y < n \<and> x \<noteq> y \<and> edge_rank b ! x < edge_rank b ! y"
    "(x, y) \<in> set downs \<Longrightarrow> x < n \<and> y < n \<and> x \<noteq> y \<and> edge_rank b ! y < edge_rank b ! x"
    "(x, v) \<in> set downs \<Longrightarrow> (v, y) \<in> set ups \<Longrightarrow> x \<noteq> y \<Longrightarrow> (x, y) \<in> set ups \<or> (x, y) \<in> set downs"
  using assms unfolding hierarchy_def sorted_arcs_def by fastforce+

lemma hierarchy_find:
  assumes "hierarchy n b ups downs"
  shows "find_arc (upward_first_out b) (upward_head b) x y = csr_find (n, ups) x y"
    "find_arc (downward_first_out b) (downward_head b) x y = csr_find (n, downs) x y"
  using assms by (simp_all add: hierarchy_def csr_find_def)

lemma hierarchy_build:
  assumes "is_order (edge_count t) order"
  shows "hierarchy (edge_count t) (build_with_order t order) (up_arcs t order) (down_arcs t order)"
proof -
  let ?r = "ranks_of_order (edge_count t) order"
  note ea = eliminate_arcs[OF assms]
  have "(x, y) \<in> set (upward (eliminate t order)) \<or> (x, y) \<in> set (downward (eliminate t order))"
    if "(x, v) \<in> set (downward (eliminate t order))" "(v, y) \<in> set (upward (eliminate t order))"
      "x \<noteq> y" for x v y
  proof -
    have "elim_arc (base_arcs t) ((!) ?r) x y"
      using that ea(1,2) by (auto intro: elim_arc.shortcut)
    moreover from ea(3)[OF this] that(3) have "?r ! x \<noteq> ?r ! y" using ranks_inj[OF assms] by blast
    ultimately show ?thesis using ea(1,2) by (metis linorder_neqE_nat)
  qed
  then show ?thesis
    using assms sorted_up_down[OF assms] ea(1,2,3) unfolding hierarchy_def by auto
qed

definition weight_shape :: "acceleration_bundle \<Rightarrow> metric_weights \<Rightarrow> bool" where
  "weight_shape b w \<longleftrightarrow> length (up_weights w) = length (upward_head b)
     \<and> length (down_weights w) = length (downward_head b)"

definition arc_weight :: "acceleration_bundle \<Rightarrow> metric_weights \<Rightarrow> nat \<Rightarrow> nat \<Rightarrow> u32" where
  "arc_weight b w x y =
     (if x < length (edge_rank b) \<and> y < length (edge_rank b)
      then (case target_slot b x y of None \<Rightarrow> CCH_WEIGHT_INFINITY | Some s \<Rightarrow> load w s)
      else CCH_WEIGHT_INFINITY)"

lemma target_slot_iff:
  assumes "hierarchy n b ups downs" "x < n" "y < n"
  shows "target_slot b x y = Some (Up_Slot s) \<longleftrightarrow> s < length ups \<and> ups ! s = (x, y)"
    "target_slot b x y = Some (Down_Slot s) \<longleftrightarrow> s < length downs \<and> downs ! s = (x, y)"
proof -
  have "(x, y) \<in> set ups" if "s < length ups" "ups ! s = (x, y)" using that nth_mem by metis
  moreover have "(x, y) \<in> set downs" if "s < length downs" "downs ! s = (x, y)" using that nth_mem by metis
  moreover have "csr_find (n, ups) x y = Some s \<longleftrightarrow> s < length ups \<and> ups ! s = (x, y)"
    "csr_find (n, downs) x y = Some s \<longleftrightarrow> s < length downs \<and> downs ! s = (x, y)"
    using csr.find_some[of "(n, ups)" x y s] csr.find_some[of "(n, downs)" x y s]
      hierarchyD(2,3)[OF assms(1)] assms(2) by simp_all
  ultimately show "target_slot b x y = Some (Up_Slot s) \<longleftrightarrow> s < length ups \<and> ups ! s = (x, y)"
    "target_slot b x y = Some (Down_Slot s) \<longleftrightarrow> s < length downs \<and> downs ! s = (x, y)"
    using hierarchyD(4,5)[OF assms(1), of x y]
    by (auto simp: target_slot_def hierarchy_find[OF assms(1)])
qed

lemma target_slot_None:
  assumes "hierarchy n b ups downs" "x < n" "y < n"
  shows "target_slot b x y = None \<longleftrightarrow> (x, y) \<notin> set ups \<and> (x, y) \<notin> set downs"
proof -
  have "target_slot b x y \<noteq> None \<longleftrightarrow> (\<exists>s. target_slot b x y = Some (Up_Slot s)) \<or>
      (\<exists>s. target_slot b x y = Some (Down_Slot s))"
    by (auto simp: target_slot_def)
  then show ?thesis
    unfolding target_slot_iff[OF assms] by (auto simp: in_set_conv_nth)
qed

lemma arc_weight_at:
  assumes "hierarchy n b ups downs"
  shows "s < length ups \<Longrightarrow> ups ! s = (x, y) \<Longrightarrow> arc_weight b w x y = up_weights w ! s"
    "s < length downs \<Longrightarrow> downs ! s = (x, y) \<Longrightarrow> arc_weight b w x y = down_weights w ! s"
proof -
  have n: "x < n \<and> y < n" if "(x, y) \<in> set ups \<union> set downs"
    using that hierarchyD(4,5)[OF assms] by blast
  show "s < length ups \<Longrightarrow> ups ! s = (x, y) \<Longrightarrow> arc_weight b w x y = up_weights w ! s"
    "s < length downs \<Longrightarrow> downs ! s = (x, y) \<Longrightarrow> arc_weight b w x y = down_weights w ! s"
    using target_slot_iff[OF assms, of x y s] hierarchyD(1)[OF assms] n
      nth_mem[of s ups] nth_mem[of s downs]
    by (auto simp: arc_weight_def)
qed

lemma arc_weight_supported:
  assumes "hierarchy n b ups downs"
  shows "cch.supported (set ups \<union> set downs) (arc_weight b w)"
  unfolding cch.supported_def
proof (intro allI impI)
  fix x y
  assume "(x, y) \<notin> set ups \<union> set downs"
  then have "x < n \<Longrightarrow> y < n \<Longrightarrow> target_slot b x y = None"
    using target_slot_None[OF assms] by simp
  then show "arc_weight b w x y = CCH_WEIGHT_INFINITY"
    using hierarchyD(1)[OF assms] by (simp add: arc_weight_def)
qed

lemma weight_shape_fetch_min [simp]: "weight_shape b (fetch_min w s c) \<longleftrightarrow> weight_shape b w"
  by (cases s) (simp_all add: weight_shape_def)

lemma arc_weight_fetch_min:
  assumes h: "hierarchy n b ups downs" and sh: "weight_shape b w" and xy: "x < n" "y < n"
    and s: "target_slot b x y = Some s"
  shows "arc_weight b (fetch_min w s c) a d =
    (if a = x \<and> d = y then min (arc_weight b w x y) c else arc_weight b w a d)"
proof (cases "a < n \<and> d < n")
  case True
  have len: "length (up_weights w) = length ups" "length (down_weights w) = length downs"
    using sh h by (auto simp: weight_shape_def hierarchy_def)
  note t = target_slot_iff[OF h]
  have eq: "s' = s \<longleftrightarrow> a = x \<and> d = y" if "target_slot b a d = Some s'" for s'
  proof
    assume "s' = s"
    with that s True xy show "a = x \<and> d = y" by (cases s) (auto simp: t)
  qed (use that s in auto)
  have ld: "load (fetch_min w s c) s' = (if s' = s then min (load w s) c else load w s')"
    if "target_slot b a d = Some s'" for s'
    using that s True xy len by (cases s; cases s') (simp_all add: t)
  show ?thesis
    using True xy s eq ld hierarchyD(1)[OF h]
    by (cases "target_slot b a d") (auto simp: arc_weight_def)
qed (use xy hierarchyD(1)[OF h] in \<open>auto simp: arc_weight_def\<close>)

section \<open>One triangle, one incoming arc, one middle\<close>

lemma relax_triangle_weight:
  assumes h: "hierarchy n b ups downs" and sh: "weight_shape b w"
    and xv: "(x, v) \<in> set downs" and ou: "oa < length ups" "ups ! oa = (v, y)"
  shows "weight_shape b (relax_triangle b iw x w oa)
    \<and> arc_weight b (relax_triangle b iw x w oa) = (\<lambda>a d. if a = x \<and> d = y \<and> x \<noteq> y
        then min (arc_weight b w x y) (add_cch_weights iw (arc_weight b w v y)) else arc_weight b w a d)"
proof -
  have vy: "(v, y) \<in> set ups" using nth_mem[OF ou(1)] ou(2) by simp
  have n: "x < n" "y < n" using hierarchyD(4,5)[OF h] xv vy by blast+
  have hd: "upward_head b ! oa = y" using ou h by (simp add: hierarchy_def)
  have ow: "up_weights w ! oa = arc_weight b w v y" using arc_weight_at(1)[OF h ou] by simp
  show ?thesis
  proof (cases "x = y \<or> arc_weight b w v y = CCH_WEIGHT_INFINITY")
    case True
    then show ?thesis using sh by (auto simp: relax_triangle_def hd ow Let_def fun_eq_iff)
  next
    case False
    then have xy: "(x, y) \<in> set ups \<or> (x, y) \<in> set downs"
      using hierarchyD(6)[OF h xv vy] by blast
    then obtain s where s: "target_slot b x y = Some s"
      using target_slot_None[OF h n] by auto
    have ld: "load w s = arc_weight b w x y" using s n hierarchyD(1)[OF h] by (simp add: arc_weight_def)
    show ?thesis
      using False sh s arc_weight_fetch_min[OF h sh n s]
      by (auto simp: relax_triangle_def hd ow Let_def fun_eq_iff ld min_def)
  qed
qed

lemma relax_outgoing_weight:
  assumes h: "hierarchy n b ups downs" and xv: "(x, v) \<in> set downs"
  shows "weight_shape b w \<Longrightarrow> \<forall>oa\<in>set os. oa < length ups \<and> fst (ups ! oa) = v \<Longrightarrow>
    weight_shape b (foldl (relax_triangle b iw x) w os)
    \<and> arc_weight b (foldl (relax_triangle b iw x) w os) =
      (\<lambda>a d. if a = x \<and> x \<noteq> d \<and> (\<exists>oa\<in>set os. ups ! oa = (v, d))
        then min (arc_weight b w x d) (add_cch_weights iw (arc_weight b w v d)) else arc_weight b w a d)"
proof (induction os arbitrary: w)
  case (Cons oa os)
  obtain y where oa: "oa < length ups" "ups ! oa = (v, y)"
    using Cons.prems(2) by (cases "ups ! oa") auto
  note st = relax_triangle_weight[OF h Cons.prems(1) xv oa, of iw]
  have nv: "x \<noteq> v" using hierarchyD(5)[OF h xv] by blast
  show ?case
    using Cons.IH[of "relax_triangle b iw x w oa"] st Cons.prems(2) nv oa(2)
    by (auto simp: fun_eq_iff min.assoc min.left_commute)
qed simp

lemma relax_incoming_weight:
  assumes h: "hierarchy n b ups downs" and sh: "weight_shape b w"
    and ctx: "reverse_downward_arc ctx ! rs = ia" "downward_tail ctx ! ia = x"
    and ia: "ia < length downs" "downs ! ia = (x, v)"
    and os: "set os = {oa. oa < length ups \<and> fst (ups ! oa) = v}"
  shows "weight_shape b (relax_incoming ctx b os w rs)
    \<and> arc_weight b (relax_incoming ctx b os w rs) =
      (\<lambda>a d. if a = x \<and> x \<noteq> d \<and> (v, d) \<in> set ups
        then min (arc_weight b w x d) (add_cch_weights (arc_weight b w x v) (arc_weight b w v d))
        else arc_weight b w a d)"
proof -
  have xv: "(x, v) \<in> set downs" using nth_mem[OF ia(1)] ia(2) by simp
  have iw: "down_weights w ! ia = arc_weight b w x v" using arc_weight_at(2)[OF h ia] by simp
  have ex: "(\<exists>oa\<in>set os. ups ! oa = (v, d)) \<longleftrightarrow> (v, d) \<in> set ups" for d
    unfolding os in_set_conv_nth by force
  have "\<forall>oa\<in>set os. oa < length ups \<and> fst (ups ! oa) = v" using os by auto
  note f = relax_outgoing_weight[OF h xv sh this, unfolded ex]
  show ?thesis
    using sh f[of "arc_weight b w x v"]
    by (auto simp: relax_incoming_def Let_def ctx iw fun_eq_iff)
qed

lemma relax_incomings_weight:
  assumes h: "hierarchy n b ups downs"
    and os: "set os = {oa. oa < length ups \<and> fst (ups ! oa) = v}"
  shows "weight_shape b w \<Longrightarrow> \<forall>rs\<in>set rss. let ia = reverse_downward_arc ctx ! rs in
      ia < length downs \<and> downs ! ia = (downward_tail ctx ! ia, v) \<Longrightarrow>
    weight_shape b (foldl (relax_incoming ctx b os) w rss)
    \<and> arc_weight b (foldl (relax_incoming ctx b os) w rss) =
      (\<lambda>a d. if a \<noteq> d \<and> (\<exists>rs\<in>set rss. downs ! (reverse_downward_arc ctx ! rs) = (a, v)) \<and> (v, d) \<in> set ups
        then min (arc_weight b w a d) (add_cch_weights (arc_weight b w a v) (arc_weight b w v d))
        else arc_weight b w a d)"
proof (induction rss arbitrary: w)
  case (Cons rs rss)
  let ?ia = "reverse_downward_arc ctx ! rs"
  let ?x = "downward_tail ctx ! ?ia"
  have ia: "?ia < length downs" "downs ! ?ia = (?x, v)" using Cons.prems(2) by (auto simp: Let_def)
  note st = relax_incoming_weight[OF h Cons.prems(1) refl refl ia os]
  have nv: "(v, v) \<notin> set ups" "?x \<noteq> v"
    using hierarchyD(4)[OF h] hierarchyD(5)[OF h] nth_mem[OF ia(1)] ia(2) by fastforce+
  show ?case
    using Cons.IH[of "relax_incoming ctx b os w rs"] st Cons.prems(2) nv ia(2)
    by (auto simp: fun_eq_iff min.assoc)
qed simp

text \<open>Outgoing slots and incoming positions that list the arcs of a middle.\<close>

lemma relax_rows_weight:
  assumes h: "hierarchy n b ups downs" and sh: "weight_shape b w" and v: "v < n"
    and os: "set os = {oa. oa < length ups \<and> fst (ups ! oa) = v}"
    and rs: "(\<lambda>rs. reverse_downward_arc ctx ! rs) ` set rss = {ia. ia < length downs \<and> snd (downs ! ia) = v}"
    and tails: "\<forall>ia<length downs. downward_tail ctx ! ia = fst (downs ! ia)"
  shows "weight_shape b (foldl (relax_incoming ctx b os) w rss)
    \<and> arc_weight b (foldl (relax_incoming ctx b os) w rss) = cch.relaxed ((!) (edge_rank b)) v (arc_weight b w)"
proof -
  have ok: "\<forall>rs\<in>set rss. let ia = reverse_downward_arc ctx ! rs in
      ia < length downs \<and> downs ! ia = (downward_tail ctx ! ia, v)"
  proof
    fix r assume "r \<in> set rss"
    then have "reverse_downward_arc ctx ! r \<in> {ia. ia < length downs \<and> snd (downs ! ia) = v}"
      using rs by blast
    then show "let ia = reverse_downward_arc ctx ! r in ia < length downs \<and> downs ! ia = (downward_tail ctx ! ia, v)"
      using tails by (simp add: Let_def) (metis prod.collapse)
  qed
  have ex: "(\<exists>rs\<in>set rss. downs ! (reverse_downward_arc ctx ! rs) = (a, v)) \<longleftrightarrow> (a, v) \<in> set downs" for a
  proof -
    have "(\<exists>rs\<in>set rss. downs ! (reverse_downward_arc ctx ! rs) = (a, v))
        \<longleftrightarrow> (\<exists>ia\<in>(\<lambda>rs. reverse_downward_arc ctx ! rs) ` set rss. downs ! ia = (a, v))" by simp
    also have "\<dots> \<longleftrightarrow> (a, v) \<in> set downs" unfolding rs in_set_conv_nth by force
    finally show ?thesis .
  qed
  note f = relax_incomings_weight[OF h os sh ok, unfolded ex]
  have s: "cch.supported (set ups \<union> set downs) (arc_weight b w)" by (rule arc_weight_supported[OF h])
  have "(if a \<noteq> d \<and> (a, v) \<in> set downs \<and> (v, d) \<in> set ups
        then min (arc_weight b w a d) (add_cch_weights (arc_weight b w a v) (arc_weight b w v d))
        else arc_weight b w a d) = cch.relaxed ((!) (edge_rank b)) v (arc_weight b w) a d" for a d
  proof (cases "(a, v) \<in> set downs \<and> (v, d) \<in> set ups")
    case True
    then show ?thesis using hierarchyD(4,5)[OF h] by (auto simp: cch.relaxed_def)
  next
    case False
    have "add_cch_weights (arc_weight b w a v) (arc_weight b w v d) = CCH_WEIGHT_INFINITY"
      if "edge_rank b ! v < edge_rank b ! a" "edge_rank b ! v < edge_rank b ! d"
    proof -
      have "(a, v) \<notin> set ups \<union> set downs \<or> (v, d) \<notin> set ups \<union> set downs"
        using that False hierarchyD(4,5)[OF h] by (metis UnE order_less_asym)
      then show ?thesis using s by (auto simp: cch.supported_def)
    qed
    then show ?thesis using False by (auto simp: cch.relaxed_def)
  qed
  then show ?thesis using f by (auto simp: fun_eq_iff)
qed

text \<open>The lookup tables a context must provide; \<open>index_tables\<close> below shows that the code's do.\<close>

definition good_index :: "customization_context \<Rightarrow> nat \<Rightarrow> (nat \<times> nat) list \<Rightarrow> bool" where
  "good_index ctx n downs \<longleftrightarrow> (\<forall>v<n.
     set (map (\<lambda>rs. reverse_downward_arc ctx ! rs)
        [reverse_downward_first_out ctx ! v ..< reverse_downward_first_out ctx ! (v + 1)])
      = {ia. ia < length downs \<and> snd (downs ! ia) = v})
     \<and> (\<forall>ia<length downs. downward_tail ctx ! ia = fst (downs ! ia))"

theorem relax_middle_weight:
  assumes h: "hierarchy n b ups downs" and sh: "weight_shape b w" and ix: "good_index ctx n downs"
    and v: "v < n"
  shows "weight_shape b (relax_middle ctx b w v)
    \<and> arc_weight b (relax_middle ctx b w v) = cch.relaxed ((!) (edge_rank b)) v (arc_weight b w)"
proof -
  let ?os = "[upward_first_out b ! v ..< upward_first_out b ! (v + 1)]"
  let ?rss = "[reverse_downward_first_out ctx ! v ..< reverse_downward_first_out ctx ! (v + 1)]"
  have os: "set ?os = {oa. oa < length ups \<and> fst (ups ! oa) = v}"
    using csr_range[OF sorted_arcs_fst[OF hierarchyD(2)[OF h]] v] h by (simp add: hierarchy_def)
  have rs: "(\<lambda>rs. reverse_downward_arc ctx ! rs) ` set ?rss = {ia. ia < length downs \<and> snd (downs ! ia) = v}"
    using ix v unfolding good_index_def by simp
  show ?thesis unfolding relax_middle_def Let_def
    by (rule relax_rows_weight[OF h sh v os rs]) (use ix in \<open>simp add: good_index_def\<close>)
qed

section \<open>The lookup tables\<close>

lemma index_tables:
  assumes h: "hierarchy n b ups downs"
    and ctx: "(downward_tail ctx, reverse_downward_first_out ctx, reverse_downward_arc ctx)
      = reverse_downward_index b n"
  shows "good_index ctx n downs"
proof -
  let ?items = "zip (downward_head b) [0..<length (downward_head b)]"
  let ?g = "group_by_key n 0 ?items"
  have dh: "downward_head b = map snd downs" using h by (simp add: hierarchy_def)
  have lt: "\<forall>a\<in>set ?items. fst a < n"
    using hierarchyD(5)[OF h] by (fastforce simp: dh dest: set_zip_leftD)
  have c: "reverse_downward_first_out ctx = fst ?g" "reverse_downward_arc ctx = snd ?g"
    "downward_tail ctx = row_owners (downward_first_out b) n (length downs)"
    using arg_cong[OF ctx, of fst] arg_cong[OF ctx, of "fst \<circ> snd"] arg_cong[OF ctx, of "snd \<circ> snd"]
    by (simp_all add: reverse_downward_index_def Let_def dh)
  have row: "set (map ((!) (snd ?g)) [fst ?g ! v ..< fst ?g ! (v + 1)])
      = {ia. ia < length downs \<and> snd (downs ! ia) = v}" if v: "v < n" for v
  proof -
    have "fst ?g ! (v + 1) \<le> length (snd ?g)"
      using valid_offsetsD(3)[OF group_by_key_offsets[OF lt]] v by simp
    then have "map ((!) (snd ?g)) [fst ?g ! v ..< fst ?g ! (v + 1)]
        = map snd (filter (\<lambda>a. fst a = v) ?items)"
      using group_by_key_row[OF lt v] by (simp only: subslice_map_nth) simp
    then show ?thesis by (force simp: dh set_zip)
  qed
  have "downward_tail ctx ! ia = fst (downs ! ia)" if "ia < length downs" for ia
    unfolding c using csr_row_owners[OF sorted_arcs_fst[OF hierarchyD(3)[OF h]], of n ia]
      hierarchyD(3)[OF h] h that by (simp add: sorted_arcs_def hierarchy_def)
  then show ?thesis using row unfolding good_index_def c(1,2) by blast
qed

section \<open>Phase 2\<close>

lemma relax_middles_weight:
  assumes h: "hierarchy n b ups downs" and ix: "good_index ctx n downs"
  shows "weight_shape b w \<Longrightarrow> set vs \<subseteq> {0..<n} \<Longrightarrow> weight_shape b (foldl (relax_middle ctx b) w vs)
    \<and> arc_weight b (foldl (relax_middle ctx b) w vs)
      = cch.relax_all ((!) (edge_rank b)) vs (arc_weight b w)"
proof (induction vs arbitrary: w)
  case (Cons v vs)
  then show ?case using relax_middle_weight[OF h Cons.prems(1) ix, of v] by simp
qed simp

definition middles :: "customization_context \<Rightarrow> nat list" where
  "middles ctx = concat (task_lists ctx) @ top_middles ctx"

lemma foldl_concat: "foldl (foldl f) a xss = foldl f a (concat xss)"
  by (induction xss arbitrary: a) simp_all

lemma customize_middles:
  "customize ctx b topo bw
    = foldl (relax_middle ctx b) (customize_base ctx b (edge_based topo) bw) (middles ctx)"
  by (simp add: customize_def middles_def foldl_concat)

section \<open>Phase 1\<close>

lemma bit_DOWNWARD_ARC: "bit DOWNWARD_ARC n \<longleftrightarrow> n = 31"
  unfolding DOWNWARD_ARC_def bit_push_bit_iff by (auto simp: bit_1_iff)

lemma bit_slot_word: "slot < 2 ^ 31 \<Longrightarrow> bit (word_of_nat slot :: u32) n \<longleftrightarrow> n < 31 \<and> bit slot n"
proof -
  assume s: "slot < 2 ^ 31"
  have "bit slot n \<Longrightarrow> n < 31"
  proof (rule ccontr)
    assume b: "bit slot n" "\<not> n < 31"
    then have "(2::nat) ^ 31 \<le> 2 ^ n" by (intro power_increasing) auto
    then have "slot < 2 ^ n" using s by linarith
    then show False using b by (simp add: bit_iff_odd)
  qed
  then show ?thesis by (auto simp: bit_simps)
qed

text \<open>The packed reference: a slot below \<open>2 ^ 31\<close> and the direction flag are recovered exactly.\<close>

lemma packed_slot:
  assumes "slot < 2 ^ 31"
  shows "word_of_nat slot AND DOWNWARD_ARC = 0"
    "(word_of_nat slot OR DOWNWARD_ARC) AND DOWNWARD_ARC \<noteq> 0"
    "unat (word_of_nat slot :: u32) = slot"
    "unat ((word_of_nat slot OR DOWNWARD_ARC) AND NOT DOWNWARD_ARC) = slot"
proof -
  show "word_of_nat slot AND DOWNWARD_ARC = 0"
    by (rule bit_word_eqI) (auto simp: bit_and_iff bit_DOWNWARD_ARC bit_slot_word[OF assms])
  have "bit ((word_of_nat slot OR DOWNWARD_ARC) AND DOWNWARD_ARC) 31"
    by (simp add: bit_and_iff bit_or_iff bit_DOWNWARD_ARC)
  then show "(word_of_nat slot OR DOWNWARD_ARC) AND DOWNWARD_ARC \<noteq> 0" by auto
  show u: "unat (word_of_nat slot :: u32) = slot"
    using assms by (simp add: unat_of_nat take_bit_nat_eq_self)
  have "(word_of_nat slot OR DOWNWARD_ARC) AND NOT DOWNWARD_ARC = word_of_nat slot"
    by (rule bit_word_eqI)
      (auto simp: bit_and_iff bit_or_iff bit_not_iff bit_DOWNWARD_ARC bit_slot_word[OF assms])
  then show "unat ((word_of_nat slot OR DOWNWARD_ARC) AND NOT DOWNWARD_ARC) = slot" using u by simp
qed

lemma packed_not_NO_ARC:
  assumes "slot + 1 < 2 ^ 31"
  shows "word_of_nat slot \<noteq> NO_ARC" "word_of_nat slot OR DOWNWARD_ARC \<noteq> NO_ARC"
proof -
  have s: "slot < 2 ^ 31" using assms by simp
  show "word_of_nat slot \<noteq> NO_ARC"
    using packed_slot(3)[OF s] assms by (auto simp: NO_ARC_def)
  have "unat (NO_ARC AND NOT DOWNWARD_ARC) = 2 ^ 31 - 1"
    by (simp add: NO_ARC_def DOWNWARD_ARC_def)
  then show "word_of_nat slot OR DOWNWARD_ARC \<noteq> NO_ARC"
    using packed_slot(4)[OF s] assms by auto
qed

definition turn_forbidden :: "topology \<Rightarrow> u16 \<Rightarrow> nat \<Rightarrow> nat \<Rightarrow> bool" where
  "turn_forbidden topo mode_bit x y \<longleftrightarrow> (\<exists>r\<in>set (turn_restrictions topo).
     mask_contains (mode_mask r) mode_bit \<and> applies_statically r \<and> edge_path r = [x, y])"

lemma length_two: "length xs = 2 \<Longrightarrow> xs = [xs ! 0, xs ! 1]"
  by (cases xs; cases "tl xs") auto

lemma forbidden_table:
  assumes "x < edge_count (edge_based topo)"
  shows "is_found (binary_search (build_pairwise_forbidden_turn_table topo mode_bit ! x) y)
    \<longleftrightarrow> turn_forbidden topo mode_bit x y"
proof -
  have f: "length (foldl push_forbidden fb rs) = length fb
      \<and> (x < length fb \<longrightarrow> set (foldl push_forbidden fb rs ! x)
        = set (fb ! x) \<union> {y. \<exists>r\<in>set rs. edge_path r = [x, y]})" for fb rs
  proof (induction rs arbitrary: fb)
    case (Cons r rs)
    have "length (push_forbidden fb r) = length fb" by (simp add: push_forbidden_def Let_def)
    moreover have "x < length fb \<Longrightarrow> set (push_forbidden fb r ! x) = set (fb ! x) \<union> {y. edge_path r = [x, y]}"
    proof (cases "length (edge_path r) = 2")
      case True
      then obtain a c where "edge_path r = [a, c]" using length_two by blast
      then show "x < length fb \<Longrightarrow> set (push_forbidden fb r ! x) = set (fb ! x) \<union> {y. edge_path r = [x, y]}"
        by (cases "a = x") (auto simp: push_forbidden_def)
    qed (auto simp: push_forbidden_def)
    ultimately show ?case using Cons[of "push_forbidden fb r"] by auto
  qed simp
  let ?rs = "filter (\<lambda>r. mask_contains (mode_mask r) mode_bit \<and> applies_statically r) (turn_restrictions topo)"
  have "build_pairwise_forbidden_turn_table topo mode_bit ! x
      = sort_dedup (foldl push_forbidden (replicate (edge_count (edge_based topo)) []) ?rs ! x)"
    using f[of "replicate (edge_count (edge_based topo)) []" ?rs] assms
    by (simp add: build_pairwise_forbidden_turn_table_def)
  then show ?thesis
    using f[of "replicate (edge_count (edge_based topo)) []" ?rs] assms
    by (simp add: bs.is_found_mem[OF sort_dedup_strict] turn_forbidden_def) blast
qed

lemma forbidden_pairs_iff:
  "is_found (binary_search (forbidden_pairs topo mode_bit) (x, y)) \<longleftrightarrow> turn_forbidden topo mode_bit x y"
proof -
  have "(x, y) \<in> set (forbidden_pairs topo mode_bit) \<longleftrightarrow> turn_forbidden topo mode_bit x y"
    using length_two by (fastforce simp: forbidden_pairs_def turn_forbidden_def image_iff)
  then show ?thesis
    by (simp add: forbidden_pairs_def bs.is_found_mem[OF sort_dedup_strict])
qed

text \<open>The transitions phase 1 maps onto an arc.\<close>

definition allowed :: "topology \<Rightarrow> edge_metric list \<Rightarrow> u16 \<Rightarrow> nat \<Rightarrow> nat \<Rightarrow> bool" where
  "allowed topo em mode_bit x y \<longleftrightarrow> x \<noteq> y \<and> y < edge_count (edge_based topo)
     \<and> usable topo em mode_bit x \<and> usable topo em mode_bit y \<and> \<not> turn_forbidden topo mode_bit x y"

text \<open>What is assumed of the inputs: the bundle is a hierarchy of the topology's transitions, whose
  offset array is well formed, and arc slots leave the flag bit free.\<close>

definition inputs_ok :: "acceleration_bundle \<Rightarrow> (nat \<times> nat) list \<Rightarrow> (nat \<times> nat) list \<Rightarrow> topology \<Rightarrow> bool" where
  "inputs_ok b ups downs topo \<longleftrightarrow>
     hierarchy (edge_count (edge_based topo)) b ups downs
     \<and> base_arcs (edge_based topo) \<subseteq> set ups \<union> set downs
     \<and> valid_offsets (edge_transition_first_out (edge_based topo)) (edge_count (edge_based topo))
         (length (edge_transition_edges (edge_based topo)))
     \<and> length ups < 2 ^ 31 \<and> length downs < 2 ^ 31"

lemma transition_row_nth:
  assumes "inputs_ok b ups downs topo" "e < edge_count (edge_based topo)"
  shows "y \<in> set (transition_row (edge_based topo) e) \<longleftrightarrow>
    (\<exists>i. edge_transition_first_out (edge_based topo) ! e \<le> i
      \<and> i < edge_transition_first_out (edge_based topo) ! (e + 1)
      \<and> edge_transition_edges (edge_based topo) ! i = y)"
proof -
  let ?t = "edge_based topo"
  have "edge_transition_first_out ?t ! (e + 1) \<le> length (edge_transition_edges ?t)"
    using assms valid_offsetsD(3)[of "edge_transition_first_out ?t"] by (auto simp: inputs_ok_def)
  then show ?thesis
    unfolding transition_row_def subslice_map_nth[symmetric, OF \<open>_ \<le> length _\<close>] by auto
qed

lemma base_arc_slot:
  assumes ok: "inputs_ok b ups downs topo" and e: "e < edge_count (edge_based topo)"
    and y: "y \<in> set (transition_row (edge_based topo) e)" "e \<noteq> y" "y < edge_count (edge_based topo)"
  shows "\<exists>s. target_slot b e y = Some s"
proof -
  have "has_transitions (edge_based topo)"
    using ok by (simp add: inputs_ok_def has_transitions_def valid_offsets_def)
  then have "(e, y) \<in> base_arcs (edge_based topo)"
    using y e by (auto simp: base_arcs_def base_pairs_def)
  then show ?thesis
    using ok e y target_slot_None[of _ b ups downs e y] by (auto simp: inputs_ok_def)
qed

lemma transition_arc_slot:
  fixes em :: "edge_metric list" and mode_bit :: u16
  assumes ok: "inputs_ok b ups downs topo" and e: "e < edge_count (edge_based topo)"
    and y: "y \<in> set (transition_row (edge_based topo) e)"
  defines "arc \<equiv> transition_arc_of b topo em mode_bit
      (build_pairwise_forbidden_turn_table topo mode_bit) (e, y)"
  shows "\<not> allowed topo em mode_bit e y \<Longrightarrow> arc = NO_ARC"
    and "allowed topo em mode_bit e y \<Longrightarrow> arc \<noteq> NO_ARC
      \<and> target_slot b e y = Some (if arc AND DOWNWARD_ARC \<noteq> 0
          then Down_Slot (unat (arc AND NOT DOWNWARD_ARC)) else Up_Slot (unat arc))"
proof -
  let ?n = "edge_count (edge_based topo)"
  have h: "hierarchy ?n b ups downs" and len: "length ups < 2 ^ 31" "length downs < 2 ^ 31"
    using ok by (auto simp: inputs_ok_def)
  note fb = forbidden_table[OF e, of mode_bit y]
  show "\<not> allowed topo em mode_bit e y \<Longrightarrow> arc = NO_ARC"
    using e fb by (auto simp: arc_def transition_arc_of_def allowed_def not_le)
  assume a: "allowed topo em mode_bit e y"
  then have y': "e \<noteq> y" "y < ?n" by (auto simp: allowed_def)
  obtain s where s: "target_slot b e y = Some s" using base_arc_slot[OF ok e y y'] by blast
  have g: "\<not> (y = e \<or> ?n \<le> y \<or> \<not> usable topo em mode_bit e \<or> \<not> usable topo em mode_bit y
      \<or> is_found (binary_search (build_pairwise_forbidden_turn_table topo mode_bit ! e) y))"
    using a fb by (auto simp: allowed_def)
  show "arc \<noteq> NO_ARC \<and> target_slot b e y = Some (if arc AND DOWNWARD_ARC \<noteq> 0
          then Down_Slot (unat (arc AND NOT DOWNWARD_ARC)) else Up_Slot (unat arc))"
  proof (cases s)
    case (Up_Slot k)
    then have k: "k < length ups" using s target_slot_iff(1)[OF h e y'(2)] by simp
    have "arc = word_of_nat k"
      using s Up_Slot g unfolding arc_def transition_arc_of_def prod.case target_slot_def
      by (simp add: if_not_P split: if_splits)
    then show ?thesis
      using s Up_Slot k len(1) packed_slot[of k] packed_not_NO_ARC(1)[of k] by simp
  next
    case (Down_Slot k)
    then have k: "k < length downs" using s target_slot_iff(2)[OF h e y'(2)] by simp
    have "arc = word_of_nat k OR DOWNWARD_ARC"
      using s Down_Slot g unfolding arc_def transition_arc_of_def prod.case target_slot_def
      by (simp add: if_not_P split: if_splits)
    then show ?thesis
      using s Down_Slot k len(2) packed_slot[of k] packed_not_NO_ARC(2)[of k] by simp
  qed
qed

lemma transition_arcs_nth:
  assumes ok: "inputs_ok b ups downs topo" and e: "e < edge_count (edge_based topo)"
    and i: "edge_transition_first_out (edge_based topo) ! e \<le> i"
      "i < edge_transition_first_out (edge_based topo) ! (e + 1)"
  shows "transition_arcs b topo em mode_bit ! i = transition_arc_of b topo em mode_bit
      (build_pairwise_forbidden_turn_table topo mode_bit) (e, edge_transition_edges (edge_based topo) ! i)"
proof -
  let ?t = "edge_based topo"
  have v: "valid_offsets (edge_transition_first_out ?t) (edge_count ?t) (length (edge_transition_edges ?t))"
    using ok by (simp add: inputs_ok_def)
  have "i < length (edge_transition_edges ?t)"
    using valid_offsetsD(3)[OF v, of "e + 1"] e i by simp
  then show ?thesis
    using length_row_owners[OF v] row_owners_nth[OF v e i]
    by (simp add: transition_arcs_def Let_def)
qed

lemma base_step_weight:
  assumes ok: "inputs_ok b ups downs topo" and sh: "weight_shape b w"
    and ctx: "transition_arc ctx = transition_arcs b topo em mode_bit"
    and e: "e < edge_count (edge_based topo)"
    and i: "edge_transition_first_out (edge_based topo) ! e \<le> i"
      "i < edge_transition_first_out (edge_based topo) ! (e + 1)"
  defines "y \<equiv> edge_transition_edges (edge_based topo) ! i"
  shows "weight_shape b (base_step ctx (edge_based topo) bw w (e, i))
    \<and> arc_weight b (base_step ctx (edge_based topo) bw w (e, i)) = (\<lambda>a d.
        if allowed topo em mode_bit a d \<and> a = e \<and> d = y
        then min (arc_weight b w a d) (encode_cch_weight (bw a d)) else arc_weight b w a d)"
proof -
  let ?t = "edge_based topo"
  have h: "hierarchy (edge_count ?t) b ups downs" using ok by (simp add: inputs_ok_def)
  have y: "y \<in> set (transition_row ?t e)"
    using transition_row_nth[OF ok e, of y] i y_def by blast
  note ar = transition_arc_slot[OF ok e y, of em mode_bit]
  have arc: "transition_arc ctx ! i = transition_arc_of b topo em mode_bit
      (build_pairwise_forbidden_turn_table topo mode_bit) (e, y)"
    unfolding ctx y_def by (rule transition_arcs_nth[OF ok e i])
  show ?thesis
  proof (cases "allowed topo em mode_bit e y \<and> bw e y \<noteq> None")
    case False
    have "base_step ctx ?t bw w (e, i) = w"
      using False ar(1) by (auto simp: base_step_def Let_def arc y_def[symmetric])
    moreover have "min (arc_weight b w e y) (encode_cch_weight (bw e y)) = arc_weight b w e y"
      if "allowed topo em mode_bit e y"
      using that False by (simp add: encode_cch_weight_def)
    ultimately show ?thesis using sh by (auto simp: fun_eq_iff)
  next
    case True
    then obtain s where s: "target_slot b e y = Some s"
      "base_step ctx ?t bw w (e, i) = fetch_min w s (encode_cch_weight (bw e y))"
      using ar(2) by (auto simp: base_step_def Let_def arc y_def[symmetric])
    have "y < edge_count ?t" using True by (simp add: allowed_def)
    from arc_weight_fetch_min[OF h sh e this s(1)]
    show ?thesis using True sh by (auto simp: s(2) fun_eq_iff)
  qed
qed

lemma base_fold_weight:
  assumes ok: "inputs_ok b ups downs topo"
    and ctx: "transition_arc ctx = transition_arcs b topo em mode_bit"
  shows "weight_shape b w \<Longrightarrow> \<forall>(e, i)\<in>set ps. e < edge_count (edge_based topo)
      \<and> edge_transition_first_out (edge_based topo) ! e \<le> i
      \<and> i < edge_transition_first_out (edge_based topo) ! (e + 1) \<Longrightarrow>
    weight_shape b (foldl (base_step ctx (edge_based topo) bw) w ps)
    \<and> arc_weight b (foldl (base_step ctx (edge_based topo) bw) w ps) = (\<lambda>a d.
        if allowed topo em mode_bit a d
          \<and> (\<exists>i. (a, i) \<in> set ps \<and> edge_transition_edges (edge_based topo) ! i = d)
        then min (arc_weight b w a d) (encode_cch_weight (bw a d)) else arc_weight b w a d)"
proof (induction ps arbitrary: w)
  case (Cons p ps)
  obtain e i where p: "p = (e, i)" by (cases p)
  have st: "e < edge_count (edge_based topo)"
    "edge_transition_first_out (edge_based topo) ! e \<le> i"
    "i < edge_transition_first_out (edge_based topo) ! (e + 1)"
    using Cons.prems(2) p by auto
  note bs = base_step_weight[OF ok Cons.prems(1) ctx st, of bw]
  show ?case
    using Cons.IH[of "base_step ctx (edge_based topo) bw w p"] bs Cons.prems(2) p
    by (auto simp: fun_eq_iff min.assoc)
qed simp

lemma weight_shape_infinite [simp]: "weight_shape b (infinite_weights b)"
  by (simp add: weight_shape_def infinite_weights_def)

lemma arc_weight_infinite:
  assumes "hierarchy n b ups downs"
  shows "arc_weight b (infinite_weights b) x y = CCH_WEIGHT_INFINITY"
proof (cases "x < n \<and> y < n \<and> target_slot b x y \<noteq> None")
  case True
  then obtain s where s: "target_slot b x y = Some s" by auto
  have "length ups = length (upward_head b)" "length downs = length (downward_head b)"
    using assms by (simp_all add: hierarchy_def)
  then have "load (infinite_weights b) s = CCH_WEIGHT_INFINITY"
    using s True target_slot_iff[OF assms, of x y]
    by (cases s) (simp_all add: infinite_weights_def)
  then show ?thesis using s True hierarchyD(1)[OF assms] by (simp add: arc_weight_def)
qed (use hierarchyD(1)[OF assms] in \<open>auto simp: arc_weight_def\<close>)

lemma cost_base_arc_weight_eq:
  "cost_base_arc_weight topo em mode_bit bw x y =
    (if allowed topo em mode_bit x y \<and> y \<in> set (transition_row (edge_based topo) x)
     then encode_cch_weight (bw x y) else CCH_WEIGHT_INFINITY)"
proof (cases "allowed topo em mode_bit x y")
  case True
  let ?ws = "map encode_cch_weight (filter (\<lambda>weight. weight \<noteq> None)
      (map (\<lambda>_. bw x y) (filter (\<lambda>next_edge. next_edge = y) (transition_row (edge_based topo) x))))"
  have e: "cost_base_arc_weight topo em mode_bit bw x y
      = (case ?ws of [] \<Rightarrow> CCH_WEIGHT_INFINITY | ws \<Rightarrow> Min (set ws))"
    using True unfolding cost_base_arc_weight_def allowed_def forbidden_pairs_iff by (simp add: not_le)
  have m: "(case ws of [] \<Rightarrow> a | ws \<Rightarrow> Min (set ws)) = (if set ws = {} then a else Min (set ws))"
    for ws :: "u32 list" and a by (cases ws) simp_all
  have ws: "set ?ws = (if y \<in> set (transition_row (edge_based topo) x) \<and> bw x y \<noteq> None
      then {encode_cch_weight (bw x y)} else {})" by auto
  have "(case ?ws of [] \<Rightarrow> CCH_WEIGHT_INFINITY | ws \<Rightarrow> Min (set ws))
      = (if y \<in> set (transition_row (edge_based topo) x) \<and> bw x y \<noteq> None
         then encode_cch_weight (bw x y) else CCH_WEIGHT_INFINITY)"
    unfolding m ws by auto
  then show ?thesis using True e by (auto simp: encode_cch_weight_def)
qed (auto simp: cost_base_arc_weight_def allowed_def forbidden_pairs_iff not_le)

text \<open>C8: phase 1 and the single-arc recomputation of the incremental update are the same function:
  every hierarchy arc starts with exactly the weight \<open>CostBaseArcs::base_weight\<close> computes for it
  (parallel edges, forbidden turns, unusable edges and infinite costs included).\<close>

theorem customize_base_weight:
  assumes ok: "inputs_ok b ups downs topo"
    and ctx: "transition_arc ctx = transition_arcs b topo em mode_bit"
    and n: "x < edge_count (edge_based topo)"
  shows "arc_weight b (customize_base ctx b (edge_based topo) bw) x y
    = cost_base_arc_weight topo em mode_bit bw x y"
proof -
  let ?t = "edge_based topo"
  have h: "hierarchy (edge_count ?t) b ups downs" using ok by (simp add: inputs_ok_def)
  let ?ps = "concat (map (\<lambda>e. map (Pair e)
      [edge_transition_first_out ?t ! e ..< edge_transition_first_out ?t ! (e + 1)]) [0..<edge_count ?t])"
  have "\<forall>(e, i)\<in>set ?ps. e < edge_count ?t
      \<and> edge_transition_first_out ?t ! e \<le> i \<and> i < edge_transition_first_out ?t ! (e + 1)" by auto
  note f = base_fold_weight[OF ok ctx weight_shape_infinite this]
  have "(x, i) \<in> set ?ps \<longleftrightarrow> edge_transition_first_out ?t ! x \<le> i
      \<and> i < edge_transition_first_out ?t ! (x + 1)" for i
    using n by (auto simp: image_iff)
  then have "(\<exists>i. (x, i) \<in> set ?ps \<and> edge_transition_edges ?t ! i = y) \<longleftrightarrow> y \<in> set (transition_row ?t x)"
    unfolding transition_row_nth[OF ok n] by blast
  then show ?thesis
    using f[of bw] by (simp add: customize_base_def arc_weight_infinite[OF h] cost_base_arc_weight_eq)
qed

lemma customize_base_shape:
  assumes ok: "inputs_ok b ups downs topo"
    and ctx: "transition_arc ctx = transition_arcs b topo em mode_bit"
  shows "weight_shape b (customize_base ctx b (edge_based topo) bw)"
  unfolding customize_base_def
  by (rule conjunct1[OF base_fold_weight[OF ok ctx weight_shape_infinite]]) auto

section \<open>Exactness\<close>

lemma hierarchy_closed:
  assumes "hierarchy n b ups downs"
  shows "cch.closed_arcs ((!) (edge_rank b)) (set ups \<union> set downs)"
  unfolding cch.closed_arcs_def
proof (intro allI impI)
  fix x v y
  assume a: "(x, v) \<in> set ups \<union> set downs" "(v, y) \<in> set ups \<union> set downs" "x \<noteq> y"
    "edge_rank b ! v < edge_rank b ! x" "edge_rank b ! v < edge_rank b ! y"
  then have "(x, v) \<in> set downs" "(v, y) \<in> set ups"
    using hierarchyD(4)[OF assms, of x v] hierarchyD(5)[OF assms, of v y] by auto
  then show "(x, y) \<in> set ups \<union> set downs" using hierarchyD(6)[OF assms] a(3) by blast
qed

lemma customize_relax_all:
  assumes ok: "inputs_ok b ups downs topo"
    and ctx: "transition_arc ctx = transition_arcs b topo em mode_bit"
    and ix: "good_index ctx (edge_count (edge_based topo)) downs"
    and ms: "set (middles ctx) \<subseteq> {0..<edge_count (edge_based topo)}"
  shows "arc_weight b (customize ctx b topo bw) = cch.relax_all ((!) (edge_rank b)) (middles ctx)
      (arc_weight b (customize_base ctx b (edge_based topo) bw))"
proof -
  have h: "hierarchy (edge_count (edge_based topo)) b ups downs" using ok by (simp add: inputs_ok_def)
  show ?thesis
    using relax_middles_weight[OF h ix customize_base_shape[OF ok ctx] ms]
    by (simp add: customize_middles)
qed

lemma customize_exact_order:
  fixes bw :: "nat \<Rightarrow> nat \<Rightarrow> rat option"
  assumes ok: "inputs_ok b ups downs topo"
    and ctx: "transition_arc ctx = transition_arcs b topo em mode_bit"
    and ix: "good_index ctx (edge_count (edge_based topo)) downs"
    and ms: "set (middles ctx) = {0..<edge_count (edge_based topo)}"
      "cch.lower_first ((!) (edge_rank b)) (set ups \<union> set downs) (middles ctx)"
  defines "n \<equiv> edge_count (edge_based topo)"
    and "w \<equiv> arc_weight b (customize ctx b topo bw)"
    and "c \<equiv> arc_weight b (customize_base ctx b (edge_based topo) bw)"
  shows "w x y \<noteq> CCH_WEIGHT_INFINITY \<Longrightarrow> \<exists>p. path_from_to x p y \<and> cch.cost c p = w x y"
    and "path_from_to x p y \<Longrightarrow> set p \<subseteq> {0..<n} \<Longrightarrow>
      \<exists>q. up_down ((!) (edge_rank b)) q \<and> path_from_to x q y \<and> set q \<subseteq> {0..<n}
        \<and> cch.cost w q \<le> cch.cost c p"
proof -
  have h: "hierarchy n b ups downs" using ok by (simp add: inputs_ok_def n_def)
  have w: "w = cch.relax_all ((!) (edge_rank b)) (middles ctx) c"
    unfolding w_def c_def by (rule customize_relax_all[OF ok ctx ix]) (use ms in simp)
  have inj: "inj_on ((!) (edge_rank b)) {0..<n}"
    using h by (auto simp: hierarchy_def inj_on_def intro: ranks_inj)
  have s: "cch.supported (set ups \<union> set downs) c"
    unfolding c_def by (rule arc_weight_supported[OF h])
  note ex = cch.relax_all_exact[OF hierarchy_closed[OF h] s ms(2) refl, folded w,
      unfolded ms(1) n_def[symmetric], OF inj]
  show "w x y \<noteq> CCH_WEIGHT_INFINITY \<Longrightarrow> \<exists>p. path_from_to x p y \<and> cch.cost c p = w x y"
    using ex(1) by (simp add: cch.realised_def)
  show "path_from_to x p y \<Longrightarrow> set p \<subseteq> {0..<n} \<Longrightarrow>
      \<exists>q. up_down ((!) (edge_rank b)) q \<and> path_from_to x q y \<and> set q \<subseteq> {0..<n}
        \<and> cch.cost w q \<le> cch.cost c p"
    by (rule ex(2))
qed

end
