(* ===== verification/Cch_Tasks.thy ===== *)
theory Cch_Tasks
  imports Cch_Exact
begin

text \<open>
  The parallel schedule of customization (\<open>elimination_tasks\<close> of
  \<open>crates/profile/src/compile.rs\<close>): Liu's elimination tree with path compression, cut into
  subtrees of bounded size that run as independent tasks before the remaining top middles. The
  lemmas show that every lower neighbour of a middle is its descendant in the tree, hence that
  it runs before the middle in the same task, or in some task when the middle is a top middle;
  with \<open>Cch_Exact\<close> this makes customization exact for every number of worker threads.
\<close>

section \<open>Operations\<close>

text \<open>The sentinel \<open>NO_VERTEX\<close> of the arrays is \<open>None\<close>. The loop that climbs the compressed
  ancestors stops because every round turns one more entry into \<open>middle\<close>.\<close>

lemma climb_measure:
  "vertex < length anc \<Longrightarrow> anc ! vertex \<noteq> Some m \<Longrightarrow>
    length (filter (\<lambda>a. a \<noteq> Some m) (anc[vertex := Some m])) < length (filter (\<lambda>a. a \<noteq> Some m) anc)"
proof (induction anc arbitrary: vertex)
  case (Cons a anc)
  then show ?case by (cases vertex) auto
qed simp

function climb :: "nat option list \<Rightarrow> nat \<Rightarrow> nat \<Rightarrow> nat option list \<times> nat" where
  "climb anc middle vertex =
     (if vertex < length anc then
        (case anc ! vertex of
           None \<Rightarrow> (anc, vertex)
         | Some nxt \<Rightarrow>
             if nxt = middle then (anc, vertex) else climb (anc[vertex := Some middle]) middle nxt)
      else (anc, vertex))"
  by pat_completeness auto

termination
  by (relation "measure (\<lambda>(anc, m, vertex). length (filter (\<lambda>a. a \<noteq> Some m) anc))")
    (auto intro: climb_measure)

declare climb.simps [simp del]

definition link_neighbour :: "nat \<Rightarrow> nat option list \<times> nat option list \<Rightarrow> nat \<Rightarrow>
    nat option list \<times> nat option list" where
  "link_neighbour middle s neighbour =
     (let (anc, vertex) = climb (fst s) middle neighbour
      in if anc ! vertex = None \<and> vertex \<noteq> middle
         then (anc[vertex := Some middle], (snd s)[vertex := Some middle])
         else (anc, snd s))"

definition incoming_upward :: "acceleration_bundle \<Rightarrow> nat \<Rightarrow> nat list \<times> nat list" where
  "incoming_upward b n = group_by_key n 0
     (concat (map (\<lambda>tail. map (\<lambda>head. (head, tail)) (csr_row (upward_first_out b) (upward_head b) tail))
       [0..<n]))"

definition lower_neighbours :: "acceleration_bundle \<Rightarrow> nat \<Rightarrow> nat \<Rightarrow> nat list" where
  "lower_neighbours b n middle =
     csr_row (fst (incoming_upward b n)) (snd (incoming_upward b n)) middle
     @ csr_row (downward_first_out b) (downward_head b) middle"

definition elimination_tree :: "acceleration_bundle \<Rightarrow> nat \<Rightarrow> nat option list" where
  "elimination_tree b n = snd (foldl (\<lambda>s middle. foldl (link_neighbour middle) s (lower_neighbours b n middle))
     (replicate n None, replicate n None) (edge_order b))"

definition subtree_sizes :: "nat option list \<Rightarrow> nat list \<Rightarrow> nat \<Rightarrow> nat list" where
  "subtree_sizes parent order n = foldl (\<lambda>sz middle. case parent ! middle of
       None \<Rightarrow> sz | Some p \<Rightarrow> incr_at p (sz ! middle) sz) (replicate n 1) order"

definition assign_task :: "nat option list \<Rightarrow> nat list \<Rightarrow> nat \<Rightarrow> nat option list \<times> nat \<Rightarrow> nat \<Rightarrow>
    nat option list \<times> nat" where
  "assign_task parent sizes task_limit s middle =
     (let (task, task_count) = s
      in if task_limit < sizes ! middle then (task[middle := None], task_count)
         else case (case parent ! middle of None \<Rightarrow> None | Some p \<Rightarrow> task ! p) of
             Some k \<Rightarrow> (task[middle := Some k], task_count)
           | None \<Rightarrow> (task[middle := Some task_count], task_count + 1))"

definition elimination_tasks :: "nat \<Rightarrow> acceleration_bundle \<Rightarrow> nat \<Rightarrow> nat list \<times> nat list \<times> nat list" where
  "elimination_tasks threads b n =
     (if threads \<le> 2 then ([0], [], edge_order b)
      else let parent = elimination_tree b n;
               sizes = subtree_sizes parent (edge_order b) n;
               task_limit = max (n div 256) 1024;
               (task, task_count) = foldl (assign_task parent sizes task_limit) (replicate n None, 0)
                   (rev (edge_order b));
               grouped = group_by_key task_count 0
                   (concat (map (\<lambda>m. case task ! m of None \<Rightarrow> [] | Some k \<Rightarrow> [(k, m)]) (edge_order b)))
           in (fst grouped, snd grouped, filter (\<lambda>m. task ! m = None) (edge_order b)))"

text \<open>\<open>CustomizationContext::new\<close>.\<close>

definition customization_context_new :: "nat \<Rightarrow> acceleration_bundle \<Rightarrow> topology \<Rightarrow> edge_metric list \<Rightarrow>
    u16 \<Rightarrow> customization_context" where
  "customization_context_new threads b topo edge_metrics mode_bit =
     (let n = edge_count (edge_based topo);
          (tails, first_out, arc) = reverse_downward_index b n;
          (t_first, t_middles, tops) = elimination_tasks threads b n
      in \<lparr>transition_arc = transition_arcs b topo edge_metrics mode_bit,
          downward_tail = tails, reverse_downward_first_out = first_out, reverse_downward_arc = arc,
          task_first = t_first, task_middles = t_middles, top_middles = tops\<rparr>)"

text \<open>\<open>customize_service_area_metric\<close>, for either metric's base weight.\<close>

definition customize_service_area_metric :: "nat \<Rightarrow> acceleration_bundle \<Rightarrow> topology \<Rightarrow>
    edge_metric list \<Rightarrow> u16 \<Rightarrow> (nat \<Rightarrow> nat \<Rightarrow> rat option) \<Rightarrow> (u32 list \<times> u32 list) option" where
  "customize_service_area_metric threads b topo edge_metrics mode_bit base_weight =
     (if customization_shapes_match b topo edge_metrics
      then representable (customize (customization_context_new threads b topo edge_metrics mode_bit)
             b topo base_weight)
      else None)"

section \<open>Path compression\<close>

definition tree_edges :: "nat option list \<Rightarrow> (nat \<times> nat) set" where
  "tree_edges parent = {(u, p). u < length parent \<and> parent ! u = Some p}"

lemma trancl_ranks:
  assumes "\<And>u p. (u, p) \<in> R \<Longrightarrow> r u < r p" "(a, c) \<in> R\<^sup>+"
  shows "r a < (r c :: nat)"
  using assms(2)
proof induction
  case (step y z)
  then show ?case using assms(1)[OF step(2)] by simp
qed (rule assms(1))

lemma climb_spec:
  assumes R: "\<And>u p. (u, p) \<in> R \<Longrightarrow> r u < (r p :: nat) \<and> p < n"
  shows "climb anc v vertex = (anc', q) \<Longrightarrow> length anc = n \<Longrightarrow> vertex < n \<Longrightarrow> vertex \<noteq> v \<Longrightarrow>
    \<forall>u<n. r vertex \<le> r u \<longrightarrow> (\<forall>a. anc ! u = Some a \<longrightarrow> (u, a) \<in> R\<^sup>+) \<Longrightarrow>
    q < n \<and> q \<noteq> v \<and> (vertex, q) \<in> R\<^sup>* \<and> length anc' = n
    \<and> (anc' ! q = None \<or> (q, v) \<in> R\<^sup>+)
    \<and> (\<forall>u<n. anc' ! u = anc ! u \<or> anc ! u \<noteq> None \<and> anc' ! u = Some v \<and> (u, q) \<in> R\<^sup>*)"
proof (induction anc v vertex rule: climb.induct)
  case (1 anc v vertex)
  show ?case
  proof (cases "anc ! vertex")
    case None
    then show ?thesis using 1 by (simp add: climb.simps)
  next
    case (Some nxt)
    then have rn: "(vertex, nxt) \<in> R\<^sup>+" using "1.prems"(3,5) by blast
    show ?thesis
    proof (cases "nxt = v")
      case True
      then show ?thesis using 1 Some rn by (simp add: climb.simps)
    next
      case False
      have lt: "r vertex < r nxt" using trancl_ranks[OF _ rn, of r] R by blast
      have nn: "nxt < n" using rn R by (meson tranclE)
      have cl: "climb (anc[vertex := Some v]) v nxt = (anc', q)"
        using "1.prems" Some False by (simp add: climb.simps[of anc])
      have "\<forall>u<n. r nxt \<le> r u \<longrightarrow> (\<forall>a. anc[vertex := Some v] ! u = Some a \<longrightarrow> (u, a) \<in> R\<^sup>+)"
      proof (intro allI impI)
        fix u a assume u: "u < n" "r nxt \<le> r u" "anc[vertex := Some v] ! u = Some a"
        then have "vertex \<noteq> u" using lt by auto
        then show "(u, a) \<in> R\<^sup>+" using u lt "1.prems"(5) by simp
      qed
      with "1.IH"[OF _ Some False cl] "1.prems" nn False
      have ih: "q < n" "q \<noteq> v" "(nxt, q) \<in> R\<^sup>*" "length anc' = n" "anc' ! q = None \<or> (q, v) \<in> R\<^sup>+"
        "\<forall>u<n. anc' ! u = anc[vertex := Some v] ! u
          \<or> anc[vertex := Some v] ! u \<noteq> None \<and> anc' ! u = Some v \<and> (u, q) \<in> R\<^sup>*" by auto
      have rq: "(vertex, q) \<in> R\<^sup>*" using rn ih(3) by (meson trancl_into_rtrancl rtrancl_trans)
      have "anc' ! u = anc ! u \<or> anc ! u \<noteq> None \<and> anc' ! u = Some v \<and> (u, q) \<in> R\<^sup>*" if u: "u < n" for u
      proof (cases "u = vertex")
        case True
        then show ?thesis using ih(6)[rule_format, OF u] "1.prems"(2,3) Some rq by auto
      next
        case False
        then show ?thesis using ih(6)[rule_format, OF u] by simp
      qed
      with ih rq show ?thesis by blast
    qed
  qed
qed

text \<open>What linking keeps: ancestors are ancestors in the tree, vertices without an ancestor have no
  parent, parents outrank their children and have been processed.\<close>

definition tree_inv :: "(nat \<Rightarrow> nat) \<Rightarrow> nat \<Rightarrow> nat set \<Rightarrow> nat option list \<times> nat option list \<Rightarrow> bool" where
  "tree_inv r n dn s \<longleftrightarrow> length (fst s) = n \<and> length (snd s) = n
     \<and> (\<forall>u<n. fst s ! u = None \<longleftrightarrow> snd s ! u = None)
     \<and> (\<forall>u<n. \<forall>a. fst s ! u = Some a \<longrightarrow> (u, a) \<in> (tree_edges (snd s))\<^sup>+)
     \<and> (\<forall>(u, p)\<in>tree_edges (snd s). r u < r p \<and> p < n \<and> p \<in> dn)"

lemma tree_edges_update:
  "q < length par \<Longrightarrow> par ! q = None \<Longrightarrow> tree_edges (par[q := Some v]) = insert (q, v) (tree_edges par)"
  by (auto simp: tree_edges_def nth_list_update split: if_splits)

lemma link_neighbour_inv:
  assumes inv: "tree_inv r n (insert v dn) s" and v: "v < n" "v \<notin> dn"
    and dn: "\<forall>u\<in>dn. r u < r v" and w: "w < n" "r w < r v"
  shows "tree_inv r n (insert v dn) (link_neighbour v s w)
    \<and> (w, v) \<in> (tree_edges (snd (link_neighbour v s w)))\<^sup>+
    \<and> tree_edges (snd s) \<subseteq> tree_edges (snd (link_neighbour v s w))"
proof -
  obtain anc par where s: "s = (anc, par)" by (cases s)
  let ?R = "tree_edges par"
  have R: "r u < r p \<and> p < n" if "(u, p) \<in> ?R" for u p using inv that by (auto simp: tree_inv_def s)
  have len: "length anc = n" "length par = n" and up: "\<forall>u<n. \<forall>a. anc ! u = Some a \<longrightarrow> (u, a) \<in> ?R\<^sup>+"
    and none: "\<forall>u<n. anc ! u = None \<longleftrightarrow> par ! u = None"
    using inv by (auto simp: tree_inv_def s)
  obtain anc' q where c: "climb anc v w = (anc', q)" by fastforce
  have sp: "q < n" "q \<noteq> v" "(w, q) \<in> ?R\<^sup>*" "length anc' = n" "anc' ! q = None \<or> (q, v) \<in> ?R\<^sup>+"
    and ch: "\<And>u. u < n \<Longrightarrow> anc' ! u = anc ! u \<or> anc ! u \<noteq> None \<and> anc' ! u = Some v \<and> (u, q) \<in> ?R\<^sup>*"
    using climb_spec[of ?R r n, OF R c len(1) w(1)] w(2) up by auto
  have same: "anc' ! u = None \<longleftrightarrow> par ! u = None" if "u < n" for u
    using ch[OF that] none that by auto
  show ?thesis
  proof (cases "anc' ! q = None")
    case True
    let ?R' = "insert (q, v) ?R"
    have qn: "par ! q = None" using same[OF sp(1)] True by simp
    have e: "link_neighbour v s w = (anc'[q := Some v], par[q := Some v])"
      using c True sp(2) by (simp add: link_neighbour_def s)
    have R': "tree_edges (par[q := Some v]) = ?R'"
      using tree_edges_update[of q par v] qn sp(1) len(2) by simp
    have lift: "(a, d) \<in> ?R\<^sup>+ \<Longrightarrow> (a, d) \<in> ?R'\<^sup>+" "(a, d) \<in> ?R\<^sup>* \<Longrightarrow> (a, d) \<in> ?R'\<^sup>*" for a d
      by (auto intro: trancl_mono rtrancl_mono[THEN subsetD])
    have to_v: "(a, v) \<in> ?R'\<^sup>+" if "(a, q) \<in> ?R\<^sup>*" for a
      using lift(2)[OF that] by (rule rtrancl_into_trancl1) simp
    have rq: "r q < r v"
    proof (cases "w = q")
      case False
      then have "\<exists>u. (u, q) \<in> ?R" using sp(3) by (metis rtrancl.cases)
      then have "q \<in> dn" using inv sp(2) by (auto simp: tree_inv_def s)
      then show ?thesis using dn by blast
    qed (use w(2) in simp)
    have anc_ok: "(u, a) \<in> ?R'\<^sup>+" if "u < n" "anc'[q := Some v] ! u = Some a" for u a
    proof (cases "u = q")
      case True
      then show ?thesis using that sp(1,4) to_v by auto
    next
      case False
      then show ?thesis using ch[OF that(1)] that up lift(1) to_v by auto
    qed
    have "tree_inv r n (insert v dn) (anc'[q := Some v], par[q := Some v])"
      unfolding tree_inv_def fst_conv snd_conv R'
    proof (intro conjI)
      show "\<forall>u<n. anc'[q := Some v] ! u = None \<longleftrightarrow> par[q := Some v] ! u = None"
        using same sp(1,4) len(2) by (auto simp: nth_list_update)
      show "\<forall>u<n. \<forall>a. anc'[q := Some v] ! u = Some a \<longrightarrow> (u, a) \<in> ?R'\<^sup>+" using anc_ok by blast
      show "\<forall>(u, p)\<in>?R'. r u < r p \<and> p < n \<and> p \<in> insert v dn"
        using inv rq v(1) by (auto simp: tree_inv_def s)
    qed (use sp(4) len in simp_all)
    then show ?thesis unfolding e using to_v[OF sp(3)] by (simp add: R' s) blast
  next
    case False
    then have qv: "(q, v) \<in> ?R\<^sup>+" using sp(5) by metis
    have e: "link_neighbour v s w = (anc', par)"
      using c False by (simp add: link_neighbour_def s del: not_None_eq)
    have to_v: "(a, v) \<in> ?R\<^sup>+" if "(a, q) \<in> ?R\<^sup>*" for a
      using that qv by (meson rtrancl_trancl_trancl)
    have "(u, a) \<in> ?R\<^sup>+" if "u < n" "anc' ! u = Some a" for u a
      using ch[OF that(1)] that up to_v by auto
    then have "tree_inv r n (insert v dn) (anc', par)"
      using inv sp(4) same by (auto simp: tree_inv_def s)
    then show ?thesis unfolding e using to_v[OF sp(3)] by (simp add: s)
  qed
qed

lemma link_neighbours_inv:
  assumes v: "v < n" "v \<notin> dn" and dn: "\<forall>u\<in>dn. r u < r v"
  shows "tree_inv r n (insert v dn) s \<Longrightarrow> \<forall>w\<in>set ws. w < n \<and> r w < r v \<Longrightarrow>
    tree_inv r n (insert v dn) (foldl (link_neighbour v) s ws)
    \<and> (\<forall>w\<in>set ws. (w, v) \<in> (tree_edges (snd (foldl (link_neighbour v) s ws)))\<^sup>+)
    \<and> tree_edges (snd s) \<subseteq> tree_edges (snd (foldl (link_neighbour v) s ws))"
proof (induction ws arbitrary: s)
  case (Cons w ws)
  have l: "tree_inv r n (insert v dn) (link_neighbour v s w)
    \<and> (w, v) \<in> (tree_edges (snd (link_neighbour v s w)))\<^sup>+
    \<and> tree_edges (snd s) \<subseteq> tree_edges (snd (link_neighbour v s w))"
    using Cons.prems by (intro link_neighbour_inv[OF _ v dn]) auto
  let ?s = "link_neighbour v s w"
  have ih: "tree_inv r n (insert v dn) (foldl (link_neighbour v) ?s ws)"
    "\<forall>w\<in>set ws. (w, v) \<in> (tree_edges (snd (foldl (link_neighbour v) ?s ws)))\<^sup>+"
    "tree_edges (snd ?s) \<subseteq> tree_edges (snd (foldl (link_neighbour v) ?s ws))"
    using Cons.IH[of ?s] l Cons.prems(2) by simp_all
  have "(w, v) \<in> (tree_edges (snd (foldl (link_neighbour v) ?s ws)))\<^sup>+"
    using l ih(3) trancl_mono by blast
  moreover have "tree_edges (snd s) \<subseteq> tree_edges (snd (foldl (link_neighbour v) ?s ws))"
    using l ih(3) by blast
  ultimately show ?case using ih(1,2) by simp
qed simp

lemma elimination_tree_fold:
  assumes nb: "\<And>v w. v < n \<Longrightarrow> w \<in> set (nbs v) \<Longrightarrow> w < n \<and> r w < r v"
  shows "tree_inv r n dn s \<Longrightarrow> sorted_wrt (\<lambda>u v. r u < r v) vs \<Longrightarrow> set vs \<subseteq> {0..<n} \<Longrightarrow>
    \<forall>u\<in>dn. \<forall>v\<in>set vs. r u < r v \<Longrightarrow>
    (let s' = foldl (\<lambda>s v. foldl (link_neighbour v) s (nbs v)) s vs in
      tree_inv r n (dn \<union> set vs) s' \<and> tree_edges (snd s) \<subseteq> tree_edges (snd s')
      \<and> (\<forall>v\<in>set vs. \<forall>w\<in>set (nbs v). (w, v) \<in> (tree_edges (snd s'))\<^sup>+))"
proof (induction vs arbitrary: s dn)
  case (Cons v vs)
  let ?s = "foldl (link_neighbour v) s (nbs v)"
  have v: "v < n" "v \<notin> dn" "\<forall>u\<in>dn. r u < r v" using Cons.prems by auto
  have "tree_inv r n (insert v dn) s" using Cons.prems(1) by (auto simp: tree_inv_def)
  then have l: "tree_inv r n (insert v dn) ?s" "\<forall>w\<in>set (nbs v). (w, v) \<in> (tree_edges (snd ?s))\<^sup>+"
    "tree_edges (snd s) \<subseteq> tree_edges (snd ?s)"
    using link_neighbours_inv[OF v, of s "nbs v"] nb[OF v(1)] by auto
  have vs: "\<forall>u\<in>insert v dn. \<forall>x\<in>set vs. r u < r x" using Cons.prems(2,4) by auto
  let ?t = "foldl (\<lambda>s v. foldl (link_neighbour v) s (nbs v)) ?s vs"
  have ih: "tree_inv r n (insert v dn \<union> set vs) ?t" "tree_edges (snd ?s) \<subseteq> tree_edges (snd ?t)"
    "\<forall>v\<in>set vs. \<forall>w\<in>set (nbs v). (w, v) \<in> (tree_edges (snd ?t))\<^sup>+"
    using Cons.IH[OF l(1) _ _ vs] Cons.prems(2,3) by (simp_all add: Let_def)
  have "\<forall>w\<in>set (nbs v). (w, v) \<in> (tree_edges (snd ?t))\<^sup>+"
    using l(2) ih(2) trancl_mono by blast
  then show ?case using ih l(3) by (simp add: Let_def insert_commute)
qed (simp add: Let_def)

section \<open>Lower neighbours are descendants\<close>

lemma csr_row_mem:
  assumes "sorted_arcs n arcs" "t < n"
  shows "h \<in> set (csr_row (fst (arcs_to_csr arcs n)) (map snd arcs) t) \<longleftrightarrow> (t, h) \<in> set arcs"
  using csr_row_eq[OF sorted_arcs_fst[OF assms(1)] assms(2)] by force

lemma lower_neighbours_mem:
  assumes h: "hierarchy n b ups downs" and v: "v < n"
  shows "u \<in> set (lower_neighbours b n v) \<longleftrightarrow> (u, v) \<in> set ups \<or> (v, u) \<in> set downs"
proof -
  let ?items = "concat (map (\<lambda>tail. map (\<lambda>head. (head, tail))
      (csr_row (upward_first_out b) (upward_head b) tail)) [0..<n])"
  have it: "(y, x) \<in> set ?items \<longleftrightarrow> (x, y) \<in> set ups" for x y
  proof -
    have "(y, x) \<in> set ?items \<longleftrightarrow> x < n \<and> y \<in> set (csr_row (upward_first_out b) (upward_head b) x)"
      by auto
    then show ?thesis
      using csr_row_mem[OF hierarchyD(2)[OF h], of x y] hierarchyD(4)[OF h, of x y] h
      by (auto simp: hierarchy_def)
  qed
  have "\<forall>a\<in>set ?items. fst a < n"
  proof
    fix a assume a: "a \<in> set ?items"
    obtain y x where yx: "a = (y, x)" by (cases a)
    show "fst a < n" using a it[of y x] hierarchyD(4)[OF h, of x y] unfolding yx by simp
  qed
  from group_by_key_row[OF this v, of 0]
  have "csr_row (fst (incoming_upward b n)) (snd (incoming_upward b n)) v
      = map snd (filter (\<lambda>a. fst a = v) ?items)"
    by (simp add: incoming_upward_def csr_row_def)
  moreover have "u \<in> set (map snd (filter (\<lambda>a. fst a = v) ?items)) \<longleftrightarrow> (v, u) \<in> set ?items"
    by force
  moreover have "u \<in> set (csr_row (downward_first_out b) (downward_head b) v) \<longleftrightarrow> (v, u) \<in> set downs"
    using csr_row_mem[OF hierarchyD(3)[OF h] v] h by (simp add: hierarchy_def)
  ultimately show ?thesis by (simp only: lower_neighbours_def set_append Un_iff it)
qed

lemma order_by_rank:
  assumes "hierarchy n b ups downs"
  shows "sorted_wrt (\<lambda>u v. edge_rank b ! u < edge_rank b ! v) (edge_order b)"
    "set (edge_order b) = {0..<n}"
proof -
  have "map ((!) (edge_rank b)) (edge_order b) = [0..<n]"
    using assms sorted_ranks by (simp add: hierarchy_def)
  then have "sorted_wrt (<) (map ((!) (edge_rank b)) (edge_order b))" by simp
  then show "sorted_wrt (\<lambda>u v. edge_rank b ! u < edge_rank b ! v) (edge_order b)"
    by (simp add: sorted_wrt_map)
  show "set (edge_order b) = {0..<n}" using assms by (simp add: hierarchy_def is_order_def)
qed

lemma elimination_tree_facts:
  assumes h: "hierarchy n b ups downs"
  defines "R \<equiv> tree_edges (elimination_tree b n)"
  shows "length (elimination_tree b n) = n"
    and "(u, p) \<in> R \<Longrightarrow> edge_rank b ! u < edge_rank b ! p \<and> p < n"
    and "u < n \<Longrightarrow> v < n \<Longrightarrow> cch.lower_neighbour ((!) (edge_rank b)) (set ups \<union> set downs) u v
      \<Longrightarrow> (u, v) \<in> R\<^sup>+"
proof -
  let ?r = "(!) (edge_rank b)" and ?init = "(replicate n None, replicate n None)"
  have b: "(x, y) \<in> set ups \<Longrightarrow> x < n \<and> ?r x < ?r y" "(x, y) \<in> set downs \<Longrightarrow> y < n \<and> ?r y < ?r x" for x y
    using hierarchyD(4,5)[OF h] by blast+
  have nb: "w < n \<and> ?r w < ?r v" if "v < n" "w \<in> set (lower_neighbours b n v)" for v w
    using that lower_neighbours_mem[OF h, of v w] b by auto
  have "tree_inv ?r n {} ?init" by (simp add: tree_inv_def tree_edges_def)
  from elimination_tree_fold[OF nb this order_by_rank(1)[OF h]]
  have inv: "tree_inv ?r n {0..<n} (foldl (\<lambda>s v. foldl (link_neighbour v) s (lower_neighbours b n v)) ?init (edge_order b))"
    and ed: "\<forall>v\<in>{0..<n}. \<forall>w\<in>set (lower_neighbours b n v). (w, v) \<in> R\<^sup>+"
    using order_by_rank(2)[OF h] by (simp_all add: Let_def R_def elimination_tree_def)
  show "length (elimination_tree b n) = n" "(u, p) \<in> R \<Longrightarrow> ?r u < ?r p \<and> p < n"
    using inv by (auto simp: tree_inv_def elimination_tree_def R_def)
  assume uv: "u < n" "v < n" "cch.lower_neighbour ?r (set ups \<union> set downs) u v"
  then have "(u, v) \<in> set ups \<or> (v, u) \<in> set downs"
    using b by (auto simp: cch.lower_neighbour_def) (metis less_asym)+
  then show "(u, v) \<in> R\<^sup>+" using ed uv(2) lower_neighbours_mem[OF h uv(2)] by auto
qed

section \<open>Subtrees and tasks\<close>

abbreviation add_size :: "nat option list \<Rightarrow> nat list \<Rightarrow> nat \<Rightarrow> nat list" where
  "add_size parent \<equiv> \<lambda>sz middle. case parent ! middle of None \<Rightarrow> sz | Some p \<Rightarrow> incr_at p (sz ! middle) sz"

lemma length_add_sizes [simp]: "length (foldl (add_size par) sz vs) = length sz"
  by (induction vs arbitrary: sz) (simp_all split: option.splits)

lemma add_sizes_mono:
  "u < length sz \<Longrightarrow> sz ! u \<le> foldl (add_size par) sz vs ! u"
proof (induction vs arbitrary: sz)
  case (Cons v vs)
  let ?s = "add_size par sz v"
  have "sz ! u \<le> ?s ! u" using Cons.prems by (auto simp: nth_incr_at split: option.splits)
  moreover have "?s ! u \<le> foldl (add_size par) ?s vs ! u"
    using Cons.prems by (intro Cons.IH) (simp split: option.splits)
  ultimately show ?case by simp
qed simp

lemma add_sizes_settled:
  assumes "\<And>u p. (u, p) \<in> tree_edges par \<Longrightarrow> r u < (r p :: nat)"
  shows "u < length sz \<Longrightarrow> \<forall>v\<in>set vs. v < length par \<and> r u \<le> r v \<Longrightarrow>
    foldl (add_size par) sz vs ! u = sz ! u"
proof (induction vs arbitrary: sz)
  case (Cons v vs)
  have "u \<noteq> p" if "par ! v = Some p" for p
    using assms[of v p] that Cons.prems(2) by (auto simp: tree_edges_def)
  then have "add_size par sz v ! u = sz ! u"
    using Cons.prems(1) by (auto simp: nth_incr_at split: option.splits)
  then show ?case using Cons.IH[of "add_size par sz v"] Cons.prems by (simp split: option.splits)
qed simp

lemma subtree_sizes_le:
  assumes e: "\<And>u p. (u, p) \<in> tree_edges par \<Longrightarrow> r u < (r p :: nat) \<and> p < n" and len: "length par = n"
    and ord: "sorted_wrt (\<lambda>u v. r u < r v) order" "set order = {0..<n}" and up: "(u, p) \<in> tree_edges par"
  shows "subtree_sizes par order n ! u \<le> subtree_sizes par order n ! p"
proof -
  have u: "u < n" "par ! u = Some p" "p < n" "r u < r p" using up e[OF up] len by (auto simp: tree_edges_def)
  then obtain as bs where o: "order = as @ u # bs" using ord(2) split_list[of u order] by auto
  let ?s1 = "foldl (add_size par) (replicate n 1) as"
  let ?s2 = "incr_at p (?s1 ! u) ?s1"
  have f: "subtree_sizes par order n = foldl (add_size par) ?s2 bs"
    using u(2) by (simp add: subtree_sizes_def o)
  have "p \<noteq> u" using u(4) by auto
  then have "foldl (add_size par) ?s2 bs ! u = ?s1 ! u"
    using ord o u(1) len by (subst add_sizes_settled[of par r]) (auto dest: e simp: nth_incr_at sorted_wrt_append)
  moreover have "?s2 ! p \<le> foldl (add_size par) ?s2 bs ! p" using u(3) by (intro add_sizes_mono) simp
  moreover have "?s2 ! p = ?s1 ! p + ?s1 ! u" using u(3) by (simp add: nth_incr_at)
  ultimately show ?thesis by (simp add: f)
qed

definition task_inv :: "nat option list \<Rightarrow> nat list \<Rightarrow> nat \<Rightarrow> nat \<Rightarrow> nat set \<Rightarrow> nat option list \<times> nat \<Rightarrow> bool" where
  "task_inv par sz limit n dn s \<longleftrightarrow> length (fst s) = n
     \<and> (\<forall>m<n. \<forall>k. fst s ! m = Some k \<longrightarrow> m \<in> dn \<and> sz ! m \<le> limit \<and> k < snd s)
     \<and> (\<forall>u\<in>dn. \<forall>p k. (u, p) \<in> tree_edges par \<longrightarrow> fst s ! p = Some k \<longrightarrow> fst s ! u = Some k)"

lemma assign_task_inv:
  assumes inv: "task_inv par sz limit n dn s" and m: "m < n" "m \<notin> dn"
    and e: "\<And>u p. (u, p) \<in> tree_edges par \<Longrightarrow> p < n \<and> u \<noteq> p \<and> sz ! u \<le> sz ! p"
    and up: "\<And>u. (u, m) \<in> tree_edges par \<Longrightarrow> u \<notin> dn" and len: "length par = n"
  shows "task_inv par sz limit n (insert m dn) (assign_task par sz limit s m)"
proof -
  obtain task c where s: "s = (task, c)" by (cases s)
  have l: "length task = n"
    and k: "\<And>i k. i < n \<Longrightarrow> task ! i = Some k \<Longrightarrow> i \<in> dn \<and> sz ! i \<le> limit \<and> k < c"
    and cl: "\<And>u p k. u \<in> dn \<Longrightarrow> (u, p) \<in> tree_edges par \<Longrightarrow> task ! p = Some k \<Longrightarrow> task ! u = Some k"
    using inv unfolding task_inv_def s fst_conv snd_conv by blast+
  have par_m: "par ! m = Some p \<Longrightarrow> (m, p) \<in> tree_edges par" for p using m(1) len by (simp add: tree_edges_def)
  have gen: "task_inv par sz limit n (insert m dn) (task[m := t], c')"
    if "c \<le> c'" "\<And>k. t = Some k \<Longrightarrow> sz ! m \<le> limit \<and> k < c'"
      "\<And>p k. par ! m = Some p \<Longrightarrow> task ! p = Some k \<Longrightarrow> t = Some k" for t c'
    unfolding task_inv_def fst_conv snd_conv
  proof (intro conjI allI ballI impI)
    fix i k' assume "i < n" "task[m := t] ! i = Some k'"
    then have "i \<in> insert m dn \<and> sz ! i \<le> limit \<and> k' < c'"
      using k[of i k'] that(1) that(2)[of k'] l by (cases "i = m") simp_all
    then show "i \<in> insert m dn" "sz ! i \<le> limit" "k' < c'" by blast+
  next
    fix u p k'
    assume a: "u \<in> insert m dn" "(u, p) \<in> tree_edges par" "task[m := t] ! p = Some k'"
    show "task[m := t] ! u = Some k'"
    proof (cases "u = m")
      case True
      then have "p \<noteq> m" "par ! m = Some p" using e[OF a(2)] a(2) by (auto simp: tree_edges_def)
      then show ?thesis using a(3) that(3) True m(1) l by simp
    next
      case False
      then have "p \<noteq> m" using up[of u] a(1,2) by auto
      then show ?thesis using cl[of u p k'] a False by simp
    qed
  qed (use l in simp)
  show ?thesis
  proof (cases "limit < sz ! m")
    case True
    have "task ! p \<noteq> Some j" if "par ! m = Some p" for p j
      using e[OF par_m[OF that]] k[of p j] True by linarith
    then show ?thesis using True gen[of c None] by (simp add: assign_task_def s)
  next
    case sm: False
    show ?thesis
    proof (cases "case par ! m of None \<Rightarrow> None | Some p \<Rightarrow> task ! p")
      case None
      have "task_inv par sz limit n (insert m dn) (task[m := Some c], Suc c)"
        by (rule gen) (use sm None in \<open>simp_all split: option.splits\<close>)
      then show ?thesis using sm None by (simp add: assign_task_def s)
    next
      case (Some j)
      then obtain p where p: "par ! m = Some p" "task ! p = Some j" by (auto split: option.splits)
      have "j < c" using k[of p j] e[OF par_m[OF p(1)]] p(2) by blast
      then have "task_inv par sz limit n (insert m dn) (task[m := Some j], c)"
        by (intro gen) (use sm p in simp_all)
      then show ?thesis using sm p by (simp add: assign_task_def s)
    qed
  qed
qed

lemma assign_tasks_inv:
  assumes e: "\<And>u p. (u, p) \<in> tree_edges par \<Longrightarrow> p < n \<and> r u < (r p :: nat) \<and> sz ! u \<le> sz ! p"
    and len: "length par = n"
  shows "task_inv par sz limit n dn s \<Longrightarrow> sorted_wrt (\<lambda>u v. r v < r u) vs \<Longrightarrow>
    \<forall>v\<in>set vs. v < n \<and> (\<forall>u\<in>dn. r v < r u) \<Longrightarrow>
    task_inv par sz limit n (dn \<union> set vs) (foldl (assign_task par sz limit) s vs)"
proof (induction vs arbitrary: dn s)
  case (Cons v vs)
  have "task_inv par sz limit n (insert v dn) (assign_task par sz limit s v)"
  proof (rule assign_task_inv[OF Cons.prems(1)])
    show "v < n" "v \<notin> dn" using Cons.prems(3) by auto
    show "p < n \<and> u \<noteq> p \<and> sz ! u \<le> sz ! p" if "(u, p) \<in> tree_edges par" for u p
      using e[OF that] by auto
    show "u \<notin> dn" if "(u, v) \<in> tree_edges par" for u
      using e[OF that] Cons.prems(3) by force
  qed (rule len)
  then have "task_inv par sz limit n (insert v dn \<union> set vs)
      (foldl (assign_task par sz limit) (assign_task par sz limit s v) vs)"
    using Cons.prems by (intro Cons.IH) auto
  then show ?case by simp
qed simp

lemma task_lists_concat:
  fixes task :: "nat option list" and order :: "nat list"
  assumes k: "\<And>m k. m \<in> set order \<Longrightarrow> task ! m = Some k \<Longrightarrow> k < c"
  defines "items \<equiv> concat (map (\<lambda>m. case task ! m of None \<Rightarrow> [] | Some k \<Rightarrow> [(k, m)]) order)"
  assumes ctx: "task_first ctx = fst (group_by_key c 0 items)" "task_middles ctx = snd (group_by_key c 0 items)"
  shows "task_lists ctx = map (\<lambda>k. filter (\<lambda>m. task ! m = Some k) order) [0..<c]"
proof -
  have lt: "\<forall>a\<in>set items. fst a < c" using k by (auto simp: items_def split: option.splits)
  have "map snd (filter (\<lambda>a. fst a = k) items) = filter (\<lambda>m. task ! m = Some k) order" for k
    unfolding items_def by (induction order) (auto split: option.splits)
  then have "subslice (task_middles ctx) (task_first ctx ! k) (task_first ctx ! (k + 1))
      = filter (\<lambda>m. task ! m = Some k) order" if "k < c" for k
    using group_by_key_row[OF lt that, of 0] by (simp add: ctx)
  moreover have "length (task_first ctx) = c + 1"
    using group_by_key_offsets[OF lt, of 0] by (simp add: ctx valid_offsets_def)
  ultimately show ?thesis by (simp add: task_lists_def)
qed

lemma sorted_wrt_concat:
  "\<forall>k\<in>set ks. sorted_wrt P (f k) \<Longrightarrow> sorted_wrt (\<lambda>k j. \<forall>x\<in>set (f k). \<forall>y\<in>set (f j). P x y) ks \<Longrightarrow>
    sorted_wrt P (concat (map f ks))"
  by (induction ks) (auto simp: sorted_wrt_append)

text \<open>The shape of every schedule \<open>elimination_tasks\<close> returns: \<open>T\<close> tells the task of a middle,
  and a lower neighbour of a task's middle is in the same task.\<close>

definition task_assignment :: "acceleration_bundle \<Rightarrow> nat \<Rightarrow> (nat \<times> nat) set \<Rightarrow> customization_context \<Rightarrow>
    nat option list \<Rightarrow> nat \<Rightarrow> bool" where
  "task_assignment b n S ctx T c \<longleftrightarrow>
     (\<forall>u v k. u < n \<longrightarrow> v < n \<longrightarrow> T ! v = Some k \<longrightarrow> cch.lower_neighbour ((!) (edge_rank b)) S u v \<longrightarrow> T ! u = Some k)
     \<and> (\<forall>m k. m < n \<longrightarrow> T ! m = Some k \<longrightarrow> k < c)
     \<and> task_lists ctx = map (\<lambda>k. filter (\<lambda>m. T ! m = Some k) (edge_order b)) [0..<c]
     \<and> top_middles ctx = filter (\<lambda>m. T ! m = None) (edge_order b)"

lemma elimination_tasks_assignment:
  assumes h: "hierarchy n b ups downs"
    and ctx: "(task_first ctx, task_middles ctx, top_middles ctx) = elimination_tasks threads b n"
  shows "\<exists>T c. task_assignment b n (set ups \<union> set downs) ctx T c"
proof (cases "threads \<le> 2")
  case True
  have "set (edge_order b) = {0..<n}" by (rule order_by_rank[OF h])
  then have "filter (\<lambda>m. replicate n None ! m = (None :: nat option)) (edge_order b) = edge_order b"
    by (intro filter_True) simp
  then have "task_assignment b n (set ups \<union> set downs) ctx (replicate n None) 0"
    using ctx True by (simp add: task_assignment_def elimination_tasks_def task_lists_def)
  then show ?thesis by blast
next
  case False
  let ?r = "(!) (edge_rank b)" and ?S = "set ups \<union> set downs"
  let ?par = "elimination_tree b n"
  let ?sz = "subtree_sizes ?par (edge_order b) n"
  note ord = order_by_rank[OF h]
  obtain T c where tc: "foldl (assign_task ?par ?sz (max (n div 256) 1024)) (replicate n None, 0)
      (rev (edge_order b)) = (T, c)" by fastforce
  note tf = elimination_tree_facts[OF h]
  have e: "p < n \<and> ?r u < ?r p \<and> ?sz ! u \<le> ?sz ! p" if "(u, p) \<in> tree_edges ?par" for u p
    using tf(2)[OF that] subtree_sizes_le[of ?par ?r n "edge_order b" u p, OF tf(2) tf(1) ord that] by blast
  have "task_inv ?par ?sz (max (n div 256) 1024) n ({} \<union> set (rev (edge_order b))) (T, c)"
    unfolding tc[symmetric]
  proof (rule assign_tasks_inv[OF e tf(1)])
    show "task_inv ?par ?sz (max (n div 256) 1024) n {} (replicate n None, 0)" by (simp add: task_inv_def)
    show "sorted_wrt (\<lambda>u v. ?r v < ?r u) (rev (edge_order b))" using ord(1) by (simp add: sorted_wrt_rev)
  qed (use ord(2) in auto)
  then have ti: "\<forall>m<n. \<forall>k. T ! m = Some k \<longrightarrow> k < c"
      "\<forall>u\<in>{0..<n}. \<forall>p k. (u, p) \<in> tree_edges ?par \<longrightarrow> T ! p = Some k \<longrightarrow> T ! u = Some k"
    using ord(2) unfolding task_inv_def by simp_all
  have cl: "T ! u = Some k" if "(u, p) \<in> tree_edges ?par" "T ! p = Some k" for u p k
    using that ti(2) tf(1) by (auto simp: tree_edges_def)
  have kc: "k < c" if "m < n" "T ! m = Some k" for m k using that ti(1) by blast
  have cl': "T ! p = Some k \<longrightarrow> T ! u = Some k" if "(u, p) \<in> (tree_edges ?par)\<^sup>+" for u p k
    using that by induction (use cl in auto)
  have low: "T ! u = Some k" if "u < n" "v < n" "T ! v = Some k" "cch.lower_neighbour ?r ?S u v" for u v k
    using cl' tf(3)[OF that(1,2,4)] that(3) by blast
  have tl: "task_lists ctx = map (\<lambda>k. filter (\<lambda>m. T ! m = Some k) (edge_order b)) [0..<c]"
    by (rule task_lists_concat) (use ctx False tc kc ord(2) in \<open>auto simp: elimination_tasks_def Let_def\<close>)
  have top: "top_middles ctx = filter (\<lambda>m. T ! m = None) (edge_order b)"
    using ctx False tc by (auto simp: elimination_tasks_def Let_def)
  have "task_assignment b n ?S ctx T c"
    unfolding task_assignment_def using low kc tl top by blast
  then show ?thesis by blast
qed

text \<open>Hence every schedule lists each middle and respects lower neighbours, and middles of different
  tasks are never neighbours of each other.\<close>

lemma elimination_tasks_facts:
  assumes h: "hierarchy n b ups downs"
    and ctx: "(task_first ctx, task_middles ctx, top_middles ctx) = elimination_tasks threads b n"
  defines "lower \<equiv> cch.lower_neighbour ((!) (edge_rank b)) (set ups \<union> set downs)"
  shows "set (middles ctx) = {0..<n}" "sorted_wrt (\<lambda>v u. \<not> lower u v) (middles ctx)"
    "\<And>i j u v. i < length (task_lists ctx) \<Longrightarrow> j < length (task_lists ctx) \<Longrightarrow> i \<noteq> j \<Longrightarrow>
      u \<in> set (task_lists ctx ! i) \<Longrightarrow> v \<in> set (task_lists ctx ! j) \<Longrightarrow> \<not> lower u v"
    "\<And>vs. vs \<in> set (task_lists ctx) \<Longrightarrow> sorted_wrt (\<lambda>v u. \<not> lower u v) vs"
proof -
  obtain T c where ta: "task_assignment b n (set ups \<union> set downs) ctx T c"
    using elimination_tasks_assignment[OF h ctx] by blast
  note ord = order_by_rank[OF h]
  have low: "T ! u = Some k" if "u < n" "v < n" "T ! v = Some k" "lower u v" for u v k
    using ta that unfolding task_assignment_def lower_def by blast
  have kc: "k < c" if "m < n" "T ! m = Some k" for m k
    using ta that unfolding task_assignment_def by blast
  have tl: "task_lists ctx = map (\<lambda>k. filter (\<lambda>m. T ! m = Some k) (edge_order b)) [0..<c]"
    and top: "top_middles ctx = filter (\<lambda>m. T ! m = None) (edge_order b)"
    using ta unfolding task_assignment_def by blast+
  have up: "sorted_wrt (\<lambda>v u. \<not> lower u v) (filter P (edge_order b))" for P
    using sorted_wrt_filter[OF ord(1), of P]
    by (rule sorted_wrt_mono_rel[rotated]) (auto simp: lower_def cch.lower_neighbour_def)
  have "m \<in> set (middles ctx) \<longleftrightarrow> m < n" for m
    using ord(2) kc[of m] by (cases "T ! m") (auto simp: middles_def tl top)
  then show "set (middles ctx) = {0..<n}" by (intro set_eqI) (simp only: atLeastLessThan_iff, simp)
  have apart: "\<not> lower u v" if "i \<noteq> j" "u \<in> set (filter (\<lambda>m. T ! m = i) (edge_order b))"
      "v \<in> set (filter (\<lambda>m. T ! m = Some k) (edge_order b))" "j = Some k" for i j k u v
    using low[of u v k] that ord(2) by auto
  show "\<not> lower u v" if "i < length (task_lists ctx)" "j < length (task_lists ctx)" "i \<noteq> j"
      "u \<in> set (task_lists ctx ! i)" "v \<in> set (task_lists ctx ! j)" for i j u v
    by (rule apart[of "Some i" "Some j"]) (use that in \<open>simp_all add: tl\<close>)
  show "sorted_wrt (\<lambda>v u. \<not> lower u v) vs" if "vs \<in> set (task_lists ctx)" for vs
    using that up by (auto simp: tl)
  have later: "sorted_wrt (\<lambda>k j. \<forall>x\<in>set (filter (\<lambda>m. T ! m = Some k) (edge_order b)).
      \<forall>y\<in>set (filter (\<lambda>m. T ! m = Some j) (edge_order b)). \<not> lower y x) [0..<c]"
    by (rule sorted_wrt_mono_rel[OF _ sorted_wrt_upt], intro ballI)
      (rule apart, use nat_neq_iff in auto)
  show "sorted_wrt (\<lambda>v u. \<not> lower u v) (middles ctx)"
    unfolding middles_def sorted_wrt_append tl top
  proof (intro conjI ballI)
    show "sorted_wrt (\<lambda>v u. \<not> lower u v) (concat (map (\<lambda>k. filter (\<lambda>m. T ! m = Some k) (edge_order b)) [0..<c]))"
      by (rule sorted_wrt_concat[OF _ later]) (use up in blast)
    fix x y
    assume "x \<in> set (concat (map (\<lambda>k. filter (\<lambda>m. T ! m = Some k) (edge_order b)) [0..<c]))"
      "y \<in> set (filter (\<lambda>m. T ! m = None) (edge_order b))"
    then show "\<not> lower y x" using low[of y x] ord(2) by auto
  qed (rule up)
qed

lemma elimination_tasks_order:
  assumes "hierarchy n b ups downs"
    and "(task_first ctx, task_middles ctx, top_middles ctx) = elimination_tasks threads b n"
  shows "set (middles ctx) = {0..<n}"
    "cch.lower_first ((!) (edge_rank b)) (set ups \<union> set downs) (middles ctx)"
  using elimination_tasks_facts(1,2)[OF assms] by (simp_all add: cch.lower_first_def)

section \<open>Customization is exact\<close>

text \<open>Assumptions on a topology: a well-formed transition array; arc slots below the flag bit.\<close>

definition customizable :: "topology \<Rightarrow> nat list \<Rightarrow> bool" where
  "customizable topo order \<longleftrightarrow>
     (let t = edge_based topo in
      is_order (edge_count t) order
      \<and> valid_offsets (edge_transition_first_out t) (edge_count t) (length (edge_transition_edges t))
      \<and> length (upward_head (build_with_order t order)) < 2 ^ 31
      \<and> length (downward_head (build_with_order t order)) < 2 ^ 31)"

definition transition_cost :: "topology \<Rightarrow> edge_metric list \<Rightarrow> u16 \<Rightarrow> (nat \<Rightarrow> nat \<Rightarrow> rat option) \<Rightarrow>
    nat \<Rightarrow> nat \<Rightarrow> u32" where
  "transition_cost topo em mode_bit bw x y =
     (if x < edge_count (edge_based topo) then cost_base_arc_weight topo em mode_bit bw x y
      else CCH_WEIGHT_INFINITY)"

lemma customizable_inputs:
  assumes "customizable topo order"
  shows "inputs_ok (build_with_order (edge_based topo) order)
    (up_arcs (edge_based topo) order) (down_arcs (edge_based topo) order) topo"
proof -
  let ?t = "edge_based topo"
  have o: "is_order (edge_count ?t) order" using assms by (simp add: customizable_def Let_def)
  have "base_arcs ?t \<subseteq> set (up_arcs ?t order) \<union> set (down_arcs ?t order)"
  proof
    fix a assume a: "a \<in> base_arcs ?t"
    obtain x y where xy: "a = (x, y)" by (cases a)
    let ?r = "ranks_of_order (edge_count ?t) order"
    have el: "elim_arc (base_arcs ?t) ((!) ?r) x y" using a xy by (auto intro: elim_arc.base)
    then have "?r ! x \<noteq> ?r ! y" using eliminate_arcs(3)[OF o el] ranks_inj[OF o] by blast
    then show "a \<in> set (up_arcs ?t order) \<union> set (down_arcs ?t order)"
      using el eliminate_arcs(1,2)[OF o, of x y] xy by auto
  qed
  then show ?thesis
    using assms hierarchy_build[OF o] by (simp add: inputs_ok_def customizable_def Let_def)
qed

lemma context_tables:
  shows "transition_arc (customization_context_new threads b topo em mode_bit) = transition_arcs b topo em mode_bit"
    "(downward_tail (customization_context_new threads b topo em mode_bit), reverse_downward_first_out (customization_context_new threads b topo em mode_bit), reverse_downward_arc (customization_context_new threads b topo em mode_bit))
      = reverse_downward_index b (edge_count (edge_based topo))"
    "(task_first (customization_context_new threads b topo em mode_bit), task_middles (customization_context_new threads b topo em mode_bit), top_middles (customization_context_new threads b topo em mode_bit))
      = elimination_tasks threads b (edge_count (edge_based topo))"
  by (simp_all add: customization_context_new_def Let_def split: prod.splits)

text \<open>The customized arrays as a relaxation of the transition costs.\<close>

lemma customize_facts:
  fixes bw :: "nat \<Rightarrow> nat \<Rightarrow> rat option" and threads :: nat and em :: "edge_metric list" and mode_bit :: u16
  assumes "customizable topo order"
  defines "b \<equiv> build_with_order (edge_based topo) order" and "n \<equiv> edge_count (edge_based topo)"
    and "S \<equiv> set (up_arcs (edge_based topo) order) \<union> set (down_arcs (edge_based topo) order)"
  defines "ctx \<equiv> customization_context_new threads b topo em mode_bit"
  shows "arc_weight b (customize_base ctx b (edge_based topo) bw) = transition_cost topo em mode_bit bw"
    "weight_shape b (customize ctx b topo bw)"
    "arc_weight b (customize ctx b topo bw)
      = cch.relax_all ((!) (edge_rank b)) (middles ctx) (transition_cost topo em mode_bit bw)"
    "set (middles ctx) = {0..<n}" "cch.lower_first ((!) (edge_rank b)) S (middles ctx)"
proof -
  let ?t = "edge_based topo"
  note ok = customizable_inputs[OF assms(1), folded b_def]
  have h: "hierarchy n b (up_arcs ?t order) (down_arcs ?t order)" using ok by (simp add: inputs_ok_def n_def)
  note ct = context_tables[of threads b topo em mode_bit, folded ctx_def]
  note ix = index_tables[OF h[unfolded n_def] ct(2)]
  show base: "arc_weight b (customize_base ctx b ?t bw) = transition_cost topo em mode_bit bw"
  proof (intro ext)
    fix x y
    show "arc_weight b (customize_base ctx b ?t bw) x y = transition_cost topo em mode_bit bw x y"
    proof (cases "x < n")
      case True
      then show ?thesis
        using customize_base_weight[OF ok ct(1), of x bw y] by (simp add: transition_cost_def n_def)
    next
      case False
      then show ?thesis
        using hierarchyD(1)[OF h] by (simp add: arc_weight_def transition_cost_def n_def)
    qed
  qed
  show ms: "set (middles ctx) = {0..<n}" "cch.lower_first ((!) (edge_rank b)) S (middles ctx)"
    using elimination_tasks_order[OF h[unfolded n_def] ct(3)] by (simp_all add: n_def S_def)
  show "weight_shape b (customize ctx b topo bw)"
    unfolding customize_middles
    by (rule conjunct1[OF relax_middles_weight[OF h[unfolded n_def] ix customize_base_shape[OF ok ct(1)]]])
      (simp add: ms(1) n_def)
  show "arc_weight b (customize ctx b topo bw)
      = cch.relax_all ((!) (edge_rank b)) (middles ctx) (transition_cost topo em mode_bit bw)"
    using customize_relax_all[OF ok ct(1) ix, of bw] ms(1) by (simp add: base n_def)
qed

text \<open>C2: customization is exact, for every elimination order, every base weight and every number of
  worker threads. Every finite arc weight is the cost of some path of legal transitions (nothing
  is invented), and for every path of transitions there is a path of hierarchy arcs that first
  ascends and then descends in rank and costs no more (nothing is lost).\<close>

theorem customize_exact:
  fixes bw :: "nat \<Rightarrow> nat \<Rightarrow> rat option" and em :: "edge_metric list" and mode_bit :: u16
    and threads :: nat and topo :: topology
  assumes "customizable topo order"
  defines "b \<equiv> build_with_order (edge_based topo) order"
  defines "w \<equiv> arc_weight b (customize (customization_context_new threads b topo em mode_bit) b topo bw)"
    and "c \<equiv> transition_cost topo em mode_bit bw" and "n \<equiv> edge_count (edge_based topo)"
  shows "(\<forall>x y. w x y \<noteq> CCH_WEIGHT_INFINITY \<longrightarrow>
        (\<exists>p. path_from_to x p y \<and> path_costs.cost 0 add_cch_weights c p = w x y))
    \<and> (\<forall>x p y. path_from_to x p y \<and> set p \<subseteq> {0..<n} \<longrightarrow>
        (\<exists>q. up_down ((!) (edge_rank b)) q \<and> path_from_to x q y \<and> set q \<subseteq> {0..<n}
          \<and> path_costs.cost 0 add_cch_weights w q \<le> path_costs.cost 0 add_cch_weights c p))"
proof -
  let ?t = "edge_based topo"
  note ok = customizable_inputs[OF assms(1), folded b_def]
  have h: "hierarchy n b (up_arcs ?t order) (down_arcs ?t order)" using ok by (simp add: inputs_ok_def n_def)
  let ?ctx = "customization_context_new threads b topo em mode_bit"
  note ct = context_tables[of threads b topo em mode_bit]
  have base: "arc_weight b (customize_base ?ctx b ?t bw) = c"
    unfolding c_def b_def by (rule customize_facts(1)[OF assms(1)])
  note ex = customize_exact_order[OF ok ct(1) index_tables[OF h[unfolded n_def] ct(2)]
      elimination_tasks_order[OF h[unfolded n_def] ct(3)], where bw = bw, folded n_def w_def, unfolded base]
  show ?thesis using ex by blast
qed

lemma arc_weight_inject:
  assumes h: "hierarchy n b ups downs" and s: "weight_shape b w" "weight_shape b w'"
    and e: "arc_weight b w = arc_weight b w'"
  shows "w = w'"
proof -
  have l: "length (upward_head b) = length ups" "length (downward_head b) = length downs"
    using h by (simp_all add: hierarchy_def)
  have "up_weights w = up_weights w'"
  proof (rule nth_equalityI)
    fix i assume "i < length (up_weights w)"
    then have i: "i < length ups" using s l by (simp add: weight_shape_def)
    obtain x y where "ups ! i = (x, y)" by fastforce
    then show "up_weights w ! i = up_weights w' ! i"
      using arc_weight_at(1)[OF h i, of x y w] arc_weight_at(1)[OF h i, of x y w'] e by simp
  qed (use s in \<open>simp add: weight_shape_def\<close>)
  moreover have "down_weights w = down_weights w'"
  proof (rule nth_equalityI)
    fix i assume "i < length (down_weights w)"
    then have i: "i < length downs" using s l by (simp add: weight_shape_def)
    obtain x y where "downs ! i = (x, y)" by fastforce
    then show "down_weights w ! i = down_weights w' ! i"
      using arc_weight_at(2)[OF h i, of x y w] arc_weight_at(2)[OF h i, of x y w'] e by simp
  qed (use s in \<open>simp add: weight_shape_def\<close>)
  ultimately show ?thesis by simp
qed

lemma customize_order_independent:
  assumes "customizable topo order"
  defines "b \<equiv> build_with_order (edge_based topo) order"
  shows "customize (customization_context_new threads b topo em mode_bit) b topo bw
    = customize (customization_context_new 1 b topo em mode_bit) b topo bw"
proof -
  let ?t = "edge_based topo" and ?c = "\<lambda>k. customization_context_new k b topo em mode_bit"
  let ?n = "edge_count ?t"
  note ok = customizable_inputs[OF assms(1), folded b_def]
  have h: "hierarchy ?n b (up_arcs ?t order) (down_arcs ?t order)" using ok by (simp add: inputs_ok_def)
  note ct = context_tables[of _ b topo em mode_bit]
  note ix = index_tables[OF h ct(2)]
  have ms: "set (middles (?c k)) = {0..<?n}"
    "cch.lower_first ((!) (edge_rank b)) (set (up_arcs ?t order) \<union> set (down_arcs ?t order)) (middles (?c k))" for k
    using elimination_tasks_order[OF h ct(3)] by blast+
  have base: "customize_base (?c k) b ?t bw = customize_base (?c 1) b ?t bw" for k
  proof -
    have "base_step (?c k) ?t bw = base_step (?c 1) ?t bw"
      by (intro ext) (simp add: base_step_def ct(1))
    then show ?thesis by (simp add: customize_base_def)
  qed
  have w: "arc_weight b (customize (?c k) b topo bw)
      = cch.relax_all ((!) (edge_rank b)) (middles (?c k)) (arc_weight b (customize_base (?c 1) b ?t bw))" for k
    using customize_relax_all[OF ok ct(1) ix, of k bw] ms(1)[of k] by (simp add: base[of k])
  have "arc_weight b (customize (?c threads) b topo bw) = arc_weight b (customize (?c 1) b topo bw)"
    unfolding w by (rule cch.relax_all_unique[OF hierarchy_closed[OF h] arc_weight_supported[OF h] ms(2) ms(2)])
      (simp add: ms(1))
  moreover have "weight_shape b (customize (?c k) b topo bw)" for k
    unfolding b_def by (rule customize_facts(2)[OF assms(1)])
  ultimately show ?thesis by (intro arc_weight_inject[OF h])
qed

section \<open>A concrete network\<close>

definition witness_topology :: topology where
  "witness_topology = \<lparr>edge_based = witness_transitions, edge_flags = [0, 0, 0, 0],
     access_masks = [1, 3, 1, 1], turn_restrictions = [\<lparr>edge_path = [0, 1], mode_mask = 1,
       restriction_condition = None\<rparr>]\<rparr>"

definition witness_metrics :: "edge_metric list" where
  "witness_metrics = replicate 4 \<lparr>generalized_cost = Some 1\<rparr>"

lemma witness_customizable: "customizable witness_topology [1, 0, 3, 2]"
proof -
  have "is_order 4 [1, 0, 3, 2]" by (auto simp: is_order_def)
  moreover have "valid_offsets [0, 2, 4, 6, 7] 4 7" by (simp add: valid_offsets_def)
  moreover have "length (upward_head (build_with_order witness_transitions [1, 0, 3, 2])) = 5"
    "length (downward_head (build_with_order witness_transitions [1, 0, 3, 2])) = 4" by code_simp+ 
  moreover have "edge_count witness_transitions = 4"
    "edge_transition_first_out witness_transitions = [0, 2, 4, 6, 7]"
    "length (edge_transition_edges witness_transitions) = 7"
    by (simp_all add: witness_transitions_def)
  ultimately show ?thesis
    by (simp add: customizable_def Let_def witness_topology_def del: bundle_simps)
qed

lemma witness_costs:
  "transition_cost witness_topology witness_metrics 1 (\<lambda>_ _. Some 1) 3 1 = 1024"
  "transition_cost witness_topology witness_metrics 1 (\<lambda>_ _. Some 1) 1 2 = 1024"
proof -
  have enc: "encode_cch_weight (Some 1) = 1024"
  proof -
    have "\<lfloor>2049 / 2 :: rat\<rfloor> = 1024" by (rule floor_unique) simp_all
    then show ?thesis by (simp add: word_uint_eq_iff uint_encode_cch_weight)
  qed
  show "transition_cost witness_topology witness_metrics 1 (\<lambda>_ _. Some 1) 3 1 = 1024"
    "transition_cost witness_topology witness_metrics 1 (\<lambda>_ _. Some 1) 1 2 = 1024"
    by (simp_all add: transition_cost_def cost_base_arc_weight_eq allowed_def usable_def enc
        is_statically_usable_def mask_contains_def turn_forbidden_def witness_topology_def
        witness_metrics_def witness_transitions_def transition_row_def subslice_def numeral_nat)
qed

theorem customize_base_weight_witness:
  "arc_weight (build_with_order witness_transitions [1, 0, 3, 2])
     (customize_base (customization_context_new 1 (build_with_order witness_transitions [1, 0, 3, 2])
        witness_topology witness_metrics 1) (build_with_order witness_transitions [1, 0, 3, 2])
        witness_transitions (\<lambda>_ _. Some 1)) 3 1
   = cost_base_arc_weight witness_topology witness_metrics 1 (\<lambda>_ _. Some 1) 3 1"
proof -
  have e: "edge_based witness_topology = witness_transitions" by (simp add: witness_topology_def)
  have "(3::nat) < edge_count (edge_based witness_topology)" by (simp add: e) (simp add: witness_transitions_def)
  from customize_base_weight[OF customizable_inputs[OF witness_customizable] context_tables(1) this]
  show ?thesis unfolding e by blast
qed

theorem customize_exact_witness:
  "\<exists>q. path_from_to 3 q 2 \<and> path_costs.cost 0 add_cch_weights
      (arc_weight (build_with_order witness_transitions [1, 0, 3, 2])
        (customize (customization_context_new 4 (build_with_order witness_transitions [1, 0, 3, 2])
          witness_topology witness_metrics 1) (build_with_order witness_transitions [1, 0, 3, 2])
          witness_topology (\<lambda>_ _. Some 1))) q \<le> 2048"
proof -
  have e: "edge_based witness_topology = witness_transitions" by (simp add: witness_topology_def)
  have p: "path_from_to 3 [3, 1, 2] 2" by (simp add: path_from_to_def)
  have s: "set [3, 1, 2] \<subseteq> {0..<edge_count (edge_based witness_topology)}"
    by (simp add: e) (simp add: witness_transitions_def)
  have "path_costs.cost 0 add_cch_weights
      (transition_cost witness_topology witness_metrics 1 (\<lambda>_ _. Some 1)) [3, 1, 2]
    = add_cch_weights 1024 (add_cch_weights 1024 0)"
    by (simp only: cch.cost.simps witness_costs)
  also have "\<dots> = 2048" by (simp add: word_unat_eq_iff unat_add_cch_weights)
  finally have c: "path_costs.cost 0 add_cch_weights
      (transition_cost witness_topology witness_metrics 1 (\<lambda>_ _. Some 1)) [3, 1, 2] = 2048" .
  from customize_exact[OF witness_customizable, THEN conjunct2, rule_format, OF conjI[OF p s],
      of 4 witness_metrics 1 "\<lambda>_ _. Some 1", unfolded c e]
  show ?thesis by blast
qed

end
