(* ===== verification/Cch_Concurrent.thy ===== *)
theory Cch_Concurrent
  imports Cch_Tasks "HOL-Library.Multiset"
begin

unbundle bit_operations_syntax

text \<open>
  Customization as it runs on several threads (\<open>CustomizationContext::customize\<close> of
  \<open>crates/profile/src/compile.rs\<close>): the weight slots are shared atomics, the edges of phase 1, the
  elimination tasks (\<open>par_windows\<close>) and the incoming arcs of one large top middle run
  concurrently. A thread is the list of the atomic actions it still has to perform; a step of the
  program performs the next action of any one thread, so that every interleaving of loads and
  \<open>fetch_min\<close>s is a run. The lemmas show that an arc is final before any action reads it to build a
  candidate, whatever the other threads do, and hence that every run ends, in the weights of the
  sequential pass in rank order.
\<close>

section \<open>Atomic actions\<close>

text \<open>The arguments of an action are the locals of the closures: \<open>Load_Incoming\<close> is
  \<open>relax_incoming(reverse_slot, outgoing)\<close> up to its load, \<open>Load_Outgoing\<close> one round of its loop up
  to the load of the outgoing weight, \<open>Load_Target\<close> the load in the condition and \<open>Lower\<close> the
  \<open>fetch_min\<close>. The loads are relaxed: between threads nothing orders them with the \<open>fetch_min\<close>s on
  the same slot, so \<open>Load_Target\<close> may return any earlier and therefore larger value. (Loads of the arcs of
  the thread's own middle cannot be overtaken like that: their writes are ordered before them, by
  the thread or by the join between the phases; this is what \<open>pending_free\<close> below establishes.)\<close>

datatype action =
    Base_Transition nat nat
  | Load_Incoming nat "nat list"
  | Load_Outgoing u32 nat nat
  | Load_Target u32 arc_slot nat nat
  | Lower u32 arc_slot nat nat

definition incoming_actions :: "customization_context \<Rightarrow> nat list \<Rightarrow> nat \<Rightarrow> u32 \<Rightarrow> action list" where
  "incoming_actions ctx outgoing incoming_arc incoming_weight =
     (if incoming_weight = CCH_WEIGHT_INFINITY then []
      else map (Load_Outgoing incoming_weight (downward_tail ctx ! incoming_arc)) outgoing)"

definition outgoing_actions :: "acceleration_bundle \<Rightarrow> u32 \<Rightarrow> nat \<Rightarrow> nat \<Rightarrow> u32 \<Rightarrow> action list" where
  "outgoing_actions b incoming_weight tail outgoing_arc outgoing_weight =
     (let head = upward_head b ! outgoing_arc
      in if head = tail \<or> outgoing_weight = CCH_WEIGHT_INFINITY then []
         else case target_slot b tail head of
                None \<Rightarrow> []
              | Some target \<Rightarrow> [Load_Target (add_cch_weights incoming_weight outgoing_weight) target tail outgoing_arc])"

inductive perform :: "customization_context \<Rightarrow> acceleration_bundle \<Rightarrow> transitions \<Rightarrow>
    (nat \<Rightarrow> nat \<Rightarrow> rat option) \<Rightarrow> metric_weights \<Rightarrow> action \<Rightarrow> metric_weights \<Rightarrow> action list \<Rightarrow> bool"
  for ctx b t bw where
  base: "perform ctx b t bw w (Base_Transition e i) (base_step ctx t bw w (e, i)) []"
| incoming: "incoming_arc = reverse_downward_arc ctx ! rs \<Longrightarrow>
    perform ctx b t bw w (Load_Incoming rs outgoing) w
      (incoming_actions ctx outgoing incoming_arc (down_weights w ! incoming_arc))"
| outgoing: "perform ctx b t bw w (Load_Outgoing iw tail oa) w
      (outgoing_actions b iw tail oa (up_weights w ! oa))"
| target: "load w s \<le> seen \<Longrightarrow>
    perform ctx b t bw w (Load_Target c s tail oa) w (if c < seen then [Lower c s tail oa] else [])"
| lower: "perform ctx b t bw w (Lower c s tail oa) (fetch_min w s c) []"

inductive worker_step :: "customization_context \<Rightarrow> acceleration_bundle \<Rightarrow> transitions \<Rightarrow>
    (nat \<Rightarrow> nat \<Rightarrow> rat option) \<Rightarrow> metric_weights \<times> action list list \<Rightarrow>
    metric_weights \<times> action list list \<Rightarrow> bool"
  for ctx b t bw where
  step: "i < length threads \<Longrightarrow> threads ! i = a # rest \<Longrightarrow> perform ctx b t bw w a w' new \<Longrightarrow>
    worker_step ctx b t bw (w, threads) (w', threads[i := new @ rest])"

inductive_cases perform_cases: "perform ctx b t bw w a w' new"
inductive_cases worker_stepE: "worker_step ctx b t bw s s'"

text \<open>A parallel loop returns when all its threads are through.\<close>

definition finishes :: "customization_context \<Rightarrow> acceleration_bundle \<Rightarrow> transitions \<Rightarrow>
    (nat \<Rightarrow> nat \<Rightarrow> rat option) \<Rightarrow> metric_weights \<Rightarrow> action list list \<Rightarrow> metric_weights \<Rightarrow> bool" where
  "finishes ctx b t bw w threads w' \<longleftrightarrow>
     (\<exists>threads'. (worker_step ctx b t bw)\<^sup>*\<^sup>* (w, threads) (w', threads') \<and> (\<forall>th\<in>set threads'. th = []))"

section \<open>The phases\<close>

definition PARALLEL_MIDDLE_TRIANGLES :: nat where
  "PARALLEL_MIDDLE_TRIANGLES = 4096"

definition base_threads :: "transitions \<Rightarrow> action list list" where
  "base_threads t = map (\<lambda>e. map (Base_Transition e)
     [edge_transition_first_out t ! e ..< edge_transition_first_out t ! (e + 1)]) [0..<edge_count t]"

definition incoming_slots :: "customization_context \<Rightarrow> nat \<Rightarrow> nat list" where
  "incoming_slots ctx middle =
     [reverse_downward_first_out ctx ! middle ..< reverse_downward_first_out ctx ! (middle + 1)]"

definition outgoing_slots :: "acceleration_bundle \<Rightarrow> nat \<Rightarrow> nat list" where
  "outgoing_slots b middle = [upward_first_out b ! middle ..< upward_first_out b ! (middle + 1)]"

definition middle_actions :: "customization_context \<Rightarrow> acceleration_bundle \<Rightarrow> nat \<Rightarrow> action list" where
  "middle_actions ctx b middle = map (\<lambda>rs. Load_Incoming rs (outgoing_slots b middle)) (incoming_slots ctx middle)"

definition middle_threads :: "customization_context \<Rightarrow> acceleration_bundle \<Rightarrow> bool \<Rightarrow> nat \<Rightarrow> action list list" where
  "middle_threads ctx b parallel middle =
     (if parallel \<and> PARALLEL_MIDDLE_TRIANGLES
           \<le> length (incoming_slots ctx middle) * length (outgoing_slots b middle)
      then map (\<lambda>a. [a]) (middle_actions ctx b middle)
      else [middle_actions ctx b middle])"

definition task_threads :: "customization_context \<Rightarrow> acceleration_bundle \<Rightarrow> action list list" where
  "task_threads ctx b = map (\<lambda>task. concat (map (middle_actions ctx b) task)) (task_lists ctx)"

inductive tops_run :: "customization_context \<Rightarrow> acceleration_bundle \<Rightarrow> transitions \<Rightarrow>
    (nat \<Rightarrow> nat \<Rightarrow> rat option) \<Rightarrow> bool \<Rightarrow> metric_weights \<Rightarrow> nat list \<Rightarrow> metric_weights \<Rightarrow> bool"
  for ctx b t bw parallel where
  none: "tops_run ctx b t bw parallel w [] w"
| next_middle: "finishes ctx b t bw w (middle_threads ctx b parallel v) w' \<Longrightarrow>
    tops_run ctx b t bw parallel w' vs w'' \<Longrightarrow> tops_run ctx b t bw parallel w (v # vs) w''"

text \<open>\<open>customize\<close> on \<open>threads\<close> worker threads: \<open>w\<close> is a possible outcome.\<close>

definition customization_run :: "nat \<Rightarrow> customization_context \<Rightarrow> acceleration_bundle \<Rightarrow> topology \<Rightarrow>
    (nat \<Rightarrow> nat \<Rightarrow> rat option) \<Rightarrow> metric_weights \<Rightarrow> bool" where
  "customization_run threads ctx b topo bw w \<longleftrightarrow>
     (let t = edge_based topo in
      \<exists>w0 w1. finishes ctx b t bw (infinite_weights b) (base_threads t) w0
        \<and> finishes ctx b t bw w0 (task_threads ctx b) w1
        \<and> tops_run ctx b t bw (1 < threads) w1 (top_middles ctx) w)"

section \<open>Every run ends\<close>

fun work :: "action \<Rightarrow> nat" where
  "work (Base_Transition e i) = 1"
| "work (Load_Incoming rs outgoing) = Suc (3 * length outgoing)"
| "work (Load_Outgoing iw tail oa) = 3"
| "work (Load_Target c s tail oa) = 2"
| "work (Lower c s tail oa) = 1"

definition total_work :: "action list list \<Rightarrow> nat" where
  "total_work threads = sum_list (map (\<lambda>th. sum_list (map work th)) threads)"

lemma sum_list_map_const: "(\<And>x. x \<in> set xs \<Longrightarrow> f x = c) \<Longrightarrow> sum_list (map f xs) = length xs * (c :: nat)"
  by (induction xs) auto

lemma perform_work:
  assumes "perform ctx b t bw w a w' new"
  shows "sum_list (map work new) < work a"
  using assms
proof cases
  case (incoming ia rs outgoing)
  have "sum_list (map work (map (Load_Outgoing iw x) outgoing)) = 3 * length outgoing" for iw x
    using sum_list_map_const[of outgoing "\<lambda>oa. work (Load_Outgoing iw x oa)" 3] by (simp add: comp_def)
  then show ?thesis using incoming by (simp add: incoming_actions_def)
qed (auto simp: outgoing_actions_def Let_def split: option.splits)

lemma worker_step_work:
  assumes "worker_step ctx b t bw s s'"
  shows "total_work (snd s') < total_work (snd s)"
  using assms
proof cases
  case (step i threads a rest w w' new)
  have split: "total_work (take i threads @ th # drop (Suc i) threads) = total_work (take i threads)
      + sum_list (map work th) + total_work (drop (Suc i) threads)" for th
    by (simp add: total_work_def)
  have e: "total_work threads = total_work (take i threads) + (work a + sum_list (map work rest))
      + total_work (drop (Suc i) threads)"
    using split[of "a # rest"] id_take_nth_drop[OF step(3)] step(4) by simp
  have "total_work (threads[i := new @ rest]) = total_work (take i threads)
      + (sum_list (map work new) + sum_list (map work rest)) + total_work (drop (Suc i) threads)"
    using split[of "new @ rest"] step(3) by (simp add: upd_conv_take_nth_drop)
  then show ?thesis using perform_work[OF step(5)] e step(1,2) by simp
qed

lemma wf_worker_step: "wfp (\<lambda>s' s. worker_step ctx b t bw s s')"
  unfolding wfp_def
  by (rule wf_subset[OF wf_measure[of "\<lambda>s. total_work (snd s)"]]) (auto dest: worker_step_work)

lemma perform_total: "\<exists>w' new. perform ctx b t bw w a w' new"
  by (cases a) (metis perform.base perform.incoming perform.outgoing perform.target[OF order_refl] perform.lower)+

lemma busy_thread:
  assumes "\<not> (\<forall>th\<in>set threads. th = [])"
  shows "\<exists>i a rest. i < length threads \<and> threads ! i = a # rest"
proof -
  obtain th where "th \<in> set threads" "th \<noteq> []" using assms by blast
  then obtain i where "i < length threads" "threads ! i \<noteq> []" by (auto simp: in_set_conv_nth)
  then show ?thesis by (cases "threads ! i") auto
qed

lemma finishes_exists: "\<exists>w'. finishes ctx b t bw w threads w'"
proof -
  have "\<exists>w'. finishes ctx b t bw (fst s) (snd s) w'" for s
  proof (induction "total_work (snd s)" arbitrary: s rule: less_induct)
    case less
    show ?case
    proof (cases "\<forall>th\<in>set (snd s). th = []")
      case True
      then show ?thesis unfolding finishes_def by blast
    next
      case False
      then obtain i a rest where i: "i < length (snd s)" "snd s ! i = a # rest"
        using busy_thread by blast
      obtain w' new where "perform ctx b t bw (fst s) a w' new" using perform_total by blast
      from worker_step.step[OF i this]
      have st: "worker_step ctx b t bw s (w', (snd s)[i := new @ rest])" by simp
      from less[OF worker_step_work[OF st]] obtain w'' where
        "finishes ctx b t bw w' ((snd s)[i := new @ rest]) w''" by auto
      then obtain ths where ths: "(worker_step ctx b t bw)\<^sup>*\<^sup>* (w', (snd s)[i := new @ rest]) (w'', ths)"
        "\<forall>th\<in>set ths. th = []" unfolding finishes_def by blast
      from converse_rtranclp_into_rtranclp[OF st ths(1)] have "(worker_step ctx b t bw)\<^sup>*\<^sup>* (fst s, snd s) (w'', ths)" by simp
      then show ?thesis using ths(2) unfolding finishes_def by blast
    qed
  qed
  from this[of "(w, threads)"] show ?thesis by simp
qed

lemma tops_run_exists: "\<exists>w'. tops_run ctx b t bw parallel w vs w'"
proof (induction vs arbitrary: w)
  case (Cons v vs)
  obtain w1 where "finishes ctx b t bw w (middle_threads ctx b parallel v) w1" using finishes_exists by blast
  moreover obtain w2 where "tops_run ctx b t bw parallel w1 vs w2" using Cons by blast
  ultimately show ?case by (blast intro: tops_run.next_middle)
qed (blast intro: tops_run.none)

lemma customization_run_exists: "\<exists>w. customization_run threads ctx b topo bw w"
  unfolding customization_run_def Let_def using finishes_exists tops_run_exists by metis

section \<open>Phase 1\<close>

lemma fetch_min_commute: "fetch_min (fetch_min w s c) s' d = fetch_min (fetch_min w s' d) s c"
proof -
  have "(xs[i := min (xs ! i) c])[j := min (xs[i := min (xs ! i) c] ! j) d]
      = (xs[j := min (xs ! j) d])[i := min (xs[j := min (xs ! j) d] ! i) c]" for xs :: "u32 list" and i j
    by (cases "i < length xs"; cases "j < length xs"; cases "i = j")
      (simp_all add: list_update_swap list_update_beyond not_less min.assoc min.commute[of c d])
  then show ?thesis by (cases s; cases s') simp_all
qed

lemma base_step_effect:
  "(\<forall>w. base_step ctx t bw w p = w) \<or> (\<exists>s c. \<forall>w. base_step ctx t bw w p = fetch_min w s c)"
proof (cases "transition_arc ctx ! snd p = NO_ARC
    \<or> bw (fst p) (edge_transition_edges t ! snd p) = None")
  case True
  then have "\<forall>w. base_step ctx t bw w p = w" by (cases p) (auto simp: base_step_def Let_def)
  then show ?thesis by blast
next
  case False
  then have "\<forall>w. base_step ctx t bw w p = fetch_min w
      (if transition_arc ctx ! snd p AND DOWNWARD_ARC \<noteq> 0
       then Down_Slot (unat (transition_arc ctx ! snd p AND NOT DOWNWARD_ARC))
       else Up_Slot (unat (transition_arc ctx ! snd p)))
      (encode_cch_weight (bw (fst p) (edge_transition_edges t ! snd p)))"
    by (cases p) (auto simp: base_step_def Let_def)
  then show ?thesis by blast
qed

lemma base_step_commute:
  "base_step ctx t bw (base_step ctx t bw w p) q = base_step ctx t bw (base_step ctx t bw w q) p"
  using base_step_effect[of ctx t bw p] base_step_effect[of ctx t bw q] fetch_min_commute
  by (elim disjE exE) simp_all

lemma foldl_base_step_mset:
  assumes "mset ps = mset qs"
  shows "foldl (base_step ctx t bw) w ps = foldl (base_step ctx t bw) w qs"
proof -
  have "fold (\<lambda>p w. base_step ctx t bw w p) ps = fold (\<lambda>p w. base_step ctx t bw w p) qs"
    by (rule fold_multiset_equiv[OF _ assms]) (simp add: fun_eq_iff base_step_commute)
  then show ?thesis by (simp add: foldl_conv_fold)
qed

definition base_actions :: "(nat \<times> nat) list list \<Rightarrow> action list list" where
  "base_actions pss = map (map (\<lambda>(e, i). Base_Transition e i)) pss"

lemma base_worker_step:
  assumes "worker_step ctx b t bw (w, base_actions pss) s'"
  shows "\<exists>w' pss'. s' = (w', base_actions pss')
    \<and> foldl (base_step ctx t bw) w' (concat pss') = foldl (base_step ctx t bw) w (concat pss)"
  using assms
proof cases
  case (step i a rest w' new)
  have i: "i < length pss" using step(2) by (simp add: base_actions_def)
  then obtain e k ps where p: "pss ! i = (e, k) # ps" "a = Base_Transition e k"
      "rest = map (\<lambda>(e, i). Base_Transition e i) ps"
    using step(3) by (cases "pss ! i") (auto simp: base_actions_def)
  have w': "w' = base_step ctx t bw w (e, k)" "new = []"
    using step(4) p(2) by (auto elim: perform_cases)
  have s': "s' = (w', base_actions (pss[i := ps]))"
    using step(1) p(3) w'(2) by (simp add: base_actions_def map_update)
  have "pss = take i pss @ ((e, k) # ps) # drop (Suc i) pss"
    using id_take_nth_drop[OF i] p(1) by simp
  then have "mset (concat pss) = mset (concat (take i pss @ ((e, k) # ps) # drop (Suc i) pss))" by (rule arg_cong)
  then have "mset (concat pss) = mset ((e, k) # concat (pss[i := ps]))"
    using i by (simp add: upd_conv_take_nth_drop)
  from foldl_base_step_mset[OF this, of ctx t bw w] show ?thesis using s' w'(1) by auto
qed

lemma base_runs:
  assumes "(worker_step ctx b t bw)\<^sup>*\<^sup>* s s'" "s = (w, base_actions pss)"
  shows "\<exists>w' pss'. s' = (w', base_actions pss')
    \<and> foldl (base_step ctx t bw) w' (concat pss') = foldl (base_step ctx t bw) w (concat pss)"
  using assms
proof (induction rule: rtranclp_induct)
  case (step y z)
  then show ?case using base_worker_step[of ctx b t bw] by metis
qed blast

lemma base_phase:
  assumes "finishes ctx b t bw (infinite_weights b) (base_threads t) w"
  shows "w = customize_base ctx b t bw"
proof -
  let ?pss = "map (\<lambda>e. map (Pair e) [edge_transition_first_out t ! e ..< edge_transition_first_out t ! (e + 1)])
      [0..<edge_count t]"
  have b: "base_threads t = base_actions ?pss" by (simp add: base_threads_def base_actions_def comp_def)
  obtain ths where r: "(worker_step ctx b t bw)\<^sup>*\<^sup>* (infinite_weights b, base_threads t) (w, ths)"
    and e: "\<forall>th\<in>set ths. th = []" using assms unfolding finishes_def by blast
  from base_runs[OF r] obtain pss' where p: "ths = base_actions pss'"
    "foldl (base_step ctx t bw) w (concat pss') = foldl (base_step ctx t bw) (infinite_weights b) (concat ?pss)"
    unfolding b by blast
  have "concat pss' = []" using e p(1) by (auto simp: base_actions_def)
  then show ?thesis using p(2) unfolding customize_base_def by (simp only: foldl.simps)
qed

section \<open>One action\<close>

text \<open>The triangle \<open>x \<rightarrow> v \<rightarrow> y\<close> an action has still to relax, the middle it belongs to, and what its
  arguments mean when \<open>f\<close> are the final weights.\<close>

definition action_middle :: "customization_context \<Rightarrow> (nat \<times> nat) list \<Rightarrow> (nat \<times> nat) list \<Rightarrow> action \<Rightarrow> nat" where
  "action_middle ctx ups downs a = (case a of
       Base_Transition e i \<Rightarrow> e
     | Load_Incoming rs os \<Rightarrow> snd (downs ! (reverse_downward_arc ctx ! rs))
     | Load_Outgoing iw tail oa \<Rightarrow> fst (ups ! oa)
     | Load_Target c s tail oa \<Rightarrow> fst (ups ! oa)
     | Lower c s tail oa \<Rightarrow> fst (ups ! oa))"

definition covers :: "customization_context \<Rightarrow> (nat \<times> nat) list \<Rightarrow> (nat \<times> nat) list \<Rightarrow> action \<Rightarrow>
    nat \<Rightarrow> nat \<Rightarrow> nat \<Rightarrow> bool" where
  "covers ctx ups downs a x v y \<longleftrightarrow> (case a of
       Base_Transition e i \<Rightarrow> False
     | Load_Incoming rs os \<Rightarrow> downs ! (reverse_downward_arc ctx ! rs) = (x, v) \<and> (\<exists>oa\<in>set os. ups ! oa = (v, y))
     | Load_Outgoing iw tail oa \<Rightarrow> tail = x \<and> ups ! oa = (v, y)
     | Load_Target c s tail oa \<Rightarrow> tail = x \<and> ups ! oa = (v, y)
     | Lower c s tail oa \<Rightarrow> tail = x \<and> ups ! oa = (v, y))"

definition candidate_ok :: "acceleration_bundle \<Rightarrow> (nat \<times> nat) list \<Rightarrow> (nat \<times> nat) list \<Rightarrow>
    (nat \<Rightarrow> nat \<Rightarrow> u32) \<Rightarrow> u32 \<Rightarrow> arc_slot \<Rightarrow> nat \<Rightarrow> nat \<Rightarrow> bool" where
  "candidate_ok b ups downs f c s tail oa \<longleftrightarrow> oa < length ups \<and> (tail, fst (ups ! oa)) \<in> set downs
     \<and> tail \<noteq> snd (ups ! oa) \<and> target_slot b tail (snd (ups ! oa)) = Some s
     \<and> c = add_cch_weights (f tail (fst (ups ! oa))) (f (fst (ups ! oa)) (snd (ups ! oa)))"

definition action_ok :: "customization_context \<Rightarrow> acceleration_bundle \<Rightarrow> (nat \<times> nat) list \<Rightarrow>
    (nat \<times> nat) list \<Rightarrow> (nat \<Rightarrow> nat \<Rightarrow> u32) \<Rightarrow> action \<Rightarrow> bool" where
  "action_ok ctx b ups downs f a \<longleftrightarrow> (case a of
       Base_Transition e i \<Rightarrow> False
     | Load_Incoming rs os \<Rightarrow> (let ia = reverse_downward_arc ctx ! rs in
         ia < length downs \<and> downward_tail ctx ! ia = fst (downs ! ia)
         \<and> (\<forall>oa\<in>set os. oa < length ups \<and> fst (ups ! oa) = snd (downs ! ia)))
     | Load_Outgoing iw tail oa \<Rightarrow> oa < length ups \<and> (tail, fst (ups ! oa)) \<in> set downs
         \<and> iw = f tail (fst (ups ! oa))
     | Load_Target c s tail oa \<Rightarrow> candidate_ok b ups downs f c s tail oa
     | Lower c s tail oa \<Rightarrow> candidate_ok b ups downs f c s tail oa)"

lemmas action_defs = action_middle_def covers_def action_ok_def

lemma covers_middle: "action_ok ctx b ups downs f a \<Longrightarrow> covers ctx ups downs a x v y \<Longrightarrow>
    action_middle ctx ups downs a = v"
  by (cases a) (auto simp: action_defs)

text \<open>What performing an action does when the arcs of its middle are final.\<close>

lemma perform_step:
  assumes h: "hierarchy n b ups downs" and sh: "weight_shape b w" and ok: "action_ok ctx b ups downs f a"
    and p: "perform ctx b t bw w a w' new"
    and fin: "\<And>x. arc_weight b w x (action_middle ctx ups downs a) = f x (action_middle ctx ups downs a)"
      "\<And>y. arc_weight b w (action_middle ctx ups downs a) y = f (action_middle ctx ups downs a) y"
    and le: "\<And>x y. f x y \<le> arc_weight b w x y"
    and tri: "cch.triangle_at ((!) (edge_rank b)) (action_middle ctx ups downs a) f"
  shows "weight_shape b w'"
    "f x y \<le> arc_weight b w' x y" "arc_weight b w' x y \<le> arc_weight b w x y"
    "a' \<in> set new \<Longrightarrow> action_ok ctx b ups downs f a' \<and> action_middle ctx ups downs a' = action_middle ctx ups downs a"
    "covers ctx ups downs a x v y \<Longrightarrow> x \<noteq> y \<Longrightarrow> (\<exists>a'\<in>set new. covers ctx ups downs a' x v y)
      \<or> arc_weight b w' x y \<le> add_cch_weights (f x v) (f v y)"
proof -
  have "weight_shape b w' \<and> (\<forall>x y. f x y \<le> arc_weight b w' x y \<and> arc_weight b w' x y \<le> arc_weight b w x y)
      \<and> (\<forall>a'\<in>set new. action_ok ctx b ups downs f a' \<and> action_middle ctx ups downs a' = action_middle ctx ups downs a)
      \<and> (\<forall>x v y. covers ctx ups downs a x v y \<longrightarrow> x \<noteq> y \<longrightarrow> (\<exists>a'\<in>set new. covers ctx ups downs a' x v y)
        \<or> arc_weight b w' x y \<le> add_cch_weights (f x v) (f v y))"
    using p
  proof cases
    case (base e i)
    then show ?thesis using ok by (simp add: action_defs)
  next
    case (incoming ia rs os)
    obtain x v where xv: "downs ! ia = (x, v)" by fastforce
    have ia: "ia < length downs" "downward_tail ctx ! ia = x"
      "\<forall>oa\<in>set os. oa < length ups \<and> fst (ups ! oa) = v"
      using ok incoming xv by (auto simp: action_defs Let_def)
    have m: "action_middle ctx ups downs a = v" using incoming xv by (simp add: action_defs)
    have iw: "down_weights w ! ia = f x v"
      using arc_weight_at(2)[OF h ia(1) xv, of w] fin(1)[of x] m by simp
    have "(x, v) \<in> set downs" using nth_mem[OF ia(1)] xv by simp
    then show ?thesis
      using incoming sh le ia m xv iw
      by (auto simp: incoming_actions_def action_defs)
  next
    case (outgoing iw x oa)
    obtain v y where vy: "ups ! oa = (v, y)" by fastforce
    have oa: "oa < length ups" "(x, v) \<in> set downs" "iw = f x v"
      using ok outgoing vy by (auto simp: action_defs)
    have m: "action_middle ctx ups downs a = v" using outgoing vy by (simp add: action_defs)
    have ow: "up_weights w ! oa = f v y"
      using arc_weight_at(1)[OF h oa(1) vy, of w] fin(2)[of y] m by simp
    have hd: "upward_head b ! oa = y" using oa(1) vy h by (simp add: hierarchy_def)
    have vy': "(v, y) \<in> set ups" using nth_mem[OF oa(1)] vy by simp
    have n: "x < n" "y < n" using hierarchyD(4,5)[OF h] oa(2) vy' by blast+
    have "target_slot b x y \<noteq> None" if "x \<noteq> y"
      using target_slot_None[OF h n] hierarchyD(6)[OF h oa(2) vy' that] by blast
    then show ?thesis
      using outgoing sh le oa m vy ow hd
      by (auto simp: outgoing_actions_def Let_def action_defs candidate_ok_def split: option.splits)
  next
    case (target s seen c x oa)
    obtain v y where vy: "ups ! oa = (v, y)" by fastforce
    have oa: "oa < length ups" "(x, v) \<in> set downs" "target_slot b x y = Some s"
      "c = add_cch_weights (f x v) (f v y)"
      using ok target vy by (auto simp: action_defs candidate_ok_def)
    have "(v, y) \<in> set ups" using nth_mem[OF oa(1)] vy by simp
    then have n: "x < n" "y < n" using hierarchyD(4,5)[OF h] oa(2) by blast+
    have "load w s = arc_weight b w x y" using oa(3) n hierarchyD(1)[OF h] by (simp add: arc_weight_def)
    then show ?thesis
      using target sh le vy oa(4) ok by (auto simp: action_defs)
  next
    case (lower c s x oa)
    obtain v y where vy: "ups ! oa = (v, y)" by fastforce
    have oa: "oa < length ups" "(x, v) \<in> set downs" "x \<noteq> y" "target_slot b x y = Some s"
      "c = add_cch_weights (f x v) (f v y)"
      using ok lower vy by (auto simp: action_defs candidate_ok_def)
    have m: "action_middle ctx ups downs a = v" using lower vy by (simp add: action_defs)
    have "(v, y) \<in> set ups" using nth_mem[OF oa(1)] vy by simp
    then have n: "x < n" "y < n" and r: "edge_rank b ! v < edge_rank b ! x" "edge_rank b ! v < edge_rank b ! y"
      using hierarchyD(4,5)[OF h] oa(2) by blast+
    have c: "f x y \<le> c" using tri m r oa(3,5) by (simp add: cch.triangle_at_def)
    show ?thesis
      using lower sh le vy oa(3,5) c arc_weight_fetch_min[OF h sh n oa(4), of c]
      by (auto simp: action_defs)
  qed
  then show "weight_shape b w'"
    "f x y \<le> arc_weight b w' x y" "arc_weight b w' x y \<le> arc_weight b w x y"
    "a' \<in> set new \<Longrightarrow> action_ok ctx b ups downs f a' \<and> action_middle ctx ups downs a' = action_middle ctx ups downs a"
    "covers ctx ups downs a x v y \<Longrightarrow> x \<noteq> y \<Longrightarrow> (\<exists>a'\<in>set new. covers ctx ups downs a' x v y)
      \<or> arc_weight b w' x y \<le> add_cch_weights (f x v) (f v y)" by blast+
qed

section \<open>One phase of triangles\<close>

text \<open>The threads \<open>Us ! i\<close> relax, and the middles of all of them in an order \<open>ms\<close> that respects
  lower neighbours. \<open>f\<close> are the weights after all of them, \<open>g\<close> those before.\<close>

definition phase_inv :: "customization_context \<Rightarrow> acceleration_bundle \<Rightarrow> (nat \<times> nat) list \<Rightarrow>
    (nat \<times> nat) list \<Rightarrow> nat set list \<Rightarrow> (nat \<Rightarrow> nat \<Rightarrow> u32) \<Rightarrow> (nat \<Rightarrow> nat \<Rightarrow> u32) \<Rightarrow>
    metric_weights \<Rightarrow> action list list \<Rightarrow> bool" where
  "phase_inv ctx b ups downs Us f g w threads \<longleftrightarrow>
     weight_shape b w
     \<and> (\<forall>x y. f x y \<le> arc_weight b w x y \<and> arc_weight b w x y \<le> g x y)
     \<and> length threads = length Us
     \<and> (\<forall>i<length threads. \<forall>a\<in>set (threads ! i).
          action_ok ctx b ups downs f a \<and> action_middle ctx ups downs a \<in> Us ! i)
     \<and> (\<forall>i<length threads. sorted_wrt (\<lambda>a a'. \<not> cch.lower_neighbour ((!) (edge_rank b)) (set ups \<union> set downs)
          (action_middle ctx ups downs a') (action_middle ctx ups downs a)) (threads ! i))
     \<and> (\<forall>x v y. v \<in> \<Union> (set Us) \<longrightarrow> (x, v) \<in> set downs \<longrightarrow> (v, y) \<in> set ups \<longrightarrow> x \<noteq> y \<longrightarrow>
          (\<exists>i<length threads. \<exists>a\<in>set (threads ! i). covers ctx ups downs a x v y)
          \<or> arc_weight b w x y \<le> add_cch_weights (f x v) (f v y))"

definition independent_middles :: "acceleration_bundle \<Rightarrow> (nat \<times> nat) set \<Rightarrow> nat set list \<Rightarrow> bool" where
  "independent_middles b S Us \<longleftrightarrow> (\<forall>i<length Us. \<forall>j<length Us. \<forall>u\<in>Us ! i. \<forall>v\<in>Us ! j. i \<noteq> j \<longrightarrow>
     \<not> cch.lower_neighbour ((!) (edge_rank b)) S u v)"

lemma run_phase_invD:
  assumes "phase_inv ctx b ups downs Us f g w threads"
  shows "weight_shape b w" "f x y \<le> arc_weight b w x y" "arc_weight b w x y \<le> g x y"
    "length threads = length Us"
    "i < length threads \<Longrightarrow> a \<in> set (threads ! i) \<Longrightarrow>
      action_ok ctx b ups downs f a \<and> action_middle ctx ups downs a \<in> Us ! i"
    "i < length threads \<Longrightarrow> sorted_wrt (\<lambda>a a'. \<not> cch.lower_neighbour ((!) (edge_rank b)) (set ups \<union> set downs)
          (action_middle ctx ups downs a') (action_middle ctx ups downs a)) (threads ! i)"
    "v \<in> \<Union> (set Us) \<Longrightarrow> (x, v) \<in> set downs \<Longrightarrow> (v, y) \<in> set ups \<Longrightarrow> x \<noteq> y \<Longrightarrow>
          (\<exists>i<length threads. \<exists>a\<in>set (threads ! i). covers ctx ups downs a x v y)
          \<or> arc_weight b w x y \<le> add_cch_weights (f x v) (f v y)"
  using assms unfolding phase_inv_def by blast+

text \<open>The heart of the argument: when a thread reaches a middle, the arcs of that middle are final,
  because what could still lower them is a lower neighbour, hence earlier in the same thread.\<close>

lemma pending_free:
  assumes h: "hierarchy n b ups downs" and inv: "phase_inv ctx b ups downs Us f g w threads"
    and att: "cch.attained ((!) (edge_rank b)) (\<Union> (set Us)) g f"
    and sup: "cch.supported (set ups \<union> set downs) f"
    and apart: "independent_middles b (set ups \<union> set downs) Us"
    and i: "i < length threads" "threads ! i = a # rest"
    and pq: "p = action_middle ctx ups downs a \<or> q = action_middle ctx ups downs a"
  shows "arc_weight b w p q = f p q"
proof (rule ccontr)
  assume ne: "arc_weight b w p q \<noteq> f p q"
  let ?v = "action_middle ctx ups downs a" and ?r = "(!) (edge_rank b)"
  have lt: "f p q < arc_weight b w p q" using ne run_phase_invD(2)[OF inv, of p q] by simp
  then have "f p q \<noteq> g p q" using run_phase_invD(3)[OF inv, of p q] by auto
  then obtain u where u: "u \<in> \<Union> (set Us)" "p \<noteq> q" "?r u < ?r p" "?r u < ?r q"
      "f p q = add_cch_weights (f p u) (f u q)"
    using att unfolding cch.attained_def by blast
  have "f p q \<noteq> CCH_WEIGHT_INFINITY" using lt leD[OF weight_le_infinity[of "arc_weight b w p q"]] by auto
  then have "f p u \<noteq> CCH_WEIGHT_INFINITY" "f u q \<noteq> CCH_WEIGHT_INFINITY"
    using u(5) by auto
  then have S: "(p, u) \<in> set ups \<union> set downs" "(u, q) \<in> set ups \<union> set downs"
    using sup unfolding cch.supported_def by blast+
  have arcs: "(p, u) \<in> set downs" "(u, q) \<in> set ups"
    using S u(3,4) hierarchyD(4)[OF h, of p u] hierarchyD(5)[OF h, of u q] by auto
  have low: "cch.lower_neighbour ?r (set ups \<union> set downs) u ?v"
    using pq u(3,4) S unfolding cch.lower_neighbour_def by auto
  from run_phase_invD(7)[OF inv u(1) arcs u(2)] lt u(5) obtain j a' where
    j: "j < length threads" "a' \<in> set (threads ! j)" "covers ctx ups downs a' p u q" by auto
  have m': "action_middle ctx ups downs a' = u"
    using covers_middle[OF _ j(3)] run_phase_invD(5)[OF inv j(1,2)] by blast
  have us: "u \<in> Us ! j" using run_phase_invD(5)[OF inv j(1,2)] m' by simp
  have vs: "?v \<in> Us ! i" using run_phase_invD(5)[OF inv i(1), of a] i(2) by simp
  have "j = i" using apart us vs low i(1) j(1) run_phase_invD(4)[OF inv] unfolding independent_middles_def by metis
  then have "a' = a \<or> a' \<in> set rest" using j(2) i(2) by simp
  then show False
  proof
    assume "a' = a"
    then show False using m' low unfolding cch.lower_neighbour_def by simp
  next
    assume "a' \<in> set rest"
    then show False using run_phase_invD(6)[OF inv i(1)] i(2) m' low by auto
  qed
qed

lemma phase_step:
  assumes h: "hierarchy n b ups downs" and inv: "phase_inv ctx b ups downs Us f g w threads"
    and att: "cch.attained ((!) (edge_rank b)) (\<Union> (set Us)) g f"
    and sup: "cch.supported (set ups \<union> set downs) f"
    and tri: "\<And>v. v \<in> \<Union> (set Us) \<Longrightarrow> cch.triangle_at ((!) (edge_rank b)) v f"
    and apart: "independent_middles b (set ups \<union> set downs) Us"
    and st: "worker_step ctx b t bw (w, threads) (w', threads')"
  shows "phase_inv ctx b ups downs Us f g w' threads'"
  using st
proof cases
  case (step i a rest new)
  let ?m = "action_middle ctx ups downs"
  note D = run_phase_invD[OF inv]
  have ai: "a \<in> set (threads ! i)" using step(3) by simp
  have ok: "action_ok ctx b ups downs f a" "?m a \<in> Us ! i" using D(5)[OF step(2) ai] by auto
  have "Us ! i \<in> set Us" using step(2) D(4) by simp
  then have mN: "?m a \<in> \<Union> (set Us)" using ok(2) by blast
  have fin: "arc_weight b w x (?m a) = f x (?m a)" "arc_weight b w (?m a) y = f (?m a) y" for x y
    using pending_free[OF h inv att sup apart step(2,3)] by blast+
  note P = perform_step[OF h D(1) ok(1) step(4) fin D(2) tri[OF mN]]
  have row: "threads' ! j = (if j = i then new @ rest else threads ! j)" if "j < length threads" for j
    using step(1) that by simp
  have len: "length threads' = length threads" using step(1) by simp
  have "f x y \<le> arc_weight b w' x y \<and> arc_weight b w' x y \<le> g x y" for x y
    using P(2,3)[of x y] D(3)[of x y] by auto
  moreover have "action_ok ctx b ups downs f a' \<and> ?m a' \<in> Us ! j"
    if "j < length threads'" "a' \<in> set (threads' ! j)" for j a'
    using that row[of j] len P(4)[of a'] D(5)[of j a'] ok(2) step(3) by (auto split: if_splits)
  moreover have "sorted_wrt (\<lambda>a a'. \<not> cch.lower_neighbour ((!) (edge_rank b)) (set ups \<union> set downs) (?m a') (?m a))
      (threads' ! j)" if "j < length threads'" for j
  proof (cases "j = i")
    case True
    have "sorted_wrt (\<lambda>a a'. \<not> cch.lower_neighbour ((!) (edge_rank b)) (set ups \<union> set downs) (?m a') (?m a)) (a # rest)"
      using D(6)[OF step(2)] step(3) by simp
    moreover have "sorted_wrt (\<lambda>a a'. \<not> cch.lower_neighbour ((!) (edge_rank b)) (set ups \<union> set downs) (?m a') (?m a)) new"
      by (rule sorted_wrt_mono_rel[OF _ sorted_wrt_true]) (use P(4) in \<open>auto simp: cch.lower_neighbour_def\<close>)
    ultimately show ?thesis using True row[of j] that len P(4) by (auto simp: sorted_wrt_append)
  qed (use that row[of j] len D(6)[of j] in simp)
  moreover have "(\<exists>j<length threads'. \<exists>a\<in>set (threads' ! j). covers ctx ups downs a x v y)
      \<or> arc_weight b w' x y \<le> add_cch_weights (f x v) (f v y)"
    if "v \<in> \<Union> (set Us)" "(x, v) \<in> set downs" "(v, y) \<in> set ups" "x \<noteq> y" for x v y
    using D(7)[OF that]
  proof
    assume "arc_weight b w x y \<le> add_cch_weights (f x v) (f v y)"
    then show ?thesis using P(3)[of x y] by auto
  next
    assume "\<exists>j<length threads. \<exists>a\<in>set (threads ! j). covers ctx ups downs a x v y"
    then obtain j a' where j: "j < length threads" "a' \<in> set (threads ! j)" "covers ctx ups downs a' x v y" by blast
    show ?thesis
    proof (cases "j = i \<and> a' = a")
      case True
      then have "(\<exists>a'\<in>set new. covers ctx ups downs a' x v y)
          \<or> arc_weight b w' x y \<le> add_cch_weights (f x v) (f v y)"
        using P(5)[OF _ that(4)] j(3) by blast
      then show ?thesis using row[OF step(2)] step(2) len by (metis Un_iff set_append)
    next
      case False
      then have "a' \<in> set (threads' ! j)" using j row[OF j(1)] step(3) by auto
      then show ?thesis using j len by auto
    qed
  qed
  ultimately show ?thesis using P(1) D(4) len unfolding phase_inv_def by simp
qed

lemma phase_runs:
  assumes h: "hierarchy n b ups downs"
    and att: "cch.attained ((!) (edge_rank b)) (\<Union> (set Us)) g f"
    and sup: "cch.supported (set ups \<union> set downs) f"
    and tri: "\<And>v. v \<in> \<Union> (set Us) \<Longrightarrow> cch.triangle_at ((!) (edge_rank b)) v f"
    and apart: "independent_middles b (set ups \<union> set downs) Us"
    and run: "(worker_step ctx b t bw)\<^sup>*\<^sup>* (w, threads) (w', threads')"
    and inv: "phase_inv ctx b ups downs Us f g w threads"
  shows "phase_inv ctx b ups downs Us f g w' threads'"
proof -
  have "phase_inv ctx b ups downs Us f g (fst s') (snd s')"
    if "(worker_step ctx b t bw)\<^sup>*\<^sup>* s s'" "phase_inv ctx b ups downs Us f g (fst s) (snd s)" for s s'
    using that
  proof (induction rule: rtranclp_induct)
    case (step y z)
    then have iy: "phase_inv ctx b ups downs Us f g (fst y) (snd y)" by blast
    show ?case by (rule phase_step[OF h iy att sup tri apart]) (use step(2) in simp_all)
  qed
  from this[OF run] inv show ?thesis by simp
qed

text \<open>A finished phase has computed \<open>f\<close>.\<close>

lemma phase_result:
  assumes h: "hierarchy n b ups downs" and ms: "set ms = \<Union> (set Us)" "set ms \<subseteq> {0..<n}"
    "cch.lower_first ((!) (edge_rank b)) (set ups \<union> set downs) ms"
    and apart: "independent_middles b (set ups \<union> set downs) Us"
  defines "f \<equiv> \<lambda>w. cch.relax_all ((!) (edge_rank b)) ms (arc_weight b w)"
  assumes run: "finishes ctx b t bw w threads w'"
    and inv: "phase_inv ctx b ups downs Us (f w) (arc_weight b w) w threads"
  shows "weight_shape b w'" "arc_weight b w' = f w"
proof -
  let ?r = "(!) (edge_rank b)"
  have sg: "cch.supported (set ups \<union> set downs) (arc_weight b w)" by (rule arc_weight_supported[OF h])
  note cl = hierarchy_closed[OF h]
  have sup: "cch.supported (set ups \<union> set downs) (f w)"
    unfolding f_def by (rule cch.relax_all_supported[OF cl sg])
  have att: "cch.attained ?r (\<Union> (set Us)) (arc_weight b w) (f w)"
    unfolding f_def ms(1)[symmetric] by (rule cch.relax_all_attained[OF cl sg ms(3)])
  have tri: "cch.triangle_at ?r v (f w)" if "v \<in> \<Union> (set Us)" for v
    unfolding f_def using that ms(1) by (intro cch.triangle_final[OF cl sg ms(3)]) simp
  obtain ths where r: "(worker_step ctx b t bw)\<^sup>*\<^sup>* (w, threads) (w', ths)" and e: "\<forall>th\<in>set ths. th = []"
    using run unfolding finishes_def by blast
  have I: "phase_inv ctx b ups downs Us (f w) (arc_weight b w) w' ths"
    by (rule phase_runs[OF h att sup tri apart r inv])
  note D = run_phase_invD[OF I]
  show "weight_shape b w'" by (rule D(1))
  have "cch.triangle_at ?r v (arc_weight b w')" if v: "v \<in> \<Union> (set Us)" for v
    unfolding cch.triangle_at_def
  proof (intro allI impI)
    fix x y assume xy: "x \<noteq> y" "?r v < ?r x" "?r v < ?r y"
    show "arc_weight b w' x y \<le> add_cch_weights (arc_weight b w' x v) (arc_weight b w' v y)"
    proof (cases "(x, v) \<in> set downs \<and> (v, y) \<in> set ups")
      case True
      then have "(\<exists>i<length ths. \<exists>a\<in>set (ths ! i). covers ctx ups downs a x v y)
          \<or> arc_weight b w' x y \<le> add_cch_weights (f w x v) (f w v y)" using D(7)[OF v] xy(1) by blast
      moreover have "\<not> (\<exists>i<length ths. \<exists>a\<in>set (ths ! i). covers ctx ups downs a x v y)"
        using e nth_mem by fastforce
      ultimately show ?thesis using add_cch_mono[OF D(2)[of x v] D(2)[of v y]] order_trans by blast
    next
      case False
      then have "(x, v) \<notin> set ups \<union> set downs \<or> (v, y) \<notin> set ups \<union> set downs"
        using xy hierarchyD(4)[OF h, of x v] hierarchyD(5)[OF h, of v y] by auto
      then have "arc_weight b w' x v = CCH_WEIGHT_INFINITY \<or> arc_weight b w' v y = CCH_WEIGHT_INFINITY"
        using arc_weight_supported[OF h, of w'] unfolding cch.supported_def by blast
      then show ?thesis by auto
    qed
  qed
  then have "arc_weight b w' x y \<le> f w x y" for x y
    using cch.attained_least[OF att, of "arc_weight b w'" x y] D(3) by blast
  then show "arc_weight b w' = f w" using D(2) by (intro ext order_antisym)
qed

section \<open>The phases of the code\<close>

lemma middle_actions_facts:
  assumes h: "hierarchy n b ups downs" and ix: "good_index ctx n downs" and v: "v < n"
  shows "a \<in> set (middle_actions ctx b v) \<Longrightarrow> action_ok ctx b ups downs f a"
    "a \<in> set (middle_actions ctx b v) \<Longrightarrow> action_middle ctx ups downs a = v"
    "(x, v) \<in> set downs \<Longrightarrow> (v, y) \<in> set ups \<Longrightarrow> \<exists>a\<in>set (middle_actions ctx b v). covers ctx ups downs a x v y"
proof -
  have os: "set (outgoing_slots b v) = {oa. oa < length ups \<and> fst (ups ! oa) = v}"
    using csr_range[OF sorted_arcs_fst[OF hierarchyD(2)[OF h]] v] h by (simp add: hierarchy_def outgoing_slots_def)
  have rs: "(\<lambda>rs. reverse_downward_arc ctx ! rs) ` set (incoming_slots ctx v) = {ia. ia < length downs \<and> snd (downs ! ia) = v}"
    using ix v unfolding good_index_def incoming_slots_def by simp
  have r: "reverse_downward_arc ctx ! k < length downs \<and> snd (downs ! (reverse_downward_arc ctx ! k)) = v"
    if "k \<in> set (incoming_slots ctx v)" for k
    using rs that by blast
  show "a \<in> set (middle_actions ctx b v) \<Longrightarrow> action_ok ctx b ups downs f a"
    "a \<in> set (middle_actions ctx b v) \<Longrightarrow> action_middle ctx ups downs a = v"
    using r os ix by (auto simp: middle_actions_def action_defs Let_def good_index_def)
  assume xv: "(x, v) \<in> set downs" and vy: "(v, y) \<in> set ups"
  obtain ia where ia: "ia < length downs" "downs ! ia = (x, v)" using xv by (auto simp: in_set_conv_nth)
  then have "ia \<in> (\<lambda>rs. reverse_downward_arc ctx ! rs) ` set (incoming_slots ctx v)" unfolding rs by simp
  then obtain k where k: "k \<in> set (incoming_slots ctx v)" "reverse_downward_arc ctx ! k = ia" by blast
  obtain oa where oa: "oa < length ups" "ups ! oa = (v, y)" using vy by (auto simp: in_set_conv_nth)
  then have "oa \<in> set (outgoing_slots b v)" unfolding os by simp
  then have "covers ctx ups downs (Load_Incoming k (outgoing_slots b v)) x v y"
    using ia(2) k(2) oa(2) by (auto simp: action_defs)
  then show "\<exists>a\<in>set (middle_actions ctx b v). covers ctx ups downs a x v y"
    using k(1) by (auto simp: middle_actions_def)
qed

lemma phase_start:
  assumes h: "hierarchy n b ups downs" and ix: "good_index ctx n downs" and sh: "weight_shape b w"
    and len: "length threads = length Us"
    and mem: "\<And>i a. i < length Us \<Longrightarrow> a \<in> set (threads ! i) \<Longrightarrow> \<exists>v\<in>Us ! i. v < n \<and> a \<in> set (middle_actions ctx b v)"
    and all: "\<And>v a. v \<in> \<Union> (set Us) \<Longrightarrow> v < n \<and> (a \<in> set (middle_actions ctx b v) \<longrightarrow>
      (\<exists>i<length Us. a \<in> set (threads ! i)))"
    and srt: "\<And>i. i < length Us \<Longrightarrow> sorted_wrt (\<lambda>a a'. \<not> cch.lower_neighbour ((!) (edge_rank b)) (set ups \<union> set downs)
          (action_middle ctx ups downs a') (action_middle ctx ups downs a)) (threads ! i)"
  shows "phase_inv ctx b ups downs Us (cch.relax_all ((!) (edge_rank b)) ms (arc_weight b w)) (arc_weight b w) w threads"
proof -
  have ok: "action_ok ctx b ups downs f a \<and> action_middle ctx ups downs a \<in> Us ! i"
    if "i < length threads" "a \<in> set (threads ! i)" for i a f
    using mem[of i a] that len middle_actions_facts(1,2)[OF h ix] by metis
  have cov: "\<exists>i<length threads. \<exists>a\<in>set (threads ! i). covers ctx ups downs a x v y"
    if "v \<in> \<Union> (set Us)" "(x, v) \<in> set downs" "(v, y) \<in> set ups" for x v y
    using middle_actions_facts(3)[OF h ix _ that(2,3)] all[OF that(1)] len by metis
  have le: "cch.relax_all ((!) (edge_rank b)) ms (arc_weight b w) x y \<le> arc_weight b w x y" for x y
    by (rule cch.relax_all_le)
  show ?thesis
    unfolding phase_inv_def using sh len ok cov srt le by simp
qed

lemma lower_irrefl [simp]: "\<not> cch.lower_neighbour r S v v"
  by (simp add: cch.lower_neighbour_def)

lemma concat_index: "v \<in> set (concat xss) \<Longrightarrow> \<exists>i<length xss. v \<in> set (xss ! i)"
  by (metis UN_E in_set_conv_nth set_concat)

lemma task_phase:
  assumes h: "hierarchy n b ups downs" and ix: "good_index ctx n downs" and sh: "weight_shape b w"
    and ctx: "(task_first ctx, task_middles ctx, top_middles ctx) = elimination_tasks threads b n"
    and run: "finishes ctx b t bw w (task_threads ctx b) w'"
  shows "weight_shape b w' \<and> arc_weight b w' = cch.relax_all ((!) (edge_rank b)) (concat (task_lists ctx)) (arc_weight b w)"
proof -
  note ef = elimination_tasks_facts[OF h ctx]
  let ?ts = "task_lists ctx" and ?m = "action_middle ctx ups downs"
  let ?P = "\<lambda>a a'. \<not> cch.lower_neighbour ((!) (edge_rank b)) (set ups \<union> set downs) (?m a') (?m a)"
  have sub: "set (concat ?ts) \<subseteq> {0..<n}" using ef(1) by (auto simp: middles_def)
  have lf: "cch.lower_first ((!) (edge_rank b)) (set ups \<union> set downs) (concat ?ts)"
    using ef(2) by (simp add: middles_def sorted_wrt_append cch.lower_first_def)
  have apart: "independent_middles b (set ups \<union> set downs) (map set ?ts)"
    unfolding independent_middles_def using ef(3) by simp
  have row: "task_threads ctx b ! i = concat (map (middle_actions ctx b) (?ts ! i))" if "i < length ?ts" for i
    using that by (simp add: task_threads_def)
  have lt: "v < n" if "vs \<in> set ?ts" "v \<in> set vs" for vs v using sub that by auto
  have srt: "sorted_wrt ?P (task_threads ctx b ! i)" if i: "i < length ?ts" for i
    unfolding row[OF i]
  proof (rule sorted_wrt_concat)
    have m: "?m a = v" if "v \<in> set (?ts ! i)" "a \<in> set (middle_actions ctx b v)" for v a
      using middle_actions_facts(2)[OF h ix lt that(2)] i that(1) nth_mem by blast
    show "\<forall>v\<in>set (?ts ! i). sorted_wrt ?P (middle_actions ctx b v)"
      by (intro ballI sorted_wrt_mono_rel[OF _ sorted_wrt_true]) (simp add: m)
    show "sorted_wrt (\<lambda>v u. \<forall>x\<in>set (middle_actions ctx b v). \<forall>y\<in>set (middle_actions ctx b u). ?P x y) (?ts ! i)"
      by (rule sorted_wrt_mono_rel[OF _ ef(4)]) (use i m in auto)
  qed
  have "phase_inv ctx b ups downs (map set ?ts)
      (cch.relax_all ((!) (edge_rank b)) (concat ?ts) (arc_weight b w)) (arc_weight b w) w (task_threads ctx b)"
  proof (rule phase_start[OF h ix sh])
    show "length (task_threads ctx b) = length (map set ?ts)" by (simp add: task_threads_def)
    show "\<exists>v\<in>map set ?ts ! i. v < n \<and> a \<in> set (middle_actions ctx b v)"
      if "i < length (map set ?ts)" "a \<in> set (task_threads ctx b ! i)" for i a
    proof -
      have i: "i < length ?ts" using that(1) by simp
      have "a \<in> set (concat (map (middle_actions ctx b) (?ts ! i)))" using that(2) row[OF i] by simp
      then obtain v where "v \<in> set (?ts ! i)" "a \<in> set (middle_actions ctx b v)" by auto
      then show ?thesis using lt[OF nth_mem[OF i]] i by auto
    qed
    show "v < n \<and> (a \<in> set (middle_actions ctx b v) \<longrightarrow> (\<exists>i<length (map set ?ts). a \<in> set (task_threads ctx b ! i)))"
      if v: "v \<in> \<Union> (set (map set ?ts))" for v a
    proof -
      obtain i where i: "i < length ?ts" "v \<in> set (?ts ! i)" using concat_index[of v ?ts] v by auto
      have "v < n" by (rule lt[OF nth_mem[OF i(1)] i(2)])
      moreover have "a \<in> set (task_threads ctx b ! i)" if "a \<in> set (middle_actions ctx b v)"
        using that i(2) by (auto simp: row[OF i(1)])
      ultimately show ?thesis using i(1) by auto
    qed
    show "sorted_wrt ?P (task_threads ctx b ! i)" if "i < length (map set ?ts)" for i
      using srt that by simp
  qed
  from phase_result[OF h _ sub lf apart run this] show ?thesis by simp
qed

lemma finishes_Nil:
  assumes "finishes ctx b t bw w [] w'"
  shows "w' = w"
proof -
  obtain ths where "(worker_step ctx b t bw)\<^sup>*\<^sup>* (w, []) (w', ths)" using assms unfolding finishes_def by blast
  then show ?thesis
  proof (cases rule: converse_rtranclpE)
    case (step s)
    from step(1) show ?thesis by cases simp
  qed simp
qed

lemma middle_phase:
  assumes h: "hierarchy n b ups downs" and ix: "good_index ctx n downs" and sh: "weight_shape b w"
    and v: "v < n" and run: "finishes ctx b t bw w (middle_threads ctx b parallel v) w'"
  shows "weight_shape b w' \<and> arc_weight b w' = cch.relaxed ((!) (edge_rank b)) v (arc_weight b w)"
proof -
  let ?ths = "middle_threads ctx b parallel v" and ?m = "action_middle ctx ups downs"
  let ?P = "\<lambda>a a'. \<not> cch.lower_neighbour ((!) (edge_rank b)) (set ups \<union> set downs) (?m a') (?m a)"
  let ?Us = "replicate (length ?ths) {v}"
  have sub: "set (concat ?ths) = set (middle_actions ctx b v)" by (auto simp: middle_threads_def)
  have row: "a \<in> set (middle_actions ctx b v)" if "i < length ?ths" "a \<in> set (?ths ! i)" for i a
    using that sub nth_mem[OF that(1)] by auto
  have m: "?m a = v" if "i < length ?ths" "a \<in> set (?ths ! i)" for i a
    using middle_actions_facts(2)[OF h ix v row[OF that]] .
  have N: "\<Union> (set ?Us) = (if ?ths = [] then {} else {v})" by simp
  show ?thesis
  proof (cases "?ths = []")
    case True
    then have "middle_actions ctx b v = []" using sub by simp
    then have no: "(x, v) \<notin> set downs \<or> (v, y) \<notin> set ups" for x y
      using middle_actions_facts(3)[OF h ix v, of x y] by auto
    have "w' = w"
      using run finishes_Nil unfolding True by blast
    moreover have "cch.relaxed ((!) (edge_rank b)) v (arc_weight b w) x y = arc_weight b w x y" for x y
    proof (cases "edge_rank b ! v < edge_rank b ! x \<and> edge_rank b ! v < edge_rank b ! y")
      case True
      then have "(x, v) \<notin> set ups \<union> set downs \<or> (v, y) \<notin> set ups \<union> set downs"
        using no[of x y] hierarchyD(4)[OF h, of x v] hierarchyD(5)[OF h, of v y] by auto
      then have "arc_weight b w x v = CCH_WEIGHT_INFINITY \<or> arc_weight b w v y = CCH_WEIGHT_INFINITY"
        using arc_weight_supported[OF h, of w] unfolding cch.supported_def by blast
      then show ?thesis by (auto simp: cch.relaxed_def)
    qed (auto simp: cch.relaxed_def)
    ultimately show ?thesis using sh by (simp add: fun_eq_iff)
  next
    case False
    have "phase_inv ctx b ups downs ?Us (cch.relax_all ((!) (edge_rank b)) [v] (arc_weight b w)) (arc_weight b w) w ?ths"
    proof (rule phase_start[OF h ix sh])
      show "\<exists>u\<in>?Us ! i. u < n \<and> a \<in> set (middle_actions ctx b u)"
        if "i < length ?Us" "a \<in> set (?ths ! i)" for i a using row[of i a] that v by simp
      show "u < n \<and> (a \<in> set (middle_actions ctx b u) \<longrightarrow> (\<exists>i<length ?Us. a \<in> set (?ths ! i)))"
        if "u \<in> \<Union> (set ?Us)" for u a
      proof -
        have u: "u = v" using that by (simp split: if_splits)
        have "\<exists>i<length ?ths. a \<in> set (?ths ! i)" if "a \<in> set (middle_actions ctx b v)"
          using that concat_index[of a ?ths] unfolding sub[symmetric] by blast
        then show ?thesis using u v by simp
      qed
      show "sorted_wrt ?P (?ths ! i)" if "i < length ?Us" for i
        by (rule sorted_wrt_mono_rel[OF _ sorted_wrt_true]) (use m[of i] that in simp)
    qed simp
    moreover have "independent_middles b (set ups \<union> set downs) ?Us" by (simp add: independent_middles_def)
    moreover have "set [v] = \<Union> (set ?Us)" using False by simp
    moreover have "cch.lower_first ((!) (edge_rank b)) (set ups \<union> set downs) [v]" by (simp add: cch.lower_first_def)
    ultimately show ?thesis using phase_result[OF h _ _ _ _ run, of "[v]" ?Us] v by simp
  qed
qed

lemma tops_phase:
  assumes h: "hierarchy n b ups downs" and ix: "good_index ctx n downs"
  shows "tops_run ctx b t bw parallel w vs w' \<Longrightarrow> weight_shape b w \<Longrightarrow> set vs \<subseteq> {0..<n} \<Longrightarrow>
    weight_shape b w' \<and> arc_weight b w' = cch.relax_all ((!) (edge_rank b)) vs (arc_weight b w)"
proof (induction rule: tops_run.induct)
  case (next_middle w v w' vs w'')
  then show ?case using middle_phase[OF h ix, of w v t bw parallel w'] by simp
qed simp

section \<open>All phases\<close>

lemma customization_run_result:
  fixes em :: "edge_metric list" and mode_bit :: u16 and bw :: "nat \<Rightarrow> nat \<Rightarrow> rat option"
    and threads :: nat
  assumes "customizable topo order"
  defines "b \<equiv> build_with_order (edge_based topo) order"
  defines "ctx \<equiv> customization_context_new threads b topo em mode_bit"
  assumes run: "customization_run threads ctx b topo bw w"
  shows "w = customize ctx b topo bw"
proof -
  let ?t = "edge_based topo" and ?r = "(!) (edge_rank b)"
  note ok = customizable_inputs[OF assms(1), folded b_def]
  have h: "hierarchy (edge_count ?t) b (up_arcs ?t order) (down_arcs ?t order)" using ok by (simp add: inputs_ok_def)
  note ct = context_tables[of threads b topo em mode_bit, folded ctx_def]
  note ix = index_tables[OF h ct(2)] and ms = elimination_tasks_facts(1)[OF h ct(3)]
  obtain w0 w1 where r: "finishes ctx b ?t bw (infinite_weights b) (base_threads ?t) w0"
    "finishes ctx b ?t bw w0 (task_threads ctx b) w1"
    "tops_run ctx b ?t bw (1 < threads) w1 (top_middles ctx) w"
    using run unfolding customization_run_def Let_def by blast
  have w0: "w0 = customize_base ctx b ?t bw" by (rule base_phase[OF r(1)])
  have sh: "weight_shape b w0" unfolding w0 by (rule customize_base_shape[OF ok ct(1)])
  note t = task_phase[OF h ix sh ct(3) r(2)]
  have "set (top_middles ctx) \<subseteq> {0..<edge_count ?t}" using ms by (auto simp: middles_def)
  note p = tops_phase[OF h ix r(3) conjunct1[OF t] this]
  have "arc_weight b w = cch.relax_all ?r (middles ctx) (arc_weight b w0)"
    using p t by (simp add: middles_def)
  also have "\<dots> = arc_weight b (customize ctx b topo bw)"
    using customize_relax_all[OF ok ct(1) ix, of bw] ms by (simp add: w0)
  finally have e: "arc_weight b w = arc_weight b (customize ctx b topo bw)" .
  have "weight_shape b (customize ctx b topo bw)"
    unfolding b_def ctx_def by (rule customize_facts(2)[OF assms(1)])
  then show ?thesis by (rule arc_weight_inject[OF h conjunct1[OF p] _ e])
qed

text \<open>C7: concurrency changes nothing. Whatever the number of worker threads, every interleaving of
  their atomic actions (with relaxed loads that may lag behind) comes to an end, some outcome exists, and every outcome
  is, slot by slot, that of one thread relaxing all middles in rank order after phase 1. The tasks
  that run concurrently are independent: no middle of one is a lower neighbour of a middle of
  another.\<close>

theorem customize_schedule_independent:
  fixes em :: "edge_metric list" and mode_bit :: u16 and bw :: "nat \<Rightarrow> nat \<Rightarrow> rat option"
    and threads :: nat
  assumes "customizable topo order"
  defines "t \<equiv> edge_based topo"
  defines "b \<equiv> build_with_order t order"
  defines "ctx \<equiv> \<lambda>k. customization_context_new k b topo em mode_bit"
  defines "sequential \<equiv> foldl (relax_middle (ctx 1) b) (customize_base (ctx 1) b t bw) (edge_order b)"
    and "tasks \<equiv> task_lists (ctx threads)"
  shows "wfp (\<lambda>s' s. worker_step (ctx threads) b t bw s s')
    \<and> (\<exists>w. customization_run threads (ctx threads) b topo bw w)
    \<and> (\<forall>w. customization_run threads (ctx threads) b topo bw w \<longrightarrow> w = sequential)
    \<and> customize (ctx threads) b topo bw = sequential
    \<and> (\<forall>i<length tasks. \<forall>j<length tasks. \<forall>u\<in>set (tasks ! i). \<forall>v\<in>set (tasks ! j).
        i \<noteq> j \<longrightarrow> u \<notin> set (lower_neighbours b (edge_count t) v))"
proof -
  note ok = customizable_inputs[OF assms(1), folded t_def, folded b_def]
  have h: "hierarchy (edge_count t) b (up_arcs t order) (down_arcs t order)"
    using ok[unfolded inputs_ok_def, folded t_def] by blast
  note ct = context_tables[of threads b topo em mode_bit, folded t_def]
  have c1: "customize (ctx 1) b topo bw = sequential"
    using context_tables(3)[of 1 b topo em mode_bit]
    by (simp add: customize_def task_lists_def elimination_tasks_def sequential_def ctx_def t_def)
  have ck: "customize (ctx threads) b topo bw = sequential"
    using customize_order_independent[OF assms(1), of threads em mode_bit bw] c1
    by (simp add: ctx_def b_def t_def)
  have out: "w = sequential" if "customization_run threads (ctx threads) b topo bw w" for w
    using customization_run_result[OF assms(1), of threads em mode_bit bw w] that ck
    by (simp add: ctx_def b_def t_def)
  have ind: "u \<notin> set (lower_neighbours b (edge_count t) v)"
    if "i < length tasks" "j < length tasks" "u \<in> set (tasks ! i)" "v \<in> set (tasks ! j)" "i \<noteq> j" for i j u v
  proof -
    have "v \<in> set (concat tasks)" using that(2,4) nth_mem[of j tasks] by auto
    then have "v \<in> set (middles (ctx threads))" by (simp add: middles_def tasks_def)
    then have n: "v < edge_count t" using elimination_tasks_facts(1)[OF h ct(3)] by (simp add: ctx_def)
    have "\<not> cch.lower_neighbour ((!) (edge_rank b)) (set (up_arcs t order) \<union> set (down_arcs t order)) u v"
      using elimination_tasks_facts(3)[OF h ct(3)] that unfolding tasks_def ctx_def by blast
    then show ?thesis
      using lower_neighbours_mem[OF h n, of u] hierarchyD(4)[OF h, of u v] hierarchyD(5)[OF h, of v u]
      unfolding cch.lower_neighbour_def by blast
  qed
  show ?thesis using wf_worker_step customization_run_exists ck out ind by blast
qed

theorem customize_schedule_independent_witness:
  "\<exists>w. customization_run 8 (customization_context_new 8 (build_with_order witness_transitions [1, 0, 3, 2])
         witness_topology witness_metrics 1) (build_with_order witness_transitions [1, 0, 3, 2])
         witness_topology (\<lambda>_ _. Some 1) w
     \<and> w = customize (customization_context_new 8 (build_with_order witness_transitions [1, 0, 3, 2])
         witness_topology witness_metrics 1) (build_with_order witness_transitions [1, 0, 3, 2])
         witness_topology (\<lambda>_ _. Some 1)"
proof -
  have e: "edge_based witness_topology = witness_transitions" by (simp add: witness_topology_def)
  from customize_schedule_independent[OF witness_customizable, where threads = 8 and em = witness_metrics
      and mode_bit = 1 and bw = "\<lambda>_ _. Some 1", unfolded e]
  show ?thesis by metis
qed

end
