(* ===== verification/Automaton.thy ===== *)
theory Automaton
  imports Prelude "HOL-Library.AList" "HOL-Library.Sublist"
begin

unbundle bit_operations_syntax

text \<open>
  The restriction automaton (\<open>crates/query/src/engine/automaton.rs\<close>): forbidden edge sequences
  are matched while a search runs, by an Aho-Corasick automaton whose states are the proper
  prefixes of the sequences. The hash maps of the code are association lists in insertion order;
  the numbering of states and the finished automaton do not depend on the iteration order. The
  lemmas characterise every state by the word it stands for: the automaton is in the state of the
  longest suffix of the travelled edges that starts a forbidden sequence, and the edges it
  prohibits are exactly those that would complete one.
\<close>

section \<open>Operations\<close>

record automaton_state =
  transitions :: "(nat \<times> nat) list"
  failure :: nat
  prohibited_next :: "nat list"
  prohibited_meta :: "(nat \<times> nat) list"

record restriction_automaton =
  states :: "automaton_state list"
  root_edges :: "u64 list"

definition default_state :: automaton_state where
  "default_state = \<lparr>transitions = [], failure = 0, prohibited_next = [], prohibited_meta = []\<rparr>"

text \<open>\<open>entry(k).and_modify(max).or_insert(v)\<close>.\<close>

definition entry_max :: "(nat \<times> nat) list \<Rightarrow> nat \<times> nat \<Rightarrow> (nat \<times> nat) list" where
  "entry_max m = (\<lambda>(k, v). case map_of m k of
       None \<Rightarrow> m @ [(k, v)]
     | Some existing \<Rightarrow> AList.update k (max existing v) m)"

definition trie_step :: "automaton_state list \<times> nat \<Rightarrow> nat \<Rightarrow> automaton_state list \<times> nat" where
  "trie_step s edge = (let (st, i) = s in
     case map_of (transitions (st ! i)) edge of
       Some nxt \<Rightarrow> (st, nxt)
     | None \<Rightarrow> let nxt = length st
               in ((st @ [default_state])
                     [i := (st ! i)\<lparr>transitions := transitions (st ! i) @ [(edge, nxt)]\<rparr>], nxt))"

definition insert_sequence :: "automaton_state list \<Rightarrow> nat list \<Rightarrow> automaton_state list" where
  "insert_sequence st sq =
     (if length sq < 2 then st
      else let (st, i) = foldl trie_step (st, 0) (take (length sq - 1) sq)
           in st[i := (st ! i)\<lparr>prohibited_next := prohibited_next (st ! i) @ [last sq],
                prohibited_meta := entry_max (prohibited_meta (st ! i)) (last sq, length sq)\<rparr>])"

text \<open>The loop over failure links ends at the root; one round per state is more than enough.\<close>

fun climb_failure :: "nat \<Rightarrow> automaton_state list \<Rightarrow> nat \<Rightarrow> nat \<Rightarrow> nat" where
  "climb_failure 0 st f edge = f"
| "climb_failure (Suc fuel) st f edge =
     (if f \<noteq> 0 \<and> map_of (transitions (st ! f)) edge = None
      then climb_failure fuel st (failure (st ! f)) edge else f)"

definition link_child :: "nat \<Rightarrow> automaton_state list \<Rightarrow> nat \<times> nat \<Rightarrow> automaton_state list" where
  "link_child i st = (\<lambda>(edge, nxt).
     let f = climb_failure (length st) st (failure (st ! i)) edge;
         fs = (case map_of (transitions (st ! f)) edge of Some s \<Rightarrow> s | None \<Rightarrow> 0);
         inherited = st ! fs; s = st ! nxt
     in st[nxt := s\<lparr>failure := fs,
          prohibited_next := sort_dedup (prohibited_next s @ prohibited_next inherited),
          prohibited_meta := foldl entry_max (prohibited_meta s) (prohibited_meta inherited)\<rparr>])"

fun link_states :: "nat \<Rightarrow> automaton_state list \<Rightarrow> nat list \<Rightarrow> automaton_state list" where
  "link_states (Suc fuel) st (i # queue) =
     link_states fuel (foldl (link_child i) st (transitions (st ! i)))
       (queue @ map snd (transitions (st ! i)))"
| "link_states fuel st queue = st"

definition set_root_edge :: "u64 list \<Rightarrow> nat \<Rightarrow> u64 list" where
  "set_root_edge ws edge =
     (let ws = ws @ replicate (edge div 64 + 1 - length ws) 0
      in ws[edge div 64 := ws ! (edge div 64) OR push_bit (edge mod 64) 1])"

definition build :: "nat list list \<Rightarrow> restriction_automaton" where
  "build sequences =
     (let st = foldl insert_sequence [default_state] sequences;
          roots = map snd (transitions (st ! 0));
          st = foldl (\<lambda>st i. st[i := (st ! i)\<lparr>failure := 0\<rparr>]) st roots;
          st = link_states (length st) st roots
      in \<lparr>states = st, root_edges = foldl set_root_edge [] (map fst (transitions (st ! 0)))\<rparr>)"

fun step_loop :: "nat \<Rightarrow> automaton_state list \<Rightarrow> nat \<Rightarrow> nat \<Rightarrow> nat" where
  "step_loop 0 st cursor edge = 0"
| "step_loop (Suc fuel) st cursor edge = (case map_of (transitions (st ! cursor)) edge of
       Some nxt \<Rightarrow> nxt
     | None \<Rightarrow> if cursor = 0 then 0 else step_loop fuel st (failure (st ! cursor)) edge)"

definition transition :: "restriction_automaton \<Rightarrow> nat \<Rightarrow> nat \<Rightarrow> nat" where
  "transition a i edge =
     (if i = 0 \<and> (length (root_edges a) \<le> edge div 64
          \<or> root_edges a ! (edge div 64) AND push_bit (edge mod 64) 1 = 0)
      then 0 else step_loop (length (states a)) (states a) i edge)"

definition is_transition_allowed :: "restriction_automaton \<Rightarrow> nat \<Rightarrow> nat \<Rightarrow> bool" where
  "is_transition_allowed a i edge \<longleftrightarrow> \<not> is_found (binary_search (prohibited_next (states a ! i)) edge)"

definition prohibited_sequence_len :: "restriction_automaton \<Rightarrow> nat \<Rightarrow> nat \<Rightarrow> nat option" where
  "prohibited_sequence_len a i edge = map_of (prohibited_meta (states a ! i)) edge"

definition sequence_edges :: "restriction_automaton \<Rightarrow> nat list" where
  "sequence_edges a = sort_dedup (concat (map (\<lambda>s. map fst (transitions s) @ prohibited_next s) (states a)))"

definition max_sequence_len :: "restriction_automaton \<Rightarrow> nat" where
  "max_sequence_len a = fold max (concat (map (\<lambda>s. map snd (prohibited_meta s)) (states a))) 0"

definition is_trivial :: "restriction_automaton \<Rightarrow> bool" where
  "is_trivial a \<longleftrightarrow> length (states a) \<le> 1"

text \<open>The state after travelling a path from the root, as every search keeps it.\<close>

definition run :: "restriction_automaton \<Rightarrow> nat list \<Rightarrow> nat" where
  "run a path = foldl (transition a) 0 path"

section \<open>Longest suffixes\<close>

fun longest_suffix :: "nat list set \<Rightarrow> nat list \<Rightarrow> nat list" where
  "longest_suffix S [] = []"
| "longest_suffix S (x # xs) = (if x # xs \<in> S then x # xs else longest_suffix S xs)"

definition prefix_closed :: "nat list set \<Rightarrow> bool" where
  "prefix_closed S \<longleftrightarrow> [] \<in> S \<and> (\<forall>w e. w @ [e] \<in> S \<longrightarrow> w \<in> S)"

lemma longest_suffix_suffix: "suffix (longest_suffix S w) w"
  by (induction w) (auto simp: suffix_Cons)

lemma longest_suffix_mem: "prefix_closed S \<Longrightarrow> longest_suffix S w \<in> S"
  by (induction w) (auto simp: prefix_closed_def)

lemma longest_suffix_id: "w \<in> S \<Longrightarrow> longest_suffix S w = w"
  by (cases w) auto

lemma longest_suffix_max: "suffix v w \<Longrightarrow> v \<in> S \<Longrightarrow> suffix v (longest_suffix S w)"
  by (induction w) (auto simp: suffix_Cons)

lemma longest_suffix_snoc:
  assumes "prefix_closed S"
  shows "longest_suffix S (w @ [e]) = longest_suffix S (longest_suffix S w @ [e])"
proof (induction w)
  case (Cons x w)
  show ?case
  proof (cases "x # w \<in> S")
    case False
    then have "x # w @ [e] \<notin> S" using assms by (metis append_Cons prefix_closed_def)
    then show ?thesis using False Cons by simp
  qed simp
qed simp

lemma longest_suffix_step:
  assumes "prefix_closed S" "w @ [e] \<notin> S" "w \<noteq> []"
  shows "longest_suffix S (w @ [e]) = longest_suffix S (longest_suffix S (tl w) @ [e])"
  using assms longest_suffix_snoc[OF assms(1), of "tl w" e] by (cases w) auto

section \<open>What a state must prohibit\<close>

definition exact_lens :: "nat list list \<Rightarrow> nat list \<Rightarrow> nat \<Rightarrow> nat set" where
  "exact_lens sqs w x = {length s | s. s \<in> set sqs \<and> 2 \<le> length s \<and> last s = x \<and> butlast s = w}"

definition match_lens :: "nat list list \<Rightarrow> nat list \<Rightarrow> nat \<Rightarrow> nat set" where
  "match_lens sqs w x = {length s | s. s \<in> set sqs \<and> 2 \<le> length s \<and> last s = x \<and> suffix (butlast s) w}"

definition max_of :: "nat set \<Rightarrow> nat option" where
  "max_of A = (if A = {} then None else Some (Max A))"

definition trie_words :: "nat list list \<Rightarrow> nat list set" where
  "trie_words sqs = insert [] {w. \<exists>s\<in>set sqs. 2 \<le> length s \<and> prefix w (butlast s)}"

lemma finite_lens [simp]: "finite (exact_lens sqs w x)" "finite (match_lens sqs w x)"
  unfolding exact_lens_def match_lens_def
  by (rule finite_subset[of _ "length ` set sqs"]; auto)+

lemma prefix_closed_trie: "prefix_closed (trie_words sqs)"
  unfolding prefix_closed_def trie_words_def by (auto dest: append_prefixD)

lemma match_lens_Nil [simp]: "match_lens sqs [] x = {}"
proof -
  have "butlast s \<noteq> []" if "2 \<le> length s" for s :: "nat list"
    using that by (cases s rule: rev_cases) auto
  then show ?thesis by (auto simp: match_lens_def)
qed

lemma match_lens_split:
  assumes "w \<noteq> []"
  shows "match_lens sqs w x = exact_lens sqs w x
    \<union> match_lens sqs (longest_suffix (trie_words sqs) (tl w)) x"
proof -
  have "suffix (butlast s) w \<longleftrightarrow> butlast s = w \<or> suffix (butlast s) (longest_suffix (trie_words sqs) (tl w))"
    if "s \<in> set sqs" "2 \<le> length s" for s
  proof -
    have m: "butlast s \<in> trie_words sqs" using that by (auto simp: trie_words_def)
    have "suffix (butlast s) w \<longleftrightarrow> butlast s = w \<or> suffix (butlast s) (tl w)"
      using assms by (cases w) (auto simp: suffix_Cons)
    also have "suffix (butlast s) (tl w) \<longleftrightarrow> suffix (butlast s) (longest_suffix (trie_words sqs) (tl w))"
      using longest_suffix_max[OF _ m] longest_suffix_suffix suffix_order.trans by blast
    finally show ?thesis .
  qed
  then show ?thesis unfolding match_lens_def exact_lens_def by blast
qed

lemma max_of_Un:
  assumes "finite A" "finite B"
  shows "max_of (A \<union> B) = (case max_of A of None \<Rightarrow> max_of B
    | Some a \<Rightarrow> (case max_of B of None \<Rightarrow> Some a | Some b \<Rightarrow> Some (max a b)))"
  using assms by (auto simp: max_of_def Max_Un)

lemma map_of_entry_max:
  "map_of (entry_max m (k, v)) x = (if x = k then Some (case map_of m k of None \<Rightarrow> v | Some o' \<Rightarrow> max o' v)
    else map_of m x)"
  by (auto simp: entry_max_def update_conv' map_add_def split: option.splits)

lemma map_of_foldl_entry_max:
  assumes "distinct (map fst ps)"
  shows "map_of (foldl entry_max m ps) x = (case map_of ps x of None \<Rightarrow> map_of m x
    | Some v \<Rightarrow> Some (case map_of m x of None \<Rightarrow> v | Some o' \<Rightarrow> max o' v))"
  using assms
proof (induction ps arbitrary: m)
  case (Cons p ps)
  obtain k v where p: "p = (k, v)" by (cases p)
  have "x = k \<Longrightarrow> map_of ps x = None" using Cons.prems p by (auto simp: map_of_eq_None_iff)
  then show ?case using Cons p by (auto simp: map_of_entry_max split: option.splits)
qed simp

lemma distinct_entry_max: "distinct (map fst m) \<Longrightarrow> distinct (map fst (entry_max m p))"
  by (cases p) (auto simp: entry_max_def distinct_update map_of_eq_None_iff split: option.splits)

lemma distinct_foldl_entry_max:
  "distinct (map fst m) \<Longrightarrow> distinct (map fst (foldl entry_max m ps))"
  by (induction ps arbitrary: m) (simp_all add: distinct_entry_max)

section \<open>The trie\<close>

definition word_trie :: "automaton_state list \<Rightarrow> nat list list \<Rightarrow> bool" where
  "word_trie st W \<longleftrightarrow> length W = length st \<and> st \<noteq> [] \<and> W ! 0 = [] \<and> distinct W \<and> prefix_closed (set W)
     \<and> (\<forall>i<length st. distinct (map fst (transitions (st ! i)))
         \<and> (\<forall>e j. (e, j) \<in> set (transitions (st ! i)) \<longleftrightarrow> j < length st \<and> W ! j = W ! i @ [e]))"

lemma word_trieD:
  assumes "word_trie st W"
  shows "length W = length st" "0 < length st" "W ! 0 = []" "prefix_closed (set W)"
    "i < length st \<Longrightarrow> distinct (map fst (transitions (st ! i)))"
    "i < length st \<Longrightarrow> (e, j) \<in> set (transitions (st ! i)) \<longleftrightarrow> j < length st \<and> W ! j = W ! i @ [e]"
    "i < length st \<Longrightarrow> map_of (transitions (st ! i)) e = Some j \<longleftrightarrow> j < length st \<and> W ! j = W ! i @ [e]"
    "i < length st \<Longrightarrow> map_of (transitions (st ! i)) e = None \<longleftrightarrow> W ! i @ [e] \<notin> set W"
    "i < length st \<Longrightarrow> j < length st \<Longrightarrow> W ! i = W ! j \<Longrightarrow> i = j"
proof -
  show b: "length W = length st" "0 < length st" "W ! 0 = []" "prefix_closed (set W)"
    "i < length st \<Longrightarrow> distinct (map fst (transitions (st ! i)))"
    "i < length st \<Longrightarrow> (e, j) \<in> set (transitions (st ! i)) \<longleftrightarrow> j < length st \<and> W ! j = W ! i @ [e]" for i e j
    using assms by (simp_all add: word_trie_def)
  show m: "i < length st \<Longrightarrow> map_of (transitions (st ! i)) e = Some j \<longleftrightarrow> j < length st \<and> W ! j = W ! i @ [e]" for i e j
    using b(5,6) by (simp add: map_of_eq_Some_iff)
  show "i < length st \<Longrightarrow> map_of (transitions (st ! i)) e = None \<longleftrightarrow> W ! i @ [e] \<notin> set W"
    using m[of i e] b(1) by (cases "map_of (transitions (st ! i)) e") (auto simp: in_set_conv_nth)
  show "i < length st \<Longrightarrow> j < length st \<Longrightarrow> W ! i = W ! j \<Longrightarrow> i = j"
    using assms by (simp add: word_trie_def nth_eq_iff_index_eq)
qed

definition ends :: "nat list list \<Rightarrow> nat list \<Rightarrow> nat list" where
  "ends sqs w = map last (filter (\<lambda>s. 2 \<le> length s \<and> butlast s = w) sqs)"

definition fresh :: "nat list list \<Rightarrow> nat list \<Rightarrow> automaton_state \<Rightarrow> bool" where
  "fresh sqs w s \<longleftrightarrow> failure s = 0 \<and> prohibited_next s = ends sqs w
     \<and> (\<forall>x. map_of (prohibited_meta s) x = max_of (exact_lens sqs w x))
     \<and> distinct (map fst (prohibited_meta s))"

definition loaded :: "nat list list \<Rightarrow> automaton_state list \<Rightarrow> nat list list \<Rightarrow> bool" where
  "loaded sqs st W \<longleftrightarrow> word_trie st W \<and> (\<forall>i<length st. fresh sqs (W ! i) (st ! i))"

lemma fresh_default:
  assumes "w \<notin> trie_words sqs"
  shows "fresh sqs w default_state"
proof -
  have "\<not> (2 \<le> length s \<and> butlast s = w)" if "s \<in> set sqs" for s
    using assms that by (auto simp: trie_words_def)
  then have "ends sqs w = []" "exact_lens sqs w x = {}" for x
    by (auto simp: ends_def exact_lens_def filter_empty_conv)
  then show ?thesis by (simp add: fresh_def default_state_def max_of_def)
qed

lemma trie_step_loaded:
  assumes ld: "loaded sqs st W" and i: "i < length st" and t: "trie_words sqs \<subseteq> set W"
  obtains st' j W' where "trie_step (st, i) e = (st', j)" "loaded sqs st' W'" "j < length st'"
    "W' ! j = W ! i @ [e]" "set W' = insert (W ! i @ [e]) (set W)"
proof (cases "map_of (transitions (st ! i)) e")
  case (Some j)
  have wt: "word_trie st W" using ld by (simp add: loaded_def)
  have "j < length st" "W ! j = W ! i @ [e]" using word_trieD(7)[OF wt i] Some by auto
  moreover from this have "W ! i @ [e] \<in> set W" using word_trieD(1)[OF wt] by (metis nth_mem)
  ultimately show ?thesis using that[of st j W] ld Some by (simp add: trie_step_def insert_absorb)
next
  case None
  have wt: "word_trie st W" using ld by (simp add: loaded_def)
  let ?n = "length st" and ?w = "W ! i @ [e]"
  let ?si = "(st ! i)\<lparr>transitions := transitions (st ! i) @ [(e, ?n)]\<rparr>"
  let ?st = "(st @ [default_state])[i := ?si]" and ?W = "W @ [?w]"
  have l: "length W = ?n" using word_trieD(1)[OF wt] .
  have new: "?w \<notin> set W" using word_trieD(8)[OF wt i] None by simp
  have step: "trie_step (st, i) e = (?st, ?n)" using None by (simp add: trie_step_def Let_def)
  have iW: "W ! i \<in> set W" using i l by simp
  have at: "?st ! k = (if k = i then ?si else if k = ?n then default_state else st ! k)" if "k < Suc ?n" for k
    using that i by (auto simp: nth_list_update nth_append)
  have Wat: "?W ! k = (if k = ?n then ?w else W ! k)" if "k < Suc ?n" for k
    using that l by (auto simp: nth_append)
  have tr: "distinct (map fst (transitions (?st ! k)))
      \<and> (\<forall>e' j. (e', j) \<in> set (transitions (?st ! k)) \<longleftrightarrow> j < Suc ?n \<and> ?W ! j = ?W ! k @ [e'])"
    if k: "k < Suc ?n" for k
  proof (cases "k = ?n")
    case True
    have "\<not> (j < Suc ?n \<and> ?W ! j = ?w @ [e'])" for e' j
    proof
      assume j: "j < Suc ?n \<and> ?W ! j = ?w @ [e']"
      then have "j < ?n" using Wat[of j] by (cases "j = ?n") auto
      then have "?w @ [e'] \<in> set W" using j Wat[of j] l by (metis less_SucI nth_mem less_irrefl)
      then show False using new word_trieD(4)[OF wt] unfolding prefix_closed_def by blast
    qed
    then show ?thesis using True i Wat[of ?n] at[of ?n] by (auto simp: default_state_def)
  next
    case False
    then have k': "k < ?n" using k by simp
    have nk: "e \<notin> fst ` set (transitions (st ! i))" using None by (simp add: map_of_eq_None_iff)
    have inj: "W ! i = W ! k \<longleftrightarrow> k = i" using word_trieD(9)[OF wt i k'] by auto
    have Wj: "?W ! j = (if j = ?n then ?w else W ! j)" if "j < Suc ?n" for j using Wat[OF that] .
    have "(j < Suc ?n \<and> ?W ! j = W ! k @ [e']) \<longleftrightarrow>
        (j < ?n \<and> W ! j = W ! k @ [e']) \<or> (j = ?n \<and> k = i \<and> e' = e)" for e' j
      using Wj[of j] inj by (cases "j = ?n") auto
    then show ?thesis
      using word_trieD(5,6)[OF wt k'] at[OF k] Wat[OF k] False nk by auto
  qed
  have "prefix_closed (set ?W)" using word_trieD(4)[OF wt] iW by (auto simp: prefix_closed_def)
  then have "word_trie ?st ?W"
    using tr new wt l by (auto simp: word_trie_def nth_append)
  moreover have "fresh sqs (?W ! k) (?st ! k)" if "k < Suc ?n" for k
  proof (cases "k = ?n")
    case True
    then show ?thesis using at[OF that] Wat[OF that] i fresh_default[of ?w sqs] new t by auto
  next
    case False
    then have "fresh sqs (W ! k) (st ! k)" using ld that by (simp add: loaded_def)
    then show ?thesis using False at[OF that] Wat[OF that] by (auto simp: fresh_def)
  qed
  ultimately have "loaded sqs ?st ?W" by (simp add: loaded_def)
  then show ?thesis using that[OF step, of ?W] Wat[of ?n] by simp
qed

lemma trie_walk_loaded:
  assumes "loaded sqs st W" "i < length st" "trie_words sqs \<subseteq> set W"
  shows "\<exists>st' j W'. foldl trie_step (st, i) u = (st', j) \<and> loaded sqs st' W' \<and> j < length st'
    \<and> W' ! j = W ! i @ u \<and> set W' = set W \<union> {W ! i @ v | v. prefix v u}"
  using assms
proof (induction u arbitrary: st i W)
  case Nil
  have "W ! i \<in> set W" using Nil word_trieD(1)[of st W] by (simp add: loaded_def)
  then show ?case using Nil by (auto simp: insert_absorb)
next
  case (Cons e u)
  obtain st1 j1 W1 where 1: "trie_step (st, i) e = (st1, j1)" "loaded sqs st1 W1" "j1 < length st1"
    "W1 ! j1 = W ! i @ [e]" "set W1 = insert (W ! i @ [e]) (set W)"
    using trie_step_loaded[OF Cons.prems] by metis
  have iW: "W ! i \<in> set W" using Cons.prems word_trieD(1)[of st W] by (simp add: loaded_def)
  have "trie_words sqs \<subseteq> set W1" using Cons.prems(3) 1(5) by auto
  from Cons.IH[OF 1(2,3) this] obtain st' j W' where 2: "foldl trie_step (st1, j1) u = (st', j)"
    "loaded sqs st' W'" "j < length st'" "W' ! j = W1 ! j1 @ u"
    "set W' = set W1 \<union> {W1 ! j1 @ v | v. prefix v u}" by blast
  have "set W' = set W \<union> {W ! i @ v | v. prefix v (e # u)}"
    unfolding 2(5) 1(4,5) using iW by (auto simp: prefix_Cons)
  then show ?case using 1(1,4) 2 by auto
qed

text \<open>Updates that keep the transitions keep the trie.\<close>

lemma word_trie_update:
  "word_trie st W \<Longrightarrow> transitions s = transitions (st ! i) \<Longrightarrow> word_trie (st[i := s]) W"
  unfolding word_trie_def length_list_update by (cases "i < length st") (auto simp: nth_list_update)

lemma insert_sequence_loaded:
  assumes ld: "loaded sqs st W" and t: "set W = trie_words sqs"
  shows "\<exists>W'. loaded (sqs @ [sq]) (insert_sequence st sq) W' \<and> set W' = trie_words (sqs @ [sq])"
proof (cases "length sq < 2")
  case True
  then have "ends (sqs @ [sq]) w = ends sqs w" "exact_lens (sqs @ [sq]) w x = exact_lens sqs w x"
    "trie_words (sqs @ [sq]) = trie_words sqs" for w x
    by (auto simp: ends_def exact_lens_def trie_words_def)
  then show ?thesis using True ld t by (auto simp: insert_sequence_def loaded_def fresh_def)
next
  case False
  have wt: "word_trie st W" using ld by (simp add: loaded_def)
  obtain st1 j W1 where 1: "foldl trie_step (st, 0) (butlast sq) = (st1, j)" "loaded sqs st1 W1"
    "j < length st1" "W1 ! j = butlast sq" "set W1 = set W \<union> {v. prefix v (butlast sq)}"
    using trie_walk_loaded[OF ld word_trieD(2)[OF wt], of "butlast sq"] t word_trieD(3)[OF wt] by auto
  have wt1: "word_trie st1 W1" using 1(2) by (simp add: loaded_def)
  let ?s = "(st1 ! j)\<lparr>prohibited_next := prohibited_next (st1 ! j) @ [last sq],
      prohibited_meta := entry_max (prohibited_meta (st1 ! j)) (last sq, length sq)\<rparr>"
  have e: "insert_sequence st sq = st1[j := ?s]"
    using False 1(1) by (simp add: insert_sequence_def butlast_conv_take)
  have w: "word_trie (st1[j := ?s]) W1" by (rule word_trie_update[OF wt1]) simp
  have fr: "fresh (sqs @ [sq]) (W1 ! k) (st1[j := ?s] ! k)" if k: "k < length st1" for k
  proof (cases "k = j")
    case True
    have ex: "exact_lens (sqs @ [sq]) (butlast sq) x
        = (if x = last sq then insert (length sq) (exact_lens sqs (butlast sq) x) else exact_lens sqs (butlast sq) x)" for x
      using False by (auto simp: exact_lens_def)
    have mx: "max_of (insert a A) = Some (case max_of A of None \<Rightarrow> a | Some m \<Rightarrow> max m a)" if "finite A" for a A
      using that by (auto simp: max_of_def max.commute)
    have "fresh sqs (W1 ! j) (st1 ! j)" using 1(2,3) by (simp add: loaded_def)
    then have "fresh sqs (butlast sq) (st1 ! j)" unfolding 1(4) .
    then show ?thesis
      using True 1(3,4) False by (auto simp: fresh_def ends_def ex map_of_entry_max mx distinct_entry_max)
  next
    case False
    then have "W1 ! k \<noteq> butlast sq" using word_trieD(9)[OF wt1 k 1(3)] 1(4) by auto
    then have "ends (sqs @ [sq]) (W1 ! k) = ends sqs (W1 ! k)"
      "exact_lens (sqs @ [sq]) (W1 ! k) x = exact_lens sqs (W1 ! k) x" for x
      by (auto simp: ends_def exact_lens_def)
    then show ?thesis using 1(2) k False by (simp add: loaded_def fresh_def)
  qed
  have "set W1 = trie_words (sqs @ [sq])"
    using 1(5) t False by (auto simp: trie_words_def)
  then show ?thesis using w fr unfolding e loaded_def by auto
qed

lemma trie_loaded:
  "\<exists>W. loaded sqs (foldl insert_sequence [default_state] sqs) W \<and> set W = trie_words sqs"
proof (induction sqs rule: rev_induct)
  case Nil
  have "loaded [] [default_state] [[]]"
    by (auto simp: loaded_def word_trie_def prefix_closed_def fresh_def default_state_def
        ends_def exact_lens_def max_of_def)
  then show ?case by (auto simp: trie_words_def intro!: exI[of _ "[[]]"])
next
  case (snoc sq sqs)
  then show ?case using insert_sequence_loaded[of sqs _ _ sq] by auto
qed

section \<open>Failure links\<close>

definition settled :: "nat list list \<Rightarrow> nat list list \<Rightarrow> nat list \<Rightarrow> automaton_state \<Rightarrow> bool" where
  "settled sqs W w s \<longleftrightarrow> failure s < length W
     \<and> W ! failure s = longest_suffix (trie_words sqs) (tl w)
     \<and> (\<forall>x. x \<in> set (prohibited_next s) \<longleftrightarrow> match_lens sqs w x \<noteq> {})
     \<and> (\<forall>x. map_of (prohibited_meta s) x = max_of (match_lens sqs w x))
     \<and> distinct (map fst (prohibited_meta s))
     \<and> (if length w = 1 then prohibited_next s = ends sqs w else sorted_wrt (<) (prohibited_next s))"

lemma ends_exact: "x \<in> set (ends sqs w) \<longleftrightarrow> exact_lens sqs w x \<noteq> {}"
  by (auto simp: ends_def exact_lens_def)

lemma word_length_bound:
  assumes "word_trie st W" "i < length st"
  shows "length (W ! i) < length st"
proof -
  have "take k w \<in> set W" if "w \<in> set W" for w k
    using that
  proof (induction w arbitrary: k rule: rev_induct)
    case (snoc x w)
    then have "w \<in> set W" using word_trieD(4)[OF assms(1)] unfolding prefix_closed_def by blast
    then show ?case using snoc by (cases "k \<le> length w") (auto simp: not_le)
  qed simp
  then have "(\<lambda>k. take k (W ! i)) ` {..length (W ! i)} \<subseteq> set W"
    using assms word_trieD(1)[OF assms(1)] by auto
  then have "card ((\<lambda>k. take k (W ! i)) ` {..length (W ! i)}) \<le> card (set W)" by (intro card_mono) auto
  moreover have "inj_on (\<lambda>k. take k (W ! i)) {..length (W ! i)}"
    by (intro inj_onI) (metis atMost_iff length_take min.absorb2)
  ultimately have "Suc (length (W ! i)) \<le> card (set W)" by (simp add: card_image)
  then show ?thesis using card_length[of W] word_trieD(1)[OF assms(1)] by simp
qed

lemma settled_failure:
  assumes "word_trie st W" "set W = trie_words sqs" "settled sqs W w s" "w \<noteq> []"
  shows "failure s < length st" "W ! failure s = longest_suffix (trie_words sqs) (tl w)"
    "length (W ! failure s) < length w"
proof -
  show "failure s < length st" "W ! failure s = longest_suffix (trie_words sqs) (tl w)"
    using assms(1,3) word_trieD(1) by (auto simp: settled_def)
  then show "length (W ! failure s) < length w"
    using suffix_length_le[OF longest_suffix_suffix, of "trie_words sqs" "tl w"] assms(4)
    by (cases w) auto
qed

text \<open>Both loops over failure links compute the transition of the automaton.\<close>

lemma climb_failure_spec:
  assumes wt: "word_trie st W" and S: "set W = trie_words sqs"
    and d: "\<forall>k<length st. length (W ! k) \<le> d \<longrightarrow> settled sqs W (W ! k) (st ! k)"
  shows "f < length st \<Longrightarrow> length (W ! f) \<le> d \<Longrightarrow> length (W ! f) \<le> fuel \<Longrightarrow>
    climb_failure fuel st f e < length st \<and> length (W ! climb_failure fuel st f e) \<le> length (W ! f)
    \<and> (case map_of (transitions (st ! climb_failure fuel st f e)) e of
        Some s \<Rightarrow> s < length st \<and> W ! s = longest_suffix (trie_words sqs) (W ! f @ [e])
      | None \<Rightarrow> longest_suffix (trie_words sqs) (W ! f @ [e]) = [])"
proof (induction fuel arbitrary: f)
  have stop: "case map_of (transitions (st ! f)) e of
        Some s \<Rightarrow> s < length st \<and> W ! s = longest_suffix (trie_words sqs) (W ! f @ [e])
      | None \<Rightarrow> longest_suffix (trie_words sqs) (W ! f @ [e]) = []"
    if f: "f < length st" "f = 0 \<or> map_of (transitions (st ! f)) e \<noteq> None" for f
  proof (cases "map_of (transitions (st ! f)) e")
    case None
    then have "f = 0" "[e] \<notin> trie_words sqs"
      using f word_trieD(3,8)[OF wt] word_trieD(2)[OF wt] S by fastforce+
    then show ?thesis using None word_trieD(3)[OF wt] by simp
  next
    case (Some s)
    then have s: "s < length st" "W ! s = W ! f @ [e]" using word_trieD(7)[OF wt f(1)] by auto
    then have "W ! f @ [e] \<in> trie_words sqs" using S word_trieD(1)[OF wt] by (metis nth_mem)
    then show ?thesis using Some s by (simp add: longest_suffix_id)
  qed
  {
    case 0
    then have "f = 0" using word_trieD(9)[OF wt 0(1) word_trieD(2)[OF wt]] word_trieD(3)[OF wt] by simp
    then show ?case using stop[OF 0(1)] 0 by simp
  next
    case (Suc fuel)
    show ?case
    proof (cases "f \<noteq> 0 \<and> map_of (transitions (st ! f)) e = None")
      case False
      then have "climb_failure (Suc fuel) st f e = f" by (simp only: climb_failure.simps if_False)
      then show ?thesis using stop[OF Suc.prems(1)] Suc.prems(1) False by auto
    next
      case True
      have ne: "W ! f \<noteq> []"
        using True word_trieD(9)[OF wt Suc.prems(1) word_trieD(2)[OF wt]] word_trieD(3)[OF wt] by auto
      have "settled sqs W (W ! f) (st ! f)" using d Suc.prems(1,2) by blast
      note sf = settled_failure[OF wt S this ne]
      have "W ! f @ [e] \<notin> trie_words sqs" using True word_trieD(8)[OF wt Suc.prems(1)] S by simp
      then have ls: "longest_suffix (trie_words sqs) (W ! f @ [e])
          = longest_suffix (trie_words sqs) (W ! failure (st ! f) @ [e])"
        using longest_suffix_step[OF prefix_closed_trie _ ne] sf(2) by simp
      have cl: "climb_failure (Suc fuel) st f e = climb_failure fuel st (failure (st ! f)) e"
        using True by simp
      show ?thesis
        using Suc.IH[OF sf(1)] sf(3) Suc.prems unfolding ls cl by (auto split: option.splits)
    qed
  }
qed

lemma link_child_settled:
  assumes wt: "word_trie st W" and S: "set W = trie_words sqs" and i: "i < length st"
    and d: "\<forall>k<length st. length (W ! k) \<le> length (W ! i) \<longrightarrow> settled sqs W (W ! k) (st ! k)"
    and c: "(e, j) \<in> set (transitions (st ! i))" and fr: "fresh sqs (W ! j) (st ! j)" and i0: "i \<noteq> 0"
  shows "word_trie (link_child i st (e, j)) W
    \<and> settled sqs W (W ! j) (link_child i st (e, j) ! j)
    \<and> (\<forall>k. k \<noteq> j \<longrightarrow> link_child i st (e, j) ! k = st ! k)
    \<and> (\<forall>k. transitions (link_child i st (e, j) ! k) = transitions (st ! k))"
proof -
  let ?T = "trie_words sqs"
  have j: "j < length st" "W ! j = W ! i @ [e]" using word_trieD(6)[OF wt i] c by auto
  have ne: "W ! i \<noteq> []"
    using i0 word_trieD(9)[OF wt i word_trieD(2)[OF wt]] word_trieD(3)[OF wt] by auto
  have si: "settled sqs W (W ! i) (st ! i)" using d i by blast
  note sf = settled_failure[OF wt S si ne]
  let ?f = "climb_failure (length st) st (failure (st ! i)) e"
  have "length (W ! failure (st ! i)) \<le> length st"
    using word_length_bound[OF wt sf(1)] by simp
  with climb_failure_spec[OF wt S d, of "failure (st ! i)" "length st" e] sf
  have f: "?f < length st" "length (W ! ?f) \<le> length (W ! failure (st ! i))"
    "case map_of (transitions (st ! ?f)) e of
        Some s \<Rightarrow> s < length st \<and> W ! s = longest_suffix ?T (W ! failure (st ! i) @ [e])
      | None \<Rightarrow> longest_suffix ?T (W ! failure (st ! i) @ [e]) = []" by auto
  define fs where "fs = (case map_of (transitions (st ! ?f)) e of Some s \<Rightarrow> s | None \<Rightarrow> 0)"
  have "longest_suffix ?T (W ! failure (st ! i) @ [e]) = longest_suffix ?T (tl (W ! j))"
    using longest_suffix_snoc[OF prefix_closed_trie, of sqs "tl (W ! i)" e] sf(2) j(2) ne by simp
  with f(3) have fs: "fs < length st" "W ! fs = longest_suffix ?T (tl (W ! j))"
    using word_trieD(2,3)[OF wt] by (auto simp: fs_def split: option.splits)
  have "length (W ! fs) \<le> length (W ! i)"
    using suffix_length_le[OF longest_suffix_suffix, of ?T "tl (W ! j)"] fs(2) j(2) ne by (cases "W ! i") auto
  then have sfs: "settled sqs W (W ! fs) (st ! fs)" using d fs(1) by blast
  let ?s = "(st ! j)\<lparr>failure := fs,
      prohibited_next := sort_dedup (prohibited_next (st ! j) @ prohibited_next (st ! fs)),
      prohibited_meta := foldl entry_max (prohibited_meta (st ! j)) (prohibited_meta (st ! fs))\<rparr>"
  have e: "link_child i st (e, j) = st[j := ?s]" by (simp add: link_child_def Let_def fs_def)
  have ms: "match_lens sqs (W ! j) x = exact_lens sqs (W ! j) x \<union> match_lens sqs (W ! fs) x" for x
    using match_lens_split[of "W ! j" sqs x] j(2) by (simp add: fs(2))
  have "settled sqs W (W ! j) ?s"
    unfolding settled_def
  proof (intro conjI allI)
    show "failure ?s < length W" using fs(1) word_trieD(1)[OF wt] by simp
    show "W ! failure ?s = longest_suffix ?T (tl (W ! j))" using fs(2) by simp
    fix x
    show "x \<in> set (prohibited_next ?s) \<longleftrightarrow> match_lens sqs (W ! j) x \<noteq> {}"
      using fr sfs ends_exact[of x sqs "W ! j"] by (auto simp: fresh_def settled_def ms)
    show "map_of (prohibited_meta ?s) x = max_of (match_lens sqs (W ! j) x)"
      using fr sfs
      by (auto simp: fresh_def settled_def ms max_of_Un map_of_foldl_entry_max split: option.splits)
    show "distinct (map fst (prohibited_meta ?s))" using fr by (simp add: fresh_def distinct_foldl_entry_max)
    show "if length (W ! j) = 1 then prohibited_next ?s = ends sqs (W ! j)
        else sorted_wrt (<) (prohibited_next ?s)"
      using j(2) ne sort_dedup_strict by auto
  qed
  then show ?thesis
    using j(1) word_trie_update[OF wt, of ?s j] unfolding e by (auto simp: nth_list_update)
qed

lemma link_children_settled:
  assumes S: "set W = trie_words sqs" and i0: "i \<noteq> 0"
  shows "word_trie st W \<Longrightarrow> i < length st \<Longrightarrow>
    \<forall>k<length st. length (W ! k) \<le> length (W ! i) \<longrightarrow> settled sqs W (W ! k) (st ! k) \<Longrightarrow>
    set cs \<subseteq> set (transitions (st ! i)) \<Longrightarrow> distinct (map snd cs) \<Longrightarrow>
    \<forall>j\<in>snd ` set cs. fresh sqs (W ! j) (st ! j) \<Longrightarrow>
    (let st' = foldl (link_child i) st cs in word_trie st' W \<and> length st' = length st
      \<and> (\<forall>j\<in>snd ` set cs. settled sqs W (W ! j) (st' ! j))
      \<and> (\<forall>k. k \<notin> snd ` set cs \<longrightarrow> st' ! k = st ! k)
      \<and> (\<forall>k. transitions (st' ! k) = transitions (st ! k)))"
proof (induction cs arbitrary: st)
  case (Cons c cs)
  obtain e j where c: "c = (e, j)" by (cases c)
  have cm: "(e, j) \<in> set (transitions (st ! i))" using Cons.prems(4) c by simp
  have j: "W ! j = W ! i @ [e]" using word_trieD(6)[OF Cons.prems(1,2)] cm by simp
  have fr: "fresh sqs (W ! j) (st ! j)" using Cons.prems(6) c by simp
  let ?st = "link_child i st (e, j)"
  have 1: "word_trie ?st W" "settled sqs W (W ! j) (?st ! j)" "\<forall>k. k \<noteq> j \<longrightarrow> ?st ! k = st ! k"
    "\<forall>k. transitions (?st ! k) = transitions (st ! k)"
    using link_child_settled[OF Cons.prems(1) S Cons.prems(2,3) cm fr i0] by blast+
  have l: "length ?st = length st" by (simp add: link_child_def Let_def)
  have nj: "j \<notin> snd ` set cs" using Cons.prems(5) c by auto
  have d: "\<forall>k<length ?st. length (W ! k) \<le> length (W ! i) \<longrightarrow> settled sqs W (W ! k) (?st ! k)"
  proof (intro allI impI)
    fix k assume k: "k < length ?st" "length (W ! k) \<le> length (W ! i)"
    then have "k \<noteq> j" using j by auto
    then show "settled sqs W (W ! k) (?st ! k)" using 1(3) Cons.prems(3) k l by simp
  qed
  have fr': "\<forall>j'\<in>snd ` set cs. fresh sqs (W ! j') (?st ! j')"
  proof
    fix j' assume a: "j' \<in> snd ` set cs"
    then have "j' \<noteq> j" using nj by auto
    moreover have "j' \<in> snd ` set (c # cs)" using a by simp
    then have "fresh sqs (W ! j') (st ! j')" using Cons.prems(6) by blast
    ultimately show "fresh sqs (W ! j') (?st ! j')" using 1(3) by simp
  qed
  have ip: "i < length ?st" using l Cons.prems(2) by simp
  have cs: "set cs \<subseteq> set (transitions (?st ! i))" "distinct (map snd cs)"
    using Cons.prems(4,5) 1(4) by auto
  note ih = Cons.IH[OF 1(1) ip d cs fr', unfolded Let_def]
  have e: "foldl (link_child i) st (c # cs) = foldl (link_child i) ?st cs" by (simp add: c)
  show ?case
    unfolding Let_def e using ih 1 l nj c by auto
qed simp

section \<open>The breadth-first pass\<close>

definition bfs_inv :: "nat list list \<Rightarrow> nat list list \<Rightarrow> automaton_state list \<Rightarrow> nat list \<Rightarrow> nat set \<Rightarrow> bool" where
  "bfs_inv sqs W st Q D \<longleftrightarrow> word_trie st W \<and> D \<subseteq> {..<length st} \<and> 0 \<in> D \<and> set Q \<subseteq> D \<and> 0 \<notin> set Q
     \<and> distinct Q \<and> sorted (map (\<lambda>i. length (W ! i)) Q)
     \<and> (\<forall>i\<in>D. \<forall>k\<in>set Q. length (W ! i) \<le> Suc (length (W ! k)))
     \<and> (\<forall>i\<in>D. settled sqs W (W ! i) (st ! i)) \<and> (\<forall>i<length st. i \<notin> D \<longrightarrow> fresh sqs (W ! i) (st ! i))
     \<and> (\<forall>i\<in>D - set Q. snd ` set (transitions (st ! i)) \<subseteq> D)
     \<and> (\<forall>i\<in>set Q. snd ` set (transitions (st ! i)) \<inter> D = {})"

lemma parent_of:
  assumes wt: "word_trie st W" and k: "k < length st" "k \<noteq> 0"
  obtains p e where "p < length st" "(e, k) \<in> set (transitions (st ! p))" "W ! k = W ! p @ [e]"
proof -
  have "W ! k \<noteq> []" using k word_trieD(9)[OF wt k(1) word_trieD(2)[OF wt]] word_trieD(3)[OF wt] by auto
  then have w: "W ! k = butlast (W ! k) @ [last (W ! k)]" by simp
  have "W ! k \<in> set W" using k(1) word_trieD(1)[OF wt] by simp
  then have "butlast (W ! k) \<in> set W"
    using word_trieD(4)[OF wt] w unfolding prefix_closed_def by metis
  then obtain p where p: "p < length st" "W ! p = butlast (W ! k)"
    using word_trieD(1)[OF wt] by (auto simp: in_set_conv_nth)
  then have "(last (W ! k), k) \<in> set (transitions (st ! p))"
    using word_trieD(6)[OF wt p(1)] k(1) w by simp
  then show ?thesis using that[OF p(1)] p(2) w by metis
qed

lemma bfs_shallow:
  assumes inv: "bfs_inv sqs W st (q # Q) D"
  shows "k < length st \<Longrightarrow> length (W ! k) \<le> length (W ! q) \<Longrightarrow> k \<in> D"
proof (induction "length (W ! k)" arbitrary: k)
  case 0
  have wt: "word_trie st W" using inv by (simp add: bfs_inv_def)
  have "k = 0" using 0 word_trieD(9)[OF wt 0(2) word_trieD(2)[OF wt]] word_trieD(3)[OF wt] by simp
  then show ?case using inv by (simp add: bfs_inv_def)
next
  case (Suc m)
  have wt: "word_trie st W" using inv by (simp add: bfs_inv_def)
  have "W ! k \<noteq> W ! 0" using Suc(2) word_trieD(3)[OF wt] by auto
  then have "k \<noteq> 0" by metis
  then obtain p e where p: "p < length st" "(e, k) \<in> set (transitions (st ! p))" "W ! k = W ! p @ [e]"
    using parent_of[OF wt Suc.prems(1)] by blast
  have pD: "p \<in> D" using Suc(1)[of p] Suc(2) p Suc.prems(2) by simp
  have "\<forall>i\<in>set (q # Q). length (W ! q) \<le> length (W ! i)"
    using inv by (auto simp: bfs_inv_def)
  then have "p \<notin> set (q # Q)" using p(3) Suc.prems(2) by fastforce
  then have "snd ` set (transitions (st ! p)) \<subseteq> D" using inv pD unfolding bfs_inv_def by blast
  then show ?case using p(2) by force
qed

lemma bfs_step:
  assumes S: "set W = trie_words sqs" and inv: "bfs_inv sqs W st (q # Q) D"
  defines "ts \<equiv> transitions (st ! q)"
  shows "bfs_inv sqs W (foldl (link_child q) st ts) (Q @ map snd ts) (D \<union> snd ` set ts)"
    "card (D \<union> snd ` set ts) = card D + length ts" "length (foldl (link_child q) st ts) = length st"
proof -
  have wt: "word_trie st W" and D: "D \<subseteq> {..<length st}" and qD: "set (q # Q) \<subseteq> D" "0 \<notin> set (q # Q)"
    and ds: "distinct (q # Q)" and srt: "sorted (map (\<lambda>i. length (W ! i)) (q # Q))"
    and gap: "\<forall>i\<in>D. \<forall>k\<in>set (q # Q). length (W ! i) \<le> Suc (length (W ! k))"
    and sD: "\<forall>i\<in>D. settled sqs W (W ! i) (st ! i)" and fD: "\<forall>i<length st. i \<notin> D \<longrightarrow> fresh sqs (W ! i) (st ! i)"
    and pD: "\<forall>i\<in>D - set (q # Q). snd ` set (transitions (st ! i)) \<subseteq> D"
    and cD: "\<forall>i\<in>set (q # Q). snd ` set (transitions (st ! i)) \<inter> D = {}" and D0: "0 \<in> D"
    using inv unfolding bfs_inv_def by simp_all
  have q: "q < length st" "q \<noteq> 0" using qD D by auto
  have dj: "snd ` set ts \<inter> D = {}" using cD unfolding ts_def by simp
  have fin: "finite D" using D finite_subset by blast
  have ch: "j < length st \<and> length (W ! j) = Suc (length (W ! q))" if "j \<in> snd ` set ts" for j
    using that word_trieD(6)[OF wt q(1)] unfolding ts_def by auto
  have dt: "distinct (map snd ts)"
  proof -
    have "e = e'" if "(e, j) \<in> set ts" "(e', j) \<in> set ts" for e e' j
      using that word_trieD(6)[OF wt q(1)] unfolding ts_def by auto
    moreover have "distinct ts" using word_trieD(5)[OF wt q(1)] by (simp add: ts_def distinct_map)
    ultimately show ?thesis by (auto simp: distinct_map inj_on_def)
  qed
  have settledD: "\<forall>k<length st. length (W ! k) \<le> length (W ! q) \<longrightarrow> settled sqs W (W ! k) (st ! k)"
    using bfs_shallow[OF inv] sD by blast
  have frs: "\<forall>j\<in>snd ` set ts. fresh sqs (W ! j) (st ! j)"
    using dj ch fD by blast
  let ?st = "foldl (link_child q) st ts"
  have sub: "set ts \<subseteq> set (transitions (st ! q))" by (simp add: ts_def)
  have l: "word_trie ?st W" "length ?st = length st"
    "\<forall>j\<in>snd ` set ts. settled sqs W (W ! j) (?st ! j)"
    "\<forall>k. k \<notin> snd ` set ts \<longrightarrow> ?st ! k = st ! k"
    "\<forall>k. transitions (?st ! k) = transitions (st ! k)"
    using link_children_settled[OF S q(2) wt q(1) settledD sub dt frs] by (auto simp: Let_def)
  show "length ?st = length st" by (rule l(2))
  show "card (D \<union> snd ` set ts) = card D + length ts"
  proof -
    have "card (snd ` set ts) = length ts" using distinct_card[OF dt] by simp
    then show ?thesis using dj fin by (subst card_Un_disjoint) auto
  qed
  have old: "?st ! k = st ! k" if "k \<in> D" for k using l(4) dj that by blast
  have tD: "snd ` set (transitions (st ! j)) \<inter> (D \<union> snd ` set ts) = {}" if j: "j \<in> snd ` set ts" for j
  proof -
    have "length (W ! k) = Suc (Suc (length (W ! q)))" if "k \<in> snd ` set (transitions (st ! j))" for k
      using that ch[OF j] word_trieD(6)[OF wt, of j] by auto
    moreover have "length (W ! k) \<le> Suc (length (W ! q))" if "k \<in> D \<union> snd ` set ts" for k
      using that gap ch by fastforce
    ultimately show ?thesis by (metis disjoint_iff not_less_eq_eq order_refl)
  qed
  have qmin: "length (W ! q) \<le> length (W ! i)" if "i \<in> set Q" for i using srt that by auto
  show "bfs_inv sqs W ?st (Q @ map snd ts) (D \<union> snd ` set ts)"
    unfolding bfs_inv_def l(2)
  proof (intro conjI)
    show "word_trie ?st W" by (rule l(1))
    show "D \<union> snd ` set ts \<subseteq> {..<length st}" using D ch by auto
    show "0 \<in> D \<union> snd ` set ts" "set (Q @ map snd ts) \<subseteq> D \<union> snd ` set ts" using D0 qD by auto
    show "0 \<notin> set (Q @ map snd ts)" using qD D0 dj by auto
    show "distinct (Q @ map snd ts)" using ds dt dj qD by auto
    have "\<forall>x\<in>set Q. \<forall>y\<in>snd ` set ts. length (W ! x) \<le> length (W ! y)" using gap ch qD by auto
    moreover have "sorted (map (\<lambda>i. length (W ! i)) (map snd ts))"
      using ch by (auto simp: sorted_iff_nth_mono)
    ultimately show "sorted (map (\<lambda>i. length (W ! i)) (Q @ map snd ts))"
      using srt by (auto simp: sorted_append)
    show "\<forall>i\<in>D \<union> snd ` set ts. \<forall>k\<in>set (Q @ map snd ts). length (W ! i) \<le> Suc (length (W ! k))"
    proof (intro ballI)
      fix i k assume ik: "i \<in> D \<union> snd ` set ts" "k \<in> set (Q @ map snd ts)"
      have "i \<in> D \<Longrightarrow> length (W ! i) \<le> Suc (length (W ! q))" using gap by simp
      then have "length (W ! i) \<le> Suc (length (W ! q))" using ik(1) ch[of i] by (metis UnE order_refl)
      moreover have "k \<in> set Q \<or> k \<in> snd ` set ts" using ik(2) by simp
      then have "length (W ! q) \<le> length (W ! k)" using ch[of k] qmin[of k] by fastforce
      ultimately show "length (W ! i) \<le> Suc (length (W ! k))" by simp
    qed
    show "\<forall>i\<in>D \<union> snd ` set ts. settled sqs W (W ! i) (?st ! i)" using sD old l(3) by auto
    show "\<forall>i<length st. i \<notin> D \<union> snd ` set ts \<longrightarrow> fresh sqs (W ! i) (?st ! i)"
      using fD l(4) by simp
    show "\<forall>i\<in>D \<union> snd ` set ts - set (Q @ map snd ts). snd ` set (transitions (?st ! i)) \<subseteq> D \<union> snd ` set ts"
    proof
      fix i assume "i \<in> D \<union> snd ` set ts - set (Q @ map snd ts)"
      then consider "i = q" | "i \<in> D - set (q # Q)" by auto
      then show "snd ` set (transitions (?st ! i)) \<subseteq> D \<union> snd ` set ts"
        using pD l(5) by cases (auto simp: ts_def)
    qed
    show "\<forall>i\<in>set (Q @ map snd ts). snd ` set (transitions (?st ! i)) \<inter> (D \<union> snd ` set ts) = {}"
    proof
      fix i assume "i \<in> set (Q @ map snd ts)"
      then consider "i \<in> set Q" | "i \<in> snd ` set ts" by auto
      then show "snd ` set (transitions (?st ! i)) \<inter> (D \<union> snd ` set ts) = {}"
      proof cases
        case 1
        have iq: "i < length st" "i \<noteq> q" using 1 qD D ds by auto
        have "W ! i \<noteq> W ! q" using word_trieD(9)[OF wt iq(1) q(1)] iq(2) by blast
        then have "snd ` set (transitions (st ! i)) \<inter> snd ` set ts = {}"
          using word_trieD(6)[OF wt iq(1)] word_trieD(6)[OF wt q(1)] unfolding ts_def by fastforce
        moreover have "snd ` set (transitions (st ! i)) \<inter> D = {}" using cD 1 by simp
        ultimately show ?thesis using l(5) by (simp add: Int_Un_distrib)
      next
        case 2
        then show ?thesis using tD l(5) by simp
      qed
    qed
  qed
qed

lemma link_states_settled:
  assumes S: "set W = trie_words sqs"
  shows "bfs_inv sqs W st Q D \<Longrightarrow> length st + length Q \<le> fuel + card D \<Longrightarrow>
    word_trie (link_states fuel st Q) W \<and> length (link_states fuel st Q) = length st
    \<and> (\<forall>i<length st. settled sqs W (W ! i) (link_states fuel st Q ! i))"
proof (induction fuel st Q arbitrary: D rule: link_states.induct [case_names child out_of_fuel empty])
  case (child fuel st q Q)
  let ?ts = "transitions (st ! q)"
  note b = bfs_step[OF S child.prems(1)]
  have "length (foldl (link_child q) st ?ts) + length (Q @ map snd ?ts) \<le> fuel + card (D \<union> snd ` set ?ts)"
    using child.prems(2) b(2,3) by simp
  from child.IH[OF b(1) this] show ?case using b(3) by simp
next
  case (out_of_fuel st Q)
  have D: "D \<subseteq> {..<length st}" and wt: "word_trie st W" and QD: "set Q \<subseteq> D" "0 \<notin> set Q" "0 \<in> D" "distinct Q"
    using out_of_fuel.prems(1) by (simp_all add: bfs_inv_def)
  have "card D \<le> length st" using card_mono[OF _ D] by simp
  moreover have "length st + length Q \<le> card D" using out_of_fuel.prems(2) by simp
  ultimately have "length Q = 0" "card D = length st" by linarith+
  then have "Q = []" "card D = length st" by simp_all
  then have "D = {..<length st}" using D by (intro card_subset_eq) auto
  then show ?case using out_of_fuel.prems(1) by (simp add: bfs_inv_def)
next
  case (empty fuel st)
  have wt: "word_trie st W" and D: "0 \<in> D" "\<forall>i\<in>D. snd ` set (transitions (st ! i)) \<subseteq> D"
    using empty.prems(1) by (simp_all add: bfs_inv_def)
  have "k \<in> D" if "k < length st" for k
    using that
  proof (induction "length (W ! k)" arbitrary: k rule: less_induct)
    case less
    show ?case
    proof (cases "k = 0")
      case False
      from parent_of[OF wt less.prems this] obtain p e
        where p: "p < length st" "(e, k) \<in> set (transitions (st ! p))" "W ! k = W ! p @ [e]" by blast
      have "p \<in> D" using less.hyps[of p] p by simp
      then show ?thesis using D(2) p(2) by force
    qed (use D(1) in simp)
  qed
  then show ?case using empty.prems(1) by (auto simp: bfs_inv_def)
qed

lemma reset_failures:
  fixes st :: "automaton_state list"
  shows "length (foldl (\<lambda>st i. st[i := (st ! i)\<lparr>failure := 0\<rparr>]) st is) = length st
   \<and> ((\<forall>i<length st. failure (st ! i) = 0) \<longrightarrow> foldl (\<lambda>st i. st[i := (st ! i)\<lparr>failure := 0\<rparr>]) st is = st)"
proof (induction "is" arbitrary: st)
  case (Cons i "is")
  let ?st = "st[i := (st ! i)\<lparr>failure := 0\<rparr>]"
  have "?st = st" if "\<forall>i<length st. failure (st ! i) = 0"
  proof (cases "i < length st")
    case True
    have r: "s\<lparr>failure := 0\<rparr> = s" if "failure s = 0" for s :: automaton_state
      using that by (cases s) simp
    have "failure (st ! i) = 0" using that True by simp
    then have "(st ! i)\<lparr>failure := 0\<rparr> = st ! i" by (rule r)
    then show ?thesis by simp
  qed (simp add: list_update_beyond)
  then show ?case using Cons[of ?st] by auto
qed simp

text \<open>The finished automaton: a trie whose states are all settled.\<close>

lemma build_settled:
  "\<exists>W. word_trie (states (build sqs)) W \<and> set W = trie_words sqs
    \<and> (\<forall>i<length (states (build sqs)). settled sqs W (W ! i) (states (build sqs) ! i))
    \<and> root_edges (build sqs) = foldl set_root_edge [] (map fst (transitions (states (build sqs) ! 0)))"
proof -
  obtain W where ld: "loaded sqs (foldl insert_sequence [default_state] sqs) W" and S: "set W = trie_words sqs"
    using trie_loaded by blast
  let ?st = "foldl insert_sequence [default_state] sqs"
  let ?roots = "map snd (transitions (?st ! 0))"
  have wt: "word_trie ?st W" and fr: "\<forall>i<length ?st. fresh sqs (W ! i) (?st ! i)" using ld by (simp_all add: loaded_def)
  note w0 = word_trieD(2,3)[OF wt]
  have e: "foldl (\<lambda>st i. st[i := (st ! i)\<lparr>failure := 0\<rparr>]) ?st ?roots = ?st"
    using reset_failures[of ?st ?roots] fr by (simp add: fresh_def)
  have rt: "j < length ?st \<and> (\<exists>e. W ! j = [e]) \<and> j \<noteq> 0" if "j \<in> set ?roots" for j
    using that word_trieD(6)[OF wt w0(1)] w0(2) by fastforce
  have s1: "settled sqs W (W ! j) (?st ! j)" if "j \<in> set ?roots" for j
  proof -
    from rt[OF that] obtain x where x: "W ! j = [x]" "j < length ?st" by blast
    have "match_lens sqs [x] y = exact_lens sqs [x] y" for y using match_lens_split[of "[x]" sqs y] by simp
    then show ?thesis
      using fr x w0 word_trieD(1)[OF wt] by (auto simp: settled_def fresh_def ends_exact)
  qed
  have s0: "settled sqs W (W ! 0) (?st ! 0)"
  proof -
    have "ends sqs [] = []" by (auto simp: ends_def filter_empty_conv dest!: arg_cong[of "butlast _" _ length])
    moreover have "exact_lens sqs [] x = {}" for x
      by (auto simp: exact_lens_def dest!: arg_cong[of "butlast _" _ length])
    ultimately show ?thesis
      using fr w0 word_trieD(1)[OF wt] by (auto simp: settled_def fresh_def max_of_def)
  qed
  have dr: "distinct ?roots"
  proof -
    have "a = a'" if "(a, j) \<in> set (transitions (?st ! 0))" "(a', j) \<in> set (transitions (?st ! 0))" for a a' j
      using that word_trieD(6)[OF wt w0(1)] by auto
    then show ?thesis
      using word_trieD(5)[OF wt w0(1)] by (auto simp: distinct_map inj_on_def)
  qed
  have len: "length (W ! j) = 1" if "j \<in> set ?roots" for j using rt[OF that] by auto
  have inv: "bfs_inv sqs W ?st ?roots (insert 0 (set ?roots))"
    unfolding bfs_inv_def
  proof (intro conjI)
    show "insert 0 (set ?roots) \<subseteq> {..<length ?st}" "0 \<notin> set ?roots" using rt w0 by auto
    show "sorted (map (\<lambda>i. length (W ! i)) ?roots)"
      using len by (auto simp: sorted_iff_nth_mono simp del: map_map)
    show "\<forall>i\<in>insert 0 (set ?roots). \<forall>k\<in>set ?roots. length (W ! i) \<le> Suc (length (W ! k))"
      using len w0 by (auto simp del: set_map)
    show "\<forall>i\<in>insert 0 (set ?roots). settled sqs W (W ! i) (?st ! i)" using s0 s1 by blast
    show "\<forall>i<length ?st. i \<notin> insert 0 (set ?roots) \<longrightarrow> fresh sqs (W ! i) (?st ! i)" using fr by blast
    show "\<forall>i\<in>insert 0 (set ?roots) - set ?roots. snd ` set (transitions (?st ! i)) \<subseteq> insert 0 (set ?roots)"
      by auto
    show "\<forall>i\<in>set ?roots. snd ` set (transitions (?st ! i)) \<inter> insert 0 (set ?roots) = {}"
    proof
      fix i assume i: "i \<in> set ?roots"
      have "length (W ! k) = 2" if "k \<in> snd ` set (transitions (?st ! i))" for k
        using that word_trieD(6)[OF wt, of i] rt[OF i] by auto
      then show "snd ` set (transitions (?st ! i)) \<inter> insert 0 (set ?roots) = {}"
        using len w0(2) by fastforce
    qed
  qed (use wt dr in auto)
  have card: "card (insert 0 (set ?roots)) = Suc (length ?roots)"
    using rt dr by (subst card_insert_disjoint) (auto simp: distinct_card simp del: set_map)
  have "length ?st + length ?roots \<le> length ?st + card (insert 0 (set ?roots))" unfolding card by simp
  note ls = link_states_settled[OF S inv this]
  have st: "states (build sqs) = link_states (length ?st) ?st ?roots"
    unfolding build_def Let_def e by simp
  have "root_edges (build sqs) = foldl set_root_edge [] (map fst (transitions (states (build sqs) ! 0)))"
    by (simp add: build_def Let_def)
  then show ?thesis using ls S unfolding st by (intro exI[of _ W]) simp
qed

section \<open>Root edges\<close>

lemma one_bit: "bit ((2 :: u64) ^ k) i \<longleftrightarrow> i = k \<and> k < 64"
proof -
  have "bit (push_bit k (1 :: u64)) i \<longleftrightarrow> i = k \<and> k < 64"
    unfolding bit_push_bit_iff by (auto simp: bit_1_iff)
  then show ?thesis by (simp add: push_bit_of_1)
qed

lemma bit_test_iff:
  fixes w :: u64
  assumes "k < 64"
  shows "w AND 2 ^ k = 0 \<longleftrightarrow> \<not> bit w k"
proof
  assume "w AND 2 ^ k = 0"
  then have "\<not> bit (w AND 2 ^ k) k" by simp
  then show "\<not> bit w k" using assms by (simp add: bit_and_iff one_bit)
next
  assume n: "\<not> bit w k"
  show "w AND 2 ^ k = 0"
    by (rule bit_word_eqI) (use n in \<open>auto simp: bit_and_iff one_bit\<close>)
qed

definition in_bitset :: "u64 list \<Rightarrow> nat \<Rightarrow> bool" where
  "in_bitset ws e \<longleftrightarrow> e div 64 < length ws \<and> bit (ws ! (e div 64)) (e mod 64)"

lemma in_bitset_set: "in_bitset (set_root_edge ws x) e \<longleftrightarrow> e = x \<or> in_bitset ws e"
proof -
  let ?ws = "ws @ replicate (x div 64 + 1 - length ws) 0"
  have l: "x div 64 < length ?ws" by simp
  have b: "bit ((2 :: u64) ^ (x mod 64)) k \<longleftrightarrow> k = x mod 64" for k
    by (simp add: one_bit)
  have old: "in_bitset ?ws e \<longleftrightarrow> in_bitset ws e" by (auto simp: in_bitset_def nth_append)
  have "in_bitset (set_root_edge ws x) e \<longleftrightarrow>
      e div 64 < length ?ws \<and> (bit (?ws ! (e div 64)) (e mod 64) \<or> e div 64 = x div 64 \<and> e mod 64 = x mod 64)"
    using l b[of "e mod 64"]
    by (cases "e div 64 = x div 64") (auto simp: in_bitset_def set_root_edge_def Let_def bit_or_iff)
  moreover have "e div 64 = x div 64 \<and> e mod 64 = x mod 64 \<longleftrightarrow> e = x"
    by (metis div_mult_mod_eq)
  ultimately show ?thesis using old l unfolding in_bitset_def by metis
qed

lemma in_bitset_foldl: "in_bitset (foldl set_root_edge ws xs) e \<longleftrightarrow> e \<in> set xs \<or> in_bitset ws e"
  by (induction xs arbitrary: ws) (auto simp: in_bitset_set)

section \<open>The automaton matches the forbidden sequences\<close>

lemma step_loop_spec:
  assumes wt: "word_trie st W" and S: "set W = trie_words sqs"
    and d: "\<forall>k<length st. settled sqs W (W ! k) (st ! k)"
  shows "f < length st \<Longrightarrow> length (W ! f) < fuel \<Longrightarrow>
    step_loop fuel st f e < length st
    \<and> W ! step_loop fuel st f e = longest_suffix (trie_words sqs) (W ! f @ [e])"
proof (induction fuel arbitrary: f)
  case (Suc fuel)
  note w0 = word_trieD(2,3)[OF wt]
  show ?case
  proof (cases "map_of (transitions (st ! f)) e")
    case (Some s)
    then have s: "s < length st" "W ! s = W ! f @ [e]" using word_trieD(7)[OF wt Suc.prems(1)] by auto
    then have "W ! f @ [e] \<in> trie_words sqs" using S word_trieD(1)[OF wt] by (metis nth_mem)
    then show ?thesis using Some s by (simp add: longest_suffix_id)
  next
    case None
    then have nt: "W ! f @ [e] \<notin> trie_words sqs" using word_trieD(8)[OF wt Suc.prems(1)] S by simp
    show ?thesis
    proof (cases "f = 0")
      case True
      then show ?thesis using None w0 nt by simp
    next
      case False
      have ne: "W ! f \<noteq> []" using False word_trieD(9)[OF wt Suc.prems(1) w0(1)] w0(2) by auto
      have "settled sqs W (W ! f) (st ! f)" using d Suc.prems(1) by blast
      note sf = settled_failure[OF wt S this ne]
      have "longest_suffix (trie_words sqs) (W ! f @ [e])
          = longest_suffix (trie_words sqs) (W ! failure (st ! f) @ [e])"
        using longest_suffix_step[OF prefix_closed_trie nt ne] sf(2) by simp
      then show ?thesis using Suc.IH[OF sf(1)] sf(3) Suc.prems None False by simp
    qed
  qed
qed simp

lemma transition_spec:
  assumes wt: "word_trie (states a) W" and S: "set W = trie_words sqs"
    and d: "\<forall>k<length (states a). settled sqs W (W ! k) (states a ! k)"
    and r: "root_edges a = foldl set_root_edge [] (map fst (transitions (states a ! 0)))"
    and f: "f < length (states a)"
  shows "transition a f e < length (states a)
    \<and> W ! transition a f e = longest_suffix (trie_words sqs) (W ! f @ [e])"
proof -
  note w0 = word_trieD(2,3)[OF wt]
  have loop: "step_loop (length (states a)) (states a) f e < length (states a)
    \<and> W ! step_loop (length (states a)) (states a) f e = longest_suffix (trie_words sqs) (W ! f @ [e])"
    by (rule step_loop_spec[OF wt S d f word_length_bound[OF wt f]])
  have bs: "length (root_edges a) \<le> e div 64 \<or> root_edges a ! (e div 64) AND push_bit (e mod 64) 1 = 0
      \<longleftrightarrow> \<not> in_bitset (root_edges a) e"
    by (auto simp: bit_test_iff in_bitset_def not_le push_bit_of_1)
  have "\<not> in_bitset (root_edges a) e \<longleftrightarrow> map_of (transitions (states a ! 0)) e = None"
    unfolding r in_bitset_foldl by (auto simp: in_bitset_def map_of_eq_None_iff)
  then have tr: "transition a f e = (if f = 0 \<and> map_of (transitions (states a ! 0)) e = None then 0
      else step_loop (length (states a)) (states a) f e)"
    unfolding transition_def bs by simp
  show ?thesis
  proof (cases "f = 0 \<and> map_of (transitions (states a ! 0)) e = None")
    case True
    then have "[e] \<notin> trie_words sqs" using word_trieD(8)[OF wt w0(1), of e] w0(2) S by simp
    then show ?thesis using True tr w0 by simp
  qed (use tr loop in auto)
qed

lemma run_snoc: "run a (p @ [e]) = transition a (run a p) e"
  by (simp add: run_def)

lemma run_state:
  obtains W where "word_trie (states (build sqs)) W" "run (build sqs) p < length (states (build sqs))"
    "W ! run (build sqs) p = longest_suffix (trie_words sqs) p"
    "settled sqs W (longest_suffix (trie_words sqs) p) (states (build sqs) ! run (build sqs) p)"
proof -
  obtain W where W: "word_trie (states (build sqs)) W" "set W = trie_words sqs"
    "\<forall>i<length (states (build sqs)). settled sqs W (W ! i) (states (build sqs) ! i)"
    "root_edges (build sqs) = foldl set_root_edge [] (map fst (transitions (states (build sqs) ! 0)))"
    using build_settled[of sqs] by blast
  have "run (build sqs) p < length (states (build sqs))
      \<and> W ! run (build sqs) p = longest_suffix (trie_words sqs) p"
  proof (induction p rule: rev_induct)
    case Nil
    then show ?case using word_trieD(2,3)[OF W(1)] by (simp add: run_def)
  next
    case (snoc e p)
    then show ?case
      using transition_spec[OF W, of "run (build sqs) p" e]
        longest_suffix_snoc[OF prefix_closed_trie, of sqs p e] by (simp add: run_snoc)
  qed
  then show ?thesis using that W by metis
qed

lemma match_lens_longest:
  "match_lens sqs (longest_suffix (trie_words sqs) p) x = match_lens sqs p x"
proof -
  have "suffix (butlast s) (longest_suffix (trie_words sqs) p) \<longleftrightarrow> suffix (butlast s) p"
    if "s \<in> set sqs" "2 \<le> length s" for s
  proof -
    have "butlast s \<in> trie_words sqs" using that by (auto simp: trie_words_def)
    then show ?thesis
      using longest_suffix_max longest_suffix_suffix suffix_order.trans by blast
  qed
  then show ?thesis unfolding match_lens_def by blast
qed

definition completes :: "nat list list \<Rightarrow> nat list \<Rightarrow> nat \<Rightarrow> bool" where
  "completes sqs p x \<longleftrightarrow> (\<exists>s\<in>set sqs. 2 \<le> length s \<and> suffix s (p @ [x]))"

lemma match_lens_completes: "match_lens sqs p x = {length s | s. s \<in> set sqs \<and> 2 \<le> length s \<and> suffix s (p @ [x])}"
proof -
  have "last s = x \<and> suffix (butlast s) p \<longleftrightarrow> suffix s (p @ [x])" if "2 \<le> length s" for s :: "nat list"
    using that by (cases s rule: rev_cases) auto
  then show ?thesis unfolding match_lens_def by blast
qed

lemma prohibited_len:
  "prohibited_sequence_len (build sqs) (run (build sqs) p) x =
    (if completes sqs p x
     then Some (Max {length s | s. s \<in> set sqs \<and> 2 \<le> length s \<and> suffix s (p @ [x])}) else None)"
proof -
  obtain W where W: "settled sqs W (longest_suffix (trie_words sqs) p) (states (build sqs) ! run (build sqs) p)"
    using run_state by blast
  then have "prohibited_sequence_len (build sqs) (run (build sqs) p) x = max_of (match_lens sqs p x)"
    using match_lens_longest[of sqs p x] by (simp add: settled_def prohibited_sequence_len_def)
  then show ?thesis unfolding max_of_def match_lens_completes completes_def by auto
qed

text \<open>The second edges of the two-edge sequences that start with \<open>e\<close>, in input order.\<close>

definition pair_ends :: "nat list list \<Rightarrow> nat \<Rightarrow> nat list" where
  "pair_ends sqs e = map last (filter (\<lambda>s. 2 \<le> length s \<and> butlast s = [e]) sqs)"

lemma allowed_when_sorted:
  assumes "\<forall>e. sorted_wrt (<) (pair_ends sqs e)"
  shows "is_transition_allowed (build sqs) (run (build sqs) p) x \<longleftrightarrow> \<not> completes sqs p x"
proof -
  obtain W where W: "settled sqs W (longest_suffix (trie_words sqs) p) (states (build sqs) ! run (build sqs) p)"
    using run_state by blast
  let ?w = "longest_suffix (trie_words sqs) p" and ?s = "states (build sqs) ! run (build sqs) p"
  have "sorted_wrt (<) (prohibited_next ?s)"
  proof (cases "length ?w = 1")
    case True
    then obtain e where "?w = [e]" by (cases ?w) auto
    then show ?thesis using W assms True by (simp add: settled_def pair_ends_def ends_def)
  qed (use W in \<open>simp add: settled_def\<close>)
  then have "is_transition_allowed (build sqs) (run (build sqs) p) x \<longleftrightarrow> x \<notin> set (prohibited_next ?s)"
    by (simp add: is_transition_allowed_def bs.is_found_mem)
  also have "\<dots> \<longleftrightarrow> match_lens sqs p x = {}"
    using W match_lens_longest[of sqs p x] by (simp add: settled_def)
  finally show ?thesis unfolding match_lens_completes completes_def by blast
qed

text \<open>C16: the automaton is exact. After any path, and for any next edge, the state answers that the
  edge is allowed exactly when no forbidden sequence would be completed by it, provided the
  two-edge sequences of every first edge come in strictly increasing order of their last edge
  (which holds trivially when all sequences have three edges or more).\<close>

theorem automaton_exact:
  assumes "\<forall>e. sorted_wrt (<) (pair_ends sqs e)"
  shows "is_transition_allowed (build sqs) (run (build sqs) p) x \<longleftrightarrow> \<not> completes sqs p x"
  using assms by (rule allowed_when_sorted)

text \<open>C17: when an edge is prohibited the automaton also knows how long the longest completed
  sequence is, and it knows no length otherwise (no assumption on the order of the sequences).\<close>

theorem prohibited_length_exact:
  "prohibited_sequence_len (build sqs) (run (build sqs) p) x =
    (if completes sqs p x
     then Some (Max {length s | s. s \<in> set sqs \<and> 2 \<le> length s \<and> suffix s (p @ [x])}) else None)"
by (rule prohibited_len)

theorem automaton_exact_witness:
  "\<not> is_transition_allowed (build [[1, 2, 3], [2, 4, 1], [2, 3]]) (run (build [[1, 2, 3], [2, 4, 1], [2, 3]]) [7, 1, 2]) 3
   \<and> is_transition_allowed (build [[1, 2, 3], [2, 4, 1], [2, 3]]) (run (build [[1, 2, 3], [2, 4, 1], [2, 3]]) [7, 1, 2]) 4"
proof -
  let ?sqs = "[[1, 2, 3], [2, 4, 1], [2, 3]] :: nat list list"
  have s: "\<forall>e. sorted_wrt (<) (pair_ends ?sqs e)" by (simp add: pair_ends_def)
  have "completes ?sqs [7, 1, 2] 3" "\<not> completes ?sqs [7, 1, 2] 4"
    by (auto simp: completes_def suffix_Cons)
  with automaton_exact[OF s] show ?thesis by blast
qed

text \<open>Whether the order is needed: a binary search that finds every element of a list without
  duplicates has compared each pair of neighbours the right way round, so the list is sorted.\<close>

lemma bs_loop_window: "bs_loop xs k base sz \<in> {base..<base + max sz 1}"
proof (induction xs k base sz rule: bs_loop.induct)
  case (1 xs k base sz)
  show ?case
  proof (cases "sz \<le> 1")
    case True
    then show ?thesis by (simp add: bs_loop.simps[of xs k base sz])
  next
    case False
    then show ?thesis using 1[OF False] by (auto simp: bs_loop.simps[of xs k base sz])
  qed
qed

lemma bs_loop_increasing:
  "i < j \<Longrightarrow> bs_loop xs (xs ! i) base sz = i \<Longrightarrow> bs_loop xs (xs ! j) base sz = j \<Longrightarrow> xs ! i < xs ! j"
proof (induction sz arbitrary: base rule: less_induct)
  case (less sz)
  show ?case
  proof (cases "sz \<le> 1")
    case True
    then have "bs_loop xs k base sz = base" for k by (simp add: bs_loop.simps[of xs k base sz])
    then show ?thesis using less.prems by simp
  next
    case False
    let ?m = "base + sz div 2" and ?n = "sz - sz div 2"
    have n: "?n < sz" using False by simp
    have i: "bs_loop xs (xs ! i) (if xs ! i < xs ! ?m then base else ?m) ?n = i"
      and j: "bs_loop xs (xs ! j) (if xs ! j < xs ! ?m then base else ?m) ?n = j"
      using less.prems(2,3) False by (simp_all add: bs_loop.simps[of xs _ base sz])
    show ?thesis
    proof (cases "xs ! i < xs ! ?m"; cases "xs ! j < xs ! ?m")
      assume "\<not> xs ! i < xs ! ?m" "xs ! j < xs ! ?m"
      then have "?m \<le> i" "j < base + max ?n 1"
        using i j bs_loop_window[of xs "xs ! i" ?m ?n] bs_loop_window[of xs "xs ! j" base ?n] by auto
      then show ?thesis using less.prems(1) False by auto
    qed (use less.IH[OF n less.prems(1)] i j in auto)
  qed
qed

lemma found_all_sorted:
  assumes d: "distinct xs" and f: "\<forall>x\<in>set xs. is_found (binary_search xs x)"
  shows "sorted_wrt (<) xs"
  unfolding sorted_wrt_iff_nth_less
proof (intro allI impI)
  have at: "bs_loop xs (xs ! i) 0 (length xs) = i" if i: "i < length xs" for i
  proof -
    have "is_found (binary_search xs (xs ! i))" using f i by simp
    then have e: "xs ! bs_loop xs (xs ! i) 0 (length xs) = xs ! i"
      using i by (auto simp: binary_search_def Let_def split: if_splits)
    have "bs_loop xs (xs ! i) 0 (length xs) < length xs"
      using bs_loop_window[of xs "xs ! i" 0 "length xs"] i by auto
    then show ?thesis using e d i by (simp add: nth_eq_iff_index_eq)
  qed
  fix i j assume "i < j" "j < length xs"
  then show "xs ! i < xs ! j" using bs_loop_increasing[of i j xs 0 "length xs"] at by simp
qed

lemma pair_list_searched:
  assumes "x \<in> set (pair_ends sqs e)"
  shows "completes sqs [e] x"
    "is_transition_allowed (build sqs) (run (build sqs) [e]) x \<longleftrightarrow> \<not> is_found (binary_search (pair_ends sqs e) x)"
proof -
  obtain s where s: "s \<in> set sqs" "2 \<le> length s" "butlast s = [e]" "last s = x"
    using assms by (auto simp: pair_ends_def)
  then have sx: "s = [e, x]" by (cases s rule: rev_cases) auto
  then show "completes sqs [e] x" using s(1) by (auto simp: completes_def intro!: bexI[of _ s])
  have "[e] \<in> trie_words sqs" using s by (auto simp: trie_words_def intro!: bexI[of _ s])
  then have "longest_suffix (trie_words sqs) [e] = [e]" by (rule longest_suffix_id)
  then obtain W where "settled sqs W [e] (states (build sqs) ! run (build sqs) [e])"
    using run_state[of sqs "[e]"] by auto
  then have "prohibited_next (states (build sqs) ! run (build sqs) [e]) = pair_ends sqs e"
    by (simp add: settled_def ends_def pair_ends_def)
  then show "is_transition_allowed (build sqs) (run (build sqs) [e]) x \<longleftrightarrow> \<not> is_found (binary_search (pair_ends sqs e) x)"
    by (simp add: is_transition_allowed_def)
qed

text \<open>C18: the order assumption of exactness is necessary. When no pair of edges is listed twice, the
  automaton answers right after every path and for every edge if and only if the two-edge sequences
  of each first edge come in increasing order of their last edge: the states of depth one keep
  their prohibited edges in insertion order (only deeper states are sorted), and any list out of
  order makes the binary search miss one of its edges, so that a forbidden turn is reported as
  allowed. (The search is the one of the standard library, as the prelude gives it.)\<close>

theorem automaton_exact_iff_sorted:
  assumes "\<forall>e. distinct (pair_ends sqs e)"
  shows "(\<forall>p x. is_transition_allowed (build sqs) (run (build sqs) p) x \<longleftrightarrow> \<not> completes sqs p x)
    \<longleftrightarrow> (\<forall>e. sorted_wrt (<) (pair_ends sqs e))"
proof
  assume ex: "\<forall>p x. is_transition_allowed (build sqs) (run (build sqs) p) x \<longleftrightarrow> \<not> completes sqs p x"
  have "is_found (binary_search (pair_ends sqs e) x)" if "x \<in> set (pair_ends sqs e)" for e x
    using pair_list_searched[OF that] ex by blast
  then show "\<forall>e. sorted_wrt (<) (pair_ends sqs e)" using found_all_sorted assms by blast
qed (use allowed_when_sorted in blast)

text \<open>With the forbidden turns from edge 1 listed as (1, 5), (1, 3) some answer is wrong.\<close>

theorem automaton_exact_iff_sorted_witness:
  "\<exists>p x. is_transition_allowed (build [[1, 5], [1, 3]]) (run (build [[1, 5], [1, 3]]) p) x
    \<longleftrightarrow> completes [[1, 5], [1, 3]] p x"
proof -
  let ?sqs = "[[1, 5], [1, 3]] :: nat list list"
  have d: "\<forall>e. distinct (pair_ends ?sqs e)" by (simp add: pair_ends_def)
  have "\<not> sorted_wrt (<) (pair_ends ?sqs 1)" by (simp add: pair_ends_def)
  then show ?thesis using automaton_exact_iff_sorted[OF d] by blast
qed

lemma trie_word_letters:
  "(\<exists>w. w @ [e] \<in> trie_words sqs) \<longleftrightarrow> (\<exists>s\<in>set sqs. 2 \<le> length s \<and> e \<in> set (butlast s))"
proof
  assume "\<exists>w. w @ [e] \<in> trie_words sqs"
  then obtain w s where "s \<in> set sqs" "2 \<le> length s" "prefix (w @ [e]) (butlast s)"
    by (auto simp: trie_words_def)
  then show "\<exists>s\<in>set sqs. 2 \<le> length s \<and> e \<in> set (butlast s)"
    using set_mono_prefix by fastforce
next
  assume "\<exists>s\<in>set sqs. 2 \<le> length s \<and> e \<in> set (butlast s)"
  then obtain s where s: "s \<in> set sqs" "2 \<le> length s" "e \<in> set (butlast s)" by blast
  then obtain as bs where "butlast s = as @ e # bs" by (meson split_list)
  then have "prefix (as @ [e]) (butlast s)" by (simp add: prefix_def)
  then show "\<exists>w. w @ [e] \<in> trie_words sqs" using s by (auto simp: trie_words_def)
qed

text \<open>C19: the summary the incremental searches rely on. \<open>sequence_edges\<close> lists exactly the edges that
  occur in a sequence of at least two edges, strictly sorted.\<close>

theorem sequence_edges_exact:
  "set (sequence_edges (build sqs)) = \<Union> {set s | s. s \<in> set sqs \<and> 2 \<le> length s}
   \<and> sorted_wrt (<) (sequence_edges (build sqs))"
proof
  show "sorted_wrt (<) (sequence_edges (build sqs))"
    by (simp add: sequence_edges_def sort_dedup_strict)
  obtain W where wt: "word_trie (states (build sqs)) W" and S: "set W = trie_words sqs"
    and d: "\<forall>i<length (states (build sqs)). settled sqs W (W ! i) (states (build sqs) ! i)"
    using build_settled[of sqs] by blast
  let ?st = "states (build sqs)"
  have "e \<in> set (sequence_edges (build sqs)) \<longleftrightarrow> (\<exists>s\<in>set sqs. 2 \<le> length s \<and> e \<in> set s)" for e
  proof -
    have "e \<in> set (sequence_edges (build sqs)) \<longleftrightarrow>
        (\<exists>t\<in>set ?st. e \<in> fst ` set (transitions t) \<or> e \<in> set (prohibited_next t))"
      by (simp add: sequence_edges_def)
    also have "\<dots> \<longleftrightarrow> (\<exists>i<length ?st. e \<in> fst ` set (transitions (?st ! i)) \<or> e \<in> set (prohibited_next (?st ! i)))"
      by (metis in_set_conv_nth)
    also have "\<dots> \<longleftrightarrow> (\<exists>i<length ?st. W ! i @ [e] \<in> trie_words sqs \<or> match_lens sqs (W ! i) e \<noteq> {})"
    proof -
      have "e \<in> fst ` set (transitions (?st ! i)) \<longleftrightarrow> W ! i @ [e] \<in> trie_words sqs" if "i < length ?st" for i
        using word_trieD(8)[OF wt that, of e] S by (simp add: map_of_eq_None_iff)
      moreover have "e \<in> set (prohibited_next (?st ! i)) \<longleftrightarrow> match_lens sqs (W ! i) e \<noteq> {}"
        if "i < length ?st" for i
        using d that by (simp add: settled_def)
      ultimately show ?thesis by blast
    qed
    also have "\<dots> \<longleftrightarrow> (\<exists>w\<in>trie_words sqs. w @ [e] \<in> trie_words sqs \<or> match_lens sqs w e \<noteq> {})"
      unfolding S[symmetric] using word_trieD(1)[OF wt] by (metis in_set_conv_nth)
    also have "\<dots> \<longleftrightarrow> (\<exists>s\<in>set sqs. 2 \<le> length s \<and> e \<in> set s)"
    proof -
      have "(\<exists>w\<in>trie_words sqs. w @ [e] \<in> trie_words sqs) \<longleftrightarrow> (\<exists>w. w @ [e] \<in> trie_words sqs)"
        using prefix_closed_trie[of sqs] unfolding prefix_closed_def by blast
      moreover have "(\<exists>w\<in>trie_words sqs. match_lens sqs w e \<noteq> {})
          \<longleftrightarrow> (\<exists>s\<in>set sqs. 2 \<le> length s \<and> last s = e)"
      proof
        assume "\<exists>s\<in>set sqs. 2 \<le> length s \<and> last s = e"
        then obtain s where s: "s \<in> set sqs" "2 \<le> length s" "last s = e" by blast
        then have "butlast s \<in> trie_words sqs" "match_lens sqs (butlast s) e \<noteq> {}"
          by (auto simp: trie_words_def match_lens_def)
        then show "\<exists>w\<in>trie_words sqs. match_lens sqs w e \<noteq> {}" by blast
      qed (auto simp: match_lens_def)
      moreover have "e \<in> set s \<longleftrightarrow> e \<in> set (butlast s) \<or> last s = e" if "2 \<le> length s" for s
        using that by (cases s rule: rev_cases) auto
      ultimately show ?thesis using trie_word_letters[of e sqs] by blast
    qed
    finally show ?thesis .
  qed
  then show "set (sequence_edges (build sqs)) = \<Union> {set s | s. s \<in> set sqs \<and> 2 \<le> length s}"
    by blast
qed

end
