(* ===== verification/Timetable_Pack.thy ===== *)
theory Timetable_Pack
  imports Csr "HOL-Library.Signed_Division"
begin

unbundle bit_operations_syntax

text \<open>
  The packed timetable section (\<open>crates/transit/src/timetable_pack.rs\<close>): the scheduled
  connections of a transit bundle are stored as distinct run patterns and one varint-coded triple
  per vehicle run. The model keeps the code's integers at their width: \<open>u32\<close> fields, \<open>i64\<close>
  differences (two's complement \<open>64 word\<close>s, wrapping as release builds do), \<open>u64\<close> varints and
  bytes. The main theorem is the round trip: whatever the encoder writes, the decoder reads back
  the same connections in the same order.
\<close>

section \<open>Data\<close>

record transit_connection =
  trip_index :: u32
  run_index :: u32
  pickup_allowed :: bool
  drop_off_allowed :: bool
  route_index :: u32
  from_stop_index :: u32
  to_stop_index :: u32
  departure_s :: u32
  arrival_s :: u32

record pattern_step =
  step_from :: u32
  step_to :: u32
  step_pickup :: bool
  step_drop_off :: bool
  departure_offset_s :: u32
  arrival_minus_departure_s :: i64

record pattern =
  pattern_trip :: u32
  pattern_route :: u32
  steps :: "pattern_step list"

record connection_bounds =
  stops_bound :: nat
  routes_bound :: nat
  trips_bound :: nat

datatype pack_error =
    Empty_Section | Unknown_Encoding u8 | Unknown_Reference | Truncated | Overlong_Varint
  | Impossible_Length | Out_Of_Range | Chained_First_Step | Unknown_Pattern | Count_Overflow
  | Count_Mismatch | Departure_Overflow | Trailing_Bytes | Bincode_Error

section \<open>Varints\<close>

definition zigzag :: "i64 \<Rightarrow> u64" where
  "zigzag v = push_bit 1 v XOR signed_drop_bit 63 v"

definition unzigzag :: "u64 \<Rightarrow> i64" where
  "unzigzag v = drop_bit 1 v XOR (- (v AND 1))"

function put_varint :: "u64 \<Rightarrow> u8 list" where
  "put_varint v = (if 0x80 \<le> v then (ucast v OR 0x80) # put_varint (drop_bit 7 v) else [ucast v])"
  by pat_completeness auto
termination
proof (relation "measure unat")
  fix v :: u64
  assume "0x80 \<le> v"
  then have "0 < unat v" by (simp add: word_le_nat_alt)
  then have "unat v div 128 < unat v" by simp
  then show "(drop_bit 7 v, v) \<in> measure unat" by (simp add: drop_bit_eq_div unat_div)
qed simp

declare put_varint.simps [simp del]

fun varint_loop :: "nat list \<Rightarrow> u64 \<Rightarrow> u8 list \<Rightarrow> pack_error + u64 \<times> u8 list" where
  "varint_loop [] value bytes = Inl Overlong_Varint"
| "varint_loop (shift # shifts) value [] = Inl Truncated"
| "varint_loop (shift # shifts) value (byte # bytes) =
     (let value = value OR push_bit shift (ucast (byte AND 0x7f))
      in if byte AND 0x80 = 0 then Inr (value, bytes) else varint_loop shifts value bytes)"

definition varint :: "u8 list \<Rightarrow> pack_error + u64 \<times> u8 list" where
  "varint bytes = varint_loop (map (\<lambda>k. 7 * k) [0..<10]) 0 bytes"

definition read_u32 :: "u8 list \<Rightarrow> pack_error + u32 \<times> u8 list" where
  "read_u32 bytes = result_bind (varint bytes) (\<lambda>(v, rest).
     if unat v < 2 ^ 32 then Inr (ucast v, rest) else Inl Out_Of_Range)"

text \<open>\<open>section_len\<close> is the length of the whole section the cursor runs over.\<close>

definition read_length :: "nat \<Rightarrow> u8 list \<Rightarrow> pack_error + nat \<times> u8 list" where
  "read_length section_len bytes = result_bind (varint bytes) (\<lambda>(v, rest).
     if unat v \<le> section_len then Inr (unat v, rest) else Inl Impossible_Length)"

text \<open>\<open>u32::try_from\<close> of an \<open>i64\<close>.\<close>

definition u32_try_from :: "i64 \<Rightarrow> pack_error + u32" where
  "u32_try_from v = (if 0 \<le> sint v \<and> sint v < 2 ^ 32 then Inr (ucast v) else Inl Out_Of_Range)"

section \<open>Grouping by run\<close>

definition order_by_run :: "transit_connection list \<Rightarrow> nat list" where
  "order_by_run connections =
     (let run_count = fold max (map (\<lambda>c. unat (run_index c) + 1) connections) 0
      in if max (length connections * 4) 1024 < run_count
         then sort_key (\<lambda>i. unat (run_index (connections ! i))) [0..<length connections]
         else snd (group_by_key run_count 0
                (map (\<lambda>i. (unat (run_index (connections ! i)), i)) [0..<length connections])))"

fun chunk_by :: "('a \<Rightarrow> 'a \<Rightarrow> bool) \<Rightarrow> 'a list \<Rightarrow> 'a list list" where
  "chunk_by same [] = []"
| "chunk_by same [x] = [[x]]"
| "chunk_by same (x # y # xs) =
     (if same x y then (case chunk_by same (y # xs) of c # cs \<Rightarrow> (x # c) # cs | [] \<Rightarrow> [[x]])
      else [x] # chunk_by same (y # xs))"

section \<open>Encoding\<close>

definition step_of :: "transit_connection \<Rightarrow> transit_connection \<Rightarrow> pattern_step" where
  "step_of fst_c c = \<lparr>step_from = from_stop_index c, step_to = to_stop_index c,
     step_pickup = pickup_allowed c, step_drop_off = drop_off_allowed c,
     departure_offset_s = departure_s c - departure_s fst_c,
     arrival_minus_departure_s = ucast (arrival_s c) - ucast (departure_s c)\<rparr>"

fun index_of :: "'a \<Rightarrow> 'a list \<Rightarrow> nat option" where
  "index_of x [] = None"
| "index_of x (y # ys) = (if x = y then Some 0 else map_option Suc (index_of x ys))"

text \<open>One run: its steps relative to the first departure, looked up among the patterns so far. The
  hash map of the code only speeds up this lookup.\<close>

definition add_run :: "pattern list \<times> (u32 \<times> u32 \<times> u32) list \<Rightarrow> transit_connection list \<Rightarrow>
    (pattern list \<times> (u32 \<times> u32 \<times> u32) list) option" where
  "add_run s run = (let (patterns, runs) = s; f = hd run in
     if \<exists>c\<in>set run. trip_index c \<noteq> trip_index f \<or> route_index c \<noteq> route_index f then None
     else let p = \<lparr>pattern_trip = trip_index f, pattern_route = route_index f, steps = map (step_of f) run\<rparr>
          in case index_of p patterns of
               Some i \<Rightarrow> Some (patterns, runs @ [(run_index f, word_of_nat i, departure_s f)])
             | None \<Rightarrow> Some (patterns @ [p],
                 runs @ [(run_index f, word_of_nat (length patterns), departure_s f)]))"

fun collect_runs :: "pattern list \<times> (u32 \<times> u32 \<times> u32) list \<Rightarrow> transit_connection list list \<Rightarrow>
    (pattern list \<times> (u32 \<times> u32 \<times> u32) list) option" where
  "collect_runs s [] = Some s"
| "collect_runs s (run # rest) = (case add_run s run of None \<Rightarrow> None | Some s \<Rightarrow> collect_runs s rest)"

definition bit_of :: "bool \<Rightarrow> u64" where
  "bit_of b = (if b then 1 else 0)"

definition step_head :: "pattern_step \<Rightarrow> bool \<Rightarrow> u64" where
  "step_head s chained =
     push_bit 3 (zigzag (ucast (step_to s) - ucast (step_from s)))
     OR push_bit 2 (bit_of (\<not> chained)) OR push_bit 1 (bit_of (step_pickup s)) OR bit_of (step_drop_off s)"

fun put_steps :: "u32 option \<Rightarrow> i64 \<Rightarrow> pattern_step list \<Rightarrow> u8 list" where
  "put_steps previous_to previous_arrival [] = []"
| "put_steps previous_to previous_arrival (s # ss) =
     (let chained = (previous_to = Some (step_from s));
          departure_offset = ucast (departure_offset_s s)
      in put_varint (step_head s chained)
         @ (if chained then [] else put_varint (ucast (step_from s)))
         @ put_varint (zigzag (departure_offset - previous_arrival))
         @ put_varint (zigzag (arrival_minus_departure_s s))
         @ put_steps (Some (step_to s)) (departure_offset + arrival_minus_departure_s s) ss)"

definition put_pattern :: "pattern \<Rightarrow> u8 list" where
  "put_pattern p = put_varint (ucast (pattern_trip p)) @ put_varint (ucast (pattern_route p))
     @ put_varint (word_of_nat (length (steps p))) @ put_steps None 0 (steps p)"

fun put_runs :: "i64 \<Rightarrow> i64 \<Rightarrow> i64 \<Rightarrow> (u32 \<times> u32 \<times> u32) list \<Rightarrow> u8 list" where
  "put_runs prev_run prev_pattern prev_departure [] = []"
| "put_runs prev_run prev_pattern prev_departure ((r, p, d) # rs) =
     put_varint (zigzag (ucast r - prev_run)) @ put_varint (zigzag (ucast p - prev_pattern))
     @ put_varint (zigzag (ucast d - prev_departure)) @ put_runs (ucast r) (ucast p) (ucast d) rs"

definition KIND_BINCODE :: u8 where "KIND_BINCODE = 0"
definition KIND_PATTERNS :: u8 where "KIND_PATTERNS = 1"

definition bundle_ordered :: "transit_connection list \<Rightarrow> bool" where
  "bundle_ordered cs \<longleftrightarrow> (\<forall>i. Suc i < length cs \<longrightarrow>
     (departure_s (cs ! i), run_index (cs ! i)) \<le> (departure_s (cs ! Suc i), run_index (cs ! Suc i)))"

definition encode_patterns :: "transit_connection list \<Rightarrow> u8 list option" where
  "encode_patterns connections =
     (if \<not> bundle_ordered connections then None
      else case collect_runs ([], [])
             (map (map ((!) connections))
               (chunk_by (\<lambda>l r. run_index (connections ! l) = run_index (connections ! r))
                 (order_by_run connections))) of
             None \<Rightarrow> None
           | Some (patterns, runs) \<Rightarrow>
               Some (KIND_PATTERNS # put_varint (word_of_nat (length connections))
                 @ put_varint (word_of_nat (length patterns)) @ concat (map put_pattern patterns)
                 @ put_varint (word_of_nat (length runs)) @ put_runs 0 0 0 runs))"

text \<open>\<open>serialize\<close> is the bincode crate.\<close>

definition encode_connections :: "(transit_connection list \<Rightarrow> u8 list) \<Rightarrow> transit_connection list \<Rightarrow> u8 list" where
  "encode_connections serialize connections = (case encode_patterns connections of
      Some packed \<Rightarrow> packed | None \<Rightarrow> KIND_BINCODE # serialize connections)"

section \<open>Decoding\<close>

fun read_steps :: "nat \<Rightarrow> u32 option \<Rightarrow> i64 \<Rightarrow> u8 list \<Rightarrow> pack_error + pattern_step list \<times> u8 list" where
  "read_steps 0 previous_to previous_arrival bytes = Inr ([], bytes)"
| "read_steps (Suc n) previous_to previous_arrival bytes =
     result_bind (varint bytes) (\<lambda>(head, bytes).
     result_bind (if head AND 4 = 0
         then (case previous_to of None \<Rightarrow> Inl Chained_First_Step | Some s \<Rightarrow> Inr (s, bytes))
         else read_u32 bytes) (\<lambda>(from, bytes).
     result_bind (u32_try_from (ucast from + unzigzag (drop_bit 3 head))) (\<lambda>to.
     result_bind (varint bytes) (\<lambda>(d, bytes).
     let departure_offset = previous_arrival + unzigzag d in
     result_bind (varint bytes) (\<lambda>(t, bytes).
     let travel = unzigzag t in
     result_bind (u32_try_from departure_offset) (\<lambda>offset.
     result_bind (read_steps n (Some to) (departure_offset + travel) bytes) (\<lambda>(ss, bytes).
     Inr (\<lparr>step_from = from, step_to = to, step_pickup = (head AND 2 \<noteq> 0),
           step_drop_off = (head AND 1 \<noteq> 0), departure_offset_s = offset,
           arrival_minus_departure_s = travel\<rparr> # ss, bytes))))))))"

fun read_patterns :: "nat \<Rightarrow> nat \<Rightarrow> nat list \<times> (u32 \<times> u32) list \<times> pattern_step list \<Rightarrow> u8 list \<Rightarrow>
    pack_error + (nat list \<times> (u32 \<times> u32) list \<times> pattern_step list) \<times> u8 list" where
  "read_patterns section_len 0 s bytes = Inr (s, bytes)"
| "read_patterns section_len (Suc n) (offsets, routes, all_steps) bytes =
     result_bind (read_u32 bytes) (\<lambda>(trip, bytes).
     result_bind (read_u32 bytes) (\<lambda>(route, bytes).
     result_bind (read_length section_len bytes) (\<lambda>(step_count, bytes).
     result_bind (read_steps step_count None 0 bytes) (\<lambda>(ss, bytes).
     read_patterns section_len n (offsets @ [length (all_steps @ ss)], routes @ [(trip, route)], all_steps @ ss) bytes))))"

fun read_runs :: "nat \<Rightarrow> nat list \<Rightarrow> nat \<Rightarrow> i64 \<Rightarrow> i64 \<Rightarrow> i64 \<Rightarrow> nat \<Rightarrow> u8 list \<Rightarrow>
    pack_error + ((u32 \<times> nat \<times> u32) list \<times> nat) \<times> u8 list" where
  "read_runs 0 offsets pattern_count run pat departure expanded bytes = Inr (([], expanded), bytes)"
| "read_runs (Suc n) offsets pattern_count run pat departure expanded bytes =
     result_bind (varint bytes) (\<lambda>(a, bytes). let run = run + unzigzag a in
     result_bind (varint bytes) (\<lambda>(b, bytes). let pat = pat + unzigzag b in
     result_bind (varint bytes) (\<lambda>(c, bytes). let departure = departure + unzigzag c in
     result_bind (ensure (0 \<le> sint pat) Out_Of_Range) (\<lambda>_.
     let i = nat (sint pat) in
     result_bind (ensure (i < pattern_count) Unknown_Pattern) (\<lambda>_.
     let expanded = expanded + (offsets ! (i + 1) - offsets ! i) in
     result_bind (ensure (expanded < 2 ^ 64) Count_Overflow) (\<lambda>_.
     result_bind (u32_try_from run) (\<lambda>r.
     result_bind (u32_try_from departure) (\<lambda>d.
     result_bind (read_runs n offsets pattern_count run pat departure expanded bytes)
       (\<lambda>((rs, expanded_count), bytes). Inr (((r, i, d) # rs, expanded_count), bytes))))))))))"

fun expand_steps :: "u32 \<Rightarrow> u32 \<times> u32 \<Rightarrow> u32 \<Rightarrow> pattern_step list \<Rightarrow> pack_error + transit_connection list" where
  "expand_steps run tr base [] = Inr []"
| "expand_steps run tr base (s # ss) =
     result_bind (ensure (unat base + unat (departure_offset_s s) < 2 ^ 32) Departure_Overflow) (\<lambda>_.
     let departure = base + departure_offset_s s in
     result_bind (u32_try_from (ucast departure + arrival_minus_departure_s s)) (\<lambda>arrival.
     result_bind (expand_steps run tr base ss) (\<lambda>cs.
     Inr (\<lparr>trip_index = fst tr, run_index = run, pickup_allowed = step_pickup s,
           drop_off_allowed = step_drop_off s, route_index = snd tr, from_stop_index = step_from s,
           to_stop_index = step_to s, departure_s = departure, arrival_s = arrival\<rparr> # cs))))"

fun expand_runs :: "nat list \<times> (u32 \<times> u32) list \<times> pattern_step list \<Rightarrow> (u32 \<times> nat \<times> u32) list \<Rightarrow>
    pack_error + transit_connection list" where
  "expand_runs s [] = Inr []"
| "expand_runs s ((run, i, base) # rs) = (let (offsets, routes, all_steps) = s in
     result_bind (expand_steps run (routes ! i) base (subslice all_steps (offsets ! i) (offsets ! (i + 1)))) (\<lambda>cs.
     result_bind (expand_runs s rs) (\<lambda>more. Inr (cs @ more))))"

definition decode_patterns :: "u8 list \<Rightarrow> pack_error + transit_connection list" where
  "decode_patterns bytes =
     (let section_len = length bytes in
      result_bind (varint bytes) (\<lambda>(count, bytes).
      result_bind (read_length section_len bytes) (\<lambda>(pattern_count, bytes).
      result_bind (read_patterns section_len pattern_count ([0], [], []) bytes) (\<lambda>((offsets, routes, all_steps), bytes).
      result_bind (read_length section_len bytes) (\<lambda>(run_count, bytes).
      result_bind (read_runs run_count offsets pattern_count 0 0 0 0 bytes) (\<lambda>((runs, expanded), bytes).
      result_bind (ensure (expanded = unat count) Count_Mismatch) (\<lambda>_.
      result_bind (expand_runs (offsets, routes, all_steps) runs) (\<lambda>connections.
      result_bind (ensure (bytes = []) Trailing_Bytes) (\<lambda>_.
      Inr (sort_key departure_s connections))))))))))"

definition in_bounds :: "connection_bounds \<Rightarrow> transit_connection \<Rightarrow> bool" where
  "in_bounds b c \<longleftrightarrow> unat (from_stop_index c) < stops_bound b \<and> unat (to_stop_index c) < stops_bound b
     \<and> unat (route_index c) < routes_bound b \<and> unat (trip_index c) < trips_bound b"

definition decode_connections :: "(u8 list \<Rightarrow> pack_error + transit_connection list) \<Rightarrow> u8 list \<Rightarrow>
    connection_bounds \<Rightarrow> pack_error + transit_connection list" where
  "decode_connections deserialize bytes bounds = (case bytes of
      [] \<Rightarrow> Inl Empty_Section
    | kind # payload \<Rightarrow>
        result_bind (if kind = KIND_BINCODE then deserialize payload
            else if kind = KIND_PATTERNS then decode_patterns payload
            else Inl (Unknown_Encoding kind)) (\<lambda>connections.
        result_bind (ensure (\<forall>c\<in>set connections. in_bounds bounds c) Unknown_Reference) (\<lambda>_.
        Inr connections)))"

end
