(* ===== verification/Timetable_Codec.thy ===== *)
theory Timetable_Codec
  imports Timetable_Pack
begin

unbundle bit_operations_syntax

text \<open>
  The round trip of the packed timetable. A reader and its writer form a codec when the reader,
  applied to what the writer produced followed by anything, returns the value and the rest; the
  locale \<open>codec\<close> states this contract and is interpreted on every varint field of the format.
\<close>

section \<open>Codecs\<close>

locale codec =
  fixes put :: "'a \<Rightarrow> u8 list" and get :: "u8 list \<Rightarrow> pack_error + 'a \<times> u8 list" and valid :: "'a \<Rightarrow> bool"
  assumes get_put: "valid x \<Longrightarrow> get (put x @ rest) = Inr (x, rest)"
    and put_nonempty: "put x \<noteq> []"
begin

lemma get_put_end: "valid x \<Longrightarrow> get (put x) = Inr (x, [])"
  using get_put[of x "[]"] by simp

lemma put_inject: "valid x \<Longrightarrow> valid y \<Longrightarrow> put x = put y \<Longrightarrow> x = y"
  by (metis get_put_end Inr_inject prod.inject)

lemma put_length: "1 \<le> length (put x)"
proof -
  have "0 < length (put x)" using put_nonempty[of x] unfolding length_greater_0_conv .
  then show ?thesis by linarith
qed

end

section \<open>Zigzag\<close>

lemma bit_zigzag:
  "i < 64 \<Longrightarrow> bit (zigzag v) i \<longleftrightarrow> (if i = 0 then bit v 63 else bit v (i - 1) \<noteq> bit v 63)"
  unfolding zigzag_def bit_xor_iff bit_push_bit_iff bit_signed_drop_bit_iff by auto

lemma bit_unzigzag: "i < 64 \<Longrightarrow> bit (unzigzag v) i \<longleftrightarrow> (i < 63 \<and> bit v (i + 1)) \<noteq> bit v 0"
proof -
  assume i: "i < 64"
  have "v AND 1 = of_bool (bit v 0)"
    by (simp add: and_one_eq mod_2_eq_odd bit_0)
  then have "bit (- (v AND 1)) i \<longleftrightarrow> bit v 0" using i by (cases "bit v 0") simp_all
  moreover have "bit (drop_bit 1 v) i \<longleftrightarrow> i < 63 \<and> bit v (i + 1)"
    using i bit_imp_le_length[of v "Suc i"] by (auto simp: bit_drop_bit_eq)
  ultimately show ?thesis by (simp add: unzigzag_def bit_xor_iff)
qed

lemma unzigzag_zigzag [simp]: "unzigzag (zigzag v) = v"
proof (rule bit_word_eqI)
  fix i assume "i < LENGTH(64)"
  then have i: "i < 64" by simp
  then show "bit (unzigzag (zigzag v)) i \<longleftrightarrow> bit v i"
    using bit_zigzag[of 0 v] bit_zigzag[of "i + 1" v]
    by (cases "i = 63") (auto simp: bit_unzigzag)
qed

lemma zigzag_bound:
  assumes "- (2 ^ 32) < sint v" "sint v < 2 ^ 32"
  shows "drop_bit 61 (zigzag v) = 0"
proof (rule bit_word_eqI)
  fix i assume "i < LENGTH(64)"
  have top: "bit v k \<longleftrightarrow> bit v 63" if "32 \<le> k" "k < 64" for k
  proof -
    have "bit v k \<longleftrightarrow> bit (sint v) k" using that by (simp add: bit_sint_iff)
    also have "\<dots> \<longleftrightarrow> sint v < 0"
    proof (cases "0 \<le> sint v")
      case True
      then have "sint v < 2 ^ k" using assms(2) that power_increasing[of 32 k "2::int"] by linarith
      then show ?thesis using True by (simp add: bit_iff_odd)
    next
      case False
      have "- (2 ^ k) \<le> sint v" using assms(1) that power_increasing[of 32 k "2::int"] by linarith
      then have "sint v div 2 ^ k = - 1"
        using False by (intro int_div_pos_eq[where r = "sint v + 2 ^ k"]) auto
      then show ?thesis using False by (simp add: bit_iff_odd)
    qed
    finally show ?thesis by (simp add: bit_sint_iff flip: bit_last_iff)
  qed
  have "\<not> bit (zigzag v) (61 + i)"
  proof (cases "61 + i < 64")
    case True
    then show ?thesis using bit_zigzag[of "61 + i" v] top[of "60 + i"] by simp
  next
    case False
    then show ?thesis using bit_imp_le_length[of "zigzag v" "61 + i"] by auto
  qed
  then show "bit (drop_bit 61 (zigzag v)) i \<longleftrightarrow> bit (0 :: u64) i"
    by (simp add: bit_drop_bit_eq)
qed

section \<open>Varints\<close>

lemma low_seven: "bit ((ucast (v :: u64) OR 0x80 :: u8) AND 0x7f) k \<longleftrightarrow> k < 7 \<and> bit v k"
proof -
  have "(0x7f :: u8) = mask 7" by (simp add: mask_eq_exp_minus_1)
  then have a: "bit (0x7f :: u8) k \<longleftrightarrow> k < 7" by (simp only: bit_mask_iff) auto
  have "(0x80 :: u8) = push_bit 7 1" by simp
  then have b: "bit (0x80 :: u8) k \<longleftrightarrow> k = 7" by (simp only: bit_push_bit_iff bit_1_iff) auto
  show ?thesis unfolding bit_and_iff bit_or_iff a b bit_ucast_iff by auto
qed

lemma varint_step:
  fixes v :: u64
  assumes "s + 7 < 64"
  shows "push_bit s (ucast ((ucast v OR 0x80 :: u8) AND 0x7f)) OR push_bit (s + 7) (drop_bit 7 v)
    = push_bit s v"
proof (rule bit_word_eqI)
  fix i assume "i < LENGTH(64)"
  then have i: "i < 64" by simp
  have l: "bit (push_bit s (ucast ((ucast v OR 0x80 :: u8) AND 0x7f) :: u64)) i
      \<longleftrightarrow> s \<le> i \<and> i < s + 7 \<and> bit v (i - s)"
    unfolding bit_push_bit_iff bit_ucast_iff low_seven using i by auto
  have r: "bit (push_bit (s + 7) (drop_bit 7 v)) i \<longleftrightarrow> s + 7 \<le> i \<and> bit v (i - s)"
    unfolding bit_push_bit_iff bit_drop_bit_eq comp_def using i by auto
  show "bit (push_bit s (ucast ((ucast v OR 0x80 :: u8) AND 0x7f)) OR push_bit (s + 7) (drop_bit 7 v)) i
      \<longleftrightarrow> bit (push_bit s v) i"
    unfolding bit_or_iff l r unfolding bit_push_bit_iff using i by auto
qed

lemma small_drop: "v < 0x80 \<Longrightarrow> drop_bit 7 (v :: u64) = 0"
proof -
  assume "v < 0x80"
  then have "unat v < 128" by (simp add: word_less_nat_alt)
  then have "unat (drop_bit 7 v) = 0" by (simp add: drop_bit_eq_div unat_div)
  then show ?thesis by (simp only: unat_eq_zero)
qed

lemma large_drop: "0x80 \<le> v \<Longrightarrow> drop_bit 7 (v :: u64) \<noteq> 0"
proof
  assume "0x80 \<le> v" "drop_bit 7 v = 0"
  then have "128 \<le> unat v" "unat v div 128 = 0"
    by (simp_all add: word_le_nat_alt drop_bit_eq_div unat_div flip: unat_eq_zero)
  then show False by simp
qed

lemma small_bits: "drop_bit 7 (v :: u64) = 0 \<Longrightarrow> bit v k \<Longrightarrow> k < 7"
proof (rule ccontr)
  assume "drop_bit 7 v = 0" "bit v k" "\<not> k < 7"
  from \<open>bit v k\<close> \<open>\<not> k < 7\<close> have "bit (drop_bit 7 v) (k - 7)" by (simp add: bit_drop_bit_eq)
  with \<open>drop_bit 7 v = 0\<close> have "bit (0 :: u64) (k - 7)" by (simp only:)
  then show False by simp
qed

lemma last_byte:
  fixes v :: u64
  assumes "drop_bit 7 v = 0"
  shows "(ucast v :: u8) AND 0x80 = 0" "ucast ((ucast v :: u8) AND 0x7f) = v"
proof -
  have "(0x7f :: u8) = mask 7" by (simp add: mask_eq_exp_minus_1)
  then have a: "bit (0x7f :: u8) k \<longleftrightarrow> k < 7" for k by (simp only: bit_mask_iff) auto
  have "(0x80 :: u8) = push_bit 7 1" by simp
  then have b: "bit (0x80 :: u8) k \<longleftrightarrow> k = 7" for k by (simp only: bit_push_bit_iff bit_1_iff) auto
  show "(ucast v :: u8) AND 0x80 = 0"
    by (rule bit_word_eqI) (unfold bit_and_iff b bit_ucast_iff, auto dest: small_bits[OF assms])
  show "ucast ((ucast v :: u8) AND 0x7f) = v"
    by (rule bit_word_eqI) (unfold bit_and_iff a bit_ucast_iff, auto dest: small_bits[OF assms])
qed

lemma more_byte: "(ucast (v :: u64) OR 0x80 :: u8) AND 0x80 \<noteq> 0"
proof -
  have "(0x80 :: u8) = push_bit 7 1" by simp
  then have "bit (0x80 :: u8) 7" by (simp only: bit_push_bit_iff bit_1_iff) auto
  then have "bit ((ucast v OR 0x80 :: u8) AND 0x80) 7" by (simp only: bit_and_iff bit_or_iff) simp
  then show ?thesis by auto
qed

lemma varint_loop_put:
  "a < 10 \<Longrightarrow> drop_bit (64 - 7 * a) v = 0 \<Longrightarrow>
    varint_loop (map (\<lambda>k. 7 * k) [a..<10]) acc (put_varint v @ rest) = Inr (acc OR push_bit (7 * a) v, rest)"
proof (induction v arbitrary: a acc rule: put_varint.induct)
  case (1 v)
  have sh: "map (\<lambda>k. 7 * k) [a..<10] = 7 * a # map (\<lambda>k. 7 * k) [Suc a..<10]"
    using "1.prems"(1) by (simp add: upt_conv_Cons)
  show ?case
  proof (cases "0x80 \<le> v")
    case True
    have a9: "Suc a < 10"
    proof (rule ccontr)
      assume "\<not> Suc a < 10"
      then have "a = 9" using "1.prems"(1) by simp
      then have "drop_bit 6 (drop_bit 1 v) = 0" using "1.prems"(2) by simp
      then show False using large_drop[OF True] by simp
    qed
    then have "7 * a + 7 \<le> 63" by simp
    then have d: "drop_bit (64 - 7 * Suc a) (drop_bit 7 v) = 0"
      using "1.prems"(2) by (simp add: drop_bit_drop_bit)
    have "put_varint v = (ucast v OR 0x80) # put_varint (drop_bit 7 v)"
      using True by (simp add: put_varint.simps)
    then have "varint_loop (map (\<lambda>k. 7 * k) [a..<10]) acc (put_varint v @ rest)
      = Inr ((acc OR push_bit (7 * a) (ucast ((ucast v OR 0x80 :: u8) AND 0x7f)))
          OR push_bit (7 * Suc a) (drop_bit 7 v), rest)"
      using "1.IH"[OF True a9 d] by (simp add: sh Let_def more_byte)
    also have "\<dots> = Inr (acc OR push_bit (7 * a) v, rest)"
      using varint_step[of "7 * a" v] \<open>7 * a + 7 \<le> 63\<close> by (simp add: or.assoc add.commute)
    finally show ?thesis .
  next
    case False
    then have d: "drop_bit 7 v = 0" by (intro small_drop) simp
    have "put_varint v = [ucast v]" using False by (subst put_varint.simps) simp
    then show ?thesis using last_byte[OF d] by (simp add: sh Let_def)
  qed
qed

lemma varint_put: "varint (put_varint v @ rest) = Inr (v, rest)"
proof -
  have "drop_bit 64 v = 0" by (rule bit_word_eqI) (simp add: bit_drop_bit_eq bit_imp_le_length)
  then show ?thesis using varint_loop_put[of 0 v 0 rest] by (simp add: varint_def)
qed

lemma put_varint_nonempty: "put_varint v \<noteq> []"
  by (subst put_varint.simps) simp

interpretation vi: codec put_varint varint "\<lambda>_. True"
  by unfold_locales (simp_all add: varint_put put_varint_nonempty)

interpretation vu: codec "\<lambda>x. put_varint (ucast x)" read_u32 "\<lambda>_. True"
proof
  fix x :: u32 and rest
  have "unat (ucast x :: u64) = unat x" using unsigned_less[of x, where ?'a = nat]
    by (simp add: unsigned_ucast_eq take_bit_nat_eq_self)
  then have "unat (ucast x :: u64) < 2 ^ 32" using unsigned_less[of x, where ?'a = nat] by simp
  moreover have "ucast (ucast x :: u64) = x" by (simp add: ucast_up_ucast is_up)
  ultimately show "read_u32 (put_varint (ucast x) @ rest) = Inr (x, rest)"
    by (simp add: read_u32_def varint_put)
qed (simp add: put_varint_nonempty)

interpretation vl: codec "\<lambda>n. put_varint (word_of_nat n)" "read_length section_len"
  "\<lambda>n. n \<le> section_len \<and> n < 2 ^ 64" for section_len
proof
  fix n rest assume n: "n \<le> section_len \<and> n < 2 ^ 64"
  then have "unat (word_of_nat n :: u64) = n" by (simp add: unat_of_nat take_bit_nat_eq_self)
  then show "read_length section_len (put_varint (word_of_nat n) @ rest) = Inr (n, rest)"
    using n by (simp add: read_length_def varint_put)
qed (simp add: put_varint_nonempty)

lemma sint_ucast_u32: "sint (ucast (x :: u32) :: i64) = uint x"
proof -
  have "- 9223372036854775808 \<le> uint x" using uint_ge_0[of x] by linarith
  then show ?thesis using uint_lt2p[of x]
    by (simp add: signed_ucast_eq signed_take_bit_int_eq_self_iff)
qed

lemma u32_try_from_ucast [simp]: "u32_try_from (ucast (x :: u32)) = Inr x"
proof -
  have "ucast (ucast x :: i64) = x" by (simp add: ucast_up_ucast is_up)
  then show ?thesis using uint_lt2p[of x] uint_ge_0[of x] by (simp add: u32_try_from_def sint_ucast_u32)
qed

section \<open>Steps\<close>

lemma difference_bounds:
  fixes a b :: u32
  shows "- 4294967296 < uint a - uint b" "uint a - uint b < 4294967296"
    "- 9223372036854775808 \<le> uint a - uint b" "uint a - uint b < 9223372036854775808"
proof -
  have "uint a < 4294967296" "uint b < 4294967296" using uint_lt2p[of a] uint_lt2p[of b] by simp_all
  then show "- 4294967296 < uint a - uint b" "uint a - uint b < 4294967296"
    "- 9223372036854775808 \<le> uint a - uint b" "uint a - uint b < 9223372036854775808"
    using uint_ge_0[of a] uint_ge_0[of b] by linarith+
qed

lemma sint_difference:
  fixes a b :: u32
  shows "sint (ucast a - ucast b :: i64) = uint a - uint b"
proof -
  have "sint (ucast a - ucast b :: i64) = signed_take_bit 63 (uint a - uint b)"
    by (simp add: sint_word_ariths(2) sint_ucast_u32)
  also have "\<dots> = uint a - uint b"
    by (simp add: signed_take_bit_int_eq_self_iff difference_bounds)
  finally show ?thesis .
qed

lemma drop_zigzag_difference: "drop_bit 61 (zigzag (ucast (a :: u32) - ucast (b :: u32))) = 0"
  by (intro zigzag_bound) (simp_all add: sint_difference difference_bounds)

lemma bit_bit_of: "bit (bit_of b) i \<longleftrightarrow> b \<and> i = 0"
  by (simp add: bit_of_def bit_1_iff)

lemma and_power_bit: "v AND push_bit n 1 = 0 \<longleftrightarrow> \<not> bit (v :: u64) n"
  using bit_iff_and_push_bit_not_eq_0 by blast

lemma head_flags:
  shows "step_head s chained AND 4 = 0 \<longleftrightarrow> chained"
    and "step_head s chained AND 2 \<noteq> 0 \<longleftrightarrow> step_pickup s"
    and "step_head s chained AND 1 \<noteq> 0 \<longleftrightarrow> step_drop_off s"
proof -
  have b: "bit (step_head s chained) 2 \<longleftrightarrow> \<not> chained" "bit (step_head s chained) 1 \<longleftrightarrow> step_pickup s"
    "bit (step_head s chained) 0 \<longleftrightarrow> step_drop_off s"
    unfolding step_head_def bit_or_iff bit_push_bit_iff bit_bit_of by simp_all
  show "step_head s chained AND 4 = 0 \<longleftrightarrow> chained"
    using and_power_bit[of "step_head s chained" 2] b by simp
  show "step_head s chained AND 2 \<noteq> 0 \<longleftrightarrow> step_pickup s"
    using and_power_bit[of "step_head s chained" 1] b by simp
  show "step_head s chained AND 1 \<noteq> 0 \<longleftrightarrow> step_drop_off s"
    using and_power_bit[of "step_head s chained" 0] b by simp
qed

lemma head_target: "drop_bit 3 (step_head s chained) = zigzag (ucast (step_to s) - ucast (step_from s))"
proof (rule bit_word_eqI)
  let ?z = "zigzag (ucast (step_to s) - ucast (step_from s))"
  fix i assume "i < LENGTH(64)"
  then have i: "i < 64" by simp
  have "\<not> bit ?z i" if "61 \<le> i"
  proof -
    have "\<not> bit (drop_bit 61 ?z) (i - 61)" unfolding drop_zigzag_difference by simp
    then show ?thesis using that by (simp add: bit_drop_bit_eq)
  qed
  then show "bit (drop_bit 3 (step_head s chained)) i \<longleftrightarrow> bit ?z i"
    unfolding bit_drop_bit_eq comp_def step_head_def bit_or_iff bit_push_bit_iff bit_bit_of
    using i by (cases "61 \<le> i") auto
qed

lemma read_steps_put:
  "read_steps (length ss) previous_to previous_arrival (put_steps previous_to previous_arrival ss @ rest)
    = Inr (ss, rest)"
proof (induction ss arbitrary: previous_to previous_arrival)
  case (Cons s ss)
  let ?c = "previous_to = Some (step_from s)"
  show ?case
    by (cases "?c")
      (simp_all add: Let_def varint_put head_flags head_target vu.get_put Cons.IH)
qed simp

lemma put_steps_length: "length ss \<le> length (put_steps previous_to previous_arrival ss)"
proof (induction ss arbitrary: previous_to previous_arrival)
  case (Cons s ss)
  let ?p = "put_steps (Some (step_to s)) (ucast (departure_offset_s s) + arrival_minus_departure_s s) ss"
  have "length ss \<le> length ?p" by (rule Cons.IH)
  moreover have "1 \<le> length (put_varint (step_head s (previous_to = Some (step_from s))))"
    by (rule vi.put_length)
  ultimately show ?case by (simp add: Let_def)
qed simp

end
