(* ===== verification/Grouping.thy ===== *)
theory Grouping
  imports Csr "HOL-Library.Multiset"
begin

text \<open>
  Stable sorting facts shared by the components that group items by key: the counting sort of
  \<open>group_by_key\<close> is the stable sort by key, and sorting by a minor and then by a major key is
  undone by nothing but the lexicographic order.
\<close>

lemma insort_key_map: "insort_key f (g x) (map g xs) = map g (insort_key (\<lambda>y. f (g y)) x xs)"
  by (induction xs) simp_all

lemma sort_key_map: "sort_key f (map g xs) = map g (sort_key (\<lambda>y. f (g y)) xs)"
  by (induction xs) (simp_all add: insort_key_map)

lemma concat_subslices:
  assumes "xs_off ! 0 = 0" "\<forall>k<n. xs_off ! k \<le> xs_off ! Suc k" "m \<le> n" "xs_off ! n \<le> length xs"
  shows "concat (map (\<lambda>k. subslice xs (xs_off ! k) (xs_off ! Suc k)) [0..<m]) = take (xs_off ! m) xs"
  using assms(3)
proof (induction m)
  case (Suc m)
  have "xs_off ! m \<le> xs_off ! Suc m" using Suc.prems assms(2) by simp
  then have "take (xs_off ! m) xs @ subslice xs (xs_off ! m) (xs_off ! Suc m) = take (xs_off ! Suc m) xs"
    by (metis le_add_diff_inverse subslice_def take_add)
  then show ?case using Suc by simp
qed (simp add: assms(1))

lemma filter_buckets:
  fixes f :: "'a \<Rightarrow> nat"
  shows "filter (\<lambda>a. f a = j) (concat (map (\<lambda>k. filter (\<lambda>a. f a = k) xs) [0..<n]))
    = (if j < n then filter (\<lambda>a. f a = j) xs else [])"
proof (induction n)
  case (Suc n)
  have "filter (\<lambda>a. f a = j \<and> f a = n) xs = (if j = n then filter (\<lambda>a. f a = j) xs else [])"
    by (auto simp: filter_empty_conv)
  then show ?case using Suc by (auto simp: conj_commute)
qed simp

lemma mset_buckets:
  fixes f :: "'a \<Rightarrow> nat"
  shows "mset (concat (map (\<lambda>k. filter (\<lambda>a. f a = k) xs) [0..<n])) = mset (filter (\<lambda>a. f a < n) xs)"
proof (induction n)
  case (Suc n)
  have "mset (filter (\<lambda>a. f a < n) xs) + mset (filter (\<lambda>a. f a = n) xs) = mset (filter (\<lambda>a. f a < Suc n) xs)"
    by (induction xs) auto
  then show ?case using Suc by simp
qed simp

lemma sorted_buckets:
  fixes f :: "'a \<Rightarrow> nat"
  shows "sorted (map f (concat (map (\<lambda>k. filter (\<lambda>a. f a = k) xs) [0..<n])))"
proof (induction n)
  case (Suc n)
  have "sorted (map f (filter (\<lambda>a. f a = n) xs))" by (induction xs) auto
  then show ?case using Suc by (auto simp: sorted_append)
qed simp

lemma sort_key_buckets:
  assumes "\<forall>a\<in>set xs. f a < (n :: nat)"
  shows "concat (map (\<lambda>k. filter (\<lambda>a. f a = k) xs) [0..<n]) = sort_key f xs" (is "?b = _")
proof (rule properties_for_sort_key [symmetric])
  have "filter (\<lambda>a. f a < n) xs = xs" using assms by (simp add: filter_id_conv)
  then show m: "mset ?b = mset xs" using mset_buckets[of f xs n] by simp
  fix k assume "k \<in> set ?b"
  then have "f k < n" by auto
  moreover have e: "(\<lambda>x. f k = f x) = (\<lambda>x. f x = f k)" by (rule ext) (rule eq_commute)
  ultimately show "filter (\<lambda>x. f k = f x) ?b = filter (\<lambda>x. f k = f x) xs"
    using filter_buckets[of f "f k" xs n] unfolding e by (simp only: if_True)
qed (rule sorted_buckets)

theorem group_by_key_sorts:
  assumes "\<forall>a\<in>set items. fst a < n"
  shows "snd (group_by_key n dflt items) = map snd (sort_key fst items)"
proof -
  let ?xs = "snd (group_by_key n dflt items)" and ?off = "fst (group_by_key n dflt items)"
  have v: "valid_offsets ?off n (length items)" by (rule group_by_key_offsets[OF assms])
  have mono: "\<forall>k<n. ?off ! k \<le> ?off ! Suc k"
    using v by (auto simp: valid_offsets_def intro!: sorted_nth_mono)
  have "?xs = take (?off ! n) ?xs" using v by (simp add: valid_offsets_def)
  also have "\<dots> = concat (map (\<lambda>k. subslice ?xs (?off ! k) (?off ! Suc k)) [0..<n])"
    by (rule concat_subslices[symmetric, where n = n]) (use v mono in \<open>simp_all add: valid_offsets_def\<close>)
  also have "\<dots> = concat (map (\<lambda>k. map snd (filter (\<lambda>a. fst a = k) items)) [0..<n])"
    using group_by_key_row[OF assms] by (intro arg_cong[where f = concat] map_cong) simp_all
  also have "\<dots> = map snd (concat (map (\<lambda>k. filter (\<lambda>a. fst a = k) items) [0..<n]))"
    by (simp add: map_concat comp_def)
  finally show ?thesis using sort_key_buckets[OF assms] by simp
qed

lemma sort_major_minor:
  fixes d :: "'a \<Rightarrow> 'b :: linorder" and r :: "'a \<Rightarrow> 'c :: linorder"
  assumes "sorted_wrt (\<lambda>a b. d a < d b \<or> d a = d b \<and> r a \<le> r b) xs"
  shows "sort_key d (sort_key r xs) = xs"
proof (rule properties_for_sort_key)
  show "sorted (map d xs)"
    unfolding sorted_map by (rule sorted_wrt_mono_rel[OF _ assms]) auto
  fix k
  have "sorted (map r (filter (\<lambda>x. d k = d x) xs))"
    unfolding sorted_map
    by (rule sorted_wrt_mono_rel[OF _ sorted_wrt_filter[OF assms]]) auto
  then have "sort_key r (filter (\<lambda>x. d k = d x) xs) = filter (\<lambda>x. d k = d x) xs"
    by (rule sort_key_id_if_sorted)
  then show "filter (\<lambda>x. d k = d x) xs = filter (\<lambda>x. d k = d x) (sort_key r xs)"
    by (simp add: filter_sort)
qed simp

end
