(* ===== verification/Timetable_Runs.thy ===== *)
theory Timetable_Runs
  imports Timetable_Codec Grouping
begin

text \<open>
  The tables of the packed timetable: the pattern and run tables are read back as they were
  written, every run expands to the connections it was made from, and the grouping of connections
  into runs is the stable sort by run, cut where the run changes.
\<close>

section \<open>Pattern table\<close>

definition loaded :: "pattern list \<Rightarrow> nat list \<times> (u32 \<times> u32) list \<times> pattern_step list" where
  "loaded ps = (map (\<lambda>k. length (concat (map steps (take k ps)))) [0..<Suc (length ps)],
     map (\<lambda>p. (pattern_trip p, pattern_route p)) ps, concat (map steps ps))"

lemma loaded_snoc:
  "loaded (ps @ [p]) = (fst (loaded ps) @ [length (snd (snd (loaded ps)) @ steps p)],
     fst (snd (loaded ps)) @ [(pattern_trip p, pattern_route p)], snd (snd (loaded ps)) @ steps p)"
  by (auto simp: loaded_def)

lemma loaded_row:
  "i < length ps \<Longrightarrow> subslice (snd (snd (loaded ps))) (fst (loaded ps) ! i) (fst (loaded ps) ! (i + 1)) = steps (ps ! i)"
proof -
  assume i: "i < length ps"
  then have "concat (map steps ps) = concat (map steps (take i ps)) @ steps (ps ! i) @ concat (map steps (drop (Suc i) ps))"
    by (metis append_take_drop_id Cons_nth_drop_Suc concat_append list.simps(9) concat.simps(2) map_append)
  moreover have "concat (map steps (take (Suc i) ps)) = concat (map steps (take i ps)) @ steps (ps ! i)"
    using i by (simp add: take_Suc_conv_app_nth)
  ultimately show ?thesis using i by (simp add: loaded_def subslice_def del: upt_Suc)
qed

lemma loaded_width:
  "i < length ps \<Longrightarrow> fst (loaded ps) ! (i + 1) - fst (loaded ps) ! i = length (steps (ps ! i))"
  by (simp add: loaded_def take_Suc_conv_app_nth del: upt_Suc)

lemma read_patterns_put:
  assumes "\<forall>p\<in>set ps. length (steps p) \<le> section_len \<and> length (steps p) < 2 ^ 64"
  shows "read_patterns section_len (length ps) (loaded qs) (concat (map put_pattern ps) @ rest)
    = Inr (loaded (qs @ ps), rest)"
  using assms
proof (induction ps arbitrary: qs)
  case (Cons p ps)
  obtain offs rts ss where l: "loaded qs = (offs, rts, ss)" using prod_cases3 by blast
  have v: "length (steps p) \<le> section_len \<and> length (steps p) < 2 ^ 64" using Cons.prems by simp
  have "read_patterns section_len (length ps) (loaded (qs @ [p])) (concat (map put_pattern ps) @ rest)
      = Inr (loaded ((qs @ [p]) @ ps), rest)"
    using Cons.prems by (intro Cons.IH) simp
  then show ?case using v
    by (simp add: l loaded_snoc put_pattern_def[of p] vu.get_put vl.get_put read_steps_put)
qed simp

lemma put_pattern_length: "length (steps p) \<le> length (put_pattern p)" "1 \<le> length (put_pattern p)"
proof -
  show "length (steps p) \<le> length (put_pattern p)"
    using put_steps_length[of "steps p" None 0] by (simp add: put_pattern_def)
  show "1 \<le> length (put_pattern p)" using vi.put_length[of "ucast (pattern_trip p)"]
    by (simp add: put_pattern_def)
qed

lemma put_patterns_length: "length ps \<le> length (concat (map put_pattern ps))"
proof (induction ps)
  case (Cons p ps)
  then show ?case using put_pattern_length(2)[of p] by simp
qed simp

section \<open>Run table\<close>

lemma read_runs_put:
  assumes "\<forall>(r, p, d)\<in>set rs. unat p < length ps"
    and "expanded + sum_list (map (\<lambda>(r, p, d). length (steps (ps ! unat p))) rs) < 2 ^ 64"
  shows "read_runs (length rs) (fst (loaded ps)) (length ps) run pat departure expanded
      (put_runs run pat departure rs @ rest)
    = Inr ((map (\<lambda>(r, p, d). (r, unat p, d)) rs,
        expanded + sum_list (map (\<lambda>(r, p, d). length (steps (ps ! unat p))) rs)), rest)"
  using assms
proof (induction rs arbitrary: run pat departure expanded)
  case (Cons x rs)
  obtain r p d where x: "x = (r, p, d)" using prod_cases3 by blast
  have p: "unat p < length ps" using Cons.prems(1) by (simp add: x)
  have s: "0 \<le> sint (ucast p :: i64)" "nat (sint (ucast p :: i64)) = unat p"
    by (simp_all add: sint_ucast_u32)
  let ?e = "expanded + length (steps (ps ! unat p))"
  have "read_runs (length rs) (fst (loaded ps)) (length ps) (ucast r) (ucast p) (ucast d) ?e
      (put_runs (ucast r) (ucast p) (ucast d) rs @ rest)
    = Inr ((map (\<lambda>(r, p, d). (r, unat p, d)) rs,
        ?e + sum_list (map (\<lambda>(r, p, d). length (steps (ps ! unat p))) rs)), rest)"
    by (rule Cons.IH) (use Cons.prems in \<open>simp_all add: x\<close>)
  moreover have "?e < 2 ^ 64" using Cons.prems(2) by (simp add: x)
  ultimately show ?case using p loaded_width[OF p]
    by (simp add: x varint_put Let_def s ensure_simps)
qed simp

lemma put_runs_length: "length rs \<le> length (put_runs run pat departure rs)"
proof (induction rs arbitrary: run pat departure)
  case (Cons x rs)
  obtain r p d where x: "x = (r, p, d)" using prod_cases3 by blast
  show ?case using Cons.IH[of "ucast r" "ucast p" "ucast d"] vi.put_length[of "zigzag (ucast r - run)"]
    by (simp add: x)
qed simp

section \<open>Runs as patterns\<close>

definition pattern_of :: "transit_connection list \<Rightarrow> pattern" where
  "pattern_of run = \<lparr>pattern_trip = trip_index (hd run), pattern_route = route_index (hd run),
     steps = map (step_of (hd run)) run\<rparr>"

definition one_trip :: "transit_connection list \<Rightarrow> bool" where
  "one_trip run \<longleftrightarrow> (\<forall>c\<in>set run. trip_index c = trip_index (hd run) \<and> route_index c = route_index (hd run))"

definition one_run :: "transit_connection list \<Rightarrow> bool" where
  "one_run run \<longleftrightarrow> run \<noteq> [] \<and> (\<forall>c\<in>set run. run_index c = run_index (hd run) \<and> departure_s (hd run) \<le> departure_s c)"

definition stands_for :: "pattern list \<Rightarrow> u32 \<times> u32 \<times> u32 \<Rightarrow> transit_connection list \<Rightarrow> bool" where
  "stands_for ps x run \<longleftrightarrow> fst x = run_index (hd run) \<and> snd (snd x) = departure_s (hd run)
     \<and> unat (fst (snd x)) < length ps \<and> ps ! unat (fst (snd x)) = pattern_of run \<and> one_trip run"

lemma stands_for_append: "stands_for ps x run \<Longrightarrow> stands_for (ps @ extra) x run"
  by (simp add: stands_for_def nth_append)

lemma index_of_Some: "index_of x ys = Some i \<Longrightarrow> i < length ys \<and> ys ! i = x"
  by (induction ys arbitrary: i) (auto split: if_splits)

lemma add_run_stands:
  assumes "add_run (ps, rs) run = Some (ps', rs')" "length ps < 2 ^ 32"
  shows "\<exists>extra x. ps' = ps @ extra \<and> rs' = rs @ [x] \<and> stands_for ps' x run
    \<and> length extra \<le> 1 \<and> set extra \<subseteq> {pattern_of run}"
proof -
  have one: "one_trip run" using assms(1) by (auto simp: add_run_def one_trip_def Let_def split: if_splits)
  have r: "(case index_of (pattern_of run) ps of
       Some i \<Rightarrow> Some (ps, rs @ [(run_index (hd run), word_of_nat i, departure_s (hd run))])
     | None \<Rightarrow> Some (ps @ [pattern_of run],
         rs @ [(run_index (hd run), word_of_nat (length ps), departure_s (hd run))])) = Some (ps', rs')"
    using assms(1) unfolding add_run_def pattern_of_def Let_def by (simp split: if_splits)
  have u: "i \<le> length ps \<Longrightarrow> unat (word_of_nat i :: u32) = i" for i
    using assms(2) by (simp add: unat_of_nat take_bit_nat_eq_self)
  show ?thesis
  proof (cases "index_of (pattern_of run) ps")
    case None
    then show ?thesis using r one u[of "length ps"] by (auto simp: stands_for_def)
  next
    case (Some i)
    then show ?thesis using r one u[of i] index_of_Some[OF Some] by (auto simp: stands_for_def)
  qed
qed

lemma collect_runs_stand:
  assumes "collect_runs (ps, rs) chunks = Some (ps', rs')" "length ps + length chunks < 2 ^ 32"
  shows "\<exists>extra new. ps' = ps @ extra \<and> rs' = rs @ new \<and> list_all2 (stands_for ps') new chunks
    \<and> length extra \<le> length chunks \<and> set extra \<subseteq> pattern_of ` set chunks"
  using assms
proof (induction chunks arbitrary: ps rs)
  case (Cons run chunks)
  obtain ps1 rs1 where a: "add_run (ps, rs) run = Some (ps1, rs1)"
    and c: "collect_runs (ps1, rs1) chunks = Some (ps', rs')"
    using Cons.prems(1) by (auto split: option.splits)
  obtain m x where 1: "ps1 = ps @ m" "rs1 = rs @ [x]" "stands_for ps1 x run" "length m \<le> 1" "set m \<subseteq> {pattern_of run}"
    using add_run_stands[OF a] Cons.prems(2) by auto
  have "length ps1 + length chunks < 2 ^ 32" using 1(1,4) Cons.prems(2) by simp
  from Cons.IH[OF c this] obtain extra new where 2: "ps' = ps1 @ extra" "rs' = rs1 @ new"
    "list_all2 (stands_for ps') new chunks" "length extra \<le> length chunks" "set extra \<subseteq> pattern_of ` set chunks"
    by blast
  have "stands_for ps' x run" using stands_for_append[OF 1(3)] 2(1) by simp
  then have "ps' = ps @ (m @ extra) \<and> rs' = rs @ (x # new) \<and> list_all2 (stands_for ps') (x # new) (run # chunks)
    \<and> length (m @ extra) \<le> length (run # chunks) \<and> set (m @ extra) \<subseteq> pattern_of ` set (run # chunks)"
    using 1 2 by auto
  then show ?case by blast
qed simp

lemma expand_steps_run:
  assumes "\<forall>c\<in>set cs. run_index c = run \<and> trip_index c = fst tr \<and> route_index c = snd tr
    \<and> departure_s f \<le> departure_s c"
  shows "expand_steps run tr (departure_s f) (map (step_of f) cs) = Inr cs"
  using assms
proof (induction cs)
  case (Cons c cs)
  have le: "departure_s f \<le> departure_s c" using Cons.prems by simp
  have "unat (departure_s c - departure_s f) = unat (departure_s c) - unat (departure_s f)"
    using le by (rule unat_sub)
  then have "unat (departure_s f) + unat (departure_s c - departure_s f) = unat (departure_s c)"
    using le by (simp add: word_le_nat_alt)
  also have "\<dots> < 2 ^ 32" using unsigned_less[of "departure_s c", where ?'a = nat] by simp
  finally have d: "unat (departure_s f) + unat (departure_s c - departure_s f) < 2 ^ 32" .
  have "\<forall>c\<in>set cs. run_index c = run \<and> trip_index c = fst tr \<and> route_index c = snd tr \<and> departure_s f \<le> departure_s c"
    using Cons.prems by simp
  then have "expand_steps run tr (departure_s f) (map (step_of f) cs) = Inr cs" by (rule Cons.IH)
  moreover have "run_index c = run" "trip_index c = fst tr" "route_index c = snd tr"
    using Cons.prems by simp_all
  moreover note d
  ultimately show ?case by (simp add: step_of_def[of f c] ensure_simps Let_def)
qed simp

lemma expand_runs_chunks:
  assumes "list_all2 (stands_for ps) rs chunks" "\<forall>run\<in>set chunks. one_run run"
  shows "expand_runs (loaded ps) (map (\<lambda>(r, p, d). (r, unat p, d)) rs) = Inr (concat chunks)"
  using assms
proof (induction rs chunks rule: list_all2_induct)
  case (Cons x rs run chunks)
  obtain r p d where x: "x = (r, p, d)" using prod_cases3 by blast
  obtain offs rts ss where l: "loaded ps = (offs, rts, ss)" using prod_cases3 by blast
  have st: "r = run_index (hd run)" "d = departure_s (hd run)" "unat p < length ps"
    "ps ! unat p = pattern_of run" "one_trip run"
    using Cons.hyps by (simp_all add: x stands_for_def)
  have row: "subslice ss (offs ! unat p) (offs ! (unat p + 1)) = map (step_of (hd run)) run"
    using loaded_row[OF st(3)] st(4) by (simp add: l pattern_of_def)
  have rt: "rts ! unat p = (trip_index (hd run), route_index (hd run))"
  proof -
    have "rts = map (\<lambda>p. (pattern_trip p, pattern_route p)) ps" using l by (simp add: loaded_def)
    then show ?thesis using st(3,4) by (simp add: pattern_of_def)
  qed
  have one: "\<forall>c\<in>set run. run_index c = run_index (hd run) \<and> trip_index c = trip_index (hd run)
      \<and> route_index c = route_index (hd run) \<and> departure_s (hd run) \<le> departure_s c"
    using Cons.prems st(5) unfolding one_run_def one_trip_def by (metis list.set_intros(1))
  have "expand_steps r (rts ! unat p) d (map (step_of (hd run)) run) = Inr run"
    unfolding st(1,2) rt using one by (intro expand_steps_run) (simp only: fst_conv snd_conv)
  moreover have "expand_runs (offs, rts, ss) (map (\<lambda>(r, p, d). (r, unat p, d)) rs) = Inr (concat chunks)"
    using Cons.IH Cons.prems by (simp add: l)
  ultimately show ?case using row by (simp add: x l)
qed (simp add: loaded_def)

section \<open>Grouping connections into runs\<close>

lemma concat_chunk_by: "concat (chunk_by same xs) = xs"
proof (induction same xs rule: chunk_by.induct)
  case (3 same x y xs)
  then show ?case by (auto split: list.splits)
qed simp_all

lemma chunk_by_nonempty: "c \<in> set (chunk_by same xs) \<Longrightarrow> c \<noteq> []"
  by (induction same xs arbitrary: c rule: chunk_by.induct) (auto split: if_splits list.splits)

lemma hd_chunk_by: "xs \<noteq> [] \<Longrightarrow> chunk_by same xs \<noteq> [] \<and> hd (hd (chunk_by same xs)) = hd xs"
  by (induction same xs rule: chunk_by.induct) (auto split: list.splits)

lemma chunk_by_same:
  "c \<in> set (chunk_by (\<lambda>x y. f x = f y) xs) \<Longrightarrow> x \<in> set c \<Longrightarrow> f x = f (hd c)"
proof (induction "\<lambda>x y. f x = f y" xs arbitrary: c x rule: chunk_by.induct)
  case (3 a b xs)
  let ?r = "chunk_by (\<lambda>x y. f x = f y) (b # xs)"
  have h: "?r \<noteq> []" "hd (hd ?r) = b" using hd_chunk_by[of "b # xs"] by simp_all
  obtain d ds where r: "?r = d # ds" using h(1) by (cases ?r) auto
  have d: "d \<noteq> []" "hd d = b" using chunk_by_nonempty[of d "\<lambda>x y. f x = f y" "b # xs"] h(2) by (simp_all add: r)
  show ?case
  proof (cases "f a = f b")
    case True
    then have "c = a # d \<or> c \<in> set ds" using "3.prems"(1) by (auto simp: r)
    then show ?thesis
    proof
      assume "c = a # d"
      then show ?thesis using "3.hyps"(1)[OF True, of d x] "3.prems"(2) d True by (auto simp: r)
    next
      assume "c \<in> set ds"
      then show ?thesis using "3.hyps"(1)[OF True, of c x] "3.prems"(2) by (simp add: r)
    qed
  next
    case False
    then have "c = [a] \<or> c \<in> set ?r" using "3.prems"(1) by auto
    then show ?thesis using "3.hyps"(2)[OF False, of c x] "3.prems"(2) by auto
  qed
qed simp_all

lemma chunk_by_sorted:
  assumes "sorted_wrt R xs" "c \<in> set (chunk_by same xs)" shows "sorted_wrt R c"
proof -
  obtain as bs where "chunk_by same xs = as @ c # bs" using split_list[OF assms(2)] by blast
  then have "xs = concat as @ c @ concat bs" using concat_chunk_by[of same xs] by simp
  then show ?thesis using assms(1) by (simp add: sorted_wrt_append)
qed

lemma fold_max_upper: "x \<in> set xs \<or> x \<le> m \<Longrightarrow> x \<le> fold max xs (m :: nat)"
proof (induction xs arbitrary: m)
  case (Cons y xs)
  have "x \<in> set xs \<or> x \<le> max y m" using Cons.prems by auto
  then show ?case using Cons.IH by simp
qed simp

lemma insort_key_unat: "insort_key (\<lambda>i. unat (f i)) x xs = insort_key f x xs"
  by (induction xs) (simp_all add: word_le_nat_alt)

lemma sort_key_unat: "sort_key (\<lambda>i. unat (f i)) xs = sort_key f xs"
  by (induction xs) (simp_all add: insort_key_unat)

lemma order_by_run_sorts:
  "order_by_run cs = sort_key (\<lambda>i. run_index (cs ! i)) [0..<length cs]"
proof -
  let ?key = "\<lambda>i. unat (run_index (cs ! i))" and ?n = "fold max (map (\<lambda>c. unat (run_index c) + 1) cs) 0"
  have lt: "\<forall>a\<in>set (map (\<lambda>i. (?key i, i)) [0..<length cs]). fst a < ?n"
  proof
    fix a assume "a \<in> set (map (\<lambda>i. (?key i, i)) [0..<length cs])"
    then obtain i where i: "i < length cs" "fst a = ?key i" by auto
    then have "?key i + 1 \<in> set (map (\<lambda>c. unat (run_index c) + 1) cs)" by simp
    then have "?key i + 1 \<le> ?n" by (intro fold_max_upper) simp
    then show "fst a < ?n" using i by simp
  qed
  have "snd (group_by_key ?n 0 (map (\<lambda>i. (?key i, i)) [0..<length cs])) = sort_key ?key [0..<length cs]"
    unfolding group_by_key_sorts[OF lt] sort_key_map by (simp add: comp_def)
  then have "order_by_run cs = sort_key ?key [0..<length cs]"
    by (simp add: order_by_run_def Let_def)
  then show ?thesis by (simp only: sort_key_unat)
qed

end
