(* ===== verification/Timetable_Roundtrip.thy ===== *)
theory Timetable_Roundtrip
  imports Timetable_Runs
begin

text \<open>
  The round trip of the packed timetable, and when the packed form is used.
\<close>

definition run_chunks :: "transit_connection list \<Rightarrow> transit_connection list list" where
  "run_chunks cs = map (map ((!) cs))
     (chunk_by (\<lambda>l r. run_index (cs ! l) = run_index (cs ! r)) (order_by_run cs))"

lemma concat_run_chunks: "concat (run_chunks cs) = sort_key run_index cs"
proof -
  have "concat (run_chunks cs) = map ((!) cs) (order_by_run cs)"
    by (simp add: run_chunks_def concat_chunk_by flip: map_concat)
  also have "\<dots> = sort_key run_index (map ((!) cs) [0..<length cs])"
    by (simp add: order_by_run_sorts sort_key_map)
  finally show ?thesis by (simp add: map_nth)
qed

lemma run_chunk_same:
  assumes "run \<in> set (run_chunks cs)"
  shows "run \<noteq> []" "c \<in> set run \<Longrightarrow> run_index c = run_index (hd run)"
proof -
  obtain ix where i: "run = map ((!) cs) ix"
    "ix \<in> set (chunk_by (\<lambda>l r. run_index (cs ! l) = run_index (cs ! r)) (order_by_run cs))"
    using assms by (auto simp: run_chunks_def)
  have n: "ix \<noteq> []" using chunk_by_nonempty[OF i(2)] .
  then show "run \<noteq> []" by (simp add: i(1))
  assume "c \<in> set run"
  then obtain k where k: "k \<in> set ix" "c = cs ! k" by (auto simp: i(1))
  have "run_index (cs ! k) = run_index (cs ! hd ix)"
    by (rule chunk_by_same[where f = "\<lambda>i. run_index (cs ! i)", OF i(2) k(1)])
  then show "run_index c = run_index (hd run)" using n by (simp add: i(1) k(2) hd_map)
qed

lemma bundle_ordered_sorted:
  "bundle_ordered cs \<Longrightarrow> sorted_wrt (\<lambda>a b. departure_s a < departure_s b
    \<or> departure_s a = departure_s b \<and> run_index a \<le> run_index b) cs"
  by (subst sorted_wrt_iff_nth_Suc_transp) (auto simp: bundle_ordered_def intro!: transpI)

lemma run_chunk_departures:
  assumes "bundle_ordered cs" "run \<in> set (run_chunks cs)"
  shows "sorted (map departure_s run)"
proof -
  let ?P = "\<lambda>c. run_index c = run_index (hd run)"
  obtain as bs where "run_chunks cs = as @ run # bs" using split_list[OF assms(2)] by blast
  then have "sort_key run_index cs = concat as @ run @ concat bs" using concat_run_chunks[of cs] by simp
  then have "filter ?P cs = filter ?P (concat as) @ filter ?P run @ filter ?P (concat bs)"
    using sort_key_stable[of run_index "run_index (hd run)" cs] by simp
  moreover have "filter ?P run = run" using run_chunk_same(2)[OF assms(2)] by (simp add: filter_id_conv)
  moreover have "sorted (map departure_s (filter ?P cs))"
    unfolding sorted_map
    by (rule sorted_wrt_mono_rel[OF _ sorted_wrt_filter[OF bundle_ordered_sorted[OF assms(1)]]]) auto
  ultimately show ?thesis by (simp add: sorted_append)
qed

lemma run_chunk_one_run:
  assumes "bundle_ordered cs" "run \<in> set (run_chunks cs)"
  shows "one_run run"
proof -
  have "departure_s (hd run) \<le> departure_s c" if "c \<in> set run" for c
    using run_chunk_departures[OF assms] run_chunk_same(1)[OF assms(2)] that by (cases run) auto
  moreover have "\<forall>c\<in>set run. run_index c = run_index (hd run)"
    using run_chunk_same(2)[OF assms(2)] by blast
  ultimately show ?thesis using run_chunk_same(1)[OF assms(2)] unfolding one_run_def by blast
qed

lemma length_concat_nonempty: "\<forall>c\<in>set cs. c \<noteq> [] \<Longrightarrow> length cs \<le> length (concat cs)"
proof (induction cs)
  case (Cons c cs)
  then show ?case by (cases c) auto
qed simp

lemma stands_for_width:
  "list_all2 (stands_for ps) rs chunks \<Longrightarrow>
    sum_list (map (\<lambda>(r, p, d). length (steps (ps ! unat p))) rs) = length (concat chunks)"
  by (induction rule: list_all2_induct) (auto simp: stands_for_def pattern_of_def)

lemma stands_for_bound:
  "list_all2 (stands_for ps) rs chunks \<Longrightarrow> \<forall>(r, p, d)\<in>set rs. unat p < length ps"
  by (induction rule: list_all2_induct) (auto simp: stands_for_def)

lemma decode_tables:
  assumes st: "list_all2 (stands_for ps) rs chunks" and one: "\<forall>run\<in>set chunks. one_run run"
    and ps: "set ps \<subseteq> pattern_of ` set chunks" "length ps < 2 ^ 64"
    and n: "length (concat chunks) = n" "n < 2 ^ 32"
  shows "decode_patterns (put_varint (word_of_nat n) @ put_varint (word_of_nat (length ps))
      @ concat (map put_pattern ps) @ put_varint (word_of_nat (length rs)) @ put_runs 0 0 0 rs)
    = Inr (sort_key departure_s (concat chunks))"
proof -
  define section_len where "section_len = length (put_varint (word_of_nat n) @ put_varint (word_of_nat (length ps))
      @ concat (map put_pattern ps) @ put_varint (word_of_nat (length rs)) @ put_runs 0 0 0 rs)"
  have lc: "length chunks \<le> n" using length_concat_nonempty[of chunks] one n(1) by (auto simp: one_run_def)
  have "length rs = length chunks" using st by (rule list_all2_lengthD)
  then have rs: "length rs \<le> section_len \<and> length rs < 2 ^ 64"
    using lc n(2) put_runs_length[of rs 0 0 0] by (simp add: section_len_def)
  have lp: "length ps \<le> section_len \<and> length ps < 2 ^ 64"
    using ps(2) put_patterns_length[of ps] by (simp add: section_len_def)
  have steps: "\<forall>p\<in>set ps. length (steps p) \<le> section_len \<and> length (steps p) < 2 ^ 64"
  proof
    fix p assume p: "p \<in> set ps"
    then obtain run where run: "run \<in> set chunks" "p = pattern_of run" using ps(1) by auto
    obtain as bs where "chunks = as @ run # bs" using split_list[OF run(1)] by blast
    then have "length (steps p) \<le> n" using n(1) run(2) by (simp add: pattern_of_def)
    obtain qs qs' where "ps = qs @ p # qs'" using split_list[OF p] by blast
    then have "length (put_pattern p) \<le> section_len" by (simp add: section_len_def)
    then show "length (steps p) \<le> section_len \<and> length (steps p) < 2 ^ 64"
      using put_pattern_length(1)[of p] \<open>length (steps p) \<le> n\<close> n(2) by simp
  qed
  have "loaded [] = ([0], [], [])" by (simp add: loaded_def)
  then have p: "read_patterns section_len (length ps) ([0], [], []) (concat (map put_pattern ps) @ rest)
      = Inr (loaded ps, rest)" for rest
    using read_patterns_put[OF steps, of "[]"] by simp
  have r: "read_runs (length rs) (fst (loaded ps)) (length ps) 0 0 0 0 (put_runs 0 0 0 rs)
    = Inr ((map (\<lambda>(r, p, d). (r, unat p, d)) rs, n), [])"
    using read_runs_put[OF stands_for_bound[OF st], of 0 0 0 0 "[]"] stands_for_width[OF st] n by simp
  have u: "unat (word_of_nat n :: u64) = n" using n(2) by (simp add: unat_of_nat take_bit_nat_eq_self)
  obtain offs rts ss where l: "loaded ps = (offs, rts, ss)" using prod_cases3 by blast
  show ?thesis
    using p r u expand_runs_chunks[OF st one] rs lp
    unfolding decode_patterns_def section_len_def[symmetric] Let_def l
    by (simp add: varint_put vl.get_put ensure_simps l)
qed

lemma decode_encode_patterns:
  assumes "encode_patterns cs = Some bytes" "length cs < 2 ^ 32"
  shows "\<exists>payload. bytes = KIND_PATTERNS # payload \<and> decode_patterns payload = Inr cs"
proof -
  have o: "bundle_ordered cs" using assms(1) by (simp add: encode_patterns_def split: if_splits)
  obtain ps rs where c: "collect_runs ([], []) (run_chunks cs) = Some (ps, rs)"
    and b: "bytes = KIND_PATTERNS # put_varint (word_of_nat (length cs))
      @ put_varint (word_of_nat (length ps)) @ concat (map put_pattern ps)
      @ put_varint (word_of_nat (length rs)) @ put_runs 0 0 0 rs"
    using assms(1) o by (auto simp: encode_patterns_def run_chunks_def split: option.splits)
  have len: "length (concat (run_chunks cs)) = length cs" by (simp add: concat_run_chunks)
  have "length (run_chunks cs) \<le> length cs"
    using length_concat_nonempty[of "run_chunks cs"] run_chunk_same(1) len by auto
  then have st: "list_all2 (stands_for ps) rs (run_chunks cs)" and ps: "length ps \<le> length (run_chunks cs)"
      "set ps \<subseteq> pattern_of ` set (run_chunks cs)"
    using collect_runs_stand[OF c] assms(2) by auto
  have "decode_patterns (tl bytes) = Inr (sort_key departure_s (concat (run_chunks cs)))"
    unfolding b list.sel
    by (rule decode_tables[OF st]) (use o ps len assms(2) \<open>length (run_chunks cs) \<le> length cs\<close> in \<open>auto intro: run_chunk_one_run\<close>)
  also have "\<dots> = Inr cs"
    using sort_major_minor[OF bundle_ordered_sorted[OF o]] by (simp add: concat_run_chunks)
  finally show ?thesis by (simp add: b)
qed

section \<open>Truncated sections\<close>

text \<open>A reader that succeeds gives the same result when more bytes follow.\<close>

definition extends_by :: "u8 list \<Rightarrow> pack_error + 'a \<times> u8 list \<Rightarrow> pack_error + 'a \<times> u8 list \<Rightarrow> bool" where
  "extends_by extra r r' \<longleftrightarrow> (\<forall>x rest. r = Inr (x, rest) \<longrightarrow> r' = Inr (x, rest @ extra))"

named_theorems extending \<open>readers whose result does not change when bytes follow\<close>

lemma extends_bind [extending]:
  assumes "extends_by extra r r'" "\<And>x rest. extends_by extra (f x rest) (f' x (rest @ extra))"
  shows "extends_by extra (result_bind r (case_prod f)) (result_bind r' (case_prod f'))"
  using assms by (cases r) (auto simp: extends_by_def)

lemma extends_pure [extending]:
  assumes "\<And>x. extends_by extra (f x) (f' x)"
  shows "extends_by extra (result_bind r f) (result_bind r f')"
  using assms by (cases r) (auto simp: extends_by_def)

lemma extends_Inr [extending]: "extends_by extra (Inr (x, rest)) (Inr (x, rest @ extra))"
  by (simp add: extends_by_def)

lemma extends_Inl [extending]: "extends_by extra (Inl e) r"
  by (simp add: extends_by_def)

lemma extends_if [extending]:
  "(b \<Longrightarrow> extends_by extra r r') \<Longrightarrow> (\<not> b \<Longrightarrow> extends_by extra s s') \<Longrightarrow>
    extends_by extra (if b then r else s) (if b then r' else s')"
  by simp

lemma extends_varint_loop: "extends_by extra (varint_loop shifts v bs) (varint_loop shifts v (bs @ extra))"
proof (induction shifts v bs rule: varint_loop.induct)
  case (3 shift shifts v byte bs)
  then show ?case by (auto simp: Let_def extends_by_def)
qed (simp_all add: extends_by_def)

lemma extends_varint [extending]: "extends_by extra (varint bs) (varint (bs @ extra))"
  unfolding varint_def by (rule extends_varint_loop)

lemma extends_u32 [extending]: "extends_by extra (read_u32 bs) (read_u32 (bs @ extra))"
  unfolding read_u32_def by (intro extending)

lemma extends_length [extending]: "n \<le> n' \<Longrightarrow> extends_by extra (read_length n bs) (read_length n' (bs @ extra))"
  unfolding read_length_def by (intro extending) (auto simp: extends_by_def)

lemma extends_steps [extending]: "extends_by extra (read_steps n pt pa bs) (read_steps n pt pa (bs @ extra))"
proof (induction n arbitrary: pt pa bs)
  case (Suc n)
  have "extends_by extra (case pt of None \<Rightarrow> Inl Chained_First_Step | Some s \<Rightarrow> Inr (s, b))
      (case pt of None \<Rightarrow> Inl Chained_First_Step | Some s \<Rightarrow> Inr (s, b @ extra))" for b
    by (cases pt) (simp_all add: extends_by_def)
  then show ?case unfolding read_steps.simps Let_def by (intro extending Suc.IH)
qed (simp add: extends_by_def)

lemma extends_patterns [extending]:
  "len \<le> len' \<Longrightarrow> extends_by extra (read_patterns len n s bs) (read_patterns len' n s (bs @ extra))"
proof (induction n arbitrary: s bs)
  case (Suc n)
  then show ?case by (cases s) (simp only: read_patterns.simps, intro extending, simp_all)
qed (simp add: extends_by_def)

lemma extends_runs [extending]:
  "extends_by extra (read_runs n offs pc r p d e bs) (read_runs n offs pc r p d e (bs @ extra))"
proof (induction n arbitrary: r p d e bs)
  case (Suc n)
  show ?case unfolding read_runs.simps Let_def
    by (intro extending Suc.IH) (auto simp: extends_by_def)
qed (simp add: extends_by_def)

lemma extended: "extends_by extra r r' \<Longrightarrow> r = Inr (x, rest) \<Longrightarrow> r' = Inr (x, rest @ extra)"
  by (simp add: extends_by_def)

lemma trailing_bytes_rejected:
  assumes "decode_patterns bytes = Inr cs" "extra \<noteq> []"
  shows "decode_patterns (bytes @ extra) = Inl Trailing_Bytes"
proof -
  obtain count b1 n b2 offs rts ss b3 m b4 runs e b5 out where
    s: "varint bytes = Inr (count, b1)" "read_length (length bytes) b1 = Inr (n, b2)"
      "read_patterns (length bytes) n ([0], [], []) b2 = Inr ((offs, rts, ss), b3)"
      "read_length (length bytes) b3 = Inr (m, b4)" "read_runs m offs n 0 0 0 0 b4 = Inr ((runs, e), b5)"
      "e = unat count" "expand_runs (offs, rts, ss) runs = Inr out" "b5 = []"
    using assms(1) unfolding decode_patterns_def Let_def
    by (auto simp: result_bind_Inr_iff ensure_def split: if_splits)
  have l: "length bytes \<le> length (bytes @ extra)" by simp
  note x = extended[OF extends_varint s(1), of extra] extended[OF extends_length[OF l] s(2)]
    extended[OF extends_patterns[OF l] s(3)] extended[OF extends_length[OF l] s(4)]
    extended[OF extends_runs s(5), of extra]
  show ?thesis
    unfolding decode_patterns_def Let_def x result_bind.simps prod.case s(7)
    using s(6,8) assms(2) by simp
qed

text \<open>C21: no proper prefix of a packed section decodes. A section cut off anywhere is reported as an
  error, whatever is left of it.\<close>

theorem truncation_detected:
  assumes "encode_patterns cs = Some bytes" "length cs < 2 ^ 32" "0 < k" "k < length bytes"
  shows "\<exists>e. decode_connections deserialize (take k bytes) bounds = Inl e"
proof -
  obtain payload where p: "bytes = KIND_PATTERNS # payload" "decode_patterns payload = Inr cs"
    using decode_encode_patterns[OF assms(1,2)] by blast
  obtain j where j: "k = Suc j" using assms(3) by (cases k) auto
  have t: "take k bytes = KIND_PATTERNS # take j payload" by (simp add: p(1) j)
  have "drop j payload \<noteq> []" using assms(4) by (simp add: p(1) j)
  then have "decode_patterns (take j payload) \<noteq> Inr xs" for xs
    using trailing_bytes_rejected[of "take j payload" xs "drop j payload"] p(2) by auto
  then obtain e where "decode_patterns (take j payload) = Inl e"
    by (cases "decode_patterns (take j payload)") auto
  then show ?thesis by (simp add: t decode_connections_def KIND_BINCODE_def KIND_PATTERNS_def)
qed

section \<open>When the packed form is used\<close>

lemma add_run_None: "add_run s run = None \<longleftrightarrow> \<not> one_trip run"
  by (cases s) (auto simp: add_run_def one_trip_def Let_def split: option.splits)

lemma collect_runs_None: "collect_runs s chunks = None \<longleftrightarrow> (\<exists>run\<in>set chunks. \<not> one_trip run)"
proof (induction s chunks rule: collect_runs.induct)
  case (2 s run rest)
  then show ?case using add_run_None[of s run] by (cases "add_run s run") simp_all
qed simp

lemma chunk_by_uniform:
  assumes "sorted (map f xs)" "\<forall>c\<in>set (chunk_by (\<lambda>x y. f x = f y) xs). \<forall>x\<in>set c. g x = g (hd c)"
  shows "\<forall>x\<in>set xs. \<forall>y\<in>set xs. f x = f y \<longrightarrow> g x = g y"
  using assms
proof (induction "\<lambda>x y. f x = f y" xs rule: chunk_by.induct)
  case (3 a b xs)
  let ?r = "chunk_by (\<lambda>x y. f x = f y) (b # xs)"
  have h: "?r \<noteq> []" "hd (hd ?r) = b" using hd_chunk_by[of "b # xs"] by simp_all
  obtain d ds where r: "?r = d # ds" using h(1) by (cases ?r) auto
  have d: "d \<noteq> []" "hd d = b" using chunk_by_nonempty[of d "\<lambda>x y. f x = f y" "b # xs"] h(2) by (simp_all add: r)
  have s: "sorted (map f (b # xs))" using "3.prems"(1) by simp
  show ?case
  proof (cases "f a = f b")
    case True
    have e: "chunk_by (\<lambda>x y. f x = f y) (a # b # xs) = (a # d) # ds" using True by (simp add: r)
    have ga: "\<forall>x\<in>set (a # d). g x = g a" and gs: "\<forall>c\<in>set ds. \<forall>x\<in>set c. g x = g (hd c)"
      using "3.prems"(2) unfolding e by auto
    have gab: "g a = g b" using ga d by (metis list.set_intros(2) hd_in_set)
    have "\<forall>x\<in>set d. g x = g (hd d)" using ga gab d(2) by (metis list.set_intros(2))
    then have "\<forall>c\<in>set ?r. \<forall>x\<in>set c. g x = g (hd c)" using gs by (simp only: r list.set ball_simps)
    note ih = "3.hyps"(1)[OF True s this]
    show ?thesis
    proof (intro ballI impI)
      fix x y assume m: "x \<in> set (a # b # xs)" "y \<in> set (a # b # xs)" "f x = f y"
      define u v where "u = (if x \<in> set (b # xs) then x else b)" and "v = (if y \<in> set (b # xs) then y else b)"
      have "u \<in> set (b # xs)" "g u = g x" "f u = f x" using m(1) True gab by (auto simp: u_def)
      moreover have "v \<in> set (b # xs)" "g v = g y" "f v = f y" using m(2) True gab by (auto simp: v_def)
      ultimately show "g x = g y" using ih m(3) by metis
    qed
  next
    case False
    have "\<forall>c\<in>set ?r. \<forall>x\<in>set c. g x = g (hd c)" using "3.prems"(2) False by simp
    note ih = "3.hyps"(2)[OF False s this]
    have "f a < f y" if "y \<in> set (b # xs)" for y
      using that "3.prems"(1) False by auto
    then have n: "\<forall>y\<in>set (b # xs). f a \<noteq> f y" by (metis less_irrefl)
    show ?thesis
    proof (intro ballI impI)
      fix x y assume m: "x \<in> set (a # b # xs)" "y \<in> set (a # b # xs)" "f x = f y"
      have "(x = a \<and> y = a) \<or> (x \<in> set (b # xs) \<and> y \<in> set (b # xs))"
        using m n by (metis set_ConsD)
      then show "g x = g y" using ih m(3) by blast
    qed
  qed
qed simp_all

definition runs_keep_trip :: "transit_connection list \<Rightarrow> bool" where
  "runs_keep_trip cs \<longleftrightarrow> (\<forall>c\<in>set cs. \<forall>d\<in>set cs. run_index c = run_index d \<longrightarrow>
     trip_index c = trip_index d \<and> route_index c = route_index d)"

lemma run_chunks_one_trip: "(\<forall>run\<in>set (run_chunks cs). one_trip run) \<longleftrightarrow> runs_keep_trip cs" (is "?l = ?r")
proof
  assume l: ?l
  let ?f = "\<lambda>i. run_index (cs ! i)" and ?g = "\<lambda>i. (trip_index (cs ! i), route_index (cs ! i))"
  have "\<forall>c\<in>set (chunk_by (\<lambda>x y. ?f x = ?f y) (order_by_run cs)). \<forall>x\<in>set c. ?g x = ?g (hd c)"
  proof (intro ballI)
    fix c x assume c: "c \<in> set (chunk_by (\<lambda>x y. ?f x = ?f y) (order_by_run cs))" "x \<in> set c"
    then have "one_trip (map ((!) cs) c)" using l by (simp add: run_chunks_def)
    then show "?g x = ?g (hd c)" using c(2) by (cases c) (auto simp: one_trip_def)
  qed
  moreover have "sorted (map ?f (order_by_run cs))" by (simp add: order_by_run_sorts)
  ultimately have u: "\<forall>x\<in>set (order_by_run cs). \<forall>y\<in>set (order_by_run cs). ?f x = ?f y \<longrightarrow> ?g x = ?g y"
    by (intro chunk_by_uniform)
  have s: "set (order_by_run cs) = {0..<length cs}" by (simp add: order_by_run_sorts)
  show ?r unfolding runs_keep_trip_def
  proof (intro ballI impI)
    fix c d assume m: "c \<in> set cs" "d \<in> set cs" "run_index c = run_index d"
    obtain i j where ij: "i < length cs" "cs ! i = c" "j < length cs" "cs ! j = d"
      using m(1,2) by (metis in_set_conv_nth)
    then have "?f i = ?f j \<longrightarrow> ?g i = ?g j" using u unfolding s by (metis atLeastLessThan_iff zero_le)
    then show "trip_index c = trip_index d \<and> route_index c = route_index d"
      using m(3) by (simp add: ij)
  qed
next
  assume r: ?r
  show ?l
  proof
    fix run assume run: "run \<in> set (run_chunks cs)"
    have "set run \<subseteq> set (concat (run_chunks cs))" using run by auto
    then have sub: "set run \<subseteq> set cs" by (simp add: concat_run_chunks)
    show "one_trip run" unfolding one_trip_def
    proof
      fix c assume "c \<in> set run"
      moreover have "hd run \<in> set run" using run_chunk_same(1)[OF run] by simp
      ultimately show "trip_index c = trip_index (hd run) \<and> route_index c = route_index (hd run)"
        using r sub run_chunk_same(2)[OF run, of c] unfolding runs_keep_trip_def by blast
    qed
  qed
qed

lemma encode_patterns_None:
  "encode_patterns cs = None \<longleftrightarrow> \<not> (bundle_ordered cs \<and> runs_keep_trip cs)"
  using collect_runs_None[of "([], [])" "run_chunks cs"]
  unfolding encode_patterns_def run_chunks_def[symmetric] run_chunks_one_trip[symmetric]
  by (cases "collect_runs ([], []) (run_chunks cs)") (simp_all add: case_prod_unfold)

text \<open>C22: exactly the bundles in departure order whose vehicle runs keep their trip and route are packed;
  every other bundle is stored as plain bincode, tagged as such.\<close>

theorem packed_iff:
  "hd (encode_connections serialize cs)
    = (if bundle_ordered cs \<and> runs_keep_trip cs then KIND_PATTERNS else KIND_BINCODE)"
proof -
  note encode_patterns_None[of cs]
  moreover have "encode_patterns cs = Some bytes \<Longrightarrow> hd bytes = KIND_PATTERNS" for bytes
    unfolding encode_patterns_def by (auto split: if_splits option.splits)
  ultimately show ?thesis unfolding encode_connections_def
    by (cases "encode_patterns cs") auto
qed

text \<open>C20: the section round trips. Whatever form the encoder chooses, decoding its output gives back
  the same connections in the same order, provided bincode round trips and the indexes are in bounds.\<close>

theorem decode_encode_connections:
  assumes "\<forall>c\<in>set cs. in_bounds bounds c" "length cs < 2 ^ 32" "deserialize (serialize cs) = Inr cs"
  shows "decode_connections deserialize (encode_connections serialize cs) bounds = Inr cs"
proof (cases "encode_patterns cs")
  case None
  then show ?thesis using assms by (simp add: encode_connections_def decode_connections_def)
next
  case (Some bytes)
  obtain payload where "bytes = KIND_PATTERNS # payload" "decode_patterns payload = Inr cs"
    using decode_encode_patterns[OF Some assms(2)] by blast
  then show ?thesis using assms(1) Some
    by (simp add: encode_connections_def decode_connections_def KIND_BINCODE_def KIND_PATTERNS_def)
qed

text \<open>C23: whatever bytes it is given, the decoder only returns connections inside the bounds, and from a
  packed section in departure order.\<close>

theorem decoded_validated:
  assumes "decode_connections deserialize bytes bounds = Inr cs"
  shows "(\<forall>c\<in>set cs. in_bounds bounds c) \<and> (hd bytes = KIND_PATTERNS \<longrightarrow> sorted (map departure_s cs))"
proof -
  obtain kind payload where b: "bytes = kind # payload"
    using assms by (cases bytes) (simp_all add: decode_connections_def)
  have "sorted (map departure_s xs)" if "decode_patterns payload = Inr xs" for xs
    using that unfolding decode_patterns_def Let_def
    by (auto simp: result_bind_Inr_iff)
  then show ?thesis using assms
    by (auto simp: b decode_connections_def result_bind_Inr_iff ensure_def KIND_BINCODE_def KIND_PATTERNS_def
        split: if_splits)
qed


section \<open>A packed bundle\<close>

text \<open>Two runs of the same trip an hour apart (one pattern, stored once), interleaved with a run of
  another trip.\<close>

definition sample_bundle :: "transit_connection list" where
  "sample_bundle = map (\<lambda>(t, r, rt, a, b, d, e). \<lparr>trip_index = t, run_index = r, pickup_allowed = True,
       drop_off_allowed = (b = 2), route_index = rt, from_stop_index = a, to_stop_index = b,
       departure_s = d, arrival_s = e\<rparr>)
     [(0, 0, 0, 0, 1, 100, 160), (0, 0, 0, 1, 2, 170, 230), (1, 2, 1, 2, 0, 200, 900),
      (0, 1, 0, 0, 1, 3700, 3760), (0, 1, 0, 1, 2, 3770, 3830)]"

lemma bundle_ordered_Cons:
  "bundle_ordered (a # b # cs) \<longleftrightarrow>
    (departure_s a, run_index a) \<le> (departure_s b, run_index b) \<and> bundle_ordered (b # cs)"
proof -
  have "(\<forall>i. Suc i < length (a # b # cs) \<longrightarrow> P i) \<longleftrightarrow> P 0 \<and> (\<forall>i. Suc i < length (b # cs) \<longrightarrow> P (Suc i))" for P
    by (metis Suc_less_eq length_Cons not0_implies_Suc zero_less_Suc)
  then show ?thesis unfolding bundle_ordered_def by simp
qed

lemma sample_ordered: "bundle_ordered sample_bundle"
proof -
  have "bundle_ordered [c]" for c by (simp add: bundle_ordered_def)
  then show ?thesis by (simp add: sample_bundle_def bundle_ordered_Cons)
qed

lemma sample_keeps_trip: "runs_keep_trip sample_bundle"
  by (simp add: runs_keep_trip_def sample_bundle_def)

lemma sample_in_bounds:
  "\<forall>c\<in>set sample_bundle. in_bounds \<lparr>stops_bound = 3, routes_bound = 2, trips_bound = 2\<rparr> c"
  by (simp add: sample_bundle_def in_bounds_def)

theorem decode_encode_connections_witness:
  "decode_connections (\<lambda>_. Inr sample_bundle) (encode_connections (\<lambda>_. []) sample_bundle)
     \<lparr>stops_bound = 3, routes_bound = 2, trips_bound = 2\<rparr> = Inr sample_bundle"
  by (rule decode_encode_connections[OF sample_in_bounds]) (simp_all add: sample_bundle_def)

lemma sample_packed: "\<exists>bytes. encode_patterns sample_bundle = Some bytes \<and> 1 < length bytes"
proof -
  obtain bytes where b: "encode_patterns sample_bundle = Some bytes"
    using encode_patterns_None[of sample_bundle] sample_ordered sample_keeps_trip by auto
  then obtain rest where "bytes = KIND_PATTERNS # put_varint (word_of_nat (length sample_bundle)) @ rest"
    by (auto simp: encode_patterns_def split: if_splits option.splits)
  then show ?thesis using b put_varint_nonempty[of "word_of_nat (length sample_bundle)"] by simp
qed

theorem decoded_validated_witness:
  "\<exists>bytes. encode_patterns sample_bundle = Some bytes \<and>
    ((\<forall>c\<in>set sample_bundle. in_bounds \<lparr>stops_bound = 3, routes_bound = 2, trips_bound = 2\<rparr> c)
     \<and> (hd bytes = KIND_PATTERNS \<longrightarrow> sorted (map departure_s sample_bundle)))"
proof -
  obtain bytes where b: "encode_patterns sample_bundle = Some bytes" using sample_packed by blast
  have "decode_connections (\<lambda>_. Inl Bincode_Error) bytes \<lparr>stops_bound = 3, routes_bound = 2, trips_bound = 2\<rparr>
      = Inr sample_bundle"
    using decode_encode_patterns[OF b] sample_in_bounds
    by (auto simp: decode_connections_def KIND_BINCODE_def KIND_PATTERNS_def sample_bundle_def)
  then show ?thesis using b decoded_validated by blast
qed

theorem truncation_detected_witness:
  "\<exists>bytes e. encode_patterns sample_bundle = Some bytes
    \<and> decode_connections (\<lambda>_. Inr []) (take 1 bytes) \<lparr>stops_bound = 3, routes_bound = 2, trips_bound = 2\<rparr> = Inl e"
proof -
  obtain bytes where b: "encode_patterns sample_bundle = Some bytes" "1 < length bytes"
    using sample_packed by blast
  then show ?thesis
    using truncation_detected[OF b(1), of 1 "\<lambda>_. Inr []" "\<lparr>stops_bound = 3, routes_bound = 2, trips_bound = 2\<rparr>"]
    by (auto simp: sample_bundle_def)
qed

end
