(* ===== verification/State_Heap.thy ===== *)
theory State_Heap
  imports Prelude "HOL-Library.Multiset" "HOL-Library.Product_Lexorder"
begin

unbundle bit_operations_syntax

text \<open>
  The 4-ary queue of the label-setting searches (\<open>crates/query/src/engine/state_heap.rs\<close>). An entry
  is the bit pattern of its \<open>f64\<close> cost, mapped to an unsigned key, with its edge and automaton
  state. The locale \<open>min_queue\<close> states what a search needs of a queue; the heap provides it.
\<close>

section \<open>Entries\<close>

record heap_entry =
  key :: u64
  entry_edge :: u32
  entry_state :: u32

text \<open>Costs are given by their bits (\<open>f64::to_bits\<close>).\<close>

definition cost_key :: "u64 \<Rightarrow> u64" where
  "cost_key bits = (if drop_bit 63 bits = 1 then NOT bits else bits OR push_bit 63 1)"

definition heap_entry_new :: "u64 \<Rightarrow> nat \<Rightarrow> nat \<Rightarrow> heap_entry option" where
  "heap_entry_new cost edge automaton_state =
     (if edge < 2 ^ 32 \<and> automaton_state < 2 ^ 32
      then Some \<lparr>key = cost_key cost, entry_edge = word_of_nat edge, entry_state = word_of_nat automaton_state\<rparr>
      else None)"

definition entry_cost :: "heap_entry \<Rightarrow> u64" where
  "entry_cost e = (if drop_bit 63 (key e) = 1 then key e AND NOT (push_bit 63 1) else NOT (key e))"

definition precedes :: "heap_entry \<Rightarrow> heap_entry \<Rightarrow> bool" where
  "precedes a b \<longleftrightarrow> (key a, entry_edge b, entry_state b) < (key b, entry_edge a, entry_state a)"

section \<open>Heap operations\<close>

definition ARITY :: nat where "ARITY = 4"

definition heap_clear :: "heap_entry list \<Rightarrow> heap_entry list" where
  "heap_clear entries = []"

text \<open>The bits of \<open>f64::INFINITY\<close>.\<close>

definition INFINITY_BITS :: u64 where "INFINITY_BITS = 0x7FF0000000000000"

definition peek_cost :: "heap_entry list \<Rightarrow> u64" where
  "peek_cost entries = (case entries of [] \<Rightarrow> INFINITY_BITS | e # _ \<Rightarrow> entry_cost e)"

function sift_up :: "heap_entry \<Rightarrow> heap_entry list \<Rightarrow> nat \<Rightarrow> heap_entry list" where
  "sift_up entry entries position =
     (if position = 0 then entries[position := entry]
      else let parent = (position - 1) div ARITY
        in if \<not> precedes entry (entries ! parent) then entries[position := entry]
           else sift_up entry (entries[position := entries ! parent]) parent)"
  by pat_completeness auto
termination
  by (relation "measure (\<lambda>(_, _, position). position)") (auto simp: ARITY_def)

declare sift_up.simps [simp del]

text \<open>\<open>None\<close> is the panic of the two \<open>expect\<close> calls.\<close>

definition heap_push :: "heap_entry list \<Rightarrow> nat \<Rightarrow> nat \<Rightarrow> u64 \<Rightarrow> heap_entry list option" where
  "heap_push entries edge automaton_state cost =
     (case heap_entry_new cost edge automaton_state of None \<Rightarrow> None
      | Some entry \<Rightarrow> Some (sift_up entry (entries @ [entry]) (length entries)))"

definition best_child :: "heap_entry list \<Rightarrow> nat \<Rightarrow> nat" where
  "best_child entries first_child =
     foldl (\<lambda>best child. if precedes (entries ! child) (entries ! best) then child else best)
       first_child [first_child + 1..<min (first_child + ARITY) (length entries)]"

lemma foldl_select: "foldl (\<lambda>b c. if P c b then c else b) x xs \<in> set (x # xs)"
  by (induction xs arbitrary: x) (auto split: if_splits)

lemma best_child_range:
  "first_child < length entries \<Longrightarrow>
    first_child \<le> best_child entries first_child \<and> best_child entries first_child < length entries
    \<and> best_child entries first_child < first_child + ARITY"
  using foldl_select[of "\<lambda>c b. precedes (entries ! c) (entries ! b)" first_child
      "[first_child + 1..<min (first_child + ARITY) (length entries)]"]
  by (auto simp: best_child_def ARITY_def)

function sift_down :: "heap_entry \<Rightarrow> heap_entry list \<Rightarrow> nat \<Rightarrow> heap_entry list" where
  "sift_down last_entry entries position =
     (let first_child = position * ARITY + 1
      in if length entries \<le> first_child then entries[position := last_entry]
         else let best = best_child entries first_child
           in if \<not> precedes (entries ! best) last_entry then entries[position := last_entry]
              else sift_down last_entry (entries[position := entries ! best]) best)"
  by pat_completeness auto
termination
proof (relation "measure (\<lambda>(_, entries, position). length entries - position)")
  fix last_entry entries position x xa
  assume x: "x = position * ARITY + 1" "\<not> length entries \<le> x" "xa = best_child entries x"
  then have "x \<le> xa" "xa < length entries" using best_child_range[of x entries] by auto
  then show "((last_entry, entries[position := entries ! xa], xa), last_entry, entries, position)
      \<in> measure (\<lambda>(_, entries, position). length entries - position)"
    using x(1) by (auto simp: ARITY_def)
qed simp

declare sift_down.simps [simp del]

definition heap_pop :: "heap_entry list \<Rightarrow> ((nat \<times> nat \<times> u64) \<times> heap_entry list) option" where
  "heap_pop entries = (case entries of [] \<Rightarrow> None
    | first_entry # _ \<Rightarrow>
        (let last_entry = last entries; rest = butlast entries;
             rest = (if rest = [] then rest else sift_down last_entry rest 0)
         in Some ((unat (entry_edge first_entry), unat (entry_state first_entry), entry_cost first_entry), rest)))"

section \<open>The order of entries\<close>

lemma precedes_irrefl: "\<not> precedes a a"
  by (simp add: precedes_def)

lemma precedes_trans: "precedes a b \<Longrightarrow> precedes b c \<Longrightarrow> precedes a c"
  by (auto simp: precedes_def)

lemma precedes_total: "precedes a b \<or> precedes b a \<or> a = b"
  by (cases a; cases b) (auto simp: precedes_def)

lemma not_precedes_trans: "\<not> precedes b a \<Longrightarrow> \<not> precedes c b \<Longrightarrow> \<not> precedes c a"
  using precedes_total precedes_trans by metis

lemma precedes_asym: "precedes a b \<Longrightarrow> \<not> precedes b a"
  using precedes_irrefl precedes_trans by blast

section \<open>The heap invariant\<close>

definition parent_of_slot :: "nat \<Rightarrow> nat" where
  "parent_of_slot i = (i - 1) div ARITY"

definition is_heap :: "heap_entry list \<Rightarrow> bool" where
  "is_heap es \<longleftrightarrow> (\<forall>i<length es. 0 < i \<longrightarrow> \<not> precedes (es ! i) (es ! parent_of_slot i))"

lemma parent_less: "0 < i \<Longrightarrow> parent_of_slot i < i"
  by (simp add: parent_of_slot_def ARITY_def)

lemma child_range: "0 < c \<Longrightarrow> parent_of_slot c = p \<longleftrightarrow> p * ARITY + 1 \<le> c \<and> c < p * ARITY + 1 + ARITY"
  by (auto simp: parent_of_slot_def ARITY_def)

lemma heap_root_least: "is_heap es \<Longrightarrow> i < length es \<Longrightarrow> \<not> precedes (es ! i) (es ! 0)"
proof (induction i rule: less_induct)
  case (less i)
  show ?case
  proof (cases "i = 0")
    case False
    then have "parent_of_slot i < i" by (simp add: parent_less)
    then have "\<not> precedes (es ! parent_of_slot i) (es ! 0)" using less by simp
    moreover have "\<not> precedes (es ! i) (es ! parent_of_slot i)" using less.prems False by (simp add: is_heap_def)
    ultimately show ?thesis by (rule not_precedes_trans)
  qed (simp add: precedes_irrefl)
qed

text \<open>A heap with a hole at \<open>position\<close>: every pair that does not touch the hole is in order, and the
  hole's parent is in order with the hole's children.\<close>

definition holed :: "heap_entry list \<Rightarrow> nat \<Rightarrow> bool" where
  "holed es position \<longleftrightarrow> position < length es
     \<and> (\<forall>i<length es. 0 < i \<longrightarrow> i \<noteq> position \<longrightarrow> parent_of_slot i \<noteq> position \<longrightarrow>
          \<not> precedes (es ! i) (es ! parent_of_slot i))
     \<and> (\<forall>c<length es. 0 < c \<longrightarrow> parent_of_slot c = position \<longrightarrow> 0 < position \<longrightarrow>
          \<not> precedes (es ! c) (es ! parent_of_slot position))"

definition below_children :: "heap_entry \<Rightarrow> heap_entry list \<Rightarrow> nat \<Rightarrow> bool" where
  "below_children e es position \<longleftrightarrow>
     (\<forall>c<length es. 0 < c \<longrightarrow> parent_of_slot c = position \<longrightarrow> \<not> precedes (es ! c) e)"

lemma fill_hole:
  assumes "holed es position" "below_children e es position"
    "0 < position \<Longrightarrow> \<not> precedes e (es ! parent_of_slot position)"
  shows "is_heap (es[position := e])"
  unfolding is_heap_def
proof (intro allI impI)
  fix i assume i: "i < length (es[position := e])" "0 < i"
  have p: "parent_of_slot i < i" using i(2) by (rule parent_less)
  show "\<not> precedes (es[position := e] ! i) (es[position := e] ! parent_of_slot i)"
  proof (cases "i = position")
    case True
    then show ?thesis using assms(3) i p by simp
  next
    case False
    show ?thesis
    proof (cases "parent_of_slot i = position")
      case True
      then show ?thesis using assms(2) i False p by (simp add: below_children_def)
    next
      case parent: False
      then show ?thesis using assms(1) i False by (simp add: holed_def)
    qed
  qed
qed

lemma mset_move_hole:
  assumes "position < length es" "q < length es" "q \<noteq> position"
  shows "mset (es[position := es ! q, q := e]) = mset (es[position := e])"
proof -
  have "es[position := e, q := (es[position := e]) ! q, position := (es[position := e]) ! q, q := e]
      = es[position := es ! q, q := e]"
    using assms by (metis list_update_overwrite list_update_swap nth_list_update_neq)
  moreover have "mset ((es[position := e])[q := (es[position := e]) ! position,
      position := (es[position := e]) ! q]) = mset (es[position := e])"
    using assms by (intro mset_swap) simp_all
  ultimately show ?thesis using assms by (metis list_update_overwrite list_update_swap nth_list_update_eq nth_list_update_neq)
qed

section \<open>Sifting\<close>

lemma sift_up_heap:
  assumes "holed es position" "below_children e es position"
  shows "is_heap (sift_up e es position) \<and> mset (sift_up e es position) = mset (es[position := e])"
  using assms
proof (induction e es position rule: sift_up.induct)
  case (1 e es position)
  let ?p = "parent_of_slot position"
  show ?case
  proof (cases "position = 0 \<or> \<not> precedes e (es ! ?p)")
    case True
    then have "sift_up e es position = es[position := e]"
      by (subst sift_up.simps) (auto simp: parent_of_slot_def Let_def)
    then show ?thesis using fill_hole[OF "1.prems"] True by auto
  next
    case False
    then have pos: "0 < position" and pr: "precedes e (es ! ?p)" by auto
    have p: "?p < position" using pos by (rule parent_less)
    have len: "position < length es" using "1.prems"(1) by (simp add: holed_def)
    let ?es = "es[position := es ! ?p]"
    have up: "sift_up e es position = sift_up e ?es ?p"
      using pos pr by (subst sift_up.simps) (simp add: parent_of_slot_def Let_def)
    have h: "\<not> precedes (es ! i) (es ! parent_of_slot i)"
      if "i < length es" "0 < i" "i \<noteq> position" "parent_of_slot i \<noteq> position" for i
      using "1.prems"(1) that by (simp add: holed_def)
    have hp: "\<not> precedes (es ! ?p) (es ! parent_of_slot ?p)" if "0 < ?p"
      using h[of ?p] that p len parent_less[of ?p] by auto
    have hc: "\<not> precedes (es ! c) (es ! ?p)" if "c < length es" "0 < c" "parent_of_slot c = position" for c
      using "1.prems"(1) that pos by (simp add: holed_def)
    have holed: "holed ?es ?p"
      unfolding holed_def
    proof (intro conjI allI impI)
      show "?p < length ?es" using p len by simp
    next
      fix i assume i: "i < length ?es" "0 < i" "i \<noteq> ?p" "parent_of_slot i \<noteq> ?p"
      then have "i \<noteq> position" by auto
      then show "\<not> precedes (?es ! i) (?es ! parent_of_slot i)"
        using h[of i] hc[of i] i len by (cases "parent_of_slot i = position") simp_all
    next
      fix c assume c: "c < length ?es" "0 < c" "parent_of_slot c = ?p" "0 < ?p"
      have "parent_of_slot ?p \<noteq> position" using parent_less[OF c(4)] p by simp
      show "\<not> precedes (?es ! c) (?es ! parent_of_slot ?p)"
      proof (cases "c = position")
        case True
        then show ?thesis using hp[OF c(4)] \<open>parent_of_slot ?p \<noteq> position\<close> len by simp
      next
        case False
        have "\<not> precedes (es ! c) (es ! ?p)" using h[of c] c False p by simp
        with hp[OF c(4)] have "\<not> precedes (es ! c) (es ! parent_of_slot ?p)" by (rule not_precedes_trans)
        then show ?thesis using False \<open>parent_of_slot ?p \<noteq> position\<close> by simp
      qed
    qed
    have below: "below_children e ?es ?p"
      unfolding below_children_def
    proof (intro allI impI)
      fix c assume c: "c < length ?es" "0 < c" "parent_of_slot c = ?p"
      have np: "\<not> precedes (es ! ?p) e" using pr by (rule precedes_asym)
      show "\<not> precedes (?es ! c) e"
      proof (cases "c = position")
        case True
        then show ?thesis using np len by simp
      next
        case False
        then have "\<not> precedes (es ! c) (es ! ?p)" using h[of c] c p by simp
        with np have "\<not> precedes (es ! c) e" by (rule not_precedes_trans)
        then show ?thesis using False by simp
      qed
    qed
    have ih: "is_heap (sift_up e ?es ?p) \<and> mset (sift_up e ?es ?p) = mset (?es[?p := e])"
      using "1.IH"[OF _ refl] pos pr holed below by (simp add: parent_of_slot_def)
    then show ?thesis using mset_move_hole[OF len, of ?p e] p len by (simp add: up)
  qed
qed

lemma best_child_least:
  assumes "first_child < length es" "first_child \<le> c" "c < length es" "c < first_child + ARITY"
  shows "\<not> precedes (es ! c) (es ! best_child es first_child)"
proof -
  let ?f = "\<lambda>best child. if precedes (es ! child) (es ! best) then child else best"
  have least: "\<forall>c\<in>set (b # cs). \<not> precedes (es ! c) (es ! foldl ?f b cs)" for b cs
  proof (induction cs arbitrary: b)
    case (Cons x cs)
    let ?b = "?f b x"
    have ih: "\<forall>c\<in>set (?b # cs). \<not> precedes (es ! c) (es ! foldl ?f ?b cs)" by (rule Cons.IH)
    have "\<not> precedes (es ! x) (es ! ?b)" "\<not> precedes (es ! b) (es ! ?b)"
      by (auto simp: precedes_irrefl precedes_asym)
    moreover have "\<not> precedes (es ! ?b) (es ! foldl ?f ?b cs)" using ih by simp
    ultimately have "\<not> precedes (es ! x) (es ! foldl ?f ?b cs)" "\<not> precedes (es ! b) (es ! foldl ?f ?b cs)"
      using not_precedes_trans by blast+
    then show ?case using ih by simp
  qed (simp add: precedes_irrefl)
  have "c \<in> set (first_child # [first_child + 1..<min (first_child + ARITY) (length es)])"
    using assms by auto
  then show ?thesis using least unfolding best_child_def by blast
qed

lemma sift_down_heap:
  assumes "holed es position" "0 < position \<Longrightarrow> \<not> precedes e (es ! parent_of_slot position)"
  shows "is_heap (sift_down e es position) \<and> mset (sift_down e es position) = mset (es[position := e])"
  using assms
proof (induction e es position rule: sift_down.induct)
  case (1 e es position)
  let ?c = "position * ARITY + 1"
  define b where "b = best_child es ?c"
  have len: "position < length es" using "1.prems"(1) by (simp add: holed_def)
  have h: "\<not> precedes (es ! i) (es ! parent_of_slot i)"
    if "i < length es" "0 < i" "i \<noteq> position" "parent_of_slot i \<noteq> position" for i
    using "1.prems"(1) that by (simp add: holed_def)
  show ?case
  proof (cases "length es \<le> ?c \<or> \<not> precedes (es ! b) e")
    case True
    then have s: "sift_down e es position = es[position := e]"
      by (subst sift_down.simps) (auto simp: Let_def b_def)
    have "below_children e es position"
      unfolding below_children_def
    proof (intro allI impI)
      fix c assume c: "c < length es" "0 < c" "parent_of_slot c = position"
      then have r: "?c \<le> c" "c < ?c + ARITY" using child_range by simp_all
      then have "\<not> precedes (es ! b) e" using True c(1) by auto
      moreover have "\<not> precedes (es ! c) (es ! b)"
        using r c(1) unfolding b_def by (intro best_child_least) simp_all
      ultimately show "\<not> precedes (es ! c) e" by (rule not_precedes_trans)
    qed
    then show ?thesis using fill_hole[OF "1.prems"(1) _ "1.prems"(2)] by (simp add: s)
  next
    case False
    then have c: "?c < length es" and pr: "precedes (es ! b) e" by auto
    have br: "?c \<le> b" "b < length es" "b < ?c + ARITY"
      using best_child_range[OF c] by (auto simp: b_def)
    have pb: "parent_of_slot b = position" using br child_range[of b position] by simp
    have bp: "0 < b" "position < b" using br(1) by (auto simp: ARITY_def)
    let ?es = "es[position := es ! b]"
    have down: "sift_down e es position = sift_down e ?es b"
      using c pr by (subst sift_down.simps) (simp add: Let_def b_def)
    have "holed ?es b"
      unfolding holed_def
    proof (intro conjI allI impI)
      show "b < length ?es" using br(2) by simp
    next
      fix i assume i: "i < length ?es" "0 < i" "i \<noteq> b" "parent_of_slot i \<noteq> b"
      show "\<not> precedes (?es ! i) (?es ! parent_of_slot i)"
      proof (cases "i = position")
        case True
        have q: "parent_of_slot position \<noteq> position" using i(2) parent_less[of position] True by simp
        have "\<not> precedes (es ! b) (es ! parent_of_slot position)"
          using "1.prems"(1) pb br(2) bp(1) i(2) True by (simp add: holed_def)
        then show ?thesis using True q len by simp
      next
        case False
        show ?thesis
        proof (cases "parent_of_slot i = position")
          case True
          then have "?c \<le> i" "i < ?c + ARITY" using child_range i(2) by simp_all
          then have "\<not> precedes (es ! i) (es ! b)" using i(1) c unfolding b_def by (intro best_child_least) simp_all
          then show ?thesis using True False len by simp
        next
          case parent: False
          then show ?thesis using h[of i] i False by simp
        qed
      qed
    next
      fix c assume c: "c < length ?es" "0 < c" "parent_of_slot c = b"
      have "c \<noteq> position" using parent_less[OF c(2)] c(3) bp(2) by simp
      then have "\<not> precedes (es ! c) (es ! b)" using h[of c] c bp(2) by simp
      then show "\<not> precedes (?es ! c) (?es ! parent_of_slot b)"
        using \<open>c \<noteq> position\<close> len by (simp add: pb)
    qed
    moreover have "\<not> precedes e (?es ! parent_of_slot b)"
      using precedes_asym[OF pr] len by (simp add: pb)
    ultimately have ih: "is_heap (sift_down e ?es b) \<and> mset (sift_down e ?es b) = mset (?es[b := e])"
      using "1.IH"[OF refl _ refl] c pr by (simp add: b_def)
    then show ?thesis using mset_move_hole[OF len br(2), of e] bp(2) by (simp add: down)
  qed
qed

section \<open>Push and pop\<close>

definition sift_in :: "heap_entry list \<Rightarrow> heap_entry \<Rightarrow> heap_entry list" where
  "sift_in entries entry = sift_up entry (entries @ [entry]) (length entries)"

lemma heap_sift_in:
  assumes "is_heap es"
  shows "is_heap (sift_in es e)" "mset (sift_in es e) = add_mset e (mset es)"
proof -
  have none: "parent_of_slot c \<noteq> length es" if "c < length (es @ [e])" "0 < c" for c
    using parent_less[OF that(2)] that(1) by simp
  have "holed (es @ [e]) (length es)"
    unfolding holed_def using none
    by (auto simp: nth_append is_heap_def[THEN iffD1, OF assms] dest: parent_less)
  moreover have "below_children e (es @ [e]) (length es)"
    unfolding below_children_def using none by blast
  ultimately have "is_heap (sift_in es e) \<and> mset (sift_in es e) = mset ((es @ [e])[length es := e])"
    unfolding sift_in_def by (rule sift_up_heap)
  then show "is_heap (sift_in es e)" "mset (sift_in es e) = add_mset e (mset es)" by simp_all
qed

definition pop_rest :: "heap_entry list \<Rightarrow> heap_entry list" where
  "pop_rest entries = (let rest = butlast entries in if rest = [] then rest else sift_down (last entries) rest 0)"

lemma heap_pop_rest:
  assumes "is_heap es" "es \<noteq> []"
  shows "is_heap (pop_rest es)" "mset es = add_mset (hd es) (mset (pop_rest es))"
proof -
  have es: "es = butlast es @ [last es]" using assms(2) by simp
  have "is_heap (pop_rest es) \<and> mset es = add_mset (hd es) (mset (pop_rest es))"
  proof (cases "butlast es = []")
    case True
    then have "es = [last es]" using es by simp
    then obtain x where "es = [x]" by blast
    then show ?thesis by (simp add: pop_rest_def is_heap_def)
  next
    case False
    let ?r = "butlast es"
    have "\<not> precedes (?r ! i) (?r ! parent_of_slot i)" if "i < length ?r" "0 < i" for i
      using assms(1) that parent_less[OF that(2)] by (simp add: is_heap_def nth_butlast)
    moreover have "0 < length ?r" using False unfolding length_greater_0_conv .
    ultimately have "holed ?r 0" by (auto simp: holed_def simp del: length_butlast)
    then have "is_heap (sift_down (last es) ?r 0) \<and> mset (sift_down (last es) ?r 0) = mset (?r[0 := last es])"
      by (rule sift_down_heap) simp
    moreover have "mset es = add_mset (hd es) (mset (?r[0 := last es]))"
    proof -
      obtain x xs where r: "?r = x # xs" using False by (cases ?r) auto
      define l where "l = last es"
      have "es = x # xs @ [l]" using es unfolding r l_def by simp
      then show ?thesis unfolding r l_def[symmetric] by simp
    qed
    ultimately show ?thesis using False by (simp add: pop_rest_def Let_def)
  qed
  then show "is_heap (pop_rest es)" "mset es = add_mset (hd es) (mset (pop_rest es))" by simp_all
qed

section \<open>The interface of a search queue\<close>

text \<open>What a label-setting search needs: pushing adds one element to the content, popping removes one
  that nothing left in the queue comes before.\<close>

locale min_queue =
  fixes empty_queue :: 'q and push :: "'q \<Rightarrow> 'e \<Rightarrow> 'q" and pop :: "'q \<Rightarrow> ('e \<times> 'q) option"
    and content :: "'q \<Rightarrow> 'e multiset" and valid :: "'q \<Rightarrow> bool" and before :: "'e \<Rightarrow> 'e \<Rightarrow> bool"
  assumes valid_empty: "valid empty_queue"
    and content_empty: "content empty_queue = {#}"
    and valid_push: "valid q \<Longrightarrow> valid (push q e)"
    and content_push: "valid q \<Longrightarrow> content (push q e) = add_mset e (content q)"
    and pop_None: "valid q \<Longrightarrow> pop q = None \<longleftrightarrow> content q = {#}"
    and valid_pop: "valid q \<Longrightarrow> pop q = Some (e, q') \<Longrightarrow> valid q'"
    and content_pop: "valid q \<Longrightarrow> pop q = Some (e, q') \<Longrightarrow> content q = add_mset e (content q')"
    and pop_first: "valid q \<Longrightarrow> pop q = Some (e, q') \<Longrightarrow> x \<in># content q' \<Longrightarrow> \<not> before x e"
    and before_total: "\<not> before x y \<Longrightarrow> \<not> before y x \<Longrightarrow> x = y"
    and before_asym: "before x y \<Longrightarrow> \<not> before y x"
begin

lemma pop_determined:
  assumes "valid q" "pop q = Some (e, q')" "x \<in># content q" "\<forall>y\<in>#content q. \<not> before y x"
  shows "x = e"
proof (cases "x = e")
  case False
  then have "x \<in># content q'" using assms(3) content_pop[OF assms(1,2)] by simp
  then have "\<not> before x e" by (rule pop_first[OF assms(1,2)])
  moreover have "\<not> before e x" using assms(4) content_pop[OF assms(1,2)] by simp
  ultimately show ?thesis by (rule before_total)
qed

lemma pop_exists: "valid q \<Longrightarrow> x \<in># content q \<Longrightarrow> \<exists>e q'. pop q = Some (e, q')"
  using pop_None by (cases "pop q") auto

end

definition pop_entry :: "heap_entry list \<Rightarrow> (heap_entry \<times> heap_entry list) option" where
  "pop_entry es = (if es = [] then None else Some (hd es, pop_rest es))"

interpretation hq: min_queue "[]" sift_in pop_entry mset is_heap precedes
proof
  fix q :: "heap_entry list" and e q' x
  assume q: "is_heap q"
  show "is_heap (sift_in q e)" "mset (sift_in q e) = add_mset e (mset q)"
    by (rule heap_sift_in[OF q])+
  show "pop_entry q = None \<longleftrightarrow> mset q = {#}" by (simp add: pop_entry_def)
  assume p: "pop_entry q = Some (e, q')"
  then have n: "q \<noteq> []" "e = hd q" "q' = pop_rest q" by (auto simp: pop_entry_def split: if_splits)
  show "is_heap q'" "mset q = add_mset e (mset q')" using heap_pop_rest[OF q n(1)] n by simp_all
  then have "set_mset (mset q') \<subseteq> set_mset (mset q)" by auto
  moreover assume "x \<in># mset q'"
  ultimately have "x \<in> set q" by auto
  then obtain i where "i < length q" "x = q ! i" by (metis in_set_conv_nth)
  then show "\<not> precedes x e" using heap_root_least[OF q] n by (simp add: hd_conv_nth)
next
  fix x y
  show "\<not> precedes x y \<Longrightarrow> \<not> precedes y x \<Longrightarrow> x = y" using precedes_total by blast
  show "precedes x y \<Longrightarrow> \<not> precedes y x" by (rule precedes_asym)
qed (simp_all add: is_heap_def)

section \<open>Keys\<close>

text \<open>\<open>f64::total_cmp\<close> compares these patterns as signed integers (its definition in the standard
  library).\<close>

definition total_bits :: "u64 \<Rightarrow> u64" where
  "total_bits b = b XOR drop_bit 1 (signed_drop_bit 63 b)"

lemma sign_bit: "drop_bit 63 (b :: u64) = 1 \<longleftrightarrow> bit b 63"
proof
  assume "drop_bit 63 b = 1"
  then have "bit (drop_bit 63 b) 0" by simp
  then show "bit b 63" by (simp add: bit_drop_bit_eq)
next
  assume b: "bit b 63"
  show "drop_bit 63 b = 1"
  proof (rule bit_word_eqI)
    fix i assume "i < LENGTH(64)"
    show "bit (drop_bit 63 b) i \<longleftrightarrow> bit (1 :: u64) i"
      using b bit_imp_le_length[of b "63 + i"] by (cases i) (auto simp: bit_drop_bit_eq bit_1_iff)
  qed
qed

lemma key_bits: "i < 64 \<Longrightarrow> bit (cost_key b) i \<longleftrightarrow> (if bit b 63 then \<not> bit b i else i = 63 \<or> bit b i)"
  unfolding cost_key_def sign_bit by (auto simp: bit_not_iff bit_or_iff bit_push_bit_iff bit_1_iff simp del: push_bit_of_1)

lemma total_bits_bits: "i < 64 \<Longrightarrow> bit (total_bits b) i \<longleftrightarrow> (if i = 63 \<or> \<not> bit b 63 then bit b i else \<not> bit b i)"
proof -
  assume i: "i < 64"
  have "bit (drop_bit 1 (signed_drop_bit 63 b)) i \<longleftrightarrow> i < 63 \<and> bit b 63"
  proof -
    have "bit (drop_bit 1 (signed_drop_bit 63 b)) i \<longleftrightarrow> bit (signed_drop_bit 63 b) (Suc i)"
      by (simp add: bit_drop_bit_eq)
    also have "\<dots> \<longleftrightarrow> i < 63 \<and> bit b 63"
      using i bit_imp_le_length[of "signed_drop_bit 63 b" "Suc i"]
      by (auto simp: bit_signed_drop_bit_iff)
    finally show ?thesis .
  qed
  then show ?thesis using i by (auto simp: total_bits_def bit_xor_iff)
qed

lemma key_total_bits: "cost_key b = total_bits b XOR push_bit 63 1"
proof (rule bit_word_eqI)
  fix i assume "i < LENGTH(64)"
  then have i: "i < 64" by simp
  show "bit (cost_key b) i \<longleftrightarrow> bit (total_bits b XOR push_bit 63 1) i"
    unfolding bit_xor_iff bit_push_bit_iff key_bits[OF i] total_bits_bits[OF i]
    using i by (auto simp: bit_1_iff)
qed

lemma bit_sign: "bit (push_bit 63 1 :: u64) n \<longleftrightarrow> n = 63"
  unfolding bit_push_bit_iff bit_1_iff by auto

lemma xor_sign: "x XOR push_bit 63 1 = x + (push_bit 63 1 :: u64)"
proof (cases "bit x 63")
  case False
  have d: "\<not> bit x n \<or> \<not> bit (push_bit 63 1 :: u64) n" for n
    using False unfolding bit_sign by auto
  then have "x + push_bit 63 1 = x OR push_bit 63 1" by (rule disjunctive_add)
  also have "\<dots> = x XOR push_bit 63 1"
    using d by (intro bit_word_eqI) (unfold bit_or_iff bit_xor_iff, blast)
  finally show ?thesis by simp
next
  case True
  let ?s = "push_bit 63 1 :: u64" and ?y = "x XOR push_bit 63 1"
  have y: "\<not> bit ?y 63" using True unfolding bit_xor_iff bit_sign by simp
  have d: "\<not> bit ?y n \<or> \<not> bit ?s n" for n
    using y unfolding bit_sign by auto
  then have "?y + ?s = ?y OR ?s" by (rule disjunctive_add)
  also have "\<dots> = x"
    using True by (intro bit_word_eqI) (unfold bit_or_iff bit_xor_iff bit_sign, auto)
  finally have e: "?y + ?s + ?s = x + ?s" by (rule arg_cong)
  have "?y + ?s + ?s = ?y" unfolding add.assoc by simp
  then show ?thesis using e by (rule trans[OF sym])
qed

lemma uint_xor_sign: "uint (x XOR push_bit 63 (1 :: u64)) = sint x + 2 ^ 63"
proof -
  have b: "- (2 ^ 63) \<le> sint x" "sint x < 2 ^ 63" using sint_range_size[of x] by (simp_all add: word_size)
  have "uint (x XOR push_bit 63 1) = (uint x + 2 ^ 63) mod 2 ^ 64"
    unfolding xor_sign by (simp add: uint_word_ariths)
  also have "uint x = sint x mod 2 ^ 64" by (simp add: uint_sint take_bit_eq_mod)
  also have "(sint x mod 2 ^ 64 + 2 ^ 63) mod 2 ^ 64 = (sint x + 2 ^ 63) mod 2 ^ 64" by (rule mod_add_left_eq)
  also have "(sint x + 2 ^ 63) mod 2 ^ 64 = sint x + 2 ^ 63" using b by (intro mod_pos_pos_trivial) simp_all
  finally show ?thesis .
qed

text \<open>Keys are compared as \<open>f64::total_cmp\<close> compares the costs.\<close>

lemma key_less_iff: "cost_key a < cost_key b \<longleftrightarrow> sint (total_bits a) < sint (total_bits b)"
  unfolding word_less_def key_total_bits uint_xor_sign by simp

lemma entry_cost_key: "key e = cost_key c \<Longrightarrow> entry_cost e = c"
proof (rule bit_word_eqI)
  fix i assume e: "key e = cost_key c" and "i < LENGTH(64)"
  then have i: "i < 64" by simp
  show "bit (entry_cost e) i \<longleftrightarrow> bit c i"
    unfolding entry_cost_def sign_bit e key_bits[of 63, simplified]
    using i by (auto simp: bit_not_iff bit_and_iff bit_sign key_bits[OF i] simp del: push_bit_of_1)
qed

lemma total_bits_inj: "total_bits a = total_bits b \<Longrightarrow> a = b"
proof -
  assume "total_bits a = total_bits b"
  then have "cost_key a = cost_key b" by (simp add: key_total_bits)
  then show ?thesis using entry_cost_key[of "\<lparr>key = cost_key a, entry_edge = 0, entry_state = 0\<rparr>"]
    by (metis heap_entry.select_convs(1))
qed
section \<open>Sequences of operations\<close>

text \<open>
  The reference queue is a bag of \<open>(edge, automaton_state, cost)\<close>. Popping takes the lowest cost in
  the order of \<open>f64::total_cmp\<close>; among equal costs the highest edge, then the highest state.
\<close>

datatype queue_op = Push nat nat u64 | Pop

definition earlier :: "nat \<times> nat \<times> u64 \<Rightarrow> nat \<times> nat \<times> u64 \<Rightarrow> bool" where
  "earlier x y \<longleftrightarrow> (case (x, y) of ((e, a, c), (e', a', c')) \<Rightarrow>
     sint (total_bits c) < sint (total_bits c') \<or> c = c' \<and> (e' < e \<or> e = e' \<and> a' < a))"

fun earliest :: "nat \<times> nat \<times> u64 \<Rightarrow> (nat \<times> nat \<times> u64) list \<Rightarrow> nat \<times> nat \<times> u64" where
  "earliest x [] = x"
| "earliest x (y # ys) = earliest (if earlier y x then y else x) ys"

fun bag_run :: "(nat \<times> nat \<times> u64) list \<Rightarrow> queue_op list \<Rightarrow> (nat \<times> nat \<times> u64) option list option" where
  "bag_run bag [] = Some []"
| "bag_run bag (Push e a c # ops) = (if e < 2 ^ 32 \<and> a < 2 ^ 32 then bag_run ((e, a, c) # bag) ops else None)"
| "bag_run bag (Pop # ops) = (case bag of [] \<Rightarrow> map_option (Cons None) (bag_run bag ops)
    | x # xs \<Rightarrow> (let y = earliest x xs in map_option (Cons (Some y)) (bag_run (remove1 y bag) ops)))"

fun heap_run :: "heap_entry list \<Rightarrow> queue_op list \<Rightarrow> (nat \<times> nat \<times> u64) option list option" where
  "heap_run es [] = Some []"
| "heap_run es (Push e a c # ops) = (case heap_push es e a c of None \<Rightarrow> None | Some es' \<Rightarrow> heap_run es' ops)"
| "heap_run es (Pop # ops) = (case heap_pop es of None \<Rightarrow> map_option (Cons None) (heap_run es ops)
    | Some (x, es') \<Rightarrow> map_option (Cons (Some x)) (heap_run es' ops))"

definition triple :: "heap_entry \<Rightarrow> nat \<times> nat \<times> u64" where
  "triple e = (unat (entry_edge e), unat (entry_state e), entry_cost e)"

definition keyed :: "heap_entry \<Rightarrow> bool" where
  "keyed e \<longleftrightarrow> key e = cost_key (entry_cost e)"

lemma precedes_earlier: "keyed a \<Longrightarrow> keyed b \<Longrightarrow> precedes a b \<longleftrightarrow> earlier (triple a) (triple b)"
proof -
  assume k: "keyed a" "keyed b"
  have "key a = key b \<longleftrightarrow> entry_cost a = entry_cost b"
    using k entry_cost_key unfolding keyed_def by metis
  moreover have "key a < key b \<longleftrightarrow> sint (total_bits (entry_cost a)) < sint (total_bits (entry_cost b))"
    using k key_less_iff unfolding keyed_def by metis
  moreover have "precedes a b \<longleftrightarrow> key a < key b \<or> key a = key b \<and>
      (entry_edge b < entry_edge a \<or> entry_edge a = entry_edge b \<and> entry_state b < entry_state a)"
    by (auto simp: precedes_def)
  ultimately show ?thesis
    by (simp add: earlier_def triple_def word_less_nat_alt word_unat_eq_iff)
qed

lemma earlier_total: "earlier x y \<or> earlier y x \<or> x = y"
proof -
  obtain e a c e' a' c' where x: "x = (e, a, c)" "y = (e', a', c')" by (cases x; cases y)
  have "sint (total_bits c) = sint (total_bits c') \<Longrightarrow> c = c'"
    using total_bits_inj by (simp add: signed_word_eqI)
  then show ?thesis unfolding x earlier_def by (cases "sint (total_bits c)" "sint (total_bits c')" rule: linorder_cases) auto
qed

lemma earlier_trans: "earlier x y \<Longrightarrow> earlier y z \<Longrightarrow> earlier x z"
  by (cases x; cases y; cases z) (auto simp: earlier_def)

lemma earlier_irrefl: "\<not> earlier x x"
  by (cases x) (simp add: earlier_def)

lemma earliest_spec: "earliest x xs \<in> set (x # xs) \<and> (\<forall>y\<in>set (x # xs). \<not> earlier y (earliest x xs))"
proof (induction x xs rule: earliest.induct)
  case (2 x y ys)
  let ?m = "if earlier y x then y else x"
  have ih: "earliest ?m ys \<in> set (?m # ys)" "\<forall>z\<in>set (?m # ys). \<not> earlier z (earliest ?m ys)"
    using "2.IH" by blast+
  have "\<not> earlier x (earliest ?m ys) \<and> \<not> earlier y (earliest ?m ys)"
  proof (cases "earlier y x")
    case True
    then have "\<not> earlier y (earliest ?m ys)" using ih(2) by simp
    then show ?thesis using True earlier_trans by blast
  next
    case False
    then have x: "\<not> earlier x (earliest ?m ys)" using ih(2) by simp
    have "earlier x y \<or> x = y" using False earlier_total by blast
    then show ?thesis using x earlier_trans by blast
  qed
  then show ?case using ih by (auto split: if_splits)
qed (simp add: earlier_irrefl)

lemma earliest_unique:
  assumes "m \<in> set (x # xs)" "\<forall>y\<in>set (x # xs). \<not> earlier y m"
  shows "earliest x xs = m"
proof -
  have s: "earliest x xs \<in> set (x # xs)" "\<forall>y\<in>set (x # xs). \<not> earlier y (earliest x xs)"
    using earliest_spec by blast+
  have "\<not> earlier (earliest x xs) m" using assms(2) s(1) by blast
  moreover have "\<not> earlier m (earliest x xs)" using assms(1) s(2) by blast
  ultimately show ?thesis using earlier_total by blast
qed

lemma heap_push_sift: "heap_push es e a c = (if e < 2 ^ 32 \<and> a < 2 ^ 32
    then Some (sift_in es \<lparr>key = cost_key c, entry_edge = word_of_nat e, entry_state = word_of_nat a\<rparr>) else None)"
  by (simp add: heap_push_def heap_entry_new_def sift_in_def)

lemma heap_pop_entry: "heap_pop es = map_option (\<lambda>(e, r). (triple e, r)) (pop_entry es)"
  by (cases es) (simp_all add: heap_pop_def pop_entry_def triple_def pop_rest_def Let_def)

lemma triple_new:
  assumes "e < 2 ^ 32" "a < 2 ^ 32"
  shows "triple \<lparr>key = cost_key c, entry_edge = word_of_nat e, entry_state = word_of_nat a\<rparr> = (e, a, c)"
    and "keyed \<lparr>key = cost_key c, entry_edge = word_of_nat e, entry_state = word_of_nat a\<rparr>"
proof -
  let ?e = "\<lparr>key = cost_key c, entry_edge = word_of_nat e, entry_state = word_of_nat a\<rparr>"
  have "entry_cost ?e = c" by (rule entry_cost_key) simp
  then show "triple ?e = (e, a, c)" "keyed ?e"
    using assms by (simp_all add: triple_def keyed_def unat_of_nat take_bit_nat_eq_self)
qed

lemma heap_run_bag:
  assumes "is_heap es" "\<forall>e\<in>set es. keyed e" "mset (map triple es) = mset bag"
  shows "heap_run es ops = bag_run bag ops"
  using assms
proof (induction ops arbitrary: es bag)
  case (Cons q ops)
  show ?case
  proof (cases q)
    case (Push e a c)
    let ?e = "\<lparr>key = cost_key c, entry_edge = word_of_nat e, entry_state = word_of_nat a\<rparr>"
    show ?thesis
    proof (cases "e < 2 ^ 32 \<and> a < 2 ^ 32")
      case True
      note c = hq.content_push[OF Cons.prems(1), of ?e]
      have "set (sift_in es ?e) = insert ?e (set es)" using arg_cong[OF c, of set_mset] by simp
      then have "\<forall>x\<in>set (sift_in es ?e). keyed x" using Cons.prems(2) triple_new(2) True by simp
      moreover have "mset (map triple (sift_in es ?e)) = mset ((e, a, c) # bag)"
        using c Cons.prems(3) triple_new(1) True by (simp add: mset_map)
      ultimately have "heap_run (sift_in es ?e) ops = bag_run ((e, a, c) # bag) ops"
        using hq.valid_push[OF Cons.prems(1)] by (intro Cons.IH)
      then show ?thesis using True by (simp add: Push heap_push_sift)
    next
      case False
      then show ?thesis by (auto simp: Push heap_push_sift)
    qed
  next
    case Pop
    show ?thesis
    proof (cases "pop_entry es")
      case None
      then have "es = []" by (simp add: pop_entry_def split: if_splits)
      then show ?thesis using Cons.IH[OF Cons.prems] Cons.prems(3) None by (simp add: Pop heap_pop_entry pop_entry_def)
    next
      case (Some p)
      obtain e r where p: "p = (e, r)" by (cases p)
      note pe = Some[unfolded p]
      note c = hq.content_pop[OF Cons.prems(1) pe]
      have se: "set es = insert e (set r)" using arg_cong[OF c, of set_mset] by simp
      have mb: "mset bag = add_mset (triple e) (mset (map triple r))"
        using c Cons.prems(3) by (simp add: mset_map)
      then obtain x xs where bag: "bag = x # xs" by (cases bag) auto
      have sb: "set bag = insert (triple e) (triple ` set r)"
        using arg_cong[OF mb, of set_mset] by simp
      have first: "\<forall>y\<in>set (x # xs). \<not> earlier y (triple e)"
        unfolding bag[symmetric] sb
      proof (intro ballI)
        fix y assume y: "y \<in> insert (triple e) (triple ` set r)"
        show "\<not> earlier y (triple e)"
        proof (cases "y = triple e")
          case False
          then obtain f where f: "f \<in> set r" "y = triple f" using y by auto
          then have "\<not> precedes f e" using hq.pop_first[OF Cons.prems(1) pe, of f] by simp
          then show ?thesis using precedes_earlier[of f e] Cons.prems(2) f se by simp
        qed (simp add: earlier_irrefl)
      qed
      have "triple e \<in> set (x # xs)" using sb by (simp add: bag)
      then have m: "earliest x xs = triple e" using first by (rule earliest_unique)
      have "heap_run r ops = bag_run (remove1 (triple e) bag) ops"
        using hq.valid_pop[OF Cons.prems(1) pe] Cons.prems(2) se mb by (intro Cons.IH) simp_all
      then show ?thesis using m by (simp add: Pop heap_pop_entry Some p bag Let_def)
    qed
  qed
qed simp

text \<open>C24: on every sequence of pushes and pops the heap answers what the reference queue answers: the
  lowest cost in the total order of \<open>f64\<close>, ties broken by the highest edge and then the highest
  automaton state, and it panics exactly on indexes that do not fit 32 bits.\<close>

theorem heap_refines_bag: "heap_run [] ops = bag_run [] ops"
  by (rule heap_run_bag) (simp_all add: is_heap_def)

text \<open>C25: the invariant of the queue: after any operations every entry comes no earlier than its
  parent, a pop removes exactly the entry at the front, and \<open>peek_cost\<close> announces the cost of the
  next pop.\<close>

theorem heap_invariant:
  assumes "is_heap es"
  shows "(heap_push es e a c = Some es' \<longrightarrow> is_heap es' \<and> length es' = Suc (length es))
    \<and> (heap_pop es = Some (x, rest) \<longrightarrow> is_heap rest \<and> Suc (length rest) = length es
        \<and> snd (snd x) = peek_cost es)"
proof (intro conjI impI)
  assume "heap_push es e a c = Some es'"
  then obtain n where "es' = sift_in es n" by (auto simp: heap_push_sift split: if_splits)
  then show "is_heap es'" "length es' = Suc (length es)"
    using hq.valid_push[OF assms] hq.content_push[OF assms, of n] by (simp_all flip: size_mset)
next
  assume "heap_pop es = Some (x, rest)"
  then obtain t where t: "pop_entry es = Some (t, rest)" "x = triple t" by (auto simp: heap_pop_entry)
  then show "is_heap rest" using hq.valid_pop[OF assms] by blast
  have "size (mset es) = size (add_mset t (mset rest))" using hq.content_pop[OF assms t(1)] by simp
  then show "Suc (length rest) = length es" by simp
  show "snd (snd x) = peek_cost es"
    using t by (cases es) (simp_all add: pop_entry_def triple_def peek_cost_def)
qed

theorem heap_invariant_witness:
  "\<exists>es. heap_push [] 3 0 0 = Some es \<and> is_heap es \<and> length es = 1"
proof -
  obtain es where "heap_push [] 3 0 0 = Some es" by (simp add: heap_push_sift)
  moreover have "is_heap []" by (simp add: is_heap_def)
  ultimately show ?thesis using heap_invariant[of "[]" 3 0 0 es] by simp
qed

end
