(* ===== verification/Radix_Heap.thy ===== *)
theory Radix_Heap
  imports Prelude "HOL-Library.Multiset"
begin

unbundle bit_operations_syntax

text \<open>
  The monotone radix heap of the Dijkstra searches (\<open>crates/query/src/engine/radix_heap.rs\<close>). Keys are
  the bit patterns of non-negative costs, kept in the bucket of the highest bit in which they differ
  from the last extracted minimum.
\<close>

section \<open>The heap\<close>

record radix_heap =
  last_key :: u64
  heap_len :: nat
  buckets :: "(u64 \<times> u64) list list"

definition radix_empty :: radix_heap where
  "radix_empty = \<lparr>last_key = 0, heap_len = 0, buckets = []\<rparr>"

definition radix_clear :: "radix_heap \<Rightarrow> radix_heap" where
  "radix_clear h = \<lparr>last_key = 0, heap_len = 0, buckets = map (\<lambda>_. []) (buckets h)\<rparr>"

text \<open>\<open>u64::BITS - x.leading_zeros()\<close>.\<close>

fun bit_length :: "nat \<Rightarrow> nat" where
  "bit_length n = (if n = 0 then 0 else Suc (bit_length (n div 2)))"

declare bit_length.simps [simp del]

definition bucket_index :: "u64 \<Rightarrow> u64 \<Rightarrow> nat" where
  "bucket_index lowest k = bit_length (unat (k XOR lowest))"

text \<open>\<open>bits\<close> stands for \<open>cost.max(0.0).to_bits()\<close>.\<close>

definition radix_push :: "radix_heap \<Rightarrow> u64 \<Rightarrow> u64 \<Rightarrow> radix_heap" where
  "radix_push h bits payload =
     (let bs = (if buckets h = [] then replicate 65 [] else buckets h);
          k = max bits (last_key h);
          i = bucket_index (last_key h) k
      in h\<lparr>buckets := bs[i := bs ! i @ [(k, payload)]], heap_len := heap_len h + 1\<rparr>)"

definition redistribute :: "u64 \<Rightarrow> (u64 \<times> u64) list list \<Rightarrow> (u64 \<times> u64) list \<Rightarrow> (u64 \<times> u64) list list" where
  "redistribute lowest bs items =
     foldl (\<lambda>bs (k, payload). bs[bucket_index lowest k := bs ! bucket_index lowest k @ [(k, payload)]]) bs items"

fun position_of :: "('a \<Rightarrow> bool) \<Rightarrow> 'a list \<Rightarrow> nat option" where
  "position_of P [] = None"
| "position_of P (x # xs) = (if P x then Some 0 else map_option Suc (position_of P xs))"

text \<open>The outer \<open>None\<close> is the panic of the \<open>expect\<close> calls, which \<open>radix_pop_least\<close> rules out.\<close>

definition refill :: "radix_heap \<Rightarrow> radix_heap option" where
  "refill h = (if buckets h ! 0 \<noteq> [] then Some h
     else case position_of (\<lambda>b. b \<noteq> []) (buckets h) of None \<Rightarrow> None
       | Some i \<Rightarrow> (let bucket = buckets h ! i; l = Min (set (map fst bucket))
           in Some (h\<lparr>last_key := l, buckets := redistribute l ((buckets h)[i := []]) bucket\<rparr>)))"

definition radix_pop :: "radix_heap \<Rightarrow> ((u64 \<times> u64) option \<times> radix_heap) option" where
  "radix_pop h = (if heap_len h = 0 then Some (None, h)
     else case refill h of None \<Rightarrow> None
       | Some h' \<Rightarrow>
           if buckets h' ! 0 = [] then None
           else Some (Some (last (buckets h' ! 0)),
             h'\<lparr>heap_len := heap_len h' - 1, buckets := (buckets h')[0 := butlast (buckets h' ! 0)]\<rparr>))"

section \<open>Bucket indexes\<close>

lemma bit_length_le: "bit_length n \<le> m \<longleftrightarrow> n < 2 ^ m"
proof (induction n arbitrary: m rule: bit_length.induct)
  case (1 n)
  show ?case
  proof (cases "n = 0")
    case False
    then have "bit_length n = Suc (bit_length (n div 2))" by (subst bit_length.simps) simp
    then show ?thesis using 1[OF False] False
      by (cases m) (simp_all only: power_0 power_Suc Suc_le_mono, simp, simp add: div_less_iff_less_mult mult.commute)
  qed (simp add: bit_length.simps)
qed

lemma unat_drop: "unat (drop_bit m (a :: u64)) = unat a div 2 ^ m"
  unfolding unat_drop_bit_eq by (rule drop_bit_eq_div)

lemma xor_zero: "x XOR y = 0 \<longleftrightarrow> y = (x :: u64)"
proof
  assume "x XOR y = 0"
  then have "(x XOR y) XOR y = 0 XOR y" by (rule arg_cong)
  then show "y = x" by (simp add: xor.assoc)
qed simp

lemma bucket_index_le: "bucket_index a b \<le> m \<longleftrightarrow> unat a div 2 ^ m = unat b div 2 ^ m"
proof -
  have "bucket_index a b \<le> m \<longleftrightarrow> unat (b XOR a) div 2 ^ m = 0"
    unfolding bucket_index_def bit_length_le by (simp add: div_eq_0_iff)
  also have "\<dots> \<longleftrightarrow> unat (drop_bit m (b XOR a)) = 0" by (simp only: unat_drop)
  also have "\<dots> \<longleftrightarrow> drop_bit m a = drop_bit m b"
    unfolding unat_eq_zero drop_bit_xor using xor_zero by blast
  also have "\<dots> \<longleftrightarrow> unat (drop_bit m a) = unat (drop_bit m b)" by (simp only: word_unat_eq_iff)
  also have "\<dots> \<longleftrightarrow> unat a div 2 ^ m = unat b div 2 ^ m"
    by (simp only: unat_drop)
  finally show ?thesis .
qed

lemma bucket_index_less: "bucket_index a b < 65"
proof -
  have "unat a < 2 ^ 64" "unat b < 2 ^ 64" using unsigned_less[of a, where ?'a = nat] unsigned_less[of b, where ?'a = nat] by simp_all
  then have "bucket_index a b \<le> 64" unfolding bucket_index_le by simp
  then show ?thesis by simp
qed

lemma bucket_index_eq: "bucket_index a b = i \<longleftrightarrow>
    unat a div 2 ^ i = unat b div 2 ^ i \<and> (0 < i \<longrightarrow> unat a div 2 ^ (i - 1) \<noteq> unat b div 2 ^ (i - 1))"
  using bucket_index_le[of a b i] bucket_index_le[of a b "i - 1"] by (cases i) auto

lemma div_power_mono: "(a :: nat) div 2 ^ m = b div 2 ^ m \<Longrightarrow> m \<le> n \<Longrightarrow> a div 2 ^ n = b div 2 ^ n"
proof -
  assume "a div 2 ^ m = b div 2 ^ m" "m \<le> n"
  moreover have "c div 2 ^ n = c div 2 ^ m div 2 ^ (n - m)" for c :: nat
    using \<open>m \<le> n\<close> by (simp flip: div_mult2_eq power_add)
  ultimately show ?thesis by simp
qed

lemma lower_bucket_lower_key:
  assumes "bucket_index a k < bucket_index a k'" "a \<le> k'"
  shows "k < k'"
proof -
  let ?m = "bucket_index a k"
  have e: "unat a div 2 ^ ?m = unat k div 2 ^ ?m" using bucket_index_le[of a k ?m] by simp
  have "unat a div 2 ^ ?m \<noteq> unat k' div 2 ^ ?m" using assms(1) bucket_index_le[of a k' ?m] by simp
  moreover have "unat a div 2 ^ ?m \<le> unat k' div 2 ^ ?m" using assms(2) by (intro div_le_mono) (simp add: word_le_nat_alt)
  ultimately have "unat k div 2 ^ ?m < unat k' div 2 ^ ?m" using e by simp
  then show ?thesis unfolding word_less_nat_alt by (metis div_le_mono linorder_not_less)
qed

text \<open>Raising the minimum to a key of bucket \<open>i\<close> leaves the higher buckets as they are and sends the
  keys of bucket \<open>i\<close> to lower ones.\<close>

lemma raise_higher:
  assumes "bucket_index a l = i" "bucket_index a k = j" "i < j"
  shows "bucket_index l k = j"
proof -
  have l: "unat a div 2 ^ n = unat l div 2 ^ n" if "i \<le> n" for n
    using assms(1) bucket_index_le[of a l n] that by simp
  have k: "unat a div 2 ^ j = unat k div 2 ^ j" "unat a div 2 ^ (j - 1) \<noteq> unat k div 2 ^ (j - 1)"
    using assms(2,3) bucket_index_eq[of a k j] by simp_all
  show ?thesis unfolding bucket_index_eq using l[of j] l[of "j - 1"] k assms(3) by simp
qed

lemma raise_same:
  assumes "bucket_index a l = i" "bucket_index a k = i" "0 < i" "a \<le> l" "a \<le> k"
  shows "bucket_index l k < i"
proof -
  let ?m = "i - 1"
  have half: "unat x div 2 ^ ?m = 2 * (unat x div 2 ^ i) + 1"
    if "bucket_index a x = i" "a \<le> x" for x
  proof -
    have e: "unat a div 2 ^ i = unat x div 2 ^ i" "unat a div 2 ^ ?m \<noteq> unat x div 2 ^ ?m"
      using that(1) assms(3) bucket_index_eq[of a x i] by simp_all
    have "unat a div 2 ^ ?m \<le> unat x div 2 ^ ?m" using that(2) by (intro div_le_mono) (simp add: word_le_nat_alt)
    then have lt: "unat a div 2 ^ ?m < unat x div 2 ^ ?m" using e(2) by simp
    have d: "y div 2 ^ i = y div 2 ^ ?m div 2" for y :: nat
      using assms(3) by (simp flip: div_mult2_eq power_Suc2)
    have "A div 2 = X div 2 \<Longrightarrow> A < X \<Longrightarrow> X = 2 * (X div 2) + 1" for A X :: nat by presburger
    from this[OF _ lt] show ?thesis using e(1) unfolding d by simp
  qed
  have "unat a div 2 ^ i = unat l div 2 ^ i" "unat a div 2 ^ i = unat k div 2 ^ i"
    using assms(1,2) bucket_index_eq by blast+
  then have "unat l div 2 ^ ?m = unat k div 2 ^ ?m" using half assms by simp
  then have "bucket_index l k \<le> ?m" unfolding bucket_index_le .
  then show ?thesis using assms(3) by simp
qed

section \<open>The invariant\<close>

definition content :: "radix_heap \<Rightarrow> (u64 \<times> u64) multiset" where
  "content h = mset (concat (buckets h))"

definition in_buckets :: "u64 \<Rightarrow> (u64 \<times> u64) list list \<Rightarrow> bool" where
  "in_buckets l bs \<longleftrightarrow> length bs = 65 \<and> (\<forall>i<65. \<forall>x\<in>set (bs ! i). l \<le> fst x \<and> bucket_index l (fst x) = i)"

definition radix_inv :: "radix_heap \<Rightarrow> bool" where
  "radix_inv h \<longleftrightarrow> (buckets h = [] \<or> in_buckets (last_key h) (buckets h)) \<and> heap_len h = size (content h)"

lemma mset_concat_snoc:
  "i < length bs \<Longrightarrow> mset (concat (bs[i := bs ! i @ [x]])) = add_mset x (mset (concat bs))"
proof (induction bs arbitrary: i)
  case (Cons b bs)
  then show ?case by (cases i) simp_all
qed simp

lemma in_buckets_add:
  assumes "in_buckets l bs" "l \<le> k"
  shows "in_buckets l (bs[bucket_index l k := bs ! bucket_index l k @ [(k, p)]])"
  using assms bucket_index_less[of l k] by (auto simp: in_buckets_def nth_list_update)

lemma radix_push_inv:
  assumes "radix_inv h"
  shows "radix_inv (radix_push h bits p)"
    "content (radix_push h bits p) = add_mset (max bits (last_key h), p) (content h)"
proof -
  define bs where "bs = (if buckets h = [] then replicate 65 [] else buckets h)"
  let ?k = "max bits (last_key h)"
  have bs: "in_buckets (last_key h) bs" "mset (concat bs) = content h"
    using assms by (auto simp: bs_def radix_inv_def in_buckets_def content_def)
  have p: "radix_push h bits p = h\<lparr>buckets := bs[bucket_index (last_key h) ?k := bs ! bucket_index (last_key h) ?k @ [(?k, p)]],
      heap_len := heap_len h + 1\<rparr>"
    by (simp add: radix_push_def bs_def Let_def)
  have "in_buckets (last_key h) (bs[bucket_index (last_key h) ?k := bs ! bucket_index (last_key h) ?k @ [(?k, p)]])"
    by (rule in_buckets_add[OF bs(1)]) simp
  moreover show c: "content (radix_push h bits p) = add_mset (?k, p) (content h)"
    using mset_concat_snoc[of "bucket_index (last_key h) ?k" bs] bs bucket_index_less[of "last_key h" ?k]
    by (simp add: p content_def in_buckets_def)
  ultimately show "radix_inv (radix_push h bits p)"
    using assms unfolding radix_inv_def c by (simp add: p)
qed

lemma redistribute_in_buckets:
  assumes "in_buckets l bs" "\<forall>x\<in>set items. l \<le> fst x"
  shows "in_buckets l (redistribute l bs items)
    \<and> mset (concat (redistribute l bs items)) = mset (concat bs) + mset items"
  using assms
proof (induction items arbitrary: bs)
  case (Cons x items)
  obtain k p where x: "x = (k, p)" by (cases x)
  let ?bs = "bs[bucket_index l k := bs ! bucket_index l k @ [(k, p)]]"
  have "in_buckets l ?bs" using Cons.prems by (intro in_buckets_add) (simp_all add: x)
  moreover have "mset (concat ?bs) = add_mset x (mset (concat bs))"
    using Cons.prems(1) bucket_index_less[of l k] by (simp add: x mset_concat_snoc in_buckets_def)
  ultimately show ?case using Cons.IH[of ?bs] Cons.prems(2) by (simp add: redistribute_def x)
qed (simp add: redistribute_def)

lemma position_of_Some: "position_of P xs = Some i \<Longrightarrow> i < length xs \<and> P (xs ! i) \<and> (\<forall>j<i. \<not> P (xs ! j))"
proof (induction xs arbitrary: i)
  case (Cons x xs)
  then show ?case by (auto split: if_splits simp: less_Suc_eq_0_disj)
qed simp

lemma position_of_None: "position_of P xs = None \<longleftrightarrow> (\<forall>x\<in>set xs. \<not> P x)"
  by (induction xs) auto

lemma concat_take_bucket:
  "i < length bs \<Longrightarrow> mset (concat bs) = mset (concat (bs[i := []])) + mset (bs ! i)"
proof (induction bs arbitrary: i)
  case (Cons b bs)
  then show ?case by (cases i) simp_all
qed simp

lemma refill_spec:
  assumes "radix_inv h" "heap_len h \<noteq> 0"
  shows "\<exists>h'. refill h = Some h' \<and> radix_inv h' \<and> content h' = content h \<and> buckets h' ! 0 \<noteq> []
    \<and> heap_len h' = heap_len h \<and> last_key h \<le> last_key h'"
proof (cases "buckets h ! 0 = []")
  case False
  then show ?thesis using assms by (auto simp: refill_def)
next
  case True
  have ne: "content h \<noteq> {#}" using assms by (auto simp: radix_inv_def)
  then have b: "in_buckets (last_key h) (buckets h)" using assms(1) by (auto simp: radix_inv_def content_def)
  have "\<exists>x\<in>set (buckets h). x \<noteq> []" using ne by (auto simp: content_def)
  then obtain i where i: "position_of (\<lambda>b. b \<noteq> []) (buckets h) = Some i"
    using position_of_None[of "\<lambda>b. b \<noteq> []" "buckets h"] by (cases "position_of (\<lambda>b. b \<noteq> []) (buckets h)") auto
  have p: "i < 65" "buckets h ! i \<noteq> []" "\<forall>j<i. buckets h ! j = []"
    using position_of_Some[OF i] b by (auto simp: in_buckets_def)
  have i0: "0 < i" using True p(2) by (cases i) auto
  let ?b = "buckets h ! i" and ?a = "last_key h"
  define l where "l = Min (set (map fst ?b))"
  have l_in: "l \<in> set (map fst ?b)" unfolding l_def using p(2) by (intro Min_in) auto
  have l_le: "\<forall>x\<in>set ?b. l \<le> fst x" unfolding l_def by auto
  have lb: "bucket_index ?a l = i" "?a \<le> l" using l_in b p(1) by (auto simp: in_buckets_def)
  let ?bs = "(buckets h)[i := []]"
  have "in_buckets l ?bs"
    unfolding in_buckets_def
  proof (intro conjI allI impI ballI)
    show "length ?bs = 65" using b by (simp add: in_buckets_def)
  next
    fix j x assume j: "j < 65" "x \<in> set (?bs ! j)"
    then have ji: "j \<noteq> i" using b by (auto simp: in_buckets_def)
    then have x: "x \<in> set (buckets h ! j)" using j(2) by simp
    then have "i < j" using p(3) ji by (cases "j < i") auto
    have k: "bucket_index ?a (fst x) = j" "?a \<le> fst x" using b j(1) x by (simp_all add: in_buckets_def)
    show "bucket_index l (fst x) = j" using raise_higher[OF lb(1) k(1) \<open>i < j\<close>] .
    have "l < fst x" using lower_bucket_lower_key[of ?a l "fst x"] lb k \<open>i < j\<close> by simp
    then show "l \<le> fst x" by simp
  qed
  note r = redistribute_in_buckets[OF this l_le]
  define h' where "h' = h\<lparr>last_key := l, buckets := redistribute l ?bs ?b\<rparr>"
  have f: "refill h = Some h'"
    using True i by (simp add: refill_def h'_def l_def Let_def)
  have c: "content h' = content h"
    using r concat_take_bucket[of i "buckets h"] b p(1) by (simp add: content_def h'_def in_buckets_def)
  have inv: "radix_inv h'" using r assms(1) unfolding radix_inv_def c by (simp add: h'_def)
  obtain y where y: "y \<in> set ?b" "fst y = l" using l_in by auto
  have "y \<in># content h" using y(1) p(1) b by (auto simp: content_def in_buckets_def intro!: bexI[where x = ?b])
  then have "y \<in># content h'" by (simp only: c)
  then obtain j where j: "j < length (buckets h')" "y \<in> set (buckets h' ! j)"
    unfolding content_def by (auto simp: in_set_conv_nth[of _ "buckets h'"])
  have "bucket_index l (fst y) = j" using j r by (simp add: h'_def in_buckets_def)
  moreover have "bucket_index l l = 0" using bucket_index_le[of l l 0] by simp
  ultimately have "buckets h' ! 0 \<noteq> []" using j(2) y(2) by auto
  then show ?thesis using f c inv lb(2) by (auto simp: h'_def)
qed

lemma bucket_zero_key: "bucket_index a k = 0 \<Longrightarrow> k = a"
  using bucket_index_eq[of a k 0] by (simp add: word_unat_eq_iff)

lemma in_buckets_shrink:
  assumes "in_buckets l bs" "set b \<subseteq> set (bs ! 0)"
  shows "in_buckets l (bs[0 := b])"
  unfolding in_buckets_def
proof (intro conjI allI impI)
  show "length (bs[0 := b]) = 65" using assms(1) by (simp add: in_buckets_def)
  fix i assume i: "i < (65 :: nat)"
  have "set (bs[0 := b] ! i) \<subseteq> set (bs ! i)"
    using assms i by (cases "i = 0") (simp_all add: in_buckets_def)
  then show "\<forall>x\<in>set (bs[0 := b] ! i). l \<le> fst x \<and> bucket_index l (fst x) = i"
    using assms(1) i unfolding in_buckets_def by blast
qed

lemma radix_pop_spec:
  assumes "radix_inv h"
  shows "(heap_len h = 0 \<and> radix_pop h = Some (None, h))
    \<or> (\<exists>k p h'. radix_pop h = Some (Some (k, p), h') \<and> radix_inv h' \<and> content h = add_mset (k, p) (content h')
        \<and> (\<forall>x\<in>#content h'. k \<le> fst x) \<and> last_key h \<le> k \<and> last_key h' = k)"
proof (cases "heap_len h = 0")
  case False
  obtain g where g: "refill h = Some g" "radix_inv g" "content g = content h" "buckets g ! 0 \<noteq> []"
    "heap_len g = heap_len h" "last_key h \<le> last_key g"
    using refill_spec[OF assms False] by blast
  let ?b = "buckets g ! 0"
  have bs: "in_buckets (last_key g) (buckets g)"
    using g(2,3,5) False by (auto simp: radix_inv_def content_def)
  then obtain c cs where gb: "buckets g = c # cs" by (cases "buckets g") (auto simp: in_buckets_def)
  obtain k p where kp: "last ?b = (k, p)" by (cases "last ?b")
  have "(k, p) \<in> set ?b" using last_in_set[OF g(4)] kp by simp
  then have "bucket_index (last_key g) k = 0" using bs by (force simp: in_buckets_def)
  then have k: "k = last_key g" by (rule bucket_zero_key)
  define h' where "h' = g\<lparr>heap_len := heap_len g - 1, buckets := (buckets g)[0 := butlast ?b]\<rparr>"
  have e: "radix_pop h = Some (Some (k, p), h')" using False g kp by (simp add: radix_pop_def h'_def)
  have "mset ?b = add_mset (k, p) (mset (butlast ?b))"
  proof -
    define bb where "bb = butlast ?b"
    have "?b = bb @ [(k, p)]" using append_butlast_last_id[OF g(4)] unfolding kp bb_def by (rule sym)
    then have "mset ?b = mset (bb @ [(k, p)])" by (rule arg_cong)
    then show ?thesis unfolding bb_def[symmetric] by simp
  qed
  then have c: "content h = add_mset (k, p) (content h')"
    unfolding g(3)[symmetric] by (simp add: content_def h'_def gb)
  have "in_buckets (last_key g) ((buckets g)[0 := butlast ?b])"
    by (rule in_buckets_shrink[OF bs]) (auto dest: in_set_butlastD)
  moreover have "heap_len h = size (content h)" using assms by (simp add: radix_inv_def)
  ultimately have inv: "radix_inv h'" using c g(5) by (simp add: radix_inv_def h'_def)
  have "\<forall>x\<in>#content h. k \<le> fst x"
  proof
    fix x assume "x \<in># content h"
    then have "x \<in># content g" by (simp only: g(3))
    then have "x \<in># mset (concat (buckets g))" by (simp only: content_def)
    then obtain b where "b \<in> set (buckets g)" "x \<in> set b" by auto
    then obtain i where "i < length (buckets g)" "x \<in> set (buckets g ! i)" by (metis in_set_conv_nth)
    then show "k \<le> fst x" using bs k by (simp add: in_buckets_def)
  qed
  then have "\<forall>x\<in>#content h'. k \<le> fst x" unfolding c by simp
  then show ?thesis using e inv c g(6) k by (auto simp: h'_def)
qed (simp add: radix_pop_def)

section \<open>Runs\<close>

text \<open>A reachable heap: any interleaving of pushes, pops and clears from the empty heap.\<close>

inductive radix_reachable :: "radix_heap \<Rightarrow> bool" where
  initial: "radix_reachable radix_empty"
| pushed: "radix_reachable h \<Longrightarrow> radix_reachable (radix_push h bits payload)"
| popped: "radix_reachable h \<Longrightarrow> radix_pop h = Some (r, h') \<Longrightarrow> radix_reachable h'"
| cleared: "radix_reachable h \<Longrightarrow> radix_reachable (radix_clear h)"

lemma reachable_radix_inv: "radix_reachable h \<Longrightarrow> radix_inv h"
proof (induction rule: radix_reachable.induct)
  case (pushed h bits payload)
  then show ?case by (intro radix_push_inv(1))
next
  case (popped h r h')
  then show ?case using radix_pop_spec[of h] by auto
next
  case (cleared h)
  have "concat (map (\<lambda>_. []) (buckets h)) = []" by simp
  then show ?case using cleared.IH by (auto simp: radix_inv_def radix_clear_def content_def in_buckets_def)
qed (simp_all add: radix_push_inv radix_inv_def radix_empty_def content_def)

text \<open>C26: on every reachable heap a pop does not panic; it returns nothing exactly when the heap is
  empty, and otherwise removes an entry of least key, never below an earlier minimum. The heap holds
  what was pushed: a push adds its key, clamped to the last minimum, and nothing else.\<close>

theorem radix_pop_least:
  assumes "radix_reachable h"
  shows "(if content h = {#} then radix_pop h = Some (None, h)
      else \<exists>k p h'. radix_pop h = Some (Some (k, p), h') \<and> content h = add_mset (k, p) (content h')
        \<and> (\<forall>x\<in>#content h'. k \<le> fst x) \<and> last_key h \<le> k)
    \<and> content (radix_push h bits payload) = add_mset (max bits (last_key h), payload) (content h)"
  using radix_pop_spec[OF reachable_radix_inv[OF assms]] radix_push_inv(2)[OF reachable_radix_inv[OF assms]]
    reachable_radix_inv[OF assms] by (auto simp: radix_inv_def)

theorem radix_pop_least_witness:
  "\<exists>k p h'. radix_pop (radix_push radix_empty 5 1) = Some (Some (k, p), h')
     \<and> content (radix_push radix_empty 5 1) = add_mset (k, p) (content h')"
proof -
  have r: "radix_reachable radix_empty" by (rule initial)
  have "content (radix_push radix_empty 5 1) \<noteq> {#}"
    using radix_pop_least[OF r, of 5 1] by simp
  then show ?thesis using radix_pop_least[OF pushed[OF r], of 5 1 0 0] by auto
qed

end
