(* ===== verification/Transit_Rules.thy ===== *)
theory Transit_Rules
  imports Timetable_Pack "HOL-Library.Multiset"
begin

text \<open>
  GTFS transfer rules (\<open>crates/transit/src/transfer_rules.rs\<close>): the index the searches ask whether a
  passenger may change from one connection to another. Rules are looked up by stop pair, the most
  specific matching rule decides, and two equally specific ones are an error.
\<close>

section \<open>Rules\<close>

datatype transfer_type = Recommended | Timed | MinimumTime | Forbidden

record transfer_rule =
  from_stop :: u32
  to_stop :: u32
  from_route :: "u32 option"
  to_route :: "u32 option"
  from_trip :: "u32 option"
  to_trip :: "u32 option"
  rule_type :: transfer_type
  min_transfer_time_s :: u32

text \<open>\<open>Index_Panic\<close> stands for the panic of a Rust index expression out of range, which the search of
  \<open>Transit_Search\<close> can run into; the rules themselves only fail with \<open>Ambiguous_Rules\<close>.\<close>

datatype transit_error = Ambiguous_Rules | Index_Panic

definition side_rank :: "u32 option \<Rightarrow> u32 option \<Rightarrow> nat" where
  "side_rank trip route = (if trip \<noteq> None then 2 else if route \<noteq> None then 1 else 0)"

definition specificity :: "transfer_rule \<Rightarrow> nat" where
  "specificity r =
     (let p = (side_rank (from_trip r) (from_route r), side_rank (to_trip r) (to_route r))
      in if p = (2, 2) then 6
         else if p = (2, 1) \<or> p = (1, 2) then 5
         else if p = (2, 0) \<or> p = (0, 2) then 4
         else if p = (1, 1) then 3
         else if p = (1, 0) \<or> p = (0, 1) then 2
         else 1)"

definition side_matches :: "u32 option \<Rightarrow> u32 option \<Rightarrow> transit_connection \<Rightarrow> bool" where
  "side_matches trip route c = (case trip of Some t \<Rightarrow> t = trip_index c
     | None \<Rightarrow> (case route of None \<Rightarrow> True | Some r \<Rightarrow> r = route_index c))"

definition rule_matches :: "transfer_rule \<Rightarrow> transit_connection \<Rightarrow> transit_connection \<Rightarrow> bool" where
  "rule_matches r a b \<longleftrightarrow> side_matches (from_trip r) (from_route r) a \<and> side_matches (to_trip r) (to_route r) b"

section \<open>The index\<close>

record rule_index =
  by_stop_pair :: "u32 \<times> u32 \<Rightarrow> nat list option"
  from_stops :: "u32 set"
  to_stops :: "u32 set"

definition index_rule :: "transfer_rule list \<Rightarrow> rule_index \<Rightarrow> nat \<Rightarrow> rule_index" where
  "index_rule rules ix i =
     (let r = rules ! i; k = (from_stop r, to_stop r)
      in \<lparr>by_stop_pair = (by_stop_pair ix)(k \<mapsto> (case by_stop_pair ix k of None \<Rightarrow> [] | Some l \<Rightarrow> l) @ [i]),
          from_stops = insert (from_stop r) (from_stops ix), to_stops = insert (to_stop r) (to_stops ix)\<rparr>)"

text \<open>\<open>Reverse(specificity)\<close> sorts the most specific rule first.\<close>

definition rule_index_new :: "transfer_rule list \<Rightarrow> rule_index" where
  "rule_index_new rules =
     (let ix = foldl (index_rule rules) \<lparr>by_stop_pair = Map.empty, from_stops = {}, to_stops = {}\<rparr> [0..<length rules]
      in ix\<lparr>by_stop_pair := map_option (sort_key (\<lambda>i. - int (specificity (rules ! i)))) \<circ> by_stop_pair ix\<rparr>)"

definition has_origin :: "rule_index \<Rightarrow> u32 \<Rightarrow> bool" where
  "has_origin ix stop \<longleftrightarrow> stop \<in> from_stops ix"

definition has_destination :: "rule_index \<Rightarrow> u32 \<Rightarrow> bool" where
  "has_destination ix stop \<longleftrightarrow> stop \<in> to_stops ix"

fun select_rule :: "transfer_rule list \<Rightarrow> transit_connection \<Rightarrow> transit_connection \<Rightarrow> transfer_rule option \<Rightarrow>
    nat list \<Rightarrow> transit_error + transfer_rule option" where
  "select_rule rules a b selected [] = Inr selected"
| "select_rule rules a b selected (i # is) =
     (let rule = rules ! i
      in if (case selected of Some s \<Rightarrow> specificity rule < specificity s | None \<Rightarrow> False) then Inr selected
         else if rule_matches rule a b
         then (if selected \<noteq> None then Inl Ambiguous_Rules else select_rule rules a b (Some rule) is)
         else select_rule rules a b selected is)"

definition rule_permits :: "transit_connection \<Rightarrow> transit_connection \<Rightarrow> transfer_rule \<Rightarrow> bool" where
  "rule_permits a b r \<longleftrightarrow> rule_type r \<noteq> Forbidden \<and> arrival_s a \<le> departure_s b
     \<and> min_transfer_time_s r \<le> departure_s b - arrival_s a"

definition allows :: "rule_index \<Rightarrow> transfer_rule list \<Rightarrow> transit_connection \<Rightarrow> transit_connection \<Rightarrow> transit_error + bool" where
  "allows ix rules a b =
     (case by_stop_pair ix (to_stop_index a, from_stop_index b) of
        None \<Rightarrow> Inr True
      | Some indexes \<Rightarrow> result_bind (select_rule rules a b None indexes)
          (\<lambda>selected. Inr (case selected of None \<Rightarrow> True | Some r \<Rightarrow> rule_permits a b r)))"

section \<open>What the index holds\<close>

definition pair_rules :: "transfer_rule list \<Rightarrow> u32 \<times> u32 \<Rightarrow> nat list" where
  "pair_rules rules k = filter (\<lambda>i. (from_stop (rules ! i), to_stop (rules ! i)) = k) [0..<length rules]"

lemma index_rules_upto:
  "foldl (index_rule rules) \<lparr>by_stop_pair = Map.empty, from_stops = {}, to_stops = {}\<rparr> [0..<n]
    = \<lparr>by_stop_pair = (\<lambda>k. let l = filter (\<lambda>i. (from_stop (rules ! i), to_stop (rules ! i)) = k) [0..<n]
          in if l = [] then None else Some l),
        from_stops = (\<lambda>i. from_stop (rules ! i)) ` {0..<n}, to_stops = (\<lambda>i. to_stop (rules ! i)) ` {0..<n}\<rparr>"
proof (induction n)
  case (Suc n)
  let ?e = "\<lparr>by_stop_pair = Map.empty, from_stops = {}, to_stops = {}\<rparr> :: rule_index"
  have "foldl (index_rule rules) ?e [0..<Suc n] = index_rule rules (foldl (index_rule rules) ?e [0..<n]) n" by simp
  then show ?case unfolding Suc.IH unfolding index_rule_def
    by (auto simp: Let_def fun_eq_iff atLeast0_lessThan_Suc)
qed simp

lemma rule_index_lookup:
  "by_stop_pair (rule_index_new rules) k =
    (if pair_rules rules k = [] then None
     else Some (sort_key (\<lambda>i. - int (specificity (rules ! i))) (pair_rules rules k)))"
  unfolding rule_index_new_def index_rules_upto by (simp add: pair_rules_def Let_def)

lemma has_origin_iff: "has_origin (rule_index_new rules) stop \<longleftrightarrow> (\<exists>r\<in>set rules. from_stop r = stop)"
  unfolding has_origin_def rule_index_new_def index_rules_upto
  by (simp add: Let_def image_iff) (metis atLeast0LessThan in_set_conv_nth lessThan_iff)

lemma has_destination_iff: "has_destination (rule_index_new rules) stop \<longleftrightarrow> (\<exists>r\<in>set rules. to_stop r = stop)"
  unfolding has_destination_def rule_index_new_def index_rules_upto
  by (simp add: Let_def image_iff) (metis atLeast0LessThan in_set_conv_nth lessThan_iff)

section \<open>Selection\<close>

lemma select_after:
  assumes "sorted (map (\<lambda>i. - int (specificity (rules ! i))) is)"
    "\<forall>i\<in>set is. specificity (rules ! i) \<le> specificity s"
  shows "select_rule rules a b (Some s) is =
    (if \<exists>i\<in>set is. rule_matches (rules ! i) a b \<and> specificity (rules ! i) = specificity s
     then Inl Ambiguous_Rules else Inr (Some s))"
  using assms
proof (induction "is")
  case (Cons i js)
  show ?case
  proof (cases "specificity (rules ! i) < specificity s")
    case True
    then have "\<forall>j\<in>set js. specificity (rules ! j) < specificity s" using Cons.prems(1) by auto
    then show ?thesis using True by auto
  next
    case False
    then have "specificity (rules ! i) = specificity s" using Cons.prems(2) by auto
    then show ?thesis using Cons by (auto simp: Let_def)
  qed
qed simp

lemma select_first:
  assumes "sorted (map (\<lambda>i. - int (specificity (rules ! i))) is)"
  shows "select_rule rules a b None is =
    (case filter (\<lambda>i. rule_matches (rules ! i) a b) is of
       [] \<Rightarrow> Inr None
     | i # js \<Rightarrow> if \<exists>j\<in>set js. specificity (rules ! j) = specificity (rules ! i)
         then Inl Ambiguous_Rules else Inr (Some (rules ! i)))"
  using assms
proof (induction "is")
  case (Cons i js)
  show ?case
  proof (cases "rule_matches (rules ! i) a b")
    case True
    have "\<forall>j\<in>set js. specificity (rules ! j) \<le> specificity (rules ! i)" using Cons.prems by auto
    then show ?thesis using True select_after[of rules js "rules ! i" a b] Cons.prems by (auto simp: Let_def)
  next
    case False
    then show ?thesis using Cons by (simp add: Let_def)
  qed
qed simp

section \<open>The reference: the most specific matching rule\<close>

definition applicable :: "transfer_rule list \<Rightarrow> transit_connection \<Rightarrow> transit_connection \<Rightarrow> transfer_rule list" where
  "applicable rules a b = filter (\<lambda>r. from_stop r = to_stop_index a \<and> to_stop r = from_stop_index b
     \<and> rule_matches r a b) rules"

definition most_specific :: "transfer_rule list \<Rightarrow> transfer_rule list" where
  "most_specific rs = filter (\<lambda>r. \<forall>r'\<in>set rs. specificity r' \<le> specificity r) rs"

lemma applicable_indexes:
  "map ((!) rules) (filter (\<lambda>i. rule_matches (rules ! i) a b) (pair_rules rules (to_stop_index a, from_stop_index b)))
    = applicable rules a b"
proof -
  have "applicable rules a b = map ((!) rules) (filter (\<lambda>i. from_stop (rules ! i) = to_stop_index a
      \<and> to_stop (rules ! i) = from_stop_index b \<and> rule_matches (rules ! i) a b) [0..<length rules])"
    unfolding applicable_def by (subst map_nth[symmetric, of rules]) (simp only: filter_map comp_def)
  also have "\<dots> = map ((!) rules) (filter (\<lambda>i. rule_matches (rules ! i) a b)
      (pair_rules rules (to_stop_index a, from_stop_index b)))"
    by (simp add: pair_rules_def conj_ac)
  finally show ?thesis by simp
qed

lemma allows_by_specificity:
  "allows (rule_index_new rules) rules a b =
    (case most_specific (applicable rules a b) of
       [] \<Rightarrow> Inr True
     | [r] \<Rightarrow> Inr (rule_permits a b r)
     | _ \<Rightarrow> Inl Ambiguous_Rules)"
proof -
  let ?k = "(to_stop_index a, from_stop_index b)" and ?f = "\<lambda>i. - int (specificity (rules ! i))"
  let ?P = "\<lambda>i. rule_matches (rules ! i) a b"
  define L where "L = filter ?P (sort_key ?f (pair_rules rules ?k))"
  have ms: "mset (map ((!) rules) L) = mset (applicable rules a b)"
    unfolding L_def applicable_indexes[symmetric] by (simp add: mset_filter mset_map)
  have sorted: "sorted (map ?f L)" unfolding L_def by (simp add: sorted_filter)
  have sel: "allows (rule_index_new rules) rules a b =
      (case L of [] \<Rightarrow> Inr True | i # js \<Rightarrow> if \<exists>j\<in>set js. specificity (rules ! j) = specificity (rules ! i)
         then Inl Ambiguous_Rules else Inr (rule_permits a b (rules ! i)))"
  proof (cases "pair_rules rules ?k = []")
    case True
    then show ?thesis by (simp add: allows_def rule_index_lookup L_def)
  next
    case False
    then show ?thesis using select_first[of rules "sort_key ?f (pair_rules rules ?k)" a b]
      by (simp add: allows_def rule_index_lookup L_def split: list.splits)
  qed
  have set: "set (map ((!) rules) L) = set (applicable rules a b)" using mset_eq_setD[OF ms] .
  have S: "mset (most_specific (applicable rules a b)) = mset (most_specific (map ((!) rules) L))"
    by (simp only: most_specific_def set mset_filter ms)
  show ?thesis
  proof (cases L)
    case Nil
    then have "applicable rules a b = []" using ms by simp
    then show ?thesis using sel Nil by (simp add: most_specific_def)
  next
    case (Cons i js)
    let ?r = "rules ! i" and ?js = "map ((!) rules) js"
    have le: "\<forall>r\<in>set (?r # ?js). specificity r \<le> specificity ?r" using sorted Cons by auto
    then have T: "most_specific (?r # ?js) = ?r # filter (\<lambda>r. specificity r = specificity ?r) ?js"
      unfolding most_specific_def by (auto intro!: filter_cong simp: order_antisym)
    show ?thesis
    proof (cases "\<exists>j\<in>set js. specificity (rules ! j) = specificity ?r")
      case True
      then have "filter (\<lambda>r. specificity r = specificity ?r) ?js \<noteq> []" by (auto simp: filter_empty_conv)
      then have "2 \<le> length (most_specific (?r # ?js))" unfolding T
        by (cases "filter (\<lambda>r. specificity r = specificity ?r) ?js") simp_all
      then have "2 \<le> length (most_specific (applicable rules a b))"
        using mset_eq_length[OF S] Cons by simp
      then obtain x y zs where "most_specific (applicable rules a b) = x # y # zs"
        by (cases "most_specific (applicable rules a b)" rule: remdups_adj.cases) auto
      then show ?thesis using sel True Cons by auto
    next
      case False
      then have "most_specific (?r # ?js) = [?r]" unfolding T by (auto simp: filter_empty_conv)
      then have "most_specific (applicable rules a b) = [?r]" using S Cons by simp
      then show ?thesis using sel False Cons by simp
    qed
  qed
qed

text \<open>C29: the transfer decision is that of the single most specific rule among those of the stop pair
  that match both connections; no matching rule allows the change, several equally specific ones
  are an error. A rule permits the change unless it forbids it or leaves less than its minimum time.\<close>

theorem allows_most_specific:
  "allows (rule_index_new rules) rules a b =
    (case most_specific (applicable rules a b) of
       [] \<Rightarrow> Inr True
     | [r] \<Rightarrow> Inr (rule_permits a b r)
     | _ \<Rightarrow> Inl Ambiguous_Rules)"
  by (rule allows_by_specificity)

end
