(* ===== verification/Transit_Runtime.thy ===== *)
theory Transit_Runtime
  imports Complex_Main Transit_Rules Grouping
begin

text \<open>
  The timetable indexes and the search state of the transit router
  (\<open>crates/transit/src/runtime.rs\<close>): run links, departures by stop, the state key of the forward
  search, slack rules, the queue order and relaxation.
\<close>

section \<open>Run links\<close>

text \<open>\<open>u32::MAX\<close> stands for no connection.\<close>

definition NO_CONNECTION :: u32 where "NO_CONNECTION = - 1"

definition timetable_sorted :: "transit_connection list \<Rightarrow> bool" where
  "timetable_sorted cs \<longleftrightarrow> (\<forall>i<length cs - 1. departure_s (cs ! i) \<le> departure_s (cs ! Suc i))"

definition link_order :: "transit_connection list \<Rightarrow> nat list" where
  "link_order cs = (if timetable_sorted cs then [0..<length cs]
     else sort_key (\<lambda>i. departure_s (cs ! i)) [0..<length cs])"

text \<open>\<open>bundle.connections.get(i)\<close>.\<close>

definition get_connection :: "transit_connection list \<Rightarrow> u32 \<Rightarrow> transit_connection option" where
  "get_connection cs i = (if unat i < length cs then Some (cs ! unat i) else None)"

definition link_run :: "transit_connection list \<Rightarrow> u32 list \<times> u32 list \<times> u32 list \<Rightarrow> nat \<Rightarrow>
    u32 list \<times> u32 list \<times> u32 list" where
  "link_run cs s i = (case s of (previous, next_c, last_by_run) \<Rightarrow>
     let c = cs ! i; run = unat (run_index c); last_index = last_by_run ! run;
         joined = (case get_connection cs last_index of None \<Rightarrow> False
           | Some l \<Rightarrow> to_stop_index l = from_stop_index c \<and> arrival_s l \<le> departure_s c)
     in (if joined then previous[i := last_index] else previous,
         if joined then next_c[unat last_index := word_of_nat i] else next_c,
         last_by_run[run := word_of_nat i]))"

definition build_run_links :: "transit_connection list \<Rightarrow> u32 list \<times> u32 list" where
  "build_run_links cs =
     (let run_count = fold max (map (\<lambda>c. unat (run_index c) + 1) cs) 0;
          none = replicate (length cs) NO_CONNECTION;
          (previous, next_c, last_by_run) =
            foldl (link_run cs) (none, none, replicate run_count NO_CONNECTION) (link_order cs)
      in (previous, next_c))"

section \<open>Departures by stop\<close>

record departure_index =
  by_stop :: "nat list list"
  next_connection :: "u32 list"
  transfer_rule_index :: rule_index

definition add_departure :: "transit_connection list \<Rightarrow> nat list list \<times> nat list \<Rightarrow> nat \<Rightarrow> nat list list \<times> nat list" where
  "add_departure cs s i = (let (departures, unsorted) = s; stop = unat (from_stop_index (cs ! i)); row = departures ! stop
     in (departures[stop := row @ [i]],
         if row \<noteq> [] \<and> departure_s (cs ! i) < departure_s (cs ! last row) then unsorted @ [stop] else unsorted))"

definition build_departures_by_stop :: "nat \<Rightarrow> transit_connection list \<Rightarrow> transfer_rule list \<Rightarrow> departure_index" where
  "build_departures_by_stop stop_count cs rules =
     (let (departures, unsorted) = foldl (add_departure cs) (replicate stop_count [], []) [0..<length cs];
          sorted_rows = foldl (\<lambda>rows stop. rows[stop := sort_key (\<lambda>i. departure_s (cs ! i)) (rows ! stop)])
            departures (remdups_adj (sort unsorted))
      in \<lparr>by_stop = sorted_rows, next_connection = snd (build_run_links cs),
          transfer_rule_index = rule_index_new rules\<rparr>)"

section \<open>Search states\<close>

record state_key =
  stop_index :: u32
  boardings :: u8
  connection_index :: u32
  transfer_from_connection :: u32
  can_alight :: bool

text \<open>Request options the search reads. \<open>walk_seconds\<close> is \<open>seconds_for_distance\<close> at the walking speed of
  the request, which is \<open>f64\<close> arithmetic.\<close>

record mode_options =
  board_slack_s :: u32
  transfer_slack_s :: u32
  max_transfers :: u8
  max_transfer_distance_m :: rat
  walk_seconds :: "rat \<Rightarrow> u32"

definition saturating_add8 :: "u8 \<Rightarrow> u8 \<Rightarrow> u8" where
  "saturating_add8 a b = (if unat a + unat b < 2 ^ 8 then a + b else - 1)"

definition boarding_slack :: "state_key \<Rightarrow> bool \<Rightarrow> mode_options \<Rightarrow> u32" where
  "boarding_slack s continuing_run modes =
     (if continuing_run then 0
      else if 0 < boardings s \<and> can_alight s then saturating_add (board_slack_s modes) (transfer_slack_s modes)
      else board_slack_s modes)"

definition can_start_transfer_walk :: "state_key \<Rightarrow> bool" where
  "can_start_transfer_walk s \<longleftrightarrow> 0 < boardings s \<and> can_alight s"

definition can_finish_with_egress :: "state_key \<Rightarrow> bool" where
  "can_finish_with_egress s \<longleftrightarrow> 0 < boardings s \<and> can_alight s"

record stop_candidate =
  candidate_stop :: u32
  distance_m :: rat
  transfer_time_s :: "u32 option"
  network_transfer :: "u32 option"

record transit_runtime =
  connections :: "transit_connection list"
  transfer_rules :: "transfer_rule list"
  departures :: departure_index
  transfer_candidates :: "stop_candidate list list"
  allowed_routes :: "bool list"

definition transfer_walk_context :: "transit_runtime \<Rightarrow> u32 \<Rightarrow> u32" where
  "transfer_walk_context rt i =
     (if has_origin (transfer_rule_index (departures rt)) (to_stop_index (connections rt ! unat i)) then i
      else NO_CONNECTION)"

definition forward_transfer_allowed :: "transit_runtime \<Rightarrow> state_key \<Rightarrow> transit_connection \<Rightarrow> transit_error + bool" where
  "forward_transfer_allowed rt s b =
     (let from_index = (if connection_index s = NO_CONNECTION then transfer_from_connection s else connection_index s)
      in case get_connection (connections rt) from_index of None \<Rightarrow> Inr True
         | Some a \<Rightarrow> allows (transfer_rule_index (departures rt)) (transfer_rules rt) a b)"

definition backward_transfer_context :: "transit_runtime \<Rightarrow> u32 \<Rightarrow> u32" where
  "backward_transfer_context rt i =
     (if has_destination (transfer_rule_index (departures rt)) (from_stop_index (connections rt ! unat i)) then i
      else NO_CONNECTION)"

definition backward_transfer_allowed :: "transit_runtime \<Rightarrow> transit_connection \<Rightarrow> u32 \<Rightarrow> transit_error + bool" where
  "backward_transfer_allowed rt a to_index =
     (case get_connection (connections rt) to_index of None \<Rightarrow> Inr True
      | Some b \<Rightarrow> allows (transfer_rule_index (departures rt)) (transfer_rules rt) a b)"

section \<open>Queue and relaxation\<close>

record queue_entry =
  time_s :: u32
  entry_state :: state_key

text \<open>\<open>QueueEntry::cmp\<close>: the queue pops its greatest entry, that of the earliest time.\<close>

definition entry_key :: "queue_entry \<Rightarrow> nat \<times> u32 \<times> u8 \<times> u32 \<times> u32 \<times> bool" where
  "entry_key e = (let s = entry_state e in
     (2 ^ 32 - unat (time_s e), stop_index s, boardings s, connection_index s, transfer_from_connection s, can_alight s))"

fun greatest_entry :: "queue_entry \<Rightarrow> queue_entry list \<Rightarrow> queue_entry" where
  "greatest_entry e [] = e"
| "greatest_entry e (x # xs) = greatest_entry (if entry_key e < entry_key x then x else e) xs"

datatype prev_step =
    Access_Step u32 u32
  | Transfer_Step state_key u32 u32 "u32 option"
  | Transit_Step state_key transit_connection

record final_candidate =
  final_arrival_s :: u32
  final_state :: state_key
  egress_time_s :: u32

record search_state =
  heap :: "queue_entry list"
  best :: "state_key \<Rightarrow> u32 option"
  prev :: "state_key \<Rightarrow> prev_step option"
  best_final :: "final_candidate option"
  final_candidates :: "final_candidate list"

definition relax_state :: "search_state \<Rightarrow> state_key \<Rightarrow> u32 \<Rightarrow> prev_step \<Rightarrow> search_state" where
  "relax_state st s t previous =
     (if (case best st s of None \<Rightarrow> True | Some known \<Rightarrow> t < known)
      then st\<lparr>best := (best st)(s \<mapsto> t), prev := (prev st)(s \<mapsto> previous),
              heap := \<lparr>time_s = t, entry_state = s\<rparr> # heap st\<rparr>
      else st)"

end
