(* ===== verification/Transit_Search.thy ===== *)
theory Transit_Search
  imports Transit_Runtime
begin

text \<open>
  The forward earliest-arrival search of the transit router (\<open>search_transit_route_with_runtime\<close> in
  \<open>crates/transit/src/router.rs\<close>): a label-correcting search over (stop, boardings, connection)
  states. Index expressions of the code that could panic on an inconsistent bundle
  (\<open>transfer_candidates[stop]\<close>, \<open>connections[i]\<close> of a transfer walk, \<open>allowed_routes[route]\<close>) are
  checked and give \<open>Index_Panic\<close>. Access and egress candidates come from the street search and are inputs here; the street
  modes and geometries they carry only decorate the answer.
\<close>

section \<open>Requests\<close>

text \<open>\<open>scaled_duration\<close> is the \<open>f64\<close> product with \<open>max_time_ratio\<close>.\<close>

record search_request =
  departure :: u32
  search_end :: u32
  modes :: mode_options
  egress_by_stop :: "u32 \<Rightarrow> u32 option"
  minimums_enabled :: bool
  collect_alternatives :: bool
  scaled_duration :: "u32 \<Rightarrow> u32"
  max_extra_time_s :: "u32 option"

definition alternative_arrival_limit :: "search_request \<Rightarrow> u32 \<Rightarrow> u32" where
  "alternative_arrival_limit rq best_arrival =
     (let best_duration = max (if departure rq \<le> best_arrival then best_arrival - departure rq else 0) 1;
          ratio_limit = saturating_add (departure rq) (scaled_duration rq best_duration);
          extra_limit = (case max_extra_time_s rq of None \<Rightarrow> - 1 | Some extra \<Rightarrow> saturating_add best_arrival extra)
      in min ratio_limit extra_limit)"

section \<open>One queue entry\<close>

definition access_state :: "u32 \<Rightarrow> state_key" where
  "access_state stop = \<lparr>stop_index = stop, boardings = 0, connection_index = NO_CONNECTION,
     transfer_from_connection = NO_CONNECTION, can_alight = False\<rparr>"

definition empty_search :: search_state where
  "empty_search = \<lparr>heap = [], best = Map.empty, prev = Map.empty, best_final = None, final_candidates = []\<rparr>"

definition relax_access :: "search_request \<Rightarrow> (u32 \<times> u32) list \<Rightarrow> search_state" where
  "relax_access rq access = foldl (\<lambda>st (stop, t). relax_state st (access_state stop)
     (saturating_add (departure rq) t) (Access_Step (departure rq) t)) empty_search access"

text \<open>The three kinds of entries that are dropped: they cannot improve the answer, or leave the window.\<close>

definition entry_pruned :: "search_request \<Rightarrow> final_candidate option \<Rightarrow> u32 \<Rightarrow> bool" where
  "entry_pruned rq found t =
     (if \<not> minimums_enabled rq \<and> \<not> collect_alternatives rq
      then (case found of None \<Rightarrow> False | Some f \<Rightarrow> final_arrival_s f \<le> t)
      else if \<not> minimums_enabled rq
      then (case found of None \<Rightarrow> False | Some f \<Rightarrow> alternative_arrival_limit rq (final_arrival_s f) < t)
      else False)"

definition in_window :: "search_request \<Rightarrow> u32 \<Rightarrow> bool" where
  "in_window rq t \<longleftrightarrow> t \<le> saturating_add (search_end rq) (6 * 60 * 60)"

definition finish_entry :: "search_request \<Rightarrow> search_state \<Rightarrow> state_key \<Rightarrow> u32 \<Rightarrow> search_state" where
  "finish_entry rq st s t =
     (case (if can_finish_with_egress s then egress_by_stop rq (stop_index s) else None) of
        None \<Rightarrow> st
      | Some egress \<Rightarrow>
          (let c = \<lparr>final_arrival_s = saturating_add t egress, final_state = s, egress_time_s = egress\<rparr>;
               st = (if collect_alternatives rq \<or> minimums_enabled rq
                     then st\<lparr>final_candidates := final_candidates st @ [c]\<rparr> else st)
           in if (case best_final st of None \<Rightarrow> True | Some found \<Rightarrow> final_arrival_s c < final_arrival_s found)
              then st\<lparr>best_final := Some c\<rparr> else st))"

definition walk_state :: "transit_runtime \<Rightarrow> state_key \<Rightarrow> u32 \<Rightarrow> state_key" where
  "walk_state rt s stop = \<lparr>stop_index = stop, boardings = boardings s, connection_index = NO_CONNECTION,
     transfer_from_connection = transfer_walk_context rt (connection_index s), can_alight = False\<rparr>"

definition walk_time :: "search_request \<Rightarrow> stop_candidate \<Rightarrow> u32" where
  "walk_time rq c = (case transfer_time_s c of Some t \<Rightarrow> t | None \<Rightarrow> walk_seconds (modes rq) (distance_m c))"

definition walks :: "transit_runtime \<Rightarrow> search_request \<Rightarrow> state_key \<Rightarrow> stop_candidate list" where
  "walks rt rq s = (if can_start_transfer_walk s \<and> unat (stop_index s) < length (transfer_candidates rt)
     then filter (\<lambda>c. candidate_stop c \<noteq> stop_index s)
       (takeWhile (\<lambda>c. distance_m c \<le> max_transfer_distance_m (modes rq)) (transfer_candidates rt ! unat (stop_index s)))
     else [])"

definition walk_arrival :: "search_request \<Rightarrow> u32 \<Rightarrow> stop_candidate \<Rightarrow> u32" where
  "walk_arrival rq t c = saturating_add (saturating_add t (transfer_slack_s (modes rq))) (walk_time rq c)"

text \<open>The loop over the candidates panics when the stop has no row, and in \<open>transfer_walk_context\<close> when
  it has a walk to make from a connection that does not exist.\<close>

definition walk_panics :: "transit_runtime \<Rightarrow> search_request \<Rightarrow> state_key \<Rightarrow> bool" where
  "walk_panics rt rq s \<longleftrightarrow> can_start_transfer_walk s
     \<and> (length (transfer_candidates rt) \<le> unat (stop_index s)
        \<or> walks rt rq s \<noteq> [] \<and> length (connections rt) \<le> unat (connection_index s))"

definition relax_walks :: "transit_runtime \<Rightarrow> search_request \<Rightarrow> search_state \<Rightarrow> state_key \<Rightarrow> u32 \<Rightarrow>
    transit_error + search_state" where
  "relax_walks rt rq st s t =
     (if walk_panics rt rq s then Inl Index_Panic
      else let d = saturating_add t (transfer_slack_s (modes rq))
        in Inr (foldl (\<lambda>st c. relax_state st (walk_state rt s (candidate_stop c)) (walk_arrival rq t c)
              (Transfer_Step s d (walk_time rq c) (network_transfer c))) st (walks rt rq s)))"

section \<open>Boarding and staying aboard\<close>

definition same_run :: "transit_runtime \<Rightarrow> state_key \<Rightarrow> nat \<Rightarrow> bool" where
  "same_run rt s i \<longleftrightarrow> unat (connection_index s) < length (next_connection (departures rt))
     \<and> next_connection (departures rt) ! unat (connection_index s) = word_of_nat i"

text \<open>The guards of the departure loop, in the code's order; \<open>None\<close> is \<open>continue\<close>.\<close>

definition ride :: "transit_runtime \<Rightarrow> search_request \<Rightarrow> state_key \<Rightarrow> u32 \<Rightarrow> nat \<Rightarrow> transit_error + state_key option" where
  "ride rt rq s t i =
     (let c = connections rt ! i; same = same_run rt s i
      in if length (allowed_routes rt) \<le> unat (route_index c) then Inl Index_Panic
         else if \<not> allowed_routes rt ! unat (route_index c) then Inr None
         else if departure_s c < saturating_add t (boarding_slack s same (modes rq)) then Inr None
         else if \<not> same \<and> (\<not> pickup_allowed c \<or> connection_index s \<noteq> NO_CONNECTION \<and> \<not> can_alight s) then Inr None
         else result_bind (if same then Inr True else forward_transfer_allowed rt s c) (\<lambda>allowed.
           if \<not> allowed then Inr None
           else (let n = (if same then boardings s else saturating_add8 (boardings s) 1)
             in if saturating_add8 (max_transfers (modes rq)) 1 < n then Inr None
                else Inr (Some \<lparr>stop_index = to_stop_index c, boardings = n, connection_index = word_of_nat i,
                  transfer_from_connection = NO_CONNECTION, can_alight = drop_off_allowed c\<rparr>))))"

fun relax_rides :: "transit_runtime \<Rightarrow> search_request \<Rightarrow> state_key \<Rightarrow> u32 \<Rightarrow> search_state \<Rightarrow> nat list \<Rightarrow>
    transit_error + search_state" where
  "relax_rides rt rq s t st [] = Inr st"
| "relax_rides rt rq s t st (i # is) =
     (let c = connections rt ! i
      in if search_end rq < departure_s c then Inr st
         else result_bind (ride rt rq s t i) (\<lambda>r. case r of
             None \<Rightarrow> relax_rides rt rq s t st is
           | Some s' \<Rightarrow> relax_rides rt rq s t (relax_state st s' (arrival_s c) (Transit_Step s c)) is))"

text \<open>\<open>by_stop.get(stop)\<close> and \<open>partition_point\<close>, which on a list in departure order is the first
  departure at or after \<open>t\<close>.\<close>

definition departures_from :: "transit_runtime \<Rightarrow> state_key \<Rightarrow> u32 \<Rightarrow> nat list" where
  "departures_from rt s t =
     (if unat (stop_index s) < length (by_stop (departures rt))
      then dropWhile (\<lambda>i. departure_s (connections rt ! i) < t) (by_stop (departures rt) ! unat (stop_index s))
      else [])"

definition search_step :: "transit_runtime \<Rightarrow> search_request \<Rightarrow> search_state \<Rightarrow> transit_error + search_state" where
  "search_step rt rq st =
     (let e = greatest_entry (hd (heap st)) (tl (heap st)); s = entry_state e; t = time_s e;
          st = st\<lparr>heap := remove1 e (heap st)\<rparr>
      in if (case best st s of None \<Rightarrow> False | Some known \<Rightarrow> known < t) then Inr st
         else if entry_pruned rq (best_final st) t then Inr st
         else if \<not> in_window rq t then Inr st
         else result_bind (relax_walks rt rq (finish_entry rq st s t) s t)
           (\<lambda>st. relax_rides rt rq s t st (departures_from rt s t)))"

section \<open>Termination\<close>

text \<open>There are finitely many states, and every push lowers the best time of one of them.\<close>

lemma finite_states: "finite (UNIV :: state_key set)"
proof (rule finite_imageD)
  let ?f = "\<lambda>s :: state_key. (stop_index s, boardings s, connection_index s, transfer_from_connection s, can_alight s)"
  show "finite (range ?f)" by (rule finite_subset[OF subset_UNIV]) simp
  show "inj ?f" by (rule injI) simp
qed

definition state_weight :: "(state_key \<Rightarrow> u32 option) \<Rightarrow> state_key \<Rightarrow> nat" where
  "state_weight b s = (case b s of None \<Rightarrow> 2 ^ 32 | Some t \<Rightarrow> unat t)"

definition search_potential :: "search_state \<Rightarrow> nat" where
  "search_potential st = sum (state_weight (best st)) UNIV + length (heap st)"

lemma relax_potential: "search_potential (relax_state st s t p) \<le> search_potential st"
proof (cases "case best st s of None \<Rightarrow> True | Some known \<Rightarrow> t < known")
  case True
  let ?b = "(best st)(s \<mapsto> t)"
  have less: "state_weight ?b s < state_weight (best st) s"
    using True unsigned_less[of t, where ?'a = nat]
    by (auto simp: state_weight_def word_less_nat_alt split: option.splits)
  have "sum (state_weight ?b) UNIV < sum (state_weight (best st)) UNIV"
    by (rule sum_strict_mono_ex1[OF finite_states]) (use less in \<open>auto simp: state_weight_def\<close>)
  then show ?thesis using True by (simp add: search_potential_def relax_state_def)
qed (simp add: relax_state_def)

lemma finish_potential: "search_potential (finish_entry rq st s t) = search_potential st"
  by (auto simp: finish_entry_def search_potential_def Let_def split: option.splits)

lemma walks_potential: "relax_walks rt rq st s t = Inr st' \<Longrightarrow> search_potential st' \<le> search_potential st"
proof -
  have "search_potential (foldl (\<lambda>st c. relax_state st (f c) (g c) (h c)) st cs) \<le> search_potential st"
    for f g h and cs :: "stop_candidate list"
  proof (induction cs arbitrary: st)
    case (Cons c cs)
    then show ?case using order_trans[OF Cons.IH relax_potential] by simp
  qed simp
  then show "relax_walks rt rq st s t = Inr st' \<Longrightarrow> search_potential st' \<le> search_potential st"
    by (auto simp: relax_walks_def Let_def split: if_splits)
qed

lemma rides_potential: "relax_rides rt rq s t st is = Inr st' \<Longrightarrow> search_potential st' \<le> search_potential st"
proof (induction rt rq s t st "is" rule: relax_rides.induct)
  case (2 rt rq s t st i js)
  show ?case
  proof (cases "search_end rq < departure_s (connections rt ! i)")
    case False
    then obtain r where r: "ride rt rq s t i = Inr r" using "2.prems" by (cases "ride rt rq s t i") auto
    show ?thesis
    proof (cases r)
      case None
      then show ?thesis using "2.prems" "2.IH"(1)[OF refl False] r False by simp
    next
      case (Some s')
      then have "search_potential st' \<le> search_potential
          (relax_state st s' (arrival_s (connections rt ! i)) (Transit_Step s (connections rt ! i)))"
        using "2.prems" "2.IH"(2)[OF refl False] r False by (simp add: Let_def)
      then show ?thesis by (rule order_trans) (rule relax_potential)
    qed
  qed (use "2.prems" in simp)
qed simp

lemma greatest_entry_mem: "greatest_entry e xs \<in> set (e # xs)"
  by (induction e xs rule: greatest_entry.induct) (auto split: if_splits)

lemma search_step_potential:
  assumes "heap st \<noteq> []" "search_step rt rq st = Inr st'"
  shows "search_potential st' < search_potential st"
proof -
  let ?e = "greatest_entry (hd (heap st)) (tl (heap st))"
  let ?st = "st\<lparr>heap := remove1 ?e (heap st)\<rparr>"
  have "?e \<in> set (heap st)" using greatest_entry_mem[of "hd (heap st)" "tl (heap st)"] assms(1) by simp
  then have l: "search_potential ?st < search_potential st"
    using assms(1) by (simp add: search_potential_def length_remove1)
  have "search_potential st' \<le> search_potential ?st"
  proof -
    have "st' = ?st \<or> (\<exists>sw. relax_walks rt rq (finish_entry rq ?st (entry_state ?e) (time_s ?e)) (entry_state ?e) (time_s ?e) = Inr sw
        \<and> relax_rides rt rq (entry_state ?e) (time_s ?e) sw (departures_from rt (entry_state ?e) (time_s ?e)) = Inr st')"
      using assms(2) unfolding search_step_def Let_def by (simp add: result_bind_Inr_iff split: if_splits)
    then show ?thesis
    proof (elim disjE exE conjE)
      fix sw assume w: "relax_walks rt rq (finish_entry rq ?st (entry_state ?e) (time_s ?e)) (entry_state ?e) (time_s ?e) = Inr sw"
        and r: "relax_rides rt rq (entry_state ?e) (time_s ?e) sw (departures_from rt (entry_state ?e) (time_s ?e)) = Inr st'"
      from rides_potential[OF r] show ?thesis
        by (rule order_trans) (rule order_trans[OF walks_potential[OF w]], simp add: finish_potential)
    qed simp
  qed
  then show ?thesis using l by simp
qed

function search_loop :: "transit_runtime \<Rightarrow> search_request \<Rightarrow> search_state \<Rightarrow> transit_error + search_state" where
  "search_loop rt rq st = (if heap st = [] then Inr st
     else case search_step rt rq st of Inl e \<Rightarrow> Inl e | Inr st' \<Rightarrow> search_loop rt rq st')"
  by pat_completeness auto
termination
  by (relation "measure (\<lambda>(_, _, st). search_potential st)") (simp_all add: search_step_potential)

declare search_loop.simps [simp del]

definition search :: "transit_runtime \<Rightarrow> search_request \<Rightarrow> (u32 \<times> u32) list \<Rightarrow> transit_error + search_state" where
  "search rt rq access = search_loop rt rq (relax_access rq access)"

end
