(* ===== verification/Transit_Exact.thy ===== *)
theory Transit_Exact
  imports Transit_Search
begin

text \<open>
  The forward transit search finds an earliest arrival. A journey is any sequence of an access
  leg, transfer walks and rides that the rules of the router allow; the search returns the least
  arrival over all journeys that stay inside the search window, and nothing when there is none.
\<close>

section \<open>The departure rows\<close>

definition stop_row :: "transit_connection list \<Rightarrow> nat \<Rightarrow> nat \<Rightarrow> nat list" where
  "stop_row cs n s = filter (\<lambda>i. unat (from_stop_index (cs ! i)) = s) [0..<n]"

definition departures_inv :: "transit_connection list \<Rightarrow> nat \<Rightarrow> nat \<Rightarrow> nat list list \<times> nat list \<Rightarrow> bool" where
  "departures_inv cs stop_count n s \<longleftrightarrow> length (fst s) = stop_count \<and> set (snd s) \<subseteq> {..< stop_count}
     \<and> (\<forall>k < stop_count. fst s ! k = stop_row cs n k)
     \<and> (\<forall>k < stop_count. k \<notin> set (snd s) \<longrightarrow> sorted (map (\<lambda>i. departure_s (cs ! i)) (stop_row cs n k)))"

lemma add_departure_inv:
  assumes "departures_inv cs stop_count n s" "unat (from_stop_index (cs ! n)) < stop_count"
  shows "departures_inv cs stop_count (Suc n) (add_departure cs s n)"
proof -
  let ?k = "unat (from_stop_index (cs ! n))" and ?d = "\<lambda>i. departure_s (cs ! i)"
  obtain rows uns where s: "s = (rows, uns)" by (cases s)
  have i: "length rows = stop_count" "set uns \<subseteq> {..< stop_count}" "\<forall>k < stop_count. rows ! k = stop_row cs n k"
    "\<forall>k < stop_count. k \<notin> set uns \<longrightarrow> sorted (map ?d (stop_row cs n k))"
    using assms(1) by (simp_all add: departures_inv_def s)
  have row: "stop_row cs (Suc n) k = (if k = ?k then stop_row cs n k @ [n] else stop_row cs n k)" for k
    by (simp add: stop_row_def)
  have sorted: "sorted (map ?d (stop_row cs n ?k @ [n]))"
    if "sorted (map ?d (stop_row cs n ?k))" "\<not> (stop_row cs n ?k \<noteq> [] \<and> ?d n < ?d (last (stop_row cs n ?k)))"
  proof (cases "stop_row cs n ?k" rule: rev_cases)
    case (snoc ys y)
    then show ?thesis using that by (auto simp: sorted_append)
  qed simp
  show ?thesis
    using i assms(2) sorted
    by (auto simp: departures_inv_def add_departure_def s Let_def row nth_list_update)
qed

lemma departures_upto:
  "\<forall>c\<in>set cs. unat (from_stop_index c) < stop_count \<Longrightarrow> n \<le> length cs \<Longrightarrow>
    departures_inv cs stop_count n (foldl (add_departure cs) (replicate stop_count [], []) [0..<n])"
proof (induction n)
  case (Suc n)
  then have "departures_inv cs stop_count n (foldl (add_departure cs) (replicate stop_count [], []) [0..<n])" by simp
  then have "departures_inv cs stop_count (Suc n)
      (add_departure cs (foldl (add_departure cs) (replicate stop_count [], []) [0..<n]) n)"
    by (rule add_departure_inv) (use Suc.prems in auto)
  then show ?case by simp
qed (simp add: departures_inv_def stop_row_def)

lemma sort_rows:
  "k < length rows \<Longrightarrow> set stops \<subseteq> {..<length rows} \<Longrightarrow>
    foldl (\<lambda>rows stop. rows[stop := sort_key d (rows ! stop)]) rows stops ! k
      = (if k \<in> set stops then sort_key d (rows ! k) else rows ! k)"
proof (induction stops arbitrary: rows)
  case (Cons s stops)
  have idem: "sort_key d (sort_key d xs) = sort_key d xs" for xs :: "'a list"
    by (intro sort_key_id_if_sorted) simp
  show ?case using Cons.IH[of "rows[s := sort_key d (rows ! s)]"] Cons.prems
    by (auto simp: idem nth_list_update)
qed simp

theorem by_stop_rows:
  assumes "\<forall>c\<in>set cs. unat (from_stop_index c) < stop_count" "k < stop_count"
  shows "by_stop (build_departures_by_stop stop_count cs rules) ! k
    = sort_key (\<lambda>i. departure_s (cs ! i)) (stop_row cs (length cs) k)"
proof -
  obtain rows uns where s: "foldl (add_departure cs) (replicate stop_count [], []) [0..<length cs] = (rows, uns)"
    by (cases "foldl (add_departure cs) (replicate stop_count [], []) [0..<length cs]")
  have i: "length rows = stop_count" "set uns \<subseteq> {..< stop_count}" "\<forall>k < stop_count. rows ! k = stop_row cs (length cs) k"
    "\<forall>k < stop_count. k \<notin> set uns \<longrightarrow> sorted (map (\<lambda>i. departure_s (cs ! i)) (stop_row cs (length cs) k))"
    using departures_upto[OF assms(1) order_refl] by (simp_all add: departures_inv_def s)
  have "set (remdups_adj (sort uns)) = set uns" by simp
  then show ?thesis
    using sort_rows[of k rows "remdups_adj (sort uns)" "\<lambda>i. departure_s (cs ! i)"] i assms(2)
    by (auto simp: build_departures_by_stop_def s Let_def sort_key_id_if_sorted)
qed

lemma by_stop_length:
  assumes "\<forall>c\<in>set cs. unat (from_stop_index c) < stop_count"
  shows "length (by_stop (build_departures_by_stop stop_count cs rules)) = stop_count"
proof -
  obtain rows uns where s: "foldl (add_departure cs) (replicate stop_count [], []) [0..<length cs] = (rows, uns)"
    by (cases "foldl (add_departure cs) (replicate stop_count [], []) [0..<length cs]")
  have "length rows = stop_count" using departures_upto[OF assms order_refl] by (simp add: departures_inv_def s)
  moreover have "length (foldl (\<lambda>rows stop. rows[stop := sort_key d (rows ! stop)]) rows stops) = length rows"
    for d :: "nat \<Rightarrow> u32" and stops and rows :: "nat list list"
    by (induction stops arbitrary: rows) simp_all
  ultimately show ?thesis by (simp add: build_departures_by_stop_def s Let_def)
qed

text \<open>A runtime as \<open>PreparedTransitRouter\<close> makes it.\<close>

definition prepared :: "nat \<Rightarrow> transit_runtime \<Rightarrow> bool" where
  "prepared stop_count rt \<longleftrightarrow>
     departures rt = build_departures_by_stop stop_count (connections rt) (transfer_rules rt)
     \<and> (\<forall>c\<in>set (connections rt). unat (from_stop_index c) < stop_count)"

lemma departures_from_rows:
  assumes "prepared n rt"
  shows "sorted (map (\<lambda>i. departure_s (connections rt ! i)) (departures_from rt s t))"
    and "i \<in> set (departures_from rt s t) \<Longrightarrow> i < length (connections rt) \<and> from_stop_index (connections rt ! i) = stop_index s"
    and "i < length (connections rt) \<Longrightarrow> from_stop_index (connections rt ! i) = stop_index s \<Longrightarrow>
      t \<le> departure_s (connections rt ! i) \<Longrightarrow> i \<in> set (departures_from rt s t)"
proof -
  let ?d = "\<lambda>i. departure_s (connections rt ! i)" and ?k = "unat (stop_index s)"
  let ?row = "sort_key ?d (stop_row (connections rt) (length (connections rt)) ?k)"
  have in_range: "\<forall>c\<in>set (connections rt). unat (from_stop_index c) < n" using assms by (simp add: prepared_def)
  have d: "departures_from rt s t = (if ?k < n then dropWhile (\<lambda>i. ?d i < t) ?row else [])"
    using assms by_stop_rows[OF in_range, of ?k] by_stop_length[OF in_range]
    by (simp add: departures_from_def prepared_def)
  show "sorted (map ?d (departures_from rt s t))"
    unfolding d by (simp add: dropWhile_eq_drop flip: drop_map)
  show "i < length (connections rt) \<and> from_stop_index (connections rt ! i) = stop_index s"
    if "i \<in> set (departures_from rt s t)"
  proof -
    have "i \<in> set (dropWhile (\<lambda>i. ?d i < t) ?row)" using that by (simp add: d split: if_splits)
    then have "i \<in> set ?row" by (rule set_dropWhileD)
    then show ?thesis by (auto simp: stop_row_def word_unat_eq_iff)
  qed
  show "i \<in> set (departures_from rt s t)"
    if i: "i < length (connections rt)" "from_stop_index (connections rt ! i) = stop_index s" "t \<le> ?d i"
  proof -
    have "?k < n" using in_range i(1,2) by (metis nth_mem)
    moreover have "i \<in> set ?row" using i by (simp add: stop_row_def)
    moreover have "x \<in> set (dropWhile P xs)" if "x \<in> set xs" "\<not> P x" for x :: nat and P xs
      using that by (induction xs) auto
    ultimately show ?thesis using i(3) unfolding d by simp
  qed
qed

section \<open>Journeys\<close>

text \<open>The next states of a passenger who is in state \<open>s\<close> at time \<open>t\<close>: a transfer walk, or a ride on any
  connection that leaves the stop inside the window.\<close>

definition next_state :: "transit_runtime \<Rightarrow> search_request \<Rightarrow> state_key \<Rightarrow> u32 \<Rightarrow> state_key \<Rightarrow> u32 \<Rightarrow> bool" where
  "next_state rt rq s t s' t' \<longleftrightarrow>
     (\<exists>c\<in>set (walks rt rq s). s' = walk_state rt s (candidate_stop c) \<and> t' = walk_arrival rq t c)
     \<or> (\<exists>i<length (connections rt). from_stop_index (connections rt ! i) = stop_index s
          \<and> departure_s (connections rt ! i) \<le> search_end rq
          \<and> ride rt rq s t i = Inr (Some s') \<and> t' = arrival_s (connections rt ! i))"

inductive journey :: "transit_runtime \<Rightarrow> search_request \<Rightarrow> (u32 \<times> u32) list \<Rightarrow> state_key \<Rightarrow> u32 \<Rightarrow> bool"
  for rt rq access where
  start: "(stop, a) \<in> set access \<Longrightarrow> journey rt rq access (access_state stop) (saturating_add (departure rq) a)"
| move: "journey rt rq access s t \<Longrightarrow> in_window rq t \<Longrightarrow> next_state rt rq s t s' t' \<Longrightarrow> journey rt rq access s' t'"

definition finishes :: "transit_runtime \<Rightarrow> search_request \<Rightarrow> (u32 \<times> u32) list \<Rightarrow> u32 \<Rightarrow> bool" where
  "finishes rt rq access a \<longleftrightarrow> (\<exists>s t e. journey rt rq access s t \<and> in_window rq t \<and> can_finish_with_egress s
     \<and> egress_by_stop rq (stop_index s) = Some e \<and> a = saturating_add t e)"

text \<open>Arriving earlier never hurts: whatever can be done at \<open>t\<close> can be done from an earlier \<open>t0\<close>.\<close>

lemma ride_earlier: "ride rt rq s t i = Inr (Some s') \<Longrightarrow> t0 \<le> t \<Longrightarrow> ride rt rq s t0 i = Inr (Some s')"
proof -
  assume r: "ride rt rq s t i = Inr (Some s')" and le: "t0 \<le> t"
  let ?c = "connections rt ! i" and ?b = "boarding_slack s (same_run rt s i) (modes rq)"
  have "\<not> departure_s ?c < saturating_add t ?b" using r by (auto simp: ride_def Let_def split: if_splits)
  moreover have "saturating_add t0 ?b \<le> saturating_add t ?b" using le by (rule saturating_add_mono)
  ultimately have "departure_s ?c < saturating_add t ?b \<longleftrightarrow> False" "departure_s ?c < saturating_add t0 ?b \<longleftrightarrow> False"
    by simp_all
  then have "ride rt rq s t0 i = ride rt rq s t i" unfolding ride_def Let_def by (simp only: if_False)
  then show ?thesis using r by simp
qed

lemma ride_departs: "ride rt rq s t i = Inr (Some s') \<Longrightarrow> t \<le> departure_s (connections rt ! i)"
proof -
  assume "ride rt rq s t i = Inr (Some s')"
  then have "\<not> departure_s (connections rt ! i) < saturating_add t (boarding_slack s (same_run rt s i) (modes rq))"
    by (auto simp: ride_def Let_def split: if_splits)
  then show ?thesis using saturating_add_upper[of t] by (meson linorder_not_less order_trans)
qed

lemma next_state_cases:
  assumes "next_state rt rq s t s' t'"
  obtains (walk) c where "c \<in> set (walks rt rq s)" "s' = walk_state rt s (candidate_stop c)" "t' = walk_arrival rq t c"
    | (ride) i where "i < length (connections rt)" "from_stop_index (connections rt ! i) = stop_index s"
      "departure_s (connections rt ! i) \<le> search_end rq" "ride rt rq s t i = Inr (Some s')"
      "t' = arrival_s (connections rt ! i)"
  using assms unfolding next_state_def by metis

lemma next_state_walk: "c \<in> set (walks rt rq s) \<Longrightarrow>
    next_state rt rq s t (walk_state rt s (candidate_stop c)) (walk_arrival rq t c)"
  unfolding next_state_def by blast

lemma next_state_ride: "i < length (connections rt) \<Longrightarrow> from_stop_index (connections rt ! i) = stop_index s \<Longrightarrow>
    departure_s (connections rt ! i) \<le> search_end rq \<Longrightarrow> ride rt rq s t i = Inr (Some s') \<Longrightarrow>
    next_state rt rq s t s' (arrival_s (connections rt ! i))"
  unfolding next_state_def by blast

lemma next_state_earlier:
  assumes "next_state rt rq s t s' t'" "t0 \<le> t"
  shows "\<exists>t0'\<le>t'. next_state rt rq s t0 s' t0'"
  using assms(1)
proof (cases rule: next_state_cases)
  case (walk c)
  have "walk_arrival rq t0 c \<le> walk_arrival rq t c"
    unfolding walk_arrival_def using assms(2) by (intro saturating_add_mono)
  then show ?thesis using next_state_walk[OF walk(1), of t0] walk(2,3) by blast
next
  case (ride i)
  show ?thesis using next_state_ride[OF ride(1-3) ride_earlier[OF ride(4) assms(2)]] ride(5) by blast
qed

lemma next_state_later:
  assumes "next_state rt rq s t s' t'" "\<forall>c\<in>set (connections rt). departure_s c \<le> arrival_s c"
  shows "t \<le> t'"
  using assms(1)
proof (cases rule: next_state_cases)
  case (walk c)
  then show ?thesis unfolding walk_arrival_def using saturating_add_upper order_trans by blast
next
  case (ride i)
  have "departure_s (connections rt ! i) \<le> arrival_s (connections rt ! i)" using assms(2) ride(1) by simp
  then show ?thesis using ride_departs[OF ride(4)] ride(5) by simp
qed

section \<open>The search invariant\<close>

definition upper :: "search_state \<Rightarrow> u32 \<Rightarrow> bool" where
  "upper st x \<longleftrightarrow> (\<exists>f. best_final st = Some f \<and> final_arrival_s f \<le> x)"

definition reached :: "search_state \<Rightarrow> state_key \<Rightarrow> u32 \<Rightarrow> bool" where
  "reached st s t \<longleftrightarrow> (\<exists>u. best st s = Some u \<and> u \<le> t)"

definition settled :: "transit_runtime \<Rightarrow> search_request \<Rightarrow> search_state \<Rightarrow> state_key \<Rightarrow> u32 \<Rightarrow> bool" where
  "settled rt rq st s t \<longleftrightarrow> \<not> in_window rq t \<or> upper st t
     \<or> (\<forall>s' t'. next_state rt rq s t s' t' \<longrightarrow> reached st s' t')
       \<and> (\<forall>e. can_finish_with_egress s \<longrightarrow> egress_by_stop rq (stop_index s) = Some e \<longrightarrow> upper st (saturating_add t e))"

definition sound :: "transit_runtime \<Rightarrow> search_request \<Rightarrow> (u32 \<times> u32) list \<Rightarrow> search_state \<Rightarrow> bool" where
  "sound rt rq access st \<longleftrightarrow> (\<forall>s t. best st s = Some t \<longrightarrow> journey rt rq access s t)
     \<and> (\<forall>e\<in>set (heap st). reached st (entry_state e) (time_s e))
     \<and> (\<forall>f. best_final st = Some f \<longrightarrow> finishes rt rq access (final_arrival_s f))"

definition pending :: "search_state \<Rightarrow> state_key \<Rightarrow> u32 \<Rightarrow> bool" where
  "pending st s t \<longleftrightarrow> \<lparr>time_s = t, entry_state = s\<rparr> \<in> set (heap st)"

text \<open>All best times are pending or settled, except possibly those in \<open>X\<close>.\<close>

definition covered :: "transit_runtime \<Rightarrow> search_request \<Rightarrow> (state_key \<times> u32) set \<Rightarrow> search_state \<Rightarrow> bool" where
  "covered rt rq X st \<longleftrightarrow> (\<forall>s t. best st s = Some t \<longrightarrow> (s, t) \<in> X \<or> pending st s t \<or> settled rt rq st s t)"

definition improves :: "search_state \<Rightarrow> search_state \<Rightarrow> bool" where
  "improves st st' \<longleftrightarrow> (\<forall>s t. reached st s t \<longrightarrow> reached st' s t) \<and> (\<forall>x. upper st x \<longrightarrow> upper st' x)"

lemma improves_refl: "improves st st" and improves_trans: "improves a b \<Longrightarrow> improves b c \<Longrightarrow> improves a c"
  by (simp_all add: improves_def)

lemma settled_improves: "settled rt rq st s t \<Longrightarrow> improves st st' \<Longrightarrow> settled rt rq st' s t"
  unfolding settled_def improves_def by meson

lemma relax_improves: "improves st (relax_state st s t p)"
proof -
  have "reached (relax_state st s t p) s' t'" if "reached st s' t'" for s' t'
    using that by (auto simp: reached_def relax_state_def split: option.splits)
  moreover have "upper (relax_state st s t p) = upper st" by (auto simp: upper_def relax_state_def fun_eq_iff)
  ultimately show ?thesis by (simp add: improves_def)
qed

lemma relax_reached: "reached (relax_state st s t p) s t"
  by (auto simp: reached_def relax_state_def split: option.splits)

lemma relax_covered:
  assumes "covered rt rq X st"
  shows "covered rt rq X (relax_state st s t p)"
  unfolding covered_def
proof (intro allI impI)
  fix s' t' assume b: "best (relax_state st s t p) s' = Some t'"
  have keep: "pending (relax_state st s t p) s' t'" if "pending st s' t'"
    using that by (auto simp: pending_def relax_state_def)
  show "(s', t') \<in> X \<or> pending (relax_state st s t p) s' t' \<or> settled rt rq (relax_state st s t p) s' t'"
  proof (cases "best st s' = Some t'")
    case True
    then show ?thesis using assms keep settled_improves[OF _ relax_improves] unfolding covered_def by blast
  next
    case False
    then have "pending (relax_state st s t p) s' t'"
      using b by (auto simp: relax_state_def pending_def split: if_splits option.splits)
    then show ?thesis by blast
  qed
qed

lemma relax_sound:
  assumes "sound rt rq access st" "journey rt rq access s t"
  shows "sound rt rq access (relax_state st s t p)"
proof -
  have i: "improves st (relax_state st s t p)" by (rule relax_improves)
  have "journey rt rq access s' t'" if "best (relax_state st s t p) s' = Some t'" for s' t'
    using that assms by (auto simp: relax_state_def sound_def split: if_splits option.splits)
  moreover have "reached (relax_state st s t p) (entry_state e) (time_s e)"
    if "e \<in> set (heap (relax_state st s t p))" for e
  proof (cases "e \<in> set (heap st)")
    case True
    then show ?thesis using assms(1) i by (simp add: sound_def improves_def)
  next
    case False
    then have "e = \<lparr>time_s = t, entry_state = s\<rparr>" using that by (auto simp: relax_state_def split: if_splits)
    then show ?thesis using relax_reached by simp
  qed
  moreover have "best_final (relax_state st s t p) = best_final st" by (simp add: relax_state_def)
  ultimately show ?thesis using assms(1) by (simp add: sound_def)
qed

section \<open>One step of the search\<close>

lemma finish_spec:
  assumes "sound rt rq access st" "covered rt rq X st" "journey rt rq access s t" "in_window rq t"
  shows "sound rt rq access (finish_entry rq st s t)" "covered rt rq X (finish_entry rq st s t)"
    "improves st (finish_entry rq st s t)"
    "\<forall>e. can_finish_with_egress s \<longrightarrow> egress_by_stop rq (stop_index s) = Some e \<longrightarrow>
      upper (finish_entry rq st s t) (saturating_add t e)"
    "best (finish_entry rq st s t) = best st" "heap (finish_entry rq st s t) = heap st"
proof -
  let ?f = "finish_entry rq st s t"
  show b: "best ?f = best st" and h: "heap ?f = heap st"
    by (auto simp: finish_entry_def Let_def split: option.splits)
  have r: "reached ?f = reached st" unfolding reached_def b by simp
  have p: "pending ?f = pending st" unfolding pending_def h by simp
  have u: "upper ?f x" if "upper st x" for x
    using that by (auto simp: upper_def finish_entry_def Let_def split: option.splits if_splits)
  show i: "improves st ?f" unfolding improves_def r using u by blast
  show "covered rt rq X ?f"
    using assms(2) settled_improves[OF _ i] unfolding covered_def p b by blast
  show "\<forall>e. can_finish_with_egress s \<longrightarrow> egress_by_stop rq (stop_index s) = Some e \<longrightarrow> upper ?f (saturating_add t e)"
    by (auto simp: upper_def finish_entry_def Let_def split: option.splits)
  have "finishes rt rq access (final_arrival_s f)" if b: "best_final ?f = Some f" for f
  proof (cases "best_final st = Some f")
    case True
    then show ?thesis using assms(1) by (simp add: sound_def)
  next
    case False
    then obtain e where e: "(if can_finish_with_egress s then egress_by_stop rq (stop_index s) else None) = Some e"
      using b by (cases "if can_finish_with_egress s then egress_by_stop rq (stop_index s) else None")
        (simp_all add: finish_entry_def)
    have "best_final ?f = best_final st
        \<or> best_final ?f = Some \<lparr>final_arrival_s = saturating_add t e, final_state = s, egress_time_s = e\<rparr>"
      unfolding finish_entry_def e by (simp add: Let_def)
    then have "final_arrival_s f = saturating_add t e" using that False by auto
    moreover have "can_finish_with_egress s" "egress_by_stop rq (stop_index s) = Some e"
      using e by (simp_all split: if_splits)
    ultimately show ?thesis using assms(3,4) unfolding finishes_def by blast
  qed
  then show "sound rt rq access ?f" using assms(1) unfolding sound_def b h r by blast
qed

lemma walks_spec:
  assumes "sound rt rq access st" "covered rt rq X st" "journey rt rq access s t" "in_window rq t"
    and w: "relax_walks rt rq st s t = Inr sw"
  shows "sound rt rq access sw \<and> covered rt rq X sw \<and> improves st sw
    \<and> (\<forall>c\<in>set (walks rt rq s). reached sw (walk_state rt s (candidate_stop c)) (walk_arrival rq t c))"
proof -
  let ?r = "\<lambda>st c. relax_state st (walk_state rt s (candidate_stop c)) (walk_arrival rq t c)
    (Transfer_Step s (saturating_add t (transfer_slack_s (modes rq))) (walk_time rq c) (network_transfer c))"
  have "sound rt rq access (foldl ?r st cs) \<and> covered rt rq X (foldl ?r st cs) \<and> improves st (foldl ?r st cs)
    \<and> (\<forall>c\<in>set cs. reached (foldl ?r st cs) (walk_state rt s (candidate_stop c)) (walk_arrival rq t c))"
    if "set cs \<subseteq> set (walks rt rq s)" for cs
    using that assms(1,2)
  proof (induction cs arbitrary: st)
    case (Cons c cs)
    let ?st = "?r st c"
    have "journey rt rq access (walk_state rt s (candidate_stop c)) (walk_arrival rq t c)"
      using Cons.prems(1) by (intro journey.move[OF assms(3,4)] next_state_walk) simp
    then have "sound rt rq access ?st" "covered rt rq X ?st"
      using Cons.prems relax_sound relax_covered by blast+
    with Cons.IH[of ?st] Cons.prems(1) have ih: "sound rt rq access (foldl ?r ?st cs)"
      "covered rt rq X (foldl ?r ?st cs)" "improves ?st (foldl ?r ?st cs)"
      "\<forall>c\<in>set cs. reached (foldl ?r ?st cs) (walk_state rt s (candidate_stop c)) (walk_arrival rq t c)"
      by simp_all
    have "reached (foldl ?r ?st cs) (walk_state rt s (candidate_stop c)) (walk_arrival rq t c)"
      using ih(3) relax_reached unfolding improves_def by blast
    moreover have "improves st (foldl ?r ?st cs)" using relax_improves ih(3) by (rule improves_trans)
    ultimately show ?case using ih by simp
  qed (simp add: improves_refl)
  moreover have "sw = foldl ?r st (walks rt rq s)"
    using w by (auto simp: relax_walks_def Let_def split: if_splits)
  ultimately show ?thesis by simp
qed

lemma rides_spec:
  assumes "relax_rides rt rq s t st is = Inr st'" "sorted (map (\<lambda>i. departure_s (connections rt ! i)) is)"
    "\<forall>i\<in>set is. i < length (connections rt) \<and> from_stop_index (connections rt ! i) = stop_index s"
    "sound rt rq access st" "covered rt rq X st" "journey rt rq access s t" "in_window rq t"
  shows "sound rt rq access st' \<and> covered rt rq X st' \<and> improves st st'
    \<and> (\<forall>i\<in>set is. \<forall>s'. departure_s (connections rt ! i) \<le> search_end rq \<longrightarrow> ride rt rq s t i = Inr (Some s') \<longrightarrow>
          reached st' s' (arrival_s (connections rt ! i)))"
  using assms(1-5)
proof (induction "is" arbitrary: st)
  case (Cons i js)
  let ?c = "connections rt ! i"
  show ?case
  proof (cases "search_end rq < departure_s ?c")
    case True
    then have "st' = st" using Cons.prems(1) by simp
    moreover have "\<forall>j\<in>set (i # js). \<not> departure_s (connections rt ! j) \<le> search_end rq"
      using True Cons.prems(2) by auto
    ultimately show ?thesis using Cons.prems(4,5) improves_refl by blast
  next
    case False
    then obtain r where r: "ride rt rq s t i = Inr r" using Cons.prems(1) by (cases "ride rt rq s t i") auto
    show ?thesis
    proof (cases r)
      case None
      then have "relax_rides rt rq s t st js = Inr st'" using Cons.prems(1) r False by simp
      from Cons.IH[OF this] show ?thesis using Cons.prems r None by simp
    next
      case (Some s')
      let ?st = "relax_state st s' (arrival_s ?c) (Transit_Step s ?c)"
      have rec: "relax_rides rt rq s t ?st js = Inr st'" using Cons.prems(1) r False Some by (simp add: Let_def)
      have j: "journey rt rq access s' (arrival_s ?c)"
        using Cons.prems(3) False r Some by (intro journey.move[OF assms(6,7)] next_state_ride) simp_all
      note ih = Cons.IH[OF rec _ _ relax_sound[OF Cons.prems(4) j] relax_covered[OF Cons.prems(5)]]
      have ih: "sound rt rq access st'" "covered rt rq X st'" "improves ?st st'"
        "\<forall>i\<in>set js. \<forall>s'. departure_s (connections rt ! i) \<le> search_end rq \<longrightarrow> ride rt rq s t i = Inr (Some s') \<longrightarrow>
          reached st' s' (arrival_s (connections rt ! i))"
        using ih Cons.prems(2,3) by simp_all
      have "reached st' s' (arrival_s ?c)" using ih(3) relax_reached unfolding improves_def by blast
      moreover have "improves st st'" using relax_improves ih(3) by (rule improves_trans)
      ultimately show ?thesis using ih r Some by simp
    qed
  qed
qed (simp add: improves_refl)

lemma pruned_upper:
  assumes "entry_pruned rq found t" "\<forall>d. d \<le> scaled_duration rq d" "departure rq \<le> t"
    "best_final st = found"
  shows "upper st t"
proof -
  obtain f where f: "found = Some f"
    and "final_arrival_s f \<le> t \<or> alternative_arrival_limit rq (final_arrival_s f) < t"
    using assms(1) by (auto simp: entry_pruned_def split: if_splits option.splits)
  moreover have "final_arrival_s f \<le> t" if "alternative_arrival_limit rq (final_arrival_s f) < t"
  proof -
    let ?a = "final_arrival_s f" and ?d = "departure rq"
    let ?n = "max (if ?d \<le> ?a then ?a - ?d else 0) 1"
    have "?a \<le> saturating_add ?d (scaled_duration rq ?n)"
    proof (cases "?d \<le> ?a")
      case True
      have "?a - ?d \<le> scaled_duration rq ?n" using assms(2)[rule_format, of ?n] True by simp
      then have "unat ?a - unat ?d \<le> unat (scaled_duration rq ?n)"
        using True by (simp add: word_le_nat_alt unat_sub)
      then show ?thesis using unsigned_less[of ?a, where ?'a = nat]
        by (simp add: word_le_nat_alt unat_saturating_add)
    next
      case False
      then have "?a \<le> ?d" by simp
      then show ?thesis using saturating_add_upper order_trans by blast
    qed
    moreover have "?a \<le> (case max_extra_time_s rq of None \<Rightarrow> - 1 | Some e \<Rightarrow> saturating_add ?a e)"
      by (auto simp: saturating_add_upper split: option.splits)
    ultimately have "?a \<le> alternative_arrival_limit rq ?a"
      by (simp add: alternative_arrival_limit_def Let_def)
    then show ?thesis using that by simp
  qed
  ultimately show ?thesis using assms(4) unfolding upper_def by auto
qed

lemma journey_after_departure:
  "journey rt rq access s t \<Longrightarrow> \<forall>c\<in>set (connections rt). departure_s c \<le> arrival_s c \<Longrightarrow> departure rq \<le> t"
proof (induction rule: journey.induct)
  case (move s t s' t')
  then show ?case using next_state_later order_trans by blast
qed (rule saturating_add_upper)

lemma step_spec:
  assumes "prepared n rt" "\<forall>c\<in>set (connections rt). departure_s c \<le> arrival_s c"
    "\<forall>d. d \<le> scaled_duration rq d" "sound rt rq access st" "covered rt rq {} st"
    "heap st \<noteq> []" "search_step rt rq st = Inr st'"
  shows "sound rt rq access st' \<and> covered rt rq {} st' \<and> improves st st'"
proof -
  define e where "e = greatest_entry (hd (heap st)) (tl (heap st))"
  define s where "s = entry_state e"
  define t where "t = time_s e"
  define su where "su = st\<lparr>heap := remove1 e (heap st)\<rparr>"
  have e: "e \<in> set (heap st)" "e = \<lparr>time_s = t, entry_state = s\<rparr>"
    using greatest_entry_mem[of "hd (heap st)" "tl (heap st)"] assms(6) by (simp_all add: e_def s_def t_def)
  have step: "st' = (if (case best st s of None \<Rightarrow> False | Some known \<Rightarrow> known < t) \<or> entry_pruned rq (best_final st) t
        \<or> \<not> in_window rq t then su else st') \<and>
      (\<not> ((case best st s of None \<Rightarrow> False | Some known \<Rightarrow> known < t) \<or> entry_pruned rq (best_final st) t
        \<or> \<not> in_window rq t) \<longrightarrow>
       (\<exists>sw. relax_walks rt rq (finish_entry rq su s t) s t = Inr sw
         \<and> relax_rides rt rq s t sw (departures_from rt s t) = Inr st'))"
    using assms(7) unfolding search_step_def Let_def e_def[symmetric] s_def[symmetric] t_def[symmetric] su_def[symmetric]
    by (auto simp: su_def result_bind_Inr_iff split: if_splits)
  have su: "best su = best st" "best_final su = best_final st" by (simp_all add: su_def)
  have imp: "improves st su" by (simp add: improves_def reached_def upper_def su)
  have sound: "sound rt rq access su"
    using assms(4) unfolding sound_def reached_def su by (auto simp: su_def dest: notin_set_remove1)
  have cov: "covered rt rq {(s, t)} su"
    unfolding covered_def su
  proof (intro allI impI)
    fix s' t' assume b: "best st s' = Some t'"
    have "pending su s' t'" if "pending st s' t'" "(s', t') \<noteq> (s, t)"
      using that e(2) by (auto simp: pending_def su_def in_set_remove1)
    then show "(s', t') \<in> {(s, t)} \<or> pending su s' t' \<or> settled rt rq su s' t'"
      using assms(5) b settled_improves[OF _ imp] unfolding covered_def by blast
  qed
  have close: "covered rt rq {} sw" if "covered rt rq {(s, t)} sw" "best sw s \<noteq> Some t \<or> settled rt rq sw s t" for sw
    using that unfolding covered_def by blast
  obtain u where u: "best st s = Some u" "u \<le> t"
    using assms(4) e unfolding sound_def reached_def by (metis queue_entry.select_convs)
  show ?thesis
  proof (cases "u < t")
    case True
    then have "st' = su" using step u by simp
    then show ?thesis using sound close[OF cov] imp True u su by auto
  next
    case False
    then have best: "best st s = Some t" using u by simp
    then have j: "journey rt rq access s t" using assms(4) by (simp add: sound_def)
    show ?thesis
    proof (cases "entry_pruned rq (best_final st) t \<or> \<not> in_window rq t")
      case True
      then have "st' = su" using step by auto
      moreover have "settled rt rq su s t"
        using True pruned_upper[OF _ assms(3) journey_after_departure[OF j assms(2)] su(2)]
        unfolding settled_def by blast
      ultimately show ?thesis using sound close[OF cov] imp by blast
    next
      case False
      then obtain sw where w: "in_window rq t"
        and wk: "relax_walks rt rq (finish_entry rq su s t) s t = Inr sw"
        and r: "relax_rides rt rq s t sw (departures_from rt s t) = Inr st'"
        using step best by auto
      note f = finish_spec[OF sound cov j w]
      note k = walks_spec[OF f(1,2) j w wk]
      have rows: "\<forall>i\<in>set (departures_from rt s t). i < length (connections rt) \<and> from_stop_index (connections rt ! i) = stop_index s"
        using departures_from_rows(2)[OF assms(1)] by blast
      note d = rides_spec[OF r departures_from_rows(1)[OF assms(1)] rows _ _ j w, where X = "{(s, t)}"]
      have d: "sound rt rq access st'" "covered rt rq {(s, t)} st'" "improves sw st'"
        "\<forall>i\<in>set (departures_from rt s t). \<forall>s'. departure_s (connections rt ! i) \<le> search_end rq \<longrightarrow>
          ride rt rq s t i = Inr (Some s') \<longrightarrow> reached st' s' (arrival_s (connections rt ! i))"
        using d k by blast+
      have fin: "improves (finish_entry rq su s t) st'" using k d(3) improves_trans by blast
      have "reached st' s' t'" if n: "next_state rt rq s t s' t'" for s' t'
        using n
      proof (cases rule: next_state_cases)
        case (walk c)
        then show ?thesis using k d(3) unfolding improves_def by blast
      next
        case (ride i)
        have "i \<in> set (departures_from rt s t)"
          using departures_from_rows(3)[OF assms(1) ride(1,2) ride_departs[OF ride(4)]] .
        then show ?thesis using d(4) ride by blast
      qed
      moreover have "\<forall>e. can_finish_with_egress s \<longrightarrow> egress_by_stop rq (stop_index s) = Some e \<longrightarrow>
          upper st' (saturating_add t e)"
        using f(4) fin unfolding improves_def by blast
      ultimately have "settled rt rq st' s t" unfolding settled_def by blast
      moreover have "improves st st'" using imp f(3) fin improves_trans by blast
      ultimately show ?thesis using d(1) close[OF d(2)] by blast
    qed
  qed
qed

lemma loop_spec:
  assumes "prepared n rt" "\<forall>c\<in>set (connections rt). departure_s c \<le> arrival_s c" "\<forall>d. d \<le> scaled_duration rq d"
  shows "search_loop rt rq st = Inr st' \<Longrightarrow> sound rt rq access st \<Longrightarrow> covered rt rq {} st \<Longrightarrow>
    sound rt rq access st' \<and> covered rt rq {} st' \<and> improves st st' \<and> heap st' = []"
  using assms
proof (induction rt rq st rule: search_loop.induct)
  case (1 rt rq st)
  show ?case
  proof (cases "heap st = []")
    case True
    then have "st' = st" using "1.prems"(1) by (simp add: search_loop.simps)
    then show ?thesis using "1.prems" True improves_refl by blast
  next
    case False
    then obtain su where su: "search_step rt rq st = Inr su" "search_loop rt rq su = Inr st'"
      using "1.prems"(1) by (subst (asm) search_loop.simps) (auto split: sum.splits)
    note s = step_spec[OF "1.prems"(4-6) "1.prems"(2,3) False su(1)]
    have "sound rt rq access st' \<and> covered rt rq {} st' \<and> improves su st' \<and> heap st' = []"
      using "1.IH"[OF False su(1) su(2)] s "1.prems"(4-6) by blast
    then show ?thesis using s improves_trans by blast
  qed
qed

section \<open>The whole search\<close>

lemma access_spec:
  "sound rt rq access (relax_access rq access) \<and> covered rt rq {} (relax_access rq access)
    \<and> (\<forall>(stop, a)\<in>set access. reached (relax_access rq access) (access_state stop) (saturating_add (departure rq) a))"
proof -
  let ?r = "\<lambda>st (stop, a). relax_state st (access_state stop) (saturating_add (departure rq) a) (Access_Step (departure rq) a)"
  have "sound rt rq access (foldl ?r st cs) \<and> covered rt rq {} (foldl ?r st cs) \<and> improves st (foldl ?r st cs)
    \<and> (\<forall>(stop, a)\<in>set cs. reached (foldl ?r st cs) (access_state stop) (saturating_add (departure rq) a))"
    if "set cs \<subseteq> set access" "sound rt rq access st" "covered rt rq {} st" for cs st
    using that
  proof (induction cs arbitrary: st)
    case (Cons c cs)
    obtain stop a where c: "c = (stop, a)" by (cases c)
    let ?st = "?r st c"
    have "journey rt rq access (access_state stop) (saturating_add (departure rq) a)"
      using Cons.prems(1) by (intro journey.start) (simp add: c)
    then have "sound rt rq access ?st" "covered rt rq {} ?st"
      using Cons.prems relax_sound relax_covered unfolding c prod.case by blast+
    with Cons.IH[of ?st] Cons.prems(1) have ih: "sound rt rq access (foldl ?r ?st cs)"
      "covered rt rq {} (foldl ?r ?st cs)" "improves ?st (foldl ?r ?st cs)"
      "\<forall>(stop, a)\<in>set cs. reached (foldl ?r ?st cs) (access_state stop) (saturating_add (departure rq) a)"
      by simp_all
    have "reached (foldl ?r ?st cs) (access_state stop) (saturating_add (departure rq) a)"
      using ih(3) relax_reached unfolding improves_def c prod.case by blast
    moreover have "improves st (foldl ?r ?st cs)"
      using relax_improves ih(3) unfolding c prod.case by (rule improves_trans)
    ultimately show ?case using ih by (simp add: c)
  qed (simp add: improves_refl)
  from this[of access empty_search] show ?thesis
    by (simp add: relax_access_def sound_def covered_def empty_search_def)
qed

lemma covered_settled:
  "covered rt rq {} st \<Longrightarrow> heap st = [] \<Longrightarrow> best st s = Some u \<Longrightarrow> settled rt rq st s u"
  by (auto simp: covered_def pending_def)

lemma journey_reached:
  assumes "sound rt rq access st" "covered rt rq {} st" "heap st = []"
    "\<forall>(stop, a)\<in>set access. reached st (access_state stop) (saturating_add (departure rq) a)"
    "\<forall>c\<in>set (connections rt). departure_s c \<le> arrival_s c"
  shows "journey rt rq access s t \<Longrightarrow> reached st s t \<or> upper st t"
proof (induction rule: journey.induct)
  case (move s t s' t')
  have later: "t \<le> t'" by (rule next_state_later[OF move(3) assms(5)])
  have up: "upper st x \<Longrightarrow> x \<le> y \<Longrightarrow> upper st y" for x y unfolding upper_def by (meson order_trans)
  from move(4) show ?case
  proof
    assume "reached st s t"
    then obtain u where u: "best st s = Some u" "u \<le> t" unfolding reached_def by blast
    have "in_window rq u" using move(2) u(2) unfolding in_window_def by simp
    then have "upper st u \<or> (\<forall>s' t'. next_state rt rq s u s' t' \<longrightarrow> reached st s' t')"
      using covered_settled[OF assms(2,3) u(1)] unfolding settled_def by blast
    then show ?thesis
    proof
      assume "upper st u"
      then show ?thesis using up u(2) later order_trans by blast
    next
      assume a: "\<forall>s' t'. next_state rt rq s u s' t' \<longrightarrow> reached st s' t'"
      obtain t0' where "t0' \<le> t'" "next_state rt rq s u s' t0'" using next_state_earlier[OF move(3) u(2)] by blast
      then have "reached st s' t'" using a unfolding reached_def by (meson order_trans)
      then show ?thesis by blast
    qed
  qed (use up later in blast)
qed (use assms(4) in blast)

text \<open>C27: the forward search is optimal. For a timetable without connections that arrive before they
  depart, whenever the search returns, it has found a journey to the destination exactly when one
  exists inside the window, and then its arrival is the earliest of all of them; pruning and the
  search for alternatives change nothing as long as \<open>max_time_ratio\<close> does not shorten a duration.\<close>

theorem search_earliest:
  assumes "prepared n rt" "\<forall>c\<in>set (connections rt). departure_s c \<le> arrival_s c"
    "\<forall>d. d \<le> scaled_duration rq d" "search rt rq access = Inr st"
  shows "(case best_final st of None \<Rightarrow> \<forall>a. \<not> finishes rt rq access a
    | Some f \<Rightarrow> finishes rt rq access (final_arrival_s f) \<and> (\<forall>a. finishes rt rq access a \<longrightarrow> final_arrival_s f \<le> a))"
proof -
  note a = access_spec[of rt rq access]
  have l: "sound rt rq access st" "covered rt rq {} st" "improves (relax_access rq access) st" "heap st = []"
    using loop_spec[OF assms(1-3)] assms(4) a unfolding search_def by blast+
  have "\<forall>(stop, a)\<in>set access. reached st (access_state stop) (saturating_add (departure rq) a)"
    using a l(3) unfolding improves_def by blast
  note j = journey_reached[OF l(1,2,4) this assms(2)]
  have up: "upper st a" if fin: "finishes rt rq access a" for a
  proof -
    obtain s t e where f: "journey rt rq access s t" "in_window rq t" "can_finish_with_egress s"
      "egress_by_stop rq (stop_index s) = Some e" "a = saturating_add t e"
      using fin unfolding finishes_def by blast
    have mono: "upper st x \<Longrightarrow> x \<le> y \<Longrightarrow> upper st y" for x y unfolding upper_def by (meson order_trans)
    from j[OF f(1)] show ?thesis
    proof
      assume "reached st s t"
      then obtain u where u: "best st s = Some u" "u \<le> t" unfolding reached_def by blast
      have "in_window rq u" using f(2) u(2) unfolding in_window_def by simp
      then have "upper st u \<or> upper st (saturating_add u e)"
        using covered_settled[OF l(2,4) u(1)] f(3,4) unfolding settled_def by blast
      moreover have "saturating_add u e \<le> a" unfolding f(5) using u(2) by (rule saturating_add_mono)
      moreover have "u \<le> a" unfolding f(5) using u(2) saturating_add_upper order_trans by blast
      ultimately show ?thesis using mono by blast
    next
      assume "upper st t"
      then show ?thesis unfolding f(5) using mono saturating_add_upper by blast
    qed
  qed
  show ?thesis
  proof (cases "best_final st")
    case None
    then show ?thesis using up by (auto simp: upper_def)
  next
    case (Some f)
    then show ?thesis using up l(1) by (auto simp: upper_def sound_def)
  qed
qed

section \<open>Errors\<close>

lemma relax_rides_error:
  "relax_rides rt rq s t st is = Inl e \<Longrightarrow> \<exists>i\<in>set is. ride rt rq s t i = Inl e"
proof (induction rt rq s t st "is" rule: relax_rides.induct)
  case (2 rt rq s t st i js)
  show ?case
  proof (cases "search_end rq < departure_s (connections rt ! i)")
    case False
    show ?thesis
    proof (cases "ride rt rq s t i")
      case (Inl x)
      then show ?thesis using "2.prems" False by simp
    next
      case (Inr r)
      show ?thesis
      proof (cases r)
        case None
        then show ?thesis using "2.prems" "2.IH"(1)[OF refl False] Inr False by auto
      next
        case (Some s')
        then show ?thesis using "2.prems" "2.IH"(2)[OF refl False] Inr False by (auto simp: Let_def)
      qed
    qed
  qed (use "2.prems" in simp)
qed simp

text \<open>References of a bundle as \<open>decode_connections\<close> validates them, and the tables the router sizes by
  the bundle's stops and routes.\<close>

definition references_in_range :: "nat \<Rightarrow> transit_runtime \<Rightarrow> bool" where
  "references_in_range n rt \<longleftrightarrow> length (transfer_candidates rt) = n
     \<and> (\<forall>c\<in>set (connections rt). unat (to_stop_index c) < n \<and> unat (route_index c) < length (allowed_routes rt))"

lemma ride_error:
  assumes "ride rt rq s t i = Inl e" "references_in_range n rt" "i < length (connections rt)"
  shows "\<exists>a\<in>set (connections rt).
    allows (transfer_rule_index (departures rt)) (transfer_rules rt) a (connections rt ! i) = Inl e"
proof -
  have "unat (route_index (connections rt ! i)) < length (allowed_routes rt)"
    using assms(2,3) by (simp add: references_in_range_def)
  then have "forward_transfer_allowed rt s (connections rt ! i) = Inl e"
    using assms(1) by (auto simp: ride_def Let_def result_bind_Inl_iff split: if_splits)
  then show ?thesis
    by (auto simp: forward_transfer_allowed_def Let_def get_connection_def split: if_splits option.splits)
qed

text \<open>A passenger who may alight sits in a vehicle: such states, the only ones that start a walk, come
  from a connection of the bundle.\<close>

definition aboard_ok :: "nat \<Rightarrow> transit_runtime \<Rightarrow> state_key \<Rightarrow> bool" where
  "aboard_ok n rt s \<longleftrightarrow> (can_alight s \<longrightarrow> unat (stop_index s) < n \<and> unat (connection_index s) < length (connections rt))"

definition queue_ok :: "nat \<Rightarrow> transit_runtime \<Rightarrow> search_state \<Rightarrow> bool" where
  "queue_ok n rt st \<longleftrightarrow> (\<forall>e\<in>set (heap st). aboard_ok n rt (entry_state e))"

lemma relax_queue_ok: "queue_ok n rt st \<Longrightarrow> aboard_ok n rt s \<Longrightarrow> queue_ok n rt (relax_state st s t p)"
  by (auto simp: queue_ok_def relax_state_def)

lemma walk_state_ok: "aboard_ok n rt (walk_state rt s stop)"
  by (simp add: aboard_ok_def walk_state_def)

lemma ride_state_ok:
  assumes "ride rt rq s t i = Inr (Some s')" "references_in_range n rt" "i < length (connections rt)"
  shows "aboard_ok n rt s'"
proof -
  have "stop_index s' = to_stop_index (connections rt ! i)" "connection_index s' = word_of_nat i"
    using assms(1) by (auto simp: ride_def Let_def result_bind_Inr_iff split: if_splits)
  moreover have "unat (word_of_nat i :: u32) \<le> i" by (simp add: unat_of_nat)
  ultimately show ?thesis using assms(2,3) by (simp add: aboard_ok_def references_in_range_def)
qed

lemma walks_queue_ok:
  assumes "relax_walks rt rq st s t = Inr sw" "queue_ok n rt st"
  shows "queue_ok n rt sw"
proof -
  have "queue_ok n rt (foldl (\<lambda>st c. relax_state st (walk_state rt s (f c)) (g c) (h c)) st cs)"
    if "queue_ok n rt st" for f g h and cs :: "stop_candidate list" and st
    using that by (induction cs arbitrary: st) (simp_all add: relax_queue_ok walk_state_ok)
  then show ?thesis using assms by (auto simp: relax_walks_def Let_def split: if_splits)
qed

lemma rides_queue_ok:
  "relax_rides rt rq s t st is = Inr st' \<Longrightarrow> references_in_range n rt \<Longrightarrow> \<forall>i\<in>set is. i < length (connections rt) \<Longrightarrow>
    queue_ok n rt st \<Longrightarrow> queue_ok n rt st'"
proof (induction rt rq s t st "is" rule: relax_rides.induct)
  case (2 rt rq s t st i js)
  show ?case
  proof (cases "search_end rq < departure_s (connections rt ! i)")
    case False
    then obtain r where r: "ride rt rq s t i = Inr r" using "2.prems"(1) by (cases "ride rt rq s t i") auto
    show ?thesis
    proof (cases r)
      case None
      then show ?thesis using "2.prems" "2.IH"(1)[OF refl False] r False by simp
    next
      case (Some s')
      have "aboard_ok n rt s'" using ride_state_ok[of rt rq s t i s'] r Some "2.prems"(2,3) by simp
      then have "queue_ok n rt (relax_state st s' (arrival_s (connections rt ! i)) (Transit_Step s (connections rt ! i)))"
        using "2.prems"(4) by (intro relax_queue_ok)
      then show ?thesis using "2.prems" "2.IH"(2)[OF refl False] r False Some by (simp add: Let_def)
    qed
  qed (use "2.prems" in simp)
qed simp

lemma step_queue:
  assumes "prepared n rt" "references_in_range n rt" "queue_ok n rt st" "heap st \<noteq> []"
  shows "search_step rt rq st = Inr st' \<Longrightarrow> queue_ok n rt st'"
    "search_step rt rq st = Inl e \<Longrightarrow> \<exists>a\<in>set (connections rt). \<exists>b\<in>set (connections rt).
      allows (rule_index_new (transfer_rules rt)) (transfer_rules rt) a b = Inl e"
proof -
  define x where "x = greatest_entry (hd (heap st)) (tl (heap st))"
  define s where "s = entry_state x"
  define t where "t = time_s x"
  define su where "su = st\<lparr>heap := remove1 x (heap st)\<rparr>"
  have "x \<in> set (heap st)" using greatest_entry_mem[of "hd (heap st)" "tl (heap st)"] assms(4) by (simp add: x_def)
  then have s: "aboard_ok n rt s" using assms(3) by (simp add: queue_ok_def s_def)
  have su: "queue_ok n rt su" using assms(3) by (auto simp: queue_ok_def su_def dest: notin_set_remove1)
  have fin: "queue_ok n rt (finish_entry rq su s t)"
    using su by (auto simp: queue_ok_def finish_entry_def Let_def split: option.splits)
  have rows: "\<forall>i\<in>set (departures_from rt s t). i < length (connections rt)"
    using departures_from_rows(2)[OF assms(1)] by blast
  have step: "search_step rt rq st = Inr su \<or> search_step rt rq st
      = result_bind (relax_walks rt rq (finish_entry rq su s t) s t) (\<lambda>st. relax_rides rt rq s t st (departures_from rt s t))"
    unfolding search_step_def Let_def x_def[symmetric] s_def[symmetric] t_def[symmetric] su_def[symmetric] by simp
  show "queue_ok n rt st'" if r: "search_step rt rq st = Inr st'"
    using step
  proof
    assume "search_step rt rq st = result_bind (relax_walks rt rq (finish_entry rq su s t) s t)
        (\<lambda>st. relax_rides rt rq s t st (departures_from rt s t))"
    then have "result_bind (relax_walks rt rq (finish_entry rq su s t) s t)
        (\<lambda>st. relax_rides rt rq s t st (departures_from rt s t)) = Inr st'" using r by simp
    then show ?thesis
      using walks_queue_ok[OF _ fin] rides_queue_ok[OF _ assms(2) rows] unfolding result_bind_Inr_iff by blast
  qed (use r su in simp)
  have "\<not> walk_panics rt rq s"
    using s assms(2) by (auto simp: walk_panics_def can_start_transfer_walk_def aboard_ok_def references_in_range_def)
  then have walk: "relax_walks rt rq (finish_entry rq su s t) s t \<noteq> Inl e" for e by (simp add: relax_walks_def Let_def)
  assume err: "search_step rt rq st = Inl e"
  have "result_bind (relax_walks rt rq (finish_entry rq su s t) s t)
      (\<lambda>st. relax_rides rt rq s t st (departures_from rt s t)) = Inl e"
    using step unfolding err by simp
  then obtain sw where "relax_rides rt rq s t sw (departures_from rt s t) = Inl e"
    using walk unfolding result_bind_Inl_iff by blast
  then obtain i where i: "i \<in> set (departures_from rt s t)" "ride rt rq s t i = Inl e"
    using relax_rides_error by blast
  have il: "i < length (connections rt)" using rows i(1) by blast
  have "transfer_rule_index (departures rt) = rule_index_new (transfer_rules rt)"
    using assms(1) by (simp add: prepared_def build_departures_by_stop_def Let_def split_beta)
  then show "\<exists>a\<in>set (connections rt). \<exists>b\<in>set (connections rt).
      allows (rule_index_new (transfer_rules rt)) (transfer_rules rt) a b = Inl e"
    using ride_error[OF i(2) assms(2) il] nth_mem[OF il] by metis
qed

lemma search_loop_error:
  "search_loop rt rq st = Inl e \<Longrightarrow> prepared n rt \<Longrightarrow> references_in_range n rt \<Longrightarrow> queue_ok n rt st \<Longrightarrow>
    \<exists>a\<in>set (connections rt). \<exists>b\<in>set (connections rt).
      allows (rule_index_new (transfer_rules rt)) (transfer_rules rt) a b = Inl e"
proof (induction rt rq st rule: search_loop.induct)
  case (1 rt rq st)
  have n: "heap st \<noteq> []" using "1.prems" by (subst (asm) search_loop.simps) (auto split: if_splits)
  note q = step_queue[OF "1.prems"(2-4) n, of rq]
  show ?case
  proof (cases "search_step rt rq st")
    case (Inl x)
    then have "x = e" using "1.prems"(1) n by (simp add: search_loop.simps)
    then show ?thesis using q(2)[OF Inl] by simp
  next
    case (Inr su)
    then show ?thesis using "1.IH"[OF n Inr _ "1.prems"(2,3) q(1)[OF Inr]] "1.prems"(1) n by (simp add: search_loop.simps)
  qed
qed

lemma access_queue_ok: "queue_ok n rt (relax_access rq access)"
proof -
  have "queue_ok n rt (foldl (\<lambda>st (stop, t). relax_state st (access_state stop)
     (saturating_add (departure rq) t) (Access_Step (departure rq) t)) st cs)" if "queue_ok n rt st" for st cs
    using that
  proof (induction cs arbitrary: st)
    case (Cons c cs)
    have "aboard_ok n rt (access_state stop)" for stop by (simp add: aboard_ok_def access_state_def)
    then show ?case using Cons by (cases c) (simp add: relax_queue_ok)
  qed simp
  from this[of empty_search access] show ?thesis by (simp add: relax_access_def queue_ok_def empty_search_def)
qed

lemma allows_error:
  assumes "allows (rule_index_new rules) rules a b = Inl e"
  shows "e = Ambiguous_Rules \<and> 1 < length (most_specific (applicable rules a b))"
  using assms unfolding allows_by_specificity
  by (cases "most_specific (applicable rules a b)" rule: remdups_adj.cases) auto

lemma search_outcome:
  assumes "prepared n rt" "references_in_range n rt"
  shows "(\<exists>st. search rt rq access = Inr st)
    \<or> search rt rq access = Inl Ambiguous_Rules
      \<and> (\<exists>a\<in>set (connections rt). \<exists>b\<in>set (connections rt). 1 < length (most_specific (applicable (transfer_rules rt) a b)))"
proof (cases "search rt rq access")
  case (Inl e)
  from search_loop_error[OF Inl[unfolded search_def] assms access_queue_ok] show ?thesis
    using allows_error Inl by blast
qed simp


section \<open>A small timetable\<close>

text \<open>Two stops and one trip, with an access leg of 60 s and an egress leg of 30 s.\<close>

definition one_trip :: transit_connection where
  "one_trip = \<lparr>trip_index = 0, run_index = 0, pickup_allowed = True, drop_off_allowed = True, route_index = 0,
     from_stop_index = 0, to_stop_index = 1, departure_s = 1000, arrival_s = 1600\<rparr>"

definition two_stops :: transit_runtime where
  "two_stops = \<lparr>connections = [one_trip], transfer_rules = [],
     departures = build_departures_by_stop 2 [one_trip] [], transfer_candidates = [[], []], allowed_routes = [True]\<rparr>"

definition one_request :: search_request where
  "one_request = \<lparr>departure = 900, search_end = 4500,
     modes = \<lparr>board_slack_s = 30, transfer_slack_s = 60, max_transfers = 4, max_transfer_distance_m = 500,
       walk_seconds = (\<lambda>_. 0)\<rparr>,
     egress_by_stop = [1 \<mapsto> 30], minimums_enabled = False, collect_alternatives = False,
     scaled_duration = (\<lambda>d. d), max_extra_time_s = None\<rparr>"

lemma two_stops_prepared: "prepared 2 two_stops"
  by (simp add: prepared_def two_stops_def one_trip_def)

lemma two_stops_in_range: "references_in_range 2 two_stops"
  by (simp add: references_in_range_def two_stops_def one_trip_def)


lemma unat_minus_one: "unat (- 1 :: u32) = 2 ^ 32 - 1"
  by (simp add: unsigned_minus_1_eq_mask mask_eq_exp_minus_1)

lemma one_journey: "finishes two_stops one_request [(0, 60)] 1630"
proof -
  let ?s = "\<lparr>stop_index = 1, boardings = 1, connection_index = 0, transfer_from_connection = NO_CONNECTION,
    can_alight = True\<rparr>"
  have start: "journey two_stops one_request [(0, 60)] (access_state 0) 960"
    using journey.start[of 0 60 "[(0, 60)]" two_stops one_request]
    by (simp add: one_request_def saturating_add_def)
  have "ride two_stops one_request (access_state 0) 960 0 = Inr (Some ?s)"
    by (simp add: ride_def Let_def two_stops_def one_request_def one_trip_def access_state_def same_run_def
      NO_CONNECTION_def forward_transfer_allowed_def get_connection_def boarding_slack_def saturating_add_def
      saturating_add8_def build_departures_by_stop_def build_run_links_def link_order_def timetable_sorted_def
      link_run_def split_beta unat_minus_one)
  then have n: "next_state two_stops one_request (access_state 0) 960 ?s 1600"
    by (simp add: next_state_def two_stops_def one_trip_def access_state_def one_request_def)
  have "journey two_stops one_request [(0, 60)] ?s 1600"
    by (rule journey.move[OF start _ n]) (simp add: in_window_def one_request_def saturating_add_def)
  then show ?thesis unfolding finishes_def
    by (intro exI[of _ ?s] exI[of _ 1600] exI[of _ 30] conjI)
      (simp_all add: in_window_def one_request_def saturating_add_def can_finish_with_egress_def)
qed

theorem search_earliest_witness:
  "\<exists>st f. search two_stops one_request [(0, 60)] = Inr st \<and> best_final st = Some f \<and> final_arrival_s f \<le> 1630"
proof -
  obtain st where st: "search two_stops one_request [(0, 60)] = Inr st"
    using search_outcome[OF two_stops_prepared two_stops_in_range, of one_request "[(0, 60)]"]
    by (auto simp: two_stops_def applicable_def most_specific_def)
  have d: "\<forall>c\<in>set (connections two_stops). departure_s c \<le> arrival_s c" "\<forall>d. d \<le> scaled_duration one_request d"
    by (simp_all add: two_stops_def one_trip_def one_request_def)
  show ?thesis using search_earliest[OF two_stops_prepared d st] st one_journey
    by (cases "best_final st") auto
qed

end
