(* ===== verification/Cell.thy ===== *)
theory Cell
  imports Complex_Main Cch_Build "HOL-Library.While_Combinator"
begin

text \<open>
  The working graph of nested dissection (\<open>struct Cell\<close> of \<open>crates/ingest/src/acceleration.rs\<close>):
  an undirected graph in compressed sparse rows with the topology id and the projected position of
  every local node. \<open>induced\<close> builds the subgraph of a list of members, \<open>build_edge_cell\<close> the
  cell of all edge states. The lemmas show that both keep the invariant of a cell (rows sorted,
  symmetric, in bounds, without loops) and that an induced row is the row of the member restricted
  to the members. Coordinates are \<open>f32\<close> values; they are taken as the rationals they denote, and
  only their order is ever used.
\<close>

text \<open>Loops of the code that have a variant: they return, and the invariant holds at the end.\<close>

lemma while_total:
  fixes m :: "'s \<Rightarrow> nat"
  assumes "P s" "\<And>s. P s \<Longrightarrow> b s \<Longrightarrow> P (c s) \<and> m (c s) < m s"
  shows "\<exists>t. while_option b c s = Some t \<and> P t \<and> \<not> b t"
proof -
  obtain t where t: "while_option b c s = Some t"
    using measure_while_option_Some[of P b c m s] assms by blast
  have "P t" by (rule while_option_rule[where P = P, OF _ t assms(1)]) (use assms(2) in blast)
  then show ?thesis using t while_option_stop[OF t] by blast
qed

record cell =
  cell_ids :: "nat list"
  cell_first_out :: "nat list"
  cell_heads :: "nat list"
  cell_x :: "rat list"
  cell_y :: "rat list"

definition cell_len :: "cell \<Rightarrow> nat" where
  "cell_len c = length (cell_ids c)"

definition neighbours :: "cell \<Rightarrow> nat \<Rightarrow> nat list" where
  "neighbours c node = subslice (cell_heads c) (cell_first_out c ! node) (cell_first_out c ! (node + 1))"

text \<open>The slot \<open>u32::MAX\<close> of a mapping is \<open>None\<close>.\<close>

definition member_mapping :: "nat \<Rightarrow> nat list \<Rightarrow> nat option list" where
  "member_mapping n members =
     foldl (\<lambda>m (local_id, member). m[member := Some local_id]) (replicate n None) (enumerate 0 members)"

definition induced_row :: "cell \<Rightarrow> nat option list \<Rightarrow> nat list \<times> nat list \<Rightarrow> nat \<Rightarrow> nat list \<times> nat list" where
  "induced_row c mapping s member =
     (let heads = snd s @ List.map_filter (\<lambda>v. mapping ! v) (neighbours c member)
      in (fst s @ [length heads], heads))"

definition induced :: "cell \<Rightarrow> nat list \<Rightarrow> cell" where
  "induced c members =
     (let (first_out, heads) = foldl (induced_row c (member_mapping (cell_len c) members)) ([0], []) members
      in \<lparr>cell_ids = map (\<lambda>v. cell_ids c ! v) members, cell_first_out = first_out, cell_heads = heads,
          cell_x = map (\<lambda>v. cell_x c ! v) members, cell_y = map (\<lambda>v. cell_y c ! v) members\<rparr>)"

section \<open>The invariant of a cell\<close>

definition wf_cell :: "cell \<Rightarrow> bool" where
  "wf_cell c \<longleftrightarrow> distinct (cell_ids c)
     \<and> length (cell_x c) = cell_len c \<and> length (cell_y c) = cell_len c
     \<and> (\<forall>v<cell_len c. sorted_wrt (<) (neighbours c v)
          \<and> (\<forall>u\<in>set (neighbours c v). u < cell_len c \<and> u \<noteq> v \<and> v \<in> set (neighbours c u)))"

lemma wf_cellD:
  assumes "wf_cell c"
  shows "distinct (cell_ids c)" "v < cell_len c \<Longrightarrow> sorted_wrt (<) (neighbours c v)"
    "v < cell_len c \<Longrightarrow> u \<in> set (neighbours c v) \<Longrightarrow> u < cell_len c"
    "v < cell_len c \<Longrightarrow> u \<in> set (neighbours c v) \<Longrightarrow> v \<in> set (neighbours c u)"
    "v < cell_len c \<Longrightarrow> v \<notin> set (neighbours c v)"
  using assms unfolding wf_cell_def by blast+

section \<open>Induced cells\<close>

lemma length_member_mapping [simp]: "length (member_mapping n ms) = n"
proof -
  have "length (foldl (\<lambda>m (k, v). m[v := Some k]) xs ps) = length xs" for xs :: "nat option list" and ps
    by (induction ps arbitrary: xs) (auto split: prod.split)
  then show ?thesis by (simp add: member_mapping_def)
qed

lemma enumerate_snoc: "enumerate k (xs @ [x]) = enumerate k xs @ [(k + length xs, x)]"
  by (induction xs arbitrary: k) simp_all

lemma member_mapping_snoc: "member_mapping n (ms @ [m]) = (member_mapping n ms)[m := Some (length ms)]"
  by (simp add: member_mapping_def enumerate_snoc)

lemma member_mapping_Some:
  assumes "v < n"
  shows "distinct ms \<Longrightarrow> set ms \<subseteq> {0..<n} \<Longrightarrow> member_mapping n ms ! v = Some i \<longleftrightarrow> i < length ms \<and> ms ! i = v"
proof (induction ms arbitrary: i rule: rev_induct)
  case Nil
  then show ?case using assms by (simp add: member_mapping_def)
next
  case (snoc m ms)
  show ?case
  proof (cases "v = m")
    case True
    then have "v \<notin> set ms" using snoc.prems by auto
    then show ?thesis using True assms unfolding member_mapping_snoc by (auto simp: nth_append less_Suc_eq)
  next
    case False
    then show ?thesis using snoc assms unfolding member_mapping_snoc by (auto simp: nth_append less_Suc_eq)
  qed
qed

lemma member_mapping_None:
  assumes "distinct ms" "set ms \<subseteq> {0..<n}" "v < n"
  shows "member_mapping n ms ! v = None \<longleftrightarrow> v \<notin> set ms"
  using member_mapping_Some[OF assms(3,1,2)] unfolding in_set_conv_nth by (metis not_Some_eq)

lemma induced_rows:
  "foldl (induced_row c m) ([0], []) ms =
    (map (\<lambda>i. length (concat (map (\<lambda>v. List.map_filter (\<lambda>v. m ! v) (neighbours c v)) (take i ms)))) [0..<Suc (length ms)],
     concat (map (\<lambda>v. List.map_filter (\<lambda>v. m ! v) (neighbours c v)) ms))"
  by (induction ms rule: rev_induct) (simp_all add: induced_row_def Let_def)

lemma concat_row:
  assumes "i < length rows"
  shows "subslice (concat rows) (length (concat (take i rows))) (length (concat (take (Suc i) rows))) = rows ! i"
proof -
  have "concat rows = concat (take i rows) @ rows ! i @ concat (drop (Suc i) rows)"
    using id_take_nth_drop[OF assms] by (metis concat.simps(2) concat_append)
  then show ?thesis using assms by (simp add: subslice_def take_Suc_conv_app_nth)
qed

lemma induced_simps [simp]:
  "cell_ids (induced c ms) = map (\<lambda>v. cell_ids c ! v) ms" "cell_len (induced c ms) = length ms"
  "cell_x (induced c ms) = map (\<lambda>v. cell_x c ! v) ms" "cell_y (induced c ms) = map (\<lambda>v. cell_y c ! v) ms"
  by (simp_all add: induced_def cell_len_def split_beta)

lemma neighbours_induced:
  assumes "i < length ms"
  shows "neighbours (induced c ms) i = List.map_filter (\<lambda>v. member_mapping (cell_len c) ms ! v) (neighbours c (ms ! i))"
  using concat_row[of i "map (\<lambda>v. List.map_filter (\<lambda>v. member_mapping (cell_len c) ms ! v) (neighbours c v)) ms"] assms
  by (simp add: neighbours_def induced_def induced_rows take_map nth_append del: upt_Suc)

lemma neighbours_induced_iff:
  assumes "wf_cell c" "distinct ms" "set ms \<subseteq> {0..<cell_len c}" "i < length ms"
  shows "j \<in> set (neighbours (induced c ms) i) \<longleftrightarrow> j < length ms \<and> ms ! j \<in> set (neighbours c (ms ! i))"
proof -
  have i: "ms ! i < cell_len c" using assms(3,4) nth_mem by force
  have "j \<in> set (neighbours (induced c ms) i)
      \<longleftrightarrow> (\<exists>v\<in>set (neighbours c (ms ! i)). member_mapping (cell_len c) ms ! v = Some j)"
    by (force simp: neighbours_induced[OF assms(4)] map_filter_def)
  also have "\<dots> \<longleftrightarrow> (\<exists>v\<in>set (neighbours c (ms ! i)). j < length ms \<and> ms ! j = v)"
    using member_mapping_Some[OF _ assms(2,3)] wf_cellD(3)[OF assms(1) i] by (intro bex_cong refl) simp
  finally show ?thesis by auto
qed

lemma sorted_map_filter:
  fixes f :: "nat \<Rightarrow> nat option"
  assumes "\<And>u v i j. u \<in> set xs \<Longrightarrow> v \<in> set xs \<Longrightarrow> u < v \<Longrightarrow> f u = Some i \<Longrightarrow> f v = Some j \<Longrightarrow> i < j"
  shows "sorted_wrt (<) xs \<Longrightarrow> sorted_wrt (<) (List.map_filter f xs)"
  using assms
proof (induction xs)
  case (Cons x xs)
  have IH: "sorted_wrt (<) (List.map_filter f xs)"
    using Cons.prems(1) by (intro Cons.IH) (auto intro: Cons.prems(2))
  have "\<forall>j\<in>set (List.map_filter f xs). i < j" if i: "f x = Some i" for i
    using Cons.prems(1) Cons.prems(2)[of x _ i] i by (force simp: map_filter_def)
  then show ?case using IH by (simp split: option.split)
qed (simp add: map_filter_def)

lemma wf_induced:
  assumes "wf_cell c" "sorted_wrt (<) ms" "set ms \<subseteq> {0..<cell_len c}"
  shows "wf_cell (induced c ms)"
proof -
  have d: "distinct ms" using assms(2) by (simp add: strict_sorted_iff)
  note iff = neighbours_induced_iff[OF assms(1) d assms(3)]
  have lt: "i < length ms \<Longrightarrow> ms ! i < cell_len c" for i using assms(3) nth_mem by force
  have "sorted_wrt (<) (neighbours (induced c ms) i)" if i: "i < length ms" for i
    unfolding neighbours_induced[OF i]
  proof (rule sorted_map_filter)
    show "sorted_wrt (<) (neighbours c (ms ! i))" by (rule wf_cellD(2)[OF assms(1) lt[OF i]])
    fix u v k l assume m: "u \<in> set (neighbours c (ms ! i))" "v \<in> set (neighbours c (ms ! i))" "u < v"
      "member_mapping (cell_len c) ms ! u = Some k" "member_mapping (cell_len c) ms ! v = Some l"
    have "k < length ms" "ms ! k = u" "l < length ms" "ms ! l = v"
      using m(4,5) member_mapping_Some[OF wf_cellD(3)[OF assms(1) lt[OF i] m(1)] d assms(3)]
        member_mapping_Some[OF wf_cellD(3)[OF assms(1) lt[OF i] m(2)] d assms(3)] by simp_all
    then show "k < l" using m(3) sorted_wrt_nth_less[OF assms(2), of l k] by (metis linorder_neqE_nat order_less_asym)
  qed
  moreover have "i \<in> set (neighbours (induced c ms) j) \<and> j \<noteq> i"
    if i: "i < length ms" and j: "j \<in> set (neighbours (induced c ms) i)" for i j
    using j i iff wf_cellD(4,5)[OF assms(1) lt[OF i]] by auto
  moreover have "distinct (map (\<lambda>v. cell_ids c ! v) ms)"
    using d assms(3) inj_on_subset[OF inj_on_nth[OF wf_cellD(1)[OF assms(1)]], of "{0..<cell_len c}" "set ms"]
    by (simp add: distinct_map cell_len_def)
  ultimately show ?thesis unfolding wf_cell_def using iff by simp
qed

section \<open>The cell of all edge states\<close>

definition pairs_of_edge :: "transitions \<Rightarrow> nat \<Rightarrow> (nat \<times> nat) list" where
  "pairs_of_edge t e = concat (map (\<lambda>next_edge. if next_edge \<noteq> e \<and> next_edge < edge_count t
     then [(e, next_edge), (next_edge, e)] else []) (transition_row t e))"

definition cell_pairs :: "transitions \<Rightarrow> (nat \<times> nat) list" where
  "cell_pairs t =
     (if has_transitions t then concat (map (pairs_of_edge t) [0..<edge_count t]) else [])"

text \<open>The projected midpoint of an edge is trigonometry on its end points: \<open>px\<close> and \<open>py\<close>.\<close>

definition build_edge_cell :: "transitions \<Rightarrow> (nat \<Rightarrow> rat) \<Rightarrow> (nat \<Rightarrow> rat) \<Rightarrow> cell" where
  "build_edge_cell t px py =
     (let (first_out, heads) = arcs_to_csr (sort_dedup (cell_pairs t)) (edge_count t)
      in \<lparr>cell_ids = [0..<edge_count t], cell_first_out = first_out, cell_heads = heads,
          cell_x = map px [0..<edge_count t], cell_y = map py [0..<edge_count t]\<rparr>)"

lemma cell_pairs_iff:
  "(x, y) \<in> set (cell_pairs t) \<longleftrightarrow> has_transitions t \<and> x < edge_count t \<and> y < edge_count t \<and> x \<noteq> y
     \<and> (y \<in> set (transition_row t x) \<or> x \<in> set (transition_row t y))"
proof -
  have p: "(x, y) \<in> set (pairs_of_edge t e)
    \<longleftrightarrow> x < edge_count t \<and> y < edge_count t \<and> x \<noteq> y \<and> (x = e \<and> y \<in> set (transition_row t e) \<or> y = e \<and> x \<in> set (transition_row t e))"
    if "e < edge_count t" for e
    using that unfolding pairs_of_edge_def by (induction "transition_row t e") auto
  show ?thesis
  proof (cases "has_transitions t")
    case True
    then have "(x, y) \<in> set (cell_pairs t) \<longleftrightarrow> (\<exists>e<edge_count t. (x, y) \<in> set (pairs_of_edge t e))"
      by (auto simp: cell_pairs_def)
    also have "\<dots> \<longleftrightarrow> (\<exists>e<edge_count t. x < edge_count t \<and> y < edge_count t \<and> x \<noteq> y
        \<and> (x = e \<and> y \<in> set (transition_row t e) \<or> y = e \<and> x \<in> set (transition_row t e)))"
      by (intro ex_cong conj_cong refl p)
    finally show ?thesis using True by blast
  qed (simp add: cell_pairs_def)
qed

lemma cell_pairs_ok: "(x, y) \<in> set (cell_pairs t) \<Longrightarrow> x < edge_count t \<and> y < edge_count t \<and> x \<noteq> y \<and> (y, x) \<in> set (cell_pairs t)"
  unfolding cell_pairs_iff by blast

lemma cell_len_build [simp]: "cell_len (build_edge_cell t px py) = edge_count t"
  by (simp add: build_edge_cell_def cell_len_def split_beta)

lemma neighbours_build:
  assumes "v < edge_count t"
  shows "neighbours (build_edge_cell t px py) v = map snd (filter (\<lambda>a. fst a = v) (sort_dedup (cell_pairs t)))"
    "sorted_wrt (<) (neighbours (build_edge_cell t px py) v)"
proof -
  have s: "sorted_arcs (edge_count t) (sort_dedup (cell_pairs t))"
    using cell_pairs_ok[THEN conjunct1] by (force simp: sorted_arcs_def sort_dedup_strict)
  show e: "neighbours (build_edge_cell t px py) v = map snd (filter (\<lambda>a. fst a = v) (sort_dedup (cell_pairs t)))"
    using csr_row_eq[OF sorted_arcs_fst[OF s] assms]
    by (simp add: neighbours_def build_edge_cell_def split_beta csr_row_def)
  show "sorted_wrt (<) (neighbours (build_edge_cell t px py) v)"
    unfolding e by (rule sorted_arcs_row[OF s])
qed

lemma neighbours_build_iff:
  "v < edge_count t \<Longrightarrow> u \<in> set (neighbours (build_edge_cell t px py) v) \<longleftrightarrow> (v, u) \<in> set (cell_pairs t)"
  by (force simp: neighbours_build)

lemma wf_build_edge_cell: "wf_cell (build_edge_cell t px py)"
proof -
  have ids: "cell_ids (build_edge_cell t px py) = [0..<edge_count t]"
    "length (cell_x (build_edge_cell t px py)) = edge_count t" "length (cell_y (build_edge_cell t px py)) = edge_count t"
    by (simp_all add: build_edge_cell_def split_beta)
  have "u < edge_count t \<and> u \<noteq> v \<and> v \<in> set (neighbours (build_edge_cell t px py) u)"
    if "v < edge_count t" "u \<in> set (neighbours (build_edge_cell t px py) v)" for u v
  proof -
    have "(v, u) \<in> set (cell_pairs t)" using neighbours_build_iff[OF that(1)] that(2) by blast
    from cell_pairs_ok[OF this] show ?thesis using neighbours_build_iff[of u t v px py] by blast
  qed
  then show ?thesis unfolding wf_cell_def cell_len_build ids
    using neighbours_build(2) distinct_upt by blast
qed

definition witness_cell :: cell where
  "witness_cell = build_edge_cell witness_transitions (\<lambda>v. of_nat v) (\<lambda>v. 0)"

lemma wf_witness_cell: "wf_cell witness_cell"
  unfolding witness_cell_def by (rule wf_build_edge_cell)

lemma cell_len_witness [simp]: "cell_len witness_cell = 4"
  by (simp add: witness_cell_def witness_transitions_def)

end
