(* ===== verification/Flow_Network.thy ===== *)
theory Flow_Network
  imports Cell
begin

text \<open>
  The vertex-capacity flow network of a cell (\<open>visit_flow_arcs\<close> and \<open>build_flow_network\<close> of
  \<open>crates/ingest/src/acceleration.rs\<close>). Inner node \<open>v\<close> is split into an entry \<open>2 + 2 v\<close> and an
  exit \<open>3 + 2 v\<close> joined by a unit arc; sources and sinks are contracted into the flow nodes 0
  and 1; every other arc has infinite capacity. The network is built by counting and two
  scattered writes per arc. The lemmas show that the rows partition the arcs, that \<open>rev\<close> is an
  involution that swaps the ends of an arc, and that the forward arcs are exactly the visited ones.
\<close>

section \<open>The code\<close>

datatype role = ROLE_INNER | ROLE_SOURCE | ROLE_SINK

definition INFINITE_CAPACITY :: nat where "INFINITE_CAPACITY = 255"

definition FLOW_SOURCE :: nat where "FLOW_SOURCE = 0"

definition FLOW_SINK :: nat where "FLOW_SINK = 1"

text \<open>The arcs one neighbour adds; \<open>None\<close> when a source node touches a sink node.\<close>

definition neighbour_arcs :: "role list \<Rightarrow> nat \<Rightarrow> nat \<Rightarrow> (nat \<times> nat \<times> nat) list option" where
  "neighbour_arcs role node neighbour =
     (if neighbour \<le> node then Some []
      else case (role ! node, role ! neighbour) of
          (ROLE_SOURCE, ROLE_SINK) \<Rightarrow> None
        | (ROLE_SINK, ROLE_SOURCE) \<Rightarrow> None
        | (ROLE_INNER, ROLE_INNER) \<Rightarrow> Some [(3 + 2 * node, 2 + 2 * neighbour, INFINITE_CAPACITY),
            (3 + 2 * neighbour, 2 + 2 * node, INFINITE_CAPACITY)]
        | (ROLE_SOURCE, ROLE_INNER) \<Rightarrow> Some [(FLOW_SOURCE, 2 + 2 * neighbour, INFINITE_CAPACITY)]
        | (ROLE_INNER, ROLE_SOURCE) \<Rightarrow> Some [(FLOW_SOURCE, 2 + 2 * node, INFINITE_CAPACITY)]
        | (ROLE_SINK, ROLE_INNER) \<Rightarrow> Some [(3 + 2 * neighbour, FLOW_SINK, INFINITE_CAPACITY)]
        | (ROLE_INNER, ROLE_SINK) \<Rightarrow> Some [(3 + 2 * node, FLOW_SINK, INFINITE_CAPACITY)]
        | _ \<Rightarrow> Some [])"

fun collect_arcs :: "('a \<Rightarrow> 'b list option) \<Rightarrow> 'a list \<Rightarrow> 'b list option" where
  "collect_arcs f [] = Some []"
| "collect_arcs f (x # xs) = (case f x of None \<Rightarrow> None
     | Some ys \<Rightarrow> map_option (\<lambda>zs. ys @ zs) (collect_arcs f xs))"

definition node_arcs :: "cell \<Rightarrow> role list \<Rightarrow> nat \<Rightarrow> (nat \<times> nat \<times> nat) list option" where
  "node_arcs c role node =
     map_option (\<lambda>arcs. (if role ! node = ROLE_INNER then [(2 + 2 * node, 3 + 2 * node, 1)] else []) @ arcs)
       (collect_arcs (neighbour_arcs role node) (neighbours c node))"

definition visit_flow_arcs :: "cell \<Rightarrow> role list \<Rightarrow> (nat \<times> nat \<times> nat) list option" where
  "visit_flow_arcs c role = collect_arcs (node_arcs c role) [0..<cell_len c]"

record flow_network =
  net_first_out :: "nat list"
  net_head :: "nat list"
  net_cap :: "nat list"
  net_rev :: "nat list"

definition arc_ends :: "(nat \<times> nat \<times> nat) list \<Rightarrow> (nat \<times> unit) list" where
  "arc_ends arcs = concat (map (\<lambda>(tail, target, capacity). [(tail, ()), (target, ())]) arcs)"

type_synonym placement = "nat list \<times> nat list \<times> nat list \<times> nat list"

definition place_arc :: "placement \<Rightarrow> nat \<times> nat \<times> nat \<Rightarrow> placement" where
  "place_arc s arc = (case (s, arc) of ((cursor, head, cap, reverse), (tail, target, capacity)) \<Rightarrow>
     (let forward = cursor ! tail; cursor = incr_at tail 1 cursor;
          backward = cursor ! target; cursor = incr_at target 1 cursor
      in (cursor, head[forward := target, backward := tail], cap[forward := capacity, backward := 0],
          reverse[forward := backward, backward := forward])))"

definition build_flow_network :: "cell \<Rightarrow> role list \<Rightarrow> flow_network option" where
  "build_flow_network c role =
     (case visit_flow_arcs c role of
        None \<Rightarrow> None
      | Some arcs \<Rightarrow>
          (let flow_nodes = 2 + 2 * cell_len c;
               first_out = row_starts flow_nodes (arc_ends arcs);
               zeros = replicate (2 * length arcs) 0;
               (cursor, head, cap, reverse) = foldl place_arc (take flow_nodes first_out, zeros, zeros, zeros) arcs
           in Some \<lparr>net_first_out = first_out, net_head = head, net_cap = cap, net_rev = reverse\<rparr>))"

section \<open>Placing the arcs\<close>

text \<open>The arcs are distinct when it matters: no pair of ends has two unit arcs.\<close>

definition units_once :: "(nat \<times> nat \<times> nat) list \<Rightarrow> bool" where
  "units_once arcs \<longleftrightarrow> distinct (filter (\<lambda>(t, h, k). k = 1) arcs)"

definition arc_counts :: "(nat \<times> nat \<times> nat) list \<Rightarrow> nat \<Rightarrow> nat" where
  "arc_counts arcs v = length (filter (\<lambda>a. fst a = v) (arc_ends arcs))"

lemma arc_ends_append: "arc_ends (xs @ ys) = arc_ends xs @ arc_ends ys"
  by (simp add: arc_ends_def)

lemma length_arc_ends [simp]: "length (arc_ends arcs) = 2 * length arcs"
  by (induction arcs) (auto simp: arc_ends_def split: prod.split)

lemma arc_counts_snoc:
  "arc_counts (xs @ [(t, h, k)]) v = arc_counts xs v + (if v = t then 1 else 0) + (if v = h then 1 else 0)"
  by (simp add: arc_counts_def arc_ends_append) (simp add: arc_ends_def)

text \<open>Position \<open>a\<close> is filled in row \<open>v\<close>.\<close>

definition filled :: "nat list \<Rightarrow> nat \<Rightarrow> nat list \<Rightarrow> nat \<Rightarrow> nat \<Rightarrow> bool" where
  "filled starts n cursor v a \<longleftrightarrow> v < n \<and> starts ! v \<le> a \<and> a < cursor ! v"

definition placed_inv :: "nat list \<Rightarrow> nat \<Rightarrow> nat \<Rightarrow> (nat \<times> nat \<times> nat) list \<Rightarrow> placement \<Rightarrow> bool" where
  "placed_inv starts n m arcs s \<longleftrightarrow> (case s of (cursor, head, cap, reverse) \<Rightarrow>
     length cursor = n \<and> length head = m \<and> length cap = m \<and> length reverse = m
     \<and> (\<forall>v<n. cursor ! v = starts ! v + arc_counts arcs v)
     \<and> (\<forall>v a. filled starts n cursor v a \<longrightarrow>
          filled starts n cursor (head ! a) (reverse ! a) \<and> reverse ! (reverse ! a) = a \<and> head ! (reverse ! a) = v
          \<and> (cap ! a = 0 \<and> (head ! a, v, cap ! (reverse ! a)) \<in> set arcs \<or> cap ! (reverse ! a) = 0 \<and> (v, head ! a, cap ! a) \<in> set arcs))
     \<and> (\<forall>t h k. (t, h, k) \<in> set arcs \<longrightarrow> (\<exists>a. filled starts n cursor t a \<and> head ! a = h \<and> cap ! a = k))
     \<and> (\<forall>v a a'. filled starts n cursor v a \<longrightarrow> filled starts n cursor v a' \<longrightarrow> cap ! a = 1 \<longrightarrow> cap ! a' = 1
          \<longrightarrow> head ! a = head ! a' \<longrightarrow> a = a'))"

lemma filled_row:
  assumes "starts = row_starts n (arc_ends all)" "all = arcs @ rest"
    "\<forall>v<n. cursor ! v = starts ! v + arc_counts arcs v" "filled starts n cursor v a"
  shows "starts ! v \<le> a" "a < starts ! Suc v" "v < n" "a < 2 * length all"
proof -
  have "arc_counts arcs v \<le> arc_counts all v" by (simp add: arc_counts_def assms(2) arc_ends_append)
  then show "starts ! v \<le> a" "a < starts ! Suc v" "v < n"
    using assms row_starts_Suc[of v n "arc_ends all"] by (auto simp: filled_def arc_counts_def)
  then show "a < 2 * length all"
    using row_starts_bound[of "Suc v" n "arc_ends all"] assms(1) by simp
qed

lemma same_row:
  assumes "starts = row_starts n items" "starts ! v \<le> a" "a < starts ! Suc v" "starts ! w \<le> a" "a < starts ! Suc w" "v < n" "w < n"
  shows "v = w"
proof (rule ccontr)
  assume "v \<noteq> w"
  then consider "Suc v \<le> w" | "Suc w \<le> v" by linarith
  then show False
    using assms row_starts_mono[of "Suc v" w n items] row_starts_mono[of "Suc w" v n items] by cases auto
qed

lemma place_arc_inv:
  assumes st: "starts = row_starts n (arc_ends all)" and sp: "all = arcs @ (t, h, k) # rest"
    and inv: "placed_inv starts n (2 * length all) arcs (cursor, head, cap, reverse)"
    and lt: "t < n" "h < n" "t \<noteq> h" "0 < k" and once: "k = 1 \<longrightarrow> (t, h, k) \<notin> set arcs"
  shows "placed_inv starts n (2 * length all) (arcs @ [(t, h, k)]) (place_arc (cursor, head, cap, reverse) (t, h, k))"
proof -
  let ?m = "2 * length all" and ?f = "cursor ! t" and ?g = "cursor ! h"
  let ?c = "incr_at h 1 (incr_at t 1 cursor)"
  have len: "length cursor = n" "length head = ?m" "length cap = ?m" "length reverse = ?m"
    and cur: "\<forall>v<n. cursor ! v = starts ! v + arc_counts arcs v"
    and old: "\<And>v a. filled starts n cursor v a \<Longrightarrow>
          filled starts n cursor (head ! a) (reverse ! a) \<and> reverse ! (reverse ! a) = a \<and> head ! (reverse ! a) = v
          \<and> (cap ! a = 0 \<and> (head ! a, v, cap ! (reverse ! a)) \<in> set arcs \<or> cap ! (reverse ! a) = 0 \<and> (v, head ! a, cap ! a) \<in> set arcs)"
    and all_in: "\<And>t h k. (t, h, k) \<in> set arcs \<Longrightarrow> \<exists>a. filled starts n cursor t a \<and> head ! a = h \<and> cap ! a = k"
    and uniq: "\<And>v a a'. filled starts n cursor v a \<Longrightarrow> filled starts n cursor v a' \<Longrightarrow> cap ! a = 1 \<Longrightarrow> cap ! a' = 1
          \<Longrightarrow> head ! a = head ! a' \<Longrightarrow> a = a'"
    using inv unfolding placed_inv_def split_conv by blast+
  have cnt: "arc_counts all v = arc_counts arcs v + (if v = t then 1 else 0) + (if v = h then 1 else 0) + arc_counts rest v" for v
    using arc_counts_snoc[of arcs t h k v] by (simp add: sp arc_counts_def arc_ends_append) (simp add: arc_ends_def)
  have row: "starts ! v \<le> cursor ! v" "cursor ! v < starts ! Suc v" if "v = t \<or> v = h" for v
    using cur cnt[of v] lt that row_starts_Suc[of v n "arc_ends all"] st by (auto simp: arc_counts_def)
  note fr = filled_row[OF st sp[unfolded append_Cons[symmetric]] cur]
  have new: "a \<noteq> ?f" "a \<noteq> ?g" if "filled starts n cursor v a" for v a
  proof -
    show "a \<noteq> ?f"
    proof
      assume a: "a = ?f"
      have "v = t" using same_row[OF st fr(1,2)[OF that]] row[of t] lt fr(3)[OF that] a by simp
      then show False using that a by (simp add: filled_def)
    qed
    show "a \<noteq> ?g"
    proof
      assume a: "a = ?g"
      have "v = h" using same_row[OF st fr(1,2)[OF that]] row[of h] lt fr(3)[OF that] a by simp
      then show False using that a by (simp add: filled_def)
    qed
  qed
  have fg: "?f \<noteq> ?g" using same_row[OF st row[of t] _ _ lt(1,2)] row[of h] lt(3) by auto
  have m: "?f < ?m" "?g < ?m"
    using row[of t] row[of h] row_starts_bound[of "Suc t" n "arc_ends all"] row_starts_bound[of "Suc h" n "arc_ends all"] lt st
    by (auto simp del: length_row_starts)
  have fill: "filled starts n ?c v a \<longleftrightarrow> filled starts n cursor v a \<or> v = t \<and> a = ?f \<or> v = h \<and> a = ?g" for v a
  proof -
    have c: "?c ! w = cursor ! w + (if w = t then 1 else 0) + (if w = h then 1 else 0)" if "w < n" for w
      using that len(1) by (simp add: nth_incr_at)
    consider "v = t" | "v = h" | "v \<noteq> t" "v \<noteq> h" by blast
    then show ?thesis using lt row[of t] row[of h] c[of v] by cases (auto simp: filled_def less_Suc_eq)
  qed
  define head' where "head' = head[?f := h, ?g := t]"
  define cap' where "cap' = cap[?f := k, ?g := 0]"
  define rv where "rv = reverse[?f := ?g, ?g := ?f]"
  have place: "place_arc (cursor, head, cap, reverse) (t, h, k) = (?c, head', cap', rv)"
    using lt len(1) by (simp add: place_arc_def Let_def nth_incr_at head'_def cap'_def rv_def)
  have at: "head' ! ?f = h" "head' ! ?g = t" "cap' ! ?f = k" "cap' ! ?g = 0" "rv ! ?f = ?g" "rv ! ?g = ?f"
    using m len fg by (simp_all add: head'_def cap'_def rv_def nth_list_update)
  have other: "head' ! a = head ! a" "cap' ! a = cap ! a" "rv ! a = reverse ! a" if "filled starts n cursor v a" for v a
    using new[OF that] by (simp_all add: head'_def cap'_def rv_def)
  have cur': "\<forall>v<n. ?c ! v = starts ! v + arc_counts (arcs @ [(t, h, k)]) v"
    using cur lt len(1) by (simp add: arc_counts_snoc nth_incr_at)
  have swap: "filled starts n ?c (head' ! a) (rv ! a) \<and> rv ! (rv ! a) = a \<and> head' ! (rv ! a) = v
      \<and> (cap' ! a = 0 \<and> (head' ! a, v, cap' ! (rv ! a)) \<in> set (arcs @ [(t, h, k)]) \<or> cap' ! (rv ! a) = 0 \<and> (v, head' ! a, cap' ! a) \<in> set (arcs @ [(t, h, k)]))"
    if "filled starts n ?c v a" for v a
    using that[unfolded fill]
  proof (elim disjE)
    assume a: "filled starts n cursor v a"
    note o = old[OF a]
    have r: "filled starts n cursor (head ! a) (reverse ! a)" using o by blast
    show ?thesis using o unfolding other[OF a] other[OF r] fill by auto
  qed (use at fill in auto)
  have found: "\<exists>a. filled starts n ?c t' a \<and> head' ! a = h' \<and> cap' ! a = k'" if "(t', h', k') \<in> set (arcs @ [(t, h, k)])" for t' h' k'
  proof (cases "(t', h', k') \<in> set arcs")
    case True
    then obtain a where a: "filled starts n cursor t' a" "head ! a = h'" "cap ! a = k'" using all_in by blast
    then show ?thesis using other[OF a(1)] fill by (intro exI[of _ a]) simp
  next
    case False
    then have "t' = t" "h' = h" "k' = k" using that by auto
    then show ?thesis using at fill by (intro exI[of _ ?f]) simp
  qed
  have unit: "a = a'" if u: "filled starts n ?c v a" "filled starts n ?c v a'" "cap' ! a = 1" "cap' ! a' = 1" "head' ! a = head' ! a'" for v a a'
  proof -
    have clash: False if "k = 1" "filled starts n cursor t b" "head ! b = h" "cap ! b = 1" for b
      using old[OF that(2)] that once by auto
    have g: "a \<noteq> ?g" "a' \<noteq> ?g" using u(3,4) at(4) by auto
    have c: "filled starts n cursor v b \<or> v = t \<and> b = ?f" if "b \<in> {a, a'}" for b using u(1,2) g that unfolding fill by auto
    consider "filled starts n cursor v a" "filled starts n cursor v a'" | "v = t" "a = ?f" "filled starts n cursor v a'"
      | "v = t" "a' = ?f" "filled starts n cursor v a" | "a = ?f" "a' = ?f"
      using c[of a] c[of a'] by blast
    then show ?thesis
    proof cases
      case 1
      then show ?thesis using uniq[OF 1] u(3-5) other[OF 1(1)] other[OF 1(2)] by simp
    next
      case 2
      then show ?thesis using clash[of a'] u(3-5) other[OF 2(3)] at(1,3) by simp
    next
      case 3
      then show ?thesis using clash[of a] u(3-5) other[OF 3(3)] at(1,3) by simp
    qed simp
  qed
  have "\<forall>v a a'. filled starts n ?c v a \<longrightarrow> filled starts n ?c v a' \<longrightarrow> cap' ! a = 1 \<longrightarrow> cap' ! a' = 1
      \<longrightarrow> head' ! a = head' ! a' \<longrightarrow> a = a'" using unit by blast
  moreover have "\<forall>v a. filled starts n ?c v a \<longrightarrow> filled starts n ?c (head' ! a) (rv ! a) \<and> rv ! (rv ! a) = a \<and> head' ! (rv ! a) = v
      \<and> (cap' ! a = 0 \<and> (head' ! a, v, cap' ! (rv ! a)) \<in> set (arcs @ [(t, h, k)]) \<or> cap' ! (rv ! a) = 0 \<and> (v, head' ! a, cap' ! a) \<in> set (arcs @ [(t, h, k)]))"
    using swap by blast
  moreover have "\<forall>t' h' k'. (t', h', k') \<in> set (arcs @ [(t, h, k)]) \<longrightarrow> (\<exists>a. filled starts n ?c t' a \<and> head' ! a = h' \<and> cap' ! a = k')"
    using found by blast
  moreover have "length ?c = n" "length head' = ?m" "length cap' = ?m" "length rv = ?m"
    using len by (simp_all add: head'_def cap'_def rv_def)
  ultimately show ?thesis unfolding place placed_inv_def split_conv using cur' by blast
qed

section \<open>Residual networks\<close>

definition tail_of :: "flow_network \<Rightarrow> nat \<Rightarrow> nat" where
  "tail_of net a = net_head net ! (net_rev net ! a)"

abbreviation arc_count :: "flow_network \<Rightarrow> nat" where
  "arc_count net \<equiv> length (net_head net)"

definition net_ok :: "nat \<Rightarrow> (nat \<times> nat \<times> nat) set \<Rightarrow> flow_network \<Rightarrow> bool" where
  "net_ok nodes arcs net \<longleftrightarrow> length (net_first_out net) = nodes + 1
     \<and> length (net_cap net) = arc_count net \<and> length (net_rev net) = arc_count net
     \<and> (\<forall>a<arc_count net. net_rev net ! a < arc_count net \<and> net_rev net ! (net_rev net ! a) = a \<and> net_head net ! a < nodes)
     \<and> (\<forall>v<nodes. net_first_out net ! v \<le> net_first_out net ! (v + 1))
     \<and> (\<forall>v<nodes. \<forall>a. net_first_out net ! v \<le> a \<and> a < net_first_out net ! (v + 1) \<longleftrightarrow> a < arc_count net \<and> tail_of net a = v)
     \<and> (\<forall>a<arc_count net. net_cap net ! a = 0 \<and> (net_head net ! a, tail_of net a, net_cap net ! (net_rev net ! a)) \<in> arcs
          \<or> net_cap net ! (net_rev net ! a) = 0 \<and> (tail_of net a, net_head net ! a, net_cap net ! a) \<in> arcs)
     \<and> (\<forall>t h k. (t, h, k) \<in> arcs \<longrightarrow> (\<exists>a<arc_count net. tail_of net a = t \<and> net_head net ! a = h \<and> net_cap net ! a = k))
     \<and> (\<forall>a<arc_count net. \<forall>a'<arc_count net. net_cap net ! a = 1 \<longrightarrow> net_cap net ! a' = 1
          \<longrightarrow> tail_of net a = tail_of net a' \<longrightarrow> net_head net ! a = net_head net ! a' \<longrightarrow> a = a')"

lemma place_arcs_inv:
  assumes "starts = row_starts n (arc_ends all)"
  shows "all = arcs @ rest \<Longrightarrow> placed_inv starts n (2 * length all) arcs s \<Longrightarrow>
    \<forall>(t, h, k)\<in>set all. t < n \<and> h < n \<and> t \<noteq> h \<and> 0 < k \<Longrightarrow> units_once all \<Longrightarrow>
    placed_inv starts n (2 * length all) all (foldl place_arc s rest)"
proof (induction rest arbitrary: arcs s)
  case (Cons x rest)
  obtain t h k where x: "x = (t, h, k)" by (cases x) auto
  obtain cursor head cap reverse where s: "s = (cursor, head, cap, reverse)" by (cases s) auto
  have "distinct (filter (\<lambda>(t, h, k). k = 1) arcs @ filter (\<lambda>(t, h, k). k = 1) (x # rest))"
    using Cons.prems(1,4) by (simp add: units_once_def)
  then have once: "k = 1 \<longrightarrow> (t, h, k) \<notin> set arcs" by (auto simp: x)
  have lt: "t < n" "h < n" "t \<noteq> h" "0 < k" using Cons.prems(1,3) x by auto
  have "placed_inv starts n (2 * length all) (arcs @ [x]) (place_arc s x)"
    unfolding s x by (rule place_arc_inv[OF assms Cons.prems(1)[unfolded x] Cons.prems(2)[unfolded s] lt once])
  from Cons.IH[OF _ this] show ?case using Cons.prems by simp
qed simp

lemma row_containing:
  fixes starts :: "nat list"
  assumes "starts ! 0 \<le> a"
  shows "a < starts ! n \<Longrightarrow> \<exists>v<n. starts ! v \<le> a \<and> a < starts ! Suc v"
proof (induction n)
  case (Suc n)
  show ?case
  proof (cases "a < starts ! n")
    case True
    then show ?thesis using Suc.IH less_SucI by blast
  next
    case False
    then show ?thesis using Suc.prems by (intro exI[of _ n]) simp
  qed
qed (use assms in simp)

lemma build_network_ok:
  assumes "visit_flow_arcs c role = Some arcs" "units_once arcs"
    "\<forall>(t, h, k)\<in>set arcs. t < 2 + 2 * cell_len c \<and> h < 2 + 2 * cell_len c \<and> t \<noteq> h \<and> 0 < k"
  shows "\<exists>net. build_flow_network c role = Some net \<and> net_ok (2 + 2 * cell_len c) (set arcs) net"
proof -
  let ?n = "2 + 2 * cell_len c" and ?m = "2 * length arcs"
  let ?st = "row_starts ?n (arc_ends arcs)" and ?z = "replicate ?m (0 :: nat)"
  obtain cursor head cap reverse where f: "foldl place_arc (take ?n ?st, ?z, ?z, ?z) arcs = (cursor, head, cap, reverse)"
    by (metis prod_cases4)
  have "placed_inv ?st ?n ?m [] (take ?n ?st, ?z, ?z, ?z)"
    unfolding placed_inv_def by (auto simp: filled_def arc_counts_def arc_ends_def)
  then have inv: "placed_inv ?st ?n ?m arcs (cursor, head, cap, reverse)"
    using place_arcs_inv[OF refl _ _ assms(3,2), of "[]" arcs] unfolding f[symmetric] by simp
  let ?net = "\<lparr>net_first_out = ?st, net_head = head, net_cap = cap, net_rev = reverse\<rparr>"
  have b: "build_flow_network c role = Some ?net"
    using f by (simp add: build_flow_network_def assms(1) Let_def)
  have len: "length cursor = ?n" "length head = ?m" "length cap = ?m" "length reverse = ?m"
    and cur: "\<forall>v<?n. cursor ! v = ?st ! v + arc_counts arcs v"
    and old: "\<And>v a. filled ?st ?n cursor v a \<Longrightarrow>
          filled ?st ?n cursor (head ! a) (reverse ! a) \<and> reverse ! (reverse ! a) = a \<and> head ! (reverse ! a) = v
          \<and> (cap ! a = 0 \<and> (head ! a, v, cap ! (reverse ! a)) \<in> set arcs \<or> cap ! (reverse ! a) = 0 \<and> (v, head ! a, cap ! a) \<in> set arcs)"
    and all_in: "\<And>t h k. (t, h, k) \<in> set arcs \<Longrightarrow> \<exists>a. filled ?st ?n cursor t a \<and> head ! a = h \<and> cap ! a = k"
    and uniq: "\<And>v a a'. filled ?st ?n cursor v a \<Longrightarrow> filled ?st ?n cursor v a' \<Longrightarrow> cap ! a = 1 \<Longrightarrow> cap ! a' = 1
          \<Longrightarrow> head ! a = head ! a' \<Longrightarrow> a = a'"
    using inv unfolding placed_inv_def split_conv by blast+
  have fill: "filled ?st ?n cursor v a \<longleftrightarrow> ?st ! v \<le> a \<and> a < ?st ! Suc v" if "v < ?n" for v a
    using cur that row_starts_Suc[OF that, of "arc_ends arcs"] by (simp add: filled_def arc_counts_def)
  note fr = filled_row[OF refl append_Nil2[symmetric] cur]
  have some_row: "\<exists>v. filled ?st ?n cursor v a" if a: "a < ?m" for a
  proof -
    have ends: "filter (\<lambda>x. fst x < ?n) (arc_ends arcs) = arc_ends arcs"
      using assms(3) by (auto simp: arc_ends_def filter_id_conv)
    have z: "?st ! ?n = ?m" using row_starts_nth[OF le_refl, of ?n "arc_ends arcs"] unfolding ends by simp
    have "?st ! 0 \<le> a" by (simp add: row_starts_nth)
    then have "\<exists>v<?n. ?st ! v \<le> a \<and> a < ?st ! Suc v" by (rule row_containing) (use a z in simp)
    then show ?thesis using fill by blast
  qed
  have tail: "filled ?st ?n cursor v a \<longleftrightarrow> a < ?m \<and> tail_of ?net a = v" for v a
  proof
    assume "filled ?st ?n cursor v a"
    then show "a < ?m \<and> tail_of ?net a = v" using fr(4) old by (simp add: tail_of_def)
  next
    assume a: "a < ?m \<and> tail_of ?net a = v"
    obtain w where w: "filled ?st ?n cursor w a" using some_row a by blast
    then have "tail_of ?net a = w" using old by (simp add: tail_of_def)
    then show "filled ?st ?n cursor v a" using a w by simp
  qed
  have hd: "head ! a < ?n" if "filled ?st ?n cursor v a" for v a using old[OF that] by (simp add: filled_def)
  have "net_ok ?n (set arcs) ?net"
    unfolding net_ok_def
  proof (intro conjI allI impI)
    fix a assume a: "a < arc_count ?net"
    then have fa: "filled ?st ?n cursor (tail_of ?net a) a" using tail len by simp
    note o = old[OF fa]
    show "net_rev ?net ! a < arc_count ?net" using fr(4)[OF conjunct1[OF o]] len by simp
    show "net_rev ?net ! (net_rev ?net ! a) = a" using o by simp
    show "net_head ?net ! a < ?n" using hd[OF fa] by simp
    show "net_cap ?net ! a = 0 \<and> (net_head ?net ! a, tail_of ?net a, net_cap ?net ! (net_rev ?net ! a)) \<in> set arcs
        \<or> net_cap ?net ! (net_rev ?net ! a) = 0 \<and> (tail_of ?net a, net_head ?net ! a, net_cap ?net ! a) \<in> set arcs"
      using o by simp
    fix a' assume a': "a' < arc_count ?net" and e: "net_cap ?net ! a = 1" "net_cap ?net ! a' = 1" "tail_of ?net a = tail_of ?net a'"
      "net_head ?net ! a = net_head ?net ! a'"
    have "filled ?st ?n cursor (tail_of ?net a) a'" using tail len a' e(3) by simp
    then show "a = a'" using uniq[OF fa] e by simp
  next
    fix v assume "v < ?n"
    then show "net_first_out ?net ! v \<le> net_first_out ?net ! (v + 1)" using row_starts_mono[of v "Suc v" ?n "arc_ends arcs"] by simp
  next
    fix v a assume v: "v < ?n"
    show "(net_first_out ?net ! v \<le> a \<and> a < net_first_out ?net ! (v + 1)) = (a < arc_count ?net \<and> tail_of ?net a = v)"
      using fill[OF v, of a] tail[of v a] len by simp
  next
    fix t h k assume "(t, h, k) \<in> set arcs"
    then obtain a where "filled ?st ?n cursor t a" "head ! a = h" "cap ! a = k" using all_in by blast
    then show "\<exists>a<arc_count ?net. tail_of ?net a = t \<and> net_head ?net ! a = h \<and> net_cap ?net ! a = k"
      using tail len by (intro exI[of _ a]) simp
  qed (simp_all add: len)
  then show ?thesis using b by blast
qed

section \<open>The arcs of a role assignment\<close>

lemma collect_arcs_None: "collect_arcs f xs = None \<longleftrightarrow> (\<exists>x\<in>set xs. f x = None)"
  by (induction xs) (auto split: option.split)

lemma collect_arcs_Some: "collect_arcs f xs = Some zs \<Longrightarrow> zs = concat (map (\<lambda>x. the (f x)) xs) \<and> (\<forall>x\<in>set xs. f x \<noteq> None)"
  by (induction xs arbitrary: zs) (auto split: option.splits)

text \<open>The arcs of infinite capacity that a directed pair of adjacent nodes stands for.\<close>

definition pair_arc :: "role list \<Rightarrow> nat \<Rightarrow> nat \<Rightarrow> (nat \<times> nat \<times> nat) set" where
  "pair_arc role u v =
     (case (role ! u, role ! v) of
        (ROLE_INNER, ROLE_INNER) \<Rightarrow> {(3 + 2 * u, 2 + 2 * v, INFINITE_CAPACITY)}
      | (ROLE_SOURCE, ROLE_INNER) \<Rightarrow> {(FLOW_SOURCE, 2 + 2 * v, INFINITE_CAPACITY)}
      | (ROLE_INNER, ROLE_SINK) \<Rightarrow> {(3 + 2 * u, FLOW_SINK, INFINITE_CAPACITY)}
      | _ \<Rightarrow> {})"

lemma pair_arc_iff:
  "(t, h, k) \<in> pair_arc role u v \<longleftrightarrow> k = INFINITE_CAPACITY
     \<and> (role ! u = ROLE_INNER \<and> role ! v = ROLE_INNER \<and> t = 3 + 2 * u \<and> h = 2 + 2 * v
        \<or> role ! u = ROLE_SOURCE \<and> role ! v = ROLE_INNER \<and> t = FLOW_SOURCE \<and> h = 2 + 2 * v
        \<or> role ! u = ROLE_INNER \<and> role ! v = ROLE_SINK \<and> t = 3 + 2 * u \<and> h = FLOW_SINK)"
  by (cases "role ! u"; cases "role ! v") (auto simp: pair_arc_def)

definition touching :: "cell \<Rightarrow> role list \<Rightarrow> bool" where
  "touching c role \<longleftrightarrow> (\<exists>u<cell_len c. \<exists>v\<in>set (neighbours c u). role ! u = ROLE_SOURCE \<and> role ! v = ROLE_SINK)"

definition flow_arcs :: "cell \<Rightarrow> role list \<Rightarrow> (nat \<times> nat \<times> nat) set" where
  "flow_arcs c role = {(2 + 2 * v, 3 + 2 * v, 1) | v. v < cell_len c \<and> role ! v = ROLE_INNER}
     \<union> (\<Union>u\<in>{0..<cell_len c}. \<Union>v\<in>set (neighbours c u). pair_arc role u v)"

lemma neighbour_arcs_Some:
  "node < v \<Longrightarrow> neighbour_arcs role node v = Some xs \<Longrightarrow>
     set xs = pair_arc role node v \<union> pair_arc role v node"
  by (cases "role ! node"; cases "role ! v") (auto simp: neighbour_arcs_def pair_arc_def)

lemma neighbour_arcs_None:
  "neighbour_arcs role node v = None \<longleftrightarrow> node < v \<and> (role ! node = ROLE_SOURCE \<and> role ! v = ROLE_SINK
     \<or> role ! node = ROLE_SINK \<and> role ! v = ROLE_SOURCE)"
  by (cases "role ! node"; cases "role ! v") (auto simp: neighbour_arcs_def)

lemma neighbour_arcs_infinite: "neighbour_arcs role node v = Some xs \<Longrightarrow> \<forall>(t, h, k)\<in>set xs. k = INFINITE_CAPACITY"
  by (cases "role ! node"; cases "role ! v") (auto simp: neighbour_arcs_def split: if_splits)

lemma visit_None:
  assumes "wf_cell c"
  shows "visit_flow_arcs c role = None \<longleftrightarrow> touching c role"
proof -
  have "visit_flow_arcs c role = None \<longleftrightarrow> (\<exists>u<cell_len c. \<exists>v\<in>set (neighbours c u). neighbour_arcs role u v = None)"
    by (auto simp: visit_flow_arcs_def collect_arcs_None node_arcs_def)
  also have "\<dots> \<longleftrightarrow> touching c role"
    unfolding touching_def neighbour_arcs_None
    by (metis wf_cellD(3,4,5)[OF assms] linorder_neqE_nat)
  finally show ?thesis .
qed

lemma visit_Some:
  assumes wf: "wf_cell c" and v: "visit_flow_arcs c role = Some arcs"
  shows "set arcs = flow_arcs c role" "units_once arcs"
proof -
  let ?n = "cell_len c"
  let ?un = "\<lambda>u. if role ! u = ROLE_INNER then [(2 + 2 * u, 3 + 2 * u, 1)] else []"
  have f: "arcs = concat (map (\<lambda>u. the (node_arcs c role u)) [0..<?n])" "\<forall>u<?n. node_arcs c role u \<noteq> None"
    using collect_arcs_Some[OF v[unfolded visit_flow_arcs_def]] by auto
  have node: "the (node_arcs c role u) = ?un u @ concat (map (\<lambda>v. the (neighbour_arcs role u v)) (neighbours c u))
      \<and> (\<forall>v\<in>set (neighbours c u). neighbour_arcs role u v \<noteq> None)" if u: "u < ?n" for u
  proof -
    obtain zs where "collect_arcs (neighbour_arcs role u) (neighbours c u) = Some zs"
      using f(2) u by (auto simp: node_arcs_def)
    then show ?thesis using collect_arcs_Some by (auto simp: node_arcs_def)
  qed
  have arcs: "x \<in> set arcs \<longleftrightarrow> (\<exists>u<?n. x \<in> set (?un u) \<or> (\<exists>v\<in>set (neighbours c u). x \<in> set (the (neighbour_arcs role u v))))" for x
    using node unfolding f(1) by auto
  have pair: "x \<in> set (the (neighbour_arcs role u v)) \<longleftrightarrow> u < v \<and> x \<in> pair_arc role u v \<union> pair_arc role v u"
    if "u < ?n" "v \<in> set (neighbours c u)" for x u v
  proof (cases "u < v")
    case True
    then show ?thesis using neighbour_arcs_Some[OF True] node[OF that(1)] that(2) by force
  qed (simp add: neighbour_arcs_def)
  have sym: "(\<exists>u<?n. \<exists>v\<in>set (neighbours c u). u < v \<and> x \<in> pair_arc role u v \<union> pair_arc role v u)
      \<longleftrightarrow> (\<exists>u<?n. \<exists>v\<in>set (neighbours c u). x \<in> pair_arc role u v)" for x
    using wf_cellD(3,4,5)[OF wf] by (metis UnCI UnE linorder_neqE_nat)
  have "x \<in> set arcs \<longleftrightarrow> x \<in> flow_arcs c role" for x
  proof -
    have "x \<in> set arcs \<longleftrightarrow> (\<exists>u<?n. x \<in> set (?un u)) \<or> (\<exists>u<?n. \<exists>v\<in>set (neighbours c u). u < v \<and> x \<in> pair_arc role u v \<union> pair_arc role v u)"
      unfolding arcs using pair by blast
    then show ?thesis unfolding sym flow_arcs_def by (auto split: if_splits)
  qed
  then show "set arcs = flow_arcs c role" by blast
  have nounit: "filter (\<lambda>(t, h, k). k = 1) (concat (map (\<lambda>v. the (neighbour_arcs role u v)) (neighbours c u))) = []" if u: "u < ?n" for u
    unfolding filter_empty_conv using node[OF u] neighbour_arcs_infinite[of role u]
    by (fastforce simp: INFINITE_CAPACITY_def)
  have "filter (\<lambda>(t, h, k). k = 1) (concat (map (\<lambda>u. the (node_arcs c role u)) us))
      = map (\<lambda>u. (2 + 2 * u, 3 + 2 * u, 1)) (filter (\<lambda>u. role ! u = ROLE_INNER) us)" if "set us \<subseteq> {0..<?n}" for us
    using that
  proof (induction us)
    case (Cons u us)
    then show ?case using node[of u] nounit[of u] by auto
  qed simp
  then show "units_once arcs"
    unfolding units_once_def f(1) by (simp add: distinct_map inj_on_def)
qed

lemma flow_arcs_bounds:
  assumes "wf_cell c"
  shows "\<forall>(t, h, k)\<in>flow_arcs c role. t < 2 + 2 * cell_len c \<and> h < 2 + 2 * cell_len c \<and> t \<noteq> h \<and> 0 < k"
proof -
  have "t < 2 + 2 * cell_len c \<and> h < 2 + 2 * cell_len c \<and> t \<noteq> h \<and> 0 < k"
    if "(t, h, k) \<in> pair_arc role u v" "u < cell_len c" "v \<in> set (neighbours c u)" for t h k u v
  proof -
    have "v < cell_len c" by (rule wf_cellD(3)[OF assms that(2,3)])
    moreover have "3 + 2 * x \<noteq> 2 + 2 * (y :: nat)" for x y by presburger
    ultimately show ?thesis using that(1,2) unfolding pair_arc_iff
      by (auto simp: INFINITE_CAPACITY_def FLOW_SOURCE_def FLOW_SINK_def)
  qed
  then show ?thesis unfolding flow_arcs_def by fastforce
qed

text \<open>What the network of a cell is.\<close>

lemma build_flow_network_spec:
  assumes "wf_cell c"
  shows "case build_flow_network c role of
      None \<Rightarrow> touching c role
    | Some net \<Rightarrow> \<not> touching c role \<and> net_ok (2 + 2 * cell_len c) (flow_arcs c role) net"
proof (cases "visit_flow_arcs c role")
  case None
  then show ?thesis using visit_None[OF assms, of role] by (simp add: build_flow_network_def)
next
  case (Some arcs)
  then show ?thesis
    using build_network_ok[OF Some visit_Some(2)[OF assms Some]] flow_arcs_bounds[OF assms, of role] visit_Some(1)[OF assms Some] visit_None[OF assms, of role]
    by auto
qed

end
