(* ===== verification/Max_Flow_Phase.thy ===== *)
theory Max_Flow_Phase
  imports Max_Flow_Exact
begin

text \<open>
  The depth-first phase of \<open>max_flow\<close>: its invariant (the current path is a chain of residual arcs
  from the source, the current-arc pointers, the levels that retreats have removed), its variant,
  and the loop over phases. A phase that pushes nothing would have removed every node on a level
  path to the sink, the sink included; so every phase makes progress.
\<close>

section \<open>Current arcs\<close>

lemma first_arc_spec:
  "arc \<le> stop \<Longrightarrow> arc \<le> first_arc p arc stop \<and> first_arc p arc stop \<le> stop
    \<and> (\<forall>x. arc \<le> x \<longrightarrow> x < first_arc p arc stop \<longrightarrow> \<not> p x)
    \<and> (first_arc p arc stop < stop \<longrightarrow> p (first_arc p arc stop))"
proof (induction p arc stop rule: first_arc.induct)
  case (1 p arc stop)
  show ?case
  proof (cases "arc < stop \<and> \<not> p arc")
    case True
    then have s: "first_arc p arc stop = first_arc p (arc + 1) stop" by (simp add: first_arc.simps[of p arc])
    have ih: "arc + 1 \<le> first_arc p (arc + 1) stop" "first_arc p (arc + 1) stop \<le> stop"
      "\<forall>x. arc + 1 \<le> x \<longrightarrow> x < first_arc p (arc + 1) stop \<longrightarrow> \<not> p x"
      "first_arc p (arc + 1) stop < stop \<longrightarrow> p (first_arc p (arc + 1) stop)"
      using 1(1)[OF True] True by auto
    have "\<not> p x" if "arc \<le> x" "x < first_arc p (arc + 1) stop" for x
      using that True ih(3) by (cases "x = arc") auto
    then show ?thesis unfolding s using ih by simp
  next
    case False
    have "first_arc p arc stop = arc" by (subst first_arc.simps) (use False in auto)
    then show ?thesis using False 1(2) by auto
  qed
qed

lemma position_of_first_spec:
  "case position_of_first p xs of
     None \<Rightarrow> \<forall>x\<in>set xs. \<not> p x
   | Some i \<Rightarrow> i < length xs \<and> p (xs ! i) \<and> (\<forall>x\<in>set (take i xs). \<not> p x)"
  by (induction xs) (auto split: option.splits)

section \<open>The invariant of a phase\<close>

text \<open>As long as nothing was pushed: a skipped arc has no capacity, leads to another level, or leads
  to a removed node; a removed node has no arc left; the sink is not removed.\<close>

definition nothing_pushed :: "nat \<Rightarrow> flow_network \<Rightarrow> nat list \<Rightarrow> int list \<Rightarrow> dinic \<Rightarrow> bool" where
  "nothing_pushed n net cap0 lv0 s \<longleftrightarrow> residual s = cap0
     \<and> (\<forall>v<n. \<forall>a. net_first_out net ! v \<le> a \<longrightarrow> a < next_arc s ! v \<longrightarrow> 0 < cap0 ! a \<longrightarrow> 0 \<le> lv0 ! v
          \<longrightarrow> lv0 ! (net_head net ! a) = lv0 ! v + 1 \<longrightarrow> dlevel s ! (net_head net ! a) = - 1)
     \<and> (\<forall>v<n. 0 \<le> lv0 ! v \<longrightarrow> dlevel s ! v = - 1 \<longrightarrow> next_arc s ! v = net_first_out net ! (v + 1))
     \<and> dlevel s ! FLOW_SINK = lv0 ! FLOW_SINK"

definition phase_inv :: "nat \<Rightarrow> flow_network \<Rightarrow> nat \<Rightarrow> nat list \<Rightarrow> int list \<Rightarrow> nat \<Rightarrow> dinic \<Rightarrow> bool" where
  "phase_inv n net limit cap0 lv0 flow0 s \<longleftrightarrow>
     chain net (dlevel s) FLOW_SOURCE (path_arcs s) (at_node s) \<and> dlevel s ! FLOW_SOURCE = 0
     \<and> path_tails s = map (tail_of net) (path_arcs s) \<and> at_node s < n
     \<and> (\<forall>a\<in>set (path_arcs s). 0 < residual s ! a \<and> next_arc s ! (tail_of net a) = a)
     \<and> length (dlevel s) = n \<and> length (next_arc s) = n
     \<and> (\<forall>v<n. dlevel s ! v = lv0 ! v \<or> dlevel s ! v = - 1)
     \<and> (\<forall>v<n. net_first_out net ! v \<le> next_arc s ! v \<and> next_arc s ! v \<le> net_first_out net ! (v + 1))
     \<and> flow_ok n net (residual s) (pushed s) \<and> pushed s < limit \<and> flow0 \<le> pushed s
     \<and> (pushed s = flow0 \<longrightarrow> nothing_pushed n net cap0 lv0 s)"

text \<open>The variant.\<close>

definition all_offsets :: "nat \<Rightarrow> flow_network \<Rightarrow> nat" where
  "all_offsets n net = (\<Sum>v<n. net_first_out net ! (v + 1))"

definition arcs_left :: "nat \<Rightarrow> flow_network \<Rightarrow> dinic \<Rightarrow> nat" where
  "arcs_left n net s = (\<Sum>v<n. net_first_out net ! (v + 1) - next_arc s ! v)"

definition phase_work :: "nat \<Rightarrow> flow_network \<Rightarrow> nat \<Rightarrow> phase \<Rightarrow> nat" where
  "phase_work n net limit p = (case p of
     Searching s \<Rightarrow> 1 + (limit - pushed s) * ((all_offsets n net + 1) * (n + 1)) + arcs_left n net s * (n + 1)
       + (n - length (path_arcs s))
   | _ \<Rightarrow> 0)"

lemma arcs_left_le: "arcs_left n net s \<le> all_offsets n net"
  unfolding arcs_left_def all_offsets_def by (intro sum_mono) simp

lemma arcs_left_mono: "\<forall>v<n. next_arc s ! v \<le> next_arc s' ! v \<Longrightarrow> arcs_left n net s' \<le> arcs_left n net s"
  unfolding arcs_left_def by (intro sum_mono) (auto intro: diff_le_mono2)

lemma arcs_left_less:
  assumes "\<forall>v<n. next_arc s ! v \<le> next_arc s' ! v" "t < n" "next_arc s ! t < next_arc s' ! t" "next_arc s ! t < net_first_out net ! (t + 1)"
  shows "arcs_left n net s' < arcs_left n net s"
  unfolding arcs_left_def
proof (rule sum_strict_mono_ex1)
  show "\<forall>v\<in>{..<n}. net_first_out net ! (v + 1) - next_arc s' ! v \<le> net_first_out net ! (v + 1) - next_arc s ! v"
    using assms(1) by (auto intro: diff_le_mono2)
  show "\<exists>v\<in>{..<n}. net_first_out net ! (v + 1) - next_arc s' ! v < net_first_out net ! (v + 1) - next_arc s ! v"
    using assms(2-4) by (intro bexI[of _ t]) auto
qed simp

lemma chain_nodes_distinct:
  assumes U: "unit_network n A net"
  shows "chain net lv u as w \<Longrightarrow> distinct (map (tail_of net) as @ [w])"
proof (induction as arbitrary: u)
  case (Cons a as)
  have c: "chain net lv (net_head net ! a) as w" "tail_of net a = u" "lv ! (net_head net ! a) = lv ! u + 1" using Cons.prems by auto
  have "lv ! u < lv ! x" if "x \<in> set (map (tail_of net) as @ [w])" for x
    using that chain_arcs[OF c(1)] chain_level[OF c(1)] c(3) by fastforce
  then show ?case using Cons.IH[OF c(1)] c(2) by auto
qed simp

lemma chain_length:
  assumes U: "unit_network n A net" and c: "chain net lv u as w" "w < n"
  shows "length as < n"
proof -
  have "set (map (tail_of net) as @ [w]) \<subseteq> {0..<n}"
    using chain_arcs[OF c(1)] net_okD(8)[OF unit_networkD(1)[OF U]] c(2) by auto
  then have "length (map (tail_of net) as @ [w]) \<le> card {0..<n}"
    using distinct_card[OF chain_nodes_distinct[OF U c(1)]] card_mono by (metis finite_atLeastLessThan)
  then show ?thesis by simp
qed

lemma chain_set_level:
  assumes "chain net lv u as w" "x \<notin> set (map (tail_of net) as)" "x \<notin> (\<lambda>a. net_head net ! a) ` set as" 
  shows "chain net (lv[x := i]) u as w"
  using assms by (induction as arbitrary: u) auto

lemma push_work:
  fixes l l' W p p' n r r' :: nat
  assumes "l' < l" "r' < W" "p' < n + 1"
  shows "l' * (W * (n + 1)) + r' * (n + 1) + p' < l * (W * (n + 1)) + r + p"
proof -
  have "r' * (n + 1) + p' < W * (n + 1)"
  proof -
    have "r' * (n + 1) + p' < r' * (n + 1) + (n + 1)" using assms(3) by simp
    also have "\<dots> = (r' + 1) * (n + 1)" by simp
    also have "\<dots> \<le> W * (n + 1)" using assms(2) by (intro mult_le_mono1) simp
    finally show ?thesis .
  qed
  moreover have "(l' + 1) * (W * (n + 1)) \<le> l * (W * (n + 1))" using assms(1) by (intro mult_le_mono1) simp
  ultimately show ?thesis by simp
qed

section \<open>Steps\<close>

lemma push_path_step:
  assumes U: "unit_network n A net" and inv: "phase_inv n net limit cap0 lv0 flow0 s" and sink: "at_node s = FLOW_SINK"
  shows "(\<exists>s'. push_path net limit s = Searching s' \<and> phase_inv n net limit cap0 lv0 flow0 s'
        \<and> phase_work n net limit (Searching s') < phase_work n net limit (Searching s))
    \<or> (\<exists>s'. push_path net limit s = Limit_Reached s' \<and> flow_ok n net (residual s') (pushed s') \<and> limit \<le> pushed s')"
proof -
  note i = inv[unfolded phase_inv_def]
  let ?as = "path_arcs s" and ?cap = "foldl (push_unit net) (residual s) (path_arcs s)"
  have ch: "chain net (dlevel s) FLOW_SOURCE ?as FLOW_SINK" and f: "flow_ok n net (residual s) (pushed s)"
    using i sink by auto
  have ne: "?as \<noteq> []" using ch unit_networkD(5)[OF U] by auto
  have small: "net_cap net ! x = 0 \<Longrightarrow> residual s ! x < INFINITE_CAPACITY" if "x < arc_count net" for x
    using back_at_most_one[OF U _ _ that] f unfolding flow_ok_def by (fastforce simp: INFINITE_CAPACITY_def)
  have "pushable net (residual s) a" if "a \<in> set ?as" for a
  proof -
    have a: "a < arc_count net" "0 < residual s ! a" using chain_arcs[OF ch that] i that by auto
    then show ?thesis using small net_okD(5)[OF unit_networkD(1)[OF U] a(1)] by (simp add: pushable_def)
  qed
  then have eff: "cap_ok net ?cap"
    "excess net ?cap v = excess net (residual s) v + (if FLOW_SOURCE = v then 1 else 0) - (if FLOW_SINK = v then 1 else 0)" for v
    using push_path_effect[OF U ch] f unfolding flow_ok_def by blast+
  have f': "flow_ok n net ?cap (pushed s + 1)"
    using f eff unit_networkD(5)[OF U] by (simp add: flow_ok_def)
  let ?s = "s\<lparr>residual := ?cap, pushed := pushed s + 1\<rparr>"
  show ?thesis
  proof (cases "limit \<le> pushed s + 1")
    case True
    then have "push_path net limit s = Limit_Reached ?s" by (simp add: push_path_def Let_def)
    then show ?thesis using f' True by (intro disjI2 exI[of _ ?s]) simp
  next
    case False
    let ?p = "\<lambda>arc. ?cap ! arc = 0"
    let ?i = "case position_of_first ?p ?as of None \<Rightarrow> 0 | Some i \<Rightarrow> i"
    have pos: "?i < length ?as" "\<forall>a\<in>set (take ?i ?as). 0 < ?cap ! a"
      using position_of_first_spec[where p = ?p and xs = ?as] ne by (auto split: option.splits)
    let ?s' = "?s\<lparr>at_node := path_tails s ! ?i, path_arcs := take ?i ?as, path_tails := take ?i (path_tails s)\<rparr>"
    have step: "push_path net limit s = Searching ?s'" using False by (simp add: push_path_def Let_def)
    have at: "path_tails s ! ?i = tail_of net (?as ! ?i)" using i pos(1) by simp
    have "chain net (dlevel s) FLOW_SOURCE (take ?i ?as @ drop ?i ?as) FLOW_SINK" using ch by simp
    then obtain x where x: "chain net (dlevel s) FLOW_SOURCE (take ?i ?as) x" "chain net (dlevel s) x (drop ?i ?as) FLOW_SINK"
      unfolding chain_append by blast
    have "drop ?i ?as = ?as ! ?i # drop (Suc ?i) ?as" using pos(1) by (simp add: Cons_nth_drop_Suc)
    then have x': "x = tail_of net (?as ! ?i)" "?as ! ?i < arc_count net" using x(2) by auto
    have "phase_inv n net limit cap0 lv0 flow0 ?s'"
      unfolding phase_inv_def
      using i x(1) x' at pos(2) f' False net_okD(8)[OF unit_networkD(1)[OF U] x'(2)]
      by (auto simp: take_map dest: in_set_takeD)
    moreover have "phase_work n net limit (Searching ?s') < phase_work n net limit (Searching s)"
    proof -
      have l: "limit - (pushed s + 1) < limit - pushed s" using False by simp
      have w: "arcs_left n net ?s' < all_offsets n net + 1" using arcs_left_le[of n net ?s'] by simp
      show ?thesis using push_work[OF l w, of "n - length (take ?i ?as)" n] by (simp add: phase_work_def)
    qed
    ultimately show ?thesis using step by blast
  qed
qed

lemma phase_invD:
  assumes "phase_inv n net limit cap0 lv0 flow0 s"
  shows "chain net (dlevel s) FLOW_SOURCE (path_arcs s) (at_node s)" "dlevel s ! FLOW_SOURCE = 0"
    "path_tails s = map (tail_of net) (path_arcs s)" "at_node s < n"
    "a \<in> set (path_arcs s) \<Longrightarrow> 0 < residual s ! a" "a \<in> set (path_arcs s) \<Longrightarrow> next_arc s ! (tail_of net a) = a"
    "length (dlevel s) = n" "length (next_arc s) = n" "v < n \<Longrightarrow> dlevel s ! v = lv0 ! v \<or> dlevel s ! v = - 1"
    "v < n \<Longrightarrow> net_first_out net ! v \<le> next_arc s ! v \<and> next_arc s ! v \<le> net_first_out net ! (v + 1)"
    "flow_ok n net (residual s) (pushed s)" "pushed s < limit" "flow0 \<le> pushed s"
    "pushed s = flow0 \<Longrightarrow> nothing_pushed n net cap0 lv0 s" "dlevel s ! at_node s = int (length (path_arcs s))"
  using assms chain_level[of net "dlevel s" FLOW_SOURCE "path_arcs s" "at_node s"] unfolding phase_inv_def by auto

lemma scan_inv:
  assumes U: "unit_network n A net" and inv: "phase_inv n net limit cap0 lv0 flow0 s"
  defines "v \<equiv> at_node s"
  assumes arc: "next_arc s ! v \<le> arc" "arc \<le> net_first_out net ! (v + 1)"
    and skipped: "\<And>a. next_arc s ! v \<le> a \<Longrightarrow> a < arc \<Longrightarrow> \<not> (0 < residual s ! a \<and> dlevel s ! (net_head net ! a) = dlevel s ! v + 1)"
    and path: "\<forall>a\<in>set (path_arcs s). tail_of net a \<noteq> v"
  shows "phase_inv n net limit cap0 lv0 flow0 (s\<lparr>next_arc := (next_arc s)[v := arc]\<rparr>)" (is "phase_inv _ _ _ _ _ _ ?s")
proof -
  note i = phase_invD[OF inv] and D = unit_networkD(1)[OF U]
  have v: "v < n" using i(4) by (simp add: v_def)
  have nx: "next_arc ?s ! x = (if x = v then arc else next_arc s ! x)" if "x < n" for x
    using that i(8) by (simp add: nth_list_update)
  have alive: "dlevel s ! v \<noteq> - 1" using i(15) by (simp add: v_def)
  have np: "nothing_pushed n net cap0 lv0 ?s" if p: "pushed s = flow0"
  proof -
    note q = i(14)[OF p, unfolded nothing_pushed_def]
    have "dlevel s ! (net_head net ! a) = - 1"
      if a: "x < n" "net_first_out net ! x \<le> a" "a < next_arc ?s ! x" "0 < cap0 ! a" "0 \<le> lv0 ! x" "lv0 ! (net_head net ! a) = lv0 ! x + 1" for x a
    proof (cases "x = v \<and> next_arc s ! v \<le> a")
      case True
      then have av: "a < arc" using a(3) nx[OF v] by simp
      have am: "a < arc_count net" using net_okD(9)[OF D v, of a] True a(2) arc(2) av by auto
      have "dlevel s ! (net_head net ! a) \<noteq> dlevel s ! v + 1" using skipped[of a] True av a(4) q by auto
      moreover have "dlevel s ! v = lv0 ! v" using i(9)[OF v] alive by blast
      ultimately show ?thesis using i(9)[OF net_okD(7)[OF D am]] a(6) True by auto
    next
      case False
      then have "a < next_arc s ! x" using a(3) nx[OF a(1)] by (auto split: if_splits)
      then show ?thesis using q a by blast
    qed
    moreover have "next_arc ?s ! x = net_first_out net ! (x + 1)" if "x < n" "0 \<le> lv0 ! x" "dlevel s ! x = - 1" for x
      using q that nx[OF that(1)] alive by auto
    ultimately show ?thesis using q unfolding nothing_pushed_def by simp
  qed
  have tails: "tail_of net a < n" if "a \<in> set (path_arcs s)" for a
    using chain_arcs[OF i(1) that] net_okD(8)[OF D] by blast
  show ?thesis
    unfolding phase_inv_def
  proof (intro conjI ballI allI impI)
    show "next_arc ?s ! tail_of net a = a" if "a \<in> set (path_arcs ?s)" for a
      using that path i(6)[of a] nx[OF tails[of a]] by simp
    show "net_first_out net ! x \<le> next_arc ?s ! x" "next_arc ?s ! x \<le> net_first_out net ! (x + 1)" if "x < n" for x
      using i(10)[OF that] i(10)[OF v] nx[OF that] arc by auto
    show "nothing_pushed n net cap0 lv0 ?s" if "pushed ?s = flow0" using np that by simp
  qed (use i in auto)
qed

lemma retreat_step:
  assumes U: "unit_network n A net" and inv: "phase_inv n net limit cap0 lv0 flow0 s"
    and at: "at_node s \<noteq> FLOW_SINK" "next_arc s ! at_node s = net_first_out net ! (at_node s + 1)" and ne: "path_arcs s \<noteq> []"
  shows "\<exists>s'. retreat s = Searching s' \<and> phase_inv n net limit cap0 lv0 flow0 s'
    \<and> phase_work n net limit (Searching s') < phase_work n net limit (Searching s)"
proof -
  note i = phase_invD[OF inv] and D = unit_networkD(1)[OF U]
  let ?v = "at_node s"
  obtain as a where as: "path_arcs s = as @ [a]" using ne by (metis append_butlast_last_id)
  let ?t = "tail_of net a"
  have ch: "chain net (dlevel s) FLOW_SOURCE as ?t" "a < arc_count net" "net_head net ! a = ?v" "dlevel s ! ?v = dlevel s ! ?t + 1"
    using i(1) unfolding as chain_append by auto
  have t: "?t < n" "?v < n" by (rule net_okD(8)[OF D ch(2)]) (rule i(4))
  have lt: "dlevel s ! ?t = int (length as)" using chain_level[OF ch(1)] i(2) by simp
  have d: "distinct (map (tail_of net) (as @ [a]) @ [?v])" using chain_nodes_distinct[OF U i(1)] as by simp
  have tv: "?t \<noteq> ?v" using ch(4) by auto
  let ?lv = "(dlevel s)[?v := - 1]" and ?nx = "incr_at ?t 1 (next_arc s)"
  let ?s' = "s\<lparr>dlevel := ?lv, path_arcs := as, path_tails := map (tail_of net) as, next_arc := ?nx, at_node := ?t\<rparr>"
  have step: "retreat s = Searching ?s'" using ne i(3) by (simp add: retreat_def Let_def as)
  have nx: "?nx ! x = (if x = ?t then next_arc s ! x + 1 else next_arc s ! x)" if "x < n" for x
    using that i(8) by (simp add: nth_incr_at)
  have lv: "?lv ! x = (if x = ?v then - 1 else dlevel s ! x)" if "x < n" for x
    using that i(7) by (simp add: nth_list_update)
  have a_row: "next_arc s ! ?t = a" "a < net_first_out net ! (?t + 1)"
    using i(6)[of a] net_okD(9)[OF D t(1), of a] ch(2) by (auto simp: as)
  have chain': "chain net ?lv FLOW_SOURCE as ?t"
  proof (rule chain_set_level[OF ch(1)])
    show "?v \<notin> set (map (tail_of net) as)" using d by auto
    show "?v \<notin> (\<lambda>a. net_head net ! a) ` set as" using chain_arcs[OF ch(1)] ch(4) by fastforce
  qed
  have np: "nothing_pushed n net cap0 lv0 ?s'" if p: "pushed s = flow0"
  proof -
    note q = i(14)[OF p, unfolded nothing_pushed_def]
    have "?lv ! (net_head net ! b) = - 1"
      if b: "x < n" "net_first_out net ! x \<le> b" "b < ?nx ! x" "0 < cap0 ! b" "0 \<le> lv0 ! x" "lv0 ! (net_head net ! b) = lv0 ! x + 1" for x b
    proof (cases "b < next_arc s ! x")
      case True
      have "x < n \<Longrightarrow> b < arc_count net" using net_okD(9)[OF D b(1), of b] True b(2) i(10)[OF b(1)] by auto
      then have "net_head net ! b < n" using net_okD(7)[OF D] b(1) by blast
      moreover have "dlevel s ! (net_head net ! b) = - 1" using q b True by blast
      ultimately show ?thesis using lv by simp
    next
      case False
      then have "x = ?t" "b = next_arc s ! ?t" using b(3) nx[OF b(1)] by (auto split: if_splits)
      then show ?thesis using a_row(1) ch(3) lv[OF t(2)] by simp
    qed
    moreover have "?nx ! x = net_first_out net ! (x + 1)" if x: "x < n" "0 \<le> lv0 ! x" "?lv ! x = - 1" for x
    proof (cases "x = ?v")
      case True
      then show ?thesis using nx[OF t(2)] tv at(2) by simp
    next
      case False
      then have "dlevel s ! x = - 1" using x(3) lv[OF x(1)] by simp
      then show ?thesis using q x(1,2) nx[OF x(1)] lt by auto
    qed
    moreover have "?lv ! FLOW_SINK = lv0 ! FLOW_SINK" using q at(1) by simp
    ultimately show ?thesis using q unfolding nothing_pushed_def by simp
  qed
  have inv': "phase_inv n net limit cap0 lv0 flow0 ?s'"
    unfolding phase_inv_def
  proof (intro conjI ballI allI impI)
    show "chain net (dlevel ?s') FLOW_SOURCE (path_arcs ?s') (at_node ?s')" using chain' by simp
    have "FLOW_SOURCE \<noteq> ?v" using i(2) ch(4) lt by auto
    then show "dlevel ?s' ! FLOW_SOURCE = 0" using i(2) by simp
    show "0 < residual ?s' ! b" if "b \<in> set (path_arcs ?s')" for b using that i(5) as by simp
    show "next_arc ?s' ! tail_of net b = b" if "b \<in> set (path_arcs ?s')" for b
    proof -
      have "tail_of net b < n" "tail_of net b \<noteq> ?t" using that d chain_arcs[OF ch(1), of b] net_okD(8)[OF D, of b] by auto
      then show ?thesis using nx i(6)[of b] that as by simp
    qed
    show "dlevel ?s' ! x = lv0 ! x \<or> dlevel ?s' ! x = - 1" if "x < n" for x using i(9)[OF that] lv[OF that] by auto
    show "net_first_out net ! x \<le> next_arc ?s' ! x" "next_arc ?s' ! x \<le> net_first_out net ! (x + 1)" if "x < n" for x
      using i(10)[OF that] nx[OF that] a_row by auto
    show "nothing_pushed n net cap0 lv0 ?s'" if "pushed ?s' = flow0" using np that by simp
  qed (use i t in simp_all)
  have "arcs_left n net ?s' < arcs_left n net s"
    by (rule arcs_left_less[OF _ t(1)]) (use nx t a_row in simp_all)
  then have "(arcs_left n net ?s' + 1) * (n + 1) \<le> arcs_left n net s * (n + 1)" by (intro mult_le_mono1) simp
  then have "phase_work n net limit (Searching ?s') < phase_work n net limit (Searching s)"
    using chain_length[OF U i(1,4)] by (simp add: phase_work_def as)
  then show ?thesis using step inv' by blast
qed

lemma exhausted_pushed:
  assumes U: "unit_network n A net" and inv: "phase_inv n net limit cap0 lv0 flow0 s"
    and at: "at_node s \<noteq> FLOW_SINK" "next_arc s ! at_node s = net_first_out net ! (at_node s + 1)" and e: "path_arcs s = []"
    and lv: "level_ok n net cap0 lv0" "0 \<le> lv0 ! FLOW_SINK"
  shows "flow0 < pushed s"
proof (rule ccontr)
  note i = phase_invD[OF inv] and D = unit_networkD(1)[OF U]
  assume "\<not> flow0 < pushed s"
  then have p: "pushed s = flow0" using i(13) by simp
  note q = i(14)[OF p, unfolded nothing_pushed_def]
  have src: "at_node s = FLOW_SOURCE" using i(1) e by simp
  have dead: "v \<noteq> FLOW_SOURCE \<Longrightarrow> dlevel s ! v = - 1" if "v < n" "0 \<le> lv0 ! v" for v
    using that
  proof (induction "nat (lv0 ! v)" arbitrary: v rule: less_induct)
    case less
    obtain a where a: "a < arc_count net" "0 < cap0 ! a" "net_head net ! a = v" "0 \<le> lv0 ! tail_of net a" "lv0 ! v = lv0 ! tail_of net a + 1"
      using lv(1) less.prems unfolding level_ok_def by blast
    have t: "tail_of net a < n" by (rule net_okD(8)[OF D a(1)])
    have "next_arc s ! tail_of net a = net_first_out net ! (tail_of net a + 1)"
    proof (cases "tail_of net a = FLOW_SOURCE")
      case True
      then show ?thesis using at(2) src by simp
    next
      case False
      have "dlevel s ! tail_of net a = - 1" by (rule less.hyps[OF _ False t a(4)]) (use a(4,5) in simp)
      then show ?thesis using q t a(4) by blast
    qed
    moreover have "net_first_out net ! tail_of net a \<le> a" "a < net_first_out net ! (tail_of net a + 1)"
      using net_okD(9)[OF D t, of a] a(1) by auto
    ultimately show ?case using q t a by metis
  qed
  have "dlevel s ! FLOW_SINK = - 1"
    using dead[OF unit_networkD(3)[OF U] lv(2)] unit_networkD(5)[OF U] by simp
  then show False using q lv(2) by simp
qed

lemma nothing_pushed_cong:
  "residual s' = residual s \<Longrightarrow> next_arc s' = next_arc s \<Longrightarrow> dlevel s' = dlevel s \<Longrightarrow>
    nothing_pushed n net cap0 lv0 s' \<longleftrightarrow> nothing_pushed n net cap0 lv0 s"
  by (simp only: nothing_pushed_def)

definition phase_ok :: "nat \<Rightarrow> flow_network \<Rightarrow> nat \<Rightarrow> nat list \<Rightarrow> int list \<Rightarrow> nat \<Rightarrow> phase \<Rightarrow> bool" where
  "phase_ok n net limit cap0 lv0 flow0 p \<longleftrightarrow> (case p of
     Searching s \<Rightarrow> phase_inv n net limit cap0 lv0 flow0 s
   | Exhausted s \<Rightarrow> flow_ok n net (residual s) (pushed s) \<and> flow0 < pushed s \<and> pushed s < limit
   | Limit_Reached s \<Rightarrow> flow_ok n net (residual s) (pushed s) \<and> limit \<le> pushed s)"

lemma phase_step_ok:
  assumes U: "unit_network n A net" and lv: "level_ok n net cap0 lv0" "0 \<le> lv0 ! FLOW_SINK"
    and inv: "phase_inv n net limit cap0 lv0 flow0 s"
  shows "phase_ok n net limit cap0 lv0 flow0 (phase_step net limit s)
    \<and> phase_work n net limit (phase_step net limit s) < phase_work n net limit (Searching s)"
proof (cases "at_node s = FLOW_SINK")
  case True
  then have "phase_step net limit s = push_path net limit s" by (simp add: phase_step_def)
  then show ?thesis using push_path_step[OF U inv True] by (auto simp: phase_ok_def phase_work_def)
next
  case False
  note i = phase_invD[OF inv] and D = unit_networkD(1)[OF U]
  let ?v = "at_node s" and ?stop = "net_first_out net ! (at_node s + 1)"
  let ?p = "\<lambda>arc. 0 < residual s ! arc \<and> dlevel s ! (net_head net ! arc) = dlevel s ! ?v + 1"
  let ?a = "first_arc ?p (next_arc s ! ?v) ?stop"
  let ?s = "s\<lparr>next_arc := (next_arc s)[?v := ?a]\<rparr>"
  have fa: "next_arc s ! ?v \<le> ?a" "?a \<le> ?stop" "\<And>x. next_arc s ! ?v \<le> x \<Longrightarrow> x < ?a \<Longrightarrow> \<not> ?p x" "?a < ?stop \<Longrightarrow> ?p ?a"
    using first_arc_spec[of "next_arc s ! ?v" ?stop ?p] i(10)[OF i(4)] by auto
  have tails: "\<forall>a\<in>set (path_arcs s). tail_of net a \<noteq> ?v"
  proof
    fix a assume "a \<in> set (path_arcs s)"
    then have "tail_of net a \<in> set (map (tail_of net) (path_arcs s))" by simp
    then show "tail_of net a \<noteq> ?v" using chain_nodes_distinct[OF U i(1)] by (metis distinct_append disjoint_iff list.set_intros(1))
  qed
  have inv': "phase_inv n net limit cap0 lv0 flow0 ?s"
    by (rule scan_inv[OF U inv fa(1-3) tails])
  have nx: "next_arc ?s ! ?v = ?a" using i(4,8) by simp
  have left: "arcs_left n net ?s \<le> arcs_left n net s"
  proof (rule arcs_left_mono, intro allI impI)
    fix x assume "x < n"
    then show "next_arc s ! x \<le> next_arc ?s ! x" using fa(1) nx by (cases "x = ?v") simp_all
  qed
  show ?thesis
  proof (cases "?a < ?stop")
    case True
    let ?s' = "?s\<lparr>path_arcs := path_arcs s @ [?a], path_tails := path_tails s @ [?v], at_node := net_head net ! ?a\<rparr>"
    have step: "phase_step net limit s = Searching ?s'" using False True by (simp add: phase_step_def Let_def)
    have arc: "?a < arc_count net" "tail_of net ?a = ?v" using net_okD(9)[OF D i(4), of ?a] fa(1) i(10)[OF i(4)] True by auto
    have h: "net_head net ! ?a < n" by (rule net_okD(7)[OF D arc(1)])
    note i' = phase_invD[OF inv']
    have ch: "chain net (dlevel s) FLOW_SOURCE (path_arcs s @ [?a]) (net_head net ! ?a)"
      using i(1) arc fa(4)[OF True] unfolding chain_append by auto
    have np: "nothing_pushed n net cap0 lv0 ?s'" if "pushed s = flow0"
      using i'(14) that nothing_pushed_cong[of ?s' ?s] by simp
    have "phase_inv n net limit cap0 lv0 flow0 ?s'"
      unfolding phase_inv_def
    proof (intro conjI ballI allI impI)
      show "0 < residual ?s' ! b" if "b \<in> set (path_arcs ?s')" for b
        using that i(5)[of b] fa(4)[OF True] by auto
      show "next_arc ?s' ! tail_of net b = b" if "b \<in> set (path_arcs ?s')" for b
        using that i'(6)[of b] nx arc(2) by auto
      show "net_first_out net ! x \<le> next_arc ?s' ! x" "next_arc ?s' ! x \<le> net_first_out net ! (x + 1)" if "x < n" for x
        using i'(10)[OF that] by simp_all
      show "nothing_pushed n net cap0 lv0 ?s'" if "pushed ?s' = flow0" using np that by simp
    qed (use i ch arc h in simp_all)
    moreover have "arcs_left n net ?s * (n + 1) \<le> arcs_left n net s * (n + 1)" by (rule mult_le_mono1[OF left])
    then have "phase_work n net limit (Searching ?s') < phase_work n net limit (Searching s)"
      using chain_length[OF U i(1,4)] by (simp add: phase_work_def arcs_left_def)
    ultimately show ?thesis using step by (simp add: phase_ok_def)
  next
    case stop: False
    then have a: "?a = ?stop" using fa(2) by simp
    have step: "phase_step net limit s = retreat ?s" using False stop by (simp add: phase_step_def Let_def)
    have at: "at_node ?s \<noteq> FLOW_SINK" "next_arc ?s ! at_node ?s = net_first_out net ! (at_node ?s + 1)"
      using False nx a by simp_all
    show ?thesis
    proof (cases "path_arcs s = []")
      case True
      then obtain s' where r: "retreat ?s = Exhausted s'" "pushed s' = pushed s" "residual s' = residual s"
        by (simp add: retreat_def Let_def)
      have "flow0 < pushed s" using exhausted_pushed[OF U inv' at _ lv] True by simp
      then show ?thesis using step r i(11,12) by (simp add: phase_ok_def phase_work_def)
    next
      case ne: False
      have "path_arcs ?s \<noteq> []" using ne by simp
      from retreat_step[OF U inv' at this] obtain s' where r: "retreat ?s = Searching s'"
        "phase_inv n net limit cap0 lv0 flow0 s'" "phase_work n net limit (Searching s') < phase_work n net limit (Searching ?s)" by blast
      have "arcs_left n net ?s * (n + 1) \<le> arcs_left n net s * (n + 1)" by (rule mult_le_mono1[OF left])
      then have "phase_work n net limit (Searching ?s) \<le> phase_work n net limit (Searching s)" by (simp add: phase_work_def)
      then show ?thesis using step r by (simp add: phase_ok_def)
    qed
  qed
qed

lemma run_phase_spec:
  assumes U: "unit_network n A net" and lv: "level_ok n net cap0 lv0" "0 \<le> lv0 ! FLOW_SINK"
    and f: "flow_ok n net cap0 flow0" "flow0 < limit"
  shows "\<exists>p. run_phase net limit cap0 lv0 flow0 = Some p \<and> \<not> searching p \<and> phase_ok n net limit cap0 lv0 flow0 p"
proof -
  note D = unit_networkD(1)[OF U]
  let ?s = "phase_start net cap0 lv0 flow0"
  have nx: "next_arc ?s ! v = net_first_out net ! v" if "v < n" for v
    using that net_okD(1,4)[OF D] by (simp add: phase_start_def)
  have offs: "net_first_out net ! v \<le> net_first_out net ! (v + 1)" if "v < n" for v
    using net_okD(12)[OF D that] by simp
  have "phase_inv n net limit cap0 lv0 flow0 ?s"
    unfolding phase_inv_def nothing_pushed_def
    using lv f nx offs net_okD(1,4)[OF D] unit_networkD(4)[OF U]
    by (auto simp: level_ok_def phase_start_def)
  then have start: "phase_ok n net limit cap0 lv0 flow0 (Searching ?s)" by (simp add: phase_ok_def)
  have step: "phase_ok n net limit cap0 lv0 flow0 (advance_phase net limit p)
      \<and> phase_work n net limit (advance_phase net limit p) < phase_work n net limit p"
    if p: "phase_ok n net limit cap0 lv0 flow0 p" "searching p" for p
  proof -
    obtain s where s: "p = Searching s" using p(2) by (cases p) (simp_all add: searching_def)
    then show ?thesis using phase_step_ok[OF U lv, of limit flow0 s] p(1) by (simp add: phase_ok_def advance_phase_def)
  qed
  show ?thesis
    using while_total[where P = "phase_ok n net limit cap0 lv0 flow0" and b = searching and c = "advance_phase net limit"
      and m = "phase_work n net limit", OF start step] unfolding run_phase_def by blast
qed

text \<open>What \<open>max_flow\<close> returns: the flow reached the limit, or the source side of the residual network
  of a flow below the limit.\<close>

definition max_flow_ok :: "nat \<Rightarrow> flow_network \<Rightarrow> nat \<Rightarrow> int list option \<Rightarrow> bool" where
  "max_flow_ok n net limit r \<longleftrightarrow> (case r of
     None \<Rightarrow> \<exists>cap flow. flow_ok n net cap flow \<and> limit \<le> flow
   | Some level \<Rightarrow> \<exists>cap flow. flow_ok n net cap flow \<and> flow < limit \<and> level ! FLOW_SOURCE = 0 \<and> level ! FLOW_SINK < 0
       \<and> levels_closed net cap level {v. v < n \<and> 0 \<le> level ! v})"

lemma flow_loop_spec:
  assumes U: "unit_network n A net"
  shows "flow_ok n net cap flow \<Longrightarrow> flow < limit \<Longrightarrow> \<exists>r. flow_loop net limit cap flow = Some r \<and> max_flow_ok n net limit r"
proof (induction "limit - flow" arbitrary: cap flow rule: less_induct)
  case less
  have "0 < n" using unit_networkD(4)[OF U] by simp
  from bfs_levels_spec[OF unit_networkD(1)[OF U] this, of cap] obtain level where b: "bfs_levels net cap = Some level"
    "level_ok n net cap level" "levels_closed net cap level {v. v < n \<and> 0 \<le> level ! v}" by blast
  show ?case
  proof (cases "level ! FLOW_SINK < 0")
    case True
    then have "flow_loop net limit cap flow = Some (Some level)" using b(1) by (simp add: flow_loop.simps[of net limit cap])
    moreover have "max_flow_ok n net limit (Some level)"
      using less.prems b True unfolding max_flow_ok_def level_ok_def option.case by blast
    ultimately show ?thesis by blast
  next
    case False
    then obtain p where p: "run_phase net limit cap level flow = Some p" "\<not> searching p" "phase_ok n net limit cap level flow p"
      using run_phase_spec[OF U b(2) _ less.prems] by auto
    show ?thesis
    proof (cases p)
      case (Exhausted s)
      then have s: "flow_ok n net (residual s) (pushed s)" "flow < pushed s" "pushed s < limit"
        using p(3) by (auto simp: phase_ok_def)
      have "flow_loop net limit cap flow = flow_loop net limit (residual s) (pushed s)"
        using b(1) p(1) False Exhausted by (simp add: flow_loop.simps[of net limit cap])
      then show ?thesis using less.hyps[OF _ s(1,3)] s by simp
    next
      case (Limit_Reached s)
      then have "flow_loop net limit cap flow = Some None" using b(1) p(1) False by (simp add: flow_loop.simps[of net limit cap])
      moreover have "max_flow_ok n net limit None" using p(3) Limit_Reached by (auto simp: phase_ok_def max_flow_ok_def)
      ultimately show ?thesis by blast
    qed (use p(2) in \<open>simp add: searching_def\<close>)
  qed
qed

lemma zero_flow:
  assumes U: "unit_network n A net"
  shows "flow_ok n net (net_cap net) 0"
proof -
  note D = unit_networkD(1)[OF U]
  have "arc_flow net (net_cap net) a = 0" if "a < arc_count net" for a
    by (rule arc_kind[OF U that]) (simp_all add: arc_flow_def INFINITE_CAPACITY_def)
  then have "excess net (net_cap net) v = 0" for v by (simp add: excess_def)
  moreover have "cap_ok net (net_cap net)"
    unfolding cap_ok_def
  proof (intro conjI allI impI)
    fix a assume a: "a < arc_count net"
    show "net_cap net ! a + net_cap net ! (net_rev net ! a) = 1" if "net_cap net ! a = 1"
      by (rule arc_kind[OF U a]) (use that in \<open>simp_all add: INFINITE_CAPACITY_def\<close>)
  qed (use net_okD(2)[OF D] in simp_all)
  ultimately show ?thesis by (simp add: flow_ok_def)
qed

lemma max_flow_spec:
  assumes U: "unit_network n A net"
  shows "\<exists>r. max_flow net limit = Some r \<and> max_flow_ok n net limit r"
proof (cases "limit = 0")
  case True
  then show ?thesis using zero_flow[OF U] by (auto simp: max_flow_def max_flow_ok_def)
next
  case False
  then show ?thesis using flow_loop_spec[OF U zero_flow[OF U], of limit] by (simp add: max_flow_def)
qed

end
