(* ===== verification/Flow_Split.thy ===== *)
theory Flow_Split
  imports Max_Flow_Phase "HOL-Library.Multiset"
begin

text \<open>
  The three-way splits of nested dissection (\<open>flow_split\<close>, \<open>inertial_flow_split\<close> and
  \<open>coordinate_split\<close> of \<open>crates/ingest/src/acceleration.rs\<close>). The main theorem is that
  \<open>flow_split\<close> finds a vertex separator of least size between the source and the sink nodes, or
  reports rightly that none is smaller than the limit; the others show that every split is a
  partition whose two sides no arc joins. Coordinates are rationals here, so a projection is exact
  where the code rounds to \<open>f32\<close>; the theorems hold for every order of the nodes.
\<close>

section \<open>The code\<close>

record split =
  side_a :: "nat list"
  side_b :: "nat list"
  separator :: "nat list"

definition flow_side :: "role list \<Rightarrow> int list \<Rightarrow> nat \<Rightarrow> role" where
  "flow_side role level v =
     (case role ! v of
        ROLE_SOURCE \<Rightarrow> ROLE_SOURCE
      | ROLE_SINK \<Rightarrow> ROLE_SINK
      | ROLE_INNER \<Rightarrow> if 0 \<le> level ! (3 + 2 * v) then ROLE_SOURCE
          else if 0 \<le> level ! (2 + 2 * v) then ROLE_INNER else ROLE_SINK)"

definition cut_sides :: "role list \<Rightarrow> int list \<Rightarrow> split" where
  "cut_sides role level =
     (let nodes = [0..<length role]
      in \<lparr>side_a = filter (\<lambda>v. flow_side role level v = ROLE_SOURCE) nodes,
          side_b = filter (\<lambda>v. flow_side role level v = ROLE_SINK) nodes,
          separator = filter (\<lambda>v. flow_side role level v = ROLE_INNER) nodes\<rparr>)"

definition flow_split :: "cell \<Rightarrow> role list \<Rightarrow> nat \<Rightarrow> split option option" where
  "flow_split c role limit =
     (case build_flow_network c role of
        None \<Rightarrow> Some None
      | Some net \<Rightarrow> map_option (map_option (cut_sides role)) (max_flow net limit))"

section \<open>Separators\<close>

definition separates :: "cell \<Rightarrow> role list \<Rightarrow> nat set \<Rightarrow> bool" where
  "separates c role S \<longleftrightarrow> S \<subseteq> {v. v < cell_len c \<and> role ! v = ROLE_INNER}
     \<and> (\<forall>s<cell_len c. role ! s = ROLE_SOURCE \<longrightarrow> (\<forall>t. role ! t = ROLE_SINK \<longrightarrow>
          (s, t) \<notin> {(x, y). x < cell_len c \<and> y \<in> set (neighbours c x) \<and> y \<notin> S}\<^sup>*))"

text \<open>A partition of the cell whose two sides no arc joins.\<close>

definition split_ok :: "cell \<Rightarrow> split \<Rightarrow> bool" where
  "split_ok c p \<longleftrightarrow> sorted_wrt (<) (side_a p) \<and> sorted_wrt (<) (side_b p) \<and> sorted_wrt (<) (separator p)
     \<and> set (side_a p) \<union> set (side_b p) \<union> set (separator p) = {0..<cell_len c}
     \<and> set (side_a p) \<inter> set (side_b p) = {} \<and> set (side_a p) \<inter> set (separator p) = {} \<and> set (side_b p) \<inter> set (separator p) = {}
     \<and> (\<forall>u\<in>set (side_a p). \<forall>v\<in>set (side_b p). v \<notin> set (neighbours c u))"

lemma even_odd_node: "2 + 2 * u \<noteq> 3 + 2 * (v :: nat)" "3 + 2 * u \<noteq> 2 + 2 * (v :: nat)"
  by presburger+

lemma flow_arcs_iff:
  "(t, h, k) \<in> flow_arcs c role \<longleftrightarrow>
     (\<exists>v<cell_len c. role ! v = ROLE_INNER \<and> t = 2 + 2 * v \<and> h = 3 + 2 * v \<and> k = 1)
     \<or> (\<exists>u<cell_len c. \<exists>v\<in>set (neighbours c u). (t, h, k) \<in> pair_arc role u v)"
  unfolding flow_arcs_def by auto

lemma gated_flow_arcs: "gated (flow_arcs c role)"
  unfolding gated_def
proof (intro allI impI)
  fix t h k assume a: "(t, h, k) \<in> flow_arcs c role"
  have into: "t' = 2 + 2 * u \<and> k' = 1" if "(t', 3 + 2 * u, k') \<in> flow_arcs c role" for t' u k'
    using that even_odd_node unfolding flow_arcs_iff pair_arc_iff FLOW_SINK_def by auto
  have out: "h' = 3 + 2 * v \<and> k' = 1" if "(2 + 2 * v, h', k') \<in> flow_arcs c role" for h' v k'
    using that even_odd_node unfolding flow_arcs_iff pair_arc_iff FLOW_SOURCE_def by auto
  have exit: "3 + 2 * u \<noteq> FLOW_SOURCE" "3 + 2 * u \<noteq> FLOW_SINK" "2 + 2 * u \<noteq> FLOW_SOURCE" "2 + 2 * u \<noteq> FLOW_SINK" for u
    by (simp_all add: FLOW_SOURCE_def FLOW_SINK_def)
  from a consider "k = 1" | u where "k = INFINITE_CAPACITY" "t = 3 + 2 * u" | v where "k = INFINITE_CAPACITY" "h = 2 + 2 * v"
    unfolding flow_arcs_iff pair_arc_iff by blast
  then show "k = 1 \<or> k = INFINITE_CAPACITY
     \<and> (t \<noteq> FLOW_SOURCE \<and> t \<noteq> FLOW_SINK \<and> (\<exists>u. \<forall>t' k'. (t', t, k') \<in> flow_arcs c role \<longrightarrow> t' = u \<and> k' = 1)
        \<or> h \<noteq> FLOW_SOURCE \<and> h \<noteq> FLOW_SINK \<and> (\<exists>u. \<forall>h' k'. (h, h', k') \<in> flow_arcs c role \<longrightarrow> h' = u \<and> k' = 1))"
  proof cases
    case 1
    then show ?thesis by blast
  next
    case 2
    have "\<forall>t' k'. (t', t, k') \<in> flow_arcs c role \<longrightarrow> t' = 2 + 2 * u \<and> k' = 1" using into 2(2) by blast
    then show ?thesis using 2 exit by metis
  next
    case 3
    have "\<forall>h' k'. (h, h', k') \<in> flow_arcs c role \<longrightarrow> h' = 3 + 2 * v \<and> k' = 1" using out 3(2) by blast
    then show ?thesis using 3 exit by metis
  qed
qed

lemma built_network:
  assumes "wf_cell c" "build_flow_network c role = Some net"
  shows "unit_network (2 + 2 * cell_len c) (flow_arcs c role) net" "\<not> touching c role"
  using build_flow_network_spec[OF assms(1), of role] assms(2) gated_flow_arcs
  by (simp_all add: unit_network_def FLOW_SINK_def)

lemma finite_separator: "separates c role S \<Longrightarrow> finite S"
  by (rule finite_subset[of S "{0..<cell_len c}"]) (auto simp: separates_def)

text \<open>The unit arcs among the arcs that leave a set of flow nodes, counted by their inner nodes.\<close>

lemma leaving_units:
  assumes U: "unit_network n (flow_arcs c role) net"
  shows "inj_on (tail_of net) {a. a < arc_count net \<and> net_cap net ! a = 1}"
    "a < arc_count net \<Longrightarrow> net_cap net ! a = 1 \<Longrightarrow> \<exists>v<cell_len c. role ! v = ROLE_INNER \<and> tail_of net a = 2 + 2 * v \<and> net_head net ! a = 3 + 2 * v"
proof -
  show unit: "\<exists>v<cell_len c. role ! v = ROLE_INNER \<and> tail_of net a = 2 + 2 * v \<and> net_head net ! a = 3 + 2 * v"
    if "a < arc_count net" "net_cap net ! a = 1" for a
  proof -
    have "(tail_of net a, net_head net ! a, 1) \<in> flow_arcs c role"
      by (rule arc_kind[OF U that(1)]) (use that(2) in \<open>simp_all add: INFINITE_CAPACITY_def\<close>)
    then show ?thesis unfolding flow_arcs_iff pair_arc_iff by (auto simp: INFINITE_CAPACITY_def)
  qed
  show "inj_on (tail_of net) {a. a < arc_count net \<and> net_cap net ! a = 1}"
  proof (rule inj_onI)
    fix a b assume ab: "a \<in> {a. a < arc_count net \<and> net_cap net ! a = 1}" "b \<in> {a. a < arc_count net \<and> net_cap net ! a = 1}" "tail_of net a = tail_of net b"
    obtain v w where "tail_of net a = 2 + 2 * v" "net_head net ! a = 3 + 2 * v" "tail_of net b = 2 + 2 * w" "net_head net ! b = 3 + 2 * w"
      using unit[of a] unit[of b] ab by auto
    then show "a = b" using ab unit_unique[OF U, of a b] by auto
  qed
qed

lemma flow_at_most_separator:
  assumes wf: "wf_cell c" and U: "unit_network (2 + 2 * cell_len c) (flow_arcs c role) net"
    and f: "flow_ok (2 + 2 * cell_len c) net cap flow" and S: "separates c role S"
  shows "flow \<le> card S"
proof -
  let ?n = "cell_len c" and ?r = "{(x, y). x < cell_len c \<and> y \<in> set (neighbours c x) \<and> y \<notin> S}"
  note D = unit_networkD(1)[OF U]
  define R where "R = {v. v < ?n \<and> (\<exists>s<?n. role ! s = ROLE_SOURCE \<and> (s, v) \<in> ?r\<^sup>*)}"
  have no_sink: "role ! v \<noteq> ROLE_SINK" if "v \<in> R" for v using that S by (auto simp: R_def separates_def)
  have source_R: "v \<in> R" if "v < ?n" "role ! v = ROLE_SOURCE" for v using that by (auto simp: R_def)
  have step_R: "v \<in> R" if u: "u \<in> R" and v: "v \<in> set (neighbours c u)" "v \<notin> S" for u v
  proof -
    obtain s where s: "u < ?n" "s < ?n" "role ! s = ROLE_SOURCE" "(s, u) \<in> ?r\<^sup>*" using u by (auto simp: R_def)
    then have "(s, v) \<in> ?r\<^sup>*" using v by (intro rtrancl_into_rtrancl[OF s(4)]) simp
    then show ?thesis using s wf_cellD(3)[OF wf s(1) v(1)] by (auto simp: R_def)
  qed
  define In where "In = {v. v < ?n \<and> role ! v = ROLE_INNER \<and> (v \<in> R \<or> (\<exists>u\<in>R. v \<in> set (neighbours c u)))}"
  let ?X = "{FLOW_SOURCE} \<union> (\<lambda>v. 2 + 2 * v) ` In \<union> (\<lambda>v. 3 + 2 * v) ` {v \<in> R. role ! v = ROLE_INNER}"
  have X: "?X \<subseteq> {0..<2 + 2 * ?n}" "FLOW_SOURCE \<in> ?X" "FLOW_SINK \<notin> ?X"
    by (auto simp: In_def R_def FLOW_SOURCE_def FLOW_SINK_def)
  have inX: "2 + 2 * v \<in> ?X \<longleftrightarrow> v \<in> In" "3 + 2 * v \<in> ?X \<longleftrightarrow> v \<in> R \<and> role ! v = ROLE_INNER" for v
    using even_odd_node by (auto simp: FLOW_SOURCE_def image_iff)
  let ?L = "{a. a < arc_count net \<and> tail_of net a \<in> ?X \<and> net_head net ! a \<notin> ?X}"
  let ?LU = "{a \<in> ?L. net_cap net ! a = 1}"
  have arc: "arc_flow net cap a \<le> (if net_cap net ! a = 1 then 1 else 0)" if a: "a \<in> ?L" for a
  proof (rule arc_kind[OF U, of a])
    show "a < arc_count net" using a by simp
    assume k: "net_cap net ! a = 1"
    have "cap ! a + cap ! (net_rev net ! a) = 1" using f a k unfolding flow_ok_def cap_ok_def by blast
    then show ?thesis using k by (simp add: arc_flow_def)
  next
    assume "(tail_of net a, net_head net ! a, INFINITE_CAPACITY) \<in> flow_arcs c role"
    then obtain u v where uv: "u < ?n" "v \<in> set (neighbours c u)"
      "role ! u = ROLE_INNER \<and> role ! v = ROLE_INNER \<and> tail_of net a = 3 + 2 * u \<and> net_head net ! a = 2 + 2 * v
        \<or> role ! u = ROLE_SOURCE \<and> role ! v = ROLE_INNER \<and> tail_of net a = FLOW_SOURCE \<and> net_head net ! a = 2 + 2 * v
        \<or> role ! u = ROLE_INNER \<and> role ! v = ROLE_SINK \<and> tail_of net a = 3 + 2 * u \<and> net_head net ! a = FLOW_SINK"
      unfolding flow_arcs_iff pair_arc_iff by (auto simp: INFINITE_CAPACITY_def)
    have v: "v < ?n" by (rule wf_cellD(3)[OF wf uv(1,2)])
    have tail: "tail_of net a \<in> ?X" and head: "net_head net ! a \<notin> ?X" using a by auto
    from uv(3) have uR: "u \<in> R"
    proof (elim disjE conjE)
      assume "tail_of net a = 3 + 2 * u"
      then have "3 + 2 * u \<in> ?X" using tail by (simp only:)
      then show "u \<in> R" unfolding inX by blast
    next
      assume "role ! u = ROLE_SOURCE"
      then show "u \<in> R" using source_R uv(1) by blast
    next
      assume "tail_of net a = 3 + 2 * u"
      then have "3 + 2 * u \<in> ?X" using tail by (simp only:)
      then show "u \<in> R" unfolding inX by blast
    qed
    have "v \<in> In" if "role ! v = ROLE_INNER" using that v uR uv(2) by (auto simp: In_def)
    moreover have "role ! v \<noteq> ROLE_SINK"
    proof
      assume s: "role ! v = ROLE_SINK"
      then have "v \<notin> S" using S by (auto simp: separates_def)
      then show False using step_R[OF uR uv(2)] no_sink s by blast
    qed
    moreover have "v \<notin> In" if "net_head net ! a = 2 + 2 * v"
    proof
      assume "v \<in> In"
      then have "2 + 2 * v \<in> ?X" unfolding inX .
      then have "net_head net ! a \<in> ?X" by (simp only: that)
      then show False using head by blast
    qed
    ultimately have False using uv(3) by blast
    then show ?thesis ..
  qed (simp_all add: arc_flow_def)
  have "int flow = (\<Sum>a\<in>?L. arc_flow net cap a)" by (rule flow_across[OF U f X])
  also have "\<dots> \<le> (\<Sum>a\<in>?L. if net_cap net ! a = 1 then 1 else 0)" by (rule sum_mono) (rule arc)
  also have "\<dots> = int (card ?LU)" by (simp add: sum.If_cases Int_def conj_commute conj_left_commute)
  finally have "flow \<le> card ?LU" by simp
  also have "card ?LU = card (tail_of net ` ?LU)"
    by (rule card_image[symmetric]) (rule inj_on_subset[OF leaving_units(1)[OF U]], auto)
  also have "\<dots> \<le> card ((\<lambda>v. 2 + 2 * v) ` S)"
  proof (rule card_mono)
    show "finite ((\<lambda>v. 2 + 2 * v) ` S)" using finite_separator[OF S] by simp
    show "tail_of net ` ?LU \<subseteq> (\<lambda>v. 2 + 2 * v) ` S"
    proof (rule image_subsetI)
      fix a assume a: "a \<in> ?LU"
      obtain v where v: "v < ?n" "role ! v = ROLE_INNER" "tail_of net a = 2 + 2 * v" "net_head net ! a = 3 + 2 * v"
        using leaving_units(2)[OF U, of a] a by auto
      then have "v \<in> In" "v \<notin> R" using a inX by auto
      then have "v \<in> S" using step_R by (auto simp: In_def)
      then show "tail_of net a \<in> (\<lambda>v. 2 + 2 * v) ` S" using v by blast
    qed
  qed
  also have "\<dots> = card S" by (rule card_image) (auto simp: inj_on_def)
  finally show ?thesis .
qed

section \<open>The residual levels are a minimum cut\<close>

lemma partition_split_ok:
  assumes "\<And>u v. u < cell_len c \<Longrightarrow> v < cell_len c \<Longrightarrow> f u = ROLE_SOURCE \<Longrightarrow> f v = ROLE_SINK \<Longrightarrow> v \<notin> set (neighbours c u)"
  shows "split_ok c \<lparr>side_a = filter (\<lambda>v. f v = ROLE_SOURCE) [0..<cell_len c],
    side_b = filter (\<lambda>v. f v = ROLE_SINK) [0..<cell_len c], separator = filter (\<lambda>v. f v = ROLE_INNER) [0..<cell_len c]\<rparr>"
proof -
  have sorted: "sorted_wrt (<) (filter P [0..<cell_len c])" for P by (rule sorted_wrt_filter) simp
  have all: "{v. v < cell_len c \<and> f v = ROLE_SOURCE} \<union> {v. v < cell_len c \<and> f v = ROLE_SINK} \<union> {v. v < cell_len c \<and> f v = ROLE_INNER} = {0..<cell_len c}"
    by (rule set_eqI, case_tac "f x") auto
  have sets: "set (filter (\<lambda>v. f v = x) [0..<cell_len c]) = {v. v < cell_len c \<and> f v = x}" for x
    by auto
  show ?thesis
    unfolding split_ok_def split.simps sets
    by (intro conjI sorted all) (use assms in auto)
qed

lemma split_ok_cut_sides:
  assumes "length role = cell_len c"
    and "\<And>u v. u < cell_len c \<Longrightarrow> v < cell_len c \<Longrightarrow> flow_side role level u = ROLE_SOURCE \<Longrightarrow> flow_side role level v = ROLE_SINK \<Longrightarrow> v \<notin> set (neighbours c u)"
  shows "split_ok c (cut_sides role level)"
  unfolding cut_sides_def Let_def assms(1) by (rule partition_split_ok) (rule assms(2))

lemma set_cut_sides:
  assumes "length role = n"
  shows "set (side_a (cut_sides role level)) = {v. v < n \<and> flow_side role level v = ROLE_SOURCE}"
    "set (side_b (cut_sides role level)) = {v. v < n \<and> flow_side role level v = ROLE_SINK}"
    "set (separator (cut_sides role level)) = {v. v < n \<and> flow_side role level v = ROLE_INNER}"
    "length (separator (cut_sides role level)) = card {v. v < n \<and> flow_side role level v = ROLE_INNER}"
proof -
  show "set (side_a (cut_sides role level)) = {v. v < n \<and> flow_side role level v = ROLE_SOURCE}"
    "set (side_b (cut_sides role level)) = {v. v < n \<and> flow_side role level v = ROLE_SINK}"
    and s: "set (separator (cut_sides role level)) = {v. v < n \<and> flow_side role level v = ROLE_INNER}"
    by (auto simp: cut_sides_def Let_def assms)
  have "distinct (separator (cut_sides role level))" by (simp add: cut_sides_def Let_def)
  from distinct_card[OF this] show "length (separator (cut_sides role level)) = card {v. v < n \<and> flow_side role level v = ROLE_INNER}"
    unfolding s by simp
qed

lemma separates_by_sides:
  assumes len: "length role = cell_len c" and wf: "wf_cell c" and ok: "split_ok c p"
    and sep: "set (separator p) \<subseteq> {v. role ! v = ROLE_INNER}"
    and sides: "\<And>v. v < cell_len c \<Longrightarrow> role ! v = ROLE_SOURCE \<Longrightarrow> v \<in> set (side_a p)" "\<And>v. v < cell_len c \<Longrightarrow> role ! v = ROLE_SINK \<Longrightarrow> v \<in> set (side_b p)"
  shows "separates c role (set (separator p))"
  unfolding separates_def
proof (intro conjI allI impI)
  have parts: "set (side_a p) \<union> set (side_b p) \<union> set (separator p) = {0..<cell_len c}" "set (side_a p) \<inter> set (side_b p) = {}"
    and no_arc: "\<And>u v. u \<in> set (side_a p) \<Longrightarrow> v \<in> set (side_b p) \<Longrightarrow> v \<notin> set (neighbours c u)"
    using ok unfolding split_ok_def by blast+
  show "set (separator p) \<subseteq> {v. v < cell_len c \<and> role ! v = ROLE_INNER}" using parts sep by auto
  let ?r = "{(x, y). x < cell_len c \<and> y \<in> set (neighbours c x) \<and> y \<notin> set (separator p)}"
  fix s t assume s: "s < cell_len c" "role ! s = ROLE_SOURCE" and t: "role ! t = ROLE_SINK"
  have side: "v \<in> set (side_a p)" if "(s, v) \<in> ?r\<^sup>*" for v
    using that
  proof (induction rule: rtrancl_induct)
    case base
    then show ?case using sides s by blast
  next
    case (step y z)
    have "z < cell_len c" using wf_cellD(3)[OF wf, of y z] step.hyps(2) by simp
    then have "z \<in> set (side_a p) \<union> set (side_b p)" using parts step.hyps(2) by auto
    then show ?case using no_arc[OF step.IH, of z] step.hyps(2) by auto
  qed
  show "(s, t) \<notin> ?r\<^sup>*"
  proof
    assume "(s, t) \<in> ?r\<^sup>*"
    then have "t \<in> set (side_a p)" by (rule side)
    then show False using sides(2)[OF _ t] parts by fastforce
  qed
qed


lemma arc_of_triple:
  assumes "net_ok n A net" "(t, h, k) \<in> A"
  obtains a where "a < arc_count net" "tail_of net a = t" "net_head net ! a = h" "net_cap net ! a = k"
  using assms unfolding net_ok_def by blast

lemma flow_side_inner: "flow_side role level v = ROLE_INNER \<longleftrightarrow>
    role ! v = ROLE_INNER \<and> 0 \<le> level ! (2 + 2 * v) \<and> \<not> 0 \<le> level ! (3 + 2 * v)"
  by (cases "role ! v") (simp_all add: flow_side_def)

lemma level_cut:
  assumes wf: "wf_cell c" and len: "length role = cell_len c" and b: "build_flow_network c role = Some net"
    and f: "flow_ok (2 + 2 * cell_len c) net cap flow" and source: "level ! FLOW_SOURCE = 0" and sink: "level ! FLOW_SINK < 0"
    and closed: "levels_closed net cap level {v. v < 2 + 2 * cell_len c \<and> 0 \<le> level ! v}"
  shows "split_ok c (cut_sides role level)" "flow = length (separator (cut_sides role level))"
proof -
  let ?n = "cell_len c" and ?V = "{v. v < 2 + 2 * cell_len c \<and> 0 \<le> level ! v}"
  note U = built_network(1)[OF wf b] and apart = built_network(2)[OF wf b]
  note D = unit_networkD(1)[OF U]
  have caps: "cap_ok net cap" using f by (simp add: flow_ok_def)
  have cl: "0 \<le> level ! h" if "(t, h, INFINITE_CAPACITY) \<in> flow_arcs c role" "t < 2 + 2 * ?n" "0 \<le> level ! t" for t h
  proof -
    from arc_of_triple[OF D that(1)] obtain a where
      a: "a < arc_count net" "tail_of net a = t" "net_head net ! a = h" "net_cap net ! a = INFINITE_CAPACITY" .
    have "cap ! a = INFINITE_CAPACITY" using caps a unfolding cap_ok_def by blast
    then show ?thesis using closed a that unfolding levels_closed_def by (auto simp: INFINITE_CAPACITY_def)
  qed
  have join: "flow_side role level v \<noteq> ROLE_SINK" if u: "u < ?n" "v < ?n" "flow_side role level u = ROLE_SOURCE" and v: "v \<in> set (neighbours c u)" for u v
  proof
    assume vs: "flow_side role level v = ROLE_SINK"
    have uA: "role ! u = ROLE_SOURCE \<or> role ! u = ROLE_INNER \<and> 0 \<le> level ! (3 + 2 * u)"
      using u(3) by (cases "role ! u") (auto simp: flow_side_def split: if_splits)
    have vB: "role ! v = ROLE_SINK \<or> role ! v = ROLE_INNER \<and> level ! (2 + 2 * v) < 0"
      using vs by (cases "role ! v") (auto simp: flow_side_def split: if_splits)
    have arcs: "(t, h, k) \<in> flow_arcs c role" if "(t, h, k) \<in> pair_arc role u v" for t h k
      unfolding flow_arcs_iff using that u(1) v by blast
    have exit: "3 + 2 * u < 2 + 2 * ?n" using u(1) by simp
    have "\<not> (role ! u = ROLE_SOURCE \<and> role ! v = ROLE_SINK)" using apart u(1) v by (auto simp: touching_def)
    then consider "role ! u = ROLE_SOURCE" "role ! v = ROLE_INNER" "level ! (2 + 2 * v) < 0"
      | "role ! u = ROLE_INNER" "0 \<le> level ! (3 + 2 * u)" "role ! v = ROLE_SINK"
      | "role ! u = ROLE_INNER" "0 \<le> level ! (3 + 2 * u)" "role ! v = ROLE_INNER" "level ! (2 + 2 * v) < 0"
      using uA vB by blast
    then show False
    proof cases
      case 1
      have "(FLOW_SOURCE, 2 + 2 * v, INFINITE_CAPACITY) \<in> flow_arcs c role" using 1 by (intro arcs) (simp add: pair_arc_def)
      from cl[OF this] show False using source 1(3) by (simp add: FLOW_SOURCE_def)
    next
      case 2
      have "(3 + 2 * u, FLOW_SINK, INFINITE_CAPACITY) \<in> flow_arcs c role" using 2 by (intro arcs) (simp add: pair_arc_def)
      from cl[OF this exit 2(2)] show False using sink by simp
    next
      case 3
      have "(3 + 2 * u, 2 + 2 * v, INFINITE_CAPACITY) \<in> flow_arcs c role" using 3 by (intro arcs) (simp add: pair_arc_def)
      from cl[OF this exit 3(2)] show False using 3(4) by simp
    qed
  qed
  show ok: "split_ok c (cut_sides role level)" by (rule split_ok_cut_sides[OF len]) (use join in blast)
  let ?L = "{a. a < arc_count net \<and> tail_of net a \<in> ?V \<and> net_head net ! a \<notin> ?V}"
  let ?LU = "{a \<in> ?L. net_cap net ! a = 1}"
  have arc: "arc_flow net cap a = (if net_cap net ! a = 1 then 1 else 0)" if a: "a \<in> ?L" for a
  proof -
    have ac: "a < arc_count net" using a by simp
    have "net_head net ! a < 2 + 2 * ?n" using net_okD(7)[OF D ac] .
    then have "level ! (net_head net ! a) < 0" using a by auto
    then have zero: "cap ! a = 0" using closed a unfolding levels_closed_def by fastforce
    show ?thesis
    proof (rule arc_kind[OF U ac])
      assume k: "net_cap net ! a = 1"
      have "cap ! a + cap ! (net_rev net ! a) = 1" using caps ac k unfolding cap_ok_def by blast
      then show ?thesis using zero k by (simp add: arc_flow_def)
    next
      assume k: "net_cap net ! a = INFINITE_CAPACITY"
      have "cap ! a = INFINITE_CAPACITY" using caps ac k unfolding cap_ok_def by blast
      then show ?thesis using zero by (simp add: INFINITE_CAPACITY_def)
    qed (simp_all add: arc_flow_def zero)
  qed
  have V: "?V \<subseteq> {0..<2 + 2 * ?n}" "FLOW_SOURCE \<in> ?V" "FLOW_SINK \<notin> ?V" using source sink by (auto simp: FLOW_SOURCE_def)
  have "int flow = (\<Sum>a\<in>?L. arc_flow net cap a)" by (rule flow_across[OF U f V])
  also have "\<dots> = (\<Sum>a\<in>?L. if net_cap net ! a = 1 then 1 else 0)" by (rule sum.cong) (simp_all add: arc)
  also have "\<dots> = int (card ?LU)" by (simp add: sum.If_cases Int_def conj_commute conj_left_commute)
  finally have "flow = card ?LU" by simp
  also have "\<dots> = card (tail_of net ` ?LU)"
    by (rule card_image[symmetric]) (rule inj_on_subset[OF leaving_units(1)[OF U]], auto)
  also have "tail_of net ` ?LU = (\<lambda>v. 2 + 2 * v) ` {v. v < ?n \<and> flow_side role level v = ROLE_INNER}"
  proof (intro equalityI image_subsetI)
    fix a assume a: "a \<in> ?LU"
    obtain v where v: "v < ?n" "role ! v = ROLE_INNER" "tail_of net a = 2 + 2 * v" "net_head net ! a = 3 + 2 * v"
      using leaving_units(2)[OF U, of a] a by auto
    have "0 \<le> level ! (2 + 2 * v)" "level ! (3 + 2 * v) < 0" using a v by auto
    then have "flow_side role level v = ROLE_INNER" using v(2) by (simp add: flow_side_def)
    then show "tail_of net a \<in> (\<lambda>v. 2 + 2 * v) ` {v. v < ?n \<and> flow_side role level v = ROLE_INNER}" using v by blast
  next
    fix v assume v: "v \<in> {v. v < ?n \<and> flow_side role level v = ROLE_INNER}"
    then have i: "role ! v = ROLE_INNER" "0 \<le> level ! (2 + 2 * v)" "level ! (3 + 2 * v) < 0"
      unfolding mem_Collect_eq flow_side_inner by simp_all
    have "(2 + 2 * v, 3 + 2 * v, 1) \<in> flow_arcs c role" unfolding flow_arcs_iff using v i(1) by blast
    from arc_of_triple[OF D this] obtain a where
      a: "a < arc_count net" "tail_of net a = 2 + 2 * v" "net_head net ! a = 3 + 2 * v" "net_cap net ! a = 1" .
    have "2 + 2 * v \<in> ?V" "3 + 2 * v \<notin> ?V" using v i by auto
    then have "a \<in> ?LU" using a by (simp only: mem_Collect_eq simp_thms)
    then show "2 + 2 * v \<in> tail_of net ` ?LU" unfolding a(2)[symmetric] by (rule imageI)
  qed
  also have "card \<dots> = card {v. v < ?n \<and> flow_side role level v = ROLE_INNER}" by (rule card_image) (auto simp: inj_on_def)
  also have "\<dots> = length (separator (cut_sides role level))" by (rule set_cut_sides(4)[OF len, symmetric])
  finally show "flow = length (separator (cut_sides role level))" .
qed

lemma flow_split_spec:
  assumes wf: "wf_cell c" and len: "length role = cell_len c"
  shows "\<exists>r. flow_split c role limit = Some r \<and>
    (case r of
       None \<Rightarrow> \<forall>S. separates c role S \<longrightarrow> limit \<le> card S
     | Some p \<Rightarrow> split_ok c p \<and> separates c role (set (separator p)) \<and> length (separator p) < limit
         \<and> (\<forall>S. separates c role S \<longrightarrow> length (separator p) \<le> card S)
         \<and> (\<forall>v<cell_len c. (role ! v = ROLE_SOURCE \<longrightarrow> v \<in> set (side_a p)) \<and> (role ! v = ROLE_SINK \<longrightarrow> v \<in> set (side_b p))))"
proof (cases "build_flow_network c role")
  case None
  then have "touching c role" using build_flow_network_spec[OF wf, of role] by simp
  then obtain u v where uv: "u < cell_len c" "v \<in> set (neighbours c u)" "role ! u = ROLE_SOURCE" "role ! v = ROLE_SINK"
    by (auto simp: touching_def)
  have "\<not> separates c role S" for S
  proof
    assume S: "separates c role S"
    then have "v \<notin> S" using uv(4) by (auto simp: separates_def)
    then have "(u, v) \<in> {(x, y). x < cell_len c \<and> y \<in> set (neighbours c x) \<and> y \<notin> S}\<^sup>*" using uv by blast
    then show False using S uv unfolding separates_def by blast
  qed
  then show ?thesis using None by (simp add: flow_split_def)
next
  case (Some net)
  note U = built_network(1)[OF wf Some]
  obtain r where r: "max_flow net limit = Some r" "max_flow_ok (2 + 2 * cell_len c) net limit r"
    using max_flow_spec[OF U] by blast
  show ?thesis
  proof (cases r)
    case None
    then show ?thesis using r Some flow_at_most_separator[OF wf U]
      by (force simp: flow_split_def max_flow_ok_def intro: order_trans)
  next
    case level: (Some level)
    then obtain cap flow where f: "flow_ok (2 + 2 * cell_len c) net cap flow" "flow < limit" "level ! FLOW_SOURCE = 0" "level ! FLOW_SINK < 0"
      "levels_closed net cap level {v. v < 2 + 2 * cell_len c \<and> 0 \<le> level ! v}"
      using r(2) by (auto simp: max_flow_ok_def)
    let ?p = "cut_sides role level"
    note cut = level_cut[OF wf len Some f(1,3,4,5)]
    have sides: "v \<in> set (side_a ?p)" if "v < cell_len c" "role ! v = ROLE_SOURCE" for v
      using that by (simp add: set_cut_sides[OF len] flow_side_def)
    have sides': "v \<in> set (side_b ?p)" if "v < cell_len c" "role ! v = ROLE_SINK" for v
      using that by (simp add: set_cut_sides[OF len] flow_side_def)
    have "set (separator ?p) \<subseteq> {v. role ! v = ROLE_INNER}"
      unfolding set_cut_sides[OF len] flow_side_inner by blast
    then have "separates c role (set (separator ?p))"
      by (rule separates_by_sides[OF len wf cut(1) _ sides sides'])
    moreover have "flow_split c role limit = Some (Some ?p)" using Some r(1) level by (simp add: flow_split_def)
    ultimately show ?thesis using cut f(2) flow_at_most_separator[OF wf U f(1)] sides sides' by auto
  qed
qed

text \<open>C32: The vertex separator that \<open>flow_split\<close> returns is one of least size. Dinic's algorithm
  returns on every cell and role assignment. When it finds a split below the limit, the sides hold
  the source and the sink nodes, no arc joins them, and no set of inner nodes that cuts every path
  from a source to a sink is smaller than the separator. When it gives up, every such set has at
  least \<open>limit\<close> nodes (and there is none when a source touches a sink).\<close>

theorem flow_split_minimum:
  assumes wf: "wf_cell c" and len: "length role = cell_len c"
  shows "\<exists>r. flow_split c role limit = Some r \<and>
    (case r of
       None \<Rightarrow> \<forall>S. separates c role S \<longrightarrow> limit \<le> card S
     | Some p \<Rightarrow> split_ok c p \<and> separates c role (set (separator p)) \<and> length (separator p) < limit
         \<and> (\<forall>S. separates c role S \<longrightarrow> length (separator p) \<le> card S)
         \<and> (\<forall>v<cell_len c. (role ! v = ROLE_SOURCE \<longrightarrow> v \<in> set (side_a p)) \<and> (role ! v = ROLE_SINK \<longrightarrow> v \<in> set (side_b p))))"
  by (rule flow_split_spec[OF wf len])

theorem flow_split_minimum_witness:
  "{S. separates witness_cell [ROLE_SOURCE, ROLE_INNER, ROLE_INNER, ROLE_SINK] S \<and> card S < 2} = {}"
proof -
  let ?role = "[ROLE_SOURCE, ROLE_INNER, ROLE_INNER, ROLE_SINK]"
  have r: "flow_split witness_cell ?role 4 = Some (Some \<lparr>side_a = [0], side_b = [3], separator = [1, 2]\<rparr>)"
    by code_simp
  have "length ?role = cell_len witness_cell" by simp
  from flow_split_minimum[OF wf_witness_cell this, of 4] show ?thesis unfolding r by (auto simp: not_less)
qed

end
