(* ===== verification/Inertial.thy ===== *)
theory Inertial
  imports Flow_Split "HOL-Library.Product_Lexorder"
begin

text \<open>
  Choosing a split (\<open>inertial_flow_split\<close> and \<open>coordinate_split\<close> of
  \<open>crates/ingest/src/acceleration.rs\<close>). The running order of the code is re-sorted for every
  direction; because the sort key ends in the distinct ids, each direction's order is independent
  of the previous one, so the roles of a direction are a function of the cell. The result is the
  smallest of the four minimum separators. Splitting at the median is always a partition.
\<close>

section \<open>The code\<close>

definition FLOW_DIRECTIONS :: "(rat \<times> rat) list" where
  "FLOW_DIRECTIONS = [(1, 0), (0, 1), (1, 1), (1, -1)]"

definition u32_max :: nat where
  "u32_max = 2 ^ 32 - 1"

definition projection_order :: "cell \<Rightarrow> (nat \<Rightarrow> rat) \<Rightarrow> nat list \<Rightarrow> nat list" where
  "projection_order c projection order = sort_key (\<lambda>v. (projection v, cell_ids c ! v)) order"

definition project :: "cell \<Rightarrow> rat \<times> rat \<Rightarrow> nat \<Rightarrow> rat" where
  "project c d v = fst d * (cell_x c ! v) + snd d * (cell_y c ! v)"

definition assign_roles :: "nat \<Rightarrow> nat \<Rightarrow> nat list \<Rightarrow> role list" where
  "assign_roles node_count side order =
     foldl (\<lambda>role v. role[v := ROLE_SINK])
       (foldl (\<lambda>role v. role[v := ROLE_SOURCE]) (replicate node_count ROLE_INNER) (take side order))
       (drop (node_count - side) order)"

fun try_directions :: "cell \<Rightarrow> nat \<Rightarrow> (rat \<times> rat) list \<Rightarrow> nat list \<Rightarrow> split option \<Rightarrow> nat \<Rightarrow> split option option" where
  "try_directions c side [] order best best_size = Some best"
| "try_directions c side (d # ds) order best best_size =
     (let order = projection_order c (project c d) order;
          role = assign_roles (cell_len c) side order
      in case flow_split c role best_size of
           None \<Rightarrow> None
         | Some None \<Rightarrow> try_directions c side ds order best best_size
         | Some (Some p) \<Rightarrow>
             (let found = length (separator p);
                  (best, best_size) = (if found < best_size then (Some p, found) else (best, best_size))
              in if best_size = 0 then Some best else try_directions c side ds order best best_size))"

text \<open>\<open>(node_count as f64 * 0.25) as usize\<close> is \<open>node_count div 4\<close> for every count a \<open>u32\<close> holds.\<close>

definition inertial_flow_split :: "cell \<Rightarrow> split option option" where
  "inertial_flow_split c =
     (let node_count = cell_len c;
          side = node_count div 4
      in if side = 0 \<or> 2 * side \<ge> node_count then Some None
         else try_directions c side FLOW_DIRECTIONS [0..<node_count] None u32_max)"

text \<open>The bounds of an empty list are the infinities, here \<open>None\<close>.\<close>

definition extent :: "rat list \<Rightarrow> (rat \<times> rat) option" where
  "extent vs = (case vs of [] \<Rightarrow> None
     | v # vs \<Rightarrow> Some (foldl (\<lambda>(lo, hi) x. (min lo x, max hi x)) (v, v) vs))"

definition wider_axis :: "cell \<Rightarrow> rat list" where
  "wider_axis c =
     (case (extent (cell_x c), extent (cell_y c)) of
        (Some (min_x, max_x), Some (min_y, max_y)) \<Rightarrow>
          if max_x - min_x \<ge> max_y - min_y then cell_x c else cell_y c
      | _ \<Rightarrow> cell_x c)"

definition median_role :: "cell \<Rightarrow> bool list \<Rightarrow> nat \<Rightarrow> role" where
  "median_role c lower v =
     (if \<not> lower ! v then ROLE_SINK
      else if \<exists>u\<in>set (neighbours c v). \<not> lower ! u then ROLE_INNER else ROLE_SOURCE)"

definition coordinate_split :: "cell \<Rightarrow> split" where
  "coordinate_split c =
     (let node_count = cell_len c;
          axis = wider_axis c;
          order = projection_order c (\<lambda>v. axis ! v) [0..<node_count];
          lower = foldl (\<lambda>l v. l[v := True]) (replicate node_count False) (take (node_count div 2) order);
          nodes = [0..<node_count]
      in \<lparr>side_a = filter (\<lambda>v. median_role c lower v = ROLE_SOURCE) nodes,
          side_b = filter (\<lambda>v. median_role c lower v = ROLE_SINK) nodes,
          separator = filter (\<lambda>v. median_role c lower v = ROLE_INNER) nodes\<rparr>)"

section \<open>Orders and roles\<close>

lemma projection_order_props [simp]:
  "set (projection_order c f order) = set order" "length (projection_order c f order) = length order"
  "distinct (projection_order c f order) = distinct order" "mset (projection_order c f order) = mset order"
  by (simp_all add: projection_order_def)

lemma projection_order_perm:
  assumes "wf_cell c" "mset order = mset [0..<cell_len c]"
  shows "projection_order c f order = projection_order c f [0..<cell_len c]"
proof -
  have set: "set order = {0..<cell_len c}" using mset_eq_setD[OF assms(2)] by simp
  have "inj_on ((!) (cell_ids c)) {0..<cell_len c}"
    using inj_on_nth[OF wf_cellD(1)[OF assms(1)]] by (simp add: cell_len_def)
  then have inj: "inj_on (\<lambda>v. (f v, cell_ids c ! v)) (set order)" unfolding set by (auto simp: inj_on_def)
  show ?thesis unfolding projection_order_def
    by (rule sort_key_inj_key_eq[OF _ inj]) (simp_all add: assms(2))
qed

definition direction_role :: "cell \<Rightarrow> rat \<times> rat \<Rightarrow> role list" where
  "direction_role c d = assign_roles (cell_len c) (cell_len c div 4) (projection_order c (project c d) [0..<cell_len c])"

lemma length_assign_roles [simp]: "length (assign_roles n side order) = n"
  by (simp add: assign_roles_def length_foldl_reset)

lemma assign_roles_nth:
  assumes "v < n"
  shows "assign_roles n side order ! v =
    (if v \<in> set (drop (n - side) order) then ROLE_SINK else if v \<in> set (take side order) then ROLE_SOURCE else ROLE_INNER)"
  using assms by (simp add: assign_roles_def foldl_reset length_foldl_reset)

lemma direction_role_counts:
  shows "cell_len c div 4 \<le> card {v. v < cell_len c \<and> direction_role c d ! v = ROLE_SOURCE}"
    "cell_len c div 4 \<le> card {v. v < cell_len c \<and> direction_role c d ! v = ROLE_SINK}"
proof -
  let ?n = "cell_len c" and ?s = "cell_len c div 4"
  let ?o = "projection_order c (project c d) [0..<cell_len c]"
  have o: "distinct ?o" "set ?o = {0..<?n}" "length ?o = ?n" by simp_all
  have disj: "set (take ?s ?o) \<inter> set (drop (?n - ?s) ?o) = {}" by (rule set_take_disj_set_drop_if_distinct[OF o(1)]) simp
  have lt: "v < ?n" if "v \<in> set ?o" for v using that by simp
  have "card (set (take ?s ?o)) \<le> card {v. v < ?n \<and> direction_role c d ! v = ROLE_SOURCE}"
  proof (intro card_mono subsetI)
    fix v assume v: "v \<in> set (take ?s ?o)"
    have "v < ?n" by (rule lt) (rule in_set_takeD[OF v])
    then show "v \<in> {v. v < ?n \<and> direction_role c d ! v = ROLE_SOURCE}"
      using v disj by (auto simp: direction_role_def assign_roles_nth)
  qed simp
  then show "?s \<le> card {v. v < ?n \<and> direction_role c d ! v = ROLE_SOURCE}"
    using distinct_card[OF distinct_take[OF o(1)], of ?s] o(3) by simp
  have "card (set (drop (?n - ?s) ?o)) \<le> card {v. v < ?n \<and> direction_role c d ! v = ROLE_SINK}"
  proof (intro card_mono subsetI)
    fix v assume v: "v \<in> set (drop (?n - ?s) ?o)"
    have "v < ?n" by (rule lt) (rule in_set_dropD[OF v])
    then show "v \<in> {v. v < ?n \<and> direction_role c d ! v = ROLE_SINK}"
      using v by (simp add: direction_role_def assign_roles_nth)
  qed simp
  then show "?s \<le> card {v. v < ?n \<and> direction_role c d ! v = ROLE_SINK}"
    using distinct_card[OF distinct_drop[OF o(1)], of "?n - ?s"] o(3) by simp
qed

section \<open>The smallest of the minimum separators\<close>

definition best_ok :: "cell \<Rightarrow> (rat \<times> rat) set \<Rightarrow> split option \<Rightarrow> nat \<Rightarrow> bool" where
  "best_ok c D best best_size \<longleftrightarrow>
     (\<forall>d\<in>D. \<forall>S. separates c (direction_role c d) S \<longrightarrow> best_size \<le> card S)
     \<and> (case best of None \<Rightarrow> best_size = u32_max
        | Some p \<Rightarrow> split_ok c p \<and> best_size = length (separator p)
            \<and> cell_len c div 4 \<le> length (side_a p) \<and> cell_len c div 4 \<le> length (side_b p))"

lemma split_lengths:
  assumes "split_ok c p"
  shows "length (side_a p) = card (set (side_a p))" "length (side_b p) = card (set (side_b p))"
    "length (separator p) = card (set (separator p))"
  using assms by (simp_all add: split_ok_def strict_sorted_iff distinct_card)

lemma try_directions_best:
  assumes wf: "wf_cell c"
  shows "mset order = mset [0..<cell_len c] \<Longrightarrow> best_ok c D best best_size \<Longrightarrow>
    \<exists>r size'. try_directions c (cell_len c div 4) ds order best best_size = Some r \<and> best_ok c (D \<union> set ds) r size'"
proof (induction ds arbitrary: order best best_size D)
  case (Cons d ds)
  let ?o = "projection_order c (project c d) order"
  have o: "?o = projection_order c (project c d) [0..<cell_len c]" by (rule projection_order_perm[OF wf Cons.prems(1)])
  have role: "assign_roles (cell_len c) (cell_len c div 4) ?o = direction_role c d" by (simp add: direction_role_def o)
  have m: "mset ?o = mset [0..<cell_len c]" using Cons.prems(1) by simp
  have un: "D \<union> set (d # ds) = insert d D \<union> set ds" by auto
  have len: "length (direction_role c d) = cell_len c" by (simp add: direction_role_def)
  obtain r where r: "flow_split c (direction_role c d) best_size = Some r"
    and spec: "case r of
       None \<Rightarrow> \<forall>S. separates c (direction_role c d) S \<longrightarrow> best_size \<le> card S
     | Some p \<Rightarrow> split_ok c p \<and> separates c (direction_role c d) (set (separator p)) \<and> length (separator p) < best_size
         \<and> (\<forall>S. separates c (direction_role c d) S \<longrightarrow> length (separator p) \<le> card S)
         \<and> (\<forall>v<cell_len c. (direction_role c d ! v = ROLE_SOURCE \<longrightarrow> v \<in> set (side_a p))
              \<and> (direction_role c d ! v = ROLE_SINK \<longrightarrow> v \<in> set (side_b p)))"
    using flow_split_spec[OF wf len, of best_size] by blast
  show ?case
  proof (cases r)
    case None
    then have "best_ok c (insert d D) best best_size" using spec Cons.prems(2) by (simp add: best_ok_def)
    from Cons.IH[OF m this] show ?thesis unfolding un using r None by (simp add: Let_def role)
  next
    case (Some p)
    have p: "split_ok c p" "length (separator p) < best_size" "\<forall>S. separates c (direction_role c d) S \<longrightarrow> length (separator p) \<le> card S"
      "\<forall>v<cell_len c. (direction_role c d ! v = ROLE_SOURCE \<longrightarrow> v \<in> set (side_a p)) \<and> (direction_role c d ! v = ROLE_SINK \<longrightarrow> v \<in> set (side_b p))"
      using spec Some by simp_all
    have "card {v. v < cell_len c \<and> direction_role c d ! v = ROLE_SOURCE} \<le> length (side_a p)"
      "card {v. v < cell_len c \<and> direction_role c d ! v = ROLE_SINK} \<le> length (side_b p)"
      unfolding split_lengths[OF p(1)] by (rule card_mono; use p(4) in auto)+
    then have sides: "cell_len c div 4 \<le> length (side_a p)" "cell_len c div 4 \<le> length (side_b p)"
      using direction_role_counts[of c d] by linarith+
    have ok: "best_ok c (insert d D) (Some p) (length (separator p))"
      using Cons.prems(2) p(1-3) sides unfolding best_ok_def by force
    show ?thesis
    proof (cases "length (separator p) = 0")
      case True
      have "best_ok c (D \<union> set (d # ds)) (Some p) 0" using ok True by (simp add: best_ok_def)
      then show ?thesis using r Some p(2) True by (auto simp: Let_def role)
    next
      case False
      then have "try_directions c (cell_len c div 4) (d # ds) order best best_size
        = try_directions c (cell_len c div 4) ds ?o (Some p) (length (separator p))"
        using r Some p(2) by (simp add: Let_def role)
      then show ?thesis unfolding un using Cons.IH[OF m ok] by simp
    qed
  qed
qed auto

lemma separator_le_cell: "separates c role S \<Longrightarrow> card S \<le> cell_len c"
  using card_mono[of "{0..<cell_len c}" S] unfolding separates_def by fastforce

lemma inertial_flow_best:
  assumes wf: "wf_cell c" and n: "4 \<le> cell_len c" "cell_len c < u32_max"
  shows "\<exists>r. inertial_flow_split c = Some r \<and>
    (case r of
       None \<Rightarrow> \<forall>d\<in>set FLOW_DIRECTIONS. \<forall>S. \<not> separates c (direction_role c d) S
     | Some p \<Rightarrow> split_ok c p \<and> cell_len c div 4 \<le> length (side_a p) \<and> cell_len c div 4 \<le> length (side_b p)
         \<and> (\<forall>d\<in>set FLOW_DIRECTIONS. \<forall>S. separates c (direction_role c d) S \<longrightarrow> length (separator p) \<le> card S))"
proof -
  have "best_ok c {} None u32_max" by (simp add: best_ok_def)
  from try_directions_best[OF wf refl this, of FLOW_DIRECTIONS] obtain r k
    where r: "try_directions c (cell_len c div 4) FLOW_DIRECTIONS [0..<cell_len c] None u32_max = Some r" "best_ok c (set FLOW_DIRECTIONS) r k"
    by auto
  have side: "cell_len c div 4 \<noteq> 0" "\<not> 2 * (cell_len c div 4) \<ge> cell_len c" using n(1) by linarith+
  have "inertial_flow_split c = Some r" using r(1) side by (simp add: inertial_flow_split_def Let_def)
  moreover have "\<not> separates c (direction_role c d) S" if "r = None" "d \<in> set FLOW_DIRECTIONS" for d S
    using r(2) that separator_le_cell[of c "direction_role c d" S] n(2) unfolding best_ok_def by fastforce
  ultimately show ?thesis using r(2) by (cases r) (auto simp: best_ok_def)
qed

section \<open>The median split\<close>

lemma coordinate_split_ok:
  assumes "wf_cell c"
  shows "split_ok c (coordinate_split c)" "length (side_b (coordinate_split c)) = cell_len c - cell_len c div 2"
proof -
  let ?n = "cell_len c"
  let ?o = "projection_order c (\<lambda>v. wider_axis c ! v) [0..<?n]"
  let ?lower = "foldl (\<lambda>l v. l[v := True]) (replicate ?n False) (take (?n div 2) ?o)"
  have lower: "?lower ! v \<longleftrightarrow> v \<in> set (take (?n div 2) ?o)" if "v < ?n" for v using that by (simp add: foldl_reset)
  have e: "coordinate_split c = \<lparr>side_a = filter (\<lambda>v. median_role c ?lower v = ROLE_SOURCE) [0..<?n],
      side_b = filter (\<lambda>v. median_role c ?lower v = ROLE_SINK) [0..<?n],
      separator = filter (\<lambda>v. median_role c ?lower v = ROLE_INNER) [0..<?n]\<rparr>"
    by (simp add: coordinate_split_def Let_def)
  have "v \<notin> set (neighbours c u)" if "median_role c ?lower u = ROLE_SOURCE" "median_role c ?lower v = ROLE_SINK" for u v
    using that by (auto simp: median_role_def split: if_splits)
  then show "split_ok c (coordinate_split c)" unfolding e by (intro partition_split_ok) blast
  have "set (side_b (coordinate_split c)) = {0..<?n} - set (take (?n div 2) ?o)"
    unfolding e by (auto simp: median_role_def lower)
  moreover have "distinct (side_b (coordinate_split c))" unfolding e by simp
  moreover have "card ({0..<?n} - set (take (?n div 2) ?o)) = ?n - ?n div 2"
    by (subst card_Diff_subset) (auto simp: distinct_card dest: in_set_takeD)
  ultimately show "length (side_b (coordinate_split c)) = ?n - ?n div 2" using distinct_card by metis
qed

end
