(* ===== verification/Min_Degree.thy ===== *)
theory Min_Degree
  imports Cell "HOL-Library.Multiset"
begin

text \<open>
  Ordering a small cell by minimum degree (\<open>minimum_degree_order\<close> of
  \<open>crates/ingest/src/acceleration.rs\<close>): eliminate a node of least degree in the fill-in graph,
  join its neighbours pairwise, repeat. The code keeps the degrees in a binary heap that is never
  updated in place: an entry is skipped when its node is gone or its degree has changed. The
  theorem is that the order is exactly that of the abstract game on the fill-in graph, ties broken
  by the lower node; in particular every node is ordered once.
\<close>

section \<open>The code\<close>

definition insert_sorted :: "nat list \<Rightarrow> nat \<Rightarrow> nat list" where
  "insert_sorted row v = (case binary_search row v of Insert position \<Rightarrow> insert_at position v row | Found _ \<Rightarrow> row)"

definition remove_node :: "nat list \<Rightarrow> nat \<Rightarrow> nat list" where
  "remove_node row node = (case binary_search row node of Found slot \<Rightarrow> take slot row @ drop (slot + 1) row | Insert _ \<Rightarrow> row)"

text \<open>\<open>BinaryHeap<Reverse<(u32, u32)>>\<close>: a pop returns a least entry.\<close>

definition pop_least :: "(nat \<times> nat) list \<Rightarrow> ((nat \<times> nat) \<times> (nat \<times> nat) list) option" where
  "pop_least q = (case q of [] \<Rightarrow> None | x # xs \<Rightarrow> let y = fold min xs x in Some (y, remove1 y q))"

record elimination =
  adjacency :: "nat list list"
  degree_queue :: "(nat \<times> nat) list"
  eliminated :: "bool list"
  ordered :: "nat list"

definition join_nodes :: "nat \<Rightarrow> nat list list \<Rightarrow> nat \<Rightarrow> nat list list" where
  "join_nodes left adj right =
     (let adj = adj[left := insert_sorted (adj ! left) right]
      in adj[right := insert_sorted (adj ! right) left])"

fun connect_neighbours :: "nat \<Rightarrow> nat list \<Rightarrow> nat list list \<Rightarrow> nat list list" where
  "connect_neighbours node [] adj = adj"
| "connect_neighbours node (left # rest) adj =
     connect_neighbours node rest (foldl (join_nodes left) (adj[left := remove_node (adj ! left) node]) rest)"

definition eliminate_node :: "cell \<Rightarrow> nat \<Rightarrow> elimination \<Rightarrow> elimination" where
  "eliminate_node c node s =
     (let row = adjacency s ! node;
          adj = connect_neighbours node row ((adjacency s)[node := []])
      in s\<lparr>eliminated := (eliminated s)[node := True], ordered := ordered s @ [cell_ids c ! node],
           adjacency := adj, degree_queue := rev (map (\<lambda>v. (length (adj ! v), v)) row) @ degree_queue s\<rparr>)"

definition degree_step :: "cell \<Rightarrow> elimination \<Rightarrow> elimination" where
  "degree_step c s = (case pop_least (degree_queue s) of
       None \<Rightarrow> s
     | Some ((degree, node), queue) \<Rightarrow>
         (let s = s\<lparr>degree_queue := queue\<rparr>
          in if eliminated s ! node \<or> length (adjacency s ! node) \<noteq> degree then s
             else eliminate_node c node s))"

definition elimination_start :: "cell \<Rightarrow> elimination" where
  "elimination_start c =
     (let adj = map (neighbours c) [0..<cell_len c]
      in \<lparr>adjacency = adj, degree_queue = rev (map (\<lambda>v. (length (adj ! v), v)) [0..<cell_len c]),
          eliminated = replicate (cell_len c) False, ordered = []\<rparr>)"

definition minimum_degree_order :: "cell \<Rightarrow> nat list option" where
  "minimum_degree_order c =
     map_option ordered (while_option (\<lambda>s. degree_queue s \<noteq> []) (degree_step c) (elimination_start c))"

section \<open>The elimination game\<close>

text \<open>Neighbours, degrees and fill-in of an undirected graph.\<close>

definition nbrs :: "(nat \<times> nat) set \<Rightarrow> nat \<Rightarrow> nat set" where
  "nbrs E v = {u. (v, u) \<in> E}"

definition fill_in :: "(nat \<times> nat) set \<Rightarrow> nat \<Rightarrow> (nat \<times> nat) set" where
  "fill_in E v = {(x, y). x \<noteq> v \<and> y \<noteq> v \<and> x \<noteq> y \<and> ((x, y) \<in> E \<or> (v, x) \<in> E \<and> (v, y) \<in> E)}"

fun least_degree_sequence :: "(nat \<times> nat) set \<Rightarrow> nat set \<Rightarrow> nat list \<Rightarrow> bool" where
  "least_degree_sequence E V [] \<longleftrightarrow> V = {}"
| "least_degree_sequence E V (v # vs) \<longleftrightarrow> v \<in> V
     \<and> (\<forall>u\<in>V. (card (nbrs E v), v) \<le> (card (nbrs E u), u))
     \<and> least_degree_sequence (fill_in E v) (V - {v}) vs"

definition cell_graph :: "cell \<Rightarrow> (nat \<times> nat) set" where
  "cell_graph c = {(v, u). v < cell_len c \<and> u \<in> set (neighbours c v)}"

lemma least_degree_sequence_set: "least_degree_sequence E V vs \<Longrightarrow> distinct vs \<and> set vs = V"
  by (induction E V vs rule: least_degree_sequence.induct) auto

section \<open>Rows\<close>

lemma insert_sorted_row:
  assumes "sorted_wrt (<) row"
  shows "sorted_wrt (<) (insert_sorted row v)" "set (insert_sorted row v) = insert v (set row)"
  using assms bs.insert_sorted[OF assms] bs.found[OF assms, of v]
  by (auto simp: insert_sorted_def split: search_result.split)

lemma remove_node_row:
  assumes "sorted_wrt (<) row"
  shows "sorted_wrt (<) (remove_node row v)" "set (remove_node row v) = set row - {v}"
proof -
  have d: "distinct row" using assms by (simp add: strict_sorted_iff)
  show "set (remove_node row v) = set row - {v}"
  proof (cases "binary_search row v")
    case (Found slot)
    then have s: "slot < length row" "row ! slot = v" using bs.found[OF assms] by auto
    have "row = take slot row @ v # drop (slot + 1) row" using id_take_nth_drop[OF s(1)] s(2) by simp
    then have "distinct (take slot row @ v # drop (slot + 1) row)"
      "set row = set (take slot row) \<union> {v} \<union> set (drop (slot + 1) row)"
      using d by (metis, metis set_append list.simps(15) Un_insert_right Un_assoc insert_is_Un)
    then show ?thesis using Found by (auto simp: remove_node_def)
  qed (use bs.insert_notin[OF assms] in \<open>auto simp: remove_node_def\<close>)
  show "sorted_wrt (<) (remove_node row v)"
  proof (cases "binary_search row v")
    case (Found slot)
    then have s: "slot < length row" using bs.found[OF assms] by auto
    have "sorted_wrt (<) (take slot row @ row ! slot # drop (slot + 1) row)"
      using assms id_take_nth_drop[OF s] by simp
    then show ?thesis using Found by (simp add: remove_node_def sorted_wrt_append)
  qed (use assms in \<open>simp add: remove_node_def\<close>)
qed

definition sorted_rows :: "nat \<Rightarrow> nat list list \<Rightarrow> bool" where
  "sorted_rows n adj \<longleftrightarrow> length adj = n \<and> (\<forall>v<n. sorted_wrt (<) (adj ! v))"

lemma sorted_rows_upd: "sorted_rows n adj \<Longrightarrow> sorted_wrt (<) row \<Longrightarrow> sorted_rows n (adj[v := row])"
  by (cases "v < length adj") (simp_all add: sorted_rows_def nth_list_update)

lemma join_nodes_rows:
  assumes "sorted_rows n adj" "l < n" "r < n" "l \<noteq> r"
  shows "sorted_rows n (join_nodes l adj r)"
    "x < n \<Longrightarrow> set (join_nodes l adj r ! x) = set (adj ! x) \<union> (if x = l then {r} else if x = r then {l} else {})"
    "x \<noteq> l \<Longrightarrow> x \<noteq> r \<Longrightarrow> join_nodes l adj r ! x = adj ! x"
  using assms insert_sorted_row[of "adj ! l" r] insert_sorted_row[of "adj ! r" l]
  by (auto simp: join_nodes_def Let_def sorted_rows_def nth_list_update)

lemma join_all_rows:
  assumes "l < n"
  shows "sorted_rows n adj \<Longrightarrow> set rs \<subseteq> {0..<n} \<Longrightarrow> l \<notin> set rs \<Longrightarrow> sorted_rows n (foldl (join_nodes l) adj rs)
    \<and> (\<forall>x<n. set (foldl (join_nodes l) adj rs ! x)
        = set (adj ! x) \<union> (if x = l then set rs else if x \<in> set rs then {l} else {}))
    \<and> (\<forall>x. x \<noteq> l \<longrightarrow> x \<notin> set rs \<longrightarrow> foldl (join_nodes l) adj rs ! x = adj ! x)"
proof (induction rs arbitrary: adj)
  case (Cons r rs)
  have r: "r < n" "l \<noteq> r" using Cons.prems by auto
  note j = join_nodes_rows[OF Cons.prems(1) assms r]
  have IH: "sorted_rows n (foldl (join_nodes l) (join_nodes l adj r) rs)"
    "\<forall>x<n. set (foldl (join_nodes l) (join_nodes l adj r) rs ! x)
        = set (join_nodes l adj r ! x) \<union> (if x = l then set rs else if x \<in> set rs then {l} else {})"
    "\<forall>x. x \<noteq> l \<longrightarrow> x \<notin> set rs \<longrightarrow> foldl (join_nodes l) (join_nodes l adj r) rs ! x = join_nodes l adj r ! x"
    using Cons.IH[OF j(1)] Cons.prems by auto
  show ?case using IH j(2,3) by auto
qed simp

lemma connect_neighbours_rows:
  "sorted_rows n adj \<Longrightarrow> distinct ns \<Longrightarrow> set ns \<subseteq> {0..<n} \<Longrightarrow> node \<notin> set ns \<Longrightarrow>
    sorted_rows n (connect_neighbours node ns adj)
    \<and> (\<forall>x<n. set (connect_neighbours node ns adj ! x)
        = (if x \<in> set ns then (set (adj ! x) - {node}) \<union> (set ns - {x}) else set (adj ! x)))
    \<and> (\<forall>x. x \<notin> set ns \<longrightarrow> connect_neighbours node ns adj ! x = adj ! x)"
proof (induction node ns adj rule: connect_neighbours.induct)
  case (2 node l rest adj)
  let ?a = "adj[l := remove_node (adj ! l) node]"
  let ?b = "foldl (join_nodes l) ?a rest"
  have l: "l < n" "l \<notin> set rest" "set rest \<subseteq> {0..<n}" "l < length adj" using 2(2-) by (auto simp: sorted_rows_def)
  have srt: "sorted_wrt (<) (adj ! l)" using 2(2) l(1) by (simp add: sorted_rows_def)
  have a: "sorted_rows n ?a" by (rule sorted_rows_upd[OF 2(2) remove_node_row(1)[OF srt]])
  have b: "sorted_rows n ?b"
    "\<forall>x<n. set (?b ! x) = set (?a ! x) \<union> (if x = l then set rest else if x \<in> set rest then {l} else {})"
    "\<forall>x. x \<noteq> l \<longrightarrow> x \<notin> set rest \<longrightarrow> ?b ! x = ?a ! x"
    using join_all_rows[OF l(1) a l(3,2)] by blast+
  have c: "sorted_rows n (connect_neighbours node rest ?b)"
    "\<forall>x<n. set (connect_neighbours node rest ?b ! x)
        = (if x \<in> set rest then (set (?b ! x) - {node}) \<union> (set rest - {x}) else set (?b ! x))"
    "\<forall>x. x \<notin> set rest \<longrightarrow> connect_neighbours node rest ?b ! x = ?b ! x"
    using 2(1)[OF b(1)] 2(3-) by auto
  have al: "set (?a ! l) = set (adj ! l) - {node}" "x \<noteq> l \<Longrightarrow> ?a ! x = adj ! x" for x
    using remove_node_row(2)[OF srt] l(4) by simp_all
  have "set (connect_neighbours node rest ?b ! x)
        = (if x \<in> set (l # rest) then (set (adj ! x) - {node}) \<union> (set (l # rest) - {x}) else set (adj ! x))"
    if x: "x < n" for x
  proof (cases "x = l")
    case True
    then show ?thesis using x c(2) b(2) al(1) l(2) 2(5) by auto
  next
    case False
    then show ?thesis using x c(2) b(2) al(2)[OF False] l(2) 2(5) by auto
  qed
  then show ?case using c(1,3) b(3) al(2) by simp
qed simp

section \<open>The invariant of the elimination\<close>

definition elim_inv :: "cell \<Rightarrow> nat list \<Rightarrow> (nat \<times> nat) set \<Rightarrow> elimination \<Rightarrow> bool" where
  "elim_inv c vs E s \<longleftrightarrow>
     sorted_rows (cell_len c) (adjacency s) \<and> length (eliminated s) = cell_len c
     \<and> distinct vs \<and> set vs \<subseteq> {0..<cell_len c} \<and> ordered s = map (\<lambda>v. cell_ids c ! v) vs
     \<and> (\<forall>v<cell_len c. eliminated s ! v \<longleftrightarrow> v \<in> set vs)
     \<and> (\<forall>v<cell_len c. v \<notin> set vs \<longrightarrow> set (adjacency s ! v) = nbrs E v \<and> (length (adjacency s ! v), v) \<in> set (degree_queue s))
     \<and> (\<forall>(x, y)\<in>E. x \<in> {0..<cell_len c} - set vs \<and> y \<in> {0..<cell_len c} - set vs \<and> x \<noteq> y \<and> (y, x) \<in> E)
     \<and> (\<forall>(d, v)\<in>set (degree_queue s). v < cell_len c)"

lemma pop_least_Some:
  assumes "pop_least q = Some (y, q')"
  shows "y \<in> set q" "q' = remove1 y q" "x \<in> set q \<Longrightarrow> y \<le> x" "length q' < length q" "mset q = add_mset y (mset q')"
proof -
  obtain a xs where q: "q = a # xs" "y = fold min xs a" "q' = remove1 y q"
    using assms by (cases q) (auto simp: pop_least_def Let_def)
  then have "y = Min (set q)" using Min.set_eq_fold[of a xs] by simp
  then show m: "y \<in> set q" using q Min_in[of "set q"] by simp
  show "x \<in> set q \<Longrightarrow> y \<le> x" using \<open>y = Min (set q)\<close> by simp
  show "q' = remove1 y q" by (rule q(3))
  then show "length q' < length q" using m length_pos_if_in_set[OF m] by (simp add: length_remove1)
  show "mset q = add_mset y (mset q')" using m unfolding q(3) by simp
qed

lemma pop_least_None: "pop_least q = None \<longleftrightarrow> q = []"
  by (cases q) (simp_all add: pop_least_def Let_def)

lemma elim_start:
  assumes "wf_cell c"
  shows "elim_inv c [] (cell_graph c) (elimination_start c)"
proof -
  note w = wf_cellD[OF assms]
  have "nbrs (cell_graph c) v = set (neighbours c v)" if "v < cell_len c" for v
    using that by (simp add: nbrs_def cell_graph_def)
  moreover have "x < cell_len c \<and> y < cell_len c \<and> x \<noteq> y \<and> (y, x) \<in> cell_graph c" if "(x, y) \<in> cell_graph c" for x y
  proof -
    have xy: "x < cell_len c" "y \<in> set (neighbours c x)" using that by (simp_all add: cell_graph_def)
    then show ?thesis using w(3)[OF xy] w(4)[OF xy] w(5)[OF xy(1)] by (auto simp: cell_graph_def)
  qed
  ultimately show ?thesis
    using w(2) unfolding elim_inv_def elimination_start_def Let_def sorted_rows_def by auto
qed

lemma elim_invD:
  assumes "elim_inv c vs E s" "v < cell_len c" "v \<notin> set vs"
  shows "set (adjacency s ! v) = nbrs E v" "length (adjacency s ! v) = card (nbrs E v)"
    "(card (nbrs E v), v) \<in> set (degree_queue s)" "\<not> eliminated s ! v"
proof -
  have a: "set (adjacency s ! v) = nbrs E v" "(length (adjacency s ! v), v) \<in> set (degree_queue s)"
    "sorted_wrt (<) (adjacency s ! v)" "eliminated s ! v \<longleftrightarrow> v \<in> set vs"
    using assms unfolding elim_inv_def sorted_rows_def by blast+
  then have "length (adjacency s ! v) = card (nbrs E v)"
    by (metis distinct_card strict_sorted_iff)
  then show "set (adjacency s ! v) = nbrs E v" "length (adjacency s ! v) = card (nbrs E v)"
    "(card (nbrs E v), v) \<in> set (degree_queue s)" "\<not> eliminated s ! v"
    using a assms(3) by auto
qed

lemma elim_skip:
  assumes inv: "elim_inv c vs E s" and pop: "pop_least (degree_queue s) = Some ((d, v), q)"
    and stale: "eliminated s ! v \<or> length (adjacency s ! v) \<noteq> d"
  shows "elim_inv c vs E (s\<lparr>degree_queue := q\<rparr>)"
proof -
  note p = pop_least_Some[OF pop]
  have sub: "set q \<subseteq> set (degree_queue s)" unfolding p(2) by (rule set_remove1_subset)
  have keep: "(length (adjacency s ! u), u) \<in> set q" if u: "u < cell_len c" "u \<notin> set vs" for u
  proof -
    have "(length (adjacency s ! u), u) \<noteq> (d, v)" using stale elim_invD(4)[OF inv u] by auto
    moreover have "(length (adjacency s ! u), u) \<in> set (degree_queue s)" using elim_invD(2,3)[OF inv u] by simp
    ultimately show ?thesis unfolding p(2) by (simp add: in_set_remove1)
  qed
  show ?thesis using inv keep sub unfolding elim_inv_def by auto
qed

lemma elim_node:
  assumes inv: "elim_inv c vs E s" and pop: "pop_least (degree_queue s) = Some ((d, v), q)"
    and live: "\<not> eliminated s ! v" "length (adjacency s ! v) = d"
  defines "s' \<equiv> eliminate_node c v (s\<lparr>degree_queue := q\<rparr>)"
  shows "elim_inv c (vs @ [v]) (fill_in E v) s'" "v < cell_len c" "v \<notin> set vs"
    "u < cell_len c \<Longrightarrow> u \<notin> set vs \<Longrightarrow> (card (nbrs E v), v) \<le> (card (nbrs E u), u)"
    "length (degree_queue s') < length (degree_queue s) + cell_len c"
proof -
  note p = pop_least_Some[OF pop]
  let ?n = "cell_len c" and ?row = "adjacency s ! v"
  have rows: "sorted_rows ?n (adjacency s)" and el: "length (eliminated s) = ?n" "\<forall>u<?n. eliminated s ! u \<longleftrightarrow> u \<in> set vs"
    and E: "\<And>x y. (x, y) \<in> E \<Longrightarrow> x < ?n \<and> x \<notin> set vs \<and> y < ?n \<and> y \<notin> set vs \<and> x \<noteq> y \<and> (y, x) \<in> E"
    and q: "\<And>e u. (e, u) \<in> set (degree_queue s) \<Longrightarrow> u < ?n"
    and vs: "distinct vs" "set vs \<subseteq> {0..<?n}" "ordered s = map (\<lambda>v. cell_ids c ! v) vs"
    using inv unfolding elim_inv_def by auto
  show v: "v < ?n" using q p(1) by blast
  show vn: "v \<notin> set vs" using el(2) v live(1) by blast
  note d = elim_invD[OF inv v vn]
  show "(card (nbrs E v), v) \<le> (card (nbrs E u), u)" if "u < ?n" "u \<notin> set vs"
    using p(3)[OF elim_invD(3)[OF inv that]] d(2) live(2) by simp
  have row: "distinct ?row" "set ?row \<subseteq> {0..<?n}" "v \<notin> set ?row" "length ?row < ?n"
  proof -
    show "distinct ?row" using rows v by (auto simp: sorted_rows_def strict_sorted_iff)
    show s: "set ?row \<subseteq> {0..<?n}" "v \<notin> set ?row" using d(1) E by (auto simp: nbrs_def)
    then have "set ?row \<subseteq> {0..<?n} - {v}" by blast
    then have "card (set ?row) \<le> card ({0..<?n} - {v})" by (intro card_mono) auto
    then show "length ?row < ?n" using v distinct_card[OF \<open>distinct ?row\<close>] by simp
  qed
  let ?adj = "connect_neighbours v ?row ((adjacency s)[v := []])"
  have c: "sorted_rows ?n ?adj"
    "\<forall>x<?n. set (?adj ! x) = (if x \<in> set ?row then (set ((adjacency s)[v := []] ! x) - {v}) \<union> (set ?row - {x}) else set ((adjacency s)[v := []] ! x))"
    "\<forall>x. x \<notin> set ?row \<longrightarrow> ?adj ! x = (adjacency s)[v := []] ! x"
    using connect_neighbours_rows[OF sorted_rows_upd[OF rows, of "[]" v] row(1-3)] by (simp_all only: sorted_wrt.simps) blast+
  have s': "adjacency s' = ?adj" "eliminated s' = (eliminated s)[v := True]" "ordered s' = ordered s @ [cell_ids c ! v]"
    "degree_queue s' = rev (map (\<lambda>u. (length (?adj ! u), u)) ?row) @ q"
    by (simp_all add: s'_def eliminate_node_def Let_def)
  show "length (degree_queue s') < length (degree_queue s) + ?n" using p(4) row(4) by (simp add: s'(4))
  have nb: "set (?adj ! u) = nbrs (fill_in E v) u" if u: "u < ?n" "u \<notin> set vs" "u \<noteq> v" for u
  proof -
    have "set ((adjacency s)[v := []] ! u) = nbrs E u" using elim_invD(1)[OF inv u(1,2)] u(3) by simp
    moreover have "u \<in> set ?row \<longleftrightarrow> (v, u) \<in> E" using d(1) by (simp add: nbrs_def)
    ultimately have a: "set (?adj ! u) = (if (v, u) \<in> E then (nbrs E u - {v}) \<union> (nbrs E v - {u}) else nbrs E u)"
      using c(2) u(1) d(1) by simp
    have f: "y \<in> nbrs (fill_in E v) u \<longleftrightarrow> y \<noteq> v \<and> u \<noteq> y \<and> ((u, y) \<in> E \<or> (v, u) \<in> E \<and> (v, y) \<in> E)" for y
      using u(3) by (simp add: nbrs_def fill_in_def)
    have n: "y \<in> nbrs E x \<longleftrightarrow> (x, y) \<in> E" for x y by (simp add: nbrs_def)
    show ?thesis
    proof (intro set_eqI)
      fix y
      show "y \<in> set (?adj ! u) \<longleftrightarrow> y \<in> nbrs (fill_in E v) u"
        unfolding a f using E[of u y] E[of u v] E[of v y] by (cases "(v, u) \<in> E") (simp_all add: n, blast+)
    qed
  qed
  have qu: "(length (?adj ! u), u) \<in> set (degree_queue s')" if u: "u < ?n" "u \<notin> set vs" "u \<noteq> v" for u
  proof (cases "u \<in> set ?row")
    case False
    then have "?adj ! u = adjacency s ! u" using c(3) u(3) by simp
    moreover have "(length (adjacency s ! u), u) \<in> set q"
      using elim_invD(2,3)[OF inv u(1,2)] u(3) unfolding p(2) by (simp add: in_set_remove1)
    ultimately show ?thesis by (simp add: s'(4))
  qed (auto simp: s'(4))
  have "set q \<subseteq> set (degree_queue s)" unfolding p(2) by (rule set_remove1_subset)
  then have "\<forall>(e, u)\<in>set (degree_queue s'). u < ?n" using q row(2) by (auto simp: s'(4))
  moreover have "\<forall>(x, y)\<in>fill_in E v. x \<in> {0..<?n} - set (vs @ [v]) \<and> y \<in> {0..<?n} - set (vs @ [v]) \<and> x \<noteq> y \<and> (y, x) \<in> fill_in E v"
  proof -
    have "x < ?n \<and> x \<notin> set vs \<and> x \<noteq> v \<and> y < ?n \<and> y \<notin> set vs \<and> y \<noteq> v \<and> x \<noteq> y \<and> (y, x) \<in> fill_in E v"
      if "(x, y) \<in> fill_in E v" for x y
      using that E unfolding fill_in_def mem_Collect_eq split_conv by blast
    then show ?thesis by auto
  qed
  moreover have "\<forall>u<?n. eliminated s' ! u \<longleftrightarrow> u \<in> set (vs @ [v])"
    using el v by (auto simp: s'(2) nth_list_update)
  ultimately show "elim_inv c (vs @ [v]) (fill_in E v) s'"
    unfolding elim_inv_def using c(1) nb qu el(1) vs v vn by (simp add: s'(1-3))
qed

section \<open>The theorem\<close>

definition elim_progress :: "cell \<Rightarrow> elimination \<Rightarrow> bool" where
  "elim_progress c s \<longleftrightarrow> (\<exists>vs E. elim_inv c vs E s
     \<and> (\<forall>ws. least_degree_sequence E ({0..<cell_len c} - set vs) ws
          \<longrightarrow> least_degree_sequence (cell_graph c) {0..<cell_len c} (vs @ ws)))"

definition elim_work :: "cell \<Rightarrow> elimination \<Rightarrow> nat" where
  "elim_work c s = (cell_len c - length (ordered s)) * (cell_len c + 1) + length (degree_queue s)"

lemma degree_step_progress:
  assumes p: "elim_progress c s" and ne: "degree_queue s \<noteq> []"
  shows "elim_progress c (degree_step c s) \<and> elim_work c (degree_step c s) < elim_work c s"
proof -
  obtain vs E where inv: "elim_inv c vs E s"
    and run: "\<forall>ws. least_degree_sequence E ({0..<cell_len c} - set vs) ws
      \<longrightarrow> least_degree_sequence (cell_graph c) {0..<cell_len c} (vs @ ws)"
    using p unfolding elim_progress_def by blast
  obtain d v q where pop: "pop_least (degree_queue s) = Some ((d, v), q)"
    using ne pop_least_None by (metis not_Some_eq surj_pair)
  show ?thesis
  proof (cases "eliminated s ! v \<or> length (adjacency s ! v) \<noteq> d")
    case True
    then have "degree_step c s = s\<lparr>degree_queue := q\<rparr>" by (auto simp: degree_step_def pop Let_def)
    then show ?thesis using elim_skip[OF inv pop True] run pop_least_Some(4)[OF pop]
      unfolding elim_progress_def elim_work_def by auto
  next
    case False
    let ?s = "eliminate_node c v (s\<lparr>degree_queue := q\<rparr>)"
    have step: "degree_step c s = ?s" using False by (simp add: degree_step_def pop Let_def)
    have live: "\<not> eliminated s ! v" "length (adjacency s ! v) = d" using False by auto
    note e = elim_node[OF inv pop live]
    have "least_degree_sequence (cell_graph c) {0..<cell_len c} ((vs @ [v]) @ ws)"
      if "least_degree_sequence (fill_in E v) ({0..<cell_len c} - set (vs @ [v])) ws" for ws
    proof -
      have "{0..<cell_len c} - set (vs @ [v]) = {0..<cell_len c} - set vs - {v}" by auto
      then have "least_degree_sequence E ({0..<cell_len c} - set vs) (v # ws)" using that e(2-4) by auto
      then show ?thesis using run by auto
    qed
    then have "elim_progress c ?s" using e(1) unfolding elim_progress_def by blast
    moreover have "elim_work c ?s < elim_work c s"
    proof -
      have vs: "ordered s = map (\<lambda>v. cell_ids c ! v) vs" "ordered ?s = map (\<lambda>v. cell_ids c ! v) (vs @ [v])"
        using inv e(1) unfolding elim_inv_def by blast+
      have "distinct (vs @ [v])" "set (vs @ [v]) \<subseteq> {0..<cell_len c}" using e(1) unfolding elim_inv_def by blast+
      then have "length (vs @ [v]) \<le> cell_len c" using distinct_card[of "vs @ [v]"] card_mono[of "{0..<cell_len c}" "set (vs @ [v])"] by simp
      then have "cell_len c - length vs = Suc (cell_len c - length (vs @ [v]))" by simp
      then show ?thesis using e(5) unfolding elim_work_def vs by (simp add: add_mult_distrib)
    qed
    ultimately show ?thesis unfolding step by blast
  qed
qed

lemma minimum_degree_returns:
  assumes "wf_cell c"
  shows "\<exists>vs. minimum_degree_order c = Some (map (\<lambda>v. cell_ids c ! v) vs)
    \<and> least_degree_sequence (cell_graph c) {0..<cell_len c} vs"
proof -
  let ?b = "\<lambda>s. degree_queue s \<noteq> []"
  have start: "elim_progress c (elimination_start c)"
    using elim_start[OF assms] unfolding elim_progress_def by (intro exI[of _ "[]"]) auto
  obtain s where w: "while_option ?b (degree_step c) (elimination_start c) = Some s" "elim_progress c s" "degree_queue s = []"
    using while_total[of "elim_progress c" _ ?b "degree_step c" "elim_work c", OF start] degree_step_progress by auto
  from w(2) obtain vs E where inv: "elim_inv c vs E s"
    and run: "\<forall>ws. least_degree_sequence E ({0..<cell_len c} - set vs) ws
      \<longrightarrow> least_degree_sequence (cell_graph c) {0..<cell_len c} (vs @ ws)"
    unfolding elim_progress_def by blast
  have "v \<in> set vs" if "v < cell_len c" for v using elim_invD(3)[OF inv that] w(3) by force
  then have "{0..<cell_len c} - set vs = {}" by auto
  then have "least_degree_sequence (cell_graph c) {0..<cell_len c} vs" using run by (metis append_Nil2 least_degree_sequence.simps(1))
  moreover have "ordered s = map (\<lambda>v. cell_ids c ! v) vs" using inv unfolding elim_inv_def by blast
  ultimately show ?thesis using w(1) by (auto simp: minimum_degree_order_def)
qed

text \<open>C35: minimum-degree ordering is the elimination game: for every cell the code returns, and the
  order is the one that eliminates, at each turn, the node of least degree in the graph filled in by
  all earlier eliminations (the lowest index among equals). The lazily updated heap loses no node
  and never acts on an outdated degree.\<close>

theorem minimum_degree_exact:
  assumes "wf_cell c"
  shows "\<exists>!vs. least_degree_sequence (cell_graph c) {0..<cell_len c} vs
    \<and> minimum_degree_order c = Some (map (\<lambda>v. cell_ids c ! v) vs)"
proof -
  obtain vs where vs: "minimum_degree_order c = Some (map (\<lambda>v. cell_ids c ! v) vs)"
    "least_degree_sequence (cell_graph c) {0..<cell_len c} vs" using minimum_degree_returns[OF assms] by blast
  have "ws = vs" if "least_degree_sequence (cell_graph c) {0..<cell_len c} ws" "map (\<lambda>v. cell_ids c ! v) ws = map (\<lambda>v. cell_ids c ! v) vs" for ws
  proof (rule map_inj_on[OF that(2)])
    have "inj_on ((!) (cell_ids c)) {0..<cell_len c}"
      using inj_on_nth[OF wf_cellD(1)[OF assms]] by (simp add: cell_len_def)
    then show "inj_on (\<lambda>v. cell_ids c ! v) (set ws \<union> set vs)"
      using least_degree_sequence_set[OF that(1)] least_degree_sequence_set[OF vs(2)] by simp
  qed
  then show ?thesis using vs by (intro ex1I[of _ vs]) auto
qed

theorem minimum_degree_exact_witness:
  "\<exists>vs. least_degree_sequence (cell_graph witness_cell) {0..<cell_len witness_cell} vs
    \<and> map (\<lambda>v. cell_ids witness_cell ! v) vs = [0, 1, 2, 3]"
proof -
  have "minimum_degree_order witness_cell = Some [0, 1, 2, 3]" by code_simp
  moreover obtain vs where "least_degree_sequence (cell_graph witness_cell) {0..<cell_len witness_cell} vs"
    "minimum_degree_order witness_cell = Some (map (\<lambda>v. cell_ids witness_cell ! v) vs)"
    using minimum_degree_exact[OF wf_witness_cell] by (elim ex1E conjE)
  ultimately show ?thesis by (intro exI[of _ vs]) simp
qed

end
