(* ===== verification/Components.thy ===== *)
theory Components
  imports Cell
begin

text \<open>
  Splitting a cell into groups of whole connected components (\<open>split_components\<close> of
  \<open>crates/ingest/src/acceleration.rs\<close>): a flood from every node without a label, the components
  sorted by size, the largest first into the lighter of two groups. The theorem is that the split
  is found exactly when the cell is not connected, and then is a partition into two non-empty
  sides that no arc joins.
\<close>

section \<open>The code\<close>

type_synonym flood_state = "nat option list \<times> nat list \<times> nat"

definition label_neighbour :: "nat \<Rightarrow> nat option list \<times> nat list \<Rightarrow> nat \<Rightarrow> nat option list \<times> nat list" where
  "label_neighbour label s v = (case s of (component, stack) \<Rightarrow>
     if component ! v = None then (component[v := Some label], v # stack) else (component, stack))"

definition flood_step :: "cell \<Rightarrow> nat \<Rightarrow> flood_state \<Rightarrow> flood_state" where
  "flood_step c label s = (case s of (component, stack, seen) \<Rightarrow>
     (case stack of [] \<Rightarrow> s
      | node # stack \<Rightarrow>
          (let (component, stack) = foldl (label_neighbour label) (component, stack) (neighbours c node)
           in (component, stack, seen + 1))))"

definition flood :: "cell \<Rightarrow> nat \<Rightarrow> nat option list \<Rightarrow> nat \<Rightarrow> flood_state option" where
  "flood c label component start =
     while_option (\<lambda>(component, stack, seen). stack \<noteq> []) (flood_step c label)
       (component[start := Some label], [start], 0)"

fun label_components :: "cell \<Rightarrow> nat list \<Rightarrow> nat option list \<Rightarrow> nat list \<Rightarrow> (nat option list \<times> nat list) option" where
  "label_components c [] component sizes = Some (component, sizes)"
| "label_components c (start # starts) component sizes =
     (if component ! start \<noteq> None then label_components c starts component sizes
      else case flood c (length sizes) component start of
          None \<Rightarrow> None
        | Some (component, _, seen) \<Rightarrow> label_components c starts component (sizes @ [seen]))"

text \<open>The component \<open>label\<close> joins the second group (\<open>True\<close>) when that group is lighter.\<close>

definition assign_group :: "nat list \<Rightarrow> bool list \<times> nat \<times> nat \<Rightarrow> nat \<Rightarrow> bool list \<times> nat \<times> nat" where
  "assign_group sizes s label = (case s of (grp, load0, load1) \<Rightarrow>
     if load1 < load0 then (grp[label := True], load0, load1 + sizes ! label)
     else (grp[label := False], load0 + sizes ! label, load1))"

definition component_groups :: "nat list \<Rightarrow> bool list" where
  "component_groups sizes =
     fst (foldl (assign_group sizes) (replicate (length sizes) False, 0, 0)
       (sort_key (\<lambda>label. (- int (sizes ! label), label)) [0..<length sizes]))"

definition in_group :: "bool list \<Rightarrow> nat option list \<Rightarrow> bool \<Rightarrow> nat \<Rightarrow> bool" where
  "in_group grp component side v =
     (case component ! v of None \<Rightarrow> False | Some label \<Rightarrow> grp ! label = side)"

definition split_components :: "cell \<Rightarrow> (nat list \<times> nat list) option option" where
  "split_components c =
     (case label_components c [0..<cell_len c] (replicate (cell_len c) None) [] of
        None \<Rightarrow> None
      | Some (component, sizes) \<Rightarrow>
          if length sizes < 2 then Some None
          else let grp = component_groups sizes;
                   left = filter (in_group grp component False) [0..<cell_len c];
                   right = filter (in_group grp component True) [0..<cell_len c]
               in if left = [] \<or> right = [] then Some None else Some (Some (left, right)))"

section \<open>The flood\<close>

definition linked_nodes :: "cell \<Rightarrow> nat \<Rightarrow> nat \<Rightarrow> bool" where
  "linked_nodes c u v \<longleftrightarrow> (u, v) \<in> {(x, y). x < cell_len c \<and> y \<in> set (neighbours c x)}\<^sup>*"

lemma linked_refl: "linked_nodes c u u"
  by (simp add: linked_nodes_def)

lemma linked_step: "linked_nodes c u v \<Longrightarrow> v < cell_len c \<Longrightarrow> x \<in> set (neighbours c v) \<Longrightarrow> linked_nodes c u x"
  unfolding linked_nodes_def by (rule rtrancl_into_rtrancl) auto

lemma linked_trans: "linked_nodes c u v \<Longrightarrow> linked_nodes c v x \<Longrightarrow> linked_nodes c u x"
  unfolding linked_nodes_def by (rule rtrancl_trans)

lemma linked_sym:
  assumes "wf_cell c" "linked_nodes c u v"
  shows "linked_nodes c v u"
proof -
  have "sym {(x, y). x < cell_len c \<and> y \<in> set (neighbours c x)}"
  proof (rule symI)
    fix x y assume "(x, y) \<in> {(x, y). x < cell_len c \<and> y \<in> set (neighbours c x)}"
    then show "(y, x) \<in> {(x, y). x < cell_len c \<and> y \<in> set (neighbours c x)}"
      using wf_cellD(3,4)[OF assms(1), of x y] by simp
  qed
  from sym_rtrancl[OF this] assms(2) show ?thesis unfolding linked_nodes_def by (rule symD)
qed

text \<open>Every class of labels is closed under adjacency.\<close>

definition classes_closed :: "cell \<Rightarrow> nat option list \<Rightarrow> bool" where
  "classes_closed c lab \<longleftrightarrow> length lab = cell_len c
     \<and> (\<forall>v<cell_len c. \<forall>u\<in>set (neighbours c v). lab ! v = lab ! u)"

definition flood_inv :: "cell \<Rightarrow> nat \<Rightarrow> nat \<Rightarrow> nat option list \<Rightarrow> flood_state \<Rightarrow> bool" where
  "flood_inv c label start lab0 s \<longleftrightarrow> (case s of (lab, stack, seen) \<Rightarrow>
     length lab = cell_len c
     \<and> (\<forall>v<cell_len c. lab ! v = lab0 ! v \<or> lab0 ! v = None \<and> lab ! v = Some label)
     \<and> (\<forall>v<cell_len c. lab ! v = Some label \<longrightarrow> linked_nodes c start v)
     \<and> (\<forall>v<cell_len c. lab ! v = Some label \<longrightarrow> v \<notin> set stack \<longrightarrow> (\<forall>u\<in>set (neighbours c v). lab ! u = Some label))
     \<and> (\<forall>v\<in>set stack. v < cell_len c \<and> lab ! v = Some label)
     \<and> start < cell_len c \<and> lab ! start = Some label \<and> 0 < seen + length stack)"

definition unlabelled :: "nat option list \<Rightarrow> nat" where
  "unlabelled lab = length (filter (\<lambda>l. l = None) lab)"

lemma unlabelled_update:
  "v < length lab \<Longrightarrow> lab ! v = None \<Longrightarrow> unlabelled lab = Suc (unlabelled (lab[v := Some l]))"
proof -
  assume v: "v < length lab" "lab ! v = None"
  let ?a = "take v lab" and ?z = "drop (Suc v) lab"
  have count: "unlabelled (xs @ x # ys) = unlabelled xs + (if x = None then 1 else 0) + unlabelled ys" for xs x ys
    by (simp add: unlabelled_def)
  have "unlabelled lab = unlabelled (?a @ None # ?z)" using id_take_nth_drop[OF v(1)] v(2) by simp
  moreover have "unlabelled (lab[v := Some l]) = unlabelled (?a @ Some l # ?z)" using v(1) by (simp add: upd_conv_take_nth_drop)
  ultimately show ?thesis unfolding count by simp
qed

lemma label_neighbour_pair:
  "label_neighbour label (component, stack) v =
     (if component ! v = None then (component[v := Some label], v # stack) else (component, stack))"
  by (simp add: label_neighbour_def)

lemma label_neighbours:
  assumes "\<forall>v\<in>set vs. v < length lab"
  shows "foldl (label_neighbour label) (lab, stack) vs = (lab', stack') \<Longrightarrow>
    length lab' = length lab
    \<and> (\<forall>v<length lab. lab' ! v = (if v \<in> set vs \<and> lab ! v = None then Some label else lab ! v))
    \<and> set stack' = set stack \<union> {v \<in> set vs. lab ! v = None}
    \<and> 2 * unlabelled lab' + length stack' \<le> 2 * unlabelled lab + length stack
    \<and> length stack \<le> length stack'"
  using assms
proof (induction vs arbitrary: lab stack)
  case (Cons v vs)
  show ?case
  proof (cases "lab ! v = None")
    case True
    have u: "unlabelled lab = Suc (unlabelled (lab[v := Some label]))"
      by (rule unlabelled_update) (use True Cons.prems in auto)
    have "foldl (label_neighbour label) (lab[v := Some label], v # stack) vs = (lab', stack')"
      using Cons.prems(1) True by (simp add: label_neighbour_pair)
    note IH = Cons.IH[OF this]
    have v: "v < length lab" using Cons.prems(2) by simp
    have "length lab' = length lab"
      "\<forall>x<length lab. lab' ! x = (if x \<in> set vs \<and> lab[v := Some label] ! x = None then Some label else lab[v := Some label] ! x)"
      "set stack' = insert v (set stack) \<union> {x \<in> set vs. lab[v := Some label] ! x = None}"
      "2 * unlabelled lab' + length stack' \<le> 2 * unlabelled (lab[v := Some label]) + Suc (length stack)"
      "Suc (length stack) \<le> length stack'"
      using IH Cons.prems(2) by auto
    then show ?thesis using u v True by (auto simp: nth_list_update)
  next
    case False
    then have "foldl (label_neighbour label) (lab, stack) vs = (lab', stack')"
      using Cons.prems(1) False by (simp add: label_neighbour_pair)
    from Cons.IH[OF this] show ?thesis using Cons.prems(2) False by auto
  qed
qed auto

lemma flood_step_inv:
  assumes wf: "wf_cell c" and cl: "classes_closed c lab0" and label: "\<forall>v<cell_len c. lab0 ! v \<noteq> Some label"
    and inv: "flood_inv c label start lab0 (lab, node # stack, k)"
    and step: "foldl (label_neighbour label) (lab, stack) (neighbours c node) = (lab', stack')"
  shows "flood_inv c label start lab0 (lab', stack', k + 1)"
    "2 * unlabelled lab' + length stack' < 2 * unlabelled lab + length (node # stack)"
proof -
  let ?n = "cell_len c"
  have i: "length lab = ?n" "\<forall>v<?n. lab ! v = lab0 ! v \<or> lab0 ! v = None \<and> lab ! v = Some label"
    "\<forall>v<?n. lab ! v = Some label \<longrightarrow> linked_nodes c start v"
    "\<forall>v<?n. lab ! v = Some label \<longrightarrow> v \<notin> set (node # stack) \<longrightarrow> (\<forall>u\<in>set (neighbours c v). lab ! u = Some label)"
    "\<forall>v\<in>set (node # stack). v < ?n \<and> lab ! v = Some label" "lab ! start = Some label"
    using inv unfolding flood_inv_def by simp_all
  have node: "node < ?n" "lab ! node = Some label" using i(5) by simp_all
  have nb: "u < ?n \<and> (lab ! u = None \<or> lab ! u = Some label)" if u: "u \<in> set (neighbours c node)" for u
  proof -
    have un: "u < ?n" by (rule wf_cellD(3)[OF wf node(1) u])
    have "lab0 ! node = None" using i(2) node label by auto
    then have "lab0 ! u = None" using cl node(1) u unfolding classes_closed_def by metis
    then show ?thesis using i(2) un by force
  qed
  have "\<forall>v\<in>set (neighbours c node). v < length lab" using nb i(1) by simp
  note l = label_neighbours[OF this step]
  show "2 * unlabelled lab' + length stack' < 2 * unlabelled lab + length (node # stack)" using l by simp
  have c': "lab' ! v = (if v \<in> set (neighbours c node) then Some label else lab ! v)" if "v < ?n" for v
    using l nb[of v] that i(1) by (cases "lab ! v = None") auto
  have old: "lab ! v = Some label \<Longrightarrow> lab' ! v = Some label" if "v < ?n" for v using c'[OF that] by simp
  have reach: "linked_nodes c start v" if v: "v < ?n" "lab' ! v = Some label" for v
  proof (cases "v \<in> set (neighbours c node)")
    case True
    moreover have "linked_nodes c start node" using i(3) node by blast
    ultimately show ?thesis using linked_step node(1) by blast
  next
    case False
    then have "lab ! v = Some label" using c'[OF v(1)] v(2) by simp
    then show ?thesis using i(3) v(1) by blast
  qed
  have closed: "lab' ! u = Some label" if v: "v < ?n" "lab' ! v = Some label" "v \<notin> set stack'" and u: "u \<in> set (neighbours c v)" for v u
  proof -
    have un: "u < ?n" by (rule wf_cellD(3)[OF wf v(1) u])
    have vc: "lab ! v = Some label" "v \<notin> set stack" using v l c'[OF v(1)] nb[of v] by (auto split: if_splits)
    show ?thesis
    proof (cases "v = node")
      case True
      then show ?thesis using c'[OF un] u by simp
    next
      case False
      then show ?thesis using i(4) v(1) vc u old[OF un] by simp
    qed
  qed
  have a: "\<forall>v<?n. lab' ! v = lab0 ! v \<or> lab0 ! v = None \<and> lab' ! v = Some label"
  proof (intro allI impI)
    fix v assume v: "v < ?n"
    show "lab' ! v = lab0 ! v \<or> lab0 ! v = None \<and> lab' ! v = Some label"
      using c'[OF v] i(2) v nb[of v] label by (auto split: if_splits)
  qed
  have b: "\<forall>v\<in>set stack'. v < ?n \<and> lab' ! v = Some label"
    using l nb i(5) c' by auto
  have s: "lab' ! start = Some label"
    using i(6) old inv by (simp add: flood_inv_def)
  show "flood_inv c label start lab0 (lab', stack', k + 1)"
    unfolding flood_inv_def split_conv
  proof (intro conjI)
    show "length lab' = ?n" using l i(1) by simp
    show "\<forall>v<?n. lab' ! v = Some label \<longrightarrow> linked_nodes c start v" using reach by blast
    show "\<forall>v<?n. lab' ! v = Some label \<longrightarrow> v \<notin> set stack' \<longrightarrow> (\<forall>u\<in>set (neighbours c v). lab' ! u = Some label)"
      using closed by blast
    show "start < ?n" using inv by (simp add: flood_inv_def)
  qed (use a b s in simp_all)
qed

lemma flood_spec:
  assumes wf: "wf_cell c" and cl: "classes_closed c lab0" and label: "\<forall>v<cell_len c. lab0 ! v \<noteq> Some label"
    and start: "start < cell_len c" "lab0 ! start = None"
  shows "\<exists>lab k. flood c label lab0 start = Some (lab, [], k) \<and> classes_closed c lab \<and> 0 < k
    \<and> lab ! start = Some label \<and> (\<forall>v<cell_len c. lab ! v = lab0 ! v \<or> lab0 ! v = None \<and> lab ! v = Some label)
    \<and> (\<forall>v<cell_len c. lab ! v = Some label \<longrightarrow> linked_nodes c start v)"
proof -
  let ?s = "(lab0[start := Some label], [start], 0)" and ?b = "\<lambda>(component, stack, seen). stack \<noteq> []"
  have len: "length lab0 = cell_len c" using cl by (simp add: classes_closed_def)
  have inv0: "flood_inv c label start lab0 ?s"
    using start label len by (auto simp: flood_inv_def nth_list_update linked_refl)
  have step: "flood_inv c label start lab0 (flood_step c label s)
      \<and> (case flood_step c label s of (l, st, k) \<Rightarrow> 2 * unlabelled l + length st) < (case s of (l, st, k) \<Rightarrow> 2 * unlabelled l + length st)"
    if inv: "flood_inv c label start lab0 s" and ne: "?b s" for s
  proof -
    obtain lab st k where s: "s = (lab, st, k)" by (cases s) auto
    then obtain node stack where st: "st = node # stack" using ne by (cases st) auto
    obtain lab' stack' where f: "foldl (label_neighbour label) (lab, stack) (neighbours c node) = (lab', stack')" by fastforce
    show ?thesis using flood_step_inv[OF wf cl label inv[unfolded s st] f] f by (simp add: s st flood_step_def)
  qed
  obtain t where t: "while_option ?b (flood_step c label) ?s = Some t" "flood_inv c label start lab0 t" "\<not> ?b t"
    using while_total[where P = "flood_inv c label start lab0" and b = ?b and c = "flood_step c label"
        and m = "\<lambda>(l, st, k). 2 * unlabelled l + length st", OF inv0 step] by blast
  obtain lab k where tt: "t = (lab, [], k)" using t(3) by (cases t) auto
  have i: "length lab = cell_len c" "\<forall>v<cell_len c. lab ! v = lab0 ! v \<or> lab0 ! v = None \<and> lab ! v = Some label"
    "\<forall>v<cell_len c. lab ! v = Some label \<longrightarrow> linked_nodes c start v"
    "\<forall>v<cell_len c. lab ! v = Some label \<longrightarrow> (\<forall>u\<in>set (neighbours c v). lab ! u = Some label)"
    "lab ! start = Some label" "0 < k"
    using t(2) unfolding tt flood_inv_def by simp_all
  have "lab ! v = lab ! u" if v: "v < cell_len c" and u: "u \<in> set (neighbours c v)" for u v
  proof -
    have un: "u < cell_len c" "v \<in> set (neighbours c u)" using wf_cellD(3,4)[OF wf v u] by auto
    show ?thesis
    proof (cases "lab ! v = Some label \<or> lab ! u = Some label")
      case True
      then show ?thesis using i(4) v u un by metis
    next
      case False
      then show ?thesis using i(2) v un cl u unfolding classes_closed_def by metis
    qed
  qed
  then show ?thesis using t(1) i(1-3,5,6) unfolding tt flood_def classes_closed_def by blast
qed

section \<open>All components\<close>

definition labelled_ok :: "cell \<Rightarrow> nat option list \<Rightarrow> nat list \<Rightarrow> bool" where
  "labelled_ok c lab sizes \<longleftrightarrow> classes_closed c lab \<and> (\<forall>k\<in>set sizes. 0 < k)
     \<and> (\<forall>v<cell_len c. \<forall>k. lab ! v = Some k \<longrightarrow> k < length sizes)
     \<and> (\<forall>k<length sizes. \<exists>r<cell_len c. lab ! r = Some k \<and> (\<forall>v<cell_len c. lab ! v = Some k \<longrightarrow> linked_nodes c r v))"

lemma label_components_spec:
  assumes "wf_cell c"
  shows "labelled_ok c lab sizes \<Longrightarrow> set starts \<subseteq> {0..<cell_len c} \<Longrightarrow>
    \<exists>lab' sizes'. label_components c starts lab sizes = Some (lab', sizes') \<and> labelled_ok c lab' sizes'
      \<and> (\<forall>v<cell_len c. lab ! v \<noteq> None \<longrightarrow> lab' ! v \<noteq> None) \<and> (\<forall>v\<in>set starts. lab' ! v \<noteq> None)"
proof (induction starts arbitrary: lab sizes)
  case (Cons start starts)
  show ?case
  proof (cases "lab ! start = None")
    case True
    have ok: "classes_closed c lab" "\<forall>v<cell_len c. lab ! v \<noteq> Some (length sizes)" and s: "start < cell_len c"
      using Cons.prems by (auto simp: labelled_ok_def)
    obtain lab1 k where f: "flood c (length sizes) lab start = Some (lab1, [], k)" "classes_closed c lab1" "0 < k"
      "lab1 ! start = Some (length sizes)"
      "\<forall>v<cell_len c. lab1 ! v = lab ! v \<or> lab ! v = None \<and> lab1 ! v = Some (length sizes)"
      "\<forall>v<cell_len c. lab1 ! v = Some (length sizes) \<longrightarrow> linked_nodes c start v"
      using flood_spec[OF assms ok s True] by blast
    have "labelled_ok c lab1 (sizes @ [k])"
      unfolding labelled_ok_def
    proof (intro conjI allI impI)
      show "j < length (sizes @ [k])" if "v < cell_len c" "lab1 ! v = Some j" for v j
        using f(5) that Cons.prems(1) unfolding labelled_ok_def by fastforce
      show "\<exists>r<cell_len c. lab1 ! r = Some j \<and> (\<forall>v<cell_len c. lab1 ! v = Some j \<longrightarrow> linked_nodes c r v)"
        if j: "j < length (sizes @ [k])" for j
      proof (cases "j = length sizes")
        case True
        then show ?thesis using f(4,6) s by blast
      next
        case False
        then have "j < length sizes" using j by simp
        then obtain r where r: "r < cell_len c" "lab ! r = Some j" "\<forall>v<cell_len c. lab ! v = Some j \<longrightarrow> linked_nodes c r v"
          using Cons.prems(1) unfolding labelled_ok_def by blast
        have "lab1 ! r = Some j" using f(5) r(1,2) by force
        moreover have "\<forall>v<cell_len c. lab1 ! v = Some j \<longrightarrow> lab ! v = Some j" using f(5) False by force
        ultimately show ?thesis using r by blast
      qed
    qed (use f(2,3) Cons.prems(1) in \<open>auto simp: labelled_ok_def\<close>)
    from Cons.IH[OF this] obtain lab' sizes' where r: "label_components c starts lab1 (sizes @ [k]) = Some (lab', sizes')"
      "labelled_ok c lab' sizes'" "\<forall>v<cell_len c. lab1 ! v \<noteq> None \<longrightarrow> lab' ! v \<noteq> None" "\<forall>v\<in>set starts. lab' ! v \<noteq> None"
      using Cons.prems(2) by auto
    have "label_components c (start # starts) lab sizes = Some (lab', sizes')" using True f(1) r(1) by simp
    moreover have "\<forall>v<cell_len c. lab ! v \<noteq> None \<longrightarrow> lab' ! v \<noteq> None" using r(3) f(5) by metis
    moreover have "lab' ! start \<noteq> None" using r(3) f(4) s by force
    ultimately show ?thesis using r(2,4) by (intro exI[of _ lab'] exI[of _ sizes']) simp
  next
    case False
    obtain lab' sizes' where r: "label_components c starts lab sizes = Some (lab', sizes')"
      "labelled_ok c lab' sizes'" "\<forall>v<cell_len c. lab ! v \<noteq> None \<longrightarrow> lab' ! v \<noteq> None" "\<forall>v\<in>set starts. lab' ! v \<noteq> None"
      using Cons.IH[OF Cons.prems(1)] Cons.prems(2) by auto
    moreover have "start < cell_len c" using Cons.prems(2) by simp
    ultimately show ?thesis using False by (intro exI[of _ lab'] exI[of _ sizes']) simp
  qed
qed simp

section \<open>Groups\<close>

lemma assign_group_other: "l \<noteq> k \<Longrightarrow> fst (assign_group sizes s k) ! l = fst s ! l"
  by (cases s) (simp add: assign_group_def)

lemma assign_groups_other: "l \<notin> set ks \<Longrightarrow> fst (foldl (assign_group sizes) s ks) ! l = fst s ! l"
  by (induction ks arbitrary: s) (simp_all add: assign_group_other)

lemma list_with_two: "2 \<le> length xs \<Longrightarrow> \<exists>a b ys. xs = a # b # ys"
  by (cases xs; cases "tl xs") auto

lemma component_groups_both:
  assumes "2 \<le> length sizes" "\<forall>k\<in>set sizes. 0 < k"
  shows "\<exists>a<length sizes. \<exists>b<length sizes. \<not> component_groups sizes ! a \<and> component_groups sizes ! b"
proof -
  let ?o = "sort_key (\<lambda>label. (- int (sizes ! label), label)) [0..<length sizes]"
  have l: "length ?o = length sizes" "distinct ?o" "set ?o = {0..<length sizes}" by simp_all
  have "2 \<le> length ?o" using l(1) assms(1) by (simp only:)
  then obtain a b ks where o: "?o = a # b # ks" using list_with_two by blast
  have ab: "a < length sizes" "b < length sizes" "a \<noteq> b" "a \<notin> set ks" "b \<notin> set ks"
    using l(2,3) unfolding o by auto
  have pos: "0 < sizes ! a" using assms(2) ab(1) by simp
  let ?z = "replicate (length sizes) False"
  have s: "assign_group sizes (assign_group sizes (?z, 0, 0) a) b = (?z[a := False, b := True], sizes ! a, sizes ! b)"
    using pos by (simp add: assign_group_def)
  have "component_groups sizes ! x = ?z[a := False, b := True] ! x" if "x \<notin> set ks" for x
    using assign_groups_other[OF that, of sizes] by (simp add: component_groups_def o s)
  then show ?thesis using ab by (intro exI[of _ a] conjI exI[of _ b]) (simp_all add: nth_list_update)
qed

lemma split_components_spec:
  assumes "wf_cell c"
  shows "(split_components c = Some None \<and> (\<forall>u<cell_len c. \<forall>v<cell_len c. linked_nodes c u v))
    \<or> (\<exists>left right. split_components c = Some (Some (left, right)) \<and> left \<noteq> [] \<and> right \<noteq> []
        \<and> sorted_wrt (<) left \<and> sorted_wrt (<) right
        \<and> set left \<inter> set right = {} \<and> set left \<union> set right = {0..<cell_len c}
        \<and> (\<forall>u\<in>set left. \<forall>v\<in>set right. v \<notin> set (neighbours c u)))"
proof -
  let ?n = "cell_len c"
  have start: "labelled_ok c (replicate ?n None) []"
    using wf_cellD(3)[OF assms] by (auto simp: labelled_ok_def classes_closed_def)
  obtain lab sizes where f: "label_components c [0..<?n] (replicate ?n None) [] = Some (lab, sizes)"
    "labelled_ok c lab sizes" "\<forall>v\<in>set [0..<?n]. lab ! v \<noteq> None"
    using label_components_spec[OF assms start, of "[0..<?n]"] by auto
  have lt: "\<exists>k<length sizes. lab ! v = Some k" if "v < ?n" for v
    using f(2,3) that unfolding labelled_ok_def by (metis atLeastLessThan_iff not_Some_eq set_upt zero_le)
  have cl: "lab ! u = lab ! v" if "u < ?n" "v \<in> set (neighbours c u)" for u v
    using f(2) that unfolding labelled_ok_def classes_closed_def by blast
  show ?thesis
  proof (cases "length sizes < 2")
    case True
    have "linked_nodes c u v" if uv: "u < ?n" "v < ?n" for u v
    proof -
      have "lab ! u = Some 0" "lab ! v = Some 0" "0 < length sizes" using lt[OF uv(1)] lt[OF uv(2)] True by force+
      then obtain r where "linked_nodes c r u" "linked_nodes c r v" using f(2) uv unfolding labelled_ok_def by metis
      then show ?thesis using linked_trans linked_sym[OF assms] by blast
    qed
    then show ?thesis using f(1) True by (simp add: split_components_def)
  next
    case False
    let ?g = "component_groups sizes"
    let ?l = "filter (in_group ?g lab False) [0..<?n]" and ?r = "filter (in_group ?g lab True) [0..<?n]"
    obtain a b where ab: "a < length sizes" "b < length sizes" "\<not> ?g ! a" "?g ! b"
      using component_groups_both[of sizes] False f(2) by (auto simp: labelled_ok_def)
    obtain x y where xy: "x < ?n" "lab ! x = Some a" "y < ?n" "lab ! y = Some b"
      using f(2) ab(1,2) unfolding labelled_ok_def by metis
    have "x \<in> set ?l" "y \<in> set ?r" using xy ab by (simp_all add: in_group_def)
    then have ne: "?l \<noteq> []" "?r \<noteq> []" by (metis empty_iff list.set(1))+
    then have res: "split_components c = Some (Some (?l, ?r))"
      using f(1) False by (simp add: split_components_def Let_def)
    have side: "in_group ?g lab False v \<longleftrightarrow> \<not> in_group ?g lab True v" if "v < ?n" for v
      using lt[OF that] by (auto simp: in_group_def)
    have "in_group ?g lab s u \<longleftrightarrow> in_group ?g lab s v" if "u < ?n" "v \<in> set (neighbours c u)" for s u v
      using cl[OF that] by (simp add: in_group_def)
    then have "\<forall>u\<in>set ?l. \<forall>v\<in>set ?r. v \<notin> set (neighbours c u)" using side by force
    moreover have "set ?l \<inter> set ?r = {}" "set ?l \<union> set ?r = {0..<?n}" using side by auto
    ultimately show ?thesis using res ne by (intro disjI2 exI[of _ ?l] exI[of _ ?r]) (simp add: sorted_wrt_filter)
  qed
qed

text \<open>C36: splitting by components is exact: the code returns for every cell; it answers no split exactly
  when every two nodes are linked by a path of arcs, and otherwise two non-empty sides, in index
  order, that together hold every node once and that no arc joins.\<close>

theorem split_components_exact:
  assumes "wf_cell c"
  shows "(split_components c = Some None \<and> (\<forall>u<cell_len c. \<forall>v<cell_len c. linked_nodes c u v))
    \<or> (\<exists>left right. split_components c = Some (Some (left, right)) \<and> left \<noteq> [] \<and> right \<noteq> []
        \<and> sorted_wrt (<) left \<and> sorted_wrt (<) right
        \<and> set left \<inter> set right = {} \<and> set left \<union> set right = {0..<cell_len c}
        \<and> (\<forall>u\<in>set left. \<forall>v\<in>set right. v \<notin> set (neighbours c u)))"
  by (rule split_components_spec[OF assms])

theorem split_components_exact_witness: "{v. v < cell_len witness_cell \<and> \<not> linked_nodes witness_cell 0 v} = {}"
proof -
  have "split_components witness_cell = Some None" by code_simp
  then show ?thesis using split_components_exact[OF wf_witness_cell] by auto
qed

end
