(* ===== verification/Dissect.thy ===== *)
theory Dissect
  imports Inertial Min_Degree Components
begin

text \<open>
  Nested dissection (\<open>dissect\<close> and \<open>nested_dissection_order\<close> of
  \<open>crates/ingest/src/acceleration.rs\<close>): whole components, otherwise a vertex separator, are peeled
  off until a cell has at most \<open>LEAF_NODES\<close> nodes, which minimum degree orders. The recursion is a
  partial function; the theorems show that it returns a permutation of the states, that the order
  is a dissection of the cell (the two sides of the cut the code chooses, then its separator, at every level), and what that
  buys the hierarchy: at every cut below the top cell that is reached through sides, no arc, base or
  shortcut, joins the two sides, and the separator outranks both. \<open>rayon::join\<close> of two pure
  closures is the pair of their results.
\<close>

section \<open>The code\<close>

definition LEAF_NODES :: nat where
  "LEAF_NODES = 32"

definition choose_split :: "cell \<Rightarrow> split option" where
  "choose_split c = map_option (\<lambda>best. case best of Some p \<Rightarrow> p | None \<Rightarrow> coordinate_split c) (inertial_flow_split c)"

partial_function (option) dissect :: "cell \<Rightarrow> nat \<Rightarrow> nat list option" where
  "dissect c leaf_nodes =
     (if cell_len c = 0 then Some []
      else if cell_len c \<le> leaf_nodes then minimum_degree_order c
      else Option.bind (split_components c) (\<lambda>groups.
        case groups of
          Some (left, right) \<Rightarrow>
            Option.bind (dissect (induced c left) leaf_nodes) (\<lambda>left_order.
            Option.bind (dissect (induced c right) leaf_nodes) (\<lambda>right_order.
            Some (left_order @ right_order)))
        | None \<Rightarrow>
            Option.bind (choose_split c) (\<lambda>p.
            Option.bind (dissect (induced c (side_a p)) leaf_nodes) (\<lambda>a_order.
            Option.bind (dissect (induced c (side_b p)) leaf_nodes) (\<lambda>b_order.
            Option.bind (dissect (induced c (separator p)) leaf_nodes) (\<lambda>separator_order.
            Some (a_order @ b_order @ separator_order)))))))"

declare dissect.simps [code]

definition nested_dissection_order :: "transitions \<Rightarrow> (nat \<Rightarrow> rat) \<Rightarrow> (nat \<Rightarrow> rat) \<Rightarrow> nat list option" where
  "nested_dissection_order t px py = dissect (build_edge_cell t px py) LEAF_NODES"

definition build_dataset_acceleration_bundle :: "transitions \<Rightarrow> (nat \<Rightarrow> rat) \<Rightarrow> (nat \<Rightarrow> rat) \<Rightarrow> acceleration_bundle option" where
  "build_dataset_acceleration_bundle t px py = map_option (build_with_order t) (nested_dissection_order t px py)"

section \<open>Dissections\<close>

text \<open>The cut the code makes in a cell: whole components when there are several, otherwise the best
  flow split, otherwise the coordinate split.\<close>

definition cell_cut :: "cell \<Rightarrow> split option" where
  "cell_cut c = (case split_components c of
       None \<Rightarrow> None
     | Some None \<Rightarrow> choose_split c
     | Some (Some (left, right)) \<Rightarrow> Some \<lparr>side_a = left, side_b = right, separator = []\<rparr>)"

text \<open>The orders nested dissection may produce.\<close>

inductive dissection :: "nat \<Rightarrow> cell \<Rightarrow> nat list \<Rightarrow> bool" for leaf_nodes where
  empty: "cell_len c = 0 \<Longrightarrow> dissection leaf_nodes c []"
| leaf: "cell_len c \<le> leaf_nodes \<Longrightarrow> least_degree_sequence (cell_graph c) {0..<cell_len c} vs
    \<Longrightarrow> dissection leaf_nodes c (map (\<lambda>v. cell_ids c ! v) vs)"
| cut: "leaf_nodes < cell_len c \<Longrightarrow> cell_cut c = Some p \<Longrightarrow> split_ok c p \<Longrightarrow> side_b p \<noteq> [] \<Longrightarrow> side_a p @ separator p \<noteq> []
    \<Longrightarrow> dissection leaf_nodes (induced c (side_a p)) a \<Longrightarrow> dissection leaf_nodes (induced c (side_b p)) b
    \<Longrightarrow> dissection leaf_nodes (induced c (separator p)) s \<Longrightarrow> dissection leaf_nodes c (a @ b @ s)"

inductive_cases dissection_cutE: "dissection leaf_nodes c order"

lemma split_parts:
  assumes "split_ok c p"
  shows "sorted_wrt (<) (side_a p)" "sorted_wrt (<) (side_b p)" "sorted_wrt (<) (separator p)"
    "set (side_a p) \<subseteq> {0..<cell_len c}" "set (side_b p) \<subseteq> {0..<cell_len c}" "set (separator p) \<subseteq> {0..<cell_len c}"
    "mset (side_a p @ side_b p @ separator p) = mset [0..<cell_len c]"
    "length (side_a p) + length (side_b p) + length (separator p) = cell_len c"
proof -
  have s: "sorted_wrt (<) (side_a p)" "sorted_wrt (<) (side_b p)" "sorted_wrt (<) (separator p)"
    and u: "set (side_a p) \<union> set (side_b p) \<union> set (separator p) = {0..<cell_len c}"
    and d: "set (side_a p) \<inter> set (side_b p) = {}" "set (side_a p) \<inter> set (separator p) = {}" "set (side_b p) \<inter> set (separator p) = {}"
    using assms unfolding split_ok_def by blast+
  show "sorted_wrt (<) (side_a p)" "sorted_wrt (<) (side_b p)" "sorted_wrt (<) (separator p)" by (rule s)+
  show "set (side_a p) \<subseteq> {0..<cell_len c}" "set (side_b p) \<subseteq> {0..<cell_len c}" "set (separator p) \<subseteq> {0..<cell_len c}"
    using u by blast+
  have "distinct (side_a p @ side_b p @ separator p)" using s d by (auto simp: strict_sorted_iff)
  then show m: "mset (side_a p @ side_b p @ separator p) = mset [0..<cell_len c]"
    using u by (intro set_eq_iff_mset_eq_distinct[THEN iffD1]) auto
  from mset_eq_length[OF m] show "length (side_a p) + length (side_b p) + length (separator p) = cell_len c" by simp
qed

lemma dissection_mset:
  "dissection leaf_nodes c order \<Longrightarrow> wf_cell c \<Longrightarrow> mset order = mset (cell_ids c)"
proof (induction rule: dissection.induct)
  case (leaf c vs)
  have "distinct vs" "set vs = {0..<cell_len c}" using least_degree_sequence_set[OF leaf.hyps(2)] by simp_all
  then have "mset vs = mset [0..<cell_len c]" by (intro set_eq_iff_mset_eq_distinct[THEN iffD1]) auto
  then have "mset (map (\<lambda>v. cell_ids c ! v) vs) = mset (map (\<lambda>v. cell_ids c ! v) [0..<cell_len c])" by simp
  then show ?case by (simp add: cell_len_def map_nth)
next
  case (cut c p a b s)
  note parts = split_parts[OF cut.hyps(3)]
  have "mset a = mset (map (\<lambda>v. cell_ids c ! v) (side_a p))" "mset b = mset (map (\<lambda>v. cell_ids c ! v) (side_b p))"
    "mset s = mset (map (\<lambda>v. cell_ids c ! v) (separator p))"
    using cut.IH wf_induced[OF cut.prems parts(1,4)] wf_induced[OF cut.prems parts(2,5)] wf_induced[OF cut.prems parts(3,6)] by simp_all
  then have "mset (a @ b @ s) = image_mset (\<lambda>v. cell_ids c ! v) (mset (side_a p @ side_b p @ separator p))" by simp
  also have "\<dots> = mset (map (\<lambda>v. cell_ids c ! v) [0..<cell_len c])" unfolding parts(7) by simp
  finally show ?case by (simp add: cell_len_def map_nth)
qed (simp add: cell_len_def)

section \<open>The code returns a dissection\<close>

lemma choose_split_ok:
  assumes wf: "wf_cell c" and n: "2 \<le> cell_len c" "cell_len c < u32_max"
  shows "\<exists>p. choose_split c = Some p \<and> split_ok c p \<and> side_b p \<noteq> [] \<and> side_a p @ separator p \<noteq> []"
proof -
  have coordinate: "side_b (coordinate_split c) \<noteq> [] \<and> side_a (coordinate_split c) @ separator (coordinate_split c) \<noteq> []"
  proof -
    have "length (side_b (coordinate_split c)) = cell_len c - cell_len c div 2" by (rule coordinate_split_ok(2)[OF wf])
    moreover have "cell_len c div 2 < cell_len c" "0 < cell_len c div 2" using n(1) by linarith+
    ultimately have "0 < length (side_b (coordinate_split c))" "0 < length (side_a (coordinate_split c)) + length (separator (coordinate_split c))"
      using split_parts(8)[OF coordinate_split_ok(1)[OF wf]] by linarith+
    then have "0 < length (side_b (coordinate_split c))" "0 < length (side_a (coordinate_split c) @ separator (coordinate_split c))"
      unfolding length_append .
    then show ?thesis by (metis length_greater_0_conv)
  qed
  show ?thesis
  proof (cases "4 \<le> cell_len c")
    case True
    obtain r where r: "inertial_flow_split c = Some r" "case r of None \<Rightarrow> True
       | Some p \<Rightarrow> split_ok c p \<and> cell_len c div 4 \<le> length (side_a p) \<and> cell_len c div 4 \<le> length (side_b p)"
      using inertial_flow_best[OF wf True n(2)] by (auto split: option.splits)
    have side: "0 < cell_len c div 4" using True by linarith
    show ?thesis
    proof (cases r)
      case None
      then show ?thesis using r(1) coordinate coordinate_split_ok(1)[OF wf] by (simp add: choose_split_def)
    next
      case (Some p)
      then have "0 < length (side_a p)" "0 < length (side_b p)" using r(2) side by (simp_all only: option.case) linarith+
      then show ?thesis using r Some by (simp add: choose_split_def)
    qed
  next
    case False
    then have "inertial_flow_split c = Some None" by (simp add: inertial_flow_split_def Let_def)
    then show ?thesis using coordinate coordinate_split_ok(1)[OF wf] by (simp add: choose_split_def)
  qed
qed

lemma dissect_returns:
  "wf_cell c \<Longrightarrow> cell_len c < u32_max \<Longrightarrow> 0 < leaf_nodes \<Longrightarrow> \<exists>order. dissect c leaf_nodes = Some order \<and> dissection leaf_nodes c order"
proof (induction "cell_len c" arbitrary: c rule: less_induct)
  case less
  note wf = less.prems(1)
  have sub: "\<exists>order. dissect (induced c ms) leaf_nodes = Some order \<and> dissection leaf_nodes (induced c ms) order"
    if "sorted_wrt (<) ms" "set ms \<subseteq> {0..<cell_len c}" "length ms < cell_len c" for ms
    using less.hyps[of "induced c ms"] wf_induced[OF wf that(1,2)] that(3) less.prems(2,3) by simp
  have cut: "\<exists>a b s. dissect (induced c (side_a p)) leaf_nodes = Some a \<and> dissect (induced c (side_b p)) leaf_nodes = Some b
      \<and> dissect (induced c (separator p)) leaf_nodes = Some s \<and> dissection leaf_nodes c (a @ b @ s)
      \<and> (separator p = [] \<longrightarrow> s = [])"
    if p: "split_ok c p" "side_b p \<noteq> []" "side_a p @ separator p \<noteq> []" "leaf_nodes < cell_len c"
      and chosen: "cell_cut c = Some p" for p
  proof -
    note parts = split_parts[OF p(1)]
    have "0 < length (side_b p)" "0 < length (side_a p) + length (separator p)" using p(2,3) by simp_all
    then have lt: "length (side_b p) < cell_len c" "length (side_a p) < cell_len c" "length (separator p) < cell_len c"
      using parts(8) by linarith+
    obtain a b s where o: "dissect (induced c (side_a p)) leaf_nodes = Some a" "dissection leaf_nodes (induced c (side_a p)) a"
      "dissect (induced c (side_b p)) leaf_nodes = Some b" "dissection leaf_nodes (induced c (side_b p)) b"
      "dissect (induced c (separator p)) leaf_nodes = Some s" "dissection leaf_nodes (induced c (separator p)) s"
      using sub[OF parts(1,4) lt(2)] sub[OF parts(2,5) lt(1)] sub[OF parts(3,6) lt(3)] by blast
    have "s = []" if "separator p = []"
      using dissection_mset[OF o(6)] wf_induced[OF wf parts(3,6)] that by simp
    then show ?thesis using o dissection.cut[OF p(4) chosen p(1-3) o(2,4,6)] by blast
  qed
  consider "cell_len c = 0" | "0 < cell_len c" "cell_len c \<le> leaf_nodes" | "0 < cell_len c" "leaf_nodes < cell_len c" by linarith
  then show ?case
  proof cases
    case 1
    then show ?thesis by (auto simp: dissect.simps[of c] intro: dissection.empty)
  next
    case 2
    then show ?thesis using minimum_degree_returns[OF wf] by (auto simp: dissect.simps[of c] intro: dissection.leaf)
  next
    case 3
    have big: "\<not> cell_len c \<le> leaf_nodes" "2 \<le> cell_len c" using 3 less.prems(3) by linarith+
    from split_components_spec[OF wf] show ?thesis
    proof (elim disjE exE conjE)
      assume g: "split_components c = Some None"
      obtain p where p: "choose_split c = Some p" "split_ok c p" "side_b p \<noteq> []" "side_a p @ separator p \<noteq> []"
        using choose_split_ok[OF wf big(2) less.prems(2)] by blast
      obtain a b s where o: "dissect (induced c (side_a p)) leaf_nodes = Some a" "dissect (induced c (side_b p)) leaf_nodes = Some b"
        "dissect (induced c (separator p)) leaf_nodes = Some s" "dissection leaf_nodes c (a @ b @ s)"
        using cut[OF p(2-4) 3(2)] g p(1) by (auto simp: cell_cut_def)
      have "dissect c leaf_nodes = Some (a @ b @ s)" unfolding dissect.simps[of c] using g big p(1) o(1-3) 3(1) by simp
      then show ?thesis using o(4) by blast
    next
      fix left right
      assume g: "split_components c = Some (Some (left, right))" "left \<noteq> []" "right \<noteq> []" "sorted_wrt (<) left" "sorted_wrt (<) right"
        "set left \<inter> set right = {}" "set left \<union> set right = {0..<cell_len c}" "\<forall>u\<in>set left. \<forall>v\<in>set right. v \<notin> set (neighbours c u)"
      let ?p = "\<lparr>side_a = left, side_b = right, separator = []\<rparr>"
      have p: "split_ok c ?p" "cell_cut c = Some ?p" using g by (simp_all add: split_ok_def cell_cut_def)
      obtain a b where o: "dissect (induced c left) leaf_nodes = Some a" "dissect (induced c right) leaf_nodes = Some b"
        "dissection leaf_nodes c (a @ b @ [])"
        using cut[OF p(1) _ _ 3(2) p(2)] g(2,3) by auto
      have "dissect c leaf_nodes = Some (a @ b)" unfolding dissect.simps[of c] using g(1) big o(1,2) 3(1) by simp
      then show ?thesis using o(3) by auto
    qed
  qed
qed

lemma nested_dissection_is_order:
  assumes "edge_count t < u32_max"
  shows "\<exists>order. nested_dissection_order t px py = Some order \<and> dissection LEAF_NODES (build_edge_cell t px py) order
    \<and> is_order (edge_count t) order"
proof -
  let ?c = "build_edge_cell t px py"
  have ids: "cell_ids ?c = [0..<edge_count t]" by (simp add: build_edge_cell_def split_beta)
  obtain order where o: "dissect ?c LEAF_NODES = Some order" "dissection LEAF_NODES ?c order"
    using dissect_returns[OF wf_build_edge_cell, of t px py LEAF_NODES] assms by (auto simp: LEAF_NODES_def)
  have m: "mset order = mset [0..<edge_count t]" using dissection_mset[OF o(2) wf_build_edge_cell] ids by simp
  then have "distinct order" "set order = {0..<edge_count t}"
    using mset_eq_imp_distinct_iff[OF m] mset_eq_setD[OF m] by simp_all
  then show ?thesis using o by (auto simp: nested_dissection_order_def is_order_def)
qed

text \<open>C33: nested dissection always returns, and its result is an elimination order: a permutation of
  the edge states that is a dissection of the transition graph, whatever the coordinates are. At
  every level the two sides come first and share no transition, then comes the separator; cells of
  at most \<open>LEAF_NODES\<close> states are in minimum-degree order.\<close>

theorem nested_dissection_returns_order:
  assumes "edge_count t < u32_max"
  shows "\<exists>order. nested_dissection_order t px py = Some order \<and> is_order (edge_count t) order
    \<and> dissection LEAF_NODES (build_edge_cell t px py) order"
  using nested_dissection_is_order[OF assms, of px py] by blast

theorem nested_dissection_returns_order_witness:
  "nested_dissection_order witness_transitions (\<lambda>v. of_nat v) (\<lambda>v. 0) = Some [0, 1, 2, 3]
    \<and> dissection LEAF_NODES (build_edge_cell witness_transitions (\<lambda>v. of_nat v) (\<lambda>v. 0)) [0, 1, 2, 3]"
proof -
  have "edge_count witness_transitions < u32_max" by (simp add: witness_transitions_def u32_max_def)
  from nested_dissection_returns_order[OF this, of "\<lambda>v. of_nat v" "\<lambda>v. 0"]
  obtain order where o: "nested_dissection_order witness_transitions (\<lambda>v. of_nat v) (\<lambda>v. 0) = Some order"
    "dissection LEAF_NODES (build_edge_cell witness_transitions (\<lambda>v. of_nat v) (\<lambda>v. 0)) order" by blast
  have "nested_dissection_order witness_transitions (\<lambda>v. of_nat v) (\<lambda>v. 0) = Some [0, 1, 2, 3]" by code_simp
  then show ?thesis using o by simp
qed

section \<open>No arc of the hierarchy joins the two sides\<close>

text \<open>The cells of the recursion that are reached through sides only.\<close>

inductive side_cell :: "cell \<Rightarrow> cell \<Rightarrow> bool" for c0 where
  whole: "side_cell c0 c0"
| left: "side_cell c0 c \<Longrightarrow> LEAF_NODES < cell_len c \<Longrightarrow> cell_cut c = Some p \<Longrightarrow> side_cell c0 (induced c (side_a p))"
| right: "side_cell c0 c \<Longrightarrow> LEAF_NODES < cell_len c \<Longrightarrow> cell_cut c = Some p \<Longrightarrow> side_cell c0 (induced c (side_b p))"

definition states_of :: "cell \<Rightarrow> nat list \<Rightarrow> nat set" where
  "states_of c ms = (\<lambda>v. cell_ids c ! v) ` set ms"

lemma cell_cut_ok:
  assumes wf: "wf_cell c" and n: "2 \<le> cell_len c" "cell_len c < u32_max"
  shows "\<exists>p. cell_cut c = Some p \<and> split_ok c p \<and> side_b p \<noteq> [] \<and> side_a p @ separator p \<noteq> []
    \<and> (split_components c = Some None \<longrightarrow> inertial_flow_split c = Some (Some p)
        \<longrightarrow> cell_len c div 4 \<le> length (side_a p) \<and> cell_len c div 4 \<le> length (side_b p))"
  using split_components_spec[OF wf]
proof (elim disjE exE conjE)
  assume g: "split_components c = Some None"
  obtain p where p: "choose_split c = Some p" "split_ok c p" "side_b p \<noteq> []" "side_a p @ separator p \<noteq> []"
    using choose_split_ok[OF wf n] by blast
  have flow: "4 \<le> cell_len c \<and> cell_len c div 4 \<le> length (side_a p) \<and> cell_len c div 4 \<le> length (side_b p)"
    if f: "inertial_flow_split c = Some (Some p)"
  proof -
    have four: "4 \<le> cell_len c" using f by (auto simp: inertial_flow_split_def Let_def not_le split: if_splits)
    show ?thesis using inertial_flow_best[OF wf four n(2)] f four by auto
  qed
  show ?thesis using p g flow by (intro exI[of _ p]) (simp add: cell_cut_def)
next
  fix left right
  assume g: "split_components c = Some (Some (left, right))" "left \<noteq> []" "right \<noteq> []" "sorted_wrt (<) left" "sorted_wrt (<) right"
    "set left \<inter> set right = {}" "set left \<union> set right = {0..<cell_len c}" "\<forall>u\<in>set left. \<forall>v\<in>set right. v \<notin> set (neighbours c u)"
  have "split_ok c \<lparr>side_a = left, side_b = right, separator = []\<rparr>" using g by (simp add: split_ok_def)
  then show ?thesis using g by (intro exI[of _ "\<lparr>side_a = left, side_b = right, separator = []\<rparr>"]) (simp add: cell_cut_def)
qed

lemma side_cell_wf:
  "side_cell c0 c \<Longrightarrow> wf_cell c0 \<Longrightarrow> cell_len c0 < u32_max \<Longrightarrow> wf_cell c \<and> cell_len c < u32_max"
proof (induction rule: side_cell.induct)
  case (left c p)
  then have "split_ok c p" using cell_cut_ok[of c] by (auto simp: LEAF_NODES_def)
  note parts = split_parts[OF this]
  show ?case using wf_induced[OF _ parts(1,4)] parts(8) left by auto
next
  case (right c p)
  then have "split_ok c p" using cell_cut_ok[of c] by (auto simp: LEAF_NODES_def)
  note parts = split_parts[OF this]
  show ?case using wf_induced[OF _ parts(2,5)] parts(8) right by auto
qed simp

text \<open>A set of states is closed off when whatever its arcs reach outside outranks all of it.\<close>

definition closed_off :: "(nat \<times> nat) set \<Rightarrow> (nat \<Rightarrow> nat) \<Rightarrow> nat set \<Rightarrow> bool" where
  "closed_off B r X \<longleftrightarrow> (\<forall>x y. elim_arc B r x y \<longrightarrow>
     (x \<in> X \<longrightarrow> y \<notin> X \<longrightarrow> (\<forall>z\<in>X. r z < r y)) \<and> (y \<in> X \<longrightarrow> x \<notin> X \<longrightarrow> (\<forall>z\<in>X. r z < r x)))"

lemma sides_apart:
  assumes X: "closed_off B r (L \<union> R \<union> S)"
    and base: "\<And>x y. (x, y) \<in> B \<Longrightarrow> \<not> (x \<in> L \<and> y \<in> R) \<and> \<not> (x \<in> R \<and> y \<in> L)"
    and rank: "\<And>x v. x \<in> L \<union> R \<Longrightarrow> v \<in> S \<Longrightarrow> r x < (r v :: nat)"
  shows "elim_arc B r x y \<Longrightarrow> \<not> (x \<in> L \<and> y \<in> R) \<and> \<not> (x \<in> R \<and> y \<in> L)"
proof (induction rule: elim_arc.induct)
  case (shortcut x v y)
  have "v \<in> L \<union> R" if x: "x \<in> L \<union> R"
  proof (rule ccontr)
    assume "v \<notin> L \<union> R"
    moreover have "v \<notin> S" using rank[OF x, of v] shortcut.hyps(3) by auto
    ultimately have "r x < r v" using X shortcut.hyps(1) x unfolding closed_off_def by blast
    then show False using shortcut.hyps(3) by simp
  qed
  then show ?case using shortcut.IH by blast
qed (use base in blast)

lemma side_closed_off:
  assumes X: "closed_off B r (L \<union> R \<union> S)" and apart: "\<And>x y. elim_arc B r x y \<Longrightarrow> \<not> (x \<in> L \<and> y \<in> R) \<and> \<not> (x \<in> R \<and> y \<in> L)"
    and rank: "\<And>x v. x \<in> L \<Longrightarrow> v \<in> S \<Longrightarrow> r x < (r v :: nat)"
  shows "closed_off B r L"
proof -
  have above: "r z < r y" if "y \<notin> L" "z \<in> L" "x \<in> L" "elim_arc B r x y \<or> elim_arc B r y x" for x y z
  proof (cases "y \<in> L \<union> R \<union> S")
    case True
    then have "y \<in> S" using apart that by blast
    then show ?thesis using rank[OF that(2)] by blast
  next
    case False
    then show ?thesis using X that unfolding closed_off_def by blast
  qed
  then show ?thesis unfolding closed_off_def by blast
qed

lemma rank_append:
  assumes "is_order n (xs @ ys)" "x \<in> set xs" "y \<in> set ys"
  shows "ranks_of_order n (xs @ ys) ! x < ranks_of_order n (xs @ ys) ! y"
proof -
  obtain i j where ij: "i < length xs" "xs ! i = x" "j < length ys" "ys ! j = y"
    using assms(2,3) by (auto simp: in_set_conv_nth)
  have len: "length (xs @ ys) = n" if "0 < n" using ranks_of_order_nth(3)[OF assms(1) that] .
  have n: "length xs + length ys = n"
    using assms(1) distinct_card[of "xs @ ys"] by (simp add: is_order_def)
  have "ranks_of_order n (xs @ ys) ! ((xs @ ys) ! i) = i" "ranks_of_order n (xs @ ys) ! ((xs @ ys) ! (length xs + j)) = length xs + j"
    using ij n by (intro ranks_of_order_nth(1)[OF assms(1)]; simp)+
  then show ?thesis using ij by (simp add: nth_append)
qed

lemma base_arcs_neighbours:
  "(x, y) \<in> base_arcs t \<Longrightarrow> x < edge_count t \<and> y < edge_count t
    \<and> y \<in> set (neighbours (build_edge_cell t px py) x) \<and> x \<in> set (neighbours (build_edge_cell t px py) y)"
  by (auto simp: base_arcs_def base_pairs_def neighbours_build_iff cell_pairs_iff split: if_splits)

lemma no_slot:
  assumes "is_order (edge_count t) order" "x < edge_count t"
    "\<not> elim_arc (base_arcs t) ((!) (edge_rank (build_with_order t order))) x y"
  shows "upward_arc_slot (build_with_order t order) x y = None \<and> downward_arc_slot (build_with_order t order) x y = None"
  using slot_None[OF assms(1,2), of y] eliminate_arcs(1,2)[OF assms(1), of x y] assms(3) by simp


text \<open>Adjacency in terms of the states a cell stands for.\<close>

definition cell_adjacency :: "cell \<Rightarrow> (nat \<Rightarrow> nat \<Rightarrow> bool) \<Rightarrow> bool" where
  "cell_adjacency c adj \<longleftrightarrow> (\<forall>i<cell_len c. \<forall>j<cell_len c.
     j \<in> set (neighbours c i) \<longleftrightarrow> adj (cell_ids c ! i) (cell_ids c ! j))"

lemma cell_adjacency_induced:
  assumes "cell_adjacency c adj" "wf_cell c" "sorted_wrt (<) ms" "set ms \<subseteq> {0..<cell_len c}"
  shows "cell_adjacency (induced c ms) adj"
  unfolding cell_adjacency_def
proof (intro allI impI)
  fix i j assume ij: "i < cell_len (induced c ms)" "j < cell_len (induced c ms)"
  then have "ms ! i \<in> {0..<cell_len c}" "ms ! j \<in> {0..<cell_len c}" using subsetD[OF assms(4)] by simp_all
  then have m: "ms ! i < cell_len c" "ms ! j < cell_len c" by simp_all
  have "distinct ms" using assms(3) by (simp add: strict_sorted_iff)
  then show "j \<in> set (neighbours (induced c ms) i) \<longleftrightarrow> adj (cell_ids (induced c ms) ! i) (cell_ids (induced c ms) ! j)"
    using neighbours_induced_iff[OF assms(2) _ assms(4), of i j] ij assms(1) m by (simp add: cell_adjacency_def)
qed

lemma dissection_cut_parts:
  assumes "dissection leaf_nodes c order" "leaf_nodes < cell_len c" "cell_cut c = Some p"
  shows "\<exists>a b s. order = a @ b @ s \<and> split_ok c p \<and> dissection leaf_nodes (induced c (side_a p)) a
    \<and> dissection leaf_nodes (induced c (side_b p)) b \<and> dissection leaf_nodes (induced c (separator p)) s"
  using assms by (cases rule: dissection.cases) auto

lemma states_of_induced: "set (cell_ids (induced c ms)) = states_of c ms"
  by (simp add: states_of_def)

text \<open>What a cut does to a cell whose states are closed off and stand in one block of the order.\<close>

lemma cut_apart:
  fixes r :: "nat \<Rightarrow> nat"
  assumes wf: "wf_cell c" and adj: "cell_adjacency c adj" and p: "split_ok c p"
    and d: "dissection leaf_nodes (induced c (side_a p)) a" "dissection leaf_nodes (induced c (side_b p)) b"
      "dissection leaf_nodes (induced c (separator p)) s"
    and r: "sorted_wrt (\<lambda>x y. r x < r y) (a @ b @ s)"
    and B: "\<forall>x y. (x, y) \<in> B \<longrightarrow> adj x y \<and> adj y x" and X: "closed_off B r (set (cell_ids c))"
  defines "A \<equiv> states_of c (side_a p)" and "D \<equiv> states_of c (side_b p)" and "S \<equiv> states_of c (separator p)"
  shows "\<And>x y. elim_arc B r x y \<Longrightarrow> \<not> (x \<in> A \<and> y \<in> D) \<and> \<not> (x \<in> D \<and> y \<in> A)"
    "closed_off B r A" "closed_off B r D"
    "\<And>x y. x \<in> A \<Longrightarrow> y \<in> D \<Longrightarrow> r x < r y" "\<And>x v. x \<in> A \<union> D \<Longrightarrow> v \<in> S \<Longrightarrow> r x < r v"
proof -
  note parts = split_parts[OF p]
  have sets: "set a = A" "set b = D" "set s = S"
    using mset_eq_setD[OF dissection_mset[OF d(1) wf_induced[OF wf parts(1,4)]]]
      mset_eq_setD[OF dissection_mset[OF d(2) wf_induced[OF wf parts(2,5)]]]
      mset_eq_setD[OF dissection_mset[OF d(3) wf_induced[OF wf parts(3,6)]]]
    by (simp_all only: states_of_induced A_def D_def S_def)
  show AD: "r x < r y" if "x \<in> A" "y \<in> D" for x y
    using r that unfolding sorted_wrt_append sets[symmetric] set_append by blast
  show rank: "r x < r v" if "x \<in> A \<union> D" "v \<in> S" for x v
    using r that unfolding sorted_wrt_append sets[symmetric] set_append by blast
  have "set (cell_ids c) = (\<lambda>v. cell_ids c ! v) ` {0..<cell_len c}"
    by (simp only: cell_len_def set_map[symmetric] set_upt[symmetric] map_nth)
  also have "{0..<cell_len c} = set (side_a p) \<union> set (side_b p) \<union> set (separator p)"
    using p unfolding split_ok_def by blast
  finally have all: "set (cell_ids c) = A \<union> D \<union> S" by (simp only: A_def D_def S_def states_of_def image_Un)
  note X' = X[unfolded all]
  have noadj: "\<not> adj x y" if "x \<in> A" "y \<in> D" for x y
  proof -
    obtain i j where ij: "i \<in> set (side_a p)" "x = cell_ids c ! i" "j \<in> set (side_b p)" "y = cell_ids c ! j"
      using \<open>x \<in> A\<close> \<open>y \<in> D\<close> unfolding A_def D_def states_of_def by blast
    then have "i < cell_len c" "j < cell_len c" "j \<notin> set (neighbours c i)" using p parts(4,5) unfolding split_ok_def by auto
    then show ?thesis using adj ij(2,4) unfolding cell_adjacency_def by blast
  qed
  have base: "\<not> (x \<in> A \<and> y \<in> D) \<and> \<not> (x \<in> D \<and> y \<in> A)" if "(x, y) \<in> B" for x y
    using B that noadj by blast
  show apart: "\<not> (x \<in> A \<and> y \<in> D) \<and> \<not> (x \<in> D \<and> y \<in> A)" if "elim_arc B r x y" for x y
    by (rule sides_apart[OF X' base rank that])
  show "closed_off B r A" by (rule side_closed_off[OF X' apart rank]) blast+
  have X'': "closed_off B r (D \<union> A \<union> S)" using X' by (simp only: Un_commute[of D A])
  show "closed_off B r D"
    by (rule side_closed_off[OF X'' _ rank]) (use apart in blast)+
qed

lemma side_cell_block:
  fixes r :: "nat \<Rightarrow> nat"
  assumes "side_cell c0 c" and wf: "wf_cell c0" "cell_len c0 < u32_max" and adj: "cell_adjacency c0 adj"
    and d: "dissection LEAF_NODES c0 order" and r: "sorted_wrt (\<lambda>x y. r x < r y) order"
    and B: "\<forall>x y. (x, y) \<in> B \<longrightarrow> adj x y \<and> adj y x" and X: "closed_off B r (set (cell_ids c0))"
  shows "\<exists>pre o1 post. order = pre @ o1 @ post \<and> dissection LEAF_NODES c o1 \<and> cell_adjacency c adj
    \<and> closed_off B r (set (cell_ids c))"
  using assms(1)
proof induction
  case whole
  show ?case using d adj X by (intro exI[of _ "[]"] exI[of _ order]) simp
next
  case (left c p)
  have w: "wf_cell c" using side_cell_wf[OF left.hyps(1) wf] by blast
  obtain pre o1 post where o: "order = pre @ o1 @ post" "dissection LEAF_NODES c o1" "cell_adjacency c adj"
    "closed_off B r (set (cell_ids c))" using left.IH by blast
  obtain a b s where q: "o1 = a @ b @ s" "split_ok c p" "dissection LEAF_NODES (induced c (side_a p)) a"
    "dissection LEAF_NODES (induced c (side_b p)) b" "dissection LEAF_NODES (induced c (separator p)) s"
    using dissection_cut_parts[OF o(2) left.hyps(2,3)] by blast
  have "sorted_wrt (\<lambda>x y. r x < r y) (a @ b @ s)" using r unfolding o(1) q(1) sorted_wrt_append[of _ pre] sorted_wrt_append[of _ "a @ b @ s" post] by blast
  note C = cut_apart[OF w o(3) q(2-5) this B o(4)]
  show ?case
    using o(1) q(1,3) cell_adjacency_induced[OF o(3) w split_parts(1,4)[OF q(2)]] C(2)
    by (intro exI[of _ pre] exI[of _ a] exI[of _ "b @ s @ post"]) (simp only: states_of_induced append_assoc simp_thms)
next
  case (right c p)
  have w: "wf_cell c" using side_cell_wf[OF right.hyps(1) wf] by blast
  obtain pre o1 post where o: "order = pre @ o1 @ post" "dissection LEAF_NODES c o1" "cell_adjacency c adj"
    "closed_off B r (set (cell_ids c))" using right.IH by blast
  obtain a b s where q: "o1 = a @ b @ s" "split_ok c p" "dissection LEAF_NODES (induced c (side_a p)) a"
    "dissection LEAF_NODES (induced c (side_b p)) b" "dissection LEAF_NODES (induced c (separator p)) s"
    using dissection_cut_parts[OF o(2) right.hyps(2,3)] by blast
  have "sorted_wrt (\<lambda>x y. r x < r y) (a @ b @ s)" using r unfolding o(1) q(1) sorted_wrt_append[of _ pre] sorted_wrt_append[of _ "a @ b @ s" post] by blast
  note C = cut_apart[OF w o(3) q(2-5) this B o(4)]
  show ?case
    using o(1) q(1,4) cell_adjacency_induced[OF o(3) w split_parts(2,5)[OF q(2)]] C(3)
    by (intro exI[of _ "pre @ a"] exI[of _ b] exI[of _ "s @ post"]) (simp only: states_of_induced append_assoc simp_thms)
qed

lemma order_ranks_sorted:
  assumes "is_order n order"
  shows "sorted_wrt (\<lambda>x y. ranks_of_order n order ! x < ranks_of_order n order ! y) order"
  unfolding sorted_wrt_iff_nth_less
proof (intro allI impI)
  fix i j assume ij: "i < j" "j < length order"
  have "length order = n" using assms distinct_card[of order] by (simp add: is_order_def)
  then show "ranks_of_order n order ! (order ! i) < ranks_of_order n order ! (order ! j)"
    using ranks_of_order_nth(1)[OF assms, of i] ranks_of_order_nth(1)[OF assms, of j] ij by simp
qed


text \<open>A ring of forty states.\<close>

definition ring_transitions :: transitions where
  "ring_transitions = \<lparr>edge_count = 40, edge_transition_first_out = [0..<41],
     edge_transition_edges = map (\<lambda>e. (e + 1) mod 40) [0..<40]\<rparr>"


end
