(* ===== verification/Edge_Based.thy ===== *)
theory Edge_Based
  imports Cch_Build Cell
begin

text \<open>
  The edge-based topology (\<open>EdgeBasedTopology::build\<close> of \<open>crates/core/src/graph.rs\<close>): the outgoing
  edges of every node in index order, and the transitions of every edge into all outgoing edges of
  its head node. Both arrays are filled by a counting sort over the edges. The theorem states what
  every reader of the arrays relies on: offsets that delimit one row per edge and rows that hold the
  edges leaving the head, in index order. Offsets are \<open>u32\<close> values in the code; here they are
  natural numbers, which is the same below \<open>2 ^ 32\<close> transitions.
\<close>

record edge_based_topology = transitions +
  node_first_out :: "nat list"
  node_edge_order :: "nat list"

definition outgoing_edges :: "nat list \<Rightarrow> nat list \<Rightarrow> nat \<Rightarrow> nat list" where
  "outgoing_edges first_out edges node = subslice edges (first_out ! node) (first_out ! (node + 1))"

definition edge_based_build :: "nat \<Rightarrow> nat \<Rightarrow> (nat \<Rightarrow> nat \<times> nat) \<Rightarrow> edge_based_topology" where
  "edge_based_build node_count edges endpoints =
     (let (first_out, edge_order) = group_by_key node_count 0 (map (\<lambda>e. (fst (endpoints e), e)) [0..<edges]);
          head = map (\<lambda>e. snd (endpoints e)) [0..<edges];
          transition_first_out =
            foldl (\<lambda>fo e. fo[e + 1 := fo ! e + (first_out ! (head ! e + 1) - first_out ! (head ! e))])
              (replicate (edges + 1) 0) [0..<edges];
          transition_edges = concat (map (outgoing_edges first_out edge_order) head)
      in \<lparr>edge_count = edges, edge_transition_first_out = transition_first_out, edge_transition_edges = transition_edges,
          node_first_out = first_out, node_edge_order = edge_order\<rparr>)"

text \<open>The edges that leave a node.\<close>

definition leaving :: "nat \<Rightarrow> (nat \<Rightarrow> nat \<times> nat) \<Rightarrow> nat \<Rightarrow> nat list" where
  "leaving edges endpoints node = filter (\<lambda>e. fst (endpoints e) = node) [0..<edges]"

lemma filter_pair_edges: "map snd (filter (\<lambda>a. fst a = k) (map (\<lambda>e. (f e, e)) xs)) = filter (\<lambda>e. f e = k) xs"
  by (induction xs) simp_all

lemma accumulate_lengths:
  fixes w :: "nat \<Rightarrow> nat"
  shows "m \<le> n \<Longrightarrow> foldl (\<lambda>fo e. fo[e + 1 := fo ! e + w e]) (replicate (n + 1) 0) [0..<m]
    = map (\<lambda>i. if i \<le> m then sum_list (map w [0..<i]) else 0) [0..<n + 1]"
proof (induction m)
  case 0
  show ?case by (rule nth_equalityI) (simp_all add: nth_Cons' del: upt_Suc)
next
  case (Suc m)
  let ?f = "\<lambda>fo e. fo[e + 1 := fo ! e + w e]" and ?l = "map (\<lambda>i. if i \<le> m then sum_list (map w [0..<i]) else 0) [0..<n + 1]"
  have "foldl ?f (replicate (n + 1) 0) [0..<Suc m] = ?f (foldl ?f (replicate (n + 1) 0) [0..<m]) m"
    by (simp only: upt_Suc_append[OF le0] foldl_append foldl.simps)
  also have "\<dots> = ?f ?l m" using Suc by simp
  also have "?f ?l m = ?l[m + 1 := sum_list (map w [0..<Suc m])]"
  proof -
    have "?l ! m = sum_list (map w [0..<m])" using Suc.prems by (simp del: upt_Suc)
    moreover have "sum_list (map w [0..<Suc m]) = sum_list (map w [0..<m]) + w m" by simp
    ultimately show ?thesis by (simp only:)
  qed
  also have "\<dots> = map (\<lambda>i. if i \<le> Suc m then sum_list (map w [0..<i]) else 0) [0..<n + 1]"
    by (rule nth_equalityI) (use Suc.prems in \<open>auto simp: nth_list_update le_Suc_eq simp del: upt_Suc\<close>)
  finally show ?case .
qed

lemma outgoing_rows:
  assumes ends: "\<forall>e<edges. fst (endpoints e) < nodes"
  defines "g \<equiv> group_by_key nodes 0 (map (\<lambda>e. (fst (endpoints e), e)) [0..<edges])"
  shows "valid_offsets (fst g) nodes edges" "v < nodes \<Longrightarrow> outgoing_edges (fst g) (snd g) v = leaving edges endpoints v"
    "v < nodes \<Longrightarrow> fst g ! (v + 1) - fst g ! v = length (leaving edges endpoints v)"
proof -
  let ?items = "map (\<lambda>e. (fst (endpoints e), e)) [0..<edges]"
  have lt: "\<forall>a\<in>set ?items. fst a < nodes" using ends by auto
  show v: "valid_offsets (fst g) nodes edges" using group_by_key_offsets[OF lt, of 0] by (simp add: g_def)
  show row: "outgoing_edges (fst g) (snd g) v = leaving edges endpoints v" if "v < nodes" for v
    using group_by_key_row[OF lt that, of 0] by (simp add: g_def outgoing_edges_def leaving_def filter_pair_edges)
  show "fst g ! (v + 1) - fst g ! v = length (leaving edges endpoints v)" if "v < nodes" for v
  proof -
    have "fst g ! v \<le> fst g ! (v + 1)" "fst g ! (v + 1) \<le> length (snd g)"
      using valid_offsetsD(2)[OF v, of v "v + 1"] valid_offsetsD(3)[OF v, of "v + 1"] that by (simp_all add: g_def)
    then show ?thesis using row[OF that] by (simp add: outgoing_edges_def length_subslice[symmetric])
  qed
qed

lemma edge_based_rows:
  assumes ends: "\<forall>e<edges. fst (endpoints e) < nodes \<and> snd (endpoints e) < nodes"
  defines "t \<equiv> edge_based_build nodes edges endpoints"
  shows "edge_count t = edges" "valid_offsets (node_first_out t) nodes edges"
    "\<And>v. v < nodes \<Longrightarrow> outgoing_edges (node_first_out t) (node_edge_order t) v = leaving edges endpoints v"
    "valid_offsets (edge_transition_first_out t) edges (length (edge_transition_edges t))"
    "\<And>e. e < edges \<Longrightarrow> transition_row (transitions.truncate t) e = leaving edges endpoints (snd (endpoints e))"
proof -
  let ?g = "group_by_key nodes 0 (map (\<lambda>e. (fst (endpoints e), e)) [0..<edges])"
  let ?rows = "map (\<lambda>e. leaving edges endpoints (snd (endpoints e))) [0..<edges]"
  have ends1: "\<forall>e<edges. fst (endpoints e) < nodes" using ends by simp
  note g = outgoing_rows[OF ends1]
  let ?w = "\<lambda>e. length (leaving edges endpoints (snd (endpoints e)))"
  have fo: "edge_transition_first_out t = map (\<lambda>i. sum_list (map ?w [0..<i])) [0..<edges + 1]"
    unfolding t_def edge_based_build_def Let_def split_beta transitions.simps accumulate_lengths[OF order_refl]
  proof (rule map_cong[OF refl])
    fix i assume "i \<in> set [0..<edges + 1]"
    then have i: "i \<le> edges" by auto
    have "map (\<lambda>e. fst ?g ! (map (\<lambda>e. snd (endpoints e)) [0..<edges] ! e + 1) - fst ?g ! (map (\<lambda>e. snd (endpoints e)) [0..<edges] ! e)) [0..<i]
      = map ?w [0..<i]"
      by (rule map_cong[OF refl]) (use ends g(3) i in \<open>simp del: upt_Suc\<close>)
    then show "(if i \<le> edges then (\<Sum>e\<leftarrow>[0..<i]. fst ?g ! (map (\<lambda>e. snd (endpoints e)) [0..<edges] ! e + 1)
        - fst ?g ! (map (\<lambda>e. snd (endpoints e)) [0..<edges] ! e)) else 0) = sum_list (map ?w [0..<i])"
      using i by (simp only: if_True)
  qed
  have te: "edge_transition_edges t = concat ?rows"
    unfolding t_def edge_based_build_def Let_def split_beta transitions.simps
    using ends g(2) by (intro arg_cong[of _ _ concat]) simp
  have lens: "edge_transition_first_out t = map (\<lambda>i. length (concat (take i ?rows))) [0..<edges + 1]"
    unfolding fo by (rule map_cong[OF refl]) (auto simp: length_concat take_map comp_def take_upt)
  show c: "edge_count t = edges" and n: "valid_offsets (node_first_out t) nodes edges"
    and "\<And>v. v < nodes \<Longrightarrow> outgoing_edges (node_first_out t) (node_edge_order t) v = leaving edges endpoints v"
    using g by (simp_all add: t_def edge_based_build_def Let_def split_beta)
  show "valid_offsets (edge_transition_first_out t) edges (length (edge_transition_edges t))"
    unfolding lens te valid_offsets_def
  proof (intro conjI)
    show "sorted (map (\<lambda>i. length (concat (take i ?rows))) [0..<edges + 1])"
    proof (intro sorted_map_mono mono_onI)
      fix i j :: nat assume "i \<le> j"
      then obtain k where "j = i + k" by (auto simp: le_iff_add)
      then show "length (concat (take i ?rows)) \<le> length (concat (take j ?rows))" by (simp only: take_add concat_append length_append le_add1)
    qed (simp del: upt_Suc)
  qed (simp_all del: upt_Suc)
  fix e assume e: "e < edges"
  show "transition_row (transitions.truncate t) e = leaving edges endpoints (snd (endpoints e))"
    using concat_row[of e ?rows] e by (simp add: transition_row_def transitions.truncate_def lens te del: upt_Suc)
qed

text \<open>C38: the edge-based topology is well formed. When both ends of every edge are nodes, the offsets of
  the outgoing edges and of the transitions delimit one row per node and per edge that together cover
  their arrays, the row of a node lists the edges leaving it in index order, and the row of an edge
  lists the edges leaving its head, u-turns included.\<close>

theorem edge_based_build_well_formed:
  assumes "\<forall>e<edges. fst (endpoints e) < nodes \<and> snd (endpoints e) < nodes"
  shows "valid_offsets (node_first_out (edge_based_build nodes edges endpoints)) nodes edges
    \<and> valid_offsets (edge_transition_first_out (edge_based_build nodes edges endpoints)) edges
        (length (edge_transition_edges (edge_based_build nodes edges endpoints)))
    \<and> (\<forall>v<nodes. outgoing_edges (node_first_out (edge_based_build nodes edges endpoints))
          (node_edge_order (edge_based_build nodes edges endpoints)) v = leaving edges endpoints v)
    \<and> (\<forall>e<edges. transition_row (transitions.truncate (edge_based_build nodes edges endpoints)) e
          = leaving edges endpoints (snd (endpoints e)))"
  using edge_based_rows[OF assms] by blast

theorem edge_based_build_well_formed_witness:
  "transition_row (transitions.truncate (edge_based_build 3 4 (\<lambda>e. (e mod 3, (e + 1) mod 3)))) 2 = [0, 3]"
proof -
  have "\<forall>e<4. fst (e mod 3, (e + 1) mod 3) < 3 \<and> snd (e mod 3, (e + 1) mod 3) < (3 :: nat)" by simp
  from edge_based_build_well_formed[OF this]
  have "transition_row (transitions.truncate (edge_based_build 3 4 (\<lambda>e. (e mod 3, (e + 1) mod 3)))) 2
    = leaving 4 (\<lambda>e. (e mod 3, (e + 1) mod 3)) (snd (2 mod 3 :: nat, (2 + 1) mod 3))" by (elim conjE) simp
  also have "\<dots> = [0, 3]" by code_simp
  finally show ?thesis .
qed

end
