(* ===== verification/Patch_Order.thy ===== *)
theory Patch_Order
  imports Dissect Edge_Based
begin

text \<open>
  Carrying an elimination order over to a changed network (\<open>patch_edge_order\<close> of
  \<open>crates/ingest/src/acceleration.rs\<close>). States with a previous rank keep it as their anchor; new
  states are anchored in breadth-first layers at the highest anchor of their neighbours; new
  components without a reused state are dissected and go first. A failed \<open>expect\<close> (a layer state
  without a placed neighbour) and the length assertion are \<open>None\<close>. Anchors carry the sentinel
  \<open>UNPLACED\<close> (the greatest \<open>u32\<close>) as in the code; the proofs read them as options, \<open>anc\<close>. The
  theorems show that only a wrong number of ranks or a previous rank equal to the sentinel can lead there, that the result is a permutation, and where every state ends up.
\<close>

section \<open>The code\<close>

record road_topology =
  road_nodes :: nat
  routing :: "(nat \<times> nat) list"
  edge_based_tables :: edge_based_topology

definition incoming_tables :: "road_topology \<Rightarrow> nat list \<times> nat list" where
  "incoming_tables g = group_by_key (road_nodes g) 0 (map (\<lambda>e. (snd (routing g ! e), e)) [0..<length (routing g)])"

definition edge_neighbours :: "road_topology \<Rightarrow> nat list \<times> nat list \<Rightarrow> nat \<Rightarrow> nat list" where
  "edge_neighbours g incoming e =
     filter (\<lambda>f. f \<noteq> e)
       (outgoing_edges (node_first_out (edge_based_tables g)) (node_edge_order (edge_based_tables g)) (snd (routing g ! e))
        @ outgoing_edges (fst incoming) (snd incoming) (fst (routing g ! e)))"

text \<open>Ranks are \<open>u32\<close>; the greatest one marks a state without an anchor.\<close>

definition UNPLACED :: nat where
  "UNPLACED = u32_max"

record patch_state =
  anchor :: "nat list"
  sequence_of :: "nat list"
  next_sequence :: nat
  queued :: "bool list"
  layer :: "nat list"

definition patch_start :: "(nat \<Rightarrow> nat list) \<Rightarrow> nat option list \<Rightarrow> patch_state" where
  "patch_start nb previous_rank =
     (let n = length previous_rank;
          start = filter (\<lambda>e. previous_rank ! e = None \<and> (\<exists>f\<in>set (nb e). previous_rank ! f \<noteq> None)) [0..<n]
      in \<lparr>anchor = map (\<lambda>rank. case rank of None \<Rightarrow> UNPLACED | Some r \<Rightarrow> r) previous_rank, sequence_of = replicate n 0, next_sequence = 0,
          queued = foldl (\<lambda>q e. q[e := True]) (replicate n False) start, layer = start\<rparr>)"

definition anchor_of :: "(nat \<Rightarrow> nat list) \<Rightarrow> nat list \<Rightarrow> nat \<Rightarrow> nat option" where
  "anchor_of nb anchors e =
     (case filter (\<lambda>rank. rank \<noteq> UNPLACED) (map (\<lambda>f. anchors ! f) (nb e)) of [] \<Rightarrow> None | r # rs \<Rightarrow> Some (foldl max r rs))"

definition place_state :: "patch_state \<Rightarrow> nat \<times> nat \<Rightarrow> patch_state" where
  "place_state s p =
     s\<lparr>anchor := (anchor s)[fst p := snd p], sequence_of := (sequence_of s)[fst p := next_sequence s],
       next_sequence := next_sequence s + 1\<rparr>"

definition queue_neighbour :: "nat list \<Rightarrow> bool list \<times> nat list \<Rightarrow> nat \<Rightarrow> bool list \<times> nat list" where
  "queue_neighbour anchors q f =
     (if anchors ! f = UNPLACED \<and> \<not> fst q ! f then ((fst q)[f := True], snd q @ [f]) else q)"

definition patch_layer :: "(nat \<Rightarrow> nat list) \<Rightarrow> patch_state \<Rightarrow> patch_state option" where
  "patch_layer nb s =
     (let layer_anchors = map (anchor_of nb (anchor s)) (layer s)
      in if None \<in> set layer_anchors then None
         else let s' = foldl place_state s (zip (layer s) (map the layer_anchors));
                  (q, next_layer) = foldl (queue_neighbour (anchor s')) (queued s', []) (concat (map nb (layer s)))
              in Some (s'\<lparr>queued := q, layer := next_layer\<rparr>))"

partial_function (option) patch_layers :: "(nat \<Rightarrow> nat list) \<Rightarrow> patch_state \<Rightarrow> patch_state option" where
  "patch_layers nb s = (if layer s = [] then Some s else Option.bind (patch_layer nb s) (patch_layers nb))"

declare patch_layers.simps [code]

record patched_order =
  patched :: "nat list"
  reused :: nat
  inserted :: nat

definition place_order :: "nat option list \<Rightarrow> patch_state \<Rightarrow> nat list" where
  "place_order previous_rank s =
     sort_key (\<lambda>e. (anchor s ! e, previous_rank ! e = None, sequence_of s ! e))
       (filter (\<lambda>e. anchor s ! e \<noteq> UNPLACED) [0..<length previous_rank])"

definition patch_edge_order :: "road_topology \<Rightarrow> (nat \<Rightarrow> rat) \<Rightarrow> (nat \<Rightarrow> rat) \<Rightarrow> nat option list \<Rightarrow> patched_order option" where
  "patch_edge_order g px py previous_rank =
     (let n = length (routing g) in
      if length previous_rank \<noteq> n then None
      else Option.bind (patch_layers (edge_neighbours g (incoming_tables g)) (patch_start (edge_neighbours g (incoming_tables g)) previous_rank)) (\<lambda>s.
        let isolated = filter (\<lambda>e. anchor s ! e = UNPLACED) [0..<n] in
        Option.bind (if isolated = [] then Some []
            else dissect (induced (build_edge_cell (transitions.truncate (edge_based_tables g)) px py) isolated) LEAF_NODES) (\<lambda>front.
        let kept = length (filter (\<lambda>r. r \<noteq> None) previous_rank)
        in Some \<lparr>patched = front @ place_order previous_rank s, reused = kept, inserted = n - kept\<rparr>)))"

section \<open>One layer\<close>

text \<open>The anchors as options, and the highest anchor of a state's neighbours.\<close>

definition anc :: "patch_state \<Rightarrow> nat \<Rightarrow> nat option" where
  "anc s e = (if anchor s ! e = UNPLACED then None else Some (anchor s ! e))"

definition highest_anchor :: "(nat \<Rightarrow> nat list) \<Rightarrow> (nat \<Rightarrow> nat option) \<Rightarrow> nat \<Rightarrow> nat option" where
  "highest_anchor nb an e = (case List.map_filter an (nb e) of [] \<Rightarrow> None | r # rs \<Rightarrow> Some (foldl max r rs))"

lemma anc_None: "anc s e = None \<longleftrightarrow> anchor s ! e = UNPLACED"
  by (simp add: anc_def)

lemma anc_the: "anc s e = Some r \<Longrightarrow> anchor s ! e = r"
  by (simp add: anc_def split: if_splits)

lemma anchor_of_highest: "anchor_of nb (anchor s) e = highest_anchor nb (anc s) e"
proof -
  have "filter (\<lambda>rank. rank \<noteq> UNPLACED) (map (\<lambda>f. anchor s ! f) fs) = List.map_filter (anc s) fs" for fs
    by (induction fs) (simp_all add: List.map_filter_simps anc_def)
  then show ?thesis by (simp add: anchor_of_def highest_anchor_def)
qed

lemma map_filter_eq: "(\<And>f. f \<in> set fs \<Longrightarrow> an f = an' f) \<Longrightarrow> List.map_filter an fs = List.map_filter an' fs"
  by (induction fs) (auto simp: List.map_filter_simps split: option.split)

lemma highest_anchor_cong: "(\<And>f. f \<in> set (nb e) \<Longrightarrow> an f = an' f) \<Longrightarrow> highest_anchor nb an e = highest_anchor nb an' e"
  using map_filter_eq[of "nb e" an an'] by (simp add: highest_anchor_def)

lemma highest_anchor_iff:
  "highest_anchor nb an e = Some r \<longleftrightarrow> (\<exists>f\<in>set (nb e). an f = Some r) \<and> (\<forall>f\<in>set (nb e). \<forall>q. an f = Some q \<longrightarrow> q \<le> r)"
proof -
  let ?rs = "List.map_filter an (nb e)"
  have set: "set ?rs = {r. \<exists>f\<in>set (nb e). an f = Some r}"
    by (force simp: List.map_filter_def)
  have fold: "foldl max r rs = Max (set (r # rs))" for r :: nat and rs
  proof -
    have "(\<lambda>x s. max s x) = (max :: nat \<Rightarrow> nat \<Rightarrow> nat)" by (intro ext max.commute)
    then show ?thesis unfolding foldl_conv_fold Max.set_eq_fold by (simp only:)
  qed
  show ?thesis
  proof (cases ?rs)
    case Nil
    then show ?thesis using set by (auto simp: highest_anchor_def)
  next
    case (Cons q rs)
    then have "highest_anchor nb an e = Some (Max (set ?rs))" by (simp add: highest_anchor_def fold del: list.set)
    moreover have "Max (set ?rs) = r \<longleftrightarrow> r \<in> set ?rs \<and> (\<forall>q\<in>set ?rs. q \<le> r)"
      by (rule Max_eq_iff) (simp_all add: Cons)
    ultimately show ?thesis unfolding set by auto
  qed
qed

lemma map_filter_Nil: "List.map_filter g xs = [] \<longleftrightarrow> (\<forall>x\<in>set xs. g x = None)"
  by (induction xs) (auto simp: List.map_filter_simps split: option.splits)

lemma highest_anchor_None: "highest_anchor nb an e = None \<longleftrightarrow> (\<forall>f\<in>set (nb e). an f = None)"
  unfolding map_filter_Nil[symmetric] by (simp add: highest_anchor_def split: list.splits)

lemma place_state_simps [simp]:
  "anchor (place_state s p) = (anchor s)[fst p := snd p]"
  "sequence_of (place_state s p) = (sequence_of s)[fst p := next_sequence s]"
  "queued (place_state s p) = queued s" "layer (place_state s p) = layer s"
  by (simp_all add: place_state_def)

lemma queue_neighbour_pair:
  "queue_neighbour an (q, next_layer) f = (if an ! f = UNPLACED \<and> \<not> q ! f then (q[f := True], next_layer @ [f]) else (q, next_layer))"
  by (simp add: queue_neighbour_def)

lemma place_states:
  "distinct (map fst ps) \<Longrightarrow> \<forall>p\<in>set ps. fst p < length (anchor s) \<and> snd p \<noteq> UNPLACED \<Longrightarrow>
    anc (foldl place_state s ps) e = (if e \<in> fst ` set ps then map_of ps e else anc s e)
    \<and> length (anchor (foldl place_state s ps)) = length (anchor s)
    \<and> length (sequence_of (foldl place_state s ps)) = length (sequence_of s)
    \<and> queued (foldl place_state s ps) = queued s"
proof (induction ps arbitrary: s)
  case (Cons p ps)
  have "anc (foldl place_state (place_state s p) ps) e
      = (if e \<in> fst ` set ps then map_of ps e else anc (place_state s p) e)"
    "length (anchor (foldl place_state (place_state s p) ps)) = length (anchor s)"
    "length (sequence_of (foldl place_state (place_state s p) ps)) = length (sequence_of s)"
    "queued (foldl place_state (place_state s p) ps) = queued s"
    using Cons.IH[of "place_state s p"] Cons.prems by simp_all
  then show ?case using Cons.prems by (cases p) (auto simp: anc_def nth_list_update)
qed (simp add: anc_def)

lemma queue_neighbours:
  "length q = n \<Longrightarrow> \<forall>f\<in>set fs. f < n \<Longrightarrow> distinct next_layer \<Longrightarrow> \<forall>f\<in>set next_layer. f < n \<and> q ! f \<and> an ! f = UNPLACED \<Longrightarrow>
    foldl (queue_neighbour an) (q, next_layer) fs = (q', next') \<Longrightarrow>
    length q' = n \<and> distinct next' \<and> (\<forall>f\<in>set next'. f < n \<and> q' ! f \<and> an ! f = UNPLACED)
    \<and> (\<forall>f<n. q' ! f \<longrightarrow> q ! f \<or> f \<in> set next') \<and> (\<forall>f<n. q ! f \<longrightarrow> q' ! f)
    \<and> set next_layer \<subseteq> set next' \<and> set next' \<subseteq> set next_layer \<union> set fs
    \<and> (\<forall>f\<in>set fs. an ! f = UNPLACED \<longrightarrow> q' ! f)"
proof (induction fs arbitrary: q next_layer)
  case Nil
  then show ?case by auto
next
  case (Cons f fs)
  show ?case
  proof (cases "an ! f = UNPLACED \<and> \<not> q ! f")
    case True
    then have r: "foldl (queue_neighbour an) (q[f := True], next_layer @ [f]) fs = (q', next')"
      using Cons.prems(5) by (simp add: queue_neighbour_pair)
    have "length (q[f := True]) = n" "\<forall>f\<in>set fs. f < n" "distinct (next_layer @ [f])"
      "\<forall>g\<in>set (next_layer @ [f]). g < n \<and> q[f := True] ! g \<and> an ! g = UNPLACED"
      using Cons.prems(1-4) True by (auto simp: nth_list_update)
    from Cons.IH[OF this r] have ih: "length q' = n" "distinct next'" "\<forall>f\<in>set next'. f < n \<and> q' ! f \<and> an ! f = UNPLACED"
      "\<forall>g<n. q' ! g \<longrightarrow> q[f := True] ! g \<or> g \<in> set next'" "\<forall>g<n. q[f := True] ! g \<longrightarrow> q' ! g"
      "set (next_layer @ [f]) \<subseteq> set next'" "set next' \<subseteq> set (next_layer @ [f]) \<union> set fs" "\<forall>f\<in>set fs. an ! f = UNPLACED \<longrightarrow> q' ! f"
      by blast+
    have f: "f < n" "f \<in> set next'" "q' ! f" using Cons.prems(2) ih(3,6) by auto
    have "\<forall>g<n. q' ! g \<longrightarrow> q ! g \<or> g \<in> set next'" "\<forall>g<n. q ! g \<longrightarrow> q' ! g"
      using ih(4,5) f by (metis nth_list_update_neq)+
    then show ?thesis using ih(1,2,3,6,7,8) f by auto
  next
    case False
    then have "foldl (queue_neighbour an) (q, next_layer) fs = (q', next')"
      using Cons.prems(5) by (auto simp: queue_neighbour_pair)
    from Cons.IH[OF Cons.prems(1) _ Cons.prems(3,4) this] Cons.prems(2)
    have ih: "length q' = n \<and> distinct next' \<and> (\<forall>f\<in>set next'. f < n \<and> q' ! f \<and> an ! f = UNPLACED)
      \<and> (\<forall>f<n. q' ! f \<longrightarrow> q ! f \<or> f \<in> set next') \<and> (\<forall>f<n. q ! f \<longrightarrow> q' ! f)
      \<and> set next_layer \<subseteq> set next' \<and> set next' \<subseteq> set next_layer \<union> set fs
      \<and> (\<forall>f\<in>set fs. an ! f = UNPLACED \<longrightarrow> q' ! f)" by auto
    moreover have "an ! f = UNPLACED \<longrightarrow> q' ! f" using ih False Cons.prems(2) by auto
    ultimately show ?thesis by auto
  qed
qed

section \<open>All layers\<close>

definition neighbour_graph :: "(nat \<Rightarrow> nat list) \<Rightarrow> (nat \<times> nat) set" where
  "neighbour_graph nb = {(e, f). f \<in> set (nb e)}"

definition symmetric_rows :: "nat \<Rightarrow> (nat \<Rightarrow> nat list) \<Rightarrow> bool" where
  "symmetric_rows n nb \<longleftrightarrow> (\<forall>e<n. \<forall>f\<in>set (nb e). f < n \<and> e \<in> set (nb f))"

text \<open>New states next to a reused one are anchored at the highest previous rank among their neighbours.\<close>

definition first_anchors :: "(nat \<Rightarrow> nat list) \<Rightarrow> nat option list \<Rightarrow> (nat \<Rightarrow> nat option) \<Rightarrow> bool" where
  "first_anchors nb prev an \<longleftrightarrow> (\<forall>e<length prev. prev ! e = None \<longrightarrow> (\<exists>f\<in>set (nb e). prev ! f \<noteq> None) \<longrightarrow> an e = highest_anchor nb ((!) prev) e)"

definition first_layer :: "(nat \<Rightarrow> nat list) \<Rightarrow> nat option list \<Rightarrow> patch_state \<Rightarrow> bool" where
  "first_layer nb prev s \<longleftrightarrow>
     (\<forall>e<length prev. anc s e = prev ! e) \<and> (\<forall>e<length prev. prev ! e = None \<longrightarrow> (\<exists>f\<in>set (nb e). prev ! f \<noteq> None) \<longrightarrow> e \<in> set (layer s))
     \<or> first_anchors nb prev (anc s)"

definition patch_inv :: "(nat \<Rightarrow> nat list) \<Rightarrow> nat option list \<Rightarrow> patch_state \<Rightarrow> bool" where
  "patch_inv nb prev s \<longleftrightarrow> length (anchor s) = length prev \<and> length (queued s) = length prev \<and> distinct (layer s)
     \<and> (\<forall>e\<in>set (layer s). e < length prev \<and> anc s e = None \<and> queued s ! e \<and> (\<exists>f\<in>set (nb e). anc s f \<noteq> None))
     \<and> (\<forall>e<length prev. \<forall>r. prev ! e = Some r \<longrightarrow> anc s e = Some r)
     \<and> (\<forall>e<length prev. queued s ! e \<longrightarrow> anc s e \<noteq> None \<or> e \<in> set (layer s))
     \<and> (\<forall>e<length prev. anc s e \<noteq> None \<longrightarrow> (\<forall>f\<in>set (nb e). anc s f \<noteq> None \<or> f \<in> set (layer s)))
     \<and> (\<forall>e<length prev. anc s e \<noteq> None \<longrightarrow> (\<exists>f<length prev. prev ! f \<noteq> None \<and> (e, f) \<in> (neighbour_graph nb)\<^sup>*))
     \<and> first_layer nb prev s"

lemma patch_invD:
  assumes "patch_inv nb prev s"
  shows "length (anchor s) = length prev" "length (queued s) = length prev" "distinct (layer s)"
    "e \<in> set (layer s) \<Longrightarrow> e < length prev \<and> anc s e = None \<and> queued s ! e \<and> (\<exists>f\<in>set (nb e). anc s f \<noteq> None)"
    "e < length prev \<Longrightarrow> prev ! e = Some r \<Longrightarrow> anc s e = Some r"
    "e < length prev \<Longrightarrow> queued s ! e \<Longrightarrow> anc s e \<noteq> None \<or> e \<in> set (layer s)"
    "e < length prev \<Longrightarrow> anc s e \<noteq> None \<Longrightarrow> f \<in> set (nb e) \<Longrightarrow> anc s f \<noteq> None \<or> f \<in> set (layer s)"
    "e < length prev \<Longrightarrow> anc s e \<noteq> None \<Longrightarrow> \<exists>f<length prev. prev ! f \<noteq> None \<and> (e, f) \<in> (neighbour_graph nb)\<^sup>*"
    "first_layer nb prev s"
  using assms unfolding patch_inv_def by blast+

lemma patch_start_inv:
  assumes "symmetric_rows (length prev) nb" "\<forall>r. Some r \<in> set prev \<longrightarrow> r < u32_max"
  shows "patch_inv nb prev (patch_start nb prev)"
proof -
  let ?start = "filter (\<lambda>e. prev ! e = None \<and> (\<exists>f\<in>set (nb e). prev ! f \<noteq> None)) [0..<length prev]"
  have a: "anc (patch_start nb prev) e = prev ! e" if "e < length prev" for e
  proof (cases "prev ! e")
    case (Some r)
    then have "r < u32_max" using assms(2) that nth_mem[OF that] by auto
    then show ?thesis using that Some by (simp add: anc_def patch_start_def Let_def UNPLACED_def)
  qed (use that in \<open>simp add: anc_def patch_start_def Let_def\<close>)
  have p: "length (anchor (patch_start nb prev)) = length prev" "layer (patch_start nb prev) = ?start"
    "queued (patch_start nb prev) = foldl (\<lambda>q e. q[e := True]) (replicate (length prev) False) ?start"
    by (simp_all add: patch_start_def Let_def)
  have q: "queued (patch_start nb prev) ! e \<longleftrightarrow> e \<in> set ?start" if "e < length prev" for e
    unfolding p(3) using that by (simp add: foldl_reset)
  have near: "prev ! f \<noteq> None \<or> f \<in> set ?start" if "e < length prev" "prev ! e \<noteq> None" "f \<in> set (nb e)" for e f
  proof -
    have "f < length prev" "e \<in> set (nb f)" using assms(1) that(1,3) unfolding symmetric_rows_def by blast+
    then show ?thesis using that(2) by auto
  qed
  have start: "first_layer nb prev (patch_start nb prev)" unfolding first_layer_def p(2) using a by auto
  show ?thesis
    unfolding patch_inv_def p(1,2)
  proof (intro conjI)
    show "\<forall>e<length prev. anc (patch_start nb prev) e \<noteq> None \<longrightarrow> (\<exists>f<length prev. prev ! f \<noteq> None \<and> (e, f) \<in> (neighbour_graph nb)\<^sup>*)"
      using a by (metis rtrancl.rtrancl_refl)
    show "\<forall>e<length prev. anc (patch_start nb prev) e \<noteq> None \<longrightarrow> (\<forall>f\<in>set (nb e). anc (patch_start nb prev) f \<noteq> None \<or> f \<in> set ?start)"
    proof (intro allI impI ballI)
      fix e f assume e: "e < length prev" "anc (patch_start nb prev) e \<noteq> None" "f \<in> set (nb e)"
      have "f < length prev" using assms(1) e(1,3) unfolding symmetric_rows_def by blast
      then show "anc (patch_start nb prev) f \<noteq> None \<or> f \<in> set ?start"
        using near[OF e(1) _ e(3)] e(2) a[of e] a[of f] e(1) by argo
    qed
    show "\<forall>e\<in>set ?start. e < length prev \<and> anc (patch_start nb prev) e = None \<and> queued (patch_start nb prev) ! e
        \<and> (\<exists>f\<in>set (nb e). anc (patch_start nb prev) f \<noteq> None)"
    proof (intro ballI)
      fix e assume e: "e \<in> set ?start"
      then obtain f where f: "e < length prev" "prev ! e = None" "f \<in> set (nb e)" "prev ! f \<noteq> None" by auto
      have "f < length prev" using assms(1) f(1,3) unfolding symmetric_rows_def by blast
      then have "\<exists>f\<in>set (nb e). anc (patch_start nb prev) f \<noteq> None" using f a by metis
      then show "e < length prev \<and> anc (patch_start nb prev) e = None \<and> queued (patch_start nb prev) ! e
        \<and> (\<exists>f\<in>set (nb e). anc (patch_start nb prev) f \<noteq> None)"
        using f(1,2) a[OF f(1)] q[OF f(1)] e by simp
    qed
    show "length (queued (patch_start nb prev)) = length prev" by (simp add: p(3) length_foldl_reset)
  qed (use q start a in auto)
qed

lemma patch_layer_step:
  assumes inv: "patch_inv nb prev s" and sym: "symmetric_rows (length prev) nb" and ne: "layer s \<noteq> []"
  shows "\<exists>s'. patch_layer nb s = Some s' \<and> patch_inv nb prev s'
    \<and> card {e. e < length prev \<and> anc s' e = None} < card {e. e < length prev \<and> anc s e = None}"
proof -
  let ?n = "length prev" and ?L = "set (layer s)"
  note I = patch_invD[OF inv]
  have rows: "f < ?n" "e \<in> set (nb f)" if "e < ?n" "f \<in> set (nb e)" for e f using sym that unfolding symmetric_rows_def by blast+
  define an where "an = map (anchor_of nb (anchor s)) (layer s)"
  have some: "anchor_of nb (anchor s) e \<noteq> None" if "e \<in> ?L" for e
    using I(4)[OF that] by (auto simp: anchor_of_highest highest_anchor_None)
  then have ok: "None \<notin> set an" unfolding an_def by fastforce
  define ps where "ps = zip (layer s) (map the an)"
  have fst_ps: "map fst ps = layer s" by (simp add: ps_def an_def)
  have mo: "map_of ps e = anchor_of nb (anchor s) e" if "e \<in> ?L" for e
    using that some[OF that] by (simp add: ps_def an_def map_of_zip_map)
  have dist: "distinct (map fst ps)" using I(3) by (simp add: fst_ps)
  have "snd p \<noteq> UNPLACED" if p: "p \<in> set ps" for p
  proof -
    have L: "fst p \<in> ?L" using p fst_ps by (metis image_eqI list.set_map)
    have "map_of ps (fst p) = Some (snd p)" using map_of_is_SomeI[OF dist] p by simp
    then have "highest_anchor nb (anc s) (fst p) = Some (snd p)" using mo[OF L] by (simp add: anchor_of_highest)
    then show ?thesis unfolding highest_anchor_iff using anc_the anc_None by (metis option.distinct(1))
  qed
  then have bnd: "\<forall>p\<in>set ps. fst p < length (anchor s) \<and> snd p \<noteq> UNPLACED"
    using I(1,4) fst_ps by (metis image_eqI list.set_map)
  define t where "t = foldl place_state s ps"
  note P = place_states[OF dist bnd, folded t_def]
  have an': "anc t e = (if e \<in> ?L then anchor_of nb (anchor s) e else anc s e)" for e
    using P[of e] mo fst_ps by (metis list.set_map)
  have len: "length (anchor t) = ?n" "queued t = queued s" using P I(1) by simp_all
  obtain q next_layer where q: "foldl (queue_neighbour (anchor t)) (queued s, []) (concat (map nb (layer s))) = (q, next_layer)"
    by fastforce
  have "\<forall>f\<in>set (concat (map nb (layer s))). f < ?n" using I(4) rows(1) by auto
  then have Q0: "length q = ?n \<and> distinct next_layer \<and> (\<forall>f\<in>set next_layer. f < ?n \<and> q ! f \<and> anchor t ! f = UNPLACED)
    \<and> (\<forall>f<?n. q ! f \<longrightarrow> queued s ! f \<or> f \<in> set next_layer) \<and> (\<forall>f<?n. queued s ! f \<longrightarrow> q ! f)
    \<and> set [] \<subseteq> set next_layer \<and> set next_layer \<subseteq> set [] \<union> set (concat (map nb (layer s)))
    \<and> (\<forall>f\<in>set (concat (map nb (layer s))). anchor t ! f = UNPLACED \<longrightarrow> q ! f)"
    by (rule queue_neighbours[OF I(2) _ _ _ q]) simp_all
  have Q: "length q = ?n" "distinct next_layer" "f \<in> set next_layer \<Longrightarrow> f < ?n \<and> q ! f \<and> anc t f = None"
    "f < ?n \<Longrightarrow> q ! f \<Longrightarrow> queued s ! f \<or> f \<in> set next_layer"
    "f \<in> set (concat (map nb (layer s))) \<Longrightarrow> anc t f = None \<Longrightarrow> q ! f" for f
    using Q0 unfolding anc_None by blast+
  have Q5: "f \<in> set (concat (map nb (layer s)))" if "f \<in> set next_layer" for f
    using Q0 that unfolding list.set(1) Un_empty_left by blast
  let ?s = "t\<lparr>queued := q, layer := next_layer\<rparr>"
  have r: "patch_layer nb s = Some ?s"
    using ok q len(2) by (simp add: patch_layer_def Let_def an_def[symmetric] ps_def[symmetric] t_def[symmetric])
  have placed: "anc t e \<noteq> None \<longleftrightarrow> e \<in> ?L \<or> anc s e \<noteq> None" for e using an' some by simp
  have keep: "anc t e = anc s e" if "anc s e \<noteq> None" for e using an'[of e] I(4)[of e] that by auto
  have sel: "anc ?s = anc t" "length (anchor ?s) = length (anchor t)" "queued ?s = q" "layer ?s = next_layer" by (simp_all add: anc_def fun_eq_iff)
  have "patch_inv nb prev ?s"
    unfolding patch_inv_def sel
  proof (intro conjI allI ballI impI)
    show "length (anchor t) = ?n" "length q = ?n" "distinct next_layer" by (rule len(1) Q(1,2))+
    fix e
    show "\<exists>f\<in>set (nb e). anc t f \<noteq> None" if "e \<in> set next_layer"
    proof -
      from Q5[OF that] obtain f where f: "f \<in> ?L" "e \<in> set (nb f)" by auto
      then have "f \<in> set (nb e)" using rows(2)[of f e] I(4)[OF f(1)] by blast
      then show ?thesis using placed f(1) by blast
    qed
    show "e < ?n" "anc t e = None" "q ! e" if "e \<in> set next_layer" using Q(3)[OF that] by simp_all
    show "anc t e = Some r" if "e < ?n" "prev ! e = Some r" for r using keep I(5)[OF that] by simp
    show "anc t e \<noteq> None \<or> e \<in> set next_layer" if "e < ?n" "q ! e" using Q(4)[OF that] I(6)[OF that(1)] placed by blast
    show "anc t f \<noteq> None \<or> f \<in> set next_layer" if e: "e < ?n" "anc t e \<noteq> None" "f \<in> set (nb e)" for f
    proof (cases "e \<in> ?L")
      case True
      then have f: "f \<in> set (concat (map nb (layer s)))" using e(3) by auto
      have "f < ?n" by (rule rows(1)[OF e(1,3)])
      then show ?thesis using Q(4,5) f I(6) placed by blast
    next
      case False
      then show ?thesis using I(7)[OF e(1) _ e(3)] e(2) placed by blast
    qed
    show "\<exists>f<?n. prev ! f \<noteq> None \<and> (e, f) \<in> (neighbour_graph nb)\<^sup>*" if e: "e < ?n" "anc t e \<noteq> None"
    proof (cases "e \<in> ?L")
      case True
      then obtain f where f: "f \<in> set (nb e)" "anc s f \<noteq> None" using I(4) by blast
      obtain g where g: "g < ?n" "prev ! g \<noteq> None" "(f, g) \<in> (neighbour_graph nb)\<^sup>*" using I(8)[OF rows(1)[OF e(1) f(1)] f(2)] by blast
      have "(e, g) \<in> (neighbour_graph nb)\<^sup>*"
        by (rule converse_rtrancl_into_rtrancl[OF _ g(3)]) (use f(1) in \<open>simp add: neighbour_graph_def\<close>)
      then show ?thesis using g by blast
    next
      case False
      then show ?thesis using I(8)[OF e(1)] e(2) placed by blast
    qed
    have "first_anchors nb prev (anc t)"
      unfolding first_anchors_def
    proof (intro allI impI)
      fix e assume e: "e < ?n" "prev ! e = None" "\<exists>f\<in>set (nb e). prev ! f \<noteq> None"
      from I(9)[unfolded first_layer_def] show "anc t e = highest_anchor nb ((!) prev) e"
      proof (elim disjE conjE)
        assume "\<forall>e<?n. anc s e = prev ! e" "\<forall>e<?n. prev ! e = None \<longrightarrow> (\<exists>f\<in>set (nb e). prev ! f \<noteq> None) \<longrightarrow> e \<in> ?L"
        then show ?thesis using an'[of e] e highest_anchor_cong[of nb e "anc s" "(!) prev"] rows(1)[OF e(1)] by (simp add: anchor_of_highest)
      next
        assume "first_anchors nb prev (anc s)"
        then have a: "anc s e = highest_anchor nb ((!) prev) e" using e unfolding first_anchors_def by blast
        then have "anc s e \<noteq> None" using e(3) by (simp add: highest_anchor_None)
        then show ?thesis using keep a by simp
      qed
    qed
    then show "first_layer nb prev ?s" unfolding first_layer_def sel by blast
  qed
  moreover have "card {e. e < ?n \<and> anc t e = None} < card {e. e < ?n \<and> anc s e = None}"
  proof (rule psubset_card_mono)
    obtain e where "e \<in> ?L" using ne by (cases "layer s") auto
    then have "e \<in> {e. e < ?n \<and> anc s e = None} - {e. e < ?n \<and> anc t e = None}" using I(4) placed by blast
    then show "{e. e < ?n \<and> anc t e = None} \<subset> {e. e < ?n \<and> anc s e = None}" using placed by blast
  qed simp
  ultimately show ?thesis using r by (intro exI[of _ ?s] conjI) (assumption | simp only: sel(1))+
qed

lemma patch_layers_end:
  assumes sym: "symmetric_rows (length prev) nb"
  shows "patch_inv nb prev s \<Longrightarrow> \<exists>t. patch_layers nb s = Some t \<and> patch_inv nb prev t \<and> layer t = []"
proof (induction "card {e. e < length prev \<and> anc s e = None}" arbitrary: s rule: less_induct)
  case less
  show ?case
  proof (cases "layer s = []")
    case True
    then show ?thesis using less.prems by (auto simp: patch_layers.simps[of nb s])
  next
    case False
    from patch_layer_step[OF less.prems sym False] obtain s' where s: "patch_layer nb s = Some s'" "patch_inv nb prev s'"
      "card {e. e < length prev \<and> anc s' e = None} < card {e. e < length prev \<and> anc s e = None}" by blast
    from less.hyps[OF s(3,2)] show ?thesis using s(1) False by (simp add: patch_layers.simps[of nb s])
  qed
qed

section \<open>The patched order\<close>

definition road_ok :: "road_topology \<Rightarrow> bool" where
  "road_ok g \<longleftrightarrow> (\<forall>e<length (routing g). fst (routing g ! e) < road_nodes g \<and> snd (routing g ! e) < road_nodes g)
     \<and> edge_based_tables g = edge_based_build (road_nodes g) (length (routing g)) (\<lambda>e. routing g ! e)"

abbreviation road_neighbours :: "road_topology \<Rightarrow> nat \<Rightarrow> nat list" where
  "road_neighbours g \<equiv> edge_neighbours g (incoming_tables g)"

lemma road_neighbours_iff:
  assumes "road_ok g" "e < length (routing g)"
  shows "f \<in> set (road_neighbours g e) \<longleftrightarrow> f < length (routing g) \<and> f \<noteq> e
    \<and> (fst (routing g ! f) = snd (routing g ! e) \<or> snd (routing g ! f) = fst (routing g ! e))"
proof -
  let ?n = "length (routing g)"
  have ends: "\<forall>e<?n. fst (routing g ! e) < road_nodes g \<and> snd (routing g ! e) < road_nodes g"
    and t: "edge_based_tables g = edge_based_build (road_nodes g) ?n (\<lambda>e. routing g ! e)"
    using assms(1) unfolding road_ok_def by blast+
  have v: "snd (routing g ! e) < road_nodes g" "fst (routing g ! e) < road_nodes g" using ends assms(2) by blast+
  have out: "outgoing_edges (node_first_out (edge_based_tables g)) (node_edge_order (edge_based_tables g)) (snd (routing g ! e))
    = filter (\<lambda>f. fst (routing g ! f) = snd (routing g ! e)) [0..<?n]"
    unfolding t edge_based_rows(3)[OF ends v(1)] by (simp add: leaving_def)
  have items: "\<forall>a\<in>set (map (\<lambda>e. (snd (routing g ! e), e)) [0..<?n]). fst a < road_nodes g" using ends by auto
  have inc: "outgoing_edges (fst (incoming_tables g)) (snd (incoming_tables g)) (fst (routing g ! e))
    = filter (\<lambda>f. snd (routing g ! f) = fst (routing g ! e)) [0..<?n]"
    using group_by_key_row[OF items v(2), of 0] by (simp add: outgoing_edges_def incoming_tables_def filter_pair_edges)
  show ?thesis unfolding edge_neighbours_def out inc by auto
qed

lemma road_symmetric: "road_ok g \<Longrightarrow> symmetric_rows (length (routing g)) (road_neighbours g)"
  unfolding symmetric_rows_def using road_neighbours_iff by (metis (no_types, lifting))

lemma rank_before:
  assumes "is_order n xs" "i < j" "j < length xs"
  shows "ranks_of_order n xs ! (xs ! i) < ranks_of_order n xs ! (xs ! j)"
proof -
  have "length xs = n" using assms(1) distinct_card[of xs] by (simp add: is_order_def)
  then show ?thesis using ranks_of_order_nth(1)[OF assms(1), of i] ranks_of_order_nth(1)[OF assms(1), of j] assms(2,3) by simp
qed

lemma rank_sorted:
  assumes ord: "is_order n (front @ sort_key k xs)" and xy: "x \<in> set xs" "y \<in> set xs" "k x < k y"
  shows "ranks_of_order n (front @ sort_key k xs) ! x < ranks_of_order n (front @ sort_key k xs) ! y"
proof -
  let ?zs = "sort_key k xs"
  obtain i j where ij: "i < length ?zs" "?zs ! i = x" "j < length ?zs" "?zs ! j = y"
    using xy(1,2) by (metis in_set_conv_nth set_sort)
  have "i < j"
  proof (rule ccontr)
    assume "\<not> i < j"
    then have "map k ?zs ! j \<le> map k ?zs ! i" using ij by (intro sorted_nth_mono) simp_all
    then show False using ij xy(3) by simp
  qed
  then show ?thesis using rank_before[OF ord, of "length front + i" "length front + j"] ij by simp
qed

lemma patch_edge_order_spec:
  assumes ok: "road_ok g" and len: "length prev = length (routing g)" and n: "length (routing g) < u32_max"
    and ranks: "\<forall>r. Some r \<in> set prev \<longrightarrow> r < u32_max"
  shows "\<exists>s front. patch_edge_order g px py prev = Some \<lparr>patched = front @ place_order prev s,
        reused = card {e. e < length prev \<and> prev ! e \<noteq> None}, inserted = length prev - card {e. e < length prev \<and> prev ! e \<noteq> None}\<rparr>
    \<and> patch_inv (road_neighbours g) prev s \<and> layer s = [] \<and> set front = {e. e < length prev \<and> anc s e = None}
    \<and> is_order (length prev) (front @ place_order prev s)"
proof -
  let ?n = "length (routing g)" and ?nb = "road_neighbours g"
  let ?c = "build_edge_cell (transitions.truncate (edge_based_tables g)) px py"
  have sym: "symmetric_rows (length prev) ?nb" using road_symmetric[OF ok] len by simp
  obtain s where s: "patch_layers ?nb (patch_start ?nb prev) = Some s" "patch_inv ?nb prev s" "layer s = []"
    using patch_layers_end[OF sym patch_start_inv[OF sym ranks]] by blast
  let ?iso = "filter (\<lambda>e. anc s e = None) [0..<?n]"
  have "edge_count (edge_based_tables g) = ?n" using ok by (simp add: road_ok_def edge_based_build_def Let_def split_beta)
  then have c: "cell_len ?c = ?n" "cell_ids ?c = [0..<?n]"
    by (simp_all add: transitions.truncate_def build_edge_cell_def split_beta cell_len_def)
  have sub: "sorted_wrt (<) ?iso" "set ?iso \<subseteq> {0..<cell_len ?c}" using c(1) by (auto simp: sorted_wrt_filter)
  have "length ?iso \<le> ?n" using length_filter_le[of "\<lambda>e. anc s e = None" "[0..<?n]"] by simp
  then have small: "cell_len (induced ?c ?iso) < u32_max" using n by simp
  obtain d where d: "dissect (induced ?c ?iso) LEAF_NODES = Some d" "dissection LEAF_NODES (induced ?c ?iso) d"
    using dissect_returns[OF wf_induced[OF wf_build_edge_cell sub] small, of LEAF_NODES] by (auto simp: LEAF_NODES_def)
  have "mset d = mset (map (\<lambda>v. cell_ids ?c ! v) ?iso)" using dissection_mset[OF d(2) wf_induced[OF wf_build_edge_cell sub]] by simp
  also have "map (\<lambda>v. cell_ids ?c ! v) ?iso = ?iso" unfolding c(2) by (rule map_idI) auto
  finally have dm: "mset d = mset ?iso" .
  define front where "front = (if ?iso = [] then [] else d)"
  have f: "(if ?iso = [] then Some [] else dissect (induced ?c ?iso) LEAF_NODES) = Some front"
    unfolding front_def using d(1) by (cases "?iso = []") (simp_all only: if_True if_False simp_thms)
  have fm: "mset front = mset ?iso" unfolding front_def using dm by (cases "?iso = []") (simp_all only: if_True if_False simp_thms)
  have kept: "length (filter (\<lambda>r. r \<noteq> None) prev) = card {e. e < length prev \<and> prev ! e \<noteq> None}"
    by (simp add: length_filter_conv_card)
  have r: "patch_edge_order g px py prev = Some \<lparr>patched = front @ place_order prev s,
        reused = card {e. e < length prev \<and> prev ! e \<noteq> None}, inserted = length prev - card {e. e < length prev \<and> prev ! e \<noteq> None}\<rparr>"
    unfolding patch_edge_order_def Let_def anc_None[symmetric] using len s(1) f kept by simp
  have fs: "set front = {e. e < length prev \<and> anc s e = None}" "distinct front"
    using mset_eq_setD[OF fm] mset_eq_imp_distinct_iff[OF fm] len by simp_all
  have "is_order (length prev) (front @ place_order prev s)"
  proof -
    have pl: "set (place_order prev s) = {e. e < length prev \<and> anc s e \<noteq> None}" "distinct (place_order prev s)"
      by (auto simp: place_order_def anc_None)
    have "{e. e < length prev \<and> anc s e = None} \<union> {e. e < length prev \<and> anc s e \<noteq> None} = {0..<length prev}" by auto
    then show ?thesis unfolding is_order_def distinct_append set_append pl(1) fs(1) using fs(2) pl(2) by blast
  qed
  then show ?thesis using r s(2,3) fs(1) by blast
qed

text \<open>C37: patching an order is exact. On a well-formed network with one previous rank per state, none of them the reserved \<open>UNPLACED\<close>, the code
  returns a permutation of the states. Reused states keep their relative order; a new state that
  has a reused neighbour lies after exactly those reused states whose rank is at most the highest
  rank among its neighbours; and the states no path of shared nodes joins to a reused state come
  before all others. The counts of reused and inserted states are the true ones.\<close>

theorem patch_edge_order_exact:
  assumes "road_ok g" "length prev = length (routing g)" "length (routing g) < u32_max"
    and "\<forall>r. Some r \<in> set prev \<longrightarrow> r < u32_max"
  defines "nb \<equiv> road_neighbours g" and "n \<equiv> length (routing g)"
  defines "linked \<equiv> (\<lambda>e. \<exists>f<n. prev ! f \<noteq> None \<and> (e, f) \<in> (neighbour_graph nb)\<^sup>*)"
  shows "\<exists>p. patch_edge_order g px py prev = Some p \<and> is_order n (patched p)
    \<and> reused p = card {e. e < n \<and> prev ! e \<noteq> None} \<and> reused p + inserted p = n
    \<and> (\<forall>e<n. \<forall>f<n. \<forall>i j. prev ! e = Some i \<longrightarrow> prev ! f = Some j \<longrightarrow> i < j \<longrightarrow>
         ranks_of_order n (patched p) ! e < ranks_of_order n (patched p) ! f)
    \<and> (\<forall>e<n. \<forall>f<n. \<forall>m j. prev ! e = None \<longrightarrow> prev ! f = Some j
         \<longrightarrow> (\<exists>h\<in>set (nb e). prev ! h = Some m) \<longrightarrow> (\<forall>h\<in>set (nb e). \<forall>q. prev ! h = Some q \<longrightarrow> q \<le> m)
         \<longrightarrow> (ranks_of_order n (patched p) ! f < ranks_of_order n (patched p) ! e \<longleftrightarrow> j \<le> m))
    \<and> (\<forall>e<n. \<forall>f<n. \<not> linked e \<longrightarrow> linked f \<longrightarrow> ranks_of_order n (patched p) ! e < ranks_of_order n (patched p) ! f)"
proof -
  have len: "length prev = n" using assms(2) by (simp add: n_def)
  obtain s front where p: "patch_edge_order g px py prev = Some \<lparr>patched = front @ place_order prev s,
        reused = card {e. e < n \<and> prev ! e \<noteq> None}, inserted = n - card {e. e < n \<and> prev ! e \<noteq> None}\<rparr>"
    "patch_inv nb prev s" "layer s = []" "set front = {e. e < n \<and> anc s e = None}" "is_order n (front @ place_order prev s)"
    using patch_edge_order_spec[OF assms(1-4), of px py] unfolding len nb_def by blast
  note I = patch_invD[OF p(2), unfolded len]
  let ?rank = "ranks_of_order n (front @ place_order prev s)"
  let ?key = "\<lambda>e. (anchor s ! e, prev ! e = None, sequence_of s ! e)"
  have placed: "set (place_order prev s) = {e. e < n \<and> anc s e \<noteq> None}" by (auto simp: place_order_def len anc_None)
  have key: "?rank ! e < ?rank ! f" if "e < n" "f < n" "anc s e \<noteq> None" "anc s f \<noteq> None" "?key e < ?key f" for e f
    using rank_sorted[OF p(5)[unfolded place_order_def], of e f] that by (simp add: place_order_def len anc_None)
  have closed: "anc s f \<noteq> None" if "e < n" "anc s e \<noteq> None" "f \<in> set (nb e)" for e f
    using I(7)[OF that] p(3) by simp
  have sym: "symmetric_rows n nb" using road_symmetric[OF assms(1)] by (simp add: nb_def n_def)
  have reach: "anc s e \<noteq> None" if "(e, f) \<in> (neighbour_graph nb)\<^sup>*" "e < n" "f < n" "anc s f \<noteq> None" for e f
    using that
  proof (induction rule: converse_rtrancl_induct)
    case (step y z)
    then have "z < n" "y \<in> set (nb z)" using sym unfolding symmetric_rows_def neighbour_graph_def by blast+
    then show ?case using step closed by blast
  qed
  have linked: "linked e \<longleftrightarrow> anc s e \<noteq> None" if "e < n" for e
  proof
    assume "linked e"
    then obtain f where f: "f < n" "prev ! f \<noteq> None" "(e, f) \<in> (neighbour_graph nb)\<^sup>*" unfolding linked_def by blast
    then have "anc s f \<noteq> None" using I(5)[of f] by auto
    then show "anc s e \<noteq> None" using reach f that by blast
  qed (use I(8)[OF that] in \<open>auto simp: linked_def\<close>)
  have new: "anc s e = Some m" if e: "e < n" "prev ! e = None" "\<exists>h\<in>set (nb e). prev ! h = Some m"
      "\<forall>h\<in>set (nb e). \<forall>q. prev ! h = Some q \<longrightarrow> q \<le> m" for e m
  proof -
    have "first_anchors nb prev (anc s)" using I(9) p(3) e unfolding first_layer_def first_anchors_def by auto
    then have "anc s e = highest_anchor nb ((!) prev) e" using e(1-3) unfolding first_anchors_def len by fastforce
    also have "\<dots> = Some m" unfolding highest_anchor_iff using e(3,4) by blast
    finally show ?thesis .
  qed
  have "?rank ! e < ?rank ! f" if "e < n" "f < n" "prev ! e = Some i" "prev ! f = Some j" "i < j" for e f i j
    using key[OF that(1,2)] anc_the[OF I(5)[OF that(1,3)]] anc_the[OF I(5)[OF that(2,4)]] I(5)[OF that(1,3)] I(5)[OF that(2,4)] that(5) by simp
  moreover have "?rank ! f < ?rank ! e \<longleftrightarrow> j \<le> m" if e: "e < n" "f < n" "prev ! e = None" "prev ! f = Some j"
      "\<exists>h\<in>set (nb e). prev ! h = Some m" "\<forall>h\<in>set (nb e). \<forall>q. prev ! h = Some q \<longrightarrow> q \<le> m" for e f m j
  proof (cases "j \<le> m")
    case True
    then show ?thesis using key[OF e(2,1)] new[OF e(1,3,5,6)] I(5)[OF e(2,4)] anc_the[OF new[OF e(1,3,5,6)]] anc_the[OF I(5)[OF e(2,4)]] e(3,4) by (auto simp: less_le)
  next
    case False
    then have "?rank ! e < ?rank ! f" using key[OF e(1,2)] new[OF e(1,3,5,6)] I(5)[OF e(2,4)] anc_the[OF new[OF e(1,3,5,6)]] anc_the[OF I(5)[OF e(2,4)]] e(3,4) by auto
    then show ?thesis using False by simp
  qed
  moreover have "?rank ! e < ?rank ! f" if "e < n" "f < n" "\<not> linked e" "linked f" for e f
    by (rule rank_append[OF p(5)]) (use that linked p(4) placed in auto)
  moreover have "card {e. e < n \<and> prev ! e \<noteq> None} \<le> n" using card_mono[of "{0..<n}" "{e. e < n \<and> prev ! e \<noteq> None}"] by fastforce
  ultimately show ?thesis using p(1,5) by (intro exI[of _ "\<lparr>patched = front @ place_order prev s,
        reused = card {e. e < n \<and> prev ! e \<noteq> None}, inserted = n - card {e. e < n \<and> prev ! e \<noteq> None}\<rparr>"]) simp
qed

text \<open>A triangle of one-way streets and one new street that leads back.\<close>

definition witness_road :: road_topology where
  "witness_road = \<lparr>road_nodes = 3, routing = [(0, 1), (1, 2), (2, 0), (1, 0)],
     edge_based_tables = edge_based_build 3 4 ((!) [(0, 1), (1, 2), (2, 0), (1, 0)])\<rparr>"

lemma witness_road_ok: "road_ok witness_road"
  unfolding road_ok_def by code_simp

theorem patch_edge_order_exact_witness:
  "\<exists>p. patch_edge_order witness_road (\<lambda>v. 0) (\<lambda>v. 0) [Some (2 :: nat), Some 0, Some 1, None] = Some p
    \<and> ranks_of_order 4 (patched p) ! 1 < ranks_of_order 4 (patched p) ! 2 \<and> reused p + inserted p = 4"
proof -
  have l: "length (routing witness_road) = 4" by (simp add: witness_road_def)
  have "length [Some (2 :: nat), Some 0, Some 1, None] = length (routing witness_road)" "length (routing witness_road) < u32_max"
    by (simp_all add: l u32_max_def)
  moreover have "\<forall>r. Some r \<in> set [Some (2 :: nat), Some 0, Some 1, None] \<longrightarrow> r < u32_max" by (auto simp: u32_max_def)
  ultimately have hyps: "length [Some (2 :: nat), Some 0, Some 1, None] = length (routing witness_road)" "length (routing witness_road) < u32_max"
    "\<forall>r. Some r \<in> set [Some (2 :: nat), Some 0, Some 1, None] \<longrightarrow> r < u32_max" by blast+
  from patch_edge_order_exact[OF witness_road_ok hyps, of "\<lambda>v. 0" "\<lambda>v. 0", unfolded l]
  obtain p where p: "patch_edge_order witness_road (\<lambda>v. 0) (\<lambda>v. 0) [Some (2 :: nat), Some 0, Some 1, None] = Some p" "reused p + inserted p = 4"
    "\<forall>e<4. \<forall>f<4. \<forall>i j. [Some (2 :: nat), Some 0, Some 1, None] ! e = Some i \<longrightarrow> [Some (2 :: nat), Some 0, Some 1, None] ! f = Some j \<longrightarrow> i < j \<longrightarrow>
         ranks_of_order 4 (patched p) ! e < ranks_of_order 4 (patched p) ! f"
    by (elim exE conjE) (rule that; assumption)
  from p(3)[rule_format, of 1 2 0 1] show ?thesis using p(1,2) by simp
qed

end
