(* ===== verification/Ranked_Cch.thy ===== *)
theory Ranked_Cch
  imports Cch_Exact
begin

text \<open>
  The customized hierarchy renumbered by contraction rank (\<open>RankedTopology\<close> and \<open>RankedCch\<close> in
  \<open>crates/query/src/engine/cch_query.rs\<close>): the arrays that every hierarchy search walks. The
  lemmas show that the row of a rank lists exactly the hierarchy arcs of its edge state, with the
  customized weights, and that the two position maps find the arc they are asked for.
\<close>

section \<open>The arrays\<close>

record ranked_topology =
  up_first :: "nat list"
  up_heads :: "nat list"
  down_first :: "nat list"
  down_tails :: "nat list"

record ranked_cch =
  ranked_rows :: ranked_topology
  ranked_up_weight :: "u32 list"
  ranked_down_weight :: "u32 list"

definition bundle_row :: "acceleration_bundle \<Rightarrow> 'a list \<Rightarrow> nat \<Rightarrow> 'a list" where
  "bundle_row b xs e = subslice xs (upward_first_out b ! e) (upward_first_out b ! (e + 1))"

definition push_row :: "acceleration_bundle \<Rightarrow> nat list \<times> nat list \<Rightarrow> nat \<Rightarrow> nat list \<times> nat list" where
  "push_row b s e = (let heads = snd s @ map (\<lambda>head. edge_rank b ! head) (bundle_row b (upward_head b) e)
     in (fst s @ [length heads], heads))"

text \<open>\<open>value(tail, slot)\<close> of every downward arc, grouped by head rank.\<close>

definition downward_items :: "acceleration_bundle \<Rightarrow> (nat \<Rightarrow> nat \<Rightarrow> 'a) \<Rightarrow> (nat \<times> 'a) list" where
  "downward_items b item = concat (map (\<lambda>tail. map (\<lambda>slot. (edge_rank b ! (downward_head b ! slot), item tail slot))
       [downward_first_out b ! tail ..< downward_first_out b ! (tail + 1)]) [0..<length (edge_order b)])"

definition group_downward_by_head :: "acceleration_bundle \<Rightarrow> 'a \<Rightarrow> (nat \<Rightarrow> nat \<Rightarrow> 'a) \<Rightarrow> nat list \<times> 'a list" where
  "group_downward_by_head b dflt item = group_by_key (length (edge_order b)) dflt (downward_items b item)"

definition ranked_topology_build :: "acceleration_bundle \<Rightarrow> ranked_topology" where
  "ranked_topology_build b =
     (let (first_out, heads) = foldl (push_row b) ([0], []) (edge_order b);
          (down_out, tails) = group_downward_by_head b 0 (\<lambda>tail slot. edge_rank b ! tail)
      in \<lparr>up_first = first_out, up_heads = heads, down_first = down_out, down_tails = tails\<rparr>)"

definition with_topology :: "ranked_topology \<Rightarrow> acceleration_bundle \<Rightarrow> metric_weights \<Rightarrow> ranked_cch" where
  "with_topology t b w = \<lparr>ranked_rows = t,
     ranked_up_weight = concat (map (bundle_row b (up_weights w)) (edge_order b)),
     ranked_down_weight = snd (group_downward_by_head b 0 (\<lambda>tail slot. down_weights w ! slot))\<rparr>"

definition ranked_build :: "acceleration_bundle \<Rightarrow> metric_weights \<Rightarrow> ranked_cch" where
  "ranked_build b w = with_topology (ranked_topology_build b) b w"

definition downward_slots :: "acceleration_bundle \<Rightarrow> nat list" where
  "downward_slots b = snd (group_downward_by_head b 0 (\<lambda>tail slot. slot))"

section \<open>Rows and positions\<close>

definition upward_row :: "ranked_cch \<Rightarrow> nat \<Rightarrow> (nat \<times> u32) list" where
  "upward_row c rank = (let t = ranked_rows c; a = up_first t ! rank; z = up_first t ! (rank + 1)
     in zip (subslice (up_heads t) a z) (subslice (ranked_up_weight c) a z))"

definition downward_row :: "ranked_cch \<Rightarrow> nat \<Rightarrow> (nat \<times> u32) list" where
  "downward_row c rank = (let t = ranked_rows c; a = down_first t ! rank; z = down_first t ! (rank + 1)
     in zip (subslice (down_tails t) a z) (subslice (ranked_down_weight c) a z))"

definition upward_position :: "ranked_cch \<Rightarrow> acceleration_bundle \<Rightarrow> nat \<Rightarrow> nat \<Rightarrow> nat" where
  "upward_position c b tail slot =
     up_first (ranked_rows c) ! (edge_rank b ! tail) + (slot - upward_first_out b ! tail)"

definition downward_position :: "ranked_cch \<Rightarrow> acceleration_bundle \<Rightarrow> nat \<Rightarrow> nat \<Rightarrow> nat option" where
  "downward_position c b tail head =
     (let t = ranked_rows c; a = down_first t ! (edge_rank b ! head); z = down_first t ! (edge_rank b ! head + 1)
      in case binary_search (map (\<lambda>tail_rank. edge_order b ! tail_rank) (subslice (down_tails t) a z)) tail of
           Found i \<Rightarrow> Some (a + i) | Insert _ \<Rightarrow> None)"

definition upward_weight :: "ranked_cch \<Rightarrow> acceleration_bundle \<Rightarrow> nat \<Rightarrow> nat \<Rightarrow> u32" where
  "upward_weight c b tail slot = ranked_up_weight c ! upward_position c b tail slot"

definition downward_weight :: "ranked_cch \<Rightarrow> acceleration_bundle \<Rightarrow> nat \<Rightarrow> nat \<Rightarrow> u32 option" where
  "downward_weight c b tail head = map_option (\<lambda>position. ranked_down_weight c ! position) (downward_position c b tail head)"

section \<open>The order and its inverse\<close>

lemma hierarchy_order:
  assumes "hierarchy n b ups downs"
  shows "length (edge_order b) = n" "r < n \<Longrightarrow> edge_order b ! r < n" "r < n \<Longrightarrow> edge_rank b ! (edge_order b ! r) = r"
    "x < n \<Longrightarrow> edge_rank b ! x < n" "x < n \<Longrightarrow> edge_order b ! (edge_rank b ! x) = x"
proof -
  have o: "is_order n (edge_order b)" and e: "edge_rank b = ranks_of_order n (edge_order b)"
    using assms by (simp_all add: hierarchy_def)
  show l: "length (edge_order b) = n" using o by (metis is_order_def card_atLeastLessThan diff_zero distinct_card)
  show "r < n \<Longrightarrow> edge_order b ! r < n" "r < n \<Longrightarrow> edge_rank b ! (edge_order b ! r) = r"
    using ranks_of_order_nth[OF o] by (simp_all add: e)
  show "x < n \<Longrightarrow> edge_rank b ! x < n" "x < n \<Longrightarrow> edge_order b ! (edge_rank b ! x) = x"
  proof -
    assume "x < n"
    then have "x \<in> set (edge_order b)" using o by (simp add: is_order_def)
    then obtain r where r: "r < n" "edge_order b ! r = x" using l by (auto simp: in_set_conv_nth)
    then show "edge_rank b ! x < n" "edge_order b ! (edge_rank b ! x) = x"
      using ranks_of_order_nth(1)[OF o r(1)] by (simp_all add: e)
  qed
qed

section \<open>Upward rows\<close>

lemma push_rows:
  "foldl (push_row b) ([0], []) es =
    (map (\<lambda>i. length (concat (map (bundle_row b (upward_head b)) (take i es)))) [0..<Suc (length es)],
     map (\<lambda>head. edge_rank b ! head) (concat (map (bundle_row b (upward_head b)) es)))"
  by (induction es rule: rev_induct) (simp_all add: push_row_def Let_def)

lemma concat_subslice:
  assumes "i < length rows"
  shows "subslice (concat rows) (length (concat (take i rows))) (length (concat (take (Suc i) rows))) = rows ! i"
proof -
  have "concat rows = concat (take i rows) @ rows ! i @ concat (drop (Suc i) rows)"
    using id_take_nth_drop[OF assms] by (metis concat.simps(2) concat_append)
  then show ?thesis using assms by (simp add: subslice_def take_Suc_conv_app_nth)
qed

lemma length_concat_rows:
  "(\<And>x. x \<in> set es \<Longrightarrow> length (f x) = length (g x)) \<Longrightarrow> length (concat (map f es)) = length (concat (map g es))"
  by (induction es) simp_all

lemma bundle_row_zip:
  assumes "hierarchy n b ups downs" "e < n" "length xs = length ups"
  shows "zip (bundle_row b (upward_head b) e) (bundle_row b xs e)
      = map (\<lambda>s. (snd (ups ! s), xs ! s)) [upward_first_out b ! e ..< upward_first_out b ! (e + 1)]"
    "length (bundle_row b xs e) = length (bundle_row b (upward_head b) e)"
proof -
  have fo: "upward_first_out b = fst (arcs_to_csr ups n)" and h: "upward_head b = map snd ups"
    and s: "sorted_arcs n ups" using assms(1) by (simp_all add: hierarchy_def)
  have le: "upward_first_out b ! (e + 1) \<le> length ups" "upward_first_out b ! e \<le> upward_first_out b ! (e + 1)"
    using valid_offsetsD(2,3)[OF csr_valid_offsets] s assms(2) unfolding fo sorted_arcs_def by simp_all
  have r: "bundle_row b ys e = map ((!) ys) [upward_first_out b ! e ..< upward_first_out b ! (e + 1)]"
    if "length ys = length ups" for ys :: "'x list"
    using subslice_map_nth[of "upward_first_out b ! (e + 1)" ys] le(1) that by (simp add: bundle_row_def)
  show "zip (bundle_row b (upward_head b) e) (bundle_row b xs e)
      = map (\<lambda>s. (snd (ups ! s), xs ! s)) [upward_first_out b ! e ..< upward_first_out b ! (e + 1)]"
    using r[of "upward_head b"] le(1) assms(3) r[OF assms(3)]
    by (simp add: h zip_map_map zip_same_conv_map comp_def)
  show "length (bundle_row b xs e) = length (bundle_row b (upward_head b) e)"
    using assms(3) h by (simp add: bundle_row_def subslice_def)
qed


lemma ranked_up_parts:
  assumes "hierarchy n b ups downs" "length (up_weights w) = length ups" "r < n"
  defines "t \<equiv> ranked_rows (ranked_build b w)" and "e \<equiv> edge_order b ! r"
  shows "subslice (up_heads t) (up_first t ! r) (up_first t ! (r + 1))
      = map (\<lambda>head. edge_rank b ! head) (bundle_row b (upward_head b) e)"
    "subslice (ranked_up_weight (ranked_build b w)) (up_first t ! r) (up_first t ! (r + 1)) = bundle_row b (up_weights w) e"
    "up_first t ! r + length (bundle_row b (up_weights w) e) \<le> length (ranked_up_weight (ranked_build b w))"
proof -
  let ?o = "edge_order b" and ?H = "bundle_row b (upward_head b)" and ?W = "bundle_row b (up_weights w)"
  note o = hierarchy_order[OF assms(1)]
  have l: "length ?o = n" by (rule o(1))
  have t: "up_first t = map (\<lambda>i. length (concat (map ?H (take i ?o)))) [0..<Suc n]"
    "up_heads t = concat (map (\<lambda>e. map (\<lambda>head. edge_rank b ! head) (?H e)) ?o)"
    "ranked_up_weight (ranked_build b w) = concat (map ?W ?o)"
    by (simp_all add: t_def ranked_build_def with_topology_def ranked_topology_build_def push_rows l
        map_concat comp_def split_beta)
  have mem: "x < n" if "x \<in> set ?o" for x using that o(2) l by (auto simp: in_set_conv_nth)
  have lw: "length (concat (map ?W (take i ?o))) = length (concat (map ?H (take i ?o)))" for i
    by (rule length_concat_rows) (use bundle_row_zip(2)[OF assms(1) _ assms(2)] mem in_set_takeD in metis)
  have lh: "length (concat (map (\<lambda>e. map (\<lambda>head. edge_rank b ! head) (?H e)) (take i ?o)))
      = length (concat (map ?H (take i ?o)))" for i
    by (rule length_concat_rows) simp
  have f: "up_first t ! r = length (concat (map ?H (take r ?o)))"
    "up_first t ! (r + 1) = length (concat (map ?H (take (Suc r) ?o)))"
    using assms(3) by (simp_all add: t nth_append del: upt_Suc)
  show "subslice (up_heads t) (up_first t ! r) (up_first t ! (r + 1)) = map (\<lambda>head. edge_rank b ! head) (?H e)"
    using concat_subslice[of r "map (\<lambda>e. map (\<lambda>head. edge_rank b ! head) (?H e)) ?o"] assms(3) l
    unfolding f lh[symmetric] by (simp add: t take_map e_def)
  show "subslice (ranked_up_weight (ranked_build b w)) (up_first t ! r) (up_first t ! (r + 1)) = ?W e"
    using concat_subslice[of r "map ?W ?o"] assms(3) l unfolding f lw[symmetric] by (simp add: t take_map e_def)
  have "concat (map ?W ?o) = concat (map ?W (take r ?o)) @ ?W e @ concat (map ?W (drop (Suc r) ?o))"
  proof -
    have "map ?W ?o = map ?W (take r ?o) @ ?W e # map ?W (drop (Suc r) ?o)"
      using id_take_nth_drop[of r "map ?W ?o"] assms(3) l by (simp add: e_def take_map drop_map)
    then show ?thesis by (metis concat.simps(2) concat_append)
  qed
  then have "length (concat (map ?W ?o)) = length (concat (map ?W (take r ?o))) + length (?W e)
      + length (concat (map ?W (drop (Suc r) ?o)))"
    by (simp only: length_append add.assoc)
  then show "up_first t ! r + length (?W e) \<le> length (ranked_up_weight (ranked_build b w))"
    unfolding f(1) lw[symmetric] t(3) by linarith
qed

lemma csr_slot:
  assumes "sorted_arcs n arcs" "x < n" "s \<in> {fst (arcs_to_csr arcs n) ! x ..< fst (arcs_to_csr arcs n) ! (x + 1)}"
  shows "s < length arcs" "arcs ! s = (x, snd (arcs ! s))"
  using csr_range[OF sorted_arcs_fst[OF assms(1)] assms(2)] assms(3) by (auto simp: prod_eq_iff)

lemma csr_slot_of:
  assumes "sorted_arcs n arcs" "s < length arcs" "arcs ! s = (x, y)" "x < n"
  shows "s \<in> {fst (arcs_to_csr arcs n) ! x ..< fst (arcs_to_csr arcs n) ! (x + 1)}"
  using csr_range[OF sorted_arcs_fst[OF assms(1)] assms(4)] assms(2,3) by simp

theorem upward_row_eq:
  assumes "hierarchy n b ups downs" "weight_shape b w" "r < n"
  shows "upward_row (ranked_build b w) r = map (\<lambda>s. (edge_rank b ! snd (ups ! s), arc_weight b w (edge_order b ! r) (snd (ups ! s))))
    [upward_first_out b ! (edge_order b ! r) ..< upward_first_out b ! (edge_order b ! r + 1)]"
proof -
  let ?e = "edge_order b ! r"
  have s: "sorted_arcs n ups" "upward_first_out b = fst (arcs_to_csr ups n)" "length (up_weights w) = length ups"
    using assms(1,2) by (simp_all add: hierarchy_def weight_shape_def)
  note o = hierarchy_order[OF assms(1)]
  have "upward_row (ranked_build b w) r =
      zip (map (\<lambda>head. edge_rank b ! head) (bundle_row b (upward_head b) ?e)) (bundle_row b (up_weights w) ?e)"
    unfolding upward_row_def Let_def ranked_up_parts[OF assms(1) s(3) assms(3)] by (rule refl)
  also have "\<dots> = map (\<lambda>(h, v). (edge_rank b ! h, v)) (zip (bundle_row b (upward_head b) ?e) (bundle_row b (up_weights w) ?e))"
    by (simp add: zip_map1 case_prod_beta)
  also have "\<dots> = map (\<lambda>s. (edge_rank b ! snd (ups ! s), up_weights w ! s))
      [upward_first_out b ! ?e ..< upward_first_out b ! (?e + 1)]"
    unfolding bundle_row_zip(1)[OF assms(1) o(2)[OF assms(3)] s(3)] by simp
  also have "\<dots> = map (\<lambda>s. (edge_rank b ! snd (ups ! s), arc_weight b w ?e (snd (ups ! s))))
      [upward_first_out b ! ?e ..< upward_first_out b ! (?e + 1)]"
  proof (rule map_cong[OF refl])
    fix k assume "k \<in> set [upward_first_out b ! ?e ..< upward_first_out b ! (?e + 1)]"
    then have "k < length ups" "ups ! k = (?e, snd (ups ! k))"
      using csr_slot[OF s(1) o(2)[OF assms(3)]] s(2) by (metis atLeastLessThan_upt)+
    then show "(edge_rank b ! snd (ups ! k), up_weights w ! k) = (edge_rank b ! snd (ups ! k), arc_weight b w ?e (snd (ups ! k)))"
      using arc_weight_at(1)[OF assms(1)] by metis
  qed
  finally show ?thesis .
qed

text \<open>The row of a rank as a set of arcs.\<close>

lemma upward_row_set:
  assumes "hierarchy n b ups downs" "weight_shape b w" "r < n"
  shows "(h, v) \<in> set (upward_row (ranked_build b w) r) \<longleftrightarrow>
    h < n \<and> (edge_order b ! r, edge_order b ! h) \<in> set ups \<and> v = arc_weight b w (edge_order b ! r) (edge_order b ! h)"
proof -
  let ?e = "edge_order b ! r"
  have s: "sorted_arcs n ups" "upward_first_out b = fst (arcs_to_csr ups n)"
    using assms(1) by (simp_all add: hierarchy_def)
  note o = hierarchy_order[OF assms(1)]
  have "(h, v) \<in> set (upward_row (ranked_build b w) r) \<longleftrightarrow>
      (\<exists>y. (?e, y) \<in> set ups \<and> h = edge_rank b ! y \<and> v = arc_weight b w ?e y)"
  proof
    assume "(h, v) \<in> set (upward_row (ranked_build b w) r)"
    then obtain k where k: "k \<in> {upward_first_out b ! ?e ..< upward_first_out b ! (?e + 1)}"
      "h = edge_rank b ! snd (ups ! k)" "v = arc_weight b w ?e (snd (ups ! k))"
      unfolding upward_row_eq[OF assms] by auto
    have "k < length ups" "ups ! k = (?e, snd (ups ! k))"
      using csr_slot[OF s(1) o(2)[OF assms(3)]] k(1) s(2) by metis+
    then show "\<exists>y. (?e, y) \<in> set ups \<and> h = edge_rank b ! y \<and> v = arc_weight b w ?e y"
      using k nth_mem by metis
  next
    assume "\<exists>y. (?e, y) \<in> set ups \<and> h = edge_rank b ! y \<and> v = arc_weight b w ?e y"
    then obtain y where y: "(?e, y) \<in> set ups" "h = edge_rank b ! y" "v = arc_weight b w ?e y" by blast
    then obtain k where k: "k < length ups" "ups ! k = (?e, y)" by (metis in_set_conv_nth)
    have "k \<in> {upward_first_out b ! ?e ..< upward_first_out b ! (?e + 1)}"
      using csr_slot_of[OF s(1) k o(2)[OF assms(3)]] s(2) by simp
    then show "(h, v) \<in> set (upward_row (ranked_build b w) r)"
      unfolding upward_row_eq[OF assms] using y k(2) by force
  qed
  also have "\<dots> \<longleftrightarrow> h < n \<and> (?e, edge_order b ! h) \<in> set ups \<and> v = arc_weight b w ?e (edge_order b ! h)"
  proof
    assume "\<exists>y. (?e, y) \<in> set ups \<and> h = edge_rank b ! y \<and> v = arc_weight b w ?e y"
    then obtain y where y: "(?e, y) \<in> set ups" "h = edge_rank b ! y" "v = arc_weight b w ?e y" by blast
    then have "y < n" using hierarchyD(4)[OF assms(1)] by blast
    then show "h < n \<and> (?e, edge_order b ! h) \<in> set ups \<and> v = arc_weight b w ?e (edge_order b ! h)"
      using y o(4,5) by simp
  next
    assume "h < n \<and> (?e, edge_order b ! h) \<in> set ups \<and> v = arc_weight b w ?e (edge_order b ! h)"
    then show "\<exists>y. (?e, y) \<in> set ups \<and> h = edge_rank b ! y \<and> v = arc_weight b w ?e y"
      using o(3) by (intro exI[of _ "edge_order b ! h"]) simp
  qed
  finally show ?thesis .
qed


section \<open>Downward rows\<close>

lemma csr_slots_concat:
  assumes "valid_offsets fo n len" "m \<le> n"
  shows "concat (map (\<lambda>t. [fo ! t ..< fo ! (t + 1)]) [0..<m]) = [0..<fo ! m]"
  using assms(2)
proof (induction m)
  case 0
  then show ?case using assms(1) by (simp add: valid_offsets_def)
next
  case (Suc m)
  have "fo ! m \<le> fo ! (m + 1)" using valid_offsetsD(2)[OF assms(1)] Suc.prems by simp
  then show ?case using Suc upt_add_eq_append[of 0 "fo ! m" "fo ! (m + 1) - fo ! m"] by simp
qed

lemma downward_items_eq:
  assumes "hierarchy n b ups downs"
  shows "downward_items b item = map (\<lambda>s. (edge_rank b ! snd (downs ! s), item (fst (downs ! s)) s)) [0..<length downs]"
proof -
  let ?fo = "fst (arcs_to_csr downs n)" and ?g = "\<lambda>s. (edge_rank b ! snd (downs ! s), item (fst (downs ! s)) s)"
  have s: "sorted_arcs n downs" and fo: "downward_first_out b = ?fo" and h: "downward_head b = map snd downs"
    using assms by (simp_all add: hierarchy_def)
  have v: "valid_offsets ?fo n (length downs)" by (rule csr_valid_offsets) (use s in \<open>simp add: sorted_arcs_def\<close>)
  have "downward_items b item = concat (map (\<lambda>t. map ?g [?fo ! t ..< ?fo ! (t + 1)]) [0..<n])"
    unfolding downward_items_def fo hierarchy_order(1)[OF assms]
  proof (intro arg_cong[where f = concat] map_cong refl)
    fix t k
    assume "t \<in> set [0..<n]" "k \<in> set [?fo ! t ..< ?fo ! (t + 1)]"
    then have "k < length downs" "downs ! k = (t, snd (downs ! k))" using csr_slot[OF s, of t k] by simp_all
    then show "(edge_rank b ! (downward_head b ! k), item t k) = ?g k" using h by (metis fst_conv nth_map)
  qed
  also have "\<dots> = map ?g (concat (map (\<lambda>t. [?fo ! t ..< ?fo ! (t + 1)]) [0..<n]))" by (simp add: map_concat comp_def)
  also have "\<dots> = map ?g [0..<length downs]"
    using csr_slots_concat[OF v order_refl] v by (simp add: valid_offsets_def)
  finally show ?thesis .
qed

text \<open>The slots of the downward arcs into the state of rank \<open>r\<close>, in slot order.\<close>

definition slots_into :: "(nat \<times> nat) list \<Rightarrow> nat \<Rightarrow> nat list" where
  "slots_into arcs y = filter (\<lambda>s. snd (arcs ! s) = y) [0..<length arcs]"

lemma group_downward_row:
  fixes item :: "nat \<Rightarrow> nat \<Rightarrow> 'a" and dflt :: 'a
  assumes "hierarchy n b ups downs" "r < n"
  defines "g \<equiv> group_downward_by_head b dflt item"
  shows "subslice (snd g) (fst g ! r) (fst g ! (r + 1)) = map (\<lambda>s. item (fst (downs ! s)) s) (slots_into downs (edge_order b ! r))"
    "fst g ! (r + 1) \<le> length (snd g)" "fst g ! r \<le> fst g ! (r + 1)" "length (snd g) = length downs"
    "fst g = row_starts n (map (\<lambda>s. (edge_rank b ! snd (downs ! s), ())) [0..<length downs])"
proof -
  note o = hierarchy_order[OF assms(1)] and i = downward_items_eq[OF assms(1), of item]
  have g: "g = group_by_key n dflt (downward_items b item)" by (simp add: g_def group_downward_by_head_def o)
  have y: "snd (downs ! s) < n" if "s < length downs" for s
    using hierarchyD(5)[OF assms(1), of "fst (downs ! s)" "snd (downs ! s)"] that by simp
  have k: "\<forall>a\<in>set (downward_items b item). fst a < n" using y o(4) unfolding i by auto
  have "filter (\<lambda>s. edge_rank b ! snd (downs ! s) = r) [0..<length downs] = slots_into downs (edge_order b ! r)"
    unfolding slots_into_def
  proof (rule filter_cong[OF refl])
    fix s assume "s \<in> set [0..<length downs]"
    then show "edge_rank b ! snd (downs ! s) = r \<longleftrightarrow> snd (downs ! s) = edge_order b ! r"
      using y[of s] o(3)[OF assms(2)] o(5)[of "snd (downs ! s)"] by auto
  qed
  then show "subslice (snd g) (fst g ! r) (fst g ! (r + 1)) = map (\<lambda>s. item (fst (downs ! s)) s) (slots_into downs (edge_order b ! r))"
    using group_by_key_row[OF k assms(2)] unfolding g i by (simp add: filter_map comp_def)
  show "fst g ! (r + 1) \<le> length (snd g)" "fst g ! r \<le> fst g ! (r + 1)" "length (snd g) = length downs"
    using valid_offsetsD(2,3)[OF group_by_key_offsets[OF k]] assms(2) unfolding g by (simp_all add: i)
  have "row_starts n xs = row_starts n (map (\<lambda>a. (fst a, ())) xs)" for xs :: "(nat \<times> 'a) list"
    by (rule nth_equalityI) (simp_all add: row_starts_nth filter_map comp_def less_Suc_eq_le)
  from this[of "downward_items b item"]
  show "fst g = row_starts n (map (\<lambda>s. (edge_rank b ! snd (downs ! s), ())) [0..<length downs])"
    by (simp add: g group_by_key_def Let_def i comp_def)
qed

lemma slots_into_mem: "s \<in> set (slots_into arcs y) \<longleftrightarrow> s < length arcs \<and> arcs ! s = (fst (arcs ! s), y)"
  by (auto simp: slots_into_def prod_eq_iff)

lemma ranked_down_parts:
  fixes w :: metric_weights
  assumes "hierarchy n b ups downs" "r < n"
  defines "c \<equiv> ranked_build b w" and "S \<equiv> slots_into downs (edge_order b ! r)"
  defines "a \<equiv> down_first (ranked_rows c) ! r" and "z \<equiv> down_first (ranked_rows c) ! (r + 1)"
  shows "subslice (down_tails (ranked_rows c)) a z = map (\<lambda>s. edge_rank b ! fst (downs ! s)) S"
    "subslice (ranked_down_weight c) a z = map (\<lambda>s. down_weights w ! s) S"
    "subslice (downward_slots b) a z = S"
    "a \<le> z" "z \<le> length (down_tails (ranked_rows c))" "z \<le> length (ranked_down_weight c)"
proof -
  let ?T = "group_downward_by_head b 0 (\<lambda>tail slot. edge_rank b ! tail)"
    and ?W = "group_downward_by_head b (0 :: u32) (\<lambda>tail slot. down_weights w ! slot)"
    and ?S = "group_downward_by_head b 0 (\<lambda>tail slot. slot)"
  have c: "down_first (ranked_rows c) = fst ?T" "down_tails (ranked_rows c) = snd ?T" "ranked_down_weight c = snd ?W"
    "downward_slots b = snd ?S"
    by (simp_all add: c_def ranked_build_def with_topology_def ranked_topology_build_def split_beta downward_slots_def)
  have e: "fst ?T = fst ?W" "fst ?T = fst ?S"
    using group_downward_row(5)[OF assms(1,2)] by metis+
  show "subslice (down_tails (ranked_rows c)) a z = map (\<lambda>s. edge_rank b ! fst (downs ! s)) S"
    "a \<le> z" "z \<le> length (down_tails (ranked_rows c))"
    using group_downward_row(1-3)[OF assms(1,2)] by (simp_all add: c S_def a_def z_def)
  show "subslice (ranked_down_weight c) a z = map (\<lambda>s. down_weights w ! s) S" "z \<le> length (ranked_down_weight c)"
    using group_downward_row(1,2)[OF assms(1,2)] by (simp_all add: c e(1) S_def a_def z_def)
  show "subslice (downward_slots b) a z = S"
    using group_downward_row(1)[OF assms(1,2), of 0 "\<lambda>tail slot. slot"] by (simp add: c e(2) S_def a_def z_def)
qed

theorem downward_row_eq:
  assumes "hierarchy n b ups downs" "r < n"
  shows "downward_row (ranked_build b w) r = map (\<lambda>s. (edge_rank b ! fst (downs ! s), arc_weight b w (fst (downs ! s)) (edge_order b ! r)))
    (slots_into downs (edge_order b ! r))"
  unfolding downward_row_def Let_def ranked_down_parts[OF assms]
proof -
  have "down_weights w ! s = arc_weight b w (fst (downs ! s)) (edge_order b ! r)"
    if "s \<in> set (slots_into downs (edge_order b ! r))" for s
    using that arc_weight_at(2)[OF assms(1), of s] unfolding slots_into_mem by metis
  then show "zip (map (\<lambda>s. edge_rank b ! fst (downs ! s)) (slots_into downs (edge_order b ! r)))
      (map (\<lambda>s. down_weights w ! s) (slots_into downs (edge_order b ! r)))
    = map (\<lambda>s. (edge_rank b ! fst (downs ! s), arc_weight b w (fst (downs ! s)) (edge_order b ! r)))
        (slots_into downs (edge_order b ! r))"
    by (auto simp: zip_map_map zip_same_conv_map)
qed

lemma downward_row_set:
  assumes "hierarchy n b ups downs" "r < n"
  shows "(t, v) \<in> set (downward_row (ranked_build b w) r) \<longleftrightarrow>
    t < n \<and> (edge_order b ! t, edge_order b ! r) \<in> set downs \<and> v = arc_weight b w (edge_order b ! t) (edge_order b ! r)"
proof -
  let ?y = "edge_order b ! r"
  note o = hierarchy_order[OF assms(1)]
  have "(t, v) \<in> set (downward_row (ranked_build b w) r) \<longleftrightarrow>
      (\<exists>x. (x, ?y) \<in> set downs \<and> t = edge_rank b ! x \<and> v = arc_weight b w x ?y)"
  proof
    assume "(t, v) \<in> set (downward_row (ranked_build b w) r)"
    then obtain s where s: "s < length downs" "downs ! s = (fst (downs ! s), ?y)" "t = edge_rank b ! fst (downs ! s)"
      "v = arc_weight b w (fst (downs ! s)) ?y"
      unfolding downward_row_eq[OF assms] by (auto simp: slots_into_mem)
    then show "\<exists>x. (x, ?y) \<in> set downs \<and> t = edge_rank b ! x \<and> v = arc_weight b w x ?y" using nth_mem by metis
  next
    assume "\<exists>x. (x, ?y) \<in> set downs \<and> t = edge_rank b ! x \<and> v = arc_weight b w x ?y"
    then obtain x where x: "(x, ?y) \<in> set downs" "t = edge_rank b ! x" "v = arc_weight b w x ?y" by blast
    then obtain s where s: "s < length downs" "downs ! s = (x, ?y)" by (metis in_set_conv_nth)
    then have "s \<in> set (slots_into downs ?y)" by (simp add: slots_into_mem)
    then show "(t, v) \<in> set (downward_row (ranked_build b w) r)"
      unfolding downward_row_eq[OF assms] using x(2,3) s(2) by force
  qed
  also have "\<dots> \<longleftrightarrow> t < n \<and> (edge_order b ! t, ?y) \<in> set downs \<and> v = arc_weight b w (edge_order b ! t) ?y"
  proof
    assume "\<exists>x. (x, ?y) \<in> set downs \<and> t = edge_rank b ! x \<and> v = arc_weight b w x ?y"
    then obtain x where x: "(x, ?y) \<in> set downs" "t = edge_rank b ! x" "v = arc_weight b w x ?y" by blast
    then have "x < n" using hierarchyD(5)[OF assms(1)] by blast
    then show "t < n \<and> (edge_order b ! t, ?y) \<in> set downs \<and> v = arc_weight b w (edge_order b ! t) ?y"
      using x o(4,5) by simp
  next
    assume "t < n \<and> (edge_order b ! t, ?y) \<in> set downs \<and> v = arc_weight b w (edge_order b ! t) ?y"
    then show "\<exists>x. (x, ?y) \<in> set downs \<and> t = edge_rank b ! x \<and> v = arc_weight b w x ?y"
      using o(3) by (intro exI[of _ "edge_order b ! t"]) simp
  qed
  finally show ?thesis .
qed


section \<open>Positions\<close>

lemma slots_into_tails:
  assumes "sorted_arcs n arcs"
  shows "sorted_wrt (<) (map (\<lambda>s. fst (arcs ! s)) (slots_into arcs y))"
proof -
  have "sorted_wrt (<) (slots_into arcs y)"
    unfolding slots_into_def by (rule sorted_wrt_filter) (simp add: strict_sorted_iff)
  moreover have "fst (arcs ! s) < fst (arcs ! s')"
    if "s \<in> set (slots_into arcs y)" "s' \<in> set (slots_into arcs y)" "s < s'" for s s'
  proof -
    have "s < length arcs" "s' < length arcs" "snd (arcs ! s) = y" "snd (arcs ! s') = y"
      using that by (simp_all add: slots_into_def)
    moreover have "arcs ! s < arcs ! s'"
      using assms that(3) calculation(2) by (simp add: sorted_arcs_def sorted_wrt_nth_less)
    ultimately show ?thesis by (auto simp: less_prod_def)
  qed
  ultimately show ?thesis unfolding sorted_wrt_map by (simp add: sorted_wrt_iff_nth_less)
qed

lemma nth_subslice_offset: "i < length (subslice xs a z) \<Longrightarrow> xs ! (a + i) = subslice xs a z ! i"
  by (cases "a \<le> length xs") (simp_all add: subslice_def)

lemma upward_weight_at:
  assumes "hierarchy n b ups downs" "weight_shape b w" "s < length ups" "ups ! s = (x, y)"
  shows "upward_weight (ranked_build b w) b x s = up_weights w ! s"
proof -
  let ?c = "ranked_build b w" and ?r = "edge_rank b ! x"
  note o = hierarchy_order[OF assms(1)]
  have x: "x < n" using assms(3,4) hierarchyD(4)[OF assms(1)] nth_mem by metis
  have r: "?r < n" "edge_order b ! ?r = x" using o(4,5) x by simp_all
  have so: "sorted_arcs n ups" "upward_first_out b = fst (arcs_to_csr ups n)" "length (up_weights w) = length ups"
    using assms(1,2) by (simp_all add: hierarchy_def weight_shape_def)
  have k: "upward_first_out b ! x \<le> s" "s < upward_first_out b ! (x + 1)"
    using csr_slot_of[OF so(1) assms(3,4) x] so(2) by simp_all
  have le: "upward_first_out b ! (x + 1) \<le> length (up_weights w)"
    using valid_offsetsD(3)[OF csr_valid_offsets] so x by (simp add: sorted_arcs_def)
  define i where "i = s - upward_first_out b ! x"
  have row: "subslice (ranked_up_weight ?c) (up_first (ranked_rows ?c) ! ?r) (up_first (ranked_rows ?c) ! (?r + 1))
      = bundle_row b (up_weights w) x"
    using ranked_up_parts(2)[OF assms(1) so(3) r(1)] r(2) by simp
  have i: "i < length (bundle_row b (up_weights w) x)" "bundle_row b (up_weights w) x ! i = up_weights w ! s"
    using k le by (simp_all add: i_def bundle_row_def length_subslice nth_subslice)
  have "upward_weight ?c b x s = ranked_up_weight ?c ! (up_first (ranked_rows ?c) ! ?r + i)"
    by (simp add: upward_weight_def upward_position_def i_def)
  also have "\<dots> = bundle_row b (up_weights w) x ! i"
    using nth_subslice_offset[of i "ranked_up_weight ?c"] i(1) row by metis
  finally show ?thesis using i(2) by simp
qed

lemma downward_weight_at:
  assumes "hierarchy n b ups downs" "weight_shape b w" "y < n"
  shows "downward_weight (ranked_build b w) b x y = (if (x, y) \<in> set downs then Some (arc_weight b w x y) else None)"
proof -
  let ?c = "ranked_build b w" and ?r = "edge_rank b ! y" and ?S = "slots_into downs y"
  note o = hierarchy_order[OF assms(1)]
  have r: "?r < n" "edge_order b ! ?r = y" using o(4,5) assms(3) by simp_all
  note p = ranked_down_parts[OF assms(1) r(1), of w, unfolded r(2)]
  let ?a = "down_first (ranked_rows ?c) ! ?r"
  have tails: "map (\<lambda>t. edge_order b ! t) (map (\<lambda>s. edge_rank b ! fst (downs ! s)) ?S) = map (\<lambda>s. fst (downs ! s)) ?S"
    using o(5) hierarchyD(5)[OF assms(1)] slots_into_mem[of _ downs y] by (auto simp: ) (metis nth_mem)
  note so = slots_into_tails[OF hierarchyD(3)[OF assms(1)], of y]
  have pos: "downward_position ?c b x y = (case binary_search (map (\<lambda>s. fst (downs ! s)) ?S) x of Found i \<Rightarrow> Some (?a + i) | Insert _ \<Rightarrow> None)"
    unfolding downward_position_def Let_def p(1) tails by (rule refl)
  show ?thesis
  proof (cases "(x, y) \<in> set downs")
    case True
    then obtain s where s: "s < length downs" "downs ! s = (x, y)" by (metis in_set_conv_nth)
    then have "s \<in> set ?S" by (simp add: slots_into_mem)
    then obtain i where i: "i < length ?S" "?S ! i = s" by (metis in_set_conv_nth)
    have "binary_search (map (\<lambda>s. fst (downs ! s)) ?S) x = Found i"
      unfolding bs.found[OF so] using i s(2) by simp
    then have "downward_weight ?c b x y = Some (ranked_down_weight ?c ! (?a + i))"
      by (simp add: downward_weight_def pos)
    also have "ranked_down_weight ?c ! (?a + i) = map (\<lambda>s. down_weights w ! s) ?S ! i"
      using nth_subslice_offset[of i "ranked_down_weight ?c" ?a "down_first (ranked_rows ?c) ! (?r + 1)"] i(1) p(2) by simp
    also have "\<dots> = arc_weight b w x y" using i arc_weight_at(2)[OF assms(1) s] by simp
    finally show ?thesis using True by simp
  next
    case False
    have "x \<notin> set (map (\<lambda>s. fst (downs ! s)) ?S)"
    proof
      assume "x \<in> set (map (\<lambda>s. fst (downs ! s)) ?S)"
      then obtain s where "s < length downs" "downs ! s = (x, y)" by (auto simp: slots_into_mem)
      then show False using False nth_mem by metis
    qed
    then show ?thesis using False bs.found_mem[OF so, of x]
      by (cases "binary_search (map (\<lambda>s. fst (downs ! s)) ?S) x") (auto simp: downward_weight_def pos)
  qed
qed

text \<open>C30: renumbering loses and mixes nothing. For every elimination order, the ranked arrays answer
  for every hierarchy arc the weight of its slot in the bundle, and the downward lookup answers
  nothing exactly for the pairs without a downward arc.\<close>

theorem ranked_weights_exact:
  assumes "is_order (edge_count t) order" "weight_shape (build_with_order t order) w"
    "x < edge_count t" "y < edge_count t"
  shows "(\<forall>s. upward_arc_slot (build_with_order t order) x y = Some s \<longrightarrow>
        upward_weight (ranked_build (build_with_order t order) w) (build_with_order t order) x s = up_weights w ! s)
    \<and> downward_weight (ranked_build (build_with_order t order) w) (build_with_order t order) x y
      = map_option (\<lambda>s. down_weights w ! s) (downward_arc_slot (build_with_order t order) x y)"
proof -
  note h = hierarchy_build[OF assms(1)]
  have "downward_weight (ranked_build (build_with_order t order) w) (build_with_order t order) x y
      = map_option (\<lambda>s. down_weights w ! s) (downward_arc_slot (build_with_order t order) x y)"
  proof (cases "downward_arc_slot (build_with_order t order) x y")
    case None
    then show ?thesis
      using slot_None(2)[OF assms(1,3), of y] downward_weight_at[OF h assms(2,4), of x] by simp
  next
    case (Some s)
    then have s: "s < length (down_arcs t order)" "down_arcs t order ! s = (x, y)"
      using slot_Some(2)[OF assms(1,3), of y s] by simp_all
    then have "(x, y) \<in> set (down_arcs t order)" using nth_mem by metis
    then show ?thesis
      using downward_weight_at[OF h assms(2,4), of x] arc_weight_at(2)[OF h s] Some by simp
  qed
  then show ?thesis using slot_Some(1)[OF assms(1,3), of y] upward_weight_at[OF h assms(2)] by blast
qed

theorem ranked_weights_exact_witness:
  "downward_weight (ranked_build (build_with_order witness_transitions [1, 0, 3, 2])
      (infinite_weights (build_with_order witness_transitions [1, 0, 3, 2])))
      (build_with_order witness_transitions [1, 0, 3, 2]) 3 1 = Some CCH_WEIGHT_INFINITY"
proof -
  let ?b = "build_with_order witness_transitions [1, 0, 3, 2]"
  have ord: "is_order (edge_count witness_transitions) [1, 0, 3, 2]"
    by (auto simp: is_order_def witness_transitions_def)
  have n: "3 < edge_count witness_transitions" "1 < edge_count witness_transitions"
    by (simp_all add: witness_transitions_def)
  obtain s where s: "downward_arc_slot ?b 3 1 = Some s"
  proof -
    have "downward_arc_slot ?b 3 1 \<noteq> None" by code_simp
    then show ?thesis using that by blast
  qed
  then have "s < length (downward_head ?b)" using slot_Some(2)[OF ord n(1), of 1 s] by simp
  then have "down_weights (infinite_weights ?b) ! s = CCH_WEIGHT_INFINITY" by (simp add: infinite_weights_def)
  then show ?thesis using ranked_weights_exact[OF ord weight_shape_infinite n] s by simp
qed

end
