(* ===== verification/Cch_Query.thy ===== *)
theory Cch_Query
  imports Ranked_Cch "HOL-Library.Multiset"
begin

text \<open>
  The point-to-point query on the customized hierarchy (\<open>accelerated_route_query_seeded\<close> in
  \<open>crates/query/src/engine/cch_query.rs\<close>): two searches that climb in rank, one from the origin
  seeds over upward arcs, one from the destination seeds against downward arcs, with pruning by the
  best meeting cost. Both directions run the same code on their own half of the labels, so the
  model carries the direction as an argument.

  Costs are \<open>f64\<close> in the code. The model computes with the rationals they denote: arc weights are
  multiples of 1/1024, whose sums \<open>f64\<close> represents exactly.
\<close>

section \<open>Costs\<close>

datatype cost = Cost rat | Infinite

instantiation cost :: linorder
begin

definition less_eq_cost :: "cost \<Rightarrow> cost \<Rightarrow> bool" where
  "less_eq_cost a b = (case b of Infinite \<Rightarrow> True | Cost y \<Rightarrow> (case a of Infinite \<Rightarrow> False | Cost x \<Rightarrow> x \<le> y))"

definition less_cost :: "cost \<Rightarrow> cost \<Rightarrow> bool" where
  "less_cost a b = (case a of Infinite \<Rightarrow> False | Cost x \<Rightarrow> (case b of Infinite \<Rightarrow> True | Cost y \<Rightarrow> x < y))"

instance
  by standard (auto simp: less_eq_cost_def less_cost_def split: cost.splits)

end

lemma cost_order_simps [simp]:
  "a \<le> Infinite" "Infinite \<le> Cost x \<longleftrightarrow> False" "Cost x \<le> Cost y \<longleftrightarrow> x \<le> y"
  "Infinite < a \<longleftrightarrow> False" "Cost x < Infinite" "Cost x < Cost y \<longleftrightarrow> x < y"
  by (simp_all add: less_eq_cost_def less_cost_def split: cost.splits)

instantiation cost :: ordered_comm_monoid_add
begin

definition zero_cost :: cost where "zero_cost = Cost 0"

definition plus_cost :: "cost \<Rightarrow> cost \<Rightarrow> cost" where
  "plus_cost a b = (case a of Infinite \<Rightarrow> Infinite | Cost x \<Rightarrow> (case b of Infinite \<Rightarrow> Infinite | Cost y \<Rightarrow> Cost (x + y)))"

instance
  by standard (auto simp: less_eq_cost_def plus_cost_def zero_cost_def split: cost.splits)

end

lemma cost_plus_simps [simp]:
  "Infinite + a = Infinite" "a + Infinite = Infinite" "Cost x + Cost y = Cost (x + y)"
  by (simp_all add: plus_cost_def split: cost.splits)

lemma cost_le_Cost: "a \<le> Cost y \<longleftrightarrow> (\<exists>x. a = Cost x \<and> x \<le> y)"
  by (cases a) simp_all

definition EPSILON :: rat where "EPSILON = 1 / 2 ^ 52"

definition decoded :: "u32 \<Rightarrow> cost" where
  "decoded w = (case decode_cch_weight w of None \<Rightarrow> Infinite | Some x \<Rightarrow> Cost x)"

lemma decoded_nonneg: "decoded w = Cost x \<Longrightarrow> 0 \<le> x"
proof -
  assume "decoded w = Cost x"
  then have "x = of_int (uint w) / 1024" by (simp add: decoded_def decode_cch_weight_def split: if_splits)
  moreover have "(0 :: rat) \<le> of_int (uint w)" by (simp only: of_int_0_le_iff) simp
  ultimately show "0 \<le> x" by (simp only: divide_nonneg_nonneg zero_le_numeral)
qed

section \<open>Labels and queues\<close>

datatype direction = Forward | Backward

fun opposite :: "direction \<Rightarrow> direction" where
  "opposite Forward = Backward"
| "opposite Backward = Forward"

lemma opposite_opposite [simp]: "opposite (opposite d) = d" "opposite d \<noteq> d" "d \<noteq> opposite d"
  by (cases d; simp)+

text \<open>\<open>NO_PARENT\<close> is \<open>None\<close>.\<close>

record cch_label =
  label_cost :: "direction \<Rightarrow> cost"
  label_parent :: "direction \<Rightarrow> nat option"

definition EMPTY :: cch_label where
  "EMPTY = \<lparr>label_cost = (\<lambda>_. Infinite), label_parent = (\<lambda>_. None)\<rparr>"

text \<open>Queue entries are edge, rank and cost; pushed costs are finite.\<close>

type_synonym query_entry = "nat \<times> nat \<times> rat"

record query_scratch =
  labels :: "cch_label list"
  touched :: "nat list"
  queue :: "direction \<Rightarrow> query_entry list"

definition prepare :: "nat \<Rightarrow> query_scratch \<Rightarrow> query_scratch" where
  "prepare state_count s =
     (let ls = (if length (labels s) < state_count
                then labels s @ replicate (state_count - length (labels s)) EMPTY else labels s)
      in \<lparr>labels = foldl (\<lambda>ls rank. ls[rank := EMPTY]) ls (touched s), touched = [], queue = (\<lambda>_. [])\<rparr>)"

text \<open>\<open>update_forward\<close> and \<open>update_backward\<close>.\<close>

definition update_label :: "direction \<Rightarrow> query_scratch \<Rightarrow> nat \<Rightarrow> cost \<Rightarrow> nat option \<Rightarrow> query_scratch \<times> bool" where
  "update_label d s rank c parent =
     (if c = Infinite then (s, False)
      else let l = labels s ! rank
        in if label_cost l d \<le> c + Cost EPSILON then (s, False)
           else (let t = (if label_cost l Forward = Infinite \<and> label_cost l Backward = Infinite
                          then touched s @ [rank] else touched s)
             in (s\<lparr>labels := (labels s)[rank := \<lparr>label_cost = (label_cost l)(d := c),
                    label_parent = (label_parent l)(d := parent)\<rparr>], touched := t\<rparr>, True)))"

text \<open>The queue pops the lowest cost, then the highest edge, then the highest rank (the order that
  \<open>State_Heap\<close> is proved to refine).\<close>

definition entry_before :: "query_entry \<Rightarrow> query_entry \<Rightarrow> bool" where
  "entry_before x y \<longleftrightarrow> (case (x, y) of ((e, r, c), (e', r', c')) \<Rightarrow>
     c < c' \<or> c = c' \<and> (e' < e \<or> e = e' \<and> r' < r))"

fun first_entry :: "query_entry \<Rightarrow> query_entry list \<Rightarrow> query_entry" where
  "first_entry x [] = x"
| "first_entry x (y # ys) = first_entry (if entry_before y x then y else x) ys"

definition queue_pop :: "query_entry list \<Rightarrow> (query_entry \<times> query_entry list) option" where
  "queue_pop q = (case q of [] \<Rightarrow> None | x # xs \<Rightarrow> (let y = first_entry x xs in Some (y, remove1 y q)))"

definition queue_peek :: "query_entry list \<Rightarrow> cost" where
  "queue_peek q = (case queue_pop q of None \<Rightarrow> Infinite | Some ((e, r, c), _) \<Rightarrow> Cost c)"

definition queue_push :: "direction \<Rightarrow> query_scratch \<Rightarrow> query_entry \<Rightarrow> query_scratch" where
  "queue_push d s e = s\<lparr>queue := (queue s)(d := e # queue s d)\<rparr>"

section \<open>The query\<close>

definition minimum_seed_cost :: "(nat \<times> cost) list \<Rightarrow> cost" where
  "minimum_seed_cost seeds = foldl min (Cost 0) (filter (\<lambda>c. c \<noteq> Infinite) (map snd seeds))"

definition add_seed :: "acceleration_bundle \<Rightarrow> direction \<Rightarrow> query_scratch \<Rightarrow> nat \<times> cost \<Rightarrow> query_scratch" where
  "add_seed b d s seed = (case seed of (edge_index, c) \<Rightarrow>
     let rank = edge_rank b ! edge_index; (s', updated) = update_label d s rank c None
     in case c of Cost x \<Rightarrow> if updated then queue_push d s' (edge_index, rank, x) else s' | Infinite \<Rightarrow> s')"

record query_state =
  scratch :: query_scratch
  best_cost :: cost
  best_rank :: "nat option"

type_synonym arc_rows = "direction \<Rightarrow> nat \<Rightarrow> (nat \<times> u32) list"

definition hierarchy_rows :: "ranked_cch \<Rightarrow> arc_rows" where
  "hierarchy_rows c d = (case d of Forward \<Rightarrow> upward_row c | Backward \<Rightarrow> downward_row c)"

text \<open>The meeting check of a popped state.\<close>

definition meet :: "direction \<Rightarrow> nat \<Rightarrow> rat \<Rightarrow> query_state \<Rightarrow> query_state" where
  "meet d rank c q = (let candidate = Cost c + label_cost (labels (scratch q) ! rank) (opposite d)
     in if candidate < best_cost q then q\<lparr>best_cost := candidate, best_rank := Some rank\<rparr> else q)"

definition relax_arc :: "acceleration_bundle \<Rightarrow> direction \<Rightarrow> nat \<Rightarrow> rat \<Rightarrow> query_scratch \<Rightarrow> nat \<times> u32 \<Rightarrow> query_scratch" where
  "relax_arc b d rank c s arc = (case arc of (other, weight) \<Rightarrow>
     let next_cost = Cost c + decoded weight; (s', updated) = update_label d s other next_cost (Some rank)
     in case next_cost of Cost x \<Rightarrow> if updated then queue_push d s' (edge_order b ! other, other, x) else s'
        | Infinite \<Rightarrow> s')"

definition settle :: "acceleration_bundle \<Rightarrow> arc_rows \<Rightarrow> direction \<Rightarrow> query_state \<Rightarrow> query_state option" where
  "settle b rows d q = (case queue_pop (queue (scratch q) d) of
       None \<Rightarrow> None
     | Some ((_, rank, c), rest) \<Rightarrow>
         (let q = q\<lparr>scratch := (scratch q)\<lparr>queue := (queue (scratch q))(d := rest)\<rparr>\<rparr>
          in if label_cost (labels (scratch q) ! rank) d < Cost c then Some q
             else let q = meet d rank c q
               in Some (q\<lparr>scratch := foldl (relax_arc b d rank c) (scratch q) (rows d rank)\<rparr>)))"

text \<open>One round of the loop; \<open>None\<close> is \<open>break\<close>. \<open>low d\<close> is the seed lower bound of direction \<open>d\<close>.\<close>

definition query_step :: "acceleration_bundle \<Rightarrow> arc_rows \<Rightarrow> (direction \<Rightarrow> cost) \<Rightarrow> query_state \<Rightarrow> query_state option" where
  "query_step b rows low q =
     (let next_forward = queue_peek (queue (scratch q) Forward);
          next_backward = queue_peek (queue (scratch q) Backward);
          forward_active = next_forward + low Backward < best_cost q;
          backward_active = next_backward + low Forward < best_cost q
      in if \<not> forward_active \<and> \<not> backward_active then None
         else if forward_active \<and> (next_forward \<le> next_backward \<or> \<not> backward_active) then settle b rows Forward q
         else settle b rows Backward q)"

partial_function (option) query_loop :: "acceleration_bundle \<Rightarrow> arc_rows \<Rightarrow> (direction \<Rightarrow> cost) \<Rightarrow> query_state \<Rightarrow> query_state option" where
  "query_loop b rows low q = (case query_step b rows low q of None \<Rightarrow> Some q | Some q' \<Rightarrow> query_loop b rows low q')"

definition seeded :: "acceleration_bundle \<Rightarrow> (nat \<times> cost) list \<Rightarrow> (nat \<times> cost) list \<Rightarrow> query_scratch \<Rightarrow> query_scratch" where
  "seeded b origin destination s =
     foldl (add_seed b Backward) (foldl (add_seed b Forward) s origin) destination"

definition run_query :: "acceleration_bundle \<Rightarrow> ranked_cch \<Rightarrow> (nat \<times> cost) list \<Rightarrow> (nat \<times> cost) list \<Rightarrow> cost \<Rightarrow>
    query_scratch \<Rightarrow> query_state option" where
  "run_query b c origin destination initial s =
     query_loop b (hierarchy_rows c)
       (\<lambda>d. case d of Forward \<Rightarrow> minimum_seed_cost origin | Backward \<Rightarrow> minimum_seed_cost destination)
       \<lparr>scratch = seeded b origin destination (prepare (length (edge_order b)) s), best_cost = initial, best_rank = None\<rparr>"

end
