(* ===== verification/Cch_Query_Exact.thy ===== *)
theory Cch_Query_Exact
  imports Cch_Query
begin

text \<open>
  Correctness of the hierarchy query: it terminates, the labels are costs of real climbs, and the
  meeting cost it stops with is the least over all pairs of climbs, up to the \<open>EPSILON\<close> by which an
  update must improve a label.
\<close>

section \<open>Climbs\<close>

definition rows_ok :: "nat \<Rightarrow> arc_rows \<Rightarrow> bool" where
  "rows_ok n rows \<longleftrightarrow> (\<forall>d r h v. r < n \<longrightarrow> (h, v) \<in> set (rows d r) \<longrightarrow> r < h \<and> h < n)"

lemma rows_okD: "rows_ok n rows \<Longrightarrow> r < n \<Longrightarrow> (h, v) \<in> set (rows d r) \<Longrightarrow> r < h \<and> h < n"
  unfolding rows_ok_def by blast

text \<open>The seeds of a direction by rank, and the costs at which its arcs reach a rank from them.\<close>

inductive climbs :: "arc_rows \<Rightarrow> direction \<Rightarrow> (nat \<times> cost) set \<Rightarrow> nat \<Rightarrow> rat \<Rightarrow> bool" for rows d S where
  seed: "(r, Cost c) \<in> S \<Longrightarrow> climbs rows d S r c"
| arc: "climbs rows d S r c \<Longrightarrow> (h, v) \<in> set (rows d r) \<Longrightarrow> decoded v = Cost x \<Longrightarrow> climbs rows d S h (c + x)"

section \<open>One label update\<close>

abbreviation label_at :: "query_scratch \<Rightarrow> direction \<Rightarrow> nat \<Rightarrow> cost" where
  "label_at s d r \<equiv> label_cost (labels s ! r) d"

abbreviation parent_at :: "query_scratch \<Rightarrow> direction \<Rightarrow> nat \<Rightarrow> nat option" where
  "parent_at s d r \<equiv> label_parent (labels s ! r) d"

definition offer :: "direction \<Rightarrow> query_scratch \<Rightarrow> nat \<Rightarrow> nat \<Rightarrow> cost \<Rightarrow> nat option \<Rightarrow> query_scratch" where
  "offer d s e r c p = (let (s', updated) = update_label d s r c p
     in case c of Cost x \<Rightarrow> if updated then queue_push d s' (e, r, x) else s' | Infinite \<Rightarrow> s')"

lemma add_seed_offer: "add_seed b d s (e, c) = offer d s e (edge_rank b ! e) c None"
  by (simp add: add_seed_def offer_def Let_def)

lemma relax_arc_offer: "relax_arc b d r c s (h, v) = offer d s (edge_order b ! h) h (Cost c + decoded v) (Some r)"
  by (simp add: relax_arc_def offer_def Let_def)

lemma offer_rejected: "label_at s d r \<le> c + Cost EPSILON \<Longrightarrow> offer d s e r c p = s"
  by (cases c) (simp_all add: offer_def update_label_def)

lemma offer_accepted:
  assumes "\<not> label_at s d r \<le> c + Cost EPSILON" "r < length (labels s)"
  shows "labels (offer d s e r c p) = (labels s)[r := \<lparr>label_cost = (label_cost (labels s ! r))(d := c),
        label_parent = (label_parent (labels s ! r))(d := p)\<rparr>]"
    "c = Cost x \<Longrightarrow> queue (offer d s e r c p) = (queue s)(d := (e, r, x) # queue s d)"
    "length (labels (offer d s e r c p)) = length (labels s)"
    "label_at (offer d s e r c p) d r = c" "parent_at (offer d s e r c p) d r = p"
    "(d', r') \<noteq> (d, r) \<Longrightarrow> label_at (offer d s e r c p) d' r' = label_at s d' r'"
    "(d', r') \<noteq> (d, r) \<Longrightarrow> parent_at (offer d s e r c p) d' r' = parent_at s d' r'"
proof -
  obtain y where c: "c = Cost y" using assms(1) by (cases c) simp_all
  show l: "labels (offer d s e r c p) = (labels s)[r := \<lparr>label_cost = (label_cost (labels s ! r))(d := c),
        label_parent = (label_parent (labels s ! r))(d := p)\<rparr>]"
    using c assms(1) by (simp add: offer_def update_label_def queue_push_def Let_def)
  show "c = Cost x \<Longrightarrow> queue (offer d s e r c p) = (queue s)(d := (e, r, x) # queue s d)"
    using c assms(1) by (simp add: offer_def update_label_def queue_push_def Let_def)
  show "length (labels (offer d s e r c p)) = length (labels s)" "label_at (offer d s e r c p) d r = c"
    "parent_at (offer d s e r c p) d r = p"
    "(d', r') \<noteq> (d, r) \<Longrightarrow> label_at (offer d s e r c p) d' r' = label_at s d' r'"
    "(d', r') \<noteq> (d, r) \<Longrightarrow> parent_at (offer d s e r c p) d' r' = parent_at s d' r'"
    unfolding l using assms(2) by (auto simp: nth_list_update)
qed

lemma offer_decides:
  assumes "r < length (labels s)"
  obtains "offer d s e r c p = s" "label_at s d r \<le> c + Cost EPSILON"
  | x where "c = Cost x" "\<not> label_at s d r \<le> c + Cost EPSILON"
  using offer_rejected[where s = s and d = d and r = r and c = c] that by (cases c) (cases "label_at s d r \<le> c + Cost EPSILON"; simp)+

section \<open>Invariants of the labels\<close>

text \<open>Every label is a seed cost or extends its parent's label; every queue entry is an old label.\<close>

definition linked :: "arc_rows \<Rightarrow> query_scratch \<Rightarrow> direction \<Rightarrow> nat \<Rightarrow> nat \<Rightarrow> rat \<Rightarrow> bool" where
  "linked rows s d p r f \<longleftrightarrow> p < r \<and> (\<exists>g v x. label_at s d p = Cost g \<and> (r, v) \<in> set (rows d p) \<and> decoded v = Cost x \<and> g + x \<le> f)"

definition explained :: "arc_rows \<Rightarrow> (direction \<Rightarrow> (nat \<times> cost) set) \<Rightarrow> query_scratch \<Rightarrow> direction \<Rightarrow> nat option \<Rightarrow> nat \<Rightarrow> rat \<Rightarrow> bool" where
  "explained rows S s d p r f \<longleftrightarrow> (case p of None \<Rightarrow> (r, Cost f) \<in> S d | Some q \<Rightarrow> linked rows s d q r f)"

text \<open>A scratch whose non-empty labels are all recorded in \<open>touched\<close>, so that \<open>prepare\<close> clears them.\<close>

definition clean :: "query_scratch \<Rightarrow> bool" where
  "clean s \<longleftrightarrow> (\<forall>r<length (labels s). labels s ! r = EMPTY \<or> r \<in> set (touched s))"

lemma offer_clean:
  assumes "clean s" "r < length (labels s)"
  shows "clean (offer d s e r c p)"
proof (cases "label_at s d r \<le> c + Cost EPSILON")
  case True
  then show ?thesis using assms(1) by (simp add: offer_rejected)
next
  case False
  then obtain x where x: "c = Cost x" by (cases c) simp_all
  have t: "touched (offer d s e r c p) = (if label_at s Forward r = Infinite \<and> label_at s Backward r = Infinite
      then touched s @ [r] else touched s)"
    using x False by (simp add: offer_def update_label_def queue_push_def Let_def)
  have "r \<in> set (touched (offer d s e r c p))"
  proof (cases "label_at s Forward r = Infinite \<and> label_at s Backward r = Infinite")
    case False
    then have "labels s ! r \<noteq> EMPTY" by (auto simp: EMPTY_def)
    then show ?thesis using assms by (auto simp: clean_def t)
  qed (simp add: t)
  moreover have "set (touched s) \<subseteq> set (touched (offer d s e r c p))" by (auto simp: t)
  moreover have "labels (offer d s e r c p) ! r' = labels s ! r'" if "r' \<noteq> r" for r'
    using offer_accepted(1)[OF False assms(2)] that by simp
  ultimately show ?thesis using assms(1) offer_accepted(3)[OF False assms(2)] unfolding clean_def by (metis subsetD)
qed

definition sound_labels :: "nat \<Rightarrow> arc_rows \<Rightarrow> (direction \<Rightarrow> (nat \<times> cost) set) \<Rightarrow> query_scratch \<Rightarrow> bool" where
  "sound_labels n rows S s \<longleftrightarrow> clean s \<and> n \<le> length (labels s)
     \<and> (\<forall>d. \<forall>r<n. \<forall>f. label_at s d r = Cost f \<longrightarrow> explained rows S s d (parent_at s d r) r f)
     \<and> (\<forall>d e r c. (e, r, c) \<in> set (queue s d) \<longrightarrow> r < n \<and> label_at s d r \<le> Cost c)"

definition pending :: "query_scratch \<Rightarrow> direction \<Rightarrow> nat \<Rightarrow> rat \<Rightarrow> bool" where
  "pending s d r f \<longleftrightarrow> (\<exists>e. (e, r, f) \<in> set (queue s d))"

definition relaxed_from :: "arc_rows \<Rightarrow> query_scratch \<Rightarrow> direction \<Rightarrow> nat \<Rightarrow> rat \<Rightarrow> bool" where
  "relaxed_from rows s d r f \<longleftrightarrow> (\<forall>(h, v)\<in>set (rows d r). \<forall>x. decoded v = Cost x \<longrightarrow> label_at s d h \<le> Cost (f + x + EPSILON))"

definition improves :: "query_scratch \<Rightarrow> query_scratch \<Rightarrow> bool" where
  "improves s s' \<longleftrightarrow> length (labels s') = length (labels s) \<and> (\<forall>d r. label_at s' d r \<le> label_at s d r)"

lemma scratch_improves_refl: "improves s s"
  by (simp add: improves_def)

lemma scratch_improves_trans: "improves a b \<Longrightarrow> improves b c \<Longrightarrow> improves a c"
  unfolding improves_def using order_trans by metis

lemma relaxed_improves: "relaxed_from rows s d r f \<Longrightarrow> improves s s' \<Longrightarrow> relaxed_from rows s' d r f"
  unfolding relaxed_from_def improves_def by (fastforce intro: order_trans)

lemma offer_improves: "r < length (labels s) \<Longrightarrow> improves s (offer d s e r c p)"
proof -
  assume r: "r < length (labels s)"
  show ?thesis
  proof (cases "label_at s d r \<le> c + Cost EPSILON")
    case True
    then show ?thesis by (simp add: offer_rejected scratch_improves_refl)
  next
    case False
    have "c \<le> c + Cost EPSILON" by (cases c) (simp_all add: EPSILON_def)
    then have "c \<le> label_at s d r" using False by simp
    then have "label_at (offer d s e r c p) d' r' \<le> label_at s d' r'" for d' r'
      using offer_accepted(4)[OF False r] offer_accepted(6)[OF False r, where d' = d' and r' = r'] by (cases "(d', r') = (d, r)") auto
    then show ?thesis using offer_accepted(3)[OF False r] by (simp add: improves_def)
  qed
qed

lemma offer_bound: "r < length (labels s) \<Longrightarrow> label_at (offer d s e r (Cost y) p) d r \<le> Cost (y + EPSILON)"
  by (cases "label_at s d r \<le> Cost y + Cost EPSILON") (simp_all add: offer_rejected offer_accepted(4) EPSILON_def)

text \<open>What an offer keeps: soundness, when the offered cost is itself explained.\<close>

lemma offer_sound:
  assumes "sound_labels n rows S s" "r < n"
    "\<And>x. c = Cost x \<Longrightarrow> explained rows S s d p r x"
  shows "sound_labels n rows S (offer d s e r c p)"
proof -
  have l: "r < length (labels s)" using assms(1,2) by (simp add: sound_labels_def)
  let ?s = "offer d s e r c p"
  note im = offer_improves[OF l, of d e c p]
  show ?thesis
  proof (cases "label_at s d r \<le> c + Cost EPSILON")
    case True
    then show ?thesis using assms(1) by (simp add: offer_rejected)
  next
    case False
    then obtain x where x: "c = Cost x" by (cases c) simp_all
    note o = offer_accepted[OF False l, where e = e and p = p]
    have lower: "\<exists>g'. label_at ?s d' q = Cost g' \<and> g' \<le> g" if "label_at s d' q = Cost g" for d' q g
    proof -
      have "label_at ?s d' q \<le> Cost g" using im that unfolding improves_def by metis
      then show ?thesis unfolding cost_le_Cost .
    qed
    have "linked rows ?s d' q r' f" if a: "linked rows s d' q r' f" for d' q r' f
    proof -
      obtain g v y where g: "q < r'" "label_at s d' q = Cost g" "(r', v) \<in> set (rows d' q)" "decoded v = Cost y" "g + y \<le> f"
        using a by (auto simp: linked_def)
      obtain g' where "label_at ?s d' q = Cost g'" "g' \<le> g" using lower[OF g(2)] by blast
      then show ?thesis using g unfolding linked_def by (intro conjI exI[of _ g'] exI[of _ v] exI[of _ y]) simp_all
    qed
    then have keep: "explained rows S s d' q r' f \<Longrightarrow> explained rows S ?s d' q r' f" for d' q r' f
      by (simp add: explained_def split: option.splits)
    have ex: "explained rows S ?s d' (parent_at ?s d' r') r' f" if r': "r' < n" "label_at ?s d' r' = Cost f" for d' r' f
    proof (cases "(d', r') = (d, r)")
      case True
      then have "f = x" "parent_at ?s d' r' = p" using o(4,5) r'(2) x by simp_all
      then show ?thesis using assms(3)[OF x] True keep by simp
    next
      case False
      then have "label_at s d' r' = Cost f" "parent_at ?s d' r' = parent_at s d' r'"
        using r'(2) o(6,7)[OF False] by simp_all
      moreover from this have "explained rows S s d' (parent_at s d' r') r' f"
        using assms(1) r'(1) unfolding sound_labels_def by blast
      ultimately show ?thesis using keep by simp
    qed
    have q: "r' < n \<and> label_at ?s d' r' \<le> Cost c'" if "(e', r', c') \<in> set (queue ?s d')" for d' e' r' c'
    proof (cases "d' = d \<and> (e', r', c') = (e, r, x)")
      case True
      then show ?thesis using o(4) x assms(2) by simp
    next
      case False
      then have "(e', r', c') \<in> set (queue s d')" using that o(2)[OF x] by (auto split: if_splits)
      then have "r' < n" "label_at s d' r' \<le> Cost c'" using assms(1) unfolding sound_labels_def by blast+
      then show ?thesis using im unfolding improves_def by (meson order_trans)
    qed
    show ?thesis
      using assms(1) o(3) ex q offer_clean[OF _ l] unfolding sound_labels_def by auto
  qed
qed


section \<open>Relaxing a row\<close>

lemma offer_queue: "set (queue s d') \<subseteq> set (queue (offer d s e r c p) d')"
  by (auto simp: offer_def update_label_def queue_push_def Let_def split: cost.splits)

text \<open>A changed label is pending at its new cost.\<close>

lemma offer_changed:
  assumes "r < length (labels s)" "label_at (offer d s e r c p) d' r' = Cost f"
  shows "label_at s d' r' = Cost f \<or> pending (offer d s e r c p) d' r' f"
proof (cases "label_at s d r \<le> c + Cost EPSILON")
  case True
  then show ?thesis using assms(2) by (simp add: offer_rejected)
next
  case False
  then obtain x where x: "c = Cost x" by (cases c) simp_all
  show ?thesis
  proof (cases "(d', r') = (d, r)")
    case True
    then have "f = x" using assms(2) offer_accepted(4)[OF False assms(1)] x by simp
    then show ?thesis using True offer_accepted(2)[OF False assms(1) x] by (auto simp: pending_def)
  next
    case False2: False
    then show ?thesis using assms(2) offer_accepted(6)[OF False assms(1) False2] by simp
  qed
qed

definition kept :: "query_scratch \<Rightarrow> query_scratch \<Rightarrow> bool" where
  "kept s s' \<longleftrightarrow> improves s s' \<and> (\<forall>d. set (queue s d) \<subseteq> set (queue s' d))
     \<and> (\<forall>d r f. label_at s' d r = Cost f \<longrightarrow> label_at s d r = Cost f \<or> pending s' d r f)"

lemma kept_refl: "kept s s"
  by (simp add: kept_def scratch_improves_refl)

lemma kept_trans: "kept a b \<Longrightarrow> kept b c \<Longrightarrow> kept a c"
proof -
  assume a: "kept a b" "kept b c"
  have "pending c d r f" if "pending b d r f" for d r f
    using that a(2) unfolding pending_def kept_def by blast
  then show ?thesis using a scratch_improves_trans unfolding kept_def by (metis (no_types, lifting) subset_trans)
qed

lemma offer_kept: "r < length (labels s) \<Longrightarrow> kept s (offer d s e r c p)"
  unfolding kept_def by (intro conjI allI impI offer_improves offer_queue offer_changed)

lemma relax_row:
  fixes b :: acceleration_bundle
  assumes "sound_labels n rows S s" "set arcs \<subseteq> set (rows d r)" "rows_ok n rows" "r < n" "label_at s d r = Cost g" "g \<le> c"
  defines "s' \<equiv> foldl (relax_arc b d r c) s arcs"
  shows "sound_labels n rows S s' \<and> kept s s' \<and> label_at s' d r = Cost g
    \<and> (\<forall>(h, v)\<in>set arcs. \<forall>x. decoded v = Cost x \<longrightarrow> label_at s' d h \<le> Cost (c + x + EPSILON))"
  using assms(2) unfolding s'_def
proof (induction arcs rule: rev_induct)
  case Nil
  then show ?case using assms(1,5) by (simp add: kept_refl)
next
  case (snoc a arcs)
  let ?s = "foldl (relax_arc b d r c) s arcs"
  obtain h v where a: "a = (h, v)" by (cases a)
  have ih: "sound_labels n rows S ?s" "kept s ?s" "label_at ?s d r = Cost g"
    "\<forall>(h, v)\<in>set arcs. \<forall>x. decoded v = Cost x \<longrightarrow> label_at ?s d h \<le> Cost (c + x + EPSILON)"
    using snoc by simp_all
  have mem: "(h, v) \<in> set (rows d r)" using snoc.prems a by simp
  then have h: "r < h" "h < n" using rows_okD[OF assms(3,4)] by blast+
  then have hl: "h < length (labels ?s)" using ih(1) by (simp add: sound_labels_def)
  let ?t = "offer d ?s (edge_order b ! h) h (Cost c + decoded v) (Some r)"
  have t: "foldl (relax_arc b d r c) s (arcs @ [a]) = ?t" by (simp add: a relax_arc_offer)
  have sound: "sound_labels n rows S ?t"
  proof (rule offer_sound[OF ih(1) h(2)])
    fix x assume "Cost c + decoded v = Cost x"
    then obtain y where y: "decoded v = Cost y" "x = c + y" by (cases "decoded v") simp_all
    then show "explained rows S ?s d (Some r) h x"
      unfolding explained_def linked_def option.case
      using h(1) ih(3) mem assms(6) by (intro conjI exI[of _ g] exI[of _ v] exI[of _ y]) simp_all
  qed
  have k: "kept ?s ?t" by (rule offer_kept[OF hl])
  then have im: "label_at ?t d' r' \<le> label_at ?s d' r'" for d' r' by (simp add: kept_def improves_def)
  have same: "label_at ?t d r = Cost g"
  proof (cases "label_at ?s d h \<le> (Cost c + decoded v) + Cost EPSILON")
    case True
    then show ?thesis using ih(3) by (simp add: offer_rejected)
  next
    case False
    have "(d, r) \<noteq> (d, h)" using h(1) by simp
    then show ?thesis using offer_accepted(6)[OF False hl] ih(3) by simp
  qed
  have new: "label_at ?t d h \<le> Cost (c + x + EPSILON)" if "decoded v = Cost x" for x
    using offer_bound[OF hl, where y = "c + x"] that by simp
  have old: "label_at ?t d h' \<le> Cost (c + x + EPSILON)" if "(h', v') \<in> set arcs" "decoded v' = Cost x" for h' v' x
    using ih(4) that im order_trans by fastforce
  show ?case unfolding t using sound kept_trans[OF ih(2) k] same new old a by auto
qed


section \<open>One round\<close>

lemma first_entry_mem: "first_entry x xs \<in> set (x # xs)"
  by (induction x xs rule: first_entry.induct) (auto split: if_splits)

lemma first_entry_least: "y \<in> set (x # xs) \<Longrightarrow> snd (snd (first_entry x xs)) \<le> snd (snd y)"
proof (induction x xs arbitrary: y rule: first_entry.induct)
  case (2 x z zs)
  let ?z = "if entry_before z x then z else x"
  have z: "snd (snd ?z) \<le> snd (snd x)" "snd (snd ?z) \<le> snd (snd z)"
    by (auto simp: entry_before_def split: prod.splits)
  have "snd (snd (first_entry ?z zs)) \<le> snd (snd ?z)" by (rule "2.IH") simp
  moreover have "y \<in> set zs \<Longrightarrow> snd (snd (first_entry ?z zs)) \<le> snd (snd y)" by (rule "2.IH") simp
  ultimately have "snd (snd (first_entry ?z zs)) \<le> snd (snd y)"
    using "2.prems" z order_trans by (metis set_ConsD)
  then show ?case by simp
qed simp

lemma queue_pop_Some:
  assumes "queue_pop q = Some (x, rest)"
  shows "x \<in> set q" "set rest \<subseteq> set q" "y \<in> set q \<Longrightarrow> y \<noteq> x \<Longrightarrow> y \<in> set rest" "length rest < length q"
    "rest = remove1 x q"
proof -
  obtain z zs where q: "q = z # zs" and x: "x = first_entry z zs" "rest = remove1 x q"
    using assms by (cases q) (auto simp: queue_pop_def Let_def)
  show m: "x \<in> set q" using first_entry_mem[of z zs] q x(1) by simp
  show "set rest \<subseteq> set q" "y \<in> set q \<Longrightarrow> y \<noteq> x \<Longrightarrow> y \<in> set rest"
    using set_remove1_subset[of x q] in_set_remove1[of y x q] by (simp_all add: x(2))
  show "rest = remove1 x q" by (rule x(2))
  show "length rest < length q" using m length_pos_if_in_set[OF m] by (simp add: x(2) length_remove1)
qed

lemma queue_peek_le:
  assumes "(e, r, c) \<in> set q"
  shows "queue_peek q \<le> Cost c"
proof (cases q)
  case (Cons x xs)
  have "snd (snd (first_entry x xs)) \<le> snd (snd (e, r, c))" by (rule first_entry_least) (use assms Cons in simp)
  then show ?thesis by (cases "first_entry x xs") (simp add: Cons queue_peek_def queue_pop_def Let_def)
qed (use assms in simp)

definition query_inv :: "nat \<Rightarrow> arc_rows \<Rightarrow> (direction \<Rightarrow> (nat \<times> cost) set) \<Rightarrow> cost \<Rightarrow> query_state \<Rightarrow> bool" where
  "query_inv n rows S initial q \<longleftrightarrow>
     sound_labels n rows S (scratch q)
     \<and> (\<forall>d r f. r < n \<longrightarrow> label_at (scratch q) d r = Cost f \<longrightarrow>
          pending (scratch q) d r f \<or> relaxed_from rows (scratch q) d r f)
     \<and> (\<forall>d r f g. r < n \<longrightarrow> label_at (scratch q) d r = Cost f \<longrightarrow> label_at (scratch q) (opposite d) r = Cost g \<longrightarrow>
          pending (scratch q) d r f \<or> pending (scratch q) (opposite d) r g \<or> best_cost q \<le> Cost (f + g))
     \<and> (\<forall>d r c. (r, Cost c) \<in> S d \<longrightarrow> label_at (scratch q) d r \<le> Cost (c + EPSILON))
     \<and> best_cost q \<le> initial
     \<and> (case best_rank q of None \<Rightarrow> best_cost q = initial
        | Some r \<Rightarrow> r < n \<and> (\<exists>f g. label_at (scratch q) Forward r = Cost f \<and> label_at (scratch q) Backward r = Cost g
            \<and> Cost (f + g) \<le> best_cost q))"

lemma best_improves:
  assumes "improves s s'" "\<exists>f g. label_at s Forward r = Cost f \<and> label_at s Backward r = Cost g \<and> Cost (f + g) \<le> B"
  shows "\<exists>f g. label_at s' Forward r = Cost f \<and> label_at s' Backward r = Cost g \<and> Cost (f + g) \<le> B"
proof -
  obtain f g where l: "label_at s Forward r = Cost f" "label_at s Backward r = Cost g" "Cost (f + g) \<le> B"
    using assms(2) by blast
  have "label_at s' Forward r \<le> Cost f" "label_at s' Backward r \<le> Cost g"
    using assms(1) l unfolding improves_def by metis+
  then obtain f' g' where m: "label_at s' Forward r = Cost f'" "f' \<le> f" "label_at s' Backward r = Cost g'" "g' \<le> g"
    unfolding cost_le_Cost by blast
  then have "Cost (f' + g') \<le> Cost (f + g)" by simp
  then show ?thesis using m l(3) order_trans by blast
qed


lemma settle_inv:
  assumes "query_inv n rows S initial q" "rows_ok n rows" "settle b rows d q = Some q'"
  shows "query_inv n rows S initial q'"
proof -
  define s where "s = scratch q"
  obtain e rank c rest where pop: "queue_pop (queue s d) = Some ((e, rank, c), rest)"
    using assms(3) unfolding settle_def s_def by (cases "queue_pop (queue (scratch q) d)") auto
  define t where "t = s\<lparr>queue := (queue s)(d := rest)\<rparr>"
  note qp = queue_pop_Some[OF pop]
  have inv: "sound_labels n rows S s"
    "\<And>d r f. r < n \<Longrightarrow> label_at s d r = Cost f \<Longrightarrow> pending s d r f \<or> relaxed_from rows s d r f"
    "\<And>d r f g. r < n \<Longrightarrow> label_at s d r = Cost f \<Longrightarrow> label_at s (opposite d) r = Cost g \<Longrightarrow>
      pending s d r f \<or> pending s (opposite d) r g \<or> best_cost q \<le> Cost (f + g)"
    "\<And>d r c. (r, Cost c) \<in> S d \<Longrightarrow> label_at s d r \<le> Cost (c + EPSILON)" "best_cost q \<le> initial"
    "case best_rank q of None \<Rightarrow> best_cost q = initial
        | Some r \<Rightarrow> r < n \<and> (\<exists>f g. label_at s Forward r = Cost f \<and> label_at s Backward r = Cost g
            \<and> Cost (f + g) \<le> best_cost q)"
    using assms(1) unfolding query_inv_def s_def by blast+
  have rank: "rank < n" "label_at s d rank \<le> Cost c"
    using inv(1) qp(1) unfolding sound_labels_def by blast+
  have lt: "labels t = labels s" "\<And>d' r' f. pending s d' r' f \<Longrightarrow> (d', r', f) \<noteq> (d, rank, c) \<Longrightarrow> pending t d' r' f"
  proof -
    show "labels t = labels s" by (simp add: t_def)
    fix d' r' f assume "pending s d' r' f" "(d', r', f) \<noteq> (d, rank, c)"
    then obtain e' where "(e', r', f) \<in> set (queue s d')" "d' = d \<longrightarrow> (e', r', f) \<noteq> (e, rank, c)"
      unfolding pending_def by auto
    then show "pending t d' r' f" using qp(3) unfolding pending_def t_def by auto
  qed
  have sub: "set (queue t d') \<subseteq> set (queue s d')" for d' using qp(2) by (simp add: t_def)
  have sound_t: "sound_labels n rows S t"
  proof -
    have "linked rows t = linked rows s" by (simp add: linked_def lt(1) fun_eq_iff)
    then have "explained rows S t = explained rows S s" by (intro ext) (simp add: explained_def split: option.split)
    moreover have "clean t = clean s" by (simp add: clean_def t_def)
    moreover have "r < n \<and> label_at t d' r \<le> Cost x" if "(e', r, x) \<in> set (queue t d')" for d' e' r x
      using inv(1) sub that unfolding sound_labels_def lt(1) by blast
    ultimately show ?thesis using inv(1) unfolding sound_labels_def lt(1) by simp
  qed
  show ?thesis
  proof (cases "label_at t d rank < Cost c")
    case True
    then have q': "scratch q' = t" "best_cost q' = best_cost q" "best_rank q' = best_rank q"
      using assms(3) pop unfolding settle_def by (auto simp: t_def s_def Let_def)
    have live: "label_at s d' r' = Cost f \<Longrightarrow> (d', r', f) \<noteq> (d, rank, c)" for d' r' f
      using True unfolding lt(1) by auto
    have "pending t d' r' f \<or> relaxed_from rows t d' r' f" if "r' < n" "label_at s d' r' = Cost f" for d' r' f
      using inv(2)[OF that] lt(2)[OF _ live[OF that(2)]] unfolding relaxed_from_def lt(1) by blast
    moreover have "pending t d' r' f \<or> pending t (opposite d') r' g \<or> best_cost q \<le> Cost (f + g)"
      if "r' < n" "label_at s d' r' = Cost f" "label_at s (opposite d') r' = Cost g" for d' r' f g
      using inv(3)[OF that] lt(2)[OF _ live[OF that(2)]] lt(2)[OF _ live[OF that(3)]] by blast
    ultimately show ?thesis unfolding query_inv_def q' lt(1) using sound_t inv(4-6) by blast
  next
    case False
    then have lc: "label_at s d rank = Cost c" using rank(2) unfolding lt(1) by simp
    define qm where "qm = meet d rank c (q\<lparr>scratch := t\<rparr>)"
    define u where "u = foldl (relax_arc b d rank c) t (rows d rank)"
    have "scratch qm = t" by (simp add: qm_def meet_def Let_def)
    then have q': "scratch q' = u" "best_cost q' = best_cost qm" "best_rank q' = best_rank qm"
      using assms(3) pop False unfolding settle_def by (auto simp: u_def qm_def t_def s_def Let_def)
    have r: "sound_labels n rows S u" "kept t u"
      "\<forall>(h, v)\<in>set (rows d rank). \<forall>x. decoded v = Cost x \<longrightarrow> label_at u d h \<le> Cost (c + x + EPSILON)"
      using relax_row[OF sound_t order_refl assms(2) rank(1), of d c c] lc unfolding lt(1) u_def by simp_all
    have done_u: "relaxed_from rows u d rank c" using r(3) by (simp add: relaxed_from_def)
    have im: "improves s u" using r(2) by (simp add: kept_def improves_def lt(1))
    have keep: "label_at s d' r' = Cost f \<or> pending u d' r' f" if "label_at u d' r' = Cost f" for d' r' f
      using that r(2) unfolding kept_def lt(1) by blast
    have pend: "pending s d' r' f \<Longrightarrow> (d', r', f) \<noteq> (d, rank, c) \<Longrightarrow> pending u d' r' f" for d' r' f
      using lt(2) r(2) unfolding kept_def pending_def by blast
    have best: "best_cost qm \<le> best_cost q" "\<And>g. label_at s (opposite d) rank = Cost g \<Longrightarrow> best_cost qm \<le> Cost (c + g)"
      by (auto simp: qm_def meet_def Let_def lt(1))
    have "pending u d' r' f \<or> relaxed_from rows u d' r' f" if "r' < n" "label_at u d' r' = Cost f" for d' r' f
    proof (cases "(d', r', f) = (d, rank, c)")
      case False
      then show ?thesis
        using keep[OF that(2)] inv(2)[OF that(1)] pend relaxed_improves[OF _ im] by blast
    qed (use done_u in simp)
    moreover have "pending u d' r' f \<or> pending u (opposite d') r' g \<or> best_cost qm \<le> Cost (f + g)"
      if l: "r' < n" "label_at u d' r' = Cost f" "label_at u (opposite d') r' = Cost g" for d' r' f g
    proof (rule ccontr)
      assume n: "\<not> ?thesis"
      then have o: "label_at s d' r' = Cost f" "label_at s (opposite d') r' = Cost g" using keep l by blast+
      have "best_cost qm \<le> Cost (f + g)"
      proof (cases "(d', r', f) = (d, rank, c)")
        case True
        then show ?thesis using best(2)[of g] o by auto
      next
        case f1: False
        show ?thesis
        proof (cases "(opposite d', r', g) = (d, rank, c)")
          case True
          then have "best_cost qm \<le> Cost (c + f)" using o by (intro best(2)) auto
          then show ?thesis using True by (simp add: add.commute)
        next
          case False
          then show ?thesis using inv(3)[OF l(1) o] pend f1 n best(1) order_trans by blast
        qed
      qed
      then show False using n by blast
    qed
    moreover have "label_at u d' r' \<le> Cost (x + EPSILON)" if "(r', Cost x) \<in> S d'" for d' r' x
      using inv(4)[OF that] im unfolding improves_def by (meson order_trans)
    moreover have "best_cost qm \<le> initial" using best(1) inv(5) by (rule order_trans)
    moreover have "case best_rank qm of None \<Rightarrow> best_cost qm = initial
        | Some r \<Rightarrow> r < n \<and> (\<exists>f g. label_at u Forward r = Cost f \<and> label_at u Backward r = Cost g
            \<and> Cost (f + g) \<le> best_cost qm)"
    proof (cases "Cost c + label_at s (opposite d) rank < best_cost q")
      case True
      then obtain g where g: "label_at s (opposite d) rank = Cost g" by (cases "label_at s (opposite d) rank") simp_all
      have qm: "best_rank qm = Some rank" "best_cost qm = Cost (c + g)"
        using True g by (simp_all add: qm_def meet_def lt(1))
      have "\<exists>f g. label_at s Forward rank = Cost f \<and> label_at s Backward rank = Cost g \<and> Cost (f + g) \<le> best_cost qm"
        using lc g qm(2) by (cases d) (auto simp: add.commute)
      then show ?thesis using best_improves[OF im] qm(1) rank(1) by simp
    next
      case False
      then have "best_rank qm = best_rank q" "best_cost qm = best_cost q" by (simp_all add: qm_def meet_def lt(1))
      then show ?thesis using inv(6) best_improves[OF im] by (simp split: option.splits)
    qed
    ultimately show ?thesis unfolding query_inv_def q' using r(1) by blast
  qed
qed

section \<open>Termination\<close>

text \<open>A popped state pushes only higher ranks, so the bag of remaining ranks decreases.\<close>

definition work :: "nat \<Rightarrow> query_scratch \<Rightarrow> nat multiset" where
  "work n s = image_mset (\<lambda>(e, r, c). n - r) (mset (queue s Forward) + mset (queue s Backward))"

lemma offer_work:
  "r < n \<Longrightarrow> work n (offer d s e r c p) = work n s \<or> work n (offer d s e r c p) = add_mset (n - r) (work n s)"
  by (cases d) (auto simp: offer_def update_label_def queue_push_def Let_def work_def split: cost.splits)

lemma relax_work:
  assumes "set arcs \<subseteq> set (rows d r)" "rows_ok n rows" "r < n"
  shows "\<exists>K. work n (foldl (relax_arc b d r c) s arcs) = work n s + K \<and> (\<forall>k\<in>#K. k < n - r)"
  using assms(1)
proof (induction arcs rule: rev_induct)
  case (snoc a arcs)
  obtain h v where a: "a = (h, v)" by (cases a)
  have h: "r < h" "h < n" using rows_okD[OF assms(2,3), of h v d] snoc.prems a by auto
  obtain K where K: "work n (foldl (relax_arc b d r c) s arcs) = work n s + K" "\<forall>k\<in>#K. k < n - r"
    using snoc by auto
  let ?w = "work n (foldl (relax_arc b d r c) s (arcs @ [a]))"
  have "?w = work n s + K \<or> ?w = work n s + add_mset (n - h) K"
    using offer_work[OF h(2), of d "foldl (relax_arc b d r c) s arcs" "edge_order b ! h" "Cost c + decoded v" "Some r"] K(1)
    by (simp add: a relax_arc_offer)
  then show ?case
  proof
    assume "?w = work n s + add_mset (n - h) K"
    then show ?thesis using K(2) h by (intro exI[of _ "add_mset (n - h) K"]) auto
  qed (use K(2) in blast)
qed (auto intro: exI[of _ "{#}"])

lemma settle_work:
  assumes "sound_labels n rows S (scratch q)" "rows_ok n rows" "settle b rows d q = Some q'"
  shows "(work n (scratch q'), work n (scratch q)) \<in> mult1 less_than"
proof -
  define s where "s = scratch q"
  obtain e rank c rest where pop: "queue_pop (queue s d) = Some ((e, rank, c), rest)"
    using assms(3) unfolding settle_def s_def by (cases "queue_pop (queue (scratch q) d)") auto
  define t where "t = s\<lparr>queue := (queue s)(d := rest)\<rparr>"
  have rank: "rank < n" using assms(1) queue_pop_Some(1)[OF pop] unfolding sound_labels_def s_def by blast
  have "mset (queue s d) = add_mset (e, rank, c) (mset rest)"
    using queue_pop_Some(1,5)[OF pop] by simp
  then have w: "work n s = add_mset (n - rank) (work n t)"
    by (cases d) (simp_all add: work_def t_def)
  have "scratch q' = t \<or> scratch q' = foldl (relax_arc b d rank c) t (rows d rank)"
    using assms(3) pop unfolding settle_def meet_def by (auto simp: t_def s_def Let_def split: if_splits)
  then obtain K where "work n (scratch q') = work n t + K" "\<forall>k\<in>#K. k < n - rank"
    using relax_work[OF order_refl assms(2) rank, of b d c t] by (auto intro: that[of "{#}"])
  then show ?thesis unfolding mult1_def s_def[symmetric] w by auto
qed


lemma query_step_Some: "query_step b rows low q = Some q' \<Longrightarrow> \<exists>d. settle b rows d q = Some q'"
  by (auto simp: query_step_def Let_def split: if_splits)

lemma queue_peek_active: "queue_peek q + l < B \<Longrightarrow> queue_pop q \<noteq> None"
  by (cases "queue_pop q") (simp_all add: queue_peek_def)

lemma query_step_None:
  assumes "query_step b rows low q = None"
  shows "best_cost q \<le> queue_peek (queue (scratch q) d) + low (opposite d)"
proof -
  have s: "settle b rows d q = None \<Longrightarrow> queue_pop (queue (scratch q) d) = None" for d
    by (auto simp: settle_def Let_def split: option.splits if_splits)
  have "\<not> queue_peek (queue (scratch q) Forward) + low Backward < best_cost q
      \<and> \<not> queue_peek (queue (scratch q) Backward) + low Forward < best_cost q"
    using assms s[of Forward] s[of Backward] queue_peek_active
    unfolding query_step_def Let_def by (metis option.distinct(1))
  then show ?thesis by (cases d) (simp_all add: not_less)
qed

lemma query_loop_returns:
  assumes "query_inv n rows S initial q" "rows_ok n rows"
  shows "\<exists>q'. query_loop b rows low q = Some q' \<and> query_inv n rows S initial q' \<and> query_step b rows low q' = None"
  using assms(1)
proof (induction "work n (scratch q)" arbitrary: q rule: wf_induct_rule[OF wf_mult1[OF wf_less_than]])
  case (1 q)
  show ?case
  proof (cases "query_step b rows low q")
    case None
    then show ?thesis using 1(2) by (simp add: query_loop.simps)
  next
    case (Some q')
    then obtain d where d: "settle b rows d q = Some q'" using query_step_Some by blast
    have "sound_labels n rows S (scratch q)" using 1(2) by (simp add: query_inv_def)
    then have "(work n (scratch q'), work n (scratch q)) \<in> mult1 less_than"
      using settle_work assms(2) d by blast
    moreover have "query_inv n rows S initial q'" using settle_inv 1(2) assms(2) d by blast
    ultimately obtain q'' where "query_loop b rows low q' = Some q''" "query_inv n rows S initial q''"
      "query_step b rows low q'' = None"
      using 1(1) by blast
    then show ?thesis using Some by (simp add: query_loop.simps)
  qed
qed

section \<open>Optimality\<close>

lemma climb_rank: "climbs rows d S r c \<Longrightarrow> rows_ok n rows \<Longrightarrow> \<forall>(r, x)\<in>S. r < n \<Longrightarrow> r < n"
  by (induction rule: climbs.induct) (use rows_okD in blast)+

lemma climb_low: "climbs rows d S r c \<Longrightarrow> \<forall>(r, x)\<in>S. l \<le> x \<Longrightarrow> l \<le> Cost c"
proof (induction rule: climbs.induct)
  case (arc r c h v x)
  have "Cost c \<le> Cost (c + x)" using decoded_nonneg[OF arc(3)] by simp
  then show ?case using arc.IH[OF arc.prems] by (rule order_trans[rotated])
qed blast

definition slack :: "nat \<Rightarrow> rat" where "slack r = of_nat (r + 1) * EPSILON"

lemma slack_mono: "r < h \<Longrightarrow> slack r + EPSILON \<le> slack h"
proof -
  assume "r < h"
  then have "of_nat (r + 2) \<le> (of_nat (h + 1) :: rat)" by (intro of_nat_mono) simp
  then have "of_nat (r + 2) * EPSILON \<le> of_nat (h + 1) * EPSILON" by (simp add: EPSILON_def)
  then show ?thesis by (simp add: slack_def algebra_simps)
qed

lemma climb_reached:
  assumes "query_inv n rows S initial q" "rows_ok n rows" "\<forall>(r, x)\<in>S d. r < n"
    "\<And>d. best_cost q \<le> queue_peek (queue (scratch q) d) + low (opposite d)"
  shows "climbs rows d (S d) r c \<Longrightarrow>
    (\<exists>f. label_at (scratch q) d r = Cost f \<and> f \<le> c + slack r \<and> \<not> pending (scratch q) d r f)
    \<or> best_cost q \<le> Cost (c + slack r) + low (opposite d)"
proof (induction rule: climbs.induct)
  let ?s = "scratch q"
  have late: "best_cost q \<le> Cost y + low (opposite d)" if "pending ?s d r f" "f \<le> y" for r f y
  proof -
    have "queue_peek (queue ?s d) \<le> Cost f" using that(1) queue_peek_le unfolding pending_def by blast
    then have "queue_peek (queue ?s d) \<le> Cost y" using that(2) order_trans[of _ "Cost f" "Cost y"] by simp
    then have "queue_peek (queue ?s d) + low (opposite d) \<le> Cost y + low (opposite d)" by (rule add_right_mono)
    then show ?thesis using assms(4)[of d] by (rule order_trans[rotated])
  qed
  {
    case (seed r c)
    have "label_at ?s d r \<le> Cost (c + EPSILON)" using assms(1) seed unfolding query_inv_def by blast
    then obtain f where f: "label_at ?s d r = Cost f" "f \<le> c + EPSILON" unfolding cost_le_Cost by blast
    have "EPSILON \<le> slack r" by (simp add: slack_def EPSILON_def)
    then have "f \<le> c + slack r" using f(2) by linarith
    then show ?case using f(1) late by blast
  next
    case (arc r c h v x)
    have r: "r < n" using climb_rank[OF arc(1) assms(2,3)] .
    have h: "r < h" "h < n" using rows_okD[OF assms(2) r arc(2)] by simp_all
    have x: "0 \<le> x" by (rule decoded_nonneg[OF arc(3)])
    have le: "c + slack r + x + EPSILON \<le> c + x + slack h" using slack_mono[OF h(1)] by linarith
    from arc.IH show ?case
    proof
      assume "\<exists>f. label_at ?s d r = Cost f \<and> f \<le> c + slack r \<and> \<not> pending ?s d r f"
      then obtain f where f: "label_at ?s d r = Cost f" "f \<le> c + slack r" "\<not> pending ?s d r f" by blast
      then have "relaxed_from rows ?s d r f" using assms(1) r unfolding query_inv_def by blast
      then have "label_at ?s d h \<le> Cost (f + x + EPSILON)" using arc(2,3) unfolding relaxed_from_def by blast
      then obtain g where g: "label_at ?s d h = Cost g" "g \<le> f + x + EPSILON" unfolding cost_le_Cost by blast
      then have "g \<le> c + x + slack h" using f(2) le by linarith
      then show ?thesis using g(1) late by blast
    next
      assume "best_cost q \<le> Cost (c + slack r) + low (opposite d)"
      moreover have "Cost (c + slack r) \<le> Cost (c + x + slack h)"
        using le x by (simp add: EPSILON_def)
      ultimately show ?thesis using add_right_mono order_trans by blast
    qed
  }
qed

lemma meeting_reached:
  assumes "query_inv n rows S initial q" "rows_ok n rows" "\<And>d. \<forall>(r, x)\<in>S d. r < n"
    "\<And>d. best_cost q \<le> queue_peek (queue (scratch q) d) + low (opposite d)"
    "\<And>d. \<forall>(r, x)\<in>S d. low d \<le> x"
    "climbs rows Forward (S Forward) r c" "climbs rows Backward (S Backward) r c'"
  shows "best_cost q \<le> Cost (c + c' + 2 * slack r)"
proof -
  have pos: "0 \<le> slack r" by (simp add: slack_def EPSILON_def)
  have r: "r < n" by (rule climb_rank[OF assms(6,2,3)])
  note f = climb_reached[OF assms(1,2,3,4) assms(6)] and g = climb_reached[OF assms(1,2,3,4) assms(7)]
  have over: "best_cost q \<le> Cost (c + c' + 2 * slack r)" if "best_cost q \<le> Cost (a + slack r) + l" "l \<le> Cost a'" "a + a' = c + c'"
    for a a' l
  proof -
    have "Cost (a + slack r) + l \<le> Cost (a + slack r) + Cost a'" using that(2) by (rule add_left_mono)
    also have "\<dots> \<le> Cost (c + c' + 2 * slack r)" using that(3) pos by simp
    finally show ?thesis using that(1) by (rule order_trans[rotated])
  qed
  show ?thesis
  proof (cases "best_cost q \<le> Cost (c + slack r) + low Backward \<or> best_cost q \<le> Cost (c' + slack r) + low Forward")
    case True
    then show ?thesis
      using over[of c "low Backward" c'] over[of c' "low Forward" c] climb_low[OF assms(7,5)] climb_low[OF assms(6,5)]
      by (auto simp: add.commute)
  next
    case False
    then obtain x y where x: "label_at (scratch q) Forward r = Cost x" "x \<le> c + slack r" "\<not> pending (scratch q) Forward r x"
      and y: "label_at (scratch q) Backward r = Cost y" "y \<le> c' + slack r" "\<not> pending (scratch q) Backward r y"
      using f g by auto
    have "pending (scratch q) Forward r x \<or> pending (scratch q) (opposite Forward) r y \<or> best_cost q \<le> Cost (x + y)"
      using assms(1) r x(1) y(1) unfolding query_inv_def opposite.simps(1)[symmetric] by blast
    then have "best_cost q \<le> Cost (x + y)" using x(3) y(3) by simp
    also have "\<dots> \<le> Cost (c + c' + 2 * slack r)" using x(2) y(2) by simp
    finally show ?thesis .
  qed
qed


section \<open>The initial state\<close>

lemma prepare_empty:
  assumes "clean s"
  shows "n \<le> length (labels (prepare n s))" "r < length (labels (prepare n s)) \<Longrightarrow> labels (prepare n s) ! r = EMPTY"
    "queue (prepare n s) d = []" "clean (prepare n s)"
proof -
  let ?ls = "if length (labels s) < n then labels s @ replicate (n - length (labels s)) EMPTY else labels s"
  have l: "labels (prepare n s) = foldl (\<lambda>ls r. ls[r := EMPTY]) ?ls (touched s)" by (simp add: prepare_def)
  show "n \<le> length (labels (prepare n s))" by (simp add: l length_foldl_reset)
  show "queue (prepare n s) d = []" by (simp add: prepare_def)
  show e: "labels (prepare n s) ! r = EMPTY" if "r < length (labels (prepare n s))" for r
  proof (cases "r < length (labels s)")
    case True
    then show ?thesis using assms that by (auto simp: l foldl_reset clean_def nth_append)
  next
    case False
    then show ?thesis using that by (auto simp: l foldl_reset length_foldl_reset nth_append split: if_splits)
  qed
  then show "clean (prepare n s)" by (simp add: clean_def)
qed

definition seeds_inv :: "nat \<Rightarrow> arc_rows \<Rightarrow> (direction \<Rightarrow> (nat \<times> cost) set) \<Rightarrow> query_scratch \<Rightarrow> bool" where
  "seeds_inv n rows S s \<longleftrightarrow> sound_labels n rows S s \<and> (\<forall>d r f. r < n \<longrightarrow> label_at s d r = Cost f \<longrightarrow> pending s d r f)"

lemma add_seeds:
  assumes "seeds_inv n rows S s" "\<forall>(e, c)\<in>set seeds. edge_rank b ! e < n \<and> (edge_rank b ! e, c) \<in> S d"
  shows "seeds_inv n rows S (foldl (add_seed b d) s seeds) \<and> improves s (foldl (add_seed b d) s seeds)
    \<and> (\<forall>(e, c)\<in>set seeds. \<forall>x. c = Cost x \<longrightarrow> label_at (foldl (add_seed b d) s seeds) d (edge_rank b ! e) \<le> Cost (x + EPSILON))"
  using assms(2)
proof (induction seeds rule: rev_induct)
  case (snoc a seeds)
  let ?s = "foldl (add_seed b d) s seeds"
  obtain e c where a: "a = (e, c)" by (cases a)
  let ?r = "edge_rank b ! e"
  let ?t = "offer d ?s e ?r c None"
  have ih: "seeds_inv n rows S ?s" "improves s ?s"
    "\<forall>(e, c)\<in>set seeds. \<forall>x. c = Cost x \<longrightarrow> label_at ?s d (edge_rank b ! e) \<le> Cost (x + EPSILON)"
    using snoc by simp_all
  have t: "foldl (add_seed b d) s (seeds @ [a]) = ?t" by (simp add: a add_seed_offer)
  have r: "?r < n" "(?r, c) \<in> S d" using snoc.prems a by simp_all
  have sound: "sound_labels n rows S ?s" using ih(1) by (simp add: seeds_inv_def)
  then have l: "?r < length (labels ?s)" using r(1) by (simp add: sound_labels_def)
  have st: "sound_labels n rows S ?t"
    by (rule offer_sound[OF sound r(1)]) (use r(2) in \<open>simp add: explained_def\<close>)
  have k: "kept ?s ?t" by (rule offer_kept[OF l])
  have "pending ?t d' r' f" if "r' < n" "label_at ?t d' r' = Cost f" for d' r' f
  proof -
    have "label_at ?s d' r' = Cost f \<or> pending ?t d' r' f" using k that(2) unfolding kept_def by blast
    moreover have "label_at ?s d' r' = Cost f \<Longrightarrow> pending ?s d' r' f" using ih(1) that(1) unfolding seeds_inv_def by blast
    moreover have "pending ?s d' r' f \<Longrightarrow> pending ?t d' r' f" using k unfolding kept_def pending_def by blast
    ultimately show ?thesis by blast
  qed
  then have inv: "seeds_inv n rows S ?t" using st by (simp add: seeds_inv_def)
  have im: "improves ?s ?t" using k by (simp add: kept_def)
  have new: "label_at ?t d ?r \<le> Cost (x + EPSILON)" if "c = Cost x" for x
    unfolding that by (rule offer_bound[OF l])
  have old: "label_at ?t d (edge_rank b ! e') \<le> Cost (x + EPSILON)" if "(e', Cost x) \<in> set seeds" for e' x
  proof -
    have "label_at ?s d (edge_rank b ! e') \<le> Cost (x + EPSILON)" using ih(3) that by blast
    then show ?thesis using im unfolding improves_def by (meson order_trans)
  qed
  show ?case unfolding t using inv scratch_improves_trans[OF ih(2) im] new old a by auto
qed (use assms(1) in \<open>simp add: scratch_improves_refl\<close>)

definition ranked_seeds :: "acceleration_bundle \<Rightarrow> (nat \<times> cost) list \<Rightarrow> (nat \<times> cost) set" where
  "ranked_seeds b seeds = (\<lambda>(e, c). (edge_rank b ! e, c)) ` set seeds"

definition both_seeds :: "acceleration_bundle \<Rightarrow> (nat \<times> cost) list \<Rightarrow> (nat \<times> cost) list \<Rightarrow> direction \<Rightarrow> (nat \<times> cost) set" where
  "both_seeds b origin destination d = ranked_seeds b (case d of Forward \<Rightarrow> origin | Backward \<Rightarrow> destination)"

lemma initial_inv:
  assumes "clean s" "\<forall>(e, c)\<in>set origin \<union> set destination. edge_rank b ! e < n" "n = length (edge_order b)"
  shows "query_inv n rows (both_seeds b origin destination) initial
    \<lparr>scratch = seeded b origin destination (prepare (length (edge_order b)) s), best_cost = initial, best_rank = None\<rparr>"
proof -
  let ?S = "both_seeds b origin destination" and ?p = "prepare n s"
  note pe = prepare_empty[OF assms(1), of n]
  have "label_at ?p d r = Infinite" if "r < n" for d r
    using prepare_empty(2)[OF assms(1), of r n] pe(1) that by (simp add: EMPTY_def)
  then have i0: "seeds_inv n rows ?S ?p"
    using pe(1,3,4) by (simp add: seeds_inv_def sound_labels_def)
  let ?f = "foldl (add_seed b Forward) ?p origin"
  let ?g = "foldl (add_seed b Backward) ?f destination"
  have o: "\<forall>(e, c)\<in>set origin. edge_rank b ! e < n \<and> (edge_rank b ! e, c) \<in> ?S Forward"
    and d: "\<forall>(e, c)\<in>set destination. edge_rank b ! e < n \<and> (edge_rank b ! e, c) \<in> ?S Backward"
    using assms(2) by (force simp: both_seeds_def ranked_seeds_def)+
  note f = add_seeds[OF i0 o]
  note g = add_seeds[OF conjunct1[OF f] d]
  have "label_at ?g d r \<le> Cost (c + EPSILON)" if seed: "(r, Cost c) \<in> ?S d" for d r c
  proof (cases d)
    case Forward
    then obtain e where e: "(e, Cost c) \<in> set origin" "r = edge_rank b ! e"
      using seed by (auto simp: both_seeds_def ranked_seeds_def)
    then have "label_at ?f Forward r \<le> Cost (c + EPSILON)" using f by blast
    moreover have "label_at ?g Forward r \<le> label_at ?f Forward r" using g unfolding improves_def by blast
    ultimately show ?thesis using Forward order_trans by blast
  next
    case Backward
    then obtain e where e: "(e, Cost c) \<in> set destination" "r = edge_rank b ! e"
      using seed by (auto simp: both_seeds_def ranked_seeds_def)
    then show ?thesis using g Backward by blast
  qed
  then show ?thesis
    using g unfolding query_inv_def seeds_inv_def seeded_def assms(3)[symmetric] by simp
qed

end
