(* ===== verification/Cch_Unpack.thy ===== *)
theory Cch_Unpack
  imports Ranked_Cch "HOL-Library.Multiset"
begin

unbundle bit_operations_syntax

text \<open>
  Unpacking hierarchy arcs into the transitions they stand for (\<open>push_unpacked_arc\<close> in
  \<open>crates/query/src/engine/acceleration.rs\<close>): a stack of pending arcs, each replaced by the first
  lower triangle of the same weight, with the triangles memoized in a table that all queries share.
  \<open>None\<close> results stand for the panics of \<open>expect\<close> and \<open>assert\<close>.
\<close>

section \<open>Arcs and witnesses\<close>

record hierarchy_arc =
  is_upward :: bool
  arc_tail :: nat
  arc_slot :: nat

definition arc_head :: "acceleration_bundle \<Rightarrow> hierarchy_arc \<Rightarrow> nat" where
  "arc_head b a = (if is_upward a then upward_head b ! arc_slot a else downward_head b ! arc_slot a)"

text \<open>A table entry is 0 until first unpacked, \<open>UNPACK_BASE_ARC\<close> for an arc without a lower triangle,
  or \<open>(left + 1) << 32 | right\<close>.\<close>

record unpack_table =
  table_upward :: "u64 list"
  table_downward :: "u64 list"

definition UNPACK_UNKNOWN :: u64 where "UNPACK_UNKNOWN = 0"

definition UNPACK_BASE_ARC :: u64 where "UNPACK_BASE_ARC = - 1"

definition unpack_table_new :: "nat \<Rightarrow> nat \<Rightarrow> unpack_table" where
  "unpack_table_new upward_len downward_len =
     \<lparr>table_upward = replicate upward_len 0, table_downward = replicate downward_len 0\<rparr>"

definition table_entry :: "unpack_table \<Rightarrow> bool \<Rightarrow> nat \<Rightarrow> u64" where
  "table_entry t up slot = (if up then table_upward t ! slot else table_downward t ! slot)"

definition table_store :: "unpack_table \<Rightarrow> bool \<Rightarrow> nat \<Rightarrow> u64 \<Rightarrow> unpack_table" where
  "table_store t up slot v = (if up then t\<lparr>table_upward := (table_upward t)[slot := v]\<rparr>
     else t\<lparr>table_downward := (table_downward t)[slot := v]\<rparr>)"

definition pack_witness :: "nat \<Rightarrow> nat \<Rightarrow> u64" where
  "pack_witness left right = push_bit 32 (word_of_nat left + 1) OR word_of_nat right"

fun find_triangle :: "acceleration_bundle \<Rightarrow> ranked_cch \<Rightarrow> nat \<Rightarrow> nat \<Rightarrow> u32 \<Rightarrow> nat list \<Rightarrow> u64 option" where
  "find_triangle b c tail head weight [] = Some UNPACK_BASE_ARC"
| "find_triangle b c tail head weight (left # lefts) =
     (let middle = downward_head b ! left
      in if edge_rank b ! head \<le> edge_rank b ! middle then find_triangle b c tail head weight lefts
         else case upward_arc_slot b middle head of
             None \<Rightarrow> find_triangle b c tail head weight lefts
           | Some right \<Rightarrow> (case downward_weight c b tail middle of
                 None \<Rightarrow> None
               | Some left_weight \<Rightarrow>
                   if add_cch_weights left_weight (upward_weight c b middle right) = weight
                   then Some (pack_witness left right)
                   else find_triangle b c tail head weight lefts))"

definition find_unpack_witness :: "acceleration_bundle \<Rightarrow> ranked_cch \<Rightarrow> hierarchy_arc \<Rightarrow> u64 option" where
  "find_unpack_witness b c a =
     (let tail = arc_tail a; head = arc_head b a
      in case (if is_upward a then Some (upward_weight c b tail (arc_slot a)) else downward_weight c b tail head) of
           None \<Rightarrow> None
         | Some weight \<Rightarrow>
             if weight < CCH_WEIGHT_OVERFLOW
             then find_triangle b c tail head weight
               [downward_first_out b ! tail ..< downward_first_out b ! (tail + 1)]
             else None)"

definition read_witness :: "u64 \<Rightarrow> (nat \<times> nat) option" where
  "read_witness w = (if w = UNPACK_BASE_ARC then None
     else Some (unat (ucast (drop_bit 32 w) - 1 :: u32), unat (ucast w :: u32)))"

definition memoized_witness :: "acceleration_bundle \<Rightarrow> ranked_cch \<Rightarrow> unpack_table \<Rightarrow> hierarchy_arc \<Rightarrow>
    (unpack_table \<times> (nat \<times> nat) option) option" where
  "memoized_witness b c t a =
     (let w = table_entry t (is_upward a) (arc_slot a)
      in if w \<noteq> UNPACK_UNKNOWN then Some (t, read_witness w)
         else case find_unpack_witness b c a of None \<Rightarrow> None
           | Some w \<Rightarrow> Some (table_store t (is_upward a) (arc_slot a) w, read_witness w))"

section \<open>The stack\<close>

datatype pending_tail = Tail_State nat | Head_Of_Downward nat

record pending_arc =
  pending_upward :: bool
  pending_slot :: nat
  pending_at :: pending_tail

definition resolve_tail :: "acceleration_bundle \<Rightarrow> pending_tail \<Rightarrow> nat" where
  "resolve_tail b p = (case p of Tail_State tail \<Rightarrow> tail | Head_Of_Downward left \<Rightarrow> downward_head b ! left)"

definition resolve :: "acceleration_bundle \<Rightarrow> pending_arc \<Rightarrow> hierarchy_arc" where
  "resolve b p = \<lparr>is_upward = pending_upward p, arc_tail = resolve_tail b (pending_at p), arc_slot = pending_slot p\<rparr>"

partial_function (option) unpack_loop :: "acceleration_bundle \<Rightarrow> ranked_cch \<Rightarrow> unpack_table \<Rightarrow> pending_arc list \<Rightarrow>
    nat list \<Rightarrow> (unpack_table \<times> nat list) option" where
  "unpack_loop b c t stack out = (case stack of
       [] \<Rightarrow> Some (t, out)
     | p # rest \<Rightarrow> (case memoized_witness b c t (resolve b p) of
           None \<Rightarrow> None
         | Some (t', witness) \<Rightarrow> (case witness of
               None \<Rightarrow> unpack_loop b c t' rest (out @ [arc_head b (resolve b p)])
             | Some (left, right) \<Rightarrow> unpack_loop b c t'
                 (\<lparr>pending_upward = False, pending_slot = left, pending_at = pending_at p\<rparr>
                  # \<lparr>pending_upward = True, pending_slot = right, pending_at = Head_Of_Downward left\<rparr> # rest) out)))"

lemmas unpack_loop_unfold = unpack_loop.simps[of _ _ _ "[]"] unpack_loop.simps[of _ _ _ "p # rest" for p rest]

definition push_unpacked_arc :: "acceleration_bundle \<Rightarrow> ranked_cch \<Rightarrow> unpack_table \<Rightarrow> hierarchy_arc \<Rightarrow> nat list \<Rightarrow>
    (unpack_table \<times> nat list) option" where
  "push_unpacked_arc b c t a out = unpack_loop b c t
     [\<lparr>pending_upward = is_upward a, pending_slot = arc_slot a, pending_at = Tail_State (arc_tail a)\<rparr>] out"

section \<open>Packed witnesses\<close>

lemma bit_small_word: "k < 2 ^ 32 \<Longrightarrow> bit (word_of_nat k :: u64) n \<longleftrightarrow> n < 32 \<and> bit k n"
proof -
  assume s: "k < 2 ^ 32"
  have "bit k n \<Longrightarrow> n < 32"
  proof (rule ccontr)
    assume b: "bit k n" "\<not> n < 32"
    then have "(2::nat) ^ 32 \<le> 2 ^ n" by (intro power_increasing) auto
    then have "k < 2 ^ n" using s by linarith
    then show False using b by (simp add: bit_iff_odd)
  qed
  then show ?thesis by (auto simp: bit_simps)
qed

lemma pack_witness_parts:
  assumes "left + 1 < 2 ^ 32" "right < 2 ^ 32"
  shows "drop_bit 32 (pack_witness left right) = word_of_nat (left + 1)"
    "ucast (pack_witness left right) = (word_of_nat right :: u32)"
proof -
  have s: "word_of_nat left + 1 = (word_of_nat (left + 1) :: u64)" by simp
  show "drop_bit 32 (pack_witness left right) = word_of_nat (left + 1)"
    unfolding pack_witness_def s
    by (rule bit_word_eqI) (auto simp: bit_drop_bit_eq bit_or_iff bit_push_bit_iff bit_small_word[OF assms(1)]
        bit_small_word[OF assms(2)] simp del: of_nat_Suc of_nat_add Suc_eq_plus1 add_Suc_right add_0_right One_nat_def)
  show "ucast (pack_witness left right) = (word_of_nat right :: u32)"
    unfolding pack_witness_def s
    by (rule bit_word_eqI) (auto simp: bit_ucast_iff bit_or_iff bit_push_bit_iff bit_small_word[OF assms(2)]
        bit_simps simp del: of_nat_Suc of_nat_add)
qed

lemma read_pack_witness:
  assumes "left < 2 ^ 31" "right < 2 ^ 31"
  shows "read_witness (pack_witness left right) = Some (left, right)" "pack_witness left right \<noteq> UNPACK_UNKNOWN"
proof -
  have s: "left + 1 < 2 ^ 32" "right < 2 ^ 32" using assms by simp_all
  note p = pack_witness_parts[OF s]
  have u: "unat (ucast (drop_bit 32 (pack_witness left right)) :: u32) = left + 1"
    unfolding p(1) using assms(1) by (simp add: unat_of_nat take_bit_nat_eq_self unsigned_ucast_eq del: of_nat_Suc of_nat_add)
  then have l: "unat (ucast (drop_bit 32 (pack_witness left right)) - 1 :: u32) = left"
    by (simp add: unat_minus_one word_unat_eq_iff)
  have r: "unat (ucast (pack_witness left right) :: u32) = right"
    unfolding p(2) using s(2) by (simp add: unat_of_nat take_bit_nat_eq_self)
  show "pack_witness left right \<noteq> UNPACK_UNKNOWN"
    using u by (auto simp: UNPACK_UNKNOWN_def)
  have "pack_witness left right \<noteq> UNPACK_BASE_ARC"
  proof
    assume "pack_witness left right = UNPACK_BASE_ARC"
    then have "unat (ucast (- 1 :: u64) :: u32) = right" using r by (simp add: UNPACK_BASE_ARC_def)
    moreover have "unat (ucast (- 1 :: u64) :: u32) = 2 ^ 32 - 1"
      by (simp add: unsigned_ucast_eq unsigned_minus_1_eq_mask mask_eq_exp_minus_1 take_bit_eq_mod)
    ultimately show False using assms(2) by simp
  qed
  then show "read_witness (pack_witness left right) = Some (left, right)" using l r by (simp add: read_witness_def)
qed


section \<open>The witness search\<close>

text \<open>What unpacking relies on: the arrays are a hierarchy with slots that fit their packing, and every
  weight is a base weight or the sum over a lower triangle, as customization leaves them.\<close>

definition unpackable :: "nat \<Rightarrow> acceleration_bundle \<Rightarrow> (nat \<times> nat) list \<Rightarrow> (nat \<times> nat) list \<Rightarrow> metric_weights \<Rightarrow>
    (nat \<Rightarrow> nat \<Rightarrow> u32) \<Rightarrow> bool" where
  "unpackable n b ups downs w base \<longleftrightarrow> hierarchy n b ups downs \<and> weight_shape b w
     \<and> length ups < 2 ^ 31 \<and> length downs < 2 ^ 31
     \<and> (\<exists>N. cch.attained ((!) (edge_rank b)) N base (arc_weight b w))"

definition arc_ok :: "acceleration_bundle \<Rightarrow> (nat \<times> nat) list \<Rightarrow> (nat \<times> nat) list \<Rightarrow> metric_weights \<Rightarrow> hierarchy_arc \<Rightarrow> bool" where
  "arc_ok b ups downs w a \<longleftrightarrow>
     (if is_upward a then arc_slot a < length ups \<and> ups ! arc_slot a = (arc_tail a, arc_head b a)
      else arc_slot a < length downs \<and> downs ! arc_slot a = (arc_tail a, arc_head b a))
     \<and> arc_weight b w (arc_tail a) (arc_head b a) < CCH_WEIGHT_OVERFLOW"

text \<open>A lower triangle of an arc, by its two slots.\<close>

definition triangle_of :: "acceleration_bundle \<Rightarrow> (nat \<times> nat) list \<Rightarrow> (nat \<times> nat) list \<Rightarrow> metric_weights \<Rightarrow> nat \<Rightarrow> nat \<Rightarrow>
    u32 \<Rightarrow> nat \<Rightarrow> nat \<Rightarrow> nat \<Rightarrow> bool" where
  "triangle_of b ups downs w tail head weight left right m \<longleftrightarrow>
     left < length downs \<and> downs ! left = (tail, m) \<and> right < length ups \<and> ups ! right = (m, head)
     \<and> edge_rank b ! m < edge_rank b ! head \<and> add_cch_weights (arc_weight b w tail m) (arc_weight b w m head) = weight"

lemma upward_slot_iff:
  assumes "hierarchy n b ups downs" "x < n"
  shows "upward_arc_slot b x y = Some s \<longleftrightarrow> s < length ups \<and> ups ! s = (x, y)"
    "downward_arc_slot b x y = Some s \<longleftrightarrow> s < length downs \<and> downs ! s = (x, y)"
  using csr.find_some[of "(n, ups)" x y s] csr.find_some[of "(n, downs)" x y s] hierarchyD(2,3)[OF assms(1)] assms(2)
  by (simp_all add: upward_arc_slot_def downward_arc_slot_def hierarchy_find[OF assms(1)])

lemma find_triangle_spec:
  fixes head :: nat and weight :: u32
  assumes "hierarchy n b ups downs" "weight_shape b w"
    "\<forall>l\<in>set lefts. l < length downs \<and> downs ! l = (tail, snd (downs ! l))"
  defines "r \<equiv> find_triangle b (ranked_build b w) tail head weight lefts"
  shows "r = Some UNPACK_BASE_ARC \<and> (\<forall>l\<in>set lefts. \<nexists>right m. triangle_of b ups downs w tail head weight l right m)
    \<or> (\<exists>left right m. r = Some (pack_witness left right) \<and> triangle_of b ups downs w tail head weight left right m)"
  using assms(3) unfolding r_def
proof (induction lefts)
  case (Cons l lefts)
  let ?f = "find_triangle b (ranked_build b w) tail head weight"
  have l: "l < length downs" "downs ! l = (tail, snd (downs ! l))" using Cons.prems by auto
  define m where "m = snd (downs ! l)"
  have mid: "downward_head b ! l = m" using assms(1) l(1) by (simp add: hierarchy_def m_def)
  have mem: "(tail, m) \<in> set downs" using l nth_mem unfolding m_def by metis
  then have m: "m < n" using hierarchyD(5)[OF assms(1)] by blast
  have lw: "downward_weight (ranked_build b w) b tail m = Some (arc_weight b w tail m)"
    using downward_weight_at[OF assms(1,2) m] mem by simp
  have ih: "?f lefts = Some UNPACK_BASE_ARC \<and> (\<forall>l\<in>set lefts. \<nexists>right m. triangle_of b ups downs w tail head weight l right m)
    \<or> (\<exists>left right m. ?f lefts = Some (pack_witness left right) \<and> triangle_of b ups downs w tail head weight left right m)"
    using Cons by auto
  have only: "triangle_of b ups downs w tail head weight l right m' \<Longrightarrow> m' = m" for right m'
    by (simp add: triangle_of_def m_def)
  show ?case
  proof (cases "\<exists>right. triangle_of b ups downs w tail head weight l right m")
    case True
    then obtain right where t: "triangle_of b ups downs w tail head weight l right m" by blast
    then have r: "right < length ups" "ups ! right = (m, head)" by (simp_all add: triangle_of_def)
    then have "upward_arc_slot b m head = Some right" "upward_weight (ranked_build b w) b m right = arc_weight b w m head"
      using upward_slot_iff(1)[OF assms(1) m] upward_weight_at[OF assms(1,2) r] arc_weight_at(1)[OF assms(1) r, of w]
      by simp_all
    then have "?f (l # lefts) = Some (pack_witness l right)"
      using t lw by (simp add: mid triangle_of_def)
    then show ?thesis using t by blast
  next
    case False
    have "?f (l # lefts) = ?f lefts"
    proof (cases "edge_rank b ! head \<le> edge_rank b ! m")
      case False2: False
      show ?thesis
      proof (cases "upward_arc_slot b m head")
        case (Some right)
        then have r: "right < length ups" "ups ! right = (m, head)" using upward_slot_iff(1)[OF assms(1) m] by simp_all
        have "upward_weight (ranked_build b w) b m right = arc_weight b w m head"
          using upward_weight_at[OF assms(1,2) r] arc_weight_at(1)[OF assms(1) r] by simp
        moreover have "add_cch_weights (arc_weight b w tail m) (arc_weight b w m head) \<noteq> weight"
          using False False2 r l by (auto simp: triangle_of_def m_def)
        ultimately show ?thesis using Some False2 lw by (simp add: mid)
      qed (use False2 in \<open>simp add: mid\<close>)
    qed (simp add: mid)
    moreover have "\<nexists>right m. triangle_of b ups downs w tail head weight l right m" using False only by blast
    ultimately show ?thesis using ih by auto
  qed
qed simp

lemma find_witness_spec:
  assumes "unpackable n b ups downs w base" "arc_ok b ups downs w a"
  defines "W \<equiv> arc_weight b w (arc_tail a) (arc_head b a)"
  shows "find_unpack_witness b (ranked_build b w) a = Some UNPACK_BASE_ARC \<and> base (arc_tail a) (arc_head b a) = W
    \<or> (\<exists>left right m. find_unpack_witness b (ranked_build b w) a = Some (pack_witness left right)
        \<and> triangle_of b ups downs w (arc_tail a) (arc_head b a) W left right m)"
proof -
  let ?x = "arc_tail a" and ?y = "arc_head b a"
  have h: "hierarchy n b ups downs" "weight_shape b w" using assms(1) by (simp_all add: unpackable_def)
  have mem: "(?x, ?y) \<in> set ups \<union> set downs"
    using assms(2) nth_mem unfolding arc_ok_def by (metis UnCI)
  then have n: "?x < n" "?y < n" using hierarchyD(4,5)[OF h(1)] by blast+
  have weight: "(if is_upward a then Some (upward_weight (ranked_build b w) b ?x (arc_slot a))
      else downward_weight (ranked_build b w) b ?x ?y) = Some W"
  proof (cases "is_upward a")
    case True
    then have "arc_slot a < length ups" "ups ! arc_slot a = (?x, ?y)" using assms(2) by (simp_all add: arc_ok_def)
    then show ?thesis using True upward_weight_at[OF h] arc_weight_at(1)[OF h(1)] by (simp add: W_def)
  next
    case False
    then have "arc_slot a < length downs" "downs ! arc_slot a = (?x, ?y)" using assms(2) by (simp_all add: arc_ok_def)
    then have "(?x, ?y) \<in> set downs" using nth_mem by metis
    then show ?thesis using False downward_weight_at[OF h n(2)] by (simp add: W_def)
  qed
  have lt: "W < CCH_WEIGHT_OVERFLOW" using assms(2) by (simp add: arc_ok_def W_def)
  let ?lefts = "[downward_first_out b ! ?x ..< downward_first_out b ! (?x + 1)]"
  have fo: "downward_first_out b = fst (arcs_to_csr downs n)" "sorted_arcs n downs" using h(1) by (simp_all add: hierarchy_def)
  have e: "find_unpack_witness b (ranked_build b w) a = find_triangle b (ranked_build b w) ?x ?y W ?lefts"
    unfolding find_unpack_witness_def Let_def weight using lt by simp
  have row: "\<forall>l\<in>set ?lefts. l < length downs \<and> downs ! l = (?x, snd (downs ! l))"
    using csr_slot[OF fo(2) n(1)] by (simp add: fo(1))
  have base: "base ?x ?y = W" if no: "\<forall>l\<in>set ?lefts. \<nexists>right m. triangle_of b ups downs w ?x ?y W l right m"
  proof (rule ccontr)
    assume ne: "base ?x ?y \<noteq> W"
    obtain N where att: "cch.attained ((!) (edge_rank b)) N base (arc_weight b w)"
      using assms(1) by (auto simp: unpackable_def)
    obtain m where m: "edge_rank b ! m < edge_rank b ! ?x" "edge_rank b ! m < edge_rank b ! ?y"
      "W = add_cch_weights (arc_weight b w ?x m) (arc_weight b w m ?y)"
      using att ne unfolding cch.attained_def W_def by metis
    have fin: "arc_weight b w ?x m \<noteq> CCH_WEIGHT_INFINITY" "arc_weight b w m ?y \<noteq> CCH_WEIGHT_INFINITY"
    proof -
      have "W \<noteq> CCH_WEIGHT_INFINITY" using lt by (simp add: infinity_iff word_less_nat_alt)
      then show "arc_weight b w ?x m \<noteq> CCH_WEIGHT_INFINITY" "arc_weight b w m ?y \<noteq> CCH_WEIGHT_INFINITY"
        unfolding m(3) by (metis add_cch_infinity)+
    qed
    have sup: "cch.supported (set ups \<union> set downs) (arc_weight b w)" by (rule arc_weight_supported[OF h(1)])
    have "(?x, m) \<in> set ups \<union> set downs" "(m, ?y) \<in> set ups \<union> set downs"
      using sup fin unfolding cch.supported_def by blast+
    then have d: "(?x, m) \<in> set downs" "(m, ?y) \<in> set ups"
      using hierarchyD(4)[OF h(1), of ?x m] hierarchyD(5)[OF h(1), of m ?y] m(1,2) by auto
    obtain l where l: "l < length downs" "downs ! l = (?x, m)" using d(1) by (metis in_set_conv_nth)
    obtain r where r: "r < length ups" "ups ! r = (m, ?y)" using d(2) by (metis in_set_conv_nth)
    have "l \<in> set ?lefts" using csr_slot_of[OF fo(2) l n(1)] by (simp add: fo(1))
    moreover have "triangle_of b ups downs w ?x ?y W l r m" using l r m by (simp add: triangle_of_def)
    ultimately show False using no by blast
  qed
  show ?thesis using find_triangle_spec[OF h row, where head = ?y and weight = W] base unfolding e by blast
qed


section \<open>The shared table\<close>

definition slot_arc :: "(nat \<times> nat) list \<Rightarrow> (nat \<times> nat) list \<Rightarrow> bool \<Rightarrow> nat \<Rightarrow> hierarchy_arc" where
  "slot_arc ups downs up slot = \<lparr>is_upward = up, arc_tail = fst ((if up then ups else downs) ! slot), arc_slot = slot\<rparr>"

text \<open>Every entry is unknown or what the search would find: the table never changes an answer.\<close>

definition table_ok :: "acceleration_bundle \<Rightarrow> (nat \<times> nat) list \<Rightarrow> (nat \<times> nat) list \<Rightarrow> metric_weights \<Rightarrow> unpack_table \<Rightarrow> bool" where
  "table_ok b ups downs w t \<longleftrightarrow> length (table_upward t) = length ups \<and> length (table_downward t) = length downs
     \<and> (\<forall>up slot. slot < (if up then length ups else length downs) \<longrightarrow>
          table_entry t up slot = UNPACK_UNKNOWN
          \<or> find_unpack_witness b (ranked_build b w) (slot_arc ups downs up slot) = Some (table_entry t up slot))"

lemma table_ok_new: "table_ok b ups downs w (unpack_table_new (length ups) (length downs))"
  by (auto simp: table_ok_def unpack_table_new_def table_entry_def UNPACK_UNKNOWN_def)

lemma table_entry_store:
  assumes "slot < (if up then length (table_upward t) else length (table_downward t))"
  shows "table_entry (table_store t up slot v) up' slot' = (if up' = up \<and> slot' = slot then v else table_entry t up' slot')"
  using assms by (auto simp: table_entry_def table_store_def nth_list_update split: if_splits)

lemma arc_ok_slot_arc: "arc_ok b ups downs w a \<Longrightarrow> slot_arc ups downs (is_upward a) (arc_slot a) = a"
  by (cases a) (auto simp: arc_ok_def slot_arc_def split: if_splits)

lemma table_ok_store:
  assumes "table_ok b ups downs w t" "arc_ok b ups downs w a" "find_unpack_witness b (ranked_build b w) a = Some v"
  shows "table_ok b ups downs w (table_store t (is_upward a) (arc_slot a) v)"
proof -
  have l: "arc_slot a < (if is_upward a then length (table_upward t) else length (table_downward t))"
    using assms(1,2) by (auto simp: table_ok_def arc_ok_def)
  have "length (table_upward (table_store t (is_upward a) (arc_slot a) v)) = length (table_upward t)"
    "length (table_downward (table_store t (is_upward a) (arc_slot a) v)) = length (table_downward t)"
    by (simp_all add: table_store_def)
  then show ?thesis
    using assms(1,3) arc_ok_slot_arc[OF assms(2)] unfolding table_ok_def table_entry_store[OF l] by auto
qed

lemma memoized_witness_spec:
  assumes "unpackable n b ups downs w base" "arc_ok b ups downs w a" "table_ok b ups downs w t"
  defines "W \<equiv> arc_weight b w (arc_tail a) (arc_head b a)"
  shows "\<exists>t' wit. memoized_witness b (ranked_build b w) t a = Some (t', wit) \<and> table_ok b ups downs w t'
    \<and> (wit = None \<and> base (arc_tail a) (arc_head b a) = W
       \<or> (\<exists>left right m. wit = Some (left, right) \<and> triangle_of b ups downs w (arc_tail a) (arc_head b a) W left right m))"
proof -
  let ?find = "find_unpack_witness b (ranked_build b w) a"
  have sizes: "length ups < 2 ^ 31" "length downs < 2 ^ 31" using assms(1) by (simp_all add: unpackable_def)
  have read: "\<exists>v. ?find = Some v \<and> v \<noteq> UNPACK_UNKNOWN
      \<and> (read_witness v = None \<and> base (arc_tail a) (arc_head b a) = W
         \<or> (\<exists>left right m. read_witness v = Some (left, right)
              \<and> triangle_of b ups downs w (arc_tail a) (arc_head b a) W left right m))"
    using find_witness_spec[OF assms(1,2)] unfolding W_def[symmetric]
  proof
    assume "?find = Some UNPACK_BASE_ARC \<and> base (arc_tail a) (arc_head b a) = W"
    then show ?thesis by (simp add: read_witness_def UNPACK_BASE_ARC_def UNPACK_UNKNOWN_def)
  next
    assume "\<exists>left right m. ?find = Some (pack_witness left right)
      \<and> triangle_of b ups downs w (arc_tail a) (arc_head b a) W left right m"
    then obtain left right m where f: "?find = Some (pack_witness left right)"
      "triangle_of b ups downs w (arc_tail a) (arc_head b a) W left right m" by blast
    then have "left < 2 ^ 31" "right < 2 ^ 31" using sizes by (simp_all add: triangle_of_def)
    then show ?thesis using read_pack_witness[of left right] f by blast
  qed
  then obtain v where v: "?find = Some v" "v \<noteq> UNPACK_UNKNOWN"
    "read_witness v = None \<and> base (arc_tail a) (arc_head b a) = W
      \<or> (\<exists>left right m. read_witness v = Some (left, right)
           \<and> triangle_of b ups downs w (arc_tail a) (arc_head b a) W left right m)" by blast
  show ?thesis
  proof (cases "table_entry t (is_upward a) (arc_slot a) = UNPACK_UNKNOWN")
    case True
    then have "memoized_witness b (ranked_build b w) t a = Some (table_store t (is_upward a) (arc_slot a) v, read_witness v)"
      by (simp add: memoized_witness_def v(1))
    then show ?thesis using table_ok_store[OF assms(3,2) v(1)] v(3) by blast
  next
    case False
    have "arc_slot a < (if is_upward a then length ups else length downs)" using assms(2) by (auto simp: arc_ok_def)
    then have "?find = Some (table_entry t (is_upward a) (arc_slot a))"
      using assms(3) False arc_ok_slot_arc[OF assms(2)] unfolding table_ok_def by metis
    then have "memoized_witness b (ranked_build b w) t a = Some (t, read_witness v)"
      using False v(1) by (simp add: memoized_witness_def)
    then show ?thesis using assms(3) v(3) by blast
  qed
qed

section \<open>The stack unpacks its arcs\<close>

text \<open>\<open>q\<close> continues a path at the tail of the arc with base transitions of exactly the arc's weight.\<close>

definition unpacked :: "acceleration_bundle \<Rightarrow> metric_weights \<Rightarrow> (nat \<Rightarrow> nat \<Rightarrow> u32) \<Rightarrow> hierarchy_arc \<Rightarrow> nat list \<Rightarrow> bool" where
  "unpacked b w base a q \<longleftrightarrow> q \<noteq> [] \<and> last q = arc_head b a
     \<and> cch.cost base (arc_tail a # q) = arc_weight b w (arc_tail a) (arc_head b a)"

definition arc_level :: "acceleration_bundle \<Rightarrow> hierarchy_arc \<Rightarrow> nat" where
  "arc_level b a = min (edge_rank b ! arc_tail a) (edge_rank b ! arc_head b a)"

lemma add_cch_finite: "add_cch_weights x y < CCH_WEIGHT_OVERFLOW \<Longrightarrow> x < CCH_WEIGHT_OVERFLOW \<and> y < CCH_WEIGHT_OVERFLOW"
  by (auto simp: word_less_nat_alt unat_add_cch_weights split: if_splits)

lemma unpacked_append:
  assumes "q \<noteq> []" "last q = m" "cch.cost base (x # q) = u" "cch.cost base (m # q') = v"
  shows "cch.cost base (x # q @ q') = add_cch_weights u v"
proof -
  have q: "q = butlast q @ [m]" using assms(1,2) by auto
  have "cch.cost base (x # q @ q') = cch.cost base ((x # butlast q) @ m # q')"
    by (subst q) simp
  also have "\<dots> = add_cch_weights (cch.cost base ((x # butlast q) @ [m])) (cch.cost base (m # q'))"
    by (rule cch.cost_split)
  also have "(x # butlast q) @ [m] = x # q" using q by simp
  finally show ?thesis using assms(3,4) by simp
qed

lemma unpack_loop_spec:
  assumes "unpackable n b ups downs w base"
  shows "\<forall>p\<in>set stack. arc_ok b ups downs w (resolve b p) \<Longrightarrow> table_ok b ups downs w t \<Longrightarrow>
    \<exists>t' qs. unpack_loop b (ranked_build b w) t stack out = Some (t', out @ concat qs) \<and> table_ok b ups downs w t'
      \<and> list_all2 (\<lambda>p q. unpacked b w base (resolve b p) q) stack qs"
proof (induction "mset (map (\<lambda>p. arc_level b (resolve b p)) stack)" arbitrary: stack t out
    rule: wf_induct_rule[OF wf_mult1[OF wf_less_than]])
  case 1
  show ?case
  proof (cases stack)
    case Nil
    then show ?thesis using 1(3) by (intro exI[of _ t] exI[of _ "[]"]) (simp add: unpack_loop_unfold)
  next
    case (Cons p rest)
    let ?a = "resolve b p"
    let ?x = "arc_tail ?a" and ?y = "arc_head b ?a"
    have ok: "arc_ok b ups downs w ?a" and rest_ok: "\<forall>p\<in>set rest. arc_ok b ups downs w (resolve b p)"
      using 1(2) Cons by simp_all
    obtain t1 wit where m: "memoized_witness b (ranked_build b w) t ?a = Some (t1, wit)" "table_ok b ups downs w t1"
      "wit = None \<and> base ?x ?y = arc_weight b w ?x ?y \<or> (\<exists>left right m. wit = Some (left, right)
         \<and> triangle_of b ups downs w ?x ?y (arc_weight b w ?x ?y) left right m)"
      using memoized_witness_spec[OF assms ok 1(3)] by blast
    from m(3) show ?thesis
    proof
      assume c: "wit = None \<and> base ?x ?y = arc_weight b w ?x ?y"
      have "(mset (map (\<lambda>p. arc_level b (resolve b p)) rest), mset (map (\<lambda>p. arc_level b (resolve b p)) stack)) \<in> mult1 less_than"
        by (rule mult1I[where K = "{#}" and a = "arc_level b ?a"]) (simp_all add: Cons)
      then obtain t' qs where r: "unpack_loop b (ranked_build b w) t1 rest (out @ [?y]) = Some (t', (out @ [?y]) @ concat qs)"
        "table_ok b ups downs w t'" "list_all2 (\<lambda>p q. unpacked b w base (resolve b p) q) rest qs"
        using 1(1)[OF _ rest_ok m(2)] by blast
      have "cch.cost base [?x, ?y] = base ?x ?y" using add_cch_zero[of "base ?x ?y"] by (simp add: add_cch_commute)
      then have "unpacked b w base ?a [?y]" using c by (simp add: unpacked_def)
      then show ?thesis using r m(1) c Cons
        by (intro exI[of _ t'] exI[of _ "[?y] # qs"]) (simp add: unpack_loop_unfold)
    next
      assume "\<exists>left right m. wit = Some (left, right) \<and> triangle_of b ups downs w ?x ?y (arc_weight b w ?x ?y) left right m"
      then obtain left right v where wit: "wit = Some (left, right)"
        and tri: "triangle_of b ups downs w ?x ?y (arc_weight b w ?x ?y) left right v" by blast
      let ?l = "\<lparr>pending_upward = False, pending_slot = left, pending_at = pending_at p\<rparr>"
      let ?r = "\<lparr>pending_upward = True, pending_slot = right, pending_at = Head_Of_Downward left\<rparr>"
      have h: "hierarchy n b ups downs" using assms by (simp add: unpackable_def)
      have heads: "downward_head b ! left = v" "upward_head b ! right = ?y"
        using tri h by (simp_all add: triangle_of_def hierarchy_def)
      have la: "arc_tail (resolve b ?l) = ?x" "arc_head b (resolve b ?l) = v" "is_upward (resolve b ?l) = False"
        "arc_slot (resolve b ?l) = left"
        and ra: "arc_tail (resolve b ?r) = v" "arc_head b (resolve b ?r) = ?y" "is_upward (resolve b ?r) = True"
        "arc_slot (resolve b ?r) = right"
        by (simp_all add: resolve_def arc_head_def resolve_tail_def heads)
      have "arc_weight b w ?x ?y < CCH_WEIGHT_OVERFLOW" using ok by (simp add: arc_ok_def)
      then have fin: "arc_weight b w ?x v < CCH_WEIGHT_OVERFLOW" "arc_weight b w v ?y < CCH_WEIGHT_OVERFLOW"
        using tri add_cch_finite[of "arc_weight b w ?x v" "arc_weight b w v ?y"] by (simp_all add: triangle_of_def)
      have oks: "\<forall>p\<in>set (?l # ?r # rest). arc_ok b ups downs w (resolve b p)"
        using rest_ok tri fin by (auto simp: arc_ok_def la ra triangle_of_def)
      have lower: "edge_rank b ! v < edge_rank b ! ?x" "edge_rank b ! v < edge_rank b ! ?y"
        using tri hierarchyD(5)[OF h, of ?x v] nth_mem[of left downs] by (auto simp: triangle_of_def)
      have "(mset (map (\<lambda>p. arc_level b (resolve b p)) (?l # ?r # rest)),
          mset (map (\<lambda>p. arc_level b (resolve b p)) stack)) \<in> mult1 less_than"
      proof -
        have "mset (map (\<lambda>p. arc_level b (resolve b p)) (?l # ?r # rest))
            = mset (map (\<lambda>p. arc_level b (resolve b p)) rest) + {#edge_rank b ! v, edge_rank b ! v#}"
          using lower by (simp add: arc_level_def la ra min_def)
        moreover have "mset (map (\<lambda>p. arc_level b (resolve b p)) stack)
            = add_mset (arc_level b ?a) (mset (map (\<lambda>p. arc_level b (resolve b p)) rest))" by (simp add: Cons)
        moreover have "edge_rank b ! v < arc_level b ?a" using lower by (simp add: arc_level_def)
        ultimately show ?thesis by (intro mult1I[of _ "arc_level b ?a"]) auto
      qed
      then obtain t' qs where r: "unpack_loop b (ranked_build b w) t1 (?l # ?r # rest) out = Some (t', out @ concat qs)"
        "table_ok b ups downs w t'" "list_all2 (\<lambda>p q. unpacked b w base (resolve b p) q) (?l # ?r # rest) qs"
        using 1(1)[OF _ oks m(2)] by blast
      then obtain q1 q2 qs' where qs: "qs = q1 # q2 # qs'" "unpacked b w base (resolve b ?l) q1"
        "unpacked b w base (resolve b ?r) q2" "list_all2 (\<lambda>p q. unpacked b w base (resolve b p) q) rest qs'"
        by (auto simp: list_all2_Cons1)
      have "unpacked b w base ?a (q1 @ q2)"
        using qs(2,3) unpacked_append[of q1 v base ?x "arc_weight b w ?x v" q2 "arc_weight b w v ?y"] tri
        by (simp add: unpacked_def la ra triangle_of_def)
      then show ?thesis using r m(1) wit Cons qs(1,4)
        by (intro exI[of _ t'] exI[of _ "(q1 @ q2) # qs'"]) (simp add: unpack_loop_unfold)
    qed
  qed
qed

lemma push_unpacked_arc_spec:
  assumes "unpackable n b ups downs w base" "arc_ok b ups downs w a" "table_ok b ups downs w t"
  shows "\<exists>t' q. push_unpacked_arc b (ranked_build b w) t a out = Some (t', out @ q) \<and> table_ok b ups downs w t'
    \<and> unpacked b w base a q"
proof -
  let ?p = "\<lparr>pending_upward = is_upward a, pending_slot = arc_slot a, pending_at = Tail_State (arc_tail a)\<rparr>"
  have r: "resolve b ?p = a" by (cases a) (simp add: resolve_def resolve_tail_def)
  then show ?thesis
    using unpack_loop_spec[OF assms(1), of "[?p]" t out] assms(2,3) unfolding push_unpacked_arc_def
    by (auto simp: list_all2_Cons1)
qed

end
