(* ===== verification/Cch_Route.thy ===== *)
theory Cch_Route
  imports Cch_Query_Exact Cch_Unpack Cch_Tasks
begin

text \<open>
  The whole route query: search, reconstruction of the meeting path and unpacking, and its
  correctness against the legal transitions. The returned edges are a path of transitions from an
  origin seed to a destination seed, and no other such path is cheaper.
\<close>

section \<open>Reconstruction\<close>

record acceleration_graph =
  graph_source :: acceleration_bundle
  graph_ranked :: ranked_cch
  graph_unpack :: unpack_table

record route_path =
  edge_indexes :: "nat list"
  total_generalized_cost :: cost

text \<open>The climb to the meeting rank, collected from its top; \<open>None\<close> is a failed \<open>expect\<close>.\<close>

partial_function (option) forward_arcs :: "acceleration_bundle \<Rightarrow> cch_label list \<Rightarrow> nat \<Rightarrow> hierarchy_arc list \<Rightarrow>
    (hierarchy_arc list \<times> nat) option" where
  "forward_arcs b ls cursor arcs = (case label_parent (ls ! cursor) Forward of
       None \<Rightarrow> Some (arcs, cursor)
     | Some parent \<Rightarrow> (case upward_arc_slot b (edge_order b ! parent) (edge_order b ! cursor) of
           None \<Rightarrow> None
         | Some slot \<Rightarrow> forward_arcs b ls parent
             (arcs @ [\<lparr>is_upward = True, arc_tail = edge_order b ! parent, arc_slot = slot\<rparr>])))"

fun push_arcs :: "acceleration_bundle \<Rightarrow> ranked_cch \<Rightarrow> unpack_table \<Rightarrow> nat list \<Rightarrow> hierarchy_arc list \<Rightarrow>
    (unpack_table \<times> nat list) option" where
  "push_arcs b c t out [] = Some (t, out)"
| "push_arcs b c t out (a # as) = (case push_unpacked_arc b c t a out of
       None \<Rightarrow> None | Some (t', out') \<Rightarrow> push_arcs b c t' out' as)"

partial_function (option) backward_arcs :: "acceleration_bundle \<Rightarrow> ranked_cch \<Rightarrow> cch_label list \<Rightarrow> unpack_table \<Rightarrow>
    nat \<Rightarrow> nat list \<Rightarrow> (unpack_table \<times> nat list) option" where
  "backward_arcs b c ls t cursor out = (case label_parent (ls ! cursor) Backward of
       None \<Rightarrow> Some (t, out)
     | Some parent \<Rightarrow> (case downward_arc_slot b (edge_order b ! cursor) (edge_order b ! parent) of
           None \<Rightarrow> None
         | Some slot \<Rightarrow> (case push_unpacked_arc b c t
               \<lparr>is_upward = False, arc_tail = edge_order b ! cursor, arc_slot = slot\<rparr> out of
               None \<Rightarrow> None
             | Some (t', out') \<Rightarrow> backward_arcs b c ls t' parent out')))"

definition reconstruct_pairwise_path :: "acceleration_graph \<Rightarrow> cch_label list \<Rightarrow> nat \<Rightarrow> cost \<Rightarrow>
    (acceleration_graph \<times> route_path) option" where
  "reconstruct_pairwise_path g ls meeting_rank total_cost =
     (let b = graph_source g; c = graph_ranked g
      in case forward_arcs b ls meeting_rank [] of None \<Rightarrow> None
         | Some (arcs, root_rank) \<Rightarrow>
             (case push_arcs b c (graph_unpack g) [edge_order b ! root_rank] (rev arcs) of None \<Rightarrow> None
              | Some (t, out) \<Rightarrow> (case backward_arcs b c ls t meeting_rank out of None \<Rightarrow> None
                 | Some (t', out') \<Rightarrow> Some (g\<lparr>graph_unpack := t'\<rparr>,
                     \<lparr>edge_indexes = out', total_generalized_cost = total_cost\<rparr>))))"

definition accelerated_route_query_seeded :: "acceleration_graph option \<Rightarrow> (nat \<times> cost) list \<Rightarrow> (nat \<times> cost) list \<Rightarrow>
    route_path option \<Rightarrow> query_scratch \<Rightarrow> (acceleration_graph option \<times> query_scratch \<times> route_path option) option" where
  "accelerated_route_query_seeded acceleration origin destination initial_path s =
     (case acceleration of None \<Rightarrow> Some (None, s, None)
      | Some g \<Rightarrow>
          (case run_query (graph_source g) (graph_ranked g) origin destination
              (case initial_path of None \<Rightarrow> Infinite | Some p \<Rightarrow> total_generalized_cost p) s of
             None \<Rightarrow> None
           | Some q \<Rightarrow> (case best_rank q of
                 None \<Rightarrow> Some (acceleration, scratch q, initial_path)
               | Some meeting_rank \<Rightarrow>
                   (case reconstruct_pairwise_path g (labels (scratch q)) meeting_rank (best_cost q) of
                      None \<Rightarrow> None
                    | Some (g', p) \<Rightarrow> Some (Some g', scratch q, Some p)))))"

section \<open>Costs of paths\<close>

fun travel :: "(nat \<Rightarrow> nat \<Rightarrow> u32) \<Rightarrow> nat list \<Rightarrow> cost" where
  "travel w (x # y # p) = decoded (w x y) + travel w (y # p)"
| "travel w p = Cost 0"

lemma travel_append: "travel w (x # p @ q) = travel w (x # p) + travel w (last (x # p) # q)"
proof (induction p arbitrary: x)
  case Nil
  then show ?case by (cases "travel w (x # q)") simp_all
qed (simp add: add.assoc)

lemma decoded_finite: "v < CCH_WEIGHT_OVERFLOW \<Longrightarrow> decoded v = Cost (of_nat (unat v) / 1024)"
  by (simp add: decoded_def decode_cch_weight_def not_le)

lemma decoded_Cost: "decoded v = Cost x \<Longrightarrow> v < CCH_WEIGHT_OVERFLOW \<and> x = of_nat (unat v) / 1024"
  by (auto simp: decoded_def decode_cch_weight_def split: if_splits)

lemma travel_of_cost: "cch.cost w p < CCH_WEIGHT_OVERFLOW \<Longrightarrow> travel w p = Cost (of_nat (unat (cch.cost w p)) / 1024)"
proof (induction w p rule: travel.induct)
  case (1 w x y p)
  let ?a = "w x y" and ?r = "cch.cost w (y # p)"
  have f: "add_cch_weights ?a ?r < CCH_WEIGHT_OVERFLOW" using "1.prems" by simp
  then have "?a < CCH_WEIGHT_OVERFLOW" "?r < CCH_WEIGHT_OVERFLOW" using add_cch_finite by blast+
  moreover have "unat (add_cch_weights ?a ?r) = unat ?a + unat ?r" using f
    by (auto simp: word_less_nat_alt unat_add_cch_weights split: if_splits)
  ultimately show ?case using 1 by (simp add: decoded_finite field_simps)
qed simp_all

lemma cost_of_travel:
  "travel w p = Cost d \<Longrightarrow> d * 1024 < 2 ^ 32 - 2 \<Longrightarrow> cch.cost w p < CCH_WEIGHT_OVERFLOW \<and> d = of_nat (unat (cch.cost w p)) / 1024"
proof (induction w p arbitrary: d rule: travel.induct)
  case (1 w x y p)
  obtain a where a: "decoded (w x y) = Cost a" using "1.prems"(1) by (cases "decoded (w x y)") simp_all
  obtain r where r: "travel w (y # p) = Cost r" using "1.prems"(1) by (cases "travel w (y # p)") (simp_all add: a)
  have d: "d = a + r" using "1.prems"(1) a r by simp
  note da = decoded_Cost[OF a]
  have "0 \<le> a" by (rule decoded_nonneg[OF a])
  then have "r * 1024 < 2 ^ 32 - 2" using "1.prems"(2) d by linarith
  note ih = 1(1)[OF r this]
  let ?r = "cch.cost w (y # p)"
  have "of_nat (unat (w x y) + unat ?r) = d * (1024 :: rat)" using d da ih by (simp add: field_simps)
  then have "of_nat (unat (w x y) + unat ?r) < (of_nat (2 ^ 32 - 2) :: rat)" using "1.prems"(2) by simp
  then have s: "unat (w x y) + unat ?r < 2 ^ 32 - 2" by (simp only: of_nat_less_iff)
  then have u: "unat (add_cch_weights (w x y) ?r) = unat (w x y) + unat ?r" by (simp add: unat_add_cch_weights)
  then show ?case using s d da ih by (simp add: word_less_nat_alt field_simps)
qed (auto simp: word_less_nat_alt)


section \<open>From labels to arcs to transitions\<close>

fun arc_chain :: "acceleration_bundle \<Rightarrow> (nat \<times> nat) list \<Rightarrow> (nat \<times> nat) list \<Rightarrow> metric_weights \<Rightarrow> nat \<Rightarrow>
    hierarchy_arc list \<Rightarrow> nat \<Rightarrow> rat \<Rightarrow> bool" where
  "arc_chain b ups downs w x [] y d \<longleftrightarrow> x = y \<and> d = 0"
| "arc_chain b ups downs w x (a # as) y d \<longleftrightarrow> arc_ok b ups downs w a \<and> arc_tail a = x
     \<and> (\<exists>e. decoded (arc_weight b w x (arc_head b a)) = Cost e \<and> arc_chain b ups downs w (arc_head b a) as y (d - e))"

lemma arc_chain_snoc:
  "arc_chain b ups downs w x as y d \<Longrightarrow> arc_ok b ups downs w a \<Longrightarrow> arc_tail a = y \<Longrightarrow>
    decoded (arc_weight b w y (arc_head b a)) = Cost e \<Longrightarrow> arc_chain b ups downs w x (as @ [a]) (arc_head b a) (d + e)"
proof (induction "as" arbitrary: x d)
  case (Cons a' as)
  then obtain e' where e': "decoded (arc_weight b w x (arc_head b a')) = Cost e'"
    "arc_chain b ups downs w (arc_head b a') as y (d - e')" by auto
  have "arc_chain b ups downs w (arc_head b a') (as @ [a]) (arc_head b a) (d - e' + e)"
    using Cons.IH[OF e'(2) Cons.prems(2-4)] .
  then show ?case using Cons.prems(1) e'(1) by (simp add: algebra_simps)
qed auto

lemma unpacked_travel:
  assumes "unpacked b w base a q" "arc_ok b ups downs w a"
  shows "travel base (arc_tail a # q) = decoded (arc_weight b w (arc_tail a) (arc_head b a))"
    "last (arc_tail a # q) = arc_head b a"
  using assms travel_of_cost[of base "arc_tail a # q"] by (simp_all add: unpacked_def arc_ok_def decoded_finite)

lemma push_arcs_spec:
  assumes "unpackable n b ups downs w base"
  shows "table_ok b ups downs w t \<Longrightarrow> arc_chain b ups downs w x as y d \<Longrightarrow>
    \<exists>t' q. push_arcs b (ranked_build b w) t out as = Some (t', out @ q) \<and> table_ok b ups downs w t'
      \<and> travel base (x # q) = Cost d \<and> last (x # q) = y"
proof (induction "as" arbitrary: t out x d)
  case Nil
  then show ?case by simp
next
  case (Cons a as)
  obtain e where a: "arc_ok b ups downs w a" "arc_tail a = x" "decoded (arc_weight b w x (arc_head b a)) = Cost e"
    "arc_chain b ups downs w (arc_head b a) as y (d - e)" using Cons.prems(2) by auto
  obtain t1 q1 where u: "push_unpacked_arc b (ranked_build b w) t a out = Some (t1, out @ q1)"
    "table_ok b ups downs w t1" "unpacked b w base a q1"
    using push_unpacked_arc_spec[OF assms a(1) Cons.prems(1)] by blast
  obtain t2 q2 where r: "push_arcs b (ranked_build b w) t1 (out @ q1) as = Some (t2, (out @ q1) @ q2)"
    "table_ok b ups downs w t2" "travel base (arc_head b a # q2) = Cost (d - e)" "last (arc_head b a # q2) = y"
    using Cons.IH[OF u(2) a(4)] by blast
  note ut = unpacked_travel[OF u(3) a(1), unfolded a(2)]
  have "travel base (x # q1 @ q2) = Cost d"
    unfolding travel_append ut r(3) a(3) by simp
  moreover have "last (x # q1 @ q2) = y" using ut(2) r(4) u(3) by (cases q2) (auto simp: unpacked_def)
  ultimately show ?case using u(1) r(1,2) by auto
qed

lemma forward_arcs_spec:
  assumes "hierarchy n b ups downs" "weight_shape b w"
    "sound_labels n (hierarchy_rows (ranked_build b w)) S s"
  shows "cursor < n \<Longrightarrow> label_at s Forward cursor = Cost f \<Longrightarrow>
    \<exists>as apex s0 d. forward_arcs b (labels s) cursor acc = Some (acc @ as, apex) \<and> apex < n
      \<and> arc_chain b ups downs w (edge_order b ! apex) (rev as) (edge_order b ! cursor) d
      \<and> (apex, Cost s0) \<in> S Forward \<and> s0 + d \<le> f"
proof (induction cursor arbitrary: f acc rule: less_induct)
  case (less r)
  have ex: "explained (hierarchy_rows (ranked_build b w)) S s Forward (parent_at s Forward r) r f"
    using assms(3) less.prems unfolding sound_labels_def by blast
  show ?case
  proof (cases "parent_at s Forward r")
    case None
    then have "(r, Cost f) \<in> S Forward" using ex by (simp add: explained_def)
    moreover have "forward_arcs b (labels s) r acc = Some (acc @ [], r)"
      using None by (simp add: forward_arcs.simps[of b "labels s" r])
    ultimately show ?thesis using less.prems(1)
      by (intro exI[of _ "[]"] exI[of _ r] exI[of _ f] exI[of _ 0]) simp
  next
    case (Some p)
    then obtain g v x where l: "p < r" "label_at s Forward p = Cost g"
      "(r, v) \<in> set (upward_row (ranked_build b w) p)" "decoded v = Cost x" "g + x \<le> f"
      using ex by (auto simp: explained_def linked_def hierarchy_rows_def)
    have p: "p < n" using l(1) less.prems(1) by simp
    have row: "(edge_order b ! p, edge_order b ! r) \<in> set ups" "v = arc_weight b w (edge_order b ! p) (edge_order b ! r)"
      using upward_row_set[OF assms(1,2) p, of r v] l(3) by simp_all
    note o = hierarchy_order(2)[OF assms(1)]
    obtain slot where slot: "slot < length ups" "ups ! slot = (edge_order b ! p, edge_order b ! r)"
      using row(1) by (metis in_set_conv_nth)
    let ?a = "\<lparr>is_upward = True, arc_tail = edge_order b ! p, arc_slot = slot\<rparr>"
    have find: "upward_arc_slot b (edge_order b ! p) (edge_order b ! r) = Some slot"
      using upward_slot_iff(1)[OF assms(1) o[OF p]] slot by simp
    have head: "arc_head b ?a = edge_order b ! r" using assms(1) slot by (simp add: arc_head_def hierarchy_def)
    have ok: "arc_ok b ups downs w ?a"
      using slot decoded_Cost[OF l(4)] row(2) by (simp add: arc_ok_def head)
    obtain as apex s0 d where ih: "forward_arcs b (labels s) p (acc @ [?a]) = Some ((acc @ [?a]) @ as, apex)" "apex < n"
      "arc_chain b ups downs w (edge_order b ! apex) (rev as) (edge_order b ! p) d" "(apex, Cost s0) \<in> S Forward" "s0 + d \<le> g"
      using less.IH[OF l(1) p l(2), of "acc @ [?a]"] by blast
    have "arc_chain b ups downs w (edge_order b ! apex) (rev (?a # as)) (edge_order b ! r) (d + x)"
      using arc_chain_snoc[OF ih(3) ok, of x] l(4) row(2) head by simp
    moreover have "forward_arcs b (labels s) r acc = Some (acc @ (?a # as), apex)"
      using Some find ih(1) by (simp add: forward_arcs.simps[of b "labels s" r])
    moreover have "s0 + (d + x) \<le> f" using ih(5) l(5) by linarith
    ultimately show ?thesis using ih(2,4) by blast
  qed
qed

lemma backward_arcs_spec:
  assumes "unpackable n b ups downs w base" "sound_labels n (hierarchy_rows (ranked_build b w)) S s"
  shows "cursor < n \<Longrightarrow> label_at s Backward cursor = Cost f \<Longrightarrow> table_ok b ups downs w t \<Longrightarrow>
    \<exists>t' q apex s1 d. backward_arcs b (ranked_build b w) (labels s) t cursor out = Some (t', out @ q) \<and> table_ok b ups downs w t'
      \<and> apex < n \<and> travel base (edge_order b ! cursor # q) = Cost d \<and> last (edge_order b ! cursor # q) = edge_order b ! apex
      \<and> (apex, Cost s1) \<in> S Backward \<and> s1 + d \<le> f"
proof (induction cursor arbitrary: f t out rule: less_induct)
  case (less r)
  have h: "hierarchy n b ups downs" using assms(1) by (simp add: unpackable_def)
  have ex: "explained (hierarchy_rows (ranked_build b w)) S s Backward (parent_at s Backward r) r f"
    using assms(2) less.prems unfolding sound_labels_def by blast
  show ?case
  proof (cases "parent_at s Backward r")
    case None
    then have "(r, Cost f) \<in> S Backward" using ex by (simp add: explained_def)
    moreover have "backward_arcs b (ranked_build b w) (labels s) t r out = Some (t, out @ [])"
      using None by (simp add: backward_arcs.simps[of b _ "labels s" t r])
    ultimately show ?thesis using less.prems(1,3)
      by (intro exI[of _ t] exI[of _ "[]"] exI[of _ r] exI[of _ f] exI[of _ 0]) simp
  next
    case (Some p)
    then obtain g v x where l: "p < r" "label_at s Backward p = Cost g"
      "(r, v) \<in> set (downward_row (ranked_build b w) p)" "decoded v = Cost x" "g + x \<le> f"
      using ex by (auto simp: explained_def linked_def hierarchy_rows_def)
    have p: "p < n" using l(1) less.prems(1) by simp
    have row: "(edge_order b ! r, edge_order b ! p) \<in> set downs" "v = arc_weight b w (edge_order b ! r) (edge_order b ! p)"
      using downward_row_set[OF h p, of r v w] l(3) by simp_all
    note o = hierarchy_order(2)[OF h]
    obtain slot where slot: "slot < length downs" "downs ! slot = (edge_order b ! r, edge_order b ! p)"
      using row(1) by (metis in_set_conv_nth)
    let ?a = "\<lparr>is_upward = False, arc_tail = edge_order b ! r, arc_slot = slot\<rparr>"
    have find: "downward_arc_slot b (edge_order b ! r) (edge_order b ! p) = Some slot"
      using upward_slot_iff(2)[OF h o[OF less.prems(1)]] slot by simp
    have head: "arc_head b ?a = edge_order b ! p" using h slot by (simp add: arc_head_def hierarchy_def)
    have ok: "arc_ok b ups downs w ?a"
      using slot decoded_Cost[OF l(4)] row(2) by (simp add: arc_ok_def head)
    obtain t1 q1 where u: "push_unpacked_arc b (ranked_build b w) t ?a out = Some (t1, out @ q1)"
      "table_ok b ups downs w t1" "unpacked b w base ?a q1"
      using push_unpacked_arc_spec[OF assms(1) ok less.prems(3)] by blast
    obtain t2 q2 apex s1 d where ih: "backward_arcs b (ranked_build b w) (labels s) t1 p (out @ q1) = Some (t2, (out @ q1) @ q2)"
      "table_ok b ups downs w t2" "apex < n" "travel base (edge_order b ! p # q2) = Cost d"
      "last (edge_order b ! p # q2) = edge_order b ! apex" "(apex, Cost s1) \<in> S Backward" "s1 + d \<le> g"
      using less.IH[OF l(1) p l(2) u(2), of "out @ q1"] by blast
    note ut = unpacked_travel[OF u(3) ok, unfolded head, simplified]
    have q1: "q1 \<noteq> []" "last q1 = edge_order b ! p" using u(3) head by (simp_all add: unpacked_def)
    have "travel base (edge_order b ! r # q1 @ q2) = Cost (x + d)"
      unfolding travel_append using ut ih(4) l(4) row(2) q1 by simp
    moreover have "last (edge_order b ! r # q1 @ q2) = edge_order b ! apex"
      using ih(5) q1 by (cases q2) auto
    moreover have "backward_arcs b (ranked_build b w) (labels s) t r out = Some (t2, out @ q1 @ q2)"
      using Some find u(1) ih(1) by (simp add: backward_arcs.simps[of b _ "labels s" t r])
    moreover have "s1 + (x + d) \<le> f" using ih(7) l(5) by linarith
    ultimately show ?thesis using ih(2,3,6) by blast
  qed
qed


section \<open>Climbs along a straightened path\<close>

lemma arc_in_rows:
  assumes "hierarchy n b ups downs" "weight_shape b w" "decoded (arc_weight b w x y) = Cost e"
  shows "edge_rank b ! x < edge_rank b ! y \<Longrightarrow>
      (edge_rank b ! y, arc_weight b w x y) \<in> set (hierarchy_rows (ranked_build b w) Forward (edge_rank b ! x))"
    "edge_rank b ! y < edge_rank b ! x \<Longrightarrow>
      (edge_rank b ! x, arc_weight b w x y) \<in> set (hierarchy_rows (ranked_build b w) Backward (edge_rank b ! y))"
proof -
  have "arc_weight b w x y \<noteq> CCH_WEIGHT_INFINITY"
    using decoded_Cost[OF assms(3)] by (auto simp: word_less_nat_alt)
  then have mem: "(x, y) \<in> set ups \<union> set downs"
    using arc_weight_supported[OF assms(1), of w] unfolding cch.supported_def by blast
  then have n: "x < n" "y < n" using hierarchyD(4,5)[OF assms(1)] by blast+
  note o = hierarchy_order(4,5)[OF assms(1)]
  show "(edge_rank b ! y, arc_weight b w x y) \<in> set (hierarchy_rows (ranked_build b w) Forward (edge_rank b ! x))"
    if "edge_rank b ! x < edge_rank b ! y"
  proof -
    have "(x, y) \<in> set ups" using mem that hierarchyD(5)[OF assms(1), of x y] by auto
    then show ?thesis using n o upward_row_set[OF assms(1,2)] by (simp add: hierarchy_rows_def)
  qed
  show "(edge_rank b ! x, arc_weight b w x y) \<in> set (hierarchy_rows (ranked_build b w) Backward (edge_rank b ! y))"
    if "edge_rank b ! y < edge_rank b ! x"
  proof -
    have "(x, y) \<in> set downs" using mem that hierarchyD(4)[OF assms(1), of x y] by auto
    then show ?thesis using n o downward_row_set[OF assms(1)] by (simp add: hierarchy_rows_def)
  qed
qed

lemma travel_Cons_Cost:
  "travel w (x # y # q) = Cost d \<Longrightarrow> \<exists>e. decoded (w x y) = Cost e \<and> travel w (y # q) = Cost (d - e)"
  by (cases "decoded (w x y)"; cases "travel w (y # q)") auto

lemma descending_climb:
  assumes "hierarchy n b ups downs" "weight_shape b w"
  shows "descending ((!) (edge_rank b)) (x # q) \<Longrightarrow> travel (arc_weight b w) (x # q) = Cost d \<Longrightarrow>
    climbs (hierarchy_rows (ranked_build b w)) Backward S (edge_rank b ! last (x # q)) c \<Longrightarrow>
    climbs (hierarchy_rows (ranked_build b w)) Backward S (edge_rank b ! x) (c + d)"
proof (induction q arbitrary: x d)
  case (Cons y q)
  obtain e where e: "decoded (arc_weight b w x y) = Cost e" "travel (arc_weight b w) (y # q) = Cost (d - e)"
    using travel_Cons_Cost[OF Cons.prems(2)] by blast
  have "climbs (hierarchy_rows (ranked_build b w)) Backward S (edge_rank b ! y) (c + (d - e))"
    using Cons.IH[OF _ e(2)] Cons.prems(1,3) by simp
  from climbs.arc[OF this arc_in_rows(2)[OF assms e(1)] e(1)] show ?case using Cons.prems(1) by simp
qed simp

lemma up_down_climbs:
  assumes "hierarchy n b ups downs" "weight_shape b w"
  shows "up_down ((!) (edge_rank b)) (x # q) \<Longrightarrow> travel (arc_weight b w) (x # q) = Cost d \<Longrightarrow>
    climbs (hierarchy_rows (ranked_build b w)) Forward S (edge_rank b ! x) c \<Longrightarrow>
    climbs (hierarchy_rows (ranked_build b w)) Backward T (edge_rank b ! last (x # q)) c' \<Longrightarrow>
    \<exists>m a a'. climbs (hierarchy_rows (ranked_build b w)) Forward S m a \<and>
      climbs (hierarchy_rows (ranked_build b w)) Backward T m a' \<and> a + a' = c + d + c'"
proof (induction q arbitrary: x d c)
  case Nil
  then show ?case by (intro exI[of _ "edge_rank b ! x"] exI[of _ c] exI[of _ c']) simp
next
  case (Cons y q)
  show ?case
  proof (cases "descending ((!) (edge_rank b)) (x # y # q)")
    case True
    have "climbs (hierarchy_rows (ranked_build b w)) Backward T (edge_rank b ! x) (c' + d)"
      by (rule descending_climb[OF assms True Cons.prems(2,4)])
    then show ?thesis using Cons.prems(3)
      by (intro exI[of _ "edge_rank b ! x"] exI[of _ c] exI[of _ "c' + d"]) simp
  next
    case False
    then have u: "edge_rank b ! x < edge_rank b ! y" "up_down ((!) (edge_rank b)) (y # q)" using Cons.prems(1) by auto
    obtain e where e: "decoded (arc_weight b w x y) = Cost e" "travel (arc_weight b w) (y # q) = Cost (d - e)"
      using travel_Cons_Cost[OF Cons.prems(2)] by blast
    have "climbs (hierarchy_rows (ranked_build b w)) Forward S (edge_rank b ! y) (c + e)"
      by (rule climbs.arc[OF Cons.prems(3) arc_in_rows(1)[OF assms e(1) u(1)] e(1)])
    from Cons.IH[OF u(2) e(2) this] Cons.prems(4) show ?thesis by simp
  qed
qed

section \<open>The query\<close>

text \<open>A customized graph: what building, customizing and renumbering establish.\<close>

definition ready :: "nat \<Rightarrow> acceleration_bundle \<Rightarrow> (nat \<times> nat) list \<Rightarrow> (nat \<times> nat) list \<Rightarrow> metric_weights \<Rightarrow>
    (nat \<Rightarrow> nat \<Rightarrow> u32) \<Rightarrow> bool" where
  "ready n b ups downs w base \<longleftrightarrow> unpackable n b ups downs w base
     \<and> (\<forall>x p y. path_from_to x p y \<longrightarrow> set p \<subseteq> {0..<n} \<longrightarrow>
          (\<exists>q. up_down ((!) (edge_rank b)) q \<and> path_from_to x q y \<and> set q \<subseteq> {0..<n}
            \<and> cch.cost (arc_weight b w) q \<le> cch.cost base p))"

text \<open>A route between the seeds: a path of transitions with its cost. Its transitions together stay
  below the overflow weight.\<close>

definition route :: "nat \<Rightarrow> (nat \<Rightarrow> nat \<Rightarrow> u32) \<Rightarrow> (nat \<times> cost) list \<Rightarrow> (nat \<times> cost) list \<Rightarrow> nat list \<Rightarrow> rat \<Rightarrow> bool" where
  "route n base origin destination p c \<longleftrightarrow> p \<noteq> [] \<and> set p \<subseteq> {0..<n}
     \<and> (\<exists>s0 s1 d. (hd p, Cost s0) \<in> set origin \<and> (last p, Cost s1) \<in> set destination
          \<and> travel base p = Cost d \<and> d * 1024 < 2 ^ 32 - 2 \<and> c = s0 + d + s1)"

lemma ranked_rows_ok:
  assumes "hierarchy n b ups downs" "weight_shape b w"
  shows "rows_ok n (hierarchy_rows (ranked_build b w))"
  unfolding rows_ok_def
proof (intro allI impI)
  fix d r h v
  assume r: "r < n" and m: "(h, v) \<in> set (hierarchy_rows (ranked_build b w) d r)"
  note o = hierarchy_order(3)[OF assms(1)]
  show "r < h \<and> h < n"
  proof (cases d)
    case Forward
    then have a: "h < n" "(edge_order b ! r, edge_order b ! h) \<in> set ups"
      using m upward_row_set[OF assms r] by (simp_all add: hierarchy_rows_def)
    then show ?thesis using hierarchyD(4)[OF assms(1) a(2)] o[OF r] o[OF a(1)] by simp
  next
    case Backward
    then have a: "h < n" "(edge_order b ! h, edge_order b ! r) \<in> set downs"
      using m downward_row_set[OF assms(1) r] by (simp_all add: hierarchy_rows_def)
    then show ?thesis using hierarchyD(5)[OF assms(1) a(2)] o[OF r] o[OF a(1)] by simp
  qed
qed

lemma fold_min_le: "foldl min (z::cost) xs \<le> z \<and> (\<forall>x\<in>set xs. foldl min z xs \<le> x)"
proof (induction xs rule: rev_induct)
  case (snoc x xs)
  then show ?case by (auto intro: min.coboundedI1)
qed simp

lemma minimum_seed_cost_le: "(e, c) \<in> set seeds \<Longrightarrow> minimum_seed_cost seeds \<le> c"
proof (cases c)
  case (Cost x)
  assume "(e, c) \<in> set seeds"
  then have "c \<in> set (filter (\<lambda>c. c \<noteq> Infinite) (map snd seeds))" using Cost by force
  then show ?thesis using fold_min_le unfolding minimum_seed_cost_def by blast
qed simp


definition seeds_in :: "nat \<Rightarrow> (nat \<times> cost) list \<Rightarrow> bool" where
  "seeds_in n seeds \<longleftrightarrow> (\<forall>(e, c)\<in>set seeds. e < n)"

text \<open>What the answer is: a real path between seeds that costs no more than the total claims.\<close>

definition real_path :: "(nat \<Rightarrow> nat \<Rightarrow> u32) \<Rightarrow> (nat \<times> cost) list \<Rightarrow> (nat \<times> cost) list \<Rightarrow> nat list \<Rightarrow> rat \<Rightarrow> bool" where
  "real_path base origin destination p c \<longleftrightarrow> p \<noteq> []
     \<and> (\<exists>s0 s1 d. (hd p, Cost s0) \<in> set origin \<and> (last p, Cost s1) \<in> set destination
          \<and> travel base p = Cost d \<and> c = s0 + d + s1)"

lemma ranked_seed_edge:
  assumes "hierarchy n b ups downs" "seeds_in n seeds" "(apex, c) \<in> ranked_seeds b seeds"
  shows "(edge_order b ! apex, c) \<in> set seeds"
proof -
  obtain e where e: "(e, c) \<in> set seeds" "apex = edge_rank b ! e" using assms(3) by (auto simp: ranked_seeds_def)
  then have "e < n" using assms(2) by (auto simp: seeds_in_def)
  then show ?thesis using e hierarchy_order(5)[OF assms(1)] by simp
qed

lemma reconstruct_spec:
  assumes "unpackable n b ups downs w base" "seeds_in n origin" "seeds_in n destination"
    "sound_labels n (hierarchy_rows (ranked_build b w)) (both_seeds b origin destination) s"
    "table_ok b ups downs w t" "r < n" "label_at s Forward r = Cost f" "label_at s Backward r = Cost h"
  defines "g \<equiv> \<lparr>graph_source = b, graph_ranked = ranked_build b w, graph_unpack = t\<rparr>"
  shows "\<exists>t' p c. reconstruct_pairwise_path g (labels s) r tot = Some (g\<lparr>graph_unpack := t'\<rparr>,
      \<lparr>edge_indexes = p, total_generalized_cost = tot\<rparr>) \<and> table_ok b ups downs w t'
      \<and> real_path base origin destination p c \<and> c \<le> f + h"
proof -
  have hi: "hierarchy n b ups downs" "weight_shape b w" using assms(1) by (simp_all add: unpackable_def)
  obtain as apex s0 d where fw: "forward_arcs b (labels s) r [] = Some (as, apex)" "apex < n"
    "arc_chain b ups downs w (edge_order b ! apex) (rev as) (edge_order b ! r) d"
    "(apex, Cost s0) \<in> both_seeds b origin destination Forward" "s0 + d \<le> f"
    using forward_arcs_spec[OF hi assms(4,6,7), of "[]"] by auto
  obtain t1 q1 where pu: "push_arcs b (ranked_build b w) t [edge_order b ! apex] (rev as) = Some (t1, [edge_order b ! apex] @ q1)"
    "table_ok b ups downs w t1" "travel base (edge_order b ! apex # q1) = Cost d" "last (edge_order b ! apex # q1) = edge_order b ! r"
    using push_arcs_spec[OF assms(1,5) fw(3), of "[edge_order b ! apex]"] by blast
  obtain t2 q2 apex' s1 d' where bw: "backward_arcs b (ranked_build b w) (labels s) t1 r ([edge_order b ! apex] @ q1)
      = Some (t2, ([edge_order b ! apex] @ q1) @ q2)" "table_ok b ups downs w t2" "apex' < n"
    "travel base (edge_order b ! r # q2) = Cost d'" "last (edge_order b ! r # q2) = edge_order b ! apex'"
    "(apex', Cost s1) \<in> both_seeds b origin destination Backward" "s1 + d' \<le> h"
    using backward_arcs_spec[OF assms(1,4,6,8) pu(2), of "[edge_order b ! apex] @ q1"] by blast
  let ?p = "edge_order b ! apex # q1 @ q2"
  have "travel base ?p = Cost (d + d')" unfolding travel_append pu(3,4) bw(4) by simp
  moreover have "last ?p = edge_order b ! apex'" using pu(4) bw(5) by (cases q2) auto
  moreover have "(edge_order b ! apex, Cost s0) \<in> set origin" "(edge_order b ! apex', Cost s1) \<in> set destination"
    using ranked_seed_edge[OF hi(1) assms(2), of apex "Cost s0"] ranked_seed_edge[OF hi(1) assms(3), of apex' "Cost s1"] fw(4) bw(6)
    by (simp_all add: both_seeds_def)
  ultimately have "real_path base origin destination ?p (s0 + (d + d') + s1)" unfolding real_path_def by force
  moreover have "s0 + (d + d') + s1 \<le> f + h" using fw(5) bw(7) by linarith
  moreover have "reconstruct_pairwise_path g (labels s) r tot
      = Some (g\<lparr>graph_unpack := t2\<rparr>, \<lparr>edge_indexes = ?p, total_generalized_cost = tot\<rparr>)"
    using fw(1) pu(1) bw(1) by (simp add: reconstruct_pairwise_path_def g_def)
  ultimately show ?thesis using bw(2) by blast
qed

lemma route_meets:
  assumes "ready n b ups downs w base" "route n base origin destination p c"
  shows "\<exists>m a a'. climbs (hierarchy_rows (ranked_build b w)) Forward (both_seeds b origin destination Forward) m a
    \<and> climbs (hierarchy_rows (ranked_build b w)) Backward (both_seeds b origin destination Backward) m a' \<and> a + a' \<le> c"
proof -
  have hi: "hierarchy n b ups downs" "weight_shape b w" using assms(1) by (simp_all add: ready_def unpackable_def)
  obtain s0 s1 d where r: "p \<noteq> []" "set p \<subseteq> {0..<n}" "(hd p, Cost s0) \<in> set origin" "(last p, Cost s1) \<in> set destination"
    "travel base p = Cost d" "d * 1024 < 2 ^ 32 - 2" "c = s0 + d + s1" using assms(2) unfolding route_def by blast
  note ct = cost_of_travel[OF r(5,6)]
  have "path_from_to (hd p) p (last p)" using r(1) by (simp add: path_from_to_def)
  then obtain q where q: "up_down ((!) (edge_rank b)) q" "path_from_to (hd p) q (last p)"
    "cch.cost (arc_weight b w) q \<le> cch.cost base p"
    using assms(1) r(2) unfolding ready_def by blast
  have lt: "cch.cost (arc_weight b w) q < CCH_WEIGHT_OVERFLOW" using q(3) ct by (meson le_less_trans)
  let ?e = "of_nat (unat (cch.cost (arc_weight b w) q)) / 1024 :: rat"
  have t: "travel (arc_weight b w) q = Cost ?e" by (rule travel_of_cost[OF lt])
  have le: "?e \<le> d"
  proof -
    have "unat (cch.cost (arc_weight b w) q) \<le> unat (cch.cost base p)" using q(3) by (simp only: word_le_nat_alt)
    then have "(of_nat (unat (cch.cost (arc_weight b w) q)) :: rat) \<le> of_nat (unat (cch.cost base p))" by (rule of_nat_mono)
    then show ?thesis using conjunct2[OF ct] by (metis divide_right_mono zero_le_numeral)
  qed
  obtain q' where q': "q = hd p # q'" "last (hd p # q') = last p"
    using q(2) by (cases q) (auto simp: path_from_to_def)
  have F: "climbs (hierarchy_rows (ranked_build b w)) Forward (both_seeds b origin destination Forward) (edge_rank b ! hd p) s0"
    by (rule climbs.seed) (use r(3) in \<open>force simp: both_seeds_def ranked_seeds_def\<close>)
  have B: "climbs (hierarchy_rows (ranked_build b w)) Backward (both_seeds b origin destination Backward) (edge_rank b ! last (hd p # q')) s1"
    unfolding q'(2) by (rule climbs.seed) (use r(4) in \<open>force simp: both_seeds_def ranked_seeds_def\<close>)
  obtain m a a' where "climbs (hierarchy_rows (ranked_build b w)) Forward (both_seeds b origin destination Forward) m a"
    "climbs (hierarchy_rows (ranked_build b w)) Backward (both_seeds b origin destination Backward) m a'" "a + a' = s0 + ?e + s1"
    using up_down_climbs[OF hi q(1)[unfolded q'(1)] t[unfolded q'(1)] F B] unfolding q'(1) by blast
  then show ?thesis using le r(7) by (intro exI[of _ m] exI[of _ a] exI[of _ a']) simp
qed

lemma query_correct:
  assumes "ready n b ups downs w base" "clean s" "seeds_in n origin" "seeds_in n destination" "table_ok b ups downs w t"
  defines "g \<equiv> \<lparr>graph_source = b, graph_ranked = ranked_build b w, graph_unpack = t\<rparr>"
  shows "\<exists>t' s' res. accelerated_route_query_seeded (Some g) origin destination initial s
      = Some (Some (g\<lparr>graph_unpack := t'\<rparr>), s', res) \<and> clean s' \<and> table_ok b ups downs w t'
    \<and> (case res of
         None \<Rightarrow> initial = None \<and> (\<nexists>p c. route n base origin destination p c)
       | Some r \<Rightarrow> (initial = Some r \<or> (\<exists>c. real_path base origin destination (edge_indexes r) c \<and> Cost c \<le> total_generalized_cost r))
           \<and> (\<forall>p c. route n base origin destination p c \<longrightarrow> total_generalized_cost r \<le> Cost (c + 2 * slack n)))"
proof -
  have u: "unpackable n b ups downs w base" using assms(1) by (simp add: ready_def)
  have hi: "hierarchy n b ups downs" "weight_shape b w" using u by (simp_all add: unpackable_def)
  let ?rows = "hierarchy_rows (ranked_build b w)" and ?S = "both_seeds b origin destination"
  let ?B = "case initial of None \<Rightarrow> Infinite | Some p \<Rightarrow> total_generalized_cost p"
  let ?low = "\<lambda>d. case d of Forward \<Rightarrow> minimum_seed_cost origin | Backward \<Rightarrow> minimum_seed_cost destination"
  note o = hierarchy_order[OF hi(1)] and ro = ranked_rows_ok[OF hi]
  have sin: "\<forall>(e, c)\<in>set origin \<union> set destination. edge_rank b ! e < n"
    using assms(3,4) o(4) by (auto simp: seeds_in_def)
  obtain q where q: "run_query b (ranked_build b w) origin destination ?B s = Some q"
    "query_inv n ?rows ?S ?B q" "query_step b ?rows ?low q = None"
    using query_loop_returns[OF initial_inv[OF assms(2) sin o(1)[symmetric], of ?rows ?B] ro, of b ?low]
    unfolding run_query_def by blast
  have sl: "sound_labels n ?rows ?S (scratch q)" and cl: "clean (scratch q)"
    using q(2) by (simp_all add: query_inv_def sound_labels_def)
  have rank: "\<forall>(r, x)\<in>?S d. r < n" for d
    using sin by (cases d) (auto simp: both_seeds_def ranked_seeds_def)
  have low: "\<forall>(r, x)\<in>?S d. ?low d \<le> x" for d
    using minimum_seed_cost_le by (cases d) (auto simp: both_seeds_def ranked_seeds_def)
  have bound: "best_cost q \<le> Cost (c + 2 * slack n)" if rt: "route n base origin destination p c" for p c
  proof -
    obtain m a a' where m: "climbs ?rows Forward (?S Forward) m a" "climbs ?rows Backward (?S Backward) m a'" "a + a' \<le> c"
      using route_meets[OF assms(1) rt] by blast
    have "best_cost q \<le> Cost (a + a' + 2 * slack m)"
      by (rule meeting_reached[OF q(2) ro rank query_step_None[OF q(3)] low m(1,2)])
    moreover have "m < n" by (rule climb_rank[OF m(1) ro rank])
    then have "slack m \<le> slack n" using slack_mono[of m n] by (simp add: EPSILON_def)
    ultimately show ?thesis using m(3) by (elim order_trans) simp
  qed
  show ?thesis
  proof (cases "best_rank q")
    case None
    then have best: "best_cost q = ?B" using q(2) by (simp add: query_inv_def)
    have "accelerated_route_query_seeded (Some g) origin destination initial s
        = Some (Some (g\<lparr>graph_unpack := t\<rparr>), scratch q, initial)"
      using q(1) None by (simp add: accelerated_route_query_seeded_def g_def)
    moreover have "case initial of
         None \<Rightarrow> initial = None \<and> (\<nexists>p c. route n base origin destination p c)
       | Some r \<Rightarrow> (initial = Some r \<or> (\<exists>c. real_path base origin destination (edge_indexes r) c \<and> Cost c \<le> total_generalized_cost r))
           \<and> (\<forall>p c. route n base origin destination p c \<longrightarrow> total_generalized_cost r \<le> Cost (c + 2 * slack n))"
      using bound best by (cases initial) auto
    ultimately show ?thesis using cl assms(5) by blast
  next
    case (Some r)
    then obtain f h where m: "r < n" "label_at (scratch q) Forward r = Cost f" "label_at (scratch q) Backward r = Cost h"
      "Cost (f + h) \<le> best_cost q"
      using q(2) by (auto simp: query_inv_def)
    obtain t' p c where rec: "reconstruct_pairwise_path g (labels (scratch q)) r (best_cost q) = Some (g\<lparr>graph_unpack := t'\<rparr>,
        \<lparr>edge_indexes = p, total_generalized_cost = best_cost q\<rparr>)" "table_ok b ups downs w t'"
      "real_path base origin destination p c" "c \<le> f + h"
      using reconstruct_spec[OF u assms(3,4) sl assms(5) m(1-3)] unfolding g_def by blast
    have "Cost c \<le> best_cost q" using rec(4) m(4) by (metis cost_order_simps(3) order_trans)
    moreover have "accelerated_route_query_seeded (Some g) origin destination initial s
        = Some (Some (g\<lparr>graph_unpack := t'\<rparr>), scratch q, Some \<lparr>edge_indexes = p, total_generalized_cost = best_cost q\<rparr>)"
      using q(1) Some rec(1) by (simp add: accelerated_route_query_seeded_def g_def)
    ultimately show ?thesis using cl rec(2,3) bound by (intro exI[of _ t'] exI[of _ "scratch q"]
          exI[of _ "Some \<lparr>edge_indexes = p, total_generalized_cost = best_cost q\<rparr>"]) auto
  qed
qed


lemma ready_customized:
  fixes bw :: "nat \<Rightarrow> nat \<Rightarrow> rat option"
  assumes "customizable topo order"
  defines "b \<equiv> build_with_order (edge_based topo) order"
  shows "ready (edge_count (edge_based topo)) b (up_arcs (edge_based topo) order) (down_arcs (edge_based topo) order)
    (customize (customization_context_new threads b topo em mode_bit) b topo bw) (transition_cost topo em mode_bit bw)"
proof -
  let ?t = "edge_based topo" and ?n = "edge_count (edge_based topo)"
  let ?S = "set (up_arcs ?t order) \<union> set (down_arcs ?t order)" and ?c = "transition_cost topo em mode_bit bw"
  let ?ctx = "customization_context_new threads b topo em mode_bit"
  note f = customize_facts(1,2,3)[OF assms(1), folded b_def, where threads = threads and em = em and mode_bit = mode_bit and bw = bw]
    and ms = customize_facts(4,5)[OF assms(1), folded b_def, where threads = threads and em = em and mode_bit = mode_bit]
  have h: "hierarchy ?n b (up_arcs ?t order) (down_arcs ?t order)" "length (up_arcs ?t order) < 2 ^ 31"
    "length (down_arcs ?t order) < 2 ^ 31"
    using customizable_inputs[OF assms(1)] by (simp_all add: inputs_ok_def b_def)
  have s: "cch.supported ?S ?c" using arc_weight_supported[OF h(1)] f(1) by metis
  have inj: "inj_on ((!) (edge_rank b)) {0..<?n}"
    using h(1) by (auto simp: hierarchy_def inj_on_def intro: ranks_inj)
  have "cch.attained ((!) (edge_rank b)) (set (middles ?ctx)) ?c (arc_weight b (customize ?ctx b topo bw))"
    unfolding f(3) by (rule cch.relax_all_attained[OF hierarchy_closed[OF h(1)] s ms(2)])
  moreover have "\<exists>q. up_down ((!) (edge_rank b)) q \<and> path_from_to x q y \<and> set q \<subseteq> {0..<?n}
      \<and> cch.cost (arc_weight b (customize ?ctx b topo bw)) q \<le> cch.cost ?c p"
    if "path_from_to x p y" "set p \<subseteq> {0..<?n}" for x p y
    unfolding f(3) by (rule cch.relax_all_exact(2)[OF hierarchy_closed[OF h(1)] s ms(2) ms(1)[symmetric] inj that])
  ultimately show ?thesis using h f(2) unfolding ready_def unpackable_def by blast
qed

section \<open>Exact costs\<close>

text \<open>Costs in whole ticks of 1/1024.\<close>

definition tick :: "rat \<Rightarrow> bool" where "tick x \<longleftrightarrow> (\<exists>k :: int. x * 1024 = of_int k)"

lemma tick_add: "tick x \<Longrightarrow> tick y \<Longrightarrow> tick (x + y)"
proof -
  assume "tick x" "tick y"
  then obtain k l :: int where "x * 1024 = of_int k" "y * 1024 = of_int l" unfolding tick_def by blast
  then have "(x + y) * 1024 = of_int (k + l)" by (simp add: algebra_simps)
  then show "tick (x + y)" unfolding tick_def by blast
qed

lemma tick_decoded: "decoded v = Cost x \<Longrightarrow> tick x"
proof -
  assume "decoded v = Cost x"
  then have "x * 1024 = of_int (int (unat v))" using decoded_Cost[of v x] by simp
  then show ?thesis unfolding tick_def by blast
qed

lemma tick_travel: "travel w p = Cost d \<Longrightarrow> tick d"
proof (induction w p arbitrary: d rule: travel.induct)
  case (1 w x y p)
  then obtain e where e: "decoded (w x y) = Cost e" "travel w (y # p) = Cost (d - e)" using travel_Cons_Cost by blast
  have "tick (e + (d - e))" by (rule tick_add[OF tick_decoded[OF e(1)] 1(1)[OF e(2)]])
  then show ?case by simp
qed (auto simp: tick_def intro: exI[of _ 0])

lemma slack_below_tick: "n \<le> 2 ^ 40 \<Longrightarrow> 2 * slack n < 1 / 1024"
proof -
  assume "n \<le> 2 ^ 40"
  then have "of_nat (n + 1) \<le> (of_nat (2 ^ 40 + 1) :: rat)" by (intro of_nat_mono) simp
  then show ?thesis by (simp add: slack_def EPSILON_def)
qed

lemma tick_gap:
  assumes "tick x" "tick y" "x \<le> y + 2 * slack n" "n \<le> 2 ^ 40"
  shows "x \<le> y"
proof -
  obtain k l :: int where kl: "x * 1024 = of_int k" "y * 1024 = of_int l" using assms(1,2) unfolding tick_def by blast
  have "of_nat (n + 1) \<le> (of_nat (2 ^ 40 + 1) :: rat)" using assms(4) by (intro of_nat_mono) simp
  then have "2 * slack n \<le> 2 * (2 ^ 40 + 1) * EPSILON" by (simp add: slack_def EPSILON_def)
  then have "2 * slack n * 1024 < 1" by (simp add: EPSILON_def)
  then have "of_int k < (of_int l + 1 :: rat)" using assms(3) kl by linarith
  then have "k \<le> l" by linarith
  then show ?thesis using kl by (metis (mono_tags) mult_le_cancel_right_pos of_int_le_iff zero_less_numeral)
qed

definition tick_seeds :: "nat \<Rightarrow> (nat \<times> cost) list \<Rightarrow> bool" where
  "tick_seeds n seeds \<longleftrightarrow> (\<forall>(e, c)\<in>set seeds. e < n \<and> (\<forall>x. c = Cost x \<longrightarrow> tick x))"

lemma real_path_tick:
  assumes "tick_seeds n origin" "tick_seeds n destination" "real_path base origin destination p c"
  shows "tick c"
proof -
  obtain s0 s1 d where r: "(hd p, Cost s0) \<in> set origin" "(last p, Cost s1) \<in> set destination" "travel base p = Cost d" "c = s0 + d + s1"
    using assms(3) unfolding real_path_def by blast
  have "tick s0" "tick s1" using assms(1,2) r(1,2) unfolding tick_seeds_def by blast+
  then show ?thesis unfolding r(4) by (intro tick_add tick_travel[OF r(3)])
qed

lemma route_real_path: "route n base origin destination p c \<Longrightarrow> real_path base origin destination p c"
  unfolding route_def real_path_def by blast

lemma hierarchy_query_exact:
  fixes topo :: topology and order :: "nat list"
    and bw :: "nat \<Rightarrow> nat \<Rightarrow> rat option" and em :: "edge_metric list" and mode_bit :: u16 and threads :: nat
  defines "b \<equiv> build_with_order (edge_based topo) order" and "n \<equiv> edge_count (edge_based topo)"
  defines "w \<equiv> customize (customization_context_new threads b topo em mode_bit) b topo bw"
    and "base \<equiv> transition_cost topo em mode_bit bw"
  assumes "customizable topo order" "n \<le> 2 ^ 40" "clean s" "tick_seeds n origin" "tick_seeds n destination"
    "table_ok b (up_arcs (edge_based topo) order) (down_arcs (edge_based topo) order) w t"
  shows "\<exists>t' s' res. accelerated_route_query_seeded
      (Some \<lparr>graph_source = b, graph_ranked = ranked_build b w, graph_unpack = t\<rparr>) origin destination None s
      = Some (Some \<lparr>graph_source = b, graph_ranked = ranked_build b w, graph_unpack = t'\<rparr>, s', res)
    \<and> clean s' \<and> table_ok b (up_arcs (edge_based topo) order) (down_arcs (edge_based topo) order) w t'
    \<and> (case res of
         None \<Rightarrow> \<nexists>p c. route n base origin destination p c
       | Some r \<Rightarrow> \<exists>c. real_path base origin destination (edge_indexes r) c \<and> Cost c \<le> total_generalized_cost r
           \<and> (\<forall>p c'. route n base origin destination p c' \<longrightarrow> c \<le> c' \<and> total_generalized_cost r < Cost (c' + 1 / 1024)))"
proof -
  note rd = ready_customized[OF assms(5), where threads = threads and em = em and mode_bit = mode_bit and bw = bw,
      folded b_def n_def, folded w_def base_def]
  have si: "seeds_in n origin" "seeds_in n destination"
    using assms(8,9) by (auto simp: seeds_in_def tick_seeds_def)
  obtain t' s' res where q: "accelerated_route_query_seeded
      (Some \<lparr>graph_source = b, graph_ranked = ranked_build b w, graph_unpack = t\<rparr>) origin destination None s
      = Some (Some \<lparr>graph_source = b, graph_ranked = ranked_build b w, graph_unpack = t'\<rparr>, s', res)" "clean s'"
    "table_ok b (up_arcs (edge_based topo) order) (down_arcs (edge_based topo) order) w t'"
    "case res of None \<Rightarrow> (\<nexists>p c. route n base origin destination p c)
       | Some r \<Rightarrow> (\<exists>c. real_path base origin destination (edge_indexes r) c \<and> Cost c \<le> total_generalized_cost r)
           \<and> (\<forall>p c. route n base origin destination p c \<longrightarrow> total_generalized_cost r \<le> Cost (c + 2 * slack n))"
    using query_correct[OF rd assms(7) si assms(10), of None] by (auto split: option.splits)
  have "\<exists>c. real_path base origin destination (edge_indexes r) c \<and> Cost c \<le> total_generalized_cost r
      \<and> (\<forall>p c'. route n base origin destination p c' \<longrightarrow> c \<le> c' \<and> total_generalized_cost r < Cost (c' + 1 / 1024))"
    if r: "res = Some r" for r
  proof -
    obtain c where c: "real_path base origin destination (edge_indexes r) c" "Cost c \<le> total_generalized_cost r"
      using q(4) r by auto
    have "c \<le> c' \<and> total_generalized_cost r < Cost (c' + 1 / 1024)" if p: "route n base origin destination p c'" for p c'
    proof -
      have bound: "total_generalized_cost r \<le> Cost (c' + 2 * slack n)" using q(4) r p by auto
      then have "c \<le> c' + 2 * slack n" using c(2) order_trans by (metis cost_order_simps(3))
      moreover have "tick c" by (rule real_path_tick[OF assms(8,9) c(1)])
      moreover have "tick c'" by (rule real_path_tick[OF assms(8,9) route_real_path[OF p]])
      ultimately have "c \<le> c'" using tick_gap assms(6) by blast
      moreover have "Cost (c' + 2 * slack n) < Cost (c' + 1 / 1024)" using slack_below_tick[OF assms(6)] by simp
      ultimately show ?thesis using bound by (meson le_less_trans)
    qed
    then show ?thesis using c by blast
  qed
  then show ?thesis using q by (cases res) auto
qed

text \<open>C3: the point-to-point query is exact. On a graph that was built and customized from the network,
  with seed costs in whole ticks, every query returns (no \<open>expect\<close> fails), whatever the scratch and
  the shared unpack table were used for before, and leaves both fit for the next query. It answers
  no route only if no path of legal transitions whose weight stays below the overflow sentinel joins
  an origin seed to a destination seed, and otherwise a path of legal transitions from an origin
  seed to a destination seed whose cost is the least of all of them; the reported cost is that cost
  to less than one tick (labels improve only beyond \<open>EPSILON\<close>).\<close>

theorem hierarchy_query_optimal:
  fixes topo :: topology and order :: "nat list"
    and bw :: "nat \<Rightarrow> nat \<Rightarrow> rat option" and em :: "edge_metric list" and mode_bit :: u16 and threads :: nat
  defines "b \<equiv> build_with_order (edge_based topo) order" and "n \<equiv> edge_count (edge_based topo)"
  defines "w \<equiv> customize (customization_context_new threads b topo em mode_bit) b topo bw"
    and "base \<equiv> transition_cost topo em mode_bit bw"
  assumes "customizable topo order" "n \<le> 2 ^ 40" "clean s" "tick_seeds n origin" "tick_seeds n destination"
    "table_ok b (up_arcs (edge_based topo) order) (down_arcs (edge_based topo) order) w t"
  shows "\<exists>t' s' res. accelerated_route_query_seeded
      (Some \<lparr>graph_source = b, graph_ranked = ranked_build b w, graph_unpack = t\<rparr>) origin destination None s
      = Some (Some \<lparr>graph_source = b, graph_ranked = ranked_build b w, graph_unpack = t'\<rparr>, s', res)
    \<and> clean s' \<and> table_ok b (up_arcs (edge_based topo) order) (down_arcs (edge_based topo) order) w t'
    \<and> (case res of
         None \<Rightarrow> \<nexists>p c. route n base origin destination p c
       | Some r \<Rightarrow> \<exists>c. real_path base origin destination (edge_indexes r) c \<and> Cost c \<le> total_generalized_cost r
           \<and> (\<forall>p c'. route n base origin destination p c' \<longrightarrow> c \<le> c' \<and> total_generalized_cost r < Cost (c' + 1 / 1024)))"
  unfolding assms(1-4) by (rule hierarchy_query_exact) (rule assms(5-10)[unfolded assms(1-4)])+

text \<open>C6: unpacking is exact. Every hierarchy arc with a finite weight unpacks, with any reachable state of
  the shared table, into a path of legal transitions from its tail to its head whose ticks sum to
  exactly the arc's weight.\<close>

theorem unpack_exact:
  fixes topo :: topology and order :: "nat list"
    and bw :: "nat \<Rightarrow> nat \<Rightarrow> rat option" and em :: "edge_metric list" and mode_bit :: u16 and threads :: nat
  defines "b \<equiv> build_with_order (edge_based topo) order"
  defines "w \<equiv> customize (customization_context_new threads b topo em mode_bit) b topo bw"
    and "base \<equiv> transition_cost topo em mode_bit bw"
  assumes "customizable topo order"
    "table_ok b (up_arcs (edge_based topo) order) (down_arcs (edge_based topo) order) w t"
    "arc_ok b (up_arcs (edge_based topo) order) (down_arcs (edge_based topo) order) w a"
  shows "\<exists>t' q. push_unpacked_arc b (ranked_build b w) t a out = Some (t', out @ q)
    \<and> table_ok b (up_arcs (edge_based topo) order) (down_arcs (edge_based topo) order) w t'
    \<and> q \<noteq> [] \<and> last q = arc_head b a
    \<and> path_costs.cost 0 add_cch_weights base (arc_tail a # q) = arc_weight b w (arc_tail a) (arc_head b a)"
proof -
  have "unpackable (edge_count (edge_based topo)) b (up_arcs (edge_based topo) order) (down_arcs (edge_based topo) order) w base"
    using ready_customized[OF assms(4)] by (simp add: ready_def b_def w_def base_def)
  from push_unpacked_arc_spec[OF this assms(6,5), of out] show ?thesis by (simp add: unpacked_def)
qed

text \<open>C31: the query loop terminates on every hierarchy and every weight array, also one whose weights no
  customization produced, for every initial bound and all seed costs, and leaves the scratch clean.\<close>

theorem query_terminates:
  assumes "is_order (edge_count t) order" "weight_shape (build_with_order t order) w" "clean s"
    "seeds_in (edge_count t) origin" "seeds_in (edge_count t) destination"
  shows "\<exists>q. run_query (build_with_order t order) (ranked_build (build_with_order t order) w) origin destination initial s = Some q
    \<and> clean (scratch q) \<and> best_cost q \<le> initial"
proof -
  let ?b = "build_with_order t order" and ?n = "edge_count t"
  note h = hierarchy_build[OF assms(1)]
  note o = hierarchy_order[OF h]
  have sin: "\<forall>(e, c)\<in>set origin \<union> set destination. edge_rank ?b ! e < ?n"
    using assms(4,5) o(4) by (auto simp: seeds_in_def)
  show ?thesis
    using query_loop_returns[OF initial_inv[OF assms(3) sin o(1)[symmetric], of "hierarchy_rows (ranked_build ?b w)" initial]
        ranked_rows_ok[OF h assms(2)], of ?b "\<lambda>d. case d of Forward \<Rightarrow> minimum_seed_cost origin | Backward \<Rightarrow> minimum_seed_cost destination"]
    unfolding run_query_def query_inv_def sound_labels_def by blast
qed

section \<open>A concrete network\<close>

abbreviation witness_bundle :: acceleration_bundle where
  "witness_bundle \<equiv> build_with_order (edge_based witness_topology) [1, 0, 3, 2]"

abbreviation witness_weights :: metric_weights where
  "witness_weights \<equiv> customize (customization_context_new 4 witness_bundle witness_topology witness_metrics 1)
     witness_bundle witness_topology (\<lambda>_ _. Some 1)"

abbreviation witness_ups :: "(nat \<times> nat) list" where
  "witness_ups \<equiv> up_arcs (edge_based witness_topology) [1, 0, 3, 2]"

abbreviation witness_downs :: "(nat \<times> nat) list" where
  "witness_downs \<equiv> down_arcs (edge_based witness_topology) [1, 0, 3, 2]"

abbreviation fresh_table :: unpack_table where
  "fresh_table \<equiv> unpack_table_new (length witness_ups) (length witness_downs)"

definition fresh_scratch :: query_scratch where
  "fresh_scratch = \<lparr>labels = [], touched = [], queue = \<lambda>_. []\<rparr>"

lemma clean_fresh: "clean fresh_scratch"
  by (simp add: clean_def fresh_scratch_def)

lemma witness_edges: "edge_count (edge_based witness_topology) = 4" "edge_count witness_transitions = 4"
  by (simp_all add: witness_topology_def witness_transitions_def)

lemma tick_nat: "tick (of_nat k)"
  unfolding tick_def by (intro exI[of _ "1024 * int k"]) simp

lemma witness_seeds: "tick_seeds 4 [(3, Cost 0)]" "tick_seeds 4 [(2, Cost 0)]"
  using tick_nat[of 0] by (simp_all add: tick_seeds_def)

lemma witness_route:
  "route 4 (transition_cost witness_topology witness_metrics 1 (\<lambda>_ _. Some 1)) [(3, Cost 0)] [(2, Cost 0)] [3, 1, 2] 2"
proof -
  have "decoded 1024 = Cost 1" by (simp add: decoded_finite CCH_WEIGHT_OVERFLOW_def)
  then have "travel (transition_cost witness_topology witness_metrics 1 (\<lambda>_ _. Some 1)) [3, 1, 2] = Cost 2"
    by (simp only: travel.simps witness_costs) simp
  then show ?thesis by (simp add: route_def)
qed

theorem hierarchy_query_optimal_witness:
  "\<exists>t' s' r c. accelerated_route_query_seeded
      (Some \<lparr>graph_source = witness_bundle, graph_ranked = ranked_build witness_bundle witness_weights,
        graph_unpack = fresh_table\<rparr>) [(3, Cost 0)] [(2, Cost 0)] None fresh_scratch
      = Some (Some \<lparr>graph_source = witness_bundle, graph_ranked = ranked_build witness_bundle witness_weights,
        graph_unpack = t'\<rparr>, s', Some r)
    \<and> real_path (transition_cost witness_topology witness_metrics 1 (\<lambda>_ _. Some 1))
        [(3, Cost 0)] [(2, Cost 0)] (edge_indexes r) c \<and> c \<le> 2"
proof -
  obtain t' s' res where q: "accelerated_route_query_seeded
      (Some \<lparr>graph_source = witness_bundle, graph_ranked = ranked_build witness_bundle witness_weights,
        graph_unpack = fresh_table\<rparr>) [(3, Cost 0)] [(2, Cost 0)] None fresh_scratch
      = Some (Some \<lparr>graph_source = witness_bundle, graph_ranked = ranked_build witness_bundle witness_weights,
        graph_unpack = t'\<rparr>, s', res)"
    "case res of
         None \<Rightarrow> \<nexists>p c. route 4 (transition_cost witness_topology witness_metrics 1 (\<lambda>_ _. Some 1)) [(3, Cost 0)] [(2, Cost 0)] p c
       | Some r \<Rightarrow> \<exists>c. real_path (transition_cost witness_topology witness_metrics 1 (\<lambda>_ _. Some 1)) [(3, Cost 0)] [(2, Cost 0)] (edge_indexes r) c \<and> Cost c \<le> total_generalized_cost r
           \<and> (\<forall>p c'. route 4 (transition_cost witness_topology witness_metrics 1 (\<lambda>_ _. Some 1)) [(3, Cost 0)] [(2, Cost 0)] p c' \<longrightarrow>
                c \<le> c' \<and> total_generalized_cost r < Cost (c' + 1 / 1024))"
    using hierarchy_query_optimal[OF witness_customizable, unfolded witness_edges, OF _ clean_fresh witness_seeds table_ok_new,
        where threads = 4 and em = witness_metrics and mode_bit = 1 and bw = "\<lambda>_ _. Some 1"] by force
  show ?thesis
  proof (cases res)
    case None
    then show ?thesis using q(2) witness_route by auto
  next
    case (Some r)
    then obtain c where c: "real_path (transition_cost witness_topology witness_metrics 1 (\<lambda>_ _. Some 1))
        [(3, Cost 0)] [(2, Cost 0)] (edge_indexes r) c" "c \<le> 2"
      using q(2) witness_route by auto
    show ?thesis using q(1) c unfolding Some by blast
  qed
qed

lemma witness_arc:
  "\<exists>slot. arc_ok witness_bundle witness_ups witness_downs witness_weights
     \<lparr>is_upward = True, arc_tail = 1, arc_slot = slot\<rparr> \<and> arc_head witness_bundle \<lparr>is_upward = True, arc_tail = 1, arc_slot = slot\<rparr> = 2"
proof -
  let ?b = witness_bundle and ?w = "arc_weight witness_bundle witness_weights"
  note f = customize_facts(3)[OF witness_customizable, where threads = 4 and em = witness_metrics and mode_bit = 1 and bw = "\<lambda>_ _. Some 1"]
  have h: "hierarchy 4 ?b witness_ups witness_downs"
    using customizable_inputs[OF witness_customizable] by (simp add: inputs_ok_def witness_edges)
  have "?w 1 2 \<le> transition_cost witness_topology witness_metrics 1 (\<lambda>_ _. Some 1) 1 2"
    unfolding f by (rule cch.relax_all_le)
  then have le: "?w 1 2 \<le> 1024" by (simp only: witness_costs)
  then have "(1, 2) \<in> set witness_ups \<union> set witness_downs"
    using arc_weight_supported[OF h, of witness_weights] unfolding cch.supported_def
    by (force simp: CCH_WEIGHT_INFINITY_def)
  moreover have "edge_rank ?b ! 1 = 0" by code_simp
  ultimately have "(1, 2) \<in> set witness_ups" using hierarchyD(5)[OF h, of 1 2] by auto
  then obtain slot where slot: "slot < length witness_ups" "witness_ups ! slot = (1, 2)" unfolding in_set_conv_nth by blast
  have "upward_head ?b = map snd witness_ups" using h unfolding hierarchy_def by blast
  then have head: "arc_head ?b \<lparr>is_upward = True, arc_tail = 1, arc_slot = slot\<rparr> = 2"
    unfolding arc_head_def using slot by (simp del: bundle_simps)
  have "?w 1 2 < CCH_WEIGHT_OVERFLOW" by (rule le_less_trans[OF le]) (simp add: CCH_WEIGHT_OVERFLOW_def)
  then have "arc_ok ?b witness_ups witness_downs witness_weights \<lparr>is_upward = True, arc_tail = 1, arc_slot = slot\<rparr>"
    unfolding arc_ok_def head using slot by simp
  then show ?thesis using head by blast
qed

theorem unpack_exact_witness:
  "\<exists>slot t' q. push_unpacked_arc witness_bundle (ranked_build witness_bundle witness_weights) fresh_table
      \<lparr>is_upward = True, arc_tail = 1, arc_slot = slot\<rparr> [1] = Some (t', [1] @ q) \<and> q \<noteq> [] \<and> last q = 2"
proof -
  obtain slot where a: "arc_ok witness_bundle witness_ups witness_downs witness_weights
     \<lparr>is_upward = True, arc_tail = 1, arc_slot = slot\<rparr>" "arc_head witness_bundle \<lparr>is_upward = True, arc_tail = 1, arc_slot = slot\<rparr> = 2"
    using witness_arc by blast
  from unpack_exact[OF witness_customizable table_ok_new a(1), of "[1]"] show ?thesis unfolding a(2) by blast
qed

theorem query_terminates_witness:
  "\<exists>q. run_query witness_bundle (ranked_build witness_bundle (infinite_weights witness_bundle))
      [(3, Cost 0)] [(2, Infinite)] (Cost 7) fresh_scratch = Some q \<and> best_cost q \<le> Cost 7"
proof -
  have ord: "is_order (edge_count (edge_based witness_topology)) [1, 0, 3, 2]"
    by (auto simp: is_order_def witness_edges)
  have s: "seeds_in (edge_count (edge_based witness_topology)) [(3, Cost 0)]"
    "seeds_in (edge_count (edge_based witness_topology)) [(2, Infinite)]"
    by (simp_all add: seeds_in_def witness_edges)
  show ?thesis using query_terminates[OF ord weight_shape_infinite clean_fresh s, of "Cost 7"] by blast
qed

end
