(* ===== verification/Dataset.thy ===== *)
theory Dataset
  imports Cch_Route Dissect Edge_Based
begin

text \<open>
  A dataset end to end: the edge-based topology of \<open>crates/core/src/graph.rs\<close>, the nested-dissection
  hierarchy of \<open>crates/ingest/src/acceleration.rs\<close> built on it, its customization and the
  point-to-point query of \<open>crates/query\<close>. What each of the four needs of the one before is a theorem
  about the one before, so the only premises left are about the inputs and about sizes.
\<close>

definition street_connected :: "(nat \<Rightarrow> nat \<times> nat) \<Rightarrow> nat list \<Rightarrow> bool" where
  "street_connected endpoints p \<longleftrightarrow> successively (\<lambda>e f. snd (endpoints e) = fst (endpoints f)) p"

lemma transition_cost_row:
  "decoded (transition_cost topo em mode_bit bw x y) \<noteq> Infinite \<Longrightarrow>
    x < edge_count (edge_based topo) \<and> y \<in> set (transition_row (edge_based topo) x)"
  by (auto simp: transition_cost_def cost_base_arc_weight_eq decoded_def decode_cch_weight_def split: if_splits)

lemma travel_rows:
  "travel (transition_cost topo em mode_bit bw) p = Cost d \<Longrightarrow>
    successively (\<lambda>x y. x < edge_count (edge_based topo) \<and> y \<in> set (transition_row (edge_based topo) x)) p"
proof (induction p arbitrary: d rule: induct_list012)
  case (3 x y p)
  have "decoded (transition_cost topo em mode_bit bw x y) \<noteq> Infinite" "travel (transition_cost topo em mode_bit bw) (y # p) \<noteq> Infinite"
    using "3.prems" by auto
  moreover from this(2) obtain d' where "travel (transition_cost topo em mode_bit bw) (y # p) = Cost d'"
    by (cases "travel (transition_cost topo em mode_bit bw) (y # p)") auto
  ultimately show ?case using "3.IH"(2) transition_cost_row[of topo em mode_bit bw x y] by simp
qed simp_all

lemma built_customizable:
  assumes ends: "\<forall>e<edges. fst (endpoints e) < nodes \<and> snd (endpoints e) < nodes" and n: "edges < u32_max"
    and topo: "edge_based topo = transitions.truncate (edge_based_build nodes edges endpoints)"
    and b: "build_dataset_acceleration_bundle (edge_based topo) px py = Some b"
    and arcs: "length (upward_head b) < 2 ^ 31" "length (downward_head b) < 2 ^ 31"
  shows "\<exists>order. b = build_with_order (edge_based topo) order \<and> customizable topo order \<and> edge_order b = order
    \<and> edge_count (edge_based topo) = edges"
proof -
  note t = edge_based_rows[OF ends]
  have c: "edge_count (edge_based topo) = edges" using t(1) by (simp add: topo transitions.truncate_def)
  obtain order where o: "nested_dissection_order (edge_based topo) px py = Some order" "is_order edges order"
    using nested_dissection_is_order[of "edge_based topo" px py] n c by auto
  have be: "b = build_with_order (edge_based topo) order" using b o(1) by (simp add: build_dataset_acceleration_bundle_def)
  have "customizable topo order"
    using o(2) t(4) c arcs unfolding be customizable_def Let_def by (simp add: topo transitions.truncate_def del: bundle_simps)
  moreover have "edge_order b = order" by (simp add: be build_with_order_def Let_def)
  ultimately show ?thesis using be c by blast
qed

text \<open>C4: a dataset answers with shortest routes. Take any street network whose edges join nodes, build its
  edge-based topology and, with any projected coordinates, its hierarchy, customize the hierarchy for
  any metric and run the seeded query in any state of its scratch and unpack table. The build returns a
  bundle, and with it every query returns; the route it gives is a walk along the streets (each edge
  starts where the one before ends) over legal transitions, from an origin to a destination seed, and no
  such route is cheaper; the reported cost is that of the walk to less than one tick. It gives none only
  when there is none.\<close>

theorem dataset_query_optimal:
  fixes topo :: topology
    and bw :: "nat \<Rightarrow> nat \<Rightarrow> rat option" and em :: "edge_metric list" and mode_bit :: u16 and threads :: nat
  assumes ends: "\<forall>e<edges. fst (endpoints e) < nodes \<and> snd (endpoints e) < nodes" and n: "edges < u32_max"
    and topo: "edge_based topo = transitions.truncate (edge_based_build nodes edges endpoints)"
  shows "\<exists>b. build_dataset_acceleration_bundle (edge_based topo) px py = Some b
    \<and> (length (upward_head b) < 2 ^ 31 \<longrightarrow> length (downward_head b) < 2 ^ 31 \<longrightarrow>
       clean s \<longrightarrow> tick_seeds edges origin \<longrightarrow> tick_seeds edges destination \<longrightarrow>
       (let w = customize (customization_context_new threads b topo em mode_bit) b topo bw;
            base = transition_cost topo em mode_bit bw;
            ups = up_arcs (edge_based topo) (edge_order b); downs = down_arcs (edge_based topo) (edge_order b)
        in table_ok b ups downs w t \<longrightarrow>
          (\<exists>t' s' res. accelerated_route_query_seeded
              (Some \<lparr>graph_source = b, graph_ranked = ranked_build b w, graph_unpack = t\<rparr>) origin destination None s
              = Some (Some \<lparr>graph_source = b, graph_ranked = ranked_build b w, graph_unpack = t'\<rparr>, s', res)
            \<and> clean s' \<and> table_ok b ups downs w t'
            \<and> (case res of
                 None \<Rightarrow> \<nexists>p c. route edges base origin destination p c
               | Some r \<Rightarrow> \<exists>c. real_path base origin destination (edge_indexes r) c \<and> Cost c \<le> total_generalized_cost r
                   \<and> street_connected endpoints (edge_indexes r)
                   \<and> (\<forall>p c'. route edges base origin destination p c' \<longrightarrow> c \<le> c' \<and> total_generalized_cost r < Cost (c' + 1 / 1024))))))"
proof -
  have c: "edge_count (edge_based topo) = edges" using edge_based_rows(1)[OF ends] by (simp add: topo transitions.truncate_def)
  obtain b where b: "build_dataset_acceleration_bundle (edge_based topo) px py = Some b"
    using nested_dissection_is_order[of "edge_based topo" px py] n c by (auto simp: build_dataset_acceleration_bundle_def)
  have street: "street_connected endpoints p" if rp: "real_path (transition_cost topo em mode_bit bw) origin destination p cost" for p cost
  proof -
    obtain d where "travel (transition_cost topo em mode_bit bw) p = Cost d" using rp by (auto simp: real_path_def)
    from travel_rows[OF this] show ?thesis unfolding street_connected_def
      by (rule successively_mono) (auto simp: c[unfolded topo] topo edge_based_rows(5)[OF ends] leaving_def)
  qed
  show ?thesis unfolding Let_def
  proof (intro exI[of _ b] conjI b impI)
    assume a: "length (upward_head b) < 2 ^ 31" "length (downward_head b) < 2 ^ 31" and s: "clean s" "tick_seeds edges origin" "tick_seeds edges destination"
    let ?w = "customize (customization_context_new threads b topo em mode_bit) b topo bw"
    assume t: "table_ok b (up_arcs (edge_based topo) (edge_order b)) (down_arcs (edge_based topo) (edge_order b)) ?w t"
    obtain order where o: "b = build_with_order (edge_based topo) order" "customizable topo order" "edge_order b = order"
      using built_customizable[OF ends n topo b a] by blast
    have small: "edge_count (edge_based topo) \<le> 2 ^ 40" using n c by (simp add: u32_max_def)
    obtain t' s' res where q: "accelerated_route_query_seeded (Some \<lparr>graph_source = b, graph_ranked = ranked_build b ?w, graph_unpack = t\<rparr>) origin destination None s
        = Some (Some \<lparr>graph_source = b, graph_ranked = ranked_build b ?w, graph_unpack = t'\<rparr>, s', res)" "clean s'"
      "table_ok b (up_arcs (edge_based topo) order) (down_arcs (edge_based topo) order) ?w t'"
      "case res of None \<Rightarrow> \<nexists>p c. route edges (transition_cost topo em mode_bit bw) origin destination p c
       | Some r \<Rightarrow> \<exists>c. real_path (transition_cost topo em mode_bit bw) origin destination (edge_indexes r) c \<and> Cost c \<le> total_generalized_cost r
           \<and> (\<forall>p c'. route edges (transition_cost topo em mode_bit bw) origin destination p c' \<longrightarrow> c \<le> c' \<and> total_generalized_cost r < Cost (c' + 1 / 1024))"
      using hierarchy_query_exact[OF o(2) small s(1) _ _ t[unfolded o(3), unfolded o(1)], folded o(1), of origin destination] s(2,3) c by auto
    show "\<exists>t' s' res. accelerated_route_query_seeded
              (Some \<lparr>graph_source = b, graph_ranked = ranked_build b ?w, graph_unpack = t\<rparr>) origin destination None s
              = Some (Some \<lparr>graph_source = b, graph_ranked = ranked_build b ?w, graph_unpack = t'\<rparr>, s', res)
            \<and> clean s' \<and> table_ok b (up_arcs (edge_based topo) (edge_order b)) (down_arcs (edge_based topo) (edge_order b)) ?w t'
            \<and> (case res of
                 None \<Rightarrow> \<nexists>p c. route edges (transition_cost topo em mode_bit bw) origin destination p c
               | Some r \<Rightarrow> \<exists>c. real_path (transition_cost topo em mode_bit bw) origin destination (edge_indexes r) c \<and> Cost c \<le> total_generalized_cost r
                   \<and> street_connected endpoints (edge_indexes r)
                   \<and> (\<forall>p c'. route edges (transition_cost topo em mode_bit bw) origin destination p c' \<longrightarrow> c \<le> c' \<and> total_generalized_cost r < Cost (c' + 1 / 1024)))"
      using q street unfolding o(3) by (intro exI[of _ t'] exI[of _ s'] exI[of _ res]) (auto split: option.splits)
  qed
qed

text \<open>A triangle of one-way streets and one street back.\<close>

abbreviation triangle :: "nat \<Rightarrow> nat \<times> nat" where
  "triangle \<equiv> (!) [(0, 1), (1, 2), (2, 0), (1, 0)]"

definition triangle_topology :: topology where
  "triangle_topology = \<lparr>edge_based = transitions.truncate (edge_based_build 3 4 triangle), edge_flags = [0, 0, 0, 0],
     access_masks = [1, 1, 1, 1], turn_restrictions = []\<rparr>"

lemma triangle_built:
  "nested_dissection_order (edge_based triangle_topology) (\<lambda>v. of_nat v) (\<lambda>v. 0) = Some [3, 0, 1, 2]"
  "length (upward_head (build_with_order (edge_based triangle_topology) [3, 0, 1, 2])) = 3"
  "length (downward_head (build_with_order (edge_based triangle_topology) [3, 0, 1, 2])) = 3"
  by code_simp+

theorem dataset_query_optimal_witness:
  "\<exists>b t' s' res. build_dataset_acceleration_bundle (edge_based triangle_topology) (\<lambda>v. of_nat v) (\<lambda>v. 0) = Some b
    \<and> accelerated_route_query_seeded (Some \<lparr>graph_source = b,
          graph_ranked = ranked_build b (customize (customization_context_new 4 b triangle_topology witness_metrics 1) b triangle_topology (\<lambda>_ _. Some 1)),
          graph_unpack = unpack_table_new (length (up_arcs (edge_based triangle_topology) (edge_order b))) (length (down_arcs (edge_based triangle_topology) (edge_order b)))\<rparr>)
        [(3, Cost 0)] [(2, Cost 0)] None fresh_scratch
      = Some (Some \<lparr>graph_source = b,
          graph_ranked = ranked_build b (customize (customization_context_new 4 b triangle_topology witness_metrics 1) b triangle_topology (\<lambda>_ _. Some 1)),
          graph_unpack = t'\<rparr>, s', res)"
proof -
  have e: "edge_based triangle_topology = transitions.truncate (edge_based_build 3 4 triangle)" by (simp add: triangle_topology_def)
  have ends: "\<forall>e<4. fst (triangle e) < 3 \<and> snd (triangle e) < 3" by code_simp
  have n: "(4 :: nat) < u32_max" by (simp add: u32_max_def)
  let ?b = "build_with_order (edge_based triangle_topology) [3, 0, 1, 2]"
  have b: "build_dataset_acceleration_bundle (edge_based triangle_topology) (\<lambda>v. of_nat v) (\<lambda>v. 0) = Some ?b"
    using triangle_built(1) by (simp add: build_dataset_acceleration_bundle_def del: bundle_simps)
  note q = dataset_query_optimal[OF ends n e, of "\<lambda>v. of_nat v" "\<lambda>v. 0", unfolded b option.inject, simplified ex_simps simp_thms]
  have "length (upward_head ?b) < 2 ^ 31" "length (downward_head ?b) < 2 ^ 31" unfolding triangle_built(2,3) by simp_all
  then show ?thesis
    using q clean_fresh witness_seeds table_ok_new b by (simp only: Let_def) blast
qed

end
