(* ===== verification/Recustomize.thy ===== *)
theory Recustomize
  imports Dataset
begin

text \<open>
  Exact re-customization after a few edges change (\<open>crates/query/src/engine/recustomize.rs\<close>), with
  the incoming-edge rows of the routing graph it reads (\<open>crates/query/src/engine/graph.rs\<close>). Starting
  from the old weights, the arcs whose base weight may have changed are queued and recomputed in the
  order of their lower endpoint; a changed value queues the arcs it can reach. The queue is a bag
  with its least element popped, the bit sets are lists of booleans, and a failed \<open>expect\<close> is \<open>None\<close>.
  The theorem is that the result is, array by array, the complete customization of the new metric.
\<close>

section \<open>Incoming edges of the routing graph\<close>

text \<open>\<open>edge_costs[edge].is_finite()\<close>: \<open>timed\<close> says which edges have a travel time.\<close>

definition routable :: "topology \<Rightarrow> edge_metric list \<Rightarrow> u16 \<Rightarrow> (nat \<Rightarrow> bool) \<Rightarrow> nat \<Rightarrow> bool" where
  "routable topo em mode_bit timed e \<longleftrightarrow>
     is_statically_usable topo e mode_bit \<and> generalized_cost (em ! e) \<noteq> None \<and> timed e"

definition incoming_rows :: "nat \<Rightarrow> (nat \<Rightarrow> nat \<times> nat) \<Rightarrow> edge_based_topology \<Rightarrow> (nat \<Rightarrow> bool) \<Rightarrow> nat list \<times> nat list" where
  "incoming_rows nodes endpoints t open_edge =
     group_by_key nodes 0
       (map (\<lambda>e. (snd (endpoints e), e))
         (filter open_edge (concat (map (outgoing_edges (node_first_out t) (node_edge_order t)) [0..<nodes]))))"

record base_graph =
  graph_acceleration :: "acceleration_graph option"
  incoming_first_out :: "nat list"
  incoming_edge_order :: "nat list"

definition incoming_edges :: "base_graph \<Rightarrow> nat \<Rightarrow> nat list" where
  "incoming_edges g node = subslice (incoming_edge_order g) (incoming_first_out g ! node) (incoming_first_out g ! (node + 1))"

section \<open>The code\<close>

text \<open>A ranked arc: downward or not, and its position in the ranked weights.\<close>

type_synonym located = "bool \<times> nat"

definition locate_arc :: "acceleration_bundle \<Rightarrow> ranked_cch \<Rightarrow> nat \<Rightarrow> nat \<Rightarrow> located option" where
  "locate_arc b c tail head =
     (if edge_rank b ! tail < edge_rank b ! head
      then map_option (\<lambda>slot. (False, upward_position c b tail slot)) (upward_arc_slot b tail head)
      else map_option (Pair True) (downward_position c b tail head))"

type_synonym pending_arc = "nat \<times> bool \<times> nat \<times> nat \<times> nat"

record update_state =
  new_upward :: "u32 list"
  new_downward :: "u32 list"
  arc_queue :: "pending_arc list"
  queued_up :: "bool list"
  queued_down :: "bool list"

definition ranked_weight :: "update_state \<Rightarrow> located \<Rightarrow> u32" where
  "ranked_weight s target = (if fst target then new_downward s else new_upward s) ! snd target"

definition set_ranked_weight :: "update_state \<Rightarrow> located \<Rightarrow> u32 \<Rightarrow> update_state" where
  "set_ranked_weight s target value =
     (if fst target then s\<lparr>new_downward := (new_downward s)[snd target := value]\<rparr>
      else s\<lparr>new_upward := (new_upward s)[snd target := value]\<rparr>)"

definition queued_bit :: "update_state \<Rightarrow> located \<Rightarrow> bool" where
  "queued_bit s target = (if fst target then queued_down s else queued_up s) ! snd target"

definition set_queued_bit :: "update_state \<Rightarrow> located \<Rightarrow> update_state" where
  "set_queued_bit s target =
     (if fst target then s\<lparr>queued_down := (queued_down s)[snd target := True]\<rparr>
      else s\<lparr>queued_up := (queued_up s)[snd target := True]\<rparr>)"

definition enqueue :: "acceleration_bundle \<Rightarrow> ranked_cch \<Rightarrow> update_state \<Rightarrow> nat \<times> nat \<Rightarrow> update_state" where
  "enqueue b c s a =
     (let (tail, head) = a
      in if tail = head then s
         else case locate_arc b c tail head of
           None \<Rightarrow> s
         | Some target \<Rightarrow>
             if queued_bit s target then s
             else (let s = set_queued_bit s target;
                       lower = min (edge_rank b ! tail) (edge_rank b ! head)
                   in s\<lparr>arc_queue := (lower, fst target, snd target, tail, head) # arc_queue s\<rparr>))"

definition seed_edge :: "acceleration_bundle \<Rightarrow> ranked_cch \<Rightarrow> transitions \<Rightarrow> (nat \<Rightarrow> nat \<times> nat) \<Rightarrow> base_graph \<Rightarrow>
    update_state \<Rightarrow> nat \<Rightarrow> update_state" where
  "seed_edge b c t endpoints g s edge =
     foldl (enqueue b c)
       (foldl (enqueue b c) s (map (\<lambda>previous. (previous, edge)) (incoming_edges g (fst (endpoints edge)))))
       (map (Pair edge) (transition_row t edge))"

text \<open>One lower triangle \<open>tail -> middle -> head\<close>, by the slot of its left arc.\<close>

definition lower_triangle :: "acceleration_bundle \<Rightarrow> ranked_cch \<Rightarrow> update_state \<Rightarrow> nat \<Rightarrow> nat \<Rightarrow> u32 \<Rightarrow> nat \<Rightarrow> u32 option" where
  "lower_triangle b c s tail head value left =
     (let middle = downward_head b ! left
      in if edge_rank b ! head \<le> edge_rank b ! middle then Some value
         else case upward_arc_slot b middle head of
           None \<Rightarrow> Some value
         | Some right \<Rightarrow> (case downward_position c b tail middle of
             None \<Rightarrow> None
           | Some position \<Rightarrow>
               (let left_weight = new_downward s ! position;
                    right_weight = new_upward s ! upward_position c b middle right
                in if left_weight = CCH_WEIGHT_INFINITY \<or> right_weight = CCH_WEIGHT_INFINITY then Some value
                   else Some (min value (add_cch_weights left_weight right_weight)))))"

fun lower_triangles :: "acceleration_bundle \<Rightarrow> ranked_cch \<Rightarrow> update_state \<Rightarrow> nat \<Rightarrow> nat \<Rightarrow> u32 \<Rightarrow> nat list \<Rightarrow> u32 option" where
  "lower_triangles b c s tail head value [] = Some value"
| "lower_triangles b c s tail head value (left # slots) =
     Option.bind (lower_triangle b c s tail head value left) (\<lambda>value. lower_triangles b c s tail head value slots)"

definition recomputed :: "acceleration_bundle \<Rightarrow> ranked_cch \<Rightarrow> (nat \<Rightarrow> nat \<Rightarrow> u32) \<Rightarrow> update_state \<Rightarrow> nat \<Rightarrow> nat \<Rightarrow> u32 option" where
  "recomputed b c base_weight s tail head =
     lower_triangles b c s tail head (base_weight tail head) [downward_first_out b ! tail ..< downward_first_out b ! (tail + 1)]"

text \<open>The arcs of which \<open>tail -> head\<close> is a triangle side.\<close>

definition dependants :: "acceleration_bundle \<Rightarrow> ranked_cch \<Rightarrow> bool \<Rightarrow> nat \<Rightarrow> nat \<Rightarrow> (nat \<times> nat) list" where
  "dependants b c down tail head =
     (if down
      then map (\<lambda>slot. (tail, upward_head b ! slot)) [upward_first_out b ! head ..< upward_first_out b ! (head + 1)]
      else (let r = edge_rank b ! tail; t = ranked_rows c
            in map (\<lambda>position. (edge_order b ! (down_tails t ! position), head)) [down_first t ! r ..< down_first t ! (r + 1)]))"

definition store_arc :: "acceleration_bundle \<Rightarrow> ranked_cch \<Rightarrow> update_state \<Rightarrow> located \<Rightarrow> nat \<Rightarrow> nat \<Rightarrow> u32 \<Rightarrow> update_state" where
  "store_arc b c s target tail head value =
     (if ranked_weight s target = value then s
      else foldl (enqueue b c) (set_ranked_weight s target value) (dependants b c (fst target) tail head))"

partial_function (option) update_loop :: "acceleration_bundle \<Rightarrow> ranked_cch \<Rightarrow> (nat \<Rightarrow> nat \<Rightarrow> u32) \<Rightarrow> update_state \<Rightarrow> update_state option" where
  "update_loop b c base_weight s =
     (if arc_queue s = [] then Some s
      else (let (lower, down, position, tail, head) = Min (set (arc_queue s));
                s = s\<lparr>arc_queue := remove1 (Min (set (arc_queue s))) (arc_queue s)\<rparr>
            in Option.bind (recomputed b c base_weight s tail head) (\<lambda>value.
                 update_loop b c base_weight (store_arc b c s (down, position) tail head value))))"

declare update_loop.simps [code]

definition with_ranked_weights :: "ranked_cch \<Rightarrow> u32 list \<Rightarrow> u32 list \<Rightarrow> ranked_cch" where
  "with_ranked_weights c ws ws' = c\<lparr>ranked_up_weight := ws, ranked_down_weight := ws'\<rparr>"

definition update_start :: "ranked_cch \<Rightarrow> update_state" where
  "update_start c =
     \<lparr>new_upward = ranked_up_weight c, new_downward = ranked_down_weight c, arc_queue = [],
      queued_up = replicate (length (ranked_up_weight c)) False, queued_down = replicate (length (ranked_down_weight c)) False\<rparr>"

definition recustomize_changed_edges :: "topology \<Rightarrow> edge_metric list \<Rightarrow> u16 \<Rightarrow> (nat \<Rightarrow> nat \<Rightarrow> rat option) \<Rightarrow>
    (nat \<Rightarrow> nat \<times> nat) \<Rightarrow> base_graph \<Rightarrow> nat list \<Rightarrow> ranked_cch option option" where
  "recustomize_changed_edges topo em mode_bit cost endpoints g changed =
     (case graph_acceleration g of
        None \<Rightarrow> Some None
      | Some base \<Rightarrow>
          (let b = graph_source base; c = graph_ranked base;
               s = foldl (seed_edge b c (edge_based topo) endpoints g) (update_start c) changed
           in map_option (\<lambda>s. Some (with_ranked_weights c (new_upward s) (new_downward s)))
                (update_loop b c (cost_base_arc_weight topo em mode_bit cost) s)))"

section \<open>Positions\<close>

definition up_pos :: "acceleration_bundle \<Rightarrow> ranked_cch \<Rightarrow> (nat \<times> nat) list \<Rightarrow> nat \<Rightarrow> nat" where
  "up_pos b c ups s = upward_position c b (fst (ups ! s)) s"

definition down_pos :: "acceleration_bundle \<Rightarrow> ranked_cch \<Rightarrow> (nat \<times> nat) list \<Rightarrow> nat \<Rightarrow> nat" where
  "down_pos b c downs s = the (downward_position c b (fst (downs ! s)) (snd (downs ! s)))"

text \<open>Weights that number the slots show that different slots have different positions.\<close>

definition slot_numbers :: "(nat \<times> nat) list \<Rightarrow> (nat \<times> nat) list \<Rightarrow> metric_weights" where
  "slot_numbers ups downs = \<lparr>up_weights = map word_of_nat [0..<length ups], down_weights = map word_of_nat [0..<length downs]\<rparr>"

lemma positions_of_rows:
  assumes "ranked_rows c = ranked_rows c'"
  shows "upward_position c = upward_position c'" "downward_position c = downward_position c'"
  using assms by (simp_all add: fun_eq_iff upward_position_def downward_position_def)

lemma ranked_rows_build [simp]: "ranked_rows (ranked_build b w) = ranked_topology_build b"
  by (simp add: ranked_build_def with_topology_def)

lemma bijective_positions:
  fixes f :: "nat \<Rightarrow> nat"
  assumes "inj_on f {0..<m}" "\<And>s. s < m \<Longrightarrow> f s < m" "p < m"
  shows "\<exists>s<m. f s = p"
proof -
  have "f ` {0..<m} \<subseteq> {0..<m}" using assms(2) by auto
  then have "f ` {0..<m} = {0..<m}" using endo_inj_surj[OF finite_atLeastLessThan _ assms(1)] by blast
  then have "p \<in> f ` {0..<m}" using assms(3) by simp
  then show ?thesis by auto
qed

lemma word_of_nat_below: "s < 2 ^ 31 \<Longrightarrow> s' < 2 ^ 31 \<Longrightarrow> (word_of_nat s :: u32) = word_of_nat s' \<Longrightarrow> s = s'"
  by (metis packed_slot(3))

lemma slot_numbers_shape: "hierarchy n b ups downs \<Longrightarrow> weight_shape b (slot_numbers ups downs)"
  by (simp add: weight_shape_def slot_numbers_def hierarchy_def)

lemma length_ranked_weights:
  assumes "hierarchy n b ups downs" "weight_shape b w"
  shows "length (ranked_up_weight (ranked_build b w)) = length ups" "length (ranked_down_weight (ranked_build b w)) = length downs"
proof -
  note o = hierarchy_order[OF assms(1)]
  have perm: "mset (edge_order b) = mset [0..<n]"
    using assms(1) set_eq_iff_mset_eq_distinct[of "edge_order b" "[0..<n]"] by (simp add: hierarchy_def is_order_def)
  have so: "sorted_arcs n ups" "upward_first_out b = fst (arcs_to_csr ups n)" "length (up_weights w) = length ups"
    using assms(1,2) by (simp_all add: hierarchy_def weight_shape_def)
  have v: "valid_offsets (upward_first_out b) n (length ups)"
    unfolding so(2) by (rule csr_valid_offsets) (use so in \<open>simp add: sorted_arcs_def\<close>)
  have row: "bundle_row b (up_weights w) e = map ((!) (up_weights w)) [upward_first_out b ! e ..< upward_first_out b ! (e + 1)]" if "e < n" for e
    using subslice_map_nth[of "upward_first_out b ! (e + 1)" "up_weights w"] valid_offsetsD(3)[OF v, of "e + 1"] that so(3)
    by (simp add: bundle_row_def)
  have "length (concat (map (bundle_row b (up_weights w)) (edge_order b))) = sum_list (map (\<lambda>e. length (bundle_row b (up_weights w) e)) (edge_order b))"
    by (simp add: length_concat comp_def)
  also have "\<dots> = sum_mset (image_mset (\<lambda>e. length (bundle_row b (up_weights w) e)) (mset (edge_order b)))"
    by (simp only: sum_mset_sum_list[symmetric] mset_map)
  also have "\<dots> = sum_list (map (\<lambda>e. length (bundle_row b (up_weights w) e)) [0..<n])"
    unfolding perm by (simp only: sum_mset_sum_list[symmetric] mset_map)
  also have "\<dots> = sum_list (map (\<lambda>e. length [upward_first_out b ! e ..< upward_first_out b ! (e + 1)]) [0..<n])"
    by (intro arg_cong[of _ _ sum_list] map_cong refl) (simp add: row)
  also have "\<dots> = length (concat (map (\<lambda>t. [upward_first_out b ! t ..< upward_first_out b ! (t + 1)]) [0..<n]))"
    by (simp add: length_concat comp_def)
  also have "\<dots> = length ups" unfolding csr_slots_concat[OF v order_refl] using v by (simp add: valid_offsets_def)
  finally show "length (ranked_up_weight (ranked_build b w)) = length ups" by (simp add: ranked_build_def with_topology_def)
  show "length (ranked_down_weight (ranked_build b w)) = length downs"
    by (simp add: ranked_build_def with_topology_def group_downward_by_head_def downward_items_eq[OF assms(1)])
qed

lemma downward_position_bound:
  assumes h: "hierarchy n b ups downs" and "y < n" "downward_position (ranked_build b w) b x y = Some p"
  shows "p < length downs"
proof -
  let ?r = "edge_rank b ! y"
  note o = hierarchy_order[OF h]
  have r: "?r < n" "edge_order b ! ?r = y" using o(4,5) assms(2) by simp_all
  note q = ranked_down_parts[OF h r(1), of w]
  let ?a = "down_first (ranked_topology_build b) ! ?r" and ?z = "down_first (ranked_topology_build b) ! (?r + 1)"
  let ?row = "map (\<lambda>tail_rank. edge_order b ! tail_rank) (subslice (down_tails (ranked_topology_build b)) ?a ?z)"
  obtain i where i: "binary_search ?row x = Found i" "p = ?a + i"
    using assms(3) by (auto simp: downward_position_def Let_def split: search_result.splits)
  have tails: "?row = map (\<lambda>s. fst (downs ! s)) (slots_into downs y)"
  proof -
    have "fst (downs ! s) < n" if "s \<in> set (slots_into downs y)" for s
      using that hierarchyD(5)[OF h, of "fst (downs ! s)" y] nth_mem[of s downs] unfolding slots_into_mem by simp
    then show ?thesis using q(1) o(5) r(2) by simp
  qed
  have "sorted_wrt (<) ?row" unfolding tails by (rule slots_into_tails[OF hierarchyD(3)[OF h]])
  then have "i < length ?row" using i(1) bs.found by blast
  then have "p < ?z" using i(2) q(4) by (simp add: subslice_def less_diff_conv add.commute)
  also have "?z \<le> length downs" using q(6) group_downward_row(4)[OF h r(1), of 0 "\<lambda>tail slot. down_weights w ! slot"]
    by (simp add: ranked_build_def with_topology_def)
  finally show ?thesis .
qed

text \<open>What the proofs use of the hierarchy and of the ranked arrays.\<close>

definition ranked_ok :: "nat \<Rightarrow> acceleration_bundle \<Rightarrow> (nat \<times> nat) list \<Rightarrow> (nat \<times> nat) list \<Rightarrow> ranked_cch \<Rightarrow> bool" where
  "ranked_ok n b ups downs c \<longleftrightarrow> hierarchy n b ups downs \<and> length ups < 2 ^ 31 \<and> length downs < 2 ^ 31
     \<and> ranked_rows c = ranked_topology_build b"

lemma positions:
  assumes ok: "ranked_ok n b ups downs c"
  shows "s < length ups \<Longrightarrow> up_pos b c ups s < length ups" "inj_on (up_pos b c ups) {0..<length ups}"
    "s < length downs \<Longrightarrow> downward_position c b (fst (downs ! s)) (snd (downs ! s)) = Some (down_pos b c downs s)"
    "s < length downs \<Longrightarrow> down_pos b c downs s < length downs" "inj_on (down_pos b c downs) {0..<length downs}"
    "x < n \<Longrightarrow> y < n \<Longrightarrow> (x, y) \<notin> set downs \<Longrightarrow> downward_position c b x y = None"
proof -
  have h: "hierarchy n b ups downs" and small: "length ups < 2 ^ 31" "length downs < 2 ^ 31"
    and rows: "ranked_rows c = ranked_rows (ranked_build b (slot_numbers ups downs))"
    using ok by (simp_all add: ranked_ok_def)
  let ?w = "slot_numbers ups downs" and ?c = "ranked_build b (slot_numbers ups downs)"
  note shape = slot_numbers_shape[OF h] and P = positions_of_rows[OF rows]
  have up: "ranked_up_weight ?c ! up_pos b c ups s = word_of_nat s" if "s < length ups" for s
    using upward_weight_at[OF h shape that, of "fst (ups ! s)" "snd (ups ! s)"] that
    by (simp add: up_pos_def P upward_weight_def slot_numbers_def)
  have down: "map_option (\<lambda>p. ranked_down_weight ?c ! p) (downward_position c b x y)
      = (if (x, y) \<in> set downs then Some (arc_weight b ?w x y) else None)" if "y < n" for x y
    using downward_weight_at[OF h shape that, of x] by (simp add: downward_weight_def P)
  have bound: "fst (arcs ! s) < n \<and> snd (arcs ! s) < n" if "arcs \<in> {ups, downs}" "s < length arcs" for arcs s
    using that hierarchyD(4,5)[OF h, of "fst (arcs ! s)" "snd (arcs ! s)"] nth_mem[OF that(2)] by auto
  show "inj_on (up_pos b c ups) {0..<length ups}"
  proof (rule inj_onI)
    fix s s' assume "s \<in> {0..<length ups}" "s' \<in> {0..<length ups}" "up_pos b c ups s = up_pos b c ups s'"
    then show "s = s'" using up[of s] up[of s'] word_of_nat_below[of s s'] small by simp
  qed
  show "up_pos b c ups s < length ups" if s: "s < length ups" for s
  proof -
    let ?x = "fst (ups ! s)"
    have x: "?x < n" using bound[of ups s] s by simp
    note o = hierarchy_order[OF h]
    have so: "sorted_arcs n ups" "upward_first_out b = fst (arcs_to_csr ups n)" "length (up_weights ?w) = length ups"
      using h by (simp_all add: hierarchy_def slot_numbers_def)
    have k: "upward_first_out b ! ?x \<le> s" "s < upward_first_out b ! (?x + 1)"
      using csr_slot_of[OF so(1) s, of ?x "snd (ups ! s)"] x so(2) by simp_all
    have len: "length (bundle_row b (up_weights ?w) ?x) = upward_first_out b ! (?x + 1) - upward_first_out b ! ?x"
      using valid_offsetsD(3)[OF csr_valid_offsets, of ups n "?x + 1"] so x k by (simp add: bundle_row_def length_subslice sorted_arcs_def)
    have "up_first (ranked_topology_build b) ! (edge_rank b ! ?x) + length (bundle_row b (up_weights ?w) ?x) \<le> length ups"
      using ranked_up_parts(3)[OF h so(3) o(4)[OF x]] o(5)[OF x] length_ranked_weights(1)[OF h shape] by simp
    then show ?thesis using k len by (simp add: up_pos_def upward_position_def rows)
  qed
  have some: "downward_position c b (fst (downs ! s)) (snd (downs ! s)) = Some (down_pos b c downs s)
      \<and> ranked_down_weight ?c ! down_pos b c downs s = word_of_nat s" if s: "s < length downs" for s
  proof -
    have "(fst (downs ! s), snd (downs ! s)) \<in> set downs" using s by simp
    moreover have "arc_weight b ?w (fst (downs ! s)) (snd (downs ! s)) = word_of_nat s"
      using arc_weight_at(2)[OF h s, of "fst (downs ! s)" "snd (downs ! s)" ?w] s by (simp add: slot_numbers_def)
    ultimately show ?thesis using down[of "snd (downs ! s)" "fst (downs ! s)"] bound[of downs s] s
      by (auto simp: down_pos_def)
  qed
  show "s < length downs \<Longrightarrow> downward_position c b (fst (downs ! s)) (snd (downs ! s)) = Some (down_pos b c downs s)"
    using some by blast
  show "inj_on (down_pos b c downs) {0..<length downs}"
  proof (rule inj_onI)
    fix s s' assume "s \<in> {0..<length downs}" "s' \<in> {0..<length downs}" "down_pos b c downs s = down_pos b c downs s'"
    then show "s = s'" using some[of s] some[of s'] word_of_nat_below[of s s'] small by simp
  qed
  show "downward_position c b x y = None" if "x < n" "y < n" "(x, y) \<notin> set downs"
    using down[OF that(2), of x] that(3) by simp
  show "down_pos b c downs s < length downs" if s: "s < length downs" for s
    using downward_position_bound[OF h, where x = "fst (downs ! s)" and y = "snd (downs ! s)" and w = ?w] some[OF s] bound[of downs s] s
    by (simp add: P)
qed

section \<open>Located arcs\<close>

lemma locate_arc_iff:
  assumes ok: "ranked_ok n b ups downs c" and n: "x < n" "y < n"
  shows "locate_arc b c x y = Some (False, p) \<longleftrightarrow> (\<exists>s<length ups. ups ! s = (x, y) \<and> p = up_pos b c ups s)"
    "locate_arc b c x y = Some (True, p) \<longleftrightarrow> (\<exists>s<length downs. downs ! s = (x, y) \<and> p = down_pos b c downs s)"
proof -
  have h: "hierarchy n b ups downs" using ok by (simp add: ranked_ok_def)
  note slot = upward_slot_iff(1)[OF h n(1), of y] and P = positions[OF ok]
  have up: "(x, y) \<in> set ups" if "s < length ups" "ups ! s = (x, y)" for s using that nth_mem by metis
  have down: "(x, y) \<in> set downs" if "s < length downs" "downs ! s = (x, y)" for s using that nth_mem by metis
  show "locate_arc b c x y = Some (False, p) \<longleftrightarrow> (\<exists>s<length ups. ups ! s = (x, y) \<and> p = up_pos b c ups s)"
  proof (cases "edge_rank b ! x < edge_rank b ! y")
    case True
    then show ?thesis by (auto simp: locate_arc_def slot up_pos_def)
  next
    case False
    then show ?thesis using up hierarchyD(4)[OF h, of x y] by (auto simp: locate_arc_def)
  qed
  show "locate_arc b c x y = Some (True, p) \<longleftrightarrow> (\<exists>s<length downs. downs ! s = (x, y) \<and> p = down_pos b c downs s)"
  proof (cases "edge_rank b ! x < edge_rank b ! y")
    case True
    then show ?thesis using down hierarchyD(5)[OF h, of x y] by (auto simp: locate_arc_def)
  next
    case False
    have "downward_position c b x y = Some p \<longleftrightarrow> (\<exists>s<length downs. downs ! s = (x, y) \<and> p = down_pos b c downs s)"
    proof (cases "(x, y) \<in> set downs")
      case True
      then obtain s where s: "s < length downs" "downs ! s = (x, y)" by (metis in_set_conv_nth)
      have "s' = s" if "s' < length downs" "downs ! s' = (x, y)" for s'
        using hierarchyD(3)[OF h] that s nth_eq_iff_index_eq[of downs s' s] by (simp add: sorted_arcs_def strict_sorted_iff)
      then have "(\<exists>s<length downs. downs ! s = (x, y) \<and> p = down_pos b c downs s) \<longleftrightarrow> p = down_pos b c downs s"
        using s by blast
      moreover have "downward_position c b x y = Some (down_pos b c downs s)" using P(3)[OF s(1)] unfolding s(2) fst_conv snd_conv .
      ultimately show ?thesis by auto
    qed (use P(6) n down in auto)
    then show ?thesis using False by (simp add: locate_arc_def)
  qed
qed

lemma located:
  assumes ok: "ranked_ok n b ups downs c"
  shows "x < n \<Longrightarrow> y < n \<Longrightarrow> locate_arc b c x y = None \<longleftrightarrow> (x, y) \<notin> set ups \<union> set downs"
    "x < n \<Longrightarrow> y < n \<Longrightarrow> locate_arc b c x y = Some l \<Longrightarrow> snd l < (if fst l then length downs else length ups)"
    "x < n \<Longrightarrow> y < n \<Longrightarrow> x' < n \<Longrightarrow> y' < n \<Longrightarrow> locate_arc b c x y = Some l \<Longrightarrow> locate_arc b c x' y' = Some l \<Longrightarrow> x = x' \<and> y = y'"
proof -
  note L = locate_arc_iff[OF ok] and P = positions[OF ok]
  show "locate_arc b c x y = None \<longleftrightarrow> (x, y) \<notin> set ups \<union> set downs" if "x < n" "y < n"
  proof -
    have "locate_arc b c x y \<noteq> None \<longleftrightarrow> (\<exists>p. locate_arc b c x y = Some (False, p)) \<or> (\<exists>p. locate_arc b c x y = Some (True, p))"
      by (auto simp: locate_arc_def)
    then show ?thesis unfolding L[OF that] by (auto simp: in_set_conv_nth)
  qed
  show "snd l < (if fst l then length downs else length ups)"
    if n: "x < n" "y < n" and l: "locate_arc b c x y = Some l"
  proof (cases l)
    case (Pair d p)
    show ?thesis
    proof (cases d)
      case True
      then obtain s where "s < length downs" "p = down_pos b c downs s" using L(2)[OF n, of p] l Pair by auto
      then show ?thesis using P(4) True Pair by simp
    next
      case False
      then obtain s where "s < length ups" "p = up_pos b c ups s" using L(1)[OF n, of p] l Pair by auto
      then show ?thesis using P(1) False Pair by simp
    qed
  qed
  show "x = x' \<and> y = y'" if n: "x < n" "y < n" "x' < n" "y' < n" and l: "locate_arc b c x y = Some l" "locate_arc b c x' y' = Some l"
  proof (cases l)
    case (Pair d p)
    show ?thesis
    proof (cases d)
      case True
      then obtain s s' where "s < length downs" "downs ! s = (x, y)" "p = down_pos b c downs s"
        "s' < length downs" "downs ! s' = (x', y')" "p = down_pos b c downs s'"
        using l Pair L(2)[OF n(1,2), of p] L(2)[OF n(3,4), of p] by auto
      then show ?thesis using inj_onD[OF P(5), of s s'] by auto
    next
      case False
      then obtain s s' where "s < length ups" "ups ! s = (x, y)" "p = up_pos b c ups s"
        "s' < length ups" "ups ! s' = (x', y')" "p = up_pos b c ups s'"
        using l Pair L(1)[OF n(1,2), of p] L(1)[OF n(3,4), of p] by auto
      then show ?thesis using inj_onD[OF P(2), of s s'] by auto
    qed
  qed
qed

lemma located_onto:
  assumes ok: "ranked_ok n b ups downs c"
  shows "p < length ups \<Longrightarrow> \<exists>x y. x < n \<and> y < n \<and> locate_arc b c x y = Some (False, p)"
    "p < length downs \<Longrightarrow> \<exists>x y. x < n \<and> y < n \<and> locate_arc b c x y = Some (True, p)"
proof -
  have h: "hierarchy n b ups downs" using ok by (simp add: ranked_ok_def)
  note L = locate_arc_iff[OF ok] and P = positions[OF ok]
  show "\<exists>x y. x < n \<and> y < n \<and> locate_arc b c x y = Some (False, p)" if p: "p < length ups"
  proof -
    obtain s where s: "s < length ups" "up_pos b c ups s = p" using bijective_positions[OF P(2) P(1) p] by blast
    obtain x y where xy: "ups ! s = (x, y)" by (cases "ups ! s")
    then have "x < n" "y < n" using hierarchyD(4)[OF h, of x y] nth_mem[OF s(1)] by auto
    then show ?thesis using L(1)[of x y p] s xy by blast
  qed
  show "\<exists>x y. x < n \<and> y < n \<and> locate_arc b c x y = Some (True, p)" if p: "p < length downs"
  proof -
    obtain s where s: "s < length downs" "down_pos b c downs s = p" using bijective_positions[OF P(5) P(4) p] by blast
    obtain x y where xy: "downs ! s = (x, y)" by (cases "downs ! s")
    then have "x < n" "y < n" using hierarchyD(5)[OF h, of x y] nth_mem[OF s(1)] by auto
    then show ?thesis using L(2)[of x y p] s xy by blast
  qed
qed

section \<open>Weights and queue bits of arcs\<close>

definition sized :: "(nat \<times> nat) list \<Rightarrow> (nat \<times> nat) list \<Rightarrow> update_state \<Rightarrow> bool" where
  "sized ups downs s \<longleftrightarrow> length (new_upward s) = length ups \<and> length (queued_up s) = length ups
     \<and> length (new_downward s) = length downs \<and> length (queued_down s) = length downs"

definition current :: "acceleration_bundle \<Rightarrow> ranked_cch \<Rightarrow> update_state \<Rightarrow> nat \<Rightarrow> nat \<Rightarrow> u32" where
  "current b c s x y =
     (if x < length (edge_rank b) \<and> y < length (edge_rank b)
      then case locate_arc b c x y of None \<Rightarrow> CCH_WEIGHT_INFINITY | Some target \<Rightarrow> ranked_weight s target
      else CCH_WEIGHT_INFINITY)"

lemma ranked_weight_set:
  "sized ups downs s \<Longrightarrow> snd t < (if fst t then length downs else length ups) \<Longrightarrow>
    ranked_weight (set_ranked_weight s t v) t' = (if t' = t then v else ranked_weight s t')"
  by (cases t; cases t') (auto simp: sized_def ranked_weight_def set_ranked_weight_def nth_list_update split: if_splits)

lemma queued_bit_set:
  "sized ups downs s \<Longrightarrow> snd t < (if fst t then length downs else length ups) \<Longrightarrow>
    queued_bit (set_queued_bit s t) t' = (t' = t \<or> queued_bit s t')"
  by (cases t; cases t') (auto simp: sized_def queued_bit_def set_queued_bit_def nth_list_update split: if_splits)

lemma set_simps [simp]:
  "ranked_weight (set_queued_bit s t) = ranked_weight s" "queued_bit (set_ranked_weight s t v) = queued_bit s"
  "ranked_weight (s\<lparr>arc_queue := q\<rparr>) = ranked_weight s" "queued_bit (s\<lparr>arc_queue := q\<rparr>) = queued_bit s"
  "arc_queue (set_queued_bit s t) = arc_queue s" "arc_queue (set_ranked_weight s t v) = arc_queue s"
  "sized ups downs (set_queued_bit s t) = sized ups downs s" "sized ups downs (set_ranked_weight s t v) = sized ups downs s"
  "sized ups downs (s\<lparr>arc_queue := q\<rparr>) = sized ups downs s"
  by (auto simp: fun_eq_iff ranked_weight_def queued_bit_def set_queued_bit_def set_ranked_weight_def sized_def)

lemma current_set:
  assumes ok: "ranked_ok n b ups downs c" and "sized ups downs s" "x < n" "y < n" "locate_arc b c x y = Some t"
  shows "current b c (set_ranked_weight s t v) x' y' = (if x' = x \<and> y' = y then v else current b c s x' y')"
proof -
  have n: "length (edge_rank b) = n" using ok hierarchyD(1) by (auto simp: ranked_ok_def)
  note w = ranked_weight_set[OF assms(2) located(2)[OF ok assms(3-5)]]
  show ?thesis
  proof (cases "x' < n \<and> y' < n")
    case True
    show ?thesis
    proof (cases "locate_arc b c x' y'")
      case None
      then show ?thesis using assms(5) by (auto simp: current_def)
    next
      case (Some t')
      have "t' = t \<longleftrightarrow> x' = x \<and> y' = y"
        using located(3)[OF ok assms(3,4) conjunct1[OF True] conjunct2[OF True] assms(5)] Some assms(5) by auto
      then show ?thesis using True n Some w by (simp add: current_def)
    qed
  next
    case False
    then show ?thesis using n assms(3,4) by (auto simp: current_def)
  qed
qed

section \<open>The recomputed value\<close>

definition fits :: "nat \<Rightarrow> (nat \<Rightarrow> nat) \<Rightarrow> (nat \<Rightarrow> nat \<Rightarrow> u32) \<Rightarrow> (nat \<Rightarrow> nat \<Rightarrow> u32) \<Rightarrow> nat \<Rightarrow> nat \<Rightarrow> u32 \<Rightarrow> bool" where
  "fits n r base C x y v \<longleftrightarrow> v \<le> base x y
     \<and> (\<forall>m<n. r m < r x \<longrightarrow> r m < r y \<longrightarrow> v \<le> add_cch_weights (C x m) (C m y))
     \<and> (v = base x y \<or> (\<exists>m<n. r m < r x \<and> r m < r y \<and> v = add_cch_weights (C x m) (C m y)))"

lemma current_arc:
  assumes ok: "ranked_ok n b ups downs c" and "x < n" "y < n"
  shows "current b c s x y = (case locate_arc b c x y of None \<Rightarrow> CCH_WEIGHT_INFINITY | Some t \<Rightarrow> ranked_weight s t)"
    "(x, y) \<notin> set ups \<union> set downs \<Longrightarrow> current b c s x y = CCH_WEIGHT_INFINITY"
proof -
  have "length (edge_rank b) = n" using ok hierarchyD(1) by (auto simp: ranked_ok_def)
  then show e: "current b c s x y = (case locate_arc b c x y of None \<Rightarrow> CCH_WEIGHT_INFINITY | Some t \<Rightarrow> ranked_weight s t)"
    using assms(2,3) by (simp add: current_def)
  show "(x, y) \<notin> set ups \<union> set downs \<Longrightarrow> current b c s x y = CCH_WEIGHT_INFINITY"
    unfolding e using located(1)[OF ok assms(2,3)] by simp
qed

lemma min_infinity [simp]: "min v CCH_WEIGHT_INFINITY = v"
  by (simp add: min_def antisym)

lemma lower_triangle_value:
  assumes ok: "ranked_ok n b ups downs c" and y: "y < n" and left: "left < length downs" "downs ! left = (x, m)"
  shows "lower_triangle b c s x y v left
    = Some (if edge_rank b ! m < edge_rank b ! y then min v (add_cch_weights (current b c s x m) (current b c s m y)) else v)"
proof -
  have h: "hierarchy n b ups downs" using ok by (simp add: ranked_ok_def)
  have arc: "x < n" "m < n" "edge_rank b ! m < edge_rank b ! x"
    using hierarchyD(5)[OF h, of x m] nth_mem[OF left(1)] left(2) by auto
  have mid: "downward_head b ! left = m" using h left by (simp add: hierarchy_def)
  have pos: "downward_position c b x m = Some (down_pos b c downs left)" using positions(3)[OF ok left(1)] left(2) by simp
  have l: "current b c s x m = new_downward s ! down_pos b c downs left"
    unfolding current_arc(1)[OF ok arc(1,2)] using pos arc(3) by (simp add: locate_arc_def ranked_weight_def)
  show ?thesis
  proof (cases "edge_rank b ! m < edge_rank b ! y")
    case True
    show ?thesis
    proof (cases "upward_arc_slot b m y")
      case None
      then have "current b c s m y = CCH_WEIGHT_INFINITY"
        unfolding current_arc(1)[OF ok arc(2) y] using True by (simp add: locate_arc_def)
      then show ?thesis using None True by (simp add: lower_triangle_def mid Let_def)
    next
      case (Some right)
      then have r: "current b c s m y = new_upward s ! upward_position c b m right"
        unfolding current_arc(1)[OF ok arc(2) y] using True by (simp add: locate_arc_def ranked_weight_def)
      show ?thesis using Some True pos by (auto simp: lower_triangle_def mid Let_def l r)
    qed
  qed (simp add: lower_triangle_def mid Let_def)
qed

lemma lower_triangles_value:
  assumes ok: "ranked_ok n b ups downs c" and y: "y < n"
  shows "\<forall>l\<in>set slots. l < length downs \<and> fst (downs ! l) = x \<Longrightarrow>
    \<exists>v'. lower_triangles b c s x y v slots = Some v' \<and> v' \<le> v
      \<and> (\<forall>l\<in>set slots. \<forall>m. downs ! l = (x, m) \<longrightarrow> edge_rank b ! m < edge_rank b ! y \<longrightarrow>
            v' \<le> add_cch_weights (current b c s x m) (current b c s m y))
      \<and> (v' = v \<or> (\<exists>l\<in>set slots. \<exists>m. downs ! l = (x, m) \<and> edge_rank b ! m < edge_rank b ! y
            \<and> v' = add_cch_weights (current b c s x m) (current b c s m y)))"
proof (induction slots arbitrary: v)
  case (Cons l slots)
  obtain m where m: "l < length downs" "downs ! l = (x, m)" using Cons.prems by (cases "downs ! l") auto
  define u where "u = (if edge_rank b ! m < edge_rank b ! y then min v (add_cch_weights (current b c s x m) (current b c s m y)) else v)"
  have step: "lower_triangle b c s x y v l = Some u" unfolding u_def by (rule lower_triangle_value[OF ok y m])
  have u: "u \<le> v" "edge_rank b ! m < edge_rank b ! y \<Longrightarrow> u \<le> add_cch_weights (current b c s x m) (current b c s m y)"
    "u = v \<or> edge_rank b ! m < edge_rank b ! y \<and> u = add_cch_weights (current b c s x m) (current b c s m y)"
    by (auto simp: u_def min_def)
  obtain v' where v': "lower_triangles b c s x y u slots = Some v'" "v' \<le> u"
    "\<forall>l\<in>set slots. \<forall>m. downs ! l = (x, m) \<longrightarrow> edge_rank b ! m < edge_rank b ! y \<longrightarrow>
            v' \<le> add_cch_weights (current b c s x m) (current b c s m y)"
    "v' = u \<or> (\<exists>l\<in>set slots. \<exists>m. downs ! l = (x, m) \<and> edge_rank b ! m < edge_rank b ! y
            \<and> v' = add_cch_weights (current b c s x m) (current b c s m y))"
    using Cons.IH[of u] Cons.prems by auto
  have "lower_triangles b c s x y v (l # slots) = Some v'" using step v'(1) by simp
  moreover have "v' \<le> v" using u(1) v'(2) by (rule order_trans[rotated])
  moreover have "v' \<le> add_cch_weights (current b c s x m') (current b c s m' y)"
    if "l' \<in> set (l # slots)" "downs ! l' = (x, m')" "edge_rank b ! m' < edge_rank b ! y" for l' m'
    using that v'(2,3) u(2) m(2) order_trans by (metis prod.inject set_ConsD)
  moreover have "v' = v \<or> (\<exists>l\<in>set (l # slots). \<exists>m. downs ! l = (x, m) \<and> edge_rank b ! m < edge_rank b ! y
            \<and> v' = add_cch_weights (current b c s x m) (current b c s m y))"
    using v'(4) u(3) m(2) by auto
  ultimately show ?case by blast
qed simp

lemma recomputed_fits:
  assumes ok: "ranked_ok n b ups downs c" and n: "x < n" "y < n"
  shows "\<exists>v. recomputed b c base s x y = Some v \<and> fits n ((!) (edge_rank b)) base (current b c s) x y v"
proof -
  have h: "hierarchy n b ups downs" using ok by (simp add: ranked_ok_def)
  let ?row = "[downward_first_out b ! x ..< downward_first_out b ! (x + 1)]"
  have row: "set ?row = {l. l < length downs \<and> fst (downs ! l) = x}"
    using csr_range[OF sorted_arcs_fst[OF hierarchyD(3)[OF h]] n(1)] h by (simp add: hierarchy_def)
  obtain v where v: "recomputed b c base s x y = Some v" "v \<le> base x y"
    "\<forall>l\<in>set ?row. \<forall>m. downs ! l = (x, m) \<longrightarrow> edge_rank b ! m < edge_rank b ! y \<longrightarrow>
        v \<le> add_cch_weights (current b c s x m) (current b c s m y)"
    "v = base x y \<or> (\<exists>l\<in>set ?row. \<exists>m. downs ! l = (x, m) \<and> edge_rank b ! m < edge_rank b ! y
        \<and> v = add_cch_weights (current b c s x m) (current b c s m y))"
  proof -
    have "\<forall>l\<in>set ?row. l < length downs \<and> fst (downs ! l) = x" unfolding row by blast
    from lower_triangles_value[OF ok n(2) this, of s "base x y"] show ?thesis
      using that unfolding recomputed_def by blast
  qed
  have "v \<le> add_cch_weights (current b c s x m) (current b c s m y)"
    if m: "m < n" "edge_rank b ! m < edge_rank b ! x" "edge_rank b ! m < edge_rank b ! y" for m
  proof (cases "(x, m) \<in> set downs")
    case True
    then obtain l where "l < length downs" "downs ! l = (x, m)" by (metis in_set_conv_nth)
    moreover from this have "l \<in> set ?row" unfolding row by simp
    ultimately show ?thesis using v(3) m(3) by blast
  next
    case False
    then have "(x, m) \<notin> set ups \<union> set downs" using hierarchyD(4)[OF h, of x m] m(2) by auto
    then show ?thesis using current_arc(2)[OF ok n(1) m(1)] by simp
  qed
  moreover have "v = base x y \<or> (\<exists>m<n. edge_rank b ! m < edge_rank b ! x \<and> edge_rank b ! m < edge_rank b ! y
        \<and> v = add_cch_weights (current b c s x m) (current b c s m y))"
  proof (cases "v = base x y")
    case False
    then obtain l m where l: "l \<in> set ?row" "downs ! l = (x, m)" "edge_rank b ! m < edge_rank b ! y"
      "v = add_cch_weights (current b c s x m) (current b c s m y)" using v(4) by blast
    from l(1) have "l < length downs" unfolding row by blast
    then have "(x, m) \<in> set downs" using nth_mem[of l downs] l(2) by simp
    then show ?thesis using hierarchyD(5)[OF h, of x m] l(3,4) by blast
  qed simp
  ultimately show ?thesis using v(1,2) by (auto simp: fits_def)
qed

section \<open>The queue\<close>

definition waiting :: "update_state \<Rightarrow> (nat \<times> nat) set" where
  "waiting s = (\<lambda>(l, d, p, x, y). (x, y)) ` set (arc_queue s)"

definition marked :: "nat \<Rightarrow> acceleration_bundle \<Rightarrow> ranked_cch \<Rightarrow> update_state \<Rightarrow> (nat \<times> nat) set" where
  "marked n b c s = {(x, y). x < n \<and> y < n \<and> (\<exists>t. locate_arc b c x y = Some t \<and> queued_bit s t)}"

definition lower_end :: "acceleration_bundle \<Rightarrow> nat \<times> nat \<Rightarrow> nat" where
  "lower_end b a = min (edge_rank b ! fst a) (edge_rank b ! snd a)"

definition queue_ok :: "nat \<Rightarrow> acceleration_bundle \<Rightarrow> ranked_cch \<Rightarrow> update_state \<Rightarrow> bool" where
  "queue_ok n b c s \<longleftrightarrow> (\<forall>(l, d, p, x, y)\<in>set (arc_queue s).
     x < n \<and> y < n \<and> locate_arc b c x y = Some (d, p) \<and> l = lower_end b (x, y))"

definition open_bits :: "update_state \<Rightarrow> nat" where
  "open_bits s = length (filter Not (queued_up s)) + length (filter Not (queued_down s))"

definition work :: "update_state \<Rightarrow> nat" where
  "work s = 2 * open_bits s + length (arc_queue s)"

text \<open>What enqueueing the arcs \<open>as\<close> does to the state.\<close>

definition grown :: "nat \<Rightarrow> acceleration_bundle \<Rightarrow> ranked_cch \<Rightarrow> (nat \<times> nat) list \<Rightarrow> (nat \<times> nat) list \<Rightarrow>
    (nat \<times> nat) list \<Rightarrow> update_state \<Rightarrow> update_state \<Rightarrow> bool" where
  "grown n b c ups downs as s s' \<longleftrightarrow>
     (sized ups downs s' \<and> queue_ok n b c s' \<and> ranked_weight s' = ranked_weight s)
     \<and> (waiting s \<subseteq> waiting s' \<and> waiting s' \<subseteq> waiting s \<union> set as)
     \<and> (marked n b c s \<subseteq> marked n b c s' \<and> marked n b c s' \<subseteq> marked n b c s \<union> waiting s')
     \<and> (set as \<inter> (set ups \<union> set downs) \<subseteq> marked n b c s \<union> waiting s') \<and> work s' \<le> work s"

lemma open_bits_update: "p < length bs \<Longrightarrow> \<not> bs ! p \<Longrightarrow> Suc (length (filter Not (bs[p := True]))) = length (filter Not bs)"
proof (induction bs arbitrary: p)
  case (Cons x bs)
  then show ?case by (cases p) auto
qed simp

lemma open_bits_set:
  "sized ups downs s \<Longrightarrow> snd t < (if fst t then length downs else length ups) \<Longrightarrow> \<not> queued_bit s t \<Longrightarrow>
    Suc (open_bits (set_queued_bit s t)) = open_bits s"
  using open_bits_update[of "snd t" "queued_up s"] open_bits_update[of "snd t" "queued_down s"]
  by (auto simp: sized_def queued_bit_def set_queued_bit_def open_bits_def split: if_splits)

lemma enqueue_grown:
  assumes ok: "ranked_ok n b ups downs c" and s: "sized ups downs s" "queue_ok n b c s" and n: "x < n" "y < n"
  shows "grown n b c ups downs [(x, y)] s (enqueue b c s (x, y))"
proof (cases "\<exists>t. x \<noteq> y \<and> locate_arc b c x y = Some t \<and> \<not> queued_bit s t")
  case True
  then obtain t where t: "x \<noteq> y" "locate_arc b c x y = Some t" "\<not> queued_bit s t" by blast
  note bound = located(2)[OF ok n t(2)]
  let ?s = "set_queued_bit s t" and ?s' = "(set_queued_bit s t)\<lparr>arc_queue := (lower_end b (x, y), fst t, snd t, x, y) # arc_queue s\<rparr>"
  have e: "enqueue b c s (x, y) = ?s'" using t by (simp add: enqueue_def Let_def lower_end_def)
  have m: "marked n b c ?s' = insert (x, y) (marked n b c s)"
  proof -
    have "locate_arc b c x' y' = Some t \<longleftrightarrow> x' = x \<and> y' = y" if "x' < n" "y' < n" for x' y'
    proof
      show "x' = x \<and> y' = y" if l: "locate_arc b c x' y' = Some t"
        by (rule located(3)[OF ok \<open>x' < n\<close> \<open>y' < n\<close> n l t(2)])
    qed (use t(2) in simp)
    then show ?thesis using n t(2) queued_bit_set[OF s(1) bound] by (cases t) (auto simp: marked_def)
  qed
  have "queue_ok n b c ?s'" using s(2) n t(2) by (simp add: queue_ok_def)
  moreover have "waiting ?s' = insert (x, y) (waiting s)" by (simp add: waiting_def)
  moreover have "work ?s' < work s" using open_bits_set[OF s(1) bound t(3)] by (simp add: work_def open_bits_def)
  ultimately show ?thesis unfolding e grown_def m using s(1) by auto
next
  case False
  then have e: "enqueue b c s (x, y) = s" by (auto simp: enqueue_def split: option.splits)
  have h: "hierarchy n b ups downs" using ok by (simp add: ranked_ok_def)
  have "(x, y) \<in> marked n b c s" if "(x, y) \<in> set ups \<union> set downs"
    using located(1)[OF ok n] that False n hierarchyD(4,5)[OF h, of x y] by (auto simp: marked_def)
  then show ?thesis unfolding e grown_def using s by auto
qed

lemma grown_trans:
  assumes "grown n b c ups downs as s s'" "grown n b c ups downs as' s' s''"
  shows "grown n b c ups downs (as @ as') s s''"
proof -
  have w: "waiting s \<subseteq> waiting s'" "waiting s' \<subseteq> waiting s \<union> set as" "waiting s' \<subseteq> waiting s''" "waiting s'' \<subseteq> waiting s' \<union> set as'"
    and m: "marked n b c s \<subseteq> marked n b c s'" "marked n b c s' \<subseteq> marked n b c s \<union> waiting s'"
      "marked n b c s' \<subseteq> marked n b c s''" "marked n b c s'' \<subseteq> marked n b c s' \<union> waiting s''"
    and a: "set as \<inter> (set ups \<union> set downs) \<subseteq> marked n b c s \<union> waiting s'"
      "set as' \<inter> (set ups \<union> set downs) \<subseteq> marked n b c s' \<union> waiting s''"
    and r: "sized ups downs s'' \<and> queue_ok n b c s''" "ranked_weight s' = ranked_weight s" "ranked_weight s'' = ranked_weight s'"
      "work s' \<le> work s" "work s'' \<le> work s'"
    using assms unfolding grown_def by blast+
  have "set (as @ as') \<inter> (set ups \<union> set downs) \<subseteq> marked n b c s \<union> waiting s''"
    using a w(3) m(2) unfolding set_append by blast
  moreover have "marked n b c s'' \<subseteq> marked n b c s \<union> waiting s''" using m(2,4) w(3) by blast
  moreover have "waiting s'' \<subseteq> waiting s \<union> set (as @ as')" using w(2,4) unfolding set_append by blast
  moreover have "waiting s \<subseteq> waiting s''" "marked n b c s \<subseteq> marked n b c s''" using w(1,3) m(1,3) by blast+
  moreover have "work s'' \<le> work s" "ranked_weight s'' = ranked_weight s" using r by simp_all
  ultimately show ?thesis using r(1) unfolding grown_def by blast
qed

lemma enqueue_all_grown:
  assumes ok: "ranked_ok n b ups downs c"
  shows "sized ups downs s \<Longrightarrow> queue_ok n b c s \<Longrightarrow> set as \<subseteq> {0..<n} \<times> {0..<n} \<Longrightarrow>
    grown n b c ups downs as s (foldl (enqueue b c) s as)"
proof (induction "as" arbitrary: s)
  case Nil
  then show ?case by (simp add: grown_def)
next
  case (Cons a as)
  obtain x y where a: "a = (x, y)" by (cases a)
  have one: "grown n b c ups downs [a] s (enqueue b c s a)"
    using enqueue_grown[OF ok Cons.prems(1,2)] Cons.prems(3) a by auto
  then have "sized ups downs (enqueue b c s a)" "queue_ok n b c (enqueue b c s a)" by (simp_all add: grown_def)
  from Cons.IH[OF this] have rest: "grown n b c ups downs as (enqueue b c s a) (foldl (enqueue b c) (enqueue b c s a) as)"
    using Cons.prems(3) by simp
  show ?case unfolding foldl_Cons by (rule grown_trans[OF one rest, unfolded append.simps])
qed

lemma dependants_set:
  assumes ok: "ranked_ok n b ups downs c" and n: "x < n" "y < n"
  shows "set (dependants b c d x y) = (if d then {(x, z) | z. (y, z) \<in> set ups} else {(z, y) | z. (z, x) \<in> set downs})"
proof (cases d)
  case True
  have h: "hierarchy n b ups downs" using ok by (simp add: ranked_ok_def)
  let ?row = "[upward_first_out b ! y ..< upward_first_out b ! (y + 1)]"
  have row: "set ?row = {l. l < length ups \<and> fst (ups ! l) = y}"
    using csr_range[OF sorted_arcs_fst[OF hierarchyD(2)[OF h]] n(2)] h by (simp add: hierarchy_def)
  have "set (dependants b c d x y) = (\<lambda>l. (x, upward_head b ! l)) ` set ?row" using True by (simp add: dependants_def)
  also have "\<dots> = (\<lambda>l. (x, snd (ups ! l))) ` {l. l < length ups \<and> fst (ups ! l) = y}"
    unfolding row using h by (intro image_cong refl) (simp add: hierarchy_def)
  also have "\<dots> = {(x, z) | z. (y, z) \<in> set ups}"
  proof (intro set_eqI iffI)
    fix a assume "a \<in> (\<lambda>l. (x, snd (ups ! l))) ` {l. l < length ups \<and> fst (ups ! l) = y}"
    then obtain l where l: "a = (x, snd (ups ! l))" "l < length ups" "fst (ups ! l) = y" by blast
    then have "(y, snd (ups ! l)) \<in> set ups" using nth_mem[OF l(2)] by (metis prod.collapse)
    then show "a \<in> {(x, z) | z. (y, z) \<in> set ups}" using l(1) by blast
  next
    fix a assume "a \<in> {(x, z) | z. (y, z) \<in> set ups}"
    then obtain z l where "a = (x, z)" "l < length ups" "ups ! l = (y, z)" by (auto simp: in_set_conv_nth)
    then show "a \<in> (\<lambda>l. (x, snd (ups ! l))) ` {l. l < length ups \<and> fst (ups ! l) = y}" by (auto intro!: image_eqI[of _ _ l])
  qed
  finally show ?thesis using True by simp
next
  case False
  have h: "hierarchy n b ups downs" and rows: "ranked_rows c = ranked_rows (ranked_build b (slot_numbers ups downs))"
    using ok by (simp_all add: ranked_ok_def)
  note o = hierarchy_order[OF h]
  let ?t = "ranked_rows c" and ?r = "edge_rank b ! x"
  have r: "?r < n" "edge_order b ! ?r = x" using o(4,5) n(1) by simp_all
  note q = ranked_down_parts[OF h r(1), of "slot_numbers ups downs", folded rows]
  have tails: "map (\<lambda>p. down_tails ?t ! p) [down_first ?t ! ?r ..< down_first ?t ! (?r + 1)] = map (\<lambda>s. edge_rank b ! fst (downs ! s)) (slots_into downs x)"
    using subslice_map_nth[OF q(5), of "down_first ?t ! ?r"] q(1) r(2) by simp
  have "dependants b c d x y = map (\<lambda>k. (edge_order b ! k, y)) (map (\<lambda>p. down_tails ?t ! p) [down_first ?t ! ?r ..< down_first ?t ! (?r + 1)])"
    using False by (simp add: dependants_def Let_def comp_def)
  also have "\<dots> = map (\<lambda>s. (edge_order b ! (edge_rank b ! fst (downs ! s)), y)) (slots_into downs x)"
    unfolding tails by (simp add: comp_def)
  finally have "set (dependants b c d x y) = set (map (\<lambda>s. (edge_order b ! (edge_rank b ! fst (downs ! s)), y)) (slots_into downs x))"
    by (rule arg_cong)
  also have "\<dots> = (\<lambda>s. (fst (downs ! s), y)) ` set (slots_into downs x)"
  proof -
    have "fst (downs ! s) < n" if "s \<in> set (slots_into downs x)" for s
      using that hierarchyD(5)[OF h, of "fst (downs ! s)" x] nth_mem[of s downs] unfolding slots_into_mem by simp
    then show ?thesis using o(5) by (auto intro!: image_cong)
  qed
  also have "\<dots> = {(z, y) | z. (z, x) \<in> set downs}"
  proof (intro set_eqI iffI)
    fix a assume "a \<in> (\<lambda>s. (fst (downs ! s), y)) ` set (slots_into downs x)"
    then obtain l where l: "a = (fst (downs ! l), y)" "l < length downs" "snd (downs ! l) = x"
      by (auto simp: slots_into_def)
    then have "(fst (downs ! l), x) \<in> set downs" using nth_mem[OF l(2)] by (metis prod.collapse)
    then show "a \<in> {(z, y) | z. (z, x) \<in> set downs}" using l(1) by blast
  next
    fix a assume "a \<in> {(z, y) | z. (z, x) \<in> set downs}"
    then obtain z l where "a = (z, y)" "l < length downs" "downs ! l = (z, x)" by (auto simp: in_set_conv_nth)
    then show "a \<in> (\<lambda>s. (fst (downs ! s), y)) ` set (slots_into downs x)"
      by (intro image_eqI[of _ _ l]) (simp_all add: slots_into_mem)
  qed
  finally show ?thesis using False by simp
qed

section \<open>The loop\<close>

text \<open>Every arc is settled or waiting, and an arc whose bit is set but which waits no more lies below
  everything that waits.\<close>

definition update_inv :: "nat \<Rightarrow> acceleration_bundle \<Rightarrow> ranked_cch \<Rightarrow> (nat \<times> nat) list \<Rightarrow> (nat \<times> nat) list \<Rightarrow>
    (nat \<Rightarrow> nat \<Rightarrow> u32) \<Rightarrow> update_state \<Rightarrow> bool" where
  "update_inv n b c ups downs base s \<longleftrightarrow> sized ups downs s \<and> queue_ok n b c s
     \<and> (\<forall>(x, y)\<in>set ups \<union> set downs. (x, y) \<in> waiting s
          \<or> fits n ((!) (edge_rank b)) base (current b c s) x y (current b c s x y))
     \<and> (\<forall>a\<in>marked n b c s - waiting s. \<forall>a'\<in>waiting s. lower_end b a \<le> lower_end b a')"

lemma fits_cong:
  assumes "fits n r base C x y v"
    "\<And>m. m < n \<Longrightarrow> r m < r x \<Longrightarrow> r m < r y \<Longrightarrow> add_cch_weights (C' x m) (C' m y) = add_cch_weights (C x m) (C m y)"
  shows "fits n r base C' x y v"
proof -
  have "v \<le> add_cch_weights (C' x m) (C' m y)" if "m < n" "r m < r x" "r m < r y" for m
    using assms that by (simp add: fits_def)
  moreover have "v = base x y \<or> (\<exists>m<n. r m < r x \<and> r m < r y \<and> v = add_cch_weights (C' x m) (C' m y))"
    using assms by (auto simp: fits_def)
  ultimately show ?thesis using assms(1) by (simp add: fits_def)
qed

lemma current_weights: "ranked_weight s = ranked_weight s' \<Longrightarrow> current b c s = current b c s'"
  unfolding current_def by (intro ext) (simp split: option.split)

lemma waiting_set_ranked [simp]: "waiting (set_ranked_weight s t v) = waiting s" "queue_ok n b c (set_ranked_weight s t v) = queue_ok n b c s"
  "work (set_ranked_weight s t v) = work s"
  by (simp_all add: waiting_def queue_ok_def work_def open_bits_def set_ranked_weight_def)

lemma marked_set_ranked [simp]: "marked n b c (set_ranked_weight s t v) = marked n b c s"
  by (simp add: marked_def)

lemma store_arc_inv:
  fixes b :: acceleration_bundle
  defines "r \<equiv> (!) (edge_rank b)"
  assumes ok: "ranked_ok n b ups downs c" and s: "sized ups downs s" "queue_ok n b c s"
    and n: "x < n" "y < n" and t: "locate_arc b c x y = Some t"
    and fit: "fits n r base (current b c s) x y v"
    and settled: "\<And>x' y'. (x', y') \<in> set ups \<union> set downs \<Longrightarrow> (x', y') \<noteq> (x, y) \<Longrightarrow> (x', y') \<notin> waiting s \<Longrightarrow>
        fits n r base (current b c s) x' y' (current b c s x' y')"
    and done_low: "\<And>a. a \<in> marked n b c s \<Longrightarrow> a \<notin> waiting s \<Longrightarrow> lower_end b a \<le> lower_end b (x, y)"
    and rest_high: "\<And>a. a \<in> waiting s \<Longrightarrow> lower_end b (x, y) \<le> lower_end b a"
  shows "update_inv n b c ups downs base (store_arc b c s t x y v)" "work (store_arc b c s t x y v) \<le> work s"
proof -
  have h: "hierarchy n b ups downs" using ok by (simp add: ranked_ok_def)
  let ?D = "dependants b c (fst t) x y" and ?s = "set_ranked_weight s t v"
  have arc: "if fst t then (x, y) \<in> set downs else (x, y) \<in> set ups"
  proof (cases t)
    case (Pair d p)
    show ?thesis
    proof (cases d)
      case True
      then obtain k where "k < length downs" "downs ! k = (x, y)" using t locate_arc_iff(2)[OF ok n, of p] Pair by auto
      then show ?thesis using nth_mem[of k downs] True Pair by simp
    next
      case False
      then obtain k where "k < length ups" "ups ! k = (x, y)" using t locate_arc_iff(1)[OF ok n, of p] Pair by auto
      then show ?thesis using nth_mem[of k ups] False Pair by simp
    qed
  qed
  have deps: "set ?D = (if fst t then {(x, z) | z. (y, z) \<in> set ups} else {(z, y) | z. (z, x) \<in> set downs})"
    by (rule dependants_set[OF ok n])
  have high: "lower_end b (x, y) < lower_end b a" if "a \<in> set ?D" for a
    using that arc hierarchyD(4,5)[OF h] unfolding deps by (auto simp: lower_end_def split: if_splits)
  have inside: "set ?D \<subseteq> {0..<n} \<times> {0..<n}"
    using n hierarchyD(4,5)[OF h] unfolding deps by (auto split: if_splits)
  have cur: "current b c ?s x' y' = (if x' = x \<and> y' = y then v else current b c s x' y')" for x' y'
    by (rule current_set[OF ok s(1) n t])
  have fit': "fits n r base (current b c ?s) x y v"
    by (rule fits_cong[OF fit]) (auto simp: cur)
  have keep: "fits n r base (current b c ?s) x' y' (current b c ?s x' y')"
    if a: "(x', y') \<in> set ups \<union> set downs" "(x', y') \<noteq> (x, y)" "(x', y') \<notin> waiting s" "(x', y') \<notin> set ?D" for x' y'
  proof -
    have "current b c ?s x' y' = current b c s x' y'" using a(2) by (auto simp: cur)
    moreover have "fits n r base (current b c ?s) x' y' (current b c s x' y')"
    proof (rule fits_cong[OF settled[OF a(1-3)]])
      fix m assume m: "m < n" "r m < r x'" "r m < r y'"
      have n': "x' < n" "y' < n" using a(1) hierarchyD(4,5)[OF h, of x' y'] by auto
      have "current b c s m y' = CCH_WEIGHT_INFINITY" if "(x', m) = (x, y)"
      proof -
        have "fst t" using arc m(2) that hierarchyD(4)[OF h, of x y] by (auto simp: r_def split: if_splits)
        then have "(m, y') \<notin> set ups" using a(4) that unfolding deps by auto
        then show ?thesis using current_arc(2)[OF ok m(1) n'(2)] hierarchyD(5)[OF h, of m y'] m(3) by (auto simp: r_def)
      qed
      moreover have "current b c s x' m = CCH_WEIGHT_INFINITY" if "(m, y') = (x, y)"
      proof -
        have "\<not> fst t" using arc m(3) that hierarchyD(5)[OF h, of x y] by (auto simp: r_def split: if_splits)
        then have "(x', m) \<notin> set downs" using a(4) that unfolding deps by auto
        then show ?thesis using current_arc(2)[OF ok n'(1) m(1)] hierarchyD(4)[OF h, of x' m] m(2) by (auto simp: r_def)
      qed
      moreover have "\<not> ((x', m) = (x, y) \<and> (m, y') = (x, y))" using m by auto
      ultimately show "add_cch_weights (current b c ?s x' m) (current b c ?s m y') = add_cch_weights (current b c s x' m) (current b c s m y')"
        by (auto simp: cur)
    qed
    ultimately show ?thesis by simp
  qed
  show "update_inv n b c ups downs base (store_arc b c s t x y v)" "work (store_arc b c s t x y v) \<le> work s"
  proof (atomize (full), cases "ranked_weight s t = v")
    case True
    have e: "store_arc b c s t x y v = s" using True by (simp add: store_arc_def)
    have "current b c s x y = v" using True t current_arc(1)[OF ok n] by simp
    then have "(x', y') \<in> waiting s \<or> fits n r base (current b c s) x' y' (current b c s x' y')"
      if "(x', y') \<in> set ups \<union> set downs" for x' y'
      using settled[OF that] fit by (cases "(x', y') = (x, y)") auto
    moreover have "lower_end b a \<le> lower_end b a'" if "a \<in> marked n b c s - waiting s" "a' \<in> waiting s" for a a'
      using done_low[of a] rest_high[of a'] that by (meson DiffD1 DiffD2 order_trans)
    ultimately show "update_inv n b c ups downs base (store_arc b c s t x y v) \<and> work (store_arc b c s t x y v) \<le> work s"
      unfolding e update_inv_def r_def[symmetric] using s by blast
  next
    case False
    let ?s' = "foldl (enqueue b c) ?s ?D"
    have e: "store_arc b c s t x y v = ?s'" using False by (simp add: store_arc_def)
    have "grown n b c ups downs ?D ?s ?s'" using s inside by (intro enqueue_all_grown[OF ok]) simp_all
    then have g: "sized ups downs ?s'" "queue_ok n b c ?s'" "ranked_weight ?s' = ranked_weight ?s"
      "waiting s \<subseteq> waiting ?s'" "waiting ?s' \<subseteq> waiting s \<union> set ?D" "marked n b c ?s' \<subseteq> marked n b c s \<union> waiting ?s'"
      "set ?D \<inter> (set ups \<union> set downs) \<subseteq> marked n b c s \<union> waiting ?s'" "work ?s' \<le> work s"
      unfolding grown_def by simp_all
    have cur': "current b c ?s' = current b c ?s" by (rule current_weights[OF g(3)])
    have fresh: "a \<in> waiting ?s'" if "a \<in> set ?D" "a \<in> set ups \<union> set downs" for a
    proof (rule ccontr)
      assume w: "a \<notin> waiting ?s'"
      then have "a \<in> marked n b c s" "a \<notin> waiting s" using that g(4,7) by blast+
      then show False using done_low[of a] high[OF that(1)] by simp
    qed
    have "(x', y') \<in> waiting ?s' \<or> fits n r base (current b c ?s') x' y' (current b c ?s' x' y')"
      if a: "(x', y') \<in> set ups \<union> set downs" for x' y'
    proof (cases "(x', y') = (x, y)")
      case True
      then show ?thesis using fit' cur[of x y] unfolding cur' by simp
    next
      case False
      then show ?thesis using keep[OF a False] fresh[OF _ a] g(4) unfolding cur' by blast
    qed
    moreover have "lower_end b a \<le> lower_end b a'" if "a \<in> marked n b c ?s' - waiting ?s'" "a' \<in> waiting ?s'" for a a'
    proof -
      have "lower_end b a \<le> lower_end b (x, y)" using that(1) g(4,6) by (intro done_low) blast+
      also have "\<dots> \<le> lower_end b a'" using that(2) g(5) rest_high[of a'] high[of a'] less_imp_le by blast
      finally show ?thesis .
    qed
    ultimately show "update_inv n b c ups downs base (store_arc b c s t x y v) \<and> work (store_arc b c s t x y v) \<le> work s"
      unfolding e update_inv_def r_def[symmetric] using g(1,2,8) by blast
  qed
qed

lemma update_loop_settles:
  assumes ok: "ranked_ok n b ups downs c"
  shows "update_inv n b c ups downs base s \<Longrightarrow>
    \<exists>s'. update_loop b c base s = Some s' \<and> update_inv n b c ups downs base s' \<and> arc_queue s' = []"
proof (induction "work s" arbitrary: s rule: less_induct)
  case less
  show ?case
  proof (cases "arc_queue s = []")
    case True
    then show ?thesis using less.prems by (auto simp: update_loop.simps[of b c base s])
  next
    case False
    let ?e = "Min (set (arc_queue s))"
    obtain l d p x y where e: "?e = (l, d, p, x, y)" by (cases ?e)
    let ?s = "s\<lparr>arc_queue := remove1 ?e (arc_queue s)\<rparr>"
    note inv = less.prems[unfolded update_inv_def]
    have mem: "?e \<in> set (arc_queue s)" using False by simp
    have q: "queue_ok n b c s" using inv by blast
    have a: "x < n" "y < n" "locate_arc b c x y = Some (d, p)" "l = lower_end b (x, y)"
      using q mem unfolding queue_ok_def e by blast+
    have least: "lower_end b (x, y) \<le> lower_end b a'" if a': "a' \<in> waiting s" for a'
    proof -
      obtain l' d' p' where e': "(l', d', p', a') \<in> set (arc_queue s)" using a' by (auto simp: waiting_def)
      then have "?e \<le> (l', d', p', a')" by simp
      then have "l \<le> l'" unfolding e by (auto simp: less_eq_prod_def)
      moreover have "l' = lower_end b a'" using q e' by (cases a') (auto simp: queue_ok_def)
      ultimately show ?thesis using a(4) by simp
    qed
    have w: "waiting ?s \<subseteq> waiting s" "waiting s \<subseteq> insert (x, y) (waiting ?s)"
    proof -
      show "waiting ?s \<subseteq> waiting s" unfolding waiting_def by (intro image_mono) (simp add: set_remove1_subset)
      have "set (arc_queue s) \<subseteq> insert ?e (set (remove1 ?e (arc_queue s)))" using in_set_remove1[of _ ?e "arc_queue s"] by blast
      from image_mono[OF this, of "\<lambda>(l, d, p, x, y). (x, y)"]
      show "waiting s \<subseteq> insert (x, y) (waiting ?s)" unfolding e by (simp add: waiting_def)
    qed
    have m: "marked n b c ?s = marked n b c s" "current b c ?s = current b c s"
      by (simp add: marked_def) (rule current_weights, simp)
    obtain v where v: "recomputed b c base ?s x y = Some v" "fits n ((!) (edge_rank b)) base (current b c ?s) x y v"
      using recomputed_fits[OF ok a(1,2)] by blast
    have qs: "queue_ok n b c ?s" using q set_remove1_subset[of ?e "arc_queue s"] unfolding queue_ok_def by auto
    have st: "sized ups downs ?s" using inv by simp
    have "lower_end b a' \<le> lower_end b (x, y)" if "a' \<in> marked n b c ?s" "a' \<notin> waiting ?s" for a'
    proof (cases "a' = (x, y)")
      case False
      then have "a' \<in> marked n b c s - waiting s" using that w(2) m(1) by blast
      moreover have "(x, y) \<in> waiting s" using mem unfolding e waiting_def by force
      ultimately show ?thesis using inv by blast
    qed simp
    moreover have "fits n ((!) (edge_rank b)) base (current b c ?s) x' y' (current b c ?s x' y')"
      if "(x', y') \<in> set ups \<union> set downs" "(x', y') \<noteq> (x, y)" "(x', y') \<notin> waiting ?s" for x' y'
      using that inv w(2) unfolding m(2) by blast
    ultimately have next_inv: "update_inv n b c ups downs base (store_arc b c ?s (d, p) x y v)"
        "work (store_arc b c ?s (d, p) x y v) \<le> work ?s"
      using store_arc_inv[OF ok st qs a(1-3) v(2)] least w(1) by blast+
    have "work ?s < work s" using mem by (simp add: work_def open_bits_def length_remove1 False)
    then have "work (store_arc b c ?s (d, p) x y v) < work s" using next_inv(2) by simp
    from less.hyps[OF this next_inv(1)] show ?thesis
      using False v(1) by (simp add: update_loop.simps[of b c base s] e)
  qed
qed

section \<open>From weights to arrays and back\<close>

lemma current_build:
  assumes ok: "ranked_ok n b ups downs c" and w: "weight_shape b w"
    and s: "new_upward s = ranked_up_weight (ranked_build b w)" "new_downward s = ranked_down_weight (ranked_build b w)"
  shows "current b c s = arc_weight b w"
proof (intro ext)
  fix x y
  have h: "hierarchy n b ups downs" and P: "ranked_rows c = ranked_rows (ranked_build b w)" using ok by (simp_all add: ranked_ok_def)
  note P = positions_of_rows[OF P]
  show "current b c s x y = arc_weight b w x y"
  proof (cases "x < n \<and> y < n")
    case True
    then have n: "x < n" "y < n" by simp_all
    show ?thesis
    proof (cases "locate_arc b c x y")
      case None
      then show ?thesis
        using located(1)[OF ok n] current_arc(1)[OF ok n] arc_weight_supported[OF h, of w] by (simp add: cch.supported_def)
    next
      case (Some t)
      show ?thesis
      proof (cases "fst t")
        case True
        then have t: "locate_arc b c x y = Some (True, snd t)" using Some by (cases t) simp
        then obtain k where k: "k < length downs" "downs ! k = (x, y)" "snd t = down_pos b c downs k"
          using locate_arc_iff(2)[OF ok n] by blast
        have "downward_position (ranked_build b w) b x y = Some (snd t)" using positions(3)[OF ok k(1)] k by (simp add: P)
        moreover have "(x, y) \<in> set downs" using k nth_mem by metis
        ultimately have "ranked_down_weight (ranked_build b w) ! snd t = arc_weight b w x y"
          using downward_weight_at[OF h w n(2), of x] by (simp add: downward_weight_def)
        then show ?thesis using current_arc(1)[OF ok n] t s by (simp add: ranked_weight_def)
      next
        case False
        then have t: "locate_arc b c x y = Some (False, snd t)" using Some by (cases t) simp
        then obtain k where k: "k < length ups" "ups ! k = (x, y)" "snd t = up_pos b c ups k"
          using locate_arc_iff(1)[OF ok n] by blast
        have "ranked_up_weight (ranked_build b w) ! snd t = arc_weight b w x y"
          using upward_weight_at[OF h w k(1,2)] arc_weight_at(1)[OF h k(1,2), of w] k(2,3)
          by (simp add: upward_weight_def up_pos_def P)
        then show ?thesis using current_arc(1)[OF ok n] t s by (simp add: ranked_weight_def)
      qed
    qed
  next
    case False
    then show ?thesis using hierarchyD(1)[OF h] unfolding current_def arc_weight_def by auto
  qed
qed

lemma weights_of_current:
  assumes ok: "ranked_ok n b ups downs c" and s: "sized ups downs s" "sized ups downs s'" "current b c s = current b c s'"
  shows "new_upward s = new_upward s'" "new_downward s = new_downward s'"
proof -
  have at: "ranked_weight s t = ranked_weight s' t" if "x < n" "y < n" "locate_arc b c x y = Some t" for x y t
    using fun_cong[OF fun_cong[OF s(3)], of x y] current_arc(1)[OF ok that(1,2)] that(3) by simp
  show "new_upward s = new_upward s'"
  proof (rule nth_equalityI)
    fix p assume "p < length (new_upward s)"
    then obtain x y where "x < n" "y < n" "locate_arc b c x y = Some (False, p)"
      using located_onto(1)[OF ok, of p] s(1) by (auto simp: sized_def)
    then show "new_upward s ! p = new_upward s' ! p" using at[of x y "(False, p)"] by (simp add: ranked_weight_def)
  qed (use s in \<open>simp add: sized_def\<close>)
  show "new_downward s = new_downward s'"
  proof (rule nth_equalityI)
    fix p assume "p < length (new_downward s)"
    then obtain x y where "x < n" "y < n" "locate_arc b c x y = Some (True, p)"
      using located_onto(2)[OF ok, of p] s(1) by (auto simp: sized_def)
    then show "new_downward s ! p = new_downward s' ! p" using at[of x y "(True, p)"] by (simp add: ranked_weight_def)
  qed (use s in \<open>simp add: sized_def\<close>)
qed

lemma sized_start:
  assumes "hierarchy n b ups downs" "weight_shape b w"
  shows "sized ups downs (update_start (ranked_build b w))"
  using length_ranked_weights[OF assms] by (simp add: sized_def update_start_def)

lemma settled_weights:
  assumes ok: "ranked_ok n b ups downs c" and base: "cch.supported (set ups \<union> set downs) base"
    and w: "\<And>x y. w x y \<le> base x y" "\<And>v. v < n \<Longrightarrow> cch.triangle_at ((!) (edge_rank b)) v w"
      "cch.attained ((!) (edge_rank b)) {0..<n} base w"
    and fit: "\<And>x y. (x, y) \<in> set ups \<union> set downs \<Longrightarrow>
        fits n ((!) (edge_rank b)) base (current b c s) x y (current b c s x y)"
  shows "current b c s = w"
proof -
  have h: "hierarchy n b ups downs" using ok by (simp add: ranked_ok_def)
  let ?S = "set ups \<union> set downs" and ?C = "current b c s" and ?r = "(!) (edge_rank b)"
  have len: "length (edge_rank b) = n" by (rule hierarchyD(1)[OF h])
  have none: "?C x y = CCH_WEIGHT_INFINITY" if "(x, y) \<notin> ?S" for x y
    using current_arc(2)[OF ok _ _ that] len by (cases "x < n \<and> y < n") (auto simp: current_def)
  have same: "?C x y = base x y" if "(x, y) \<notin> ?S" for x y
    using none[OF that] base that unfolding cch.supported_def by metis
  have le: "?C x y \<le> base x y" for x y
  proof (cases "(x, y) \<in> ?S")
    case True
    then show ?thesis using fit unfolding fits_def by blast
  next
    case False
    then show ?thesis using same by simp
  qed
  have tri: "cch.triangle_at ?r v ?C" if v: "v \<in> {0..<n}" for v
    unfolding cch.triangle_at_def
  proof (intro allI impI)
    fix x y assume a: "x \<noteq> y" "?r v < ?r x" "?r v < ?r y"
    show "?C x y \<le> add_cch_weights (?C x v) (?C v y)"
    proof (cases "(x, y) \<in> ?S")
      case True
      then show ?thesis using fit[OF True] a v by (simp add: fits_def)
    next
      case False
      then have "(x, v) \<notin> ?S \<or> (v, y) \<notin> ?S" using hierarchy_closed[OF h] a unfolding cch.closed_arcs_def by blast
      then have "?C x v = CCH_WEIGHT_INFINITY \<or> ?C v y = CCH_WEIGHT_INFINITY" using none by blast
      then show ?thesis by auto
    qed
  qed
  have att: "cch.attained ?r {0..<n} base ?C"
    unfolding cch.attained_def
  proof (intro allI)
    fix x y
    show "?C x y = base x y \<or> (\<exists>v\<in>{0..<n}. x \<noteq> y \<and> ?r v < ?r x \<and> ?r v < ?r y \<and> ?C x y = add_cch_weights (?C x v) (?C v y))"
    proof (cases "(x, y) \<in> ?S")
      case True
      then have "x \<noteq> y" using hierarchyD(4,5)[OF h, of x y] by blast
      then show ?thesis using fit[OF True] by (auto simp: fits_def)
    qed (use same in simp)
  qed
  show ?thesis
  proof (intro ext order_antisym)
    fix x y
    show "?C x y \<le> w x y" by (rule cch.attained_least[OF w(3) le tri])
    show "w x y \<le> ?C x y" by (rule cch.attained_least[OF att w(1) w(2)]) simp
  qed
qed

section \<open>Seeds\<close>

lemma seed_edges_list:
  "foldl (seed_edge b c t endpoints g) s changed
    = foldl (enqueue b c) s (concat (map (\<lambda>e. map (\<lambda>previous. (previous, e)) (incoming_edges g (fst (endpoints e)))
        @ map (Pair e) (transition_row t e)) changed))"
  by (induction changed arbitrary: s) (simp_all add: seed_edge_def)

lemma incoming_edges_set:
  assumes ends: "\<forall>e<edges. fst (endpoints e) < nodes \<and> snd (endpoints e) < nodes"
    and g: "(incoming_first_out g, incoming_edge_order g) = incoming_rows nodes endpoints (edge_based_build nodes edges endpoints) open_edge"
    and v: "v < nodes"
  shows "set (incoming_edges g v) = {e. e < edges \<and> open_edge e \<and> snd (endpoints e) = v}"
proof -
  let ?t = "edge_based_build nodes edges endpoints"
  let ?es = "concat (map (outgoing_edges (node_first_out ?t) (node_edge_order ?t)) [0..<nodes])"
  let ?items = "map (\<lambda>e. (snd (endpoints e), e)) (filter open_edge ?es)"
  have es: "set ?es = {e. e < edges}"
    using edge_based_rows(3)[OF ends] ends by (auto simp: leaving_def)
  have lt: "\<forall>a\<in>set ?items. fst a < nodes" using es ends by auto
  have rows: "incoming_first_out g = fst (group_by_key nodes 0 ?items)" "incoming_edge_order g = snd (group_by_key nodes 0 ?items)"
    using g by (simp_all add: incoming_rows_def prod_eq_iff)
  have "incoming_edges g v = filter (\<lambda>e. snd (endpoints e) = v) (filter open_edge ?es)"
    using group_by_key_row[OF lt v, of 0] by (simp add: incoming_edges_def rows filter_pair_edges)
  then show ?thesis using es by auto
qed

text \<open>An arc whose base weight changes leads into or out of a changed edge, along a transition.\<close>

lemma changed_base_weight:
  assumes t: "edge_based topo = transitions.truncate (edge_based_build nodes edges endpoints)"
    and ends: "\<forall>e<edges. fst (endpoints e) < nodes \<and> snd (endpoints e) < nodes"
    and same: "\<forall>e<edges. e \<notin> D \<longrightarrow> generalized_cost (em' ! e) = generalized_cost (em ! e)"
    and closing: "\<forall>e<edges. generalized_cost (em' ! e) \<noteq> None \<longrightarrow> generalized_cost (em ! e) \<noteq> None"
    and costs: "\<forall>x y. x \<notin> D \<longrightarrow> y \<notin> D \<longrightarrow> bw' x y = bw x y"
    and x: "x < edges" and ne: "cost_base_arc_weight topo em' mode_bit bw' x y \<noteq> cost_base_arc_weight topo em mode_bit bw x y"
  shows "y < edges" "x \<in> D \<or> y \<in> D" "usable topo em mode_bit x" "y \<in> set (transition_row (edge_based topo) x)"
    "snd (endpoints x) = fst (endpoints y)"
proof -
  have n: "edge_count (edge_based topo) = edges" using edge_based_rows(1)[OF ends] by (simp add: t transitions.truncate_def)
  have "allowed topo em' mode_bit x y \<or> allowed topo em mode_bit x y" and row: "y \<in> set (transition_row (edge_based topo) x)"
    using ne unfolding cost_base_arc_weight_eq by (auto split: if_splits)
  then have y: "y < edges" and u: "usable topo em mode_bit x" "usable topo em mode_bit y"
    using closing x unfolding allowed_def usable_def n by blast+
  show "y < edges" "usable topo em mode_bit x" "y \<in> set (transition_row (edge_based topo) x)" by fact+
  show "x \<in> D \<or> y \<in> D"
  proof (rule ccontr)
    assume "\<not> (x \<in> D \<or> y \<in> D)"
    then have "bw' x y = bw x y" "usable topo em' mode_bit x = usable topo em mode_bit x" "usable topo em' mode_bit y = usable topo em mode_bit y"
      using same costs x y by (simp_all add: usable_def)
    then show False using ne by (auto simp: cost_base_arc_weight_eq allowed_def split: if_splits)
  qed
  show "snd (endpoints x) = fst (endpoints y)"
    using row edge_based_rows(5)[OF ends x] by (simp add: t leaving_def)
qed

text \<open>C5: re-customization is exact. Let a graph be built and customized for a metric, and let some
  edges get a new cost, or become unusable, together with the costs of the transitions into and out
  of them. Then the incremental update returns, and the ranked weights it answers are, array by
  array, those of building the graph anew with the complete customization of the new metric (whose
  edges still had a travel time in the old one, as the incoming rows of the graph require).\<close>

theorem recustomize_exact:
  fixes topo :: topology and order :: "nat list" and bw bw' :: "nat \<Rightarrow> nat \<Rightarrow> rat option"
    and em em' :: "edge_metric list" and mode_bit :: u16 and threads threads' :: nat
  defines "b \<equiv> build_with_order (edge_based topo) order"
  assumes topology: "edge_based topo = transitions.truncate (edge_based_build nodes edges endpoints)"
      "\<forall>e<edges. fst (endpoints e) < nodes \<and> snd (endpoints e) < nodes" "customizable topo order"
    and built: "graph_acceleration g = Some base" "graph_source base = b"
      "graph_ranked base = ranked_build b (customize (customization_context_new threads b topo em mode_bit) b topo bw)"
      "(incoming_first_out g, incoming_edge_order g)
        = incoming_rows nodes endpoints (edge_based_build nodes edges endpoints) (routable topo em mode_bit timed)"
    and changes: "set changed \<subseteq> {0..<edges}"
      "\<forall>e<edges. e \<notin> set changed \<longrightarrow> generalized_cost (em' ! e) = generalized_cost (em ! e)"
      "\<forall>e<edges. generalized_cost (em' ! e) \<noteq> None \<longrightarrow> generalized_cost (em ! e) \<noteq> None"
      "\<forall>x y. x \<notin> set changed \<longrightarrow> y \<notin> set changed \<longrightarrow> bw' x y = bw x y"
      "\<forall>e<edges. generalized_cost (em ! e) \<noteq> None \<longrightarrow> timed e"
  shows "recustomize_changed_edges topo em' mode_bit bw' endpoints g changed
    = Some (Some (ranked_build b (customize (customization_context_new threads' b topo em' mode_bit) b topo bw')))"
proof -
  let ?t = "edge_based topo" and ?r = "(!) (edge_rank b)"
  let ?ups = "up_arcs (edge_based topo) order" and ?downs = "down_arcs (edge_based topo) order"
  let ?S = "set ?ups \<union> set ?downs"
  let ?w = "customize (customization_context_new threads b topo em mode_bit) b topo bw"
    and ?w' = "customize (customization_context_new threads' b topo em' mode_bit) b topo bw'"
  let ?T = "transition_cost topo em mode_bit bw" and ?T' = "transition_cost topo em' mode_bit bw'"
  let ?base' = "cost_base_arc_weight topo em' mode_bit bw'" and ?c = "ranked_build b ?w"
  have n: "edge_count ?t = edges" using edge_based_rows(1)[OF topology(2)] by (simp add: topology(1) transitions.truncate_def)
  have h: "hierarchy edges b ?ups ?downs" and small: "length ?ups < 2 ^ 31" "length ?downs < 2 ^ 31"
    using customizable_inputs[OF topology(3)] by (simp_all add: inputs_ok_def b_def n)
  have ok: "ranked_ok edges b ?ups ?downs ?c" using h small by (simp add: ranked_ok_def)
  note f = customize_facts(1,2,3)[OF topology(3), folded b_def, where threads = threads and em = em and mode_bit = mode_bit and bw = bw]
    and ms = customize_facts(4,5)[OF topology(3), folded b_def, where threads = threads and em = em and mode_bit = mode_bit]
    and f' = customize_facts(1,2,3)[OF topology(3), folded b_def, where threads = threads' and em = em' and mode_bit = mode_bit and bw = bw']
    and ms' = customize_facts(4,5)[OF topology(3), folded b_def, where threads = threads' and em = em' and mode_bit = mode_bit]
  note closed = hierarchy_closed[OF h]
  have sup: "cch.supported ?S ?T" "cch.supported ?S ?T'"
    using arc_weight_supported[OF h] f(1) f'(1) by metis+
  let ?s0 = "update_start ?c"
  let ?as = "concat (map (\<lambda>e. map (\<lambda>previous. (previous, e)) (incoming_edges g (fst (endpoints e))) @ map (Pair e) (transition_row ?t e)) changed)"
  let ?s1 = "foldl (enqueue b ?c) ?s0 ?as"
  have s0: "sized ?ups ?downs ?s0" by (rule sized_start[OF h f(2)])
  have e0: "waiting ?s0 = {}" "queue_ok edges b ?c ?s0" "marked edges b ?c ?s0 = {}"
  proof -
    have "\<not> queued_bit ?s0 l" if "x < edges" "y < edges" "locate_arc b ?c x y = Some l" for x y l
      using located(2)[OF ok that] length_ranked_weights[OF h f(2)] by (auto simp: queued_bit_def update_start_def split: if_splits)
    then show "marked edges b ?c ?s0 = {}" by (auto simp: marked_def)
  qed (simp_all add: waiting_def queue_ok_def update_start_def)
  have incoming: "set (incoming_edges g (fst (endpoints e))) = {x. x < edges \<and> routable topo em mode_bit timed x \<and> snd (endpoints x) = fst (endpoints e)}"
    if "e < edges" for e using incoming_edges_set[OF topology(2) built(4)] topology(2) that by blast
  have row: "set (transition_row ?t e) \<subseteq> {0..<edges}" if "e < edges" for e
    using edge_based_rows(5)[OF topology(2) that] by (auto simp: topology(1) leaving_def)
  have "set ?as \<subseteq> {0..<edges} \<times> {0..<edges}"
  proof
    fix a assume "a \<in> set ?as"
    then obtain e where e: "e \<in> set changed"
      "a \<in> (\<lambda>previous. (previous, e)) ` set (incoming_edges g (fst (endpoints e))) \<union> Pair e ` set (transition_row ?t e)" by auto
    then have "e < edges" using changes(1) by auto
    then show "a \<in> {0..<edges} \<times> {0..<edges}" using e(2) incoming[of e] row[of e] by auto
  qed
  then have "grown edges b ?c ?ups ?downs ?as ?s0 ?s1" by (rule enqueue_all_grown[OF ok s0 e0(2)])
  then have g1: "sized ?ups ?downs ?s1" "queue_ok edges b ?c ?s1" "ranked_weight ?s1 = ranked_weight ?s0"
      "marked edges b ?c ?s1 \<subseteq> waiting ?s1" "set ?as \<inter> ?S \<subseteq> waiting ?s1"
    unfolding grown_def e0(1,3) by simp_all
  have cur: "current b ?c ?s1 = arc_weight b ?w"
    using current_build[OF ok f(2), of ?s0] current_weights[OF g1(3), of b ?c] by (simp add: update_start_def)
  have "(x, y) \<in> waiting ?s1 \<or> fits edges ?r ?base' (current b ?c ?s1) x y (current b ?c ?s1 x y)" if a: "(x, y) \<in> ?S" for x y
  proof (cases "(x, y) \<in> waiting ?s1")
    case False
    have xy: "x < edges" "y < edges" "x \<noteq> y" using a hierarchyD(4,5)[OF h, of x y] by blast+
    have "?base' x y = ?T x y"
    proof (rule ccontr)
      assume "?base' x y \<noteq> ?T x y"
      then have ne: "?base' x y \<noteq> cost_base_arc_weight topo em mode_bit bw x y" using xy(1) by (simp add: transition_cost_def n)
      note d = changed_base_weight[OF topology(1,2) changes(2-4) xy(1) ne]
      have "timed x" using d(3) changes(5) xy(1) by (simp add: usable_def)
      then have "routable topo em mode_bit timed x" using d(3) by (simp add: usable_def routable_def)
      then have "(x, y) \<in> set ?as" using d(2,4,5) incoming[OF xy(2)] xy(1) by auto
      then show False using g1(5) a False by blast
    qed
    moreover have "fits edges ?r ?T (arc_weight b ?w) x y (arc_weight b ?w x y)"
    proof -
      have "arc_weight b ?w x y \<le> ?T x y" unfolding f(3) by (rule cch.relax_all_le)
      moreover have "arc_weight b ?w x y \<le> add_cch_weights (arc_weight b ?w x v) (arc_weight b ?w v y)"
        if "v < edges" "?r v < ?r x" "?r v < ?r y" for v
        using cch.triangle_final[OF closed sup(1) ms(2), of v] that xy(3) ms(1) unfolding f(3)[symmetric]
        by (simp add: cch.triangle_at_def n)
      moreover have "cch.attained ?r {0..<edges} ?T (arc_weight b ?w)"
        using cch.relax_all_attained[OF closed sup(1) ms(2)] unfolding f(3)[symmetric] ms(1) n .
      ultimately show ?thesis unfolding fits_def cch.attained_def by fastforce
    qed
    ultimately show ?thesis unfolding cur fits_def by simp
  qed simp
  then have "update_inv edges b ?c ?ups ?downs ?base' ?s1" using g1(1,2,4) unfolding update_inv_def by blast
  then obtain s' where s': "update_loop b ?c ?base' ?s1 = Some s'" "update_inv edges b ?c ?ups ?downs ?base' s'" "arc_queue s' = []"
    using update_loop_settles[OF ok] by blast
  have settled: "fits edges ?r ?T' (current b ?c s') x y (current b ?c s' x y)" if a: "(x, y) \<in> ?S" for x y
  proof -
    have "x < edges" using a hierarchyD(4,5)[OF h, of x y] by blast
    then have "?T' x y = ?base' x y" by (simp add: transition_cost_def n)
    then show ?thesis using s'(2,3) a unfolding update_inv_def fits_def by (auto simp: waiting_def)
  qed
  have final: "current b ?c s' = arc_weight b ?w'"
  proof (rule settled_weights[OF ok sup(2) _ _ _ settled])
    show "arc_weight b ?w' x y \<le> ?T' x y" for x y unfolding f'(3) by (rule cch.relax_all_le)
    show "cch.triangle_at ?r v (arc_weight b ?w')" if "v < edges" for v
      unfolding f'(3) by (rule cch.triangle_final[OF closed sup(2) ms'(2)]) (use that ms'(1) n in simp)
    show "cch.attained ?r {0..<edges} ?T' (arc_weight b ?w')"
      using cch.relax_all_attained[OF closed sup(2) ms'(2)] unfolding f'(3)[symmetric] ms'(1) n .
  qed
  let ?s'' = "update_start (ranked_build b ?w')"
  have "current b ?c s' = current b ?c ?s''"
    unfolding final by (rule current_build[OF ok f'(2), symmetric]) (simp_all add: update_start_def)
  moreover have "sized ?ups ?downs s'" using s'(2) by (simp add: update_inv_def)
  ultimately have "new_upward s' = ranked_up_weight (ranked_build b ?w')" "new_downward s' = ranked_down_weight (ranked_build b ?w')"
    using weights_of_current[OF ok _ sized_start[OF h f'(2)]] by (simp_all add: update_start_def)
  then have "with_ranked_weights ?c (new_upward s') (new_downward s') = ranked_build b ?w'"
    by (simp add: with_ranked_weights_def ranked_build_def with_topology_def)
  then show ?thesis using s'(1) by (simp add: recustomize_changed_edges_def built seed_edges_list)
qed

text \<open>The triangle with its second edge closed.\<close>

abbreviation closed_metrics :: "edge_metric list" where
  "closed_metrics \<equiv> witness_metrics[1 := \<lparr>generalized_cost = None\<rparr>]"

abbreviation triangle_bundle :: acceleration_bundle where
  "triangle_bundle \<equiv> build_with_order (edge_based triangle_topology) [3, 0, 1, 2]"

abbreviation triangle_ranked :: "edge_metric list \<Rightarrow> ranked_cch" where
  "triangle_ranked em \<equiv> ranked_build triangle_bundle
     (customize (customization_context_new 4 triangle_bundle triangle_topology em 1) triangle_bundle triangle_topology (\<lambda>_ _. Some 1))"

abbreviation triangle_graph :: base_graph where
  "triangle_graph \<equiv> (case incoming_rows 3 triangle (edge_based_build 3 4 triangle) (routable triangle_topology witness_metrics 1 (\<lambda>_. True)) of
     (first_out, order) \<Rightarrow> \<lparr>graph_acceleration = Some \<lparr>graph_source = triangle_bundle, graph_ranked = triangle_ranked witness_metrics,
         graph_unpack = unpack_table_new 3 3\<rparr>, incoming_first_out = first_out, incoming_edge_order = order\<rparr>)"

theorem recustomize_exact_witness:
  "recustomize_changed_edges triangle_topology closed_metrics 1 (\<lambda>_ _. Some 1) triangle triangle_graph [1]
    = Some (Some (triangle_ranked closed_metrics))"
proof (rule recustomize_exact[where threads = 4 and bw = "\<lambda>_ _. Some 1" and timed = "\<lambda>_. True"
      and em = witness_metrics and nodes = 3 and edges = 4 and base = "\<lparr>graph_source = triangle_bundle,
        graph_ranked = triangle_ranked witness_metrics, graph_unpack = unpack_table_new 3 3\<rparr>"])
  show "edge_based triangle_topology = transitions.truncate (edge_based_build 3 4 triangle)" by (simp add: triangle_topology_def)
  show "\<forall>e<4. fst (triangle e) < 3 \<and> snd (triangle e) < 3" by code_simp
  have o: "is_order (edge_count (edge_based triangle_topology)) [3, 0, 1, 2]" by code_simp
  have v: "valid_offsets (edge_transition_first_out (edge_based triangle_topology)) (edge_count (edge_based triangle_topology))
      (length (edge_transition_edges (edge_based triangle_topology)))" by code_simp
  show "customizable triangle_topology [3, 0, 1, 2]"
    unfolding customizable_def Let_def triangle_built(2,3) using o v by simp
  show "set [1] \<subseteq> {0..<4::nat}" by simp
  show "\<forall>e<4. e \<notin> set [1] \<longrightarrow> generalized_cost (closed_metrics ! e) = generalized_cost (witness_metrics ! e)" by simp
  show "\<forall>e<4. generalized_cost (closed_metrics ! e) \<noteq> None \<longrightarrow> generalized_cost (witness_metrics ! e) \<noteq> None" by code_simp
  show "graph_acceleration triangle_graph = Some \<lparr>graph_source = triangle_bundle,
        graph_ranked = triangle_ranked witness_metrics, graph_unpack = unpack_table_new 3 3\<rparr>"
    by (simp only: case_prod_beta base_graph.simps)
  show "(incoming_first_out triangle_graph, incoming_edge_order triangle_graph)
      = incoming_rows 3 triangle (edge_based_build 3 4 triangle) (routable triangle_topology witness_metrics 1 (\<lambda>_. True))"
    by (simp only: case_prod_beta base_graph.simps prod.collapse)
qed (blast | simp only: acceleration_graph.simps)+

end
