(* ===== verification/Routing_Graph.thy ===== *)
theory Routing_Graph
  imports Recustomize Automaton
begin

text \<open>
  The routing graph of a profile (\<open>crates/query/src/engine/graph.rs\<close>): edge costs, the outgoing and
  incoming edges of every node, the transitions of every edge with their costs, their transposition,
  and the restriction automata. Pairwise restrictions remove transitions, longer ones feed the
  automaton. Costs are \<open>f64\<close> values in the code and the rationals they denote here; \<open>turn_cost\<close> is the
  penalty of a turn and \<open>timed\<close> says which edges have a travel time. The fill loops are the counting
  sort \<open>group_by_key\<close>, which places the items in the order of the loop.
\<close>

section \<open>Data\<close>

record graph_options =
  ignore_multi_edge_restriction_sequences :: bool
  search_time_turn_restrictions :: bool
  include_temporal_materialized_directions :: bool

record routing_graph = base_graph +
  graph_first_out :: "nat list"
  graph_edge_order :: "nat list"
  edge_costs :: "cost list"
  transition_first_out :: "nat list"
  transition_edges :: "nat list"
  transition_costs :: "cost list"
  reverse_transition_first_out :: "nat list"
  reverse_transition_edges :: "nat list"
  reverse_transition_forward :: "nat list"
  automaton :: restriction_automaton
  reverse_automaton :: restriction_automaton
  virtual_reverse_of :: "nat option list"

definition transition_range :: "routing_graph \<Rightarrow> nat \<Rightarrow> nat list" where
  "transition_range g e = [transition_first_out g ! e ..< transition_first_out g ! (e + 1)]"

definition has_restriction_sequences :: "routing_graph \<Rightarrow> bool" where
  "has_restriction_sequences g \<longleftrightarrow> \<not> is_trivial (automaton g)"

section \<open>Building\<close>

definition edge_cost :: "topology \<Rightarrow> edge_metric list \<Rightarrow> u16 \<Rightarrow> (nat \<Rightarrow> bool) \<Rightarrow> graph_options \<Rightarrow> nat \<Rightarrow> cost" where
  "edge_cost topo em mode_bit timed opts e =
     (if \<not> include_temporal_materialized_directions opts \<and> \<not> is_statically_usable topo e mode_bit then Infinite
      else case generalized_cost (em ! e) of None \<Rightarrow> Infinite | Some c \<Rightarrow> if timed e then Cost c else Infinite)"

text \<open>One restriction of the filtered list goes to the pairs, to the sequences or nowhere.\<close>

definition sort_restriction :: "graph_options \<Rightarrow> (nat \<times> nat) list \<times> nat list list \<Rightarrow> turn_restriction \<Rightarrow>
    (nat \<times> nat) list \<times> nat list list" where
  "sort_restriction opts s r =
     (let (pairs, sequences) = s; path = edge_path r
      in if length path < 2 \<or> include_temporal_materialized_directions opts \<and> restriction_condition r \<noteq> None \<and> length path = 2
         then (pairs, sequences)
         else if search_time_turn_restrictions opts
         then if 2 < length path \<and> ignore_multi_edge_restriction_sequences opts then (pairs, sequences)
              else (pairs, sequences @ [path])
         else if length path = 2 then (pairs @ [(path ! 0, path ! 1)], sequences)
         else if ignore_multi_edge_restriction_sequences opts then (pairs, sequences)
         else (pairs, sequences @ [path]))"

definition sorted_restrictions :: "topology \<Rightarrow> u16 \<Rightarrow> graph_options \<Rightarrow> (nat \<times> nat) list \<times> nat list list" where
  "sorted_restrictions topo mode_bit opts =
     foldl (sort_restriction opts) ([], [])
       (filter (\<lambda>r. mask_contains (mode_mask r) mode_bit \<and> applies_statically r) (turn_restrictions topo))"

definition turn_table :: "nat \<Rightarrow> (nat \<times> nat) list \<Rightarrow> nat list \<times> nat list" where
  "turn_table edges pairs = group_by_key edges 0 (sort_dedup pairs)"

definition open_row :: "transitions \<Rightarrow> cost list \<Rightarrow> graph_options \<Rightarrow> nat list \<times> nat list \<Rightarrow> nat \<Rightarrow> nat list" where
  "open_row t costs opts table e =
     (if costs ! e = Infinite then []
      else filter (\<lambda>y. costs ! y \<noteq> Infinite \<and> (search_time_turn_restrictions opts
             \<or> \<not> is_found (binary_search (subslice (snd table) (fst table ! e) (fst table ! (e + 1))) y)))
           (transition_row t e))"

definition transition_items :: "transitions \<Rightarrow> cost list \<Rightarrow> graph_options \<Rightarrow> nat list \<times> nat list \<Rightarrow>
    (nat \<Rightarrow> nat \<Rightarrow> cost) \<Rightarrow> (nat \<times> nat \<times> cost) list" where
  "transition_items t costs opts table turn_cost =
     concat (map (\<lambda>e. map (\<lambda>y. (e, y, costs ! y + turn_cost e y)) (open_row t costs opts table e)) [0..<edge_count t])"

definition node_items :: "nat \<Rightarrow> edge_based_topology \<Rightarrow> cost list \<Rightarrow> (nat \<times> nat) list" where
  "node_items nodes t costs =
     concat (map (\<lambda>v. map (Pair v) (filter (\<lambda>e. costs ! e \<noteq> Infinite) (outgoing_edges (node_first_out t) (node_edge_order t) v))) [0..<nodes])"

definition reverse_items :: "nat \<Rightarrow> nat list \<Rightarrow> nat list \<Rightarrow> (nat \<times> nat \<times> nat) list" where
  "reverse_items edges first_out targets =
     concat (map (\<lambda>e. map (\<lambda>i. (targets ! i, e, i)) [first_out ! e ..< first_out ! (e + 1)]) [0..<edges])"

definition build_routing_graph_with_weights :: "nat \<Rightarrow> (nat \<Rightarrow> nat \<times> nat) \<Rightarrow> edge_based_topology \<Rightarrow> topology \<Rightarrow>
    edge_metric list \<Rightarrow> u16 \<Rightarrow> (nat \<Rightarrow> bool) \<Rightarrow> (nat \<Rightarrow> nat \<Rightarrow> cost) \<Rightarrow> acceleration_graph option \<Rightarrow> graph_options \<Rightarrow> routing_graph" where
  "build_routing_graph_with_weights nodes endpoints t topo em mode_bit timed turn_cost acceleration opts =
     (let edges = edge_count t;
          costs = map (edge_cost topo em mode_bit timed opts) [0..<edges];
          by_node = node_items nodes t costs;
          outgoing = group_by_key nodes 0 by_node;
          incoming = group_by_key nodes 0 (map (\<lambda>(_, e). (snd (endpoints e), e)) by_node);
          (pairs, sequences) = sorted_restrictions topo mode_bit opts;
          ts = group_by_key edges (0, Infinite)
            (transition_items (transitions.truncate t) costs opts (turn_table edges pairs) turn_cost);
          targets = map fst (snd ts);
          rs = group_by_key edges (0, 0) (reverse_items edges (fst ts) targets)
      in \<lparr>graph_acceleration = (if include_temporal_materialized_directions opts then None else acceleration),
          incoming_first_out = fst incoming, incoming_edge_order = snd incoming,
          graph_first_out = fst outgoing, graph_edge_order = snd outgoing, edge_costs = costs,
          transition_first_out = fst ts, transition_edges = targets, transition_costs = map snd (snd ts),
          reverse_transition_first_out = fst rs, reverse_transition_edges = map fst (snd rs),
          reverse_transition_forward = map snd (snd rs),
          automaton = build sequences, reverse_automaton = build (map rev sequences), virtual_reverse_of = []\<rparr>)"

section \<open>Rows\<close>

text \<open>The transitions of an edge with their costs, and the edges that lead into it with the index of
  the transition.\<close>

definition graph_row :: "routing_graph \<Rightarrow> nat \<Rightarrow> (nat \<times> cost) list" where
  "graph_row g e = map (\<lambda>i. (transition_edges g ! i, transition_costs g ! i)) (transition_range g e)"

definition reverse_row :: "routing_graph \<Rightarrow> nat \<Rightarrow> (nat \<times> nat) list" where
  "reverse_row g e = map (\<lambda>i. (reverse_transition_edges g ! i, reverse_transition_forward g ! i))
     [reverse_transition_first_out g ! e ..< reverse_transition_first_out g ! (e + 1)]"

lemma grouped_row:
  assumes "\<forall>a\<in>set items. fst a < n" "k < n"
  shows "map (\<lambda>i. snd (group_by_key n dflt items) ! i) [fst (group_by_key n dflt items) ! k ..< fst (group_by_key n dflt items) ! (k + 1)]
    = map snd (filter (\<lambda>a. fst a = k) items)"
proof -
  note v = group_by_key_offsets[OF assms(1), of dflt]
  have "fst (group_by_key n dflt items) ! (k + 1) \<le> length (snd (group_by_key n dflt items))"
    using valid_offsetsD(3)[OF v] assms(2) by simp
  then show ?thesis using group_by_key_row[OF assms(1,2), of dflt] by (simp add: subslice_map_nth)
qed

lemma filter_concat_keys:
  "distinct ks \<Longrightarrow> k \<in> set ks \<Longrightarrow> filter (\<lambda>a. fst a = k) (concat (map (\<lambda>e. map (Pair e) (f e)) ks)) = map (Pair k) (f k)"
proof (induction ks)
  case (Cons e ks)
  have none: "filter (\<lambda>a. fst a = k) (concat (map (\<lambda>e. map (Pair e) (f e)) ks)) = []" if "k \<notin> set ks"
    using that by (auto simp: filter_empty_conv)
  show ?case
  proof (cases "e = k")
    case True
    then show ?thesis using Cons.prems none by (simp add: filter_map comp_def)
  next
    case False
    then show ?thesis using Cons by (simp add: filter_map comp_def)
  qed
qed simp

text \<open>The restriction paths that apply, by what the options keep of them.\<close>

definition kept_paths :: "topology \<Rightarrow> u16 \<Rightarrow> graph_options \<Rightarrow> nat list set" where
  "kept_paths topo mode_bit opts = {edge_path r | r. r \<in> set (turn_restrictions topo) \<and> mask_contains (mode_mask r) mode_bit
     \<and> applies_statically r \<and> 2 \<le> length (edge_path r)
     \<and> \<not> (include_temporal_materialized_directions opts \<and> restriction_condition r \<noteq> None \<and> length (edge_path r) = 2)
     \<and> \<not> (ignore_multi_edge_restriction_sequences opts \<and> 2 < length (edge_path r))}"

lemma kept_paths_list:
  "kept_paths topo mode_bit opts = set (map edge_path (filter (\<lambda>r. mask_contains (mode_mask r) mode_bit
     \<and> applies_statically r \<and> 2 \<le> length (edge_path r)
     \<and> \<not> (include_temporal_materialized_directions opts \<and> restriction_condition r \<noteq> None \<and> length (edge_path r) = 2)
     \<and> \<not> (ignore_multi_edge_restriction_sequences opts \<and> 2 < length (edge_path r))) (turn_restrictions topo)))"
  unfolding kept_paths_def by auto

lemma sorted_restrictions_set:
  "set (fst (sorted_restrictions topo mode_bit opts))
     = (if search_time_turn_restrictions opts then {} else {(x, y). [x, y] \<in> kept_paths topo mode_bit opts})"
  "set (snd (sorted_restrictions topo mode_bit opts))
     = (if search_time_turn_restrictions opts then kept_paths topo mode_bit opts
        else {p \<in> kept_paths topo mode_bit opts. 2 < length p})"
proof -
  let ?keep = "\<lambda>r. 2 \<le> length (edge_path r)
     \<and> \<not> (include_temporal_materialized_directions opts \<and> restriction_condition r \<noteq> None \<and> length (edge_path r) = 2)
     \<and> \<not> (ignore_multi_edge_restriction_sequences opts \<and> 2 < length (edge_path r))"
  have f: "set (fst (foldl (sort_restriction opts) s rs)) = set (fst s) \<union>
        (if search_time_turn_restrictions opts then {} else {(x, y). \<exists>r\<in>set rs. ?keep r \<and> edge_path r = [x, y]})
      \<and> set (snd (foldl (sort_restriction opts) s rs)) = set (snd s) \<union>
        (if search_time_turn_restrictions opts then edge_path ` {r \<in> set rs. ?keep r}
         else edge_path ` {r \<in> set rs. ?keep r \<and> 2 < length (edge_path r)})" for s rs
  proof (induction rs arbitrary: s)
    case (Cons r rs)
    obtain pairs sequences where s: "s = (pairs, sequences)" by (cases s)
    have two: "length (edge_path r) = 2 \<longleftrightarrow> edge_path r = [edge_path r ! 0, edge_path r ! 1]"
      using length_two[of "edge_path r"] by (metis length_Cons list.size(3) One_nat_def Suc_1)
    have one: "set (fst (sort_restriction opts s r)) = set pairs \<union>
        (if search_time_turn_restrictions opts then {} else {(x, y). ?keep r \<and> edge_path r = [x, y]})
      \<and> set (snd (sort_restriction opts s r)) = set sequences \<union>
        (if search_time_turn_restrictions opts then (if ?keep r then {edge_path r} else {})
         else (if ?keep r \<and> 2 < length (edge_path r) then {edge_path r} else {}))"
    proof (cases "length (edge_path r) = 2")
      case True
      then obtain x y where "edge_path r = [x, y]" using two by blast
      then show ?thesis by (auto simp: sort_restriction_def Let_def s)
    next
      case False
      then have "edge_path r \<noteq> [x, y]" for x y by auto
      then show ?thesis using False by (auto simp: sort_restriction_def Let_def s)
    qed
    show ?case unfolding foldl_Cons using Cons.IH[of "sort_restriction opts s r"] one s by auto
  qed simp
  let ?rs = "filter (\<lambda>r. mask_contains (mode_mask r) mode_bit \<and> applies_statically r) (turn_restrictions topo)"
  have k: "(\<exists>r\<in>set ?rs. ?keep r \<and> edge_path r = p) \<longleftrightarrow> p \<in> kept_paths topo mode_bit opts" for p
    unfolding kept_paths_def by auto
  have "{(x, y). \<exists>r\<in>set ?rs. ?keep r \<and> edge_path r = [x, y]} = {(x, y). [x, y] \<in> kept_paths topo mode_bit opts}"
    unfolding k ..
  moreover have "edge_path ` {r \<in> set ?rs. ?keep r} = kept_paths topo mode_bit opts" unfolding kept_paths_def by auto
  moreover have "edge_path ` {r \<in> set ?rs. ?keep r \<and> 2 < length (edge_path r)} = {p \<in> kept_paths topo mode_bit opts. 2 < length p}"
    unfolding kept_paths_def by auto
  ultimately show "set (fst (sorted_restrictions topo mode_bit opts))
     = (if search_time_turn_restrictions opts then {} else {(x, y). [x, y] \<in> kept_paths topo mode_bit opts})"
    "set (snd (sorted_restrictions topo mode_bit opts))
     = (if search_time_turn_restrictions opts then kept_paths topo mode_bit opts
        else {p \<in> kept_paths topo mode_bit opts. 2 < length p})"
    unfolding sorted_restrictions_def using f[of "([], [])" ?rs] by (simp_all del: set_filter)
qed

lemma turn_table_row:
  assumes "e < edges" "\<forall>a\<in>set pairs. fst a < edges"
  shows "is_found (binary_search (subslice (snd (turn_table edges pairs)) (fst (turn_table edges pairs) ! e) (fst (turn_table edges pairs) ! (e + 1))) y)
    \<longleftrightarrow> (e, y) \<in> set pairs"
proof -
  let ?xs = "map snd (filter (\<lambda>a. fst a = e) (sort_dedup pairs))"
  have "subslice (snd (turn_table edges pairs)) (fst (turn_table edges pairs) ! e) (fst (turn_table edges pairs) ! (e + 1)) = ?xs"
    using group_by_key_row[of "sort_dedup pairs" edges e 0] assms by (auto simp: turn_table_def)
  moreover have "sorted_wrt (<) ?xs"
  proof -
    have "sorted_wrt (<) (filter (\<lambda>a. fst a = e) (sort_dedup pairs))" by (rule sorted_wrt_filter[OF sort_dedup_strict])
    then have "sorted_wrt (\<lambda>a b. snd a < snd b) (filter (\<lambda>a. fst a = e) (sort_dedup pairs))"
      by (rule sorted_wrt_mono_rel[rotated]) (auto simp: less_prod_def)
    then show ?thesis by (simp add: sorted_wrt_map)
  qed
  moreover have "y \<in> set ?xs \<longleftrightarrow> (e, y) \<in> set pairs" by (auto simp: image_iff)
  ultimately show ?thesis by (simp only: bs.is_found_mem)
qed

text \<open>A walk the searches may take: along transitions, past the automaton.\<close>

definition graph_walk :: "routing_graph \<Rightarrow> nat list \<Rightarrow> bool" where
  "graph_walk g p \<longleftrightarrow> successively (\<lambda>x y. y \<in> fst ` set (graph_row g x)) p
     \<and> (\<forall>i<length p. prohibited_sequence_len (automaton g) (run (automaton g) (take i p)) (p ! i) = None)"

lemma sublist_completes:
  "(\<exists>s\<in>set sqs. 2 \<le> length s \<and> sublist s p) \<longleftrightarrow> (\<exists>i<length p. completes sqs (take i p) (p ! i))"
proof
  assume "\<exists>s\<in>set sqs. 2 \<le> length s \<and> sublist s p"
  then obtain s u v where s: "s \<in> set sqs" "2 \<le> length s" "p = u @ s @ v" by (auto simp: sublist_def)
  let ?i = "length u + (length s - 1)"
  have "?i < length p" using s by simp
  moreover have "suffix s (take ?i p @ [p ! ?i])"
  proof -
    have "take ?i p @ [p ! ?i] = take (Suc ?i) p" using calculation by (simp add: take_Suc_conv_app_nth)
    also have "Suc ?i = length (u @ s)" using s(2) by simp
    also have "take (length (u @ s)) p = u @ s" using s(3) by simp
    finally show ?thesis by (simp add: suffix_def)
  qed
  ultimately show "\<exists>i<length p. completes sqs (take i p) (p ! i)" using s unfolding completes_def by blast
next
  assume "\<exists>i<length p. completes sqs (take i p) (p ! i)"
  then obtain i s where s: "i < length p" "s \<in> set sqs" "2 \<le> length s" "suffix s (take i p @ [p ! i])"
    unfolding completes_def by blast
  have "take i p @ [p ! i] = take (Suc i) p" using s(1) by (simp add: take_Suc_conv_app_nth)
  then have "sublist s p" using s(4) by (metis sublist_def suffix_def append.assoc append_take_drop_id)
  then show "\<exists>s\<in>set sqs. 2 \<le> length s \<and> sublist s p" using s by blast
qed

text \<open>What the graph is built from: a well-formed edge-based topology, restrictions on its edges.\<close>

definition buildable :: "nat \<Rightarrow> (nat \<Rightarrow> nat \<times> nat) \<Rightarrow> nat \<Rightarrow> topology \<Rightarrow> bool" where
  "buildable nodes endpoints edges topo \<longleftrightarrow>
     (\<forall>e<edges. fst (endpoints e) < nodes \<and> snd (endpoints e) < nodes)
     \<and> (\<forall>r\<in>set (turn_restrictions topo). set (edge_path r) \<subseteq> {0..<edges})"

lemma kept_edges: "buildable nodes endpoints edges topo \<Longrightarrow> p \<in> kept_paths topo mode_bit opts \<Longrightarrow> set p \<subseteq> {0..<edges}"
  unfolding kept_paths_def buildable_def by blast

lemma graph_rows:
  fixes em :: "edge_metric list" and mode_bit :: u16 and timed :: "nat \<Rightarrow> bool" and turn_cost :: "nat \<Rightarrow> nat \<Rightarrow> cost"
    and acceleration :: "acceleration_graph option" and opts :: graph_options
  assumes ok: "buildable nodes endpoints edges topo"
  defines "t \<equiv> edge_based_build nodes edges endpoints" and "c \<equiv> edge_cost topo em mode_bit timed opts"
  defines "g \<equiv> build_routing_graph_with_weights nodes endpoints t topo em mode_bit timed turn_cost acceleration opts"
  assumes e: "e < edges"
  shows "graph_row g e = map (\<lambda>y. (y, c y + turn_cost e y))
      (if c e = Infinite then [] else filter (\<lambda>y. c y \<noteq> Infinite \<and> (search_time_turn_restrictions opts
          \<or> [e, y] \<notin> kept_paths topo mode_bit opts)) (leaving edges endpoints (snd (endpoints e))))"
proof -
  have ends: "\<forall>e<edges. fst (endpoints e) < nodes \<and> snd (endpoints e) < nodes" using ok by (simp add: buildable_def)
  note r = edge_based_rows[OF ends, folded t_def]
  let ?tt = "transitions.truncate t"
  have n: "edge_count ?tt = edges" "edge_count t = edges" using r(1) by (simp_all add: transitions.truncate_def)
  let ?costs = "map c [0..<edges]"
  obtain pairs sqs where ps: "sorted_restrictions topo mode_bit opts = (pairs, sqs)" by (cases "sorted_restrictions topo mode_bit opts")
  let ?row = "\<lambda>x. map (\<lambda>y. (y, ?costs ! y + turn_cost x y)) (open_row ?tt ?costs opts (turn_table edges pairs) x)"
  let ?items = "transition_items ?tt ?costs opts (turn_table edges pairs) turn_cost"
  have items: "?items = concat (map (\<lambda>x. map (Pair x) (?row x)) [0..<edges])"
    by (simp add: transition_items_def n comp_def)
  let ?ts = "group_by_key edges (0, Infinite) ?items"
  have g: "transition_first_out g = fst ?ts" "transition_edges g = map fst (snd ?ts)" "transition_costs g = map snd (snd ?ts)"
    by (simp_all add: g_def build_routing_graph_with_weights_def Let_def n ps c_def)
  have lt: "\<forall>a\<in>set ?items. fst a < edges" unfolding items by auto
  note v = group_by_key_offsets[OF lt, of "(0, Infinite)"]
  have "graph_row g e = map (\<lambda>i. snd ?ts ! i) [fst ?ts ! e ..< fst ?ts ! (e + 1)]"
    unfolding graph_row_def transition_range_def g
  proof (rule map_cong[OF refl])
    fix i assume "i \<in> set [fst ?ts ! e ..< fst ?ts ! (e + 1)]"
    then have "i < length (snd ?ts)" using valid_offsetsD(3)[OF v, of "e + 1"] e by auto
    then show "(map fst (snd ?ts) ! i, map snd (snd ?ts) ! i) = snd ?ts ! i" by simp
  qed
  also have "\<dots> = ?row e"
    unfolding grouped_row[OF lt e] unfolding items by (subst filter_concat_keys) (use e in \<open>simp_all add: comp_def\<close>)
  finally have row: "graph_row g e = ?row e" .
  have table: "is_found (binary_search (subslice (snd (turn_table edges pairs)) (fst (turn_table edges pairs) ! e) (fst (turn_table edges pairs) ! (e + 1))) y)
      \<longleftrightarrow> (e, y) \<in> set pairs" for y
  proof (rule turn_table_row[OF e])
    have "x < edges" if "(x, y) \<in> set pairs" for x y
    proof -
      have "[x, y] \<in> kept_paths topo mode_bit opts"
        using that sorted_restrictions_set(1)[of topo mode_bit opts] ps by (auto split: if_splits)
      then show ?thesis using kept_edges[OF ok, of "[x, y]"] by simp
    qed
    then show "\<forall>a\<in>set pairs. fst a < edges" by auto
  qed
  have lv: "y < edges" if "y \<in> set (leaving edges endpoints v)" for y v using that by (auto simp: leaving_def)
  have "open_row ?tt ?costs opts (turn_table edges pairs) e
    = (if c e = Infinite then [] else filter (\<lambda>y. c y \<noteq> Infinite \<and> (search_time_turn_restrictions opts
          \<or> [e, y] \<notin> kept_paths topo mode_bit opts)) (leaving edges endpoints (snd (endpoints e))))"
    unfolding open_row_def r(5)[OF e] table using e sorted_restrictions_set(1)[of topo mode_bit opts] ps lv
    by (auto intro!: filter_cong)
  then show ?thesis unfolding row using lv by (auto intro!: map_cong)
qed

lemma successively_conj: "successively (\<lambda>x y. P x y \<and> Q x y) p \<longleftrightarrow> successively P p \<and> successively Q p"
  by (induction p rule: induct_list012) auto

lemma successively_trivial [simp]: "successively (\<lambda>x y. True) p"
  by (induction p rule: induct_list012) auto

lemma successively_pairs: "successively (\<lambda>x y. [x, y] \<notin> K) p \<longleftrightarrow> (\<forall>x y. [x, y] \<in> K \<longrightarrow> \<not> sublist [x, y] p)"
proof (induction p rule: induct_list012)
  case (3 a b p)
  have "sublist [x, y] (a # b # p) \<longleftrightarrow> x = a \<and> y = b \<or> sublist [x, y] (b # p)" for x y
    by (auto simp: sublist_Cons_right)
  then show ?case using 3 by auto
qed (auto dest: sublist_length_le)

lemma no_restriction_iff:
  fixes opts :: graph_options
  shows "(\<forall>i<length p. prohibited_sequence_len (build sqs) (run (build sqs) (take i p)) (p ! i) = None)
    \<longleftrightarrow> \<not> (\<exists>s\<in>set sqs. 2 \<le> length s \<and> sublist s p)"
  unfolding sublist_completes prohibited_len by auto

lemma graph_walk_legal:
  fixes em :: "edge_metric list" and mode_bit :: u16 and timed :: "nat \<Rightarrow> bool" and turn_cost :: "nat \<Rightarrow> nat \<Rightarrow> cost"
    and acceleration :: "acceleration_graph option" and opts :: graph_options
  assumes ok: "buildable nodes endpoints edges topo" and p: "set p \<subseteq> {0..<edges}"
  defines "c \<equiv> edge_cost topo em mode_bit timed opts"
  shows "graph_walk (build_routing_graph_with_weights nodes endpoints (edge_based_build nodes edges endpoints) topo em mode_bit
        timed turn_cost acceleration opts) p
    \<longleftrightarrow> successively (\<lambda>x y. c x \<noteq> Infinite \<and> c y \<noteq> Infinite \<and> snd (endpoints x) = fst (endpoints y)) p
      \<and> (\<forall>s\<in>kept_paths topo mode_bit opts. \<not> sublist s p)"
proof -
  let ?g = "build_routing_graph_with_weights nodes endpoints (edge_based_build nodes edges endpoints) topo em mode_bit timed turn_cost acceleration opts"
  let ?K = "kept_paths topo mode_bit opts" and ?st = "search_time_turn_restrictions opts"
  obtain pairs sqs where ps: "sorted_restrictions topo mode_bit opts = (pairs, sqs)" by (cases "sorted_restrictions topo mode_bit opts")
  have sqs: "set sqs = (if ?st then ?K else {s \<in> ?K. 2 < length s})"
    using sorted_restrictions_set(2)[of topo mode_bit opts] ps by simp
  have aut: "automaton ?g = build sqs" by (simp add: build_routing_graph_with_weights_def Let_def ps split_beta)
  have K2: "2 \<le> length s" if "s \<in> ?K" for s using that by (auto simp: kept_paths_def)
  let ?open = "\<lambda>x y. c x \<noteq> Infinite \<and> c y \<noteq> Infinite \<and> snd (endpoints x) = fst (endpoints y)"
  have "successively (\<lambda>x y. y \<in> fst ` set (graph_row ?g x)) p \<longleftrightarrow> successively (\<lambda>x y. ?open x y \<and> (?st \<or> [x, y] \<notin> ?K)) p"
  proof (rule successively_cong[OF _ refl])
    fix x y assume "x \<in> set p" "y \<in> set p"
    then have "x < edges" "y < edges" using p by auto
    then show "y \<in> fst ` set (graph_row ?g x) \<longleftrightarrow> ?open x y \<and> (?st \<or> [x, y] \<notin> ?K)"
      unfolding graph_rows[OF ok \<open>x < edges\<close>] by (auto simp: c_def leaving_def image_iff)
  qed
  also have "\<dots> \<longleftrightarrow> successively ?open p \<and> (?st \<or> (\<forall>x y. [x, y] \<in> ?K \<longrightarrow> \<not> sublist [x, y] p))"
    unfolding successively_conj[of ?open] by (cases ?st) (simp_all add: successively_pairs[of ?K])
  finally have rows: "successively (\<lambda>x y. y \<in> fst ` set (graph_row ?g x)) p
    \<longleftrightarrow> successively ?open p \<and> (?st \<or> (\<forall>x y. [x, y] \<in> ?K \<longrightarrow> \<not> sublist [x, y] p))" .
  have "(?st \<or> (\<forall>x y. [x, y] \<in> ?K \<longrightarrow> \<not> sublist [x, y] p)) \<and> \<not> (\<exists>s\<in>set sqs. 2 \<le> length s \<and> sublist s p)
    \<longleftrightarrow> (\<forall>s\<in>?K. \<not> sublist s p)"
  proof (cases ?st)
    case True
    then show ?thesis using K2 sqs by auto
  next
    case False
    have "s \<in> set sqs \<or> (\<exists>x y. s = [x, y])" if "s \<in> ?K" for s
      using K2[OF that] that sqs False length_two[of s] by (cases "length s = 2") auto
    then show ?thesis using False sqs K2 by fastforce
  qed
  then show ?thesis unfolding graph_walk_def aut no_restriction_iff rows by blast
qed

text \<open>C9: the routing graph admits exactly the legal walks. For a well-formed street network and
  restrictions between its edges, a walk may follow the transitions of the built graph past its
  automaton if and only if consecutive edges are open and meet at a node and no restriction that
  applies to the mode (and that the options keep) occurs in it, whether the restriction ended up in
  the turn table or in the automaton.\<close>

theorem routing_graph_admits_legal_walks:
  fixes em :: "edge_metric list" and mode_bit :: u16 and timed :: "nat \<Rightarrow> bool" and turn_cost :: "nat \<Rightarrow> nat \<Rightarrow> cost"
    and acceleration :: "acceleration_graph option" and opts :: graph_options
  assumes ok: "buildable nodes endpoints edges topo" and p: "set p \<subseteq> {0..<edges}"
  defines "c \<equiv> edge_cost topo em mode_bit timed opts"
  shows "graph_walk (build_routing_graph_with_weights nodes endpoints (edge_based_build nodes edges endpoints) topo em mode_bit
        timed turn_cost acceleration opts) p
    \<longleftrightarrow> successively (\<lambda>x y. c x \<noteq> Infinite \<and> c y \<noteq> Infinite \<and> snd (endpoints x) = fst (endpoints y)) p
      \<and> (\<forall>s\<in>kept_paths topo mode_bit opts. \<not> sublist s p)"
  unfolding c_def by (rule graph_walk_legal[OF ok p])

text \<open>C39: the reverse arrays are the transposition of the forward ones. For every edge, the reverse
  row lists exactly the transitions into it, each once, with the edge it leaves and its forward
  index, in increasing order of that index, so that the reverse searches read the forward costs.\<close>

theorem reverse_rows_transposed:
  fixes em :: "edge_metric list" and mode_bit :: u16 and timed :: "nat \<Rightarrow> bool" and turn_cost :: "nat \<Rightarrow> nat \<Rightarrow> cost"
    and acceleration :: "acceleration_graph option" and opts :: graph_options
  assumes ok: "buildable nodes endpoints edges topo" and e: "e < edges"
  defines "g \<equiv> build_routing_graph_with_weights nodes endpoints (edge_based_build nodes edges endpoints) topo em mode_bit
        timed turn_cost acceleration opts"
  shows "((x, i) \<in> set (reverse_row g e) \<longleftrightarrow> x < edges \<and> i \<in> set (transition_range g x) \<and> transition_edges g ! i = e)
    \<and> sorted_wrt (<) (map snd (reverse_row g e))"
proof -
  let ?t = "edge_based_build nodes edges endpoints"
  have ends: "\<forall>e<edges. fst (endpoints e) < nodes \<and> snd (endpoints e) < nodes" using ok by (simp add: buildable_def)
  have n: "edge_count ?t = edges" by (rule edge_based_rows(1)[OF ends])
  let ?fo = "transition_first_out g" and ?te = "transition_edges g"
  let ?items = "reverse_items edges ?fo ?te"
  let ?rs = "group_by_key edges (0, 0) ?items"
  have g: "reverse_transition_first_out g = fst ?rs" "reverse_transition_edges g = map fst (snd ?rs)"
    "reverse_transition_forward g = map snd (snd ?rs)"
    by (simp_all add: g_def build_routing_graph_with_weights_def Let_def n split_beta)
  have v: "valid_offsets ?fo edges (length ?te)"
  proof -
    let ?its = "transition_items (transitions.truncate ?t) (map (edge_cost topo em mode_bit timed opts) [0..<edges]) opts
      (turn_table edges (fst (sorted_restrictions topo mode_bit opts))) turn_cost"
    have "\<forall>a\<in>set ?its. fst a < edges" by (auto simp: transition_items_def transitions.truncate_def n)
    note va = group_by_key_offsets[OF this, of "(0, Infinite)"]
    have "?fo = fst (group_by_key edges (0, Infinite) ?its)" "length ?te = length ?its"
      by (simp_all add: g_def build_routing_graph_with_weights_def Let_def n split_beta)
    then show ?thesis using va by simp
  qed
  have target: "?te ! i < edges" if "x < edges" "i \<in> set (transition_range g x)" for x i
  proof -
    have "?te ! i \<in> fst ` set (graph_row g x)" using that(2) by (auto simp: graph_row_def image_iff)
    then show ?thesis unfolding g_def graph_rows[OF ok that(1)] by (auto simp: leaving_def split: if_splits)
  qed
  have lt: "\<forall>a\<in>set ?items. fst a < edges" using target by (auto simp: reverse_items_def transition_range_def)
  note vr = group_by_key_offsets[OF lt, of "(0, 0)"]
  have "reverse_row g e = map (\<lambda>i. snd ?rs ! i) [fst ?rs ! e ..< fst ?rs ! (e + 1)]"
    unfolding reverse_row_def g
  proof (rule map_cong[OF refl])
    fix i assume "i \<in> set [fst ?rs ! e ..< fst ?rs ! (e + 1)]"
    then have "i < length (snd ?rs)" using valid_offsetsD(3)[OF vr, of "e + 1"] e by auto
    then show "(map fst (snd ?rs) ! i, map snd (snd ?rs) ! i) = snd ?rs ! i" by simp
  qed
  then have row: "reverse_row g e = map snd (filter (\<lambda>a. fst a = e) ?items)" unfolding grouped_row[OF lt e] .
  have "map (\<lambda>a. snd (snd a)) ?items = concat (map (\<lambda>x. [?fo ! x ..< ?fo ! (x + 1)]) [0..<edges])"
    by (simp add: reverse_items_def map_concat comp_def)
  then have "map (\<lambda>a. snd (snd a)) ?items = [0..<?fo ! edges]" using csr_slots_concat[OF v order_refl] by simp
  then have "sorted_wrt (\<lambda>a a'. snd (snd a) < snd (snd a')) ?items" by (metis sorted_wrt_map sorted_wrt_upt)
  then have "sorted_wrt (<) (map snd (reverse_row g e))"
    unfolding row by (simp add: sorted_wrt_map sorted_wrt_filter)
  moreover have "(x, i) \<in> set (reverse_row g e) \<longleftrightarrow> x < edges \<and> i \<in> set (transition_range g x) \<and> ?te ! i = e"
    unfolding row by (force simp: reverse_items_def transition_range_def)
  ultimately show ?thesis by blast
qed

text \<open>The triangle with the turn from its second into its third edge forbidden.\<close>

abbreviation restricted_triangle :: topology where
  "restricted_triangle \<equiv> triangle_topology\<lparr>turn_restrictions :=
     [\<lparr>edge_path = [1, 2], mode_mask = 1, restriction_condition = None\<rparr>, \<lparr>edge_path = [2, 0, 1], mode_mask = 1, restriction_condition = None\<rparr>]\<rparr>"

abbreviation default_options :: graph_options where
  "default_options \<equiv> \<lparr>ignore_multi_edge_restriction_sequences = False, search_time_turn_restrictions = False,
     include_temporal_materialized_directions = False\<rparr>"

abbreviation restricted_triangle_graph :: routing_graph where
  "restricted_triangle_graph \<equiv> build_routing_graph_with_weights 3 triangle (edge_based_build 3 4 triangle) restricted_triangle
     witness_metrics 1 (\<lambda>_. True) (\<lambda>_ _. Cost 0) None default_options"

theorem routing_graph_admits_legal_walks_witness:
  "graph_walk restricted_triangle_graph [0, 3, 0, 1] \<and> \<not> graph_walk restricted_triangle_graph [0, 1, 2]
    \<and> \<not> graph_walk restricted_triangle_graph [2, 0, 1]"
proof -
  have ok: "buildable 3 triangle 4 restricted_triangle" by code_simp
  have K: "kept_paths restricted_triangle 1 default_options = {[1, 2], [2, 0, 1]}"
    by (simp add: kept_paths_list mask_contains_def applies_statically_def)
  have c: "edge_cost restricted_triangle witness_metrics 1 (\<lambda>_. True) default_options e \<noteq> Infinite" if "e < 4" for e
  proof -
    have "list_all (\<lambda>e. edge_cost restricted_triangle witness_metrics 1 (\<lambda>_. True) default_options e \<noteq> Infinite) [0..<4]" by code_simp
    then show ?thesis using that by (simp add: list_all_iff)
  qed
  note w = routing_graph_admits_legal_walks[OF ok, where em = witness_metrics and mode_bit = 1 and timed = "\<lambda>_. True"
      and turn_cost = "\<lambda>_ _. Cost 0" and acceleration = None and opts = default_options, unfolded K]
  have "graph_walk restricted_triangle_graph [0, 3, 0, 1]" using w[of "[0, 3, 0, 1]"] c by (simp add: sublist_Cons_right)
  moreover have "\<not> graph_walk restricted_triangle_graph [0, 1, 2]" using w[of "[0, 1, 2]"] by (simp add: sublist_Cons_right)
  moreover have "\<not> graph_walk restricted_triangle_graph [2, 0, 1]" using w[of "[2, 0, 1]"] by (simp add: sublist_Cons_right)
  ultimately show ?thesis by blast
qed

theorem reverse_rows_transposed_witness:
  "(3, 3) \<in> set (reverse_row restricted_triangle_graph 0) \<and> transition_edges restricted_triangle_graph ! 3 = 0"
proof -
  have ok: "buildable 3 triangle 4 restricted_triangle" by code_simp
  have e: "(0 :: nat) < 4" by simp
  have t: "3 \<in> set (transition_range restricted_triangle_graph 3)" "transition_edges restricted_triangle_graph ! 3 = 0" by code_simp+
  show ?thesis
    using reverse_rows_transposed[OF ok e, where x = 3 and i = 3 and em = witness_metrics and mode_bit = 1 and timed = "\<lambda>_. True"
      and turn_cost = "\<lambda>_ _. Cost 0" and acceleration = None and opts = default_options] t by simp
qed

end
