(* ===== verification/Fallback.thy ===== *)
theory Fallback
  imports Routing_Graph
begin

text \<open>
  Failure modes (\<open>crates/query/src/engine/fallback.rs\<close>, \<open>requests.rs\<close>, \<open>route.rs\<close>): a request may allow
  movements the network forbids, at a price. Penalties are \<open>f64\<close> values, here rationals. The profile
  contributes the cost of a second, the street geometry says which pairs of edges are u-turns
  (\<open>classify_turn\<close>, trigonometry over coordinates): both are fields of \<open>movement_metrics\<close>.
\<close>

section \<open>Policies\<close>

record illegal_movement_penalty_policy =
  reverse_oneway_penalty_s :: "rat option"
  illegal_turn_penalty_s :: "rat option"
  ignored_turn_restriction_penalty_s :: "rat option"
  forbidden_uturn_penalty_s :: "rat option"

record fallback_policy =
  allow_reverse_oneway :: bool
  allow_illegal_turn :: bool
  ignore_turn_restrictions :: bool
  allow_uturn_where_normally_forbidden :: bool
  auto_relax_unreachable :: bool
  penalties :: illegal_movement_penalty_policy
  max_illegal_distance_m :: "rat option"
  max_illegal_turns :: "u32 option"

record movement_metrics =
  cost_time_weight :: rat
  is_uturn :: "nat \<Rightarrow> nat \<Rightarrow> bool"

definition has_failure_modes :: "fallback_policy \<Rightarrow> bool" where
  "has_failure_modes fb \<longleftrightarrow> allow_reverse_oneway fb \<or> allow_illegal_turn fb \<or> ignore_turn_restrictions fb
     \<or> allow_uturn_where_normally_forbidden fb"

definition has_failure_mode_limits :: "fallback_policy \<Rightarrow> bool" where
  "has_failure_mode_limits fb \<longleftrightarrow> has_failure_modes fb \<and> (max_illegal_distance_m fb \<noteq> None \<or> max_illegal_turns fb \<noteq> None)"

section \<open>Penalties\<close>

text \<open>\<open>unwrap_or_default\<close> and \<open>or\<close>.\<close>

definition or_default :: "rat option \<Rightarrow> rat" where
  "or_default x = (case x of None \<Rightarrow> 0 | Some r \<Rightarrow> r)"

definition or_else :: "'a option \<Rightarrow> 'a option \<Rightarrow> 'a option" where
  "or_else x y = (case x of None \<Rightarrow> y | Some _ \<Rightarrow> x)"

definition is_virtual :: "routing_graph \<Rightarrow> nat \<Rightarrow> bool" where
  "is_virtual g e \<longleftrightarrow> e < length (virtual_reverse_of g) \<and> virtual_reverse_of g ! e \<noteq> None"

text \<open>Seconds and cost.\<close>

definition edge_failure_mode_penalty :: "movement_metrics \<Rightarrow> routing_graph \<Rightarrow> fallback_policy \<Rightarrow> nat \<Rightarrow> rat \<times> rat" where
  "edge_failure_mode_penalty m g fb e =
     (if is_virtual g e
      then let penalty_s = or_default (reverse_oneway_penalty_s (penalties fb))
           in (penalty_s, penalty_s * cost_time_weight m)
      else (0, 0))"

text \<open>The penalty of a movement that completes a restriction of \<open>sequence_len\<close> edges.\<close>

definition relaxed_restriction :: "movement_metrics \<Rightarrow> fallback_policy \<Rightarrow> nat \<Rightarrow> nat \<Rightarrow> nat \<Rightarrow> rat option" where
  "relaxed_restriction m fb sequence_len prev nxt =
     (if ignore_turn_restrictions fb then Some (or_default (ignored_turn_restriction_penalty_s (penalties fb)))
      else if sequence_len = 2 \<and> is_uturn m prev nxt \<and> allow_uturn_where_normally_forbidden fb
      then Some (or_default (or_else (forbidden_uturn_penalty_s (penalties fb)) (illegal_turn_penalty_s (penalties fb))))
      else if sequence_len = 2 \<and> allow_illegal_turn fb then Some (or_default (illegal_turn_penalty_s (penalties fb)))
      else None)"

definition transition_failure_mode_penalty :: "movement_metrics \<Rightarrow> routing_graph \<Rightarrow> fallback_policy \<Rightarrow> nat \<Rightarrow> nat \<Rightarrow> nat \<Rightarrow>
    (rat \<times> rat) option" where
  "transition_failure_mode_penalty m g fb automaton_state prev nxt =
     (case (case prohibited_sequence_len (automaton g) automaton_state nxt of
              None \<Rightarrow> Some 0 | Some sequence_len \<Rightarrow> relaxed_restriction m fb sequence_len prev nxt) of
        None \<Rightarrow> None
      | Some penalty_s \<Rightarrow>
          Some (penalty_s, penalty_s * cost_time_weight m + snd (edge_failure_mode_penalty m g fb nxt)))"

text \<open>The penalties a search has paid along a path, replaying the automaton.\<close>

fun replay_penalties :: "movement_metrics \<Rightarrow> routing_graph \<Rightarrow> fallback_policy \<Rightarrow> cost \<Rightarrow> nat \<Rightarrow> nat \<Rightarrow> nat list \<Rightarrow> cost" where
  "replay_penalties m g fb t automaton_state prev [] = t"
| "replay_penalties m g fb t automaton_state prev (e # es) =
     replay_penalties m g fb
       (t + (case transition_failure_mode_penalty m g fb automaton_state prev e of None \<Rightarrow> Infinite | Some (_, c) \<Rightarrow> Cost c))
       (transition (automaton g) automaton_state e) e es"

definition path_failure_mode_penalty_cost :: "movement_metrics \<Rightarrow> routing_graph \<Rightarrow> fallback_policy \<Rightarrow> nat list \<Rightarrow> cost" where
  "path_failure_mode_penalty_cost m g fb es = (case es of [] \<Rightarrow> Cost 0
     | first # rest \<Rightarrow> replay_penalties m g fb (Cost (snd (edge_failure_mode_penalty m g fb first)))
         (transition (automaton g) 0 first) first rest)"

section \<open>Routes under a policy\<close>

text \<open>The walks a request may answer with, and their cost: an origin seed, then transitions whose
  restrictions are kept or paid for. The automaton state is the one of the edges travelled.\<close>

inductive priced_walk :: "movement_metrics \<Rightarrow> routing_graph \<Rightarrow> fallback_policy \<Rightarrow> (nat \<times> cost) set \<Rightarrow> nat list \<Rightarrow> rat \<Rightarrow> bool"
  for m g fb origin where
  seed: "(e, Cost c) \<in> origin \<Longrightarrow> priced_walk m g fb origin [e] (c + snd (edge_failure_mode_penalty m g fb e))"
| move: "priced_walk m g fb origin (es @ [x]) c \<Longrightarrow> i \<in> set (transition_range g x) \<Longrightarrow> transition_edges g ! i = y \<Longrightarrow>
    transition_costs g ! i = Cost w \<Longrightarrow> transition_failure_mode_penalty m g fb (run (automaton g) (es @ [x])) x y = Some (t, p) \<Longrightarrow>
    priced_walk m g fb origin (es @ [x, y]) (c + w + p)"

inductive_cases priced_walk_NilE: "priced_walk m g fb origin [] c"

lemma priced_walk_not_Nil: "priced_walk m g fb origin es c \<Longrightarrow> es \<noteq> []"
  by (cases rule: priced_walk.cases) auto

text \<open>Penalties are never negative.\<close>

definition fair_penalties :: "movement_metrics \<Rightarrow> fallback_policy \<Rightarrow> bool" where
  "fair_penalties m fb \<longleftrightarrow> 0 \<le> cost_time_weight m
     \<and> 0 \<le> or_default (reverse_oneway_penalty_s (penalties fb)) \<and> 0 \<le> or_default (illegal_turn_penalty_s (penalties fb))
     \<and> 0 \<le> or_default (ignored_turn_restriction_penalty_s (penalties fb))
     \<and> 0 \<le> or_default (or_else (forbidden_uturn_penalty_s (penalties fb)) (illegal_turn_penalty_s (penalties fb)))"

lemma edge_penalty_nonneg: "fair_penalties m fb \<Longrightarrow> 0 \<le> snd (edge_failure_mode_penalty m g fb e)"
  by (simp add: fair_penalties_def edge_failure_mode_penalty_def Let_def)

lemma transition_penalty_nonneg:
  assumes "fair_penalties m fb" "transition_failure_mode_penalty m g fb q x y = Some (t, p)"
  shows "0 \<le> p"
proof -
  have "0 \<le> r" if "relaxed_restriction m fb l x y = Some r" for l r
    using that assms(1) by (auto simp: relaxed_restriction_def fair_penalties_def split: if_splits)
  then show ?thesis
    using assms edge_penalty_nonneg[OF assms(1), of g y]
    by (auto simp: transition_failure_mode_penalty_def fair_penalties_def split: option.splits)
qed

text \<open>Without failure modes, the restrictions decide alone.\<close>

lemma strict_transition_penalty:
  assumes "\<not> has_failure_modes fb"
  shows "transition_failure_mode_penalty m g fb q x y = None \<longleftrightarrow> prohibited_sequence_len (automaton g) q y \<noteq> None"
  using assms
  by (auto simp: transition_failure_mode_penalty_def relaxed_restriction_def has_failure_modes_def split: option.splits)

lemma strict_penalty_value:
  assumes "\<not> has_failure_modes fb" "virtual_reverse_of g = []"
  shows "transition_failure_mode_penalty m g fb q x y = (if prohibited_sequence_len (automaton g) q y = None then Some (0, 0) else None)"
  using assms
  by (auto simp: transition_failure_mode_penalty_def relaxed_restriction_def has_failure_modes_def edge_failure_mode_penalty_def
      is_virtual_def split: option.splits)

lemma replay_penalties_snoc:
  "replay_penalties m g fb t q x (es @ [y]) = replay_penalties m g fb t q x es
    + (case transition_failure_mode_penalty m g fb (foldl (transition (automaton g)) q es) (last (x # es)) y of
         None \<Rightarrow> Infinite | Some (_, c) \<Rightarrow> Cost c)"
  by (induction es arbitrary: t q x) auto

lemma path_penalty_snoc:
  "path_failure_mode_penalty_cost m g fb (es @ [x, y]) = path_failure_mode_penalty_cost m g fb (es @ [x])
    + (case transition_failure_mode_penalty m g fb (run (automaton g) (es @ [x])) x y of None \<Rightarrow> Infinite | Some (_, c) \<Rightarrow> Cost c)"
proof (cases es)
  case Nil
  then show ?thesis by (simp add: path_failure_mode_penalty_cost_def run_def)
next
  case (Cons e es')
  then show ?thesis
    using replay_penalties_snoc[where es = "es' @ [x]" and y = y and m = m and g = g and fb = fb and x = e
        and q = "transition (automaton g) 0 e" and t = "Cost (snd (edge_failure_mode_penalty m g fb e))"]
    by (simp add: path_failure_mode_penalty_cost_def run_def)
qed

end
