(* ===== verification/Restricted_Search.thy ===== *)
theory Restricted_Search
  imports Fallback
begin

text \<open>
  The restriction-aware search (\<open>RestrictedSearchScratch\<close> in \<open>crates/query/src/engine/fallback.rs\<close>): a
  Dijkstra search over pairs of an edge and an automaton state, whose frontier is kept for further
  destinations of the same origin. The hash maps are maps, the queue is a bag popped at its first
  entry (the order \<open>State_Heap\<close> is proved to refine), a missing map entry or an empty queue where
  the code unwraps is \<open>Panicked\<close>.
\<close>

section \<open>State\<close>

type_synonym search_key = "nat \<times> nat"

record restricted_search =
  tentative :: "search_key \<rightharpoonup> rat"
  previous_key :: "search_key \<rightharpoonup> search_key option"
  settled_edges :: "nat \<rightharpoonup> search_key"
  search_heap :: "query_entry list"

datatype search_error = Panicked | Failed_Reconstruction

definition label_of :: "restricted_search \<Rightarrow> search_key \<Rightarrow> cost" where
  "label_of s k = (case tentative s k of None \<Rightarrow> Infinite | Some d \<Rightarrow> Cost d)"

definition set_label :: "search_key \<Rightarrow> rat \<Rightarrow> search_key option \<Rightarrow> restricted_search \<Rightarrow> restricted_search" where
  "set_label k d p s = s\<lparr>tentative := (tentative s)(k \<mapsto> d), previous_key := (previous_key s)(k \<mapsto> p),
     search_heap := (fst k, snd k, d) # search_heap s\<rparr>"

section \<open>Seeding\<close>

definition seed_search :: "movement_metrics \<Rightarrow> routing_graph \<Rightarrow> fallback_policy \<Rightarrow> restricted_search \<Rightarrow> nat \<times> cost \<Rightarrow> restricted_search" where
  "seed_search m g fb s = (\<lambda>(e, c).
     let k = (e, transition (automaton g) 0 e)
     in case c + Cost (snd (edge_failure_mode_penalty m g fb e)) of
          Infinite \<Rightarrow> s
        | Cost x \<Rightarrow> if label_of s k \<le> Cost x then s else set_label k x None s)"

definition prepare_search :: "movement_metrics \<Rightarrow> routing_graph \<Rightarrow> fallback_policy \<Rightarrow> (nat \<times> cost) list \<Rightarrow> restricted_search \<Rightarrow> restricted_search" where
  "prepare_search m g fb origin s = foldl (seed_search m g fb)
     (s\<lparr>tentative := (\<lambda>_. None), previous_key := (\<lambda>_. None), settled_edges := (\<lambda>_. None), search_heap := []\<rparr>) origin"

section \<open>Destinations\<close>

definition add_adjustment :: "(nat \<times> cost) list \<Rightarrow> nat \<times> cost \<Rightarrow> (nat \<times> cost) list" where
  "add_adjustment adj = (\<lambda>(e, a). case map_of adj e of
       None \<Rightarrow> adj @ [(e, a)] | Some known \<Rightarrow> AList.update e (min known a) adj)"

definition destination_adjustments :: "(nat \<times> cost) list \<Rightarrow> (nat \<times> cost) list" where
  "destination_adjustments seeds = foldl add_adjustment [] seeds"

definition minimum_adjustment :: "(nat \<times> cost) list \<Rightarrow> cost" where
  "minimum_adjustment adj = foldl min (Cost 0) (map snd adj)"

text \<open>Destination edges that an earlier search from this origin has settled.\<close>

fun settled_candidates :: "restricted_search \<Rightarrow> cost \<times> search_key option \<Rightarrow> (nat \<times> cost) list \<Rightarrow>
    search_error + cost \<times> search_key option" where
  "settled_candidates s q [] = Inr q"
| "settled_candidates s (best, k) ((e, a) # adj) = (case settled_edges s e of
       None \<Rightarrow> settled_candidates s (best, k) adj
     | Some j \<Rightarrow> (case tentative s j of
           None \<Rightarrow> Inl Panicked
         | Some d \<Rightarrow> settled_candidates s (if Cost d + a < best then (Cost d + a, Some j) else (best, k)) adj))"

section \<open>The search\<close>

definition relax_transition :: "movement_metrics \<Rightarrow> routing_graph \<Rightarrow> fallback_policy \<Rightarrow> search_key \<Rightarrow> rat \<Rightarrow>
    restricted_search \<Rightarrow> nat \<Rightarrow> restricted_search" where
  "relax_transition m g fb k c s i =
     (let next_edge = transition_edges g ! i
      in case transition_failure_mode_penalty m g fb (snd k) (fst k) next_edge of
           None \<Rightarrow> s
         | Some (_, penalty_cost) \<Rightarrow>
             (case Cost c + transition_costs g ! i + Cost penalty_cost of
                Infinite \<Rightarrow> s
              | Cost next_cost \<Rightarrow>
                  let next_key = (next_edge, transition (automaton g) (snd k) next_edge)
                  in if Cost (next_cost + EPSILON) < label_of s next_key
                     then set_label next_key next_cost (Some k) s else s))"

record route_progress =
  progress_search :: restricted_search
  progress_cost :: cost
  progress_key :: "search_key option"

definition settle_edge :: "search_key \<Rightarrow> restricted_search \<Rightarrow> restricted_search" where
  "settle_edge k s = (case settled_edges s (fst k) of
       None \<Rightarrow> s\<lparr>settled_edges := (settled_edges s)(fst k \<mapsto> k)\<rparr> | Some _ \<Rightarrow> s)"

definition try_destination :: "(nat \<times> cost) list \<Rightarrow> search_key \<Rightarrow> rat \<Rightarrow> route_progress \<Rightarrow> route_progress" where
  "try_destination adj k c q = (case map_of adj (fst k) of
       None \<Rightarrow> q
     | Some a \<Rightarrow> if Cost c + a < progress_cost q then q\<lparr>progress_cost := Cost c + a, progress_key := Some k\<rparr> else q)"

text \<open>One round of the loop; \<open>None\<close> is its end.\<close>

definition route_step :: "movement_metrics \<Rightarrow> routing_graph \<Rightarrow> fallback_policy \<Rightarrow> (nat \<times> cost) list \<Rightarrow> route_progress \<Rightarrow>
    (search_error + route_progress) option" where
  "route_step m g fb adj q =
     (let s = progress_search q
      in if \<not> queue_peek (search_heap s) + minimum_adjustment adj < progress_cost q then None
         else case queue_pop (search_heap s) of
           None \<Rightarrow> Some (Inl Panicked)
         | Some ((e, st, c), rest) \<Rightarrow>
             let s = s\<lparr>search_heap := rest\<rparr>
             in (case tentative s (e, st) of
                  None \<Rightarrow> Some (Inl Panicked)
                | Some known \<Rightarrow>
                    if known < c then Some (Inr (q\<lparr>progress_search := s\<rparr>))
                    else Some (Inr ((try_destination adj (e, st) c q)\<lparr>progress_search :=
                      foldl (relax_transition m g fb (e, st) c) (settle_edge (e, st) s) (transition_range g e)\<rparr>))))"

partial_function (option) route_loop :: "movement_metrics \<Rightarrow> routing_graph \<Rightarrow> fallback_policy \<Rightarrow> (nat \<times> cost) list \<Rightarrow>
    route_progress \<Rightarrow> (search_error + route_progress) option" where
  "route_loop m g fb adj q = (case route_step m g fb adj q of
       None \<Rightarrow> Some (Inr q)
     | Some (Inl err) \<Rightarrow> Some (Inl err)
     | Some (Inr q') \<Rightarrow> route_loop m g fb adj q')"

partial_function (option) reconstruct :: "(search_key \<rightharpoonup> search_key option) \<Rightarrow> search_key \<Rightarrow> nat list \<Rightarrow>
    (search_error + nat list) option" where
  "reconstruct prev cursor out = (case prev cursor of
       None \<Rightarrow> Some (Inl Failed_Reconstruction)
     | Some None \<Rightarrow> Some (Inr (fst cursor # out))
     | Some (Some k) \<Rightarrow> reconstruct prev k (fst cursor # out))"

definition answer_cost :: "route_path option \<Rightarrow> cost" where
  "answer_cost r = (case r of None \<Rightarrow> Infinite | Some p \<Rightarrow> total_generalized_cost p)"

definition finish_route :: "route_path option \<Rightarrow> route_progress \<Rightarrow> (search_error + restricted_search \<times> route_path option) option" where
  "finish_route initial q = (case progress_key q of
       None \<Rightarrow> Some (Inr (progress_search q, initial))
     | Some k \<Rightarrow> (case reconstruct (previous_key (progress_search q)) k [] of
           None \<Rightarrow> None
         | Some (Inl err) \<Rightarrow> Some (Inl err)
         | Some (Inr es) \<Rightarrow> Some (Inr (progress_search q,
             Some \<lparr>edge_indexes = es, total_generalized_cost = progress_cost q\<rparr>))))"

definition route_to :: "movement_metrics \<Rightarrow> routing_graph \<Rightarrow> fallback_policy \<Rightarrow> (nat \<times> cost) list \<Rightarrow> route_path option \<Rightarrow>
    restricted_search \<Rightarrow> (search_error + restricted_search \<times> route_path option) option" where
  "route_to m g fb destination initial s =
     (let adj = destination_adjustments destination
      in case settled_candidates s (answer_cost initial, None) adj of
           Inl err \<Rightarrow> Some (Inl err)
         | Inr (best, k) \<Rightarrow>
             (case route_loop m g fb adj \<lparr>progress_search = s, progress_cost = best, progress_key = k\<rparr> of
                None \<Rightarrow> None
              | Some (Inl err) \<Rightarrow> Some (Inl err)
              | Some (Inr q) \<Rightarrow> finish_route initial q))"

definition empty_search :: restricted_search where
  "empty_search = \<lparr>tentative = (\<lambda>_. None), previous_key = (\<lambda>_. None), settled_edges = (\<lambda>_. None), search_heap = []\<rparr>"

definition dijkstra_between_edge_seeds_with_failure_modes :: "movement_metrics \<Rightarrow> routing_graph \<Rightarrow> fallback_policy \<Rightarrow>
    (nat \<times> cost) list \<Rightarrow> (nat \<times> cost) list \<Rightarrow> route_path option \<Rightarrow> restricted_search \<Rightarrow>
    (search_error + restricted_search \<times> route_path option) option" where
  "dijkstra_between_edge_seeds_with_failure_modes m g fb origin destination initial s =
     route_to m g fb destination initial (prepare_search m g fb origin s)"

section \<open>Reconstruction\<close>

text \<open>The chain of predecessors of a key, whose inner keys are in \<open>E\<close>.\<close>

inductive traced :: "(search_key \<rightharpoonup> search_key option) \<Rightarrow> search_key set \<Rightarrow> search_key \<Rightarrow> nat list \<Rightarrow> bool" for P E where
  origin: "P k = Some None \<Longrightarrow> traced P E k [fst k]"
| link: "P k = Some (Some j) \<Longrightarrow> j \<in> E \<Longrightarrow> traced P E j es \<Longrightarrow> traced P E k (es @ [fst k])"

lemma traced_reconstruct: "traced P E k es \<Longrightarrow> reconstruct P k out = Some (Inr (es @ out))"
proof (induction arbitrary: out rule: traced.induct)
  case (origin k)
  then show ?case by (simp add: reconstruct.simps[of P k])
next
  case (link k j es)
  then show ?case by (simp add: reconstruct.simps[of P k])
qed

lemma traced_grows:
  assumes "traced P E k es" "x \<notin> E" "k \<noteq> x" "E \<subseteq> E'"
  shows "traced (P(x := v)) E' k es"
  using assms(1,3)
proof (induction rule: traced.induct)
  case (link k j es)
  then have "j \<noteq> x" "j \<in> E'" using assms(2,4) by auto
  then show ?case using link by (intro traced.link) auto
qed (simp add: traced.origin)

lemma traced_mono: "traced P E k es \<Longrightarrow> E \<subseteq> E' \<Longrightarrow> traced P E' k es"
  by (induction rule: traced.induct) (auto intro: traced.intros)

end
