(* ===== verification/Guided_Search.thy ===== *)
theory Guided_Search
  imports Restricted_Search
begin

text \<open>
  The label-setting search under a potential, shared by the restriction-aware Dijkstra search (whose
  potential is zero) and the restriction-aware A* search: the frontier invariant, its preservation
  by a pop and by the relaxation of a transition, and what it means for the answer when the search
  stops. A potential is a lower bound of the remaining cost for every edge, \<open>Infinite\<close> for edges that
  reach no destination, and consistent along every transition.
\<close>

section \<open>The frontier\<close>

text \<open>The arc of a key along one transition, if the policy lets it pass.\<close>

definition key_arc :: "movement_metrics \<Rightarrow> routing_graph \<Rightarrow> fallback_policy \<Rightarrow> search_key \<Rightarrow> nat \<Rightarrow> (search_key \<times> rat) option" where
  "key_arc m g fb k i =
     (let y = transition_edges g ! i
      in case transition_failure_mode_penalty m g fb (snd k) (fst k) y of
           None \<Rightarrow> None
         | Some (_, p) \<Rightarrow> (case transition_costs g ! i of
               Infinite \<Rightarrow> None | Cost w \<Rightarrow> Some ((y, transition (automaton g) (snd k) y), w + p)))"

definition offer_key :: "(nat \<Rightarrow> cost) \<Rightarrow> search_key \<Rightarrow> search_key \<Rightarrow> rat \<Rightarrow> restricted_search \<Rightarrow> restricted_search" where
  "offer_key pot k j x s =
     (if Cost (x + EPSILON) < label_of s j \<and> pot (fst j) \<noteq> Infinite then set_label j x (Some k) s else s)"

text \<open>Relaxing one transition under a potential.\<close>

definition offer_arc :: "movement_metrics \<Rightarrow> routing_graph \<Rightarrow> fallback_policy \<Rightarrow> (nat \<Rightarrow> cost) \<Rightarrow> search_key \<Rightarrow> rat \<Rightarrow>
    restricted_search \<Rightarrow> nat \<Rightarrow> restricted_search" where
  "offer_arc m g fb pot k c s i = (case key_arc m g fb k i of None \<Rightarrow> s | Some (j, w) \<Rightarrow> offer_key pot k j (c + w) s)"

abbreviation key_of :: "routing_graph \<Rightarrow> nat list \<Rightarrow> search_key" where
  "key_of g es \<equiv> (last es, run (automaton g) es)"

declare split_paired_All [simp del] split_paired_Ex [simp del]

text \<open>A graph that can be searched: transitions stay inside it and cost nothing negative.\<close>

definition searchable :: "routing_graph \<Rightarrow> bool" where
  "searchable g \<longleftrightarrow> (\<forall>e<length (edge_costs g). \<forall>i\<in>set (transition_range g e).
       transition_edges g ! i < length (edge_costs g) \<and> Cost 0 \<le> transition_costs g ! i)
     \<and> (\<exists>sqs. automaton g = build sqs)"

definition seeds_within :: "routing_graph \<Rightarrow> (nat \<times> cost) list \<Rightarrow> bool" where
  "seeds_within g seeds \<longleftrightarrow> (\<forall>(e, c)\<in>set seeds. e < length (edge_costs g))"

definition guide :: "movement_metrics \<Rightarrow> routing_graph \<Rightarrow> fallback_policy \<Rightarrow> (nat \<Rightarrow> cost) \<Rightarrow> bool" where
  "guide m g fb pot \<longleftrightarrow> (\<forall>k i j w. fst k < length (edge_costs g) \<longrightarrow> i \<in> set (transition_range g (fst k)) \<longrightarrow>
     key_arc m g fb k i = Some (j, w) \<longrightarrow> 0 \<le> w \<and> fst j < length (edge_costs g) \<and> pot (fst k) \<le> Cost w + pot (fst j))"

definition reached :: "movement_metrics \<Rightarrow> routing_graph \<Rightarrow> fallback_policy \<Rightarrow> (nat \<Rightarrow> cost) \<Rightarrow> (nat \<times> cost) list \<Rightarrow> search_key set \<Rightarrow>
    restricted_search \<Rightarrow> search_key \<Rightarrow> rat \<Rightarrow> bool" where
  "reached m g fb pot origin E s k d \<longleftrightarrow> fst k < length (edge_costs g) \<and> pot (fst k) \<noteq> Infinite
     \<and> (\<exists>es. traced (previous_key s) E k es \<and> priced_walk m g fb (set origin) es d \<and> k = key_of g es)"

definition queue_inv :: "(nat \<Rightarrow> cost) \<Rightarrow> search_key set \<Rightarrow> restricted_search \<Rightarrow> bool" where
  "queue_inv pot E s \<longleftrightarrow> E \<subseteq> dom (tentative s) \<and> distinct (search_heap s)
     \<and> (\<forall>k d. tentative s k = Some d \<longrightarrow> k \<in> E \<or> (fst k, snd k, d) \<in> set (search_heap s))
     \<and> (\<forall>x y c. (x, y, c) \<in> set (search_heap s) \<longrightarrow> (\<exists>d\<le>c. tentative s (x, y) = Some d \<and> ((x, y) \<in> E \<longrightarrow> d < c)))
     \<and> (\<forall>k\<in>E. \<forall>x y c. (x, y, c) \<in> set (search_heap s) \<longrightarrow>
         label_of s k + pot (fst k) \<le> Cost c + pot x)"

definition labels_inv :: "movement_metrics \<Rightarrow> routing_graph \<Rightarrow> fallback_policy \<Rightarrow> (nat \<Rightarrow> cost) \<Rightarrow> (nat \<times> cost) list \<Rightarrow> search_key set \<Rightarrow>
    search_key set \<Rightarrow> restricted_search \<Rightarrow> bool" where
  "labels_inv m g fb pot origin E R s \<longleftrightarrow> (\<forall>k d. tentative s k = Some d \<longrightarrow> reached m g fb pot origin E s k d)
     \<and> (\<forall>k\<in>R. \<forall>i\<in>set (transition_range g (fst k)). \<forall>j w. key_arc m g fb k i = Some (j, w) \<longrightarrow>
         pot (fst j) \<noteq> Infinite \<longrightarrow> label_of s j \<le> label_of s k + Cost (w + EPSILON))
     \<and> (\<forall>(e, c)\<in>set origin. pot e \<noteq> Infinite \<longrightarrow> label_of s (e, transition (automaton g) 0 e) \<le> c + Cost (snd (edge_failure_mode_penalty m g fb e)))"

section \<open>One relaxation\<close>

lemma label_of_Some: "label_of s k = Cost d \<longleftrightarrow> tentative s k = Some d"
  by (auto simp: label_of_def split: option.splits)

lemma label_set_label [simp]: "label_of (set_label k d p s) j = (if j = k then Cost d else label_of s j)"
  by (simp add: label_of_def set_label_def)

lemma set_label_fields [simp]:
  "tentative (set_label k d p s) = (tentative s)(k \<mapsto> d)" "previous_key (set_label k d p s) = (previous_key s)(k \<mapsto> p)"
  "settled_edges (set_label k d p s) = settled_edges s" "search_heap (set_label k d p s) = (fst k, snd k, d) # search_heap s"
  by (simp_all add: set_label_def)

lemma set_label_queue:
  assumes inv: "queue_inv pot E s" and k: "k \<notin> E" and d: "Cost d < label_of s k"
    and low: "\<forall>j\<in>E. label_of s j + pot (fst j) \<le> Cost d + pot (fst k)"
  shows "queue_inv pot E (set_label k d p s)"
proof -
  have old: "d < c" if c: "(fst k, snd k, c) \<in> set (search_heap s)" for c
  proof -
    obtain b where "b \<le> c" "tentative s k = Some b"
      using inv c unfolding queue_inv_def by (metis prod.collapse)
    then show ?thesis using d by (simp add: label_of_def)
  qed
  show ?thesis
    unfolding queue_inv_def
  proof (intro conjI allI impI ballI)
    show "E \<subseteq> dom (tentative (set_label k d p s))" using inv by (auto simp: queue_inv_def)
    show "distinct (search_heap (set_label k d p s))" using inv old by (auto simp: queue_inv_def)
  next
    fix j b assume "tentative (set_label k d p s) j = Some b"
    then show "j \<in> E \<or> (fst j, snd j, b) \<in> set (search_heap (set_label k d p s))"
      using inv by (auto simp: queue_inv_def split: if_splits)
  next
    fix x y c assume e: "(x, y, c) \<in> set (search_heap (set_label k d p s))"
    show "\<exists>b\<le>c. tentative (set_label k d p s) (x, y) = Some b \<and> ((x, y) \<in> E \<longrightarrow> b < c)"
    proof (cases "(x, y) = k")
      case True
      then show ?thesis using e k old[of c] by auto
    next
      case False
      then show ?thesis using e inv by (auto simp: queue_inv_def)
    qed
  next
    fix j x y c assume "j \<in> E" "(x, y, c) \<in> set (search_heap (set_label k d p s))"
    then show "label_of (set_label k d p s) j + pot (fst j) \<le> Cost c + pot x" using inv k low by (auto simp: queue_inv_def)
  qed
qed

lemma reached_set_label:
  assumes "reached m g fb pot origin E s j b" "k \<notin> E" "j \<noteq> k"
  shows "reached m g fb pot origin E (set_label k d p s) j b"
  using assms traced_grows[OF _ assms(2) assms(3) order_refl] by (fastforce simp: reached_def)

lemma set_label_labels:
  assumes inv: "labels_inv m g fb pot origin E R s" and k: "k \<notin> E" "R \<subseteq> E" and d: "Cost d \<le> label_of s k"
    and new: "reached m g fb pot origin E (set_label k d p s) k d"
  shows "labels_inv m g fb pot origin E R (set_label k d p s)"
  unfolding labels_inv_def
proof (intro conjI allI impI ballI)
  fix j b assume j: "tentative (set_label k d p s) j = Some b"
  show "reached m g fb pot origin E (set_label k d p s) j b"
  proof (cases "j = k")
    case True
    then show ?thesis using j new by simp
  next
    case False
    then have "reached m g fb pot origin E s j b" using j inv by (simp add: labels_inv_def)
    then show ?thesis by (rule reached_set_label[OF _ k(1) False])
  qed
next
  fix x i j w assume x: "x \<in> R" "i \<in> set (transition_range g (fst x))" "key_arc m g fb x i = Some (j, w)" "pot (fst j) \<noteq> Infinite"
  then have "label_of s j \<le> label_of s x + Cost (w + EPSILON)" "x \<noteq> k" using inv k by (auto simp: labels_inv_def)
  then show "label_of (set_label k d p s) j \<le> label_of (set_label k d p s) x + Cost (w + EPSILON)"
    using d by (auto intro: order_trans)
next
  fix x assume "x \<in> set origin"
  then show "case x of (e, c) \<Rightarrow> pot e \<noteq> Infinite \<longrightarrow> label_of (set_label k d p s) (e, transition (automaton g) 0 e)
      \<le> c + Cost (snd (edge_failure_mode_penalty m g fb e))"
    using inv d unfolding labels_inv_def by (fastforce intro: order_trans)
qed

lemma priced_walk_arc:
  assumes w: "priced_walk m g fb S es c" and k: "k = key_of g es" and i: "i \<in> set (transition_range g (fst k))"
    and a: "key_arc m g fb k i = Some (j, x)"
  shows "priced_walk m g fb S (es @ [fst j]) (c + x) \<and> j = key_of g (es @ [fst j])"
proof -
  obtain es' e where es: "es = es' @ [e]" using priced_walk_not_Nil[OF w] by (metis rev_exhaust)
  obtain t p v where p: "transition_failure_mode_penalty m g fb (run (automaton g) es) e (transition_edges g ! i) = Some (t, p)"
    "transition_costs g ! i = Cost v" "x = v + p" "j = (transition_edges g ! i, transition (automaton g) (run (automaton g) es) (transition_edges g ! i))"
    using a es k by (auto simp: key_arc_def Let_def split: option.splits cost.splits)
  have "priced_walk m g fb S (es' @ [e, fst j]) (c + v + p)"
    by (rule priced_walk.move) (use w es p k i in auto)
  then show ?thesis using p es run_snoc[of "automaton g" es] by (simp add: add.assoc)
qed

lemma zero_guide:
  assumes "searchable g" "fair_penalties m fb"
  shows "guide m g fb (\<lambda>_. Cost 0)"
  unfolding guide_def
proof (intro allI impI)
  fix k i j w assume "fst k < length (edge_costs g)" "i \<in> set (transition_range g (fst k))" "key_arc m g fb k i = Some (j, w)"
  then show "0 \<le> w \<and> fst j < length (edge_costs g) \<and> Cost 0 \<le> Cost w + Cost 0"
    using assms(1) transition_penalty_nonneg[OF assms(2)]
    by (fastforce simp: key_arc_def searchable_def Let_def split: option.splits cost.splits)
qed

lemma guideD:
  assumes "guide m g fb pot" "fst k < length (edge_costs g)" "i \<in> set (transition_range g (fst k))" "key_arc m g fb k i = Some (j, w)"
  shows "0 \<le> w" "fst j < length (edge_costs g)" "pot (fst k) \<le> Cost w + pot (fst j)"
  using assms unfolding guide_def by blast+

lemma EPSILON_pos: "0 < EPSILON"
  by (simp add: EPSILON_def)

text \<open>What relaxing from a settled key \<open>k\<close> at cost \<open>c\<close> keeps and achieves.\<close>

definition search_inv :: "movement_metrics \<Rightarrow> routing_graph \<Rightarrow> fallback_policy \<Rightarrow> (nat \<Rightarrow> cost) \<Rightarrow> (nat \<times> cost) list \<Rightarrow> search_key set \<Rightarrow>
    search_key set \<Rightarrow> restricted_search \<Rightarrow> bool" where
  "search_inv m g fb pot origin E R s \<longleftrightarrow> queue_inv pot E s \<and> labels_inv m g fb pot origin E R s \<and> R \<subseteq> E"

definition lowered :: "search_key set \<Rightarrow> restricted_search \<Rightarrow> restricted_search \<Rightarrow> bool" where
  "lowered E s s' \<longleftrightarrow> settled_edges s' = settled_edges s \<and> (\<forall>j\<in>E. tentative s' j = tentative s j)
     \<and> (\<forall>j. label_of s' j \<le> label_of s j)"

lemma lowered_refl: "lowered E s s"
  by (simp add: lowered_def)

lemma lowered_trans: "lowered E a b \<Longrightarrow> lowered E b c \<Longrightarrow> lowered E a c"
  unfolding lowered_def by (metis order_trans)

lemma offer_inv:
  assumes ok: "guide m g fb pot" and inv: "search_inv m g fb pot origin E R s"
    and k: "k \<in> E" "tentative s k = Some c" "\<forall>j\<in>E. label_of s j + pot (fst j) \<le> Cost c + pot (fst k)"
    and i: "i \<in> set (transition_range g (fst k))" "key_arc m g fb k i = Some (j, w)"
  shows "search_inv m g fb pot origin E R (offer_key pot k j (c + w) s) \<and> lowered E s (offer_key pot k j (c + w) s)
    \<and> (pot (fst j) \<noteq> Infinite \<longrightarrow> label_of (offer_key pot k j (c + w) s) j \<le> Cost (c + w + EPSILON))"
proof (cases "Cost (c + w + EPSILON) < label_of s j \<and> pot (fst j) \<noteq> Infinite")
  case False
  then have "offer_key pot k j (c + w) s = s" by (auto simp: offer_key_def)
  then show ?thesis using inv False by (auto simp: lowered_refl not_less)
next
  case True
  let ?s = "set_label j (c + w) (Some k) s"
  have r: "reached m g fb pot origin E s k c" using inv k(2) by (simp add: search_inv_def labels_inv_def)
  then have w: "0 \<le> w" "fst j < length (edge_costs g)" "pot (fst k) \<le> Cost w + pot (fst j)"
    using guideD[OF ok _ i] by (auto simp: reached_def)
  have up: "Cost c + pot (fst k) \<le> Cost (c + w) + pot (fst j)"
    using add_left_mono[OF w(3), of "Cost c"] by (simp add: add.assoc[symmetric])
  have less: "Cost (c + w) < label_of s j"
    using True EPSILON_pos by (cases "label_of s j") auto
  have j: "j \<notin> E"
  proof
    assume "j \<in> E"
    then have "label_of s j + pot (fst j) \<le> Cost (c + w) + pot (fst j)" using k(3) up by (blast intro: order_trans)
    then show False using less True by (cases "pot (fst j)"; cases "label_of s j") auto
  qed
  then have jk: "j \<noteq> k" using k(1) by auto
  obtain es where es: "traced (previous_key s) E k es" "priced_walk m g fb (set origin) es c" "k = key_of g es"
    using r by (auto simp: reached_def)
  have "traced (previous_key ?s) E j (es @ [fst j])"
    by (rule traced.link[where j = k]) (use k(1) traced_grows[OF es(1) j] jk in auto)
  then have new: "reached m g fb pot origin E ?s j (c + w)"
    using priced_walk_arc[OF es(2,3) i] w(2) True unfolding reached_def by blast
  have "search_inv m g fb pot origin E R ?s"
    unfolding search_inv_def
  proof (intro conjI)
    have "\<forall>x\<in>E. label_of s x + pot (fst x) \<le> Cost (c + w) + pot (fst j)" using k(3) up by (blast intro: order_trans)
    then show "queue_inv pot E ?s" using inv j less by (intro set_label_queue) (auto simp: search_inv_def)
    show "labels_inv m g fb pot origin E R ?s"
      using inv j less new by (intro set_label_labels) (auto simp: search_inv_def)
  qed (use inv in \<open>simp add: search_inv_def\<close>)
  moreover have "lowered E s ?s" using j less by (auto simp: lowered_def)
  moreover have "offer_key pot k j (c + w) s = ?s" using True by (simp add: offer_key_def)
  ultimately show ?thesis using EPSILON_pos by simp
qed

lemma relax_transitions:
  assumes ok: "guide m g fb pot" and inv: "search_inv m g fb pot origin E R s"
    and k: "k \<in> E" "tentative s k = Some c" "\<forall>j\<in>E. label_of s j + pot (fst j) \<le> Cost c + pot (fst k)"
    and sub: "set ts \<subseteq> set (transition_range g (fst k))"
  defines "s' \<equiv> foldl (offer_arc m g fb pot k c) s ts"
  shows "search_inv m g fb pot origin E R s' \<and> lowered E s s'
    \<and> (\<forall>i\<in>set ts. \<forall>j w. key_arc m g fb k i = Some (j, w) \<longrightarrow> pot (fst j) \<noteq> Infinite \<longrightarrow> label_of s' j \<le> Cost (c + w + EPSILON))"
  using sub unfolding s'_def
proof (induction ts rule: rev_induct)
  case Nil
  then show ?case using inv by (simp add: lowered_refl)
next
  case (snoc i ts)
  let ?a = "foldl (offer_arc m g fb pot k c) s ts"
  have a: "search_inv m g fb pot origin E R ?a" "lowered E s ?a"
    "\<forall>i\<in>set ts. \<forall>j w. key_arc m g fb k i = Some (j, w) \<longrightarrow> pot (fst j) \<noteq> Infinite \<longrightarrow> label_of ?a j \<le> Cost (c + w + EPSILON)"
    using snoc by auto
  have ka: "tentative ?a k = Some c" "\<forall>j\<in>E. label_of ?a j + pot (fst j) \<le> Cost c + pot (fst k)"
    using a(2) k by (auto simp: lowered_def label_of_def)
  show ?case
  proof (cases "key_arc m g fb k i")
    case None
    then have "foldl (offer_arc m g fb pot k c) s (ts @ [i]) = ?a" by (simp add: offer_arc_def)
    then show ?thesis using a None by simp
  next
    case (Some jw)
    then obtain j w where jw: "key_arc m g fb k i = Some (j, w)" by (cases jw) simp
    let ?b = "offer_key pot k j (c + w) ?a"
    have b: "search_inv m g fb pot origin E R ?b" "lowered E ?a ?b" "pot (fst j) \<noteq> Infinite \<longrightarrow> label_of ?b j \<le> Cost (c + w + EPSILON)"
      using offer_inv[OF ok a(1) k(1) ka _ jw] snoc.prems by auto
    have eq: "foldl (offer_arc m g fb pot k c) s (ts @ [i]) = ?b" using jw by (simp add: offer_arc_def)
    have "label_of ?b j' \<le> label_of ?a j'" for j' using b(2) by (simp add: lowered_def)
    then show ?thesis
      unfolding eq using a b jw lowered_trans by (fastforce intro: order_trans)
  qed
qed

section \<open>One round\<close>

lemma heap_fields [simp]:
  "label_of (s\<lparr>search_heap := h\<rparr>) = label_of s" "reached m g fb pot origin E (s\<lparr>search_heap := h\<rparr>) = reached m g fb pot origin E s"
  "labels_inv m g fb pot origin E R (s\<lparr>search_heap := h\<rparr>) = labels_inv m g fb pot origin E R s"
  by (simp_all add: label_of_def reached_def labels_inv_def fun_eq_iff)

text \<open>The entry of least score leaves the queue.\<close>

definition pops :: "(nat \<Rightarrow> cost) \<Rightarrow> query_entry list \<Rightarrow> query_entry \<Rightarrow> query_entry list \<Rightarrow> bool" where
  "pops pot q e rest \<longleftrightarrow> e \<in> set q \<and> rest = remove1 e q
     \<and> (case e of (x, y, c) \<Rightarrow> \<forall>(x', y', c')\<in>set q. Cost c + pot x \<le> Cost c' + pot x')"

lemma popsD:
  assumes "pops pot q (x, y, c) rest"
  shows "(x, y, c) \<in> set q" "rest = remove1 (x, y, c) q" "set rest \<subseteq> set q" "length rest < length q"
    "(x', y', c') \<in> set q \<Longrightarrow> Cost c + pot x \<le> Cost c' + pot x'" "e \<in> set q \<Longrightarrow> e \<noteq> (x, y, c) \<Longrightarrow> e \<in> set rest"
proof -
  show m: "(x, y, c) \<in> set q" and r: "rest = remove1 (x, y, c) q" and
    "(x', y', c') \<in> set q \<Longrightarrow> Cost c + pot x \<le> Cost c' + pot x'"
    using assms by (auto simp: pops_def)
  show "set rest \<subseteq> set q" "e \<in> set q \<Longrightarrow> e \<noteq> (x, y, c) \<Longrightarrow> e \<in> set rest"
    unfolding r using set_remove1_subset[of _ q] by (auto simp: in_set_remove1)
  show "length rest < length q" using m length_pos_if_in_set[OF m] by (simp add: r length_remove1)
qed

lemma pop_stale:
  assumes inv: "queue_inv pot E s" and pop: "pops pot (search_heap s) (x, y, c) rest"
    and stale: "tentative s (x, y) = Some d" "d < c"
  shows "queue_inv pot E (s\<lparr>search_heap := rest\<rparr>)"
proof -
  note r = popsD[OF pop]
  have "(fst k, snd k, b) \<in> set rest" if "tentative s k = Some b" "(fst k, snd k, b) \<in> set (search_heap s)" for k b
  proof -
    have "(fst k, snd k, b) \<noteq> (x, y, c)" using that(1) stale by (cases k) auto
    then show ?thesis by (rule r(6)[OF that(2)])
  qed
  moreover have "distinct rest" using inv by (simp add: r(2) queue_inv_def)
  ultimately show ?thesis using inv r(3) unfolding queue_inv_def heap_fields
    by (simp add: subset_iff) blast
qed

lemma pop_settles:
  assumes inv: "queue_inv pot E s" and pop: "pops pot (search_heap s) (x, y, c) rest"
    and fresh: "tentative s (x, y) = Some d" "\<not> d < c"
  shows "d = c" "(x, y) \<notin> E" "queue_inv pot (insert (x, y) E) (s\<lparr>search_heap := rest\<rparr>)"
proof -
  note r = popsD[OF pop]
  obtain b where b: "b \<le> c" "tentative s (x, y) = Some b" "(x, y) \<in> E \<longrightarrow> b < c"
    using inv r(1) unfolding queue_inv_def by blast
  show d: "d = c" and E: "(x, y) \<notin> E" using b fresh by auto
  have dis: "distinct rest" "(x, y, c) \<notin> set rest" using inv by (simp_all add: r(2) queue_inv_def)
  show "queue_inv pot (insert (x, y) E) (s\<lparr>search_heap := rest\<rparr>)"
    unfolding queue_inv_def heap_fields
  proof (intro conjI allI impI ballI)
    show "insert (x, y) E \<subseteq> dom (tentative (s\<lparr>search_heap := rest\<rparr>))" using inv fresh by (auto simp: queue_inv_def)
    show "distinct (search_heap (s\<lparr>search_heap := rest\<rparr>))" using dis by simp
  next
    fix k b assume "tentative (s\<lparr>search_heap := rest\<rparr>) k = Some b"
    then have "k \<in> E \<or> (fst k, snd k, b) \<in> set (search_heap s)" using inv by (simp add: queue_inv_def)
    then show "k \<in> insert (x, y) E \<or> (fst k, snd k, b) \<in> set (search_heap (s\<lparr>search_heap := rest\<rparr>))"
      using r(6)[of "(fst k, snd k, b)"] by (cases k) auto
  next
    fix x' y' c' assume "(x', y', c') \<in> set (search_heap (s\<lparr>search_heap := rest\<rparr>))"
    then have m: "(x', y', c') \<in> set rest" by simp
    then have "(x', y', c') \<in> set (search_heap s)" using r(3) by blast
    then obtain b where b: "b \<le> c'" "tentative s (x', y') = Some b" "(x', y') \<in> E \<longrightarrow> b < c'"
      using inv unfolding queue_inv_def by blast
    have "b < c'" if "(x', y') = (x, y)" using that b dis(2) m fresh d by (metis Pair_inject option.inject le_less)
    then show "\<exists>b\<le>c'. tentative (s\<lparr>search_heap := rest\<rparr>) (x', y') = Some b \<and> ((x', y') \<in> insert (x, y) E \<longrightarrow> b < c')"
      using b by auto
  next
    fix k x' y' c' assume k: "k \<in> insert (x, y) E" and "(x', y', c') \<in> set (search_heap (s\<lparr>search_heap := rest\<rparr>))"
    then have m: "(x', y', c') \<in> set (search_heap s)" using r(3) by auto
    have "label_of s (x, y) + pot x \<le> Cost c' + pot x'" using r(5)[OF m] fresh d by (simp add: label_of_def)
    then show "label_of s k + pot (fst k) \<le> Cost c' + pot x'" using k m inv by (auto simp: queue_inv_def)
  qed
qed

lemma reached_mono: "reached m g fb pot origin E s k d \<Longrightarrow> E \<subseteq> E' \<Longrightarrow> reached m g fb pot origin E' s k d"
  unfolding reached_def using traced_mono by blast

lemma settle_key:
  assumes ok: "guide m g fb pot" and inv: "search_inv m g fb pot origin E E s"
    and pop: "pops pot (search_heap s) (x, y, c) rest"
    and fresh: "tentative s (x, y) = Some d" "\<not> d < c"
  defines "E' \<equiv> insert (x, y) E"
  defines "s' \<equiv> foldl (offer_arc m g fb pot (x, y) c) (s\<lparr>search_heap := rest\<rparr>) (transition_range g x)"
  shows "search_inv m g fb pot origin E' E' s' \<and> lowered E' s s'"
proof -
  let ?k = "(x, y)" and ?s = "s\<lparr>search_heap := rest\<rparr>"
  have q: "queue_inv pot E s" "labels_inv m g fb pot origin E E s" using inv by (auto simp: search_inv_def)
  note p = pop_settles[OF q(1) pop fresh]
  have k: "tentative s ?k = Some c" "label_of s ?k = Cost c" using fresh p(1) by (simp_all add: label_of_def)
  have low: "\<forall>j\<in>E. label_of s j + pot (fst j) \<le> Cost c + pot x" using q(1) popsD(1)[OF pop] by (auto simp: queue_inv_def)
  have "search_inv m g fb pot origin E' E ?s"
    unfolding search_inv_def
  proof (intro conjI)
    show "queue_inv pot E' ?s" using p(3) by (simp add: queue_inv_def E'_def)
    have "reached m g fb pot origin E' ?s j b" if "tentative ?s j = Some b" for j b
      using that q(2) reached_mono[of m g fb pot origin E s j b E'] by (simp add: labels_inv_def reached_def E'_def subset_insertI)
    then show "labels_inv m g fb pot origin E' E ?s"
      using q(2) by (simp add: labels_inv_def)
  qed (auto simp: E'_def)
  from relax_transitions[OF ok this, of ?k c "transition_range g x"]
  have r: "search_inv m g fb pot origin E' E s'" "lowered E' ?s s'"
    "\<forall>i\<in>set (transition_range g x). \<forall>j w. key_arc m g fb ?k i = Some (j, w) \<longrightarrow> pot (fst j) \<noteq> Infinite \<longrightarrow>
       label_of s' j \<le> Cost (c + w + EPSILON)"
    using low k by (auto simp: E'_def s'_def)
  have same: "lowered E' s s'" using r(2) by (simp add: lowered_def)
  then have k': "label_of s' ?k = Cost c" using k by (simp add: lowered_def label_of_def E'_def)
  have "labels_inv m g fb pot origin E' E' s'"
    using r(1,3) k' unfolding search_inv_def labels_inv_def E'_def by (auto simp: add.assoc)
  then show ?thesis using r(1) same by (simp add: search_inv_def)
qed

section \<open>Seeding\<close>

definition seed_key :: "(nat \<Rightarrow> cost) \<Rightarrow> movement_metrics \<Rightarrow> routing_graph \<Rightarrow> fallback_policy \<Rightarrow> restricted_search \<Rightarrow> nat \<times> cost \<Rightarrow>
    restricted_search" where
  "seed_key pot m g fb s = (\<lambda>(e, c).
     let k = (e, transition (automaton g) 0 e)
     in case c + Cost (snd (edge_failure_mode_penalty m g fb e)) of
          Infinite \<Rightarrow> s
        | Cost x \<Rightarrow> if pot e = Infinite \<or> label_of s k \<le> Cost x then s else set_label k x None s)"

lemma seeding_inv:
  fixes m :: movement_metrics and fb :: fallback_policy and pot :: "nat \<Rightarrow> cost"
  assumes seeds: "seeds_within g origin" and s0: "tentative s0 = (\<lambda>_. None)" "search_heap s0 = []" and sub: "set ts \<subseteq> set origin"
  defines "s \<equiv> foldl (seed_key pot m g fb) s0 ts"
  shows "queue_inv pot {} s \<and> (\<forall>k d. tentative s k = Some d \<longrightarrow> reached m g fb pot origin {} s k d) \<and> settled_edges s = settled_edges s0
    \<and> (\<forall>(e, c)\<in>set ts. pot e \<noteq> Infinite \<longrightarrow>
        label_of s (e, transition (automaton g) 0 e) \<le> c + Cost (snd (edge_failure_mode_penalty m g fb e)))"
  using sub unfolding s_def
proof (induction ts rule: rev_induct)
  case Nil
  then show ?case using s0 by (simp add: queue_inv_def)
next
  case (snoc seed ts)
  let ?a = "foldl (seed_key pot m g fb) s0 ts"
  obtain e c where seed: "seed = (e, c)" by (cases seed)
  let ?k = "(e, transition (automaton g) 0 e)" and ?p = "snd (edge_failure_mode_penalty m g fb e)"
  have a: "queue_inv pot {} ?a" "\<forall>k d. tentative ?a k = Some d \<longrightarrow> reached m g fb pot origin {} ?a k d" "settled_edges ?a = settled_edges s0"
    "\<forall>(e, c)\<in>set ts. pot e \<noteq> Infinite \<longrightarrow>
        label_of ?a (e, transition (automaton g) 0 e) \<le> c + Cost (snd (edge_failure_mode_penalty m g fb e))"
    using snoc by auto
  show ?case
  proof (cases "pot e = Infinite \<or> label_of ?a ?k \<le> c + Cost ?p")
    case True
    then have "foldl (seed_key pot m g fb) s0 (ts @ [seed]) = ?a"
      by (auto simp: seed seed_key_def Let_def split: cost.splits)
    then show ?thesis using a True seed by auto
  next
    case False
    then obtain x where c: "c = Cost x" by (cases c) auto
    let ?b = "set_label ?k (x + ?p) None ?a"
    have b: "foldl (seed_key pot m g fb) s0 (ts @ [seed]) = ?b"
      using False by (simp add: seed seed_key_def Let_def c)
    have less: "Cost (x + ?p) < label_of ?a ?k" using False c by (simp add: not_le)
    have q: "queue_inv pot {} ?b" by (rule set_label_queue[OF a(1) _ less]) simp_all
    have e: "(e, Cost x) \<in> set origin" "e < length (edge_costs g)" using snoc.prems seeds seed c by (auto simp: seeds_within_def)
    have "traced (previous_key ?b) {} ?k [e]" using traced.origin[of "previous_key ?b" ?k] by simp
    then have new: "reached m g fb pot origin {} ?b ?k (x + ?p)"
      using priced_walk.seed[OF e(1), of m g fb] e(2) False unfolding reached_def by (auto simp: run_def)
    have "reached m g fb pot origin {} ?b k d" if k: "tentative ?b k = Some d" for k d
    proof (cases "k = ?k")
      case True
      then show ?thesis using k new by simp
    next
      case False
      then have "reached m g fb pot origin {} ?a k d" using k a(2) by simp
      then show ?thesis by (rule reached_set_label) (use False in auto)
    qed
    moreover have "label_of ?b (e', transition (automaton g) 0 e') \<le> c' + Cost (snd (edge_failure_mode_penalty m g fb e'))"
      if "(e', c') \<in> set (ts @ [seed])" "pot e' \<noteq> Infinite" for e' c'
    proof (cases "e' = e")
      case True
      then show ?thesis using that a(4) less c seed by (auto intro: order_trans less_imp_le)
    next
      case False
      then show ?thesis using that a(4) seed by auto
    qed
    ultimately show ?thesis using q a(3) unfolding b by auto
  qed
qed

lemma seeded_search:
  assumes "seeds_within g origin" "tentative s0 = (\<lambda>_. None)" "search_heap s0 = []"
  shows "search_inv m g fb pot origin {} {} (foldl (seed_key pot m g fb) s0 origin)"
    "settled_edges (foldl (seed_key pot m g fb) s0 origin) = settled_edges s0"
  using seeding_inv[OF assms order_refl, of pot m fb] by (auto simp: search_inv_def labels_inv_def)

section \<open>The best destination\<close>

definition tried :: "(nat \<times> cost) list \<Rightarrow> search_key \<Rightarrow> rat \<Rightarrow> cost \<times> search_key option \<Rightarrow> cost \<times> search_key option" where
  "tried adj k c = (\<lambda>(best, b). case map_of adj (fst k) of
       None \<Rightarrow> (best, b) | Some a \<Rightarrow> if Cost c + a < best then (Cost c + a, Some k) else (best, b))"

text \<open>The best meeting so far is the least over the settled destination edges.\<close>

definition best_inv :: "(nat \<times> cost) list \<Rightarrow> cost \<Rightarrow> search_key set \<Rightarrow> restricted_search \<Rightarrow> cost \<times> search_key option \<Rightarrow> bool" where
  "best_inv adj initial E s = (\<lambda>(best, b).
     (\<forall>k\<in>E. \<forall>a. map_of adj (fst k) = Some a \<longrightarrow> best \<le> label_of s k + a) \<and> best \<le> initial
     \<and> (case b of None \<Rightarrow> best = initial
        | Some k \<Rightarrow> k \<in> E \<and> best \<noteq> Infinite \<and> (\<exists>a. map_of adj (fst k) = Some a \<and> best = label_of s k + a)))"

lemma best_inv_cong: "\<forall>k\<in>E. label_of s' k = label_of s k \<Longrightarrow> best_inv adj initial E s' b = best_inv adj initial E s b"
  by (cases b) (auto simp: best_inv_def split: option.splits)

lemma tried_inv:
  assumes inv: "best_inv adj initial E s b" and c: "label_of s k = Cost c"
  shows "best_inv adj initial (insert k E) s (tried adj k c b)"
proof (cases b)
  case (Pair best b')
  show ?thesis
  proof (cases "map_of adj (fst k)")
    case None
    then show ?thesis using inv unfolding Pair best_inv_def tried_def by (auto split: option.splits)
  next
    case (Some a)
    show ?thesis
    proof (cases "Cost c + a < best")
      case True
      then have "Cost c + a \<le> label_of s j + x" if "j \<in> E" "map_of adj (fst j) = Some x" for j x
        using inv that unfolding Pair best_inv_def by (fastforce dest: less_imp_le intro: order_trans)
      moreover have "Cost c + a \<le> initial" using inv True unfolding Pair best_inv_def by auto
      ultimately show ?thesis using True Some c unfolding Pair best_inv_def tried_def by auto
    next
      case False
      then show ?thesis using inv Some c unfolding Pair best_inv_def tried_def by (auto split: option.splits)
    qed
  qed
qed

section \<open>Answers\<close>

definition all_keys :: "routing_graph \<Rightarrow> search_key set" where
  "all_keys g = {..<length (edge_costs g)} \<times> {..<length (states (automaton g))}"

lemma settled_keys:
  assumes "searchable g" "search_inv m g fb pot origin E R s"
  shows "E \<subseteq> all_keys g"
proof
  fix k assume "k \<in> E"
  moreover have "E \<subseteq> dom (tentative s)" "labels_inv m g fb pot origin E R s"
    using assms(2) by (simp_all add: search_inv_def queue_inv_def)
  ultimately obtain d where "reached m g fb pot origin E s k d"
    unfolding labels_inv_def by blast
  then obtain es where k: "fst k < length (edge_costs g)" "k = key_of g es" by (auto simp: reached_def)
  obtain sqs where "automaton g = build sqs" using assms(1) by (auto simp: searchable_def)
  then have "run (automaton g) es < length (states (automaton g))" using run_state[of sqs es] by metis
  then show "k \<in> all_keys g" using k by (auto simp: all_keys_def)
qed

lemma settling_shrinks:
  assumes "k \<notin> E" "insert k E \<subseteq> all_keys g"
  shows "card (all_keys g - insert k E) < card (all_keys g - E)"
  by (rule psubset_card_mono) (use assms in \<open>auto simp: all_keys_def\<close>)

text \<open>Every walk whose end can reach a destination is settled at its end or crosses the queue.\<close>

lemma walk_covered:
  assumes ok: "guide m g fb pot" and seeds: "seeds_within g origin"
    and inv: "search_inv m g fb pot origin E E s" and w: "priced_walk m g fb (set origin) es c"
  shows "last es < length (edge_costs g) \<and> (pot (last es) \<noteq> Infinite \<longrightarrow>
     (key_of g es \<in> E \<and> label_of s (key_of g es) \<le> Cost (c + of_nat (length es - 1) * EPSILON)
      \<or> (\<exists>x y d. (x, y, d) \<in> set (search_heap s) \<and> Cost d + pot x \<le> Cost (c + of_nat (length es - 1) * EPSILON) + pot (last es))))"
  using w
proof (induction rule: priced_walk.induct)
  case (seed e c)
  let ?k = "(e, transition (automaton g) 0 e)" and ?c = "c + snd (edge_failure_mode_penalty m g fb e)"
  have "?k \<in> E \<and> label_of s ?k \<le> Cost ?c \<or> (\<exists>x y d. (x, y, d) \<in> set (search_heap s) \<and> Cost d + pot x \<le> Cost ?c + pot e)"
    if "pot e \<noteq> Infinite"
  proof -
    have l: "label_of s ?k \<le> Cost ?c"
      using inv seed that unfolding search_inv_def labels_inv_def by fastforce
    then obtain d where d: "tentative s ?k = Some d" "d \<le> ?c"
      by (auto simp: label_of_def split: option.splits)
    then have "?k \<in> E \<or> (fst ?k, snd ?k, d) \<in> set (search_heap s)"
      using inv unfolding search_inv_def queue_inv_def by blast
    moreover have "Cost d + pot e \<le> Cost ?c + pot e" using d(2) by (intro add_right_mono) simp
    ultimately show ?thesis using l by auto
  qed
  then show ?case using seeds seed by (auto simp: run_def seeds_within_def)
next
  case (move es x c i y w t p)
  let ?k = "key_of g (es @ [x])" and ?j = "key_of g (es @ [x, y])"
  let ?b = "c + of_nat (length (es @ [x]) - 1) * EPSILON" and ?b' = "c + w + p + of_nat (length (es @ [x, y]) - 1) * EPSILON"
  have arc: "key_arc m g fb ?k i = Some (?j, w + p)"
    using move.hyps run_snoc[of "automaton g" "es @ [x]" y] by (simp add: key_arc_def)
  have i: "i \<in> set (transition_range g (fst ?k))" using move.hyps by simp
  have x: "fst ?k < length (edge_costs g)" using move.IH by simp
  note b = guideD[OF ok x i arc]
  have c': "?b + (w + p) + EPSILON = ?b'" by (simp add: algebra_simps)
  have "?j \<in> E \<and> label_of s ?j \<le> Cost ?b' \<or> (\<exists>x' y' d. (x', y', d) \<in> set (search_heap s) \<and> Cost d + pot x' \<le> Cost ?b' + pot y)"
    if fin: "pot y \<noteq> Infinite"
  proof -
    have finx: "pot x \<noteq> Infinite" using b(3) fin by (cases "pot y") (auto simp: cost_le_Cost)
    have up: "Cost ?b + pot x \<le> Cost ?b' + pot y"
    proof -
      have "Cost ?b + pot x \<le> Cost ?b + (Cost (w + p) + pot y)" using b(3) by (intro add_left_mono) simp
      also have "\<dots> = Cost (?b + (w + p)) + pot y" by (simp add: add.assoc[symmetric])
      also have "\<dots> \<le> Cost ?b' + pot y" using c' EPSILON_pos by (intro add_right_mono) (simp only: cost_order_simps)
      finally show ?thesis .
    qed
    show ?thesis
    proof (cases "?k \<in> E \<and> label_of s ?k \<le> Cost ?b")
      case True
      have "label_of s ?j \<le> label_of s ?k + Cost (w + p + EPSILON)"
        using inv True i arc fin unfolding search_inv_def labels_inv_def by fastforce
      also have "\<dots> \<le> Cost ?b + Cost (w + p + EPSILON)" using True by (intro add_right_mono) blast
      finally have l: "label_of s ?j \<le> Cost ?b'" using c' by (simp add: algebra_simps)
      then obtain d where d: "tentative s ?j = Some d" "d \<le> ?b'"
        by (auto simp: label_of_def split: option.splits)
      then have "?j \<in> E \<or> (fst ?j, snd ?j, d) \<in> set (search_heap s)"
        using inv unfolding search_inv_def queue_inv_def by blast
      moreover have "Cost d + pot y \<le> Cost ?b' + pot y" using d(2) by (intro add_right_mono) simp
      ultimately show ?thesis using l by auto
    next
      case False
      then obtain x' y' d where e: "(x', y', d) \<in> set (search_heap s)" "Cost d + pot x' \<le> Cost ?b + pot x"
        using move.IH finx by auto
      then show ?thesis using order_trans[OF e(2) up] by blast
    qed
  qed
  then show ?case using b(2) by simp
qed

text \<open>What a request is answered with: the given path or a walk it may take, at its cost, and no
  such walk is cheaper, up to \<open>EPSILON\<close> for each of its transitions.\<close>

definition answers :: "movement_metrics \<Rightarrow> routing_graph \<Rightarrow> fallback_policy \<Rightarrow> (nat \<times> cost) list \<Rightarrow> (nat \<times> cost) list \<Rightarrow>
    route_path option \<Rightarrow> route_path option \<Rightarrow> bool" where
  "answers m g fb origin destination initial r \<longleftrightarrow>
     (r = initial \<or> (\<exists>p c a. r = Some p \<and> priced_walk m g fb (set origin) (edge_indexes p) c
        \<and> (last (edge_indexes p), Cost a) \<in> set destination \<and> total_generalized_cost p = Cost (c + a)))
     \<and> answer_cost r \<le> answer_cost initial
     \<and> (\<forall>es c a. priced_walk m g fb (set origin) es c \<longrightarrow> (last es, a) \<in> set destination \<longrightarrow>
          answer_cost r \<le> Cost (c + of_nat (length es - 1) * EPSILON) + a)"

text \<open>The search may stop when no queue entry can beat the best meeting; \<open>gap\<close> is what the potential
  leaves out of the destination adjustments.\<close>

lemma stopped_answers:
  assumes ok: "guide m g fb pot" and seeds: "seeds_within g origin"
    and inv: "search_inv m g fb pot origin E E s" "best_inv adj (answer_cost initial) E s (best, b)"
    and stop: "\<forall>(x, y, d)\<in>set (search_heap s). best \<le> Cost d + pot x + gap"
    and gap: "\<forall>e a. map_of adj e = Some a \<longrightarrow> pot e + gap \<le> a \<and> (a \<noteq> Infinite \<longrightarrow> pot e \<noteq> Infinite)"
    and adj: "\<forall>e a. map_of adj e = Some a \<longrightarrow> (e, a) \<in> set destination" "\<forall>(e, a)\<in>set destination. \<exists>b\<le>a. map_of adj e = Some b"
  shows "b = None \<Longrightarrow> answers m g fb origin destination initial initial"
    "b = Some k \<Longrightarrow> \<exists>es. reconstruct (previous_key s) k [] = Some (Inr es)
       \<and> answers m g fb origin destination initial (Some \<lparr>edge_indexes = es, total_generalized_cost = best\<rparr>)"
proof -
  have low: "best \<le> Cost (c + of_nat (length es - 1) * EPSILON) + a"
    if w: "priced_walk m g fb (set origin) es c" and a: "(last es, a) \<in> set destination" for es c a
  proof -
    let ?c = "c + of_nat (length es - 1) * EPSILON"
    obtain x where x: "x \<le> a" "map_of adj (last es) = Some x" using adj(2) a by fast
    have "best \<le> Cost ?c + x"
    proof (cases "x = Infinite")
      case False
      then have p: "pot (last es) \<noteq> Infinite" "pot (last es) + gap \<le> x" using gap x(2) by auto
      from walk_covered[OF ok seeds inv(1) w] p(1)
      consider "key_of g es \<in> E" "label_of s (key_of g es) \<le> Cost ?c"
        | x' y d where "(x', y, d) \<in> set (search_heap s)" "Cost d + pot x' \<le> Cost ?c + pot (last es)" by blast
      then show ?thesis
      proof cases
        case 1
        have "best \<le> label_of s (key_of g es) + x" using inv(2) 1(1) x(2) by (simp add: best_inv_def)
        then show ?thesis using add_right_mono[OF 1(2), of x] by (rule order_trans)
      next
        case 2
        have "best \<le> Cost d + pot x' + gap" using stop 2(1) by auto
        also have "\<dots> \<le> Cost ?c + pot (last es) + gap" using 2(2) by (rule add_right_mono)
        also have "\<dots> \<le> Cost ?c + x" using add_left_mono[OF p(2), of "Cost ?c"] by (simp only: add.assoc)
        finally show ?thesis .
      qed
    qed simp
    also have "\<dots> \<le> Cost ?c + a" using x(1) by (rule add_left_mono)
    finally show ?thesis .
  qed
  have up: "best \<le> answer_cost initial" using inv(2) by (simp add: best_inv_def)
  show "answers m g fb origin destination initial initial" if "b = None"
  proof -
    have "answer_cost initial = best" using inv(2) \<open>b = None\<close> by (simp add: best_inv_def)
    then show ?thesis using low by (simp add: answers_def)
  qed
  show "\<exists>es. reconstruct (previous_key s) k [] = Some (Inr es)
       \<and> answers m g fb origin destination initial (Some \<lparr>edge_indexes = es, total_generalized_cost = best\<rparr>)" if "b = Some k"
  proof -
    obtain x where x: "k \<in> E" "map_of adj (fst k) = Some x" "best = label_of s k + x" "best \<noteq> Infinite"
      using inv(2) \<open>b = Some k\<close> by (auto simp: best_inv_def)
    then obtain d where d: "tentative s k = Some d" using inv(1) by (auto simp: search_inv_def queue_inv_def)
    obtain a where a: "map_of adj (fst k) = Some (Cost a)" "best = Cost (d + a)"
      using x d by (cases x) (auto simp: label_of_def)
    have "reached m g fb pot origin E s k d" using inv(1) d by (simp add: search_inv_def labels_inv_def)
    then obtain es where es: "traced (previous_key s) E k es" "priced_walk m g fb (set origin) es d" "k = key_of g es"
      by (auto simp: reached_def)
    have "answers m g fb origin destination initial (Some \<lparr>edge_indexes = es, total_generalized_cost = best\<rparr>)"
      unfolding answers_def
    proof (intro conjI disjI2 allI impI)
      have "(last es, Cost a) \<in> set destination" using adj(1) a(1) es(3) by simp
      then show "\<exists>p c a. Some \<lparr>edge_indexes = es, total_generalized_cost = best\<rparr> = Some p
          \<and> priced_walk m g fb (set origin) (edge_indexes p) c \<and> (last (edge_indexes p), Cost a) \<in> set destination \<and> total_generalized_cost p = Cost (c + a)"
        using es(2) a(2) by auto
    qed (use up low in \<open>simp_all add: answer_cost_def\<close>)
    moreover have "reconstruct (previous_key s) k [] = Some (Inr es)" using traced_reconstruct[OF es(1), of "[]"] by simp
    ultimately show ?thesis by blast
  qed
qed

end
