(* ===== verification/Restricted_Exact.thy ===== *)
theory Restricted_Exact
  imports Guided_Search
begin

text \<open>
  Correctness of the restriction-aware Dijkstra search: the guided search under the potential zero,
  with the record of the first settled key of every edge that later destinations are answered from.
\<close>

section \<open>Settled edges\<close>

definition edges_inv :: "search_key set \<Rightarrow> restricted_search \<Rightarrow> bool" where
  "edges_inv E s \<longleftrightarrow> (\<forall>e. settled_edges s e = None \<longleftrightarrow> e \<notin> fst ` E)
     \<and> (\<forall>e k. settled_edges s e = Some k \<longrightarrow> k \<in> E \<and> fst k = e \<and> (\<forall>j\<in>E. fst j = e \<longrightarrow> label_of s k \<le> label_of s j))"

lemma relax_transition_offer: "relax_transition m g fb k c s i = offer_arc m g fb (\<lambda>_. Cost 0) k c s i"
  by (auto simp: relax_transition_def offer_arc_def key_arc_def offer_key_def Let_def add.assoc split: option.splits cost.splits)

lemma settle_edge_fields [simp]:
  "tentative (settle_edge k s) = tentative s" "previous_key (settle_edge k s) = previous_key s"
  "search_heap (settle_edge k s) = search_heap s" "label_of (settle_edge k s) = label_of s"
  by (simp_all add: settle_edge_def label_of_def fun_eq_iff split: option.splits)

lemma settle_edge_inv:
  assumes "edges_inv E s" "\<forall>j\<in>E. label_of s j \<le> label_of s k"
  shows "edges_inv (insert k E) (settle_edge k s)"
proof (cases "settled_edges s (fst k)")
  case None
  then have "\<forall>j\<in>E. fst j \<noteq> fst k" using assms(1) unfolding edges_inv_def by (metis imageI)
  moreover have "settled_edges (settle_edge k s) = (settled_edges s)(fst k \<mapsto> k)" using None by (simp add: settle_edge_def)
  ultimately show ?thesis using assms(1) unfolding edges_inv_def settle_edge_fields by auto
next
  case (Some j)
  then have "fst k \<in> fst ` E" using assms(1) unfolding edges_inv_def by (metis option.distinct(1))
  moreover have "label_of s i \<le> label_of s k" if "settled_edges s e = Some i" for i e
    using assms that by (auto simp: edges_inv_def)
  moreover have "settled_edges (settle_edge k s) = settled_edges s" using Some by (simp add: settle_edge_def)
  ultimately show ?thesis using assms(1) unfolding edges_inv_def settle_edge_fields by auto
qed

definition settled_inv :: "movement_metrics \<Rightarrow> routing_graph \<Rightarrow> fallback_policy \<Rightarrow> (nat \<times> cost) list \<Rightarrow> search_key set \<Rightarrow>
    restricted_search \<Rightarrow> bool" where
  "settled_inv m g fb origin E s \<longleftrightarrow> search_inv m g fb (\<lambda>_. Cost 0) origin E E s \<and> edges_inv E s"

lemma Cost_zero_add [simp]: "Cost 0 + c = c" "c + Cost 0 = c"
  by (cases c; simp)+

lemma queue_pop_pops:
  assumes "queue_pop q = Some ((x, y, c), rest)"
  shows "pops (\<lambda>_. Cost 0) q (x, y, c) rest"
proof -
  have "c \<le> c'" if "(x', y', c') \<in> set q" for x' y' c'
    using queue_peek_le[OF that] assms by (simp add: queue_peek_def)
  then show ?thesis using queue_pop_Some[OF assms] by (auto simp: pops_def)
qed

lemma settle_inv_step:
  assumes ok: "searchable g" "fair_penalties m fb" and inv: "settled_inv m g fb origin E s"
    and pop: "queue_pop (search_heap s) = Some ((x, y, c), rest)"
    and fresh: "tentative s (x, y) = Some d" "\<not> d < c"
  defines "E' \<equiv> insert (x, y) E"
  defines "s' \<equiv> foldl (relax_transition m g fb (x, y) c) (settle_edge (x, y) (s\<lparr>search_heap := rest\<rparr>)) (transition_range g x)"
  shows "settled_inv m g fb origin E' s' \<and> lowered E' (settle_edge (x, y) s) s'"
proof -
  let ?s = "settle_edge (x, y) s"
  have si: "search_inv m g fb (\<lambda>_. Cost 0) origin E E ?s"
    using inv by (simp add: settled_inv_def search_inv_def queue_inv_def labels_inv_def reached_def)
  have heap: "settle_edge (x, y) (s\<lparr>search_heap := rest\<rparr>) = ?s\<lparr>search_heap := rest\<rparr>"
    by (simp add: settle_edge_def split: option.splits)
  have "pops (\<lambda>_. Cost 0) (search_heap ?s) (x, y, c) rest" using queue_pop_pops[OF pop] by simp
  from settle_key[OF zero_guide[OF ok] si this] fresh
  have r: "search_inv m g fb (\<lambda>_. Cost 0) origin E' E' s'" "lowered E' ?s s'"
    unfolding s'_def heap E'_def by (simp_all add: relax_transition_offer[abs_def])
  have low: "\<forall>j\<in>E. label_of s j \<le> label_of s (x, y)"
    using inv queue_pop_Some(1)[OF pop] fresh by (fastforce simp: settled_inv_def search_inv_def queue_inv_def label_of_def)
  have "edges_inv E' ?s" unfolding E'_def using inv low by (intro settle_edge_inv) (auto simp: settled_inv_def)
  moreover have "label_of s' j = label_of ?s j" if "j \<in> E'" for j using r(2) that by (simp add: lowered_def label_of_def)
  ultimately have "edges_inv E' s'" using r(2) unfolding edges_inv_def lowered_def by simp
  then show ?thesis using r by (simp add: settled_inv_def)
qed

section \<open>The loop\<close>

definition progress_inv :: "movement_metrics \<Rightarrow> routing_graph \<Rightarrow> fallback_policy \<Rightarrow> (nat \<times> cost) list \<Rightarrow> (nat \<times> cost) list \<Rightarrow>
    cost \<Rightarrow> search_key set \<Rightarrow> route_progress \<Rightarrow> bool" where
  "progress_inv m g fb origin adj initial E q \<longleftrightarrow> settled_inv m g fb origin E (progress_search q)
     \<and> best_inv adj initial E (progress_search q) (progress_cost q, progress_key q)"

lemma try_destination_tried:
  "(progress_cost (try_destination adj k c q), progress_key (try_destination adj k c q)) = tried adj k c (progress_cost q, progress_key q)"
  by (simp add: try_destination_def tried_def split: option.splits)

text \<open>Every round settles a key or drops a queue entry.\<close>

lemma route_step_inv:
  assumes ok: "searchable g" "fair_penalties m fb" and inv: "progress_inv m g fb origin adj initial E q"
    and step: "route_step m g fb adj q = Some r"
  obtains q' E' where "r = Inr q'" "progress_inv m g fb origin adj initial E' q'"
    "E' = E \<and> length (search_heap (progress_search q')) < length (search_heap (progress_search q)) \<or> (\<exists>k. k \<notin> E \<and> E' = insert k E)"
proof -
  let ?s = "progress_search q"
  have si: "settled_inv m g fb origin E ?s" and bi: "best_inv adj initial E ?s (progress_cost q, progress_key q)"
    using inv by (simp_all add: progress_inv_def)
  have qi: "queue_inv (\<lambda>_. Cost 0) E ?s" using si by (simp add: settled_inv_def search_inv_def)
  have act: "queue_peek (search_heap ?s) + minimum_adjustment adj < progress_cost q"
    using step by (auto simp: route_step_def Let_def split: if_splits)
  then obtain x y c rest where pop: "queue_pop (search_heap ?s) = Some ((x, y, c), rest)"
    using queue_peek_active[OF act] by (metis not_None_eq prod_cases3 surj_pair)
  obtain d where d: "tentative ?s (x, y) = Some d"
    using qi queue_pop_Some(1)[OF pop] unfolding queue_inv_def by blast
  show thesis
  proof (cases "d < c")
    case True
    let ?q = "q\<lparr>progress_search := ?s\<lparr>search_heap := rest\<rparr>\<rparr>"
    have "r = Inr ?q" using step act pop d True by (simp add: route_step_def Let_def)
    moreover have "progress_inv m g fb origin adj initial E ?q"
      using si bi pop_stale[OF qi queue_pop_pops[OF pop] d True] best_inv_cong[of E "?s\<lparr>search_heap := rest\<rparr>" ?s]
      by (simp add: progress_inv_def settled_inv_def search_inv_def edges_inv_def)
    ultimately show thesis using queue_pop_Some(4)[OF pop] that by simp
  next
    case False
    let ?s' = "foldl (relax_transition m g fb (x, y) c) (settle_edge (x, y) (?s\<lparr>search_heap := rest\<rparr>)) (transition_range g x)"
    let ?q = "(try_destination adj (x, y) c q)\<lparr>progress_search := ?s'\<rparr>"
    note p = pop_settles[OF qi queue_pop_pops[OF pop] d False]
    note n = settle_inv_step[OF ok si pop d False]
    have "r = Inr ?q" using step act pop d False by (simp add: route_step_def Let_def)
    moreover have "best_inv adj initial (insert (x, y) E) ?s' (tried adj (x, y) c (progress_cost q, progress_key q))"
    proof -
      have "best_inv adj initial (insert (x, y) E) ?s (tried adj (x, y) c (progress_cost q, progress_key q))"
        by (rule tried_inv[OF bi]) (use d p(1) in \<open>simp add: label_of_def\<close>)
      moreover have "\<forall>j\<in>insert (x, y) E. label_of ?s' j = label_of ?s j" using n by (simp add: lowered_def label_of_def)
      ultimately show ?thesis using best_inv_cong by blast
    qed
    then have "progress_inv m g fb origin adj initial (insert (x, y) E) ?q"
      using n try_destination_tried[of adj "(x, y)" c q] by (simp add: progress_inv_def)
    ultimately show thesis using p(2) that by blast
  qed
qed

lemma route_loop_returns:
  assumes ok: "searchable g" "fair_penalties m fb" and inv: "progress_inv m g fb origin adj initial E q"
  obtains q' E' where "route_loop m g fb adj q = Some (Inr q')" "progress_inv m g fb origin adj initial E' q'"
    "route_step m g fb adj q' = None"
proof -
  have "\<exists>q' E'. route_loop m g fb adj q = Some (Inr q') \<and> progress_inv m g fb origin adj initial E' q' \<and> route_step m g fb adj q' = None"
    using inv
  proof (induction "(card (all_keys g - E), length (search_heap (progress_search q)))" arbitrary: E q
      rule: wf_induct_rule[OF wf_lex_prod[OF wf_less_than wf_less_than]])
    case 1
    show ?case
    proof (cases "route_step m g fb adj q")
      case None
      then show ?thesis using "1.prems" by (subst route_loop.simps) auto
    next
      case (Some r)
      obtain q' E' where r: "r = Inr q'" "progress_inv m g fb origin adj initial E' q'"
        "E' = E \<and> length (search_heap (progress_search q')) < length (search_heap (progress_search q)) \<or> (\<exists>k. k \<notin> E \<and> E' = insert k E)"
        using route_step_inv[OF ok "1.prems" Some] .
      have "E' \<subseteq> all_keys g" using settled_keys[OF ok(1)] r(2) unfolding progress_inv_def settled_inv_def by blast
      then have "((card (all_keys g - E'), length (search_heap (progress_search q'))),
          (card (all_keys g - E), length (search_heap (progress_search q)))) \<in> less_than <*lex*> less_than"
        using r(3) settling_shrinks by auto
      from "1.hyps"[OF this r(2)] show ?thesis using Some r(1) by (simp add: route_loop.simps[of m g fb adj q])
    qed
  qed
  then show thesis using that by blast
qed

section \<open>Seeds and destinations\<close>

lemma seed_search_key: "seed_search m g fb = seed_key (\<lambda>_. Cost 0) m g fb"
  by (intro ext) (auto simp: seed_search_def seed_key_def Let_def split: cost.splits prod.splits)

lemma prepare_inv:
  assumes "seeds_within g origin"
  shows "settled_inv m g fb origin {} (prepare_search m g fb origin s0)"
  using seeded_search[OF assms, where ?s0.0 = "s0\<lparr>tentative := (\<lambda>_. None), previous_key := (\<lambda>_. None),
      settled_edges := (\<lambda>_. None), search_heap := []\<rparr>" and pot = "\<lambda>_. Cost 0"]
  by (simp add: settled_inv_def edges_inv_def prepare_search_def seed_search_key)

lemma add_adjustment_lookup:
  "map_of (add_adjustment adj (e, a)) x = (if x = e then Some (case map_of adj e of None \<Rightarrow> a | Some b \<Rightarrow> min b a) else map_of adj x)"
  by (auto simp: add_adjustment_def map_add_def update_conv' split: option.splits)

lemma destination_lookup:
  "(\<forall>e a. map_of (destination_adjustments seeds) e = Some a \<longrightarrow> (e, a) \<in> set seeds)
    \<and> (\<forall>(e, a)\<in>set seeds. \<exists>b\<le>a. map_of (destination_adjustments seeds) e = Some b)"
proof (induction seeds rule: rev_induct)
  case (snoc x seeds)
  obtain e a where x: "x = (e, a)" by (cases x)
  have d: "destination_adjustments (seeds @ [x]) = add_adjustment (destination_adjustments seeds) (e, a)"
    by (simp add: destination_adjustments_def x)
  show ?case
    unfolding d add_adjustment_lookup
    using snoc x by (force split: option.splits simp: min_def)
qed (simp add: destination_adjustments_def)

lemma minimum_adjustment_le:
  assumes "map_of adj e = Some a"
  shows "minimum_adjustment adj \<le> a"
proof -
  have "foldl min x ys \<le> x \<and> (\<forall>y\<in>set ys. foldl min x ys \<le> y)" for x :: cost and ys
  proof (induction ys arbitrary: x)
    case (Cons y ys)
    have "foldl min (min x y) ys \<le> min x y" using Cons.IH[of "min x y"] by blast
    then show ?case using Cons.IH[of "min x y"] by simp
  qed simp
  moreover have "a \<in> set (map snd adj)" using map_of_SomeD[OF assms] by force
  ultimately show ?thesis unfolding minimum_adjustment_def by blast
qed

lemma settled_candidates_spec:
  assumes inv: "settled_inv m g fb origin E s" and dis: "distinct (map fst adj)"
    and sub: "set ts \<subseteq> set adj" "b \<le> initial"
    and start: "case k of None \<Rightarrow> b = initial | Some j \<Rightarrow> j \<in> E \<and> b \<noteq> Infinite \<and> (\<exists>a. map_of adj (fst j) = Some a \<and> b = label_of s j + a)"
  obtains b' k' where "settled_candidates s (b, k) ts = Inr (b', k')" "b' \<le> b"
    "\<forall>(e, a)\<in>set ts. \<forall>j\<in>E. fst j = e \<longrightarrow> b' \<le> label_of s j + a"
    "case k' of None \<Rightarrow> b' = initial | Some j \<Rightarrow> j \<in> E \<and> b' \<noteq> Infinite \<and> (\<exists>a. map_of adj (fst j) = Some a \<and> b' = label_of s j + a)"
  using sub start
proof (induction ts arbitrary: b k thesis)
  case Nil
  then show ?case by simp
next
  case (Cons t ts)
  obtain e a where t: "t = (e, a)" by (cases t)
  have ei: "edges_inv E s" and dom: "E \<subseteq> dom (tentative s)" using inv by (auto simp: settled_inv_def search_inv_def queue_inv_def)
  have m: "map_of adj e = Some a" using Cons.prems(2) t dis by simp
  show ?case
  proof (cases "settled_edges s e")
    case None
    then have no: "e \<notin> fst ` E" using ei unfolding edges_inv_def by blast
    obtain b' k' where r: "settled_candidates s (b, k) ts = Inr (b', k')" "b' \<le> b"
      "\<forall>(e, a)\<in>set ts. \<forall>j\<in>E. fst j = e \<longrightarrow> b' \<le> label_of s j + a"
      "case k' of None \<Rightarrow> b' = initial | Some j \<Rightarrow> j \<in> E \<and> b' \<noteq> Infinite \<and> (\<exists>a. map_of adj (fst j) = Some a \<and> b' = label_of s j + a)"
      using Cons.IH[of b k] Cons.prems by auto
    show ?thesis by (rule Cons.prems(1)[of b' k']) (use r None no t in auto)
  next
    case (Some j)
    then have j: "j \<in> E" "fst j = e" "\<forall>i\<in>E. fst i = e \<longrightarrow> label_of s j \<le> label_of s i"
      using ei unfolding edges_inv_def by blast+
    then obtain d where d: "tentative s j = Some d" using dom by auto
    then have l: "label_of s j = Cost d" by (simp add: label_of_def)
    let ?b = "if Cost d + a < b then Cost d + a else b" and ?k = "if Cost d + a < b then Some j else k"
    have "?b \<le> initial" "case ?k of None \<Rightarrow> ?b = initial | Some j \<Rightarrow> j \<in> E \<and> ?b \<noteq> Infinite \<and> (\<exists>a. map_of adj (fst j) = Some a \<and> ?b = label_of s j + a)"
      using Cons.prems(3,4) j l m by (auto split: option.splits)
    then obtain b' k' where r: "settled_candidates s (?b, ?k) ts = Inr (b', k')" "b' \<le> ?b"
      "\<forall>(e, a)\<in>set ts. \<forall>j\<in>E. fst j = e \<longrightarrow> b' \<le> label_of s j + a"
      "case k' of None \<Rightarrow> b' = initial | Some j \<Rightarrow> j \<in> E \<and> b' \<noteq> Infinite \<and> (\<exists>a. map_of adj (fst j) = Some a \<and> b' = label_of s j + a)"
      using Cons.IH[of ?b ?k] Cons.prems(2) by auto
    have lb: "b' \<le> b" "b' \<le> Cost d + a" using r(2) by (auto split: if_splits intro: order_trans)
    have "b' \<le> label_of s i + a" if "i \<in> E" "fst i = e" for i
      using lb(2) add_right_mono[of "Cost d" "label_of s i" a] j(3) that l by (auto intro: order_trans)
    moreover have "settled_candidates s (b, k) (t # ts) = Inr (b', k')" using r(1) Some d t by (simp split: if_splits)
    ultimately show ?thesis by (intro Cons.prems(1)[of b' k']) (use r lb t in auto)
  qed
qed

lemma distinct_adjustments: "distinct (map fst (destination_adjustments seeds))"
proof (induction seeds rule: rev_induct)
  case (snoc x seeds)
  have "distinct (map fst (add_adjustment adj (e, a)))" if "distinct (map fst adj)" for adj e a
    using that by (auto simp: add_adjustment_def distinct_update map_of_eq_None_iff split: option.splits)
  then show ?case using snoc by (cases x) (simp add: destination_adjustments_def)
qed (simp add: destination_adjustments_def)

section \<open>One destination\<close>

lemma route_to_answers:
  assumes ok: "searchable g" "fair_penalties m fb" and seeds: "seeds_within g origin"
    and inv: "settled_inv m g fb origin E s"
  obtains s' r E' where "route_to m g fb destination initial s = Some (Inr (s', r))"
    "answers m g fb origin destination initial r" "settled_inv m g fb origin E' s'"
proof -
  let ?adj = "destination_adjustments destination"
  note lookup = destination_lookup[of destination]
  obtain b k where cand: "settled_candidates s (answer_cost initial, None) ?adj = Inr (b, k)" "b \<le> answer_cost initial"
    "\<forall>(e, a)\<in>set ?adj. \<forall>j\<in>E. fst j = e \<longrightarrow> b \<le> label_of s j + a"
    "case k of None \<Rightarrow> b = answer_cost initial | Some j \<Rightarrow> j \<in> E \<and> b \<noteq> Infinite \<and> (\<exists>a. map_of ?adj (fst j) = Some a \<and> b = label_of s j + a)"
    by (rule settled_candidates_spec[OF inv distinct_adjustments order_refl order_refl, where k = None]) simp_all
  let ?q = "\<lparr>progress_search = s, progress_cost = b, progress_key = k\<rparr>"
  have "\<forall>j\<in>E. \<forall>a. map_of ?adj (fst j) = Some a \<longrightarrow> b \<le> label_of s j + a" using cand(3) by (blast dest: map_of_SomeD)
  then have "progress_inv m g fb origin ?adj (answer_cost initial) E ?q"
    using inv cand(2,4) by (simp add: progress_inv_def best_inv_def)
  then obtain q E' where q: "route_loop m g fb ?adj ?q = Some (Inr q)" "progress_inv m g fb origin ?adj (answer_cost initial) E' q"
    "route_step m g fb ?adj q = None"
    using route_loop_returns[OF ok] by metis
  let ?s = "progress_search q"
  have si: "settled_inv m g fb origin E' ?s" "search_inv m g fb (\<lambda>_. Cost 0) origin E' E' ?s"
    and bi: "best_inv ?adj (answer_cost initial) E' ?s (progress_cost q, progress_key q)"
    using q(2) by (simp_all add: progress_inv_def settled_inv_def)
  have "\<not> queue_peek (search_heap ?s) + minimum_adjustment ?adj < progress_cost q"
    using q(3) by (auto simp: route_step_def Let_def split: if_splits option.splits prod.splits)
  then have peek: "progress_cost q \<le> queue_peek (search_heap ?s) + minimum_adjustment ?adj" by (simp add: not_less)
  have "progress_cost q \<le> Cost d + minimum_adjustment ?adj" if "(x, y, d) \<in> set (search_heap ?s)" for x y d
    using order_trans[OF peek add_right_mono[OF queue_peek_le[OF that]]] .
  then have stop: "\<forall>(x, y, d)\<in>set (search_heap ?s). progress_cost q \<le> Cost d + Cost 0 + minimum_adjustment ?adj" by auto
  have gap: "\<forall>e a. map_of ?adj e = Some a \<longrightarrow> Cost 0 + minimum_adjustment ?adj \<le> a \<and> (a \<noteq> Infinite \<longrightarrow> Cost 0 \<noteq> Infinite)"
    using minimum_adjustment_le by simp
  note r = stopped_answers[OF zero_guide[OF ok] seeds si(2) bi stop gap conjunct1[OF lookup] conjunct2[OF lookup]]
  have to: "route_to m g fb destination initial s = finish_route initial q" by (simp add: route_to_def cand(1) q(1))
  show thesis
  proof (cases "progress_key q")
    case None
    then show thesis using that[OF _ r(1) si(1)] to by (simp add: finish_route_def)
  next
    case (Some k)
    then obtain es where "reconstruct (previous_key ?s) k [] = Some (Inr es)"
      "answers m g fb origin destination initial (Some \<lparr>edge_indexes = es, total_generalized_cost = progress_cost q\<rparr>)"
      using r(2) by blast
    then show thesis using that[OF _ _ si(1)] to Some by (simp add: finish_route_def)
  qed
qed

end
