(* ===== verification/Restricted_Route.thy ===== *)
theory Restricted_Route
  imports Restricted_Exact
begin

text \<open>
  What the restriction-aware search promises its callers: exact answers for any sequence of
  destinations of one origin, the price of the forbidden movements in its costs, and on the graph
  built from a street network a route whenever a legal one exists.
\<close>

text \<open>The frontiers a caller can hold: a prepared one, and any that a further destination leaves.\<close>

inductive frontier :: "movement_metrics \<Rightarrow> routing_graph \<Rightarrow> fallback_policy \<Rightarrow> (nat \<times> cost) list \<Rightarrow> restricted_search \<Rightarrow> bool"
  for m g fb origin where
  prepared: "frontier m g fb origin (prepare_search m g fb origin s)"
| routed: "frontier m g fb origin s \<Longrightarrow> route_to m g fb destination initial s = Some (Inr (s', r)) \<Longrightarrow> frontier m g fb origin s'"

lemma frontier_inv:
  assumes "searchable g" "fair_penalties m fb" "seeds_within g origin" "frontier m g fb origin s"
  shows "\<exists>E. settled_inv m g fb origin E s"
  using assms(4)
proof (induction rule: frontier.induct)
  case (prepared s)
  then show ?case using prepare_inv[OF assms(3)] by blast
next
  case (routed s destination initial s' r)
  then obtain E where "settled_inv m g fb origin E s" by blast
  then show ?case using route_to_answers[OF assms(1-3)] routed.hyps(2) by (metis Pair_inject option.inject sum.inject(2))
qed

text \<open>C11: one restriction-aware search answers every destination exactly. Whatever destinations it
  has been asked for before, the search returns, reports no error and panics nowhere; its answer is
  the given path or a walk from an origin seed to a destination seed past the automaton, at the
  cost of its seeds, transitions and penalties, and no such walk costs less, up to one \<open>EPSILON\<close> for
  every transition of it.\<close>

theorem restricted_search_exact:
  assumes "searchable g" "fair_penalties m fb" "seeds_within g origin" "frontier m g fb origin s"
  shows "\<exists>s' r. route_to m g fb destination initial s = Some (Inr (s', r))
    \<and> answers m g fb origin destination initial r \<and> frontier m g fb origin s'"
proof -
  obtain E where "settled_inv m g fb origin E s" using frontier_inv[OF assms] by blast
  then obtain s' r where "route_to m g fb destination initial s = Some (Inr (s', r))" "answers m g fb origin destination initial r"
    using route_to_answers[OF assms(1-3)] by metis
  then show ?thesis using frontier.routed[OF assms(4)] by blast
qed

section \<open>The price of a walk\<close>

lemma priced_walk_cost:
  assumes "priced_walk m g fb S es c"
  shows "\<exists>c0 js. (hd es, Cost c0) \<in> S \<and> length es = Suc (length js)
    \<and> (\<forall>n<length js. js ! n \<in> set (transition_range g (es ! n)) \<and> transition_edges g ! (js ! n) = es ! Suc n)
    \<and> Cost c = Cost c0 + sum_list (map ((!) (transition_costs g)) js) + path_failure_mode_penalty_cost m g fb es"
  using assms
proof (induction rule: priced_walk.induct)
  case (seed e c)
  then show ?case by (intro exI[of _ c] exI[of _ "[]"]) (simp add: path_failure_mode_penalty_cost_def zero_cost_def)
next
  case (move es x c i y w t p)
  then obtain c0 js where j: "(hd (es @ [x]), Cost c0) \<in> S" "length es = length js"
    "\<forall>n<length js. js ! n \<in> set (transition_range g ((es @ [x]) ! n)) \<and> transition_edges g ! (js ! n) = (es @ [x]) ! Suc n"
    "Cost c = Cost c0 + sum_list (map ((!) (transition_costs g)) js) + path_failure_mode_penalty_cost m g fb (es @ [x])"
    by auto
  have "\<forall>n<length (js @ [i]). (js @ [i]) ! n \<in> set (transition_range g ((es @ [x, y]) ! n))
      \<and> transition_edges g ! ((js @ [i]) ! n) = (es @ [x, y]) ! Suc n"
    using j(2,3) move.hyps(2,3) by (auto simp: nth_append less_Suc_eq)
  moreover have "(hd (es @ [x, y]), Cost c0) \<in> S" using j(1) by (cases es) auto
  moreover have "Cost (c + w + p) = Cost c0 + sum_list (map ((!) (transition_costs g)) (js @ [i]))
      + path_failure_mode_penalty_cost m g fb (es @ [x, y])"
  proof -
    have "Cost (c + w + p) = Cost c + Cost w + Cost p" by simp
    then show ?thesis unfolding path_penalty_snoc j(4) using move.hyps(4,5) by (simp add: ac_simps)
  qed
  ultimately show ?case using j(2) by (intro exI[of _ c0] exI[of _ "js @ [i]"]) simp
qed

section \<open>Strict policies on built graphs\<close>

lemma strict_root:
  assumes "automaton g = build sqs"
  shows "prohibited_sequence_len (automaton g) (run (automaton g) []) e = None"
  unfolding assms prohibited_len using suffix_length_le[of _ "[e]"] by (force simp: completes_def run_def)

lemma row_targets: "y \<in> fst ` set (graph_row g x) \<longleftrightarrow> (\<exists>i\<in>set (transition_range g x). transition_edges g ! i = y)"
  by (force simp: graph_row_def)

lemma graph_walk_snoc:
  "graph_walk g (es @ [x, y]) \<longleftrightarrow> graph_walk g (es @ [x]) \<and> y \<in> fst ` set (graph_row g x)
    \<and> prohibited_sequence_len (automaton g) (run (automaton g) (es @ [x])) y = None"
proof -
  let ?R = "\<lambda>x y. y \<in> fst ` set (graph_row g x)"
  have "successively ?R ((es @ [x]) @ [y]) \<longleftrightarrow> successively ?R (es @ [x]) \<and> ?R x y"
    unfolding successively_append_iff by auto
  moreover have "(\<forall>i<length ((es @ [x]) @ [y]). prohibited_sequence_len (automaton g) (run (automaton g) (take i ((es @ [x]) @ [y]))) (((es @ [x]) @ [y]) ! i) = None)
    \<longleftrightarrow> (\<forall>i<length (es @ [x]). prohibited_sequence_len (automaton g) (run (automaton g) (take i (es @ [x]))) ((es @ [x]) ! i) = None)
      \<and> prohibited_sequence_len (automaton g) (run (automaton g) (es @ [x])) y = None"
    by (auto simp: less_Suc_eq nth_append)
  ultimately show ?thesis unfolding graph_walk_def by (simp only: append_assoc append_Cons append_Nil) blast
qed

lemma strict_walks:
  assumes strict: "\<not> has_failure_modes fb" "virtual_reverse_of g = []" "automaton g = build sqs"
    and finite: "\<forall>x i. i \<in> set (transition_range g x) \<longrightarrow> x \<in> set es \<longrightarrow> transition_costs g ! i \<noteq> Infinite"
  shows "(\<exists>c. priced_walk m g fb S es c) \<longleftrightarrow> es \<noteq> [] \<and> (\<exists>x. (hd es, Cost x) \<in> S) \<and> graph_walk g es"
proof
  assume "\<exists>c. priced_walk m g fb S es c"
  then obtain c where "priced_walk m g fb S es c" by blast
  then show "es \<noteq> [] \<and> (\<exists>x. (hd es, Cost x) \<in> S) \<and> graph_walk g es"
  proof (induction rule: priced_walk.induct)
    case (seed e c)
    then show ?case using strict_root[OF strict(3), of e] by (auto simp: graph_walk_def)
  next
    case (move es x c i y w t p)
    have "hd (es @ [x, y]) = hd (es @ [x])" by (cases es) auto
    moreover have "prohibited_sequence_len (automaton g) (run (automaton g) (es @ [x])) y = None"
      using move.hyps(5) strict_penalty_value[OF strict(1,2)] by (auto split: if_splits)
    ultimately show ?case unfolding graph_walk_snoc row_targets using move by auto
  qed
next
  assume "es \<noteq> [] \<and> (\<exists>x. (hd es, Cost x) \<in> S) \<and> graph_walk g es"
  then show "\<exists>c. priced_walk m g fb S es c"
    using finite
  proof (induction es rule: rev_induct)
    case (snoc y es)
    show ?case
    proof (cases es rule: rev_cases)
      case Nil
      then show ?thesis using snoc.prems priced_walk.seed by fastforce
    next
      case (snoc es' x)
      then have w: "graph_walk g (es' @ [x])" "y \<in> fst ` set (graph_row g x)"
        "prohibited_sequence_len (automaton g) (run (automaton g) (es' @ [x])) y = None"
        using snoc.prems(1) graph_walk_snoc[of g es' x y] by auto
      obtain i where i: "i \<in> set (transition_range g x)" "transition_edges g ! i = y" using w(2) by (auto simp: row_targets)
      obtain c where "transition_costs g ! i = Cost c"
        using snoc.prems(2) i(1) snoc by (cases "transition_costs g ! i") auto
      moreover have "\<exists>c. priced_walk m g fb S (es' @ [x]) c"
        using snoc.IH snoc.prems snoc w(1) by (cases es') auto
      moreover have "transition_failure_mode_penalty m g fb (run (automaton g) (es' @ [x])) x y = Some (0, 0)"
        using strict_penalty_value[OF strict(1,2)] w(3) by simp
      ultimately obtain c' where "priced_walk m g fb S (es' @ [x, y]) c'" using priced_walk.move[OF _ i] by blast
      then show ?thesis using snoc by auto
    qed
  qed simp
qed

lemma built_graph:
  fixes em :: "edge_metric list" and mode_bit :: u16 and timed :: "nat \<Rightarrow> bool" and turn_cost :: "nat \<Rightarrow> nat \<Rightarrow> cost"
    and acceleration :: "acceleration_graph option" and opts :: graph_options
  assumes ok: "buildable nodes endpoints edges topo"
    and costs: "\<forall>e<edges. Cost 0 \<le> edge_cost topo em mode_bit timed opts e" "\<forall>x y. Cost 0 \<le> turn_cost x y"
  defines "g \<equiv> build_routing_graph_with_weights nodes endpoints (edge_based_build nodes edges endpoints) topo em mode_bit
        timed turn_cost acceleration opts"
  shows "searchable g" "length (edge_costs g) = edges" "virtual_reverse_of g = []" "\<exists>sqs. automaton g = build sqs"
    "\<forall>x y. turn_cost x y \<noteq> Infinite \<Longrightarrow> x < edges \<Longrightarrow> i \<in> set (transition_range g x) \<Longrightarrow> transition_costs g ! i \<noteq> Infinite"
proof -
  have ends: "\<forall>e<edges. fst (endpoints e) < nodes \<and> snd (endpoints e) < nodes" using ok by (simp add: buildable_def)
  show n: "length (edge_costs g) = edges" using edge_based_rows(1)[OF ends]
    by (simp add: g_def build_routing_graph_with_weights_def Let_def split_beta)
  show "virtual_reverse_of g = []" "\<exists>sqs. automaton g = build sqs"
    by (auto simp: g_def build_routing_graph_with_weights_def Let_def split_beta)
  then have aut: "\<exists>sqs. automaton g = build sqs" by blast
  have row: "(transition_edges g ! i, transition_costs g ! i) \<in> set (graph_row g x)" if "i \<in> set (transition_range g x)" for x i
    using that by (auto simp: graph_row_def)
  have t: "transition_edges g ! i < edges \<and> edge_cost topo em mode_bit timed opts (transition_edges g ! i) \<noteq> Infinite
      \<and> transition_costs g ! i = edge_cost topo em mode_bit timed opts (transition_edges g ! i) + turn_cost x (transition_edges g ! i)"
    if "x < edges" "i \<in> set (transition_range g x)" for x i
    using row[OF that(2)] unfolding g_def graph_rows[OF ok that(1)] by (auto simp: leaving_def split: if_splits)
  have "Cost 0 \<le> transition_costs g ! i" if "x < edges" "i \<in> set (transition_range g x)" for x i
    using t[OF that] costs add_mono[of "Cost 0" _ "Cost 0"] by (metis add_0 zero_cost_def)
  then show "searchable g" using t n aut by (auto simp: searchable_def)
  show "\<forall>x y. turn_cost x y \<noteq> Infinite \<Longrightarrow> x < edges \<Longrightarrow> i \<in> set (transition_range g x) \<Longrightarrow> transition_costs g ! i \<noteq> Infinite"
    using t[of x i] by (metis cost.distinct(1) cost.exhaust cost_plus_simps(3))
qed

definition legal_walk :: "(nat \<Rightarrow> nat \<times> nat) \<Rightarrow> nat \<Rightarrow> (nat \<Rightarrow> cost) \<Rightarrow> nat list set \<Rightarrow> nat list \<Rightarrow> bool" where
  "legal_walk endpoints edges c forbidden p \<longleftrightarrow> p \<noteq> [] \<and> set p \<subseteq> {0..<edges}
     \<and> successively (\<lambda>x y. c x \<noteq> Infinite \<and> c y \<noteq> Infinite \<and> snd (endpoints x) = fst (endpoints y)) p
     \<and> (\<forall>s\<in>forbidden. \<not> sublist s p)"

lemma priced_walk_within:
  assumes "searchable g" "seeds_within g origin" "priced_walk m g fb (set origin) es c"
  shows "set es \<subseteq> {0..<length (edge_costs g)}"
  using assms(3)
proof (induction rule: priced_walk.induct)
  case (seed e c)
  then show ?case using assms(2) by (auto simp: seeds_within_def)
next
  case (move es x c i y w t p)
  then show ?case using assms(1) by (auto simp: searchable_def)
qed

lemma built_walks:
  fixes em :: "edge_metric list" and mode_bit :: u16 and timed :: "nat \<Rightarrow> bool" and turn_cost :: "nat \<Rightarrow> nat \<Rightarrow> cost"
    and acceleration :: "acceleration_graph option" and opts :: graph_options
  assumes ok: "buildable nodes endpoints edges topo"
    and costs: "\<forall>e<edges. Cost 0 \<le> edge_cost topo em mode_bit timed opts e" "\<forall>x y. Cost 0 \<le> turn_cost x y"
    and turns: "\<forall>x y. turn_cost x y \<noteq> Infinite"
    and strict: "\<not> has_failure_modes fb"
  defines "g \<equiv> build_routing_graph_with_weights nodes endpoints (edge_based_build nodes edges endpoints) topo em mode_bit
        timed turn_cost acceleration opts"
  assumes seeds: "seeds_within g origin"
  shows "(\<exists>c. priced_walk m g fb (set origin) es c) \<longleftrightarrow> (\<exists>x. (hd es, Cost x) \<in> set origin)
    \<and> legal_walk endpoints edges (edge_cost topo em mode_bit timed opts) (kept_paths topo mode_bit opts) es"
proof -
  note b = built_graph[OF ok costs, where acceleration = acceleration, folded g_def]
  obtain sqs where sqs: "automaton g = build sqs" using b(4) by blast
  have within: "set es \<subseteq> {0..<edges}" if "priced_walk m g fb (set origin) es c" for c
    using priced_walk_within[OF b(1) seeds that] b(2) by simp
  have walks: "(\<exists>c. priced_walk m g fb (set origin) es c) \<longleftrightarrow> es \<noteq> [] \<and> (\<exists>x. (hd es, Cost x) \<in> set origin) \<and> graph_walk g es"
    if "set es \<subseteq> {0..<edges}"
    by (rule strict_walks[OF strict b(3) sqs]) (use b(5)[OF turns] that in auto)
  have legal: "graph_walk g es \<longleftrightarrow> successively (\<lambda>x y. edge_cost topo em mode_bit timed opts x \<noteq> Infinite
      \<and> edge_cost topo em mode_bit timed opts y \<noteq> Infinite \<and> snd (endpoints x) = fst (endpoints y)) es
      \<and> (\<forall>s\<in>kept_paths topo mode_bit opts. \<not> sublist s es)" if "set es \<subseteq> {0..<edges}"
    unfolding g_def by (rule graph_walk_legal[OF ok that])
  show ?thesis unfolding legal_walk_def using within walks legal by blast
qed

text \<open>C10: every legal connection is found. On the routing graph built from a street network, under a
  policy without failure modes, a request is always answered; it is answered with a route exactly
  when some legal walk over open edges joins an origin seed to a destination seed, and the route
  is such a walk.\<close>

theorem legal_route_found:
  fixes em :: "edge_metric list" and mode_bit :: u16 and timed :: "nat \<Rightarrow> bool" and turn_cost :: "nat \<Rightarrow> nat \<Rightarrow> cost"
    and acceleration :: "acceleration_graph option" and opts :: graph_options and m :: movement_metrics
    and origin destination :: "(nat \<times> cost) list"
  assumes ok: "buildable nodes endpoints edges topo"
    and costs: "\<forall>e<edges. Cost 0 \<le> edge_cost topo em mode_bit timed opts e" "\<forall>x y. Cost 0 \<le> turn_cost x y"
    and turns: "\<forall>x y. turn_cost x y \<noteq> Infinite"
    and policy: "\<not> has_failure_modes fb" "fair_penalties m fb"
  defines "g \<equiv> build_routing_graph_with_weights nodes endpoints (edge_based_build nodes edges endpoints) topo em mode_bit
        timed turn_cost acceleration opts"
    and "legal \<equiv> \<lambda>p. legal_walk endpoints edges (edge_cost topo em mode_bit timed opts) (kept_paths topo mode_bit opts) p
        \<and> (\<exists>x. (hd p, Cost x) \<in> set origin) \<and> (\<exists>a. (last p, Cost a) \<in> set destination)"
  assumes seeds: "seeds_within g origin"
  shows "\<exists>s' r. dijkstra_between_edge_seeds_with_failure_modes m g fb origin destination None s = Some (Inr (s', r))
    \<and> (r \<noteq> None \<longleftrightarrow> (\<exists>p. legal p)) \<and> (\<forall>p. r = Some p \<longrightarrow> legal (edge_indexes p))"
proof -
  note b = built_graph[OF ok costs, where acceleration = acceleration, folded g_def]
  note w = built_walks[OF ok costs turns policy(1), where acceleration = acceleration and m = m, folded g_def, OF seeds]
  obtain s' r where r: "dijkstra_between_edge_seeds_with_failure_modes m g fb origin destination None s = Some (Inr (s', r))"
    "answers m g fb origin destination None r"
    unfolding dijkstra_between_edge_seeds_with_failure_modes_def
    using route_to_answers[OF b(1) policy(2) seeds prepare_inv[OF seeds]] by metis
  have found: "legal (edge_indexes p)" if "r = Some p" for p
  proof -
    obtain c a where p: "priced_walk m g fb (set origin) (edge_indexes p) c" "(last (edge_indexes p), Cost a) \<in> set destination"
      using r(2) \<open>r = Some p\<close> by (auto simp: answers_def)
    then show ?thesis using w unfolding legal_def by blast
  qed
  have "r \<noteq> None" if l: "legal p" for p
  proof -
    obtain c a where "priced_walk m g fb (set origin) p c" "(last p, Cost a) \<in> set destination"
      using l w unfolding legal_def by blast
    then have "answer_cost r \<le> Cost (c + of_nat (length p - 1) * EPSILON) + Cost a" using r(2) unfolding answers_def by blast
    then show ?thesis by (cases r) (simp_all add: answer_cost_def)
  qed
  then have "r \<noteq> None \<longleftrightarrow> (\<exists>p. legal p)" using found by (cases r) auto
  moreover have "\<forall>p. r = Some p \<longrightarrow> legal (edge_indexes p)" using found by simp
  ultimately show ?thesis by (intro exI[of _ s'] exI[of _ r] conjI r(1))
qed

text \<open>C40: a route costs what it contains. The reported cost of a route that was searched for is its
  origin seed, the transitions it takes in their order, its destination adjustment and exactly the
  penalty that replaying its edges through the automaton charges for the movements it was
  allowed.\<close>

theorem restricted_route_priced:
  assumes "searchable g" "fair_penalties m fb" "seeds_within g origin"
    and "dijkstra_between_edge_seeds_with_failure_modes m g fb origin destination None s = Some (Inr (s', Some p))"
  defines "es \<equiv> edge_indexes p"
  shows "\<exists>c0 js a. (hd es, Cost c0) \<in> set origin \<and> (last es, Cost a) \<in> set destination \<and> length es = Suc (length js)
    \<and> (\<forall>n<length js. js ! n \<in> set (transition_range g (es ! n)) \<and> transition_edges g ! (js ! n) = es ! Suc n)
    \<and> total_generalized_cost p = Cost c0 + sum_list (map ((!) (transition_costs g)) js) + path_failure_mode_penalty_cost m g fb es + Cost a"
proof -
  obtain s'' r where "dijkstra_between_edge_seeds_with_failure_modes m g fb origin destination None s = Some (Inr (s'', r))"
    "answers m g fb origin destination None r"
    unfolding dijkstra_between_edge_seeds_with_failure_modes_def
    using route_to_answers[OF assms(1-3) prepare_inv[OF assms(3)]] by metis
  then obtain c a where p: "priced_walk m g fb (set origin) es c" "(last es, Cost a) \<in> set destination"
    "total_generalized_cost p = Cost c + Cost a" using assms(4) by (auto simp: answers_def es_def)
  from priced_walk_cost[OF p(1)] show ?thesis using p(2,3) by metis
qed

section \<open>Witnesses\<close>

abbreviation lenient :: fallback_policy where
  "lenient \<equiv> \<lparr>allow_reverse_oneway = False, allow_illegal_turn = True, ignore_turn_restrictions = False,
     allow_uturn_where_normally_forbidden = False, auto_relax_unreachable = False,
     penalties = \<lparr>reverse_oneway_penalty_s = None, illegal_turn_penalty_s = Some 90,
       ignored_turn_restriction_penalty_s = None, forbidden_uturn_penalty_s = None\<rparr>,
     max_illegal_distance_m = None, max_illegal_turns = None\<rparr>"

abbreviation strict_policy :: fallback_policy where
  "strict_policy \<equiv> lenient\<lparr>allow_illegal_turn := False\<rparr>"

abbreviation plain_metrics :: movement_metrics where
  "plain_metrics \<equiv> \<lparr>cost_time_weight = 1, is_uturn = (\<lambda>_ _. False)\<rparr>"

text \<open>The restricted triangle with every restriction in the automaton.\<close>

abbreviation searched_triangle :: routing_graph where
  "searched_triangle \<equiv> build_routing_graph_with_weights 3 triangle (edge_based_build 3 4 triangle) restricted_triangle
     witness_metrics 1 (\<lambda>_. True) (\<lambda>_ _. Cost 0) None (default_options\<lparr>search_time_turn_restrictions := True\<rparr>)"

lemma triangle_costs:
  "\<forall>e<4. Cost 0 \<le> edge_cost restricted_triangle witness_metrics 1 (\<lambda>_. True) opts e"
proof -
  have "list_all (\<lambda>e. case generalized_cost (witness_metrics ! e) of None \<Rightarrow> True | Some c \<Rightarrow> 0 \<le> c) [0..<4]" by code_simp
  then have "0 \<le> c" if "e < 4" "generalized_cost (witness_metrics ! e) = Some c" for e c
    using that by (force simp: list_all_iff split: option.splits)
  then show ?thesis by (auto simp: edge_cost_def split: option.splits)
qed

lemma triangle_searchable: "searchable searched_triangle" "length (edge_costs searched_triangle) = 4"
proof -
  have ok: "buildable 3 triangle 4 restricted_triangle" by code_simp
  show "searchable searched_triangle" "length (edge_costs searched_triangle) = 4"
    by (rule built_graph[OF ok triangle_costs], simp)+
qed

lemma triangle_seeds: "seeds_within searched_triangle [(0, Cost 1)]"
  unfolding seeds_within_def triangle_searchable(2) by simp

lemma plain_fair: "fair_penalties plain_metrics lenient" "fair_penalties plain_metrics strict_policy"
  by (simp_all add: fair_penalties_def or_default_def or_else_def)

declare route_loop.simps [code] reconstruct.simps [code]

lemma found_route:
  assumes "map_option (\<lambda>r. map_sum id (map_option f \<circ> snd) r) x = Some (Inr (Some y))"
  shows "\<exists>s p. x = Some (Inr (s, Some p)) \<and> f p = y"
proof -
  obtain r where r: "x = Some r" "map_sum id (map_option f \<circ> snd) r = Inr (Some y)" using assms by auto
  then obtain z where "r = Inr z" "map_option f (snd z) = Some y" by (cases r) auto
  then show ?thesis using r(1) by (cases z) auto
qed

lemma lenient_route:
  "map_option (\<lambda>r. map_sum id (map_option edge_indexes \<circ> snd) r)
     (dijkstra_between_edge_seeds_with_failure_modes plain_metrics searched_triangle lenient [(0, Cost 1)] [(2, Cost 0)] None empty_search)
   = Some (Inr (Some [0, 1, 2]))"
  by code_simp

theorem restricted_search_exact_witness:
  "\<exists>s1 r1 s2 r2. route_to plain_metrics searched_triangle lenient [(2, Cost 0)] None
      (prepare_search plain_metrics searched_triangle lenient [(0, Cost 1)] empty_search) = Some (Inr (s1, r1))
    \<and> route_to plain_metrics searched_triangle lenient [(3, Cost 0)] None s1 = Some (Inr (s2, r2))
    \<and> answers plain_metrics searched_triangle lenient [(0, Cost 1)] [(3, Cost 0)] None r2"
proof -
  note t = restricted_search_exact[OF triangle_searchable(1) plain_fair(1) triangle_seeds]
  obtain s1 r1 where "route_to plain_metrics searched_triangle lenient [(2, Cost 0)] None
      (prepare_search plain_metrics searched_triangle lenient [(0, Cost 1)] empty_search) = Some (Inr (s1, r1))"
    "frontier plain_metrics searched_triangle lenient [(0, Cost 1)] s1"
    using t[OF frontier.prepared, where destination = "[(2, Cost 0)]" and initial = None] by blast
  then show ?thesis using t[of s1 "[(3, Cost 0)]" None] by blast
qed

theorem legal_route_found_witness:
  "\<exists>s' p. dijkstra_between_edge_seeds_with_failure_modes plain_metrics searched_triangle strict_policy
      [(0, Cost 1)] [(1, Cost 0)] None empty_search = Some (Inr (s', Some p))"
proof -
  have ok: "buildable 3 triangle 4 restricted_triangle" by code_simp
  let ?opts = "default_options\<lparr>search_time_turn_restrictions := True\<rparr>"
  have K: "kept_paths restricted_triangle 1 ?opts = {[1, 2], [2, 0, 1]}"
    by (simp add: kept_paths_list mask_contains_def applies_statically_def)
  have "list_all (\<lambda>e. edge_cost restricted_triangle witness_metrics 1 (\<lambda>_. True) ?opts e \<noteq> Infinite) [0, 1]" by code_simp
  then have "legal_walk triangle 4 (edge_cost restricted_triangle witness_metrics 1 (\<lambda>_. True) ?opts) {[1, 2], [2, 0, 1]} [0, 1]"
    by (simp add: legal_walk_def sublist_Cons_right)
  then show ?thesis
    using legal_route_found[OF ok triangle_costs, where turn_cost = "\<lambda>_ _. Cost 0" and fb = strict_policy and m = plain_metrics
        and origin = "[(0, Cost 1)]" and destination = "[(1, Cost 0)]" and opts = ?opts and acceleration = None and s = empty_search,
        unfolded K] plain_fair(2) triangle_seeds
    by (force simp: has_failure_modes_def)
qed

theorem restricted_route_priced_witness:
  "\<exists>s' p js. dijkstra_between_edge_seeds_with_failure_modes plain_metrics searched_triangle lenient
      [(0, Cost 1)] [(2, Cost 0)] None empty_search = Some (Inr (s', Some p)) \<and> edge_indexes p = [0, 1, 2]
    \<and> total_generalized_cost p = Cost 1 + sum_list (map ((!) (transition_costs searched_triangle)) js) + Cost 90 + Cost 0"
proof -
  obtain s' p where p: "dijkstra_between_edge_seeds_with_failure_modes plain_metrics searched_triangle lenient
      [(0, Cost 1)] [(2, Cost 0)] None empty_search = Some (Inr (s', Some p))" "edge_indexes p = [0, 1, 2]"
    using found_route[OF lenient_route] by blast
  have "path_failure_mode_penalty_cost plain_metrics searched_triangle lenient [0, 1, 2] = Cost 90" by code_simp
  then show ?thesis
    using restricted_route_priced[OF triangle_searchable(1) plain_fair(1) triangle_seeds p(1)] p by auto
qed

end
