(* ===== verification/Lower_Bounds.thy ===== *)
theory Lower_Bounds
  imports Restricted_Route
begin

text \<open>
  The lower-bound customization of the restriction-aware A* search
  (\<open>build_lower_bound_weights\<close> in \<open>crates/query/src/engine/restricted_astar.rs\<close>,
  \<open>relax_lower_triangles\<close> in \<open>fallback.rs\<close>): every transition starts at its cost rounded down to a
  tick, then every lower triangle is relaxed over the ranked rows of the hierarchy. The lemmas show
  that the arrays it returns satisfy the triangle inequality and stay below every transition.
\<close>

section \<open>Customization\<close>

text \<open>One incoming arc of a middle, at its position in the ranked downward rows.\<close>

definition relax_position :: "ranked_cch \<Rightarrow> acceleration_bundle \<Rightarrow> nat list \<Rightarrow> metric_weights \<Rightarrow> nat \<Rightarrow> metric_weights" where
  "relax_position c b outgoing w position =
     (let incoming_arc = downward_slots b ! position;
          incoming_weight = down_weights w ! incoming_arc
      in if incoming_weight = CCH_WEIGHT_INFINITY then w
         else let tail = edge_order b ! (down_tails (ranked_rows c) ! position)
              in foldl (relax_triangle b incoming_weight tail) w outgoing)"

definition relax_lower_middle :: "ranked_cch \<Rightarrow> acceleration_bundle \<Rightarrow> metric_weights \<Rightarrow> nat \<Rightarrow> metric_weights" where
  "relax_lower_middle c b w middle_rank =
     (let middle = edge_order b ! middle_rank;
          outgoing = [upward_first_out b ! middle ..< upward_first_out b ! (middle + 1)];
          t = ranked_rows c
      in foldl (relax_position c b outgoing) w [down_first t ! middle_rank ..< down_first t ! (middle_rank + 1)])"

definition relax_lower_triangles :: "ranked_cch \<Rightarrow> acceleration_bundle \<Rightarrow> metric_weights \<Rightarrow> metric_weights" where
  "relax_lower_triangles c b w = foldl (relax_lower_middle c b) w [0..<length (edge_order b)]"

text \<open>\<open>None\<close> is an early \<open>return None\<close>.\<close>

fun try_fold :: "('b \<Rightarrow> 'a \<Rightarrow> 'b option) \<Rightarrow> 'b \<Rightarrow> 'a list \<Rightarrow> 'b option" where
  "try_fold f w [] = Some w"
| "try_fold f w (x # xs) = (case f w x of None \<Rightarrow> None | Some w' \<Rightarrow> try_fold f w' xs)"

definition lower_bound_step :: "routing_graph \<Rightarrow> acceleration_bundle \<Rightarrow> metric_weights \<Rightarrow> nat \<times> nat \<Rightarrow> metric_weights option" where
  "lower_bound_step g b w = (\<lambda>(e, transition).
     let nxt = transition_edges g ! transition
     in case transition_costs g ! transition of
          Infinite \<Rightarrow> Some w
        | Cost c \<Rightarrow>
            if nxt = e then Some w
            else let scaled = \<lfloor>max c 0 * 1024\<rfloor>
              in if uint CCH_WEIGHT_OVERFLOW \<le> scaled then None
                 else (case target_slot b e nxt of
                     None \<Rightarrow> None
                   | Some slot \<Rightarrow> Some (fetch_min w slot (word_of_int scaled))))"

definition graph_transitions :: "routing_graph \<Rightarrow> (nat \<times> nat) list" where
  "graph_transitions g = concat (map (\<lambda>e. map (Pair e) (transition_range g e)) [0..<length (edge_costs g)])"

definition build_lower_bound_weights :: "routing_graph \<Rightarrow> acceleration_graph \<Rightarrow> metric_weights option" where
  "build_lower_bound_weights g a =
     (case try_fold (lower_bound_step g (graph_source a)) (infinite_weights (graph_source a)) (graph_transitions g) of
        None \<Rightarrow> None
      | Some w \<Rightarrow> let w = relax_lower_triangles (graph_ranked a) (graph_source a) w
          in if CCH_WEIGHT_OVERFLOW \<in> set (up_weights w) \<or> CCH_WEIGHT_OVERFLOW \<in> set (down_weights w) then None else Some w)"

text \<open>The cached value is the value of its first computation.\<close>

definition lower_bound_weights :: "routing_graph \<Rightarrow> metric_weights option" where
  "lower_bound_weights g = (case graph_acceleration g of None \<Rightarrow> None | Some a \<Rightarrow> build_lower_bound_weights g a)"

section \<open>Triangles\<close>

text \<open>The positions of a ranked downward row are the downward arcs into its state.\<close>

lemma ranked_positions:
  assumes h: "hierarchy n b ups downs" and c: "ranked_rows c = ranked_topology_build b" and r: "r < n"
  defines "row \<equiv> [down_first (ranked_rows c) ! r ..< down_first (ranked_rows c) ! (r + 1)]"
  shows "(\<lambda>q. downward_slots b ! q) ` set row = {ia. ia < length downs \<and> snd (downs ! ia) = edge_order b ! r}"
    "q \<in> set row \<Longrightarrow> downward_slots b ! q < length downs
      \<and> downs ! (downward_slots b ! q) = (edge_order b ! (down_tails (ranked_rows c) ! q), edge_order b ! r)"
proof -
  let ?t = "ranked_rows c"
  let ?a = "down_first ?t ! r" and ?z = "down_first ?t ! (r + 1)" and ?S = "slots_into downs (edge_order b ! r)"
  note o = hierarchy_order[OF h]
  have cr: "?t = ranked_rows (ranked_build b w)" for w by (simp add: c ranked_build_def with_topology_def)
  note p = ranked_down_parts[OF h r, folded cr]
  have len: "?z - ?a = length ?S" using p(4,5) arg_cong[OF p(1), of length] by (simp add: length_subslice)
  have at: "downward_slots b ! q = ?S ! (q - ?a)" "down_tails ?t ! q = edge_rank b ! fst (downs ! (?S ! (q - ?a)))"
    "q - ?a < length ?S" if "q \<in> set [?a..<?z]" for q
  proof -
    have q: "?a \<le> q" "q - ?a < length ?S" using that len p(4) by auto
    show "q - ?a < length ?S" by (rule q(2))
    show "downward_slots b ! q = ?S ! (q - ?a)"
      using nth_subslice_offset[of "q - ?a" "downward_slots b" ?a ?z] q p(3) by simp
    show "down_tails ?t ! q = edge_rank b ! fst (downs ! (?S ! (q - ?a)))"
      using nth_subslice_offset[of "q - ?a" "down_tails ?t" ?a ?z] q p(1) by simp
  qed
  have "(\<lambda>q. downward_slots b ! q) ` set [?a..<?z] = (\<lambda>q. ?S ! (q - ?a)) ` set [?a..<?z]"
    using at(1) by (rule image_cong[OF refl])
  also have "\<dots> = (\<lambda>i. ?S ! i) ` (\<lambda>q. q - ?a) ` {?a..<?z}" by (simp add: image_image)
  also have "(\<lambda>q. q - ?a) ` {?a..<?z} = {..<?z - ?a}"
  proof (intro equalityI subsetI)
    fix i assume "i \<in> {..<?z - ?a}"
    then have "i + ?a \<in> {?a..<?z}" "i = i + ?a - ?a" by auto
    then show "i \<in> (\<lambda>q. q - ?a) ` {?a..<?z}" by blast
  qed auto
  also have "(\<lambda>i. ?S ! i) ` {..<?z - ?a} = set ?S" unfolding len by (auto simp: set_conv_nth)
  finally show "(\<lambda>q. downward_slots b ! q) ` set row = {ia. ia < length downs \<and> snd (downs ! ia) = edge_order b ! r}"
    by (simp add: slots_into_def row_def)
  assume q: "q \<in> set row"
  then have m: "?S ! (q - ?a) \<in> set ?S" using at(3) by (simp add: row_def)
  then have l: "?S ! (q - ?a) < length downs" "downs ! (?S ! (q - ?a)) = (fst (downs ! (?S ! (q - ?a))), edge_order b ! r)"
    by (simp_all only: slots_into_mem)
  then have "fst (downs ! (?S ! (q - ?a))) < n" using hierarchyD(5)[OF h] nth_mem[OF l(1)] by (metis prod.collapse)
  then show "downward_slots b ! q < length downs
      \<and> downs ! (downward_slots b ! q) = (edge_order b ! (down_tails (ranked_rows c) ! q), edge_order b ! r)"
    using at[OF q[unfolded row_def]] l o(5) by simp
qed

lemma relax_lower_middle_weight:
  assumes h: "hierarchy n b ups downs" and c: "ranked_rows c = ranked_topology_build b" and sh: "weight_shape b w" and r: "r < n"
  shows "weight_shape b (relax_lower_middle c b w r)
    \<and> arc_weight b (relax_lower_middle c b w r) = cch.relaxed ((!) (edge_rank b)) (edge_order b ! r) (arc_weight b w)"
proof -
  let ?v = "edge_order b ! r" and ?t = "ranked_rows c"
  let ?row = "[down_first ?t ! r ..< down_first ?t ! (r + 1)]"
  let ?os = "[upward_first_out b ! ?v ..< upward_first_out b ! (?v + 1)]"
  let ?ctx = "\<lparr>transition_arc = [], downward_tail = map fst downs, reverse_downward_first_out = [],
     reverse_downward_arc = downward_slots b, task_first = [], task_middles = [], top_middles = []\<rparr>"
  have v: "?v < n" by (rule hierarchy_order(2)[OF h r])
  have os: "set ?os = {oa. oa < length ups \<and> fst (ups ! oa) = ?v}"
    using csr_range[OF sorted_arcs_fst[OF hierarchyD(2)[OF h]] v] h by (simp add: hierarchy_def)
  note p = ranked_positions[OF h c r]
  have rs: "(\<lambda>q. reverse_downward_arc ?ctx ! q) ` set ?row = {ia. ia < length downs \<and> snd (downs ! ia) = ?v}"
    using p(1) by simp
  have step: "relax_position c b ?os w' q = relax_incoming ?ctx b ?os w' q" if "q \<in> set ?row" for w' q
    using p(2)[OF that] by (simp add: relax_position_def relax_incoming_def Let_def)
  have "relax_lower_middle c b w r = foldl (relax_incoming ?ctx b ?os) w ?row"
    unfolding relax_lower_middle_def Let_def by (rule foldl_cong) (use step in auto)
  then show ?thesis using relax_rows_weight[OF h sh v os rs] by simp
qed

lemma relax_lower_triangles_weight:
  assumes h: "hierarchy n b ups downs" and c: "ranked_rows c = ranked_topology_build b" and sh: "weight_shape b w"
  shows "weight_shape b (relax_lower_triangles c b w)"
    "arc_weight b (relax_lower_triangles c b w) x y \<le> arc_weight b w x y"
    "v < n \<Longrightarrow> cch.triangle_at ((!) (edge_rank b)) v (arc_weight b (relax_lower_triangles c b w))"
proof -
  have rel: "weight_shape b (foldl (relax_lower_middle c b) w rs)
    \<and> arc_weight b (foldl (relax_lower_middle c b) w rs)
      = cch.relax_all ((!) (edge_rank b)) (map ((!) (edge_order b)) rs) (arc_weight b w)"
    if "set rs \<subseteq> {0..<n}" for rs
    using that sh
  proof (induction rs arbitrary: w)
    case (Cons r rs)
    then show ?case using relax_lower_middle_weight[OF h c Cons.prems(2), of r] by simp
  qed simp
  note o = hierarchy_order[OF h]
  have all: "map ((!) (edge_order b)) [0..<n] = edge_order b" using o(1) by (metis map_nth)
  have r: "weight_shape b (relax_lower_triangles c b w)"
    "arc_weight b (relax_lower_triangles c b w) = cch.relax_all ((!) (edge_rank b)) (edge_order b) (arc_weight b w)"
    using rel[of "[0..<n]"] by (simp_all add: relax_lower_triangles_def o(1) all)
  show "weight_shape b (relax_lower_triangles c b w)" by (rule r(1))
  show "arc_weight b (relax_lower_triangles c b w) x y \<le> arc_weight b w x y" unfolding r(2) by (rule cch.relax_all_le)
  assume v: "v < n"
  have "sorted_wrt (\<lambda>v u. \<not> cch.lower_neighbour ((!) (edge_rank b)) (set ups \<union> set downs) u v) (edge_order b)"
    unfolding sorted_wrt_iff_nth_less cch.lower_neighbour_def using o(1,3) by auto
  then have lf: "cch.lower_first ((!) (edge_rank b)) (set ups \<union> set downs) (edge_order b)" by (simp add: cch.lower_first_def)
  have "v \<in> set (edge_order b)" using o(1,4,5) v nth_mem by metis
  then show "cch.triangle_at ((!) (edge_rank b)) v (arc_weight b (relax_lower_triangles c b w))"
    unfolding r(2) by (rule cch.triangle_final[OF hierarchy_closed[OF h] arc_weight_supported[OF h] lf])
qed

section \<open>Lower bounds\<close>

lemma try_fold_bounds:
  assumes h: "hierarchy n b ups downs" "n = length (edge_costs g)" and ok: "searchable g"
  shows "weight_shape b w \<Longrightarrow> set ts \<subseteq> set (graph_transitions g) \<Longrightarrow> try_fold (lower_bound_step g b) w ts = Some w' \<Longrightarrow>
    weight_shape b w' \<and> (\<forall>x y. arc_weight b w' x y \<le> arc_weight b w x y)
    \<and> (\<forall>(e, i)\<in>set ts. \<forall>c. transition_costs g ! i = Cost c \<longrightarrow> transition_edges g ! i \<noteq> e \<longrightarrow>
        \<lfloor>max c 0 * 1024\<rfloor> < uint CCH_WEIGHT_OVERFLOW \<and> target_slot b e (transition_edges g ! i) \<noteq> None
        \<and> uint (arc_weight b w' e (transition_edges g ! i)) \<le> \<lfloor>max c 0 * 1024\<rfloor>)"
proof (induction ts arbitrary: w)
  case (Cons t ts)
  obtain e i where t: "t = (e, i)" by (cases t)
  let ?y = "transition_edges g ! i"
  have e: "e < n" "i \<in> set (transition_range g e)" using Cons.prems(2) t h(2) by (auto simp: graph_transitions_def)
  then have y: "?y < n" using ok h(2) by (auto simp: searchable_def)
  obtain w1 where w1: "lower_bound_step g b w t = Some w1" "try_fold (lower_bound_step g b) w1 ts = Some w'"
    using Cons.prems(3) by (auto split: option.splits)
  show ?case
  proof (cases "transition_costs g ! i = Infinite \<or> ?y = e")
    case True
    then have "w1 = w" using w1(1) t by (auto simp: lower_bound_step_def Let_def split: cost.splits)
    then show ?thesis using True Cons.IH[OF Cons.prems(1) _ ] Cons.prems(2) w1(2) t by auto
  next
    case False
    then obtain c where c: "transition_costs g ! i = Cost c" "?y \<noteq> e"
      by (cases "transition_costs g ! i") auto
    let ?s = "\<lfloor>max c 0 * 1024\<rfloor>"
    obtain slot where s: "?s < uint CCH_WEIGHT_OVERFLOW" "target_slot b e ?y = Some slot" "w1 = fetch_min w slot (word_of_int ?s)"
      using w1(1) t c by (auto simp: lower_bound_step_def Let_def not_le split: if_splits option.splits)
    note f = arc_weight_fetch_min[OF h(1) Cons.prems(1) e(1) y s(2), of "word_of_int ?s", folded s(3)]
    have sh: "weight_shape b w1" using Cons.prems(1) s(3) by simp
    have le: "arc_weight b w1 x z \<le> arc_weight b w x z" for x z unfolding f by simp
    have u: "uint (word_of_int ?s :: u32) = ?s" using s(1) by (simp add: word_of_int_inverse)
    have "arc_weight b w1 e ?y \<le> word_of_int ?s" unfolding f by simp
    then have b: "uint (arc_weight b w1 e ?y) \<le> ?s" using u by (simp add: word_le_def)
    from Cons.IH[OF sh _ w1(2)] Cons.prems(2) have ih: "weight_shape b w'" "\<forall>x y. arc_weight b w' x y \<le> arc_weight b w1 x y"
      "\<forall>(e, i)\<in>set ts. \<forall>c. transition_costs g ! i = Cost c \<longrightarrow> transition_edges g ! i \<noteq> e \<longrightarrow>
        \<lfloor>max c 0 * 1024\<rfloor> < uint CCH_WEIGHT_OVERFLOW \<and> target_slot b e (transition_edges g ! i) \<noteq> None
        \<and> uint (arc_weight b w' e (transition_edges g ! i)) \<le> \<lfloor>max c 0 * 1024\<rfloor>" by auto
    have "uint (arc_weight b w' e ?y) \<le> ?s" using ih(2) b by (meson order_trans word_le_def)
    moreover have "arc_weight b w' x z \<le> arc_weight b w x z" for x z using ih(2) le order_trans by blast
    ultimately show ?thesis using ih(1,3) s(1,2) t c by auto
  qed
qed simp

text \<open>The costs of hierarchy arcs under the lower bounds.\<close>

definition bound_at :: "acceleration_bundle \<Rightarrow> metric_weights \<Rightarrow> nat \<Rightarrow> nat \<Rightarrow> cost" where
  "bound_at b w x y = decoded (arc_weight b w x y)"

definition lower_bounds_ok :: "routing_graph \<Rightarrow> acceleration_bundle \<Rightarrow> (nat \<times> nat) list \<Rightarrow> (nat \<times> nat) list \<Rightarrow> metric_weights \<Rightarrow> bool" where
  "lower_bounds_ok g b ups downs w \<longleftrightarrow> weight_shape b w
     \<and> (\<forall>x y. (x, y) \<notin> set ups \<union> set downs \<longrightarrow> bound_at b w x y = Infinite)
     \<and> (\<forall>v x y. v < length (edge_costs g) \<longrightarrow> x \<noteq> y \<longrightarrow> edge_rank b ! v < edge_rank b ! x \<longrightarrow> edge_rank b ! v < edge_rank b ! y \<longrightarrow>
          bound_at b w x y \<le> bound_at b w x v + bound_at b w v y)
     \<and> (\<forall>e<length (edge_costs g). \<forall>i\<in>set (transition_range g e). transition_edges g ! i \<noteq> e \<longrightarrow>
          bound_at b w e (transition_edges g ! i) \<le> transition_costs g ! i)"

lemma decoded_uint: "decoded w = (if w < CCH_WEIGHT_OVERFLOW then Cost (of_int (uint w) / 1024) else Infinite)"
  by (simp add: decoded_def decode_cch_weight_def linorder_not_less[symmetric])

lemma decoded_triangle:
  assumes "a \<le> add_cch_weights x y" "a \<noteq> CCH_WEIGHT_OVERFLOW"
  shows "decoded a \<le> decoded x + decoded y"
proof (cases "x < CCH_WEIGHT_OVERFLOW \<and> y < CCH_WEIGHT_OVERFLOW")
  case True
  have na: "unat a \<noteq> 2 ^ 32 - 2" using assms(2) by (simp add: word_unat_eq_iff)
  have xy: "unat x < 2 ^ 32 - 2" "unat y < 2 ^ 32 - 2" using True by (simp_all add: word_less_nat_alt)
  have "unat a \<le> min (unat x + unat y) (2 ^ 32 - 2)"
    using assms(1) xy by (simp add: word_le_nat_alt unat_add_cch_weights)
  then have "unat a \<le> unat x + unat y" "unat a < 2 ^ 32 - 2" using na by linarith+
  then have "uint a \<le> uint x + uint y" "a < CCH_WEIGHT_OVERFLOW"
    by (simp_all add: word_less_nat_alt) (metis of_nat_add of_nat_le_iff uint_nat)
  then have "(of_int (uint a) :: rat) \<le> of_int (uint x + uint y)" by (simp only: of_int_le_iff)
  then have "(of_int (uint a) :: rat) / 1024 \<le> of_int (uint x) / 1024 + of_int (uint y) / 1024" by (simp add: field_simps)
  then show ?thesis using True \<open>a < CCH_WEIGHT_OVERFLOW\<close> by (simp add: decoded_uint)
qed (auto simp: decoded_uint)

lemma build_lower_bound_weights_ok:
  assumes h: "hierarchy (length (edge_costs g)) (graph_source a) ups downs"
    and rows: "ranked_rows (graph_ranked a) = ranked_topology_build (graph_source a)" and ok: "searchable g"
    and w: "build_lower_bound_weights g a = Some w"
  shows "lower_bounds_ok g (graph_source a) ups downs w"
proof -
  let ?b = "graph_source a" and ?n = "length (edge_costs g)"
  obtain w0 where w0: "try_fold (lower_bound_step g ?b) (infinite_weights ?b) (graph_transitions g) = Some w0"
    "w = relax_lower_triangles (graph_ranked a) ?b w0"
    "CCH_WEIGHT_OVERFLOW \<notin> set (up_weights w)" "CCH_WEIGHT_OVERFLOW \<notin> set (down_weights w)"
    using w by (auto simp: build_lower_bound_weights_def Let_def split: option.splits if_splits)
  have f: "weight_shape ?b w0"
    "\<forall>(e, i)\<in>set (graph_transitions g). \<forall>c. transition_costs g ! i = Cost c \<longrightarrow> transition_edges g ! i \<noteq> e \<longrightarrow>
        \<lfloor>max c 0 * 1024\<rfloor> < uint CCH_WEIGHT_OVERFLOW \<and> target_slot ?b e (transition_edges g ! i) \<noteq> None
        \<and> uint (arc_weight ?b w0 e (transition_edges g ! i)) \<le> \<lfloor>max c 0 * 1024\<rfloor>"
    using try_fold_bounds[OF h refl ok weight_shape_infinite order_refl w0(1)] by simp_all
  note t = relax_lower_triangles_weight[OF h rows f(1), folded w0(2)]
  have no: "arc_weight ?b w x y \<noteq> CCH_WEIGHT_OVERFLOW" for x y
  proof (cases "(x, y) \<in> set ups \<union> set downs")
    case True
    then obtain s where "s < length ups \<and> ups ! s = (x, y) \<or> s < length downs \<and> downs ! s = (x, y)"
      by (auto simp: in_set_conv_nth)
    then have "arc_weight ?b w x y \<in> set (up_weights w) \<union> set (down_weights w)"
      using arc_weight_at[OF h] t(1) h by (auto simp: weight_shape_def hierarchy_def)
    then show ?thesis using w0(3,4) by auto
  next
    case False
    then have "arc_weight ?b w x y = CCH_WEIGHT_INFINITY" using arc_weight_supported[OF h, of w] by (simp add: cch.supported_def)
    then show ?thesis by (simp add: CCH_WEIGHT_INFINITY_def CCH_WEIGHT_OVERFLOW_def)
  qed
  show ?thesis
    unfolding lower_bounds_ok_def
  proof (intro conjI allI impI ballI)
    show "weight_shape ?b w" by (rule t(1))
  next
    fix x y assume "(x, y) \<notin> set ups \<union> set downs"
    then have "arc_weight ?b w x y = CCH_WEIGHT_INFINITY" using arc_weight_supported[OF h, of w] by (simp add: cch.supported_def)
    then show "bound_at ?b w x y = Infinite" by (simp add: bound_at_def decoded_uint CCH_WEIGHT_INFINITY_def CCH_WEIGHT_OVERFLOW_def)
  next
    fix v x y assume "v < ?n" "x \<noteq> y" "edge_rank ?b ! v < edge_rank ?b ! x" "edge_rank ?b ! v < edge_rank ?b ! y"
    then have "arc_weight ?b w x y \<le> add_cch_weights (arc_weight ?b w x v) (arc_weight ?b w v y)"
      using t(3)[of v] by (simp add: cch.triangle_at_def)
    then show "bound_at ?b w x y \<le> bound_at ?b w x v + bound_at ?b w v y"
      unfolding bound_at_def by (rule decoded_triangle) (rule no)
  next
    fix e i assume e: "e < ?n" "i \<in> set (transition_range g e)" and ne: "transition_edges g ! i \<noteq> e"
    let ?y = "transition_edges g ! i"
    show "bound_at ?b w e ?y \<le> transition_costs g ! i"
    proof (cases "transition_costs g ! i")
      case (Cost c)
      have c: "0 \<le> c" using ok e Cost by (auto simp: searchable_def dest!: spec[of _ e] bspec[of _ _ i])
      have "(e, i) \<in> set (graph_transitions g)" using e by (auto simp: graph_transitions_def)
      then have u: "\<lfloor>c * 1024\<rfloor> < uint CCH_WEIGHT_OVERFLOW" "uint (arc_weight ?b w0 e ?y) \<le> \<lfloor>c * 1024\<rfloor>"
        using f(2) Cost ne c by auto
      have "uint (arc_weight ?b w e ?y) \<le> uint (arc_weight ?b w0 e ?y)" using t(2)[of e ?y] by (simp only: word_le_def)
      then have le: "uint (arc_weight ?b w e ?y) \<le> \<lfloor>c * 1024\<rfloor>" "arc_weight ?b w e ?y < CCH_WEIGHT_OVERFLOW"
        using u by (simp_all only: word_less_def)
      have "(of_int (uint (arc_weight ?b w e ?y)) :: rat) \<le> c * 1024" using le(1) by (simp add: le_floor_iff)
      then show ?thesis using le(2) Cost by (simp add: bound_at_def decoded_uint field_simps)
    qed simp
  qed
qed

end
