(* ===== verification/Potentials.thy ===== *)
theory Potentials
  imports Lower_Bounds
begin

text \<open>
  The potentials of the restriction-aware A* search (\<open>AStarScratch::search_backward\<close> and
  \<open>AStarScratch::potential\<close> in \<open>crates/query/src/engine/restricted_astar.rs\<close>): a complete backward
  search from the destination seeds over downward arcs, and distances over upward arcs that are
  evaluated on demand with an explicit stack and kept in a memo table.
\<close>

section \<open>Backward search\<close>

type_synonym backward_state = "(nat \<rightharpoonup> cost) \<times> query_entry list"

definition backward_at :: "(nat \<rightharpoonup> cost) \<Rightarrow> nat \<Rightarrow> cost" where
  "backward_at B e = (case B e of None \<Rightarrow> Infinite | Some k \<Rightarrow> k)"

text \<open>\<open>entry(e).or_insert(INFINITY)\<close>, replaced and queued when the cost is less.\<close>

definition improve_backward :: "nat \<Rightarrow> cost \<Rightarrow> backward_state \<Rightarrow> backward_state" where
  "improve_backward e c s = (let (B, h) = s; known = backward_at B e
     in case c of
          Infinite \<Rightarrow> (B(e \<mapsto> known), h)
        | Cost x \<Rightarrow> if Cost x < known then (B(e \<mapsto> Cost x), (e, 0, x) # h) else (B(e \<mapsto> known), h))"

definition relax_backward :: "acceleration_graph \<Rightarrow> metric_weights \<Rightarrow> rat \<Rightarrow> backward_state \<Rightarrow> nat \<Rightarrow> backward_state" where
  "relax_backward a w c s position =
     (let b = graph_source a; weight = down_weights w ! (downward_slots b ! position)
      in if weight = CCH_WEIGHT_INFINITY then s
         else improve_backward (edge_order b ! (down_tails (ranked_rows (graph_ranked a)) ! position)) (Cost c + decoded weight) s)"

definition backward_step :: "acceleration_graph \<Rightarrow> metric_weights \<Rightarrow> backward_state \<Rightarrow> (search_error + backward_state) option" where
  "backward_step a w s = (case queue_pop (snd s) of
       None \<Rightarrow> None
     | Some ((e, _, c), rest) \<Rightarrow>
         (case fst s e of
            None \<Rightarrow> Some (Inl Panicked)
          | Some known \<Rightarrow>
              if known < Cost c then Some (Inr (fst s, rest))
              else let rank = edge_rank (graph_source a) ! e; t = ranked_rows (graph_ranked a)
                in Some (Inr (foldl (relax_backward a w c) (fst s, rest) [down_first t ! rank ..< down_first t ! (rank + 1)]))))"

partial_function (option) backward_loop :: "acceleration_graph \<Rightarrow> metric_weights \<Rightarrow> backward_state \<Rightarrow>
    (search_error + (nat \<rightharpoonup> cost)) option" where
  "backward_loop a w s = (case backward_step a w s of
       None \<Rightarrow> Some (Inr (fst s))
     | Some (Inl err) \<Rightarrow> Some (Inl err)
     | Some (Inr s') \<Rightarrow> backward_loop a w s')"

definition search_backward :: "acceleration_graph \<Rightarrow> metric_weights \<Rightarrow> (nat \<times> cost) list \<Rightarrow> (search_error + (nat \<rightharpoonup> cost)) option" where
  "search_backward a w seeds = backward_loop a w (foldl (\<lambda>s (e, c). improve_backward e c s) ((\<lambda>_. None), []) seeds)"

section \<open>Potentials\<close>

type_synonym memo = "nat \<rightharpoonup> cost"

definition up_slots :: "acceleration_bundle \<Rightarrow> metric_weights \<Rightarrow> nat \<Rightarrow> nat list" where
  "up_slots b w e = filter (\<lambda>s. up_weights w ! s \<noteq> CCH_WEIGHT_INFINITY) [upward_first_out b ! e ..< upward_first_out b ! (e + 1)]"

text \<open>One round of the stack loop; the top of the stack is the head of the list.\<close>

definition potential_step :: "acceleration_bundle \<Rightarrow> metric_weights \<Rightarrow> (nat \<rightharpoonup> cost) \<Rightarrow> memo \<times> nat list \<Rightarrow> (memo \<times> nat list) option" where
  "potential_step b w B s = (case snd s of
       [] \<Rightarrow> None
     | state # rest \<Rightarrow>
         if fst s state \<noteq> None then Some (fst s, rest)
         else let slots = up_slots b w state;
                  missing = filter (\<lambda>h. fst s h = None) (map (\<lambda>s. upward_head b ! s) slots)
           in if missing \<noteq> [] then Some (fst s, rev missing @ snd s)
              else let best = foldl min (backward_at B state)
                     (map (\<lambda>slot. decoded (up_weights w ! slot) + the (fst s (upward_head b ! slot))) slots)
                in Some ((fst s)(state \<mapsto> best), rest))"

partial_function (option) potential_loop :: "acceleration_bundle \<Rightarrow> metric_weights \<Rightarrow> (nat \<rightharpoonup> cost) \<Rightarrow> memo \<times> nat list \<Rightarrow> memo option" where
  "potential_loop b w B s = (case potential_step b w B s of None \<Rightarrow> Some (fst s) | Some s' \<Rightarrow> potential_loop b w B s')"

text \<open>\<open>None\<close> is a loop that does not end or a missing entry at the end.\<close>

definition potential :: "acceleration_bundle \<Rightarrow> metric_weights \<Rightarrow> (nat \<rightharpoonup> cost) \<Rightarrow> memo \<Rightarrow> nat \<Rightarrow> (cost \<times> memo) option" where
  "potential b w B mm e = (case mm e of
       Some known \<Rightarrow> Some (known, mm)
     | None \<Rightarrow> (case potential_loop b w B (mm, [e]) of
           None \<Rightarrow> None
         | Some mm' \<Rightarrow> map_option (\<lambda>known. (known, mm')) (mm' e)))"

section \<open>The backward search is complete\<close>

lemma improve_backward_at:
  "backward_at (fst (improve_backward e c s)) x = (if x = e then min (backward_at (fst s) e) c else backward_at (fst s) x)"
  by (cases s) (auto simp: improve_backward_def backward_at_def Let_def min_def split: cost.splits option.splits)

lemma improve_backward_dom: "dom (fst (improve_backward e c s)) = insert e (dom (fst s))"
  by (cases s) (auto simp: improve_backward_def Let_def split: cost.splits)

lemma improve_backward_heap:
  "set (snd s) \<subseteq> set (snd (improve_backward e c s))"
  "set (snd (improve_backward e c s)) \<subseteq> insert (e, 0, case c of Cost x \<Rightarrow> x | Infinite \<Rightarrow> 0) (set (snd s))"
  "backward_at (fst (improve_backward e c s)) e = backward_at (fst s) e
    \<or> (\<exists>x. backward_at (fst (improve_backward e c s)) e = Cost x \<and> (e, 0, x) \<in> set (snd (improve_backward e c s)))"
  by (cases s; auto simp: improve_backward_def backward_at_def Let_def split: cost.splits option.splits)+

definition relaxed_into :: "acceleration_bundle \<Rightarrow> metric_weights \<Rightarrow> (nat \<times> nat) list \<Rightarrow> (nat \<rightharpoonup> cost) \<Rightarrow> nat \<Rightarrow> cost \<Rightarrow> bool" where
  "relaxed_into b w downs B y c \<longleftrightarrow> (\<forall>x. (x, y) \<in> set downs \<longrightarrow> backward_at B x \<le> bound_at b w x y + c)"

text \<open>All states but those in \<open>X\<close> are pending or relaxed.\<close>

definition backward_inv :: "nat \<Rightarrow> acceleration_bundle \<Rightarrow> metric_weights \<Rightarrow> (nat \<times> nat) list \<Rightarrow> (nat \<times> cost) set \<Rightarrow> nat set \<Rightarrow>
    backward_state \<Rightarrow> bool" where
  "backward_inv n b w downs S X s \<longleftrightarrow> (\<forall>x\<in>set (snd s). fst x < n \<and> fst x \<in> dom (fst s))
     \<and> (\<forall>y c. y \<notin> X \<longrightarrow> backward_at (fst s) y = Cost c \<longrightarrow> (y, 0, c) \<in> set (snd s) \<or> relaxed_into b w downs (fst s) y (Cost c))
     \<and> (\<forall>p\<in>S. backward_at (fst s) (fst p) \<le> snd p)"

lemma improve_backward_inv:
  assumes inv: "backward_inv n b w downs S X s" and e: "e < n"
  shows "backward_inv n b w downs (insert (e, c) S) X (improve_backward e c s)"
proof -
  let ?s = "improve_backward e c s"
  have le: "backward_at (fst ?s) x \<le> backward_at (fst s) x" for x by (simp add: improve_backward_at)
  have "(y, 0, d) \<in> set (snd ?s) \<or> relaxed_into b w downs (fst ?s) y (Cost d)"
    if y: "y \<notin> X" "backward_at (fst ?s) y = Cost d" for y d
  proof (cases "backward_at (fst s) y = Cost d")
    case True
    then have "(y, 0, d) \<in> set (snd s) \<or> relaxed_into b w downs (fst s) y (Cost d)" using inv y(1) by (simp add: backward_inv_def)
    then show ?thesis using improve_backward_heap(1)[of s e c] le unfolding relaxed_into_def by (blast intro: order_trans)
  next
    case False
    then have "y = e" "backward_at (fst ?s) e \<noteq> backward_at (fst s) e" using y(2) improve_backward_at[of e c s y] by (auto split: if_splits)
    then show ?thesis using improve_backward_heap(3)[of e c s] y(2) by auto
  qed
  moreover have "\<forall>x\<in>set (snd ?s). fst x < n \<and> fst x \<in> dom (fst ?s)"
    using inv e improve_backward_heap(2)[of e c s] unfolding improve_backward_dom backward_inv_def by (auto simp: subset_iff)
  moreover have "\<forall>p\<in>insert (e, c) S. backward_at (fst ?s) (fst p) \<le> snd p"
  proof
    fix p assume "p \<in> insert (e, c) S"
    then show "backward_at (fst ?s) (fst p) \<le> snd p"
      using inv order_trans[OF le[of "fst p"], of "snd p"] unfolding backward_inv_def by (auto simp: improve_backward_at)
  qed
  ultimately show ?thesis unfolding backward_inv_def by blast
qed

lemma backward_inv_subset: "backward_inv n b w downs S' X s \<Longrightarrow> S \<subseteq> S' \<Longrightarrow> backward_inv n b w downs S X s"
  unfolding backward_inv_def by blast

text \<open>The arrays the searches read: a hierarchy, its ranked rows, weights of its shape.\<close>

definition accelerated :: "nat \<Rightarrow> acceleration_graph \<Rightarrow> (nat \<times> nat) list \<Rightarrow> (nat \<times> nat) list \<Rightarrow> metric_weights \<Rightarrow> bool" where
  "accelerated n a ups downs w \<longleftrightarrow> hierarchy n (graph_source a) ups downs
     \<and> ranked_rows (graph_ranked a) = ranked_topology_build (graph_source a) \<and> weight_shape (graph_source a) w"

lemma relax_backward_improves:
  assumes ok: "accelerated n a ups downs w" and r: "r < n"
    and q: "q \<in> set [down_first (ranked_rows (graph_ranked a)) ! r ..< down_first (ranked_rows (graph_ranked a)) ! (r + 1)]"
  defines "x \<equiv> edge_order (graph_source a) ! (down_tails (ranked_rows (graph_ranked a)) ! q)" and "y \<equiv> edge_order (graph_source a) ! r"
  shows "(x, y) \<in> set downs"
    "relax_backward a w c s q = (if bound_at (graph_source a) w x y = Infinite \<and> down_weights w ! (downward_slots (graph_source a) ! q) = CCH_WEIGHT_INFINITY
       then s else improve_backward x (bound_at (graph_source a) w x y + Cost c) s)"
proof -
  let ?b = "graph_source a"
  have h: "hierarchy n ?b ups downs" and c: "ranked_rows (graph_ranked a) = ranked_topology_build ?b"
    using ok by (simp_all add: accelerated_def)
  have p: "downward_slots ?b ! q < length downs" "downs ! (downward_slots ?b ! q) = (x, y)"
    using ranked_positions(2)[OF h c r q] by (simp_all add: x_def y_def)
  show "(x, y) \<in> set downs" using nth_mem[OF p(1)] p(2) by simp
  have "bound_at ?b w x y = decoded (down_weights w ! (downward_slots ?b ! q))"
    using arc_weight_at(2)[OF h p] by (simp add: bound_at_def)
  moreover have "decoded CCH_WEIGHT_INFINITY = Infinite" by (simp add: decoded_uint CCH_WEIGHT_INFINITY_def CCH_WEIGHT_OVERFLOW_def)
  ultimately show "relax_backward a w c s q = (if bound_at ?b w x y = Infinite \<and> down_weights w ! (downward_slots ?b ! q) = CCH_WEIGHT_INFINITY
       then s else improve_backward x (bound_at ?b w x y + Cost c) s)"
    by (simp add: relax_backward_def Let_def x_def add.commute)
qed

lemma relax_backward_row:
  fixes c :: rat
  assumes ok: "accelerated n a ups downs w" and r: "r < n"
    and qs: "set qs \<subseteq> set [down_first (ranked_rows (graph_ranked a)) ! r ..< down_first (ranked_rows (graph_ranked a)) ! (r + 1)]"
    and inv: "backward_inv n (graph_source a) w downs S X s"
  defines "b \<equiv> graph_source a" and "y \<equiv> edge_order (graph_source a) ! r" and "s' \<equiv> foldl (relax_backward a w c) s qs"
  shows "backward_inv n b w downs S X s' \<and> (\<forall>x. backward_at (fst s') x \<le> backward_at (fst s) x) \<and> backward_at (fst s') y = backward_at (fst s) y
    \<and> (\<forall>q\<in>set qs. let x = edge_order b ! (down_tails (ranked_rows (graph_ranked a)) ! q) in backward_at (fst s') x \<le> bound_at b w x y + Cost c)
    \<and> (\<exists>new. mset (snd s') = mset (snd s) + new \<and> (\<forall>x\<in>#new. (fst x, y) \<in> set downs))"
  using qs unfolding s'_def
proof (induction qs rule: rev_induct)
  case Nil
  then show ?case using inv by (auto simp: b_def)
next
  case (snoc q qs)
  let ?a = "foldl (relax_backward a w c) s qs" and ?x = "edge_order b ! (down_tails (ranked_rows (graph_ranked a)) ! q)"
  have ih: "backward_inv n b w downs S X ?a" "\<forall>x. backward_at (fst ?a) x \<le> backward_at (fst s) x" "backward_at (fst ?a) y = backward_at (fst s) y"
    "\<forall>q\<in>set qs. let x = edge_order b ! (down_tails (ranked_rows (graph_ranked a)) ! q) in backward_at (fst ?a) x \<le> bound_at b w x y + Cost c"
    using snoc by auto
  obtain new where new: "mset (snd ?a) = mset (snd s) + new" "\<forall>x\<in>#new. (fst x, y) \<in> set downs" using snoc by auto
  have h: "hierarchy n b ups downs" using ok by (simp add: accelerated_def b_def)
  have q: "q \<in> set [down_first (ranked_rows (graph_ranked a)) ! r ..< down_first (ranked_rows (graph_ranked a)) ! (r + 1)]" using snoc.prems by simp
  note i = relax_backward_improves[OF ok r q, folded b_def y_def]
  have x: "?x < n" "?x \<noteq> y" using hierarchyD(5)[OF h i(1)] by simp_all
  let ?s = "improve_backward ?x (bound_at b w ?x y + Cost c) ?a"
  show ?case
  proof (cases "relax_backward a w c ?a q = ?a")
    case True
    then have "backward_at (fst ?a) ?x \<le> bound_at b w ?x y + Cost c"
      using i(2)[of c ?a] improve_backward_at[of ?x "bound_at b w ?x y + Cost c" ?a ?x]
      by (auto split: if_splits simp: min_def)
    then show ?thesis using ih new True by auto
  next
    case False
    then have eq: "relax_backward a w c ?a q = ?s" using i(2)[of c ?a] by (auto split: if_splits)
    have "backward_inv n b w downs S X ?s" using backward_inv_subset[OF improve_backward_inv[OF ih(1) x(1)] subset_insertI] .
    moreover have le: "backward_at (fst ?s) z \<le> backward_at (fst ?a) z" for z by (simp add: improve_backward_at)
    moreover have "backward_at (fst ?s) y = backward_at (fst s) y" using x(2) ih(3) by (simp add: improve_backward_at)
    moreover have "backward_at (fst ?s) ?x \<le> bound_at b w ?x y + Cost c" by (simp add: improve_backward_at)
    moreover have "\<exists>more. mset (snd ?s) = mset (snd ?a) + more \<and> (\<forall>x\<in>#more. (fst x, y) \<in> set downs)"
    proof -
      have "snd ?s = snd ?a \<or> (\<exists>d. snd ?s = (?x, 0, d) # snd ?a)"
        by (cases ?a) (auto simp: improve_backward_def Let_def split: cost.splits)
      then show ?thesis using i(1) by (auto intro: exI[of _ "{#}"] exI[of _ "{#_#}"])
    qed
    then obtain more where "mset (snd ?s) = mset (snd ?a) + more" "\<forall>x\<in>#more. (fst x, y) \<in> set downs" by blast
    then have "mset (snd ?s) = mset (snd s) + (new + more) \<and> (\<forall>x\<in>#new + more. (fst x, y) \<in> set downs)" using new by auto
    ultimately show ?thesis using ih eq by (auto simp: Let_def intro: order_trans)
  qed
qed

lemma backward_step_inv:
  assumes ok: "accelerated n a ups downs w" and inv: "backward_inv n (graph_source a) w downs S {} s"
    and step: "backward_step a w s = Some r"
  obtains s' where "r = Inr s'" "backward_inv n (graph_source a) w downs S {} s'"
    "(image_mset (\<lambda>x. n - edge_rank (graph_source a) ! fst x) (mset (snd s')), image_mset (\<lambda>x. n - edge_rank (graph_source a) ! fst x) (mset (snd s))) \<in> mult less_than"
proof -
  let ?b = "graph_source a" and ?t = "ranked_rows (graph_ranked a)"
  let ?f = "\<lambda>x :: query_entry. n - edge_rank ?b ! fst x"
  have h: "hierarchy n ?b ups downs" and rows: "ranked_rows (graph_ranked a) = ranked_topology_build ?b" using ok by (simp_all add: accelerated_def)
  obtain e z c rest where pop: "queue_pop (snd s) = Some ((e, z, c), rest)" using step
    by (auto simp: backward_step_def split: option.splits)
  note p = queue_pop_Some[OF pop]
  have "\<forall>x\<in>set (snd s). fst x < n \<and> fst x \<in> dom (fst s)" using inv by (simp add: backward_inv_def)
  from bspec[OF this p(1)] have e: "e < n" "e \<in> dom (fst s)" by simp_all
  then obtain known where known: "fst s e = Some known" by blast
  have ms: "mset (snd s) = mset rest + {#(e, z, c)#}" using p(1,5) by simp
  have base: "backward_inv n ?b w downs S {e} (fst s, rest)"
    using inv p(2) p(3) unfolding backward_inv_def by (simp add: subset_iff) blast
  show thesis
  proof (cases "known < Cost c")
    case True
    have "backward_inv n ?b w downs S {} (fst s, rest)"
    proof -
      have "(e, 0, d) \<in> set rest \<or> relaxed_into ?b w downs (fst s) e (Cost d)" if "backward_at (fst s) e = Cost d" for d
      proof -
        have "(e, 0, d) \<noteq> (e, z, c)" using that known True by (auto simp: backward_at_def)
        then show ?thesis using inv p(3)[of "(e, 0, d)"] that unfolding backward_inv_def by auto
      qed
      then show ?thesis using base unfolding backward_inv_def by (metis fst_conv snd_conv singletonD)
    qed
    moreover have "r = Inr (fst s, rest)" using step pop known True by (simp add: backward_step_def)
    moreover have "(image_mset ?f (mset rest), image_mset ?f (mset (snd s))) \<in> mult less_than"
      unfolding ms using one_step_implies_mult[of "{#?f (e, z, c)#}" "{#}" less_than "image_mset ?f (mset rest)"] by simp
    ultimately show thesis using that by simp
  next
    case False
    let ?r = "edge_rank ?b ! e"
    let ?qs = "[down_first ?t ! ?r ..< down_first ?t ! (?r + 1)]"
    let ?s = "foldl (relax_backward a w c) (fst s, rest) ?qs"
    note o = hierarchy_order[OF h]
    have r: "?r < n" "edge_order ?b ! ?r = e" using o(4,5) e(1) by simp_all
    note f = relax_backward_row[OF ok r(1) order_refl base, of c, unfolded r(2)]
    have "relaxed_into ?b w downs (fst ?s) e (Cost d)" if "backward_at (fst ?s) e = Cost d" for d
      unfolding relaxed_into_def
    proof (intro allI impI)
      fix x assume "(x, e) \<in> set downs"
      then obtain ia where ia: "ia < length downs" "downs ! ia = (x, e)" by (auto simp: in_set_conv_nth)
      then have "ia \<in> (\<lambda>q. downward_slots ?b ! q) ` set ?qs" using ranked_positions(1)[OF h rows r(1)] r(2) by simp
      then obtain q where q: "q \<in> set ?qs" "downward_slots ?b ! q = ia" by blast
      then have "edge_order ?b ! (down_tails ?t ! q) = x" using ranked_positions(2)[OF h rows r(1) q(1)] ia r(2) by simp
      then have "backward_at (fst ?s) x \<le> bound_at ?b w x e + Cost c" using f q(1) unfolding Let_def by blast
      moreover have "Cost c \<le> Cost d" using that f known False by (simp add: backward_at_def not_less)
      ultimately show "backward_at (fst ?s) x \<le> bound_at ?b w x e + Cost d"
        by (meson add_left_mono order_trans)
    qed
    then have "backward_inv n ?b w downs S {} ?s" using f unfolding backward_inv_def by (metis singletonD)
    moreover have "r = Inr ?s" using step pop known False by (simp add: backward_step_def Let_def)
    moreover have "(image_mset ?f (mset (snd ?s)), image_mset ?f (mset (snd s))) \<in> mult less_than"
    proof -
      obtain new where new: "mset (snd ?s) = mset rest + new" "\<forall>x\<in>#new. (fst x, e) \<in> set downs" using f by auto
      have "n - edge_rank ?b ! x < n - ?r" if "(x, e) \<in> set downs" for x
        using hierarchyD(5)[OF h that] r(1) by (auto intro: diff_less_mono2)
      then have "\<forall>k\<in>#image_mset ?f new. k < n - ?r" using new(2) by auto
      then have "(image_mset ?f (mset rest) + image_mset ?f new, image_mset ?f (mset rest) + {#n - ?r#}) \<in> mult less_than"
        by (intro one_step_implies_mult) auto
      then show ?thesis unfolding ms new(1) by simp
    qed
    ultimately show thesis using that by blast
  qed
qed

lemma search_backward_complete:
  assumes ok: "accelerated n a ups downs w" and seeds: "\<forall>(e, c)\<in>set seeds. e < n"
  obtains B where "search_backward a w seeds = Some (Inr B)" "\<forall>(e, c)\<in>set seeds. backward_at B e \<le> c"
    "\<forall>(x, y)\<in>set downs. backward_at B x \<le> bound_at (graph_source a) w x y + backward_at B y"
proof -
  let ?b = "graph_source a" and ?f = "\<lambda>x :: query_entry. n - edge_rank (graph_source a) ! fst x"
  have start: "backward_inv n ?b w downs (set ts) {} (foldl (\<lambda>s (e, c). improve_backward e c s) ((\<lambda>_. None), []) ts)"
    if "set ts \<subseteq> set seeds" for ts
    using that
  proof (induction ts rule: rev_induct)
    case Nil
    then show ?case by (simp add: backward_inv_def backward_at_def)
  next
    case (snoc t ts)
    let ?s = "foldl (\<lambda>s (e, c). improve_backward e c s) ((\<lambda>_. None), []) ts"
    obtain e c where t: "t = (e, c)" by (cases t)
    have "backward_inv n ?b w downs (insert (e, c) (set ts)) {} (improve_backward e c ?s)"
      by (rule improve_backward_inv) (use snoc seeds t in auto)
    then show ?case using t by simp
  qed
  have "\<exists>B. backward_loop a w s = Some (Inr B) \<and> backward_inv n ?b w downs S {} (B, []) " if "backward_inv n ?b w downs S {} s" for s S
    using that
  proof (induction "image_mset ?f (mset (snd s))" arbitrary: s rule: wf_induct_rule[OF wf_mult[OF wf_less_than]])
    case 1
    show ?case
    proof (cases "backward_step a w s")
      case None
      then have "snd s = []" by (auto simp: backward_step_def queue_pop_def Let_def split: option.splits list.splits prod.splits if_splits)
      then show ?thesis using None "1.prems" by (cases s) (simp add: backward_loop.simps[of a w])
    next
      case (Some r)
      from backward_step_inv[OF ok "1.prems" Some] obtain s' where s': "r = Inr s'" "backward_inv n ?b w downs S {} s'"
        "(image_mset ?f (mset (snd s')), image_mset ?f (mset (snd s))) \<in> mult less_than" .
      from "1.hyps"[OF s'(3,2)] show ?thesis using Some s'(1) by (simp add: backward_loop.simps[of a w s])
    qed
  qed
  from this[OF start[OF order_refl]] have "\<exists>B. search_backward a w seeds = Some (Inr B) \<and> backward_inv n ?b w downs (set seeds) {} (B, [])"
    by (simp add: search_backward_def)
  then obtain B where B: "search_backward a w seeds = Some (Inr B)" "backward_inv n ?b w downs (set seeds) {} (B, [])" by blast
  have "backward_at B x \<le> bound_at ?b w x y + backward_at B y" if "(x, y) \<in> set downs" for x y
  proof (cases "backward_at B y")
    case (Cost c)
    then show ?thesis using B(2) that unfolding backward_inv_def relaxed_into_def by auto
  qed simp
  moreover have "\<forall>p\<in>set seeds. backward_at B (fst p) \<le> snd p" using B(2) by (simp add: backward_inv_def)
  ultimately show thesis by (intro that[OF B(1)]) auto
qed

section \<open>Distances over upward arcs\<close>

text \<open>The distance the memo table holds: to a destination seed over upward arcs, then over the
  complete backward search. Fuel bounds the number of upward arcs.\<close>

fun remaining :: "nat \<Rightarrow> acceleration_bundle \<Rightarrow> metric_weights \<Rightarrow> (nat \<rightharpoonup> cost) \<Rightarrow> nat \<Rightarrow> cost" where
  "remaining 0 b w B x = backward_at B x"
| "remaining (Suc k) b w B x = foldl min (backward_at B x)
     (map (\<lambda>slot. decoded (up_weights w ! slot) + remaining k b w B (upward_head b ! slot)) (up_slots b w x))"

lemma up_slot_arc:
  assumes h: "hierarchy n b ups downs" and x: "x < n" and s: "s \<in> set (up_slots b w x)"
  shows "s < length ups" "ups ! s = (x, upward_head b ! s)" "upward_head b ! s < n" "edge_rank b ! x < edge_rank b ! (upward_head b ! s)"
    "decoded (up_weights w ! s) = bound_at b w x (upward_head b ! s)"
proof -
  have "s \<in> set [upward_first_out b ! x ..< upward_first_out b ! (x + 1)]" using s by (simp add: up_slots_def)
  then have "s < length ups \<and> fst (ups ! s) = x"
    using csr_range[OF sorted_arcs_fst[OF hierarchyD(2)[OF h]] x] h by (auto simp: hierarchy_def)
  moreover from this have "snd (ups ! s) = upward_head b ! s" using h by (simp add: hierarchy_def)
  ultimately show l: "s < length ups" "ups ! s = (x, upward_head b ! s)" by (auto simp: prod_eq_iff)
  then show "upward_head b ! s < n" "edge_rank b ! x < edge_rank b ! (upward_head b ! s)"
    using hierarchyD(4)[OF h] nth_mem[OF l(1)] by metis+
  show "decoded (up_weights w ! s) = bound_at b w x (upward_head b ! s)" using arc_weight_at(1)[OF h l] by (simp add: bound_at_def)
qed

lemma up_slot_of:
  assumes h: "hierarchy n b ups downs" and m: "(x, y) \<in> set ups"
  shows "bound_at b w x y = Infinite \<or> (\<exists>s\<in>set (up_slots b w x). upward_head b ! s = y)"
proof -
  obtain s where s: "s < length ups" "ups ! s = (x, y)" using m by (auto simp: in_set_conv_nth)
  have x: "x < n" using hierarchyD(4)[OF h m] by simp
  have hd: "upward_head b ! s = y" using s h by (simp add: hierarchy_def)
  have r: "s \<in> set [upward_first_out b ! x ..< upward_first_out b ! (x + 1)]"
    using csr_range[OF sorted_arcs_fst[OF hierarchyD(2)[OF h]] x] h s by (auto simp: hierarchy_def)
  show ?thesis
  proof (cases "up_weights w ! s = CCH_WEIGHT_INFINITY")
    case True
    then show ?thesis using arc_weight_at(1)[OF h s]
      by (simp add: bound_at_def decoded_uint CCH_WEIGHT_INFINITY_def CCH_WEIGHT_OVERFLOW_def)
  next
    case False
    then show ?thesis using r hd by (auto simp: up_slots_def)
  qed
qed

lemma remaining_stable:
  assumes h: "hierarchy n b ups downs"
  shows "x < n \<Longrightarrow> n - edge_rank b ! x \<le> k \<Longrightarrow> remaining (Suc k) b w B x = remaining k b w B x"
proof (induction k arbitrary: x)
  case 0
  then show ?case using hierarchy_order(4)[OF h, of x] by simp
next
  case (Suc k)
  have "remaining (Suc k) b w B (upward_head b ! s) = remaining k b w B (upward_head b ! s)" if s: "s \<in> set (up_slots b w x)" for s
    using up_slot_arc(3,4)[OF h Suc.prems(1) s] Suc.prems(2) by (intro Suc.IH) auto
  then show ?case by (simp only: remaining.simps(2) cong: map_cong)
qed

lemma remaining_enough:
  assumes h: "hierarchy n b ups downs" and x: "x < n"
  shows "n - edge_rank b ! x \<le> k \<Longrightarrow> k \<le> l \<Longrightarrow> remaining l b w B x = remaining k b w B x"
proof (induction l)
  case (Suc l)
  show ?case
  proof (cases "k = Suc l")
    case False
    then show ?thesis using Suc remaining_stable[OF h x, of l w B] by simp
  qed simp
qed simp

lemma remaining_unfold:
  assumes h: "hierarchy n b ups downs" and x: "x < n"
  shows "remaining n b w B x = foldl min (backward_at B x)
     (map (\<lambda>slot. decoded (up_weights w ! slot) + remaining n b w B (upward_head b ! slot)) (up_slots b w x))"
  using remaining_stable[OF h x, of n w B] by simp

lemma foldl_min_cost:
  fixes x :: cost
  shows "foldl min x ys \<le> x" "y \<in> set ys \<Longrightarrow> foldl min x ys \<le> y" "foldl min x ys = x \<or> foldl min x ys \<in> set ys"
proof -
  have "foldl min x ys \<le> x \<and> (\<forall>y\<in>set ys. foldl min x ys \<le> y) \<and> (foldl min x ys = x \<or> foldl min x ys \<in> set ys)"
  proof (induction ys arbitrary: x)
    case (Cons y ys)
    have "foldl min (min x y) ys \<le> min x y" using Cons.IH[of "min x y"] by blast
    then show ?case using Cons.IH[of "min x y"] by (auto simp: min_def split: if_splits)
  qed simp
  then show "foldl min x ys \<le> x" "y \<in> set ys \<Longrightarrow> foldl min x ys \<le> y" "foldl min x ys = x \<or> foldl min x ys \<in> set ys" by blast+
qed

lemma remaining_up:
  assumes h: "hierarchy n b ups downs" and x: "x < n"
  shows "remaining n b w B x \<le> backward_at B x"
    "(x, y) \<in> set ups \<Longrightarrow> remaining n b w B x \<le> bound_at b w x y + remaining n b w B y"
    "remaining n b w B x = backward_at B x
      \<or> (\<exists>y. (x, y) \<in> set ups \<and> remaining n b w B x = bound_at b w x y + remaining n b w B y)"
proof -
  note u = remaining_unfold[OF h x, of w B]
  show "remaining n b w B x \<le> backward_at B x" unfolding u by (rule foldl_min_cost(1))
  show "remaining n b w B x \<le> bound_at b w x y + remaining n b w B y" if m: "(x, y) \<in> set ups"
  proof -
    consider "bound_at b w x y = Infinite" | s where "s \<in> set (up_slots b w x)" "upward_head b ! s = y"
      using up_slot_of[OF h m] by blast
    then show ?thesis
    proof cases
      case (2 s)
      then show ?thesis unfolding u using up_slot_arc(5)[OF h x 2(1)] by (intro foldl_min_cost(2)) force
    qed simp
  qed
  from foldl_min_cost(3) have "remaining n b w B x = backward_at B x \<or> remaining n b w B x
      \<in> set (map (\<lambda>slot. decoded (up_weights w ! slot) + remaining n b w B (upward_head b ! slot)) (up_slots b w x))"
    unfolding u .
  moreover have "\<exists>y. (x, y) \<in> set ups \<and> decoded (up_weights w ! s) + remaining n b w B (upward_head b ! s) = bound_at b w x y + remaining n b w B y"
    if "s \<in> set (up_slots b w x)" for s
    using up_slot_arc[OF h x that] nth_mem[of s ups] by metis
  ultimately show "remaining n b w B x = backward_at B x
      \<or> (\<exists>y. (x, y) \<in> set ups \<and> remaining n b w B x = bound_at b w x y + remaining n b w B y)"
    by (auto simp del: remaining.simps)
qed

section \<open>Consistency\<close>

lemma bound_at_nonneg: "Cost 0 \<le> bound_at b w x y"
proof -
  have "(0 :: rat) \<le> of_int (uint (arc_weight b w x y)) / 1024" by (intro divide_nonneg_nonneg of_int_nonneg) simp_all
  then show ?thesis by (simp only: bound_at_def decoded_uint cost_order_simps split: if_split) simp
qed

lemma remaining_consistent:
  assumes h: "hierarchy n b ups downs" and lb: "lower_bounds_ok g b ups downs w" and n: "n = length (edge_costs g)"
    and B: "\<forall>(x, y)\<in>set downs. backward_at B x \<le> bound_at b w x y + backward_at B y"
  shows "x < n \<Longrightarrow> y < n \<Longrightarrow> x \<noteq> y \<Longrightarrow> remaining n b w B x \<le> bound_at b w x y + remaining n b w B y"
proof (induction "n - edge_rank b ! y" arbitrary: y rule: less_induct)
  case less
  let ?P = "remaining n b w B"
  note px = remaining_up[OF h less.prems(1), where w = w and B = B] and py = remaining_up[OF h less.prems(2), where w = w and B = B]
  consider "(x, y) \<in> set ups" | "(x, y) \<in> set downs" | "bound_at b w x y = Infinite"
    using lb unfolding lower_bounds_ok_def by blast
  then show ?case
  proof cases
    case 1
    then show ?thesis by (rule px(2))
  next
    case 2
    from py(3) show ?thesis
    proof (elim disjE exE conjE)
      assume e: "?P y = backward_at B y"
      have "?P x \<le> backward_at B x" by (rule px(1))
      also have "\<dots> \<le> bound_at b w x y + backward_at B y" using B 2 by auto
      finally show ?thesis using e by simp
    next
      fix z assume z: "(y, z) \<in> set ups" "?P y = bound_at b w y z + ?P z"
      have r: "z < n" "edge_rank b ! y < edge_rank b ! z" "edge_rank b ! y < edge_rank b ! x"
        using hierarchyD(4)[OF h z(1)] hierarchyD(5)[OF h 2] by simp_all
      show ?thesis
      proof (cases "x = z")
        case True
        have "Cost 0 + (Cost 0 + ?P x) \<le> bound_at b w x y + (bound_at b w y z + ?P x)"
          by (intro add_mono bound_at_nonneg order_refl)
        then show ?thesis using z(2) True by simp
      next
        case False
        have "n - edge_rank b ! z < n - edge_rank b ! y" using r hierarchy_order(4)[OF h, of z] by (intro diff_less_mono2) auto
        then have "?P x \<le> bound_at b w x z + ?P z" by (rule less.hyps[OF _ less.prems(1) r(1) False])
        also have "\<dots> \<le> (bound_at b w x y + bound_at b w y z) + ?P z"
          using lb less.prems r False n unfolding lower_bounds_ok_def by (blast intro: add_right_mono)
        finally show ?thesis using z(2) by (simp add: add.assoc)
      qed
    qed
  qed simp
qed

section \<open>The memo table\<close>

definition memo_ok :: "nat \<Rightarrow> acceleration_bundle \<Rightarrow> metric_weights \<Rightarrow> (nat \<rightharpoonup> cost) \<Rightarrow> memo \<Rightarrow> bool" where
  "memo_ok n b w B mm \<longleftrightarrow> (\<forall>x v. mm x = Some v \<longrightarrow> v = remaining n b w B x)"

text \<open>The entries above any stack are evaluated before it is looked at again.\<close>

lemma potential_loop_evaluates:
  assumes h: "hierarchy n b ups downs"
  shows "x < n \<Longrightarrow> memo_ok n b w B mm \<Longrightarrow> \<exists>mm'. potential_loop b w B (mm, x # rest) = potential_loop b w B (mm', rest)
    \<and> memo_ok n b w B mm' \<and> mm \<subseteq>\<^sub>m mm' \<and> mm' x \<noteq> None"
proof (induction "n - edge_rank b ! x" arbitrary: x mm rest rule: less_induct)
  case less
  let ?slots = "up_slots b w x"
  let ?heads = "map (\<lambda>s. upward_head b ! s) ?slots"
  have known: "potential_loop b w B (mm', x # rest) = potential_loop b w B (mm', rest)" if "mm' x \<noteq> None" for mm'
    using that by (subst potential_loop.simps) (simp add: potential_step_def)
  have ready: "\<exists>mm'. potential_loop b w B (mm0, x # rest) = potential_loop b w B (mm', rest)
      \<and> memo_ok n b w B mm' \<and> mm0 \<subseteq>\<^sub>m mm' \<and> mm' x \<noteq> None"
    if ok: "memo_ok n b w B mm0" and heads: "\<forall>y\<in>set ?heads. mm0 y \<noteq> None" for mm0
  proof (cases "mm0 x")
    case None
    let ?best = "foldl min (backward_at B x) (map (\<lambda>slot. decoded (up_weights w ! slot) + the (mm0 (upward_head b ! slot))) ?slots)"
    have "the (mm0 (upward_head b ! s)) = remaining n b w B (upward_head b ! s)" if "s \<in> set ?slots" for s
      using heads ok that by (auto simp: memo_ok_def)
    then have "?best = remaining n b w B x" unfolding remaining_unfold[OF h less.prems(1)] by (simp cong: map_cong)
    moreover have "filter (\<lambda>y. mm0 y = None) ?heads = []" using heads by (simp add: filter_empty_conv)
    then have "potential_loop b w B (mm0, x # rest) = potential_loop b w B (mm0(x \<mapsto> ?best), rest)"
      by (subst potential_loop.simps) (simp add: potential_step_def None)
    ultimately show ?thesis using ok None by (intro exI[of _ "mm0(x \<mapsto> ?best)"]) (auto simp: memo_ok_def map_le_def)
  next
    case (Some v)
    then show ?thesis using known[of mm0] ok by auto
  qed
  show ?case
  proof (cases "mm x \<noteq> None \<or> (\<forall>y\<in>set ?heads. mm y \<noteq> None)")
    case True
    then show ?thesis using known[of mm] ready[of mm] less.prems(2) by auto
  next
    case False
    let ?missing = "filter (\<lambda>y. mm y = None) ?heads"
    have ne: "?missing \<noteq> []" using False by (auto simp: filter_empty_conv)
    have step: "potential_loop b w B (mm, x # rest) = potential_loop b w B (mm, rev ?missing @ x # rest)"
      using False ne by (subst potential_loop.simps) (simp add: potential_step_def Let_def)
    have above: "\<exists>mm'. potential_loop b w B (mm, ys @ x # rest) = potential_loop b w B (mm', x # rest)
        \<and> memo_ok n b w B mm' \<and> mm \<subseteq>\<^sub>m mm' \<and> (\<forall>y\<in>set ys. mm' y \<noteq> None)"
      if "set ys \<subseteq> set ?heads" "memo_ok n b w B mm" for ys mm
      using that
    proof (induction ys arbitrary: mm)
      case (Cons y ys)
      obtain s where s: "s \<in> set ?slots" "y = upward_head b ! s" using Cons.prems(1) by auto
      note u = up_slot_arc(3,4)[OF h less.prems(1) s(1), folded s(2)]
      have "n - edge_rank b ! y < n - edge_rank b ! x" using u hierarchy_order(4)[OF h, of y] by (intro diff_less_mono2) auto
      from less.hyps[OF this u(1) Cons.prems(2)] obtain m1 where m1: "potential_loop b w B (mm, y # ys @ x # rest) = potential_loop b w B (m1, ys @ x # rest)"
        "memo_ok n b w B m1" "mm \<subseteq>\<^sub>m m1" "m1 y \<noteq> None" by blast
      obtain m2 where m2: "potential_loop b w B (m1, ys @ x # rest) = potential_loop b w B (m2, x # rest)"
        "memo_ok n b w B m2" "m1 \<subseteq>\<^sub>m m2" "\<forall>y\<in>set ys. m2 y \<noteq> None" using Cons.IH[of m1] Cons.prems(1) m1(2) by auto
      have "m2 y \<noteq> None" using m1(4) m2(3) by (metis domIff map_le_def)
      then show ?case using m1 m2 map_le_trans[OF m1(3) m2(3)] by auto
    qed auto
    obtain m1 where m1: "potential_loop b w B (mm, rev ?missing @ x # rest) = potential_loop b w B (m1, x # rest)"
      "memo_ok n b w B m1" "mm \<subseteq>\<^sub>m m1" "\<forall>y\<in>set (rev ?missing). m1 y \<noteq> None"
      using above[of "rev ?missing" mm] less.prems(2) by auto
    have "m1 y \<noteq> None" if "y \<in> set ?heads" for y
    proof (cases "mm y = None")
      case True
      then show ?thesis using m1(4) that by auto
    next
      case False
      then show ?thesis using m1(3) by (metis domIff map_le_def)
    qed
    then obtain m2 where m2: "potential_loop b w B (m1, x # rest) = potential_loop b w B (m2, rest)"
      "memo_ok n b w B m2" "m1 \<subseteq>\<^sub>m m2" "m2 x \<noteq> None" using ready[OF m1(2)] by blast
    show ?thesis using step m1(1) m2 map_le_trans[OF m1(3) m2(3)] by auto
  qed
qed

lemma potential_evaluates:
  assumes h: "hierarchy n b ups downs" and x: "x < n" and ok: "memo_ok n b w B mm"
  obtains mm' where "potential b w B mm x = Some (remaining n b w B x, mm')" "memo_ok n b w B mm'"
proof (cases "mm x")
  case None
  obtain mm' where m: "potential_loop b w B (mm, [x]) = potential_loop b w B (mm', [])" "memo_ok n b w B mm'" "mm' x \<noteq> None"
    using potential_loop_evaluates[OF h x ok, of "[]"] by blast
  have "potential_loop b w B (mm', []) = Some mm'" by (subst potential_loop.simps) (simp add: potential_step_def)
  then have "potential b w B mm x = Some (remaining n b w B x, mm')" using m None by (auto simp: potential_def memo_ok_def)
  then show thesis using that m(2) by blast
next
  case (Some v)
  then have "potential b w B mm x = Some (remaining n b w B x, mm)" using ok by (simp add: potential_def memo_ok_def)
  then show thesis using that ok by blast
qed

end
