(* ===== verification/Restricted_Astar.thy ===== *)
theory Restricted_Astar
  imports Potentials
begin

text \<open>
  The restriction-aware A* search (\<open>restricted_astar_route\<close> in
  \<open>crates/query/src/engine/restricted_astar.rs\<close>) and the dispatch between it and the Dijkstra search
  (\<open>restricted_route_between_edge_seeds\<close> in \<open>fallback.rs\<close>). A queue entry carries an edge, an automaton
  state, its cost and its score; the binary heap is a bag popped in the order of \<open>State\<close>.
\<close>

section \<open>State\<close>

type_synonym astar_entry = "nat \<times> nat \<times> rat \<times> rat"

record astar_scratch =
  backward_costs :: "nat \<rightharpoonup> cost"
  potential_memo :: memo
  astar_dist :: "search_key \<rightharpoonup> rat"
  astar_previous :: "search_key \<rightharpoonup> search_key option"
  astar_heap :: "astar_entry list"

text \<open>The lowest score, then the highest cost, edge and automaton state.\<close>

definition astar_before :: "astar_entry \<Rightarrow> astar_entry \<Rightarrow> bool" where
  "astar_before = (\<lambda>(e, st, c, z) (e', st', c', z').
     z < z' \<or> z = z' \<and> (c' < c \<or> c = c' \<and> (e' < e \<or> e = e' \<and> st' < st)))"

definition astar_pop :: "astar_entry list \<Rightarrow> (astar_entry \<times> astar_entry list) option" where
  "astar_pop q = (case q of [] \<Rightarrow> None
     | x # xs \<Rightarrow> (let y = foldl (\<lambda>b e. if astar_before e b then e else b) x xs in Some (y, remove1 y q)))"

definition astar_insert :: "search_key \<Rightarrow> rat \<Rightarrow> rat \<Rightarrow> search_key option \<Rightarrow> astar_scratch \<Rightarrow> astar_scratch" where
  "astar_insert k x p prev s = s\<lparr>astar_dist := (astar_dist s)(k \<mapsto> x), astar_previous := (astar_previous s)(k \<mapsto> prev),
     astar_heap := (fst k, snd k, x, x + p) # astar_heap s\<rparr>"

section \<open>The search\<close>

definition astar_potential :: "acceleration_graph \<Rightarrow> metric_weights \<Rightarrow> nat \<Rightarrow> astar_scratch \<Rightarrow> (cost \<times> astar_scratch) option" where
  "astar_potential a w e s = (case potential (graph_source a) w (backward_costs s) (potential_memo s) e of
       None \<Rightarrow> None | Some (p, mm) \<Rightarrow> Some (p, s\<lparr>potential_memo := mm\<rparr>))"

definition astar_seed :: "acceleration_graph \<Rightarrow> metric_weights \<Rightarrow> movement_metrics \<Rightarrow> routing_graph \<Rightarrow> fallback_policy \<Rightarrow>
    astar_scratch \<Rightarrow> nat \<times> cost \<Rightarrow> astar_scratch option" where
  "astar_seed a w m g fb s = (\<lambda>(e, c).
     let c = c + Cost (snd (edge_failure_mode_penalty m g fb e))
     in case astar_potential a w e s of
          None \<Rightarrow> None
        | Some (pot, s) \<Rightarrow>
            (case (c, pot) of
               (Cost x, Cost p) \<Rightarrow>
                 let k = (e, transition (automaton g) 0 e)
                 in if \<exists>known\<in>set_option (astar_dist s k). known \<le> x then Some s else Some (astar_insert k x p None s)
             | _ \<Rightarrow> Some s))"

definition astar_relax :: "acceleration_graph \<Rightarrow> metric_weights \<Rightarrow> movement_metrics \<Rightarrow> routing_graph \<Rightarrow> fallback_policy \<Rightarrow>
    search_key \<Rightarrow> rat \<Rightarrow> astar_scratch \<Rightarrow> nat \<Rightarrow> astar_scratch option" where
  "astar_relax a w m g fb k c s i =
     (let next_edge = transition_edges g ! i
      in case transition_failure_mode_penalty m g fb (snd k) (fst k) next_edge of
           None \<Rightarrow> Some s
         | Some (_, penalty_cost) \<Rightarrow>
             (let next_cost = Cost c + transition_costs g ! i + Cost penalty_cost;
                  next_key = (next_edge, transition (automaton g) (snd k) next_edge);
                  known = (case astar_dist s next_key of None \<Rightarrow> Infinite | Some d \<Rightarrow> Cost d)
              in if known \<le> next_cost + Cost EPSILON then Some s
                 else (case astar_potential a w next_edge s of
                     None \<Rightarrow> None
                   | Some (pot, s) \<Rightarrow>
                       (case (next_cost, pot) of
                          (Cost x, Cost p) \<Rightarrow> Some (astar_insert next_key x p (Some k) s)
                        | _ \<Rightarrow> Some s))))"

type_synonym astar_progress = "astar_scratch \<times> cost \<times> search_key option"

definition astar_active :: "astar_progress \<Rightarrow> bool" where
  "astar_active = (\<lambda>(s, best, _). case astar_pop (astar_heap s) of
     None \<Rightarrow> False | Some ((_, _, _, score), _) \<Rightarrow> Cost score < best)"

text \<open>The body of the loop; \<open>None\<close> is a potential that is not returned.\<close>

definition astar_step :: "acceleration_graph \<Rightarrow> metric_weights \<Rightarrow> movement_metrics \<Rightarrow> routing_graph \<Rightarrow> fallback_policy \<Rightarrow>
    (nat \<times> cost) list \<Rightarrow> astar_progress \<Rightarrow> (search_error + astar_progress) option" where
  "astar_step a w m g fb adj = (\<lambda>(s, best, b). case astar_pop (astar_heap s) of
       None \<Rightarrow> Some (Inl Panicked)
     | Some ((e, st, c, _), rest) \<Rightarrow>
         (let s = s\<lparr>astar_heap := rest\<rparr>; k = (e, st)
          in case astar_dist s k of
               None \<Rightarrow> Some (Inl Panicked)
             | Some known \<Rightarrow>
                 if known < c then Some (Inr (s, best, b))
                 else let best' = (case map_of adj e of
                           None \<Rightarrow> (best, b)
                         | Some x \<Rightarrow> if Cost c + x < best then (Cost c + x, Some k) else (best, b))
                   in (case try_fold (astar_relax a w m g fb k c) s (transition_range g e) of
                         None \<Rightarrow> None | Some s' \<Rightarrow> Some (Inr (s', best')))))"

partial_function (option) astar_loop :: "acceleration_graph \<Rightarrow> metric_weights \<Rightarrow> movement_metrics \<Rightarrow> routing_graph \<Rightarrow> fallback_policy \<Rightarrow>
    (nat \<times> cost) list \<Rightarrow> astar_progress \<Rightarrow> (search_error + astar_progress) option" where
  "astar_loop a w m g fb adj q =
     (if \<not> astar_active q then Some (Inr q)
      else case astar_step a w m g fb adj q of
        None \<Rightarrow> None
      | Some (Inl err) \<Rightarrow> Some (Inl err)
      | Some (Inr q') \<Rightarrow> astar_loop a w m g fb adj q')"

text \<open>The scratch space is cleared before every search.\<close>

definition clear_astar :: "(nat \<rightharpoonup> cost) \<Rightarrow> astar_scratch" where
  "clear_astar B = \<lparr>backward_costs = B, potential_memo = (\<lambda>_. None), astar_dist = (\<lambda>_. None),
     astar_previous = (\<lambda>_. None), astar_heap = []\<rparr>"

definition finish_astar :: "route_path option \<Rightarrow> astar_progress \<Rightarrow> (search_error + route_path option) option" where
  "finish_astar initial = (\<lambda>(s, best, b). case b of
       None \<Rightarrow> Some (Inr initial)
     | Some k \<Rightarrow> (case reconstruct (astar_previous s) k [] of
           None \<Rightarrow> None
         | Some (Inl err) \<Rightarrow> Some (Inl err)
         | Some (Inr es) \<Rightarrow> Some (Inr (Some \<lparr>edge_indexes = es, total_generalized_cost = best\<rparr>))))"

definition restricted_astar_route :: "movement_metrics \<Rightarrow> routing_graph \<Rightarrow> metric_weights \<Rightarrow> (nat \<times> cost) list \<Rightarrow> (nat \<times> cost) list \<Rightarrow>
    route_path option \<Rightarrow> fallback_policy \<Rightarrow> (search_error + route_path option) option" where
  "restricted_astar_route m g w origin destination initial fb = (case graph_acceleration g of
       None \<Rightarrow> Some (Inl Panicked)
     | Some a \<Rightarrow>
         (case search_backward a w destination of
            None \<Rightarrow> None
          | Some (Inl err) \<Rightarrow> Some (Inl err)
          | Some (Inr B) \<Rightarrow>
              (case try_fold (astar_seed a w m g fb) (clear_astar B) origin of
                 None \<Rightarrow> None
               | Some s \<Rightarrow>
                   (case astar_loop a w m g fb (destination_adjustments destination) (s, answer_cost initial, None) of
                      None \<Rightarrow> None
                    | Some (Inl err) \<Rightarrow> Some (Inl err)
                    | Some (Inr q) \<Rightarrow> finish_astar initial q))))"

definition restricted_route_between_edge_seeds :: "movement_metrics \<Rightarrow> routing_graph \<Rightarrow> (nat \<times> cost) list \<Rightarrow> (nat \<times> cost) list \<Rightarrow>
    route_path option \<Rightarrow> fallback_policy \<Rightarrow> restricted_search \<Rightarrow> (search_error + route_path option) option" where
  "restricted_route_between_edge_seeds m g origin destination initial fb s =
     (case (if has_failure_modes fb then None else lower_bound_weights g) of
        Some w \<Rightarrow> restricted_astar_route m g w origin destination initial fb
      | None \<Rightarrow> map_option (map_sum id snd) (dijkstra_between_edge_seeds_with_failure_modes m g fb origin destination initial s))"

section \<open>The queue\<close>

definition entry_of :: "astar_entry \<Rightarrow> query_entry" where
  "entry_of = (\<lambda>(e, st, c, _). (e, st, c))"

definition score_of :: "astar_entry \<Rightarrow> rat" where
  "score_of = (\<lambda>(_, _, _, z). z)"

lemma astar_pop_Some:
  assumes "astar_pop q = Some (y, rest)"
  shows "y \<in> set q" "rest = remove1 y q" "\<forall>x\<in>set q. score_of y \<le> score_of x"
proof -
  obtain x xs where q: "q = x # xs" "y = foldl (\<lambda>b e. if astar_before e b then e else b) x xs" "rest = remove1 y q"
    using assms by (cases q) (auto simp: astar_pop_def Let_def)
  have "foldl (\<lambda>b e. if astar_before e b then e else b) x xs \<in> insert x (set xs)
      \<and> (\<forall>e\<in>insert x (set xs). score_of (foldl (\<lambda>b e. if astar_before e b then e else b) x xs) \<le> score_of e)" for x xs
  proof (induction xs arbitrary: x)
    case (Cons e xs)
    have "score_of e \<le> score_of x" if "astar_before e x" using that by (auto simp: astar_before_def score_of_def split: prod.splits)
    moreover have "score_of x \<le> score_of e" if "\<not> astar_before e x" using that by (auto simp: astar_before_def score_of_def split: prod.splits)
    ultimately show ?case using Cons.IH[of "if astar_before e x then e else x"] by (auto split: if_splits)
  qed simp
  from this[of x xs] show "y \<in> set q" "rest = remove1 y q" "\<forall>x\<in>set q. score_of y \<le> score_of x" using q by simp_all
qed

lemma map_remove1_distinct: "distinct (map f xs) \<Longrightarrow> x \<in> set xs \<Longrightarrow> map f (remove1 x xs) = remove1 (f x) (map f xs)"
  by (induction xs) (auto, metis imageI)

definition scored :: "(nat \<Rightarrow> cost) \<Rightarrow> astar_entry list \<Rightarrow> bool" where
  "scored pot q \<longleftrightarrow> (\<forall>x\<in>set q. Cost (score_of x) = Cost (snd (snd (entry_of x))) + pot (fst x))"

lemma astar_pop_pops:
  assumes "astar_pop q = Some ((x, y, c, z), rest)" "scored pot q" "distinct (map entry_of q)"
  shows "pops pot (map entry_of q) (x, y, c) (map entry_of rest)" "scored pot rest"
proof -
  note p = astar_pop_Some[OF assms(1)]
  have r: "map entry_of rest = remove1 (x, y, c) (map entry_of q)"
    using map_remove1_distinct[OF assms(3) p(1)] p(2) by (simp add: entry_of_def)
  have s: "Cost (score_of e) = Cost (snd (snd (entry_of e))) + pot (fst e)" if "e \<in> set q" for e
    using assms(2) that by (simp add: scored_def)
  have "Cost c + pot x \<le> Cost c' + pot x'" if m: "(x', y', c') \<in> set (map entry_of q)" for x' y' c'
  proof -
    obtain e where e: "e \<in> set q" "(x', y', c') = entry_of e" using m unfolding set_map by blast
    have "Cost (score_of (x, y, c, z)) \<le> Cost (score_of e)" using p(3) e(1) by simp
    then show ?thesis using s[OF p(1)] s[OF e(1)] e(2) by (cases e) (simp add: entry_of_def)
  qed
  then have "\<forall>e\<in>set (map entry_of q). case e of (x', y', c') \<Rightarrow> Cost c + pot x \<le> Cost c' + pot x'" by fast
  moreover have "(x, y, c) \<in> set (map entry_of q)" using p(1) by (force simp: entry_of_def)
  ultimately show "pops pot (map entry_of q) (x, y, c) (map entry_of rest)" using r unfolding pops_def by simp
  show "scored pot rest" using assms(2) set_remove1_subset[of _ q] unfolding p(2) scored_def by blast
qed

end
