(* ===== verification/Astar_Exact.thy ===== *)
theory Astar_Exact
  imports Restricted_Astar
begin

text \<open>
  The restriction-aware A* search refines the guided search under the memoized potentials, which are
  consistent; so it answers exactly what the Dijkstra search answers.
\<close>

section \<open>Refinement\<close>

text \<open>The guided search an A* search is at; its records of settled edges are not kept.\<close>

definition astar_view :: "astar_scratch \<Rightarrow> restricted_search" where
  "astar_view s = \<lparr>tentative = astar_dist s, previous_key = astar_previous s, settled_edges = (\<lambda>_. None),
     search_heap = map entry_of (astar_heap s)\<rparr>"

definition scratch_ok :: "nat \<Rightarrow> acceleration_bundle \<Rightarrow> metric_weights \<Rightarrow> (nat \<rightharpoonup> cost) \<Rightarrow> astar_scratch \<Rightarrow> bool" where
  "scratch_ok n b w B s \<longleftrightarrow> backward_costs s = B \<and> memo_ok n b w B (potential_memo s) \<and> scored (remaining n b w B) (astar_heap s)"

lemma astar_view_fields [simp]:
  "tentative (astar_view s) = astar_dist s" "previous_key (astar_view s) = astar_previous s"
  "search_heap (astar_view s) = map entry_of (astar_heap s)"
  "astar_view (s\<lparr>potential_memo := mm\<rparr>) = astar_view s"
  "astar_view (s\<lparr>astar_heap := q\<rparr>) = (astar_view s)\<lparr>search_heap := map entry_of q\<rparr>"
  "astar_view (astar_insert k x p prev s) = set_label k x prev (astar_view s)"
  by (simp_all add: astar_view_def astar_insert_def set_label_def entry_of_def)

lemma astar_view_label: "label_of (astar_view s) k = (case astar_dist s k of None \<Rightarrow> Infinite | Some d \<Rightarrow> Cost d)"
  by (simp add: label_of_def)

lemma astar_potential_evaluates:
  assumes h: "hierarchy n (graph_source a) ups downs" and x: "x < n" and ok: "scratch_ok n (graph_source a) w B s"
  obtains s' where "astar_potential a w x s = Some (remaining n (graph_source a) w B x, s')"
    "scratch_ok n (graph_source a) w B s'" "astar_view s' = astar_view s" "astar_dist s' = astar_dist s"
proof -
  have "memo_ok n (graph_source a) w B (potential_memo s)" "backward_costs s = B" using ok by (simp_all add: scratch_ok_def)
  moreover obtain mm where "potential (graph_source a) w B (potential_memo s) x = Some (remaining n (graph_source a) w B x, mm)"
    "memo_ok n (graph_source a) w B mm" using potential_evaluates[OF h x calculation(1)] .
  ultimately have "astar_potential a w x s = Some (remaining n (graph_source a) w B x, s\<lparr>potential_memo := mm\<rparr>)"
    "scratch_ok n (graph_source a) w B (s\<lparr>potential_memo := mm\<rparr>)" using ok by (simp_all add: astar_potential_def scratch_ok_def)
  then show thesis using that by simp
qed

lemma scratch_ok_insert:
  assumes "scratch_ok n b w B s" "remaining n b w B (fst k) = Cost p"
  shows "scratch_ok n b w B (astar_insert k x p prev s)"
  using assms by (simp add: scratch_ok_def scored_def astar_insert_def score_of_def entry_of_def)

lemma astar_relax_offers:
  assumes h: "hierarchy n (graph_source a) ups downs" and ok: "scratch_ok n (graph_source a) w B s"
    and y: "transition_edges g ! i < n"
  obtains s' where "astar_relax a w m g fb k c s i = Some s'" "scratch_ok n (graph_source a) w B s'"
    "astar_view s' = offer_arc m g fb (remaining n (graph_source a) w B) k c (astar_view s) i"
proof (cases "transition_failure_mode_penalty m g fb (snd k) (fst k) (transition_edges g ! i)")
  case None
  then show thesis using that[of s] ok by (simp add: astar_relax_def offer_arc_def key_arc_def Let_def)
next
  case (Some tp)
  let ?y = "transition_edges g ! i" and ?pot = "remaining n (graph_source a) w B"
  let ?j = "(?y, transition (automaton g) (snd k) ?y)"
  obtain t p where tp: "transition_failure_mode_penalty m g fb (snd k) (fst k) ?y = Some (t, p)" using Some by (cases tp) auto
  show thesis
  proof (cases "transition_costs g ! i")
    case Infinite
    then show thesis using that[of s] ok tp by (simp add: astar_relax_def offer_arc_def key_arc_def Let_def)
  next
    case (Cost v)
    let ?x = "c + (v + p)"
    have off: "offer_arc m g fb ?pot k c (astar_view s) i = offer_key ?pot k ?j ?x (astar_view s)"
      using tp Cost by (simp add: offer_arc_def key_arc_def Let_def)
    obtain s1 where s1: "astar_potential a w ?y s = Some (?pot ?y, s1)" "scratch_ok n (graph_source a) w B s1"
      "astar_view s1 = astar_view s" by (rule astar_potential_evaluates[OF h y ok])
    have rel: "astar_relax a w m g fb k c s i = (if label_of (astar_view s) ?j \<le> Cost (?x + EPSILON) then Some s
        else (case ?pot ?y of Infinite \<Rightarrow> Some s1 | Cost q \<Rightarrow> Some (astar_insert ?j ?x q (Some k) s1)))"
      using tp Cost s1(1) by (simp add: astar_relax_def Let_def astar_view_label add.assoc)
    show thesis
    proof (cases "label_of (astar_view s) ?j \<le> Cost (?x + EPSILON)")
      case True
      then have "offer_key ?pot k ?j ?x (astar_view s) = astar_view s" by (auto simp: offer_key_def)
      then show thesis using that[of s] ok rel off True by simp
    next
      case False
      show thesis
      proof (cases "?pot ?y")
        case Infinite
        then show thesis using that[of s1] s1 rel off False by (simp add: offer_key_def)
      next
        case (Cost q)
        then show thesis using that[of "astar_insert ?j ?x q (Some k) s1"] s1 rel off False scratch_ok_insert[OF s1(2), of ?j q]
          by (simp add: offer_key_def not_le)
      qed
    qed
  qed
qed

lemma astar_seed_seeds:
  assumes h: "hierarchy n (graph_source a) ups downs" and ok: "scratch_ok n (graph_source a) w B s" and e: "e < n"
  obtains s' where "astar_seed a w m g fb s (e, c) = Some s'" "scratch_ok n (graph_source a) w B s'"
    "astar_view s' = seed_key (remaining n (graph_source a) w B) m g fb (astar_view s) (e, c)"
proof -
  let ?pot = "remaining n (graph_source a) w B" and ?k = "(e, transition (automaton g) 0 e)"
  obtain s1 where s1: "astar_potential a w e s = Some (?pot e, s1)" "scratch_ok n (graph_source a) w B s1"
    "astar_view s1 = astar_view s" "astar_dist s1 = astar_dist s" by (rule astar_potential_evaluates[OF h e ok])
  have "(\<exists>known\<in>set_option (astar_dist s ?k). known \<le> x) \<longleftrightarrow> label_of (astar_view s) ?k \<le> Cost x" for x
    by (auto simp: astar_view_label split: option.splits)
  then have step: "astar_seed a w m g fb s (e, c) = (case (c + Cost (snd (edge_failure_mode_penalty m g fb e)), ?pot e) of
      (Cost x, Cost p) \<Rightarrow> if label_of (astar_view s) ?k \<le> Cost x then Some s1 else Some (astar_insert ?k x p None s1)
    | _ \<Rightarrow> Some s1)"
    using s1(1,4) by (simp add: astar_seed_def Let_def split: cost.splits)
  show thesis
  proof (cases "c + Cost (snd (edge_failure_mode_penalty m g fb e)) = Infinite \<or> ?pot e = Infinite")
    case True
    then have "astar_seed a w m g fb s (e, c) = Some s1" using step by (auto split: cost.splits)
    moreover have "seed_key ?pot m g fb (astar_view s) (e, c) = astar_view s" using True by (auto simp: seed_key_def Let_def split: cost.splits)
    ultimately show thesis using that s1 by simp
  next
    case False
    then obtain x p where xp: "c + Cost (snd (edge_failure_mode_penalty m g fb e)) = Cost x" "?pot e = Cost p"
      by (metis cost.exhaust)
    show thesis
    proof (cases "label_of (astar_view s) ?k \<le> Cost x")
      case True
      then show thesis using that[of s1] s1 step xp by (simp add: seed_key_def Let_def)
    next
      case False
      then show thesis using that[of "astar_insert ?k x p None s1"] s1 step xp scratch_ok_insert[OF s1(2), of ?k p]
        by (simp add: seed_key_def Let_def)
    qed
  qed
qed

lemma try_fold_refines:
  assumes "\<And>x s. x \<in> set xs \<Longrightarrow> P s \<Longrightarrow> \<exists>s'. f s x = Some s' \<and> P s' \<and> v s' = h (v s) x" "P s"
  shows "\<exists>s'. try_fold f s xs = Some s' \<and> P s' \<and> v s' = foldl h (v s) xs"
  using assms
proof (induction xs arbitrary: s)
  case (Cons x xs)
  obtain s1 where s1: "f s x = Some s1" "P s1" "v s1 = h (v s) x" using Cons.prems by (metis list.set_intros(1))
  have "\<exists>s'. try_fold f s1 xs = Some s' \<and> P s' \<and> v s' = foldl h (v s1) xs"
    by (rule Cons.IH) (use Cons.prems(1) s1(2) in auto)
  then show ?case using s1 by simp
qed simp

section \<open>Potentials guide the search\<close>

lemma potential_guide:
  assumes h: "hierarchy n b ups downs" and n: "n = length (edge_costs g)" and lb: "lower_bounds_ok g b ups downs w"
    and B: "\<forall>(x, y)\<in>set downs. backward_at B x \<le> bound_at b w x y + backward_at B y"
    and ok: "searchable g" "fair_penalties m fb"
  shows "guide m g fb (remaining n b w B)"
  unfolding guide_def
proof (intro allI impI)
  fix k i j c assume k: "fst k < length (edge_costs g)" "i \<in> set (transition_range g (fst k))" "key_arc m g fb k i = Some (j, c)"
  let ?x = "fst k" and ?P = "remaining n b w B"
  have z: "0 \<le> c" "fst j < length (edge_costs g)" using guideD[OF zero_guide[OF ok] k] by simp_all
  have "?P ?x \<le> Cost c + ?P (fst j)"
  proof (cases "?x = fst j")
    case True
    have "Cost 0 + ?P ?x \<le> Cost c + ?P ?x" using z(1) by (intro add_right_mono) simp
    then show ?thesis using True by simp
  next
    case False
    obtain t p v where a: "transition_failure_mode_penalty m g fb (snd k) ?x (fst j) = Some (t, p)"
      "transition_edges g ! i = fst j" "transition_costs g ! i = Cost v" "c = v + p"
      using k(3) by (auto simp: key_arc_def Let_def split: option.splits cost.splits)
    have "bound_at b w ?x (fst j) \<le> Cost v" using lb k False a(2,3) unfolding lower_bounds_ok_def by metis
    also have "\<dots> \<le> Cost c" using a(4) transition_penalty_nonneg[OF ok(2) a(1)] by simp
    finally have "bound_at b w ?x (fst j) + ?P (fst j) \<le> Cost c + ?P (fst j)" by (rule add_right_mono)
    then show ?thesis using remaining_consistent[OF h lb n B _ _ False] k(1) z(2) n order_trans by blast
  qed
  then show "0 \<le> c \<and> fst j < length (edge_costs g) \<and> ?P (fst k) \<le> Cost c + ?P (fst j)" using z by blast
qed

section \<open>The loop\<close>

definition astar_inv :: "acceleration_bundle \<Rightarrow> metric_weights \<Rightarrow> (nat \<rightharpoonup> cost) \<Rightarrow> movement_metrics \<Rightarrow> routing_graph \<Rightarrow> fallback_policy \<Rightarrow>
    (nat \<times> cost) list \<Rightarrow> (nat \<times> cost) list \<Rightarrow> cost \<Rightarrow> search_key set \<Rightarrow> astar_progress \<Rightarrow> bool" where
  "astar_inv b w B m g fb origin adj initial E q \<longleftrightarrow> scratch_ok (length (edge_costs g)) b w B (fst q)
     \<and> search_inv m g fb (remaining (length (edge_costs g)) b w B) origin E E (astar_view (fst q))
     \<and> best_inv adj initial E (astar_view (fst q)) (snd q)"

lemma astar_step_inv:
  assumes h: "hierarchy (length (edge_costs g)) (graph_source a) ups downs" and ok: "searchable g"
    and gd: "guide m g fb (remaining (length (edge_costs g)) (graph_source a) w B)"
    and inv: "astar_inv (graph_source a) w B m g fb origin adj initial E q" and act: "astar_active q"
  obtains q' E' where "astar_step a w m g fb adj q = Some (Inr q')" "astar_inv (graph_source a) w B m g fb origin adj initial E' q'"
    "E' = E \<and> length (astar_heap (fst q')) < length (astar_heap (fst q)) \<or> (\<exists>k. k \<notin> E \<and> E' = insert k E)"
proof -
  let ?b = "graph_source a" and ?n = "length (edge_costs g)"
  let ?pot = "remaining ?n ?b w B"
  obtain s best b where q: "q = (s, best, b)" by (cases q)
  have sok: "scratch_ok ?n ?b w B s" and si: "search_inv m g fb ?pot origin E E (astar_view s)"
    and bi: "best_inv adj initial E (astar_view s) (best, b)" using inv by (simp_all add: astar_inv_def q)
  have qi: "queue_inv ?pot E (astar_view s)" using si by (simp add: search_inv_def)
  obtain x y c z rest where pop: "astar_pop (astar_heap s) = Some ((x, y, c, z), rest)"
    using act by (auto simp: astar_active_def q split: option.splits)
  have "scored ?pot (astar_heap s)" "distinct (map entry_of (astar_heap s))"
    using sok qi by (simp_all add: scratch_ok_def queue_inv_def)
  note pp = astar_pop_pops[OF pop this]
  have pv: "pops ?pot (search_heap (astar_view s)) (x, y, c) (map entry_of rest)" using pp(1) by simp
  let ?s = "s\<lparr>astar_heap := rest\<rparr>"
  have sok': "scratch_ok ?n ?b w B ?s" using sok pp(2) by (simp add: scratch_ok_def)
  obtain d where d: "astar_dist s (x, y) = Some d"
    using qi popsD(1)[OF pv] unfolding queue_inv_def by fastforce
  then have dv: "tentative (astar_view s) (x, y) = Some d" by simp
  show thesis
  proof (cases "d < c")
    case True
    have "astar_step a w m g fb adj q = Some (Inr (?s, best, b))" using pop d True by (simp add: astar_step_def q)
    moreover have "astar_inv ?b w B m g fb origin adj initial E (?s, best, b)"
      using sok' si bi pop_stale[OF qi pv dv True] best_inv_cong[of E "astar_view ?s" "astar_view s"]
      by (simp add: astar_inv_def search_inv_def)
    moreover have "length rest < length (astar_heap s)" using popsD(4)[OF pv] by simp
    ultimately show thesis using that q by simp
  next
    case False
    let ?k = "(x, y)"
    note p = pop_settles[OF qi pv dv False]
    let ?h = "offer_arc m g fb ?pot ?k c"
    have "reached m g fb ?pot origin E (astar_view s) ?k d" using si dv by (simp add: search_inv_def labels_inv_def)
    then have x: "x < ?n" by (simp add: reached_def)
    have "\<exists>s'. try_fold (astar_relax a w m g fb ?k c) ?s (transition_range g x) = Some s' \<and> scratch_ok ?n ?b w B s'
        \<and> astar_view s' = foldl ?h (astar_view ?s) (transition_range g x)"
    proof (rule try_fold_refines[where P = "scratch_ok ?n ?b w B" and v = astar_view and h = ?h, OF _ sok'])
      fix i s assume i: "i \<in> set (transition_range g x)" "scratch_ok ?n ?b w B s"
      have "transition_edges g ! i < ?n" using ok x i(1) by (auto simp: searchable_def)
      from astar_relax_offers[OF h i(2) this] show "\<exists>s'. astar_relax a w m g fb ?k c s i = Some s' \<and> scratch_ok ?n ?b w B s'
          \<and> astar_view s' = ?h (astar_view s) i" by metis
    qed
    then obtain s' where s': "try_fold (astar_relax a w m g fb ?k c) ?s (transition_range g x) = Some s'" "scratch_ok ?n ?b w B s'"
      "astar_view s' = foldl ?h ((astar_view s)\<lparr>search_heap := map entry_of rest\<rparr>) (transition_range g x)" by auto
    note n = settle_key[OF gd si pv dv False, folded s'(3)]
    have "astar_step a w m g fb adj q = Some (Inr (s', tried adj ?k c (best, b)))"
      using pop d False s'(1) by (simp add: astar_step_def q Let_def tried_def)
    moreover have "best_inv adj initial (insert ?k E) (astar_view s') (tried adj ?k c (best, b))"
    proof -
      have "best_inv adj initial (insert ?k E) (astar_view s) (tried adj ?k c (best, b))"
        by (rule tried_inv[OF bi]) (use d p(1) in \<open>simp add: label_of_def\<close>)
      moreover have "\<forall>j\<in>insert ?k E. label_of (astar_view s') j = label_of (astar_view s) j" using n by (simp add: lowered_def label_of_def)
      ultimately show ?thesis using best_inv_cong by blast
    qed
    then have "astar_inv ?b w B m g fb origin adj initial (insert ?k E) (s', tried adj ?k c (best, b))"
      using n s'(2) by (simp add: astar_inv_def)
    ultimately show thesis using p(2) that by blast
  qed
qed

lemma astar_loop_returns:
  assumes h: "hierarchy (length (edge_costs g)) (graph_source a) ups downs" and ok: "searchable g"
    and gd: "guide m g fb (remaining (length (edge_costs g)) (graph_source a) w B)"
    and inv: "astar_inv (graph_source a) w B m g fb origin adj initial E q"
  obtains q' E' where "astar_loop a w m g fb adj q = Some (Inr q')" "astar_inv (graph_source a) w B m g fb origin adj initial E' q'"
    "\<not> astar_active q'"
proof -
  have "\<exists>q' E'. astar_loop a w m g fb adj q = Some (Inr q') \<and> astar_inv (graph_source a) w B m g fb origin adj initial E' q'
      \<and> \<not> astar_active q'"
    using inv
  proof (induction "(card (all_keys g - E), length (astar_heap (fst q)))" arbitrary: E q
      rule: wf_induct_rule[OF wf_lex_prod[OF wf_less_than wf_less_than]])
    case 1
    show ?case
    proof (cases "astar_active q")
      case False
      then show ?thesis using "1.prems" by (subst astar_loop.simps) auto
    next
      case True
      obtain q' E' where r: "astar_step a w m g fb adj q = Some (Inr q')" "astar_inv (graph_source a) w B m g fb origin adj initial E' q'"
        "E' = E \<and> length (astar_heap (fst q')) < length (astar_heap (fst q)) \<or> (\<exists>k. k \<notin> E \<and> E' = insert k E)"
        using astar_step_inv[OF h ok gd "1.prems" True] .
      have "E' \<subseteq> all_keys g" using settled_keys[OF ok] r(2) unfolding astar_inv_def by blast
      then have "((card (all_keys g - E'), length (astar_heap (fst q'))), (card (all_keys g - E), length (astar_heap (fst q))))
          \<in> less_than <*lex*> less_than"
        using r(3) settling_shrinks by auto
      from "1.hyps"[OF this r(2)] show ?thesis using True r(1) by (simp add: astar_loop.simps[of a w m g fb adj q])
    qed
  qed
  then show thesis using that by blast
qed

section \<open>Answers\<close>

lemma restricted_astar_answers:
  assumes ok: "searchable g" "fair_penalties m fb" and seeds: "seeds_within g origin" "seeds_within g destination"
    and a: "graph_acceleration g = Some a" "accelerated (length (edge_costs g)) a ups downs w"
    and lb: "lower_bounds_ok g (graph_source a) ups downs w"
  obtains r where "restricted_astar_route m g w origin destination initial fb = Some (Inr r)"
    "answers m g fb origin destination initial r"
proof -
  let ?n = "length (edge_costs g)" and ?b = "graph_source a" and ?adj = "destination_adjustments destination"
  have h: "hierarchy ?n ?b ups downs" using a(2) by (simp add: accelerated_def)
  obtain B where B: "search_backward a w destination = Some (Inr B)" "\<forall>(e, c)\<in>set destination. backward_at B e \<le> c"
    "\<forall>(x, y)\<in>set downs. backward_at B x \<le> bound_at ?b w x y + backward_at B y"
    by (rule search_backward_complete[OF a(2) seeds(2)[unfolded seeds_within_def]])
  let ?pot = "remaining ?n ?b w B"
  note gd = potential_guide[OF h refl lb B(3) ok]
  have "\<exists>s. try_fold (astar_seed a w m g fb) (clear_astar B) origin = Some s \<and> scratch_ok ?n ?b w B s
      \<and> astar_view s = foldl (seed_key ?pot m g fb) (astar_view (clear_astar B)) origin"
  proof (rule try_fold_refines[where P = "scratch_ok ?n ?b w B" and v = astar_view and h = "seed_key ?pot m g fb"])
    show "scratch_ok ?n ?b w B (clear_astar B)" by (simp add: scratch_ok_def clear_astar_def memo_ok_def scored_def)
    fix t s assume t: "t \<in> set origin" "scratch_ok ?n ?b w B s"
    then have "fst t < ?n" using seeds(1) by (auto simp: seeds_within_def)
    from astar_seed_seeds[OF h t(2) this] show "\<exists>s'. astar_seed a w m g fb s t = Some s' \<and> scratch_ok ?n ?b w B s'
        \<and> astar_view s' = seed_key ?pot m g fb (astar_view s) t" by (metis prod.collapse)
  qed
  then obtain s where s: "try_fold (astar_seed a w m g fb) (clear_astar B) origin = Some s" "scratch_ok ?n ?b w B s"
    "astar_view s = foldl (seed_key ?pot m g fb) (astar_view (clear_astar B)) origin" by blast
  have "search_inv m g fb ?pot origin {} {} (astar_view s)"
    unfolding s(3) by (rule seeded_search[OF seeds(1)]) (simp_all add: clear_astar_def)
  then have "astar_inv ?b w B m g fb origin ?adj (answer_cost initial) {} (s, answer_cost initial, None)"
    using s(2) by (simp add: astar_inv_def best_inv_def)
  from astar_loop_returns[OF h ok(1) gd this] obtain q E where
    q: "astar_loop a w m g fb ?adj (s, answer_cost initial, None) = Some (Inr q)"
    "astar_inv ?b w B m g fb origin ?adj (answer_cost initial) E q" "\<not> astar_active q" .
  obtain s' best b where q': "q = (s', best, b)" by (cases q)
  have si: "search_inv m g fb ?pot origin E E (astar_view s')" and bi: "best_inv ?adj (answer_cost initial) E (astar_view s') (best, b)"
    and sc: "scored ?pot (astar_heap s')" using q(2) by (simp_all add: astar_inv_def q' scratch_ok_def)
  have stop: "best \<le> Cost d + ?pot x + Cost 0" if m: "(x, y, d) \<in> set (search_heap (astar_view s'))" for x y d
  proof -
    obtain e where e: "e \<in> set (astar_heap s')" "(x, y, d) = entry_of e" using m unfolding astar_view_fields set_map by blast
    obtain top rest where pop: "astar_pop (astar_heap s') = Some (top, rest)"
      using e(1) by (cases "astar_heap s'") (auto simp: astar_pop_def Let_def)
    have "best \<le> Cost (score_of top)" using q(3) pop by (auto simp: astar_active_def q' score_of_def not_less split: prod.splits)
    also have "\<dots> \<le> Cost (score_of e)" using astar_pop_Some(3)[OF pop] e(1) by simp
    also have "\<dots> = Cost d + ?pot x" using sc e by (cases e) (auto simp: scored_def entry_of_def)
    finally show ?thesis by simp
  qed
  then have stop: "\<forall>(x, y, d)\<in>set (search_heap (astar_view s')). best \<le> Cost d + ?pot x + Cost 0" by blast
  note lookup = destination_lookup[of destination]
  have gap: "\<forall>e x. map_of ?adj e = Some x \<longrightarrow> ?pot e + Cost 0 \<le> x \<and> (x \<noteq> Infinite \<longrightarrow> ?pot e \<noteq> Infinite)"
  proof (intro allI impI)
    fix e x assume "map_of ?adj e = Some x"
    then have x: "(e, x) \<in> set destination" using lookup by blast
    then have e: "e < ?n" "backward_at B e \<le> x" using seeds(2) B(2) by (auto simp: seeds_within_def)
    have "?pot e \<le> x" using remaining_up(1)[OF h e(1)] e(2) by (rule order_trans)
    then show "?pot e + Cost 0 \<le> x \<and> (x \<noteq> Infinite \<longrightarrow> ?pot e \<noteq> Infinite)" by (cases x) (auto simp: cost_le_Cost)
  qed
  note r = stopped_answers[OF gd seeds(1) si bi stop gap conjunct1[OF lookup] conjunct2[OF lookup]]
  have route: "restricted_astar_route m g w origin destination initial fb = finish_astar initial (s', best, b)"
    by (simp add: restricted_astar_route_def a(1) B(1) s(1) q(1) q')
  show thesis
  proof (cases b)
    case None
    then show thesis using that r(1) route by (simp add: finish_astar_def)
  next
    case (Some k)
    then obtain es where "reconstruct (previous_key (astar_view s')) k [] = Some (Inr es)"
      "answers m g fb origin destination initial (Some \<lparr>edge_indexes = es, total_generalized_cost = best\<rparr>)"
      using r(2) by blast
    then show thesis using that route Some by (simp add: finish_astar_def)
  qed
qed

end
