(* ===== verification/Restricted_Dispatch.thy ===== *)
theory Restricted_Dispatch
  imports Astar_Exact
begin

text \<open>
  The restriction-aware route between edge seeds: whichever of the two searches a request is
  dispatched to, the answer is exact, and the searches agree.
\<close>

text \<open>A hierarchy built over the states of the graph, with its ranked rows.\<close>

definition built_acceleration :: "routing_graph \<Rightarrow> bool" where
  "built_acceleration g \<longleftrightarrow> (\<forall>a. graph_acceleration g = Some a \<longrightarrow>
     (\<exists>t order. edge_count t = length (edge_costs g) \<and> is_order (edge_count t) order \<and> graph_source a = build_with_order t order)
     \<and> ranked_rows (graph_ranked a) = ranked_topology_build (graph_source a))"

text \<open>What the relaxation threshold can leave unimproved along a route.\<close>

definition route_slack :: "route_path option \<Rightarrow> rat" where
  "route_slack r = (case r of None \<Rightarrow> 0 | Some p \<Rightarrow> of_nat (length (edge_indexes p) - 1) * EPSILON)"

lemma answers_close:
  assumes r: "answers m g fb origin destination initial r" and r': "answers m g fb origin destination initial r'"
  shows "answer_cost r' \<le> answer_cost r + Cost (route_slack r)"
proof -
  have pos: "0 \<le> route_slack r" using EPSILON_pos by (auto simp: route_slack_def split: option.splits)
  consider "r = initial" | p c a where "r = Some p" "priced_walk m g fb (set origin) (edge_indexes p) c"
      "(last (edge_indexes p), Cost a) \<in> set destination" "total_generalized_cost p = Cost (c + a)"
    using r unfolding answers_def by blast
  then show ?thesis
  proof cases
    case 1
    have "answer_cost r' \<le> answer_cost r" using r' 1 by (simp add: answers_def)
    also have "\<dots> \<le> answer_cost r + Cost (route_slack r)" using pos by (cases "answer_cost r") simp_all
    finally show ?thesis .
  next
    case (2 p c a)
    have "answer_cost r' \<le> Cost (c + of_nat (length (edge_indexes p) - 1) * EPSILON) + Cost a"
      using r' 2(2,3) unfolding answers_def by blast
    also have "\<dots> = answer_cost r + Cost (route_slack r)" using 2(1,4) by (simp add: answer_cost_def route_slack_def)
    finally show ?thesis .
  qed
qed

text \<open>C12: the restriction-aware route. Between any edge seeds of a routing graph whose hierarchy, if it
  has one, was built over its states, the dispatched search returns, fails nowhere and answers
  exactly: the A* search under the lower-bound potentials of the hierarchy where the policy and the
  graph allow it, the Dijkstra search elsewhere. Its answer and that of the Dijkstra search cost the
  same, up to one \<open>EPSILON\<close> for every transition of the other's route.\<close>

theorem restricted_route_exact:
  assumes "searchable g" "fair_penalties m fb" "seeds_within g origin" "seeds_within g destination" "built_acceleration g"
  shows "\<exists>s' r r'. dijkstra_between_edge_seeds_with_failure_modes m g fb origin destination initial s = Some (Inr (s', r))
    \<and> restricted_route_between_edge_seeds m g origin destination initial fb s = Some (Inr r')
    \<and> answers m g fb origin destination initial r'
    \<and> answer_cost r' \<le> answer_cost r + Cost (route_slack r) \<and> answer_cost r \<le> answer_cost r' + Cost (route_slack r')"
proof -
  obtain s' r where r: "dijkstra_between_edge_seeds_with_failure_modes m g fb origin destination initial s = Some (Inr (s', r))"
    "answers m g fb origin destination initial r"
    unfolding dijkstra_between_edge_seeds_with_failure_modes_def
    using route_to_answers[OF assms(1-3) prepare_inv[OF assms(3)]] by metis
  have "\<exists>r'. restricted_route_between_edge_seeds m g origin destination initial fb s = Some (Inr r')
      \<and> answers m g fb origin destination initial r'"
  proof (cases "if has_failure_modes fb then None else lower_bound_weights g")
    case None
    then show ?thesis using r by (simp add: restricted_route_between_edge_seeds_def)
  next
    case (Some w)
    then have "lower_bound_weights g = Some w" by (simp split: if_splits)
    then obtain a where a: "graph_acceleration g = Some a" "build_lower_bound_weights g a = Some w"
      by (auto simp: lower_bound_weights_def split: option.splits)
    obtain t order where t: "edge_count t = length (edge_costs g)" "is_order (edge_count t) order" "graph_source a = build_with_order t order"
      and rows: "ranked_rows (graph_ranked a) = ranked_topology_build (graph_source a)"
      using assms(5) a(1) unfolding built_acceleration_def by blast
    have h: "hierarchy (length (edge_costs g)) (graph_source a) (up_arcs t order) (down_arcs t order)"
      using hierarchy_build[OF t(2)] t(1,3) by simp
    have lb: "lower_bounds_ok g (graph_source a) (up_arcs t order) (down_arcs t order) w"
      by (rule build_lower_bound_weights_ok[OF h rows assms(1) a(2)])
    then have "accelerated (length (edge_costs g)) a (up_arcs t order) (down_arcs t order) w"
      using h rows by (simp add: accelerated_def lower_bounds_ok_def)
    from restricted_astar_answers[OF assms(1-4) a(1) this lb] obtain r' where
      "restricted_astar_route m g w origin destination initial fb = Some (Inr r')" "answers m g fb origin destination initial r'" .
    then show ?thesis using Some by (simp add: restricted_route_between_edge_seeds_def)
  qed
  then show ?thesis using r answers_close[OF r(2)] answers_close[OF _ r(2)] by blast
qed

section \<open>Witness\<close>

declare backward_loop.simps [code] potential_loop.simps [code] astar_loop.simps [code]

abbreviation accelerated_triangle :: routing_graph where
  "accelerated_triangle \<equiv> build_routing_graph_with_weights 3 triangle (edge_based_build 3 4 triangle) restricted_triangle
     witness_metrics 1 (\<lambda>_. True) (\<lambda>_ _. Cost 0)
     (Some \<lparr>graph_source = triangle_bundle, graph_ranked = ranked_build triangle_bundle (infinite_weights triangle_bundle),
        graph_unpack = unpack_table_new 3 3\<rparr>)
     (default_options\<lparr>search_time_turn_restrictions := True\<rparr>)"

lemma triangle_answer:
  "map_option (map_sum id (map_option edge_indexes)) (restricted_route_between_edge_seeds plain_metrics accelerated_triangle
     [(2, Cost 1)] [(1, Cost 0)] None strict_policy empty_search) = Some (Inr (Some [2, 0, 3, 0, 1]))"
  by code_simp

text \<open>The path from edge 2 over edge 0 to edge 1 is forbidden; the A* search takes the loop over edge 3
  first.\<close>

theorem restricted_route_exact_witness:
  "lower_bound_weights accelerated_triangle \<noteq> None \<and> (\<exists>s' r p. restricted_route_between_edge_seeds plain_metrics accelerated_triangle
      [(2, Cost 1)] [(1, Cost 0)] None strict_policy empty_search = Some (Inr (Some p)) \<and> edge_indexes p = [2, 0, 3, 0, 1]
    \<and> dijkstra_between_edge_seeds_with_failure_modes plain_metrics accelerated_triangle strict_policy
        [(2, Cost 1)] [(1, Cost 0)] None empty_search = Some (Inr (s', r))
    \<and> answer_cost r \<le> answer_cost (Some p) + Cost (4 * EPSILON) \<and> answer_cost (Some p) \<le> answer_cost r + Cost (route_slack r))"
proof -
  have ok: "buildable 3 triangle 4 restricted_triangle" by code_simp
  have b: "searchable accelerated_triangle" "length (edge_costs accelerated_triangle) = 4"
    by (rule built_graph[OF ok triangle_costs], simp)+
  have seeds: "seeds_within accelerated_triangle [(2, Cost 1)]" "seeds_within accelerated_triangle [(1, Cost 0)]"
    unfolding seeds_within_def b(2) by simp_all
  have t: "edge_count (edge_based triangle_topology) = 4" "is_order (edge_count (edge_based triangle_topology)) [3, 0, 1, 2]" by code_simp+
  have acc: "graph_acceleration accelerated_triangle = Some \<lparr>graph_source = triangle_bundle,
      graph_ranked = ranked_build triangle_bundle (infinite_weights triangle_bundle), graph_unpack = unpack_table_new 3 3\<rparr>"
    by (simp add: build_routing_graph_with_weights_def Let_def split_beta)
  have "built_acceleration accelerated_triangle"
    unfolding built_acceleration_def acc b(2)
    by (intro allI impI conjI exI[of _ "edge_based triangle_topology"] exI[of _ "[3, 0, 1, 2]"])
      (use t in \<open>auto simp: ranked_build_def with_topology_def\<close>)
  from restricted_route_exact[OF b(1) plain_fair(2) seeds this, of None empty_search] triangle_answer
  obtain s' r p where "restricted_route_between_edge_seeds plain_metrics accelerated_triangle
      [(2, Cost 1)] [(1, Cost 0)] None strict_policy empty_search = Some (Inr (Some p))" "edge_indexes p = [2, 0, 3, 0, 1]"
    "dijkstra_between_edge_seeds_with_failure_modes plain_metrics accelerated_triangle strict_policy
        [(2, Cost 1)] [(1, Cost 0)] None empty_search = Some (Inr (s', r))"
    "answer_cost r \<le> answer_cost (Some p) + Cost (route_slack (Some p))" "answer_cost (Some p) \<le> answer_cost r + Cost (route_slack r)"
    by auto
  moreover from this(2) have "route_slack (Some p) = 4 * EPSILON" by (simp add: route_slack_def)
  moreover have "lower_bound_weights accelerated_triangle \<noteq> None" by code_simp
  ultimately show ?thesis by auto
qed

end
