(* ===== verification/Search_Space.thy ===== *)
theory Search_Space
  imports Cch_Route
begin

text \<open>
  Complete search spaces of the hierarchy (\<open>CchSearchSpace\<close>, \<open>build_forward_cch_space\<close>,
  \<open>build_backward_cch_space\<close>, \<open>join_cch_spaces\<close> and \<open>reconstruct_cch_space_path\<close> in
  \<open>crates/query/src/engine/acceleration.rs\<close>): one unpruned climb per endpoint, stored sorted by edge,
  joined and unpacked for any pair. Both builders run the same code on their own half of the
  scratch space, so the model carries the direction. \<open>NO_PREVIOUS_ARC\<close> is \<open>None\<close>.
\<close>

section \<open>Scratch space\<close>

record space_scratch =
  space_dist :: "direction \<Rightarrow> cost list"
  space_parent :: "direction \<Rightarrow> nat option list"
  space_touched :: "direction \<Rightarrow> nat list"
  space_heap :: "direction \<Rightarrow> query_entry list"

text \<open>\<open>Vec::resize\<close>.\<close>

definition resize :: "nat \<Rightarrow> 'a \<Rightarrow> 'a list \<Rightarrow> 'a list" where
  "resize n x xs = take n xs @ replicate (n - length xs) x"

definition prepare_spaces :: "nat \<Rightarrow> space_scratch \<Rightarrow> space_scratch" where
  "prepare_spaces state_count s =
     (let grown = length (space_dist s Forward) < state_count;
          dist = (\<lambda>d. if grown then resize state_count Infinite (space_dist s d) else space_dist s d);
          parent = (\<lambda>d. if grown then resize state_count None (space_parent s d) else space_parent s d)
      in \<lparr>space_dist = (\<lambda>d. foldl (\<lambda>xs e. xs[e := Infinite]) (dist d) (space_touched s d)),
          space_parent = (\<lambda>d. foldl (\<lambda>xs e. xs[e := None]) (parent d) (space_touched s d)),
          space_touched = (\<lambda>_. []), space_heap = (\<lambda>_. [])\<rparr>)"

text \<open>\<open>update_forward\<close> and \<open>update_backward\<close>.\<close>

definition update_space :: "direction \<Rightarrow> space_scratch \<Rightarrow> nat \<Rightarrow> cost \<Rightarrow> nat option \<Rightarrow> space_scratch \<times> bool" where
  "update_space d s e c previous =
     (if c = Infinite then (s, False)
      else if space_dist s d ! e \<le> c + Cost EPSILON then (s, False)
      else (s\<lparr>space_dist := (space_dist s)(d := (space_dist s d)[e := c]),
              space_parent := (space_parent s)(d := (space_parent s d)[e := previous]),
              space_touched := (if space_dist s d ! e = Infinite then (space_touched s)(d := space_touched s d @ [e]) else space_touched s)\<rparr>,
            True))"

definition offer_space :: "direction \<Rightarrow> space_scratch \<Rightarrow> nat \<Rightarrow> cost \<Rightarrow> nat option \<Rightarrow> space_scratch" where
  "offer_space d s e c previous =
     (let (s', updated) = update_space d s e c previous
      in case c of Infinite \<Rightarrow> s'
         | Cost x \<Rightarrow> if updated then s'\<lparr>space_heap := (space_heap s')(d := (e, 0, x) # space_heap s' d)\<rparr> else s')"

definition relax_space :: "acceleration_bundle \<Rightarrow> direction \<Rightarrow> nat \<Rightarrow> rat \<Rightarrow> space_scratch \<Rightarrow> nat \<times> u32 \<Rightarrow> space_scratch" where
  "relax_space b d e c s = (\<lambda>(other_rank, weight). offer_space d s (edge_order b ! other_rank) (Cost c + decoded weight) (Some e))"

text \<open>One round of the loop; \<open>None\<close> is its end.\<close>

definition space_step :: "acceleration_bundle \<Rightarrow> ranked_cch \<Rightarrow> direction \<Rightarrow> space_scratch \<Rightarrow> space_scratch option" where
  "space_step b c d s = (case queue_pop (space_heap s d) of
       None \<Rightarrow> None
     | Some ((e, _, x), rest) \<Rightarrow>
         (let s = s\<lparr>space_heap := (space_heap s)(d := rest)\<rparr>
          in if space_dist s d ! e < Cost x then Some s
             else Some (foldl (relax_space b d e x) s (hierarchy_rows c d (edge_rank b ! e)))))"

partial_function (option) space_loop :: "acceleration_bundle \<Rightarrow> ranked_cch \<Rightarrow> direction \<Rightarrow> space_scratch \<Rightarrow> space_scratch option" where
  "space_loop b c d s = (case space_step b c d s of None \<Rightarrow> Some s | Some s' \<Rightarrow> space_loop b c d s')"

section \<open>Spaces\<close>

record cch_space_entry =
  entry_index :: nat
  entry_cost :: cost
  entry_arc :: "nat option"
  entry_parent :: "nat option"

type_synonym cch_search_space = "cch_space_entry list"

definition space_entries :: "direction \<Rightarrow> space_scratch \<Rightarrow> cch_space_entry list" where
  "space_entries d s = map (\<lambda>e. \<lparr>entry_index = e, entry_cost = space_dist s d ! e, entry_arc = None,
     entry_parent = space_parent s d ! e\<rparr>) (space_touched s d)"

definition space_position :: "cch_search_space \<Rightarrow> nat \<Rightarrow> nat option" where
  "space_position sp e = (case binary_search (map entry_index sp) e of Found i \<Rightarrow> Some i | Insert _ \<Rightarrow> None)"

text \<open>The arc slot and the position of the neighbour; \<open>None\<close> is a failed \<open>expect\<close>.\<close>

definition resolve_entry :: "(nat \<Rightarrow> nat \<Rightarrow> nat option) \<Rightarrow> cch_space_entry list \<Rightarrow> cch_space_entry \<Rightarrow> cch_space_entry option" where
  "resolve_entry slot_of sorted_entries entry = (case entry_parent entry of
       None \<Rightarrow> Some entry
     | Some neighbour \<Rightarrow>
         (case slot_of (entry_index entry) neighbour of
            None \<Rightarrow> None
          | Some slot \<Rightarrow> (case space_position sorted_entries neighbour of
              None \<Rightarrow> None
            | Some i \<Rightarrow> Some (entry\<lparr>entry_arc := Some slot, entry_parent := Some i\<rparr>))))"

definition from_unsorted :: "(nat \<Rightarrow> nat \<Rightarrow> nat option) \<Rightarrow> cch_space_entry list \<Rightarrow> cch_search_space option" where
  "from_unsorted slot_of entries =
     (let sorted_entries = sort_key entry_index entries in those (map (resolve_entry slot_of sorted_entries) sorted_entries))"

definition neighbour_slot :: "acceleration_bundle \<Rightarrow> direction \<Rightarrow> nat \<Rightarrow> nat \<Rightarrow> nat option" where
  "neighbour_slot b d e neighbour = (case d of
       Forward \<Rightarrow> upward_arc_slot b neighbour e | Backward \<Rightarrow> downward_arc_slot b e neighbour)"

text \<open>\<open>build_forward_cch_space\<close> and \<open>build_backward_cch_space\<close>.\<close>

definition build_cch_space :: "acceleration_graph \<Rightarrow> direction \<Rightarrow> nat \<Rightarrow> (nat \<times> cost) list \<Rightarrow> space_scratch \<Rightarrow>
    (space_scratch \<times> cch_search_space) option" where
  "build_cch_space g d state_count seeds s =
     (let b = graph_source g; s = foldl (\<lambda>s (e, c). offer_space d s e c None) (prepare_spaces state_count s) seeds
      in case space_loop b (graph_ranked g) d s of
           None \<Rightarrow> None
         | Some s' \<Rightarrow> map_option (Pair s') (from_unsorted (neighbour_slot b d) (space_entries d s')))"

section \<open>Joining two spaces\<close>

text \<open>The linear merge with its two cursors at the heads of the lists.\<close>

fun merge_spaces :: "(cost \<times> nat) option \<Rightarrow> cch_search_space \<Rightarrow> cch_search_space \<Rightarrow> (cost \<times> nat) option" where
  "merge_spaces best [] ys = best"
| "merge_spaces best (x # xs) [] = best"
| "merge_spaces best (x # xs) (y # ys) =
     (if entry_index x < entry_index y then merge_spaces best xs (y # ys)
      else if entry_index y < entry_index x then merge_spaces best (x # xs) ys
      else let c = entry_cost x + entry_cost y
        in merge_spaces (case best of
               None \<Rightarrow> Some (c, entry_index x)
             | Some (known, _) \<Rightarrow> if c < known then Some (c, entry_index x) else best) xs ys)"

definition join_cch_spaces :: "cch_search_space \<Rightarrow> cch_search_space \<Rightarrow> (cost \<times> nat) option" where
  "join_cch_spaces forward backward = merge_spaces None forward backward"

section \<open>Unpacking a joined path\<close>

definition space_arc :: "cch_search_space \<Rightarrow> direction \<Rightarrow> nat \<Rightarrow> hierarchy_arc option" where
  "space_arc sp d position = (let entry = sp ! position in case entry_arc entry of
       None \<Rightarrow> None
     | Some slot \<Rightarrow> Some (case d of
         Forward \<Rightarrow> \<lparr>is_upward = True, arc_tail = entry_index (sp ! the (entry_parent entry)), arc_slot = slot\<rparr>
       | Backward \<Rightarrow> \<lparr>is_upward = False, arc_tail = entry_index entry, arc_slot = slot\<rparr>))"

text \<open>The arcs from a position to its seed, and the position of the seed.\<close>

partial_function (option) space_chain :: "cch_search_space \<Rightarrow> direction \<Rightarrow> nat \<Rightarrow> hierarchy_arc list \<Rightarrow>
    (hierarchy_arc list \<times> nat) option" where
  "space_chain sp d position arcs = (case space_arc sp d position of
       None \<Rightarrow> Some (arcs, position)
     | Some a \<Rightarrow> space_chain sp d (the (entry_parent (sp ! position))) (arcs @ [a]))"

definition reconstruct_cch_space_path :: "acceleration_graph \<Rightarrow> cch_search_space \<Rightarrow> cch_search_space \<Rightarrow> nat \<Rightarrow> cost \<Rightarrow>
    (acceleration_graph \<times> route_path) option" where
  "reconstruct_cch_space_path g forward backward meeting total_cost =
     (let b = graph_source g; c = graph_ranked g
      in case (space_position forward meeting, space_position backward meeting) of
           (Some i, Some j) \<Rightarrow>
             (case (space_chain forward Forward i [], space_chain backward Backward j []) of
                (Some (fas, first_position), Some (bas, _)) \<Rightarrow>
                  map_option (\<lambda>(t, out). (g\<lparr>graph_unpack := t\<rparr>, \<lparr>edge_indexes = out, total_generalized_cost = total_cost\<rparr>))
                    (push_arcs b c (graph_unpack g) [entry_index (forward ! first_position)] (rev fas @ bas))
              | _ \<Rightarrow> None)
         | _ \<Rightarrow> None)"

section \<open>The climb refines the query\<close>

text \<open>The query scratch a half of the space scratch stands for: labels by rank, nothing on the other side.\<close>

definition space_view :: "nat \<Rightarrow> acceleration_bundle \<Rightarrow> direction \<Rightarrow> space_scratch \<Rightarrow> query_scratch" where
  "space_view n b d s = \<lparr>labels = map (\<lambda>r. \<lparr>label_cost = (\<lambda>d'. if d' = d then space_dist s d ! (edge_order b ! r) else Infinite),
        label_parent = (\<lambda>d'. if d' = d then map_option ((!) (edge_rank b)) (space_parent s d ! (edge_order b ! r)) else None)\<rparr>) [0..<n],
     touched = map ((!) (edge_rank b)) (space_touched s d),
     queue = (\<lambda>d'. if d' = d then map (\<lambda>(e, _, c). (e, edge_rank b ! e, c)) (space_heap s d) else [])\<rparr>"

definition space_inv :: "nat \<Rightarrow> direction \<Rightarrow> space_scratch \<Rightarrow> bool" where
  "space_inv n d s \<longleftrightarrow> n \<le> length (space_dist s d) \<and> length (space_parent s d) = length (space_dist s d)
     \<and> (\<forall>x\<in>set (space_heap s d). fst x < n \<and> fst (snd x) = 0)
     \<and> distinct (space_touched s d) \<and> (\<forall>e. e \<in> set (space_touched s d) \<longleftrightarrow> e < n \<and> space_dist s d ! e \<noteq> Infinite)
     \<and> (\<forall>e<length (space_dist s d). space_dist s d ! e = Infinite \<longrightarrow> space_parent s d ! e = None)
     \<and> (\<forall>e<length (space_dist s d). n \<le> e \<longrightarrow> space_dist s d ! e = Infinite)
     \<and> (\<forall>e<length (space_dist s d). \<forall>p. space_parent s d ! e = Some p \<longrightarrow> p < n)"

lemma label_fun_upd: "(\<lambda>d'. if d' = d then x else f d') = f(d := x)"
  by auto

lemma space_view_label:
  "r < n \<Longrightarrow> label_at (space_view n b d s) d' r = (if d' = d then space_dist s d ! (edge_order b ! r) else Infinite)"
  "r < n \<Longrightarrow> parent_at (space_view n b d s) d' r
    = (if d' = d then map_option ((!) (edge_rank b)) (space_parent s d ! (edge_order b ! r)) else None)"
  by (simp_all add: space_view_def)

lemma offer_space_view:
  assumes h: "hierarchy n b ups downs" and inv: "space_inv n d s" and e: "e < n" and p: "\<forall>q. p = Some q \<longrightarrow> q < n"
  shows "space_view n b d (offer_space d s e c p)
      = offer d (space_view n b d s) e (edge_rank b ! e) c (map_option ((!) (edge_rank b)) p)
    \<and> space_inv n d (offer_space d s e c p)"
proof -
  note o = hierarchy_order[OF h]
  let ?V = "space_view n b d" and ?r = "edge_rank b ! e"
  have r: "?r < n" "edge_order b ! ?r = e" using o(4,5) e by simp_all
  have lab: "label_at (?V s) d ?r = space_dist s d ! e" using space_view_label(1)[OF r(1)] r(2) by simp
  show ?thesis
  proof (cases "space_dist s d ! e \<le> c + Cost EPSILON")
    case True
    then have "offer_space d s e c p = s" by (cases c) (simp_all add: offer_space_def update_space_def)
    then show ?thesis using True lab inv by (simp add: offer_rejected)
  next
    case False
    then obtain x where c: "c = Cost x" by (cases c) auto
    define s1 where "s1 = offer_space d s e c p"
    have s': "space_dist s1 = (space_dist s)(d := (space_dist s d)[e := Cost x])"
      "space_parent s1 = (space_parent s)(d := (space_parent s d)[e := p])"
      "space_touched s1 = (if space_dist s d ! e = Infinite then (space_touched s)(d := space_touched s d @ [e]) else space_touched s)"
      "space_heap s1 = (space_heap s)(d := (e, 0, x) # space_heap s d)"
      using False c by (simp_all add: s1_def offer_space_def update_space_def)
    have len: "e < length (space_dist s d)" "length (space_parent s d) = length (space_dist s d)" using inv e by (simp_all add: space_inv_def)
    have inv': "space_inv n d s1"
      using inv e len p unfolding space_inv_def s' by (auto simp: nth_list_update split: if_splits)
    have "?V s1 = offer d (?V s) e ?r c (map_option ((!) (edge_rank b)) p)"
    proof -
      have l: "?r < length (labels (?V s))" using r(1) by (simp add: space_view_def)
      have acc: "\<not> label_at (?V s) d ?r \<le> c + Cost EPSILON" using False lab by simp
      have "labels (?V s1) = labels (offer d (?V s) e ?r c (map_option ((!) (edge_rank b)) p))"
        unfolding offer_accepted(1)[OF acc l]
        proof (rule nth_equalityI)
          fix i assume "i < length (labels (?V s1))"
          then have i: "i < n" by (simp add: space_view_def)
          have other: "edge_order b ! i = e \<Longrightarrow> i = ?r" using o(3)[OF i] by simp
          show "labels (?V s1) ! i = (labels (?V s))[?r := \<lparr>label_cost = (label_cost (labels (?V s) ! ?r))(d := c),
              label_parent = (label_parent (labels (?V s) ! ?r))(d := map_option ((!) (edge_rank b)) p)\<rparr>] ! i"
          proof (cases "i = ?r")
            case True
            then show ?thesis using r len by (simp add: space_view_def s' fun_eq_iff c)
          next
            case False
            then have "edge_order b ! i \<noteq> e" using other by blast
            then show ?thesis using False i r(1) len by (simp add: space_view_def s' fun_eq_iff)
          qed
        qed (simp add: space_view_def)
      moreover have "queue (?V s1) = queue (offer d (?V s) e ?r c (map_option ((!) (edge_rank b)) p))"
        unfolding offer_accepted(2)[OF acc l c] by (simp add: space_view_def s' c fun_eq_iff)
      moreover have "touched (?V s1) = touched (offer d (?V s) e ?r c (map_option ((!) (edge_rank b)) p))"
      proof -
        have "(label_at (?V s) Forward ?r = Infinite \<and> label_at (?V s) Backward ?r = Infinite) \<longleftrightarrow> space_dist s d ! e = Infinite"
          using lab space_view_label(1)[OF r(1), of b d s] by (cases d) auto
        then show ?thesis using acc c
          by (simp add: offer_def update_label_def Let_def queue_push_def space_view_def s')
      qed
      ultimately show ?thesis by simp
    qed
    then show ?thesis using inv' by (simp add: s1_def)
  qed
qed

lemma queue_pop_map:
  assumes "\<forall>x\<in>set q. \<forall>y\<in>set q. (f x = f y \<longrightarrow> x = y) \<and> (entry_before (f x) (f y) \<longleftrightarrow> entry_before x y)"
  shows "queue_pop (map f q) = map_option (\<lambda>(x, rest). (f x, map f rest)) (queue_pop q)"
proof (cases q)
  case (Cons x xs)
  have first: "first_entry (f x) (map f xs) = f (first_entry x xs)" if "set (x # xs) \<subseteq> set q" for x xs
    using that
  proof (induction xs arbitrary: x)
    case (Cons y xs)
    have "entry_before (f y) (f x) \<longleftrightarrow> entry_before y x" using assms Cons.prems by auto
    then show ?case using Cons.IH[of "if entry_before y x then y else x"] Cons.prems by auto
  qed simp
  have rem: "remove1 (f y) (map f zs) = map f (remove1 y zs)" if "set (y # zs) \<subseteq> set q" for y zs
    using that
  proof (induction zs)
    case (Cons z zs)
    have "f z = f y \<longrightarrow> z = y" using assms Cons.prems by auto
    then show ?case using Cons by auto
  qed simp
  have m: "first_entry x xs \<in> set q" using first_entry_mem[of x xs] Cons by simp
  have "remove1 (f (first_entry x xs)) (map f q) = map f (remove1 (first_entry x xs) q)" by (rule rem) (use m in simp)
  moreover have "queue_pop (map f q) = Some (first_entry (f x) (map f xs), remove1 (first_entry (f x) (map f xs)) (map f q))"
    "queue_pop q = Some (first_entry x xs, remove1 (first_entry x xs) q)"
    by (simp_all add: queue_pop_def Let_def Cons del: remove1.simps)
  moreover have "first_entry (f x) (map f xs) = f (first_entry x xs)" by (rule first) (simp add: Cons)
  ultimately show ?thesis by simp
qed (simp add: queue_pop_def)

lemma space_pop_view:
  assumes h: "hierarchy n b ups downs" and q: "\<forall>x\<in>set q. fst x < n \<and> fst (snd x) = 0"
  shows "queue_pop (map (\<lambda>(e, _, c). (e, edge_rank b ! e, c)) q)
    = map_option (\<lambda>((e, _, c), rest). ((e, edge_rank b ! e, c), map (\<lambda>(e, _, c). (e, edge_rank b ! e, c)) rest)) (queue_pop q)"
proof -
  let ?f = "\<lambda>(e, _ :: nat, c :: rat). (e, edge_rank b ! e, c)"
  have "(?f x = ?f y \<longrightarrow> x = y) \<and> (entry_before (?f x) (?f y) \<longleftrightarrow> entry_before x y)" if "x \<in> set q" "y \<in> set q" for x y
    using bspec[OF q that(1)] bspec[OF q that(2)] by (cases x rule: prod_cases3; cases y rule: prod_cases3) (auto simp: entry_before_def)
  then have "queue_pop (map ?f q) = map_option (\<lambda>(x, rest). (?f x, map ?f rest)) (queue_pop q)" by (intro queue_pop_map) blast
  then show ?thesis by (simp add: case_prod_unfold)
qed

definition space_state :: "nat \<Rightarrow> acceleration_bundle \<Rightarrow> direction \<Rightarrow> space_scratch \<Rightarrow> query_state" where
  "space_state n b d s = \<lparr>scratch = space_view n b d s, best_cost = Infinite, best_rank = None\<rparr>"

text \<open>A round of the climb is a round of the query with nothing on the other side.\<close>

lemma space_step_view:
  assumes h: "hierarchy n b ups downs" and sh: "weight_shape b w" and inv: "space_inv n d s"
  shows "query_step b (hierarchy_rows (ranked_build b w)) (\<lambda>_. Cost 0) (space_state n b d s)
      = map_option (space_state n b d) (space_step b (ranked_build b w) d s)
    \<and> (\<forall>s'. space_step b (ranked_build b w) d s = Some s' \<longrightarrow> space_inv n d s')"
proof -
  let ?V = "space_view n b d" and ?rows = "hierarchy_rows (ranked_build b w)" and ?Q = "space_state n b d"
  note o = hierarchy_order[OF h]
  have heap: "\<forall>x\<in>set (space_heap s d). fst x < n \<and> fst (snd x) = 0" using inv by (simp add: space_inv_def)
  have queues: "queue (?V s) d = map (\<lambda>(e, _, c). (e, edge_rank b ! e, c)) (space_heap s d)" "queue (?V s) (opposite d) = []"
    by (simp_all add: space_view_def)
  note pop = space_pop_view[OF h heap, folded queues(1)]
  have other: "queue_peek (queue (?V s) (opposite d)) = Infinite" by (simp add: queues queue_peek_def queue_pop_def)
  have own: "queue_peek (queue (?V s) d) + Cost 0 < Infinite \<longleftrightarrow> queue_pop (space_heap s d) \<noteq> None"
    unfolding queue_peek_def pop by (auto split: option.splits)
  have step: "query_step b ?rows (\<lambda>_. Cost 0) (?Q s) = (if queue_pop (space_heap s d) = None then None else settle b ?rows d (?Q s))"
    using other own by (cases d) (auto simp: query_step_def Let_def space_state_def)
  show ?thesis
  proof (cases "queue_pop (space_heap s d)")
    case None
    then show ?thesis by (simp add: step space_step_def)
  next
    case (Some er)
    obtain e z x rest where er: "queue_pop (space_heap s d) = Some ((e, z, x), rest)" using Some by (cases er) auto
    note p = queue_pop_Some[OF er]
    have e: "e < n" using bspec[OF heap p(1)] by simp
    let ?r = "edge_rank b ! e"
    have r: "?r < n" "edge_order b ! ?r = e" using o(4,5) e by simp_all
    let ?t = "s\<lparr>space_heap := (space_heap s)(d := rest)\<rparr>"
    have tinv: "space_inv n d ?t" using inv p(2) unfolding space_inv_def by (auto simp: subset_iff)
    have tview: "(?V s)\<lparr>queue := (queue (?V s))(d := map (\<lambda>(e, _, c). (e, edge_rank b ! e, c)) rest)\<rparr> = ?V ?t"
      by (simp add: space_view_def fun_eq_iff)
    have lab: "label_at (?V ?t) d ?r = space_dist s d ! e" using space_view_label(1)[OF r(1)] r(2) by simp
    have lab0: "label_at (?V s) d ?r = space_dist s d ! e" using space_view_label(1)[OF r(1)] r(2) by simp
    have no: "label_at (?V ?t) (opposite d) ?r = Infinite" using space_view_label(1)[OF r(1)] by simp
    have rows: "foldl (relax_arc b d ?r x) (?V u) arcs = ?V (foldl (relax_space b d e x) u arcs) \<and> space_inv n d (foldl (relax_space b d e x) u arcs)"
      if "space_inv n d u" "set arcs \<subseteq> set (?rows d ?r)" for arcs u
      using that
    proof (induction arcs arbitrary: u)
      case (Cons a arcs)
      obtain k v where a: "a = (k, v)" by (cases a)
      have k: "k < n" using rows_okD[OF ranked_rows_ok[OF h sh] r(1), of k v d] Cons.prems(2) a by simp
      have ov: "?V (offer_space d u (edge_order b ! k) (Cost x + decoded v) (Some e))
          = offer d (?V u) (edge_order b ! k) (edge_rank b ! (edge_order b ! k)) (Cost x + decoded v) (map_option ((!) (edge_rank b)) (Some e))
        \<and> space_inv n d (offer_space d u (edge_order b ! k) (Cost x + decoded v) (Some e))"
        by (rule offer_space_view[OF h Cons.prems(1) o(2)[OF k]]) (use e in simp)
      have "relax_arc b d ?r x (?V u) a = ?V (relax_space b d e x u a)"
        using ov o(3)[OF k] by (simp add: a relax_arc_offer relax_space_def)
      then show ?case using Cons.IH[of "relax_space b d e x u a"] ov Cons.prems(2) a by (simp add: relax_space_def)
    qed simp
    have f: "foldl (relax_arc b d ?r x) (?V ?t) (?rows d ?r) = ?V (foldl (relax_space b d e x) ?t (?rows d ?r))"
      "space_inv n d (foldl (relax_space b d e x) ?t (?rows d ?r))" using rows[OF tinv order_refl] by blast+
    have vpop: "queue_pop (queue (?V s) d) = Some ((e, ?r, x), map (\<lambda>(e, _, c). (e, edge_rank b ! e, c)) rest)"
      unfolding pop er by simp
    have "settle b ?rows d (?Q s) = Some (?Q (if space_dist s d ! e < Cost x then ?t else foldl (relax_space b d e x) ?t (?rows d ?r)))"
      using lab lab0 no f(1) by (simp add: settle_def vpop space_state_def tview Let_def meet_def)
    then show ?thesis using er tinv f(2) by (auto simp: step space_step_def Let_def)
  qed
qed


section \<open>The scratch between climbs\<close>

text \<open>Everything that is not reset is recorded in \<open>touched\<close>.\<close>

definition space_clean :: "space_scratch \<Rightarrow> bool" where
  "space_clean s \<longleftrightarrow> (\<forall>d. length (space_parent s d) = length (space_dist s d) \<and> length (space_dist s d) = length (space_dist s Forward)
     \<and> (\<forall>e<length (space_dist s d). space_dist s d ! e = Infinite \<and> space_parent s d ! e = None \<or> e \<in> set (space_touched s d)))"

definition other_half :: "direction \<Rightarrow> space_scratch \<Rightarrow> space_scratch \<Rightarrow> bool" where
  "other_half d s s' \<longleftrightarrow> length (space_dist s' d) = length (space_dist s d)
     \<and> (\<forall>d'. d' \<noteq> d \<longrightarrow> space_dist s' d' = space_dist s d' \<and> space_parent s' d' = space_parent s d' \<and> space_touched s' d' = space_touched s d')"

lemma other_half_refl: "other_half d s s"
  by (simp add: other_half_def)

lemma other_half_trans: "other_half d s t \<Longrightarrow> other_half d t u \<Longrightarrow> other_half d s u"
  by (simp add: other_half_def)

lemma offer_space_half: "other_half d s (offer_space d s e c p)"
  by (auto simp: other_half_def offer_space_def update_space_def split: cost.splits)

lemma offers_half: "(\<And>s x. other_half d s (f s x)) \<Longrightarrow> other_half d s (foldl f s xs)"
  by (induction xs rule: rev_induct) (auto intro: other_half_refl other_half_trans)

lemma space_step_half: "space_step b c d s = Some s' \<Longrightarrow> other_half d s s'"
proof -
  assume "space_step b c d s = Some s'"
  then obtain e x rest where p: "s' = s\<lparr>space_heap := (space_heap s)(d := rest)\<rparr>
      \<or> s' = foldl (relax_space b d e x) (s\<lparr>space_heap := (space_heap s)(d := rest)\<rparr>) (hierarchy_rows c d (edge_rank b ! e))"
    unfolding space_step_def Let_def by (auto split: option.splits if_splits) blast+
  let ?t = "s\<lparr>space_heap := (space_heap s)(d := rest)\<rparr>"
  have "other_half d ?t (foldl (relax_space b d e x) ?t (hierarchy_rows c d (edge_rank b ! e)))"
    by (rule offers_half) (auto simp: relax_space_def offer_space_half split: prod.splits)
  then show ?thesis using p by (auto simp: other_half_def)
qed

lemma resize_nth: "length xs \<le> n \<Longrightarrow> i < n \<Longrightarrow> resize n x xs ! i = (if i < length xs then xs ! i else x)"
  by (simp add: resize_def nth_append)

lemma length_resize [simp]: "length (resize n x xs) = n"
  by (simp add: resize_def)

lemma prepare_spaces_nth:
  assumes "space_clean s" "e < length (space_dist (prepare_spaces n s) d)"
  shows "space_dist (prepare_spaces n s) d ! e = Infinite" "space_parent (prepare_spaces n s) d ! e = None"
proof -
  have l: "length (space_parent s d) = length (space_dist s d)" "length (space_dist s d) = length (space_dist s Forward)"
    and old: "e < length (space_dist s d) \<Longrightarrow> space_dist s d ! e = Infinite \<and> space_parent s d ! e = None \<or> e \<in> set (space_touched s d)"
    using assms(1) unfolding space_clean_def by blast+
  have "space_dist (prepare_spaces n s) d ! e = Infinite \<and> space_parent (prepare_spaces n s) d ! e = None"
  proof (cases "length (space_dist s Forward) < n")
    case True
    then have "e < n" using assms(2) by (simp add: prepare_spaces_def Let_def length_foldl_reset)
    then show ?thesis using True l old by (auto simp: prepare_spaces_def Let_def foldl_reset resize_nth)
  next
    case False
    then have "e < length (space_dist s d)" using assms(2) by (simp add: prepare_spaces_def Let_def length_foldl_reset)
    then show ?thesis using False l old by (auto simp: prepare_spaces_def Let_def foldl_reset)
  qed
  then show "space_dist (prepare_spaces n s) d ! e = Infinite" "space_parent (prepare_spaces n s) d ! e = None" by simp_all
qed

lemma prepare_spaces_length:
  assumes "space_clean s"
  shows "n \<le> length (space_dist (prepare_spaces n s) d)" "length (space_dist (prepare_spaces n s) d) = length (space_dist (prepare_spaces n s) Forward)"
    "length (space_parent (prepare_spaces n s) d) = length (space_dist (prepare_spaces n s) d)"
proof -
  have l: "length (space_parent s d) = length (space_dist s d)" "length (space_dist s d) = length (space_dist s Forward)" for d
    using assms unfolding space_clean_def by blast+
  show "n \<le> length (space_dist (prepare_spaces n s) d)" "length (space_dist (prepare_spaces n s) d) = length (space_dist (prepare_spaces n s) Forward)"
    "length (space_parent (prepare_spaces n s) d) = length (space_dist (prepare_spaces n s) d)"
    using l(1)[of d] l(2)[of d] by (simp_all add: prepare_spaces_def Let_def length_foldl_reset)
qed

lemma prepare_spaces_empty: "space_touched (prepare_spaces n s) d = []" "space_heap (prepare_spaces n s) d = []"
  by (simp_all add: prepare_spaces_def Let_def)

lemma prepare_spaces_inv:
  assumes "hierarchy n b ups downs" "space_clean s"
  shows "space_inv n d (prepare_spaces n s)" "space_view n b d (prepare_spaces n s) = prepare n fresh_scratch"
proof -
  note e = prepare_spaces_nth[OF assms(2), where n = n] and l = prepare_spaces_length[OF assms(2), where n = n] and z = prepare_spaces_empty
  have "e < n \<Longrightarrow> e < length (space_dist (prepare_spaces n s) d)" for e using l(1)[of d] by simp
  then show "space_inv n d (prepare_spaces n s)"
    using e l(1)[of d] l(3)[of d] by (auto simp: space_inv_def z)
  have "edge_order b ! r < length (space_dist (prepare_spaces n s) d)" if "r < n" for r
    using hierarchy_order(2)[OF assms(1) that] l(1)[of d] by (rule less_le_trans)
  then have "map (\<lambda>r. \<lparr>label_cost = (\<lambda>d'. if d' = d then space_dist (prepare_spaces n s) d ! (edge_order b ! r) else Infinite),
        label_parent = (\<lambda>d'. if d' = d then map_option ((!) (edge_rank b)) (space_parent (prepare_spaces n s) d ! (edge_order b ! r)) else None)\<rparr>) [0..<n]
      = map (\<lambda>_. EMPTY) [0..<n]"
    by (intro map_cong) (simp_all add: e EMPTY_def fun_eq_iff)
  then show "space_view n b d (prepare_spaces n s) = prepare n fresh_scratch"
    by (simp add: space_view_def z prepare_def fresh_scratch_def map_replicate_const fun_eq_iff)
qed

section \<open>The climb returns\<close>

definition climb_seeds :: "acceleration_bundle \<Rightarrow> direction \<Rightarrow> (nat \<times> cost) list \<Rightarrow> direction \<Rightarrow> (nat \<times> cost) set" where
  "climb_seeds b d seeds d' = (if d' = d then ranked_seeds b seeds else {})"

definition space_seeded :: "acceleration_bundle \<Rightarrow> direction \<Rightarrow> nat \<Rightarrow> (nat \<times> cost) list \<Rightarrow> space_scratch \<Rightarrow> space_scratch" where
  "space_seeded b d n seeds s = foldl (\<lambda>s (e, c). offer_space d s e c None) (prepare_spaces n s) seeds"

lemma space_seeded_inv:
  assumes h: "hierarchy n b ups downs" and cl: "space_clean s" and sd: "seeds_in n seeds"
  shows "space_inv n d (space_seeded b d n seeds s)"
    "query_inv n rows (climb_seeds b d seeds) Infinite (space_state n b d (space_seeded b d n seeds s))"
proof -
  note o = hierarchy_order[OF h] and p = prepare_spaces_inv[OF h cl, of d]
  have f: "space_view n b d (foldl (\<lambda>s (e, c). offer_space d s e c None) u xs) = foldl (add_seed b d) (space_view n b d u) xs
      \<and> space_inv n d (foldl (\<lambda>s (e, c). offer_space d s e c None) u xs)" if "space_inv n d u" "seeds_in n xs" for xs u
    using that
  proof (induction xs arbitrary: u)
    case (Cons x xs)
    obtain e c where x: "x = (e, c)" by (cases x)
    have e: "e < n" "seeds_in n xs" using Cons.prems(2) x by (simp_all add: seeds_in_def)
    note ov = offer_space_view[OF h Cons.prems(1) e(1), of None c, simplified]
    show ?case using Cons.IH[OF conjunct2[OF ov] e(2)] ov by (simp add: x add_seed_offer)
  qed simp
  note f = f[OF p(1) sd, unfolded p(2)]
  show "space_inv n d (space_seeded b d n seeds s)" unfolding space_seeded_def using f by blast
  have sin: "\<forall>(e, c)\<in>set (case d of Forward \<Rightarrow> seeds | Backward \<Rightarrow> []) \<union> set (case d of Forward \<Rightarrow> [] | Backward \<Rightarrow> seeds). edge_rank b ! e < n"
    using sd o(4) by (cases d) (auto simp: seeds_in_def)
  have s: "seeded b (case d of Forward \<Rightarrow> seeds | Backward \<Rightarrow> []) (case d of Forward \<Rightarrow> [] | Backward \<Rightarrow> seeds) (prepare (length (edge_order b)) fresh_scratch)
      = space_view n b d (space_seeded b d n seeds s)"
    using f o(1) by (cases d) (simp_all add: seeded_def space_seeded_def)
  have S: "both_seeds b (case d of Forward \<Rightarrow> seeds | Backward \<Rightarrow> []) (case d of Forward \<Rightarrow> [] | Backward \<Rightarrow> seeds) = climb_seeds b d seeds"
    by (cases d) (auto simp: both_seeds_def climb_seeds_def ranked_seeds_def fun_eq_iff split: direction.splits)
  show "query_inv n rows (climb_seeds b d seeds) Infinite (space_state n b d (space_seeded b d n seeds s))"
    using initial_inv[OF clean_fresh sin o(1)[symmetric], of rows Infinite] unfolding s S space_state_def .
qed

lemma space_loop_returns:
  assumes h: "hierarchy n b ups downs" and sh: "weight_shape b w"
    and "space_inv n d s" "query_inv n (hierarchy_rows (ranked_build b w)) S Infinite (space_state n b d s)"
  shows "\<exists>s'. space_loop b (ranked_build b w) d s = Some s' \<and> space_inv n d s' \<and> other_half d s s'
    \<and> query_inv n (hierarchy_rows (ranked_build b w)) S Infinite (space_state n b d s') \<and> space_heap s' d = []"
  using assms(3,4)
proof (induction "work n (space_view n b d s)" arbitrary: s rule: wf_induct_rule[OF wf_mult1[OF wf_less_than]])
  case (1 s)
  let ?rows = "hierarchy_rows (ranked_build b w)"
  note v = space_step_view[OF h sh 1(2)]
  show ?case
  proof (cases "space_step b (ranked_build b w) d s")
    case None
    then have "queue_pop (space_heap s d) = None" by (auto simp: space_step_def Let_def split: option.splits if_splits)
    then have "space_heap s d = []" by (simp add: queue_pop_def Let_def split: list.splits)
    then show ?thesis using 1(2,3) None other_half_refl by (simp add: space_loop.simps)
  next
    case (Some t)
    then obtain d' where d': "settle b ?rows d' (space_state n b d s) = Some (space_state n b d t)"
      using v query_step_Some[of b ?rows "\<lambda>_. Cost 0" "space_state n b d s" "space_state n b d t"] by auto
    have t: "space_inv n d t" using v Some by blast
    note ro = ranked_rows_ok[OF h sh]
    have sl: "sound_labels n ?rows S (scratch (space_state n b d s))" using 1(3) by (simp add: query_inv_def)
    have "(work n (space_view n b d t), work n (space_view n b d s)) \<in> mult1 less_than"
      using settle_work[OF sl ro d'] by (simp add: space_state_def)
    moreover have "query_inv n ?rows S Infinite (space_state n b d t)" by (rule settle_inv[OF 1(3) ro d'])
    ultimately obtain s' where s': "space_loop b (ranked_build b w) d t = Some s'" "space_inv n d s'" "other_half d t s'"
      "query_inv n ?rows S Infinite (space_state n b d s')" "space_heap s' d = []"
      using 1(1) t by blast
    have "other_half d s s'" by (rule other_half_trans[OF space_step_half[OF Some] s'(3)])
    then show ?thesis using Some s' by (simp add: space_loop.simps)
  qed
qed

lemma space_climb:
  assumes h: "hierarchy n b ups downs" and sh: "weight_shape b w" and "space_clean s" "seeds_in n seeds"
  shows "\<exists>s'. space_loop b (ranked_build b w) d (space_seeded b d n seeds s) = Some s' \<and> space_inv n d s' \<and> space_clean s'
    \<and> query_inv n (hierarchy_rows (ranked_build b w)) (climb_seeds b d seeds) Infinite (space_state n b d s') \<and> space_heap s' d = []"
proof -
  note i = space_seeded_inv[OF h assms(3,4)]
  obtain s' where s': "space_loop b (ranked_build b w) d (space_seeded b d n seeds s) = Some s'" "space_inv n d s'"
    "other_half d (space_seeded b d n seeds s) s'" "space_heap s' d = []"
    "query_inv n (hierarchy_rows (ranked_build b w)) (climb_seeds b d seeds) Infinite (space_state n b d s')"
    using space_loop_returns[OF h sh i] by blast
  have "other_half d (prepare_spaces n s) (space_seeded b d n seeds s)"
    unfolding space_seeded_def by (rule offers_half) (auto simp: offer_space_half split: prod.splits)
  then have oh: "other_half d (prepare_spaces n s) s'" using s'(3) other_half_trans by blast
  note l = prepare_spaces_length[OF assms(3), where n = n] and e = prepare_spaces_nth[OF assms(3), where n = n]
  have len: "length (space_dist s' d') = length (space_dist (prepare_spaces n s) Forward)" for d'
    using oh l(2)[of d'] by (cases "d' = d") (simp_all add: other_half_def)
  have half: "length (space_parent s' d') = length (space_dist s' d')
     \<and> (\<forall>e<length (space_dist s' d'). space_dist s' d' ! e = Infinite \<and> space_parent s' d' ! e = None \<or> e \<in> set (space_touched s' d'))" for d'
  proof (cases "d' = d")
    case True
    have i: "length (space_parent s' d) = length (space_dist s' d)" "\<forall>e. e \<in> set (space_touched s' d) \<longleftrightarrow> e < n \<and> space_dist s' d ! e \<noteq> Infinite"
      "\<forall>e<length (space_dist s' d). space_dist s' d ! e = Infinite \<longrightarrow> space_parent s' d ! e = None"
      "\<forall>e<length (space_dist s' d). n \<le> e \<longrightarrow> space_dist s' d ! e = Infinite"
      using s'(2) unfolding space_inv_def by simp_all
    have "space_dist s' d ! e = Infinite \<and> space_parent s' d ! e = None \<or> e \<in> set (space_touched s' d)" if e: "e < length (space_dist s' d)" for e
    proof (cases "space_dist s' d ! e = Infinite")
      case False
      then have "e < n" using i(4) e not_less by blast
      then show ?thesis using i(2) False by blast
    qed (use i(3) e in blast)
    then show ?thesis unfolding True using i(1) by (intro conjI allI impI)
  next
    case False
    then have eq: "space_dist s' d' = space_dist (prepare_spaces n s) d'" "space_parent s' d' = space_parent (prepare_spaces n s) d'"
      using oh by (simp_all add: other_half_def)
    show ?thesis unfolding eq using l(3) e by blast
  qed
  have "space_clean s'" unfolding space_clean_def using half len by (intro allI conjI) simp_all
  then show ?thesis using s' by blast
qed

end
