(* ===== verification/Space_Join.thy ===== *)
theory Space_Join
  imports Search_Space Grouping
begin

text \<open>
  Joining two complete search spaces answers the route query exactly: a stored space lists every state its
  climb reaches with the cost of a real climb, the merge finds the cheapest shared state, and the stored
  arcs unpack to a path of legal transitions of that cost.
\<close>

section \<open>Stored spaces\<close>

text \<open>The ends of the hierarchy arc that joins a state to its neighbour closer to the seed.\<close>

definition arc_ends :: "direction \<Rightarrow> nat \<Rightarrow> nat \<Rightarrow> nat \<times> nat" where
  "arc_ends d e neighbour = (case d of Forward \<Rightarrow> (neighbour, e) | Backward \<Rightarrow> (e, neighbour))"

definition half_arcs :: "direction \<Rightarrow> (nat \<times> nat) list \<Rightarrow> (nat \<times> nat) list \<Rightarrow> (nat \<times> nat) list" where
  "half_arcs d ups downs = (case d of Forward \<Rightarrow> ups | Backward \<Rightarrow> downs)"

definition entry_ok :: "nat \<Rightarrow> acceleration_bundle \<Rightarrow> (nat \<times> nat) list \<Rightarrow> metric_weights \<Rightarrow> direction \<Rightarrow> (nat \<times> cost) list \<Rightarrow>
    cch_search_space \<Rightarrow> cch_space_entry \<Rightarrow> bool" where
  "entry_ok n b arcs w d seeds sp x \<longleftrightarrow> entry_index x < n \<and> (\<exists>f. entry_cost x = Cost f \<and> (case entry_parent x of
       None \<Rightarrow> entry_arc x = None \<and> (entry_index x, Cost f) \<in> set seeds
     | Some j \<Rightarrow> j < length sp \<and> edge_rank b ! entry_index (sp ! j) < edge_rank b ! entry_index x
         \<and> (\<exists>slot g v. entry_arc x = Some slot \<and> slot < length arcs \<and> arcs ! slot = arc_ends d (entry_index x) (entry_index (sp ! j))
              \<and> entry_cost (sp ! j) = Cost g
              \<and> decoded (arc_weight b w (fst (arcs ! slot)) (snd (arcs ! slot))) = Cost v \<and> g + v \<le> f)))"

definition space_ok :: "nat \<Rightarrow> acceleration_bundle \<Rightarrow> (nat \<times> nat) list \<Rightarrow> metric_weights \<Rightarrow> direction \<Rightarrow> (nat \<times> cost) list \<Rightarrow>
    cch_search_space \<Rightarrow> bool" where
  "space_ok n b arcs w d seeds sp \<longleftrightarrow> sorted_wrt (<) (map entry_index sp) \<and> (\<forall>x\<in>set sp. entry_ok n b arcs w d seeds sp x)"

lemma those_map: "(\<And>x. x \<in> set xs \<Longrightarrow> f x = Some (g x)) \<Longrightarrow> those (map f xs) = Some (map g xs)"
  by (induction xs) simp_all

lemma position_iff:
  "sorted_wrt (<) (map entry_index sp) \<Longrightarrow> space_position sp e = Some i \<longleftrightarrow> i < length sp \<and> entry_index (sp ! i) = e"
proof -
  assume "sorted_wrt (<) (map entry_index sp)"
  then have "binary_search (map entry_index sp) e = Found i \<longleftrightarrow> i < length sp \<and> entry_index (sp ! i) = e"
    by (subst bs.found) auto
  then show ?thesis by (auto simp: space_position_def split: search_result.splits)
qed

text \<open>What the climb knows of a settled state, in terms of edges.\<close>

lemma settled_state:
  assumes h: "hierarchy n b ups downs" and sh: "weight_shape b w" and inv: "space_inv n d s"
    and q: "query_inv n (hierarchy_rows (ranked_build b w)) (climb_seeds b d seeds) Infinite (space_state n b d s)"
    and sd: "seeds_in n seeds" and e: "e < n" "space_dist s d ! e = Cost f"
  shows "case space_parent s d ! e of None \<Rightarrow> (e, Cost f) \<in> set seeds
    | Some p \<Rightarrow> p < n \<and> edge_rank b ! p < edge_rank b ! e \<and> (\<exists>slot g v. neighbour_slot b d e p = Some slot
        \<and> slot < length (half_arcs d ups downs) \<and> half_arcs d ups downs ! slot = arc_ends d e p \<and> space_dist s d ! p = Cost g
        \<and> decoded (arc_weight b w (fst (arc_ends d e p)) (snd (arc_ends d e p))) = Cost v \<and> g + v \<le> f)"
proof -
  note o = hierarchy_order[OF h]
  let ?rows = "hierarchy_rows (ranked_build b w)" and ?V = "space_view n b d s" and ?r = "edge_rank b ! e"
  have r: "?r < n" "edge_order b ! ?r = e" using o(4,5) e(1) by simp_all
  have len: "e < length (space_dist s d)" using inv e(1) by (simp add: space_inv_def)
  have lab: "label_at ?V d ?r = Cost f" using space_view_label(1)[OF r(1)] r(2) e(2) by simp
  have par: "parent_at ?V d ?r = map_option ((!) (edge_rank b)) (space_parent s d ! e)" using space_view_label(2)[OF r(1)] r(2) by simp
  have "sound_labels n ?rows (climb_seeds b d seeds) ?V" using q by (simp add: query_inv_def space_state_def)
  then have ex: "explained ?rows (climb_seeds b d seeds) ?V d (parent_at ?V d ?r) ?r f"
    using r(1) lab unfolding sound_labels_def by blast
  show ?thesis
  proof (cases "space_parent s d ! e")
    case None
    then have "(?r, Cost f) \<in> ranked_seeds b seeds" using ex par by (simp add: explained_def climb_seeds_def)
    then have "(edge_order b ! ?r, Cost f) \<in> set seeds" by (rule ranked_seed_edge[OF h sd])
    then show ?thesis using None r(2) by simp
  next
    case (Some p)
    have p: "p < n" using inv len Some unfolding space_inv_def by blast
    have rp: "edge_rank b ! p < n" "edge_order b ! (edge_rank b ! p) = p" using o(4,5) p by simp_all
    obtain g v x where l: "edge_rank b ! p < ?r" "label_at ?V d (edge_rank b ! p) = Cost g" "(?r, v) \<in> set (?rows d (edge_rank b ! p))"
      "decoded v = Cost x" "g + x \<le> f"
      using ex unfolding par Some by (auto simp: explained_def linked_def)
    have g: "space_dist s d ! p = Cost g" using l(2) space_view_label(1)[OF rp(1)] rp(2) by simp
    have arc: "arc_ends d e p \<in> set (half_arcs d ups downs)" "v = arc_weight b w (fst (arc_ends d e p)) (snd (arc_ends d e p))"
      using l(3) upward_row_set[OF h sh rp(1), of ?r v] downward_row_set[OF h rp(1), of ?r v w] r(2) rp(2)
      by (cases d; simp add: hierarchy_rows_def arc_ends_def half_arcs_def)+
    then obtain slot where slot: "slot < length (half_arcs d ups downs)" "half_arcs d ups downs ! slot = arc_ends d e p"
      by (metis in_set_conv_nth)
    have "neighbour_slot b d e p = Some slot"
      using slot upward_slot_iff(1)[OF h p, of e slot] upward_slot_iff(2)[OF h e(1), of p slot]
      by (cases d) (simp_all add: neighbour_slot_def arc_ends_def half_arcs_def)
    then show ?thesis using Some p l(1,4,5) g slot arc(2) by auto
  qed
qed

lemma from_unsorted_ok:
  assumes h: "hierarchy n b ups downs" and sh: "weight_shape b w" and inv: "space_inv n d s"
    and q: "query_inv n (hierarchy_rows (ranked_build b w)) (climb_seeds b d seeds) Infinite (space_state n b d s)"
    and sd: "seeds_in n seeds"
  shows "\<exists>sp. from_unsorted (neighbour_slot b d) (space_entries d s) = Some sp \<and> space_ok n b (half_arcs d ups downs) w d seeds sp
    \<and> (\<forall>e f. (\<exists>x\<in>set sp. entry_index x = e \<and> entry_cost x = Cost f) \<longleftrightarrow> e < n \<and> space_dist s d ! e = Cost f)"
proof -
  let ?mk = "\<lambda>e. \<lparr>entry_index = e, entry_cost = space_dist s d ! e, entry_arc = None, entry_parent = space_parent s d ! e\<rparr>"
  define T where "T = sort (space_touched s d)"
  define es where "es = map ?mk T"
  have es: "sort_key entry_index (space_entries d s) = es"
    by (simp add: space_entries_def sort_key_map es_def T_def)
  have idx: "map entry_index es = T" by (simp add: es_def o_def)
  have T: "sorted_wrt (<) T" "\<And>e. e \<in> set T \<longleftrightarrow> e < n \<and> space_dist s d ! e \<noteq> Infinite"
    using inv by (simp_all add: T_def strict_sorted_iff space_inv_def)
  note st = settled_state[OF h sh inv q sd]
  define fin where "fin e = (case space_parent s d ! e of None \<Rightarrow> ?mk e
    | Some p \<Rightarrow> (?mk e)\<lparr>entry_arc := neighbour_slot b d e p, entry_parent := space_position es p\<rparr>)" for e
  have pos: "\<exists>i<length T. space_position es p = Some i \<and> T ! i = p" if "p \<in> set T" for p
  proof -
    obtain i where i: "i < length T" "T ! i = p" using \<open>p \<in> set T\<close> by (auto simp: in_set_conv_nth)
    have "space_position es p = Some i" using position_iff[of es p i] T(1) i idx by (simp add: es_def)
    then show ?thesis using i by blast
  qed
  have known: "\<exists>f. space_dist s d ! e = Cost f \<and> e < n" if "e \<in> set T" for e
    using T(2)[of e] that by (cases "space_dist s d ! e") simp_all
  have parent_in: "p \<in> set T \<and> (\<exists>slot. neighbour_slot b d e p = Some slot)" if m: "e \<in> set T" "space_parent s d ! e = Some p" for e p
  proof -
    obtain f where f: "space_dist s d ! e = Cost f" "e < n" using known[OF m(1)] by blast
    show ?thesis using st[OF f(2,1)] T(2)[of p] unfolding m(2) by fastforce
  qed
  have res: "resolve_entry (neighbour_slot b d) es (?mk e) = Some (fin e)" if e: "e \<in> set T" for e
  proof (cases "space_parent s d ! e")
    case (Some p)
    show ?thesis using parent_in[OF e Some] pos[of p] Some by (auto simp: resolve_entry_def fin_def)
  qed (simp add: resolve_entry_def fin_def)
  define sp where "sp = map fin T"
  have sp: "from_unsorted (neighbour_slot b d) (space_entries d s) = Some sp"
    unfolding from_unsorted_def Let_def es using those_map[of T "\<lambda>e. resolve_entry (neighbour_slot b d) es (?mk e)" fin] res
    by (simp add: es_def sp_def o_def)
  have fin: "entry_index (fin e) = e" "entry_cost (fin e) = space_dist s d ! e" for e
    by (simp_all add: fin_def split: option.splits)
  have "entry_ok n b (half_arcs d ups downs) w d seeds sp (fin e)" if e: "e \<in> set T" for e
  proof -
    obtain f where f: "space_dist s d ! e = Cost f" "e < n" using known[OF e] by blast
    show ?thesis
    proof (cases "space_parent s d ! e")
      case None
      then show ?thesis using st[OF f(2,1)] f by (simp add: entry_ok_def fin_def)
    next
      case (Some p)
      obtain i where i: "i < length T" "space_position es p = Some i" "T ! i = p" using pos parent_in[OF e Some] by blast
      have j: "i < length sp" "entry_index (sp ! i) = p" "entry_cost (sp ! i) = space_dist s d ! p" using i by (simp_all add: sp_def fin)
      obtain slot g v where sl: "neighbour_slot b d e p = Some slot" "slot < length (half_arcs d ups downs)"
        "half_arcs d ups downs ! slot = arc_ends d e p" "space_dist s d ! p = Cost g"
        "decoded (arc_weight b w (fst (arc_ends d e p)) (snd (arc_ends d e p))) = Cost v" "g + v \<le> f" "edge_rank b ! p < edge_rank b ! e"
        using st[OF f(2,1)] Some by auto
      have a: "entry_parent (fin e) = Some i" "entry_arc (fin e) = Some slot" using Some i(2) sl(1) by (simp_all add: fin_def)
      show ?thesis using f sl j by (simp add: entry_ok_def fin a)
    qed
  qed
  then have "space_ok n b (half_arcs d ups downs) w d seeds sp"
    using T(1) by (auto simp: space_ok_def sp_def fin o_def)
  moreover have "(\<exists>x\<in>set sp. entry_index x = e \<and> entry_cost x = Cost f) \<longleftrightarrow> e < n \<and> space_dist s d ! e = Cost f" for e f
    using T(2)[of e] by (auto simp: sp_def fin)
  ultimately show ?thesis using sp by blast
qed

section \<open>A complete space\<close>

definition space_complete :: "acceleration_bundle \<Rightarrow> metric_weights \<Rightarrow> direction \<Rightarrow> (nat \<times> cost) list \<Rightarrow> cch_search_space \<Rightarrow> bool" where
  "space_complete b w d seeds sp \<longleftrightarrow> (\<forall>r c. climbs (hierarchy_rows (ranked_build b w)) d (ranked_seeds b seeds) r c \<longrightarrow>
     (\<exists>x\<in>set sp. \<exists>f. entry_index x = edge_order b ! r \<and> entry_cost x = Cost f \<and> f \<le> c + slack r))"

text \<open>Building returns a well-formed space that lists every climb from the seeds, up to the improvement margin.\<close>

lemma build_cch_space_spec:
  assumes u: "unpackable n b ups downs w base" and cl: "space_clean s" and sd: "seeds_in n seeds"
  shows "\<exists>s' sp. build_cch_space \<lparr>graph_source = b, graph_ranked = ranked_build b w, graph_unpack = t\<rparr> d n seeds s = Some (s', sp)
    \<and> space_clean s' \<and> space_ok n b (half_arcs d ups downs) w d seeds sp
    \<and> space_complete b w d seeds sp"
proof -
  have h: "hierarchy n b ups downs" and sh: "weight_shape b w" using u by (simp_all add: unpackable_def)
  note o = hierarchy_order[OF h]
  let ?rows = "hierarchy_rows (ranked_build b w)" and ?S = "climb_seeds b d seeds"
  obtain s' where s': "space_loop b (ranked_build b w) d (space_seeded b d n seeds s) = Some s'" "space_inv n d s'" "space_clean s'"
    "query_inv n ?rows ?S Infinite (space_state n b d s')" "space_heap s' d = []"
    using space_climb[OF h sh cl sd] by blast
  obtain sp where sp: "from_unsorted (neighbour_slot b d) (space_entries d s') = Some sp" "space_ok n b (half_arcs d ups downs) w d seeds sp"
    "\<forall>e f. (\<exists>x\<in>set sp. entry_index x = e \<and> entry_cost x = Cost f) \<longleftrightarrow> e < n \<and> space_dist s' d ! e = Cost f"
    using from_unsorted_ok[OF h sh s'(2,4) sd] by blast
  let ?q = "space_state n b d s'"
  have rk: "\<forall>(r, x)\<in>?S d. r < n" using sd o(4) by (auto simp: climb_seeds_def ranked_seeds_def seeds_in_def)
  have empty: "queue (scratch ?q) d' = []" for d' using s'(5) by (simp add: space_state_def space_view_def)
  have late: "best_cost ?q \<le> queue_peek (queue (scratch ?q) d') + (\<lambda>_. Cost 0) (opposite d')" for d'
    unfolding empty by (simp add: queue_peek_def queue_pop_def space_state_def)
  have "\<exists>x\<in>set sp. \<exists>f. entry_index x = edge_order b ! r \<and> entry_cost x = Cost f \<and> f \<le> c + slack r"
    if c: "climbs ?rows d (ranked_seeds b seeds) r c" for r c
  proof -
    have c': "climbs ?rows d (?S d) r c" using c by (simp add: climb_seeds_def)
    have r: "r < n" by (rule climb_rank[OF c' ranked_rows_ok[OF h sh] rk])
    obtain f where f: "label_at (scratch ?q) d r = Cost f" "f \<le> c + slack r"
      using climb_reached[OF s'(4) ranked_rows_ok[OF h sh] rk late c'] by (auto simp: space_state_def)
    have "space_dist s' d ! (edge_order b ! r) = Cost f" using f(1) space_view_label(1)[OF r, of b d s' d] by (simp add: space_state_def)
    then show ?thesis using sp(3) o(2)[OF r] f(2) by blast
  qed
  moreover have "build_cch_space \<lparr>graph_source = b, graph_ranked = ranked_build b w, graph_unpack = t\<rparr> d n seeds s = Some (s', sp)"
    using s'(1) sp(1) by (simp add: build_cch_space_def Let_def space_seeded_def)
  ultimately show ?thesis using s'(3) sp(2) unfolding space_complete_def by blast
qed

section \<open>The merge\<close>

definition lookup_entry :: "cch_search_space \<Rightarrow> nat \<Rightarrow> cch_space_entry option" where
  "lookup_entry sp e = find (\<lambda>x. entry_index x = e) sp"

definition improved :: "(cost \<times> nat) option \<Rightarrow> cost \<times> nat \<Rightarrow> (cost \<times> nat) option" where
  "improved best ce = (case best of None \<Rightarrow> Some ce | Some (known, _) \<Rightarrow> if fst ce < known then Some ce else best)"

definition visit_entry :: "cch_search_space \<Rightarrow> (cost \<times> nat) option \<Rightarrow> cch_space_entry \<Rightarrow> (cost \<times> nat) option" where
  "visit_entry ys best x = (case lookup_entry ys (entry_index x) of None \<Rightarrow> best
     | Some y \<Rightarrow> improved best (entry_cost x + entry_cost y, entry_index x))"

lemma lookup_later: "entry_index y < e \<Longrightarrow> lookup_entry (y # ys) e = lookup_entry ys e"
  by (simp add: lookup_entry_def)

lemma foldl_visit_later: "\<forall>x\<in>set xs. entry_index y < entry_index x \<Longrightarrow> foldl (visit_entry (y # ys)) best xs = foldl (visit_entry ys) best xs"
  by (induction xs arbitrary: best) (simp_all add: visit_entry_def lookup_later)

text \<open>The two-cursor merge visits the forward entries in order and looks each up in the backward space.\<close>

lemma merge_spaces_visits:
  "sorted_wrt (<) (map entry_index xs) \<Longrightarrow> sorted_wrt (<) (map entry_index ys) \<Longrightarrow>
    merge_spaces best xs ys = foldl (visit_entry ys) best xs"
proof (induction best xs ys rule: merge_spaces.induct)
  case (1 best ys)
  then show ?case by simp
next
  case (2 best x xs)
  have "foldl (visit_entry []) best zs = best" for zs
    by (induction zs arbitrary: best) (simp_all add: visit_entry_def lookup_entry_def)
  from this[of "x # xs"] show ?case by simp
next
  case (3 best x xs y ys)
  have later: "\<forall>z\<in>set xs. entry_index x < entry_index z" using "3.prems"(1) by simp
  show ?case
  proof (cases "entry_index x" "entry_index y" rule: linorder_cases)
    case less
    then have "lookup_entry (y # ys) (entry_index x) = None"
      using "3.prems"(2) by (auto simp: lookup_entry_def find_None_iff)
    then show ?thesis using less "3.IH"(1) "3.prems" by (simp add: visit_entry_def)
  next
    case greater
    then have "foldl (visit_entry (y # ys)) best (x # xs) = foldl (visit_entry ys) best (x # xs)"
      using later by (intro foldl_visit_later) auto
    then show ?thesis using greater "3.IH"(2) "3.prems" by simp
  next
    case equal
    define new where "new = improved best (entry_cost x + entry_cost y, entry_index x)"
    have m: "merge_spaces best (x # xs) (y # ys) = merge_spaces new xs ys"
      using equal by (cases best) (auto simp: new_def improved_def Let_def)
    have v: "visit_entry (y # ys) best x = new" using equal by (simp add: visit_entry_def lookup_entry_def new_def)
    have "merge_spaces new xs ys = foldl (visit_entry ys) new xs"
      using "3.IH"(3)[of "entry_cost x + entry_cost y"] equal "3.prems"
      by (cases best) (auto simp: new_def improved_def split: if_splits)
    also have "\<dots> = foldl (visit_entry (y # ys)) new xs" using later equal by (simp add: foldl_visit_later)
    finally show ?thesis unfolding m by (simp add: v)
  qed
qed

lemma lookup_iff: "sorted_wrt (<) (map entry_index sp) \<Longrightarrow> lookup_entry sp e = Some y \<longleftrightarrow> y \<in> set sp \<and> entry_index y = e"
  by (induction sp) (auto simp: lookup_entry_def)

text \<open>The least sum over the shared states.\<close>

lemma visits_least:
  assumes "sorted_wrt (<) (map entry_index ys)"
  defines "r xs \<equiv> foldl (visit_entry ys) None xs"
  shows "(\<forall>x\<in>set xs. \<forall>y\<in>set ys. entry_index x = entry_index y \<longrightarrow> (\<exists>c e. r xs = Some (c, e) \<and> c \<le> entry_cost x + entry_cost y))
    \<and> (\<forall>c e. r xs = Some (c, e) \<longrightarrow> (\<exists>x\<in>set xs. \<exists>y\<in>set ys. entry_index x = e \<and> entry_index y = e \<and> c = entry_cost x + entry_cost y))"
proof (induction xs rule: rev_induct)
  case (snoc x xs)
  have s: "r (xs @ [x]) = visit_entry ys (r xs) x" by (simp add: r_def)
  show ?case
  proof (cases "lookup_entry ys (entry_index x)")
    case None
    then have no: "\<forall>y\<in>set ys. entry_index y \<noteq> entry_index x" by (simp add: lookup_entry_def find_None_iff)
    have "r (xs @ [x]) = r xs" using None by (simp add: s visit_entry_def)
    then show ?thesis using snoc no by (auto dest: not_sym)
  next
    case (Some y)
    note li = lookup_iff[OF assms(1), of "entry_index x", unfolded Some option.inject]
    have y: "y \<in> set ys" "entry_index y = entry_index x" using li[of y] by simp_all
    let ?c = "entry_cost x + entry_cost y"
    have s': "r (xs @ [x]) = improved (r xs) (?c, entry_index x)" using Some by (simp add: s visit_entry_def)
    have bound: "\<forall>x'\<in>set (xs @ [x]). \<forall>z\<in>set ys. entry_index x' = entry_index z \<longrightarrow> k \<le> entry_cost x' + entry_cost z"
      if k: "\<forall>x'\<in>set xs. \<forall>z\<in>set ys. entry_index x' = entry_index z \<longrightarrow> k \<le> entry_cost x' + entry_cost z" "k \<le> ?c" for k
    proof (intro ballI impI)
      fix x' z assume m: "x' \<in> set (xs @ [x])" "z \<in> set ys" "entry_index x' = entry_index z"
      show "k \<le> entry_cost x' + entry_cost z"
      proof (cases "x' \<in> set xs")
        case False
        then have "x' = x" using m(1) by simp
        then show ?thesis using li[of z] m(2,3) k(2) by simp
      qed (use k(1) m in blast)
    qed
    have done_if: ?thesis if "r (xs @ [x]) = Some (k, i)"
        "\<forall>x'\<in>set xs. \<forall>z\<in>set ys. entry_index x' = entry_index z \<longrightarrow> k \<le> entry_cost x' + entry_cost z" "k \<le> ?c"
        "\<exists>x'\<in>set (xs @ [x]). \<exists>z\<in>set ys. entry_index x' = i \<and> entry_index z = i \<and> k = entry_cost x' + entry_cost z" for k i
      unfolding that(1) using bound[OF that(2,3)] that(4) by simp
    have new: "\<exists>x'\<in>set (xs @ [x]). \<exists>z\<in>set ys. entry_index x' = entry_index x \<and> entry_index z = entry_index x \<and> ?c = entry_cost x' + entry_cost z"
      using y by auto
    show ?thesis
    proof (cases "r xs")
      case None
      then have "\<forall>x'\<in>set xs. \<forall>z\<in>set ys. entry_index x' = entry_index z \<longrightarrow> ?c \<le> entry_cost x' + entry_cost z" using snoc by auto
      then show ?thesis using None by (intro done_if[OF _ _ _ new]) (simp_all add: s' improved_def)
    next
      case (Some ce)
      obtain c e where ce: "ce = (c, e)" by (cases ce)
      have low: "\<forall>x'\<in>set xs. \<forall>z\<in>set ys. entry_index x' = entry_index z \<longrightarrow> c \<le> entry_cost x' + entry_cost z"
        using snoc Some ce by auto
      have attained: "\<exists>x'\<in>set (xs @ [x]). \<exists>z\<in>set ys. entry_index x' = e \<and> entry_index z = e \<and> c = entry_cost x' + entry_cost z"
        using snoc Some ce by auto
      show ?thesis
      proof (cases "?c < c")
        case True
        then have "r (xs @ [x]) = Some (?c, entry_index x)" using Some ce by (simp add: s' improved_def)
        moreover have "\<forall>x'\<in>set xs. \<forall>z\<in>set ys. entry_index x' = entry_index z \<longrightarrow> ?c \<le> entry_cost x' + entry_cost z"
          using low True by (meson less_imp_le order_trans)
        ultimately show ?thesis by (intro done_if[OF _ _ _ new]) simp_all
      next
        case False
        then have r: "r (xs @ [x]) = Some (c, e)" using Some ce by (simp add: s' improved_def)
        show ?thesis by (rule done_if[OF r low _ attained]) (use False in simp)
      qed
    qed
  qed
qed (simp add: r_def)

section \<open>The stored arcs\<close>

lemma arc_chain_append:
  "arc_chain b ups downs w x as y d \<Longrightarrow> arc_chain b ups downs w y bs z e \<Longrightarrow> arc_chain b ups downs w x (as @ bs) z (d + e)"
proof (induction "as" arbitrary: x d)
  case (Cons a as)
  then obtain v where v: "decoded (arc_weight b w x (arc_head b a)) = Cost v" "arc_chain b ups downs w (arc_head b a) as y (d - v)" by auto
  have "arc_chain b ups downs w (arc_head b a) (as @ bs) z (d - v + e)" by (rule Cons.IH[OF v(2) Cons.prems(2)])
  then show ?case using Cons.prems(1) v(1) by (simp add: algebra_simps)
qed simp

text \<open>The chain of a direction, in the order of travel.\<close>

definition travelled :: "direction \<Rightarrow> acceleration_bundle \<Rightarrow> (nat \<times> nat) list \<Rightarrow> (nat \<times> nat) list \<Rightarrow> metric_weights \<Rightarrow>
    nat \<Rightarrow> hierarchy_arc list \<Rightarrow> nat \<Rightarrow> rat \<Rightarrow> bool" where
  "travelled d b ups downs w e as seed v \<longleftrightarrow> (case d of
       Forward \<Rightarrow> arc_chain b ups downs w seed (rev as) e v | Backward \<Rightarrow> arc_chain b ups downs w e as seed v)"

lemma space_arc_ok:
  assumes h: "hierarchy n b ups downs" and "slot < length (half_arcs d ups downs)"
    "half_arcs d ups downs ! slot = arc_ends d e p" "decoded (arc_weight b w (fst (arc_ends d e p)) (snd (arc_ends d e p))) = Cost v"
  defines "a \<equiv> (case d of Forward \<Rightarrow> \<lparr>is_upward = True, arc_tail = p, arc_slot = slot\<rparr>
       | Backward \<Rightarrow> \<lparr>is_upward = False, arc_tail = e, arc_slot = slot\<rparr>)"
  shows "arc_ok b ups downs w a" "arc_tail a = fst (arc_ends d e p)" "arc_head b a = snd (arc_ends d e p)"
proof -
  show hd: "arc_head b a = snd (arc_ends d e p)"
    using assms(2,3) h by (cases d) (simp_all add: a_def arc_head_def hierarchy_def half_arcs_def arc_ends_def)
  show tl: "arc_tail a = fst (arc_ends d e p)" by (cases d) (simp_all add: a_def arc_ends_def)
  show "arc_ok b ups downs w a"
    using assms(2,3) hd tl decoded_Cost[OF assms(4)]
    by (cases d) (simp_all add: arc_ok_def a_def half_arcs_def arc_ends_def)
qed

lemma space_chain_spec:
  assumes h: "hierarchy n b ups downs" and ok: "space_ok n b (half_arcs d ups downs) w d seeds sp"
  shows "i < length sp \<Longrightarrow> entry_cost (sp ! i) = Cost f \<Longrightarrow>
    \<exists>as j s0 v. space_chain sp d i acc = Some (acc @ as, j) \<and> j < length sp \<and> (entry_index (sp ! j), Cost s0) \<in> set seeds
      \<and> travelled d b ups downs w (entry_index (sp ! i)) as (entry_index (sp ! j)) v \<and> s0 + v \<le> f"
proof (induction "edge_rank b ! entry_index (sp ! i)" arbitrary: i f acc rule: less_induct)
  case less
  have eo: "entry_ok n b (half_arcs d ups downs) w d seeds sp (sp ! i)" using ok less.prems(1) unfolding space_ok_def by simp
  show ?case
  proof (cases "entry_parent (sp ! i)")
    case None
    then have z: "entry_arc (sp ! i) = None" "(entry_index (sp ! i), Cost f) \<in> set seeds"
      using eo less.prems(2) by (simp_all add: entry_ok_def)
    have "space_chain sp d i acc = Some (acc @ [], i)"
      using z(1) by (simp add: space_chain.simps[of sp d i] space_arc_def)
    moreover have "travelled d b ups downs w (entry_index (sp ! i)) [] (entry_index (sp ! i)) 0"
      by (cases d) (simp_all add: travelled_def)
    ultimately show ?thesis using less.prems(1) z(2)
      by (intro exI[of _ "[]"] exI[of _ i] exI[of _ f] exI[of _ 0]) simp
  next
    case (Some k)
    let ?e = "entry_index (sp ! i)" and ?p = "entry_index (sp ! k)"
    obtain slot g x where l: "k < length sp" "edge_rank b ! ?p < edge_rank b ! ?e" "entry_arc (sp ! i) = Some slot"
      "slot < length (half_arcs d ups downs)" "half_arcs d ups downs ! slot = arc_ends d ?e ?p" "entry_cost (sp ! k) = Cost g"
      "decoded (arc_weight b w (fst (arc_ends d ?e ?p)) (snd (arc_ends d ?e ?p))) = Cost x" "g + x \<le> f"
      using eo less.prems(2) Some by (auto simp: entry_ok_def)
    define a where "a = (case d of Forward \<Rightarrow> \<lparr>is_upward = True, arc_tail = ?p, arc_slot = slot\<rparr>
       | Backward \<Rightarrow> \<lparr>is_upward = False, arc_tail = ?e, arc_slot = slot\<rparr>)"
    note aok = space_arc_ok[OF h l(4,5,7), folded a_def]
    have arc: "space_arc sp d i = Some a" using l(3) Some by (cases d) (simp_all add: space_arc_def a_def)
    obtain as j s0 v where ih: "space_chain sp d k (acc @ [a]) = Some ((acc @ [a]) @ as, j)" "j < length sp"
      "(entry_index (sp ! j), Cost s0) \<in> set seeds" "travelled d b ups downs w ?p as (entry_index (sp ! j)) v" "s0 + v \<le> g"
      using less.hyps[OF l(2) l(1) l(6), of "acc @ [a]"] by blast
    have "travelled d b ups downs w ?e (a # as) (entry_index (sp ! j)) (v + x)"
    proof (cases d)
      case Forward
      have "arc_chain b ups downs w (entry_index (sp ! j)) (rev as @ [a]) ?e (v + x)"
        using arc_chain_snoc[of b ups downs w "entry_index (sp ! j)" "rev as" ?p v a x] ih(4) aok l(7) Forward
        by (simp add: travelled_def arc_ends_def)
      then show ?thesis using Forward by (simp add: travelled_def)
    next
      case Backward
      then show ?thesis using ih(4) aok l(7) by (simp add: travelled_def arc_ends_def)
    qed
    moreover have "space_chain sp d i acc = Some (acc @ (a # as), j)"
      using arc ih(1) Some by (simp add: space_chain.simps[of sp d i])
    moreover have "s0 + (v + x) \<le> f" using ih(5) l(8) by linarith
    ultimately show ?thesis using ih(2,3) by blast
  qed
qed

lemma reconstruct_cch_space_path_spec:
  assumes u: "unpackable n b ups downs w base" and t: "table_ok b ups downs w t"
    and F: "space_ok n b ups w Forward origin F" and B: "space_ok n b downs w Backward destination B"
    and x: "x \<in> set F" "entry_index x = m" "entry_cost x = Cost f" and y: "y \<in> set B" "entry_index y = m" "entry_cost y = Cost g"
  defines "gr \<equiv> \<lparr>graph_source = b, graph_ranked = ranked_build b w, graph_unpack = t\<rparr>"
  shows "\<exists>t' p c. reconstruct_cch_space_path gr F B m total_cost = Some (gr\<lparr>graph_unpack := t'\<rparr>,
      \<lparr>edge_indexes = p, total_generalized_cost = total_cost\<rparr>) \<and> table_ok b ups downs w t'
      \<and> real_path base origin destination p c \<and> c \<le> f + g"
proof -
  have h: "hierarchy n b ups downs" using u by (simp add: unpackable_def)
  obtain i where i: "i < length F" "F ! i = x" using x(1) by (metis in_set_conv_nth)
  obtain j where j: "j < length B" "B ! j = y" using y(1) by (metis in_set_conv_nth)
  have pos: "space_position F m = Some i" "space_position B m = Some j"
    using position_iff[of F m i] position_iff[of B m j] F B i j x(2) y(2) by (simp_all add: space_ok_def)
  obtain as ir s0 v where fw: "space_chain F Forward i [] = Some (as, ir)" "ir < length F" "(entry_index (F ! ir), Cost s0) \<in> set origin"
    "arc_chain b ups downs w (entry_index (F ! ir)) (rev as) m v" "s0 + v \<le> f"
    using space_chain_spec[OF h, of Forward w origin F i f "[]"] F i x(2,3) by (auto simp: half_arcs_def travelled_def)
  obtain bs jr s1 v' where bw: "space_chain B Backward j [] = Some (bs, jr)" "jr < length B" "(entry_index (B ! jr), Cost s1) \<in> set destination"
    "arc_chain b ups downs w m bs (entry_index (B ! jr)) v'" "s1 + v' \<le> g"
    using space_chain_spec[OF h, of Backward w destination B j g "[]"] B j y(2,3) by (auto simp: half_arcs_def travelled_def)
  let ?s = "entry_index (F ! ir)" and ?z = "entry_index (B ! jr)"
  obtain t' q where pu: "push_arcs b (ranked_build b w) t [?s] (rev as @ bs) = Some (t', [?s] @ q)" "table_ok b ups downs w t'"
    "travel base (?s # q) = Cost (v + v')" "last (?s # q) = ?z"
    using push_arcs_spec[OF u t arc_chain_append[OF fw(4) bw(4)], of "[?s]"] by blast
  have "real_path base origin destination (?s # q) (s0 + (v + v') + s1)"
    unfolding real_path_def using fw(3) bw(3) pu(3,4) by force
  moreover have "s0 + (v + v') + s1 \<le> f + g" using fw(5) bw(5) by linarith
  moreover have "reconstruct_cch_space_path gr F B m total_cost
      = Some (gr\<lparr>graph_unpack := t'\<rparr>, \<lparr>edge_indexes = ?s # q, total_generalized_cost = total_cost\<rparr>)"
    using pos fw(1) bw(1) pu(1) by (simp add: reconstruct_cch_space_path_def gr_def)
  ultimately show ?thesis using pu(2) by blast
qed

section \<open>The joined route\<close>

lemma join_correct:
  assumes rd: "ready n b ups downs w base" and t: "table_ok b ups downs w t" and n: "n \<le> 2 ^ 40"
    and so: "tick_seeds n origin" and sd: "tick_seeds n destination"
    and F: "space_ok n b ups w Forward origin F" "space_complete b w Forward origin F"
    and B: "space_ok n b downs w Backward destination B" "space_complete b w Backward destination B"
  defines "gr \<equiv> \<lparr>graph_source = b, graph_ranked = ranked_build b w, graph_unpack = t\<rparr>"
  shows "case join_cch_spaces F B of
      None \<Rightarrow> \<nexists>p c. route n base origin destination p c
    | Some (joined, meeting) \<Rightarrow> \<exists>t' p c. reconstruct_cch_space_path gr F B meeting joined
          = Some (gr\<lparr>graph_unpack := t'\<rparr>, \<lparr>edge_indexes = p, total_generalized_cost = joined\<rparr>)
        \<and> table_ok b ups downs w t' \<and> real_path base origin destination p c \<and> Cost c \<le> joined
        \<and> (\<forall>p' c'. route n base origin destination p' c' \<longrightarrow> c \<le> c' \<and> joined < Cost (c' + 1 / 1024))"
proof -
  have u: "unpackable n b ups downs w base" using rd by (simp add: ready_def)
  then have h: "hierarchy n b ups downs" and sh: "weight_shape b w" by (simp_all add: unpackable_def)
  let ?rows = "hierarchy_rows (ranked_build b w)"
  have sF: "sorted_wrt (<) (map entry_index F)" and sB: "sorted_wrt (<) (map entry_index B)" using F(1) B(1) by (simp_all add: space_ok_def)
  note least = visits_least[OF sB, of F, folded merge_spaces_visits[OF sF sB, of None] join_cch_spaces_def]
  have bound: "\<exists>k e. join_cch_spaces F B = Some (k, e) \<and> k \<le> Cost (c + 2 * slack n)" if rt: "route n base origin destination p c" for p c
  proof -
    obtain m a a' where m: "climbs ?rows Forward (ranked_seeds b origin) m a" "climbs ?rows Backward (ranked_seeds b destination) m a'" "a + a' \<le> c"
      using route_meets[OF rd rt] by (auto simp: both_seeds_def)
    obtain x f where x: "x \<in> set F" "entry_index x = edge_order b ! m" "entry_cost x = Cost f" "f \<le> a + slack m"
      using F(2) m(1) unfolding space_complete_def by blast
    obtain y g where y: "y \<in> set B" "entry_index y = edge_order b ! m" "entry_cost y = Cost g" "g \<le> a' + slack m"
      using B(2) m(2) unfolding space_complete_def by blast
    obtain k e where k: "join_cch_spaces F B = Some (k, e)" "k \<le> entry_cost x + entry_cost y" using least x(1,2) y(1,2) by metis
    have "\<forall>(r, x)\<in>ranked_seeds b origin. r < n"
      using so hierarchy_order(4)[OF h] by (auto simp: ranked_seeds_def tick_seeds_def)
    then have "m < n" by (rule climb_rank[OF m(1) ranked_rows_ok[OF h sh]])
    then have "slack m \<le> slack n" using slack_mono[of m n] by (simp add: EPSILON_def)
    then have "f + g \<le> c + 2 * slack n" using x(4) y(4) m(3) by linarith
    then have "entry_cost x + entry_cost y \<le> Cost (c + 2 * slack n)" using x(3) y(3) by simp
    then show ?thesis using k order_trans by blast
  qed
  show ?thesis
  proof (cases "join_cch_spaces F B")
    case None
    then show ?thesis using bound by auto
  next
    case (Some ce)
    obtain k e where ce: "ce = (k, e)" by (cases ce)
    obtain x y where xy: "x \<in> set F" "y \<in> set B" "entry_index x = e" "entry_index y = e" "k = entry_cost x + entry_cost y"
      using least Some ce by blast
    have "entry_ok n b ups w Forward origin F x" "entry_ok n b downs w Backward destination B y"
      using F(1) B(1) xy(1,2) unfolding space_ok_def by blast+
    then obtain f g where fg: "entry_cost x = Cost f" "entry_cost y = Cost g" unfolding entry_ok_def by blast
    obtain t' p c where r: "reconstruct_cch_space_path gr F B e k = Some (gr\<lparr>graph_unpack := t'\<rparr>, \<lparr>edge_indexes = p, total_generalized_cost = k\<rparr>)"
      "table_ok b ups downs w t'" "real_path base origin destination p c" "c \<le> f + g"
      using reconstruct_cch_space_path_spec[OF u t F(1) B(1) xy(1,3) fg(1) xy(2,4) fg(2), of k, folded gr_def] by blast
    have "c \<le> c' \<and> k < Cost (c' + 1 / 1024)" if rt: "route n base origin destination p' c'" for p' c'
    proof -
      have kb: "k \<le> Cost (c' + 2 * slack n)" using bound[OF rt] Some ce by auto
      then have "c \<le> c' + 2 * slack n" using r(4) fg xy(5) by simp
      moreover have "tick c" by (rule real_path_tick[OF so sd r(3)])
      moreover have "tick c'" by (rule real_path_tick[OF so sd route_real_path[OF rt]])
      ultimately have "c \<le> c'" using tick_gap n by blast
      then show ?thesis using kb fg xy(5) slack_below_tick[OF n] by simp
    qed
    moreover have "Cost c \<le> k" using r(4) fg xy(5) by simp
    ultimately show ?thesis using Some ce r(1-3) by auto
  qed
qed

end
