(* ===== verification/Buckets.thy ===== *)
theory Buckets
  imports Space_Join
begin

text \<open>
  The cells of a matrix (\<open>crates/query/src/engine/many_to_many.rs\<close>): the target spaces inverted into
  buckets by hierarchy state (\<open>BackwardBuckets\<close>), one scan of an origin's space for all targets, and the
  answer of a cell from the scan or from a direct join (\<open>CellShared::joined\<close>). \<open>NO_PREVIOUS_ARC\<close> is
  \<open>None\<close>; the counters are \<open>u32\<close> in the code and do not wrap below \<open>2 ^ 32\<close> entries.
\<close>

section \<open>Buckets\<close>

record backward_buckets =
  state_bucket :: "nat list"
  bucket_first :: "nat list"
  bucket_entries :: "(cost \<times> nat) list"

text \<open>The nested loops over the spaces and their entries visit these.\<close>

definition flat_entries :: "(nat \<times> cch_search_space) list \<Rightarrow> (nat \<times> cost \<times> nat) list" where
  "flat_entries spaces = concat (map (\<lambda>(target, sp). map (\<lambda>x. (entry_index x, entry_cost x, target)) sp) spaces)"

definition count_state :: "nat list \<times> nat list \<Rightarrow> nat \<Rightarrow> nat list \<times> nat list" where
  "count_state = (\<lambda>(ids, counts) e.
     let (ids, counts) = (if ids ! e = 0 then (ids[e := length counts + 1], counts @ [0]) else (ids, counts))
     in (ids, counts[ids ! e - 1 := counts ! (ids ! e - 1) + 1]))"

definition running_starts :: "nat list \<Rightarrow> nat list" where
  "running_starts counts = foldl (\<lambda>first count. first @ [first ! (length first - 1) + count]) [0] counts"

definition build_buckets :: "nat \<Rightarrow> (nat \<times> cch_search_space) list \<Rightarrow> backward_buckets" where
  "build_buckets edge_total spaces =
     (let items = flat_entries spaces;
          (ids, counts) = foldl count_state (replicate edge_total 0, []) (map fst items);
          first = running_starts counts;
          (_, entries) = foldl scatter_step (take (length counts) first, replicate (first ! length counts) (Cost 0, 0))
            (map (\<lambda>(e, entry). (ids ! e - 1, entry)) items)
      in \<lparr>state_bucket = ids, bucket_first = first, bucket_entries = entries\<rparr>)"

type_synonym scan_slot = "cost \<times> nat option"

definition scan_pair :: "cch_space_entry \<Rightarrow> scan_slot list \<Rightarrow> cost \<times> nat \<Rightarrow> scan_slot list" where
  "scan_pair x best = (\<lambda>(backward_cost, target). let c = entry_cost x + backward_cost
     in if c < fst (best ! target) then best[target := (c, Some (entry_index x))] else best)"

definition scan_entry :: "backward_buckets \<Rightarrow> scan_slot list \<Rightarrow> cch_space_entry \<Rightarrow> scan_slot list" where
  "scan_entry bk best x = (let bucket = state_bucket bk ! entry_index x
     in if bucket = 0 then best
        else foldl (scan_pair x) best (subslice (bucket_entries bk) (bucket_first bk ! (bucket - 1)) (bucket_first bk ! bucket)))"

definition scan_space :: "backward_buckets \<Rightarrow> cch_search_space \<Rightarrow> scan_slot list \<Rightarrow> scan_slot list" where
  "scan_space bk forward best = foldl (scan_entry bk) (replicate (length best) (Infinite, None)) forward"

text \<open>The buckets hold the spaces of the primary candidates \<open>ids\<close>; \<open>u32::MAX\<close> for a candidate without a slot
  is \<open>None\<close>.\<close>

definition bucket_slots :: "nat \<Rightarrow> nat list \<Rightarrow> nat option list" where
  "bucket_slots m ids = foldl (\<lambda>slots (slot, id). slots[id := Some slot]) (replicate m None) (enumerate 0 ids)"

definition primary_buckets :: "nat \<Rightarrow> cch_search_space list \<Rightarrow> nat list \<Rightarrow> backward_buckets" where
  "primary_buckets edge_total backwards ids = build_buckets edge_total (enumerate 0 (map ((!) backwards) ids))"

definition joined :: "backward_buckets \<Rightarrow> nat option list \<Rightarrow> nat \<Rightarrow> bool \<Rightarrow> cch_search_space list \<Rightarrow>
    cch_search_space list \<Rightarrow> nat \<Rightarrow> nat \<Rightarrow> (cost \<times> nat) option" where
  "joined bk slots bucket_count use_buckets forwards backwards i j =
     (case (if use_buckets then slots ! j else None) of
        Some k \<Rightarrow> (let (c, meeting) = scan_space bk (forwards ! i) (replicate bucket_count (Infinite, None)) ! k
          in map_option (Pair c) meeting)
      | None \<Rightarrow> join_cch_spaces (forwards ! i) (backwards ! j))"

text \<open>\<open>SpaceTable::prebuild\<close>: the spaces of all unique candidates, with one worker's scratch.\<close>

fun build_spaces :: "acceleration_graph \<Rightarrow> direction \<Rightarrow> nat \<Rightarrow> (nat \<times> cost) list list \<Rightarrow> space_scratch \<Rightarrow>
    (space_scratch \<times> cch_search_space list) option" where
  "build_spaces g d n [] s = Some (s, [])"
| "build_spaces g d n (seeds # rest) s = (case build_cch_space g d n seeds s of None \<Rightarrow> None
     | Some (s', sp) \<Rightarrow> map_option (\<lambda>(s'', sps). (s'', sp # sps)) (build_spaces g d n rest s'))"

section \<open>The numbering of the states\<close>

definition counted :: "nat \<Rightarrow> nat list \<Rightarrow> nat list \<times> nat list \<Rightarrow> bool" where
  "counted n ps = (\<lambda>(ids, counts). length ids = n
     \<and> (\<forall>e<n. ids ! e \<le> length counts \<and> (ids ! e = 0 \<longleftrightarrow> e \<notin> set ps))
     \<and> (\<forall>e<n. \<forall>e'<n. ids ! e = ids ! e' \<longrightarrow> ids ! e \<noteq> 0 \<longrightarrow> e = e')
     \<and> (\<forall>k<length counts. counts ! k = length (filter (\<lambda>e. ids ! e = Suc k) ps)))"

lemma count_state_counted:
  assumes "counted n ps s" "e < n" "\<forall>e\<in>set ps. e < n"
  shows "counted n (ps @ [e]) (count_state s e)"
proof -
  obtain ids counts where s: "s = (ids, counts)" by (cases s)
  have c: "length ids = n" "\<And>e. e < n \<Longrightarrow> ids ! e \<le> length counts" "\<And>e. e < n \<Longrightarrow> ids ! e = 0 \<longleftrightarrow> e \<notin> set ps"
    "\<And>e e'. e < n \<Longrightarrow> e' < n \<Longrightarrow> ids ! e = ids ! e' \<Longrightarrow> ids ! e \<noteq> 0 \<Longrightarrow> e = e'"
    "\<And>k. k < length counts \<Longrightarrow> counts ! k = length (filter (\<lambda>e. ids ! e = Suc k) ps)"
    using assms(1) by (auto simp: counted_def s)
  show ?thesis
  proof (cases "ids ! e = 0")
    case True
    let ?ids = "ids[e := Suc (length counts)]"
    have r: "count_state s e = (?ids, counts @ [1])"
      using True assms(2) c(1) by (simp add: s count_state_def nth_append)
    have e: "e \<notin> set ps" using c(3)[OF assms(2)] True by simp
    have same: "filter (\<lambda>e'. ?ids ! e' = Suc k) ps = filter (\<lambda>e'. ids ! e' = Suc k) ps" for k
      by (rule filter_cong[OF refl]) (use e in \<open>metis nth_list_update_neq\<close>)
    have none: "filter (\<lambda>e'. ids ! e' = Suc (length counts)) ps = []"
      using c(2) assms(3) by (fastforce simp: filter_empty_conv)
    have inj: "e1 = e2" if "e1 < n" "e2 < n" "?ids ! e1 = ?ids ! e2" "?ids ! e1 \<noteq> 0" for e1 e2
      using that c(2)[of e1] c(2)[of e2] c(4)[of e1 e2] c(1) assms(2) by (auto simp: nth_list_update split: if_splits)
    have cnt: "(counts @ [1]) ! k = length (filter (\<lambda>e. ?ids ! e = Suc k) (ps @ [e]))" if "k < Suc (length counts)" for k
      using that c(5)[of k] assms(2) c(1) none by (auto simp: same nth_append less_Suc_eq)
    have bound: "?ids ! e' \<le> length (counts @ [1]) \<and> (?ids ! e' = 0 \<longleftrightarrow> e' \<notin> set (ps @ [e]))" if "e' < n" for e'
      using c(2)[OF that] c(3)[OF that] c(1) assms(2) by (cases "e' = e") simp_all
    show ?thesis unfolding r counted_def prod.case
      using c(1) bound inj cnt by (intro conjI allI impI) simp_all
  next
    case False
    let ?k = "ids ! e - 1"
    have k: "?k < length counts" "ids ! e = Suc ?k" using False c(2)[OF assms(2)] by simp_all
    have r: "count_state s e = (ids, counts[?k := Suc (counts ! ?k)])" using False by (simp add: s count_state_def)
    have e: "e \<in> set ps" using c(3)[OF assms(2)] False by simp
    have cnt: "counts[?k := Suc (counts ! ?k)] ! j = length (filter (\<lambda>e. ids ! e = Suc j) (ps @ [e]))" if "j < length counts" for j
      using that k c(5)[of j] by (auto simp: nth_list_update)
    show ?thesis unfolding r counted_def prod.case
      using c(1-4) e cnt by (auto simp: insert_absorb)
  qed
qed

lemma counted_all: "\<forall>e\<in>set ps. e < n \<Longrightarrow> counted n ps (foldl count_state (replicate n 0, []) ps)"
proof (induction ps rule: rev_induct)
  case Nil
  then show ?case by (simp add: counted_def)
next
  case (snoc e ps)
  then show ?case using count_state_counted[of n ps _ e] by simp
qed

lemma running_starts_snoc: "running_starts (cs @ [c]) = running_starts cs @ [running_starts cs ! (length (running_starts cs) - 1) + c]"
  by (simp add: running_starts_def)

lemma length_running_starts [simp]: "length (running_starts cs) = Suc (length cs)"
  by (induction cs rule: rev_induct) (simp_all add: running_starts_def)

lemma running_starts_nth: "k \<le> length cs \<Longrightarrow> running_starts cs ! k = (\<Sum>i<k. cs ! i)"
proof (induction cs arbitrary: k rule: rev_induct)
  case Nil
  then show ?case by (simp add: running_starts_def)
next
  case (snoc c cs)
  have cong: "(\<Sum>i<j. (cs @ [c]) ! i) = (\<Sum>i<j. cs ! i)" if "j \<le> length cs" for j
    by (rule sum.cong) (use that in \<open>auto simp: nth_append\<close>)
  show ?case
  proof (cases "k = Suc (length cs)")
    case True
    then show ?thesis using snoc.IH cong by (simp add: running_starts_snoc nth_append)
  next
    case False
    then have "k \<le> length cs" using snoc.prems by simp
    then show ?thesis using snoc.IH cong by (simp add: running_starts_snoc nth_append)
  qed
qed

text \<open>The bucket of a state holds the entries of that state, in the order of the spaces.\<close>

lemma bucket_row:
  assumes small: "\<forall>(target, sp)\<in>set spaces. \<forall>x\<in>set sp. entry_index x < n" and e: "e < n"
  defines "bk \<equiv> build_buckets n spaces"
  shows "(if state_bucket bk ! e = 0 then []
      else subslice (bucket_entries bk) (bucket_first bk ! (state_bucket bk ! e - 1)) (bucket_first bk ! (state_bucket bk ! e)))
    = map snd (filter (\<lambda>a. fst a = e) (flat_entries spaces))"
proof -
  define items where "items = flat_entries spaces"
  have keys: "\<forall>a\<in>set items. fst a < n" using small by (fastforce simp: items_def flat_entries_def)
  obtain ids counts where ic: "foldl count_state (replicate n 0, []) (map fst items) = (ids, counts)" by fastforce
  let ?m = "length counts" and ?keyed = "map (\<lambda>(e, entry). (ids ! e - 1, entry)) items"
  have "counted n (map fst items) (ids, counts)" using counted_all[of "map fst items" n] keys ic by simp
  then have c: "\<And>e. e < n \<Longrightarrow> ids ! e \<le> ?m" "\<And>e. e < n \<Longrightarrow> ids ! e = 0 \<longleftrightarrow> e \<notin> fst ` set items"
    "\<And>e e'. e < n \<Longrightarrow> e' < n \<Longrightarrow> ids ! e = ids ! e' \<Longrightarrow> ids ! e \<noteq> 0 \<Longrightarrow> e = e'"
    "\<And>k. k < ?m \<Longrightarrow> counts ! k = length (filter (\<lambda>e. ids ! e = Suc k) (map fst items))"
    by (auto simp: counted_def)
  have id: "ids ! fst a = Suc (ids ! fst a - 1) \<and> ids ! fst a - 1 < ?m" if a: "a \<in> set items" for a
  proof -
    have "fst a < n" "ids ! fst a \<noteq> 0" using keys a c(2)[of "fst a"] by auto
    then show ?thesis using c(1)[of "fst a"] by simp
  qed
  have kk: "\<forall>a\<in>set ?keyed. fst a < ?m" using id by (auto simp: case_prod_unfold)
  have starts: "running_starts counts ! k = row_starts ?m ?keyed ! k" if "k \<le> ?m" for k
    using that
  proof (induction k)
    case 0
    then show ?case by (simp add: running_starts_nth row_starts_nth)
  next
    case (Suc k)
    have "filter (\<lambda>a. ids ! fst a = Suc k) items = filter (\<lambda>a. ids ! fst a - 1 = k) items"
      by (rule filter_cong) (use id in auto)
    then have "counts ! k = length (filter (\<lambda>a. fst a = k) ?keyed)"
      using c(4)[of k] Suc.prems by (simp add: filter_map comp_def case_prod_unfold)
    then show ?case using Suc row_starts_Suc[of k ?m ?keyed] by (simp add: running_starts_nth)
  qed
  have first: "running_starts counts = row_starts ?m ?keyed"
    by (rule nth_equalityI) (simp_all add: starts)
  have total_len: "running_starts counts ! ?m = length ?keyed"
    using kk by (simp add: starts row_starts_nth)
  obtain wr out where wo: "foldl scatter_step (take ?m (running_starts counts), replicate (running_starts counts ! ?m) (Cost 0, 0)) ?keyed = (wr, out)"
    by fastforce
  have bk: "bk = \<lparr>state_bucket = ids, bucket_first = running_starts counts, bucket_entries = out\<rparr>"
    unfolding bk_def build_buckets_def Let_def items_def[symmetric] ic prod.case wo ..
  have grouped: "group_by_key ?m (Cost 0, 0) ?keyed = (running_starts counts, out)"
    using wo[unfolded total_len] unfolding group_by_key_def Let_def first by simp
  show ?thesis
  proof (cases "ids ! e = 0")
    case True
    then have "e \<notin> fst ` set items" using c(2)[OF e] by simp
    then have "filter (\<lambda>a. fst a = e) items = []" by (auto simp: filter_empty_conv)
    then show ?thesis using True by (simp add: bk items_def)
  next
    case False
    let ?k = "ids ! e - 1"
    have k: "?k < ?m" "ids ! e = Suc ?k" using False c(1)[OF e] by simp_all
    have "(ids ! fst a - 1 = ?k) = (fst a = e)" if a: "a \<in> set items" for a
    proof
      assume "ids ! fst a - 1 = ?k"
      then have eq: "ids ! e = ids ! fst a" using id[OF a] k(2) by simp
      have "fst a < n" using keys a by blast
      then show "fst a = e" using c(3)[OF e _ eq False] by simp
    qed simp
    then have "filter (\<lambda>a. ids ! fst a - 1 = ?k) items = filter (\<lambda>a. fst a = e) items" by (rule filter_cong[OF refl])
    moreover have "subslice out (running_starts counts ! ?k) (running_starts counts ! Suc ?k) = map snd (filter (\<lambda>a. fst a = ?k) ?keyed)"
      using group_by_key_row[OF kk k(1), of "(Cost 0, 0)"] unfolding grouped by simp
    ultimately show ?thesis using False k(2) by (simp add: bk items_def filter_map comp_def case_prod_unfold)
  qed
qed

section \<open>The scan\<close>

text \<open>What the scan does to one target.\<close>

definition slot_pair :: "cch_space_entry \<Rightarrow> scan_slot \<Rightarrow> cost \<Rightarrow> scan_slot" where
  "slot_pair x known backward_cost = (let c = entry_cost x + backward_cost in if c < fst known then (c, Some (entry_index x)) else known)"

lemma scan_pairs_slot:
  "t < length best \<Longrightarrow> \<forall>(bc, target)\<in>set row. target < length best \<Longrightarrow>
    length (foldl (scan_pair x) best row) = length best
    \<and> foldl (scan_pair x) best row ! t = foldl (slot_pair x) (best ! t) (map fst (filter (\<lambda>ct. snd ct = t) row))"
proof (induction row arbitrary: best)
  case (Cons a row)
  obtain bc target where a: "a = (bc, target)" by (cases a)
  have t: "target < length best" using Cons.prems(2) a by simp
  have len: "length (scan_pair x best a) = length best" by (simp add: a scan_pair_def Let_def)
  have "scan_pair x best a ! t = (if target = t then slot_pair x (best ! t) bc else best ! t)"
    using t Cons.prems(1) by (simp add: a scan_pair_def slot_pair_def Let_def nth_list_update)
  then show ?case using Cons.IH[of "scan_pair x best a"] Cons.prems len a by simp
qed simp

text \<open>A target with a sorted space occurs at most once in a bucket.\<close>

lemma flat_entries_lookup:
  assumes "distinct (map fst spaces)" "(t, sp) \<in> set spaces" "sorted_wrt (<) (map entry_index sp)"
  shows "map fst (filter (\<lambda>ct. snd ct = t) (map snd (filter (\<lambda>a. fst a = e) (flat_entries spaces))))
    = (case lookup_entry sp e of None \<Rightarrow> [] | Some y \<Rightarrow> [entry_cost y])"
proof -
  let ?f = "\<lambda>spaces. map fst (filter (\<lambda>ct. snd ct = t) (map snd (filter (\<lambda>a. fst a = e) (flat_entries spaces))))"
  have other: "?f spaces = []" if "t \<notin> fst ` set spaces" for spaces :: "(nat \<times> cch_search_space) list"
    using that by (force simp: flat_entries_def filter_empty_conv)
  have own: "map entry_cost (filter (\<lambda>x. entry_index x = e) sp) = (case lookup_entry sp e of None \<Rightarrow> [] | Some y \<Rightarrow> [entry_cost y])"
    using assms(3)
  proof (induction sp)
    case (Cons y sp)
    show ?case
    proof (cases "entry_index y = e")
      case True
      then have "filter (\<lambda>x. entry_index x = e) sp = []" using Cons.prems by (auto simp: filter_empty_conv)
      then show ?thesis using True by (simp add: lookup_entry_def)
    next
      case False
      then show ?thesis using Cons by (simp add: lookup_entry_def)
    qed
  qed (simp add: lookup_entry_def)
  show ?thesis using assms(1,2)
  proof (induction spaces)
    case (Cons a spaces)
    obtain t' sp' where a: "a = (t', sp')" by (cases a)
    have split: "?f (a # spaces) = (if t' = t then map entry_cost (filter (\<lambda>x. entry_index x = e) sp') else []) @ ?f spaces"
      by (simp add: a flat_entries_def filter_map comp_def)
    show ?case
    proof (cases "t' = t")
      case True
      then have "t \<notin> fst ` set spaces" using Cons.prems(1) a by simp
      moreover from this have "sp' = sp" using Cons.prems(2) a True by force
      ultimately show ?thesis unfolding split using True own other by simp
    next
      case False
      then show ?thesis unfolding split using Cons a by auto
    qed
  qed simp
qed

text \<open>A slot and the running optimum of a direct join.\<close>

definition as_slot :: "(cost \<times> nat) option \<Rightarrow> scan_slot" where
  "as_slot best = (case best of None \<Rightarrow> (Infinite, None) | Some (c, e) \<Rightarrow> (c, Some e))"

lemma slot_pair_improved:
  assumes "entry_cost x = Cost f" "bc = Cost g"
  shows "slot_pair x (as_slot best) bc = as_slot (improved best (entry_cost x + bc, entry_index x))"
  using assms by (cases best) (auto simp: slot_pair_def as_slot_def improved_def Let_def)

lemma scan_join:
  assumes small: "\<forall>(target, sp)\<in>set spaces. target < m \<and> (\<forall>x\<in>set sp. entry_index x < n \<and> entry_cost x \<noteq> Infinite)"
    and d: "distinct (map fst spaces)" and t: "(t, sp) \<in> set spaces" "sorted_wrt (<) (map entry_index sp)"
    and fw: "\<forall>x\<in>set forward. entry_index x < n \<and> entry_cost x \<noteq> Infinite" "sorted_wrt (<) (map entry_index forward)"
  shows "scan_space (build_buckets n spaces) forward (replicate m (Infinite, None)) ! t = as_slot (join_cch_spaces forward sp)"
proof -
  let ?bk = "build_buckets n spaces"
  have tm: "t < m" using small t(1) by auto
  have targets: "target < m" if "(e, bc, target) \<in> set (flat_entries spaces)" for e bc target
    using that small by (force simp: flat_entries_def)
  have "length (foldl (scan_entry ?bk) (replicate m (Infinite, None)) xs) = m
      \<and> foldl (scan_entry ?bk) (replicate m (Infinite, None)) xs ! t = as_slot (foldl (visit_entry sp) None xs)"
    if "set xs \<subseteq> set forward" for xs
    using that
  proof (induction xs rule: rev_induct)
    case Nil
    then show ?case using tm by (simp add: as_slot_def)
  next
    case (snoc x xs)
    let ?best = "foldl (scan_entry ?bk) (replicate m (Infinite, None)) xs" and ?join = "foldl (visit_entry sp) None xs"
    have ih: "length ?best = m" "?best ! t = as_slot ?join" using snoc by simp_all
    have x: "entry_index x < n" "entry_cost x \<noteq> Infinite" using snoc.prems fw(1) by auto
    then obtain f where f: "entry_cost x = Cost f" by (cases "entry_cost x") auto
    define row where "row = map snd (filter (\<lambda>a. fst a = entry_index x) (flat_entries spaces))"
    have step: "scan_entry ?bk ?best x = foldl (scan_pair x) ?best row"
    proof -
      have "\<forall>(target, sp)\<in>set spaces. \<forall>x\<in>set sp. entry_index x < n" using small by fast
      note br = bucket_row[OF this x(1), folded row_def]
      show ?thesis
      proof (cases "state_bucket ?bk ! entry_index x = 0")
        case True
        then have "row = []" using br by simp
        then show ?thesis using True by (simp add: scan_entry_def)
      next
        case False
        then show ?thesis using br by (simp add: scan_entry_def Let_def)
      qed
    qed
    have rowt: "\<forall>(bc, target)\<in>set row. target < length ?best" using targets ih(1) by (auto simp: row_def)
    note sp = scan_pairs_slot[OF _ rowt, of t x]
    have proj: "map fst (filter (\<lambda>ct. snd ct = t) row) = (case lookup_entry sp (entry_index x) of None \<Rightarrow> [] | Some y \<Rightarrow> [entry_cost y])"
      unfolding row_def by (rule flat_entries_lookup[OF d t])
    have "foldl (slot_pair x) (?best ! t) (map fst (filter (\<lambda>ct. snd ct = t) row)) = as_slot (visit_entry sp ?join x)"
    proof (cases "lookup_entry sp (entry_index x)")
      case None
      then show ?thesis by (simp add: proj ih(2) visit_entry_def)
    next
      case (Some y)
      then have "y \<in> set sp" using lookup_iff[OF t(2), of "entry_index x" y] by simp
      then obtain g where g: "entry_cost y = Cost g" using small t(1) by (cases "entry_cost y") fastforce+
      show ?thesis using Some slot_pair_improved[OF f g] by (simp add: proj ih(2) visit_entry_def)
    qed
    then show ?case using sp ih(1) tm step by simp
  qed
  from this[OF order_refl] show ?thesis
    using merge_spaces_visits[OF fw(2) t(2), of None] by (simp add: scan_space_def join_cch_spaces_def)
qed

section \<open>The cells of a matrix\<close>

lemma build_spaces_spec:
  fixes t :: unpack_table
  assumes u: "unpackable n b ups downs w base"
  defines "g \<equiv> \<lparr>graph_source = b, graph_ranked = ranked_build b w, graph_unpack = t\<rparr>"
  shows "space_clean s \<Longrightarrow> \<forall>seeds\<in>set seedss. seeds_in n seeds \<Longrightarrow>
    \<exists>s' sps. build_spaces g d n seedss s = Some (s', sps) \<and> space_clean s' \<and> length sps = length seedss
      \<and> (\<forall>i<length seedss. space_ok n b (half_arcs d ups downs) w d (seedss ! i) (sps ! i) \<and> space_complete b w d (seedss ! i) (sps ! i))"
proof (induction seedss arbitrary: s)
  case (Cons seeds seedss)
  obtain s1 sp where sp: "build_cch_space g d n seeds s = Some (s1, sp)" "space_clean s1"
    "space_ok n b (half_arcs d ups downs) w d seeds sp" "space_complete b w d seeds sp"
    using build_cch_space_spec[OF u Cons.prems(1), of seeds t d] Cons.prems(2) unfolding g_def by auto
  obtain s' sps where r: "build_spaces g d n seedss s1 = Some (s', sps)" "space_clean s'" "length sps = length seedss"
    "\<forall>i<length seedss. space_ok n b (half_arcs d ups downs) w d (seedss ! i) (sps ! i) \<and> space_complete b w d (seedss ! i) (sps ! i)"
    using Cons.IH[OF sp(2)] Cons.prems(2) by auto
  have "space_ok n b (half_arcs d ups downs) w d ((seeds # seedss) ! i) ((sp # sps) ! i)
      \<and> space_complete b w d ((seeds # seedss) ! i) ((sp # sps) ! i)" if "i < length (seeds # seedss)" for i
    using that r(4) sp(3,4) by (cases i) simp_all
  then show ?case using sp(1) r(1-3) by auto
qed simp

lemma space_ok_finite: "space_ok n b arcs w d seeds sp \<Longrightarrow> \<forall>x\<in>set sp. entry_index x < n \<and> entry_cost x \<noteq> Infinite"
  by (auto simp: space_ok_def entry_ok_def)

lemma bucket_slots_nth:
  "j < m \<Longrightarrow> bucket_slots m ids ! j = Some k \<Longrightarrow> k < length ids \<and> ids ! k = j"
proof -
  have "length (bucket_slots m ids) = m
    \<and> (\<forall>j<m. \<forall>k. bucket_slots m ids ! j = Some k \<longrightarrow> k < length ids \<and> ids ! k = j)"
  proof (induction ids rule: rev_induct)
    case (snoc x ids)
    have "bucket_slots m (ids @ [x]) = (bucket_slots m ids)[x := Some (length ids)]"
      by (simp add: bucket_slots_def enumerate_append_eq)
    then have "bucket_slots m (ids @ [x]) ! j = (if x = j then Some (length ids) else bucket_slots m ids ! j)" if "j < m" for j
      using snoc that by simp
    moreover have "length (bucket_slots m (ids @ [x])) = m" using snoc \<open>bucket_slots m (ids @ [x]) = _\<close> by simp
    ultimately show ?case using snoc by (auto simp: nth_append split: if_splits)
  qed (simp add: bucket_slots_def)
  then show "j < m \<Longrightarrow> bucket_slots m ids ! j = Some k \<Longrightarrow> k < length ids \<and> ids ! k = j" by blast
qed

lemma joined_join:
  assumes ok: "\<forall>sp\<in>set backwards. sorted_wrt (<) (map entry_index sp) \<and> (\<forall>x\<in>set sp. entry_index x < n \<and> entry_cost x \<noteq> Infinite)"
    and fw: "\<forall>x\<in>set (forwards ! i). entry_index x < n \<and> entry_cost x \<noteq> Infinite" "sorted_wrt (<) (map entry_index (forwards ! i))"
    and j: "j < length backwards" and ids: "\<forall>id\<in>set ids. id < length backwards"
  shows "joined (primary_buckets n backwards ids) (bucket_slots (length backwards) ids) (length ids) use_buckets forwards backwards i j
    = join_cch_spaces (forwards ! i) (backwards ! j)"
proof (cases "if use_buckets then bucket_slots (length backwards) ids ! j else None")
  case (Some k)
  then have k: "k < length ids" "ids ! k = j" using bucket_slots_nth[OF j] by (auto split: if_splits)
  let ?sps = "map ((!) backwards) ids"
  have sub: "set ?sps \<subseteq> set backwards" using ids by auto
  have "scan_space (build_buckets n (enumerate 0 ?sps)) (forwards ! i) (replicate (length ids) (Infinite, None)) ! k
      = as_slot (join_cch_spaces (forwards ! i) (backwards ! j))"
  proof (rule scan_join[OF _ _ _ _ fw])
    show "\<forall>(target, sp)\<in>set (enumerate 0 ?sps). target < length ids \<and> (\<forall>x\<in>set sp. entry_index x < n \<and> entry_cost x \<noteq> Infinite)"
      using ok ids by (fastforce simp: in_set_enumerate_eq)
    show "(k, backwards ! j) \<in> set (enumerate 0 ?sps)" using k by (simp add: in_set_enumerate_eq)
  qed (use ok j in simp_all)
  then show ?thesis using Some by (auto simp: joined_def as_slot_def primary_buckets_def split: option.splits)
qed (simp add: joined_def)

text \<open>C13: the cells of a matrix are exact. For all origins and destinations with seeds in whole ticks, on a
  built and customized graph and a scratch left by any earlier climb, every search space is built
  without a failed \<open>expect\<close>. Whichever candidates are primary, and whether a cell is answered from the
  bucket scan of its origin or by a direct join, it is empty only if no route joins the two endpoints; otherwise the stored spaces unpack,
  whatever the state of the shared unpacking table, to a path of legal transitions of least cost, and
  the reported cost is that cost to less than one tick (the spaces settle a state only for an
  improvement beyond \<open>EPSILON\<close>).\<close>

theorem matrix_cells_exact:
  fixes t :: unpack_table and topo :: topology and order :: "nat list"
    and bw :: "nat \<Rightarrow> nat \<Rightarrow> rat option" and em :: "edge_metric list" and mode_bit :: u16 and threads :: nat
  defines "b \<equiv> build_with_order (edge_based topo) order" and "n \<equiv> edge_count (edge_based topo)"
  defines "w \<equiv> customize (customization_context_new threads b topo em mode_bit) b topo bw"
    and "base \<equiv> transition_cost topo em mode_bit bw"
  defines "g \<equiv> \<lparr>graph_source = b, graph_ranked = ranked_build b w, graph_unpack = t\<rparr>"
  assumes "customizable topo order" "n \<le> 2 ^ 40" "space_clean s"
    "\<forall>seeds\<in>set origins \<union> set destinations. tick_seeds n seeds"
    "\<forall>id\<in>set ids. id < length destinations"
    "table_ok b (up_arcs (edge_based topo) order) (down_arcs (edge_based topo) order) w t"
  shows "\<exists>s1 forwards s2 backwards. build_spaces g Forward n origins s = Some (s1, forwards) \<and> length forwards = length origins
    \<and> build_spaces g Backward n destinations s1 = Some (s2, backwards) \<and> length backwards = length destinations \<and> space_clean s2
    \<and> (\<forall>i<length origins. \<forall>j<length destinations. \<forall>use_buckets.
         case joined (primary_buckets n backwards ids) (bucket_slots (length backwards) ids) (length ids) use_buckets forwards backwards i j of
           None \<Rightarrow> \<nexists>p c. route n base (origins ! i) (destinations ! j) p c
         | Some (cost, meeting) \<Rightarrow> \<exists>t' p c. reconstruct_cch_space_path g (forwards ! i) (backwards ! j) meeting cost
               = Some (g\<lparr>graph_unpack := t'\<rparr>, \<lparr>edge_indexes = p, total_generalized_cost = cost\<rparr>)
             \<and> table_ok b (up_arcs (edge_based topo) order) (down_arcs (edge_based topo) order) w t'
             \<and> real_path base (origins ! i) (destinations ! j) p c \<and> Cost c \<le> cost
             \<and> (\<forall>p' c'. route n base (origins ! i) (destinations ! j) p' c' \<longrightarrow> c \<le> c' \<and> cost < Cost (c' + 1 / 1024)))"
proof -
  let ?ups = "up_arcs (edge_based topo) order" and ?downs = "down_arcs (edge_based topo) order"
  note rd = ready_customized[OF assms(6), where threads = threads and em = em and mode_bit = mode_bit and bw = bw,
      folded b_def n_def, folded w_def base_def]
  have u: "unpackable n b ?ups ?downs w base" using rd by (simp add: ready_def)
  have in_n: "tick_seeds n seeds \<Longrightarrow> seeds_in n seeds" for seeds by (auto simp: tick_seeds_def seeds_in_def)
  have si: "\<forall>seeds\<in>set origins. seeds_in n seeds" "\<forall>seeds\<in>set destinations. seeds_in n seeds" using assms(9) in_n by blast+
  obtain s1 forwards where F: "build_spaces g Forward n origins s = Some (s1, forwards)" "space_clean s1" "length forwards = length origins"
    "\<forall>i<length origins. space_ok n b ?ups w Forward (origins ! i) (forwards ! i) \<and> space_complete b w Forward (origins ! i) (forwards ! i)"
    using build_spaces_spec[OF u assms(8) si(1), of t Forward] unfolding g_def half_arcs_def by auto
  obtain s2 backwards where B: "build_spaces g Backward n destinations s1 = Some (s2, backwards)" "space_clean s2" "length backwards = length destinations"
    "\<forall>i<length destinations. space_ok n b ?downs w Backward (destinations ! i) (backwards ! i) \<and> space_complete b w Backward (destinations ! i) (backwards ! i)"
    using build_spaces_spec[OF u F(2) si(2), of t Backward] unfolding g_def half_arcs_def by auto
  have ok: "\<forall>sp\<in>set backwards. sorted_wrt (<) (map entry_index sp) \<and> (\<forall>x\<in>set sp. entry_index x < n \<and> entry_cost x \<noteq> Infinite)"
    using B(3,4) space_ok_finite by (fastforce simp: in_set_conv_nth space_ok_def)
  have cell: "case joined (primary_buckets n backwards ids) (bucket_slots (length backwards) ids) (length ids) use_buckets forwards backwards i j of
           None \<Rightarrow> \<nexists>p c. route n base (origins ! i) (destinations ! j) p c
         | Some (cost, meeting) \<Rightarrow> \<exists>t' p c. reconstruct_cch_space_path g (forwards ! i) (backwards ! j) meeting cost
               = Some (g\<lparr>graph_unpack := t'\<rparr>, \<lparr>edge_indexes = p, total_generalized_cost = cost\<rparr>)
             \<and> table_ok b ?ups ?downs w t' \<and> real_path base (origins ! i) (destinations ! j) p c \<and> Cost c \<le> cost
             \<and> (\<forall>p' c'. route n base (origins ! i) (destinations ! j) p' c' \<longrightarrow> c \<le> c' \<and> cost < Cost (c' + 1 / 1024))"
    if i: "i < length origins" and j: "j < length destinations" for i j use_buckets
  proof -
    have f: "space_ok n b ?ups w Forward (origins ! i) (forwards ! i)" "space_complete b w Forward (origins ! i) (forwards ! i)"
      and k: "space_ok n b ?downs w Backward (destinations ! j) (backwards ! j)" "space_complete b w Backward (destinations ! j) (backwards ! j)"
      using F(4) B(4) i j by blast+
    have ts: "tick_seeds n (origins ! i)" "tick_seeds n (destinations ! j)" using assms(9) i j by auto
    have jn: "joined (primary_buckets n backwards ids) (bucket_slots (length backwards) ids) (length ids) use_buckets forwards backwards i j
        = join_cch_spaces (forwards ! i) (backwards ! j)"
      by (rule joined_join[OF ok space_ok_finite[OF f(1)]]) (use f(1) j assms(10) B(3) in \<open>auto simp: space_ok_def\<close>)
    show ?thesis using join_correct[OF rd assms(11) assms(7) ts f k, folded g_def] unfolding jn .
  qed
  show ?thesis using F(1,3) B(1,2,3) cell by blast
qed

definition fresh_spaces :: space_scratch where
  "fresh_spaces = \<lparr>space_dist = \<lambda>_. [], space_parent = \<lambda>_. [], space_touched = \<lambda>_. [], space_heap = \<lambda>_. []\<rparr>"

lemma fresh_spaces_clean: "space_clean fresh_spaces"
  by (simp add: space_clean_def fresh_spaces_def)

theorem matrix_cells_exact_witness:
  "\<exists>s1 forwards s2 backwards cost meeting t' p c.
     build_spaces \<lparr>graph_source = witness_bundle, graph_ranked = ranked_build witness_bundle witness_weights, graph_unpack = fresh_table\<rparr>
       Forward 4 [[(3, Cost 0)]] fresh_spaces = Some (s1, forwards)
     \<and> build_spaces \<lparr>graph_source = witness_bundle, graph_ranked = ranked_build witness_bundle witness_weights, graph_unpack = fresh_table\<rparr>
       Backward 4 [[(2, Cost 0)]] s1 = Some (s2, backwards)
     \<and> joined (primary_buckets 4 backwards [0]) (bucket_slots (length backwards) [0]) 1 True forwards backwards 0 0 = Some (cost, meeting)
     \<and> reconstruct_cch_space_path \<lparr>graph_source = witness_bundle, graph_ranked = ranked_build witness_bundle witness_weights, graph_unpack = fresh_table\<rparr>
         (forwards ! 0) (backwards ! 0) meeting cost
       = Some (\<lparr>graph_source = witness_bundle, graph_ranked = ranked_build witness_bundle witness_weights, graph_unpack = t'\<rparr>,
           \<lparr>edge_indexes = p, total_generalized_cost = cost\<rparr>)
     \<and> real_path (transition_cost witness_topology witness_metrics 1 (\<lambda>_ _. Some 1)) [(3, Cost 0)] [(2, Cost 0)] p c \<and> c \<le> 2 \<and> cost < Cost (2 + 1 / 1024)"
proof -
  let ?g = "\<lparr>graph_source = witness_bundle, graph_ranked = ranked_build witness_bundle witness_weights, graph_unpack = fresh_table\<rparr>"
  let ?base = "transition_cost witness_topology witness_metrics 1 (\<lambda>_ _. Some 1)"
  obtain s1 forwards s2 backwards where r: "build_spaces ?g Forward 4 [[(3, Cost 0)]] fresh_spaces = Some (s1, forwards)"
    "build_spaces ?g Backward 4 [[(2, Cost 0)]] s1 = Some (s2, backwards)"
    "case joined (primary_buckets 4 backwards [0]) (bucket_slots (length backwards) [0]) 1 True forwards backwards 0 0 of
       None \<Rightarrow> \<nexists>p c. route 4 ?base [(3, Cost 0)] [(2, Cost 0)] p c
     | Some (cost, meeting) \<Rightarrow> \<exists>t' p c. reconstruct_cch_space_path ?g (forwards ! 0) (backwards ! 0) meeting cost
           = Some (?g\<lparr>graph_unpack := t'\<rparr>, \<lparr>edge_indexes = p, total_generalized_cost = cost\<rparr>)
         \<and> table_ok witness_bundle witness_ups witness_downs witness_weights t' \<and> real_path ?base [(3, Cost 0)] [(2, Cost 0)] p c \<and> Cost c \<le> cost
         \<and> (\<forall>p' c'. route 4 ?base [(3, Cost 0)] [(2, Cost 0)] p' c' \<longrightarrow> c \<le> c' \<and> cost < Cost (c' + 1 / 1024))"
  proof -
    have ticks: "\<forall>seeds\<in>set [[(3, Cost 0)]] \<union> set [[(2, Cost 0)]]. tick_seeds 4 seeds" by (simp add: witness_seeds)
    have small: "(4 :: nat) \<le> 2 ^ 40" by simp
    have ids: "\<forall>id\<in>set [0]. id < length [[(2 :: nat, Cost 0)]]" by simp
    from matrix_cells_exact[OF witness_customizable, unfolded witness_edges, OF small fresh_spaces_clean ticks ids table_ok_new,
        where threads = 4 and em = witness_metrics and mode_bit = 1 and bw = "\<lambda>_ _. Some 1"]
    obtain s1 forwards s2 backwards where r: "build_spaces ?g Forward 4 [[(3, Cost 0)]] fresh_spaces = Some (s1, forwards)"
      "build_spaces ?g Backward 4 [[(2, Cost 0)]] s1 = Some (s2, backwards)"
      "\<forall>i<length [[(3 :: nat, Cost 0)]]. \<forall>j<length [[(2 :: nat, Cost 0)]]. \<forall>use_buckets.
         case joined (primary_buckets 4 backwards [0]) (bucket_slots (length backwards) [0]) (length [0 :: nat]) use_buckets forwards backwards i j of
           None \<Rightarrow> \<nexists>p c. route 4 ?base ([[(3, Cost 0)]] ! i) ([[(2, Cost 0)]] ! j) p c
         | Some (cost, meeting) \<Rightarrow> \<exists>t' p c. reconstruct_cch_space_path ?g (forwards ! i) (backwards ! j) meeting cost
               = Some (?g\<lparr>graph_unpack := t'\<rparr>, \<lparr>edge_indexes = p, total_generalized_cost = cost\<rparr>)
             \<and> table_ok witness_bundle witness_ups witness_downs witness_weights t'
             \<and> real_path ?base ([[(3, Cost 0)]] ! i) ([[(2, Cost 0)]] ! j) p c \<and> Cost c \<le> cost
             \<and> (\<forall>p' c'. route 4 ?base ([[(3, Cost 0)]] ! i) ([[(2, Cost 0)]] ! j) p' c' \<longrightarrow> c \<le> c' \<and> cost < Cost (c' + 1 / 1024))"
      by (elim exE conjE)
    have z: "(0 :: nat) < length [[(3 :: nat, Cost 0)]]" "(0 :: nat) < length [[(2 :: nat, Cost 0)]]" by simp_all
    note cell = r(3)[rule_format, OF z(1,2), where use_buckets = True, unfolded nth_Cons_0 length_Cons list.size(3) One_nat_def[symmetric]]
    show thesis by (rule that[OF r(1,2) cell])
  qed
  obtain cost meeting where j: "joined (primary_buckets 4 backwards [0]) (bucket_slots (length backwards) [0]) 1 True forwards backwards 0 0
      = Some (cost, meeting)"
    using r(3) witness_route by (cases "joined (primary_buckets 4 backwards [0]) (bucket_slots (length backwards) [0]) 1 True forwards backwards 0 0") auto
  obtain t' p c where c: "reconstruct_cch_space_path ?g (forwards ! 0) (backwards ! 0) meeting cost
      = Some (?g\<lparr>graph_unpack := t'\<rparr>, \<lparr>edge_indexes = p, total_generalized_cost = cost\<rparr>)"
    "real_path ?base [(3, Cost 0)] [(2, Cost 0)] p c"
    and best: "\<forall>p' c'. route 4 ?base [(3, Cost 0)] [(2, Cost 0)] p' c' \<longrightarrow> c \<le> c' \<and> cost < Cost (c' + 1 / 1024)"
    using r(3) unfolding j option.case prod.case by blast
  note least = best[rule_format, OF witness_route]
  have "\<lparr>graph_source = witness_bundle, graph_ranked = ranked_build witness_bundle witness_weights, graph_unpack = t'\<rparr> = ?g\<lparr>graph_unpack := t'\<rparr>"
    by simp
  then show ?thesis using r(1,2) j c least by metis
qed

end
