(* ===== verification/Spec2Isabelle.thy ===== *)
theory Spec2Isabelle
  imports Cch_Concurrent Automaton Timetable_Roundtrip State_Heap Radix_Heap Transit_Exact Patch_Order
    Restricted_Dispatch Buckets
begin

text \<open>
  A verification development for NetWeevil, a local engine for street routing, scheduled transit and
  traffic analysis. The program imports a street network (\<open>crates/ingest\<close>), compiles routing profiles
  for it (\<open>crates/profile\<close>), answers queries on the compiled graph (\<open>crates/query\<close>), routes on GTFS
  timetables (\<open>crates/transit\<close>) and stores its bundles (\<open>crates/persist\<close>); \<open>crates/core\<close> holds the
  shared data types. The development models the exact algorithms at its centre and proves them
  against independent specifications.

  \<^bold>\<open>From a street network to a route.\<close> The states of all street searches are directed edges.
  \<^item> \<open>Edge_Based\<close>: \<open>EdgeBasedTopology::build\<close> (\<open>core/src/graph.rs\<close>), the transitions between edges.
  \<^item> \<open>Cell\<close>, \<open>Components\<close>, \<open>Flow_Network\<close>, \<open>Max_Flow\<close>, \<open>Max_Flow_Exact\<close>, \<open>Max_Flow_Phase\<close>, \<open>Flow_Split\<close>,
    \<open>Inertial\<close>, \<open>Min_Degree\<close>, \<open>Dissect\<close>: nested dissection (\<open>ingest/src/acceleration.rs\<close>). A cell is
    split into components, or by the vertex cut of a Dinic flow between two seed sets, or by the
    median of a coordinate; small cells are ordered by minimum degree. The lemmas give flow
    conservation, the unit-capacity invariant, termination of the phases by a path measure, and
    that the result is a permutation whose cuts separate.
  \<^item> \<open>Patch_Order\<close>: \<open>patch_edge_order\<close>, which carries an order over to a changed network.
  \<^item> \<open>Cch_Build\<close>: the contraction of edge states along an order (\<open>build_with_order\<close>), whose arcs are
    the elimination closure of the transitions.
  \<^item> \<open>Cch_Weights\<close>: the fixed-point \<open>u32\<close> weights of \<open>core/src/metrics.rs\<close> with their two sentinels.
    The locale \<open>path_costs\<close> states what a weight algebra must satisfy for path problems.
  \<^item> \<open>Cch_Customize\<close>, \<open>Cch_Tasks\<close>: customization for one profile (\<open>profile/src/compile.rs\<close>) as a
    sequential fold over the middles of the elimination tasks and the top middles, and how the tasks
    are cut. \<open>Cch_Concurrent\<close> models the same code as it runs on several threads: a step relation
    interleaves single atomic loads and \<open>fetch_min\<close>s of the edges of phase 1, of the tasks and of the
    incoming arcs of a large top middle, and lets the relaxed load of a target return a stale value.
    Every run ends, and in the weights of the sequential pass in rank order.
    \<open>Cch_Paths\<close> holds the theory of triangle relaxation on weight functions inside \<open>path_costs\<close>,
    \<open>Cch_Exact\<close> the refinement of it by the arrays.
  \<^item> \<open>Ranked_Cch\<close>, \<open>Cch_Query\<close>, \<open>Cch_Query_Exact\<close>, \<open>Cch_Unpack\<close>, \<open>Cch_Route\<close>: the renumbered
    hierarchy, the bidirectional query with its reusable scratch, and the unpacking of shortcuts with
    a shared memo table (\<open>query/src/engine/cch_query.rs\<close>, \<open>acceleration.rs\<close>, \<open>graph.rs\<close>).
  \<^item> \<open>Search_Space\<close>, \<open>Space_Join\<close>, \<open>Buckets\<close>: the complete search spaces of matrix queries, their
    linear join and unpacking (\<open>acceleration.rs\<close>), and the bucket scan of all targets
    (\<open>many_to_many.rs\<close>). A climb refines the query with nothing on the other side; scan and join
    give the same cell, and it is exact.
  \<^item> \<open>Dataset\<close>: the composition of all of these, from the street network to a least-cost walk.
  \<^item> \<open>Recustomize\<close>: exact update of a customized hierarchy after some edges change
    (\<open>query/src/engine/recustomize.rs\<close>), equal array by array to a customization from scratch.
  \<^item> \<open>Routing_Graph\<close>: the construction of the routing graph of a profile, with the turn table and
    both directions of its transitions (\<open>query/src/engine/graph.rs\<close>).

  \<^bold>\<open>Restrictions.\<close> \<open>Automaton\<close> models the Aho-Corasick automaton of forbidden edge sequences
  (\<open>query/src/engine/automaton.rs\<close>): every state is the longest suffix of the travelled edges that
  starts a forbidden sequence. One property shows the input order under which its binary search is
  correct, another that this order is necessary.

  \<^bold>\<open>Searches on the restricted graph.\<close>
  \<^item> \<open>Fallback\<close>: the failure modes of a request, with the penalties of edges and transitions and
    their replay along a path (\<open>query/src/engine/fallback.rs\<close>, \<open>requests.rs\<close>, \<open>route.rs\<close>).
  \<^item> \<open>Restricted_Search\<close>, \<open>Guided_Search\<close>, \<open>Restricted_Exact\<close>, \<open>Restricted_Route\<close>: the resumable
    Dijkstra search over edges and automaton states. \<open>Guided_Search\<close> is the abstract search with a
    potential, shared by this search and the next; the lemmas give exactness for every later
    destination, the reported price, and legality of the walk.
  \<^item> \<open>Lower_Bounds\<close>, \<open>Potentials\<close>, \<open>Restricted_Astar\<close>, \<open>Astar_Exact\<close>, \<open>Restricted_Dispatch\<close>: the
    lower-bound hierarchy, potentials memoized along it, the A* search guided by them, and the
    dispatch between A* and Dijkstra (\<open>restricted_astar.rs\<close>, \<open>fallback.rs\<close>), proved to agree.

  \<^bold>\<open>Queues.\<close> \<open>State_Heap\<close> and \<open>Radix_Heap\<close> model the 4-ary heap and the monotone radix heap of the
  searches (\<open>state_heap.rs\<close>, \<open>radix_heap.rs\<close>) and refine a bag with a least element. The searches use
  bags that are popped at the element the Rust order puts first.

  \<^bold>\<open>Transit.\<close> \<open>Timetable_Pack\<close>, \<open>Timetable_Codec\<close>, \<open>Timetable_Runs\<close>, \<open>Timetable_Roundtrip\<close>: the packed
  timetable section (\<open>transit/src/timetable_pack.rs\<close>), varint by varint; the locale \<open>codec\<close> is the
  contract of a reader and its writer. \<open>Transit_Rules\<close>, \<open>Transit_Runtime\<close>, \<open>Transit_Search\<close>,
  \<open>Transit_Exact\<close>: transfer rules, the indexes, and the forward earliest-arrival search
  (\<open>transfer_rules.rs\<close>, \<open>runtime.rs\<close>, \<open>router.rs\<close>), proved to find a journey of least arrival.

  \<^bold>\<open>Shared material.\<close> \<open>Prelude\<close> (slices, \<open>binary_search\<close> and its locale \<open>ordered_search\<close>), \<open>Csr\<close>
  (compressed sparse rows, counting sort, the locale \<open>arc_lookup\<close>) and \<open>Grouping\<close> (stable sorting).

  \<^bold>\<open>Correspondence.\<close> Structs are records with the names of their fields; functions keep their names,
  and a loop body is a definition of its own, folded as the code loops. \<open>u16\<close>, \<open>u32\<close> and \<open>u64\<close> values
  whose bits or wrap-around matter are words; indexes and offsets held in \<open>u32\<close> are natural numbers,
  with the bounds the code needs as hypotheses. A panic (\<open>expect\<close>, an index out of range that a proof
  must exclude) and an error are \<open>None\<close> or \<open>Inl\<close>. Hash maps are maps or association lists.

  \<^bold>\<open>Loops.\<close> Loops that might not end are \<open>partial_function (option)\<close>, and a property or lemma shows
  that they return: the hierarchy query and the climbs of search spaces by a multiset of ranks, the
  restricted searches by settled states and queue length, the potentials by the rank of the stack
  top, the backward search by a multiset of ranks, re-customization by the unset queue bits, the flow
  phases by saturated arcs, the transit search by the pending states, the worker threads by their
  total work. Fuel occurs in few places and is enough there: \<open>climb_failure\<close> and \<open>step_loop\<close> follow
  failure links, which shorten the word of the state, with one round per state; \<open>link_states\<close> visits
  every state once.

  \<^bold>\<open>Numbers.\<close> An \<open>f64\<close> is the rational it denotes, and \<open>Infinite\<close> or \<open>None\<close> if it is not finite.
  Hierarchy costs are multiples of 1/1024 below \<open>2 ^ 32\<close> ticks, whose sums \<open>f64\<close> represents exactly;
  where a code comparison allows a tolerance of \<open>f64::EPSILON\<close>, so does the model, and the
  properties show that it does not matter for such costs. Coordinates and projections of nested
  dissection are rationals; rounding could only change which permutation is returned.

  \<^bold>\<open>Bounds left to hypotheses or to memory.\<close> Counters and offsets that the code keeps in \<open>u32\<close> are natural
  numbers without a bound in \<open>arcs_to_csr\<close>, \<open>build_flow_network\<close>, \<open>edge_based_build\<close>,
  \<open>build_departures_by_stop\<close>, \<open>build_buckets\<close> and, for the condition of packing, \<open>order_by_run\<close>: fewer
  than \<open>2 ^ 32\<close> entries are assumed of the arrays that fit in memory. The \<open>Result\<close> of
  \<open>bincode::serialize_into\<close> is dropped, since writing a derived struct to a \<open>Vec\<close> cannot fail. The
  transit search makes index panics explicit (\<open>Index_Panic\<close>) and excludes them by the hypothesis
  that the references of its tables are in range; ranks handed to \<open>patch_edge_order\<close> must be below the
  sentinel \<open>UNPLACED\<close>.

  \<^bold>\<open>Not modelled.\<close> Threads are interleaved only for customization; the other parallel loops
  (\<open>rayon::join\<close> in nested dissection, the spaces of a matrix, the cells) work on separate data and
  run in sequence in the model, and the relaxed accesses to the unpacking table run one step at a
  time, in any reachable state of the table. Progress reporting, interning of equal arrays, scratch
  pools and background threads (\<open>prepare_lower_bounds_in_background\<close>) do not change values. Turn
  penalties, edge costs, the classification of u-turns and the cost of a second (floating-point
  formulas over tags and geometry) are parameters, and so is the acceleration graph stored in the
  routing graph. \<open>limited_failure_mode_route\<close> and \<open>customize_failure_mode_acceleration\<close> are left out.
  Outside the core: the HTTP API, the command line, the report writers, the importers of the source
  formats, the persistence containers, the agent-based simulation, and the batch, service-area,
  trace-matching and time-dependent query front ends, which call the modelled searches or run
  floating-point and geometric code of their own.
\<close>

end
